(* ===== verification/Shachain_Types.thy ===== *)
theory Shachain_Types
  imports S2pc_Prelude
begin

text \<open>
  The crate \<open>shachain2pc-types\<close> (\<open>rust/crates/shachain2pc-types/src/lib.rs\<close>): the two roles, the
  48-bit index, the 32-byte value, their hexadecimal and bit-vector forms, and the parse errors.
  A \<open>&str\<close> is the list of its bytes (\<open>char list\<close>), \<open>Index48\<close> and \<open>Value32\<close> are newtypes: a
  \<open>u64\<close> at most \<open>MAX_INDEX\<close> and an array of 32 bytes (\<open>wf_value\<close>).
\<close>

section \<open>Constants and data\<close>

definition VALUE_BYTES :: nat where
  "VALUE_BYTES = 32"

definition VALUE_BITS :: nat where
  "VALUE_BITS = 256"

definition INDEX_BITS :: nat where
  "INDEX_BITS = 48"

definition MAX_INDEX :: u64 where
  "MAX_INDEX = push_bit INDEX_BITS 1 - 1"

datatype role = Alice | Bob

datatype parse_error =
    InvalidParty string
  | BadIndexLength nat
  | IndexTooLarge u64
  | BadValueLength nat
  | BadBitLength nat
  | BadHexChar char

datatype index48 = Index48 (index_get: u64)

type_synonym value32 = bytes

definition wf_value :: "value32 \<Rightarrow> bool" where
  "wf_value v \<longleftrightarrow> length v = VALUE_BYTES"

lemma MAX_INDEX_eq: "MAX_INDEX = 2 ^ 48 - 1"
  by (simp add: MAX_INDEX_def INDEX_BITS_def)

lemma unat_MAX_INDEX [simp]: "unat MAX_INDEX = 2 ^ 48 - 1"
  by (simp add: MAX_INDEX_eq)

section \<open>Decimal rendering\<close>

text \<open>\<open>to_string\<close> of an unsigned integer and \<open>str::parse\<close> of a \<open>u64\<close> or a \<open>u8\<close> (base 10).\<close>

definition digit_char :: "nat \<Rightarrow> char" where
  "digit_char d = char_of (48 + d)"

fun dec_string :: "nat \<Rightarrow> string" where
  "dec_string n = (if n < 10 then [digit_char n] else dec_string (n div 10) @ [digit_char (n mod 10)])"

declare dec_string.simps [simp del]

definition char_digit :: "char \<Rightarrow> nat option" where
  "char_digit c = (let n = (of_char c :: nat) in if 48 \<le> n \<and> n \<le> 57 then Some (n - 48) else None)"

fun parse_digits :: "nat \<Rightarrow> string \<Rightarrow> nat \<Rightarrow> nat option" where
  "parse_digits lim [] acc = Some acc"
| "parse_digits lim (c # cs) acc =
     (case char_digit c of None \<Rightarrow> None
      | Some d \<Rightarrow> if 10 * acc + d < lim then parse_digits lim cs (10 * acc + d) else None)"

definition parse_uint :: "nat \<Rightarrow> string \<Rightarrow> nat option" where
  \<comment> \<open>\<open>from_str_radix(10)\<close> for an unsigned type with values below \<open>lim\<close>: one optional \<open>+\<close>, then digits\<close>
  "parse_uint lim s =
     (case s of [] \<Rightarrow> None
      | c # cs \<Rightarrow> if c = CHR ''+'' then (if cs = [] then None else parse_digits lim cs 0)
                 else parse_digits lim s 0)"

section \<open>Hexadecimal digits\<close>

definition hex_nibble :: "char \<Rightarrow> parse_error + u8" where
  "hex_nibble c =
     (let b = (of_char c :: u8) in
      if 0x30 \<le> b \<and> b \<le> 0x39 then Inr (b - 0x30)
      else if 0x61 \<le> b \<and> b \<le> 0x66 then Inr (b - 0x61 + 10)
      else if 0x41 \<le> b \<and> b \<le> 0x46 then Inr (b - 0x41 + 10)
      else Inl (BadHexChar c))"

definition nibble_hex :: "u8 \<Rightarrow> char" where
  "nibble_hex n = ''0123456789abcdef'' ! unat (n AND 0x0f)"

section \<open>Error texts\<close>

fun show_parse_error :: "parse_error \<Rightarrow> string" where
  "show_parse_error (InvalidParty i) = ''party must be 1 or 2, got '' @ i"
| "show_parse_error (BadIndexLength n) = ''FromHexU48: expected 1..12 hex chars, got '' @ dec_string n"
| "show_parse_error (IndexTooLarge v) = ''index exceeds 48 bits: '' @ dec_string (unat v)"
| "show_parse_error (BadValueLength n) = ''FromHex32: expected 64 hex chars, got '' @ dec_string n"
| "show_parse_error (BadBitLength n) = ''expected 256 bits, got '' @ dec_string n"
| "show_parse_error (BadHexChar c) = ''bad hex char '' @ [char_of (39 :: nat)] @ [c] @ [char_of (39 :: nat)]"

section \<open>Roles\<close>

definition from_party_id :: "u8 \<Rightarrow> parse_error + role" where
  "from_party_id i =
     (if i = 1 then Inr Alice else if i = 2 then Inr Bob
      else Inl (InvalidParty (dec_string (unat i))))"

fun party_id :: "role \<Rightarrow> u8" where
  "party_id Alice = 1"
| "party_id Bob = 2"

section \<open>Indices\<close>

definition index_new :: "u64 \<Rightarrow> parse_error + index48" where
  "index_new value = (if value \<le> MAX_INDEX then Inr (Index48 value) else Inl (IndexTooLarge value))"

definition strip_0x :: "string \<Rightarrow> string" where
  "strip_0x input = (if take 2 input = ''0x'' \<or> take 2 input = ''0X'' then drop 2 input else input)"

definition index_from_hex :: "string \<Rightarrow> parse_error + index48" where
  "index_from_hex input =
     (let hex = strip_0x input in
      if hex = [] \<or> length hex > 12 then Inl (BadIndexLength (length hex))
      else bindR (foldR (\<lambda>c value. bindR (hex_nibble c) (\<lambda>n. Inr (push_bit 4 value OR ucast n))) hex 0)
             index_new)"

fun trim_zeros :: "nat \<Rightarrow> string \<Rightarrow> string" where
  "trim_zeros w [] = []"
| "trim_zeros w (c # cs) = (if c = CHR ''0'' \<and> w \<le> length cs then trim_zeros w cs else c # cs)"

definition to_hex12 :: "index48 \<Rightarrow> string" where
  \<comment> \<open>\<open>format!("{:012x}")\<close>: the hexadecimal digits, zero-padded to 12\<close>
  "to_hex12 i = trim_zeros 12 (map (\<lambda>k. nibble_hex (ucast (drop_bit (4 * (15 - k)) (index_get i)))) [0..<16])"

section \<open>Values\<close>

definition value_zero :: value32 where
  "value_zero = replicate VALUE_BYTES 0"

definition value_from_hex :: "string \<Rightarrow> parse_error + value32" where
  "value_from_hex input =
     (if length input \<noteq> VALUE_BYTES * 2 then Inl (BadValueLength (length input))
      else mapR (\<lambda>i. bindR (hex_nibble (input ! (2 * i))) (\<lambda>h.
                     bindR (hex_nibble (input ! (2 * i + 1))) (\<lambda>l. Inr (push_bit 4 h OR l))))
             [0..<VALUE_BYTES])"

definition value_to_hex :: "value32 \<Rightarrow> string" where
  "value_to_hex v = concat (map (\<lambda>b. [nibble_hex (drop_bit 4 b), nibble_hex (b AND 0x0f)]) v)"

definition value_xor :: "value32 \<Rightarrow> value32 \<Rightarrow> value32" where
  "value_xor a b = map (\<lambda>i. a ! i XOR b ! i) [0..<VALUE_BYTES]"

definition to_bits_msb :: "value32 \<Rightarrow> bytes" where
  "to_bits_msb v = map (\<lambda>i. drop_bit (7 - i mod 8) (v ! (i div 8)) AND 1) [0..<VALUE_BITS]"

definition byte_of_bits :: "bytes \<Rightarrow> nat \<Rightarrow> u8" where
  "byte_of_bits bits j = fold (\<lambda>k acc. acc OR push_bit (7 - k) (bits ! (8 * j + k) AND 1)) [0..<8] 0"

definition from_bits_msb :: "bytes \<Rightarrow> parse_error + value32" where
  "from_bits_msb bits =
     (if length bits \<noteq> VALUE_BITS then Inl (BadBitLength (length bits))
      else Inr (map (byte_of_bits bits) [0..<VALUE_BYTES]))"

lemma less_16_cases:
  "m < 16 \<longleftrightarrow> m = 0 \<or> m = 1 \<or> m = 2 \<or> m = 3 \<or> m = 4 \<or> m = 5 \<or> m = 6 \<or> m = 7 \<or> m = 8 \<or> m = 9
     \<or> m = 10 \<or> m = 11 \<or> m = 12 \<or> m = 13 \<or> m = 14 \<or> m = (15::nat)"
  by presburger

lemma nibble_mask: "(0x0f :: 'a::len word) = mask 4"
  by (simp add: mask_eq_exp_minus_1)

lemma unat_nibble: "unat ((n::u8) AND 0x0f) < 16"
proof -
  have "n AND 15 \<le> 15" by (rule word_and_le1)
  then show ?thesis by (simp add: word_le_nat_alt)
qed

lemma hex_nibble_nibble_hex [simp]: "hex_nibble (nibble_hex n) = Inr (n AND 0x0f)"
proof -
  have n: "n AND 0x0f = of_nat (unat (n AND 0x0f))" by simp
  from unat_nibble [of n] show ?thesis
    unfolding less_16_cases
    apply (elim disjE)
    apply (subst n, simp add: nibble_hex_def hex_nibble_def Let_def)+
    done
qed

lemma nibbles_join: "push_bit 4 (drop_bit 4 b AND 0x0f) OR (b AND 0x0f) = (b::u8)"
  unfolding nibble_mask by (rule bit_word_eqI) (auto simp: bit_simps)

lemma dec_string_nonempty [simp]: "dec_string n \<noteq> []"
  by (subst dec_string.simps) simp

lemma char_digit_digit_char: "d < 10 \<Longrightarrow> char_digit (digit_char d) = Some d"
  by (simp add: char_digit_def digit_char_def Let_def)

lemma char_digit_plus: "char_digit (CHR ''+'') = None"
  by (simp add: char_digit_def Let_def)

lemma parse_digits_append:
  "parse_digits lim (xs @ ys) acc = Option.bind (parse_digits lim xs acc) (parse_digits lim ys)"
  by (induction lim xs acc rule: parse_digits.induct) (auto split: option.splits)

lemma parse_digits_dec_string: "n < lim \<Longrightarrow> parse_digits lim (dec_string n) 0 = Some n"
proof (induction n rule: dec_string.induct)
  case (1 n)
  show ?case
  proof (cases "n < 10")
    case True
    with "1.prems" show ?thesis
      by (subst dec_string.simps) (simp add: char_digit_digit_char)
  next
    case False
    then have "n div 10 < lim" using "1.prems" by auto
    with "1.IH" False have "parse_digits lim (dec_string (n div 10)) 0 = Some (n div 10)" by simp
    with False "1.prems" show ?thesis
      by (subst dec_string.simps) (simp add: parse_digits_append char_digit_digit_char)
  qed
qed

lemma dec_string_digits: "c \<in> set (dec_string n) \<Longrightarrow> char_digit c \<noteq> None"
proof (induction n rule: dec_string.induct)
  case (1 n)
  then show ?case
    by (cases "n < 10") (auto simp: char_digit_digit_char dec_string.simps [of n])
qed

lemma parse_uint_dec_string:
  assumes "n < lim"
  shows "parse_uint lim (dec_string n) = Some n"
proof -
  obtain c cs where d: "dec_string n = c # cs" by (cases "dec_string n") auto
  then have "c \<noteq> CHR ''+''" using dec_string_digits [of c n] char_digit_plus by force
  then show ?thesis using parse_digits_dec_string [OF assms] d by (simp add: parse_uint_def)
qed

lemma dec_string_inj: "dec_string m = dec_string n \<longleftrightarrow> m = n"
  by (metis less_Suc_eq_le max.cobounded1 max.cobounded2 option.inject parse_uint_dec_string)

lemma length_to_bits_msb [simp, byte_simps]: "length (to_bits_msb v) = VALUE_BITS"
  by (simp add: to_bits_msb_def)

lemma to_bits_msb_nth: "i < VALUE_BITS \<Longrightarrow> to_bits_msb v ! i = drop_bit (7 - i mod 8) (v ! (i div 8)) AND 1"
  by (simp add: to_bits_msb_def)

lemma and_1_eq_of_bool: "(w :: 'a::len word) AND 1 = of_bool (bit w 0)"
  by (simp add: and_one_eq bit_0 odd_iff_mod_2_eq_one mod2_eq_if)

lemma bit_byte_of_bits:
  "bit (byte_of_bits bits j) m \<longleftrightarrow> m < 8 \<and> bit (bits ! (8 * j + (7 - m))) 0"
proof -
  have gen: "bit (fold (\<lambda>k acc. acc OR push_bit (7 - k) (bits ! (8 * j + k) AND 1)) ks a) m
      \<longleftrightarrow> bit a m \<or> (m < 8 \<and> (\<exists>k\<in>set ks. 7 - k = m \<and> bit (bits ! (8 * j + k)) 0))" for ks and a :: u8
    by (induction ks arbitrary: a) (auto simp: bit_simps and_1_eq_of_bool)
  have "m < 8 \<Longrightarrow> (\<exists>k\<in>set [0..<8]. 7 - k = m \<and> bit (bits ! (8 * j + k)) 0) \<longleftrightarrow> bit (bits ! (8 * j + (7 - m))) 0"
    by (auto intro!: bexI [of _ "7 - m"])
  then show ?thesis unfolding byte_of_bits_def gen by (cases "m < 8") simp_all
qed

lemma from_bits_msb_to_bits_msb:
  assumes "wf_value v"
  shows "from_bits_msb (to_bits_msb v) = Inr v"
proof -
  have "map (byte_of_bits (to_bits_msb v)) [0..<VALUE_BYTES] = v"
  proof (rule nth_equalityI)
    show "length (map (byte_of_bits (to_bits_msb v)) [0..<VALUE_BYTES]) = length v"
      using assms by (simp add: wf_value_def)
  next
    fix j assume "j < length (map (byte_of_bits (to_bits_msb v)) [0..<VALUE_BYTES])"
    then have j: "j < VALUE_BYTES" by simp
    have "byte_of_bits (to_bits_msb v) j = v ! j"
    proof (rule bit_word_eqI)
      fix m assume "m < LENGTH(8)"
      then have m: "m < 8" by simp
      define q where "q = 7 - m"
      have q: "q < 8" "7 - q = m" using m by (auto simp: q_def)
      have "8 * j + q < VALUE_BITS" using j q by (simp add: VALUE_BYTES_def VALUE_BITS_def)
      then have "to_bits_msb v ! (8 * j + q) = drop_bit m (v ! j) AND 1"
        using q by (simp add: to_bits_msb_nth)
      then show "bit (byte_of_bits (to_bits_msb v) j) m = bit (v ! j) m"
        using m by (simp add: bit_byte_of_bits and_1_eq_of_bool bit_simps flip: q_def)
    qed
    then show "map (byte_of_bits (to_bits_msb v)) [0..<VALUE_BYTES] ! j = v ! j" using j by simp
  qed
  then show ?thesis by (simp add: from_bits_msb_def)
qed

lemma to_bits_msb_from_bits_msb:
  assumes "from_bits_msb bits = Inr v"
  shows "to_bits_msb v = map (\<lambda>b. b AND 1) bits" and "wf_value v"
proof -
  from assms have len: "length bits = VALUE_BITS"
    and v: "v = map (byte_of_bits bits) [0..<VALUE_BYTES]"
    by (auto simp: from_bits_msb_def split: if_splits)
  show "wf_value v" by (simp add: v wf_value_def)
  show "to_bits_msb v = map (\<lambda>b. b AND 1) bits"
  proof (rule nth_equalityI)
    show "length (to_bits_msb v) = length (map (\<lambda>b. b AND 1) bits)" by (simp add: len)
  next
    fix i assume "i < length (to_bits_msb v)"
    then have i: "i < VALUE_BITS" by simp
    then have "i div 8 < VALUE_BYTES" by (simp add: VALUE_BYTES_def VALUE_BITS_def)
    moreover have "8 * (i div 8) + (7 - (7 - i mod 8)) = i" "7 - i mod 8 < 8" by presburger+
    ultimately show "to_bits_msb v ! i = map (\<lambda>b. b AND 1) bits ! i"
      using i by (simp add: to_bits_msb_nth v len and_1_eq_of_bool bit_byte_of_bits bit_simps)
  qed
qed

lemma to_bits_msb_inj:
  "wf_value v \<Longrightarrow> wf_value w \<Longrightarrow> to_bits_msb v = to_bits_msb w \<Longrightarrow> v = w"
  by (metis from_bits_msb_to_bits_msb sum.inject(2))

lemma value_to_hex_nth:
  assumes "i < length v"
  shows "value_to_hex v ! (2 * i) = nibble_hex (drop_bit 4 (v ! i))"
    and "value_to_hex v ! (2 * i + 1) = nibble_hex (v ! i AND 0x0f)"
proof -
  have "value_to_hex v ! (2 * i) = nibble_hex (drop_bit 4 (v ! i)) \<and>
        value_to_hex v ! (2 * i + 1) = nibble_hex (v ! i AND 0x0f)"
    using assms
  proof (induction v arbitrary: i)
    case Nil
    then show ?case by simp
  next
    case (Cons b v)
    then show ?case by (cases i) (auto simp: value_to_hex_def)
  qed
  then show "value_to_hex v ! (2 * i) = nibble_hex (drop_bit 4 (v ! i))"
    and "value_to_hex v ! (2 * i + 1) = nibble_hex (v ! i AND 0x0f)" by simp_all
qed

lemma length_value_to_hex [simp]: "length (value_to_hex v) = 2 * length v"
  by (induction v) (auto simp: value_to_hex_def)

lemma value_from_hex_to_hex:
  assumes "wf_value v"
  shows "value_from_hex (value_to_hex v) = Inr v"
proof -
  have step: "bindR (hex_nibble (value_to_hex v ! (2 * i))) (\<lambda>h.
      bindR (hex_nibble (value_to_hex v ! (2 * i + 1))) (\<lambda>l. Inr (push_bit 4 h OR l))) = (Inr (v ! i) :: parse_error + u8)"
    if "i \<in> set [0..<VALUE_BYTES]" for i
  proof -
    have i: "i < length v" using that assms by (simp add: wf_value_def)
    show ?thesis
      by (simp only: value_to_hex_nth [OF i] hex_nibble_nibble_hex bindR_simps nibbles_join and.assoc and.idem)
  qed
  have m: "mapR (\<lambda>i. bindR (hex_nibble (value_to_hex v ! (2 * i))) (\<lambda>h.
      bindR (hex_nibble (value_to_hex v ! (2 * i + 1))) (\<lambda>l. Inr (push_bit 4 h OR l)))) [0..<VALUE_BYTES]
      = Inr (map (\<lambda>i. v ! i) [0..<VALUE_BYTES])"
    by (rule mapR_all_Inr) (rule step)
  have "value_from_hex (value_to_hex v) = Inr (map (\<lambda>i. v ! i) [0..<VALUE_BYTES])"
    using assms m by (simp add: value_from_hex_def wf_value_def)
  moreover have "map (\<lambda>i. v ! i) [0..<VALUE_BYTES] = v"
    using assms map_nth [of v] by (simp add: wf_value_def)
  ultimately show ?thesis by simp
qed

lemma value_from_hex_wf: "value_from_hex s = Inr v \<Longrightarrow> wf_value v"
  by (auto simp: value_from_hex_def wf_value_def dest: mapR_length split: if_splits)

lemma value_xor_wf [simp]: "wf_value (value_xor a b)"
  by (simp add: value_xor_def wf_value_def)

lemma to_bits_msb_xor:
  "i < VALUE_BITS \<Longrightarrow> to_bits_msb (value_xor a b) ! i = to_bits_msb a ! i XOR to_bits_msb b ! i"
  by (simp add: to_bits_msb_nth value_xor_def VALUE_BITS_def VALUE_BYTES_def)
     (rule bit_word_eqI, auto simp: bit_simps)

lemma value_xor_nth: "i < VALUE_BYTES \<Longrightarrow> value_xor a b ! i = a ! i XOR b ! i"
  by (simp add: value_xor_def)



lemma trim_zeros_12: "length s = 12 + k \<Longrightarrow> set (take k s) \<subseteq> {CHR ''0''} \<Longrightarrow> trim_zeros 12 s = drop k s"
proof (induction k arbitrary: s)
  case 0
  then show ?case by (cases s) auto
next
  case (Suc k)
  then show ?case by (cases s) auto
qed

lemma nibble_accumulate:
  "push_bit 4 (drop_bit (4 + m) w) OR ucast ((ucast (drop_bit m (w :: u64)) :: u8) AND 0x0f) = drop_bit m w"
proof (rule bit_word_eqI)
  fix n assume "n < LENGTH(64)"
  show "bit (push_bit 4 (drop_bit (4 + m) w) OR ucast ((ucast (drop_bit m w) :: u8) AND 0x0f)) n = bit (drop_bit m w) n"
  proof (cases "n < 4")
    case True
    then show ?thesis unfolding nibble_mask by (auto simp: bit_simps)
  next
    case False
    then obtain q where "n = 4 + q" by (metis le_add_diff_inverse not_less)
    then show ?thesis using \<open>n < LENGTH(64)\<close> unfolding nibble_mask by (auto simp: bit_simps ac_simps)
  qed
qed

lemma fold_hex_nibbles:
  assumes "w \<le> MAX_INDEX" and "k \<le> 12"
  shows "foldR (\<lambda>c value. bindR (hex_nibble c) (\<lambda>n. Inr (push_bit 4 value OR ucast n)))
     (map (\<lambda>j. nibble_hex (ucast (drop_bit (44 - 4 * j) w))) [0..<k]) 0 = Inr (drop_bit (48 - 4 * k) w)"
  using assms(2)
proof (induction k)
  case 0
  have "w < 2 ^ 48" using assms(1) by (simp add: MAX_INDEX_eq word_less_nat_alt word_le_nat_alt)
  then have "drop_bit 48 w = 0" by (simp add: drop_bit_eq_div div_word_less)
  then show ?case by simp
next
  case (Suc k)
  have s: "48 - 4 * k = 4 + (44 - 4 * k)" "48 - 4 * Suc k = 44 - 4 * k" using Suc.prems by auto
  have "push_bit 4 (drop_bit (48 - 4 * k) w) OR ucast ((ucast (drop_bit (44 - 4 * k) w) :: u8) AND 0x0f)
      = drop_bit (44 - 4 * k) w"
    unfolding s by (rule nibble_accumulate)
  moreover have "foldR (\<lambda>c value. bindR (hex_nibble c) (\<lambda>n. Inr (push_bit 4 value OR ucast n)))
     (map (\<lambda>j. nibble_hex (ucast (drop_bit (44 - 4 * j) w))) [0..<k]) 0 = Inr (drop_bit (48 - 4 * k) w)"
    using Suc by simp
  ultimately show ?case
    by (simp only: upt_Suc le0 if_True map_append list.map foldR_append foldR.simps bindR_simps
        hex_nibble_nibble_hex s(2))
qed

lemma nibble_hex_0: "nibble_hex 0 = CHR ''0''"
  by (simp add: nibble_hex_def)

lemma nibble_hex_not_x: "nibble_hex n \<noteq> CHR ''x''" "nibble_hex n \<noteq> CHR ''X''"
proof -
  have x: "hex_nibble (CHR ''x'') = Inl (BadHexChar (CHR ''x''))" "hex_nibble (CHR ''X'') = Inl (BadHexChar (CHR ''X''))"
    by (simp_all add: hex_nibble_def Let_def)
  show "nibble_hex n \<noteq> CHR ''x''" "nibble_hex n \<noteq> CHR ''X''"
    using hex_nibble_nibble_hex [of n] x by (metis sum.distinct(1))+
qed

lemma to_hex12_digits:
  assumes "index_get i \<le> MAX_INDEX"
  shows "to_hex12 i = map (\<lambda>j. nibble_hex (ucast (drop_bit (44 - 4 * j) (index_get i)))) [0..<12]"
proof -
  let ?w = "index_get i"
  let ?s = "map (\<lambda>k. nibble_hex (ucast (drop_bit (4 * (15 - k)) ?w))) [0..<16]"
  have w: "?w < 2 ^ 48" using assms by (simp add: MAX_INDEX_eq word_less_nat_alt word_le_nat_alt)
  have z: "drop_bit n ?w = 0" if "48 \<le> n" for n
  proof -
    have "drop_bit 48 ?w = 0" using w by (simp add: drop_bit_eq_div div_word_less)
    then have "drop_bit (n - 48) (drop_bit 48 ?w) = 0" by simp
    with that show ?thesis by simp
  qed
  have "trim_zeros 12 ?s = drop 4 ?s"
    by (rule trim_zeros_12) (auto simp: take_map take_upt z nibble_hex_0)
  also have "drop 4 ?s = map (\<lambda>j. nibble_hex (ucast (drop_bit (44 - 4 * j) ?w))) [0..<12]"
    by (rule nth_equalityI) (auto simp: algebra_simps)
  finally show ?thesis by (simp add: to_hex12_def)
qed

lemma index_from_hex_to_hex12:
  assumes "index_get i \<le> MAX_INDEX"
  shows "index_from_hex (to_hex12 i) = Inr i"
proof -
  have u: "[0..<12] = 0 # 1 # [2..<12::nat]" by (simp add: upt_rec)
  have "strip_0x (to_hex12 i) = to_hex12 i"
    unfolding strip_0x_def to_hex12_digits [OF assms] u by (simp add: nibble_hex_not_x)
  moreover have "length (to_hex12 i) = 12" by (simp add: to_hex12_digits [OF assms])
  moreover have "foldR (\<lambda>c value. bindR (hex_nibble c) (\<lambda>n. Inr (push_bit 4 value OR ucast n))) (to_hex12 i) 0
      = Inr (index_get i)"
    using fold_hex_nibbles [OF assms, of 12] by (simp add: to_hex12_digits [OF assms])
  ultimately show ?thesis
    using assms by (auto simp: index_from_hex_def index_new_def Let_def)
qed

lemma index_from_hex_bound: "index_from_hex s = Inr i \<Longrightarrow> index_get i \<le> MAX_INDEX"
  by (auto simp: index_from_hex_def index_new_def Let_def bindR_eq_Inr split: if_splits)

section \<open>Properties\<close>

text \<open>the hexadecimal and the bit-vector form of a 32-byte value both parse back to the value.\<close>
theorem value32_codecs_roundtrip:
  assumes "wf_value v"
  shows "value_from_hex (value_to_hex v) = Inr v \<and> from_bits_msb (to_bits_msb v) = Inr v"
  using assms by (simp add: value_from_hex_to_hex from_bits_msb_to_bits_msb)

theorem value32_codecs_roundtrip_witness:
  "value_from_hex (value_to_hex (replicate 32 7)) = Inr (replicate 32 7)
   \<and> from_bits_msb (to_bits_msb (replicate 32 7)) = Inr (replicate 32 7)"
  by (rule value32_codecs_roundtrip) (simp add: wf_value_def VALUE_BYTES_def)

text \<open>the 12-digit rendering of a 48-bit index parses back to it, and whatever string
  the parser accepts denotes an index of at most 48 bits.\<close>
theorem index48_hex_roundtrip:
  "(index_get i \<le> MAX_INDEX \<longrightarrow> index_from_hex (to_hex12 i) = Inr i)
   \<and> (index_from_hex s = Inr j \<longrightarrow> index_get j \<le> MAX_INDEX)"
  by (simp add: index_from_hex_to_hex12 index_from_hex_bound)

theorem index48_hex_roundtrip_witness:
  "index_from_hex (to_hex12 (Index48 0xffffffffffff)) = Inr (Index48 0xffffffffffff)
   \<and> index_from_hex ''0x0a'' = Inr (Index48 10) \<and> index_get (Index48 10) \<le> MAX_INDEX"
proof -
  have s: "index_from_hex ''0x0a'' = Inr (Index48 10)"
    by (simp add: index_from_hex_def strip_0x_def hex_nibble_def index_new_def MAX_INDEX_eq Let_def)
  have m: "index_get (Index48 0xffffffffffff) \<le> MAX_INDEX" by (simp add: MAX_INDEX_eq)
  show ?thesis
    using index48_hex_roundtrip [of "Index48 0xffffffffffff" "''0x0a''" "Index48 10"] m s by simp
qed

end
