(* ===== verification/Ordered_Map.thy ===== *)
theory Ordered_Map
  imports S2pc_Prelude
begin

text \<open>
  The ordered map the daemon keeps its state in (\<open>std::collections::BTreeMap\<close>): an association
  list in strictly ascending key order, so that iterating it visits the keys in the order the
  code does. The interface its clients rely on is the locale \<open>ordered_map\<close>; lemmas about
  clients that only look keys up are proved there once and reached through the interpretation
  \<open>bm\<close> on the model's operations.
\<close>

type_synonym ('k, 'v) bmap = "('k \<times> 'v) list"

fun bm_insert :: "'k::linorder \<Rightarrow> 'v \<Rightarrow> ('k, 'v) bmap \<Rightarrow> ('k, 'v) bmap" where
  "bm_insert k v [] = [(k, v)]"
| "bm_insert k v ((k', v') # m) =
     (if k < k' then (k, v) # (k', v') # m
      else if k = k' then (k, v) # m
      else (k', v') # bm_insert k v m)"

definition bm_get :: "('k, 'v) bmap \<Rightarrow> 'k \<Rightarrow> 'v option" where
  "bm_get m k = map_of m k"

definition bm_remove :: "'k \<Rightarrow> ('k, 'v) bmap \<Rightarrow> ('k, 'v) bmap" where
  "bm_remove k m = filter (\<lambda>e. fst e \<noteq> k) m"

definition bm_retain :: "('k \<Rightarrow> 'v \<Rightarrow> bool) \<Rightarrow> ('k, 'v) bmap \<Rightarrow> ('k, 'v) bmap" where
  "bm_retain P m = filter (\<lambda>e. P (fst e) (snd e)) m"

definition bm_keys :: "('k, 'v) bmap \<Rightarrow> 'k list" where
  "bm_keys m = map fst m"

definition bm_values :: "('k, 'v) bmap \<Rightarrow> 'v list" where
  "bm_values m = map snd m"

definition bm_inv :: "('k::linorder, 'v) bmap \<Rightarrow> bool" where
  "bm_inv m \<longleftrightarrow> sorted_wrt (<) (map fst m)"

section \<open>The interface\<close>

locale ordered_map =
  fixes empty :: 'm
    and get :: "'m \<Rightarrow> 'k::linorder \<Rightarrow> 'v option"
    and insert :: "'k \<Rightarrow> 'v \<Rightarrow> 'm \<Rightarrow> 'm"
    and remove :: "'k \<Rightarrow> 'm \<Rightarrow> 'm"
    and inv :: "'m \<Rightarrow> bool"
  assumes get_empty: "get empty k = None"
    and get_insert: "inv m \<Longrightarrow> get (insert k v m) = (get m)(k \<mapsto> v)"
    and get_remove: "inv m \<Longrightarrow> get (remove k m) = (get m)(k := None)"
    and inv_empty: "inv empty"
    and inv_insert: "inv m \<Longrightarrow> inv (insert k v m)"
    and inv_remove: "inv m \<Longrightarrow> inv (remove k m)"
begin

lemma inv_fold_remove: "inv m \<Longrightarrow> inv (fold remove ks m)"
  by (induction ks arbitrary: m) (auto intro: inv_remove)

lemma get_fold_remove:
  "inv m \<Longrightarrow> get (fold remove ks m) k = (if k \<in> set ks then None else get m k)"
proof (induction ks arbitrary: m)
  case Nil
  then show ?case by simp
next
  case (Cons a ks)
  then show ?case by (auto simp: inv_remove get_remove)
qed

lemma inv_fold_insert: "inv m \<Longrightarrow> inv (fold (\<lambda>e. insert (fst e) (snd e)) es m)"
  by (induction es arbitrary: m) (auto intro: inv_insert)

lemma get_fold_insert:
  "inv m \<Longrightarrow> distinct (map fst es) \<Longrightarrow>
     get (fold (\<lambda>e. insert (fst e) (snd e)) es m) k = (case map_of es k of None \<Rightarrow> get m k | Some v \<Rightarrow> Some v)"
proof (induction es arbitrary: m)
  case Nil
  then show ?case by simp
next
  case (Cons e es)
  have "map_of es (fst e) = None" using Cons.prems by (simp add: map_of_eq_None_iff)
  then show ?case using Cons by (cases e) (auto simp: inv_insert get_insert split: option.splits)
qed

lemma get_insert_same: "inv m \<Longrightarrow> get (insert k v m) k = Some v"
  by (simp add: get_insert)

lemma get_insert_other: "inv m \<Longrightarrow> k' \<noteq> k \<Longrightarrow> get (insert k v m) k' = get m k'"
  by (simp add: get_insert)

end

section \<open>The implementation\<close>

lemma set_bm_insert: "bm_inv m \<Longrightarrow> set (bm_insert k v m) = insert (k, v) {e \<in> set m. fst e \<noteq> k}"
  by (induction k v m rule: bm_insert.induct) (force simp: bm_inv_def)+

lemma fst_set_bm_insert: "fst ` set (bm_insert k v m) = insert k (fst ` set m)"
  by (induction k v m rule: bm_insert.induct) (auto split: if_splits)

lemma bm_inv_empty [simp]: "bm_inv []"
  by (simp add: bm_inv_def)

lemma bm_inv_insert [simp, intro]: "bm_inv m \<Longrightarrow> bm_inv (bm_insert k v m)"
proof (induction k v m rule: bm_insert.induct)
  case (1 k v)
  then show ?case by (simp add: bm_inv_def)
next
  case (2 k v k' v' m)
  have "\<forall>x\<in>set (bm_insert k v m). k' < fst x" if "k' < k"
    using that fst_set_bm_insert [of k v m] "2.prems" by (auto simp: bm_inv_def) (metis (no_types, lifting) image_eqI insertE image_iff fst_conv)+
  with 2 show ?case by (auto simp: bm_inv_def)
qed

lemma bm_inv_filter [simp, intro]: "bm_inv m \<Longrightarrow> bm_inv (filter P m)"
  by (induction m) (auto simp: bm_inv_def)

lemma bm_inv_distinct: "bm_inv m \<Longrightarrow> distinct (map fst m)"
  by (auto simp: bm_inv_def strict_sorted_iff)

lemma bm_get_insert [simp]: "bm_get (bm_insert k v m) = (bm_get m)(k \<mapsto> v)" if "bm_inv m"
  using that
proof (induction k v m rule: bm_insert.induct)
  case (1 k v)
  then show ?case by (auto simp: bm_get_def)
next
  case (2 k v k' v' m)
  then have "bm_inv m" by (simp add: bm_inv_def)
  with 2 show ?case by (auto simp: bm_get_def fun_eq_iff)
qed

lemma bm_get_remove [simp]: "bm_get (bm_remove k m) = (bm_get m)(k := None)"
  by (induction m) (auto simp: bm_get_def bm_remove_def fun_eq_iff)

lemma bm_inv_remove [simp, intro]: "bm_inv m \<Longrightarrow> bm_inv (bm_remove k m)"
  by (simp add: bm_remove_def)

lemma bm_get_empty [simp]: "bm_get [] k = None"
  by (simp add: bm_get_def)

interpretation bm: ordered_map "[]" bm_get bm_insert bm_remove bm_inv
  by unfold_locales auto

lemma bm_get_in_set: "bm_get m k = Some v \<Longrightarrow> (k, v) \<in> set m"
  by (simp add: bm_get_def map_of_SomeD)

lemma bm_in_set_get: "bm_inv m \<Longrightarrow> (k, v) \<in> set m \<Longrightarrow> bm_get m k = Some v"
  by (simp add: bm_get_def bm_inv_distinct)

lemma bm_as_get: "bm_inv m \<Longrightarrow> m = map (\<lambda>k. (k, the (bm_get m k))) (bm_keys m)"
proof -
  assume m: "bm_inv m"
  have "map (\<lambda>e. (fst e, the (bm_get m (fst e)))) m = map (\<lambda>e. e) m"
  proof (rule map_cong [OF refl])
    fix e assume "e \<in> set m"
    then show "(fst e, the (bm_get m (fst e))) = e"
      using bm_in_set_get [OF m, of "fst e" "snd e"] by simp
  qed
  then show ?thesis by (simp add: bm_keys_def comp_def)
qed

lemma set_bm_keys: "set (bm_keys m) = {k. bm_get m k \<noteq> None}"
  by (auto simp: bm_keys_def bm_get_def map_of_eq_None_iff)

lemma bm_ext:
  assumes m: "bm_inv m" and m': "bm_inv m'" and eq: "bm_get m = bm_get m'"
  shows "m = m'"
proof -
  have "set (bm_keys m) = set (bm_keys m')" by (simp add: set_bm_keys eq)
  then have "bm_keys m = bm_keys m'"
    using m m' by (intro strict_sorted_equal) (auto simp: bm_keys_def bm_inv_def)
  then show ?thesis using bm_as_get [OF m] bm_as_get [OF m'] eq by metis
qed

lemma bm_get_retain:
  "bm_inv m \<Longrightarrow> bm_get (bm_retain P m) k = (case bm_get m k of None \<Rightarrow> None | Some v \<Rightarrow> if P k v then Some v else None)"
proof (induction m)
  case Nil
  then show ?case by (simp add: bm_get_def bm_retain_def)
next
  case (Cons e m)
  then have "bm_inv m" and "k = fst e \<Longrightarrow> bm_get m k = None"
    by (auto simp: bm_inv_def bm_get_def map_of_eq_None_iff)
  with Cons.IH show ?case by (cases e) (auto simp: bm_get_def bm_retain_def split: option.splits)
qed

lemma bm_inv_retain [simp, intro]: "bm_inv m \<Longrightarrow> bm_inv (bm_retain P m)"
  by (simp add: bm_retain_def)

end
