(* ===== verification/Derivation.thy ===== *)
theory Derivation
  imports Shachain_Types Ordered_Map
begin

text \<open>
  Plaintext shachain derivation and the index arithmetic that decides which secrets follow from
  which: \<open>generate_from_seed\<close> and \<open>split_chain_bits\<close> of \<open>shachain2pc-circuit\<close>,
  \<open>derive_from_known\<close> of the daemon's \<open>helpers.rs\<close>, and the mask functions of the party's
  \<open>helpers.rs\<close>. SHA-256 is the crate \<open>sha2\<close>, not code of the repository: it is the
  parameter \<open>sha256\<close>, of which only the digest length is ever assumed.
\<close>

section \<open>Bits of an index\<close>

definition bit_set :: "u64 \<Rightarrow> nat \<Rightarrow> bool" where
  \<comment> \<open>\<open>((value >> bit) & 1) != 0\<close>\<close>
  "bit_set value b \<longleftrightarrow> drop_bit b value AND 1 \<noteq> 0"

definition set_bits_desc :: "u64 \<Rightarrow> nat list" where
  "set_bits_desc value = filter (bit_set value) (rev [0..<INDEX_BITS])"

definition trailing_zeros :: "'a::len word \<Rightarrow> nat" where
  "trailing_zeros w = length (takeWhile (\<lambda>i. \<not> bit w i) [0..<LENGTH('a)])"

definition count_ones :: "'a::len word \<Rightarrow> nat" where
  "count_ones w = length (filter (bit w) [0..<LENGTH('a)])"

section \<open>Derivation\<close>

definition flip_bit :: "nat \<Rightarrow> value32 \<Rightarrow> value32" where
  \<comment> \<open>\<open>p[b / 8] ^= 1 << (b % 8)\<close>\<close>
  "flip_bit b p = p[b div 8 := p ! (b div 8) XOR push_bit (b mod 8) 1]"

definition hash_step :: "(bytes \<Rightarrow> bytes) \<Rightarrow> nat \<Rightarrow> value32 \<Rightarrow> value32" where
  "hash_step sha256 b p = sha256 (flip_bit b p)"

definition generate_from_seed :: "(bytes \<Rightarrow> bytes) \<Rightarrow> value32 \<Rightarrow> u64 \<Rightarrow> value32" where
  "generate_from_seed sha256 seed index =
     fold (\<lambda>b p. if drop_bit b index AND 1 = 0 then p else hash_step sha256 b p) (rev [0..<INDEX_BITS]) seed"

definition derive_from_known :: "(bytes \<Rightarrow> bytes) \<Rightarrow> u64 \<Rightarrow> value32 \<Rightarrow> u64 \<Rightarrow> value32 option" where
  "derive_from_known sha256 from_index secret to_index =
     (if from_index AND NOT to_index \<noteq> 0 then None
      else let missing = to_index AND NOT from_index in
        if from_index \<noteq> 0 \<and> drop_bit (trailing_zeros from_index) missing \<noteq> 0 then None
        else Some (fold (hash_step sha256) (set_bits_desc missing) secret))"

section \<open>Masks\<close>

definition can_derive_mask :: "u64 \<Rightarrow> u64 \<Rightarrow> bool" where
  "can_derive_mask from_index to_index =
     (if from_index AND NOT to_index \<noteq> 0 then False
      else let missing = to_index AND NOT from_index in
        if from_index \<noteq> 0 \<and> drop_bit (trailing_zeros from_index) missing \<noteq> 0 then False
        else True)"

definition max_derivable_mask :: "u64 \<Rightarrow> u64" where
  "max_derivable_mask from_index =
     (if from_index = 0 then MAX_INDEX
      else let lowest_applied = trailing_zeros from_index;
               lower_bits = (if lowest_applied = 0 then 0 else push_bit lowest_applied 1 - 1)
           in (from_index OR lower_bits) AND MAX_INDEX)"

definition retain_cache_mask_for_future :: "u64 \<Rightarrow> u64 \<Rightarrow> bool" where
  "retain_cache_mask_for_future m current_target \<longleftrightarrow>
     m = current_target \<or> max_derivable_mask m > current_target"

definition prune_cache_for_target :: "(u32, u64 \<times> 'w) bmap \<Rightarrow> u64 \<Rightarrow> (u32, u64 \<times> 'w) bmap" where
  "prune_cache_for_target cache current_target =
     bm_retain (\<lambda>_ e. retain_cache_mask_for_future (fst e) current_target) cache"

section \<open>Chunks of the chain\<close>

definition push_group :: "nat \<Rightarrow> nat \<Rightarrow> nat list list \<Rightarrow> nat list list" where
  \<comment> \<open>the body of the loop of \<open>split_chain_bits\<close>; \<open>groups\<close> is never empty\<close>
  "push_group blocks_per_chunk b groups =
     (let groups = (if last groups \<noteq> [] \<and> length (last groups) = blocks_per_chunk
                    then groups @ [[]] else groups)
      in butlast groups @ [last groups @ [b]])"

datatype circuit_error =
    Parse string
  | Shape string
  | Index parse_error
  | CPanic \<comment> \<open>an out-of-range slice index, where the Rust code panics\<close>

definition split_chain_bits :: "u64 \<Rightarrow> nat \<Rightarrow> circuit_error + nat list list" where
  "split_chain_bits index blocks_per_chunk =
     (if blocks_per_chunk < 1 then Inl (Shape ''SplitChainBits: blocks_per_chunk must be >= 1'')
      else if index > MAX_INDEX then Inl (Index (IndexTooLarge index))
      else Inr (fold (\<lambda>b groups. if drop_bit b index AND 1 = 0 then groups else push_group blocks_per_chunk b groups)
                  (rev [0..<INDEX_BITS]) [[]]))"

section \<open>Facts about index bits\<close>

lemma bit_set_iff: "bit_set v b \<longleftrightarrow> bit v b"
  by (simp add: bit_set_def and_1_eq_of_bool bit_simps)

lemma drop_bit_and_1_zero: "drop_bit b (v :: u64) AND 1 = 0 \<longleftrightarrow> \<not> bit v b"
  by (simp add: and_1_eq_of_bool bit_simps)

lemma set_bits_desc_eq: "set_bits_desc v = filter (bit v) (rev [0..<INDEX_BITS])"
  by (simp add: set_bits_desc_def bit_set_iff [abs_def])

lemma set_set_bits_desc [simp]: "set (set_bits_desc v) = {b. b < INDEX_BITS \<and> bit v b}"
  by (auto simp: set_bits_desc_eq)

lemma sorted_rev_upt: "sorted_wrt (>) (rev [0..<n])"
  by (simp add: sorted_wrt_rev strict_sorted_iff [symmetric])

lemma sorted_set_bits_desc [simp]: "sorted_wrt (>) (set_bits_desc v)"
  by (simp add: set_bits_desc_eq sorted_wrt_filter sorted_rev_upt)

lemma desc_unique:
  assumes "sorted_wrt (>) xs" and "sorted_wrt (>) (ys :: nat list)" and "set xs = set ys"
  shows "xs = ys"
proof -
  have "rev xs = rev ys"
    using assms by (intro strict_sorted_equal) (auto simp: sorted_wrt_rev)
  then show ?thesis by simp
qed

lemma trailing_zeros_spec:
  assumes "(w :: 'a::len word) \<noteq> 0"
  shows "bit w (trailing_zeros w)" and "b < trailing_zeros w \<Longrightarrow> \<not> bit w b" and "trailing_zeros w < LENGTH('a)"
proof -
  let ?xs = "[0..<LENGTH('a)]" let ?P = "\<lambda>i. \<not> bit w i"
  have ex: "\<exists>b < LENGTH('a). bit w b"
    using assms by (metis bit_0_eq bit_imp_le_length bit_word_eqI bot_apply bot_bool_def)
  have less: "length (takeWhile ?P ?xs) < length ?xs"
  proof (rule ccontr)
    assume "\<not> ?thesis"
    then have "takeWhile ?P ?xs = ?xs"
      by (metis length_takeWhile_le nle_le not_less takeWhile_eq_take take_all)
    then have "\<forall>b \<in> set ?xs. \<not> bit w b" by (metis set_takeWhileD)
    with ex show False by auto
  qed
  then show "trailing_zeros w < LENGTH('a)" by (simp add: trailing_zeros_def)
  from nth_length_takeWhile [OF less] less show "bit w (trailing_zeros w)"
    by (simp add: trailing_zeros_def)
  assume b: "b < trailing_zeros w"
  then have "?xs ! b = takeWhile ?P ?xs ! b" by (simp add: trailing_zeros_def takeWhile_nth)
  moreover have "takeWhile ?P ?xs ! b \<in> set (takeWhile ?P ?xs)" using b by (simp add: trailing_zeros_def)
  ultimately have "\<not> bit w (?xs ! b)" by (metis set_takeWhileD)
  with b less show "\<not> bit w b" by (simp add: trailing_zeros_def)
qed

lemma word_zero_iff_bits: "(w :: 'a::len word) = 0 \<longleftrightarrow> (\<forall>b. \<not> bit w b)"
  by (metis bit_0_eq bit_word_eqI bot_apply bot_bool_def)

lemma drop_bit_zero_iff: "drop_bit n (w :: 'a::len word) = 0 \<longleftrightarrow> (\<forall>b. bit w b \<longrightarrow> b < n)"
  unfolding word_zero_iff_bits
  by (auto simp: bit_simps not_less) (metis le_add_diff_inverse not_less)

lemma subset_bits_iff: "(a :: 'a::len word) AND NOT b = 0 \<longleftrightarrow> (\<forall>k. bit a k \<longrightarrow> bit b k)"
  unfolding word_zero_iff_bits by (auto simp: bit_simps dest: bit_imp_le_length)

lemma can_derive_mask_iff:
  "can_derive_mask i j \<longleftrightarrow>
     (\<forall>b. bit i b \<longrightarrow> bit j b) \<and> (\<forall>b c. bit i b \<longrightarrow> bit j c \<longrightarrow> \<not> bit i c \<longrightarrow> c < b)"
proof (cases "i = 0")
  case True
  then show ?thesis by (simp add: can_derive_mask_def)
next
  case False
  note tz = trailing_zeros_spec [OF False]
  have "(\<forall>c. bit (j AND NOT i) c \<longrightarrow> c < trailing_zeros i)
     \<longleftrightarrow> (\<forall>b c. bit i b \<longrightarrow> bit j c \<longrightarrow> \<not> bit i c \<longrightarrow> c < b)"
    (is "?L \<longleftrightarrow> ?R")
  proof
    assume L: ?L
    show ?R
    proof (intro allI impI)
      fix b c assume "bit i b" "bit j c" "\<not> bit i c"
      then have "c < trailing_zeros i" "\<not> b < trailing_zeros i"
        using L tz(2) [of b] bit_imp_le_length [of j c] by (auto simp: bit_simps)
      then show "c < b" by simp
    qed
  next
    assume R: ?R
    show ?L
    proof (intro allI impI)
      fix c assume "bit (j AND NOT i) c"
      then show "c < trailing_zeros i" using R tz(1) by (auto simp: bit_simps)
    qed
  qed
  moreover have "can_derive_mask i j \<longleftrightarrow>
      (i AND NOT j = 0) \<and> drop_bit (trailing_zeros i) (j AND NOT i) = 0"
    using False by (simp add: can_derive_mask_def Let_def)
  ultimately show ?thesis
    by (simp only: subset_bits_iff drop_bit_zero_iff)
qed

lemma derive_from_known_eq:
  "derive_from_known sha256 i secret j =
     (if can_derive_mask i j then Some (fold (hash_step sha256) (set_bits_desc (j AND NOT i)) secret) else None)"
  by (simp add: derive_from_known_def can_derive_mask_def Let_def)

lemma set_bits_desc_split:
  assumes "can_derive_mask i j"
  shows "set_bits_desc j = set_bits_desc i @ set_bits_desc (j AND NOT i)"
proof (rule desc_unique)
  show "sorted_wrt (>) (set_bits_desc j)" by simp
  show "sorted_wrt (>) (set_bits_desc i @ set_bits_desc (j AND NOT i))"
    using assms by (auto simp: sorted_wrt_append can_derive_mask_iff bit_simps)
  show "set (set_bits_desc j) = set (set_bits_desc i @ set_bits_desc (j AND NOT i))"
    using assms by (auto simp: can_derive_mask_iff bit_simps INDEX_BITS_def)
qed

lemma fold_if_filter: "fold (\<lambda>x s. if P x then s else f x s) xs s = fold f (filter (\<lambda>x. \<not> P x) xs) s"
  by (induction xs arbitrary: s) auto

lemma generate_from_seed_eq:
  "generate_from_seed sha256 seed i = fold (hash_step sha256) (set_bits_desc i) seed"
  by (simp add: generate_from_seed_def fold_if_filter set_bits_desc_eq drop_bit_and_1_zero)

lemma derive_generate:
  assumes "can_derive_mask i j"
  shows "derive_from_known sha256 i (generate_from_seed sha256 seed i) j = Some (generate_from_seed sha256 seed j)"
  using assms by (simp add: derive_from_known_eq generate_from_seed_eq set_bits_desc_split)

lemma can_derive_mask_refl [simp]: "can_derive_mask i i"
  by (simp add: can_derive_mask_iff)

lemma can_derive_mask_trans: "can_derive_mask i j \<Longrightarrow> can_derive_mask j k \<Longrightarrow> can_derive_mask i k"
  unfolding can_derive_mask_iff by blast

lemma set_bits_desc_0 [simp]: "set_bits_desc 0 = []"
  by (simp add: set_bits_desc_eq)

lemma can_derive_mask_0 [simp]: "can_derive_mask 0 j"
  by (simp add: can_derive_mask_iff)

lemma derive_compose:
  assumes "derive_from_known sha256 i s j = Some t" and "derive_from_known sha256 j t k = Some u"
  shows "derive_from_known sha256 i s k = Some u"
proof -
  from assms have ij: "can_derive_mask i j" and jk: "can_derive_mask j k"
    by (auto simp: derive_from_known_eq split: if_splits)
  have "set_bits_desc (k AND NOT i) = set_bits_desc (j AND NOT i) @ set_bits_desc (k AND NOT j)"
  proof (rule desc_unique)
    show "sorted_wrt (>) (set_bits_desc (j AND NOT i) @ set_bits_desc (k AND NOT j))"
      using jk by (auto simp: sorted_wrt_append can_derive_mask_iff bit_simps)
    show "set (set_bits_desc (k AND NOT i)) = set (set_bits_desc (j AND NOT i) @ set_bits_desc (k AND NOT j))"
      using ij jk by (auto simp: can_derive_mask_iff bit_simps INDEX_BITS_def)
  qed simp
  with assms ij jk can_derive_mask_trans [OF ij jk] show ?thesis
    by (auto simp: derive_from_known_eq)
qed

section \<open>Masks and order\<close>

lemma subset_bits_le:
  assumes "\<And>b. bit i b \<Longrightarrow> bit j b"
  shows "i \<le> (j :: u64)"
proof -
  have "i OR j = j" using assms by (auto intro!: bit_word_eqI simp: bit_simps)
  then show ?thesis by (metis le_word_or2 or.commute)
qed

lemma can_derive_mask_le: "can_derive_mask i j \<Longrightarrow> i \<le> j"
  by (rule subset_bits_le) (simp add: can_derive_mask_iff)

lemma bit_MAX_INDEX: "bit MAX_INDEX b \<longleftrightarrow> b < 48"
proof -
  have m: "MAX_INDEX = mask 48" by (simp add: MAX_INDEX_eq mask_eq_exp_minus_1)
  show ?thesis unfolding m bit_mask_iff by auto
qed

lemma le_MAX_INDEX_iff: "v \<le> MAX_INDEX \<longleftrightarrow> (\<forall>b. bit v b \<longrightarrow> b < INDEX_BITS)"
proof
  assume "v \<le> MAX_INDEX"
  then have "v < 2 ^ 48" by (simp add: MAX_INDEX_eq word_less_nat_alt word_le_nat_alt)
  then have "drop_bit 48 v = 0" by (simp add: drop_bit_eq_div div_word_less)
  then show "\<forall>b. bit v b \<longrightarrow> b < INDEX_BITS" by (simp add: drop_bit_zero_iff INDEX_BITS_def)
next
  assume "\<forall>b. bit v b \<longrightarrow> b < INDEX_BITS"
  then show "v \<le> MAX_INDEX" by (intro subset_bits_le) (simp add: bit_MAX_INDEX INDEX_BITS_def)
qed

lemma bit_max_derivable_mask:
  assumes "i \<noteq> 0"
  shows "bit (max_derivable_mask i) b \<longleftrightarrow> (bit i b \<or> b < trailing_zeros i) \<and> b < INDEX_BITS"
proof -
  have tz: "trailing_zeros i < 64" using trailing_zeros_spec(3) [OF assms] by simp
  have "(if trailing_zeros i = 0 then 0 else push_bit (trailing_zeros i) 1 - 1) = (mask (trailing_zeros i) :: u64)"
    by (simp add: mask_eq_exp_minus_1 push_bit_eq_mult)
  then have m: "max_derivable_mask i = (i OR mask (trailing_zeros i)) AND MAX_INDEX"
    using assms by (simp add: max_derivable_mask_def Let_def)
  show ?thesis unfolding m using tz by (auto simp: bit_simps bit_MAX_INDEX INDEX_BITS_def)
qed

lemma can_derive_mask_max:
  assumes "can_derive_mask i j" and "j \<le> MAX_INDEX"
  shows "j \<le> max_derivable_mask i"
proof (cases "i = 0")
  case True
  then show ?thesis using assms by (simp add: max_derivable_mask_def)
next
  case False
  note tz = trailing_zeros_spec [OF False]
  show ?thesis
  proof (rule subset_bits_le)
    fix b assume b: "bit j b"
    then have "b < INDEX_BITS" using assms(2) by (simp add: le_MAX_INDEX_iff)
    moreover have "bit i b \<or> b < trailing_zeros i"
      using assms(1) b tz(1) unfolding can_derive_mask_iff by blast
    ultimately show "bit (max_derivable_mask i) b" by (simp add: bit_max_derivable_mask [OF False])
  qed
qed

lemma can_derive_max_derivable:
  assumes "i \<le> MAX_INDEX"
  shows "can_derive_mask i (max_derivable_mask i)"
proof (cases "i = 0")
  case True
  then show ?thesis by simp
next
  case False
  note tz = trailing_zeros_spec [OF False]
  have "b < INDEX_BITS" if "bit i b" for b using that assms by (simp add: le_MAX_INDEX_iff)
  moreover have "c < b" if "bit i b" "c < trailing_zeros i" for b c
    using tz(2) [of b] that by (meson less_le_trans not_less)
  ultimately show ?thesis unfolding can_derive_mask_iff bit_max_derivable_mask [OF False] by blast
qed

lemma pruned_mask_useless:
  assumes "\<not> retain_cache_mask_for_future m t" and "t < t'" and "t' \<le> MAX_INDEX"
  shows "\<not> can_derive_mask m t'"
proof
  assume "can_derive_mask m t'"
  then have "t' \<le> max_derivable_mask m" using assms(3) by (rule can_derive_mask_max)
  with assms(2) have "t < max_derivable_mask m" by (rule less_le_trans)
  with assms(1) show False by (simp add: retain_cache_mask_for_future_def)
qed

section \<open>Chunks\<close>

lemma push_group_props:
  assumes "0 < n" and "gs \<noteq> []" and "\<forall>g \<in> set gs. length g \<le> n" and "gs = [[]] \<or> [] \<notin> set gs"
  shows "push_group n b gs \<noteq> []" and "concat (push_group n b gs) = concat gs @ [b]"
    and "\<forall>g \<in> set (push_group n b gs). length g \<le> n" and "[] \<notin> set (push_group n b gs)"
proof -
  obtain hs l where gs: "gs = hs @ [l]" using assms(2) by (metis append_butlast_last_id)
  show "push_group n b gs \<noteq> []" by (simp add: push_group_def Let_def)
  show "concat (push_group n b gs) = concat gs @ [b]" by (simp add: push_group_def gs Let_def butlast_append)
  show "\<forall>g \<in> set (push_group n b gs). length g \<le> n"
    using assms(1,3) by (auto simp: push_group_def gs Let_def butlast_append Suc_le_eq)
  show "[] \<notin> set (push_group n b gs)"
    using assms(4) by (auto simp: push_group_def gs Let_def butlast_append)
qed

lemma fold_push_group:
  assumes "0 < n" and "gs \<noteq> []" and "\<forall>g \<in> set gs. length g \<le> n" and "gs = [[]] \<or> [] \<notin> set gs"
  shows "concat (fold (push_group n) bs gs) = concat gs @ bs
    \<and> (\<forall>g \<in> set (fold (push_group n) bs gs). length g \<le> n)
    \<and> (fold (push_group n) bs gs = [[]] \<or> [] \<notin> set (fold (push_group n) bs gs))"
  using assms(2-)
proof (induction bs arbitrary: gs)
  case Nil
  then show ?case by simp
next
  case (Cons b bs)
  note pg = push_group_props [OF assms(1) Cons.prems]
  show ?case using Cons.IH [of "push_group n b gs"] pg by auto
qed

lemma split_chain_bits_eq:
  assumes "0 < n" and "i \<le> MAX_INDEX"
  shows "split_chain_bits i n = Inr (fold (push_group n) (set_bits_desc i) [[]])"
  using assms by (simp add: split_chain_bits_def fold_if_filter drop_bit_and_1_zero set_bits_desc_eq)

section \<open>Properties of derivation\<close>

text \<open>C27: A known secret at index \<open>i\<close> (a secret the chain's seed generates there) derives exactly the
  secrets of the indices it dominates: \<open>derive_from_known\<close> returns a value for \<open>j\<close> exactly when
  every bit of \<open>i\<close> is set in \<open>j\<close> and every other bit of \<open>j\<close> lies below every bit of \<open>i\<close>, and the value is
  then the secret \<open>generate_from_seed\<close> gives at \<open>j\<close>.\<close>
theorem derive_from_known_correct:
  "derive_from_known sha256 i (generate_from_seed sha256 seed i) j =
     (if (\<forall>b. bit i b \<longrightarrow> bit j b) \<and> (\<forall>b c. bit i b \<longrightarrow> bit j c \<longrightarrow> \<not> bit i c \<longrightarrow> c < b)
      then Some (generate_from_seed sha256 seed j) else None)"
  unfolding can_derive_mask_iff [symmetric]
  by (cases "can_derive_mask i j") (simp_all only: derive_generate if_True, simp add: derive_from_known_eq)

theorem derive_from_known_correct_witness:
  "derive_from_known (map NOT) 8 (generate_from_seed (map NOT) (replicate 32 0) 8) 10 =
     Some (generate_from_seed (map NOT) (replicate 32 0) 10)
   \<and> generate_from_seed (map NOT) (replicate 32 0) 10 ! 0 = 10"
proof -
  have e8: "(8 :: u64) = push_bit 3 1" and e10: "(10 :: u64) = push_bit 3 1 OR push_bit 1 1" by simp_all
  have b8: "bit (8 :: u64) b \<longleftrightarrow> b = 3" for b
    unfolding e8 bit_push_bit_iff by (auto simp: bit_1_iff)
  have b10: "bit (10 :: u64) b \<longleftrightarrow> b = 3 \<or> b = 1" for b
    unfolding e10 bit_or_iff bit_push_bit_iff by (auto simp: bit_1_iff)
  have "(\<forall>b. bit (8 :: u64) b \<longrightarrow> bit (10 :: u64) b)
      \<and> (\<forall>b c. bit (8 :: u64) b \<longrightarrow> bit (10 :: u64) c \<longrightarrow> \<not> bit (8 :: u64) c \<longrightarrow> c < b)"
    unfolding b8 b10 by auto
  then have "derive_from_known (map NOT) 8 (generate_from_seed (map NOT) (replicate 32 0) 8) 10 =
     Some (generate_from_seed (map NOT) (replicate 32 0) 10)"
    using derive_from_known_correct [of "map NOT" 8 "replicate 32 0" 10] by (rule if_P [THEN trans [rotated]])
  moreover have "generate_from_seed (map NOT) (replicate 32 0) 10 ! 0 = 10" by code_simp
  ultimately show ?thesis by simp
qed

text \<open>Deriving in two hops gives what deriving in one hop gives, so the secrets a cache or a database
  keeps as starting points never change the result.\<close>
theorem derive_from_known_compose:
  assumes "derive_from_known sha256 i s j = Some t" and "derive_from_known sha256 j t k = Some u"
  shows "derive_from_known sha256 i s k = Some u"
  using assms by (rule derive_compose)

theorem derive_from_known_compose_witness:
  "derive_from_known rev 8 (replicate 32 7) 14 = Some ((rev (flip_bit 1 (rev (flip_bit 2 (replicate 32 7))))))"
  by (rule derive_from_known_compose [of rev 8 _ 12 "rev (flip_bit 2 (replicate 32 7))"]; code_simp)

text \<open>\<open>max_derivable_mask\<close> is the exact upper end of what a mask derives: it is itself derivable, and
  everything derivable lies between the mask and it.\<close>
theorem max_derivable_mask_tight:
  assumes "m \<le> MAX_INDEX"
  shows "can_derive_mask m (max_derivable_mask m) \<and>
    (\<forall>t. can_derive_mask m t \<and> t \<le> MAX_INDEX \<longrightarrow> m \<le> t \<and> t \<le> max_derivable_mask m)"
  using assms by (auto simp: can_derive_max_derivable can_derive_mask_max can_derive_mask_le)

theorem max_derivable_mask_tight_witness:
  "can_derive_mask 12 (max_derivable_mask 12) \<and> max_derivable_mask 12 = 15
     \<and> (12 :: u64) \<le> 14 \<and> 14 \<le> max_derivable_mask 12"
proof -
  have "(12 :: u64) \<le> MAX_INDEX" and "(14 :: u64) \<le> MAX_INDEX" and "can_derive_mask 12 14" by code_simp+
  with max_derivable_mask_tight [of 12]
  have "can_derive_mask 12 (max_derivable_mask 12) \<and> (12 :: u64) \<le> 14 \<and> 14 \<le> max_derivable_mask 12" by blast
  moreover have "max_derivable_mask 12 = 15" by code_simp
  ultimately show ?thesis by blast
qed

text \<open>C40: Pruning the party's cache for a target never loses a derivation the party will ask for later: the
  pruned cache is well formed, keeps no other entry, keeps the entry of the current target, and every
  entry that is missing can derive no later target of the ascending order the sessions run in.\<close>
theorem prune_cache_for_target_safe:
  assumes inv: "bm_inv cache"
  shows "bm_inv (prune_cache_for_target cache t) \<and>
    (\<forall>k e. bm_get (prune_cache_for_target cache t) k = Some e \<longrightarrow> bm_get cache k = Some e) \<and>
    (\<forall>k w. bm_get cache k = Some (t, w) \<longrightarrow> bm_get (prune_cache_for_target cache t) k = Some (t, w)) \<and>
    (\<forall>k m w t'. bm_get cache k = Some (m, w) \<and> bm_get (prune_cache_for_target cache t) k = None \<and>
           t < t' \<and> t' \<le> MAX_INDEX \<longrightarrow> \<not> can_derive_mask m t')"
  using inv
  by (auto simp: prune_cache_for_target_def bm_get_retain bm_inv_retain retain_cache_mask_for_future_def
      split: option.splits if_splits dest: can_derive_mask_max)

theorem prune_cache_for_target_safe_witness:
  "bm_get (prune_cache_for_target [(0, (2, ''a'')), (1, (8, ''b''))] 4) 0 = None
    \<and> \<not> can_derive_mask 2 8"
proof -
  have "bm_inv [(0 :: u32, (2 :: u64, ''a'')), (1, (8, ''b''))]" by (simp add: bm_inv_def)
  moreover have "bm_get (prune_cache_for_target [(0, (2, ''a'')), (1, (8, ''b''))] 4) 0 = None" by code_simp
  moreover have "(8 :: u64) \<le> MAX_INDEX" and "(4 :: u64) < 8" by code_simp+
  moreover have "bm_get [(0, (2 :: u64, ''a'')), (1, (8, ''b''))] (0 :: u32) = Some (2, ''a'')" by code_simp
  ultimately show ?thesis
    using prune_cache_for_target_safe [of "[(0, (2, ''a'')), (1, (8, ''b''))]" 4]
    by blast
qed

text \<open>\<open>split_chain_bits\<close> cuts the chain of an index into consecutive groups of at most
  \<open>blocks_per_chunk\<close> bits, in derivation order, with no empty group unless the index is 0; hashing group
  by group is therefore the whole derivation. It fails exactly on an index over 48 bits or an empty
  chunk size.\<close>
theorem split_chain_bits_correct:
  "(0 < n \<and> i \<le> MAX_INDEX \<longrightarrow> (\<exists>gs. split_chain_bits i n = Inr gs
      \<and> concat gs = set_bits_desc i
      \<and> (\<forall>g \<in> set gs. length g \<le> n)
      \<and> (gs = [[]] \<or> [] \<notin> set gs)
      \<and> fold (fold (hash_step sha256)) gs seed = generate_from_seed sha256 seed i))
   \<and> (n = 0 \<or> MAX_INDEX < i \<longrightarrow> (\<exists>e. split_chain_bits i n = Inl e))"
proof -
  have conc: "fold (fold f) gs s = fold f (concat gs) s" for f :: "nat \<Rightarrow> value32 \<Rightarrow> value32" and gs s
    by (induction gs arbitrary: s) auto
  show ?thesis
    using fold_push_group [of n "[[]]" "set_bits_desc i"]
    by (auto simp: split_chain_bits_eq conc generate_from_seed_eq)
      (auto simp: split_chain_bits_def)
qed

theorem split_chain_bits_correct_witness:
  "\<exists>gs. split_chain_bits 11 2 = Inr gs \<and> concat gs = set_bits_desc 11
      \<and> gs = [[3, 1], [0]]"
proof -
  have "split_chain_bits 11 2 = Inr [[3, 1], [0]]" by code_simp
  then show ?thesis
    using split_chain_bits_correct [of 2 11 rev "[]"] by (simp add: MAX_INDEX_eq)
qed

end
