(* ===== verification/Emp_Wire.thy ===== *)
theory Emp_Wire
  imports Shachain_Types
begin

text \<open>
  The EMP wire layer, \<open>shachain2pc-emp-wire\<close>: 128-bit blocks, the bit-packed encoding of
  boolean arrays, partial blocks, and the two byte streams (\<open>ChannelByteStream\<close> over channel
  messages, \<open>EmpStream\<close> over TCP) with their counters and Fiat-Shamir transcripts. A \<open>Block\<close>
  is the 128-bit word its 16 bytes spell in little-endian order (the machine order of the
  targets of the code's \<open>from_ne_bytes\<close>). The channel halves and the socket are arguments of the
  operations that use them; SHA-256 is the parameter \<open>sha256\<close>, and a hasher is the bytes it has
  absorbed.
\<close>

section \<open>Blocks\<close>

type_synonym u128 = "128 word"
type_synonym block = u128

definition BLOCK_BYTES :: nat where
  "BLOCK_BYTES = 16"

definition EMP_PARTIAL_BLOCK_BYTES :: nat where
  "EMP_PARTIAL_BLOCK_BYTES = 5"

definition block_from_bytes :: "bytes \<Rightarrow> block" where
  "block_from_bytes bs = word_of_le bs"

definition block_bytes :: "block \<Rightarrow> bytes" where
  \<comment> \<open>\<open>as_bytes\<close>, \<open>into_bytes\<close>\<close>
  "block_bytes b = le_bytes BLOCK_BYTES b"

definition block_make :: "u64 \<Rightarrow> u64 \<Rightarrow> block" where
  "block_make high low = push_bit 64 (ucast high) OR ucast low"

definition block_zero :: block where
  "block_zero = 0"

definition slice_as_bytes :: "block list \<Rightarrow> bytes" where
  "slice_as_bytes blocks = concat (map block_bytes blocks)"

definition get_lsb :: "block \<Rightarrow> bool" where
  "get_lsb b \<longleftrightarrow> block_bytes b ! 0 AND 1 = 1"

definition low64 :: "block \<Rightarrow> u64" where
  "low64 b = word_of_le (take 8 (block_bytes b))"

definition high64 :: "block \<Rightarrow> u64" where
  "high64 b = word_of_le (drop 8 (block_bytes b))"

definition sigma :: "block \<Rightarrow> block" where
  "sigma b = (let low = low64 b; high = high64 b in block_make (low XOR high) high)"

definition hex_encode :: "bytes \<Rightarrow> string" where
  "hex_encode bs = concat (map (\<lambda>b. [''0123456789abcdef'' ! unat (drop_bit 4 b),
     ''0123456789abcdef'' ! unat (b AND 0x0f)]) bs)"

section \<open>Encodings\<close>

datatype io_error =
    BrokenPipe string
  | OtherIo string

datatype wire_error =
    Io io_error
  | FsAlreadyEnabled
  | FsNotEnabled
  | InvalidPtrMod8 nat
  | InvalidPartialBlockBytes nat
  | MalformedBoolEncoding nat nat
  | MalformedPartialBlocks nat nat

fun show_io_error :: "io_error \<Rightarrow> string" where
  "show_io_error (BrokenPipe t) = t"
| "show_io_error (OtherIo t) = t"

fun show_wire_error :: "wire_error \<Rightarrow> string" where
  "show_wire_error (Io e) = show_io_error e"
| "show_wire_error FsAlreadyEnabled = ''Fiat-Shamir transcript already enabled''"
| "show_wire_error FsNotEnabled = ''Fiat-Shamir transcript is not enabled''"
| "show_wire_error (InvalidPtrMod8 v) = ''EMP bool ptr_mod8 must be in 0..8, got '' @ dec_string v"
| "show_wire_error (InvalidPartialBlockBytes v) = ''partial block byte count must be in 1..16, got '' @ dec_string v"
| "show_wire_error (MalformedBoolEncoding e a) =
     ''malformed EMP bool encoding: expected '' @ dec_string e @ '' bytes, got '' @ dec_string a"
| "show_wire_error (MalformedPartialBlocks p a) =
     ''malformed partial blocks: byte length '' @ dec_string a @ '' is not a multiple of '' @ dec_string p"

definition aligned_prefix_len :: "nat \<Rightarrow> nat \<Rightarrow> wire_error + nat option" where
  "aligned_prefix_len len ptr_mod8 =
     (if ptr_mod8 \<ge> 8 then Inl (InvalidPtrMod8 ptr_mod8)
      else let diff = (if ptr_mod8 = 0 then 0 else 8 - ptr_mod8) in
        if diff > len \<or> len - diff < 8 then Inr None else Inr (Some diff))"

definition emp_bool_wire_len :: "nat \<Rightarrow> nat \<Rightarrow> wire_error + nat" where
  "emp_bool_wire_len len ptr_mod8 = bindR (aligned_prefix_len len ptr_mod8) (\<lambda>p. case p of
       None \<Rightarrow> Inr len
     | Some prefix \<Rightarrow> Inr (prefix + (len - prefix) div 8 + (len - prefix) mod 8))"

definition pack_byte :: "bytes \<Rightarrow> u8" where
  \<comment> \<open>\<open>for (i, b) in chunk.iter().enumerate() { packed |= (b & 1) << i; }\<close>\<close>
  "pack_byte chunk = fold (\<lambda>(i, b) packed. packed OR push_bit i (b AND 1)) (enumerate 0 chunk) 0"

fun chunks_exact :: "nat \<Rightarrow> 'a list \<Rightarrow> 'a list list" where
  \<comment> \<open>\<open>slice::chunks_exact(n)\<close>, with \<open>n\<close> not 0\<close>
  "chunks_exact n xs = (if n = 0 \<or> length xs < n then [] else take n xs # chunks_exact n (drop n xs))"

declare chunks_exact.simps [simp del]

definition pack_emp_bools :: "bytes \<Rightarrow> nat \<Rightarrow> wire_error + bytes" where
  "pack_emp_bools bool_bytes ptr_mod8 = bindR (aligned_prefix_len (length bool_bytes) ptr_mod8) (\<lambda>p. case p of
       None \<Rightarrow> Inr bool_bytes
     | Some prefix \<Rightarrow> (let aligned = drop prefix bool_bytes;
                           suffix = length aligned - length aligned mod 8
         in Inr (take prefix bool_bytes @ map pack_byte (chunks_exact 8 aligned) @ drop suffix aligned)))"

definition unpack_byte :: "u8 \<Rightarrow> bytes" where
  "unpack_byte packed = map (\<lambda>k. drop_bit k packed AND 1) [0..<8]"

definition unpack_emp_bools :: "bytes \<Rightarrow> nat \<Rightarrow> nat \<Rightarrow> wire_error + bytes" where
  "unpack_emp_bools encoded len ptr_mod8 = bindR (emp_bool_wire_len len ptr_mod8) (\<lambda>expected.
     if length encoded \<noteq> expected then Inl (MalformedBoolEncoding expected (length encoded))
     else bindR (aligned_prefix_len len ptr_mod8) (\<lambda>p. case p of
         None \<Rightarrow> Inr encoded
       | Some prefix \<Rightarrow> (let n = (len - prefix) div 8 in
           Inr (take prefix encoded @ concat (map unpack_byte (take n (drop prefix encoded)))
                @ drop (prefix + n) encoded))))"

definition validate_partial_bytes :: "nat \<Rightarrow> wire_error + unit" where
  "validate_partial_bytes partial_bytes =
     (if 1 \<le> partial_bytes \<and> partial_bytes \<le> BLOCK_BYTES then Inr () else Inl (InvalidPartialBlockBytes partial_bytes))"

definition encode_partial_blocks :: "block list \<Rightarrow> nat \<Rightarrow> wire_error + bytes" where
  "encode_partial_blocks blocks partial_bytes = bindR (validate_partial_bytes partial_bytes) (\<lambda>_.
     Inr (concat (map (\<lambda>b. take partial_bytes (block_bytes b)) blocks)))"

definition decode_partial_blocks :: "bytes \<Rightarrow> nat \<Rightarrow> wire_error + block list" where
  "decode_partial_blocks bs partial_bytes = bindR (validate_partial_bytes partial_bytes) (\<lambda>_.
     if length bs mod partial_bytes \<noteq> 0 then Inl (MalformedPartialBlocks partial_bytes (length bs))
     else Inr (map (\<lambda>chunk. block_from_bytes (chunk @ replicate (BLOCK_BYTES - partial_bytes) 0))
                 (chunks_exact partial_bytes bs)))"

section \<open>Fiat-Shamir transcripts\<close>

record fs_state =
  fs_send_first :: bool
  fs_send :: "bytes option" \<comment> \<open>\<open>Option<Sha256>\<close>: the bytes absorbed\<close>
  fs_recv :: "bytes option"

definition fs_new :: fs_state where
  "fs_new = \<lparr>fs_send_first = False, fs_send = None, fs_recv = None\<rparr>"

definition enable_fs :: "bool \<Rightarrow> ('a fs_state_scheme) \<Rightarrow> wire_error + 'a fs_state_scheme" where
  "enable_fs send_first s =
     (if fs_send s \<noteq> None then Inl FsAlreadyEnabled
      else Inr (s\<lparr>fs_send_first := send_first, fs_send := Some [], fs_recv := Some []\<rparr>))"

definition fs_enabled :: "'a fs_state_scheme \<Rightarrow> bool" where
  "fs_enabled s \<longleftrightarrow> fs_send s \<noteq> None"

definition first_digest_block :: "bytes \<Rightarrow> block" where
  "first_digest_block digest = block_from_bytes (take BLOCK_BYTES digest)"

definition get_send_digest :: "(bytes \<Rightarrow> bytes) \<Rightarrow> 'a fs_state_scheme \<Rightarrow> wire_error + block" where
  "get_send_digest sha256 s = bindR (okOr FsNotEnabled (fs_send s)) (\<lambda>h. Inr (first_digest_block (sha256 h)))"

definition get_recv_digest :: "(bytes \<Rightarrow> bytes) \<Rightarrow> 'a fs_state_scheme \<Rightarrow> wire_error + block" where
  "get_recv_digest sha256 s = bindR (okOr FsNotEnabled (fs_recv s)) (\<lambda>h. Inr (first_digest_block (sha256 h)))"

definition get_digest :: "(bytes \<Rightarrow> bytes) \<Rightarrow> 'a fs_state_scheme \<Rightarrow> wire_error + block" where
  "get_digest sha256 s =
     bindR (okOr FsNotEnabled (fs_send s)) (\<lambda>hs. let send = sha256 hs in
     bindR (okOr FsNotEnabled (fs_recv s)) (\<lambda>hr. let recv = sha256 hr in
       Inr (first_digest_block (sha256 (if fs_send_first s then send @ recv else recv @ send)))))"

section \<open>Streams\<close>

text \<open>
  A transport half is an argument. \<open>tx_send t d\<close> says whether the channel took the message;
  \<open>rx_recv t\<close> is \<open>None\<close> when no message is there yet (the future stays pending) and otherwise the
  next message, or \<open>None\<close> for a closed channel. A read that is still pending is the result \<open>None\<close>.
\<close>

record 't channel_stream = fs_state +
  cs_chan :: 't
  recv_buf :: bytes

definition channel_new :: "'t \<Rightarrow> 't channel_stream" where
  "channel_new t = \<lparr>fs_send_first = False, fs_send = None, fs_recv = None, cs_chan = t, recv_buf = []\<rparr>"

definition absorb :: "bytes \<Rightarrow> bytes option \<Rightarrow> bytes option" where
  \<comment> \<open>\<open>if let Some(h) = &mut h { h.update(data) }\<close>\<close>
  "absorb data h = map_option (\<lambda>t. t @ data) h"

definition channel_send_data ::
  "('t \<Rightarrow> bytes \<Rightarrow> bool \<times> 't) \<Rightarrow> bytes \<Rightarrow> 't channel_stream \<Rightarrow> (wire_error + unit) \<times> 't channel_stream" where
  "channel_send_data tx_send data s =
     (let s = s\<lparr>fs_send := absorb data (fs_send s)\<rparr>;
          (ok, t) = tx_send (cs_chan s) data;
          s = s\<lparr>cs_chan := t\<rparr>
      in (if ok then Inr () else Inl (Io (BrokenPipe ''byte channel closed'')), s))"

text \<open>The loop of \<open>recv_data\<close> ends only if enough messages arrive: it is a partial function.\<close>

partial_function (option) recv_fill ::
  "('t \<Rightarrow> (bytes option \<times> 't) option) \<Rightarrow> nat \<Rightarrow> 't channel_stream \<Rightarrow> ((wire_error + unit) \<times> 't channel_stream) option" where
  "recv_fill rx_recv len s =
     (if length (recv_buf s) < len then
        (case rx_recv (cs_chan s) of
           None \<Rightarrow> None
         | Some (None, t) \<Rightarrow> Some (Inl (Io (BrokenPipe ''byte channel closed'')), s\<lparr>cs_chan := t\<rparr>)
         | Some (Some chunk, t) \<Rightarrow> recv_fill rx_recv len (s\<lparr>cs_chan := t, recv_buf := recv_buf s @ chunk\<rparr>))
      else Some (Inr (), s))"

definition channel_recv_data ::
  "('t \<Rightarrow> (bytes option \<times> 't) option) \<Rightarrow> nat \<Rightarrow> 't channel_stream \<Rightarrow> ((wire_error + bytes) \<times> 't channel_stream) option" where
  "channel_recv_data rx_recv len s = (case recv_fill rx_recv len s of
       None \<Rightarrow> None
     | Some (Inl e, s) \<Rightarrow> Some (Inl e, s)
     | Some (Inr _, s) \<Rightarrow> (let out = take len (recv_buf s);
           s = s\<lparr>recv_buf := drop len (recv_buf s), fs_recv := absorb out (fs_recv s)\<rparr>
         in Some (Inr out, s)))"

datatype last_dir = NoDir | SendDir | RecvDir

record 't emp_stream = fs_state +
  es_stream :: 't
  send_counter :: u64
  recv_counter :: u64
  rounds :: u64
  flushes_count :: u64
  last_dir :: last_dir
  send_dirty :: bool

definition emp_stream_new :: "'t \<Rightarrow> 't emp_stream" where
  "emp_stream_new t = \<lparr>fs_send_first = False, fs_send = None, fs_recv = None, es_stream = t,
     send_counter = 0, recv_counter = 0, rounds = 0, flushes_count = 0, last_dir = NoDir, send_dirty = False\<rparr>"

definition note_dir :: "last_dir \<Rightarrow> 't emp_stream \<Rightarrow> 't emp_stream" where
  "note_dir d s = (if last_dir s \<noteq> d then s\<lparr>rounds := rounds s + 1, last_dir := d\<rparr> else s)"

definition emp_send_data ::
  "('t \<Rightarrow> bytes \<Rightarrow> (io_error + unit) \<times> 't) \<Rightarrow> bytes \<Rightarrow> 't emp_stream \<Rightarrow> (wire_error + unit) \<times> 't emp_stream" where
  "emp_send_data write_all data s =
     (let s = s\<lparr>send_counter := send_counter s + of_nat (length data)\<rparr>;
          s = note_dir SendDir s;
          s = s\<lparr>fs_send := absorb data (fs_send s)\<rparr>;
          (r, t) = write_all (es_stream s) data;
          s = s\<lparr>es_stream := t\<rparr>
      in case r of Inl e \<Rightarrow> (Inl (Io e), s) | Inr _ \<Rightarrow> (Inr (), s\<lparr>send_dirty := True\<rparr>))"

definition fill_buf :: "nat \<Rightarrow> bytes \<Rightarrow> bytes" where
  \<comment> \<open>the zeroed buffer of \<open>len\<close> bytes after the read has written its bytes into it\<close>
  "fill_buf len d = take len (d @ drop (length d) (replicate len 0))"

definition emp_recv_data ::
  "(nat \<Rightarrow> 't \<Rightarrow> ((io_error + bytes) \<times> 't) option) \<Rightarrow> nat \<Rightarrow> 't emp_stream \<Rightarrow> ((wire_error + bytes) \<times> 't emp_stream) option" where
  "emp_recv_data read_exact len s =
     (let s = s\<lparr>recv_counter := recv_counter s + of_nat len\<rparr>;
          s = note_dir RecvDir s
      in case read_exact len (es_stream s) of
           None \<Rightarrow> None
         | Some (Inl e, t) \<Rightarrow> Some (Inl (Io e), s\<lparr>es_stream := t\<rparr>)
         | Some (Inr d, t) \<Rightarrow> (let out = fill_buf len d in
             Some (Inr out, s\<lparr>es_stream := t, fs_recv := absorb out (fs_recv s)\<rparr>)))"

definition emp_flush ::
  "('t \<Rightarrow> (io_error + unit) \<times> 't) \<Rightarrow> 't emp_stream \<Rightarrow> (wire_error + unit) \<times> 't emp_stream" where
  "emp_flush flush s =
     (let s = (if send_dirty s then s\<lparr>flushes_count := flushes_count s + 1, send_dirty := False\<rparr> else s);
          (r, t) = flush (es_stream s)
      in (mapErr Io r, s\<lparr>es_stream := t\<rparr>))"

text \<open>
  The provided methods of the trait \<open>ByteIo\<close>, over the required \<open>send_data\<close> and \<open>recv_data\<close> of a
  stream.
\<close>

definition blocks_of :: "bytes \<Rightarrow> block list" where
  "blocks_of bs = map block_from_bytes (chunks_exact BLOCK_BYTES bs)"

definition on_ok :: "((wire_error + 'a) \<times> 's) option \<Rightarrow> ('a \<Rightarrow> wire_error + 'b) \<Rightarrow> ((wire_error + 'b) \<times> 's) option" where
  "on_ok r f = map_option (\<lambda>(v, s). (bindR v f, s)) r"

definition send_block ::
  "(bytes \<Rightarrow> 's \<Rightarrow> (wire_error + unit) \<times> 's) \<Rightarrow> block list \<Rightarrow> 's \<Rightarrow> (wire_error + unit) \<times> 's" where
  "send_block send_data blocks s = send_data (slice_as_bytes blocks) s"

definition recv_block ::
  "(nat \<Rightarrow> 's \<Rightarrow> ((wire_error + bytes) \<times> 's) option) \<Rightarrow> nat \<Rightarrow> 's \<Rightarrow> ((wire_error + block list) \<times> 's) option" where
  "recv_block recv_data count s = on_ok (recv_data (count * BLOCK_BYTES) s) (\<lambda>bs. Inr (blocks_of bs))"

definition send_bool_bytes ::
  "(bytes \<Rightarrow> 's \<Rightarrow> (wire_error + unit) \<times> 's) \<Rightarrow> bytes \<Rightarrow> nat \<Rightarrow> 's \<Rightarrow> (wire_error + unit) \<times> 's" where
  "send_bool_bytes send_data bool_bytes ptr_mod8 s = (case pack_emp_bools bool_bytes ptr_mod8 of
     Inl e \<Rightarrow> (Inl e, s) | Inr packed \<Rightarrow> send_data packed s)"

definition recv_bool_bytes ::
  "(nat \<Rightarrow> 's \<Rightarrow> ((wire_error + bytes) \<times> 's) option) \<Rightarrow> nat \<Rightarrow> nat \<Rightarrow> 's \<Rightarrow> ((wire_error + bytes) \<times> 's) option" where
  "recv_bool_bytes recv_data len ptr_mod8 s = (case emp_bool_wire_len len ptr_mod8 of
     Inl e \<Rightarrow> Some (Inl e, s)
   | Inr wire_len \<Rightarrow> on_ok (recv_data wire_len s) (\<lambda>encoded. unpack_emp_bools encoded len ptr_mod8))"

definition send_partial_blocks ::
  "(bytes \<Rightarrow> 's \<Rightarrow> (wire_error + unit) \<times> 's) \<Rightarrow> block list \<Rightarrow> nat \<Rightarrow> 's \<Rightarrow> (wire_error + unit) \<times> 's" where
  "send_partial_blocks send_data blocks partial_bytes s = (case encode_partial_blocks blocks partial_bytes of
     Inl e \<Rightarrow> (Inl e, s) | Inr bs \<Rightarrow> send_data bs s)"

definition recv_partial_blocks ::
  "(nat \<Rightarrow> 's \<Rightarrow> ((wire_error + bytes) \<times> 's) option) \<Rightarrow> nat \<Rightarrow> nat \<Rightarrow> 's \<Rightarrow> ((wire_error + block list) \<times> 's) option" where
  "recv_partial_blocks recv_data count partial_bytes s =
     on_ok (recv_data (count * partial_bytes) s) (\<lambda>bs. decode_partial_blocks bs partial_bytes)"

text \<open>\<open>EmpStream\<close> checks the partial size before it reads, and reads blocks in place.\<close>

definition emp_recv_partial_blocks ::
  "(nat \<Rightarrow> 't \<Rightarrow> ((io_error + bytes) \<times> 't) option) \<Rightarrow> nat \<Rightarrow> nat \<Rightarrow> 't emp_stream \<Rightarrow>
   ((wire_error + block list) \<times> 't emp_stream) option" where
  "emp_recv_partial_blocks read_exact count partial_bytes s = (case validate_partial_bytes partial_bytes of
       Inl e \<Rightarrow> Some (Inl e, s)
     | Inr _ \<Rightarrow> recv_partial_blocks (emp_recv_data read_exact) count partial_bytes s)"

definition emp_recv_block ::
  "(nat \<Rightarrow> 't \<Rightarrow> ((io_error + bytes) \<times> 't) option) \<Rightarrow> nat \<Rightarrow> 't emp_stream \<Rightarrow>
   ((wire_error + block list) \<times> 't emp_stream) option" where
  "emp_recv_block read_exact count s =
     (let len = count * BLOCK_BYTES;
          s = s\<lparr>recv_counter := recv_counter s + of_nat len\<rparr>;
          s = note_dir RecvDir s
      in case read_exact len (es_stream s) of
           None \<Rightarrow> None
         | Some (Inl e, t) \<Rightarrow> Some (Inl (Io e), s\<lparr>es_stream := t\<rparr>)
         | Some (Inr d, t) \<Rightarrow> (let bs = fill_buf len d in
             Some (Inr (blocks_of bs), s\<lparr>es_stream := t, fs_recv := absorb bs (fs_recv s)\<rparr>)))"

section \<open>Facts about blocks and chunks\<close>

lemma length_block_bytes [simp, byte_simps]: "length (block_bytes b) = BLOCK_BYTES"
  by (simp add: block_bytes_def)

lemma block_from_bytes_bytes [simp]: "block_from_bytes (block_bytes b) = b"
  by (simp add: block_from_bytes_def block_bytes_def word_of_le_le_bytes BLOCK_BYTES_def)

lemma block_bytes_from_bytes: "length bs = BLOCK_BYTES \<Longrightarrow> block_bytes (block_from_bytes bs) = bs"
  by (simp add: block_from_bytes_def block_bytes_def le_bytes_word_of_le BLOCK_BYTES_def)

lemma get_lsb_bit: "get_lsb b \<longleftrightarrow> bit b 0"
  by (simp add: get_lsb_def block_bytes_def and_1_eq_of_bool bit_le_bytes_nth BLOCK_BYTES_def)

lemma bit_low64: "bit (low64 b) i \<longleftrightarrow> i < 64 \<and> bit b i"
proof -
  have "i div 8 < 8 \<longleftrightarrow> i < 64" by linarith
  then show ?thesis
    by (auto simp: low64_def bit_word_of_le block_bytes_def bit_le_bytes_nth BLOCK_BYTES_def)
qed

lemma bit_high64: "bit (high64 b) i \<longleftrightarrow> i < 64 \<and> bit b (64 + i)"
proof -
  have "i div 8 < 8 \<longleftrightarrow> i < 64" by linarith
  moreover have "8 * (8 + i div 8) + i mod 8 = 64 + i" by presburger
  ultimately show ?thesis
    by (auto simp: high64_def bit_word_of_le block_bytes_def bit_le_bytes_nth BLOCK_BYTES_def add.commute)
qed

lemma bit_sigma:
  "bit (sigma b) i \<longleftrightarrow> (if i < 64 then bit b (64 + i) else i < 128 \<and> bit b i \<noteq> bit b (i - 64))"
  by (auto simp: sigma_def Let_def block_make_def bit_simps bit_low64 bit_high64 dest: bit_imp_le_length)

lemma chunks_exact_short: "n = 0 \<or> length xs < n \<Longrightarrow> chunks_exact n xs = []"
  by (subst chunks_exact.simps) auto

lemma chunks_exact_append:
  "0 < n \<Longrightarrow> length c = n \<Longrightarrow> chunks_exact n (c @ xs) = c # chunks_exact n xs"
  by (subst chunks_exact.simps) auto

lemma concat_chunks_exact:
  "0 < n \<Longrightarrow> concat (chunks_exact n xs) = take (length xs - length xs mod n) xs"
proof (induction n xs rule: chunks_exact.induct)
  case (1 n xs)
  show ?case
  proof (cases "length xs < n")
    case True
    then show ?thesis by (simp add: chunks_exact_short)
  next
    case False
    then have e: "length xs - length xs mod n = n + (length (drop n xs) - length (drop n xs) mod n)"
    proof -
      define m where "m = (length xs - n) mod n"
      have "length xs mod n = m" using False by (simp add: le_mod_geq m_def)
      moreover have "m \<le> length xs - n" by (simp add: m_def)
      moreover have "length (drop n xs) mod n = m" by (simp add: m_def)
      ultimately show ?thesis using False by simp
    qed
    have "concat (chunks_exact n xs) = take n xs @ concat (chunks_exact n (drop n xs))"
      using False 1(2) by (subst chunks_exact.simps) simp
    also have "concat (chunks_exact n (drop n xs)) =
        take (length (drop n xs) - length (drop n xs) mod n) (drop n xs)"
      using False 1 by simp
    also have "take n xs @ \<dots> = take (length xs - length xs mod n) xs"
      unfolding e by (rule take_add [symmetric])
    finally show ?thesis .
  qed
qed

lemma chunks_exact_lengths: "c \<in> set (chunks_exact n xs) \<Longrightarrow> length c = n"
proof (induction n xs rule: chunks_exact.induct)
  case (1 n xs)
  then show ?case by (subst (asm) (2) chunks_exact.simps) (auto split: if_splits)
qed

lemma length_chunks_exact: "length (chunks_exact n xs) = (if n = 0 then 0 else length xs div n)"
proof (induction n xs rule: chunks_exact.induct)
  case (1 n xs)
  show ?case
  proof (cases "n = 0 \<or> length xs < n")
    case True
    then show ?thesis by (auto simp: chunks_exact_short)
  next
    case False
    then show ?thesis using 1 by (subst chunks_exact.simps) (simp add: le_div_geq)
  qed
qed

lemma chunks_exact_concat:
  "0 < n \<Longrightarrow> \<forall>c \<in> set cs. length c = n \<Longrightarrow> length r < n \<Longrightarrow> chunks_exact n (concat cs @ r) = cs"
  by (induction cs) (simp_all add: chunks_exact_short chunks_exact_append)

section \<open>The boolean encoding\<close>

lemma bit_pack_fold:
  "bit (fold (\<lambda>(i, b) packed. packed OR push_bit i (b AND 1)) (enumerate n c) (p :: u8)) k
     \<longleftrightarrow> bit p k \<or> (n \<le> k \<and> k < n + length c \<and> k < 8 \<and> bit (c ! (k - n)) 0)"
proof (induction c arbitrary: n p)
  case Nil
  then show ?case by auto
next
  case (Cons b c)
  have "(k - n) = Suc (k - Suc n)" if "Suc n \<le> k" using that by simp
  moreover have "k = n \<or> Suc n \<le> k" if "n \<le> k" using that by auto
  moreover have "bit (push_bit n (b AND 1)) k \<longleftrightarrow> k = n \<and> k < 8 \<and> bit b 0"
    by (auto simp: and_1_eq_of_bool bit_simps)
  ultimately show ?case using Cons.IH [of "Suc n" "p OR push_bit n (b AND 1)"]
    by (auto simp: bit_or_iff)
qed

lemma bit_pack_byte: "bit (pack_byte c) k \<longleftrightarrow> k < length c \<and> k < 8 \<and> bit (c ! k) 0"
  unfolding pack_byte_def bit_pack_fold by simp

lemma length_unpack_byte [simp]: "length (unpack_byte b) = 8"
  by (simp add: unpack_byte_def)

lemma unpack_pack_byte:
  assumes "length c = 8"
  shows "unpack_byte (pack_byte c) = map (\<lambda>b. b AND 1) c"
  using assms by (intro nth_equalityI) (auto simp: unpack_byte_def and_1_eq_of_bool bit_simps bit_pack_byte)

lemma pack_unpack_byte: "pack_byte (unpack_byte b) = b"
  by (rule bit_word_eqI) (simp add: bit_pack_byte, simp add: unpack_byte_def and_1_eq_of_bool bit_simps)


lemma length_pack_emp_bools:
  assumes "p < 8"
  shows "\<exists>enc. pack_emp_bools bs p = Inr enc \<and> emp_bool_wire_len (length bs) p = Inr (length enc)"
proof -
  have "length bs - q - ((length bs - q) - (length bs - q) mod 8) = (length bs - q) mod 8" for q
    by (simp add: mod_less_eq_dividend)
  then show ?thesis using assms
    by (auto simp: pack_emp_bools_def emp_bool_wire_len_def aligned_prefix_len_def Let_def length_chunks_exact)
qed

text \<open>What the receiver sees of an array of boolean bytes: the packed middle keeps only the low bit.\<close>

definition bools_on_wire :: "nat \<Rightarrow> bytes \<Rightarrow> bytes" where
  "bools_on_wire p bs = (case aligned_prefix_len (length bs) p of
       Inr (Some prefix) \<Rightarrow> (let aligned = drop prefix bs; n = length aligned - length aligned mod 8
         in take prefix bs @ map (\<lambda>b. b AND 1) (take n aligned) @ drop n aligned)
     | _ \<Rightarrow> bs)"

lemma bools_on_wire_bits: "\<forall>b \<in> set bs. b = 0 \<or> b = 1 \<Longrightarrow> bools_on_wire p bs = bs"
proof -
  assume "\<forall>b \<in> set bs. b = 0 \<or> b = 1"
  then have "map (\<lambda>b. b AND 1) (take n (drop q bs)) = take n (drop q bs)" for n q
    by (intro map_idI) (auto dest!: in_set_takeD in_set_dropD)
  then show ?thesis
    by (auto simp: bools_on_wire_def Let_def simp del: drop_drop split: sum.splits option.splits)
qed

lemma concat_map_unpack: "(\<And>c. c \<in> set cs \<Longrightarrow> length c = 8) \<Longrightarrow>
    concat (map unpack_byte (map pack_byte cs)) = map (\<lambda>b. b AND 1) (concat cs)"
  by (induction cs) (auto simp: unpack_pack_byte)

lemma unpack_pack_emp_bools:
  assumes "pack_emp_bools bs p = Inr enc"
  shows "unpack_emp_bools enc (length bs) p = Inr (bools_on_wire p bs)"
proof -
  have p: "p < 8" using assms by (auto simp: pack_emp_bools_def aligned_prefix_len_def split: if_splits)
  then have len: "emp_bool_wire_len (length bs) p = Inr (length enc)"
    using length_pack_emp_bools [OF p, of bs] assms by auto
  show ?thesis
  proof (cases "aligned_prefix_len (length bs) p")
    case (Inl e)
    with assms show ?thesis by (simp add: pack_emp_bools_def)
  next
    case (Inr q)
    show ?thesis
    proof (cases q)
      case None
      with Inr assms len show ?thesis
        by (simp add: pack_emp_bools_def unpack_emp_bools_def bools_on_wire_def)
    next
      case (Some prefix)
      let ?al = "drop prefix bs" let ?n = "length ?al div 8"
      have le: "prefix \<le> length bs"
        using Inr Some by (auto simp: aligned_prefix_len_def Let_def split: if_splits)
      have enc: "enc = take prefix bs @ map pack_byte (chunks_exact 8 ?al) @ drop (length ?al - length ?al mod 8) ?al"
        using assms Inr Some by (simp add: pack_emp_bools_def Let_def)
      have "concat (map unpack_byte (map pack_byte (chunks_exact 8 ?al))) = map (\<lambda>b. b AND 1) (concat (chunks_exact 8 ?al))"
        by (rule concat_map_unpack) (rule chunks_exact_lengths)
      then have "concat (map unpack_byte (map pack_byte (chunks_exact 8 ?al))) =
          map (\<lambda>b. b AND 1) (take (length ?al - length ?al mod 8) ?al)"
        by (simp only: concat_chunks_exact)
      then show ?thesis
        using Inr Some len le
        by (simp add: unpack_emp_bools_def bools_on_wire_def enc Let_def length_chunks_exact)
    qed
  qed
qed

lemma concat_map_pack: "map pack_byte (chunks_exact 8 (concat (map unpack_byte xs) @ r)) = xs" if "length r < 8"
proof -
  have "chunks_exact 8 (concat (map unpack_byte xs) @ r) = map unpack_byte xs"
    using that by (intro chunks_exact_concat) auto
  then show ?thesis by (simp add: pack_unpack_byte comp_def)
qed

lemma length_concat_unpack [simp]: "length (concat (map unpack_byte xs)) = 8 * length xs"
  by (induction xs) auto

lemma pack_unpack_emp_bools:
  assumes "unpack_emp_bools enc n p = Inr bs"
  shows "length bs = n \<and> pack_emp_bools bs p = Inr enc"
proof -
  obtain q where q: "aligned_prefix_len n p = Inr q"
    using assms by (cases "aligned_prefix_len n p") (auto simp: unpack_emp_bools_def emp_bool_wire_len_def)
  show ?thesis
  proof (cases q)
    case None
    with q assms show ?thesis
      by (auto simp: unpack_emp_bools_def emp_bool_wire_len_def pack_emp_bools_def split: if_splits)
  next
    case (Some prefix)
    let ?m = "(n - prefix) div 8" let ?r = "(n - prefix) mod 8"
    have le: "prefix \<le> n" using q Some by (auto simp: aligned_prefix_len_def Let_def split: if_splits)
    have len: "length enc = prefix + ?m + ?r"
      using assms q Some by (auto simp: unpack_emp_bools_def emp_bool_wire_len_def split: if_splits)
    define A where "A = take prefix enc"
    define B where "B = take ?m (drop prefix enc)"
    define C where "C = drop (prefix + ?m) enc"
    have enc: "enc = A @ B @ C" by (simp add: A_def B_def C_def) (metis add.commute append_take_drop_id drop_drop)
    have lens: "length A = prefix" "length B = ?m" "length C = ?r" using len by (auto simp: A_def B_def C_def)
    have bs: "bs = A @ concat (map unpack_byte B) @ C"
      using assms q Some by (auto simp: unpack_emp_bools_def emp_bool_wire_len_def Let_def A_def B_def C_def split: if_splits)
    have n: "length bs = n" using lens le by (simp add: bs)
    have al: "take prefix bs = A" "drop prefix bs = concat (map unpack_byte B) @ C"
      by (simp_all add: bs lens)
    have "length (concat (map unpack_byte B) @ C) - length (concat (map unpack_byte B) @ C) mod 8
        = length (concat (map unpack_byte B))"
    proof -
      have "(8 * m + r) - (8 * m + r) mod 8 = 8 * m" if "r < 8" for m r :: nat
        using that by simp
      from this [of "length C" "length B"] show ?thesis
        by (simp only: length_append length_concat_unpack lens(3)) 
    qed
    then have dr: "drop (length (concat (map unpack_byte B) @ C) - length (concat (map unpack_byte B) @ C) mod 8)
        (concat (map unpack_byte B) @ C) = C"
      by (simp only: append_eq_conv_conj [symmetric]) (metis append_eq_conv_conj)
    have mp: "map pack_byte (chunks_exact 8 (concat (map unpack_byte B) @ C)) = B"
      by (rule concat_map_pack) (simp add: lens)
    have "pack_emp_bools bs p = Inr (A @ B @ C)"
      unfolding pack_emp_bools_def n q Some by (simp only: bindR_simps option.case Let_def al dr mp)
    then show ?thesis by (simp add: n enc)
  qed
qed

section \<open>Partial blocks\<close>

lemma block_from_take:
  assumes "k \<le> BLOCK_BYTES"
  shows "block_from_bytes (take k (block_bytes b) @ replicate (BLOCK_BYTES - k) 0) = take_bit (8 * k) b"
proof (rule bit_word_eqI)
  fix i assume "i < LENGTH(128)"
  moreover have "i div 8 < k \<longleftrightarrow> i < 8 * k" by auto
  ultimately show "bit (block_from_bytes (take k (block_bytes b) @ replicate (BLOCK_BYTES - k) 0)) i = bit (take_bit (8 * k) b) i"
    using assms by (auto simp: block_from_bytes_def bit_word_of_le block_bytes_def bit_le_bytes_nth
        nth_append bit_take_bit_iff BLOCK_BYTES_def)
qed

lemma decode_encode_partial_blocks:
  assumes "1 \<le> k" and "k \<le> BLOCK_BYTES"
  shows "encode_partial_blocks blocks k = Inr (concat (map (\<lambda>b. take k (block_bytes b)) blocks))"
    and "decode_partial_blocks (concat (map (\<lambda>b. take k (block_bytes b)) blocks)) k = Inr (map (take_bit (8 * k)) blocks)"
proof -
  show "encode_partial_blocks blocks k = Inr (concat (map (\<lambda>b. take k (block_bytes b)) blocks))"
    using assms by (simp add: encode_partial_blocks_def validate_partial_bytes_def)
  let ?cs = "map (\<lambda>b. take k (block_bytes b)) blocks"
  have len: "length (concat ?cs) = k * length blocks"
    using assms by (induction blocks) auto
  have "chunks_exact k (concat ?cs @ []) = ?cs"
    using assms by (intro chunks_exact_concat) auto
  then have cs: "chunks_exact k (concat ?cs) = ?cs" by simp
  have "length (concat ?cs) mod k = 0" by (simp only: len mod_mult_self1_is_0)
  with assms show "decode_partial_blocks (concat ?cs) k = Inr (map (take_bit (8 * k)) blocks)"
    unfolding decode_partial_blocks_def validate_partial_bytes_def
    by (simp only: cs if_True if_False bindR_simps simp_thms) (simp add: block_from_take)
qed

lemma blocks_of_slice [simp]: "blocks_of (slice_as_bytes blocks) = blocks"
proof -
  have "chunks_exact BLOCK_BYTES (concat (map block_bytes blocks) @ []) = map block_bytes blocks"
    by (intro chunks_exact_concat) (auto simp: BLOCK_BYTES_def)
  then show ?thesis by (simp add: blocks_of_def slice_as_bytes_def comp_def)
qed

lemma length_slice_as_bytes [simp]: "length (slice_as_bytes blocks) = length blocks * BLOCK_BYTES"
  by (induction blocks) (auto simp: slice_as_bytes_def)

section \<open>Runs of a stream\<close>

text \<open>
  What a client sees of a byte stream, whatever the transport: a run of sends and receives, each
  successful, with the bytes handed over in the two directions.
\<close>

datatype stream_op = OpSend bytes | OpRecv nat

fun stream_run ::
  "(bytes \<Rightarrow> 's \<Rightarrow> (wire_error + unit) \<times> 's) \<Rightarrow> (nat \<Rightarrow> 's \<Rightarrow> ((wire_error + bytes) \<times> 's) option)
   \<Rightarrow> stream_op list \<Rightarrow> 's \<Rightarrow> (bytes \<times> bytes \<times> 's) option" where
  "stream_run send recv [] s = Some ([], [], s)"
| "stream_run send recv (OpSend d # ops) s = (case send d s of
       (Inl _, _) \<Rightarrow> None
     | (Inr _, s) \<Rightarrow> map_option (\<lambda>(out, inn, s). (d @ out, inn, s)) (stream_run send recv ops s))"
| "stream_run send recv (OpRecv n # ops) s = (case recv n s of
       Some (Inr d, s) \<Rightarrow> map_option (\<lambda>(out, inn, s). (out, d @ inn, s)) (stream_run send recv ops s)
     | _ \<Rightarrow> None)"

lemma absorb_absorb [simp]: "absorb b (absorb a h) = absorb (a @ b) h"
  by (cases h) (auto simp: absorb_def)

lemma absorb_Nil [simp]: "absorb [] h = h"
  by (cases h) (auto simp: absorb_def)

text \<open>The contract of a stream with transcripts: what a successful operation absorbs.\<close>

locale byte_io =
  fixes send :: "bytes \<Rightarrow> 'a fs_state_scheme \<Rightarrow> (wire_error + unit) \<times> 'a fs_state_scheme"
    and recv :: "nat \<Rightarrow> 'a fs_state_scheme \<Rightarrow> ((wire_error + bytes) \<times> 'a fs_state_scheme) option"
  assumes send_fs: "send d s = (Inr u, s') \<Longrightarrow>
      fs_send s' = absorb d (fs_send s) \<and> fs_recv s' = fs_recv s \<and> fs_send_first s' = fs_send_first s"
    and recv_fs: "recv n s = Some (Inr d, s') \<Longrightarrow>
      fs_recv s' = absorb d (fs_recv s) \<and> fs_send s' = fs_send s \<and> fs_send_first s' = fs_send_first s"
    and recv_length: "recv n s = Some (Inr d, s') \<Longrightarrow> length d = n"
begin

lemma run_fs:
  "stream_run send recv ops s = Some (out, inn, s') \<Longrightarrow>
     fs_send s' = absorb out (fs_send s) \<and> fs_recv s' = absorb inn (fs_recv s) \<and> fs_send_first s' = fs_send_first s"
proof (induction ops arbitrary: s out inn)
  case Nil
  then show ?case by simp
next
  case (Cons x ops)
  then show ?case
    by (cases x) (auto split: prod.splits sum.splits option.splits dest!: send_fs recv_fs Cons.IH)
qed

lemma run_digest:
  assumes "enable_fs flag s = Inr s0" and "stream_run send recv ops s0 = Some (out, inn, s')"
  shows "get_send_digest sha256 s' = Inr (first_digest_block (sha256 out))"
    and "get_recv_digest sha256 s' = Inr (first_digest_block (sha256 inn))"
    and "get_digest sha256 s' = Inr (first_digest_block (sha256
           (if flag then sha256 out @ sha256 inn else sha256 inn @ sha256 out)))"
proof -
  have "fs_send s0 = Some []" "fs_recv s0 = Some []" "fs_send_first s0 = flag"
    using assms(1) by (auto simp: enable_fs_def split: if_splits)
  with run_fs [OF assms(2)]
  have "fs_send s' = Some out" "fs_recv s' = Some inn" "fs_send_first s' = flag" by (auto simp: absorb_def)
  then show "get_send_digest sha256 s' = Inr (first_digest_block (sha256 out))"
    and "get_recv_digest sha256 s' = Inr (first_digest_block (sha256 inn))"
    and "get_digest sha256 s' = Inr (first_digest_block (sha256
           (if flag then sha256 out @ sha256 inn else sha256 inn @ sha256 out)))"
    by (auto simp: get_send_digest_def get_recv_digest_def get_digest_def)
qed

lemma recv_bool_bytes_packed:
  assumes "pack_emp_bools bs p = Inr enc" and "recv (length enc) s = Some (Inr enc, s')"
  shows "recv_bool_bytes recv (length bs) p s = Some (Inr (bools_on_wire p bs), s')"
proof -
  have "p < 8" using assms(1) by (auto simp: pack_emp_bools_def aligned_prefix_len_def split: if_splits)
  from length_pack_emp_bools [OF this, of bs] assms show ?thesis
    by (auto simp: recv_bool_bytes_def on_ok_def unpack_pack_emp_bools)
qed

lemma recv_block_total:
  "recv (count * BLOCK_BYTES) s = Some (Inr d, s') \<Longrightarrow>
     recv_block recv count s = Some (Inr (blocks_of d), s') \<and> length (blocks_of d) = count"
  by (auto simp: recv_block_def on_ok_def blocks_of_def length_chunks_exact BLOCK_BYTES_def dest: recv_length)

end

lemma recv_fill_ok_raw:
  "recv_fill rx len s = Some rs \<Longrightarrow> (case rs of (Inr _, s') \<Rightarrow>
     (\<exists>more. recv_buf s' = recv_buf s @ more) \<and> len \<le> length (recv_buf s') \<and>
     fs_send s' = fs_send s \<and> fs_recv s' = fs_recv s \<and> fs_send_first s' = fs_send_first s
   | _ \<Rightarrow> True)"
proof (induction rule: recv_fill.raw_induct [rotated 1, consumes 1, case_names 1])
  case (1 f rx len s rs)
  show ?case
  proof (cases "length (recv_buf s) < len")
    case False
    with 1(2) show ?thesis by auto
  next
    case True
    show ?thesis
    proof (cases "rx (cs_chan s)")
      case None
      with True 1(2) show ?thesis by simp
    next
      case (Some ct)
      obtain c t where ct: "ct = (c, t)" by (cases ct)
      show ?thesis
      proof (cases c)
        case None
        with True 1(2) Some ct show ?thesis by auto
      next
        case (Some chunk)
        with True 1(2) \<open>rx (cs_chan s) = Some ct\<close> ct
        have "f rx len (s\<lparr>cs_chan := t, recv_buf := recv_buf s @ chunk\<rparr>) = Some rs" by simp
        from 1(1) [OF this] show ?thesis by (auto split: sum.splits prod.splits)
      qed
    qed
  qed
qed

lemma recv_fill_ok:
  assumes "recv_fill rx len s = Some (Inr u, s')"
  shows "len \<le> length (recv_buf s')" and "fs_send s' = fs_send s" and "fs_recv s' = fs_recv s"
    and "fs_send_first s' = fs_send_first s"
  using recv_fill_ok_raw [OF assms] by auto

lemma channel_recv_data_ok:
  assumes "channel_recv_data rx n s = Some (Inr d, s')"
  obtains s1 where "recv_fill rx n s = Some (Inr (), s1)" and "d = take n (recv_buf s1)"
    and "s' = s1\<lparr>recv_buf := drop n (recv_buf s1), fs_recv := absorb d (fs_recv s1)\<rparr>"
proof (cases "recv_fill rx n s")
  case None
  with assms show thesis by (simp add: channel_recv_data_def)
next
  case (Some p)
  obtain r s1 where p: "p = (r, s1)" by (cases p)
  show thesis
  proof (cases r)
    case (Inl e)
    with assms Some p show thesis by (simp add: channel_recv_data_def)
  next
    case (Inr u)
    with assms Some p have d: "d = take n (recv_buf s1)" and
        "s' = s1\<lparr>recv_buf := drop n (recv_buf s1), fs_recv := absorb (take n (recv_buf s1)) (fs_recv s1)\<rparr>"
      by (auto simp add: channel_recv_data_def Let_def)
    then show thesis using Some p Inr by (intro that [of s1]) simp_all
  qed
qed

interpretation chan: byte_io "channel_send_data tx" "channel_recv_data rx" for tx rx
proof (unfold_locales, goal_cases)
  case (1 d s u s')
  then show ?case by (auto simp: channel_send_data_def Let_def split: prod.splits if_splits)
next
  case (2 n s d s')
  then show ?case by (elim channel_recv_data_ok) (simp add: recv_fill_ok)
next
  case (3 n s d s')
  then show ?case by (elim channel_recv_data_ok) (simp add: recv_fill_ok)
qed

lemma fs_note_dir [simp]:
  "fs_send (note_dir d s) = fs_send s" "fs_recv (note_dir d s) = fs_recv s"
  "fs_send_first (note_dir d s) = fs_send_first s"
  "es_stream (note_dir d s) = es_stream s" "send_counter (note_dir d s) = send_counter s"
  "recv_counter (note_dir d s) = recv_counter s" "last_dir (note_dir d s) = d"
  by (simp_all add: note_dir_def)

lemma length_fill_buf [simp]: "length (fill_buf n d) = n"
  by (simp add: fill_buf_def)

lemma fill_buf_exact [simp]: "length d = n \<Longrightarrow> fill_buf n d = d"
  by (simp add: fill_buf_def)

lemma emp_send_data_ok:
  assumes "emp_send_data wr d s = (Inr u, s')"
  obtains t where "s' = (note_dir SendDir (s\<lparr>send_counter := send_counter s + of_nat (length d)\<rparr>))
      \<lparr>fs_send := absorb d (fs_send s), es_stream := t, send_dirty := True\<rparr>"
proof -
  obtain r t where rt: "wr (es_stream s) d = (r, t)" by (cases "wr (es_stream s) d")
  show thesis
  proof (cases r)
    case (Inl e)
    with assms rt show thesis by (simp add: emp_send_data_def Let_def)
  next
    case (Inr u)
    with assms rt have "(note_dir SendDir (s\<lparr>send_counter := send_counter s + of_nat (length d)\<rparr>))
      \<lparr>fs_send := absorb d (fs_send s), es_stream := t, send_dirty := True\<rparr> = s'"
      by (simp add: emp_send_data_def Let_def)
    then show thesis by (intro that [of t]) (rule sym)
  qed
qed

lemma emp_recv_data_ok:
  assumes "emp_recv_data rd n s = Some (Inr d, s')"
  obtains e t where "d = fill_buf n e"
    and "s' = (note_dir RecvDir (s\<lparr>recv_counter := recv_counter s + of_nat n\<rparr>))
      \<lparr>es_stream := t, fs_recv := absorb d (fs_recv s)\<rparr>"
proof (cases "rd n (es_stream s)")
  case None
  with assms show thesis by (simp add: emp_recv_data_def Let_def)
next
  case (Some p)
  obtain r t where "p = (r, t)" by (cases p)
  with Some assms that show thesis by (auto simp: emp_recv_data_def Let_def split: sum.splits)
qed

interpretation emp: byte_io "emp_send_data wr" "emp_recv_data rd" for wr rd
proof (unfold_locales, goal_cases)
  case (1 d s u s')
  then show ?case by (elim emp_send_data_ok) simp
next
  case (2 n s d s')
  then show ?case by (elim emp_recv_data_ok) simp
next
  case (3 n s d s')
  then show ?case by (elim emp_recv_data_ok) simp
qed

lemma emp_recv_block_eq:
  "emp_recv_block rd count s = recv_block (emp_recv_data rd) count s"
  by (auto simp: emp_recv_block_def recv_block_def on_ok_def emp_recv_data_def Let_def
      split: option.splits sum.splits prod.splits)

fun changes :: "last_dir \<Rightarrow> last_dir list \<Rightarrow> nat" where
  "changes d [] = 0"
| "changes d (e # es) = (if d \<noteq> e then 1 else 0) + changes e es"

fun op_dir :: "stream_op \<Rightarrow> last_dir" where
  "op_dir (OpSend _) = SendDir"
| "op_dir (OpRecv _) = RecvDir"

lemma emp_run_counters:
  "stream_run (emp_send_data wr) (emp_recv_data rd) ops s = Some (out, inn, s') \<Longrightarrow>
     send_counter s' = send_counter s + of_nat (length out) \<and>
     recv_counter s' = recv_counter s + of_nat (length inn) \<and>
     rounds s' = rounds s + of_nat (changes (last_dir s) (map op_dir ops))"
proof (induction ops arbitrary: s out inn)
  case Nil
  then show ?case by simp
next
  case (Cons x ops)
  show ?case
  proof (cases x)
    case (OpSend d)
    obtain r s1 where r: "emp_send_data wr d s = (r, s1)" by (cases "emp_send_data wr d s")
    with Cons.prems OpSend obtain out' where run: "stream_run (emp_send_data wr) (emp_recv_data rd) ops s1 = Some (out', inn, s')"
      and out: "out = d @ out'" and rr: "r = Inr ()" by (auto split: sum.splits)
    from r rr show ?thesis using Cons.IH [OF run] OpSend
      by (auto elim!: emp_send_data_ok simp: out note_dir_def split: if_splits)
  next
    case (OpRecv n)
    from Cons.prems OpRecv obtain d s1 inn' where r: "emp_recv_data rd n s = Some (Inr d, s1)"
      and run: "stream_run (emp_send_data wr) (emp_recv_data rd) ops s1 = Some (out, inn', s')"
      and inn: "inn = d @ inn'" by (auto split: option.splits prod.splits sum.splits)
    from r show ?thesis using Cons.IH [OF run] OpRecv
      by (auto elim!: emp_recv_data_ok simp: inn note_dir_def split: if_splits)
  qed
qed


section \<open>Properties of the wire layer\<close>

text \<open>The boolean encoding is exact in both directions: packing is defined for every pointer offset
  below 8, has the announced wire length, and unpacks to the array (with only the low bit of the bytes
  that were packed eight to one kept, so to the array itself when it holds bits); and every encoding
  \<open>unpack_emp_bools\<close> accepts is the one \<open>pack_emp_bools\<close> makes of what it returned.\<close>
theorem emp_bools_roundtrip:
  assumes "p < 8"
  shows "(\<exists>enc. pack_emp_bools bs p = Inr enc \<and> emp_bool_wire_len (length bs) p = Inr (length enc)
        \<and> unpack_emp_bools enc (length bs) p = Inr (bools_on_wire p bs))
    \<and> ((\<forall>b \<in> set bs. b = 0 \<or> b = 1) \<longrightarrow> bools_on_wire p bs = bs)
    \<and> (unpack_emp_bools enc n p = Inr cs \<longrightarrow> length cs = n \<and> pack_emp_bools cs p = Inr enc)"
proof -
  obtain enc' where "pack_emp_bools bs p = Inr enc'" "emp_bool_wire_len (length bs) p = Inr (length enc')"
    using length_pack_emp_bools [OF assms, of bs] by auto
  then show ?thesis
    using unpack_pack_emp_bools [of bs p enc'] bools_on_wire_bits [of bs p] pack_unpack_emp_bools [of enc n p cs]
    by simp
qed

theorem emp_bools_roundtrip_witness:
  "pack_emp_bools [1, 1, 0, 1, 0, 0, 0, 1, 1, 1, 1] 6 = Inr [1, 1, 226, 1]
    \<and> bools_on_wire 6 [1, 1, 0, 1, 0, 0, 0, 1, 1, 1, 1] = [1, 1, 0, 1, 0, 0, 0, 1, 1, 1, 1]
    \<and> unpack_emp_bools [1, 1, 226, 1] 11 6 = Inr [1, 1, 0, 1, 0, 0, 0, 1, 1, 1, 1]"
proof -
  have "\<forall>b \<in> set [1, 1, 0, 1, 0, 0, 0, 1, 1, 1, 1 :: u8]. b = 0 \<or> b = 1" by simp
  moreover have "pack_emp_bools [1, 1, 0, 1, 0, 0, 0, 1, 1, 1, 1] 6 = Inr [1, 1, 226, 1]" by code_simp
  ultimately show ?thesis
    using emp_bools_roundtrip [of 6 "[1, 1, 0, 1, 0, 0, 0, 1, 1, 1, 1]" "[]" 0 "[]"] by (auto simp: eval_nat_numeral)
qed

text \<open>The Fiat-Shamir transcripts of the two ends of a connection agree: if both streams enable them
  with opposite order flags and then run any sequences of sends and receives in which each end received
  exactly the bytes the other sent (in whatever pieces), the two session digests are equal, and each
  end's send digest is the other's receive digest. It holds across the two stream types.\<close>
theorem transcript_digests_agree:
  assumes "enable_fs True a = Inr a0" and "enable_fs False b = Inr b0"
    and "stream_run (channel_send_data tx) (channel_recv_data rx) ops a0 = Some (ab, ba, a')"
    and "stream_run (emp_send_data wr) (emp_recv_data rd) ops' b0 = Some (ba, ab, b')"
  shows "get_digest sha256 a' = get_digest sha256 b' \<and> (\<exists>d. get_digest sha256 a' = Inr d)
    \<and> get_send_digest sha256 a' = get_recv_digest sha256 b'
    \<and> get_recv_digest sha256 a' = get_send_digest sha256 b'"
  using chan.run_digest [OF assms(1) assms(3)] emp.run_digest [OF assms(2) assms(4)] by simp

definition loop_tx :: "bytes list \<Rightarrow> bytes \<Rightarrow> bool \<times> bytes list" where
  "loop_tx t d = (True, t)"

definition loop_rx :: "bytes list \<Rightarrow> (bytes option \<times> bytes list) option" where
  "loop_rx t = (case t of [] \<Rightarrow> None | c # t \<Rightarrow> Some (Some c, t))"

definition loop_wr :: "bytes \<Rightarrow> bytes \<Rightarrow> (io_error + unit) \<times> bytes" where
  "loop_wr t d = (Inr (), t)"

definition loop_rd :: "nat \<Rightarrow> bytes \<Rightarrow> ((io_error + bytes) \<times> bytes) option" where
  "loop_rd n t = (if length t < n then None else Some (Inr (take n t), drop n t))"

theorem transcript_digests_agree_witness:
  "\<exists>a b. stream_run (channel_send_data loop_tx) (channel_recv_data loop_rx) [OpSend [1, 2], OpRecv 3]
        ((channel_new [[7], [8, 9]])\<lparr>fs_send_first := True, fs_send := Some [], fs_recv := Some []\<rparr>) = Some ([1, 2], [7, 8, 9], a)
    \<and> stream_run (emp_send_data loop_wr) (emp_recv_data loop_rd) [OpRecv 1, OpRecv 1, OpSend [7, 8, 9]]
        ((emp_stream_new [1, 2])\<lparr>fs_send_first := False, fs_send := Some [], fs_recv := Some []\<rparr>) = Some ([7, 8, 9], [1, 2], b)
    \<and> get_digest rev a = get_digest rev b"
proof -
  let ?a0 = "(channel_new [[7], [8, 9]])\<lparr>fs_send_first := True, fs_send := Some [], fs_recv := Some []\<rparr>"
  let ?b0 = "(emp_stream_new [1, 2])\<lparr>fs_send_first := False, fs_send := Some [], fs_recv := Some []\<rparr>"
  have "\<exists>a. stream_run (channel_send_data loop_tx) (channel_recv_data loop_rx) [OpSend [1, 2], OpRecv 3] ?a0
      = Some ([1, 2], [7, 8, 9], a)"
    by (simp add: channel_send_data_def channel_recv_data_def recv_fill.simps loop_tx_def loop_rx_def
        channel_new_def Let_def absorb_def)
  moreover have "\<exists>b. stream_run (emp_send_data loop_wr) (emp_recv_data loop_rd) [OpRecv 1, OpRecv 1, OpSend [7, 8, 9]] ?b0
      = Some ([7, 8, 9], [1, 2], b)"
    by (simp add: emp_send_data_def emp_recv_data_def loop_wr_def loop_rd_def emp_stream_new_def Let_def
        note_dir_def fill_buf_def)
  moreover have "enable_fs True (channel_new [[7], [8, 9]]) = Inr ?a0"
    and "enable_fs False (emp_stream_new [1, 2]) = Inr ?b0"
    by (simp_all add: enable_fs_def channel_new_def emp_stream_new_def)
  ultimately show ?thesis
    using transcript_digests_agree [of "channel_new [[7], [8, 9]]" ?a0 "emp_stream_new [1, 2]" ?b0
        loop_tx loop_rx "[OpSend [1, 2], OpRecv 3]" "[1, 2]" "[7, 8, 9]" _
        loop_wr loop_rd "[OpRecv 1, OpRecv 1, OpSend [7, 8, 9]]" _ rev] by blast
qed

text \<open>The statistics an \<open>EmpStream\<close> reports are those of its history: after any successful run from a
  fresh stream, the counters are the numbers of bytes sent and received and \<open>rounds\<close> is the number of
  direction changes (each modulo 64 bits).\<close>
theorem emp_stream_statistics:
  assumes "stream_run (emp_send_data wr) (emp_recv_data rd) ops (emp_stream_new t) = Some (out, inn, s)"
  shows "send_counter s = of_nat (length out) \<and> recv_counter s = of_nat (length inn)
    \<and> rounds s = of_nat (changes NoDir (map op_dir ops))"
  using emp_run_counters [OF assms] by (simp add: emp_stream_new_def)

theorem emp_stream_statistics_witness:
  "\<exists>s. stream_run (emp_send_data loop_wr) (emp_recv_data loop_rd) [OpRecv 1, OpRecv 1, OpSend [7, 8, 9]]
        (emp_stream_new [1, 2]) = Some ([7, 8, 9], [1, 2], s) \<and> rounds s = 2 \<and> send_counter s = 3"
proof -
  have "\<exists>s. stream_run (emp_send_data loop_wr) (emp_recv_data loop_rd) [OpRecv 1, OpRecv 1, OpSend [7, 8, 9]]
        (emp_stream_new [1, 2]) = Some ([7, 8, 9], [1, 2], s)"
    by (simp add: emp_send_data_def emp_recv_data_def loop_wr_def loop_rd_def emp_stream_new_def Let_def
        note_dir_def fill_buf_def)
  then show ?thesis
    using emp_stream_statistics [of loop_wr loop_rd "[OpRecv 1, OpRecv 1, OpSend [7, 8, 9]]" "[1, 2]"] by fastforce
qed

end
