(* ===== verification/Circuit.thy ===== *)
theory Circuit
  imports Derivation
begin

text \<open>
  Boolean circuits, \<open>shachain2pc-circuit\<close>: the Bristol parser, the evaluator and the digests that bind
  a circuit into a handshake. Wires are \<open>i32\<close>, kept as integers with the wrap-around of the release
  profile written out; an index out of a vector's range is the error \<open>CPanic\<close>. A text is its list of
  ASCII characters; \<open>is_space\<close> is the ASCII part of Rust's Unicode white space.
\<close>

section \<open>Circuits\<close>

datatype gate_type = And | Xor | Inv

record gate =
  g_typ :: gate_type
  g_in0 :: int
  g_in1 :: int
  g_out :: int

record circuit =
  c_num_wire :: int
  c_n1 :: int
  c_n2 :: int
  c_n3 :: int
  c_gates :: "gate list"

definition num_gate :: "circuit \<Rightarrow> int" where
  "num_gate c = wrap32 (int (length (c_gates c)))"

definition count_type :: "gate_type \<Rightarrow> circuit \<Rightarrow> nat" where
  "count_type typ c = length (filter (\<lambda>g. g_typ g = typ) (c_gates c))"

fun show_circuit_error :: "circuit_error \<Rightarrow> string" where
  "show_circuit_error (Parse e) = e"
| "show_circuit_error (Shape e) = e"
| "show_circuit_error (Index e) = show_parse_error e"
| "show_circuit_error CPanic = ''index out of bounds''"

section \<open>The Bristol parser\<close>

definition is_space :: "char \<Rightarrow> bool" where
  "is_space ch \<longleftrightarrow> ch = CHR '' '' \<or> (9 \<le> (of_char ch :: nat) \<and> (of_char ch :: nat) \<le> 13)"

fun split_whitespace_acc :: "string \<Rightarrow> string \<Rightarrow> string list" where
  "split_whitespace_acc cur [] = (if cur = [] then [] else [cur])"
| "split_whitespace_acc cur (ch # s) =
     (if is_space ch then (if cur = [] then [] else [cur]) @ split_whitespace_acc [] s
      else split_whitespace_acc (cur @ [ch]) s)"

definition split_whitespace :: "string \<Rightarrow> string list" where
  "split_whitespace s = split_whitespace_acc [] s"

fun parse_i32_digits :: "int \<Rightarrow> string \<Rightarrow> int \<Rightarrow> int option" where
  "parse_i32_digits lim [] acc = Some acc"
| "parse_i32_digits lim (c # cs) acc =
     (case char_digit c of None \<Rightarrow> None
      | Some d \<Rightarrow> if 10 * acc + int d < lim then parse_i32_digits lim cs (10 * acc + int d) else None)"

definition parse_i32 :: "string \<Rightarrow> int option" where
  \<comment> \<open>\<open>str::parse::<i32>\<close>: an optional sign, at least one digit, no overflow\<close>
  "parse_i32 s =
     (let (neg, ds) = (case s of
            ch # rest \<Rightarrow> if ch = CHR ''-'' then (True, rest) else if ch = CHR ''+'' then (False, rest) else (False, s)
          | [] \<Rightarrow> (False, s))
      in if ds = [] then None
         else if neg then map_option uminus (parse_i32_digits (2 ^ 31 + 1) ds 0)
         else parse_i32_digits (2 ^ 31) ds 0)"

definition next_token :: "string \<Rightarrow> string list \<Rightarrow> circuit_error + string \<times> string list" where
  "next_token field it = (case it of
       [] \<Rightarrow> Inl (Parse (''LoadBristol: missing '' @ field))
     | t # it \<Rightarrow> Inr (t, it))"

definition next_parse :: "string \<Rightarrow> string list \<Rightarrow> circuit_error + int \<times> string list" where
  "next_parse field it = bindR (next_token field it) (\<lambda>(t, it).
     bindR (okOr (Parse (''LoadBristol: bad '' @ field)) (parse_i32 t)) (\<lambda>v. Inr (v, it)))"

definition in_range :: "int \<Rightarrow> int \<Rightarrow> bool" where
  "in_range num_wire w \<longleftrightarrow> w \<ge> 0 \<and> w < num_wire"

definition parse_gate :: "string \<Rightarrow> int \<Rightarrow> string list \<Rightarrow> circuit_error + gate \<times> string list" where
  "parse_gate src num_wire it =
     bindR (next_parse ''gate n_in'' it) (\<lambda>(n_in, it).
     bindR (next_parse ''gate n_out'' it) (\<lambda>(n_out, it).
     if n_out \<noteq> 1 then Inl (Parse (''LoadBristol: bad gate arity in '' @ src))
     else bindR
       (if n_in = 2 then
          bindR (next_parse ''in0'' it) (\<lambda>(i0, it).
          bindR (next_parse ''in1'' it) (\<lambda>(i1, it).
          bindR (next_parse ''out'' it) (\<lambda>(o', it).
          bindR (next_token ''op'' it) (\<lambda>(op, it).
          bindR (case op of
                   CHR ''A'' # _ \<Rightarrow> Inr And
                 | CHR ''X'' # _ \<Rightarrow> Inr Xor
                 | _ \<Rightarrow> Inl (Parse (''LoadBristol: unknown 2-input op in '' @ src))) (\<lambda>typ.
          Inr (\<lparr>g_typ = typ, g_in0 = i0, g_in1 = i1, g_out = o'\<rparr>, it))))))
        else if n_in = 1 then
          bindR (next_parse ''in0'' it) (\<lambda>(i0, it).
          bindR (next_parse ''out'' it) (\<lambda>(o', it).
          bindR (next_token ''op'' it) (\<lambda>(_, it).
          Inr (\<lparr>g_typ = Inv, g_in0 = i0, g_in1 = - 1, g_out = o'\<rparr>, it))))
        else Inl (Parse (''LoadBristol: unexpected gate fan-in in '' @ src)))
       (\<lambda>(g, it).
         if \<not> in_range num_wire (g_in0 g) \<or> \<not> in_range num_wire (g_out g)
            \<or> (g_typ g \<noteq> Inv \<and> \<not> in_range num_wire (g_in1 g))
         then Inl (Parse (''LoadBristol: gate wire index out of range in '' @ src))
         else Inr (g, it))))"

fun parse_gates :: "string \<Rightarrow> int \<Rightarrow> nat \<Rightarrow> string list \<Rightarrow> circuit_error + gate list \<times> string list" where
  "parse_gates src num_wire 0 it = Inr ([], it)"
| "parse_gates src num_wire (Suc k) it = bindR (parse_gate src num_wire it) (\<lambda>(g, it).
     bindR (parse_gates src num_wire k it) (\<lambda>(gs, it). Inr (g # gs, it)))"

definition parse_bristol :: "string \<Rightarrow> string \<Rightarrow> circuit_error + circuit" where
  "parse_bristol text src =
     bindR (next_parse ''num_gate'' (split_whitespace text)) (\<lambda>(num_gate, it).
     bindR (next_parse ''num_wire'' it) (\<lambda>(num_wire, it).
     bindR (next_parse ''n1'' it) (\<lambda>(n1, it).
     bindR (next_parse ''n2'' it) (\<lambda>(n2, it).
     bindR (next_parse ''n3'' it) (\<lambda>(n3, it).
     if num_gate < 0 \<or> num_wire \<le> 0 \<or> n1 < 0 \<or> n2 < 0 \<or> n3 < 0
        \<or> wrap32 (n1 + n2) > num_wire \<or> n3 > num_wire
     then Inl (Parse (''LoadBristol: inconsistent header in '' @ src))
     else bindR (parse_gates src num_wire (nat num_gate) it) (\<lambda>(gs, _).
       Inr \<lparr>c_num_wire = num_wire, c_n1 = n1, c_n2 = n2, c_n3 = n3, c_gates = gs\<rparr>))))))"

section \<open>The evaluator\<close>

definition wire_get :: "'a list \<Rightarrow> int \<Rightarrow> circuit_error + 'a" where
  "wire_get ws i = (let k = usize_of_i32 i in if k < length ws then Inr (ws ! k) else Inl CPanic)"

definition wire_set :: "'a list \<Rightarrow> int \<Rightarrow> 'a \<Rightarrow> circuit_error + 'a list" where
  "wire_set ws i v = (let k = usize_of_i32 i in if k < length ws then Inr (ws[k := v]) else Inl CPanic)"

definition eval_gate :: "gate \<Rightarrow> bytes \<Rightarrow> circuit_error + bytes" where
  "eval_gate g wires = (case g_typ g of
       And \<Rightarrow> bindR (wire_get wires (g_in0 g)) (\<lambda>a. bindR (wire_get wires (g_in1 g)) (\<lambda>b. wire_set wires (g_out g) (a AND b)))
     | Xor \<Rightarrow> bindR (wire_get wires (g_in0 g)) (\<lambda>a. bindR (wire_get wires (g_in1 g)) (\<lambda>b. wire_set wires (g_out g) (a XOR b)))
     | Inv \<Rightarrow> bindR (wire_get wires (g_in0 g)) (\<lambda>a. wire_set wires (g_out g) (a XOR 1)))"

definition slice :: "'a list \<Rightarrow> nat \<Rightarrow> nat \<Rightarrow> circuit_error + 'a list" where
  \<comment> \<open>\<open>v[start..end]\<close>\<close>
  "slice ws a b = (if a \<le> b \<and> b \<le> length ws then Inr (take (b - a) (drop a ws)) else Inl CPanic)"

definition eval_bristol :: "circuit \<Rightarrow> bytes \<Rightarrow> circuit_error + bytes" where
  "eval_bristol c in_bits =
     (if length in_bits \<noteq> usize_of_i32 (wrap32 (c_n1 c + c_n2 c)) then Inl (Shape ''EvalBristol: wrong input width'')
      else let wires = replicate (usize_of_i32 (c_num_wire c)) 0 in
        if length in_bits > length wires then Inl CPanic
        else bindR (foldR eval_gate (c_gates c) (map (\<lambda>b. b AND 1) in_bits @ drop (length in_bits) wires)) (\<lambda>wires.
          let start = usize_of_i32 (wrap32 (c_num_wire c - c_n3 c)) in
          slice wires start ((start + usize_of_i32 (c_n3 c)) mod 2 ^ 64)))"

section \<open>Digests\<close>

definition to_emp_gate_array :: "circuit \<Rightarrow> int list" where
  "to_emp_gate_array c = concat (map (\<lambda>g. [g_in0 g, if g_typ g = Inv then 0 else g_in1 g, g_out g,
     (case g_typ g of And \<Rightarrow> 0 | Xor \<Rightarrow> 1 | Inv \<Rightarrow> 2)]) (c_gates c))"

definition i32_ne_bytes :: "int \<Rightarrow> bytes" where
  \<comment> \<open>\<open>to_ne_bytes\<close> on the little-endian targets\<close>
  "i32_ne_bytes v = le_bytes 4 (word_of_int v :: u32)"

definition u64_ne_bytes :: "u64 \<Rightarrow> bytes" where
  "u64_ne_bytes v = le_bytes 8 v"

definition circuit_digest :: "(bytes \<Rightarrow> bytes) \<Rightarrow> circuit \<Rightarrow> int list \<Rightarrow> bytes" where
  "circuit_digest sha256 c gate_arr =
     sha256 (concat (map i32_ne_bytes [num_gate c, c_num_wire c, c_n1 c, c_n2 c, c_n3 c])
             @ concat (map i32_ne_bytes gate_arr))"

definition batch_digest :: "(bytes \<Rightarrow> bytes) \<Rightarrow> u64 list \<Rightarrow> circuit \<Rightarrow> bytes" where
  "batch_digest sha256 indices sha =
     sha256 (concat (map u64_ne_bytes indices) @ circuit_digest sha256 sha (to_emp_gate_array sha))"

definition chunk_spec_digest :: "(bytes \<Rightarrow> bytes) \<Rightarrow> u64 \<Rightarrow> int \<Rightarrow> circuit \<Rightarrow> bytes" where
  "chunk_spec_digest sha256 index blocks_per_chunk sha =
     sha256 (u64_ne_bytes index @ i32_ne_bytes blocks_per_chunk @ circuit_digest sha256 sha (to_emp_gate_array sha))"

definition tree_digest :: "(bytes \<Rightarrow> bytes) \<Rightarrow> u64 list \<Rightarrow> int \<Rightarrow> circuit \<Rightarrow> bytes" where
  "tree_digest sha256 indices trunk_chunk_blocks sha =
     sha256 (concat (map u64_ne_bytes indices) @ i32_ne_bytes trunk_chunk_blocks
             @ circuit_digest sha256 sha (to_emp_gate_array sha))"

definition cache_digest :: "(bytes \<Rightarrow> bytes) \<Rightarrow> u64 \<Rightarrow> u64 \<Rightarrow> int \<Rightarrow> int \<Rightarrow> circuit \<Rightarrow> bytes" where
  "cache_digest sha256 lo hi trunk_chunk_blocks tile_fanout sha =
     sha256 (u64_ne_bytes lo @ u64_ne_bytes hi @ i32_ne_bytes trunk_chunk_blocks @ i32_ne_bytes tile_fanout
             @ circuit_digest sha256 sha (to_emp_gate_array sha))"

section \<open>Shape checks and plans\<close>

record tile_level =
  tl_bit_offset :: nat
  tl_height :: nat

definition check_chunk_circuit :: "circuit \<Rightarrow> circuit_error + unit" where
  "check_chunk_circuit c =
     (let ni = wrap32 (c_n1 c + c_n2 c) in
      if (ni \<noteq> int VALUE_BITS \<and> ni \<noteq> 2 * int VALUE_BITS) \<or> c_n3 c \<noteq> int VALUE_BITS
      then Inl (Shape ''shachain2pc: chunk circuit has wrong shape'') else Inr ())"

definition check_tile_circuit :: "circuit \<Rightarrow> nat \<Rightarrow> circuit_error + unit" where
  \<comment> \<open>\<open>1usize << tile_height\<close> masks the shift to 6 bits; \<open>tile_bits as i32\<close> truncates\<close>
  "check_tile_circuit c tile_height =
     (let tile_bits = VALUE_BITS * 2 ^ (tile_height mod 64) in
      if tile_bits \<ge> 2 ^ 64 then Inl (Shape ''shachain2pc: tile circuit too large'')
      else if c_n1 c \<noteq> int VALUE_BITS \<or> c_n2 c \<noteq> 0 \<or> c_n3 c \<noteq> wrap32 (int tile_bits)
      then Inl (Shape ''shachain2pc: tile circuit has wrong shape'') else Inr ())"

fun plan_from :: "nat \<Rightarrow> nat \<Rightarrow> tile_level list" where
  \<comment> \<open>the final loop; its caller passes a \<open>tile_height\<close> of at least 1 that divides \<open>offset\<close>\<close>
  "plan_from offset tile_height = \<lparr>tl_bit_offset = offset, tl_height = tile_height\<rparr> #
     (if offset = 0 \<or> tile_height = 0 then [] else plan_from (offset - tile_height) tile_height)"

declare plan_from.simps [simp del]

definition plan_tile_levels :: "nat \<Rightarrow> nat \<Rightarrow> circuit_error + tile_level list" where
  "plan_tile_levels depth tile_height =
     (if tile_height < 1 then Inl (Shape ''PlanTileLevels: tile_height must be >= 1'')
      else if depth < tile_height then Inl (Shape ''PlanTileLevels: depth must be >= tile_height'')
      else let r = depth mod tile_height;
               levels = (if r \<noteq> 0 then [\<lparr>tl_bit_offset = depth - r, tl_height = r\<rparr>] else []);
               remaining = (if r \<noteq> 0 then depth - r else depth)
           in Inr (levels @ plan_from (remaining - tile_height) tile_height))"

definition at_index :: "u64 \<Rightarrow> circuit_error + index48" where
  "at_index v = mapErr Index (index_new (MAX_INDEX - v))"

definition combine :: "value32 \<Rightarrow> value32 \<Rightarrow> value32" where
  "combine a b = value_xor a b"

section \<open>The meaning of a gate list\<close>

text \<open>
  The evaluator on wires as a total function, the reference the builders are verified against: what a
  gate list makes of an assignment of bits to wires.
\<close>

fun ev_gate :: "gate \<Rightarrow> (int \<Rightarrow> u8) \<Rightarrow> int \<Rightarrow> u8" where
  "ev_gate g w = w(g_out g := (case g_typ g of
     And \<Rightarrow> w (g_in0 g) AND w (g_in1 g) | Xor \<Rightarrow> w (g_in0 g) XOR w (g_in1 g) | Inv \<Rightarrow> w (g_in0 g) XOR 1))"

declare ev_gate.simps [simp del]

definition ev :: "gate list \<Rightarrow> (int \<Rightarrow> u8) \<Rightarrow> int \<Rightarrow> u8" where
  "ev gs w = fold ev_gate gs w"

definition wf_gate :: "int \<Rightarrow> gate \<Rightarrow> bool" where
  "wf_gate n g \<longleftrightarrow> in_range n (g_in0 g) \<and> in_range n (g_out g) \<and> (g_typ g \<noteq> Inv \<longrightarrow> in_range n (g_in1 g))"

definition wf_circuit :: "circuit \<Rightarrow> bool" where
  "wf_circuit c \<longleftrightarrow> 0 \<le> c_n1 c \<and> 0 \<le> c_n2 c \<and> 0 \<le> c_n3 c \<and> c_n1 c + c_n2 c \<le> c_num_wire c
     \<and> c_n3 c \<le> c_num_wire c \<and> c_num_wire c < 2 ^ 31 \<and> (\<forall>g \<in> set (c_gates c). wf_gate (c_num_wire c) g)"

definition wires_list :: "nat \<Rightarrow> (int \<Rightarrow> 'a) \<Rightarrow> 'a list" where
  "wires_list n w = map (\<lambda>i. w (int i)) [0..<n]"

definition init_wires :: "bytes \<Rightarrow> int \<Rightarrow> u8" where
  "init_wires bits i = (if 0 \<le> i \<and> i < int (length bits) then bits ! nat i AND 1 else 0)"

definition out_bits :: "circuit \<Rightarrow> bytes \<Rightarrow> bytes" where
  "out_bits c bits = map (ev (c_gates c) (init_wires bits)) [c_num_wire c - c_n3 c..c_num_wire c - 1]"

lemma ev_Nil [simp]: "ev [] w = w"
  by (simp add: ev_def)

lemma ev_append: "ev (gs @ hs) w = ev hs (ev gs w)"
  by (simp add: ev_def)

lemma ev_snoc: "ev (gs @ [g]) w = ev_gate g (ev gs w)"
  by (simp add: ev_def)

lemma ev_frame: "(\<forall>g \<in> set gs. g_out g \<noteq> i) \<Longrightarrow> ev gs w i = w i"
  by (induction gs arbitrary: w) (auto simp: ev_def ev_gate.simps)

lemma ev_cong_out:
  "(\<And>i. w i = v i) \<Longrightarrow> ev gs w i = ev gs v i"
  by (metis ext)

lemma length_wires_list [simp]: "length (wires_list n w) = n"
  by (simp add: wires_list_def)

lemma wire_get_list: "n < 2 ^ 31 \<Longrightarrow> in_range (int n) i \<Longrightarrow> wire_get (wires_list n w) i = Inr (w i)"
  by (auto simp: wire_get_def in_range_def wires_list_def Let_def)

lemma wire_set_list:
  "n < 2 ^ 31 \<Longrightarrow> in_range (int n) i \<Longrightarrow> wire_set (wires_list n w) i v = Inr (wires_list n (w(i := v)))"
  by (auto simp: wire_set_def in_range_def wires_list_def Let_def intro!: nth_equalityI simp: nth_list_update)

lemma eval_gate_list:
  assumes "n < 2 ^ 31" and "wf_gate (int n) g"
  shows "eval_gate g (wires_list n w) = Inr (wires_list n (ev_gate g w))"
  using assms
  by (auto simp: eval_gate_def ev_gate.simps wf_gate_def wire_get_list wire_set_list split: gate_type.splits)

lemma eval_gates_list:
  assumes "n < 2 ^ 31" and "\<forall>g \<in> set gs. wf_gate (int n) g"
  shows "foldR eval_gate gs (wires_list n w) = Inr (wires_list n (ev gs w))"
  using assms(2) by (induction gs arbitrary: w) (auto simp: eval_gate_list [OF assms(1)] ev_def)

lemma init_wires_list:
  "length bits \<le> n \<Longrightarrow>
     map (\<lambda>b. b AND 1) bits @ drop (length bits) (replicate n 0) = wires_list n (init_wires bits)"
  by (intro nth_equalityI) (auto simp: wires_list_def init_wires_def nth_append)

lemma slice_wires_list:
  assumes "a \<le> b" and "b \<le> n"
  shows "slice (wires_list n w) a b = Inr (map w [int a..int b - 1])"
proof -
  have "take (b - a) (drop a (wires_list n w)) = map w (map int [a..<b])"
    using assms by (simp add: wires_list_def take_map drop_map take_upt)
  also have "map int [a..<b] = [int a..int b - 1]"
    by (intro nth_equalityI) (auto simp del: upt_Suc)
  finally show ?thesis using assms by (simp add: slice_def)
qed

lemma eval_bristol_wf:
  assumes "wf_circuit c"
  shows "eval_bristol c bits =
    (if int (length bits) = c_n1 c + c_n2 c then Inr (out_bits c bits)
     else Inl (Shape ''EvalBristol: wrong input width''))"
proof -
  let ?n = "nat (c_num_wire c)"
  have nw: "usize_of_i32 (c_num_wire c) = ?n" "?n < 2 ^ 31" "int ?n = c_num_wire c"
    and n3: "usize_of_i32 (c_n3 c) = nat (c_n3 c)"
    and st: "usize_of_i32 (wrap32 (c_num_wire c - c_n3 c)) = nat (c_num_wire c - c_n3 c)"
    and ni: "usize_of_i32 (wrap32 (c_n1 c + c_n2 c)) = nat (c_n1 c + c_n2 c)"
    using assms by (auto simp: wf_circuit_def)
  have "(nat (c_num_wire c - c_n3 c) + nat (c_n3 c)) = ?n"
    using assms by (auto simp: wf_circuit_def)
  moreover have "?n mod 2 ^ 64 = ?n" using nw(2) by simp
  ultimately have en: "(nat (c_num_wire c - c_n3 c) + nat (c_n3 c)) mod 2 ^ 64 = ?n" by simp
  have gs: "foldR eval_gate (c_gates c) (wires_list ?n w) = Inr (wires_list ?n (ev (c_gates c) w))" for w
    using assms nw by (intro eval_gates_list) (auto simp: wf_circuit_def)
  have sl: "slice (wires_list ?n w) (nat (c_num_wire c - c_n3 c)) ?n = Inr (map w [c_num_wire c - c_n3 c..c_num_wire c - 1])" for w :: "int \<Rightarrow> u8"
    using assms slice_wires_list [of "nat (c_num_wire c - c_n3 c)" ?n ?n w] by (auto simp: wf_circuit_def)
  show ?thesis
  proof (cases "int (length bits) = c_n1 c + c_n2 c")
    case True
    then have le: "length bits \<le> ?n" and len: "length bits = nat (c_n1 c + c_n2 c)"
      using assms by (auto simp: wf_circuit_def)
    show ?thesis
      unfolding eval_bristol_def Let_def nw(1) n3 st ni en
      using True le by (simp add: len [symmetric] init_wires_list gs sl out_bits_def del: drop_replicate)
  next
    case False
    then have "length bits \<noteq> nat (c_n1 c + c_n2 c)" using assms by (auto simp: wf_circuit_def)
    with False show ?thesis unfolding eval_bristol_def ni by simp
  qed
qed

lemma length_out_bits: "wf_circuit c \<Longrightarrow> length (out_bits c bits) = nat (c_n3 c)"
  by (simp add: out_bits_def wf_circuit_def)

section \<open>What the parser accepts\<close>

lemma parse_gate_wf:
  assumes "parse_gate src n it = Inr (g, it')"
  shows "wf_gate n g"
  using assms
  by (auto simp: parse_gate_def bindR_eq_Inr wf_gate_def split: prod.splits if_splits)

lemma parse_gates_wf:
  "parse_gates src n k it = Inr (gs, it') \<Longrightarrow> length gs = k \<and> (\<forall>g \<in> set gs. wf_gate n g)"
  by (induction src n k it arbitrary: gs it' rule: parse_gates.induct)
    (auto simp: bindR_eq_Inr split: prod.splits dest: parse_gate_wf)

lemma parse_i32_digits_bound: "parse_i32_digits lim s a = Some v \<Longrightarrow> 0 \<le> a \<Longrightarrow> a < lim \<Longrightarrow> 0 \<le> v \<and> v < lim"
  by (induction lim s a rule: parse_i32_digits.induct) (auto split: option.splits if_splits)

lemma next_parse_range:
  assumes "next_parse f it = Inr (v, it')"
  shows "- (2 ^ 31) \<le> v" and "v < 2 ^ 31"
proof -
  obtain t where "parse_i32 t = Some v"
    using assms by (auto simp: next_parse_def bindR_eq_Inr)
  then show "- (2 ^ 31) \<le> v" and "v < 2 ^ 31"
    by (auto simp: parse_i32_def Let_def split: list.splits if_splits option.splits dest!: parse_i32_digits_bound)
qed

lemma parse_bristol_facts:
  assumes "parse_bristol text src = Inr c"
  shows "0 \<le> c_n1 c" "0 \<le> c_n2 c" "0 \<le> c_n3 c" "wrap32 (c_n1 c + c_n2 c) \<le> c_num_wire c" "c_n3 c \<le> c_num_wire c"
    and "c_num_wire c < 2 ^ 31" "0 < c_num_wire c" "\<forall>g \<in> set (c_gates c). wf_gate (c_num_wire c) g"
    and "c_n1 c < 2 ^ 31" "c_n2 c < 2 ^ 31"
  using assms
  by (auto simp: parse_bristol_def bindR_eq_Inr split: prod.splits if_splits
      dest: next_parse_range(2) parse_gates_wf)

lemma wrap32_small_sum: "0 \<le> a \<Longrightarrow> 0 \<le> b \<Longrightarrow> a + b < 2 ^ 31 \<Longrightarrow> wrap32 (a + b) = a + b"
  by (intro wrap32_id) auto

lemma parse_bristol_wf:
  assumes "parse_bristol text src = Inr c" and "c_n1 c + c_n2 c < 2 ^ 31"
  shows "wf_circuit c"
  using parse_bristol_facts [OF assms(1)] assms(2) by (simp add: wf_circuit_def)

lemma eval_bristol_overflow:
  assumes c: "parse_bristol text src = Inr c" and big: "2 ^ 31 \<le> c_n1 c + c_n2 c" and len: "length bits < 2 ^ 63"
  shows "eval_bristol c bits = Inl (Shape ''EvalBristol: wrong input width'')"
proof -
  note f = parse_bristol_facts [OF c]
  have "(c_n1 c + c_n2 c + 2 ^ 31) mod 2 ^ 32 = (c_n1 c + c_n2 c + 2 ^ 31 - 2 ^ 32) mod 2 ^ 32"
    by (simp only: minus_mod_self2)
  also have "\<dots> = c_n1 c + c_n2 c + 2 ^ 31 - 2 ^ 32"
    using f big by (intro mod_pos_pos_trivial) auto
  finally have "wrap32 (c_n1 c + c_n2 c) = c_n1 c + c_n2 c - 2 ^ 32"
    by (simp only: wrap32_def)
  then have "usize_of_i32 (wrap32 (c_n1 c + c_n2 c)) = nat (c_n1 c + c_n2 c - 2 ^ 32 + 2 ^ 64)"
  proof -
    have "(c_n1 c + c_n2 c - 2 ^ 32) mod 2 ^ 64 = (c_n1 c + c_n2 c - 2 ^ 32 + 2 ^ 64) mod 2 ^ 64"
      by (simp only: mod_add_self2)
    also have "\<dots> = c_n1 c + c_n2 c - 2 ^ 32 + 2 ^ 64" using f big by (intro mod_pos_pos_trivial) auto
    finally show ?thesis by (simp only: usize_of_i32_def \<open>wrap32 (c_n1 c + c_n2 c) = _\<close>)
  qed
  moreover have "2 ^ 63 \<le> nat (c_n1 c + c_n2 c - 2 ^ 32 + 2 ^ 64)" using big by simp
  ultimately show ?thesis using len by (simp add: eval_bristol_def)
qed

section \<open>Gate arrays\<close>

definition gate_i32 :: "gate \<Rightarrow> bool" where
  \<comment> \<open>a gate of the parser or a builder: \<open>i32\<close> wires, \<open>in1 = -1\<close> on an inverter\<close>
  "gate_i32 g \<longleftrightarrow> (\<forall>i \<in> {g_in0 g, g_in1 g, g_out g}. - (2 ^ 31) \<le> i \<and> i < 2 ^ 31) \<and> (g_typ g = Inv \<longrightarrow> g_in1 g = - 1)"

lemma length_i32_ne_bytes [simp]: "length (i32_ne_bytes v) = 4"
  by (simp add: i32_ne_bytes_def)

lemma length_u64_ne_bytes [simp]: "length (u64_ne_bytes v) = 8"
  by (simp add: u64_ne_bytes_def)

lemma i32_ne_bytes_inj:
  assumes "i32_ne_bytes v = i32_ne_bytes w" and "- (2 ^ 31) \<le> v" "v < 2 ^ 31" "- (2 ^ 31) \<le> w" "w < 2 ^ 31"
  shows "v = w"
proof -
  have "(word_of_int v :: u32) = word_of_int w"
    using assms(1) by (auto simp: i32_ne_bytes_def intro: le_bytes_inj)
  then have "v mod 2 ^ 32 = w mod 2 ^ 32" by (simp add: word_of_int_eq_iff take_bit_eq_mod)
  then have "(v + 2 ^ 31) mod 2 ^ 32 = (w + 2 ^ 31) mod 2 ^ 32" by (metis mod_add_left_eq)
  then show ?thesis using assms(2-) by (simp add: mod_pos_pos_trivial)
qed

lemma u64_ne_bytes_inj: "u64_ne_bytes v = u64_ne_bytes w \<Longrightarrow> v = w"
  by (auto simp: u64_ne_bytes_def intro: le_bytes_inj)

lemma concat_map_inj:
  assumes "concat (map f xs) = concat (map f ys)" and "\<And>x. x \<in> set xs \<union> set ys \<Longrightarrow> length (f x) = n" and "0 < n"
    and "\<And>x y. x \<in> set xs \<Longrightarrow> y \<in> set ys \<Longrightarrow> f x = f y \<Longrightarrow> x = y"
  shows "xs = ys"
  using assms
proof (induction xs arbitrary: ys)
  case Nil
  then show ?case
  proof (cases ys)
    case (Cons y ys')
    then have "length (f y) = n" "f y = []" using Nil.prems by auto
    then show ?thesis using Nil.prems(3) by simp
  qed simp
next
  case (Cons x xs)
  have fx: "length (f x) = n" using Cons.prems(2) by simp
  show ?case
  proof (cases ys)
    case Nil
    then have "f x = []" using Cons.prems(1) by simp
    then show ?thesis using fx Cons.prems(3) by simp
  next
    case (Cons y ys')
    have "length (f y) = n" using Cons.prems(2) \<open>ys = y # ys'\<close> by simp
    then have "f x = f y" "concat (map f xs) = concat (map f ys')"
      using Cons.prems(1) fx \<open>ys = y # ys'\<close> by auto
    then show ?thesis using Cons.prems \<open>ys = y # ys'\<close> Cons.IH [of ys'] by auto
  qed
qed

definition gate_row :: "gate \<Rightarrow> int list" where
  "gate_row g = [g_in0 g, if g_typ g = Inv then 0 else g_in1 g, g_out g,
     (case g_typ g of And \<Rightarrow> 0 | Xor \<Rightarrow> 1 | Inv \<Rightarrow> 2)]"

lemma gate_row_inj:
  assumes "gate_i32 g" and "gate_i32 h" and "gate_row g = gate_row h"
  shows "g = h"
  using assms by (cases g; cases h) (auto simp: gate_row_def gate_i32_def split: gate_type.splits)

lemma to_emp_gate_array_rows: "to_emp_gate_array c = concat (map gate_row (c_gates c))"
  by (simp add: to_emp_gate_array_def gate_row_def [abs_def])

lemma to_emp_gate_array_inj:
  assumes "\<forall>g \<in> set (c_gates c). gate_i32 g" and "\<forall>g \<in> set (c_gates d). gate_i32 g"
    and "to_emp_gate_array c = to_emp_gate_array d"
  shows "c_gates c = c_gates d"
  using assms unfolding to_emp_gate_array_rows
  by (intro concat_map_inj [where f = gate_row and n = 4]) (auto simp: gate_row_inj, simp_all add: gate_row_def)

lemma gate_array_range:
  assumes "\<forall>g \<in> set (c_gates c). gate_i32 g" and "v \<in> set (to_emp_gate_array c)"
  shows "- (2 ^ 31) \<le> v" and "v < 2 ^ 31"
proof -
  obtain g where "g \<in> set (c_gates c)" and v: "v \<in> set (gate_row g)"
    using assms(2) by (auto simp: to_emp_gate_array_rows)
  with assms(1) have "gate_i32 g" by blast
  with v show "- (2 ^ 31) \<le> v" and "v < 2 ^ 31"
    by (cases "g_typ g"; auto simp: gate_row_def gate_i32_def)+
qed

definition circuit_i32 :: "circuit \<Rightarrow> bool" where
  "circuit_i32 c \<longleftrightarrow> (\<forall>g \<in> set (c_gates c). gate_i32 g)
     \<and> (\<forall>v \<in> {c_num_wire c, c_n1 c, c_n2 c, c_n3 c}. - (2 ^ 31) \<le> v \<and> v < 2 ^ 31)"

lemma circuit_digest_inj:
  assumes sha: "inj sha256" and c: "circuit_i32 c" and d: "circuit_i32 d"
    and eq: "circuit_digest sha256 c (to_emp_gate_array c) = circuit_digest sha256 d (to_emp_gate_array d)"
  shows "c = d"
proof -
  let ?h = "\<lambda>c. concat (map i32_ne_bytes [num_gate c, c_num_wire c, c_n1 c, c_n2 c, c_n3 c])"
  have "?h c @ concat (map i32_ne_bytes (to_emp_gate_array c)) = ?h d @ concat (map i32_ne_bytes (to_emp_gate_array d))"
    using eq unfolding circuit_digest_def by (rule injD [OF sha])
  then have h: "?h c = ?h d" and g: "concat (map i32_ne_bytes (to_emp_gate_array c)) = concat (map i32_ne_bytes (to_emp_gate_array d))"
    by simp_all
  have "to_emp_gate_array c = to_emp_gate_array d"
  proof (rule concat_map_inj [OF g, of 4])
    fix v w assume v: "v \<in> set (to_emp_gate_array c)" and w: "w \<in> set (to_emp_gate_array d)"
      and e: "i32_ne_bytes v = i32_ne_bytes w"
    have "\<forall>g \<in> set (c_gates c). gate_i32 g" "\<forall>g \<in> set (c_gates d). gate_i32 g"
      using c d by (auto simp: circuit_i32_def)
    with v w e show "v = w" by (intro i32_ne_bytes_inj gate_array_range [of c v] gate_array_range [of d w])
  qed auto
  then have "c_gates c = c_gates d"
    using c d by (intro to_emp_gate_array_inj) (auto simp: circuit_i32_def)
  moreover have "c_num_wire c = c_num_wire d" "c_n1 c = c_n1 d" "c_n2 c = c_n2 d" "c_n3 c = c_n3 d"
  proof -
    from h have e: "i32_ne_bytes (c_num_wire c) = i32_ne_bytes (c_num_wire d)" "i32_ne_bytes (c_n1 c) = i32_ne_bytes (c_n1 d)"
      "i32_ne_bytes (c_n2 c) = i32_ne_bytes (c_n2 d)" "i32_ne_bytes (c_n3 c) = i32_ne_bytes (c_n3 d)" by simp_all
    have r: "- (2 ^ 31) \<le> v \<and> v < 2 ^ 31"
      if "v \<in> {c_num_wire c, c_n1 c, c_n2 c, c_n3 c, c_num_wire d, c_n1 d, c_n2 d, c_n3 d}" for v
      using c d that unfolding circuit_i32_def by blast
    show "c_num_wire c = c_num_wire d" using e(1) r by (intro i32_ne_bytes_inj) blast+
    show "c_n1 c = c_n1 d" using e(2) r by (intro i32_ne_bytes_inj) blast+
    show "c_n2 c = c_n2 d" using e(3) r by (intro i32_ne_bytes_inj) blast+
    show "c_n3 c = c_n3 d" using e(4) r by (intro i32_ne_bytes_inj) blast+
  qed
  ultimately show ?thesis by (simp add: circuit.equality)
qed

section \<open>Tile plans\<close>

fun windows_down :: "nat \<Rightarrow> tile_level list \<Rightarrow> nat \<Rightarrow> bool" where
  \<comment> \<open>consecutive bit windows, the first ending at \<open>hi\<close>, the last starting at 0\<close>
  "windows_down hi [] lo = (hi = lo)"
| "windows_down hi (l # ls) lo = (0 < tl_height l \<and> tl_bit_offset l + tl_height l = hi \<and> windows_down (tl_bit_offset l) ls lo)"

lemma plan_from_windows:
  "0 < th \<Longrightarrow> th dvd offset \<Longrightarrow> windows_down (offset + th) (plan_from offset th) 0 \<and> (\<forall>l \<in> set (plan_from offset th). tl_height l = th)"
proof (induction offset th rule: plan_from.induct)
  case (1 offset th)
  show ?case
  proof (cases "offset = 0")
    case True
    with 1 show ?thesis by (simp add: plan_from.simps)
  next
    case False
    then have le: "th \<le> offset" using 1 by (simp add: dvd_imp_le)
    moreover have "th dvd offset - th" using 1(3) le by (simp add: dvd_diff_nat)
    ultimately show ?thesis
      using 1 False by (subst (1 2) plan_from.simps) auto
  qed
qed


section \<open>Properties of circuits\<close>

text \<open>C29: What the Bristol parser accepts, the evaluator can run without an out-of-range access: every wire of
  every gate is within the wire vector; on an input of the circuit's width the evaluation succeeds with
  \<open>n3\<close> bits and on any other width it is the width error. This needs the header's \<open>n1 + n2\<close> not to
  overflow; when it does, the evaluator rejects every input.\<close>
theorem parsed_circuit_evaluates:
  assumes "parse_bristol text src = Inr c" and "length bits < 2 ^ 63"
  shows "(c_n1 c + c_n2 c < 2 ^ 31 \<longrightarrow> wf_circuit c \<and>
      (if int (length bits) = c_n1 c + c_n2 c
       then eval_bristol c bits = Inr (out_bits c bits) \<and> length (out_bits c bits) = nat (c_n3 c)
       else eval_bristol c bits = Inl (Shape ''EvalBristol: wrong input width'')))
    \<and> (2 ^ 31 \<le> c_n1 c + c_n2 c \<longrightarrow> eval_bristol c bits = Inl (Shape ''EvalBristol: wrong input width''))"
proof (intro conjI impI)
  assume "c_n1 c + c_n2 c < 2 ^ 31"
  with parse_bristol_wf [OF assms(1)] have wf: "wf_circuit c" .
  then show "wf_circuit c" .
  from wf show "if int (length bits) = c_n1 c + c_n2 c
       then eval_bristol c bits = Inr (out_bits c bits) \<and> length (out_bits c bits) = nat (c_n3 c)
       else eval_bristol c bits = Inl (Shape ''EvalBristol: wrong input width'')"
    by (simp add: eval_bristol_wf length_out_bits)
next
  assume "2 ^ 31 \<le> c_n1 c + c_n2 c"
  then show "eval_bristol c bits = Inl (Shape ''EvalBristol: wrong input width'')"
    using assms by (intro eval_bristol_overflow)
qed

theorem parsed_circuit_evaluates_witness:
  "\<exists>c. parse_bristol ''2 4 1 1 1  2 1 0 1 2 XOR  1 1 2 3 INV'' ''t'' = Inr c \<and> eval_bristol c [1, 0] = Inr [0]"
proof -
  let ?c = "\<lparr>c_num_wire = 4, c_n1 = 1, c_n2 = 1, c_n3 = 1,
     c_gates = [\<lparr>g_typ = Xor, g_in0 = 0, g_in1 = 1, g_out = 2\<rparr>, \<lparr>g_typ = Inv, g_in0 = 2, g_in1 = - 1, g_out = 3\<rparr>]\<rparr>"
  have p: "parse_bristol ''2 4 1 1 1  2 1 0 1 2 XOR  1 1 2 3 INV'' ''t'' = Inr ?c" by code_simp
  have "out_bits ?c [1, 0] = [0]" by (simp add: out_bits_def ev_def ev_gate.simps init_wires_def)
  with p parsed_circuit_evaluates [OF p, of "[1, 0]"] show ?thesis by simp
qed

text \<open>The header check of the parser adds \<open>n1\<close> and \<open>n2\<close> as \<open>i32\<close> before it compares them with the number
  of wires: with the release profile's wrapping addition a header that announces far more inputs than
  wires is accepted.\<close>
theorem bristol_header_sum_wraps:
  "\<exists>c. parse_bristol ''0 1 1073741824 1073741824 0'' ''t'' = Inr c \<and> c_num_wire c < c_n1 c + c_n2 c"
proof -
  have "parse_bristol ''0 1 1073741824 1073741824 0'' ''t'' =
      Inr \<lparr>c_num_wire = 1, c_n1 = 1073741824, c_n2 = 1073741824, c_n3 = 0, c_gates = []\<rparr>" by code_simp
  then show ?thesis by simp
qed

text \<open>C30: The digests the two parties compare bind what they compare: under a collision-free hash, equal cache
  digests mean the same range, chunk size, fanout and gadget, gate by gate.\<close>
theorem cache_digest_binds:
  assumes "inj sha256" and "circuit_i32 c" and "circuit_i32 d"
    and "\<forall>v \<in> {t, f, t', f'}. - (2 ^ 31) \<le> v \<and> v < 2 ^ 31"
    and "cache_digest sha256 lo hi t f c = cache_digest sha256 lo' hi' t' f' d"
  shows "lo = lo' \<and> hi = hi' \<and> t = t' \<and> f = f' \<and> c = d"
proof -
  have "u64_ne_bytes lo @ u64_ne_bytes hi @ i32_ne_bytes t @ i32_ne_bytes f @ circuit_digest sha256 c (to_emp_gate_array c)
      = u64_ne_bytes lo' @ u64_ne_bytes hi' @ i32_ne_bytes t' @ i32_ne_bytes f' @ circuit_digest sha256 d (to_emp_gate_array d)"
    using assms(1,5) by (simp add: cache_digest_def inj_eq)
  then have "u64_ne_bytes lo = u64_ne_bytes lo'" "u64_ne_bytes hi = u64_ne_bytes hi'" "i32_ne_bytes t = i32_ne_bytes t'"
      "i32_ne_bytes f = i32_ne_bytes f'" "circuit_digest sha256 c (to_emp_gate_array c) = circuit_digest sha256 d (to_emp_gate_array d)"
    by simp_all
  then show ?thesis
    using assms(4) circuit_digest_inj [OF assms(1-3)] by (auto dest!: u64_ne_bytes_inj i32_ne_bytes_inj)
qed

theorem cache_digest_binds_witness:
  "\<not> (\<exists>lo hi. cache_digest id lo hi 3 16 \<lparr>c_num_wire = 1, c_n1 = 1, c_n2 = 0, c_n3 = 1, c_gates = []\<rparr>
        = cache_digest id lo hi 3 16 \<lparr>c_num_wire = 2, c_n1 = 1, c_n2 = 0, c_n3 = 1, c_gates = []\<rparr>)"
proof
  assume "\<exists>lo hi. cache_digest id lo hi 3 16 \<lparr>c_num_wire = 1, c_n1 = 1, c_n2 = 0, c_n3 = 1, c_gates = []\<rparr>
        = cache_digest id lo hi 3 16 \<lparr>c_num_wire = 2, c_n1 = 1, c_n2 = 0, c_n3 = 1, c_gates = []\<rparr>"
  then obtain lo hi where "cache_digest id lo hi 3 16 \<lparr>c_num_wire = 1, c_n1 = 1, c_n2 = 0, c_n3 = 1, c_gates = []\<rparr>
        = cache_digest id lo hi 3 16 \<lparr>c_num_wire = 2, c_n1 = 1, c_n2 = 0, c_n3 = 1, c_gates = []\<rparr>" by blast
  from cache_digest_binds [OF _ _ _ _ this] show False by (simp add: circuit_i32_def)
qed

text \<open>A tile plan covers the bits of the cached subtree exactly once, from the top down: the windows are
  consecutive, they end at bit \<open>depth\<close> and start at bit 0, and only the first may be lower than the tile
  height.\<close>
theorem plan_tile_levels_cover:
  "(if 1 \<le> th \<and> th \<le> depth
    then \<exists>l ls. plan_tile_levels depth th = Inr (l # ls) \<and> windows_down depth (l # ls) 0
        \<and> tl_height l \<le> th \<and> (\<forall>k \<in> set ls. tl_height k = th)
    else \<exists>e. plan_tile_levels depth th = Inl (Shape e))"
proof (cases "1 \<le> th \<and> th \<le> depth")
  case False
  then show ?thesis by (auto simp: plan_tile_levels_def)
next
  case True
  let ?r = "depth mod th"
  have le: "th \<le> depth - ?r" using True by (metis Suc_le_lessD div_greater_zero_iff minus_mod_eq_mult_div mult.right_neutral nat_mult_le_cancel_disj Suc_leI One_nat_def)
  have "th dvd depth - ?r" by (simp add: dvd_minus_mod)
  then have dv: "th dvd depth - ?r - th" by (rule dvd_diff_nat) simp
  have w: "windows_down (depth - ?r) (plan_from (depth - ?r - th) th) 0" "\<forall>l \<in> set (plan_from (depth - ?r - th) th). tl_height l = th"
    using plan_from_windows [OF _ dv] True le by auto
  show ?thesis
  proof (cases "?r = 0")
    case r0: True
    have "plan_from (depth - th) th \<noteq> []" by (subst plan_from.simps) simp
    then obtain l ls where "plan_from (depth - th) th = l # ls" by (cases "plan_from (depth - th) th") auto
    with r0 True w show ?thesis by (auto simp: plan_tile_levels_def)
  next
    case False
    have "?r < th" using True by simp
    moreover have "?r \<le> depth" by (rule mod_less_eq_dividend)
    ultimately show ?thesis
      using False True w by (auto simp: plan_tile_levels_def Let_def)
  qed
qed

theorem plan_tile_levels_cover_witness:
  "\<exists>l ls. plan_tile_levels 10 4 = Inr (l # ls) \<and> windows_down 10 (l # ls) 0 \<and> tl_height l = 2"
proof -
  have "plan_tile_levels 10 4 = Inr [\<lparr>tl_bit_offset = 8, tl_height = 2\<rparr>, \<lparr>tl_bit_offset = 4, tl_height = 4\<rparr>, \<lparr>tl_bit_offset = 0, tl_height = 4\<rparr>]"
    by (simp add: plan_tile_levels_def plan_from.simps)
  then show ?thesis using plan_tile_levels_cover [of 4 10] by simp
qed

end
