(* ===== verification/Hash_Tree.thy ===== *)
theory Hash_Tree
  imports Derivation
begin

text \<open>
  Hash chains and hash trees over any builder of gates. A chain applies one hash step after another; a tile
  computes all leaves of a subtree, each from its parent with the lowest set bit of its number cleared.
  The circuit builder of \<open>shachain2pc-circuit\<close> and the direct program builder of \<open>shachain2pc-emp-compat\<close>
  run the same loops over different state: the locale \<open>hash_builder\<close> states what one step of a builder
  promises, and the chain and the tile are proved over it.
\<close>

unbundle bit_operations_syntax

section \<open>The tree of suffixes\<close>

lemma sub_1_and:
  assumes "s \<noteq> (0 :: u64)"
  shows "bit (s AND (s - 1)) i \<longleftrightarrow> bit s i \<and> i \<noteq> trailing_zeros s"
proof -
  let ?t = "trailing_zeros s"
  note tz = trailing_zeros_spec [OF assms]
  define hi where "hi = s AND NOT (mask (Suc ?t))"
  have bhi: "bit hi j \<longleftrightarrow> bit s j \<and> ?t < j" for j
    by (auto simp: hi_def bit_simps less_Suc_eq_le dest: bit_imp_le_length)
  have s: "s = hi OR push_bit ?t 1"
  proof (rule bit_word_eqI)
    fix j assume j: "j < LENGTH(64)"
    have "bit s j \<longleftrightarrow> (bit s j \<and> ?t < j) \<or> j = ?t" using tz(1) tz(2) [of j] by (cases "j < ?t"; cases "j = ?t") auto
    with j show "bit s j = bit (hi OR push_bit ?t 1) j"
      unfolding bit_or_iff bhi by (auto simp: bit_simps)
  qed
  have "s = hi + push_bit ?t 1"
    by (subst s, rule disjunctive_add [symmetric]) (auto simp: bhi bit_simps)
  then have "s - 1 = hi + (2 ^ ?t - 1)" by (simp add: push_bit_eq_mult)
  also have "\<dots> = hi + mask ?t" by (simp add: mask_eq_exp_minus_1)
  also have "\<dots> = hi OR mask ?t" by (rule disjunctive_add) (auto simp: bhi bit_simps)
  finally have e: "s - 1 = hi OR mask ?t" .
  have t64: "?t < 64" using tz(3) by simp
  have "bit (s - 1) i \<longleftrightarrow> (bit s i \<and> ?t < i) \<or> i < ?t"
    unfolding e bit_or_iff bhi bit_mask_iff using t64 by (simp add: min_def) linarith
  then show ?thesis using tz(1) tz(2) [of i] unfolding bit_and_iff by (metis linorder_neqE_nat)
qed

lemma set_bits_desc_parent:
  assumes "s \<noteq> 0" and "s \<le> MAX_INDEX"
  shows "set_bits_desc s = set_bits_desc (s AND (s - 1)) @ [trailing_zeros s]"
proof (rule desc_unique)
  note tz = trailing_zeros_spec [OF assms(1)]
  show "sorted_wrt (>) (set_bits_desc s)" by simp
  have "trailing_zeros s < i" if "bit s i" "i \<noteq> trailing_zeros s" for i
    using that tz(2) [of i] by (meson linorder_neqE_nat)
  then show "sorted_wrt (>) (set_bits_desc (s AND (s - 1)) @ [trailing_zeros s])"
    by (auto simp: sorted_wrt_append sub_1_and [OF assms(1)])
  have "trailing_zeros s < INDEX_BITS" using tz(1) assms(2) by (simp add: le_MAX_INDEX_iff)
  with tz(1) show "set (set_bits_desc s) = set (set_bits_desc (s AND (s - 1)) @ [trailing_zeros s])"
    by (auto simp: sub_1_and [OF assms(1)])
qed

lemma count_ones_length:
  assumes "s \<le> MAX_INDEX"
  shows "count_ones s = length (set_bits_desc s)"
proof -
  have "filter (bit s) [0..<64] = filter (bit s) [0..<INDEX_BITS]"
  proof -
    have "[0..<64] = [0..<INDEX_BITS] @ [INDEX_BITS..<64]" 
      using upt_add_eq_append [of 0 48 16] by (simp add: INDEX_BITS_def)
    moreover have "filter (bit s) [INDEX_BITS..<64] = []" using assms by (auto simp: le_MAX_INDEX_iff filter_empty_conv)
    ultimately show ?thesis by simp
  qed
  then show ?thesis by (simp add: count_ones_def set_bits_desc_eq rev_filter [symmetric])
qed

definition leaf_value :: "(bytes \<Rightarrow> bytes) \<Rightarrow> nat \<Rightarrow> value32 \<Rightarrow> nat \<Rightarrow> value32" where
  \<comment> \<open>the derivation of the suffix \<open>s\<close> in the window of bits that starts at \<open>offset\<close>\<close>
  "leaf_value sha256 offset v s = fold (hash_step sha256) (map (\<lambda>k. offset + k) (set_bits_desc (of_nat s))) v"

abbreviation suffix_weight :: "nat \<Rightarrow> nat" where
  "suffix_weight s \<equiv> length (set_bits_desc (of_nat s))"

lemma suffix_of_nat:
  assumes "s < 2 ^ h" and "h \<le> INDEX_BITS"
  shows "(of_nat s :: u64) \<le> MAX_INDEX" and "unat (of_nat s :: u64) = s"
proof -
  have "(2 :: nat) ^ h \<le> 2 ^ 48" using assms(2) by (intro power_increasing) (auto simp: INDEX_BITS_def)
  then have "s < 2 ^ 48" using assms(1) by simp
  then show u: "unat (of_nat s :: u64) = s" by (simp add: unat_of_nat take_bit_nat_eq_self)
  show "(of_nat s :: u64) \<le> MAX_INDEX"
    using \<open>s < 2 ^ 48\<close> by (simp add: word_le_nat_alt u)
qed

lemma suffix_bits:
  assumes "s < 2 ^ h" and "k \<in> set (set_bits_desc (of_nat s))"
  shows "k < h"
proof -
  have "bit (of_nat s :: u64) k" using assms(2) by simp
  then have "bit s k" by (simp add: bit_of_nat_iff)
  then have "odd (s div 2 ^ k)" by (simp add: bit_iff_odd)
  then have "s div 2 ^ k \<noteq> 0" by (metis even_zero)
  then have "2 ^ k \<le> s" by (auto simp: div_eq_0_iff)
  with assms(1) have "(2 :: nat) ^ k < 2 ^ h" by linarith
  then show ?thesis by simp
qed

lemma suffix_weight_le:
  assumes "s < 2 ^ h"
  shows "suffix_weight s \<le> h"
proof -
  have "distinct (set_bits_desc (of_nat s))" by (simp add: set_bits_desc_eq)
  then have "suffix_weight s = card (set (set_bits_desc (of_nat s)))" by (simp only: distinct_card)
  also have "\<dots> \<le> card {..<h}" using suffix_bits [OF assms] by (intro card_mono) auto
  finally show ?thesis by simp
qed

lemma suffix_parent:
  assumes "1 \<le> s" and "s < 2 ^ h" and "h \<le> INDEX_BITS"
  defines "u \<equiv> (of_nat s :: u64)"
  shows "unat (u AND (u - 1)) < s" and "suffix_weight s = Suc (suffix_weight (unat (u AND (u - 1))))"
    and "trailing_zeros u < h"
    and "leaf_value sha256 offset v s =
      hash_step sha256 (offset + trailing_zeros u) (leaf_value sha256 offset v (unat (u AND (u - 1))))"
proof -
  note sn = suffix_of_nat [OF assms(2,3)]
  have u0: "u \<noteq> 0" using sn(2) assms(1) by (auto simp: u_def)
  have sb: "set_bits_desc u = set_bits_desc (u AND (u - 1)) @ [trailing_zeros u]"
    using set_bits_desc_parent [OF u0] sn(1) by (simp add: u_def)
  then show "suffix_weight s = Suc (suffix_weight (unat (u AND (u - 1))))" by (simp add: u_def)
  show "leaf_value sha256 offset v s =
      hash_step sha256 (offset + trailing_zeros u) (leaf_value sha256 offset v (unat (u AND (u - 1))))"
    using sb by (simp add: leaf_value_def u_def)
  show "trailing_zeros u < h"
    using suffix_bits [OF assms(2), of "trailing_zeros u"] sb unfolding u_def [symmetric] by (metis in_set_conv_decomp)
  have "u AND (u - 1) \<le> u" by (rule word_and_le2)
  moreover have "u AND (u - 1) \<noteq> u"
    using sub_1_and [OF u0, of "trailing_zeros u"] trailing_zeros_spec(1) [OF u0] by auto
  ultimately have "u AND (u - 1) < u" by simp
  then show "unat (u AND (u - 1)) < s" using sn(2) by (simp add: word_less_nat_alt u_def)
qed

lemma suffix_weight_1: "suffix_weight 1 = 1"
proof -
  have "set_bits_desc 1 = [0]" by code_simp
  then show ?thesis by simp
qed

section \<open>Builders\<close>

definition tile_walk ::
  "(nat \<Rightarrow> 'w list \<times> 'b \<Rightarrow> 'e + 'w list \<times> 'b) \<Rightarrow> nat \<Rightarrow> nat \<Rightarrow> nat \<Rightarrow> 'w list list \<times> 'b \<Rightarrow> 'e + 'w list list \<times> 'b" where
  \<comment> \<open>one turn of the tile loop over a builder's step\<close>
  "tile_walk step offset depth suffix = (\<lambda>(node, b).
     let s = (of_nat suffix :: u64) in
     if count_ones s \<noteq> depth then Inr (node, b)
     else bindR (step (offset + trailing_zeros s) (node ! unat (s AND (s - 1)), b)) (\<lambda>(p, b). Inr (node[suffix := p], b)))"

definition tree_inv ::
  "('b \<Rightarrow> 'w list \<Rightarrow> value32 \<Rightarrow> bool) \<Rightarrow> (bytes \<Rightarrow> bytes) \<Rightarrow> nat \<Rightarrow> nat \<Rightarrow> value32 \<Rightarrow> nat \<Rightarrow> nat \<Rightarrow> 'w list list \<times> 'b \<Rightarrow> bool" where
  \<comment> \<open>the nodes before suffix \<open>s\<close> of depth \<open>d\<close> carry their values\<close>
  "tree_inv holds sha256 offset leaves v d s = (\<lambda>(node, b). length node = leaves
     \<and> (\<forall>t < leaves. suffix_weight t < d \<or> suffix_weight t = d \<and> t < s \<longrightarrow> holds b (node ! t) (leaf_value sha256 offset v t)))"

locale hash_builder =
  fixes sha256 :: "bytes \<Rightarrow> bytes" and ok :: "'b \<Rightarrow> bool" and used :: "'b \<Rightarrow> int" and room cost limit :: int
    and holds :: "'b \<Rightarrow> 'w list \<Rightarrow> value32 \<Rightarrow> bool" and step :: "nat \<Rightarrow> 'w list \<times> 'b \<Rightarrow> 'e + 'w list \<times> 'b"
    and hashed :: "'b \<Rightarrow> bool"
  assumes step_spec: "ok b \<Longrightarrow> holds b p v \<Longrightarrow> k < INDEX_BITS \<Longrightarrow> used b + room < limit \<Longrightarrow>
      \<exists>p' b'. step k (p, b) = Inr (p', b') \<and> ok b' \<and> used b' = used b + cost \<and> holds b' p' (hash_step sha256 k v)
        \<and> (\<forall>q u. holds b q u \<longrightarrow> holds b' q u) \<and> hashed b'"
    and cost: "ok b \<Longrightarrow> 0 \<le> cost \<and> cost \<le> room"
begin

lemma chain:
  assumes "ok b" "holds b p v" "\<forall>k \<in> set ks. k < INDEX_BITS" "used b + int (length ks) * room < limit"
  shows "\<exists>p' b'. foldR step ks (p, b) = Inr (p', b') \<and> ok b' \<and> used b' = used b + int (length ks) * cost
    \<and> holds b' p' (fold (hash_step sha256) ks v) \<and> (ks \<noteq> [] \<or> hashed b \<longrightarrow> hashed b')"
  using assms
proof (induction ks arbitrary: b p v)
  case (Cons k ks)
  have c: "0 \<le> cost" "cost \<le> room" using cost [OF Cons.prems(1)] by auto
  have pos: "0 \<le> int (length ks) * room" using c by simp
  have bnd: "used b + room < limit" "used b + room + int (length ks) * room < limit"
    using Cons.prems(4) pos by (simp_all add: algebra_simps)
  obtain p1 b1 where b1: "step k (p, b) = Inr (p1, b1)" "ok b1" "used b1 = used b + cost" "holds b1 p1 (hash_step sha256 k v)" "hashed b1"
    using step_spec [OF Cons.prems(1,2) _ bnd(1)] Cons.prems(3) by (meson list.set_intros(1))
  have "used b1 + int (length ks) * room < limit" using bnd(2) b1(3) c by linarith
  then obtain p2 b2 where "foldR step ks (p1, b1) = Inr (p2, b2)" "ok b2" "used b2 = used b1 + int (length ks) * cost"
    "holds b2 p2 (fold (hash_step sha256) ks (hash_step sha256 k v))" "hashed b1 \<longrightarrow> hashed b2"
    using Cons.IH [OF b1(2,4)] Cons.prems(3) by auto
  then show ?case using b1 by (simp add: algebra_simps)
qed simp

lemma walk:
  assumes h: "offset + h \<le> INDEX_BITS" and s: "1 \<le> s" "s < 2 ^ h" and ok: "ok b"
    and inv: "tree_inv holds sha256 offset (2 ^ h) v d s (node, b)" and bound: "used b + room < limit"
  shows "\<exists>node' b'. tile_walk step offset d s (node, b) = Inr (node', b') \<and> ok b'
    \<and> tree_inv holds sha256 offset (2 ^ h) v d (Suc s) (node', b') \<and> used b \<le> used b' \<and> used b' \<le> used b + room
    \<and> (hashed b \<or> suffix_weight s = d \<longrightarrow> hashed b')"
proof -
  let ?u = "of_nat s :: u64"
  have hI: "h \<le> INDEX_BITS" using h by simp
  have c: "0 \<le> cost" "cost \<le> room" using cost [OF ok] by auto
  note par = suffix_parent [OF s hI]
  have co: "count_ones ?u = suffix_weight s" using suffix_of_nat [OF s(2) hI] by (simp add: count_ones_length)
  show ?thesis
  proof (cases "suffix_weight s = d")
    case False
    then have "tree_inv holds sha256 offset (2 ^ h) v d (Suc s) (node, b)"
      using inv by (auto simp: tree_inv_def less_Suc_eq)
    with False show ?thesis using ok c by (auto simp: tile_walk_def Let_def co)
  next
    case True
    let ?par = "unat (?u AND (?u - 1))"
    have lt: "?par < 2 ^ h" "suffix_weight ?par < d" using par(1,2) s True by auto
    have hp: "holds b (node ! ?par) (leaf_value sha256 offset v ?par)" and len: "length node = 2 ^ h"
      using inv lt by (auto simp: tree_inv_def)
    have k: "offset + trailing_zeros ?u < INDEX_BITS" using par(3) h by simp
    obtain p' b' where b': "step (offset + trailing_zeros ?u) (node ! ?par, b) = Inr (p', b')" "ok b'" "used b' = used b + cost"
      "holds b' p' (leaf_value sha256 offset v s)" "\<And>q u. holds b q u \<Longrightarrow> holds b' q u" "hashed b'"
      using step_spec [OF ok hp k bound] unfolding par(4) [symmetric] by blast
    have "tree_inv holds sha256 offset (2 ^ h) v d (Suc s) (node[s := p'], b')"
      unfolding tree_inv_def prod.case
    proof (intro conjI allI impI)
      show "length (node[s := p']) = 2 ^ h" using len by simp
      fix t assume t: "t < 2 ^ h" "suffix_weight t < d \<or> suffix_weight t = d \<and> t < Suc s"
      show "holds b' (node[s := p'] ! t) (leaf_value sha256 offset v t)"
      proof (cases "t = s")
        case False
        with t have "holds b (node ! t) (leaf_value sha256 offset v t)" using inv by (auto simp: tree_inv_def)
        with False show ?thesis using b'(5) by simp
      qed (use b'(4) len t in simp)
    qed
    moreover have "tile_walk step offset d s (node, b) = Inr (node[s := p'], b')"
      using True b'(1) by (simp add: tile_walk_def Let_def co)
    ultimately show ?thesis using b'(2,3,6) c by auto
  qed
qed

lemma level:
  assumes h: "offset + h \<le> INDEX_BITS" and n: "1 \<le> n" "n \<le> 2 ^ h" and ok: "ok b"
    and inv: "tree_inv holds sha256 offset (2 ^ h) v d 1 (node, b)" and bound: "used b + int n * room < limit"
  shows "\<exists>node' b'. foldR (tile_walk step offset d) [1..<n] (node, b) = Inr (node', b') \<and> ok b'
    \<and> tree_inv holds sha256 offset (2 ^ h) v d n (node', b') \<and> used b \<le> used b' \<and> used b' \<le> used b + int (n - 1) * room
    \<and> (hashed b \<or> d = 1 \<and> 1 < n \<longrightarrow> hashed b')"
  using n bound
proof (induction n rule: nat_induct_at_least)
  case base
  then show ?case using inv ok by auto
next
  case (Suc n)
  have c: "0 \<le> cost" "cost \<le> room" using cost [OF ok] by auto
  have bnd: "used b + int n * room < limit" using Suc.prems(2) c by (simp add: algebra_simps)
  then obtain node1 b1 where b1: "foldR (tile_walk step offset d) [1..<n] (node, b) = Inr (node1, b1)" "ok b1"
      "tree_inv holds sha256 offset (2 ^ h) v d n (node1, b1)" "used b \<le> used b1" "used b1 \<le> used b + int (n - 1) * room"
      "hashed b \<or> d = 1 \<and> 1 < n \<longrightarrow> hashed b1"
    using Suc.IH Suc.prems by auto
  have e: "int (n - 1) * room + room = int n * room"
    using Suc.hyps by (simp add: algebra_simps of_nat_diff)
  have "used b1 + room < limit" using b1(5) bnd e by linarith
  then obtain node2 b2 where b2: "tile_walk step offset d n (node1, b1) = Inr (node2, b2)" "ok b2"
    "tree_inv holds sha256 offset (2 ^ h) v d (Suc n) (node2, b2)" "used b1 \<le> used b2" "used b2 \<le> used b1 + room"
    "hashed b1 \<or> suffix_weight n = d \<longrightarrow> hashed b2"
    using walk [OF h _ _ b1(2,3)] Suc by auto
  have "foldR (tile_walk step offset d) [1..<Suc n] (node, b) = Inr (node2, b2)"
    using Suc.hyps b1(1) b2(1) by (simp add: foldR_append)
  moreover have "used b2 \<le> used b + int (Suc n - 1) * room" using b1(5) b2(5) e by simp
  moreover have "hashed b \<or> d = 1 \<and> 1 < Suc n \<longrightarrow> hashed b2"
    using b1(6) b2(6) Suc.hyps suffix_weight_1 by (cases "n = 1") auto
  moreover have "used b \<le> used b2" using b1(4) b2(4) by linarith
  ultimately show ?case using b2(2,3) by (intro exI conjI)
qed

lemma levels:
  assumes h: "offset + h \<le> INDEX_BITS" and ok: "ok b"
    and inv: "tree_inv holds sha256 offset (2 ^ h) v 1 1 (node, b)"
    and bound: "used b + int (m * 2 ^ h) * room < limit"
  shows "\<exists>node' b'. foldR (\<lambda>depth. foldR (tile_walk step offset depth) [1..<2 ^ h]) [1..<Suc m] (node, b) = Inr (node', b') \<and> ok b'
    \<and> tree_inv holds sha256 offset (2 ^ h) v (Suc m) 1 (node', b') \<and> used b \<le> used b' \<and> used b' \<le> used b + int (m * 2 ^ h) * room
    \<and> (hashed b \<or> 0 < m \<and> 0 < h \<longrightarrow> hashed b')"
  using bound
proof (induction m)
  case 0
  then show ?case using inv ok by auto
next
  case (Suc m)
  let ?L = "int (2 ^ h) * room"
  have c: "0 \<le> cost" "cost \<le> room" using cost [OF ok] by auto
  then have pos: "0 \<le> ?L" by simp
  have e: "int (Suc m * 2 ^ h) * room = int (m * 2 ^ h) * room + ?L" by (simp add: algebra_simps)
  then obtain node1 b1 where b1: "foldR (\<lambda>depth. foldR (tile_walk step offset depth) [1..<2 ^ h]) [1..<Suc m] (node, b) = Inr (node1, b1)"
      "ok b1" "tree_inv holds sha256 offset (2 ^ h) v (Suc m) 1 (node1, b1)" "used b \<le> used b1"
      "used b1 \<le> used b + int (m * 2 ^ h) * room" "hashed b \<or> 0 < m \<and> 0 < h \<longrightarrow> hashed b1"
    using Suc.IH Suc.prems pos by (simp only: e) fastforce
  have "used b1 + int (2 ^ h) * room < limit" using Suc.prems b1(5) e by linarith
  then obtain node2 b2 where b2: "foldR (tile_walk step offset (Suc m)) [1..<2 ^ h] (node1, b1) = Inr (node2, b2)" "ok b2"
    "tree_inv holds sha256 offset (2 ^ h) v (Suc m) (2 ^ h) (node2, b2)" "used b1 \<le> used b2" "used b2 \<le> used b1 + int (2 ^ h - 1) * room"
    "hashed b1 \<or> Suc m = 1 \<and> 1 < (2 :: nat) ^ h \<longrightarrow> hashed b2"
    using level [OF h _ order_refl b1(2,3)] by auto
  have le: "int (2 ^ h - 1) * room \<le> ?L" using c by (intro mult_right_mono) auto
  have "tree_inv holds sha256 offset (2 ^ h) v (Suc (Suc m)) 1 (node2, b2)"
  proof -
    have "suffix_weight t < Suc m \<or> suffix_weight t = Suc m \<and> t < 2 ^ h"
      if "t < 2 ^ h" "suffix_weight t < Suc (Suc m) \<or> suffix_weight t = Suc (Suc m) \<and> t < 1" for t
      using that by (auto simp: less_Suc_eq)
    with b2(3) show ?thesis unfolding tree_inv_def by blast
  qed
  moreover have "foldR (\<lambda>depth. foldR (tile_walk step offset depth) [1..<2 ^ h]) [1..<Suc (Suc m)] (node, b) = Inr (node2, b2)"
    using b1(1) b2(1) by (simp add: foldR_append)
  moreover have "used b2 \<le> used b + int (Suc m * 2 ^ h) * room" using b1(5) b2(5) le e by linarith
  moreover have "hashed b \<or> 0 < Suc m \<and> 0 < h \<longrightarrow> hashed b2"
    using b1(6) b2(6) one_less_power [of "2 :: nat" h] by (cases "m = 0") auto
  moreover have "used b \<le> used b2" using b1(4) b2(4) by linarith
  ultimately show ?case using b2(2) by (intro exI conjI)
qed

lemma leaves:
  assumes "tree_inv holds sha256 offset (2 ^ h) v (Suc h) 1 (node, b)" and "t < 2 ^ h"
  shows "holds b (node ! t) (leaf_value sha256 offset v t)" and "length node = 2 ^ h"
  using assms suffix_weight_le [OF assms(2)] by (auto simp: tree_inv_def le_imp_less_Suc)

end

text \<open>The root of a tile carries the trunk value.\<close>

lemma suffix_weight_0: "t < 2 ^ h \<Longrightarrow> h \<le> INDEX_BITS \<Longrightarrow> suffix_weight t = 0 \<longleftrightarrow> t = 0"
proof -
  assume t: "t < 2 ^ h" "h \<le> INDEX_BITS"
  have "t = 0" if "set_bits_desc (of_nat t) = []"
  proof (rule ccontr)
    assume "t \<noteq> 0"
    with suffix_parent(2) [of t h] t that show False by simp
  qed
  then show ?thesis by auto
qed

lemma tree_start:
  assumes "holds b p v" and "h \<le> INDEX_BITS"
  shows "tree_inv holds sha256 offset (2 ^ h) v 1 1 ((replicate (2 ^ h) [])[0 := p], b)"
proof -
  have "leaf_value sha256 offset v 0 = v" by (simp add: leaf_value_def)
  moreover have "t = 0" if "t < 2 ^ h" "suffix_weight t < 1 \<or> suffix_weight t = 1 \<and> t < 1" for t
    using that suffix_weight_0 [OF that(1) assms(2)] by auto
  ultimately show ?thesis using assms(1) by (fastforce simp: tree_inv_def)
qed

end
