(* ===== verification/Circuit_Build.thy ===== *)
theory Circuit_Build
  imports Hash_Tree Circuit
begin

text \<open>
  The circuit builders of \<open>shachain2pc-circuit\<close>: \<open>Builder\<close>, the inlining of a gadget, and the three
  circuits made of it, the whole derivation, one chunk of its chain, and a tile of the tree of
  derivations. Builders are passed as a state; the gadget is any circuit, in the program the
  SHA-256 compression function.
\<close>

section \<open>The builder\<close>

record builder =
  b_next :: int
  b_gates :: "gate list"

definition builder_new :: "int \<Rightarrow> builder" where
  "builder_new num_inputs = \<lparr>b_next = num_inputs, b_gates = []\<rparr>"

definition alloc :: "builder \<Rightarrow> int \<times> builder" where
  "alloc b = (b_next b, b\<lparr>b_next := wrap32 (b_next b + 1)\<rparr>)"

definition push_gate :: "gate_type \<Rightarrow> int \<Rightarrow> int \<Rightarrow> int \<Rightarrow> builder \<Rightarrow> builder" where
  \<comment> \<open>\<open>Builder::and\<close>, \<open>Builder::xor\<close> and, with \<open>in1 = -1\<close>, \<open>Builder::inv\<close>\<close>
  "push_gate t i0 i1 o' b = b\<lparr>b_gates := b_gates b @ [\<lparr>g_typ = t, g_in0 = i0, g_in1 = i1, g_out = o'\<rparr>]\<rparr>"

definition xor_w :: "int \<Rightarrow> int \<Rightarrow> builder \<Rightarrow> int \<times> builder" where
  "xor_w i0 i1 b = (let (o', b) = alloc b in (o', push_gate Xor i0 i1 o' b))"

definition inv_w :: "int \<Rightarrow> builder \<Rightarrow> int \<times> builder" where
  "inv_w i0 b = (let (o', b) = alloc b in (o', push_gate Inv i0 (- 1) o' b))"

text \<open>A loop that allocates, or that pushes a gate per wire, collecting the new wires.\<close>

fun collect :: "('x \<Rightarrow> builder \<Rightarrow> int \<times> builder) \<Rightarrow> 'x list \<Rightarrow> builder \<Rightarrow> int list \<times> builder" where
  "collect f [] b = ([], b)"
| "collect f (x # xs) b = (let (w, b) = f x b; (ws, b) = collect f xs b in (w # ws, b))"

definition map_gate :: "int list \<Rightarrow> gate \<Rightarrow> builder \<Rightarrow> circuit_error + builder" where
  "map_gate m ge b = (case g_typ ge of
       And \<Rightarrow> bindR (wire_get m (g_in0 ge)) (\<lambda>i0. bindR (wire_get m (g_in1 ge)) (\<lambda>i1.
                bindR (wire_get m (g_out ge)) (\<lambda>o'. Inr (push_gate And i0 i1 o' b))))
     | Xor \<Rightarrow> bindR (wire_get m (g_in0 ge)) (\<lambda>i0. bindR (wire_get m (g_in1 ge)) (\<lambda>i1.
                bindR (wire_get m (g_out ge)) (\<lambda>o'. Inr (push_gate Xor i0 i1 o' b))))
     | Inv \<Rightarrow> bindR (wire_get m (g_in0 ge)) (\<lambda>i0.
                bindR (wire_get m (g_out ge)) (\<lambda>o'. Inr (push_gate Inv i0 (- 1) o' b))))"

definition apply_gadget :: "circuit \<Rightarrow> int list \<Rightarrow> builder \<Rightarrow> circuit_error + int list \<times> builder" where
  "apply_gadget gadget inputs b =
     (let gin = usize_of_i32 (wrap32 (c_n1 gadget + c_n2 gadget)) in
      if length inputs \<noteq> gin then Inl (Shape ''ApplyGadget: wrong gadget input width'')
      else let size = usize_of_i32 (c_num_wire gadget) in
        if gin > size then Inl CPanic
        else let (fresh, b) = collect (\<lambda>_. alloc) [gin..<size] b;
                 m = inputs @ fresh
             in bindR (foldR (map_gate m) (c_gates gadget) b) (\<lambda>b.
                let start = usize_of_i32 (wrap32 (c_num_wire gadget - c_n3 gadget)) in
                bindR (slice m start ((start + usize_of_i32 (c_n3 gadget)) mod 2 ^ 64)) (\<lambda>outs. Inr (outs, b))))"

definition finish :: "builder \<Rightarrow> int \<Rightarrow> int \<Rightarrow> int \<Rightarrow> circuit" where
  "finish b n1 n2 n3 = \<lparr>c_num_wire = b_next b, c_n1 = n1, c_n2 = n2, c_n3 = n3, c_gates = b_gates b\<rparr>"

section \<open>The hash step as gates\<close>

definition pad_bytes :: bytes where
  "pad_bytes = (replicate 32 0)[0 := 0x80, 30 := 0x01]"

definition padding_bits :: "int list" where
  "padding_bits = map (\<lambda>i. int (unat (drop_bit (7 - i mod 8) (pad_bytes ! (i div 8)) AND 1))) [0..<VALUE_BITS]"

definition msb_bit_index :: "nat \<Rightarrow> nat \<Rightarrow> nat" where
  "msb_bit_index byte lsb = 8 * byte + (7 - lsb)"

definition flip_bit_index :: "nat \<Rightarrow> nat" where
  "flip_bit_index b = msb_bit_index (b div 8) (b mod 8)"

definition hash_gates :: "circuit \<Rightarrow> int \<Rightarrow> int \<Rightarrow> nat \<Rightarrow> int list \<Rightarrow> builder \<Rightarrow> circuit_error + int list \<times> builder" where
  \<comment> \<open>the loop body the three builders share: flip the bit, append the padding, apply the gadget\<close>
  "hash_gates sha c0 c1 k p b =
     (let idx = flip_bit_index k in
      if idx \<ge> length p then Inl CPanic
      else let (w, b) = inv_w (p ! idx) b; p = p[idx := w] in
        if length p \<noteq> VALUE_BITS then Inl CPanic
        else apply_gadget sha (p @ map (\<lambda>i. if padding_bits ! i \<noteq> 0 then c1 else c0) [0..<VALUE_BITS]) b)"

definition gadget_shape_ok :: "circuit \<Rightarrow> bool" where
  \<comment> \<open>\<open>!(sha.n1 + sha.n2 != 512 || sha.n3 != 256)\<close>\<close>
  "gadget_shape_ok sha \<longleftrightarrow> wrap32 (c_n1 sha + c_n2 sha) = 512 \<and> c_n3 sha = int VALUE_BITS"

definition hash_chain :: "circuit \<Rightarrow> int \<Rightarrow> int \<Rightarrow> nat list \<Rightarrow> int list \<times> builder \<Rightarrow> circuit_error + int list \<times> builder" where
  "hash_chain sha c0 c1 bits = foldR (\<lambda>k (p, b). hash_gates sha c0 c1 k p b) bits"

section \<open>The circuits\<close>

definition build_derivation_circuit :: "circuit \<Rightarrow> u64 \<Rightarrow> circuit_error + circuit" where
  "build_derivation_circuit sha index =
     (if index > MAX_INDEX then Inl (Index (IndexTooLarge index))
      else if \<not> gadget_shape_ok sha then Inl (Shape ''BuildDerivationCircuit: gadget is not 512->256'')
      else let b = builder_new (2 * int VALUE_BITS);
               (c0, b) = xor_w 0 0 b;
               (c1, b) = inv_w c0 b;
               (p, b) = collect (\<lambda>i. xor_w (int i) (int VALUE_BITS + int i)) [0..<VALUE_BITS] b
           in bindR (foldR (\<lambda>k (p, b). if drop_bit k index AND 1 = 0 then Inr (p, b) else hash_gates sha c0 c1 k p b)
                       (rev [0..<INDEX_BITS]) (p, b)) (\<lambda>(p, b).
              let (_, b) = collect (\<lambda>wire. xor_w wire c0) (take VALUE_BITS p) b
              in Inr (finish b (int VALUE_BITS) (int VALUE_BITS) (int VALUE_BITS))))"

definition build_circuit_for_index :: "index48 \<Rightarrow> circuit \<Rightarrow> circuit_error + circuit" where
  "build_circuit_for_index index sha = build_derivation_circuit sha (index_get index)"

definition build_chunk_circuit :: "circuit \<Rightarrow> nat list \<Rightarrow> bool \<Rightarrow> circuit_error + circuit" where
  "build_chunk_circuit sha chain_bits first =
     (if \<not> gadget_shape_ok sha then Inl (Shape ''BuildChunkCircuit: gadget is not 512->256'')
      else if \<exists>k \<in> set chain_bits. k \<ge> INDEX_BITS then Inl (Shape ''BuildChunkCircuit: chain bit exceeds 48 bits'')
      else let b = builder_new (if first then 2 * int VALUE_BITS else int VALUE_BITS);
               (c0, b) = xor_w 0 0 b;
               (c1, b) = inv_w c0 b;
               (p, b) = (if first then collect (\<lambda>i. xor_w (int i) (int VALUE_BITS + int i)) [0..<VALUE_BITS] b
                         else (map int [0..<VALUE_BITS], b))
           in bindR (hash_chain sha c0 c1 chain_bits (p, b)) (\<lambda>(p, b).
              let (_, b) = collect (\<lambda>wire. xor_w wire c0) (take VALUE_BITS p) b
              in Inr (finish b (int VALUE_BITS) (if first then int VALUE_BITS else 0) (int VALUE_BITS))))"

definition tile_step :: "circuit \<Rightarrow> int \<Rightarrow> int \<Rightarrow> nat \<Rightarrow> nat \<Rightarrow> nat \<Rightarrow> int list list \<times> builder \<Rightarrow> circuit_error + int list list \<times> builder" where
  "tile_step sha c0 c1 offset depth suffix = (\<lambda>(node, b).
     let s = (of_nat suffix :: u64) in
     if count_ones s \<noteq> depth then Inr (node, b)
     else let k = offset + trailing_zeros s;
              parent = unat (s AND (s - 1));
              p = node ! parent
          in bindR (hash_gates sha c0 c1 k p b) (\<lambda>(p, b). Inr (node[suffix := p], b)))"

definition build_tile_circuit :: "circuit \<Rightarrow> nat \<Rightarrow> nat \<Rightarrow> circuit_error + circuit" where
  "build_tile_circuit sha offset tile_height =
     (if tile_height < 1 \<or> tile_height > INDEX_BITS then Inl (Shape ''BuildTileCircuit: invalid tile height'')
      else if offset + tile_height > INDEX_BITS then Inl (Shape ''BuildTileCircuit: bit window out of range'')
      else if \<not> gadget_shape_ok sha then Inl (Shape ''BuildTileCircuit: gadget is not 512->256'')
      else let leaves = 2 ^ tile_height;
               b = builder_new (int VALUE_BITS);
               (c0, b) = xor_w 0 0 b;
               (c1, b) = inv_w c0 b;
               node = (replicate leaves [])[0 := map int [0..<VALUE_BITS]]
           in bindR (foldR (\<lambda>depth. foldR (tile_step sha c0 c1 offset depth) [1..<leaves]) [1..<tile_height + 1] (node, b)) (\<lambda>(node, b).
              let (_, b) = collect (\<lambda>wire. xor_w wire c0) (concat (map (take VALUE_BITS) node)) b
              in Inr (finish b (int VALUE_BITS) 0 (wrap32 (int (VALUE_BITS * leaves))))))"

section \<open>Builders and wire values\<close>

text \<open>
  The value a builder's gates give a wire, and the two facts every operation keeps: gates stay within
  the allocated wires (\<open>b_ok\<close>), and an operation only adds gates that write wires it allocated
  (\<open>grows\<close>), so it leaves every earlier value as it was.
\<close>

definition val :: "builder \<Rightarrow> (int \<Rightarrow> u8) \<Rightarrow> int \<Rightarrow> u8" where
  "val b w = ev (b_gates b) w"

definition b_ok :: "builder \<Rightarrow> bool" where
  "b_ok b \<longleftrightarrow> 0 \<le> b_next b \<and> b_next b < 2 ^ 31 \<and> (\<forall>g \<in> set (b_gates b). wf_gate (b_next b) g)"

definition grows :: "builder \<Rightarrow> builder \<Rightarrow> bool" where
  "grows b b' \<longleftrightarrow> b_next b \<le> b_next b' \<and> b_ok b' \<and>
     (\<exists>gs. b_gates b' = b_gates b @ gs \<and> (\<forall>g \<in> set gs. b_next b \<le> g_out g))"

definition zero_from :: "int \<Rightarrow> (int \<Rightarrow> u8) \<Rightarrow> bool" where
  "zero_from n w \<longleftrightarrow> (\<forall>i \<ge> n. w i = 0)"

lemma in_range_mono: "in_range n i \<Longrightarrow> n \<le> m \<Longrightarrow> in_range m i"
  by (auto simp: in_range_def)

lemma wf_gate_mono: "wf_gate n g \<Longrightarrow> n \<le> m \<Longrightarrow> wf_gate m g"
  by (auto simp: wf_gate_def in_range_def)

lemma grows_refl [simp]: "b_ok b \<Longrightarrow> grows b b"
  by (simp add: grows_def)

lemma grows_trans: "grows a b \<Longrightarrow> grows b c \<Longrightarrow> grows a c"
  by (auto simp: grows_def) force

lemma grows_ok: "grows a b \<Longrightarrow> b_ok b" and grows_next: "grows a b \<Longrightarrow> b_next a \<le> b_next b"
  by (auto simp: grows_def)

lemma grows_val:
  assumes "grows b b'" and "i < b_next b"
  shows "val b' w i = val b w i"
proof -
  obtain gs where "b_gates b' = b_gates b @ gs" "\<forall>g \<in> set gs. b_next b \<le> g_out g"
    using assms(1) by (auto simp: grows_def)
  with assms(2) show ?thesis by (simp add: val_def ev_append) (rule ev_frame, force)
qed

lemma grows_vals:
  assumes "grows b b'" and "\<forall>i \<in> set ws. in_range (b_next b) i"
  shows "map (val b' w) ws = map (val b w) ws"
  using assms by (auto simp: in_range_def intro: grows_val)

lemma val_zero: "b_ok b \<Longrightarrow> zero_from (b_next b) w \<Longrightarrow> b_next b \<le> i \<Longrightarrow> val b w i = 0"
  unfolding val_def by (subst ev_frame) (force simp: b_ok_def zero_from_def wf_gate_def in_range_def)+

lemma zero_from_mono: "zero_from n w \<Longrightarrow> n \<le> m \<Longrightarrow> zero_from m w"
  by (auto simp: zero_from_def)

lemma zero_from_grows: "zero_from (b_next b) w \<Longrightarrow> grows b b' \<Longrightarrow> zero_from (b_next b') w"
  by (auto simp: grows_def intro: zero_from_mono)

lemma xor_w_spec:
  assumes "b_ok b" and "b_next b + 1 < 2 ^ 31" and "in_range (b_next b) i" and "in_range (b_next b) j"
  shows "\<exists>b'. xor_w i j b = (b_next b, b') \<and> b_next b' = b_next b + 1 \<and> grows b b'
    \<and> (\<forall>w. val b' w (b_next b) = val b w i XOR val b w j)"
  using assms
  by (auto simp: xor_w_def alloc_def push_gate_def Let_def grows_def b_ok_def val_def ev_snoc ev_gate.simps
      wf_gate_def in_range_def)

lemma inv_w_spec:
  assumes "b_ok b" and "b_next b + 1 < 2 ^ 31" and "in_range (b_next b) i"
  shows "\<exists>b'. inv_w i b = (b_next b, b') \<and> b_next b' = b_next b + 1 \<and> grows b b'
    \<and> (\<forall>w. val b' w (b_next b) = val b w i XOR 1)"
  using assms
  by (auto simp: inv_w_def alloc_def push_gate_def Let_def grows_def b_ok_def val_def ev_snoc ev_gate.simps
      wf_gate_def in_range_def)

lemma collect_xor_spec:
  assumes "b_ok b" and "b_next b + int (length xs) < 2 ^ 31"
    and "\<forall>x \<in> set xs. in_range (b_next b) (f x) \<and> in_range (b_next b) (h x)"
  shows "\<exists>b'. collect (\<lambda>x. xor_w (f x) (h x)) xs b = ([b_next b..b_next b + int (length xs) - 1], b')
    \<and> b_next b' = b_next b + int (length xs) \<and> grows b b'
    \<and> (\<forall>w. map (val b' w) [b_next b..b_next b + int (length xs) - 1] = map (\<lambda>x. val b w (f x) XOR val b w (h x)) xs)"
  using assms
proof (induction xs arbitrary: b)
  case Nil
  then show ?case by simp
next
  case (Cons x xs)
  then obtain b1 where b1: "xor_w (f x) (h x) b = (b_next b, b1)" "b_next b1 = b_next b + 1" "grows b b1"
      "\<forall>w. val b1 w (b_next b) = val b w (f x) XOR val b w (h x)"
    using xor_w_spec [of b "f x" "h x"] by auto
  have "\<forall>x \<in> set xs. in_range (b_next b1) (f x) \<and> in_range (b_next b1) (h x)"
    using Cons.prems(3) b1(2) by (auto intro: in_range_mono)
  then obtain b2 where b2: "collect (\<lambda>x. xor_w (f x) (h x)) xs b1 = ([b_next b1..b_next b1 + int (length xs) - 1], b2)"
      "b_next b2 = b_next b1 + int (length xs)" "grows b1 b2"
      "\<forall>w. map (val b2 w) [b_next b1..b_next b1 + int (length xs) - 1] = map (\<lambda>x. val b1 w (f x) XOR val b1 w (h x)) xs"
    using Cons.IH [of b1] Cons.prems b1 by (auto dest: grows_ok)
  have up: "[b_next b..b_next b + int (length (x # xs)) - 1] = b_next b # [b_next b1..b_next b1 + int (length xs) - 1]"
    using b1(2) by (subst upto_rec1) (auto simp: algebra_simps)
  have v1: "val b1 w (f y) = val b w (f y) \<and> val b1 w (h y) = val b w (h y)" if "y \<in> set xs" for w y
    using that Cons.prems(3) b1(3) by (auto simp: in_range_def intro!: grows_val)
  have v2: "val b2 w (b_next b) = val b1 w (b_next b)" for w
    using b1(2) b2(3) by (intro grows_val) auto
  show ?case
    unfolding up using b1 b2 v1 v2 grows_trans [OF b1(3) b2(3)] by (auto simp: Let_def)
qed

lemma collect_alloc_spec:
  assumes "0 \<le> b_next b" and "b_next b + int (length xs) < 2 ^ 31"
  shows "collect (\<lambda>_. alloc) xs b =
    ([b_next b..b_next b + int (length xs) - 1], b\<lparr>b_next := b_next b + int (length xs)\<rparr>)"
  using assms
proof (induction xs arbitrary: b)
  case Nil
  then show ?case by simp
next
  case (Cons x xs)
  have up: "[b_next b..b_next b + int (length (x # xs)) - 1] = b_next b # [b_next b + 1..b_next b + 1 + int (length xs) - 1]"
    by (subst upto_rec1) (auto simp: algebra_simps)
  show ?case
    unfolding up using Cons.prems Cons.IH [of "b\<lparr>b_next := b_next b + 1\<rparr>"]
    by (simp add: alloc_def Let_def algebra_simps)
qed

section \<open>Inlining a gadget\<close>

definition rename_gate :: "int list \<Rightarrow> gate \<Rightarrow> gate" where
  "rename_gate m g = \<lparr>g_typ = g_typ g, g_in0 = m ! nat (g_in0 g),
     g_in1 = (if g_typ g = Inv then - 1 else m ! nat (g_in1 g)), g_out = m ! nat (g_out g)\<rparr>"

lemma wire_get_nth: "length m < 2 ^ 31 \<Longrightarrow> in_range (int (length m)) i \<Longrightarrow> wire_get m i = Inr (m ! nat i)"
  by (auto simp: wire_get_def in_range_def Let_def)

lemma map_gate_wf:
  assumes "length m < 2 ^ 31" and "wf_gate (int (length m)) g"
  shows "map_gate m g b = Inr (b\<lparr>b_gates := b_gates b @ [rename_gate m g]\<rparr>)"
  using assms
  by (auto simp: map_gate_def wf_gate_def wire_get_nth push_gate_def rename_gate_def split: gate_type.splits)

lemma map_gates_wf:
  assumes "length m < 2 ^ 31" and "\<forall>g \<in> set gs. wf_gate (int (length m)) g"
  shows "foldR (map_gate m) gs b = Inr (b\<lparr>b_gates := b_gates b @ map (rename_gate m) gs\<rparr>)"
  using assms(2) by (induction gs arbitrary: b) (auto simp: map_gate_wf [OF assms(1)])

lemma ev_rename:
  assumes "\<forall>g \<in> set gs. wf_gate n g \<and> k \<le> g_out g"
    and "\<forall>i j. in_range n i \<longrightarrow> in_range n j \<longrightarrow> k \<le> j \<longrightarrow> m ! nat i = m ! nat j \<longrightarrow> i = j"
    and "\<forall>i. in_range n i \<longrightarrow> w i = v (m ! nat i)"
  shows "\<forall>i. in_range n i \<longrightarrow> ev gs w i = ev (map (rename_gate m) gs) v (m ! nat i)"
  using assms(1,3)
proof (induction gs arbitrary: w v)
  case Nil
  then show ?case by simp
next
  case (Cons g gs)
  have g: "in_range n (g_in0 g)" "in_range n (g_out g)" "g_typ g \<noteq> Inv \<Longrightarrow> in_range n (g_in1 g)" "k \<le> g_out g"
    using Cons.prems(1) by (auto simp: wf_gate_def)
  have "ev_gate g w i = ev_gate (rename_gate m g) v (m ! nat i)" if i: "in_range n i" for i
  proof (cases "i = g_out g")
    case True
    then show ?thesis using g Cons.prems(2)
      by (auto simp: ev_gate.simps rename_gate_def split: gate_type.splits)
  next
    case False
    then have "m ! nat i \<noteq> m ! nat (g_out g)" using assms(2) i g by blast
    with False show ?thesis using Cons.prems(2) i by (simp add: ev_gate.simps rename_gate_def)
  qed
  then show ?case using Cons.IH [of "ev_gate g w" "ev_gate (rename_gate m g) v"] Cons.prems(1)
    by (simp add: ev_def)
qed


definition gadget_ok :: "circuit \<Rightarrow> bool" where
  \<comment> \<open>a 512 to 256 circuit of the parser that never writes its own inputs\<close>
  "gadget_ok sha \<longleftrightarrow> wf_circuit sha \<and> gadget_shape_ok sha \<and> (\<forall>g \<in> set (c_gates sha). 512 \<le> g_out g)"

lemma gadget_ok_facts:
  assumes "gadget_ok sha"
  shows "c_n1 sha + c_n2 sha = 512" and "c_n3 sha = 256" and "512 \<le> c_num_wire sha" and "c_num_wire sha < 2 ^ 31"
    and "\<forall>g \<in> set (c_gates sha). wf_gate (c_num_wire sha) g \<and> 512 \<le> g_out g"
  using assms by (auto simp: gadget_ok_def wf_circuit_def gadget_shape_ok_def VALUE_BITS_def)

lemma map_nth_upto: "0 \<le> a \<Longrightarrow> b \<le> int (length m) \<Longrightarrow> take (nat b - nat a) (drop (nat a) m) = map (\<lambda>i. m ! nat i) [a..b - 1]"
  by (intro nth_equalityI) (auto simp: nat_add_distrib)

lemma apply_gadget_spec:
  assumes g: "gadget_ok sha" and b: "b_ok b" and bound: "b_next b + c_num_wire sha < 2 ^ 31 + 512"
    and inputs: "length inputs = 512" "\<forall>i \<in> set inputs. in_range (b_next b) i"
  shows "\<exists>outs b'. apply_gadget sha inputs b = Inr (outs, b') \<and> grows b b'
    \<and> b_next b' = b_next b + c_num_wire sha - 512
    \<and> length outs = 256 \<and> (\<forall>i \<in> set outs. in_range (b_next b') i)
    \<and> (\<forall>w. zero_from (b_next b) w \<longrightarrow> (\<forall>i \<in> set inputs. val b w i = 0 \<or> val b w i = 1) \<longrightarrow>
         map (val b' w) outs = out_bits sha (map (val b w) inputs))"
proof -
  note gf = gadget_ok_facts [OF g]
  let ?N = "c_num_wire sha"
  let ?k = "nat ?N - 512"
  let ?fresh = "[b_next b..b_next b + int ?k - 1]"
  define m where "m = inputs @ ?fresh"
  let ?b1 = "b\<lparr>b_next := b_next b + int ?k\<rparr>"
  define b' where "b' = ?b1\<lparr>b_gates := b_gates b @ map (rename_gate m) (c_gates sha)\<rparr>"
  define outs where "outs = map (\<lambda>i. m ! nat i) [?N - 256..?N - 1]"
  have next0: "0 \<le> b_next b" using b by (simp add: b_ok_def)
  have lenm: "int (length m) = ?N" and lenm': "length m < 2 ^ 31" using inputs gf by (auto simp: m_def)
  have m_low: "m ! nat i = inputs ! nat i" if "0 \<le> i" "i < 512" for i
  proof -
    have "nat i < length inputs" using that inputs by simp
    then show ?thesis by (simp add: m_def nth_append)
  qed
  have m_high: "m ! nat i = b_next b + (i - 512)" if "512 \<le> i" "i < ?N" for i
  proof -
    have "nat i - 512 < ?k" and "\<not> nat i < length inputs" using that inputs by auto
    then show ?thesis using that inputs by (simp add: m_def nth_append)
  qed
  have m_in: "in_range (b_next b) (m ! nat i)" if "0 \<le> i" "i < 512" for i
    using that inputs by (simp add: m_low)
  have m_rng: "in_range (b_next b') (m ! nat i)" if "in_range ?N i" for i
  proof (cases "i < 512")
    case True
    with that m_in [of i] show ?thesis by (auto simp: in_range_def b'_def)
  next
    case False
    with that m_high [of i] next0 gf show ?thesis by (auto simp: in_range_def b'_def)
  qed
  have nxt: "b_next b' = b_next b + ?N - 512" using gf by (simp add: b'_def)
  have wfr: "wf_gate (b_next b') (rename_gate m ge)" "b_next b \<le> g_out (rename_gate m ge)"
    if "ge \<in> set (c_gates sha)" for ge
  proof -
    have "wf_gate ?N ge" "512 \<le> g_out ge" using that gf by auto
    then have r: "in_range ?N (g_in0 ge)" "in_range ?N (g_out ge)" "g_typ ge \<noteq> Inv \<longrightarrow> in_range ?N (g_in1 ge)"
      and o: "512 \<le> g_out ge" "g_out ge < ?N" by (auto simp: wf_gate_def in_range_def)
    show "wf_gate (b_next b') (rename_gate m ge)"
      using r m_rng by (simp add: wf_gate_def rename_gate_def)
    show "b_next b \<le> g_out (rename_gate m ge)"
      using o m_high [of "g_out ge"] by (simp add: rename_gate_def)
  qed
  have grows: "grows b b'"
  proof -
    have nn: "b_next b \<le> b_next b'" "b_next b' < 2 ^ 31" using nxt bound gf by auto
    have "wf_gate (b_next b') ge" if "ge \<in> set (b_gates b)" for ge
      using b nn(1) that by (auto simp: b_ok_def intro: wf_gate_mono)
    moreover have gs: "b_gates b' = b_gates b @ map (rename_gate m) (c_gates sha)" by (simp add: b'_def)
    ultimately have "b_ok b'" using nn next0 wfr(1) unfolding b_ok_def gs by auto
    then show ?thesis unfolding grows_def using nn gs wfr(2) by auto
  qed
  have run: "apply_gadget sha inputs b = Inr (outs, b')"
  proof -
    have u: "usize_of_i32 (wrap32 (c_n1 sha + c_n2 sha)) = 512" "usize_of_i32 ?N = nat ?N"
      "usize_of_i32 (wrap32 (?N - c_n3 sha)) = nat (?N - 256)" "usize_of_i32 (c_n3 sha) = 256"
      using gf by (simp_all)
    have al: "collect (\<lambda>_. alloc) [512..<nat ?N] b = (?fresh, ?b1)"
      using collect_alloc_spec [of b "[512..<nat ?N]"] next0 bound gf by simp
    have mg: "foldR (map_gate m) (c_gates sha) ?b1 = Inr b'"
      using map_gates_wf [OF lenm', of "c_gates sha" ?b1] gf(5) lenm by (simp add: b'_def)
    have e: "(nat (?N - 256) + 256) mod 2 ^ 64 = nat ?N" using gf by simp
    have sl: "slice m (nat (?N - 256)) (nat ?N) = Inr outs"
      using map_nth_upto [of "?N - 256" ?N m] lenm gf by (auto simp: slice_def outs_def)
    have c: "(512 \<noteq> (512 :: nat)) = False" "(512 > nat ?N) = False" using gf by auto
    show ?thesis
      unfolding apply_gadget_def Let_def u inputs(1) c if_False al prod.case m_def [symmetric] mg bindR_simps e sl ..
  qed
  have vals: "map (val b' w) outs = out_bits sha (map (val b w) inputs)"
    if z: "zero_from (b_next b) w" and bits: "\<forall>i \<in> set inputs. val b w i = 0 \<or> val b w i = 1" for w
  proof -
    let ?w = "init_wires (map (val b w) inputs)"
    have start: "?w i = val b w (m ! nat i)" if "in_range ?N i" for i
    proof (cases "i < 512")
      case True
      with that inputs have "inputs ! nat i \<in> set inputs" by (intro nth_mem) (auto simp: in_range_def)
      with bits have "val b w (inputs ! nat i) AND 1 = val b w (inputs ! nat i)" by (auto)
      with True that inputs show ?thesis by (simp add: init_wires_def in_range_def m_low)
    next
      case False
      with that have "m ! nat i = b_next b + (i - 512)" by (intro m_high) (auto simp: in_range_def)
      with False b z inputs show ?thesis by (simp add: init_wires_def val_zero)
    qed
    have inj: "i = j" if "in_range ?N i" "in_range ?N j" "512 \<le> j" "m ! nat i = m ! nat j" for i j
    proof (cases "i < 512")
      case True
      with that m_in [of i] m_high [of j] show ?thesis by (auto simp: in_range_def)
    next
      case False
      with that m_high [of i] m_high [of j] show ?thesis by (auto simp: in_range_def)
    qed
    have "\<forall>i. in_range ?N i \<longrightarrow> ev (c_gates sha) ?w i = ev (map (rename_gate m) (c_gates sha)) (val b w) (m ! nat i)"
      by (rule ev_rename [where k = 512]) (use gf start inj in auto)
    moreover have "val b' w = ev (map (rename_gate m) (c_gates sha)) (val b w)"
      by (simp add: val_def b'_def ev_append)
    ultimately show ?thesis
      using gf by (auto simp: outs_def out_bits_def in_range_def)
  qed
  have "\<forall>i \<in> set outs. in_range (b_next b') i"
    using gf by (auto simp: outs_def in_range_def [of ?N] intro!: m_rng)
  moreover have "length outs = 256" by (simp add: outs_def)
  ultimately show ?thesis using run grows nxt vals by blast
qed

section \<open>The hash step\<close>

definition sha_gadget :: "(bytes \<Rightarrow> bytes) \<Rightarrow> circuit \<Rightarrow> bool" where
  \<comment> \<open>the gadget computes the hash of one padded 32-byte block\<close>
  "sha_gadget sha256 sha \<longleftrightarrow> gadget_ok sha \<and>
     (\<forall>v. wf_value v \<longrightarrow> wf_value (sha256 v) \<and>
        eval_bristol sha (to_bits_msb v @ to_bits_msb pad_bytes) = Inr (to_bits_msb (sha256 v)))"

definition holds :: "builder \<Rightarrow> (int \<Rightarrow> u8) \<Rightarrow> int list \<Rightarrow> value32 \<Rightarrow> bool" where
  \<comment> \<open>the wires \<open>p\<close> carry the bits of \<open>v\<close>\<close>
  "holds b w p v \<longleftrightarrow> wf_value v \<and> length p = VALUE_BITS \<and> (\<forall>i \<in> set p. in_range (b_next b) i)
     \<and> map (val b w) p = to_bits_msb v"

lemma holds_grows: "grows b b' \<Longrightarrow> holds b w p v \<Longrightarrow> holds b' w p v"
  by (auto simp: holds_def grows_vals intro: in_range_mono grows_next)

lemma to_bits_msb_01: "x \<in> set (to_bits_msb v) \<Longrightarrow> x = 0 \<or> x = 1"
  by (auto simp: to_bits_msb_def and_1_eq_of_bool)

lemma padding_bits_nth:
  "i < VALUE_BITS \<Longrightarrow> (if padding_bits ! i \<noteq> 0 then 1 else 0) = to_bits_msb pad_bytes ! i"
  by (simp add: padding_bits_def to_bits_msb_nth and_1_eq_of_bool)

lemma flip_bit_index_less: "k < INDEX_BITS \<Longrightarrow> flip_bit_index k < VALUE_BITS"
  by (auto simp: flip_bit_index_def msb_bit_index_def INDEX_BITS_def VALUE_BITS_def)

lemma flip_bit_wf: "wf_value v \<Longrightarrow> wf_value (flip_bit k v)"
  by (simp add: flip_bit_def wf_value_def)

lemma to_bits_msb_flip:
  assumes "wf_value v" and "k < INDEX_BITS"
  shows "to_bits_msb (flip_bit k v) = (to_bits_msb v)[flip_bit_index k := to_bits_msb v ! flip_bit_index k XOR 1]"
proof (rule nth_equalityI)
  show "length (to_bits_msb (flip_bit k v)) = length ((to_bits_msb v)[flip_bit_index k := to_bits_msb v ! flip_bit_index k XOR 1])"
    by simp
next
  fix i assume "i < length (to_bits_msb (flip_bit k v))"
  then have i: "i < VALUE_BITS" by simp
  define q where "q = k div 8" define r where "r = k mod 8"
  have k: "k = 8 * q + r" "r < 8" by (auto simp: q_def r_def)
  have idx: "flip_bit_index k = 8 * q + (7 - r)" by (simp add: flip_bit_index_def msb_bit_index_def q_def r_def)
  have q: "q < length v" using assms k by (auto simp: wf_value_def INDEX_BITS_def VALUE_BYTES_def)
  have "bit (push_bit r (1 :: u8)) (7 - i mod 8) \<longleftrightarrow> 7 - i mod 8 = r" using k by (auto simp: bit_simps)
  moreover have "i = 8 * q + (7 - r) \<longleftrightarrow> i div 8 = q \<and> 7 - i mod 8 = r"
  proof -
    obtain a c where i: "i = 8 * a + c" "c < 8" "i div 8 = a" "i mod 8 = c"
      by (metis mod_less_divisor mult_div_mod_eq zero_less_numeral)
    have "8 * a + c = 8 * q + (7 - r) \<longleftrightarrow> a = q \<and> 7 - c = r" 
    proof
      assume l: "8 * a + c = 8 * q + (7 - r)"
      then have "a = q" using i(2) k(2) by linarith
      then show "a = q \<and> 7 - c = r" using l k(2) by simp
    next
      assume "a = q \<and> 7 - c = r"
      then show "8 * a + c = 8 * q + (7 - r)" using i(2) by auto
    qed
    then show ?thesis unfolding i(3,4) using i(1) by simp
  qed
  ultimately have e: "bit (push_bit r (1 :: u8)) (7 - i mod 8) \<and> i div 8 = q \<longleftrightarrow> i = 8 * q + (7 - r)" by blast
  have lhs: "to_bits_msb (flip_bit k v) ! i =
      of_bool (bit (v ! (i div 8)) (7 - i mod 8) \<noteq> (i = 8 * q + (7 - r)))"
    using i q e by (auto simp: to_bits_msb_nth flip_bit_def nth_list_update q_def [symmetric] r_def [symmetric]
        and_1_eq_of_bool bit_drop_bit_eq bit_xor_iff)
  have "to_bits_msb v ! j = of_bool (bit (v ! (j div 8)) (7 - j mod 8))" if "j < VALUE_BITS" for j
    using that by (simp add: to_bits_msb_nth and_1_eq_of_bool bit_drop_bit_eq)
  with i flip_bit_index_less [OF assms(2)]
  show "to_bits_msb (flip_bit k v) ! i = (to_bits_msb v)[flip_bit_index k := to_bits_msb v ! flip_bit_index k XOR 1] ! i"
    unfolding lhs idx by (auto simp: nth_list_update)
qed

lemma out_bits_gadget:
  assumes "sha_gadget sha256 sha" and "wf_value v"
  shows "out_bits sha (to_bits_msb v @ to_bits_msb pad_bytes) = to_bits_msb (sha256 v)"
proof -
  have wf: "wf_circuit sha" and sh: "c_n1 sha + c_n2 sha = 512"
    using assms(1) gadget_ok_facts [of sha] by (auto simp: sha_gadget_def gadget_ok_def)
  have "eval_bristol sha (to_bits_msb v @ to_bits_msb pad_bytes) = Inr (to_bits_msb (sha256 v))"
    using assms by (simp add: sha_gadget_def)
  with eval_bristol_wf [OF wf] sh show ?thesis by (auto simp: VALUE_BITS_def split: if_splits)
qed

lemma hash_gates_spec:
  assumes g: "sha_gadget sha256 sha" and b: "b_ok b" and k: "k < INDEX_BITS"
    and bound: "b_next b + c_num_wire sha < 2 ^ 31"
    and c: "in_range (b_next b) c0" "in_range (b_next b) c1" "val b w c0 = 0" "val b w c1 = 1"
    and z: "zero_from (b_next b) w" and p: "holds b w p v"
  shows "\<exists>p' b'. hash_gates sha c0 c1 k p b = Inr (p', b') \<and> grows b b'
    \<and> b_next b' = b_next b + c_num_wire sha - 511 \<and> holds b' w p' (hash_step sha256 k v)"
proof -
  have gok: "gadget_ok sha" using g by (simp add: sha_gadget_def)
  note gf = gadget_ok_facts [OF gok]
  let ?idx = "flip_bit_index k"
  have idx: "?idx < length p" using k p by (simp add: flip_bit_index_less holds_def)
  have pidx: "in_range (b_next b) (p ! ?idx)" using idx p by (auto simp: holds_def)
  obtain b1 where b1: "inv_w (p ! ?idx) b = (b_next b, b1)" "b_next b1 = b_next b + 1" "grows b b1"
      "val b1 w (b_next b) = val b w (p ! ?idx) XOR 1"
    using inv_w_spec [OF b _ pidx] bound gf by auto
  let ?p = "p[?idx := b_next b]"
  let ?in = "?p @ map (\<lambda>i. if padding_bits ! i \<noteq> 0 then c1 else c0) [0..<VALUE_BITS]"
  have rng: "\<forall>i \<in> set ?in. in_range (b_next b1) i"
  proof -
    have "\<forall>i \<in> set ?p. in_range (b_next b1) i"
      using p b b1(2) by (auto simp: holds_def b_ok_def in_range_def dest!: set_update_subset_insert [THEN subsetD])
    then show ?thesis using c b1(2) by (auto intro: in_range_mono)
  qed
  have vp: "map (val b1 w) ?p = to_bits_msb (flip_bit k v)"
  proof -
    have "map (val b1 w) p = to_bits_msb v" using holds_grows [OF b1(3) p] by (simp add: holds_def)
    moreover have "val b w (p ! ?idx) = to_bits_msb v ! ?idx" using p idx by (metis holds_def nth_map)
    moreover have "wf_value v" using p by (simp add: holds_def)
    ultimately show ?thesis using b1(4) k by (simp add: map_update to_bits_msb_flip)
  qed
  have "val b1 w c0 = 0" "val b1 w c1 = 1" using c b1(3) by (auto simp: in_range_def grows_val)
  then have "map (\<lambda>i. val b1 w (if padding_bits ! i \<noteq> 0 then c1 else c0)) [0..<VALUE_BITS] = to_bits_msb pad_bytes"
    by (intro nth_equalityI) (auto simp: padding_bits_nth [symmetric])
  then have vin: "map (val b1 w) ?in = to_bits_msb (flip_bit k v) @ to_bits_msb pad_bytes"
    by (simp add: vp comp_def)
  have len: "length ?in = 512" using p by (simp add: holds_def VALUE_BITS_def)
  have wfv: "wf_value (flip_bit k v)" using p by (simp add: holds_def flip_bit_wf)
  have b01: "\<forall>i \<in> set ?in. val b1 w i = 0 \<or> val b1 w i = 1"
  proof
    fix i assume "i \<in> set ?in"
    then have "val b1 w i \<in> set (map (val b1 w) ?in)" unfolding set_map by (rule imageI)
    then show "val b1 w i = 0 \<or> val b1 w i = 1" unfolding vin using to_bits_msb_01 by auto
  qed
  obtain outs b2 where b2: "apply_gadget sha ?in b1 = Inr (outs, b2)" "grows b1 b2"
      "b_next b2 = b_next b1 + c_num_wire sha - 512" "length outs = 256" "\<forall>i \<in> set outs. in_range (b_next b2) i"
      "map (val b2 w) outs = out_bits sha (map (val b1 w) ?in)"
    using apply_gadget_spec [OF gok grows_ok [OF b1(3)] _ len rng] b01 bound b1(2) zero_from_grows [OF z b1(3)]
    by auto
  have "map (val b2 w) outs = to_bits_msb (sha256 (flip_bit k v))"
    unfolding b2(6) vin by (rule out_bits_gadget [OF g wfv])
  then have "holds b2 w outs (hash_step sha256 k v)"
    using b2 wfv g by (simp add: holds_def hash_step_def sha_gadget_def VALUE_BITS_def)
  moreover have "hash_gates sha c0 c1 k p b = Inr (outs, b2)"
    using idx p b1(1) b2(1) by (simp add: hash_gates_def Let_def holds_def)
  moreover have "b_next b2 = b_next b + c_num_wire sha - 511" using b2(3) b1(2) by simp
  ultimately show ?thesis using grows_trans [OF b1(3) b2(2)] by blast
qed

definition step_ready :: "(bytes \<Rightarrow> bytes) \<Rightarrow> circuit \<Rightarrow> int \<Rightarrow> int \<Rightarrow> (int \<Rightarrow> u8) \<Rightarrow> builder \<Rightarrow> builder \<Rightarrow> bool" where
  \<comment> \<open>a builder grown from \<open>b0\<close> with the two constant wires\<close>
  "step_ready sha256 sha c0 c1 w b0 b \<longleftrightarrow> sha_gadget sha256 sha \<and> grows b0 b \<and> in_range (b_next b) c0 \<and> in_range (b_next b) c1
     \<and> val b w c0 = 0 \<and> val b w c1 = 1 \<and> zero_from (b_next b) w"

interpretation circ: hash_builder sha256 "step_ready sha256 sha c0 c1 w b0" b_next "c_num_wire sha" "c_num_wire sha - 511" "2 ^ 31"
    "\<lambda>b p v. holds b w p v" "\<lambda>k (p, b). hash_gates sha c0 c1 k p b" "\<lambda>_. True"
  for sha256 sha c0 c1 w b0
proof unfold_locales
  fix b p v k
  assume r: "step_ready sha256 sha c0 c1 w b0 b" and p: "holds b w p v" and k: "k < INDEX_BITS" and bound: "b_next b + c_num_wire sha < 2 ^ 31"
  then obtain p' b' where b': "hash_gates sha c0 c1 k p b = Inr (p', b')" "grows b b'"
      "b_next b' = b_next b + c_num_wire sha - 511" "holds b' w p' (hash_step sha256 k v)"
    using hash_gates_spec [OF _ _ k bound _ _ _ _ _ p, of sha256 c0 c1] grows_ok [of b0 b] unfolding step_ready_def by blast
  moreover have "step_ready sha256 sha c0 c1 w b0 b'"
    using r b'(2) unfolding step_ready_def
    by (auto simp: in_range_def grows_val intro: grows_trans zero_from_grows dest: grows_next)
  ultimately show "\<exists>p' b'. (case (p, b) of (p, b) \<Rightarrow> hash_gates sha c0 c1 k p b) = Inr (p', b') \<and> step_ready sha256 sha c0 c1 w b0 b'
      \<and> b_next b' = b_next b + (c_num_wire sha - 511) \<and> holds b' w p' (hash_step sha256 k v) \<and> (\<forall>q u. holds b w q u \<longrightarrow> holds b' w q u) \<and> True"
    using holds_grows [OF b'(2)] by auto
next
  fix b assume "step_ready sha256 sha c0 c1 w b0 b"
  then have "512 \<le> c_num_wire sha" using gadget_ok_facts [of sha] by (auto simp: step_ready_def sha_gadget_def)
  then show "0 \<le> c_num_wire sha - 511 \<and> c_num_wire sha - 511 \<le> c_num_wire sha" by simp
qed

lemma hash_chain_spec:
  assumes g: "sha_gadget sha256 sha" and "b_ok b" and "\<forall>k \<in> set ks. k < INDEX_BITS"
    and "b_next b + int (length ks) * c_num_wire sha < 2 ^ 31"
    and "in_range (b_next b) c0" "in_range (b_next b) c1" "val b w c0 = 0" "val b w c1 = 1"
    and "zero_from (b_next b) w" and "holds b w p v"
  shows "\<exists>p' b'. hash_chain sha c0 c1 ks (p, b) = Inr (p', b') \<and> grows b b'
    \<and> b_next b' = b_next b + int (length ks) * (c_num_wire sha - 511)
    \<and> holds b' w p' (fold (hash_step sha256) ks v)"
  using circ.chain [of sha256 sha c0 c1 w b b p v ks] assms by (auto simp: step_ready_def hash_chain_def)

section \<open>The circuits compute the derivation\<close>

lemma builder_start:
  assumes "0 < ni" and "ni + 2 < 2 ^ 31"
  shows "\<exists>b0 b1. xor_w 0 0 (builder_new ni) = (ni, b0) \<and> inv_w ni b0 = (ni + 1, b1)
    \<and> b_next b1 = ni + 2 \<and> b_ok b1 \<and> (\<forall>w. val b1 w ni = 0 \<and> val b1 w (ni + 1) = 1 \<and> (\<forall>i < ni. val b1 w i = w i))"
proof -
  have ok: "b_ok (builder_new ni)" and n: "b_next (builder_new ni) = ni"
    and v: "val (builder_new ni) w i = w i" for w i
    using assms by (auto simp: b_ok_def builder_new_def val_def)
  obtain b0 where b0: "xor_w 0 0 (builder_new ni) = (ni, b0)" "b_next b0 = ni + 1" "grows (builder_new ni) b0"
      "\<forall>w. val b0 w ni = 0"
    using xor_w_spec [OF ok, of 0 0] assms n by (auto simp: in_range_def)
  obtain b1 where b1: "inv_w ni b0 = (ni + 1, b1)" "b_next b1 = ni + 2" "grows b0 b1"
      "\<forall>w. val b1 w (ni + 1) = 1"
    using inv_w_spec [OF grows_ok [OF b0(3)], of ni] assms b0 by (auto simp: in_range_def)
  have "val b1 w i = w i" if "i < ni" for w i
    using that b0(2,3) b1(3) n by (simp add: grows_val v)
  moreover have "val b1 w ni = 0" for w using b0 b1(3) by (simp add: grows_val)
  ultimately show ?thesis using b0(1) b1 grows_ok [OF b1(3)] by blast
qed

lemma circuit_finish:
  assumes b: "b_ok b" and p: "holds b w p v" and c0: "in_range (b_next b) c0" "val b w c0 = 0"
    and bound: "b_next b + 256 < 2 ^ 31" and w: "w = init_wires bits"
    and n: "0 \<le> i1" "0 \<le> i2" "i1 + i2 \<le> b_next b"
  shows "\<exists>ws b'. collect (\<lambda>wire. xor_w wire c0) (take VALUE_BITS p) b = (ws, b')
    \<and> wf_circuit (finish b' i1 i2 (int VALUE_BITS))
    \<and> out_bits (finish b' i1 i2 (int VALUE_BITS)) bits = to_bits_msb v"
proof -
  have len: "take VALUE_BITS p = p" "length p = 256" using p by (simp_all add: holds_def VALUE_BITS_def)
  obtain b' where b': "collect (\<lambda>wire. xor_w wire c0) p b = ([b_next b..b_next b + 255], b')"
      "b_next b' = b_next b + 256" "grows b b'"
      "map (val b' w) [b_next b..b_next b + 255] = map (\<lambda>x. val b w x XOR val b w c0) p"
    using collect_xor_spec [OF b, of p "\<lambda>x. x" "\<lambda>_. c0"] p c0 bound len by (auto simp: holds_def add.commute)
  have "wf_circuit (finish b' i1 i2 (int VALUE_BITS))"
    using grows_ok [OF b'(3)] b'(2) n by (auto simp: wf_circuit_def finish_def b_ok_def VALUE_BITS_def)
  moreover have "out_bits (finish b' i1 i2 (int VALUE_BITS)) bits = to_bits_msb v"
  proof -
    have "out_bits (finish b' i1 i2 (int VALUE_BITS)) bits = map (val b' w) [b_next b..b_next b + 255]"
      by (simp add: out_bits_def finish_def b'(2) val_def [abs_def] w VALUE_BITS_def add.commute)
    also have "\<dots> = map (val b w) p" by (simp add: b'(4) c0)
    also have "\<dots> = to_bits_msb v" using p by (simp add: holds_def)
    finally show ?thesis .
  qed
  ultimately show ?thesis using b'(1) len by auto
qed

lemma zero_from_init: "int (length bits) \<le> n \<Longrightarrow> zero_from n (init_wires bits)"
  by (auto simp: zero_from_def init_wires_def)

lemma init_wires_bits:
  "i < length bits \<Longrightarrow> \<forall>x \<in> set bits. x = 0 \<or> x = 1 \<Longrightarrow> init_wires bits (int i) = bits ! i"
proof -
  assume i: "i < length bits" and 01: "\<forall>x \<in> set bits. x = 0 \<or> x = 1"
  then have "bits ! i = 0 \<or> bits ! i = 1" using nth_mem by blast
  with i show ?thesis by (auto simp: init_wires_def)
qed

text \<open>The first wires of a derivation: the xor of the two parties' shares, or the chunk's input.\<close>

lemma seed_xor:
  assumes a: "wf_value a" and c: "wf_value c" and w: "w = init_wires (to_bits_msb a @ to_bits_msb c)"
    and b: "b_ok b" "b_next b = 514" "\<forall>i < 512. val b w i = w i"
  shows "\<exists>p b'. collect (\<lambda>i. xor_w (int i) (int VALUE_BITS + int i)) [0..<VALUE_BITS] b = (p, b')
    \<and> b_next b' = 770 \<and> grows b b' \<and> holds b' w p (combine a c)"
proof -
  let ?f = "\<lambda>i. int i" let ?h = "\<lambda>i. int VALUE_BITS + int i"
  obtain b' where b': "collect (\<lambda>i. xor_w (?f i) (?h i)) [0..<VALUE_BITS] b = ([514..769], b')"
      "b_next b' = 770" "grows b b'"
      "map (val b' w) [514..769] = map (\<lambda>x. val b w (?f x) XOR val b w (?h x)) [0..<VALUE_BITS]"
    using collect_xor_spec [OF b(1), of "[0..<VALUE_BITS]" ?f ?h] b(2) by (auto simp: VALUE_BITS_def in_range_def)
  have "val b w (?f x) XOR val b w (?h x) = to_bits_msb (combine a c) ! x" if x: "x < VALUE_BITS" for x
  proof -
    let ?bits = "to_bits_msb a @ to_bits_msb c"
    have 01: "\<forall>x \<in> set ?bits. x = 0 \<or> x = 1" using to_bits_msb_01 by auto
    have "w (int x) = to_bits_msb a ! x" "w (int VALUE_BITS + int x) = to_bits_msb c ! x"
      using init_wires_bits [OF _ 01, of x] init_wires_bits [OF _ 01, of "VALUE_BITS + x"] x
      by (auto simp: w nth_append)
    moreover have "val b w (int x) = w (int x)" "val b w (int VALUE_BITS + int x) = w (int VALUE_BITS + int x)"
      using b(3) x by (auto simp: VALUE_BITS_def)
    ultimately show ?thesis using x by (simp add: combine_def to_bits_msb_xor)
  qed
  then have "map (\<lambda>x. val b w (?f x) XOR val b w (?h x)) [0..<VALUE_BITS] = to_bits_msb (combine a c)"
    by (intro nth_equalityI) auto
  then have "holds b' w [514..769] (combine a c)"
    using b' by (auto simp: holds_def combine_def VALUE_BITS_def in_range_def)
  with b' show ?thesis by blast
qed

lemma seed_direct:
  assumes a: "wf_value a" and w: "w = init_wires (to_bits_msb a)"
    and b: "b_next b = 258" "\<forall>i < 256. val b w i = w i"
  shows "holds b w (map int [0..<VALUE_BITS]) a"
proof -
  have 01: "\<forall>x \<in> set (to_bits_msb a). x = 0 \<or> x = 1" using to_bits_msb_01 by auto
  have "val b w (int x) = to_bits_msb a ! x" if "x < VALUE_BITS" for x
    using that b(2) init_wires_bits [OF _ 01, of x] by (simp add: w VALUE_BITS_def)
  then have "map (val b w) (map int [0..<VALUE_BITS]) = to_bits_msb a" by (intro nth_equalityI) auto
  then show ?thesis using a b(1) by (auto simp: holds_def in_range_def VALUE_BITS_def)
qed

lemma foldR_if_filter:
  "foldR (\<lambda>x s. if P x then Inr s else f x s) xs s = foldR f (filter (\<lambda>x. \<not> P x) xs) s"
  by (induction xs arbitrary: s) (auto simp: bindR_def split: sum.splits)

lemma derivation_loop:
  "foldR (\<lambda>k (p, b). if drop_bit k index AND 1 = 0 then Inr (p, b) else hash_gates sha c0 c1 k p b)
     (rev [0..<INDEX_BITS]) = hash_chain sha c0 c1 (set_bits_desc index)"
proof -
  have e: "(\<lambda>k (p, b). if drop_bit k index AND 1 = 0 then Inr (p, b) else hash_gates sha c0 c1 k p b)
      = (\<lambda>k s. if drop_bit k index AND 1 = 0 then Inr s else (\<lambda>(p, b). hash_gates sha c0 c1 k p b) s)"
    by (auto simp: fun_eq_iff)
  show ?thesis
    unfolding e hash_chain_def set_bits_desc_eq fun_eq_iff foldR_if_filter
    by (simp add: drop_bit_and_1_zero)
qed

lemma length_set_bits_desc: "length (set_bits_desc i) \<le> 48"
  using length_filter_le [of "bit i" "rev [0..<INDEX_BITS]"] by (simp add: set_bits_desc_eq INDEX_BITS_def)

lemma derivation_circuit_run:
  assumes g: "sha_gadget sha256 sha" and nw: "c_num_wire sha \<le> 40000000" and i: "index \<le> MAX_INDEX"
    and a: "wf_value a" and c: "wf_value c"
  shows "\<exists>circ. build_derivation_circuit sha index = Inr circ \<and> wf_circuit circ
    \<and> c_n1 circ = 256 \<and> c_n2 circ = 256 \<and> c_n3 circ = 256
    \<and> out_bits circ (to_bits_msb a @ to_bits_msb c) = to_bits_msb (generate_from_seed sha256 (combine a c) index)"
proof -
  let ?bits = "to_bits_msb a @ to_bits_msb c" let ?ks = "set_bits_desc index"
  define w where "w = init_wires ?bits"
  have gf: "512 \<le> c_num_wire sha" using g gadget_ok_facts by (auto simp: sha_gadget_def)
  have sh: "gadget_shape_ok sha" using g by (simp add: sha_gadget_def gadget_ok_def)
  obtain b0 b1 where b1: "xor_w 0 0 (builder_new 512) = (512, b0)" "inv_w 512 b0 = (513, b1)"
    "b_next b1 = 514" "b_ok b1" "val b1 w 512 = 0" "val b1 w 513 = 1" "\<forall>i < 512. val b1 w i = w i"
    using builder_start [of 512] by auto
  obtain p b2 where b2: "collect (\<lambda>i. xor_w (int i) (int VALUE_BITS + int i)) [0..<VALUE_BITS] b1 = (p, b2)"
      "b_next b2 = 770" "grows b1 b2" "holds b2 w p (combine a c)"
    using seed_xor [OF a c w_def b1(4,3,7)] by auto
  have len: "int (length ?ks) * c_num_wire sha \<le> 48 * c_num_wire sha"
    using length_set_bits_desc gf by (intro mult_right_mono) auto
  have "\<exists>p' b'. hash_chain sha 512 513 ?ks (p, b2) = Inr (p', b') \<and> grows b2 b'
    \<and> b_next b' = b_next b2 + int (length ?ks) * (c_num_wire sha - 511)
    \<and> holds b' w p' (fold (hash_step sha256) ?ks (combine a c))"
  proof (rule hash_chain_spec [OF g grows_ok [OF b2(3)]])
    show "b_next b2 + int (length ?ks) * c_num_wire sha < 2 ^ 31" using b2(2) len nw by simp
    show "zero_from (b_next b2) w" unfolding w_def by (rule zero_from_init) (simp add: b2 VALUE_BITS_def)
    show "val b2 w 512 = 0" "val b2 w 513 = 1" using b1 b2(3) by (simp_all add: grows_val)
  qed (use b2 in \<open>auto simp: in_range_def\<close>)
  then obtain p' b3 where b3: "hash_chain sha 512 513 ?ks (p, b2) = Inr (p', b3)" "grows b2 b3"
      "b_next b3 = b_next b2 + int (length ?ks) * (c_num_wire sha - 511)"
      "holds b3 w p' (generate_from_seed sha256 (combine a c) index)"
    unfolding generate_from_seed_eq by blast
  have le: "b_next b3 \<le> 770 + 48 * c_num_wire sha"
    using b3(3) b2(2) len by (simp add: algebra_simps)
  have "\<exists>ws b'. collect (\<lambda>wire. xor_w wire 512) (take VALUE_BITS p') b3 = (ws, b')
    \<and> wf_circuit (finish b' 256 256 (int VALUE_BITS))
    \<and> out_bits (finish b' 256 256 (int VALUE_BITS)) ?bits = to_bits_msb (generate_from_seed sha256 (combine a c) index)"
  proof (rule circuit_finish [OF grows_ok [OF b3(2)] b3(4)])
    show "in_range (b_next b3) 512" using grows_next [OF b3(2)] b2(2) by (simp add: in_range_def)
    show "val b3 w 512 = 0" using b1 b2(2,3) b3(2) by (simp add: grows_val)
    show "b_next b3 + 256 < 2 ^ 31" using le nw by simp
    show "(256 :: int) + 256 \<le> b_next b3" using grows_next [OF b3(2)] b2(2) by simp
  qed (simp_all add: w_def)
  then obtain ws b4 where b4: "collect (\<lambda>wire. xor_w wire 512) (take VALUE_BITS p') b3 = (ws, b4)"
    "wf_circuit (finish b4 256 256 (int VALUE_BITS))"
    "out_bits (finish b4 256 256 (int VALUE_BITS)) ?bits = to_bits_msb (generate_from_seed sha256 (combine a c) index)"
    by blast
  have "build_derivation_circuit sha index = Inr (finish b4 256 256 (int VALUE_BITS))"
    using i sh b1(1,2) b2(1) b3(1) b4(1)
    by (simp add: build_derivation_circuit_def derivation_loop Let_def VALUE_BITS_def not_less)
  with b4 show ?thesis by (simp add: finish_def VALUE_BITS_def)
qed

lemma chunk_circuit_run:
  assumes g: "sha_gadget sha256 sha" and nw: "c_num_wire sha \<le> 40000000"
    and ks: "\<forall>k \<in> set ks. k < INDEX_BITS" "length ks \<le> 48"
    and a: "wf_value a" and c: "wf_value c"
    and bits: "bits = (if first then to_bits_msb a @ to_bits_msb c else to_bits_msb a)"
    and v: "v = (if first then combine a c else a)"
  shows "\<exists>circ. build_chunk_circuit sha ks first = Inr circ \<and> wf_circuit circ
    \<and> c_n1 circ = 256 \<and> c_n2 circ = (if first then 256 else 0) \<and> c_n3 circ = 256
    \<and> out_bits circ bits = to_bits_msb (fold (hash_step sha256) ks v)"
proof -
  define w where "w = init_wires bits"
  define ni where "ni = (if first then 512 else 256 :: int)"
  have gf: "512 \<le> c_num_wire sha" using g gadget_ok_facts by (auto simp: sha_gadget_def)
  have sh: "gadget_shape_ok sha" using g by (simp add: sha_gadget_def gadget_ok_def)
  have nib: "0 < ni" "ni + 2 < 2 ^ 31" by (simp_all add: ni_def)
  obtain b0 b1 where b1: "xor_w 0 0 (builder_new ni) = (ni, b0)" "inv_w ni b0 = (ni + 1, b1)"
    "b_next b1 = ni + 2" "b_ok b1" "val b1 w ni = 0" "val b1 w (ni + 1) = 1" "\<forall>i < ni. val b1 w i = w i"
    using builder_start [of ni] nib by blast
  have "\<exists>p b'. (if first then collect (\<lambda>i. xor_w (int i) (int VALUE_BITS + int i)) [0..<VALUE_BITS] b1
                 else (map int [0..<VALUE_BITS], b1)) = (p, b')
      \<and> b_next b' \<le> 770 \<and> ni + 2 \<le> b_next b' \<and> grows b1 b' \<and> holds b' w p v"
  proof (cases first)
    case True
    with b1 seed_xor [OF a c, of w b1] show ?thesis by (auto simp: ni_def w_def bits v)
  next
    case False
    with b1 seed_direct [OF a, of w b1] show ?thesis by (auto simp: ni_def w_def bits v)
  qed
  then obtain p b2 where b2: "(if first then collect (\<lambda>i. xor_w (int i) (int VALUE_BITS + int i)) [0..<VALUE_BITS] b1
                 else (map int [0..<VALUE_BITS], b1)) = (p, b2)"
      "b_next b2 \<le> 770" "ni + 2 \<le> b_next b2" "grows b1 b2" "holds b2 w p v" by blast
  have ni: "0 < ni" "int (length bits) = ni" by (simp_all add: ni_def bits VALUE_BITS_def)
  have len: "int (length ks) * c_num_wire sha \<le> 48 * c_num_wire sha"
    using ks(2) gf by (intro mult_right_mono) auto
  have "\<exists>p' b'. hash_chain sha ni (ni + 1) ks (p, b2) = Inr (p', b') \<and> grows b2 b'
    \<and> b_next b' = b_next b2 + int (length ks) * (c_num_wire sha - 511)
    \<and> holds b' w p' (fold (hash_step sha256) ks v)"
  proof (rule hash_chain_spec [OF g grows_ok [OF b2(4)] ks(1)])
    show "b_next b2 + int (length ks) * c_num_wire sha < 2 ^ 31" using b2(2) len nw by simp
    show "zero_from (b_next b2) w" unfolding w_def using ni b2 by (intro zero_from_init) simp
    show "val b2 w ni = 0" "val b2 w (ni + 1) = 1" using b1 b2(4) by (simp_all add: grows_val)
  qed (use b2 ni in \<open>auto simp: in_range_def\<close>)
  then obtain p' b3 where b3: "hash_chain sha ni (ni + 1) ks (p, b2) = Inr (p', b3)" "grows b2 b3"
      "b_next b3 = b_next b2 + int (length ks) * (c_num_wire sha - 511)"
      "holds b3 w p' (fold (hash_step sha256) ks v)"
    by blast
  have le: "b_next b3 \<le> 770 + 48 * c_num_wire sha" using b3(3) b2(2) len by (simp add: algebra_simps)
  let ?n2 = "if first then int VALUE_BITS else 0"
  have "\<exists>ws b'. collect (\<lambda>wire. xor_w wire ni) (take VALUE_BITS p') b3 = (ws, b')
    \<and> wf_circuit (finish b' 256 ?n2 (int VALUE_BITS))
    \<and> out_bits (finish b' 256 ?n2 (int VALUE_BITS)) bits = to_bits_msb (fold (hash_step sha256) ks v)"
  proof (rule circuit_finish [OF grows_ok [OF b3(2)] b3(4)])
    show "in_range (b_next b3) ni" using grows_next [OF b3(2)] b2(3) ni by (simp add: in_range_def)
    show "val b3 w ni = 0" using b1 b2(3,4) b3(2) by (simp add: grows_val)
    show "b_next b3 + 256 < 2 ^ 31" using le nw by simp
    show "256 + ?n2 \<le> b_next b3" using grows_next [OF b3(2)] b2(3) by (auto simp: ni_def VALUE_BITS_def)
  qed (simp_all add: w_def)
  then obtain ws b4 where b4: "collect (\<lambda>wire. xor_w wire ni) (take VALUE_BITS p') b3 = (ws, b4)"
    "wf_circuit (finish b4 256 ?n2 (int VALUE_BITS))"
    "out_bits (finish b4 256 ?n2 (int VALUE_BITS)) bits = to_bits_msb (fold (hash_step sha256) ks v)"
    by blast
  have nb: "builder_new (if first then 2 * int VALUE_BITS else int VALUE_BITS) = builder_new ni"
    by (simp add: ni_def VALUE_BITS_def)
  have "\<not> (\<exists>k \<in> set ks. k \<ge> INDEX_BITS)" using ks(1) by auto
  then have "build_chunk_circuit sha ks first = Inr (finish b4 256 ?n2 (int VALUE_BITS))"
    unfolding build_chunk_circuit_def Let_def nb b1(1,2) prod.case b2(1) b3(1) bindR_simps b4(1)
    using sh by (simp add: VALUE_BITS_def)
  with b4 show ?thesis by (simp add: finish_def VALUE_BITS_def)
qed

section \<open>Tiles\<close>

lemma tile_step_walk: "tile_step sha c0 c1 offset depth = tile_walk (\<lambda>k (p, b). hash_gates sha c0 c1 k p b) offset depth"
  by (simp add: fun_eq_iff tile_step_def tile_walk_def Let_def)

lemma tile_circuit_run:
  assumes g: "sha_gadget sha256 sha" and h: "1 \<le> h" "offset + h \<le> INDEX_BITS"
    and bound: "int (h * 2 ^ h) * c_num_wire sha + 256 * 2 ^ h + 258 < 2 ^ 31" and v: "wf_value v"
  shows "\<exists>circ. build_tile_circuit sha offset h = Inr circ \<and> wf_circuit circ
    \<and> c_n1 circ = 256 \<and> c_n2 circ = 0 \<and> c_n3 circ = 256 * 2 ^ h
    \<and> out_bits circ (to_bits_msb v) = concat (map (\<lambda>s. to_bits_msb (leaf_value sha256 offset v s)) [0..<2 ^ h])"
proof -
  define w where "w = init_wires (to_bits_msb v)"
  have gf: "512 \<le> c_num_wire sha" using g gadget_ok_facts by (auto simp: sha_gadget_def)
  have sh: "gadget_shape_ok sha" using g by (simp add: sha_gadget_def gadget_ok_def)
  have z: "zero_from 256 w" unfolding w_def by (rule zero_from_init) (simp add: VALUE_BITS_def)
  obtain b0 b1 where b1: "xor_w 0 0 (builder_new 256) = (256, b0)" "inv_w 256 b0 = (257, b1)"
    "b_next b1 = 258" "b_ok b1" "val b1 w 256 = 0" "val b1 w 257 = 1" "\<forall>i < 256. val b1 w i = w i"
    using builder_start [of 256] by auto
  let ?node = "(replicate (2 ^ h) [])[0 := map int [0..<VALUE_BITS]]"
  have "holds b1 w (map int [0..<VALUE_BITS]) v" by (rule seed_direct [OF v w_def b1(3,7)])
  then have inv1: "tree_inv (\<lambda>b p v. holds b w p v) sha256 offset (2 ^ h) v 1 1 (?node, b1)"
    using h by (intro tree_start) auto
  have r1: "step_ready sha256 sha 256 257 w b1 b1"
    using g b1 z by (auto simp: step_ready_def in_range_def intro: zero_from_mono)
  have "(0 :: int) \<le> 256 * 2 ^ h" by simp
  then have bnd1: "b_next b1 + int (h * 2 ^ h) * c_num_wire sha < 2 ^ 31"
    using bound unfolding b1(3) by linarith
  obtain node b2 where b2:
    "foldR (\<lambda>depth. foldR (tile_step sha 256 257 offset depth) [1..<2 ^ h]) [1..<Suc h] (?node, b1) = Inr (node, b2)"
    "step_ready sha256 sha 256 257 w b1 b2" "tree_inv (\<lambda>b p v. holds b w p v) sha256 offset (2 ^ h) v (Suc h) 1 (node, b2)"
    "258 \<le> b_next b2" "b_next b2 \<le> 258 + int (h * 2 ^ h) * c_num_wire sha"
    using circ.levels [OF h(2) r1 inv1 bnd1] unfolding b1(3) tile_step_walk by blast
  have ok2: "b_ok b2" and n2: "258 \<le> b_next b2" and z2: "val b2 w 256 = 0"
    using b2(2,4) by (auto simp: step_ready_def intro: grows_ok)
  have leaf: "\<And>t. t < 2 ^ h \<Longrightarrow> holds b2 w (node ! t) (leaf_value sha256 offset v t)"
    using circ.leaves(1) [OF b2(3)] .
  have len: "length node = 2 ^ h" using b2(3) by (simp add: tree_inv_def)
  let ?ps = "concat (map (take VALUE_BITS) node)"
  have take_id: "map (take VALUE_BITS) node = node"
    using leaf len by (intro nth_equalityI) (auto simp: holds_def)
  have sums: "sum_list (map length node) = 256 * 2 ^ h"
  proof -
    have "map length node = replicate (2 ^ h) 256"
      using leaf len by (intro nth_equalityI) (auto simp: holds_def VALUE_BITS_def)
    then show ?thesis by (simp add: sum_list_replicate)
  qed
  then have lenp: "length ?ps = 256 * 2 ^ h" by (simp only: take_id length_concat)
  have rng: "\<forall>x \<in> set ?ps. in_range (b_next b2) x"
    unfolding take_id using leaf len by (fastforce simp: holds_def in_set_conv_nth)
  have vals: "map (val b2 w) ?ps = concat (map (\<lambda>s. to_bits_msb (leaf_value sha256 offset v s)) [0..<2 ^ h])"
  proof -
    have "map (map (val b2 w)) node = map (\<lambda>s. to_bits_msb (leaf_value sha256 offset v s)) [0..<2 ^ h]"
      using leaf len by (intro nth_equalityI) (auto simp: holds_def)
    then show ?thesis unfolding take_id map_concat by simp
  qed
  have bnd: "b_next b2 + 256 * 2 ^ h < 2 ^ 31" using b2(5) bound by linarith
  obtain b3 where b3: "collect (\<lambda>wire. xor_w wire 256) ?ps b2 = ([b_next b2..b_next b2 + 256 * 2 ^ h - 1], b3)"
      "b_next b3 = b_next b2 + 256 * 2 ^ h" "grows b2 b3"
      "map (val b3 w) [b_next b2..b_next b2 + 256 * 2 ^ h - 1] = map (\<lambda>x. val b2 w x XOR val b2 w 256) ?ps"
    using collect_xor_spec [OF ok2, of ?ps "\<lambda>x. x" "\<lambda>_. 256"] rng bnd n2 unfolding lenp
    by (auto simp: in_range_def)
  let ?circ = "finish b3 (int VALUE_BITS) 0 (256 * 2 ^ h)"
  have pos: "(0 :: int) \<le> 256 * 2 ^ h" by simp
  have "build_tile_circuit sha offset h = Inr ?circ"
  proof -
    have nb: "builder_new (int VALUE_BITS) = builder_new 256" by (simp add: VALUE_BITS_def)
    have wr: "wrap32 (int (VALUE_BITS * 2 ^ h)) = 256 * 2 ^ h"
      using bnd n2 by (simp add: VALUE_BITS_def wrap32_def)
    have "\<not> (h < 1 \<or> h > INDEX_BITS)" "\<not> offset + h > INDEX_BITS" using h by auto
    then show ?thesis
      unfolding build_tile_circuit_def Let_def nb b1(1,2) prod.case Suc_eq_plus1 [symmetric] b2(1) bindR_simps b3(1) wr
      using sh by simp
  qed
  moreover have "wf_circuit ?circ"
  proof -
    have "256 \<le> b_next b3" "256 * 2 ^ h \<le> b_next b3" using b3(2) n2 pos by linarith+
    then show ?thesis
      using grows_ok [OF b3(3)] by (auto simp: wf_circuit_def finish_def b_ok_def VALUE_BITS_def)
  qed
  moreover have "out_bits ?circ (to_bits_msb v) = concat (map (\<lambda>s. to_bits_msb (leaf_value sha256 offset v s)) [0..<2 ^ h])"
  proof -
    have "out_bits ?circ (to_bits_msb v) = map (val b3 w) [b_next b2..b_next b2 + 256 * 2 ^ h - 1]"
      by (simp add: out_bits_def finish_def b3(2) val_def [abs_def] w_def)
    also have "\<dots> = map (val b2 w) ?ps" by (simp add: b3(4) z2)
    finally show ?thesis using vals by simp
  qed
  ultimately show ?thesis by (simp add: finish_def VALUE_BITS_def)
qed

section \<open>A small gadget\<close>

text \<open>The bitwise complement as a 512 to 256 circuit: an instance the hypotheses hold of.\<close>

definition not_gadget :: circuit where
  "not_gadget = \<lparr>c_num_wire = 768, c_n1 = 256, c_n2 = 256, c_n3 = 256,
     c_gates = map (\<lambda>i. \<lparr>g_typ = Inv, g_in0 = int i, g_in1 = - 1, g_out = 512 + int i\<rparr>) [0..<256]\<rparr>"

definition not_hash :: "bytes \<Rightarrow> bytes" where
  "not_hash v = map NOT v"

lemma ev_not_gates:
  "n \<le> 512 \<Longrightarrow> ev (map (\<lambda>i. \<lparr>g_typ = Inv, g_in0 = int i, g_in1 = - 1, g_out = 512 + int i\<rparr>) [0..<n]) w i
     = (if 512 \<le> i \<and> i < 512 + int n then w (i - 512) XOR 1 else w i)"
  by (induction n arbitrary: i) (auto simp: ev_snoc ev_gate.simps)

lemma nth_out_bits:
  "i < nat (c_n3 c) \<Longrightarrow> out_bits c bits ! i = ev (c_gates c) (init_wires bits) (c_num_wire c - c_n3 c + int i)"
  by (simp add: out_bits_def)

lemma not_gadget_wf: "gadget_ok not_gadget"
  by (auto simp: gadget_ok_def wf_circuit_def gadget_shape_ok_def not_gadget_def wf_gate_def in_range_def VALUE_BITS_def)

lemma sha_gadget_not: "sha_gadget not_hash not_gadget"
  unfolding sha_gadget_def
proof (intro conjI allI impI)
  show "gadget_ok not_gadget" by (rule not_gadget_wf)
  fix v assume v: "wf_value v"
  then show "wf_value (not_hash v)" by (simp add: not_hash_def wf_value_def)
  have wf: "wf_circuit not_gadget" using not_gadget_wf by (simp add: gadget_ok_def)
  let ?bits = "to_bits_msb v @ to_bits_msb pad_bytes"
  have "out_bits not_gadget ?bits = to_bits_msb (not_hash v)"
  proof (rule nth_equalityI)
    show "length (out_bits not_gadget ?bits) = length (to_bits_msb (not_hash v))"
      by (simp add: out_bits_def not_gadget_def VALUE_BITS_def)
    fix i assume "i < length (out_bits not_gadget ?bits)"
    then have i: "i < 256" by (simp add: out_bits_def not_gadget_def)
    have "to_bits_msb v ! i = 0 \<or> to_bits_msb v ! i = 1"
      using i by (intro to_bits_msb_01 [of _ v] nth_mem) (simp add: VALUE_BITS_def)
    then have "init_wires ?bits (int i) = to_bits_msb v ! i"
      using i by (auto simp: init_wires_def VALUE_BITS_def nth_append)
    then have "out_bits not_gadget ?bits ! i = to_bits_msb v ! i XOR 1"
      using i nth_out_bits [of i not_gadget ?bits] by (simp add: not_gadget_def ev_not_gates)
    moreover have "i div 8 < length v" using i v by (auto simp: wf_value_def VALUE_BYTES_def)
    ultimately show "out_bits not_gadget ?bits ! i = to_bits_msb (not_hash v) ! i"
      using i by (auto simp: to_bits_msb_nth VALUE_BITS_def not_hash_def and_1_eq_of_bool bit_simps)
  qed
  then show "eval_bristol not_gadget ?bits = Inr (to_bits_msb (not_hash v))"
    by (simp add: eval_bristol_wf [OF wf]) (simp add: not_gadget_def VALUE_BITS_def)
qed

section \<open>Properties of the builders\<close>

text \<open>C10: The derivation circuit is correct: for a gadget that computes the hash of one padded block, the
  builder succeeds on every 48-bit index, and evaluating the circuit on the two parties' shares gives the
  bits of the secret \<open>generate_from_seed\<close> derives at that index from the combined (xored) seed.\<close>
theorem derivation_circuit_correct:
  assumes g: "sha_gadget sha256 sha" and nw: "c_num_wire sha \<le> 40000000" and i: "index \<le> MAX_INDEX"
  shows "\<exists>c. build_derivation_circuit sha index = Inr c \<and> wf_circuit c \<and> check_chunk_circuit c = Inr ()
    \<and> (\<forall>a b. wf_value a \<and> wf_value b \<longrightarrow>
         eval_bristol c (to_bits_msb a @ to_bits_msb b) = Inr (to_bits_msb (generate_from_seed sha256 (combine a b) index)))"
proof -
  have z: "wf_value value_zero" by (simp add: value_zero_def wf_value_def)
  obtain c where c: "build_derivation_circuit sha index = Inr c" "wf_circuit c" "c_n1 c = 256" "c_n2 c = 256" "c_n3 c = 256"
    using derivation_circuit_run [OF g nw i z z] by blast
  have "eval_bristol c (to_bits_msb a @ to_bits_msb b) = Inr (to_bits_msb (generate_from_seed sha256 (combine a b) index))"
    if "wf_value a" "wf_value b" for a b
    using derivation_circuit_run [OF g nw i that] c by (auto simp: eval_bristol_wf VALUE_BITS_def)
  moreover have "check_chunk_circuit c = Inr ()" using c by (simp add: check_chunk_circuit_def VALUE_BITS_def)
  ultimately show ?thesis using c by blast
qed

theorem derivation_circuit_correct_witness:
  "\<exists>c. build_derivation_circuit not_gadget 5 = Inr c \<and>
     eval_bristol c (to_bits_msb value_zero @ to_bits_msb value_zero) = Inr (to_bits_msb (5 # replicate 31 0))"
proof -
  have "generate_from_seed not_hash (combine value_zero value_zero) 5 = 5 # replicate 31 0" by code_simp
  moreover have "wf_value value_zero" by (simp add: value_zero_def wf_value_def)
  moreover have "c_num_wire not_gadget \<le> 40000000" by (simp add: not_gadget_def)
  moreover have "(5 :: u64) \<le> MAX_INDEX" by (simp add: MAX_INDEX_eq)
  ultimately show ?thesis using derivation_circuit_correct [OF sha_gadget_not, of 5] by metis
qed

lemma split_concat:
  assumes "split_chain_bits index n = Inr gs"
  shows "concat gs = set_bits_desc index"
proof -
  have n: "0 < n" and i: "index \<le> MAX_INDEX" using assms by (auto simp: split_chain_bits_def split: if_splits)
  have "fold (push_group n) (set_bits_desc index) [[]] = gs" using assms split_chain_bits_eq [OF n i] by simp
  then show ?thesis using fold_push_group [OF n, of "[[]]" "set_bits_desc index"] by simp
qed

lemma split_groups:
  assumes "split_chain_bits index n = Inr (grp # grps)" "ks \<in> set (grp # grps)"
  shows "\<forall>k \<in> set ks. k < INDEX_BITS" "length ks \<le> 48"
proof -
  have conc: "concat (grp # grps) = set_bits_desc index" by (rule split_concat [OF assms(1)])
  then have "set ks \<subseteq> set (set_bits_desc index)" using assms(2) by (metis UN_upper set_concat)
  then show "\<forall>k \<in> set ks. k < INDEX_BITS" by auto
  have "length ks \<le> sum_list (map length (grp # grps))" using assms(2) by (intro member_le_sum_list) auto
  also have "\<dots> = length (set_bits_desc index)" by (simp only: length_concat [symmetric] conc)
  finally show "length ks \<le> 48" using length_set_bits_desc [of index] by linarith
qed

lemma hash_steps_wf:
  assumes "sha_gadget sha256 sha"
  shows "wf_value v \<Longrightarrow> wf_value (fold (hash_step sha256) ks v)"
  using assms by (induction ks arbitrary: v) (auto simp: hash_step_def flip_bit_wf sha_gadget_def)

lemma later_chunk:
  assumes g: "sha_gadget sha256 sha" and nw: "c_num_wire sha \<le> 40000000" and ks: "\<forall>k \<in> set ks. k < INDEX_BITS" "length ks \<le> 48"
  shows "\<exists>d. build_chunk_circuit sha ks False = Inr d \<and> check_chunk_circuit d = Inr () \<and>
    (\<forall>v. wf_value v \<longrightarrow> eval_bristol d (to_bits_msb v) = Inr (to_bits_msb (fold (hash_step sha256) ks v)))"
proof -
  have z: "wf_value value_zero" by (simp add: value_zero_def wf_value_def)
  note run = chunk_circuit_run [OF g nw ks _ z refl refl, of _ False, simplified]
  obtain d where d: "build_chunk_circuit sha ks False = Inr d" "wf_circuit d" "c_n1 d = 256" "c_n2 d = 0" "c_n3 d = 256"
    using run [of value_zero] z by auto
  have "eval_bristol d (to_bits_msb v) = Inr (to_bits_msb (fold (hash_step sha256) ks v))" if "wf_value v" for v
    using run [of v] that d by (auto simp: eval_bristol_wf VALUE_BITS_def)
  with d show ?thesis by (auto simp: check_chunk_circuit_def VALUE_BITS_def)
qed

lemma later_chunks:
  assumes g: "sha_gadget sha256 sha" and nw: "c_num_wire sha \<le> 40000000"
    and ks: "\<And>ks. ks \<in> set gs \<Longrightarrow> (\<forall>k \<in> set ks. k < INDEX_BITS) \<and> length ks \<le> 48"
  shows "\<exists>cs. mapR (\<lambda>ks. build_chunk_circuit sha ks False) gs = Inr cs \<and> (\<forall>d \<in> set cs. check_chunk_circuit d = Inr ())
    \<and> (\<forall>v. wf_value v \<longrightarrow> foldR eval_bristol cs (to_bits_msb v) = Inr (to_bits_msb (fold (hash_step sha256) (concat gs) v)))"
  using ks
proof (induction gs)
  case (Cons ks gs)
  have ks: "\<forall>k \<in> set ks. k < INDEX_BITS" "length ks \<le> 48" using Cons.prems [of ks] by simp_all
  have "\<exists>cs. mapR (\<lambda>ks. build_chunk_circuit sha ks False) gs = Inr cs \<and> (\<forall>d \<in> set cs. check_chunk_circuit d = Inr ())
    \<and> (\<forall>v. wf_value v \<longrightarrow> foldR eval_bristol cs (to_bits_msb v) = Inr (to_bits_msb (fold (hash_step sha256) (concat gs) v)))"
    by (rule Cons.IH) (rule Cons.prems, simp)
  with later_chunk [OF g nw ks] obtain d cs where "build_chunk_circuit sha ks False = Inr d" "check_chunk_circuit d = Inr ()"
    "\<forall>v. wf_value v \<longrightarrow> eval_bristol d (to_bits_msb v) = Inr (to_bits_msb (fold (hash_step sha256) ks v))"
    "mapR (\<lambda>ks. build_chunk_circuit sha ks False) gs = Inr cs" "\<forall>d \<in> set cs. check_chunk_circuit d = Inr ()"
    "\<forall>v. wf_value v \<longrightarrow> foldR eval_bristol cs (to_bits_msb v) = Inr (to_bits_msb (fold (hash_step sha256) (concat gs) v))"
    by auto
  then show ?case using hash_steps_wf [OF g] by auto
qed simp

text \<open>C22: Running the chain chunk by chunk is the whole derivation: for the groups \<open>split_chain_bits\<close> makes,
  the first chunk circuit (on both shares) and the later ones (each on the previous output) all build,
  pass the shape check, and their successive evaluation gives the bits of the derived secret.\<close>
theorem chunked_derivation_correct:
  assumes g: "sha_gadget sha256 sha" and nw: "c_num_wire sha \<le> 40000000"
    and split: "split_chain_bits index n = Inr (grp # grps)"
  shows "\<exists>c cs. build_chunk_circuit sha grp True = Inr c \<and> mapR (\<lambda>ks. build_chunk_circuit sha ks False) grps = Inr cs
    \<and> (\<forall>d \<in> set (c # cs). check_chunk_circuit d = Inr ())
    \<and> (\<forall>a b. wf_value a \<and> wf_value b \<longrightarrow>
         bindR (eval_bristol c (to_bits_msb a @ to_bits_msb b)) (foldR eval_bristol cs)
         = Inr (to_bits_msb (generate_from_seed sha256 (combine a b) index)))"
proof -
  have conc: "concat (grp # grps) = set_bits_desc index" by (rule split_concat [OF split])
  have ks: "\<forall>k \<in> set ks. k < INDEX_BITS" "length ks \<le> 48" if "ks \<in> set (grp # grps)" for ks
    using split_groups [OF split that] by simp_all
  from later_chunks [OF g nw, of grps] ks obtain cs where cs: "mapR (\<lambda>ks. build_chunk_circuit sha ks False) grps = Inr cs"
      "\<forall>d \<in> set cs. check_chunk_circuit d = Inr ()"
      "\<forall>v. wf_value v \<longrightarrow> foldR eval_bristol cs (to_bits_msb v) = Inr (to_bits_msb (fold (hash_step sha256) (concat grps) v))"
    by auto
  have z: "wf_value value_zero" by (simp add: value_zero_def wf_value_def)
  note run = chunk_circuit_run [OF g nw ks(1) ks(2) _ _ refl refl, of grp _ _ True, simplified]
  obtain c where c: "build_chunk_circuit sha grp True = Inr c" "wf_circuit c" "c_n1 c = 256" "c_n2 c = 256" "c_n3 c = 256"
    using run [OF z z] by auto
  have "bindR (eval_bristol c (to_bits_msb a @ to_bits_msb b)) (foldR eval_bristol cs)
         = Inr (to_bits_msb (generate_from_seed sha256 (combine a b) index))"
    if ab: "wf_value a" "wf_value b" for a b
  proof -
    have "eval_bristol c (to_bits_msb a @ to_bits_msb b) = Inr (to_bits_msb (fold (hash_step sha256) grp (combine a b)))"
      using run [OF ab] c by (auto simp: eval_bristol_wf VALUE_BITS_def)
    moreover have "wf_value (combine a b)" by (simp add: combine_def)
    ultimately show ?thesis using cs(3) hash_steps_wf [OF g]
      by (simp add: generate_from_seed_eq conc [symmetric])
  qed
  moreover have "check_chunk_circuit c = Inr ()" using c by (simp add: check_chunk_circuit_def VALUE_BITS_def)
  ultimately show ?thesis using c(1) cs(1,2) by auto
qed

theorem chunked_derivation_correct_witness:
  "\<exists>c cs. build_chunk_circuit not_gadget [3, 1] True = Inr c \<and> mapR (\<lambda>ks. build_chunk_circuit not_gadget ks False) [[0]] = Inr cs
    \<and> bindR (eval_bristol c (to_bits_msb value_zero @ to_bits_msb value_zero)) (foldR eval_bristol cs)
      = Inr (to_bits_msb (generate_from_seed not_hash (combine value_zero value_zero) 11))"
proof -
  have "split_chain_bits 11 2 = Inr ([3, 1] # [[0]])" by code_simp
  moreover have "wf_value value_zero" by (simp add: value_zero_def wf_value_def)
  moreover have "c_num_wire not_gadget \<le> 40000000" by (simp add: not_gadget_def)
  ultimately show ?thesis using chunked_derivation_correct [OF sha_gadget_not] by blast
qed

text \<open>C23: The tile circuit computes all leaves of its subtree: fed with a trunk value, it outputs, leaf by leaf in
  index order, the value derived along the bits of the leaf's number shifted to the tile's window (so leaf
  \<open>s\<close> of a tile over the seed at offset 0 is \<open>generate_from_seed\<close> at \<open>s\<close>).\<close>
theorem tile_circuit_correct:
  assumes g: "sha_gadget sha256 sha" and h: "1 \<le> h" "offset + h \<le> INDEX_BITS"
    and bound: "int (h * 2 ^ h) * c_num_wire sha + 256 * 2 ^ h + 258 < 2 ^ 31"
  shows "\<exists>c. build_tile_circuit sha offset h = Inr c \<and> wf_circuit c \<and> check_tile_circuit c h = Inr ()
    \<and> (\<forall>v. wf_value v \<longrightarrow> eval_bristol c (to_bits_msb v) =
         Inr (concat (map (\<lambda>s. to_bits_msb (leaf_value sha256 offset v s)) [0..<2 ^ h])))
    \<and> (\<forall>v s. leaf_value sha256 0 v s = generate_from_seed sha256 v (of_nat s))"
proof -
  have z: "wf_value value_zero" by (simp add: value_zero_def wf_value_def)
  obtain c where c: "build_tile_circuit sha offset h = Inr c" "wf_circuit c" "c_n1 c = 256" "c_n2 c = 0" "c_n3 c = 256 * 2 ^ h"
    using tile_circuit_run [OF g h bound z] by blast
  have "eval_bristol c (to_bits_msb v) = Inr (concat (map (\<lambda>s. to_bits_msb (leaf_value sha256 offset v s)) [0..<2 ^ h]))"
    if "wf_value v" for v
    using tile_circuit_run [OF g h bound that] c by (auto simp: eval_bristol_wf VALUE_BITS_def)
  moreover have "check_tile_circuit c h = Inr ()"
  proof -
    have lt: "256 * 2 ^ h < (2 :: int) ^ 31" using c(2) unfolding wf_circuit_def c(5) by linarith
    have "h < 64" using h by (simp add: INDEX_BITS_def)
    moreover have "\<not> 2 ^ 64 \<le> 256 * (2 :: nat) ^ h"
    proof -
      have "int (256 * 2 ^ h) < int (2 ^ 31)" using lt by simp
      then have "256 * (2 :: nat) ^ h < 2 ^ 31" by (simp only: of_nat_less_iff)
      then show ?thesis by simp
    qed
    moreover have "wrap32 (256 * 2 ^ h) = 256 * 2 ^ h" 
    proof (rule wrap32_id)
      have "(0 :: int) \<le> 256 * 2 ^ h" by simp
      then show "- (2 ^ 31) \<le> 256 * (2 :: int) ^ h" by (rule order_trans [rotated]) simp
    qed (rule lt)
    ultimately show ?thesis using c by (simp add: check_tile_circuit_def VALUE_BITS_def)
  qed
  ultimately show ?thesis using c by (auto simp: leaf_value_def generate_from_seed_eq)
qed

theorem tile_circuit_correct_witness:
  "\<exists>c. build_tile_circuit not_gadget 4 2 = Inr c \<and> check_tile_circuit c 2 = Inr () \<and>
     eval_bristol c (to_bits_msb value_zero) =
       Inr (concat (map (\<lambda>s. to_bits_msb (leaf_value not_hash 4 value_zero s)) [0, 1, 2, 3]))
     \<and> leaf_value not_hash 4 value_zero 3 = 48 # replicate 31 0"
proof -
  have "leaf_value not_hash 4 value_zero 3 = 48 # replicate 31 0" by code_simp
  moreover have "wf_value value_zero" by (simp add: value_zero_def wf_value_def)
  moreover have "[0..<2 ^ 2] = [0, 1, 2, 3 :: nat]" by (simp add: upt_rec)
  moreover have "int (2 * 2 ^ 2) * c_num_wire not_gadget + 256 * 2 ^ 2 + 258 < 2 ^ 31" by (simp add: not_gadget_def)
  moreover have "4 + 2 \<le> INDEX_BITS" by (simp add: INDEX_BITS_def)
  ultimately show ?thesis using tile_circuit_correct [OF sha_gadget_not, of 2 4] by auto
qed

end
