(* ===== verification/Mpc_Types.thy ===== *)
theory Mpc_Types
  imports Shachain_Types
begin

text \<open>
  The typed frames of the MPC protocol, \<open>shachain2pc-mpc-types\<close>: channels, message kinds, frames and the
  two session messages, their checks and their canonical decoding. The protobuf codec is the crate
  \<open>prost\<close> with generated code; it is the parameter \<open>codec\<close> (one encoder and one decoder per message),
  of which the properties assume only that decoding inverts encoding (\<open>codec_ok\<close>).
\<close>

section \<open>Codes\<close>

definition PROTOCOL_VERSION :: u32 where
  "PROTOCOL_VERSION = 1"

definition MAX_JOB_ID_BYTES :: nat where
  "MAX_JOB_ID_BYTES = 64"

definition FRAME_FLAG_OPTIONAL_KIND :: u32 where
  "FRAME_FLAG_OPTIONAL_KIND = push_bit 0 1"

definition SUPPORTED_FRAME_FLAGS :: u32 where
  "SUPPORTED_FRAME_FLAGS = FRAME_FLAG_OPTIONAL_KIND"

datatype logical_channel = MainCh | SiblingCh

datatype mpc_type_error =
    Decode string
  | UnsupportedVersion u32
  | EmptyJobId
  | JobIdTooLong nat
  | BadRole u32
  | BadChannel u32
  | UnsupportedFlags u32
  | UnknownMandatoryKind u32
  | UnknownOptionalWithoutFlag
  | NonCanonicalFrame

fun hex_digits :: "nat \<Rightarrow> string" where
  \<comment> \<open>\<open>{:x}\<close>\<close>
  "hex_digits n = (if n < 16 then [''0123456789abcdef'' ! n] else hex_digits (n div 16) @ [''0123456789abcdef'' ! (n mod 16)])"

declare hex_digits.simps [simp del]

fun show_mpc_type_error :: "mpc_type_error \<Rightarrow> string" where
  "show_mpc_type_error (Decode e) = ''failed to decode MPC frame: '' @ e"
| "show_mpc_type_error (UnsupportedVersion v) = ''unsupported MPC protocol version '' @ dec_string (unat v)"
| "show_mpc_type_error EmptyJobId = ''MPC frame job_id must not be empty''"
| "show_mpc_type_error (JobIdTooLong n) = ''MPC frame job_id is too long: '' @ dec_string n"
| "show_mpc_type_error (BadRole r) = ''bad MPC sender role code '' @ dec_string (unat r)"
| "show_mpc_type_error (BadChannel c) = ''bad MPC logical channel code '' @ dec_string (unat c)"
| "show_mpc_type_error (UnsupportedFlags f) = ''unsupported MPC frame flags 0x'' @ hex_digits (unat f)"
| "show_mpc_type_error (UnknownMandatoryKind k) = ''unknown mandatory MPC message kind '' @ dec_string (unat k)"
| "show_mpc_type_error UnknownOptionalWithoutFlag =
     ''unknown optional MPC message kind is missing its optional flag''"
| "show_mpc_type_error NonCanonicalFrame = ''MPC frame is not canonically encoded''"

definition channel_from_code :: "u32 \<Rightarrow> mpc_type_error + logical_channel" where
  "channel_from_code code = (if code = 1 then Inr MainCh else if code = 2 then Inr SiblingCh else Inl (BadChannel code))"

fun channel_code :: "logical_channel \<Rightarrow> u32" where
  "channel_code MainCh = 1"
| "channel_code SiblingCh = 2"

datatype message_kind =
    KSessionStart
  | KSessionStartAck
  | KInputAuthRequest
  | KInputAuthResponse
  | KProgramRunRequest
  | KProgramRunResponse
  | KCotCheckRequest
  | KCotCheckResponse
  | KRevealRequest
  | KRevealResponse
  | KAbort
  | KUnknownOptional u32

definition kind_from_code :: "u32 \<Rightarrow> u32 \<Rightarrow> mpc_type_error + message_kind" where
  "kind_from_code code flags =
     (if code = 1 then Inr KSessionStart
      else if code = 2 then Inr KSessionStartAck
      else if code = 3 then Inr KInputAuthRequest
      else if code = 4 then Inr KInputAuthResponse
      else if code = 5 then Inr KProgramRunRequest
      else if code = 6 then Inr KProgramRunResponse
      else if code = 7 then Inr KCotCheckRequest
      else if code = 8 then Inr KCotCheckResponse
      else if code = 9 then Inr KRevealRequest
      else if code = 10 then Inr KRevealResponse
      else if code = 11 then Inr KAbort
      else if flags AND FRAME_FLAG_OPTIONAL_KIND \<noteq> 0 then Inr (KUnknownOptional code)
      else Inl (UnknownMandatoryKind code))"

fun kind_code :: "message_kind \<Rightarrow> u32" where
  "kind_code KSessionStart = 1"
| "kind_code KSessionStartAck = 2"
| "kind_code KInputAuthRequest = 3"
| "kind_code KInputAuthResponse = 4"
| "kind_code KProgramRunRequest = 5"
| "kind_code KProgramRunResponse = 6"
| "kind_code KCotCheckRequest = 7"
| "kind_code KCotCheckResponse = 8"
| "kind_code KRevealRequest = 9"
| "kind_code KRevealResponse = 10"
| "kind_code KAbort = 11"
| "kind_code (KUnknownOptional code) = code"

fun role_code :: "role \<Rightarrow> u32" where
  "role_code Alice = 1"
| "role_code Bob = 2"

definition role_from_code :: "u32 \<Rightarrow> mpc_type_error + role" where
  "role_from_code code = (if code = 1 then Inr Alice else if code = 2 then Inr Bob else Inl (BadRole code))"

section \<open>Frames\<close>

record mpc_frame =
  f_job_id :: bytes
  f_sender_role :: role
  f_channel :: logical_channel
  f_sequence :: u64
  f_kind :: message_kind
  f_payload :: bytes
  f_flags :: u32

record proto_frame =
  p_protocol_version :: u32
  p_job_id :: bytes
  p_sender_role :: u32
  p_channel :: u32
  p_sequence :: u64
  p_message_kind :: u32
  p_payload :: bytes
  p_flags :: u32

record session_start =
  ss_ssp :: u32
  ss_circuit_digest :: bytes
  ss_job_binding :: bytes

record session_start_ack =
  sa_transcript_binding :: bytes

record codec =
  enc_frame :: "proto_frame \<Rightarrow> bytes"
  dec_frame :: "bytes \<Rightarrow> string + proto_frame"
  enc_start :: "session_start \<Rightarrow> bytes"
  dec_start :: "bytes \<Rightarrow> string + session_start"
  enc_ack :: "session_start_ack \<Rightarrow> bytes"
  dec_ack :: "bytes \<Rightarrow> string + session_start_ack"

definition validate_job_id :: "bytes \<Rightarrow> mpc_type_error + unit" where
  "validate_job_id job_id =
     (if job_id = [] then Inl EmptyJobId
      else if length job_id > MAX_JOB_ID_BYTES then Inl (JobIdTooLong (length job_id)) else Inr ())"

definition validate_flags :: "u32 \<Rightarrow> mpc_type_error + unit" where
  "validate_flags flags = (if flags AND NOT SUPPORTED_FRAME_FLAGS \<noteq> 0 then Inl (UnsupportedFlags flags) else Inr ())"

fun is_unknown_optional :: "message_kind \<Rightarrow> bool" where
  "is_unknown_optional (KUnknownOptional _) = True"
| "is_unknown_optional _ = False"

definition frame_validate :: "mpc_frame \<Rightarrow> mpc_type_error + unit" where
  "frame_validate f =
     bindR (validate_job_id (f_job_id f)) (\<lambda>_. bindR (validate_flags (f_flags f)) (\<lambda>_.
       if is_unknown_optional (f_kind f) \<and> f_flags f AND FRAME_FLAG_OPTIONAL_KIND = 0
       then Inl UnknownOptionalWithoutFlag else Inr ()))"

definition frame_new ::
  "bytes \<Rightarrow> role \<Rightarrow> logical_channel \<Rightarrow> u64 \<Rightarrow> message_kind \<Rightarrow> bytes \<Rightarrow> mpc_type_error + mpc_frame" where
  "frame_new job_id sender_role channel sequence kind payload =
     (let flags = (if is_unknown_optional kind then FRAME_FLAG_OPTIONAL_KIND else 0);
          f = \<lparr>f_job_id = job_id, f_sender_role = sender_role, f_channel = channel, f_sequence = sequence,
               f_kind = kind, f_payload = payload, f_flags = flags\<rparr>
      in bindR (frame_validate f) (\<lambda>_. Inr f))"

definition frame_to_proto :: "mpc_frame \<Rightarrow> proto_frame" where
  "frame_to_proto f = \<lparr>p_protocol_version = PROTOCOL_VERSION, p_job_id = f_job_id f,
     p_sender_role = role_code (f_sender_role f), p_channel = channel_code (f_channel f),
     p_sequence = f_sequence f, p_message_kind = kind_code (f_kind f), p_payload = f_payload f, p_flags = f_flags f\<rparr>"

definition frame_from_proto :: "proto_frame \<Rightarrow> mpc_type_error + mpc_frame" where
  "frame_from_proto p =
     (if p_protocol_version p \<noteq> PROTOCOL_VERSION then Inl (UnsupportedVersion (p_protocol_version p))
      else bindR (validate_job_id (p_job_id p)) (\<lambda>_.
           bindR (validate_flags (p_flags p)) (\<lambda>_.
           bindR (role_from_code (p_sender_role p)) (\<lambda>sender_role.
           bindR (channel_from_code (p_channel p)) (\<lambda>channel.
           bindR (kind_from_code (p_message_kind p) (p_flags p)) (\<lambda>kind.
           let f = \<lparr>f_job_id = p_job_id p, f_sender_role = sender_role, f_channel = channel,
                    f_sequence = p_sequence p, f_kind = kind, f_payload = p_payload p, f_flags = p_flags p\<rparr>
           in bindR (frame_validate f) (\<lambda>_. Inr f)))))))"

definition frame_encode :: "codec \<Rightarrow> mpc_frame \<Rightarrow> mpc_type_error + bytes" where
  "frame_encode cd f = bindR (frame_validate f) (\<lambda>_. Inr (enc_frame cd (frame_to_proto f)))"

definition frame_decode :: "codec \<Rightarrow> bytes \<Rightarrow> mpc_type_error + mpc_frame" where
  "frame_decode cd bs =
     bindR (mapErr Decode (dec_frame cd bs)) (\<lambda>p.
     bindR (frame_from_proto p) (\<lambda>f.
     bindR (frame_encode cd f) (\<lambda>canonical.
       if canonical \<noteq> bs then Inl NonCanonicalFrame else Inr f)))"

definition start_encode :: "codec \<Rightarrow> session_start \<Rightarrow> bytes" where
  "start_encode cd s = enc_start cd s"

definition start_decode :: "codec \<Rightarrow> bytes \<Rightarrow> mpc_type_error + session_start" where
  "start_decode cd bs = bindR (mapErr Decode (dec_start cd bs)) (\<lambda>s.
     if start_encode cd s \<noteq> bs then Inl NonCanonicalFrame else Inr s)"

definition ack_encode :: "codec \<Rightarrow> session_start_ack \<Rightarrow> bytes" where
  "ack_encode cd a = enc_ack cd a"

definition ack_decode :: "codec \<Rightarrow> bytes \<Rightarrow> mpc_type_error + session_start_ack" where
  "ack_decode cd bs = bindR (mapErr Decode (dec_ack cd bs)) (\<lambda>a.
     if ack_encode cd a \<noteq> bs then Inl NonCanonicalFrame else Inr a)"

definition codec_ok :: "codec \<Rightarrow> bool" where
  \<comment> \<open>what the code relies on of the protobuf codec\<close>
  "codec_ok cd \<longleftrightarrow> (\<forall>p. dec_frame cd (enc_frame cd p) = Inr p) \<and> (\<forall>s. dec_start cd (enc_start cd s) = Inr s)
     \<and> (\<forall>a. dec_ack cd (enc_ack cd a) = Inr a)"

section \<open>Frame lemmas\<close>

lemma role_from_code_code [simp]: "role_from_code (role_code r) = Inr r"
  by (cases r) (auto simp: role_from_code_def)

lemma channel_from_code_code [simp]: "channel_from_code (channel_code c) = Inr c"
  by (cases c) (auto simp: channel_from_code_def)

text \<open>A kind whose code is one of the assigned ones is not an unknown one: the frames of the wire.\<close>

fun kind_canonical :: "message_kind \<Rightarrow> bool" where
  "kind_canonical (KUnknownOptional c) = (c = 0 \<or> 11 < c)"
| "kind_canonical _ = True"

lemma kind_from_code_code:
  assumes "kind_canonical k" and "is_unknown_optional k \<Longrightarrow> fl AND FRAME_FLAG_OPTIONAL_KIND \<noteq> 0"
  shows "kind_from_code (kind_code k) fl = Inr k"
proof (cases k)
  case (KUnknownOptional c)
  have "\<not> (1 \<le> c \<and> c \<le> 11)" using assms(1) KUnknownOptional by auto
  then have "c \<noteq> 1 \<and> c \<noteq> 2 \<and> c \<noteq> 3 \<and> c \<noteq> 4 \<and> c \<noteq> 5 \<and> c \<noteq> 6 \<and> c \<noteq> 7 \<and> c \<noteq> 8 \<and> c \<noteq> 9 \<and> c \<noteq> 10 \<and> c \<noteq> 11"
    by auto
  with assms(2) KUnknownOptional show ?thesis by (simp add: kind_from_code_def)
qed (simp_all add: kind_from_code_def)

lemma kind_from_code_canonical:
  assumes "kind_from_code c fl = Inr k"
  shows "kind_canonical k" and "kind_code k = c"
proof -
  have small: "c = 0 \<or> c = 1 \<or> c = 2 \<or> c = 3 \<or> c = 4 \<or> c = 5 \<or> c = 6 \<or> c = 7 \<or> c = 8 \<or> c = 9 \<or> c = 10 \<or> c = 11 \<or> 11 < c"
  proof -
    have "unat c = 0 \<or> unat c = 1 \<or> unat c = 2 \<or> unat c = 3 \<or> unat c = 4 \<or> unat c = 5 \<or> unat c = 6 \<or> unat c = 7
      \<or> unat c = 8 \<or> unat c = 9 \<or> unat c = 10 \<or> unat c = 11 \<or> 11 < unat c" by arith
    then show ?thesis by (auto simp: word_less_nat_alt word_unat_eq_iff)
  qed
  show "kind_canonical k"
    using assms small by (auto simp: kind_from_code_def split: if_splits)
  show "kind_code k = c" using assms by (auto simp: kind_from_code_def split: if_splits)
qed

lemma role_from_code_Inr: "role_from_code c = Inr r \<Longrightarrow> role_code r = c"
  by (auto simp: role_from_code_def split: if_splits)

lemma channel_from_code_Inr: "channel_from_code c = Inr r \<Longrightarrow> channel_code r = c"
  by (auto simp: channel_from_code_def split: if_splits)

lemma frame_from_to_proto:
  assumes "frame_validate f = Inr ()" and "kind_canonical (f_kind f)"
  shows "frame_from_proto (frame_to_proto f) = Inr f"
proof -
  have v: "validate_job_id (f_job_id f) = Inr ()" "validate_flags (f_flags f) = Inr ()"
    "is_unknown_optional (f_kind f) \<Longrightarrow> f_flags f AND FRAME_FLAG_OPTIONAL_KIND \<noteq> 0"
    using assms(1) by (auto simp: frame_validate_def bindR_eq_Inr split: if_splits)
  show ?thesis
    using assms v kind_from_code_code [OF assms(2) v(3)]
    by (cases f) (simp add: frame_from_proto_def frame_to_proto_def Let_def)
qed

lemma frame_to_from_proto:
  assumes "frame_from_proto p = Inr f"
  shows "frame_to_proto f = p" and "frame_validate f = Inr ()" and "kind_canonical (f_kind f)"
proof -
  from assms obtain r c k where
    "p_protocol_version p = PROTOCOL_VERSION" "role_from_code (p_sender_role p) = Inr r"
    "channel_from_code (p_channel p) = Inr c" and k: "kind_from_code (p_message_kind p) (p_flags p) = Inr k"
    and f: "f = \<lparr>f_job_id = p_job_id p, f_sender_role = r, f_channel = c, f_sequence = p_sequence p,
       f_kind = k, f_payload = p_payload p, f_flags = p_flags p\<rparr>" and v: "frame_validate f = Inr ()"
    by (auto simp: frame_from_proto_def bindR_eq_Inr Let_def split: if_splits)
  then show "frame_to_proto f = p" and "frame_validate f = Inr ()" and "kind_canonical (f_kind f)"
    using kind_from_code_canonical [OF k]
    by (cases p; auto simp: frame_to_proto_def dest: role_from_code_Inr channel_from_code_Inr)+
qed

lemma frame_decode_Inr:
  assumes "frame_decode cd bs = Inr f"
  shows "frame_encode cd f = Inr bs" and "kind_canonical (f_kind f)" and "frame_validate f = Inr ()"
  using assms
  by (auto simp: frame_decode_def bindR_eq_Inr frame_encode_def dest: frame_to_from_proto split: if_splits)

lemma frame_decode_encode:
  assumes "codec_ok cd" and "frame_encode cd f = Inr bs" and "kind_canonical (f_kind f)"
  shows "frame_decode cd bs = Inr f"
  using assms frame_from_to_proto [of f]
  by (auto simp: frame_decode_def frame_encode_def bindR_eq_Inr codec_ok_def)

lemma start_decode_encode [simp]: "codec_ok cd \<Longrightarrow> start_decode cd (start_encode cd s) = Inr s"
  by (simp add: start_decode_def start_encode_def codec_ok_def)

lemma ack_decode_encode [simp]: "codec_ok cd \<Longrightarrow> ack_decode cd (ack_encode cd a) = Inr a"
  by (simp add: ack_decode_def ack_encode_def codec_ok_def)

lemma start_decode_Inr: "start_decode cd bs = Inr s \<Longrightarrow> bs = start_encode cd s"
  by (auto simp: start_decode_def bindR_eq_Inr split: if_splits)

lemma ack_decode_Inr: "ack_decode cd bs = Inr a \<Longrightarrow> bs = ack_encode cd a"
  by (auto simp: ack_decode_def bindR_eq_Inr split: if_splits)

section \<open>A concrete codec\<close>

text \<open>An executable codec with the assumed law: fixed-width little-endian fields, then the byte strings.\<close>

fun enc_bytes :: "bytes \<Rightarrow> bytes" where
  "enc_bytes [] = [0]"
| "enc_bytes (b # bs) = 1 # b # enc_bytes bs"

fun dec_bytes :: "bytes \<Rightarrow> (bytes \<times> bytes) option" where
  "dec_bytes (t # b # bs) = (if t = 0 then Some ([], b # bs) else map_option (\<lambda>(v, r). (b # v, r)) (dec_bytes bs))"
| "dec_bytes [t] = (if t = 0 then Some ([], []) else None)"
| "dec_bytes [] = None"

lemma dec_enc_bytes [simp]: "dec_bytes (enc_bytes v @ r) = Some (v, r)"
proof (induction v)
  case Nil
  then show ?case by (cases r) auto
qed auto

lemma dec_enc_bytes_all [simp]: "dec_bytes (enc_bytes v) = Some (v, [])"
  using dec_enc_bytes [of v "[]"] by simp

definition plain_codec :: codec where
  "plain_codec = \<lparr>
     enc_frame = (\<lambda>p. le_bytes 4 (p_protocol_version p) @ le_bytes 4 (p_sender_role p) @ le_bytes 4 (p_channel p)
        @ le_bytes 8 (p_sequence p) @ le_bytes 4 (p_message_kind p) @ le_bytes 4 (p_flags p)
        @ enc_bytes (p_job_id p) @ enc_bytes (p_payload p)),
     dec_frame = (\<lambda>bs. case dec_bytes (drop 28 bs) of None \<Rightarrow> Inl ''job''
        | Some (job, r) \<Rightarrow> (case dec_bytes r of None \<Rightarrow> Inl ''payload''
        | Some (payload, _) \<Rightarrow> Inr \<lparr>p_protocol_version = word_of_le (take 4 bs), p_job_id = job,
            p_sender_role = word_of_le (take 4 (drop 4 bs)), p_channel = word_of_le (take 4 (drop 8 bs)),
            p_sequence = word_of_le (take 8 (drop 12 bs)), p_message_kind = word_of_le (take 4 (drop 20 bs)),
            p_payload = payload, p_flags = word_of_le (take 4 (drop 24 bs))\<rparr>)),
     enc_start = (\<lambda>s. le_bytes 4 (ss_ssp s) @ enc_bytes (ss_circuit_digest s) @ enc_bytes (ss_job_binding s)),
     dec_start = (\<lambda>bs. case dec_bytes (drop 4 bs) of None \<Rightarrow> Inl ''digest''
        | Some (d, r) \<Rightarrow> (case dec_bytes r of None \<Rightarrow> Inl ''binding''
        | Some (b, _) \<Rightarrow> Inr \<lparr>ss_ssp = word_of_le (take 4 bs), ss_circuit_digest = d, ss_job_binding = b\<rparr>)),
     enc_ack = (\<lambda>a. enc_bytes (sa_transcript_binding a)),
     dec_ack = (\<lambda>bs. case dec_bytes bs of None \<Rightarrow> Inl ''ack'' | Some (b, _) \<Rightarrow> Inr \<lparr>sa_transcript_binding = b\<rparr>)\<rparr>"

lemma plain_codec_ok: "codec_ok plain_codec"
  by (simp add: codec_ok_def plain_codec_def word_of_le_le_bytes)

section \<open>Properties of frames\<close>

text \<open>C39: Frames have one encoding: whatever bytes the decoder accepts, re-encoding the decoded frame gives
  back those bytes, and the frame has a job id of 1 to 64 bytes and no unsupported flag; and every valid
  frame (whose unknown kind, if any, is not one of the assigned codes) decodes from its encoding.\<close>
theorem frame_decoding_canonical:
  assumes "codec_ok cd"
  shows "(frame_decode cd bs = Inr f \<longrightarrow> frame_encode cd f = Inr bs \<and> f_job_id f \<noteq> []
           \<and> length (f_job_id f) \<le> MAX_JOB_ID_BYTES \<and> f_flags f AND NOT SUPPORTED_FRAME_FLAGS = 0)
    \<and> (frame_encode cd g = Inr cs \<and> kind_canonical (f_kind g) \<longrightarrow> frame_decode cd cs = Inr g)"
proof -
  have "f_job_id f \<noteq> [] \<and> length (f_job_id f) \<le> MAX_JOB_ID_BYTES \<and> f_flags f AND NOT SUPPORTED_FRAME_FLAGS = 0"
    if "frame_validate f = Inr ()"
    using that by (auto simp: frame_validate_def bindR_eq_Inr validate_job_id_def validate_flags_def split: if_splits)
  then show ?thesis
    using frame_decode_Inr [of cd bs f] frame_decode_encode [OF assms, of g cs] by blast
qed

theorem frame_decoding_canonical_witness:
  "\<exists>bs. frame_encode plain_codec \<lparr>f_job_id = [9], f_sender_role = Bob, f_channel = MainCh, f_sequence = 5,
        f_kind = KAbort, f_payload = [3], f_flags = 0\<rparr> = Inr bs
    \<and> frame_decode plain_codec bs = Inr \<lparr>f_job_id = [9], f_sender_role = Bob, f_channel = MainCh, f_sequence = 5,
        f_kind = KAbort, f_payload = [3], f_flags = 0\<rparr>"
proof -
  let ?f = "\<lparr>f_job_id = [9], f_sender_role = Bob, f_channel = MainCh, f_sequence = 5, f_kind = KAbort, f_payload = [3], f_flags = 0\<rparr>"
  have "frame_encode plain_codec ?f = Inr (enc_frame plain_codec (frame_to_proto ?f))"
    by (simp add: frame_encode_def frame_validate_def validate_job_id_def validate_flags_def MAX_JOB_ID_BYTES_def)
  then show ?thesis
    using frame_decoding_canonical [OF plain_codec_ok, of "[]" ?f ?f "enc_frame plain_codec (frame_to_proto ?f)"] by auto
qed

end
