(* ===== verification/Channel_Flow.thy ===== *)
theory Channel_Flow
  imports Mpc_Types
begin

text \<open>
  The frame sequencing and session handshake of \<open>shachain2pc-mpc-core\<close> (\<open>channel_flow.rs\<close>): one
  \<open>ChannelFlow\<close> per logical channel and side, its checks on outgoing and incoming frames, the sticky
  abort, and the session start and acknowledgement. A failed step carries the state it leaves, as
  \<open>StepError\<close> does.
\<close>

section \<open>State and errors\<close>

record channel_flow =
  cf_job_id :: bytes
  cf_local_role :: role
  cf_channel :: logical_channel
  next_send :: u64
  next_recv :: u64
  aborted :: bool

datatype core_error =
    Aborted
  | JobMismatch
  | WrongChannelForPhase logical_channel logical_channel
  | RoleMismatch role role
  | ChannelMismatch logical_channel logical_channel
  | SequenceMismatch u64 u64
  | UnexpectedMessageKind message_kind message_kind
  | SessionParameterMismatch string
  | SessionAckMismatch
  | Frame string

fun debug_channel :: "logical_channel \<Rightarrow> string" where
  "debug_channel MainCh = ''Main''"
| "debug_channel SiblingCh = ''Sibling''"

fun debug_role :: "role \<Rightarrow> string" where
  "debug_role Alice = ''Alice''"
| "debug_role Bob = ''Bob''"

fun debug_kind :: "message_kind \<Rightarrow> string" where
  "debug_kind KSessionStart = ''SessionStart''"
| "debug_kind KSessionStartAck = ''SessionStartAck''"
| "debug_kind KInputAuthRequest = ''InputAuthRequest''"
| "debug_kind KInputAuthResponse = ''InputAuthResponse''"
| "debug_kind KProgramRunRequest = ''ProgramRunRequest''"
| "debug_kind KProgramRunResponse = ''ProgramRunResponse''"
| "debug_kind KCotCheckRequest = ''CotCheckRequest''"
| "debug_kind KCotCheckResponse = ''CotCheckResponse''"
| "debug_kind KRevealRequest = ''RevealRequest''"
| "debug_kind KRevealResponse = ''RevealResponse''"
| "debug_kind KAbort = ''Abort''"
| "debug_kind (KUnknownOptional c) = ''UnknownOptional('' @ dec_string (unat c) @ '')''"

fun show_core_error :: "core_error \<Rightarrow> string" where
  "show_core_error Aborted = ''MPC job is aborted''"
| "show_core_error JobMismatch = ''MPC frame job id does not match this state''"
| "show_core_error (WrongChannelForPhase e g) =
     ''MPC phase channel mismatch: expected '' @ debug_channel e @ '', got '' @ debug_channel g"
| "show_core_error (RoleMismatch e g) =
     ''MPC frame role mismatch: expected '' @ debug_role e @ '', got '' @ debug_role g"
| "show_core_error (ChannelMismatch e g) =
     ''MPC frame channel mismatch: expected '' @ debug_channel e @ '', got '' @ debug_channel g"
| "show_core_error (SequenceMismatch e g) =
     ''MPC frame sequence mismatch: expected '' @ dec_string (unat e) @ '', got '' @ dec_string (unat g)"
| "show_core_error (UnexpectedMessageKind e g) =
     ''MPC frame kind mismatch: expected '' @ debug_kind e @ '', got '' @ debug_kind g"
| "show_core_error (SessionParameterMismatch f) = ''MPC session parameter mismatch in '' @ f"
| "show_core_error SessionAckMismatch = ''MPC session-start ack mismatch''"
| "show_core_error (Frame e) = ''invalid MPC frame: '' @ e"

type_synonym step_error = "channel_flow \<times> core_error"

definition flow_new :: "bytes \<Rightarrow> role \<Rightarrow> logical_channel \<Rightarrow> channel_flow" where
  "flow_new job_id local_role channel = \<lparr>cf_job_id = job_id, cf_local_role = local_role, cf_channel = channel,
     next_send = 0, next_recv = 0, aborted = False\<rparr>"

definition flow_abort :: "channel_flow \<Rightarrow> channel_flow" where
  "flow_abort flow = flow\<lparr>aborted := True\<rparr>"

definition aborting_error :: "channel_flow \<Rightarrow> core_error \<Rightarrow> step_error" where
  "aborting_error flow e = (flow_abort flow, e)"

fun opposite_role :: "role \<Rightarrow> role" where
  "opposite_role Alice = Bob"
| "opposite_role Bob = Alice"

section \<open>Frames in and out\<close>

definition accept_outbound :: "channel_flow \<Rightarrow> mpc_frame \<Rightarrow> step_error + (channel_flow \<times> mpc_frame)" where
  "accept_outbound flow frame =
     (if aborted flow then Inl (flow, Aborted)
      else if f_job_id frame \<noteq> cf_job_id flow then Inl (aborting_error flow JobMismatch)
      else if f_sender_role frame \<noteq> cf_local_role flow
        then Inl (aborting_error flow (RoleMismatch (cf_local_role flow) (f_sender_role frame)))
      else if f_channel frame \<noteq> cf_channel flow
        then Inl (aborting_error flow (ChannelMismatch (cf_channel flow) (f_channel frame)))
      else if f_sequence frame \<noteq> next_send flow
        then Inl (aborting_error flow (SequenceMismatch (next_send flow) (f_sequence frame)))
      else Inr (flow\<lparr>next_send := sat_add (next_send flow) 1\<rparr>, frame))"

definition outbound_frame :: "channel_flow \<Rightarrow> message_kind \<Rightarrow> bytes \<Rightarrow> step_error + (channel_flow \<times> mpc_frame)" where
  "outbound_frame flow kind payload =
     (if aborted flow then Inl (flow, Aborted)
      else bindR (mapErr (\<lambda>e. (flow, Frame (show_mpc_type_error e)))
                    (frame_new (cf_job_id flow) (cf_local_role flow) (cf_channel flow) (next_send flow) kind payload))
             (accept_outbound flow))"

definition accept_inbound :: "channel_flow \<Rightarrow> mpc_frame \<Rightarrow> step_error + (channel_flow \<times> mpc_frame)" where
  "accept_inbound flow frame =
     (if aborted flow then Inl (flow, Aborted)
      else if f_job_id frame \<noteq> cf_job_id flow then Inl (aborting_error flow JobMismatch)
      else if f_sender_role frame = cf_local_role flow
        then Inl (aborting_error flow (RoleMismatch (opposite_role (cf_local_role flow)) (f_sender_role frame)))
      else if f_channel frame \<noteq> cf_channel flow
        then Inl (aborting_error flow (ChannelMismatch (cf_channel flow) (f_channel frame)))
      else if f_sequence frame \<noteq> next_recv flow
        then Inl (aborting_error flow (SequenceMismatch (next_recv flow) (f_sequence frame)))
      else Inr (flow\<lparr>next_recv := sat_add (next_recv flow) 1\<rparr>, frame))"

section \<open>The session handshake\<close>

record session_params =
  sp_ssp :: u32
  sp_circuit_digest :: bytes
  sp_job_binding :: bytes

definition params_to_start :: "session_params \<Rightarrow> session_start" where
  "params_to_start p = \<lparr>ss_ssp = sp_ssp p, ss_circuit_digest = sp_circuit_digest p, ss_job_binding = sp_job_binding p\<rparr>"

definition params_from_start :: "session_start \<Rightarrow> session_params" where
  "params_from_start s = \<lparr>sp_ssp = ss_ssp s, sp_circuit_digest = ss_circuit_digest s, sp_job_binding = ss_job_binding s\<rparr>"

definition ascii :: "string \<Rightarrow> bytes" where
  \<comment> \<open>a byte string literal\<close>
  "ascii s = map of_char s"

definition SESSION_ACK_DOMAIN :: bytes where
  "SESSION_ACK_DOMAIN = ascii ''shachain2pc-mpc-core/session-start-ack/v1''"

definition len_prefixed :: "bytes \<Rightarrow> bytes" where
  "len_prefixed bs = le_bytes 8 (of_nat (length bs) :: u64) @ bs"

definition ack_preimage :: "bytes \<Rightarrow> role \<Rightarrow> session_params \<Rightarrow> bytes" where
  \<comment> \<open>what \<open>session_start_ack\<close> feeds its hasher, in order\<close>
  "ack_preimage job_id sender_role params =
     SESSION_ACK_DOMAIN @ len_prefixed job_id @ [party_id sender_role] @ le_bytes 4 (sp_ssp params)
     @ len_prefixed (sp_circuit_digest params) @ len_prefixed (sp_job_binding params)"

definition session_start_ack_of :: "(bytes \<Rightarrow> bytes) \<Rightarrow> bytes \<Rightarrow> role \<Rightarrow> session_params \<Rightarrow> session_start_ack" where
  "session_start_ack_of sha256 job_id sender_role params =
     \<lparr>sa_transcript_binding = sha256 (ack_preimage job_id sender_role params)\<rparr>"

definition require_main :: "channel_flow \<Rightarrow> step_error + channel_flow" where
  "require_main flow = (if cf_channel flow \<noteq> MainCh
     then Inl (aborting_error flow (WrongChannelForPhase MainCh (cf_channel flow))) else Inr flow)"

definition require_kind :: "channel_flow \<Rightarrow> mpc_frame \<Rightarrow> message_kind \<Rightarrow> step_error + channel_flow" where
  "require_kind flow frame expected = (if f_kind frame \<noteq> expected
     then Inl (aborting_error flow (UnexpectedMessageKind expected (f_kind frame))) else Inr flow)"

definition compare_session_params :: "channel_flow \<Rightarrow> session_params \<Rightarrow> session_params \<Rightarrow> step_error + channel_flow" where
  "compare_session_params flow expected got =
     (if sp_ssp expected \<noteq> sp_ssp got then Inl (aborting_error flow (SessionParameterMismatch ''ssp''))
      else if sp_circuit_digest expected \<noteq> sp_circuit_digest got
        then Inl (aborting_error flow (SessionParameterMismatch ''circuit_digest''))
      else if sp_job_binding expected \<noteq> sp_job_binding got
        then Inl (aborting_error flow (SessionParameterMismatch ''job_binding''))
      else Inr flow)"

definition send_session_start :: "codec \<Rightarrow> channel_flow \<Rightarrow> session_params \<Rightarrow> step_error + (channel_flow \<times> mpc_frame)" where
  "send_session_start cd flow params =
     bindR (require_main flow) (\<lambda>flow. outbound_frame flow KSessionStart (start_encode cd (params_to_start params)))"

definition receive_session_start_and_ack ::
  "codec \<Rightarrow> (bytes \<Rightarrow> bytes) \<Rightarrow> channel_flow \<Rightarrow> session_params \<Rightarrow> mpc_frame \<Rightarrow> step_error + (channel_flow \<times> mpc_frame)" where
  "receive_session_start_and_ack cd sha256 flow expected frame =
     bindR (require_main flow) (\<lambda>flow.
     bindR (accept_inbound flow frame) (\<lambda>(flow, frame).
     bindR (require_kind flow frame KSessionStart) (\<lambda>flow.
     bindR (mapErr (\<lambda>e. aborting_error flow (Frame (show_mpc_type_error e))) (start_decode cd (f_payload frame))) (\<lambda>start.
     bindR (compare_session_params flow expected (params_from_start start)) (\<lambda>flow.
       let ack = session_start_ack_of sha256 (cf_job_id flow) (cf_local_role flow) expected
       in outbound_frame flow KSessionStartAck (ack_encode cd ack))))))"

definition receive_session_start_ack ::
  "codec \<Rightarrow> (bytes \<Rightarrow> bytes) \<Rightarrow> channel_flow \<Rightarrow> session_params \<Rightarrow> mpc_frame \<Rightarrow> step_error + channel_flow" where
  "receive_session_start_ack cd sha256 flow expected frame =
     bindR (require_main flow) (\<lambda>flow.
     bindR (accept_inbound flow frame) (\<lambda>(flow, frame).
     bindR (require_kind flow frame KSessionStartAck) (\<lambda>flow.
     bindR (mapErr (\<lambda>e. aborting_error flow (Frame (show_mpc_type_error e))) (ack_decode cd (f_payload frame))) (\<lambda>ack.
       if ack \<noteq> session_start_ack_of sha256 (cf_job_id flow) (f_sender_role frame) expected
       then Inl (aborting_error flow SessionAckMismatch) else Inr flow))))"

section \<open>Steps and runs\<close>

text \<open>
  The life of a flow: the frames it is asked to send and the frames that arrive, in any order, each
  either taken (the flow moves on) or refused (the flow keeps the state of the error).
\<close>

datatype flow_event = EvOut mpc_frame | EvIn mpc_frame | EvSend message_kind bytes

definition event_step :: "channel_flow \<Rightarrow> flow_event \<Rightarrow> step_error + (channel_flow \<times> mpc_frame)" where
  "event_step flow e = (case e of EvOut f \<Rightarrow> accept_outbound flow f | EvIn f \<Rightarrow> accept_inbound flow f
     | EvSend k pl \<Rightarrow> outbound_frame flow k pl)"

definition after :: "step_error + (channel_flow \<times> 'a) \<Rightarrow> channel_flow" where
  "after r = (case r of Inl (flow, _) \<Rightarrow> flow | Inr (flow, _) \<Rightarrow> flow)"

inductive flow_step :: "channel_flow \<Rightarrow> flow_event \<Rightarrow> mpc_frame option \<Rightarrow> channel_flow \<Rightarrow> bool" where
  taken: "event_step flow e = Inr (flow', f) \<Longrightarrow> flow_step flow e (Some f) flow'"
| refused: "event_step flow e = Inl (flow', err) \<Longrightarrow> flow_step flow e None flow'"

inductive_cases flow_stepE: "flow_step flow e r flow'"

inductive flow_run :: "channel_flow \<Rightarrow> mpc_frame list \<Rightarrow> mpc_frame list \<Rightarrow> channel_flow \<Rightarrow> bool" where
  \<comment> \<open>the frames taken as incoming and as outgoing along a run\<close>
  start: "flow_run flow [] [] flow"
| step_in: "flow_run flow ins outs flow1 \<Longrightarrow> flow_step flow1 (EvIn f) (Some g) flow2 \<Longrightarrow> flow_run flow (ins @ [g]) outs flow2"
| step_out: "flow_run flow ins outs flow1 \<Longrightarrow> flow_step flow1 e (Some g) flow2 \<Longrightarrow> e = EvOut f \<or> e = EvSend k pl \<Longrightarrow>
    flow_run flow ins (outs @ [g]) flow2"
| step_refused: "flow_run flow ins outs flow1 \<Longrightarrow> flow_step flow1 e None flow2 \<Longrightarrow> flow_run flow ins outs flow2"

section \<open>Lemmas of the flow\<close>

lemma accept_inbound_Inr:
  "accept_inbound flow f = Inr (flow', g) \<longleftrightarrow> \<not> aborted flow \<and> g = f \<and> f_job_id f = cf_job_id flow
     \<and> f_sender_role f \<noteq> cf_local_role flow \<and> f_channel f = cf_channel flow \<and> f_sequence f = next_recv flow
     \<and> flow' = flow\<lparr>next_recv := sat_add (next_recv flow) 1\<rparr>"
  by (auto simp: accept_inbound_def)

lemma accept_outbound_Inr:
  "accept_outbound flow f = Inr (flow', g) \<longleftrightarrow> \<not> aborted flow \<and> g = f \<and> f_job_id f = cf_job_id flow
     \<and> f_sender_role f = cf_local_role flow \<and> f_channel f = cf_channel flow \<and> f_sequence f = next_send flow
     \<and> flow' = flow\<lparr>next_send := sat_add (next_send flow) 1\<rparr>"
  by (auto simp: accept_outbound_def)

lemma frame_new_Inr:
  "frame_new j r c s k pl = Inr f \<Longrightarrow> f_job_id f = j \<and> f_sender_role f = r \<and> f_channel f = c \<and> f_sequence f = s
     \<and> f_kind f = k \<and> f_payload f = pl \<and> frame_validate f = Inr ()"
  by (auto simp: frame_new_def bindR_eq_Inr Let_def)

lemma outbound_frame_Inr:
  assumes "outbound_frame flow k pl = Inr (flow', g)"
  shows "\<not> aborted flow" "f_job_id g = cf_job_id flow" "f_sender_role g = cf_local_role flow" "f_channel g = cf_channel flow"
    "f_sequence g = next_send flow" "f_kind g = k" "f_payload g = pl" "frame_validate g = Inr ()"
    "flow' = flow\<lparr>next_send := sat_add (next_send flow) 1\<rparr>"
  using assms
  by (auto simp: outbound_frame_def bindR_eq_Inr accept_outbound_Inr dest: frame_new_Inr split: if_splits)

text \<open>A frame of the flow's own making is never refused, so sending fails only on an aborted flow or a bad job id.\<close>

lemma outbound_frame_ok:
  assumes "\<not> aborted flow" and "cf_job_id flow \<noteq> []" and "length (cf_job_id flow) \<le> MAX_JOB_ID_BYTES"
  shows "\<exists>g. outbound_frame flow k pl = Inr (flow\<lparr>next_send := sat_add (next_send flow) 1\<rparr>, g)"
  using assms
  by (auto simp: outbound_frame_def frame_new_def frame_validate_def validate_job_id_def validate_flags_def
      Let_def accept_outbound_def SUPPORTED_FRAME_FLAGS_def FRAME_FLAG_OPTIONAL_KIND_def)

lemma event_step_Inl:
  assumes "event_step flow e = Inl (flow', err)"
  shows "aborted flow' \<or> flow' = flow" and "aborted flow \<Longrightarrow> flow' = flow \<and> err = Aborted"
    and "cf_job_id flow' = cf_job_id flow" "cf_local_role flow' = cf_local_role flow" "cf_channel flow' = cf_channel flow"
    "next_send flow' = next_send flow" "next_recv flow' = next_recv flow"
  using assms
  by (auto simp: event_step_def accept_inbound_def accept_outbound_def outbound_frame_def aborting_error_def flow_abort_def
      bindR_eq_Inl mapErr_def split: flow_event.splits if_splits sum.splits)

definition in_order :: "bytes \<Rightarrow> role \<Rightarrow> logical_channel \<Rightarrow> mpc_frame list \<Rightarrow> bool" where
  \<comment> \<open>the frames of one job, role and channel numbered from 0 (saturating at the \<open>u64\<close> maximum)\<close>
  "in_order j r c fs \<longleftrightarrow> (\<forall>i < length fs. f_job_id (fs ! i) = j \<and> f_sender_role (fs ! i) = r \<and> f_channel (fs ! i) = c
     \<and> unat (f_sequence (fs ! i)) = min i (2 ^ 64 - 1))"

lemma in_order_snoc:
  "in_order j r c (fs @ [f]) \<longleftrightarrow> in_order j r c fs \<and> f_job_id f = j \<and> f_sender_role f = r \<and> f_channel f = c
     \<and> unat (f_sequence f) = min (length fs) (2 ^ 64 - 1)"
  by (auto simp: in_order_def nth_append less_Suc_eq)

lemma role_other: "r \<noteq> r' \<longleftrightarrow> r = opposite_role r'"
  by (cases r; cases r') auto

lemma flow_run_inv:
  assumes "flow_run flow ins outs flow'"
    and "in_order (cf_job_id flow) (opposite_role (cf_local_role flow)) (cf_channel flow) [] \<and> next_recv flow = 0 \<and> next_send flow = 0"
  shows "cf_job_id flow' = cf_job_id flow \<and> cf_local_role flow' = cf_local_role flow \<and> cf_channel flow' = cf_channel flow
    \<and> unat (next_recv flow') = min (length ins) (2 ^ 64 - 1) \<and> unat (next_send flow') = min (length outs) (2 ^ 64 - 1)
    \<and> in_order (cf_job_id flow) (opposite_role (cf_local_role flow)) (cf_channel flow) ins
    \<and> in_order (cf_job_id flow) (cf_local_role flow) (cf_channel flow) outs"
  using assms
proof (induction rule: flow_run.induct)
  case (start flow)
  then show ?case by (simp add: in_order_def)
next
  case (step_in flow ins outs flow1 f g flow2)
  from step_in(2) have "accept_inbound flow1 f = Inr (flow2, g)"
    by (auto elim!: flow_stepE simp: event_step_def)
  with step_in.IH [OF step_in.prems] show ?case
    by (auto simp: accept_inbound_Inr in_order_snoc role_other unat_sat_add)
next
  case (step_out flow ins outs flow1 e g flow2 f k pl)
  from step_out(2,3) have "f_job_id g = cf_job_id flow1 \<and> f_sender_role g = cf_local_role flow1 \<and> f_channel g = cf_channel flow1
      \<and> f_sequence g = next_send flow1 \<and> flow2 = flow1\<lparr>next_send := sat_add (next_send flow1) 1\<rparr>"
    by (auto elim!: flow_stepE simp: event_step_def accept_outbound_Inr dest: outbound_frame_Inr)
  with step_out.IH [OF step_out.prems] show ?case
    by (auto simp: in_order_snoc unat_sat_add)
next
  case (step_refused flow ins outs flow1 e flow2)
  from step_refused(2) obtain err where "event_step flow1 e = Inl (flow2, err)" by (auto elim!: flow_stepE)
  with step_refused.IH [OF step_refused.prems] event_step_Inl [OF this] show ?case by simp
qed

lemma len_prefixed_append_inj:
  assumes "len_prefixed a @ x = len_prefixed b @ y" and "length a < 2 ^ 64" and "length b < 2 ^ 64"
  shows "a = b \<and> x = y"
proof -
  have "le_bytes 8 (of_nat (length a) :: u64) = le_bytes 8 (of_nat (length b) :: u64)" and r: "a @ x = b @ y"
    using assms(1) by (auto simp: len_prefixed_def append_eq_append_conv)
  then have "(of_nat (length a) :: u64) = of_nat (length b)" by (intro le_bytes_inj [of 8]) auto
  then have "unat (of_nat (length a) :: u64) = unat (of_nat (length b) :: u64)" by simp
  then have "length a = length b" using assms(2,3) by (simp add: unat_of_nat take_bit_nat_eq_self)
  with r show ?thesis by simp
qed

lemma party_id_inj [simp]: "party_id r = party_id r' \<longleftrightarrow> r = r'"
  by (cases r; cases r') auto

definition params_small :: "session_params \<Rightarrow> bool" where
  "params_small p \<longleftrightarrow> length (sp_circuit_digest p) < 2 ^ 64 \<and> length (sp_job_binding p) < 2 ^ 64"

lemma ack_preimage_inj:
  assumes "ack_preimage j r p = ack_preimage j' r' p'" and "length j < 2 ^ 64" "length j' < 2 ^ 64"
    and "params_small p" "params_small p'"
  shows "j = j' \<and> r = r' \<and> p = p'"
proof -
  from assms(1) have "len_prefixed j @ [party_id r] @ le_bytes 4 (sp_ssp p) @ len_prefixed (sp_circuit_digest p) @ len_prefixed (sp_job_binding p)
     = len_prefixed j' @ [party_id r'] @ le_bytes 4 (sp_ssp p') @ len_prefixed (sp_circuit_digest p') @ len_prefixed (sp_job_binding p')"
    by (simp add: ack_preimage_def)
  from len_prefixed_append_inj [OF this assms(2,3)]
  have j: "j = j'" and "r = r'" and s: "le_bytes 4 (sp_ssp p) = le_bytes 4 (sp_ssp p')"
    and rest: "len_prefixed (sp_circuit_digest p) @ len_prefixed (sp_job_binding p)
      = len_prefixed (sp_circuit_digest p') @ len_prefixed (sp_job_binding p')"
    by auto
  have "sp_ssp p = sp_ssp p'" using s by (intro le_bytes_inj [of 4]) auto
  moreover from len_prefixed_append_inj [OF rest] assms(4,5)
  have d: "sp_circuit_digest p = sp_circuit_digest p'" and b: "len_prefixed (sp_job_binding p) @ [] = len_prefixed (sp_job_binding p') @ []"
    by (auto simp: params_small_def)
  from len_prefixed_append_inj [OF b] assms(4,5) have "sp_job_binding p = sp_job_binding p'" by (auto simp: params_small_def)
  ultimately show ?thesis using j \<open>r = r'\<close> d by (cases p; cases p') auto
qed

section \<open>Properties of the flow\<close>

text \<open>C26: Sequencing is exact: along any run of a fresh flow, whatever frames arrive and are sent, the frames it
  took in are those of its job, its channel and the opposite role numbered 0, 1, 2 and so on, and the
  frames it let out are its own role's, numbered the same way.\<close>
theorem flow_frames_in_order:
  assumes "flow_run (flow_new job r c) ins outs flow"
  shows "in_order job (opposite_role r) c ins \<and> in_order job r c outs
    \<and> unat (next_recv flow) = min (length ins) (2 ^ 64 - 1) \<and> unat (next_send flow) = min (length outs) (2 ^ 64 - 1)"
  using flow_run_inv [OF assms] by (simp add: flow_new_def in_order_def)

theorem flow_frames_in_order_witness:
  "\<exists>g flow. flow_run (flow_new [7] Alice MainCh) [] [g] flow \<and> in_order [7] Alice MainCh [g]"
proof -
  obtain g where "outbound_frame (flow_new [7] Alice MainCh) KAbort [] =
      Inr ((flow_new [7] Alice MainCh)\<lparr>next_send := sat_add 0 1\<rparr>, g)"
    using outbound_frame_ok [of "flow_new [7] Alice MainCh" KAbort "[]"] by (auto simp: flow_new_def MAX_JOB_ID_BYTES_def)
  then have "flow_step (flow_new [7] Alice MainCh) (EvSend KAbort []) (Some g) ((flow_new [7] Alice MainCh)\<lparr>next_send := sat_add 0 1\<rparr>)"
    by (intro flow_step.taken) (simp add: event_step_def)
  then have "flow_run (flow_new [7] Alice MainCh) [] ([] @ [g]) ((flow_new [7] Alice MainCh)\<lparr>next_send := sat_add 0 1\<rparr>)"
    by (rule flow_run.step_out [OF flow_run.start]) simp
  then show ?thesis using flow_frames_in_order by fastforce
qed

text \<open>Abort is final: a frame the flow refuses leaves it aborted, and an aborted flow refuses every frame
  and every send with \<open>Aborted\<close>, its state unchanged.\<close>
theorem flow_abort_final:
  "(accept_inbound flow f = Inl (flow', e) \<or> accept_outbound flow f = Inl (flow', e) \<longrightarrow> aborted flow')
   \<and> (aborted flow \<longrightarrow> accept_inbound flow f = Inl (flow, Aborted) \<and> accept_outbound flow f = Inl (flow, Aborted)
        \<and> outbound_frame flow k pl = Inl (flow, Aborted))"
  by (auto simp: accept_inbound_def accept_outbound_def outbound_frame_def aborting_error_def flow_abort_def split: if_splits)

theorem flow_abort_final_witness:
  "\<exists>flow'. accept_inbound (flow_new [7] Alice MainCh)
       \<lparr>f_job_id = [7], f_sender_role = Bob, f_channel = MainCh, f_sequence = 5, f_kind = KAbort, f_payload = [], f_flags = 0\<rparr>
       = Inl (flow', SequenceMismatch 0 5) \<and> aborted flow'"
proof -
  have "\<exists>flow'. accept_inbound (flow_new [7] Alice MainCh)
       \<lparr>f_job_id = [7], f_sender_role = Bob, f_channel = MainCh, f_sequence = 5, f_kind = KAbort, f_payload = [], f_flags = 0\<rparr>
       = Inl (flow', SequenceMismatch 0 5)"
    by (simp add: accept_inbound_def flow_new_def aborting_error_def)
  then show ?thesis using flow_abort_final by blast
qed

text \<open>The acknowledgement binds the session: under a collision-free hash, an ack equal to the one expected for a
  job, sender role and parameters was made for that job, role and those parameters (security parameter,
  circuit digest and job binding), since the hashed encoding is unambiguous.\<close>
theorem session_ack_binds:
  assumes "inj sha256" and "length j < 2 ^ 64" and "length j' < 2 ^ 64" and "params_small p" and "params_small p'"
    and "session_start_ack_of sha256 j r p = session_start_ack_of sha256 j' r' p'"
  shows "j = j' \<and> r = r' \<and> p = p'"
  using assms by (intro ack_preimage_inj) (auto simp: session_start_ack_of_def inj_eq)

theorem session_ack_binds_witness:
  "session_start_ack_of id [1] Alice \<lparr>sp_ssp = 40, sp_circuit_digest = [1], sp_job_binding = []\<rparr>
     \<noteq> session_start_ack_of id [1] Bob \<lparr>sp_ssp = 40, sp_circuit_digest = [], sp_job_binding = [1]\<rparr>"
  using session_ack_binds [of id "[1]" "[1]" "\<lparr>sp_ssp = 40, sp_circuit_digest = [1], sp_job_binding = []\<rparr>"
      "\<lparr>sp_ssp = 40, sp_circuit_digest = [], sp_job_binding = [1]\<rparr>" Alice Bob]
  by (auto simp: params_small_def)

end
