(* ===== verification/Session_Runner.thy ===== *)
theory Session_Runner
  imports Channel_Flow Emp_Wire
begin

text \<open>
  The transports and the session runner, \<open>shachain2pc-mpc-runner\<close>: length-prefixed frames over a byte
  stream (\<open>ByteFrameTransport\<close>), frames over an in-memory channel behind a \<open>ChannelFlow\<close>
  (\<open>MemoryTransport\<close>), and the handshake both roles run over the main channel. A transport's
  operations are arguments of the handshake, as the trait \<open>MpcTransport\<close> makes them; a receive that is
  still pending is the result \<open>None\<close>.
\<close>

section \<open>Errors\<close>

datatype runner_error =
    TransportClosed
  | InternalStateMissing
  | RFrame string
  | FrameTooLarge nat nat
  | Core core_error
  | Wire string

fun show_runner_error :: "runner_error \<Rightarrow> string" where
  "show_runner_error TransportClosed = ''MPC transport is closed''"
| "show_runner_error InternalStateMissing = ''MPC transport state is missing''"
| "show_runner_error (RFrame e) = ''bad MPC frame: '' @ e"
| "show_runner_error (FrameTooLarge len mx) =
     ''MPC frame is too large: '' @ dec_string len @ '' bytes > '' @ dec_string mx @ '' bytes''"
| "show_runner_error (Core e) = show_core_error e"
| "show_runner_error (Wire e) = e"

definition wire_err :: "wire_error + 'a \<Rightarrow> runner_error + 'a" where
  "wire_err = mapErr (\<lambda>e. Wire (show_wire_error e))"

definition map_core :: "step_error + 'a \<Rightarrow> runner_error + 'a" where
  "map_core r = mapErr (\<lambda>(_, e). Core e) r"

section \<open>Frames over a byte stream\<close>

definition DEFAULT_MAX_FRAME_BYTES :: nat where
  "DEFAULT_MAX_FRAME_BYTES = 16 * 1024 * 1024"

record 's byte_frame_transport =
  bt_stream :: 's
  bt_max_frame_bytes :: nat

definition byte_transport_new :: "'s \<Rightarrow> 's byte_frame_transport" where
  "byte_transport_new s = \<lparr>bt_stream = s, bt_max_frame_bytes = DEFAULT_MAX_FRAME_BYTES\<rparr>"

definition byte_transport_with_max :: "'s \<Rightarrow> nat \<Rightarrow> 's byte_frame_transport" where
  "byte_transport_with_max s mx = \<lparr>bt_stream = s, bt_max_frame_bytes = mx\<rparr>"

definition err_frame_too_large :: "nat \<Rightarrow> string" where
  "err_frame_too_large len = ''MPC frame length '' @ dec_string len @ '' does not fit in u32''"

definition byte_send ::
  "codec \<Rightarrow> (bytes \<Rightarrow> 's \<Rightarrow> (wire_error + unit) \<times> 's) \<Rightarrow> mpc_frame \<Rightarrow> 's byte_frame_transport
   \<Rightarrow> (runner_error + unit) \<times> 's byte_frame_transport" where
  "byte_send cd send_data frame t =
     (case frame_encode cd frame of
        Inl e \<Rightarrow> (Inl (RFrame (show_mpc_type_error e)), t)
      | Inr bs \<Rightarrow>
          if length bs > bt_max_frame_bytes t then (Inl (FrameTooLarge (length bs) (bt_max_frame_bytes t)), t)
          else if length bs \<ge> 2 ^ 32 then (Inl (RFrame (err_frame_too_large (length bs))), t)
          else (case send_data (le_bytes 4 (of_nat (length bs) :: u32)) (bt_stream t) of
              (Inl e, s) \<Rightarrow> (Inl (Wire (show_wire_error e)), t\<lparr>bt_stream := s\<rparr>)
            | (Inr _, s) \<Rightarrow> (case send_data bs s of
                  (Inl e, s) \<Rightarrow> (Inl (Wire (show_wire_error e)), t\<lparr>bt_stream := s\<rparr>)
                | (Inr _, s) \<Rightarrow> (Inr (), t\<lparr>bt_stream := s\<rparr>))))"

definition byte_recv ::
  "codec \<Rightarrow> (nat \<Rightarrow> 's \<Rightarrow> ((wire_error + bytes) \<times> 's) option) \<Rightarrow> 's byte_frame_transport
   \<Rightarrow> ((runner_error + mpc_frame) \<times> 's byte_frame_transport) option" where
  "byte_recv cd recv_data t =
     (case recv_data 4 (bt_stream t) of
        None \<Rightarrow> None
      | Some (Inl e, s) \<Rightarrow> Some (Inl (Wire (show_wire_error e)), t\<lparr>bt_stream := s\<rparr>)
      | Some (Inr lb, s) \<Rightarrow> (let len = unat (word_of_le lb :: u32) in
          if len > bt_max_frame_bytes t then Some (Inl (FrameTooLarge len (bt_max_frame_bytes t)), t\<lparr>bt_stream := s\<rparr>)
          else (case recv_data len s of
              None \<Rightarrow> None
            | Some (Inl e, s) \<Rightarrow> Some (Inl (Wire (show_wire_error e)), t\<lparr>bt_stream := s\<rparr>)
            | Some (Inr bs, s) \<Rightarrow>
                Some (mapErr (\<lambda>e. RFrame (show_mpc_type_error e)) (frame_decode cd bs), t\<lparr>bt_stream := s\<rparr>))))"

definition byte_flush ::
  "('s \<Rightarrow> (wire_error + unit) \<times> 's) \<Rightarrow> 's byte_frame_transport \<Rightarrow> (runner_error + unit) \<times> 's byte_frame_transport" where
  "byte_flush flush t = (case flush (bt_stream t) of (r, s) \<Rightarrow> (wire_err r, t\<lparr>bt_stream := s\<rparr>))"

section \<open>Frames over a channel\<close>

record 'c memory_transport =
  mt_flow :: "channel_flow option"
  mt_chan :: 'c

definition memory_transport_new :: "bytes \<Rightarrow> role \<Rightarrow> logical_channel \<Rightarrow> 'c \<Rightarrow> 'c memory_transport" where
  "memory_transport_new job_id local_role channel c = \<lparr>mt_flow = Some (flow_new job_id local_role channel), mt_chan = c\<rparr>"

text \<open>\<open>take_flow\<close> leaves \<open>None\<close> behind, and every path puts a flow back.\<close>

definition take_flow :: "'c memory_transport \<Rightarrow> (runner_error + channel_flow) \<times> 'c memory_transport" where
  "take_flow t = (okOr InternalStateMissing (mt_flow t), t\<lparr>mt_flow := None\<rparr>)"

definition memory_send ::
  "('c \<Rightarrow> mpc_frame \<Rightarrow> bool \<times> 'c) \<Rightarrow> mpc_frame \<Rightarrow> 'c memory_transport \<Rightarrow> (runner_error + unit) \<times> 'c memory_transport" where
  "memory_send tx_send frame t =
     (case take_flow t of
        (Inl e, t) \<Rightarrow> (Inl e, t)
      | (Inr flow, t) \<Rightarrow> (case accept_outbound flow frame of
            Inl (flow, e) \<Rightarrow> (Inl (Core e), t\<lparr>mt_flow := Some flow\<rparr>)
          | Inr (flow, frame) \<Rightarrow> (let t = t\<lparr>mt_flow := Some flow\<rparr>; (ok, c) = tx_send (mt_chan t) frame in
              (if ok then Inr () else Inl TransportClosed, t\<lparr>mt_chan := c\<rparr>))))"

definition memory_recv ::
  "('c \<Rightarrow> (mpc_frame option \<times> 'c) option) \<Rightarrow> 'c memory_transport \<Rightarrow> ((runner_error + mpc_frame) \<times> 'c memory_transport) option" where
  "memory_recv rx_recv t =
     (case rx_recv (mt_chan t) of
        None \<Rightarrow> None
      | Some (None, c) \<Rightarrow> Some (Inl TransportClosed, t\<lparr>mt_chan := c\<rparr>)
      | Some (Some frame, c) \<Rightarrow> (case take_flow (t\<lparr>mt_chan := c\<rparr>) of
            (Inl e, t) \<Rightarrow> Some (Inl e, t)
          | (Inr flow, t) \<Rightarrow> (case accept_inbound flow frame of
                Inl (flow, e) \<Rightarrow> Some (Inl (Core e), t\<lparr>mt_flow := Some flow\<rparr>)
              | Inr (flow, frame) \<Rightarrow> Some (Inr frame, t\<lparr>mt_flow := Some flow\<rparr>))))"

definition memory_flush :: "'c memory_transport \<Rightarrow> (runner_error + unit) \<times> 'c memory_transport" where
  "memory_flush t = (Inr (), t)"

section \<open>The handshake\<close>

text \<open>Sequencing of transport operations: an error ends the run, a pending receive leaves it pending.\<close>

type_synonym ('t, 'a) tm = "'t \<Rightarrow> ((runner_error + 'a) \<times> 't) option"

definition tm_bind :: "('t, 'a) tm \<Rightarrow> ('a \<Rightarrow> ('t, 'b) tm) \<Rightarrow> ('t, 'b) tm" where
  "tm_bind m k t = (case m t of None \<Rightarrow> None | Some (Inl e, t) \<Rightarrow> Some (Inl e, t) | Some (Inr x, t) \<Rightarrow> k x t)"

definition tm_lift :: "runner_error + 'a \<Rightarrow> ('t, 'a) tm" where
  "tm_lift r t = Some (r, t)"

definition tm_do :: "('t \<Rightarrow> (runner_error + 'a) \<times> 't) \<Rightarrow> ('t, 'a) tm" where
  "tm_do f t = Some (f t)"

fun run_session_handshake ::
  "codec \<Rightarrow> (bytes \<Rightarrow> bytes) \<Rightarrow> (mpc_frame \<Rightarrow> 't \<Rightarrow> (runner_error + unit) \<times> 't) \<Rightarrow> ('t \<Rightarrow> (runner_error + unit) \<times> 't)
   \<Rightarrow> ('t, mpc_frame) tm \<Rightarrow> bytes \<Rightarrow> role \<Rightarrow> session_params \<Rightarrow> ('t, unit) tm" where
  "run_session_handshake cd sha256 send flush recv job_id Alice params =
     (let flow = flow_new job_id Alice MainCh in
      tm_bind (tm_lift (map_core (send_session_start cd flow params))) (\<lambda>(flow, start).
      tm_bind (tm_do (send start)) (\<lambda>_.
      tm_bind (tm_do flush) (\<lambda>_.
      tm_bind recv (\<lambda>peer_ack.
      tm_bind (tm_lift (map_core (receive_session_start_ack cd sha256 flow params peer_ack))) (\<lambda>flow.
      tm_bind recv (\<lambda>peer_start.
      tm_bind (tm_lift (map_core (receive_session_start_and_ack cd sha256 flow params peer_start))) (\<lambda>(_, ack).
      tm_bind (tm_do (send ack)) (\<lambda>_. tm_do flush)))))))))"
| "run_session_handshake cd sha256 send flush recv job_id Bob params =
     (let flow = flow_new job_id Bob MainCh in
      tm_bind recv (\<lambda>peer_start.
      tm_bind (tm_lift (map_core (receive_session_start_and_ack cd sha256 flow params peer_start))) (\<lambda>(flow, ack).
      tm_bind (tm_do (send ack)) (\<lambda>_.
      tm_bind (tm_do flush) (\<lambda>_.
      tm_bind (tm_lift (map_core (send_session_start cd flow params))) (\<lambda>(flow, start).
      tm_bind (tm_do (send start)) (\<lambda>_.
      tm_bind (tm_do flush) (\<lambda>_.
      tm_bind recv (\<lambda>peer_ack.
      tm_bind (tm_lift (map_core (receive_session_start_ack cd sha256 flow params peer_ack))) (\<lambda>_.
      tm_lift (Inr ())))))))))))"

section \<open>Runs against a script\<close>

text \<open>
  A transport that plays a script: it receives the frames of a list in order and records what it is
  given to send. Any peer's behaviour, honest or not, is such a list. \<open>script_tx\<close> and \<open>script_rx\<close> are
  the same script as the channel of a \<open>MemoryTransport\<close>.
\<close>

type_synonym script = "mpc_frame list \<times> mpc_frame list"

definition script_send :: "mpc_frame \<Rightarrow> script \<Rightarrow> (runner_error + unit) \<times> script" where
  "script_send f t = (Inr (), (fst t, snd t @ [f]))"

definition script_flush :: "script \<Rightarrow> (runner_error + unit) \<times> script" where
  "script_flush t = (Inr (), t)"

definition script_recv :: "(script, mpc_frame) tm" where
  "script_recv t = (case fst t of [] \<Rightarrow> None | f # i \<Rightarrow> Some (Inr f, (i, snd t)))"

definition script_tx :: "script \<Rightarrow> mpc_frame \<Rightarrow> bool \<times> script" where
  "script_tx t f = (True, (fst t, snd t @ [f]))"

definition script_rx :: "script \<Rightarrow> (mpc_frame option \<times> script) option" where
  "script_rx t = (case fst t of [] \<Rightarrow> None | f # i \<Rightarrow> Some (Some f, (i, snd t)))"

abbreviation script_handshake where
  "script_handshake cd sha256 \<equiv> run_session_handshake cd sha256 script_send script_flush script_recv"

lemma tm_bind_Inr:
  "tm_bind m k t = Some (Inr y, t') \<longleftrightarrow> (\<exists>x t1. m t = Some (Inr x, t1) \<and> k x t1 = Some (Inr y, t'))"
  by (auto simp: tm_bind_def split: option.splits sum.splits)

lemma tm_lift_Inr: "tm_lift r t = Some (Inr y, t') \<longleftrightarrow> r = Inr y \<and> t' = t"
  by (auto simp: tm_lift_def)

lemma map_core_Inr: "map_core r = Inr y \<longleftrightarrow> r = Inr y"
  by (simp add: map_core_def)

lemma script_recv_Inr: "script_recv t = Some (Inr f, t') \<longleftrightarrow> fst t = f # fst t' \<and> snd t' = snd t"
  by (cases t; cases t') (auto simp: script_recv_def split: list.splits)

lemma script_do_Inr:
  "tm_do (script_send f) t = Some (Inr u, t') \<longleftrightarrow> t' = (fst t, snd t @ [f])"
  "tm_do script_flush t = Some (Inr u, t') \<longleftrightarrow> t' = t"
  by (auto simp: tm_do_def script_send_def script_flush_def)

lemma require_main_Inr: "require_main flow = Inr g \<longleftrightarrow> cf_channel flow = MainCh \<and> g = flow"
  by (auto simp: require_main_def)

lemma start_from_to: "params_from_start s = p \<Longrightarrow> s = params_to_start p"
  by (cases s) (auto simp: params_from_start_def params_to_start_def)

lemma receive_start_Inr:
  assumes "receive_session_start_and_ack cd sha256 flow p f = Inr (flow', g)"
  shows "f_job_id f = cf_job_id flow" "f_sender_role f \<noteq> cf_local_role flow" "f_channel f = MainCh" "f_kind f = KSessionStart"
    and "start_decode cd (f_payload f) = Inr (params_to_start p)"
    and "cf_job_id flow' = cf_job_id flow" "cf_local_role flow' = cf_local_role flow" "cf_channel flow' = MainCh"
    and "f_kind g = KSessionStartAck" "f_payload g = ack_encode cd (session_start_ack_of sha256 (cf_job_id flow) (cf_local_role flow) p)"
    and "f_job_id g = cf_job_id flow" "f_sender_role g = cf_local_role flow"
proof -
  from assms obtain start where m: "cf_channel flow = MainCh" "f_job_id f = cf_job_id flow" "f_sender_role f \<noteq> cf_local_role flow"
    "f_channel f = MainCh" "f_kind f = KSessionStart" and st: "start_decode cd (f_payload f) = Inr start"
    and cmp: "compare_session_params (flow\<lparr>next_recv := sat_add (next_recv flow) 1\<rparr>) p (params_from_start start)
       = Inr (flow\<lparr>next_recv := sat_add (next_recv flow) 1\<rparr>)"
    and ob: "outbound_frame (flow\<lparr>next_recv := sat_add (next_recv flow) 1\<rparr>) KSessionStartAck
       (ack_encode cd (session_start_ack_of sha256 (cf_job_id flow) (cf_local_role flow) p)) = Inr (flow', g)"
    by (auto simp: receive_session_start_and_ack_def bindR_eq_Inr require_main_Inr accept_inbound_Inr require_kind_def
        compare_session_params_def Let_def split: if_splits)
  have "params_from_start start = p"
    using cmp by (cases "params_from_start start"; cases p) (auto simp: compare_session_params_def split: if_splits)
  with st show "start_decode cd (f_payload f) = Inr (params_to_start p)" by (simp add: start_from_to)
  from m show "f_job_id f = cf_job_id flow" "f_sender_role f \<noteq> cf_local_role flow" "f_channel f = MainCh" "f_kind f = KSessionStart"
    by simp_all
  from outbound_frame_Inr [OF ob] m
  show "cf_job_id flow' = cf_job_id flow" "cf_local_role flow' = cf_local_role flow" "cf_channel flow' = MainCh"
    "f_kind g = KSessionStartAck" "f_payload g = ack_encode cd (session_start_ack_of sha256 (cf_job_id flow) (cf_local_role flow) p)"
    "f_job_id g = cf_job_id flow" "f_sender_role g = cf_local_role flow"
    by simp_all
qed

lemma receive_ack_Inr:
  assumes "receive_session_start_ack cd sha256 flow p f = Inr flow'"
  shows "f_job_id f = cf_job_id flow" "f_sender_role f \<noteq> cf_local_role flow" "f_kind f = KSessionStartAck"
    and "ack_decode cd (f_payload f) = Inr (session_start_ack_of sha256 (cf_job_id flow) (f_sender_role f) p)"
    and "flow' = flow\<lparr>next_recv := sat_add (next_recv flow) 1\<rparr>"
  using assms
  by (auto simp: receive_session_start_ack_def bindR_eq_Inr require_main_Inr accept_inbound_Inr require_kind_def split: if_splits)

lemma send_start_Inr:
  assumes "send_session_start cd flow p = Inr (flow', g)"
  shows "f_kind g = KSessionStart" "f_payload g = start_encode cd (params_to_start p)"
    and "flow' = flow\<lparr>next_send := sat_add (next_send flow) 1\<rparr>"
  using assms by (auto simp: send_session_start_def bindR_eq_Inr require_main_Inr dest: outbound_frame_Inr)

definition peer_confirmed ::
  "codec \<Rightarrow> (bytes \<Rightarrow> bytes) \<Rightarrow> bytes \<Rightarrow> role \<Rightarrow> session_params \<Rightarrow> mpc_frame \<Rightarrow> mpc_frame \<Rightarrow> bool" where
  \<comment> \<open>the two frames a side has received: the peer's start with these parameters, the peer's ack for them\<close>
  "peer_confirmed cd sha256 job_id r p st ack \<longleftrightarrow>
     f_job_id st = job_id \<and> f_sender_role st = opposite_role r \<and> f_kind st = KSessionStart
     \<and> start_decode cd (f_payload st) = Inr (params_to_start p)
     \<and> f_job_id ack = job_id \<and> f_sender_role ack = opposite_role r \<and> f_kind ack = KSessionStartAck
     \<and> ack_decode cd (f_payload ack) = Inr (session_start_ack_of sha256 job_id (opposite_role r) p)"

lemma flow_new_sel [simp]:
  "cf_job_id (flow_new j r c) = j" "cf_local_role (flow_new j r c) = r" "cf_channel (flow_new j r c) = c"
  by (simp_all add: flow_new_def)

lemma alice_confirmed:
  assumes "script_handshake cd sha256 job_id Alice p (i, []) = Some (Inr (), (rest, outs))"
  shows "\<exists>st ack. i = ack # st # rest \<and> peer_confirmed cd sha256 job_id Alice p st ack"
proof -
  from assms obtain flow start ack flow1 st flow2 a where
    s: "send_session_start cd (flow_new job_id Alice MainCh) p = Inr (flow, start)" and i: "i = ack # st # rest"
    and a: "receive_session_start_ack cd sha256 flow p ack = Inr flow1"
    and r: "receive_session_start_and_ack cd sha256 flow1 p st = Inr (flow2, a)"
    by (auto simp: tm_bind_Inr tm_lift_Inr map_core_Inr script_recv_Inr script_do_Inr Let_def split: prod.splits)
  note s = send_start_Inr [OF s] note a = receive_ack_Inr [OF a] note r = receive_start_Inr [OF r]
  have "f_sender_role ack = Bob" "f_sender_role st = Bob" using a r s by (auto simp: role_other)
  with i a r s show ?thesis by (simp add: peer_confirmed_def)
qed

lemma bob_confirmed:
  assumes "script_handshake cd sha256 job_id Bob p (i, []) = Some (Inr (), (rest, outs))"
  shows "\<exists>st ack. i = st # ack # rest \<and> peer_confirmed cd sha256 job_id Bob p st ack"
proof -
  from assms obtain flow start ack flow1 st flow2 a where
    r: "receive_session_start_and_ack cd sha256 (flow_new job_id Bob MainCh) p st = Inr (flow, a)" and i: "i = st # ack # rest"
    and s: "send_session_start cd flow p = Inr (flow1, start)"
    and a: "receive_session_start_ack cd sha256 flow1 p ack = Inr flow2"
    by (auto simp: tm_bind_Inr tm_lift_Inr map_core_Inr script_recv_Inr script_do_Inr Let_def split: prod.splits)
  note s = send_start_Inr [OF s] note a = receive_ack_Inr [OF a] note r = receive_start_Inr [OF r]
  have "f_sender_role ack = Alice" "f_sender_role st = Alice" using a r s by (auto simp: role_other)
  with i a r s show ?thesis by (simp add: peer_confirmed_def)
qed

section \<open>Two honest sides\<close>

definition start_frame :: "codec \<Rightarrow> bytes \<Rightarrow> role \<Rightarrow> u64 \<Rightarrow> session_params \<Rightarrow> mpc_frame" where
  "start_frame cd job_id r n p = \<lparr>f_job_id = job_id, f_sender_role = r, f_channel = MainCh, f_sequence = n,
     f_kind = KSessionStart, f_payload = start_encode cd (params_to_start p), f_flags = 0\<rparr>"

definition ack_frame :: "codec \<Rightarrow> (bytes \<Rightarrow> bytes) \<Rightarrow> bytes \<Rightarrow> role \<Rightarrow> u64 \<Rightarrow> session_params \<Rightarrow> mpc_frame" where
  "ack_frame cd sha256 job_id r n p = \<lparr>f_job_id = job_id, f_sender_role = r, f_channel = MainCh, f_sequence = n,
     f_kind = KSessionStartAck, f_payload = ack_encode cd (session_start_ack_of sha256 job_id r p), f_flags = 0\<rparr>"

definition job_ok :: "bytes \<Rightarrow> bool" where
  "job_ok job_id \<longleftrightarrow> job_id \<noteq> [] \<and> length job_id \<le> MAX_JOB_ID_BYTES"

definition flow_at :: "bytes \<Rightarrow> role \<Rightarrow> u64 \<Rightarrow> u64 \<Rightarrow> channel_flow" where
  "flow_at job_id r s n = \<lparr>cf_job_id = job_id, cf_local_role = r, cf_channel = MainCh, next_send = s, next_recv = n, aborted = False\<rparr>"

lemma flow_new_at: "flow_new j r MainCh = flow_at j r 0 0"
  by (simp add: flow_new_def flow_at_def)

lemma sat_add_1: "sat_add (0 :: u64) 1 = 1" "sat_add (1 :: u64) 1 = 2"
  by (simp_all add: sat_add_def)

lemma send_start_at:
  "job_ok j \<Longrightarrow> send_session_start cd (flow_at j r s n) p = Inr (flow_at j r (sat_add s 1) n, start_frame cd j r s p)"
  by (simp add: send_session_start_def require_main_def outbound_frame_def frame_new_def frame_validate_def validate_job_id_def
      validate_flags_def accept_outbound_def flow_at_def start_frame_def job_ok_def Let_def)

lemma receive_start_at:
  assumes "codec_ok cd" "job_ok j" "r \<noteq> r'"
  shows "receive_session_start_and_ack cd sha256 (flow_at j r s n) p (start_frame cd j r' n p)
    = Inr (flow_at j r (sat_add s 1) (sat_add n 1), ack_frame cd sha256 j r s p)"
proof -
  have "params_from_start (params_to_start p) = p" by (simp add: params_from_start_def params_to_start_def)
  then show ?thesis using assms
    by (auto simp: receive_session_start_and_ack_def require_main_def outbound_frame_def frame_new_def frame_validate_def
      validate_job_id_def validate_flags_def accept_outbound_def accept_inbound_def require_kind_def compare_session_params_def
      flow_at_def start_frame_def ack_frame_def job_ok_def Let_def)
qed

lemma receive_ack_at:
  assumes "codec_ok cd" "r \<noteq> r'"
  shows "receive_session_start_ack cd sha256 (flow_at j r s n) p (ack_frame cd sha256 j r' n p) = Inr (flow_at j r s (sat_add n 1))"
  using assms
  by (auto simp: receive_session_start_ack_def require_main_def accept_inbound_def require_kind_def flow_at_def ack_frame_def)

abbreviation memory_handshake where
  "memory_handshake cd sha256 \<equiv> run_session_handshake cd sha256 (memory_send script_tx) memory_flush (memory_recv script_rx)"

definition mem_at :: "bytes \<Rightarrow> role \<Rightarrow> u64 \<Rightarrow> u64 \<Rightarrow> script \<Rightarrow> script memory_transport" where
  "mem_at j r s n c = \<lparr>mt_flow = Some (flow_at j r s n), mt_chan = c\<rparr>"

lemma mem_send_at:
  assumes "f_job_id f = j" "f_sender_role f = r" "f_channel f = MainCh" "f_sequence f = s"
  shows "memory_send script_tx f (mem_at j r s n (i, os)) = (Inr (), mem_at j r (sat_add s 1) n (i, os @ [f]))"
  using assms by (simp add: memory_send_def take_flow_def mem_at_def flow_at_def accept_outbound_def script_tx_def)

lemma mem_recv_at:
  assumes "f_job_id f = j" "f_sender_role f \<noteq> r" "f_channel f = MainCh" "f_sequence f = n"
  shows "memory_recv script_rx (mem_at j r s n (f # i, os)) = Some (Inr f, mem_at j r s (sat_add n 1) (i, os))"
  using assms by (simp add: memory_recv_def take_flow_def mem_at_def flow_at_def accept_inbound_def script_rx_def)

lemma frame_sels:
  "f_job_id (start_frame cd j r n p) = j" "f_sender_role (start_frame cd j r n p) = r" "f_channel (start_frame cd j r n p) = MainCh"
  "f_sequence (start_frame cd j r n p) = n"
  "f_job_id (ack_frame cd sha256 j r n p) = j" "f_sender_role (ack_frame cd sha256 j r n p) = r"
  "f_channel (ack_frame cd sha256 j r n p) = MainCh" "f_sequence (ack_frame cd sha256 j r n p) = n"
  by (simp_all add: start_frame_def ack_frame_def)

lemma memory_handshakes:
  assumes "codec_ok cd" "job_ok j"
  shows "memory_handshake cd sha256 j Alice p (mem_at j Alice 0 0 ([ack_frame cd sha256 j Bob 0 p, start_frame cd j Bob 1 p], []))
      = Some (Inr (), mem_at j Alice 2 2 ([], [start_frame cd j Alice 0 p, ack_frame cd sha256 j Alice 1 p]))"
    and "memory_handshake cd sha256 j Bob p (mem_at j Bob 0 0 ([start_frame cd j Alice 0 p, ack_frame cd sha256 j Alice 1 p], []))
      = Some (Inr (), mem_at j Bob 2 2 ([], [ack_frame cd sha256 j Bob 0 p, start_frame cd j Bob 1 p]))"
  using assms
  by (simp_all add: Let_def flow_new_at tm_bind_def tm_lift_def tm_do_def map_core_def send_start_at receive_start_at receive_ack_at
      mem_send_at mem_recv_at memory_flush_def frame_sels sat_add_1)

section \<open>Two sides on a network\<close>

text \<open>
  Two sides over a network that only delivers frames that were sent. \<open>sent\<close> are the frames a side has handed to its
  transport when it has received exactly the frames \<open>inbox\<close> and goes no further: it is run against a channel that closes
  after them, and a side that waits for one more frame stops there. In a state, each side has received a list of frames; a
  step delivers to one side the next frame that the other has sent by then.
\<close>

definition closing_rx :: "script \<Rightarrow> (mpc_frame option \<times> script) option" where
  "closing_rx t = (case fst t of [] \<Rightarrow> Some (None, t) | f # i \<Rightarrow> Some (Some f, (i, snd t)))"

definition sent :: "codec \<Rightarrow> (bytes \<Rightarrow> bytes) \<Rightarrow> bytes \<Rightarrow> session_params \<Rightarrow> role \<Rightarrow> mpc_frame list \<Rightarrow> mpc_frame list" where
  "sent cd sha256 j p r inbox =
     (case run_session_handshake cd sha256 (memory_send script_tx) memory_flush (memory_recv closing_rx) j r p
             (memory_transport_new j r MainCh (inbox, [])) of
        None \<Rightarrow> [] | Some (_, t) \<Rightarrow> snd (mt_chan t))"

inductive wire_step ::
  "codec \<Rightarrow> (bytes \<Rightarrow> bytes) \<Rightarrow> bytes \<Rightarrow> session_params \<Rightarrow> mpc_frame list \<times> mpc_frame list \<Rightarrow> mpc_frame list \<times> mpc_frame list \<Rightarrow> bool"
  for cd sha256 j p where
  to_alice: "sent cd sha256 j p Bob b = a @ f # fs \<Longrightarrow> wire_step cd sha256 j p (a, b) (a @ [f], b)"
| to_bob: "sent cd sha256 j p Alice a = b @ f # fs \<Longrightarrow> wire_step cd sha256 j p (a, b) (a, b @ [f])"

inductive_cases wire_stepE: "wire_step cd sha256 j p (a, b) s"

lemma mem_recv_closing:
  assumes "f_job_id f = j" "f_sender_role f \<noteq> r" "f_channel f = MainCh" "f_sequence f = n"
  shows "memory_recv closing_rx (mem_at j r s n (f # i, os)) = Some (Inr f, mem_at j r s (sat_add n 1) (i, os))"
  using assms by (simp add: memory_recv_def take_flow_def mem_at_def flow_at_def accept_inbound_def closing_rx_def)

lemma mem_recv_closed:
  "\<exists>e t. memory_recv closing_rx (mem_at j r s n ([], os)) = Some (Inl e, t) \<and> mt_chan t = ([], os)"
  by (simp add: memory_recv_def take_flow_def mem_at_def flow_at_def closing_rx_def)

lemma mem_new: "memory_transport_new j r MainCh c = mem_at j r 0 0 c"
  by (simp add: memory_transport_new_def mem_at_def flow_new_at)

lemma mem_chan: "mt_chan (mem_at j r s n c) = c"
  by (simp add: mem_at_def)

lemma sent_frames:
  assumes "codec_ok cd" "job_ok j"
  shows "sent cd sha256 j p Alice [] = [start_frame cd j Alice 0 p]"
    and "sent cd sha256 j p Alice [ack_frame cd sha256 j Bob 0 p] = [start_frame cd j Alice 0 p]"
    and "sent cd sha256 j p Alice [ack_frame cd sha256 j Bob 0 p, start_frame cd j Bob 1 p]
      = [start_frame cd j Alice 0 p, ack_frame cd sha256 j Alice 1 p]"
    and "sent cd sha256 j p Bob [] = []"
    and "sent cd sha256 j p Bob [start_frame cd j Alice 0 p] = [ack_frame cd sha256 j Bob 0 p, start_frame cd j Bob 1 p]"
    and "sent cd sha256 j p Bob [start_frame cd j Alice 0 p, ack_frame cd sha256 j Alice 1 p]
      = [ack_frame cd sha256 j Bob 0 p, start_frame cd j Bob 1 p]"
proof -
  obtain e t where c: "memory_recv closing_rx (mem_at j r s n ([], os)) = Some (Inl (e r s n os), t r s n os)"
      "mt_chan (t r s n os) = ([], os)" for r s n os
    using mem_recv_closed by metis
  note run = sent_def mem_new Let_def flow_new_at tm_bind_def tm_lift_def tm_do_def map_core_def send_start_at receive_start_at receive_ack_at
    mem_send_at mem_recv_closing memory_flush_def frame_sels sat_add_1 c mem_chan
  show "sent cd sha256 j p Alice [] = [start_frame cd j Alice 0 p]"
    "sent cd sha256 j p Alice [ack_frame cd sha256 j Bob 0 p] = [start_frame cd j Alice 0 p]"
    "sent cd sha256 j p Alice [ack_frame cd sha256 j Bob 0 p, start_frame cd j Bob 1 p]
      = [start_frame cd j Alice 0 p, ack_frame cd sha256 j Alice 1 p]"
    "sent cd sha256 j p Bob [] = []"
    "sent cd sha256 j p Bob [start_frame cd j Alice 0 p] = [ack_frame cd sha256 j Bob 0 p, start_frame cd j Bob 1 p]"
    "sent cd sha256 j p Bob [start_frame cd j Alice 0 p, ack_frame cd sha256 j Alice 1 p]
      = [ack_frame cd sha256 j Bob 0 p, start_frame cd j Bob 1 p]"
    using assms by (simp_all add: run)
qed

definition delivered :: "codec \<Rightarrow> (bytes \<Rightarrow> bytes) \<Rightarrow> bytes \<Rightarrow> session_params \<Rightarrow> (mpc_frame list \<times> mpc_frame list) list" where
  \<comment> \<open>the states in the order in which they are reached\<close>
  "delivered cd sha256 j p =
     (let s = start_frame cd j Alice 0 p; k = ack_frame cd sha256 j Alice 1 p;
          k' = ack_frame cd sha256 j Bob 0 p; s' = start_frame cd j Bob 1 p
      in [([], []), ([], [s]), ([k'], [s]), ([k', s'], [s]), ([k', s'], [s, k])])"

lemma wire_reachable:
  assumes ok: "codec_ok cd" "job_ok j" and r: "(wire_step cd sha256 j p)\<^sup>*\<^sup>* ([], []) s"
  shows "s \<in> set (delivered cd sha256 j p)"
  using r
proof (induction rule: rtranclp_induct)
  case base
  then show ?case by (simp add: delivered_def Let_def)
next
  case (step s s')
  then show ?case using sent_frames [OF ok, of sha256 p]
    by (cases s) (auto simp: delivered_def Let_def Cons_eq_append_conv elim!: wire_stepE)
qed

lemma wire_progress:
  assumes ok: "codec_ok cd" "job_ok j" and s: "(a, b) \<in> set (delivered cd sha256 j p)"
  shows "(\<exists>s'. wire_step cd sha256 j p (a, b) s')
    \<or> a = [ack_frame cd sha256 j Bob 0 p, start_frame cd j Bob 1 p] \<and> b = [start_frame cd j Alice 0 p, ack_frame cd sha256 j Alice 1 p]"
proof -
  let ?s = "start_frame cd j Alice 0 p" and ?k = "ack_frame cd sha256 j Alice 1 p"
    and ?k' = "ack_frame cd sha256 j Bob 0 p" and ?s' = "start_frame cd j Bob 1 p" and ?W = "wire_step cd sha256 j p"
  note f = sent_frames [OF ok, of sha256 p]
  have "?W ([], []) ([], [] @ [?s])" by (rule to_bob [where fs = "[]"]) (simp add: f)
  moreover have "?W ([], [?s]) ([] @ [?k'], [?s])" by (rule to_alice [where fs = "[?s']"]) (simp add: f)
  moreover have "?W ([?k'], [?s]) ([?k'] @ [?s'], [?s])" by (rule to_alice [where fs = "[]"]) (simp add: f)
  moreover have "?W ([?k', ?s'], [?s]) ([?k', ?s'], [?s] @ [?k])" by (rule to_bob [where fs = "[]"]) (simp add: f)
  ultimately show ?thesis using s unfolding delivered_def Let_def by auto
qed

lemma handshake_live:
  assumes ok: "codec_ok cd" "job_ok j" and r: "(wire_step cd sha256 j p)\<^sup>*\<^sup>* ([], []) (a, b)"
  shows "length a + length b \<le> 4"
    and "(\<exists>s. wire_step cd sha256 j p (a, b) s)
      \<or> (\<exists>ta tb. memory_handshake cd sha256 j Alice p (memory_transport_new j Alice MainCh (a, [])) = Some (Inr (), ta)
           \<and> memory_handshake cd sha256 j Bob p (memory_transport_new j Bob MainCh (b, [])) = Some (Inr (), tb)
           \<and> mt_chan ta = ([], b) \<and> mt_chan tb = ([], a))"
proof -
  note d = wire_reachable [OF ok r]
  show "length a + length b \<le> 4" using d by (auto simp: delivered_def Let_def)
  show "(\<exists>s. wire_step cd sha256 j p (a, b) s)
      \<or> (\<exists>ta tb. memory_handshake cd sha256 j Alice p (memory_transport_new j Alice MainCh (a, [])) = Some (Inr (), ta)
           \<and> memory_handshake cd sha256 j Bob p (memory_transport_new j Bob MainCh (b, [])) = Some (Inr (), tb)
           \<and> mt_chan ta = ([], b) \<and> mt_chan tb = ([], a))"
    using wire_progress [OF ok d] memory_handshakes [OF ok, of sha256 p] unfolding mem_new by (auto simp: mem_chan)
qed

section \<open>Frames over bytes\<close>

lemma byte_send_recv:
  assumes cd: "codec_ok cd" and k: "kind_canonical (f_kind f)"
    and s: "byte_send cd send_data f t = (Inr (), t')"
  obtains lb bs s1 s2 where "send_data lb (bt_stream t) = (Inr (), s1)" "send_data bs s1 = (Inr (), s2)" "bt_stream t' = s2"
    and "length lb = 4" "unat (word_of_le lb :: u32) = length bs" "length bs \<le> bt_max_frame_bytes t" "frame_decode cd bs = Inr f"
proof -
  obtain bs where bs: "frame_encode cd f = Inr bs" "length bs \<le> bt_max_frame_bytes t" "length bs < 2 ^ 32"
    using s by (auto simp: byte_send_def split: sum.splits if_splits)
  let ?lb = "le_bytes 4 (of_nat (length bs) :: u32)"
  obtain s1 where s1: "send_data ?lb (bt_stream t) = (Inr (), s1)"
    using s bs by (auto simp: byte_send_def split: sum.splits prod.splits if_splits)
  obtain s2 where s2: "send_data bs s1 = (Inr (), s2)" "bt_stream t' = s2"
    using s bs s1 by (auto simp: byte_send_def split: sum.splits prod.splits if_splits)
  have "unat (word_of_le ?lb :: u32) = length bs"
    using bs(3) by (simp add: word_of_le_le_bytes unat_of_nat take_bit_nat_eq_self)
  then show thesis using that s1 s2 bs frame_decode_encode [OF cd bs(1) k] by simp
qed

section \<open>Properties of the session runner\<close>

text \<open>C24: The session handshake is sound against any peer: when a side's handshake completes, the two frames it
  received are, in its role's order, a start of the opposite role for this job whose parameters are exactly
  its own and an ack for its own parameters; in particular a peer that announced other parameters
  (security parameter, circuit digest or job binding) never gets past it.\<close>
theorem handshake_sound:
  assumes "codec_ok cd"
    and "run_session_handshake cd sha256 script_send script_flush script_recv job_id r p (i, []) = Some (Inr (), (rest, outs))"
  shows "\<exists>st ack. i = (case r of Alice \<Rightarrow> ack # st # rest | Bob \<Rightarrow> st # ack # rest)
    \<and> peer_confirmed cd sha256 job_id r p st ack
    \<and> (\<forall>p'. f_payload st = start_encode cd (params_to_start p') \<longrightarrow> p' = p)"
proof -
  have "\<exists>st ack. i = (case r of Alice \<Rightarrow> ack # st # rest | Bob \<Rightarrow> st # ack # rest)
    \<and> peer_confirmed cd sha256 job_id r p st ack"
    using alice_confirmed [of cd sha256 job_id p i rest outs] bob_confirmed [of cd sha256 job_id p i rest outs] assms(2)
    by (cases r) auto
  then obtain st ack where s: "i = (case r of Alice \<Rightarrow> ack # st # rest | Bob \<Rightarrow> st # ack # rest)"
    "peer_confirmed cd sha256 job_id r p st ack" by blast
  have "p' = p" if "f_payload st = start_encode cd (params_to_start p')" for p'
  proof -
    have "params_to_start p' = params_to_start p" using s(2) that assms(1) by (simp add: peer_confirmed_def)
    then show ?thesis by (cases p; cases p') (simp add: params_to_start_def)
  qed
  with s show ?thesis by blast
qed

text \<open>C25: The session handshake completes, and the two sides never wait for each other. Two honest sides with the same job
  and parameters run it, each over its in-memory transport (so behind the transport's own frame checks). There are two
  frames of each side with which both finish, each having received exactly what the other sent. And on a network that
  delivers to a side, one by one and in any interleaving, only frames the other side has sent by then, from nothing
  delivered: in every state that can be reached, either another frame has been sent and can be delivered, or both sides
  have finished, each having sent exactly what the other has received; and no more than four frames are ever delivered,
  so every run of deliveries that is not cut short ends with both finished.\<close>
theorem handshake_completes:
  assumes "codec_ok cd" and "job_ok j"
  shows "(\<exists>fa fb ta tb.
      run_session_handshake cd sha256 (memory_send script_tx) memory_flush (memory_recv script_rx) j Alice p
          (memory_transport_new j Alice MainCh (fb, [])) = Some (Inr (), ta)
      \<and> run_session_handshake cd sha256 (memory_send script_tx) memory_flush (memory_recv script_rx) j Bob p
          (memory_transport_new j Bob MainCh (fa, [])) = Some (Inr (), tb)
      \<and> mt_chan ta = ([], fa) \<and> mt_chan tb = ([], fb) \<and> length fa = 2 \<and> length fb = 2)
    \<and> (\<forall>a b. (wire_step cd sha256 j p)\<^sup>*\<^sup>* ([], []) (a, b) \<longrightarrow> length a + length b \<le> 4
      \<and> ((\<exists>s. wire_step cd sha256 j p (a, b) s)
         \<or> (\<exists>ta tb.
              run_session_handshake cd sha256 (memory_send script_tx) memory_flush (memory_recv script_rx) j Alice p
                  (memory_transport_new j Alice MainCh (a, [])) = Some (Inr (), ta)
              \<and> run_session_handshake cd sha256 (memory_send script_tx) memory_flush (memory_recv script_rx) j Bob p
                  (memory_transport_new j Bob MainCh (b, [])) = Some (Inr (), tb)
              \<and> mt_chan ta = ([], b) \<and> mt_chan tb = ([], a))))"
proof (intro conjI allI impI)
  show "\<exists>fa fb ta tb.
      memory_handshake cd sha256 j Alice p (memory_transport_new j Alice MainCh (fb, [])) = Some (Inr (), ta)
      \<and> memory_handshake cd sha256 j Bob p (memory_transport_new j Bob MainCh (fa, [])) = Some (Inr (), tb)
      \<and> mt_chan ta = ([], fa) \<and> mt_chan tb = ([], fb) \<and> length fa = 2 \<and> length fb = 2"
    unfolding mem_new
    by (intro exI conjI, rule memory_handshakes(1) [OF assms], rule memory_handshakes(2) [OF assms]) (simp_all add: mem_at_def)
qed (rule handshake_live [OF assms], assumption)+

theorem handshake_completes_witness:
  "\<exists>fa fb ta.
    run_session_handshake plain_codec rev (memory_send script_tx) memory_flush (memory_recv script_rx) [9] Alice
        \<lparr>sp_ssp = 40, sp_circuit_digest = [1], sp_job_binding = [2]\<rparr>
        (memory_transport_new [9] Alice MainCh (fb, [])) = Some (Inr (), ta) \<and> mt_chan ta = ([], fa)"
  using handshake_completes [OF plain_codec_ok, of "[9]" rev "\<lparr>sp_ssp = 40, sp_circuit_digest = [1], sp_job_binding = [2]\<rparr>"]
  by (auto simp: job_ok_def MAX_JOB_ID_BYTES_def)

theorem handshake_sound_witness:
  "\<exists>i outs. run_session_handshake plain_codec rev script_send script_flush script_recv [9] Bob
      \<lparr>sp_ssp = 40, sp_circuit_digest = [1], sp_job_binding = [2]\<rparr> (i, []) = Some (Inr (), ([], outs))
    \<and> (\<exists>st ack. i = [st, ack] \<and> f_sender_role st = Alice)"
proof -
  let ?p = "\<lparr>sp_ssp = 40, sp_circuit_digest = [1], sp_job_binding = [2]\<rparr>"
  let ?i = "[start_frame plain_codec [9] Alice 0 ?p, ack_frame plain_codec rev [9] Alice 1 ?p]"
  have j: "job_ok [9]" by (simp add: job_ok_def MAX_JOB_ID_BYTES_def)
  have "\<exists>outs. run_session_handshake plain_codec rev script_send script_flush script_recv [9] Bob ?p (?i, [])
      = Some (Inr (), ([], outs))"
    using plain_codec_ok j
    by (simp add: Let_def flow_new_at tm_bind_def tm_lift_def tm_do_def map_core_def send_start_at receive_start_at receive_ack_at
        script_send_def script_flush_def script_recv_def sat_add_1)
  then obtain outs where run: "run_session_handshake plain_codec rev script_send script_flush script_recv [9] Bob ?p (?i, [])
      = Some (Inr (), ([], outs))" by blast
  from handshake_sound [OF plain_codec_ok run] have "\<exists>st ack. ?i = [st, ack] \<and> f_sender_role st = Alice"
    by (auto simp: peer_confirmed_def)
  with run show ?thesis by blast
qed

text \<open>A frame sent over a byte stream arrives: when the receiving stream delivers the bytes that were
  handed to the sending one, the receiver reads back the frame that was sent, whatever its size up to
  the limit.\<close>
theorem byte_frame_roundtrip:
  assumes "codec_ok cd" and "kind_canonical (f_kind f)" and "byte_send cd send_data f t = (Inr (), t')"
    and "bt_max_frame_bytes t \<le> bt_max_frame_bytes r"
    and "\<And>lb bs s1. send_data lb (bt_stream t) = (Inr (), s1) \<Longrightarrow> send_data bs s1 = (Inr (), bt_stream t') \<Longrightarrow>
       \<exists>u1 u2. recv_data (length lb) (bt_stream r) = Some (Inr lb, u1) \<and> recv_data (length bs) u1 = Some (Inr bs, u2)"
  shows "\<exists>r'. byte_recv cd recv_data r = Some (Inr f, r')"
proof -
  obtain lb bs s1 s2 where s: "send_data lb (bt_stream t) = (Inr (), s1)" "send_data bs s1 = (Inr (), s2)" "bt_stream t' = s2"
    "length lb = 4" "unat (word_of_le lb :: u32) = length bs" "length bs \<le> bt_max_frame_bytes t" "frame_decode cd bs = Inr f"
    by (rule byte_send_recv [OF assms(1-3)]) (rule that)
  obtain u1 u2 where u: "recv_data (length lb) (bt_stream r) = Some (Inr lb, u1)" "recv_data (length bs) u1 = Some (Inr bs, u2)"
    using assms(5) [of lb s1 bs] s by auto
  have u4: "recv_data 4 (bt_stream r) = Some (Inr lb, u1)" using u(1) unfolding s(4) .
  have le: "\<not> length bs > bt_max_frame_bytes r" using s(6) assms(4) by simp
  have "byte_recv cd recv_data r = Some (Inr f, r\<lparr>bt_stream := u2\<rparr>)"
    by (simp add: byte_recv_def Let_def u4 s(5) le u(2) s(7))
  then show ?thesis ..
qed

definition pipe_send :: "bytes \<Rightarrow> bytes \<Rightarrow> (wire_error + unit) \<times> bytes" where
  "pipe_send d s = (Inr (), s @ d)"

definition pipe_recv :: "nat \<Rightarrow> bytes \<Rightarrow> ((wire_error + bytes) \<times> bytes) option" where
  "pipe_recv n s = (if length s < n then None else Some (Inr (take n s), drop n s))"

lemma pipe_delivers:
  assumes "pipe_send lb [] = (Inr (), s1)" and "pipe_send bs s1 = (Inr (), x)"
  shows "\<exists>u1 u2. pipe_recv (length lb) x = Some (Inr lb, u1) \<and> pipe_recv (length bs) u1 = Some (Inr bs, u2)"
  using assms by (auto simp: pipe_send_def pipe_recv_def)

theorem byte_frame_roundtrip_witness:
  "\<exists>t' r'. byte_send plain_codec pipe_send
       \<lparr>f_job_id = [9], f_sender_role = Bob, f_channel = MainCh, f_sequence = 5, f_kind = KAbort, f_payload = [3], f_flags = 0\<rparr>
       (byte_transport_new []) = (Inr (), t')
    \<and> byte_recv plain_codec pipe_recv t' = Some (Inr
       \<lparr>f_job_id = [9], f_sender_role = Bob, f_channel = MainCh, f_sequence = 5, f_kind = KAbort, f_payload = [3], f_flags = 0\<rparr>, r')"
proof -
  let ?f = "\<lparr>f_job_id = [9], f_sender_role = Bob, f_channel = MainCh, f_sequence = 5, f_kind = KAbort, f_payload = [3], f_flags = 0\<rparr>"
  let ?bs = "enc_frame plain_codec (frame_to_proto ?f)"
  have "frame_encode plain_codec ?f = Inr ?bs"
    by (simp add: frame_encode_def frame_validate_def validate_job_id_def validate_flags_def MAX_JOB_ID_BYTES_def)
  moreover have len: "length ?bs = 34" by (simp add: plain_codec_def frame_to_proto_def)
  ultimately have s: "byte_send plain_codec pipe_send ?f (byte_transport_new [])
      = (Inr (), (byte_transport_new [])\<lparr>bt_stream := le_bytes 4 (of_nat (length ?bs) :: u32) @ ?bs\<rparr>)"
    unfolding byte_send_def by (simp add: byte_transport_new_def pipe_send_def DEFAULT_MAX_FRAME_BYTES_def)
  have "\<exists>r'. byte_recv plain_codec pipe_recv ((byte_transport_new [])\<lparr>bt_stream := le_bytes 4 (of_nat (length ?bs) :: u32) @ ?bs\<rparr>)
      = Some (Inr ?f, r')"
  proof (rule byte_frame_roundtrip [OF plain_codec_ok _ s])
    fix lb bs s1
    assume "pipe_send lb (bt_stream (byte_transport_new [])) = (Inr (), s1)"
      and "pipe_send bs s1 = (Inr (), bt_stream ((byte_transport_new [])\<lparr>bt_stream := le_bytes 4 (of_nat (length ?bs) :: u32) @ ?bs\<rparr>))"
    then show "\<exists>u1 u2. pipe_recv (length lb) (bt_stream ((byte_transport_new [])\<lparr>bt_stream := le_bytes 4 (of_nat (length ?bs) :: u32) @ ?bs\<rparr>)) = Some (Inr lb, u1)
        \<and> pipe_recv (length bs) u1 = Some (Inr bs, u2)"
      by (intro pipe_delivers) (simp_all only: byte_transport_new_def byte_frame_transport.simps)
  qed (simp_all add: byte_transport_new_def)
  with s show ?thesis by blast
qed

end
