(* ===== verification/Prg_Hash.thy ===== *)
theory Prg_Hash
  imports Emp_Wire
begin

text \<open>
  The symmetric primitives of \<open>shachain2pc-mpc-core\<close> (\<open>softspoken.rs\<close>): the permutation \<open>Prp\<close>, the
  counter generator \<open>Prg\<close> and the tweaked hash \<open>Mitccrh8\<close>. AES-128 is the crate \<open>aes\<close>: the parameter
  \<open>aes key block\<close>. A \<open>Prp\<close> is its key. A failed \<open>assert!\<close> or an index out of range is the result \<open>None\<close>.
\<close>

unbundle bit_operations_syntax

section \<open>Generator\<close>

definition prp_permute_block :: "(block \<Rightarrow> block \<Rightarrow> block) \<Rightarrow> block \<Rightarrow> block list \<Rightarrow> block list" where
  "prp_permute_block aes key blocks = map (aes key) blocks"

record prg =
  prg_key :: block
  prg_counter :: u64

definition prg_new :: "block \<Rightarrow> u64 \<Rightarrow> prg" where
  "prg_new seed i =
     (let key = block_bytes seed;
          key = map2 (XOR) (take 8 key) (le_bytes 8 i) @ drop 8 key
      in \<lparr>prg_key = block_from_bytes key, prg_counter = 0\<rparr>)"

definition prg_random_block :: "(block \<Rightarrow> block \<Rightarrow> block) \<Rightarrow> nat \<Rightarrow> prg \<Rightarrow> block list \<times> prg" where
  "prg_random_block aes nblocks g =
     (let (out, g) = fold (\<lambda>_ (out, g). (out @ [block_make 0 (prg_counter g)], g\<lparr>prg_counter := prg_counter g + 1\<rparr>))
                       [0..<nblocks] ([], g)
      in (prp_permute_block aes (prg_key g) out, g))"

definition prg_next_block :: "(block \<Rightarrow> block \<Rightarrow> block) \<Rightarrow> prg \<Rightarrow> block \<times> prg" where
  "prg_next_block aes g = (aes (prg_key g) (block_make 0 (prg_counter g)), g\<lparr>prg_counter := prg_counter g + 1\<rparr>)"

definition prg_random_data :: "(block \<Rightarrow> block \<Rightarrow> block) \<Rightarrow> nat \<Rightarrow> prg \<Rightarrow> bytes \<times> prg" where
  \<comment> \<open>\<open>fill_random_data\<close> of a zeroed buffer: whole blocks, then a prefix of one more\<close>
  "prg_random_data aes nbytes g =
     (let (out, g) = fold (\<lambda>_ (out, g). let (b, g) = prg_next_block aes g in (out @ block_bytes b, g))
                       [0..<nbytes div BLOCK_BYTES] ([], g);
          r = nbytes mod BLOCK_BYTES
      in if r \<noteq> 0 then let (b, g) = prg_next_block aes g in (out @ take r (block_bytes b), g) else (out, g))"

definition prg_random_bool_aligned :: "(block \<Rightarrow> block \<Rightarrow> block) \<Rightarrow> nat \<Rightarrow> prg \<Rightarrow> bool list \<times> prg" where
  "prg_random_bool_aligned aes len g =
     (let (bs, g) = prg_random_data aes len g in (map (\<lambda>b. b AND 1 \<noteq> 0) bs, g))"

section \<open>Hash\<close>

record mitccrh8 =
  start_point :: block
  gid :: u64
  key_used :: nat
  scheduled_bucket :: "u64 option"
  scheduled_keys :: "block list"

definition mitccrh_new :: "block \<Rightarrow> mitccrh8" where
  "mitccrh_new seed = \<lparr>start_point = seed, gid = 0, key_used = 8, scheduled_bucket = None, scheduled_keys = []\<rparr>"

definition renew_ks :: "mitccrh8 \<Rightarrow> mitccrh8" where
  "renew_ks s =
     (let first = drop_bit 3 (gid s); last = drop_bit 3 (gid s + 7);
          s = (if first = last
               then s\<lparr>scheduled_keys := [start_point s XOR block_make first 0], scheduled_bucket := Some first\<rparr>
               else s\<lparr>scheduled_keys := map (\<lambda>i. start_point s XOR block_make (drop_bit 3 (gid s + of_nat i)) 0) [0..<8],
                      scheduled_bucket := None\<rparr>)
      in s\<lparr>gid := gid s + 8, key_used := 0\<rparr>)"

definition mitccrh_apply :: "(block \<Rightarrow> block \<Rightarrow> block) \<Rightarrow> block \<Rightarrow> block \<Rightarrow> bool \<Rightarrow> block" where
  "mitccrh_apply aes key block cir = (let input = (if cir then sigma block else block) in aes key input XOR input)"

definition hash_inner ::
  "(block \<Rightarrow> block \<Rightarrow> block) \<Rightarrow> block list \<Rightarrow> nat \<Rightarrow> nat \<Rightarrow> bool \<Rightarrow> mitccrh8 \<Rightarrow> (block list \<times> mitccrh8) option" where
  "hash_inner aes blocks k h cir s =
     (if \<not> k \<le> 8 \<or> k = 0 \<or> 8 mod k \<noteq> 0 \<or> length blocks \<noteq> k * h then None
      else let s = (if key_used s = 8 then renew_ks s else s) in
        if scheduled_bucket s \<noteq> None then
          (case scheduled_keys s of [] \<Rightarrow> None
           | key # _ \<Rightarrow>
             (let blocks = (if cir then map sigma blocks else blocks);
                  blocks = map (\<lambda>b. aes key b XOR b) blocks
              in Some (blocks, s\<lparr>key_used := key_used s + k\<rparr>)))
        else if key_used s + k > length (scheduled_keys s) then None
        else Some (map (\<lambda>offset. mitccrh_apply aes (scheduled_keys s ! (key_used s + offset div h)) (blocks ! offset) cir)
                     [0..<k * h], s\<lparr>key_used := key_used s + k\<rparr>))"

definition mitccrh_hash ::
  "(block \<Rightarrow> block \<Rightarrow> block) \<Rightarrow> block list \<Rightarrow> nat \<Rightarrow> nat \<Rightarrow> mitccrh8 \<Rightarrow> (block list \<times> mitccrh8) option" where
  "mitccrh_hash aes blocks k h s = hash_inner aes blocks k h False s"

definition mitccrh_hash_cir ::
  "(block \<Rightarrow> block \<Rightarrow> block) \<Rightarrow> block list \<Rightarrow> nat \<Rightarrow> nat \<Rightarrow> mitccrh8 \<Rightarrow> (block list \<times> mitccrh8) option" where
  "mitccrh_hash_cir aes blocks k h s = hash_inner aes blocks k h True s"

section \<open>Lemmas\<close>

definition mitccrh_inv :: "mitccrh8 \<Rightarrow> bool" where
  \<comment> \<open>groups of eight gate ids share one key, and a schedule is spent before the next\<close>
  "mitccrh_inv s \<longleftrightarrow> gid s AND 7 = 0 \<and> (key_used s = 8 \<or> (key_used s < 8 \<and> (\<exists>f key. scheduled_bucket s = Some f \<and> scheduled_keys s = [key])))"

lemma mitccrh_inv_new [simp]: "mitccrh_inv (mitccrh_new seed)"
  by (simp add: mitccrh_inv_def mitccrh_new_def)

lemma gid_group:
  assumes "(g :: u64) AND 7 = 0"
  shows "drop_bit 3 (g + 7) = drop_bit 3 g" and "(g + 8) AND 7 = 0"
proof -
  have m7: "(7 :: u64) = mask 3" by (simp add: mask_eq_exp_minus_1)
  have b: "\<not> bit g i" if "i < 3" for i
  proof -
    have "bit (g AND mask 3) i \<longleftrightarrow> bit g i" using that by (simp only: bit_and_iff bit_mask_iff) auto
    with assms show ?thesis unfolding m7 by simp
  qed
  have "g + 7 = g OR 7" unfolding m7 by (rule disjunctive_add) (use b in \<open>auto simp: bit_mask_iff\<close>)
  then show "drop_bit 3 (g + 7) = drop_bit 3 g"
    unfolding m7 by (auto intro!: bit_word_eqI simp: bit_simps)
  have "g = push_bit 3 (drop_bit 3 g)"
  proof (rule bit_word_eqI)
    fix n assume "n < LENGTH(64)"
    then show "bit g n = bit (push_bit 3 (drop_bit 3 g)) n" using b [of n] by (cases "n < 3") (auto simp: bit_simps)
  qed
  then have "g + 8 = push_bit 3 (drop_bit 3 g + 1)" by (simp add: push_bit_eq_mult algebra_simps)
  then show "(g + 8) AND 7 = 0" unfolding m7 by (auto intro!: bit_word_eqI simp: bit_simps)
qed

lemma mitccrh_hash_full:
  assumes "mitccrh_inv s" and "key_used s = 8" and "length blocks = 8 * h"
  shows "mitccrh_hash aes blocks 8 h s = Some (map (\<lambda>b. aes (start_point s XOR block_make (drop_bit 3 (gid s)) 0) b XOR b) blocks,
      (renew_ks s)\<lparr>key_used := 8\<rparr>)"
    and "mitccrh_inv ((renew_ks s)\<lparr>key_used := 8\<rparr>)"
  using assms gid_group [of "gid s"]
  by (auto simp: mitccrh_hash_def hash_inner_def renew_ks_def Let_def mitccrh_inv_def)

end
