(* ===== verification/Auth_Shares.thy ===== *)
theory Auth_Shares
  imports Prg_Hash
begin

text \<open>
  Authenticated shares, \<open>shachain2pc-mpc-core\<close> (\<open>triple_pool.rs\<close>, \<open>reveal.rs\<close> and the share helpers of
  \<open>channel_flow.rs\<close>): the compute buffer that turns random triples into AND triples of given shares, the
  leaky AND, the bucketing layers, the authenticated reveal and the input opening. Every vector is
  the list of its blocks; a loop that writes each position of a vector once is the list of the values it
  writes. A read or write out of range (which the length checks exclude) is the error \<open>TPanic\<close>.
\<close>

unbundle bit_operations_syntax

section \<open>Shares\<close>

record ashare_bundle =
  as_mac :: block
  as_key :: block

definition default_bundle :: ashare_bundle where
  "default_bundle = \<lparr>as_mac = block_zero, as_key = block_zero\<rparr>"

definition select_block :: "u8 \<Rightarrow> block" where
  "select_block b = (if b AND 1 = 0 then block_zero else block_from_bytes (replicate BLOCK_BYTES 0xff))"

definition block_lsb :: "block \<Rightarrow> u8" where
  "block_lsb b = (if get_lsb b then 1 else 0)"

definition block_lsb1 :: "block \<Rightarrow> u8" where
  "block_lsb1 b = drop_bit 1 (block_bytes b ! 0) AND 1"

definition bit0_mask :: block where
  "bit0_mask = block_make 0 1"

record triple_pool_state =
  tp_party :: role
  tp_ssp :: nat
  tp_delta :: block
  cots_minted_since_check :: bool

datatype triple_error =
    BadInputShape
  | CotLength nat nat
  | PeerBitLength nat nat
  | BufferLength string nat nat
  | TPanic

fun show_triple_error :: "triple_error \<Rightarrow> string" where
  "show_triple_error BadInputShape = ''AG2PC input share vectors differ in length''"
| "show_triple_error (CotLength e a) =
     ''AG2PC COT length mismatch: expected '' @ dec_string e @ '', got '' @ dec_string a"
| "show_triple_error (PeerBitLength e a) =
     ''AG2PC peer bit length mismatch: expected '' @ dec_string e @ '', got '' @ dec_string a"
| "show_triple_error (BufferLength n e a) =
     ''AG2PC '' @ n @ '' length mismatch: expected '' @ dec_string e @ '', got '' @ dec_string a"
| "show_triple_error TPanic = ''panic''"

definition triple_pool_new :: "role \<Rightarrow> nat \<Rightarrow> block \<Rightarrow> triple_pool_state" where
  "triple_pool_new party ssp delta = \<lparr>tp_party = party, tp_ssp = ssp, tp_delta = delta, cots_minted_since_check = False\<rparr>"

definition mark_cots_minted :: "'a triple_pool_state_scheme \<Rightarrow> 'a triple_pool_state_scheme" where
  "mark_cots_minted pool = pool\<lparr>cots_minted_since_check := True\<rparr>"

definition should_flush_cot_check :: "'a triple_pool_state_scheme \<Rightarrow> bool" where
  "should_flush_cot_check pool = cots_minted_since_check pool"

definition mark_cot_check_flushed :: "'a triple_pool_state_scheme \<Rightarrow> 'a triple_pool_state_scheme" where
  "mark_cot_check_flushed pool = pool\<lparr>cots_minted_since_check := False\<rparr>"

definition require_len :: "string \<Rightarrow> nat \<Rightarrow> nat \<Rightarrow> triple_error + unit" where
  "require_len name actual expected = (if actual \<noteq> expected then Inl (BufferLength name expected actual) else Inr ())"

section \<open>The compute buffer\<close>

record compute_buffer =
  cb_l :: nat
  cb_bucket :: nat
  rep_a_lsb :: bytes
  rep_b_lsb :: bytes
  acc_mac :: "block list"
  acc_key :: "block list"

definition compute_buffer_new :: "nat \<Rightarrow> ashare_bundle list \<Rightarrow> ashare_bundle list \<Rightarrow> triple_error + compute_buffer" where
  \<comment> \<open>\<open>bucket\<close> is what \<open>get_bucket_size\<close> gives for the length\<close>
  "compute_buffer_new bucket rep_a rep_b =
     (if length rep_a \<noteq> length rep_b then Inl BadInputShape
      else let l = length rep_a in Inr \<lparr>cb_l = l, cb_bucket = bucket,
        rep_a_lsb = map (\<lambda>s. block_lsb (as_mac s)) rep_a, rep_b_lsb = map (\<lambda>s. block_lsb (as_mac s)) rep_b,
        acc_mac = map as_mac rep_a @ map as_mac rep_b @ replicate l block_zero,
        acc_key = map as_key rep_a @ map as_key rep_b @ replicate l block_zero\<rparr>)"

definition insert_random_cots :: "block list \<Rightarrow> block list \<Rightarrow> compute_buffer \<Rightarrow> triple_error + compute_buffer" where
  "insert_random_cots r_mac r_key cb =
     (if length r_mac \<noteq> cb_l cb then Inl (CotLength (cb_l cb) (length r_mac))
      else if length r_key \<noteq> cb_l cb then Inl (CotLength (cb_l cb) (length r_key))
      else Inr (cb\<lparr>acc_mac := take (2 * cb_l cb) (acc_mac cb) @ r_mac, acc_key := take (2 * cb_l cb) (acc_key cb) @ r_key\<rparr>))"

definition opening_bits :: "compute_buffer \<Rightarrow> bytes \<times> bytes" where
  "opening_bits cb = (let l = cb_l cb in
     (map (\<lambda>i. rep_a_lsb cb ! i XOR block_lsb (acc_mac cb ! i)) [0..<l],
      map (\<lambda>i. rep_b_lsb cb ! i XOR block_lsb (acc_mac cb ! (l + i))) [0..<l]))"

definition compute_finish ::
  "triple_pool_state \<Rightarrow> compute_buffer \<Rightarrow> bytes \<Rightarrow> bytes \<Rightarrow> bytes \<Rightarrow> bytes \<Rightarrow> triple_error + ashare_bundle list" where
  "compute_finish pool cb xb_me yb_me xb_peer yb_peer =
     (let l = cb_l cb in
      case filter (\<lambda>bits. length bits \<noteq> l) [xb_me, yb_me, xb_peer, yb_peer] of
        bits # _ \<Rightarrow> Inl (PeerBitLength l (length bits))
      | [] \<Rightarrow> (let dxor = tp_delta pool XOR bit0_mask in
          Inr (map (\<lambda>i.
            let xb = xb_me ! i XOR xb_peer ! i;
                yb = yb_me ! i XOR yb_peer ! i;
                mac = acc_mac cb ! (2 * l + i) XOR (select_block xb AND acc_mac cb ! (l + i))
                      XOR (select_block yb AND acc_mac cb ! i);
                key = acc_key cb ! (2 * l + i) XOR (select_block xb AND acc_key cb ! (l + i))
                      XOR (select_block yb AND acc_key cb ! i);
                both = select_block (xb AND yb)
            in if tp_party pool = Alice then \<lparr>as_mac = mac XOR (both AND bit0_mask), as_key = key\<rparr>
               else \<lparr>as_mac = mac, as_key = key XOR (both AND dxor)\<rparr>) [0..<l])))"

section \<open>The leaky AND\<close>

definition batch_starts :: "nat \<Rightarrow> nat list" where
  \<comment> \<open>\<open>(0..l).step_by(8)\<close>\<close>
  "batch_starts l = map (\<lambda>i. 8 * i) [0..<(l + 7) div 8]"

definition share_c :: "block \<Rightarrow> block list \<Rightarrow> block list \<Rightarrow> nat \<Rightarrow> nat \<Rightarrow> block" where
  "share_c delta mac key l k =
     (select_block (block_lsb (mac ! (l + k))) AND delta) XOR key ! (l + k) XOR mac ! (l + k)"

definition prepare_g_batch ::
  "(block \<Rightarrow> block \<Rightarrow> block) \<Rightarrow> block \<Rightarrow> block list \<Rightarrow> block list \<Rightarrow> nat \<Rightarrow> nat \<Rightarrow> block list \<times> mitccrh8
   \<Rightarrow> triple_error + block list \<times> mitccrh8" where
  "prepare_g_batch aes delta mac key l k0 = (\<lambda>(g_blocks, gmitc).
     let batch = min (l - k0) 8;
         pad = map (\<lambda>t. let j = t div 2 in if j < batch
                        then (if t mod 2 = 0 then key ! (k0 + j) else key ! (k0 + j) XOR delta) else block_zero) [0..<16]
     in bindR (okOr TPanic (mitccrh_hash aes pad 8 2 gmitc)) (\<lambda>(pad, gmitc).
        Inr (g_blocks @ map (\<lambda>j. pad ! (2 * j) XOR pad ! (2 * j + 1) XOR share_c delta mac key l (k0 + j)) [0..<batch], gmitc)))"

definition leaky_and_prepare_g ::
  "(block \<Rightarrow> block \<Rightarrow> block) \<Rightarrow> triple_pool_state \<Rightarrow> block list \<Rightarrow> block list \<Rightarrow> nat \<Rightarrow> mitccrh8
   \<Rightarrow> triple_error + block list \<times> mitccrh8" where
  "leaky_and_prepare_g aes pool mac key l gmitc =
     bindR (require_len ''mac'' (length mac) (3 * l)) (\<lambda>_.
     bindR (require_len ''key'' (length key) (3 * l)) (\<lambda>_.
       foldR (prepare_g_batch aes (tp_delta pool) mac key l) (batch_starts l) ([], gmitc)))"

definition prepare_s_batch ::
  "(block \<Rightarrow> block \<Rightarrow> block) \<Rightarrow> block \<Rightarrow> block list \<Rightarrow> block list \<Rightarrow> nat \<Rightarrow> block list \<Rightarrow> nat \<Rightarrow> block list \<times> mitccrh8
   \<Rightarrow> triple_error + block list \<times> mitccrh8" where
  "prepare_s_batch aes delta mac key l w_blocks k0 = (\<lambda>(sout, emitc).
     let batch = min (l - k0) 8;
         pad = map (\<lambda>t. let j = t div 2 in if j < batch
                        then (if t mod 2 = 0 then mac ! (k0 + j) else key ! (k0 + j)) else block_zero) [0..<16]
     in bindR (okOr TPanic (mitccrh_hash aes pad 8 2 emitc)) (\<lambda>(pad, emitc).
        Inr (sout @ map (\<lambda>j.
          let k = k0 + j;
              hm = pad ! (2 * j);
              hk = pad ! (2 * j + 1);
              e = hm XOR (w_blocks ! k AND select_block (block_lsb (mac ! k)));
              c = share_c delta mac key l k
          in hk XOR e XOR key ! (2 * l + k) XOR mac ! (2 * l + k)
             XOR (c AND select_block (block_lsb (mac ! k)))
             XOR (delta AND select_block (block_lsb (mac ! (2 * l + k))))) [0..<batch], emitc)))"

definition leaky_and_prepare_s ::
  "(block \<Rightarrow> block \<Rightarrow> block) \<Rightarrow> triple_pool_state \<Rightarrow> block list \<Rightarrow> block list \<Rightarrow> nat \<Rightarrow> mitccrh8 \<Rightarrow> block list
   \<Rightarrow> triple_error + (bytes \<times> block list) \<times> mitccrh8" where
  "leaky_and_prepare_s aes pool mac key l emitc w_blocks =
     bindR (require_len ''mac'' (length mac) (3 * l)) (\<lambda>_.
     bindR (require_len ''key'' (length key) (3 * l)) (\<lambda>_.
     bindR (require_len ''W blocks'' (length w_blocks) l) (\<lambda>_.
     bindR (foldR (prepare_s_batch aes (tp_delta pool) mac key l w_blocks) (batch_starts l) ([], emitc)) (\<lambda>(sout, emitc).
       Inr ((map block_lsb1 sout, sout), emitc)))))"

definition leaky_and_finish ::
  "triple_pool_state \<Rightarrow> block list \<Rightarrow> block list \<Rightarrow> nat \<Rightarrow> bytes \<Rightarrow> bytes \<Rightarrow> block list \<Rightarrow> bytes
   \<Rightarrow> triple_error + block list \<times> block list \<times> bytes" where
  \<comment> \<open>the two share vectors and the equality transcript \<open>feq\<close>, updated\<close>
  "leaky_and_finish pool mac key l s_me s_peer sout feq =
     bindR (require_len ''mac'' (length mac) (3 * l)) (\<lambda>_.
     bindR (require_len ''key'' (length key) (3 * l)) (\<lambda>_.
     bindR (require_len ''s_me'' (length s_me) l) (\<lambda>_.
     bindR (require_len ''s_peer'' (length s_peer) l) (\<lambda>_.
     bindR (require_len ''sout'' (length sout) l) (\<lambda>_.
       let dxor = tp_delta pool XOR bit0_mask;
           mask = (\<lambda>k. select_block (s_me ! k XOR s_peer ! k));
           mac' = (if tp_party pool = Alice
                   then take (2 * l) mac @ map (\<lambda>k. mac ! (2 * l + k) XOR (bit0_mask AND mask k)) [0..<l] else mac);
           key' = (if tp_party pool = Alice then key
                   else take (2 * l) key @ map (\<lambda>k. key ! (2 * l + k) XOR (dxor AND mask k)) [0..<l]);
           sout' = map (\<lambda>k. sout ! k XOR (tp_delta pool AND mask k)) [0..<l]
       in Inr (mac', key', feq @ slice_as_bytes sout'))))))"

section \<open>Bucketing\<close>

definition bucket_shift :: "(block \<Rightarrow> block \<Rightarrow> block) \<Rightarrow> block \<Rightarrow> nat \<Rightarrow> triple_error + nat" where
  "bucket_shift aes seed l =
     (let (bs, _) = prg_random_data aes 4 (prg_new seed 0); raw = (word_of_le bs :: u32)
      in if l = 0 then Inl TPanic else Inr (unat raw mod l))"

definition rot_src :: "nat \<Rightarrow> nat \<Rightarrow> nat \<Rightarrow> nat" where
  \<comment> \<open>\<open>cut = l - r\<close> wraps to a huge value when \<open>r > l\<close>\<close>
  "rot_src l r i = (if r > l \<or> i < l - r then i + r else i + r - l)"

definition bucket_prepare_layer ::
  "block list \<Rightarrow> block list \<Rightarrow> block list \<Rightarrow> block list \<Rightarrow> nat \<Rightarrow> nat \<Rightarrow> triple_error + bytes \<times> block list \<times> block list" where
  "bucket_prepare_layer amac akey lmac lkey l r =
     bindR (require_len ''acc_mac'' (length amac) (3 * l)) (\<lambda>_.
     bindR (require_len ''acc_key'' (length akey) (3 * l)) (\<lambda>_.
     bindR (require_len ''layer_mac'' (length lmac) (3 * l)) (\<lambda>_.
     bindR (require_len ''layer_key'' (length lkey) (3 * l)) (\<lambda>_.
       if \<exists>i \<in> set [0..<l]. 2 * l + rot_src l r i \<ge> 3 * l then Inl TPanic
       else let src = rot_src l r;
                amac' = map (\<lambda>i. amac ! i XOR lmac ! src i) [0..<l] @ map (\<lambda>i. amac ! (l + i)) [0..<l]
                        @ map (\<lambda>i. amac ! (2 * l + i) XOR lmac ! (2 * l + src i)) [0..<l];
                akey' = map (\<lambda>i. akey ! i XOR lkey ! src i) [0..<l] @ map (\<lambda>i. akey ! (l + i)) [0..<l]
                        @ map (\<lambda>i. akey ! (2 * l + i) XOR lkey ! (2 * l + src i)) [0..<l];
                d_me = map (\<lambda>i. block_lsb (amac ! (l + i)) XOR block_lsb (lmac ! (l + src i))) [0..<l]
            in Inr (d_me, amac', akey')))))"

definition bucket_finish_layer ::
  "block list \<Rightarrow> block list \<Rightarrow> block list \<Rightarrow> block list \<Rightarrow> nat \<Rightarrow> nat \<Rightarrow> bytes \<Rightarrow> bytes \<Rightarrow> triple_error + block list \<times> block list" where
  "bucket_finish_layer amac akey lmac lkey l r d_me d_peer =
     bindR (require_len ''acc_mac'' (length amac) (3 * l)) (\<lambda>_.
     bindR (require_len ''acc_key'' (length akey) (3 * l)) (\<lambda>_.
     bindR (require_len ''layer_mac'' (length lmac) (3 * l)) (\<lambda>_.
     bindR (require_len ''layer_key'' (length lkey) (3 * l)) (\<lambda>_.
     bindR (require_len ''d_me'' (length d_me) l) (\<lambda>_.
     bindR (require_len ''d_peer'' (length d_peer) l) (\<lambda>_.
       if \<exists>i \<in> set [0..<l]. rot_src l r i \<ge> 3 * l then Inl TPanic
       else let src = rot_src l r; mask = (\<lambda>i. select_block (d_me ! i XOR d_peer ! i));
                amac' = take (2 * l) amac @ map (\<lambda>i. amac ! (2 * l + i) XOR (lmac ! src i AND mask i)) [0..<l];
                akey' = take (2 * l) akey @ map (\<lambda>i. akey ! (2 * l + i) XOR (lkey ! src i AND mask i)) [0..<l]
            in Inr (amac', akey')))))))"

section \<open>Reveal and input opening\<close>

record reveal_local_share_t =
  rl_share_bits :: bytes
  rl_mac_digest :: bytes

definition reveal_local_share :: "(bytes \<Rightarrow> bytes) \<Rightarrow> ashare_bundle list \<Rightarrow> reveal_local_share_t" where
  "reveal_local_share sha256 wire_bundle =
     \<lparr>rl_share_bits = map (\<lambda>wire. block_lsb (as_mac wire)) wire_bundle,
      rl_mac_digest = sha256 (concat (map (\<lambda>wire. block_bytes (as_mac wire)) wire_bundle))\<rparr>"

datatype peer_mac_check_error =
    PcPeerShareLength nat nat
  | PcMacDigestMismatch

definition verify_peer_mac_digest ::
  "(bytes \<Rightarrow> bytes) \<Rightarrow> ashare_bundle list \<Rightarrow> bytes \<Rightarrow> bytes \<Rightarrow> block \<Rightarrow> peer_mac_check_error + unit" where
  "verify_peer_mac_digest sha256 wire_bundle peer_share peer_digest delta =
     (if length peer_share \<noteq> length wire_bundle then Inl (PcPeerShareLength (length wire_bundle) (length peer_share))
      else let expected_digest = sha256 (concat (map (\<lambda>(wire, share). block_bytes (as_key wire XOR (select_block share AND delta)))
                 (zip wire_bundle peer_share)))
        in if expected_digest \<noteq> peer_digest then Inl PcMacDigestMismatch else Inr ())"

datatype reveal_error =
    BadWireShape nat nat
  | RvPeerShareLength nat nat
  | RvMacDigestMismatch

fun reveal_from_peer_check :: "peer_mac_check_error \<Rightarrow> reveal_error" where
  "reveal_from_peer_check (PcPeerShareLength e a) = RvPeerShareLength e a"
| "reveal_from_peer_check PcMacDigestMismatch = RvMacDigestMismatch"

fun show_reveal_error :: "reveal_error \<Rightarrow> string" where
  "show_reveal_error (BadWireShape l b) = ''bad reveal wire shape: lambda='' @ dec_string l @ '', bundle='' @ dec_string b"
| "show_reveal_error (RvPeerShareLength e a) =
     ''bad reveal peer share length: expected '' @ dec_string e @ '', got '' @ dec_string a"
| "show_reveal_error RvMacDigestMismatch = ''reveal MAC digest mismatch''"

definition reveal_recipient_bits ::
  "(bytes \<Rightarrow> bytes) \<Rightarrow> bytes \<Rightarrow> ashare_bundle list \<Rightarrow> bytes \<Rightarrow> bytes \<Rightarrow> block \<Rightarrow> reveal_error + bytes" where
  "reveal_recipient_bits sha256 lambda wire_bundle peer_share peer_digest delta =
     (if length lambda \<noteq> length wire_bundle then Inl (BadWireShape (length lambda) (length wire_bundle))
      else bindR (mapErr reveal_from_peer_check (verify_peer_mac_digest sha256 wire_bundle peer_share peer_digest delta)) (\<lambda>_.
        let local = reveal_local_share sha256 wire_bundle in
        Inr (map (\<lambda>i. (rl_share_bits local ! i XOR lambda ! i XOR (peer_share ! i AND 1)) AND 1) [0..<length wire_bundle])))"

datatype input_open_error =
    OwnInputLength nat nat
  | IoPeerShareLength nat nat
  | PeerInputLength nat nat
  | PeerInputIndex nat nat
  | IoMacDigestMismatch

fun input_open_from_peer_check :: "peer_mac_check_error \<Rightarrow> input_open_error" where
  "input_open_from_peer_check (PcPeerShareLength e a) = IoPeerShareLength e a"
| "input_open_from_peer_check PcMacDigestMismatch = IoMacDigestMismatch"

fun show_input_open_error :: "input_open_error \<Rightarrow> string" where
  "show_input_open_error (OwnInputLength e a) =
     ''bad input-open own input length: expected '' @ dec_string e @ '', got '' @ dec_string a"
| "show_input_open_error (IoPeerShareLength e a) =
     ''bad input-open peer share length: expected '' @ dec_string e @ '', got '' @ dec_string a"
| "show_input_open_error (PeerInputLength e a) =
     ''bad input-open peer input length: expected '' @ dec_string e @ '', got '' @ dec_string a"
| "show_input_open_error (PeerInputIndex i n) =
     ''bad input-open peer input index '' @ dec_string i @ '' for length '' @ dec_string n"
| "show_input_open_error IoMacDigestMismatch = ''input-open MAC digest mismatch''"

definition finalize_input_open ::
  "(bytes \<Rightarrow> bytes) \<Rightarrow> ashare_bundle list \<Rightarrow> bytes \<Rightarrow> nat list \<Rightarrow> bytes \<Rightarrow> bytes \<Rightarrow> bytes \<Rightarrow> block \<Rightarrow> input_open_error + bytes" where
  "finalize_input_open sha256 wire_bundle own_x_bits peer_indices peer_share peer_digest peer_x_bits delta =
     (let n = length wire_bundle in
      if length own_x_bits \<noteq> n then Inl (OwnInputLength n (length own_x_bits))
      else if length peer_x_bits \<noteq> length peer_indices then Inl (PeerInputLength (length peer_indices) (length peer_x_bits))
      else (case filter (\<lambda>i. i \<ge> n) peer_indices of
          i # _ \<Rightarrow> Inl (PeerInputIndex i n)
        | [] \<Rightarrow> bindR (mapErr input_open_from_peer_check (verify_peer_mac_digest sha256 wire_bundle peer_share peer_digest delta)) (\<lambda>_.
            let local = reveal_local_share sha256 wire_bundle;
                lambda = map (\<lambda>i. (rl_share_bits local ! i XOR (peer_share ! i AND 1) XOR (own_x_bits ! i AND 1)) AND 1) [0..<n]
            in Inr (fold (\<lambda>(w, b) lambda. lambda[w := lambda ! w XOR (b AND 1)]) (zip peer_indices peer_x_bits) lambda))))"

definition verify_share_relation :: "ashare_bundle list \<Rightarrow> block \<Rightarrow> ashare_bundle list \<Rightarrow> block \<Rightarrow> bool" where
  "verify_share_relation local local_delta peer peer_delta \<longleftrightarrow>
     length local = length peer \<and> list_all (\<lambda>(mine, theirs).
       let mine_expected = as_key theirs XOR (select_block (block_lsb (as_mac mine)) AND peer_delta);
           peer_expected = as_key mine XOR (select_block (block_lsb (as_mac theirs)) AND local_delta)
       in as_mac mine = mine_expected \<and> as_mac theirs = peer_expected) (zip local peer)"

section \<open>Algebra of shares\<close>

definition sel :: "bool \<Rightarrow> block \<Rightarrow> block" where
  "sel b x = (if b then x else 0)"

abbreviation lsb :: "block \<Rightarrow> bool" where
  "lsb b \<equiv> bit b 0"

lemma xor_left_self [simp]: "(x :: block) XOR (x XOR y) = y"
  by (simp flip: xor.assoc)

lemmas xor_ac = xor.assoc xor.commute xor.left_commute

lemma sel_simps [simp]: "sel True x = x" "sel False x = 0" "sel b 0 = 0" "bit (sel b x) i = (b \<and> bit x i)"
  by (simp_all add: sel_def)

lemma sel_xor: "sel b (x XOR y) = sel b x XOR sel b y"
  by (simp add: sel_def)

lemma sel_neq: "sel (b = (\<not> c)) x = sel b x XOR sel c x"
  by (auto simp: sel_def)

lemma sel_and: "sel (b \<and> c) x = sel b (sel c x)"
  by (auto simp: sel_def)

lemma ones_block: "block_from_bytes (replicate BLOCK_BYTES 0xff) = - 1"
proof (rule bit_word_eqI)
  fix i assume i: "i < LENGTH(128)"
  have "(255 :: u8) = mask 8" by (simp add: mask_eq_exp_minus_1)
  then have "bit (255 :: u8) (i mod 8)" by (simp only: bit_mask_iff) simp
  then show "bit (block_from_bytes (replicate BLOCK_BYTES 255)) i = bit (- 1 :: block) i"
    using i by (auto simp: block_from_bytes_def bit_word_of_le BLOCK_BYTES_def)
qed

lemma select_block_sel [simp]: "select_block b AND x = sel (bit b 0) x" "x AND select_block b = sel (bit b 0) x"
  by (auto simp: select_block_def and_1_eq_of_bool block_zero_def ones_block sel_def)

lemma block_lsb_bit [simp]: "block_lsb b = of_bool (lsb b)" "bit (block_lsb b) 0 = lsb b"
  by (simp_all add: block_lsb_def get_lsb_bit)

lemma block_lsb1_bit [simp]: "block_lsb1 b = of_bool (bit b 1)"
  by (simp add: block_lsb1_def and_1_eq_of_bool block_bytes_def bit_drop_bit_eq bit_le_bytes_nth BLOCK_BYTES_def)

lemma bit0_mask_1: "bit0_mask = 1"
  by (simp add: bit0_mask_def block_make_def)

lemma lsb_bit0 [simp]: "bit (bit0_mask) i \<longleftrightarrow> i = 0"
  by (simp add: bit0_mask_1 bit_1_iff)

lemma of_bool_bit0 [simp]: "bit (of_bool b :: 'a::len word) 0 = b"
  by (cases b) auto

text \<open>
  Two sides hold one share: \<open>mA = kB + bA DB\<close> and \<open>mB = kA + bB DA\<close>, where the bit a side holds is the
  low bit of its MAC; the shared bit is the sum of the two.
\<close>

definition rel1 :: "block \<Rightarrow> block \<Rightarrow> block \<Rightarrow> bool" where
  "rel1 d m k \<longleftrightarrow> m = k XOR sel (lsb m) d"

definition rel2 :: "block \<Rightarrow> block \<Rightarrow> block \<Rightarrow> block \<Rightarrow> block \<Rightarrow> block \<Rightarrow> bool" where
  "rel2 dA dB mA kA mB kB \<longleftrightarrow> rel1 dB mA kB \<and> rel1 dA mB kA"

lemma rel1_xor: "rel1 d m k \<Longrightarrow> rel1 d m' k' \<Longrightarrow> rel1 d (m XOR m') (k XOR k')"
proof -
  assume "rel1 d m k" "rel1 d m' k'"
  then have m: "m = k XOR sel (lsb m) d" and m': "m' = k' XOR sel (lsb m') d" by (simp_all add: rel1_def)
  have "m XOR m' = (k XOR sel (lsb m) d) XOR (k' XOR sel (lsb m') d)" using m m' by simp
  also have "\<dots> = (k XOR k') XOR sel (lsb (m XOR m')) d" by (simp add: bit_xor_iff sel_neq xor_ac)
  finally show ?thesis by (simp add: rel1_def)
qed

lemma rel1_0 [simp]: "rel1 d 0 0"
  by (simp add: rel1_def)

lemma rel1_sel: "rel1 d m k \<Longrightarrow> rel1 d (sel b m) (sel b k)"
  by (cases b) auto

text \<open>Adding a public bit: one side flips its own bit, the other the key it checks it with.\<close>

lemma rel1_flip: "rel1 d m k \<Longrightarrow> lsb d \<Longrightarrow> rel1 d (m XOR sel b bit0_mask) (k XOR sel b (d XOR bit0_mask))"
proof -
  assume r: "rel1 d m k" and d: "lsb d"
  show ?thesis
  proof (cases b)
    case True
    have l: "lsb (m XOR bit0_mask) = (\<not> lsb m)" by (simp add: bit_xor_iff)
    from r have "m XOR bit0_mask = (k XOR sel (lsb m) d) XOR bit0_mask" by (simp add: rel1_def)
    also have "\<dots> = (k XOR (d XOR bit0_mask)) XOR sel (\<not> lsb m) d"
      by (cases "lsb m") (simp_all add: xor_ac)
    finally show ?thesis using True by (simp only: rel1_def sel_simps(1) l [symmetric])
  qed (use r in simp)
qed

lemma rel1_key_even: "rel1 d m k \<Longrightarrow> lsb d \<Longrightarrow> \<not> lsb k"
proof -
  assume "rel1 d m k" "lsb d"
  then have "lsb m = (lsb k \<noteq> lsb m)" by (metis bit_xor_iff rel1_def sel_simps(4))
  then show ?thesis by auto
qed

section \<open>Vectors of shares\<close>

definition rel_vec :: "nat \<Rightarrow> block \<Rightarrow> block \<Rightarrow> block list \<Rightarrow> block list \<Rightarrow> block list \<Rightarrow> block list \<Rightarrow> bool" where
  "rel_vec n dA dB mA kA mB kB \<longleftrightarrow> length mA = n \<and> length kA = n \<and> length mB = n \<and> length kB = n
     \<and> (\<forall>i < n. rel2 dA dB (mA ! i) (kA ! i) (mB ! i) (kB ! i))"

definition shared_bit :: "block list \<Rightarrow> block list \<Rightarrow> nat \<Rightarrow> bool" where
  \<comment> \<open>the bit the two sides share at a position\<close>
  "shared_bit mA mB i \<longleftrightarrow> lsb (mA ! i) \<noteq> lsb (mB ! i)"

definition share_value :: "ashare_bundle list \<Rightarrow> ashare_bundle list \<Rightarrow> nat \<Rightarrow> bool" where
  "share_value xs ys i \<longleftrightarrow> lsb (as_mac (xs ! i)) \<noteq> lsb (as_mac (ys ! i))"

lemma verify_share_relation_vec:
  "verify_share_relation local dA peer dB \<longleftrightarrow>
     rel_vec (length local) dA dB (map as_mac local) (map as_key local) (map as_mac peer) (map as_key peer)"
  by (auto simp: verify_share_relation_def rel_vec_def rel2_def rel1_def list_all_length Let_def)

section \<open>The hash along the batches\<close>

definition next_state :: "mitccrh8 \<Rightarrow> mitccrh8" where
  "next_state s = (renew_ks s)\<lparr>key_used := 8\<rparr>"

definition hash_at :: "(block \<Rightarrow> block \<Rightarrow> block) \<Rightarrow> mitccrh8 \<Rightarrow> nat \<Rightarrow> block \<Rightarrow> block" where
  "hash_at aes s k b = aes (start_point s XOR block_make (drop_bit 3 (gid ((next_state ^^ (k div 8)) s))) 0) b XOR b"

definition fresh :: "mitccrh8 \<Rightarrow> bool" where
  "fresh s \<longleftrightarrow> mitccrh_inv s \<and> key_used s = 8"

lemma start_point_next [simp]: "start_point (next_state s) = start_point s"
  by (simp add: next_state_def renew_ks_def Let_def)

lemma start_point_iter [simp]: "start_point ((next_state ^^ m) s) = start_point s"
  by (induction m) auto

lemma fresh_next: "fresh s \<Longrightarrow> fresh (next_state s)"
  using mitccrh_hash_full(2) [of s "[]" 0] by (auto simp: fresh_def next_state_def)

lemma fresh_iter: "fresh s \<Longrightarrow> fresh ((next_state ^^ m) s)"
  by (induction m) (auto simp: fresh_next)

lemma hash_batch:
  assumes "fresh s" and "length pad = 16"
  shows "mitccrh_hash aes pad 8 2 ((next_state ^^ m) s) = Some (map (hash_at aes s (8 * m)) pad, (next_state ^^ Suc m) s)"
  using mitccrh_hash_full(1) [of "(next_state ^^ m) s" pad 2 aes] fresh_iter [OF assms(1), of m] assms(2)
  by (simp add: fresh_def hash_at_def next_state_def)

lemma hash_at_batch: "j < 8 \<Longrightarrow> hash_at aes s (8 * m + j) = hash_at aes s (8 * m)"
  by (simp add: hash_at_def fun_eq_iff)

text \<open>A loop over the batches whose body appends the values of one batch computes the list of all values.\<close>

lemma batches:
  assumes "\<And>m out. 8 * m < l \<Longrightarrow> f (8 * m) (out, (next_state ^^ m) s) =
      Inr (out @ map (\<lambda>j. g (8 * m + j)) [0..<min (l - 8 * m) 8], (next_state ^^ Suc m) s)"
  shows "foldR f (batch_starts l) ([], s) = Inr (map g [0..<l], (next_state ^^ ((l + 7) div 8)) s)"
proof -
  have "foldR f (map ((*) 8) [0..<m]) ([], s) = Inr (map g [0..<min l (8 * m)], (next_state ^^ m) s)"
    if "m \<le> (l + 7) div 8" for m
    using that
  proof (induction m)
    case 0
    then show ?case by simp
  next
    case (Suc m)
    have "8 * Suc m \<le> l + 7" using Suc.prems by presburger
    then have lt: "8 * m < l" by simp
    then have m0: "min l (8 * m) = 8 * m" by simp
    have step: "f (8 * m) (map g [0..<8 * m], (next_state ^^ m) s) =
        Inr (map g [0..<8 * m] @ map (\<lambda>j. g (8 * m + j)) [0..<min (l - 8 * m) 8], (next_state ^^ Suc m) s)"
      by (rule assms [OF lt])
    have "map g [0..<8 * m] @ map (\<lambda>j. g (8 * m + j)) [0..<min (l - 8 * m) 8] = map g [0..<min l (8 * Suc m)]"
    proof -
      have "min l (8 * Suc m) = 8 * m + min (l - 8 * m) 8" using lt by simp
      then have "[0..<min l (8 * Suc m)] = [0..<8 * m] @ [8 * m..<8 * m + min (l - 8 * m) 8]"
        by (simp only: upt_add_eq_append [OF le0])
      moreover have "map g [8 * m..<8 * m + n] = map (\<lambda>j. g (8 * m + j)) [0..<n]" for n
        by (intro nth_equalityI) auto
      ultimately show ?thesis by simp
    qed
    then show ?case using Suc step m0 by (simp add: foldR_append)
  qed
  from this [of "(l + 7) div 8"] show ?thesis
  proof -
    have "l \<le> 8 * ((l + 7) div 8)" by presburger
    then have "min l (8 * ((l + 7) div 8)) = l" by simp
    with \<open>\<And>m. m \<le> (l + 7) div 8 \<Longrightarrow> _\<close> [of "(l + 7) div 8"] show ?thesis by (simp add: batch_starts_def)
  qed
qed

section \<open>Reveal and input opening\<close>

lemma verify_peer_mac_digest_honest:
  assumes rel: "verify_share_relation wires delta peer peer_delta" and len: "length share = length wires"
    and inj: "inj sha256" and d: "delta \<noteq> 0"
  shows "verify_peer_mac_digest sha256 wires share (rl_mac_digest (reveal_local_share sha256 peer)) delta =
    (if \<forall>i < length wires. bit (share ! i) 0 = lsb (as_mac (peer ! i)) then Inr () else Inl PcMacDigestMismatch)"
proof -
  have lp: "length peer = length wires" using rel by (simp add: verify_share_relation_def)
  have k: "as_mac (peer ! i) = as_key (wires ! i) XOR sel (lsb (as_mac (peer ! i))) delta" if "i < length wires" for i
    using rel that by (auto simp: verify_share_relation_vec rel_vec_def rel2_def rel1_def)
  let ?E = "map (\<lambda>(wire, share). as_key wire XOR (select_block share AND delta)) (zip wires share)"
  let ?M = "map as_mac peer"
  have c: "concat (map block_bytes xs) = concat (map block_bytes ys) \<longleftrightarrow> xs = ys" if "length xs = length ys" for xs ys
    using that
  proof (induction xs ys rule: list_induct2)
    case (Cons x xs y ys)
    have "length (block_bytes x) = length (block_bytes y)" by (simp add: block_bytes_def)
    then show ?case using Cons.IH by (auto dest: arg_cong [where f = block_from_bytes])
  qed simp
  have "(?E = ?M) \<longleftrightarrow> (\<forall>i < length wires. bit (share ! i) 0 = lsb (as_mac (peer ! i)))"
  proof -
    have "(as_key (wires ! i) XOR sel (bit (share ! i) 0) delta = as_mac (peer ! i)) \<longleftrightarrow> bit (share ! i) 0 = lsb (as_mac (peer ! i))"
      if "i < length wires" for i
    proof -
      have "(as_key (wires ! i) XOR sel b delta = as_key (wires ! i) XOR sel b' delta) \<longleftrightarrow> b = b'" for b b'
        using d by (cases b; cases b') (auto dest: arg_cong [where f = "\<lambda>x. as_key (wires ! i) XOR x"])
      then show ?thesis by (subst k [OF that]) simp
    qed
    then show ?thesis using len lp by (auto simp: list_eq_iff_nth_eq)
  qed
  moreover have "length ?E = length ?M" using len lp by simp
  moreover have "map (\<lambda>(wire, share). block_bytes (as_key wire XOR (select_block share AND delta))) (zip wires share) = map block_bytes ?E"
    by (simp add: split_beta)
  moreover have "map (\<lambda>wire. block_bytes (as_mac wire)) peer = map block_bytes ?M" by simp
  ultimately show ?thesis
    unfolding verify_peer_mac_digest_def reveal_local_share_def Let_def reveal_local_share_t.select_convs
    using len c [of ?E ?M] inj by (simp only: inj_eq) auto
qed

lemma and_1_xor_of_bool: "((of_bool a :: u8) XOR (x XOR (y AND 1))) AND 1 = of_bool (a \<noteq> (bit x 0 \<noteq> bit y 0))"
  by (simp add: and_1_eq_of_bool bit_xor_iff bit_and_iff)

lemma verify_peer_honest:
  assumes "verify_share_relation wires delta peer peer_delta"
  shows "verify_peer_mac_digest sha256 wires (rl_share_bits (reveal_local_share sha256 peer)) (rl_mac_digest (reveal_local_share sha256 peer)) delta = Inr ()"
proof -
  let ?S = "rl_share_bits (reveal_local_share sha256 peer)"
  have lp: "length peer = length wires" using assms by (simp add: verify_share_relation_def)
  have "as_mac (peer ! i) = as_key (wires ! i) XOR sel (lsb (as_mac (peer ! i))) delta" if "i < length wires" for i
    using assms that by (auto simp: verify_share_relation_vec rel_vec_def rel2_def rel1_def)
  then have "map (\<lambda>(wire, share). block_bytes (as_key wire XOR (select_block share AND delta))) (zip wires ?S)
      = map (\<lambda>wire. block_bytes (as_mac wire)) peer"
    using lp by (intro nth_equalityI) (simp_all add: reveal_local_share_def)
  then show ?thesis using lp by (simp add: verify_peer_mac_digest_def reveal_local_share_def)
qed

lemma reveal_bit:
  assumes "i < length wires" "bit (share ! i) 0 = lsb (as_mac (peer ! i))"
  shows "(rl_share_bits (reveal_local_share sha256 wires) ! i XOR (lambda ! i XOR (share ! i AND 1))) AND 1
      = of_bool (bit (lambda ! i) 0 \<noteq> share_value wires peer i)"
  using assms by (simp add: reveal_local_share_def and_1_xor_of_bool share_value_def) auto

lemma reveal_honest:
  assumes rel: "verify_share_relation wires delta peer peer_delta" and len: "length lambda = length wires"
  shows "reveal_recipient_bits sha256 lambda wires (rl_share_bits (reveal_local_share sha256 peer)) (rl_mac_digest (reveal_local_share sha256 peer)) delta
     = Inr (map (\<lambda>i. of_bool (bit (lambda ! i) 0 \<noteq> share_value wires peer i)) [0..<length wires])"
proof -
  have "length peer = length wires" using rel by (simp add: verify_share_relation_def)
  then have "bit (rl_share_bits (reveal_local_share sha256 peer) ! i) 0 = lsb (as_mac (peer ! i))" if "i < length wires" for i
    using that by (simp add: reveal_local_share_def)
  then show ?thesis
    using len reveal_bit [of _ wires "rl_share_bits (reveal_local_share sha256 peer)" peer]
    by (simp add: reveal_recipient_bits_def verify_peer_honest [OF rel] Let_def del: block_lsb_bit)
qed

text \<open>C20: The authenticated reveal accepts exactly the true shares. When the two sides' wires satisfy the MAC
  relation and the peer's digest is that of its MACs, \<open>reveal_recipient_bits\<close> accepts a claimed share vector
  of the right length only if its bits are the peer's true share bits, returns the mask bits plus the shared
  bits then, and \<open>MacDigestMismatch\<close> for every altered vector. The hash is assumed free of collisions and the
  local delta nonzero.\<close>
theorem reveal_accepts_true_shares_only:
  assumes "verify_share_relation wires delta peer peer_delta"
    and "length share = length wires" and "length lambda = length wires"
    and "inj sha256" and "delta \<noteq> 0"
  shows "reveal_recipient_bits sha256 lambda wires share (rl_mac_digest (reveal_local_share sha256 peer)) delta =
     (if \<forall>i < length wires. bit (share ! i) 0 = lsb (as_mac (peer ! i))
      then Inr (map (\<lambda>i. of_bool (bit (lambda ! i) 0 \<noteq> share_value wires peer i)) [0..<length wires])
      else Inl RvMacDigestMismatch)"
proof -
  note bits = reveal_bit [of _ wires share peer sha256 lambda]
  show ?thesis
    using assms(2,3) bits
    by (simp add: reveal_recipient_bits_def verify_peer_mac_digest_honest [OF assms(1,2,4,5)] Let_def
        del: block_lsb_bit)
qed

theorem reveal_accepts_true_shares_only_witness:
  "reveal_recipient_bits (\<lambda>x. x) [1] [\<lparr>as_mac = 3, as_key = 0\<rparr>] [0]
      (rl_mac_digest (reveal_local_share (\<lambda>x. x) [\<lparr>as_mac = 0, as_key = 0\<rparr>])) 1 = Inr [0]
   \<and> reveal_recipient_bits (\<lambda>x. x) [1] [\<lparr>as_mac = 3, as_key = 0\<rparr>] [1]
      (rl_mac_digest (reveal_local_share (\<lambda>x. x) [\<lparr>as_mac = 0, as_key = 0\<rparr>])) 1 = Inl RvMacDigestMismatch"
proof -
  have b: "lsb 3" "\<not> lsb (0 :: block)" by (simp_all add: bit_numeral_rec)
  have rel: "verify_share_relation [\<lparr>as_mac = 3, as_key = 0\<rparr>] 1 [\<lparr>as_mac = 0, as_key = 0\<rparr>] 3"
    by (simp add: verify_share_relation_def Let_def)
  show ?thesis
    using reveal_accepts_true_shares_only [OF rel, of "[0]" "[1]" "\<lambda>x. x"]
      reveal_accepts_true_shares_only [OF rel, of "[1]" "[1]" "\<lambda>x. x"] b
    by (simp add: share_value_def)
qed

lemma fold_flip:
  assumes "distinct idx" "length xs = length idx" "\<forall>i \<in> set idx. i < length ys"
  shows "fold (\<lambda>(w, b) lam. lam[w := lam ! w XOR (b AND 1)]) (zip idx xs) ys =
    map (\<lambda>i. case map_of (zip idx xs) i of None \<Rightarrow> ys ! i | Some b \<Rightarrow> ys ! i XOR (b AND 1)) [0..<length ys]"
  using assms(2,1,3)
proof (induction idx xs arbitrary: ys rule: list_induct2')
  case (4 i idx x xs)
  have "map_of (zip idx xs) i = None" using 4(2-) by (auto simp: map_of_eq_None_iff dest: set_zip_leftD)
  then show ?case using 4
    by (auto intro!: nth_equalityI simp: nth_list_update dest: set_zip_leftD split: option.splits)
qed (auto intro!: nth_equalityI)

lemma input_open_run:
  assumes "verify_share_relation wires delta peer peer_delta"
    and "length own = length wires" and "length px = length idx"
    and "distinct idx" and "\<forall>i \<in> set idx. i < length wires"
  shows "finalize_input_open sha256 wires own idx (rl_share_bits (reveal_local_share sha256 peer))
        (rl_mac_digest (reveal_local_share sha256 peer)) px delta =
     Inr (map (\<lambda>i. of_bool (share_value wires peer i \<noteq> (bit (own ! i) 0 \<noteq>
            (case map_of (zip idx px) i of None \<Rightarrow> False | Some b \<Rightarrow> bit b 0)))) [0..<length wires])"
proof -
  let ?S = "rl_share_bits (reveal_local_share sha256 peer)"
  have lp: "length peer = length wires" using assms(1) by (simp add: verify_share_relation_def)
  have v: "verify_peer_mac_digest sha256 wires ?S (rl_mac_digest (reveal_local_share sha256 peer)) delta = Inr ()"
    by (rule verify_peer_honest [OF assms(1)])
  have f: "filter (\<lambda>i. i \<ge> length wires) idx = []" using assms(5) by (auto simp: filter_empty_conv)
  have l: "map (\<lambda>i. (rl_share_bits (reveal_local_share sha256 wires) ! i XOR (?S ! i AND 1) XOR (own ! i AND 1)) AND 1) [0..<length wires]
      = map (\<lambda>i. of_bool (share_value wires peer i \<noteq> bit (own ! i) 0)) [0..<length wires]"
    using lp by (intro map_cong refl)
      (auto simp: reveal_local_share_def share_value_def and_1_eq_of_bool bit_xor_iff bit_and_iff)
  have x: "(of_bool a :: u8) XOR (b AND 1) = of_bool (a \<noteq> bit b 0)" for a b
    by (cases a) (auto simp: and_1_eq_of_bool)
  show ?thesis
    unfolding finalize_input_open_def Let_def f list.case v mapErr_simps bindR_simps l
    using assms(2-5) by (subst fold_flip) (auto simp: x dest: set_zip_leftD split: option.splits)
qed

text \<open>C21: The masked inputs opened by \<open>finalize_input_open\<close> are right: with honest shares and digest and the
  peer's input bits at distinct wires in range, every result is the shared mask bit of the wire, plus the
  side's own input bit, plus the peer's input bit where the peer has one. The result is always 0 or 1.\<close>
theorem input_open_masks_inputs:
  assumes "verify_share_relation wires delta peer peer_delta"
    and "length own = length wires" and "length px = length idx"
    and "distinct idx" and "\<forall>i \<in> set idx. i < length wires"
  shows "finalize_input_open sha256 wires own idx (rl_share_bits (reveal_local_share sha256 peer))
        (rl_mac_digest (reveal_local_share sha256 peer)) px delta =
     Inr (map (\<lambda>i. of_bool (share_value wires peer i \<noteq> (bit (own ! i) 0 \<noteq>
            (case map_of (zip idx px) i of None \<Rightarrow> False | Some b \<Rightarrow> bit b 0)))) [0..<length wires])"
  by (rule input_open_run [OF assms])

theorem input_open_masks_inputs_witness:
  "finalize_input_open (\<lambda>x. x) [\<lparr>as_mac = 3, as_key = 0\<rparr>, \<lparr>as_mac = 0, as_key = 0\<rparr>] [1, 0] [1]
      (rl_share_bits (reveal_local_share (\<lambda>x. x) [\<lparr>as_mac = 0, as_key = 0\<rparr>, \<lparr>as_mac = 0, as_key = 0\<rparr>]))
      (rl_mac_digest (reveal_local_share (\<lambda>x. x) [\<lparr>as_mac = 0, as_key = 0\<rparr>, \<lparr>as_mac = 0, as_key = 0\<rparr>])) [1] 1 = Inr [0, 1]"
proof -
  have b: "lsb 3" by (simp add: bit_numeral_rec)
  have rel: "verify_share_relation [\<lparr>as_mac = 3, as_key = 0\<rparr>, \<lparr>as_mac = 0, as_key = 0\<rparr>] 1
      [\<lparr>as_mac = 0, as_key = 0\<rparr>, \<lparr>as_mac = 0, as_key = 0\<rparr>] 3"
    by (simp add: verify_share_relation_def Let_def)
  show ?thesis
    using input_open_masks_inputs [OF rel, of "[1, 0]" "[1]" "[1]" "\<lambda>x. x"] b
    by (simp add: share_value_def upt_conv_Cons)
qed

end
