(* ===== verification/Compat_Types.thy ===== *)
theory Compat_Types
  imports Auth_Shares
begin

text \<open>
  What the modules of \<open>shachain2pc-emp-compat\<close> share: the error type of \<open>lib.rs\<close> with its texts, the
  authenticated wire container of \<open>wires.rs\<close>, and the helpers of \<open>triple_pool.rs\<close> (bit vectors on the
  wire, the equality check, the normalised delta, checked integer conversions). The error stack of
  OpenSSL is its rendered text. SHA-256 is the parameter \<open>sha256\<close>.
\<close>

unbundle bit_operations_syntax

section \<open>Errors\<close>

definition HASH_DIGEST_BYTES :: nat where
  "HASH_DIGEST_BYTES = 32"

definition POINT_BYTES :: nat where
  "POINT_BYTES = 65"

datatype compat_error =
    OpenSsl string
  | CWire wire_error
  | BadPointLength nat
  | BadPointWireLength u32
  | BadOtLength nat nat
  | BadCswLength nat
  | BadAg2pcOwner u8
  | BadAg2pcInputShape
  | BadAg2pcProgram string
  | BadAg2pcInputLength nat nat
  | BadAuthenticatedSlice nat nat nat
  | FeqMismatch
  | HashToCurve
  | CswProofMismatch
  | CswReceiverMismatch
  | LengthOverflow string
  | BadOtRole string
  | APanic

fun show_compat_error :: "compat_error \<Rightarrow> string" where
  "show_compat_error (OpenSsl e) = e"
| "show_compat_error (CWire e) = show_wire_error e"
| "show_compat_error (BadPointLength len) = ''expected '' @ dec_string POINT_BYTES @ '' point bytes, got '' @ dec_string len"
| "show_compat_error (BadPointWireLength len) =
     ''expected EMP point wire length '' @ dec_string POINT_BYTES @ '', got '' @ dec_string (unat len)"
| "show_compat_error (BadOtLength d0 d1) =
     ''CSW base OT data length mismatch: data0='' @ dec_string d0 @ '', data1='' @ dec_string d1"
| "show_compat_error (BadCswLength len) = ''CSW base OT length must be at least 80, got '' @ dec_string len"
| "show_compat_error (BadAg2pcOwner owner) = ''AG2PC input owner must be 1 or 2, got '' @ dec_string (unat owner)"
| "show_compat_error BadAg2pcInputShape = ''AG2PC owner and input-bit vector lengths differ''"
| "show_compat_error (BadAg2pcProgram msg) = ''bad AG2PC program: '' @ msg"
| "show_compat_error (BadAg2pcInputLength e a) =
     ''AG2PC input length mismatch: expected='' @ dec_string e @ '', actual='' @ dec_string a"
| "show_compat_error (BadAuthenticatedSlice len start finish) =
     ''authenticated bit slice ['' @ dec_string start @ '', '' @ dec_string finish @ '') is out of range for length '' @ dec_string len"
| "show_compat_error FeqMismatch = ''AG2PC equality check mismatch''"
| "show_compat_error HashToCurve = ''P-256 hash-to-curve failed''"
| "show_compat_error CswProofMismatch = ''CSW base OT proof verification failed''"
| "show_compat_error CswReceiverMismatch = ''CSW base OT receiver response verification failed''"
| "show_compat_error (LengthOverflow name) = name @ '' length overflow''"
| "show_compat_error (BadOtRole r) = ''OT state is not initialized for '' @ r"
| "show_compat_error APanic = ''panic''"

section \<open>Authenticated wires\<close>

record secure_wires =
  sw_lambda :: bytes
  sw_bundle :: "ashare_bundle list"
  sw_label0 :: "block list"
  sw_eval :: "block list"

definition default_wires :: secure_wires where
  "default_wires = \<lparr>sw_lambda = [], sw_bundle = [], sw_label0 = [], sw_eval = []\<rparr>"

definition sw_len :: "secure_wires \<Rightarrow> nat" where
  "sw_len w = length (sw_lambda w)"

definition range_of :: "'a list \<Rightarrow> nat \<Rightarrow> nat \<Rightarrow> compat_error + 'a list" where
  \<comment> \<open>\<open>xs[start..end]\<close>, with \<open>start <= end\<close>\<close>
  "range_of xs start finish = (if finish \<le> length xs then Inr (drop start (take finish xs)) else Inl APanic)"

definition sw_slice :: "secure_wires \<Rightarrow> nat \<Rightarrow> nat \<Rightarrow> compat_error + secure_wires" where
  "sw_slice w start finish =
     (if start > finish \<or> finish > sw_len w then Inl (BadAuthenticatedSlice (sw_len w) start finish)
      else bindR (range_of (sw_lambda w) start finish) (\<lambda>lambda.
        bindR (range_of (sw_bundle w) start finish) (\<lambda>bundle.
        bindR (if sw_label0 w = [] then Inr [] else range_of (sw_label0 w) start finish) (\<lambda>label0.
        bindR (if sw_eval w = [] then Inr [] else range_of (sw_eval w) start finish) (\<lambda>eval.
          Inr \<lparr>sw_lambda = lambda, sw_bundle = bundle, sw_label0 = label0, sw_eval = eval\<rparr>)))))"

definition sw_concat :: "secure_wires list \<Rightarrow> secure_wires" where
  "sw_concat parts = \<lparr>sw_lambda = concat (map sw_lambda parts), sw_bundle = concat (map sw_bundle parts),
     sw_label0 = concat (map sw_label0 parts), sw_eval = concat (map sw_eval parts)\<rparr>"

definition strip_labels_for_reveal :: "secure_wires \<Rightarrow> secure_wires" where
  "strip_labels_for_reveal w = w\<lparr>sw_label0 := [], sw_eval := []\<rparr>"

section \<open>Bit vectors on the wire\<close>

definition ag2pc_bool_wire_len :: "nat \<Rightarrow> nat" where
  "ag2pc_bool_wire_len len = (len + 7) div 8"

definition set_bool :: "nat \<times> u8 \<Rightarrow> bytes \<Rightarrow> bytes" where
  \<comment> \<open>\<open>if *bit != 0 { out[i / 8] |= 1 << (i % 8); }\<close>\<close>
  "set_bool = (\<lambda>(i, b) out. if b \<noteq> 0 then out[i div 8 := out ! (i div 8) OR push_bit (i mod 8) 1] else out)"

definition ag2pc_pack_bools :: "bytes \<Rightarrow> bytes" where
  "ag2pc_pack_bools data = fold set_bool (enumerate 0 data) (replicate (ag2pc_bool_wire_len (length data)) 0)"

definition ag2pc_unpack_bools :: "bytes \<Rightarrow> nat \<Rightarrow> bytes" where
  "ag2pc_unpack_bools encoded len = map (\<lambda>i. drop_bit (i mod 8) (encoded ! (i div 8)) AND 1) [0..<len]"

lemma set_bool_length [simp]: "length (set_bool x out) = length out"
  by (simp add: set_bool_def split: prod.split)

lemma set_bool_bit:
  assumes "k < 8 * length out"
  shows "bit (set_bool (k, b) out ! (j div 8)) (j mod 8) \<longleftrightarrow> bit (out ! (j div 8)) (j mod 8) \<or> (j = k \<and> b \<noteq> 0)"
proof -
  have kl: "k div 8 < length out" using assms by (simp add: less_mult_imp_div_less mult.commute)
  have "bit (push_bit (k mod 8) (1 :: u8)) (j mod 8) \<longleftrightarrow> j mod 8 = k mod 8" by (auto simp: bit_push_bit_iff bit_1_iff simp del: push_bit_of_1)
  moreover have "j = k \<longleftrightarrow> j div 8 = k div 8 \<and> j mod 8 = k mod 8" by (metis div_mult_mod_eq)
  ultimately show ?thesis using kl by (auto simp: set_bool_def nth_list_update bit_or_iff simp del: push_bit_of_1)
qed

lemma pack_bools_bits:
  assumes "k + length data \<le> 8 * length out"
  shows "bit (fold set_bool (enumerate k data) out ! (j div 8)) (j mod 8) \<longleftrightarrow>
       bit (out ! (j div 8)) (j mod 8) \<or> (k \<le> j \<and> j < k + length data \<and> data ! (j - k) \<noteq> 0)"
  using assms
proof (induction data arbitrary: k out)
  case (Cons b data)
  have "k < 8 * length out" using Cons.prems by simp
  note set_bool_bit [OF this, of b j]
  with Cons.IH [of "Suc k" "set_bool (k, b) out"] Cons.prems show ?case
    by (auto simp: nth_Cons' le_Suc_eq Suc_le_eq)
qed auto

lemma unpack_pack_bools:
  "ag2pc_unpack_bools (ag2pc_pack_bools data) (length data) = map (\<lambda>b. of_bool (b \<noteq> 0)) data"
proof (rule nth_equalityI)
  fix i assume "i < length (ag2pc_unpack_bools (ag2pc_pack_bools data) (length data))"
  then have i: "i < length data" by (simp add: ag2pc_unpack_bools_def)
  have up: "n \<le> 8 * ((n + 7) div 8)" for n :: nat by presburger
  have b: "0 + length data \<le> 8 * length (replicate (ag2pc_bool_wire_len (length data)) (0 :: u8))"
    using up [of "length data"] by (simp add: ag2pc_bool_wire_len_def)
  have "i div 8 < ag2pc_bool_wire_len (length data)" using div_le_mono [of "i + 8" "length data + 7" 8] i by (simp add: ag2pc_bool_wire_len_def)
  then show "ag2pc_unpack_bools (ag2pc_pack_bools data) (length data) ! i = map (\<lambda>b. of_bool (b \<noteq> 0)) data ! i"
    using pack_bools_bits [OF b, of i] i
    by (simp add: ag2pc_unpack_bools_def and_1_eq_of_bool bit_drop_bit_eq ag2pc_pack_bools_def)
qed (simp add: ag2pc_unpack_bools_def)

definition sent_bools :: "bytes \<Rightarrow> bytes" where
  \<comment> \<open>what \<open>ag2pc_recv_bool_vector\<close> returns of what \<open>ag2pc_sfinishbool_vector\<close> sent\<close>
  "sent_bools data = ag2pc_unpack_bools (ag2pc_pack_bools data) (length data)"

lemma sent_bools [simp]: "set data \<subseteq> {0, 1} \<Longrightarrow> sent_bools data = data"
  unfolding sent_bools_def unpack_pack_bools by (auto intro!: map_idI)

section \<open>Equality check and delta\<close>

definition hash_once :: "(bytes \<Rightarrow> bytes) \<Rightarrow> bytes \<Rightarrow> bytes" where
  "hash_once sha256 data = sha256 data"

definition ag2pc_feq_commitment :: "(bytes \<Rightarrow> bytes) \<Rightarrow> bytes \<Rightarrow> block \<Rightarrow> bytes" where
  "ag2pc_feq_commitment sha256 digest nonce = hash_once sha256 (digest @ block_bytes nonce)"

text \<open>\<open>ag2pc_feq_check\<close>: what Alice decides after Bob's digest, and Bob after her commitment, digest and nonce.\<close>

definition feq_check_alice :: "bytes \<Rightarrow> bytes \<Rightarrow> compat_error + unit" where
  "feq_check_alice local_digest peer_digest = (if peer_digest \<noteq> local_digest then Inl FeqMismatch else Inr ())"

definition feq_check_bob :: "(bytes \<Rightarrow> bytes) \<Rightarrow> bytes \<Rightarrow> bytes \<Rightarrow> bytes \<Rightarrow> block \<Rightarrow> compat_error + unit" where
  "feq_check_bob sha256 local_digest commitment peer_digest nonce =
     (let expected = ag2pc_feq_commitment sha256 peer_digest nonce
      in if commitment \<noteq> expected \<or> peer_digest \<noteq> local_digest then Inl FeqMismatch else Inr ())"

definition normalize_ag2pc_delta :: "role \<Rightarrow> block \<Rightarrow> block" where
  "normalize_ag2pc_delta party delta =
     (let bs = block_bytes delta;
          bs = bs[0 := bs ! 0 OR 1];
          bs = (if party = Alice then bs[0 := bs ! 0 OR 2] else bs[0 := bs ! 0 AND NOT 2])
      in block_from_bytes bs)"

lemma normalize_delta_bits [simp]:
  "bit (normalize_ag2pc_delta party delta) 0"
  "bit (normalize_ag2pc_delta party delta) 1 \<longleftrightarrow> party = Alice"
  "bit (normalize_ag2pc_delta party delta) (Suc 0) \<longleftrightarrow> party = Alice"
proof -
  have "le_bytes 16 delta \<noteq> []" by (metis length_le_bytes list.size(3) zero_neq_numeral)
  then show "bit (normalize_ag2pc_delta party delta) 0" "bit (normalize_ag2pc_delta party delta) 1 \<longleftrightarrow> party = Alice"
    "bit (normalize_ag2pc_delta party delta) (Suc 0) \<longleftrightarrow> party = Alice"
    by (auto simp: normalize_ag2pc_delta_def Let_def block_from_bytes_def bit_word_of_le block_bytes_def BLOCK_BYTES_def bit_simps
      bit_numeral_rec)
qed

lemma normalize_delta_nonzero [simp]: "normalize_ag2pc_delta party delta \<noteq> 0"
  using normalize_delta_bits(1) [of party delta] by (metis bit_0_eq bot_apply bot_bool_def)

section \<open>Checked conversions\<close>

definition dec_int :: "int \<Rightarrow> string" where
  "dec_int i = (if i < 0 then ''-'' @ dec_string (nat (- i)) else dec_string (nat i))"

definition checked_nonnegative :: "string \<Rightarrow> int \<Rightarrow> compat_error + nat" where
  "checked_nonnegative name value =
     (if value < 0 then Inl (BadAg2pcProgram (name @ '' must be nonnegative'')) else Inr (nat value))"

definition checked_wire :: "string \<Rightarrow> int \<Rightarrow> nat \<Rightarrow> compat_error + nat" where
  "checked_wire name wire num_wire =
     (if wire < 0 \<or> nat wire \<ge> num_wire
      then Inl (BadAg2pcProgram (name @ '' wire '' @ dec_int wire @ '' out of range 0..'' @ dec_string num_wire))
      else Inr (nat wire))"

end
