(* ===== verification/Triple_Compute.thy ===== *)
theory Triple_Compute
  imports Compat_Types
begin

text \<open>
  The AND triples of the authenticated computation, \<open>shachain2pc-emp-compat/src/triple_pool.rs\<close> over the
  steps of \<open>Auth_Shares\<close>: both sides of \<open>compute_inplace_owned\<close> with what they exchange, and the proof that
  honest sides obtain authenticated shares of the products. SoftSpoken, which makes the correlated OTs,
  and the transports are not part of this file; what they deliver is an input.
\<close>

unbundle bit_operations_syntax

section \<open>The leaky AND of two honest sides\<close>

definition g_value :: "(block \<Rightarrow> block \<Rightarrow> block) \<Rightarrow> mitccrh8 \<Rightarrow> block \<Rightarrow> block list \<Rightarrow> block list \<Rightarrow> nat \<Rightarrow> nat \<Rightarrow> block" where
  "g_value aes s delta mac key l k =
     hash_at aes s k (key ! k) XOR hash_at aes s k (key ! k XOR delta) XOR share_c delta mac key l k"

definition s_value ::
  "(block \<Rightarrow> block \<Rightarrow> block) \<Rightarrow> mitccrh8 \<Rightarrow> block \<Rightarrow> block list \<Rightarrow> block list \<Rightarrow> nat \<Rightarrow> block list \<Rightarrow> nat \<Rightarrow> block" where
  "s_value aes s delta mac key l w k =
     hash_at aes s k (key ! k) XOR (hash_at aes s k (mac ! k) XOR sel (lsb (mac ! k)) (w ! k))
     XOR key ! (2 * l + k) XOR mac ! (2 * l + k) XOR sel (lsb (mac ! k)) (share_c delta mac key l k)
     XOR sel (lsb (mac ! (2 * l + k))) delta"

lemma prepare_g_spec:
  assumes "fresh s" and "length mac = 3 * l" and "length key = 3 * l"
  shows "leaky_and_prepare_g aes pool mac key l s =
    Inr (map (g_value aes s (tp_delta pool) mac key l) [0..<l], (next_state ^^ ((l + 7) div 8)) s)"
proof -
  have "foldR (prepare_g_batch aes (tp_delta pool) mac key l) (batch_starts l) ([], s)
      = Inr (map (g_value aes s (tp_delta pool) mac key l) [0..<l], (next_state ^^ ((l + 7) div 8)) s)"
  proof (rule batches)
    fix m out assume lt: "8 * m < l"
    let ?d = "tp_delta pool"
    let ?pad = "map (\<lambda>t. if t div 2 < min (l - 8 * m) 8
          then (if t mod 2 = 0 then key ! (8 * m + t div 2) else key ! (8 * m + t div 2) XOR ?d) else block_zero) [0..<16]"
    have hb: "mitccrh_hash aes ?pad 8 2 ((next_state ^^ m) s) = Some (map (hash_at aes s (8 * m)) ?pad, (next_state ^^ Suc m) s)"
      by (rule hash_batch [OF assms(1)]) simp
    define P where "P = map (hash_at aes s (8 * m)) ?pad"
    have pad: "P ! (2 * j) = hash_at aes s (8 * m + j) (key ! (8 * m + j))"
        "P ! (2 * j + 1) = hash_at aes s (8 * m + j) (key ! (8 * m + j) XOR ?d)"
      if "j < min (l - 8 * m) 8" for j
      using that by (simp_all add: P_def hash_at_batch)
    show "prepare_g_batch aes ?d mac key l (8 * m) (out, (next_state ^^ m) s) =
       Inr (out @ map (\<lambda>j. g_value aes s ?d mac key l (8 * m + j)) [0..<min (l - 8 * m) 8], (next_state ^^ Suc m) s)"
      unfolding prepare_g_batch_def prod.case Let_def hb okOr_simps bindR_simps P_def [symmetric]
    proof (intro arg_cong [where f = Inr] arg_cong2 [where f = Pair] arg_cong2 [where f = append] map_cong refl)
      fix j assume "j \<in> set [0..<min (l - 8 * m) 8]"
      then have j: "j < min (l - 8 * m) 8" by simp
      show "P ! (2 * j) XOR P ! (2 * j + 1) XOR share_c ?d mac key l (8 * m + j) = g_value aes s ?d mac key l (8 * m + j)"
        unfolding pad [OF j] g_value_def ..
    qed
  qed
  then show ?thesis using assms by (simp add: leaky_and_prepare_g_def require_len_def)
qed

lemma prepare_s_spec:
  assumes "fresh s" and "length mac = 3 * l" and "length key = 3 * l" and "length w = l"
  shows "leaky_and_prepare_s aes pool mac key l s w =
    Inr ((map (\<lambda>k. block_lsb1 (s_value aes s (tp_delta pool) mac key l w k)) [0..<l],
          map (s_value aes s (tp_delta pool) mac key l w) [0..<l]), (next_state ^^ ((l + 7) div 8)) s)"
proof -
  have "foldR (prepare_s_batch aes (tp_delta pool) mac key l w) (batch_starts l) ([], s)
      = Inr (map (s_value aes s (tp_delta pool) mac key l w) [0..<l], (next_state ^^ ((l + 7) div 8)) s)"
  proof (rule batches)
    fix m out assume lt: "8 * m < l"
    let ?pad = "map (\<lambda>t. if t div 2 < min (l - 8 * m) 8
          then (if t mod 2 = 0 then mac ! (8 * m + t div 2) else key ! (8 * m + t div 2)) else block_zero) [0..<16]"
    have hb: "mitccrh_hash aes ?pad 8 2 ((next_state ^^ m) s) = Some (map (hash_at aes s (8 * m)) ?pad, (next_state ^^ Suc m) s)"
      by (rule hash_batch [OF assms(1)]) simp
    define P where "P = map (hash_at aes s (8 * m)) ?pad"
    have pad: "P ! (2 * j) = hash_at aes s (8 * m + j) (mac ! (8 * m + j))"
        "P ! (2 * j + 1) = hash_at aes s (8 * m + j) (key ! (8 * m + j))"
      if "j < min (l - 8 * m) 8" for j
      using that by (simp_all add: P_def hash_at_batch)
    show "prepare_s_batch aes (tp_delta pool) mac key l w (8 * m) (out, (next_state ^^ m) s) =
       Inr (out @ map (\<lambda>j. s_value aes s (tp_delta pool) mac key l w (8 * m + j)) [0..<min (l - 8 * m) 8], (next_state ^^ Suc m) s)"
      unfolding prepare_s_batch_def prod.case Let_def hb okOr_simps bindR_simps P_def [symmetric]
    proof (intro arg_cong [where f = Inr] arg_cong2 [where f = Pair] arg_cong2 [where f = append] map_cong refl)
      fix j assume "j \<in> set [0..<min (l - 8 * m) 8]"
      then have j: "j < min (l - 8 * m) 8" by simp
      show "P ! (2 * j + 1) XOR (P ! (2 * j) XOR (w ! (8 * m + j) AND select_block (block_lsb (mac ! (8 * m + j)))))
         XOR key ! (2 * l + (8 * m + j)) XOR mac ! (2 * l + (8 * m + j))
         XOR (share_c (tp_delta pool) mac key l (8 * m + j) AND select_block (block_lsb (mac ! (8 * m + j))))
         XOR (tp_delta pool AND select_block (block_lsb (mac ! (2 * l + (8 * m + j)))))
        = s_value aes s (tp_delta pool) mac key l w (8 * m + j)"
        unfolding pad [OF j] s_value_def select_block_sel block_lsb_bit(2) ..
    qed
  qed
  then show ?thesis using assms by (simp add: leaky_and_prepare_s_def require_len_def)
qed

text \<open>The heart of the protocol: the two sides' values add up to the error of the claimed product.\<close>

lemma s_values_sum:
  assumes rel: "rel_vec (3 * l) dA dB mA kA mB kB" and k: "k < l"
    and wA: "wA ! k = g_value aes s dB mB kB l k" and wB: "wB ! k = g_value aes s dA mA kA l k"
  shows "s_value aes s dA mA kA l wA k XOR s_value aes s dB mB kB l wB k =
    sel ((shared_bit mA mB k \<and> shared_bit mA mB (l + k)) \<noteq> shared_bit mA mB (2 * l + k)) (dA XOR dB)"
proof -
  let ?H = "hash_at aes s k"
  define xA xB yA yB zA zB where bits: "xA = lsb (mA ! k)" "xB = lsb (mB ! k)" "yA = lsb (mA ! (l + k))"
    "yB = lsb (mB ! (l + k))" "zA = lsb (mA ! (2 * l + k))" "zB = lsb (mB ! (2 * l + k))"
  have r: "mA ! i = kB ! i XOR sel (lsb (mA ! i)) dB" "mB ! i = kA ! i XOR sel (lsb (mB ! i)) dA" if "i < 3 * l" for i
    using rel that by (auto simp: rel_vec_def rel2_def rel1_def)
  have x: "mA ! k = kB ! k XOR sel xA dB" "mB ! k = kA ! k XOR sel xB dA" using r [of k] k bits by auto
  have y: "mA ! (l + k) = kB ! (l + k) XOR sel yA dB" "mB ! (l + k) = kA ! (l + k) XOR sel yB dA" using r [of "l + k"] k bits by auto
  have z: "mA ! (2 * l + k) = kB ! (2 * l + k) XOR sel zA dB" "mB ! (2 * l + k) = kA ! (2 * l + k) XOR sel zB dA"
    using r [of "2 * l + k"] k bits by auto
  define cA cB where c: "cA = share_c dA mA kA l k" "cB = share_c dB mB kB l k"
  have cA: "cA = sel yA dA XOR kA ! (l + k) XOR kB ! (l + k) XOR sel yA dB"
    unfolding c share_c_def select_block_sel block_lsb_bit(2) bits(3) [symmetric] by (simp add: y(1) xor_ac)
  have cB: "cB = sel yB dB XOR kB ! (l + k) XOR kA ! (l + k) XOR sel yB dA"
    unfolding c share_c_def select_block_sel block_lsb_bit(2) bits(4) [symmetric] by (simp add: y(2) xor_ac)
  have cc: "cA XOR cB = sel (yA \<noteq> yB) (dA XOR dB)"
    unfolding cA cB by (cases yA; cases yB) (simp_all add: xor_ac)
  have eA: "?H (mA ! k) XOR sel xA (wA ! k) = ?H (kB ! k) XOR sel xA cB"
    unfolding wA x(1) g_value_def c(2) [symmetric] by (cases xA) (simp_all add: xor_ac)
  have eB: "?H (mB ! k) XOR sel xB (wB ! k) = ?H (kA ! k) XOR sel xB cA"
    unfolding wB x(2) g_value_def c(1) [symmetric] by (cases xB) (simp_all add: xor_ac)
  have sA: "s_value aes s dA mA kA l wA k = ?H (kA ! k) XOR (?H (kB ! k) XOR sel xA cB)
      XOR kA ! (2 * l + k) XOR (kB ! (2 * l + k) XOR sel zA dB) XOR sel xA cA XOR sel zA dA"
    by (simp only: s_value_def bits(1,5) [symmetric] eA c(1) [symmetric], simp only: z(1))
  have sB: "s_value aes s dB mB kB l wB k = ?H (kB ! k) XOR (?H (kA ! k) XOR sel xB cA)
      XOR kB ! (2 * l + k) XOR (kA ! (2 * l + k) XOR sel zB dA) XOR sel xB cB XOR sel zB dB"
    by (simp only: s_value_def bits(2,6) [symmetric] eB c(2) [symmetric], simp only: z(2))
  have "s_value aes s dA mA kA l wA k XOR s_value aes s dB mB kB l wB k =
      sel (xA \<noteq> xB) (cA XOR cB) XOR sel (zA \<noteq> zB) (dA XOR dB)"
    unfolding sA sB by (cases xA; cases xB; cases zA; cases zB) (simp_all add: xor_ac)
  also have "\<dots> = sel (((xA \<noteq> xB) \<and> (yA \<noteq> yB)) \<noteq> (zA \<noteq> zB)) (dA XOR dB)"
    unfolding cc by (cases "xA \<noteq> xB"; cases "yA \<noteq> yB"; cases "zA \<noteq> zB") simp_all
  finally show ?thesis by (simp only: shared_bit_def bits)
qed

section \<open>The triple computation of two connected sides\<close>

text \<open>
  The rest of the file runs both sides over channels that deliver what is sent: each \<open>exchange\<close> gives each
  side what the other computed. The correlated OTs (\<open>gen_cot_shares\<close>) and the rotation of each layer, which
  both sides squeeze from the same transcript digests, are inputs. The run stops with the first error
  of a side.
\<close>

record compute_hashes =
  ch_gmitc :: mitccrh8
  ch_emitc :: mitccrh8
  ch_feq :: bytes

type_synonym share_vecs = "block list \<times> block list"

definition setup_pool :: "role \<Rightarrow> nat \<Rightarrow> block \<Rightarrow> triple_pool_state" where
  \<comment> \<open>the state \<open>setup_with_delta\<close> builds\<close>
  "setup_pool party ssp delta = triple_pool_new party ssp (normalize_ag2pc_delta party delta)"

definition pair_seed :: "role \<Rightarrow> block" where
  "pair_seed party = (let mine = (of_nat (unat (party_id party)) :: u64); peer = of_nat (unat (3 - party_id party))
     in block_make (min mine peer) (max mine peer))"

definition compute_hashes_new :: "role \<Rightarrow> compute_hashes" where
  "compute_hashes_new party =
     \<lparr>ch_gmitc = mitccrh_new (pair_seed party), ch_emitc = mitccrh_new (pair_seed party), ch_feq = []\<rparr>"

definition shape :: "triple_error + 'a \<Rightarrow> compat_error + 'a" where
  \<comment> \<open>\<open>.map_err(|_| CompatError::BadAg2pcInputShape)\<close>\<close>
  "shape = mapErr (\<lambda>_. BadAg2pcInputShape)"

definition leaky_and_halfgate ::
  "(block \<Rightarrow> block \<Rightarrow> block) \<Rightarrow> triple_pool_state \<Rightarrow> triple_pool_state \<Rightarrow> nat
   \<Rightarrow> share_vecs \<times> compute_hashes \<Rightarrow> share_vecs \<times> compute_hashes
   \<Rightarrow> compat_error + (share_vecs \<times> compute_hashes) \<times> (share_vecs \<times> compute_hashes)" where
  "leaky_and_halfgate aes poolA poolB l = (\<lambda>((macA, keyA), hA) ((macB, keyB), hB).
     bindR (shape (leaky_and_prepare_g aes poolA macA keyA l (ch_gmitc hA))) (\<lambda>(g_blocksA, gmitcA).
     bindR (shape (leaky_and_prepare_g aes poolB macB keyB l (ch_gmitc hB))) (\<lambda>(g_blocksB, gmitcB).
     bindR (shape (leaky_and_prepare_s aes poolA macA keyA l (ch_emitc hA) g_blocksB)) (\<lambda>((sA, soutA), emitcA).
     bindR (shape (leaky_and_prepare_s aes poolB macB keyB l (ch_emitc hB) g_blocksA)) (\<lambda>((sB, soutB), emitcB).
     bindR (shape (leaky_and_finish poolA macA keyA l sA (sent_bools sB) soutA (ch_feq hA))) (\<lambda>(macA, keyA, feqA).
     bindR (shape (leaky_and_finish poolB macB keyB l sB (sent_bools sA) soutB (ch_feq hB))) (\<lambda>(macB, keyB, feqB).
       Inr (((macA, keyA), \<lparr>ch_gmitc = gmitcA, ch_emitc = emitcA, ch_feq = feqA\<rparr>),
            ((macB, keyB), \<lparr>ch_gmitc = gmitcB, ch_emitc = emitcB, ch_feq = feqB\<rparr>)))))))))"

text \<open>A bucketing layer: a fresh leaky triple of each side, rotated, is folded into the accumulator.\<close>

definition layered_bucket_into_acc_layer ::
  "(block \<Rightarrow> block \<Rightarrow> block) \<Rightarrow> triple_pool_state \<Rightarrow> triple_pool_state \<Rightarrow> nat
   \<Rightarrow> share_vecs \<times> share_vecs \<times> nat
   \<Rightarrow> (share_vecs \<times> compute_hashes) \<times> (share_vecs \<times> compute_hashes)
   \<Rightarrow> compat_error + (share_vecs \<times> compute_hashes) \<times> (share_vecs \<times> compute_hashes)" where
  \<comment> \<open>one turn of the loop of \<open>layered_bucket_into_acc\<close>, with \<open>bucket_one_layer\<close>\<close>
  "layered_bucket_into_acc_layer aes poolA poolB l = (\<lambda>(sacA, sacB, r) ((accA, hA), (accB, hB)).
     bindR (leaky_and_halfgate aes poolA poolB l (sacA, hA) (sacB, hB)) (\<lambda>((sacA, hA), (sacB, hB)).
     bindR (shape (bucket_prepare_layer (fst accA) (snd accA) (fst sacA) (snd sacA) l r)) (\<lambda>(dA, accA).
     bindR (shape (bucket_prepare_layer (fst accB) (snd accB) (fst sacB) (snd sacB) l r)) (\<lambda>(dB, accB).
     bindR (shape (bucket_finish_layer (fst accA) (snd accA) (fst sacA) (snd sacA) l r dA (sent_bools dB))) (\<lambda>accA.
     bindR (shape (bucket_finish_layer (fst accB) (snd accB) (fst sacB) (snd sacB) l r dB (sent_bools dA))) (\<lambda>accB.
       Inr ((accA, hA), (accB, hB))))))))"

definition compute_inplace_owned ::
  "(block \<Rightarrow> block \<Rightarrow> block) \<Rightarrow> (bytes \<Rightarrow> bytes) \<Rightarrow> block \<Rightarrow> nat
   \<Rightarrow> share_vecs \<times> share_vecs \<Rightarrow> (share_vecs \<times> share_vecs \<times> nat) list
   \<Rightarrow> triple_pool_state \<Rightarrow> triple_pool_state
   \<Rightarrow> ashare_bundle list \<times> ashare_bundle list \<Rightarrow> ashare_bundle list \<times> ashare_bundle list
   \<Rightarrow> compat_error + (triple_pool_state \<times> ashare_bundle list) \<times> (triple_pool_state \<times> ashare_bundle list)" where
  \<comment> \<open>\<open>nonce\<close> is Alice's random block, \<open>bucket\<close> what \<open>get_bucket_size\<close> gives both sides, \<open>cots\<close> the first
    correlated OTs of the two sides, \<open>layers\<close> those of each layer with its rotation\<close>
  "compute_inplace_owned aes sha256 nonce bucket cots layers poolA poolB = (\<lambda>(aA, bA) (aB, bB).
     bindR (shape (compute_buffer_new bucket aA bA)) (\<lambda>cbA.
     bindR (shape (compute_buffer_new bucket aB bB)) (\<lambda>cbB.
     let l = cb_l cbA in
     if l = 0 then Inr ((poolA, []), (poolB, []))
     else
     let poolA = mark_cots_minted poolA; poolB = mark_cots_minted poolB in
     bindR (shape (insert_random_cots (fst (fst cots)) (snd (fst cots)) cbA)) (\<lambda>cbA.
     bindR (shape (insert_random_cots (fst (snd cots)) (snd (snd cots)) cbB)) (\<lambda>cbB.
     bindR (leaky_and_halfgate aes poolA poolB l
              ((acc_mac cbA, acc_key cbA), compute_hashes_new (tp_party poolA))
              ((acc_mac cbB, acc_key cbB), compute_hashes_new (tp_party poolB))) (\<lambda>st.
     bindR (foldR (layered_bucket_into_acc_layer aes poolA poolB l) (take (cb_bucket cbA - 1) layers) st) (\<lambda>((accA, hA), (accB, hB)).
     let dmeA = sha256 (ch_feq hA); dmeB = sha256 (ch_feq hB) in
     bindR (feq_check_alice dmeA dmeB) (\<lambda>_.
     bindR (feq_check_bob sha256 dmeB (ag2pc_feq_commitment sha256 dmeA nonce) dmeA nonce) (\<lambda>_.
     let cbA = cbA\<lparr>acc_mac := fst accA, acc_key := snd accA\<rparr>; cbB = cbB\<lparr>acc_mac := fst accB, acc_key := snd accB\<rparr>;
         (xA, yA) = opening_bits cbA; (xB, yB) = opening_bits cbB
     in bindR (shape (compute_finish poolA cbA xA yA (sent_bools xB) (sent_bools yB))) (\<lambda>outA.
        bindR (shape (compute_finish poolB cbB xB yB (sent_bools xA) (sent_bools yA))) (\<lambda>outB.
          Inr ((poolA, outA), (poolB, outB)))))))))))))"

section \<open>An honest run\<close>

lemma shape_simps [simp]: "shape (Inr x) = Inr x" "shape (Inl e) = Inl BadAg2pcInputShape"
  by (simp_all add: shape_def)

lemma xor_of_bool: "(of_bool a :: u8) XOR of_bool b = of_bool (a \<noteq> b)"
  by (cases a; cases b) auto

lemma sent_block_lsbs [simp]:
  "sent_bools (map block_lsb1 xs) = map block_lsb1 xs"
  "sent_bools (map (\<lambda>i. block_lsb (f i) XOR block_lsb (g i)) ys) = map (\<lambda>i. block_lsb (f i) XOR block_lsb (g i)) ys"
proof -
  show "sent_bools (map block_lsb1 xs) = map block_lsb1 xs" by (rule sent_bools) auto
  show "sent_bools (map (\<lambda>i. block_lsb (f i) XOR block_lsb (g i)) ys) = map (\<lambda>i. block_lsb (f i) XOR block_lsb (g i)) ys"
    by (rule sent_bools) (auto simp: xor_of_bool)
qed

text \<open>The setting of an honest run: the two roles and deltas, hash states in step, equal transcripts.\<close>

definition pools_ok :: "triple_pool_state \<Rightarrow> triple_pool_state \<Rightarrow> bool" where
  \<comment> \<open>what the delta setup of the session leaves: both low bits 1, second bits that differ\<close>
  "pools_ok poolA poolB \<longleftrightarrow> tp_party poolA = Alice \<and> tp_party poolB = Bob
     \<and> lsb (tp_delta poolA) \<and> lsb (tp_delta poolB) \<and> bit (tp_delta poolA XOR tp_delta poolB) 1"

lemma setup_pools_ok: "pools_ok (setup_pool Alice ssp dA) (setup_pool Bob ssp dB)"
  by (simp add: pools_ok_def setup_pool_def triple_pool_new_def bit_xor_iff)

lemma pools_ok_mark [simp]: "pools_ok (mark_cots_minted poolA) (mark_cots_minted poolB) = pools_ok poolA poolB"
  by (simp add: pools_ok_def mark_cots_minted_def)

lemma mark_cots_delta [simp]: "tp_delta (mark_cots_minted pool) = tp_delta pool" "tp_party (mark_cots_minted pool) = tp_party pool"
  by (simp_all add: mark_cots_minted_def)

lemma feq_checks [simp]:
  "feq_check_alice d d = Inr ()"
  "feq_check_bob sha256 d (ag2pc_feq_commitment sha256 d nonce) d nonce = Inr ()"
  by (simp_all add: feq_check_alice_def feq_check_bob_def Let_def)

definition hashes_ok :: "compute_hashes \<Rightarrow> compute_hashes \<Rightarrow> bool" where
  "hashes_ok hA hB \<longleftrightarrow> hA = hB \<and> ch_gmitc hA = ch_emitc hA \<and> fresh (ch_gmitc hA)"

abbreviation vec_rel :: "nat \<Rightarrow> triple_pool_state \<Rightarrow> triple_pool_state \<Rightarrow> share_vecs \<Rightarrow> share_vecs \<Rightarrow> bool" where
  "vec_rel n poolA poolB vA vB \<equiv> rel_vec n (tp_delta poolA) (tp_delta poolB) (fst vA) (snd vA) (fst vB) (snd vB)"

definition is_triple :: "nat \<Rightarrow> block list \<Rightarrow> block list \<Rightarrow> bool" where
  "is_triple l mA mB \<longleftrightarrow> (\<forall>k < l. shared_bit mA mB (2 * l + k) \<longleftrightarrow> shared_bit mA mB k \<and> shared_bit mA mB (l + k))"

lemma rel_vecD:
  assumes "rel_vec n dA dB mA kA mB kB"
  shows "length mA = n" "length kA = n" "length mB = n" "length kB = n"
    and "i < n \<Longrightarrow> rel1 dB (mA ! i) (kB ! i)" "i < n \<Longrightarrow> rel1 dA (mB ! i) (kA ! i)"
  using assms by (auto simp: rel_vec_def rel2_def)

lemma s_bits_err:
  assumes "bit (dA XOR dB) 1" and "x XOR y = sel err (dA XOR dB)"
  shows "(bit x 1 \<noteq> bit y 1) = err"
  using assms by (metis bit_xor_iff sel_simps(4))

lemma nth_third:
  assumes "length xs = 3 * l" and "i < 3 * l"
  shows "(take (2 * l) xs @ map f [0..<l]) ! i = (if i < 2 * l then xs ! i else f (i - 2 * l))"
  using assms by (auto simp: nth_append)

text \<open>Flipping the third component of each position by a public bit.\<close>

lemma rel_vec_flip_third:
  fixes e :: "nat \<Rightarrow> bool"
  assumes rel: "rel_vec (3 * l) dA dB mA kA mB kB" and d: "lsb dB"
  defines "mA' \<equiv> take (2 * l) mA @ map (\<lambda>k. mA ! (2 * l + k) XOR sel (e k) bit0_mask) [0..<l]"
    and "kB' \<equiv> take (2 * l) kB @ map (\<lambda>k. kB ! (2 * l + k) XOR sel (e k) (dB XOR bit0_mask)) [0..<l]"
  shows "rel_vec (3 * l) dA dB mA' kA mB kB'"
    and "i < 2 * l \<Longrightarrow> shared_bit mA' mB i = shared_bit mA mB i"
    and "k < l \<Longrightarrow> shared_bit mA' mB (2 * l + k) = (shared_bit mA mB (2 * l + k) \<noteq> e k)"
proof -
  note r = rel_vecD [OF rel]
  have m: "mA' ! i = (if i < 2 * l then mA ! i else mA ! i XOR sel (e (i - 2 * l)) bit0_mask)"
    and k: "kB' ! i = (if i < 2 * l then kB ! i else kB ! i XOR sel (e (i - 2 * l)) (dB XOR bit0_mask))" if "i < 3 * l" for i
    using that r(1,4) by (auto simp: mA'_def kB'_def nth_third)
  have "rel1 dB (mA' ! i) (kB' ! i)" if "i < 3 * l" for i
    using r(5) [OF that] rel1_flip [OF _ d] by (simp add: m [OF that] k [OF that])
  moreover have "length mA' = 3 * l" "length kB' = 3 * l" using r by (auto simp: mA'_def kB'_def)
  ultimately show "rel_vec (3 * l) dA dB mA' kA mB kB'" using r by (simp add: rel_vec_def rel2_def)
  show "shared_bit mA' mB i = shared_bit mA mB i" if "i < 2 * l" using that by (simp add: shared_bit_def m)
  show "shared_bit mA' mB (2 * l + k) = (shared_bit mA mB (2 * l + k) \<noteq> e k)" if "k < l"
    using that by (auto simp: shared_bit_def m bit_xor_iff)
qed

lemma leaky_and_finish_spec:
  assumes len: "length mac = 3 * l" "length key = 3 * l" "length S1 = l" "length S2 = l"
    and e: "\<And>k. k < l \<Longrightarrow> (bit (S1 ! k) 1 \<noteq> bit (S2 ! k) 1) = e k"
  shows "leaky_and_finish pool mac key l (map block_lsb1 S1) (map block_lsb1 S2) S1 feq = Inr
     (if tp_party pool = Alice then take (2 * l) mac @ map (\<lambda>k. mac ! (2 * l + k) XOR sel (e k) bit0_mask) [0..<l] else mac,
      if tp_party pool = Alice then key
      else take (2 * l) key @ map (\<lambda>k. key ! (2 * l + k) XOR sel (e k) (tp_delta pool XOR bit0_mask)) [0..<l],
      feq @ slice_as_bytes (map (\<lambda>k. S1 ! k XOR sel (e k) (tp_delta pool)) [0..<l]))"
proof -
  have "bit (map block_lsb1 S1 ! k XOR map block_lsb1 S2 ! k) 0 = e k" if "k < l" for k
    using that len e [OF that] by (simp add: bit_xor_iff)
  then have m: "map (\<lambda>k. f k XOR (x AND select_block (map block_lsb1 S1 ! k XOR map block_lsb1 S2 ! k))) [0..<l]
      = map (\<lambda>k. f k XOR sel (e k) x) [0..<l]" for f :: "nat \<Rightarrow> block" and x
    by (intro map_cong refl) (simp only: select_block_sel, simp)
  show ?thesis using len unfolding leaky_and_finish_def require_len_def Let_def m by simp
qed

lemma leaky_and_halfgate_spec:
  assumes pools: "pools_ok poolA poolB" and hs: "hashes_ok hA hB"
    and rel: "vec_rel (3 * l) poolA poolB vA vB"
  shows "\<exists>vA' vB' h. leaky_and_halfgate aes poolA poolB l (vA, hA) (vB, hB) = Inr ((vA', h), (vB', h))
     \<and> hashes_ok h h \<and> vec_rel (3 * l) poolA poolB vA' vB' \<and> is_triple l (fst vA') (fst vB')
     \<and> (\<forall>i < 2 * l. shared_bit (fst vA') (fst vB') i = shared_bit (fst vA) (fst vB) i)"
proof -
  obtain mA kA mB kB where v: "vA = (mA, kA)" "vB = (mB, kB)" by (cases vA, cases vB)
  define dA dB where d: "dA = tp_delta poolA" "dB = tp_delta poolB"
  define s where "s = ch_gmitc hA"
  define s' where "s' = (next_state ^^ ((l + 7) div 8)) s"
  have rel': "rel_vec (3 * l) dA dB mA kA mB kB" using rel by (simp add: v d)
  note r = rel_vecD [OF rel']
  have st: "ch_gmitc hA = s" "ch_emitc hA = s" "ch_gmitc hB = s" "ch_emitc hB = s" "ch_feq hB = ch_feq hA" "fresh s"
    using hs by (auto simp: hashes_ok_def s_def)
  have p: "tp_party poolA = Alice" "tp_party poolB = Bob" "lsb dA" "lsb dB" "bit (dA XOR dB) 1"
    using pools by (simp_all add: pools_ok_def d)
  define gA where "gA = map (g_value aes s dA mA kA l) [0..<l]"
  define gB where "gB = map (g_value aes s dB mB kB l) [0..<l]"
  define SA where "SA = map (s_value aes s dA mA kA l gB) [0..<l]"
  define SB where "SB = map (s_value aes s dB mB kB l gA) [0..<l]"
  define err where "err k = ((shared_bit mA mB k \<and> shared_bit mA mB (l + k)) \<noteq> shared_bit mA mB (2 * l + k))" for k
  have sum: "SA ! k XOR SB ! k = sel (err k) (dA XOR dB)" if "k < l" for k
    unfolding SA_def SB_def err_def
    using s_values_sum [OF rel' that, where wA = gB and wB = gA and s = s and aes = aes] that by (simp add: gA_def gB_def)
  have eb: "(bit (SA ! k) 1 \<noteq> bit (SB ! k) 1) = err k" if "k < l" for k
    using s_bits_err [OF p(5) sum [OF that]] .
  have gl: "length gA = l" "length gB = l" by (simp_all add: gA_def gB_def)
  have Sl: "length SA = l" "length SB = l" by (simp_all add: SA_def SB_def)
  have G: "leaky_and_prepare_g aes poolA mA kA l s = Inr (gA, s')" "leaky_and_prepare_g aes poolB mB kB l s = Inr (gB, s')"
    unfolding gA_def gB_def s'_def d by (rule prepare_g_spec [OF st(6)]; simp add: r)+
  have PA: "leaky_and_prepare_s aes poolA mA kA l s gB = Inr ((map block_lsb1 SA, SA), s')"
    using prepare_s_spec [OF st(6) r(1,2) gl(2), of aes poolA] by (simp only: SA_def s'_def d map_map o_def)
  have PB: "leaky_and_prepare_s aes poolB mB kB l s gA = Inr ((map block_lsb1 SB, SB), s')"
    using prepare_s_spec [OF st(6) r(3,4) gl(1), of aes poolB] by (simp only: SB_def s'_def d map_map o_def)
  define mA' where "mA' = take (2 * l) mA @ map (\<lambda>k. mA ! (2 * l + k) XOR sel (err k) bit0_mask) [0..<l]"
  define kB' where "kB' = take (2 * l) kB @ map (\<lambda>k. kB ! (2 * l + k) XOR sel (err k) (dB XOR bit0_mask)) [0..<l]"
  define f where "f = ch_feq hA @ slice_as_bytes (map (\<lambda>k. SA ! k XOR sel (err k) dA) [0..<l])"
  have fB: "f = ch_feq hA @ slice_as_bytes (map (\<lambda>k. SB ! k XOR sel (err k) dB) [0..<l])"
  proof -
    have "SA ! k XOR sel (err k) dA = SB ! k XOR sel (err k) dB" if "k < l" for k
    proof -
      have "SA ! k = (SA ! k XOR SB ! k) XOR SB ! k" by (simp add: xor.assoc)
      also have "\<dots> = sel (err k) (dA XOR dB) XOR SB ! k" unfolding sum [OF that] ..
      finally show ?thesis by (simp add: sel_xor xor_ac)
    qed
    then have "map (\<lambda>k. SA ! k XOR sel (err k) dA) [0..<l] = map (\<lambda>k. SB ! k XOR sel (err k) dB) [0..<l]" by simp
    then show ?thesis by (simp only: f_def)
  qed
  have FA: "leaky_and_finish poolA mA kA l (map block_lsb1 SA) (map block_lsb1 SB) SA (ch_feq hA) = Inr (mA', kA, f)"
    using leaky_and_finish_spec [OF r(1,2) Sl eb, of poolA "ch_feq hA"] by (simp add: p mA'_def f_def d)
  have FB: "leaky_and_finish poolB mB kB l (map block_lsb1 SB) (map block_lsb1 SA) SB (ch_feq hA) = Inr (mB, kB', f)"
  proof -
    have "(bit (SB ! k) 1 \<noteq> bit (SA ! k) 1) = err k" if "k < l" for k using eb [OF that] by auto
    from leaky_and_finish_spec [OF r(3,4) Sl(2,1) this, of poolB "ch_feq hA"] show ?thesis by (simp add: p kB'_def fB d)
  qed
  have run: "leaky_and_halfgate aes poolA poolB l (vA, hA) (vB, hB) =
      Inr (((mA', kA), \<lparr>ch_gmitc = s', ch_emitc = s', ch_feq = f\<rparr>), ((mB, kB'), \<lparr>ch_gmitc = s', ch_emitc = s', ch_feq = f\<rparr>))"
    unfolding leaky_and_halfgate_def v prod.case st G PA PB bindR_simps shape_simps sent_block_lsbs FA FB ..
  note flip = rel_vec_flip_third [OF rel' p(4), where e = err, folded mA'_def kB'_def]
  have tri: "is_triple l mA' mB" unfolding is_triple_def
    by (intro allI impI) (simp only: flip(2,3), auto simp: flip(2) err_def)
  show ?thesis
    by (rule exI, rule exI, rule exI, rule conjI, rule run)
       (use flip tri in \<open>simp add: hashes_ok_def s'_def fresh_iter [OF st(6)] d v\<close>)
qed

lemma rot_src_less: "r < l \<Longrightarrow> i < l \<Longrightarrow> rot_src l r i < l"
  by (auto simp: rot_src_def)

lemma bucket_prepare_layer_spec:
  assumes "length am = 3 * l" "length ak = 3 * l" "length lm = 3 * l" "length lk = 3 * l" and "r < l"
  defines "P \<equiv> \<lambda>xs ys. map (\<lambda>i. if i < l then xs ! i XOR ys ! rot_src l r i
      else if i < 2 * l then xs ! i else xs ! i XOR ys ! (2 * l + rot_src l r (i - 2 * l))) [0..<3 * l]"
  shows "bucket_prepare_layer am ak lm lk l r = Inr
     (map (\<lambda>i. block_lsb (am ! (l + i)) XOR block_lsb (lm ! (l + rot_src l r i))) [0..<l], P am lm, P ak lk)"
proof -
  have "map f [0..<l] @ map (\<lambda>i. g (l + i)) [0..<l] @ map (\<lambda>i. h i) [0..<l]
     = map (\<lambda>i. if i < l then f i else if i < 2 * l then g i else h (i - 2 * l)) [0..<3 * l]" for f g h :: "nat \<Rightarrow> block"
    by (rule nth_equalityI) (auto simp: nth_append mult_2)
  from this [of "\<lambda>i. xs ! i XOR ys ! rot_src l r i" "\<lambda>i. xs ! i" "\<lambda>i. xs ! (2 * l + i) XOR ys ! (2 * l + rot_src l r i)" for xs ys]
  have P: "map (\<lambda>i. xs ! i XOR ys ! rot_src l r i) [0..<l] @ map (\<lambda>i. xs ! (l + i)) [0..<l]
      @ map (\<lambda>i. xs ! (2 * l + i) XOR ys ! (2 * l + rot_src l r i)) [0..<l] = P xs ys" for xs ys
    by (simp add: P_def)
  have ex: "(\<exists>i \<in> set [0..<l]. 3 * l \<le> 2 * l + rot_src l r i) = False" using rot_src_less [OF assms(5)] by fastforce
  show ?thesis using assms(1-4) unfolding bucket_prepare_layer_def require_len_def Let_def P ex by simp
qed

lemma bucket_finish_layer_spec:
  assumes "length am = 3 * l" "length ak = 3 * l" "length lm = 3 * l" "length lk = 3 * l" and "r < l"
    and "length d = l" "length d' = l" and e: "\<And>i. i < l \<Longrightarrow> bit (d ! i XOR d' ! i) 0 = e i"
  shows "bucket_finish_layer am ak lm lk l r d d' = Inr
     (take (2 * l) am @ map (\<lambda>i. am ! (2 * l + i) XOR sel (e i) (lm ! rot_src l r i)) [0..<l],
      take (2 * l) ak @ map (\<lambda>i. ak ! (2 * l + i) XOR sel (e i) (lk ! rot_src l r i)) [0..<l])"
proof -
  have m: "map (\<lambda>i. f i XOR (g i AND select_block (d ! i XOR d' ! i))) [0..<l] = map (\<lambda>i. f i XOR sel (e i) (g i)) [0..<l]"
    for f g :: "nat \<Rightarrow> block"
    by (intro map_cong refl) (simp only: select_block_sel, simp add: e)
  have ex: "(\<exists>i \<in> set [0..<l]. 3 * l \<le> rot_src l r i) = False" using rot_src_less [OF assms(5)] by fastforce
  show ?thesis using assms(1-7) unfolding bucket_finish_layer_def require_len_def Let_def m ex by simp
qed

lemma rel_vecI:
  assumes "length mA = n" "length kA = n" "length mB = n" "length kB = n"
    and "\<And>i. i < n \<Longrightarrow> rel1 dB (mA ! i) (kB ! i)" "\<And>i. i < n \<Longrightarrow> rel1 dA (mB ! i) (kA ! i)"
  shows "rel_vec n dA dB mA kA mB kB"
  using assms by (simp add: rel_vec_def rel2_def)

lemma sel_lsb_rel: "rel1 d m k \<Longrightarrow> rel1 d m' k' \<Longrightarrow> rel1 d (m XOR sel e m') (k XOR sel e k')"
  by (rule rel1_xor) (auto intro: rel1_sel)

lemma layered_bucket_layer_spec:
  assumes pools: "pools_ok poolA poolB" and hs: "hashes_ok hA hB" and lt: "r < l"
    and acc: "vec_rel (3 * l) poolA poolB accA accB" and tri: "is_triple l (fst accA) (fst accB)"
    and sac: "vec_rel (3 * l) poolA poolB sacA sacB"
  shows "\<exists>accA' accB' h. layered_bucket_into_acc_layer aes poolA poolB l (sacA, sacB, r) ((accA, hA), (accB, hB))
       = Inr ((accA', h), (accB', h))
     \<and> hashes_ok h h \<and> vec_rel (3 * l) poolA poolB accA' accB' \<and> is_triple l (fst accA') (fst accB')"
proof -
  obtain sA sB h where run: "leaky_and_halfgate aes poolA poolB l (sacA, hA) (sacB, hB) = Inr ((sA, h), (sB, h))"
    and h: "hashes_ok h h" and srel: "vec_rel (3 * l) poolA poolB sA sB" and stri: "is_triple l (fst sA) (fst sB)"
    using leaky_and_halfgate_spec [OF pools hs sac] by metis
  obtain mA kA mB kB where v: "accA = (mA, kA)" "accB = (mB, kB)" by (cases accA, cases accB)
  obtain uA wA uB wB where sv: "sA = (uA, wA)" "sB = (uB, wB)" by (cases sA, cases sB)
  define dA dB where d: "dA = tp_delta poolA" "dB = tp_delta poolB"
  note a = rel_vecD [OF acc [unfolded v fst_conv snd_conv]] and b = rel_vecD [OF srel [unfolded sv fst_conv snd_conv]]
  let ?s = "rot_src l r"
  have sl: "?s i < l" if "i < l" for i using rot_src_less [OF lt that] .
  define P where "P = (\<lambda>xs ys :: block list. map (\<lambda>i. if i < l then xs ! i XOR ys ! ?s i
      else if i < 2 * l then xs ! i else xs ! i XOR ys ! (2 * l + ?s (i - 2 * l))) [0..<3 * l])"
  define F where "F = (\<lambda>e xs ys :: block list. take (2 * l) xs @ map (\<lambda>i. xs ! (2 * l + i) XOR sel (e i) (ys ! ?s i)) [0..<l])"
  define D where "D = (\<lambda>xs ys :: block list. map (\<lambda>i. block_lsb (xs ! (l + i)) XOR block_lsb (ys ! (l + ?s i))) [0..<l])"
  define e where "e i = (shared_bit mA mB (l + i) \<noteq> shared_bit uA uB (l + ?s i))" for i
  have PA: "bucket_prepare_layer mA kA uA wA l r = Inr (D mA uA, P mA uA, P kA wA)"
    and PB: "bucket_prepare_layer mB kB uB wB l r = Inr (D mB uB, P mB uB, P kB wB)"
    unfolding D_def P_def by (rule bucket_prepare_layer_spec; simp add: a b lt)+
  have P: "length (P xs ys) = 3 * l" "i < 3 * l \<Longrightarrow> P xs ys ! i = (if i < l then xs ! i XOR ys ! ?s i
      else if i < 2 * l then xs ! i else xs ! i XOR ys ! (2 * l + ?s (i - 2 * l)))" for xs ys i
    by (simp_all add: P_def)
  have dl: "length (D xs ys) = l" for xs ys by (simp add: D_def)
  have sD: "sent_bools (D xs ys) = D xs ys" for xs ys unfolding D_def by (rule sent_block_lsbs)
  have eD: "bit (D mA uA ! i XOR D mB uB ! i) 0 = e i" "bit (D mB uB ! i XOR D mA uA ! i) 0 = e i" if "i < l" for i
    using that by (auto simp: D_def bit_xor_iff e_def shared_bit_def)
  have FA: "bucket_finish_layer (P mA uA) (P kA wA) uA wA l r (D mA uA) (D mB uB) = Inr (F e (P mA uA) uA, F e (P kA wA) wA)"
    and FB: "bucket_finish_layer (P mB uB) (P kB wB) uB wB l r (D mB uB) (D mA uA) = Inr (F e (P mB uB) uB, F e (P kB wB) wB)"
    unfolding F_def by (rule bucket_finish_layer_spec; simp add: a b P dl lt eD)+
  have layer: "layered_bucket_into_acc_layer aes poolA poolB l (sacA, sacB, r) ((accA, hA), (accB, hB))
     = Inr (((F e (P mA uA) uA, F e (P kA wA) wA), h), ((F e (P mB uB) uB, F e (P kB wB) wB), h))"
    unfolding layered_bucket_into_acc_layer_def prod.case run bindR_simps shape_simps v sv fst_conv snd_conv PA PB sD FA FB ..
  have Fl: "length (F e (P xs ys) ys) = 3 * l" for xs ys by (simp add: F_def P)
  have F: "F e (P xs ys) ys ! i = (if i < l then xs ! i XOR ys ! ?s i else if i < 2 * l then xs ! i
      else (xs ! i XOR ys ! (2 * l + ?s (i - 2 * l))) XOR sel (e (i - 2 * l)) (ys ! ?s (i - 2 * l)))" if "i < 3 * l" for xs ys i
    using that unfolding F_def by (subst nth_third) (auto simp: P)
  have rel1F: "rel1 d (F e (P m u) u ! i) (F e (P k w) w ! i)"
    if i: "i < 3 * l" and m: "\<And>j. j < 3 * l \<Longrightarrow> rel1 d (m ! j) (k ! j)" and u: "\<And>j. j < 3 * l \<Longrightarrow> rel1 d (u ! j) (w ! j)" for d m u k w i
  proof -
    have s: "?s i < 3 * l" if "i < l" using sl [OF that] by simp
    have s2: "?s (i - 2 * l) < l" if "\<not> i < 2 * l" using sl [of "i - 2 * l"] that i by simp
    show ?thesis unfolding F [OF i] using s s2 i
      by (auto intro!: rel1_xor rel1_sel m u)
  qed
  have rel: "rel_vec (3 * l) dA dB (F e (P mA uA) uA) (F e (P kA wA) wA) (F e (P mB uB) uB) (F e (P kB wB) wB)"
    by (rule rel_vecI [OF Fl Fl Fl Fl]) (rule rel1F; simp add: a b d)+
  have tri': "is_triple l (F e (P mA uA) uA) (F e (P mB uB) uB)" unfolding is_triple_def
  proof (intro allI impI)
    fix k assume k: "k < l"
    have t: "shared_bit mA mB (2 * l + k) = (shared_bit mA mB k \<and> shared_bit mA mB (l + k))"
      "shared_bit uA uB (2 * l + ?s k) = (shared_bit uA uB (?s k) \<and> shared_bit uA uB (l + ?s k))"
      using tri stri k sl [OF k] by (simp_all add: is_triple_def v sv)
    have "shared_bit (F e (P mA uA) uA) (F e (P mB uB) uB) k = (shared_bit mA mB k \<noteq> shared_bit uA uB (?s k))"
      using k by (auto simp: shared_bit_def F bit_xor_iff)
    moreover have "shared_bit (F e (P mA uA) uA) (F e (P mB uB) uB) (l + k) = shared_bit mA mB (l + k)"
      using k by (auto simp: shared_bit_def F bit_xor_iff)
    moreover have "shared_bit (F e (P mA uA) uA) (F e (P mB uB) uB) (2 * l + k) =
      ((shared_bit mA mB (2 * l + k) \<noteq> shared_bit uA uB (2 * l + ?s k)) \<noteq> (e k \<and> shared_bit uA uB (?s k)))"
      using k by (auto simp: shared_bit_def F bit_xor_iff)
    ultimately show "shared_bit (F e (P mA uA) uA) (F e (P mB uB) uB) (2 * l + k) \<longleftrightarrow>
        shared_bit (F e (P mA uA) uA) (F e (P mB uB) uB) k \<and> shared_bit (F e (P mA uA) uA) (F e (P mB uB) uB) (l + k)"
      by (auto simp: t e_def)
  qed
  show ?thesis
    by (rule exI, rule exI, rule exI, rule conjI, rule layer) (use h rel tri' in \<open>simp add: d\<close>)
qed

lemma layers_spec:
  assumes pools: "pools_ok poolA poolB"
    and lay: "\<forall>(sacA, sacB, r) \<in> set layers. r < l \<and> vec_rel (3 * l) poolA poolB sacA sacB"
    and "hashes_ok hA hB" "vec_rel (3 * l) poolA poolB accA accB" "is_triple l (fst accA) (fst accB)"
  shows "\<exists>accA' accB' h. foldR (layered_bucket_into_acc_layer aes poolA poolB l) layers ((accA, hA), (accB, hB))
       = Inr ((accA', h), (accB', h))
     \<and> hashes_ok h h \<and> vec_rel (3 * l) poolA poolB accA' accB' \<and> is_triple l (fst accA') (fst accB')"
  using assms(2-)
proof (induction layers arbitrary: accA accB hA hB)
  case Nil
  then have "hA = hB" by (simp add: hashes_ok_def)
  with Nil show ?case by simp
next
  case (Cons y layers)
  obtain sacA sacB r where y: "y = (sacA, sacB, r)" by (cases y)
  have "r < l" "vec_rel (3 * l) poolA poolB sacA sacB" using Cons.prems(1) by (simp_all add: y)
  from layered_bucket_layer_spec [OF pools Cons.prems(2) this(1) Cons.prems(3,4) this(2)]
  obtain accA' accB' h where "layered_bucket_into_acc_layer aes poolA poolB l (sacA, sacB, r) ((accA, hA), (accB, hB))
       = Inr ((accA', h), (accB', h))"
     and "hashes_ok h h" "vec_rel (3 * l) poolA poolB accA' accB'" "is_triple l (fst accA') (fst accB')" by blast
  with Cons.IH [of h h accA' accB'] Cons.prems(1) show ?case by (simp add: y)
qed

lemma fresh_hashes: "hashes_ok (compute_hashes_new Alice) (compute_hashes_new Bob)"
  by (simp add: hashes_ok_def compute_hashes_new_def pair_seed_def Let_def fresh_def, simp add: mitccrh_new_def)

text \<open>One side of the last step: the product of the shifted triple, with the public part on the other side.\<close>

lemma compute_finish_spec:
  assumes "length xm = l" "length ym = l" "length xp = l" "length yp = l" and "cb_l cb = l"
    and "\<And>i. i < l \<Longrightarrow> bit (xm ! i XOR xp ! i) 0 = ex i" "\<And>i. i < l \<Longrightarrow> bit (ym ! i XOR yp ! i) 0 = ey i"
  defines "val \<equiv> \<lambda>vs i. (vs ! (2 * l + i) XOR sel (ex i) (vs ! (l + i))) XOR sel (ey i) (vs ! i)"
  shows "compute_finish pool cb xm ym xp yp = Inr (map (\<lambda>i.
      if tp_party pool = Alice then \<lparr>as_mac = val (acc_mac cb) i XOR sel (ex i \<and> ey i) bit0_mask, as_key = val (acc_key cb) i\<rparr>
      else \<lparr>as_mac = val (acc_mac cb) i, as_key = val (acc_key cb) i XOR sel (ex i \<and> ey i) (tp_delta pool XOR bit0_mask)\<rparr>) [0..<l])"
proof -
  have filt: "filter (\<lambda>bits. length bits \<noteq> l) [xm, ym, xp, yp] = []" using assms(1-4) by simp
  show ?thesis unfolding compute_finish_def Let_def assms(5) filt list.case
    by (intro arg_cong [where f = Inr] map_cong refl) (simp add: assms(6,7) bit_and_iff val_def xor.assoc)
qed

lemma compute_buffers:
  assumes "length as = l" "length bs = l" "length rm = l" "length rk = l"
  shows "\<exists>cb. compute_buffer_new bucket as bs = Inr cb \<and> cb_l cb = l \<and> cb_bucket cb = bucket \<and>
    insert_random_cots rm rk cb = Inr \<lparr>cb_l = l, cb_bucket = bucket,
        rep_a_lsb = map (\<lambda>s. block_lsb (as_mac s)) as, rep_b_lsb = map (\<lambda>s. block_lsb (as_mac s)) bs,
        acc_mac = map as_mac as @ map as_mac bs @ rm, acc_key = map as_key as @ map as_key bs @ rk\<rparr>"
  using assms by (simp add: compute_buffer_new_def insert_random_cots_def Let_def mult_2)

lemma rel_vec_append:
  assumes "rel_vec n dA dB mA kA mB kB" "rel_vec n' dA dB mA' kA' mB' kB'"
  shows "rel_vec (n + n') dA dB (mA @ mA') (kA @ kA') (mB @ mB') (kB @ kB')"
  using assms by (auto simp: rel_vec_def nth_append)

lemma share_bundles_rel:
  assumes "\<And>i. i < l \<Longrightarrow> rel1 dB (f i) (g' i)" "\<And>i. i < l \<Longrightarrow> rel1 dA (f' i) (g i)"
  shows "verify_share_relation (map (\<lambda>i. \<lparr>as_mac = f i, as_key = g i\<rparr>) [0..<l]) dA
     (map (\<lambda>i. \<lparr>as_mac = f' i, as_key = g' i\<rparr>) [0..<l]) dB"
  unfolding verify_share_relation_vec by (rule rel_vecI) (auto simp: assms)

lemma finish_pair:
  assumes pools: "pools_ok poolA poolB"
    and acc: "vec_rel (3 * l) poolA poolB accA accB" and tri: "is_triple l (fst accA) (fst accB)"
    and cb: "cb_l cbA = l" "cb_l cbB = l" "acc_mac cbA = fst accA" "acc_key cbA = snd accA" "acc_mac cbB = fst accB" "acc_key cbB = snd accB"
    and ra: "\<And>i. i < l \<Longrightarrow> (bit (rep_a_lsb cbA ! i) 0 \<noteq> bit (rep_a_lsb cbB ! i) 0) = a i"
    and rb: "\<And>i. i < l \<Longrightarrow> (bit (rep_b_lsb cbA ! i) 0 \<noteq> bit (rep_b_lsb cbB ! i) 0) = b i"
  shows "\<exists>outA outB.
     compute_finish poolA cbA (fst (opening_bits cbA)) (snd (opening_bits cbA)) (fst (opening_bits cbB)) (snd (opening_bits cbB)) = Inr outA
   \<and> compute_finish poolB cbB (fst (opening_bits cbB)) (snd (opening_bits cbB)) (fst (opening_bits cbA)) (snd (opening_bits cbA)) = Inr outB
   \<and> length outA = l \<and> verify_share_relation outA (tp_delta poolA) outB (tp_delta poolB)
   \<and> (\<forall>i < l. share_value outA outB i = (a i \<and> b i))"
proof -
  define dA dB where d: "dA = tp_delta poolA" "dB = tp_delta poolB"
  have p: "tp_party poolA = Alice" "tp_party poolB = Bob" "lsb dB" using pools by (simp_all add: pools_ok_def d)
  obtain mA kA mB kB where v: "accA = (mA, kA)" "accB = (mB, kB)" by (cases accA, cases accB)
  note r = rel_vecD [OF acc [unfolded v fst_conv snd_conv], folded d]
  define ex where "ex i = (a i \<noteq> shared_bit mA mB i)" for i
  define ey where "ey i = (b i \<noteq> shared_bit mA mB (l + i))" for i
  define val where "val vs i = (vs ! (2 * l + i) XOR sel (ex i) (vs ! (l + i))) XOR sel (ey i) (vs ! i)" for vs :: "block list" and i
  define xA yA xB yB where o: "xA = fst (opening_bits cbA)" "yA = snd (opening_bits cbA)"
    "xB = fst (opening_bits cbB)" "yB = snd (opening_bits cbB)"
  have ol: "length xA = l" "length yA = l" "length xB = l" "length yB = l"
    by (simp_all add: o opening_bits_def Let_def cb)
  have obx: "bit (xA ! i XOR xB ! i) 0 = ex i" "bit (xB ! i XOR xA ! i) 0 = ex i"
    and oby: "bit (yA ! i XOR yB ! i) 0 = ey i" "bit (yB ! i XOR yA ! i) 0 = ey i" if "i < l" for i
    using that ra [OF that] rb [OF that]
    by (auto simp: o opening_bits_def Let_def cb v bit_xor_iff ex_def ey_def shared_bit_def)
  define outA where "outA = map (\<lambda>i. \<lparr>as_mac = val mA i XOR sel (ex i \<and> ey i) bit0_mask, as_key = val kA i\<rparr>) [0..<l]"
  define outB where "outB = map (\<lambda>i. \<lparr>as_mac = val mB i, as_key = val kB i XOR sel (ex i \<and> ey i) (dB XOR bit0_mask)\<rparr>) [0..<l]"
  have FA: "compute_finish poolA cbA xA yA xB yB = Inr outA"
    using compute_finish_spec [OF ol(1,2,3,4) cb(1) obx(1) oby(1), of poolA] by (simp add: p cb v outA_def val_def)
  have FB: "compute_finish poolB cbB xB yB xA yA = Inr outB"
    using compute_finish_spec [OF ol(3,4,1,2) cb(2) obx(2) oby(2), of poolB] by (simp add: p cb v outB_def val_def d)
  have val: "rel1 dd (val m i) (val k i)" if "\<And>j. j < 3 * l \<Longrightarrow> rel1 dd (m ! j) (k ! j)" "i < l" for dd m k i
    unfolding val_def using that by (auto intro!: rel1_xor rel1_sel)
  have rel: "verify_share_relation outA dA outB dB" unfolding outA_def outB_def
    by (rule share_bundles_rel) (auto intro!: rel1_flip val r p(3))
  have "share_value outA outB i = (a i \<and> b i)" if i: "i < l" for i
  proof -
    have t: "shared_bit mA mB (2 * l + i) = (shared_bit mA mB i \<and> shared_bit mA mB (l + i))"
      using tri i by (simp add: is_triple_def v)
    have "share_value outA outB i = ((((shared_bit mA mB (2 * l + i) \<noteq> (ex i \<and> shared_bit mA mB (l + i)))
        \<noteq> (ey i \<and> shared_bit mA mB i))) \<noteq> (ex i \<and> ey i))"
      using i by (auto simp: share_value_def outA_def outB_def val_def bit_xor_iff shared_bit_def)
    then show ?thesis by (auto simp: t ex_def ey_def)
  qed
  then show ?thesis using FA FB rel unfolding o d by (auto simp: outA_def)
qed

lemma sent_bools_opening:
  assumes "length as = l"
  shows "sent_bools (map (\<lambda>i. map (\<lambda>s. block_lsb (as_mac s)) as ! i XOR block_lsb (f i)) [0..<l])
     = map (\<lambda>i. map (\<lambda>s. block_lsb (as_mac s)) as ! i XOR block_lsb (f i)) [0..<l]"
  using assms by (intro sent_bools) (auto simp: xor_of_bool)

lemma compute_run:
  assumes "pools_ok poolA poolB"
    and "verify_share_relation aA (tp_delta poolA) aB (tp_delta poolB)"
    and "verify_share_relation bA (tp_delta poolA) bB (tp_delta poolB)"
    and "length bA = length aA"
    and "vec_rel (length aA) poolA poolB (fst cots) (snd cots)"
    and "\<forall>(sacA, sacB, r) \<in> set layers. r < length aA \<and> vec_rel (3 * length aA) poolA poolB sacA sacB"
  shows "\<exists>poolA' poolB' outA outB. compute_inplace_owned aes sha256 nonce bucket cots layers poolA poolB (aA, bA) (aB, bB)
       = Inr ((poolA', outA), (poolB', outB)) \<and> pools_ok poolA' poolB' \<and> tp_delta poolA' = tp_delta poolA \<and> tp_delta poolB' = tp_delta poolB
     \<and> length outA = length aA \<and> verify_share_relation outA (tp_delta poolA) outB (tp_delta poolB)
     \<and> (\<forall>i < length aA. share_value outA outB i \<longleftrightarrow> share_value aA aB i \<and> share_value bA bB i)"
proof -
  define l where "l = length aA"
  define dA dB where d: "dA = tp_delta poolA" "dB = tp_delta poolB"
  obtain cm ck em ek where c: "cots = ((cm, ck), (em, ek))" by (cases cots) (metis surj_pair)
  note A = assms(2) [unfolded verify_share_relation_vec, folded d l_def] and B = assms(3) [unfolded verify_share_relation_vec assms(4), folded d l_def]
  have C: "rel_vec l dA dB cm ck em ek" using assms(5) by (simp add: c d l_def)
  have len: "length aA = l" "length bA = l" "length aB = l" "length bB = l"
    using rel_vecD(1,3) [OF A] rel_vecD(1,3) [OF B] by simp_all
  have clen: "length cm = l" "length ck = l" "length em = l" "length ek = l" using rel_vecD(1-4) [OF C] .
  define mA where "mA = map as_mac aA @ map as_mac bA @ cm"
  define kA where "kA = map as_key aA @ map as_key bA @ ck"
  define mB where "mB = map as_mac aB @ map as_mac bB @ em"
  define kB where "kB = map as_key aB @ map as_key bB @ ek"
  obtain cbA where cbA: "compute_buffer_new bucket aA bA = Inr cbA" "cb_l cbA = l" "cb_bucket cbA = bucket"
    "insert_random_cots cm ck cbA = Inr \<lparr>cb_l = l, cb_bucket = bucket, rep_a_lsb = map (\<lambda>s. block_lsb (as_mac s)) aA,
       rep_b_lsb = map (\<lambda>s. block_lsb (as_mac s)) bA, acc_mac = mA, acc_key = kA\<rparr>"
    using compute_buffers [OF len(1,2) clen(1,2), of bucket] unfolding mA_def kA_def by blast
  obtain cbB where cbB: "compute_buffer_new bucket aB bB = Inr cbB" "cb_l cbB = l" "cb_bucket cbB = bucket"
    "insert_random_cots em ek cbB = Inr \<lparr>cb_l = l, cb_bucket = bucket, rep_a_lsb = map (\<lambda>s. block_lsb (as_mac s)) aB,
       rep_b_lsb = map (\<lambda>s. block_lsb (as_mac s)) bB, acc_mac = mB, acc_key = kB\<rparr>"
    using compute_buffers [OF len(3,4) clen(3,4), of bucket] unfolding mB_def kB_def by blast
  show ?thesis
  proof (cases "l = 0")
    case True
    then have run: "compute_inplace_owned aes sha256 nonce bucket cots layers poolA poolB (aA, bA) (aB, bB) = Inr ((poolA, []), (poolB, []))"
      unfolding compute_inplace_owned_def prod.case cbA(1) cbB(1) shape_simps bindR_simps Let_def cbA(2) by simp
    show ?thesis unfolding run using True assms(1) by (simp add: verify_share_relation_def l_def)
  next
    case False
    let ?pA = "mark_cots_minted poolA" let ?pB = "mark_cots_minted poolB"
    have ok: "pools_ok ?pA ?pB" using assms(1) by simp
    have p: "tp_party poolA = Alice" "tp_party poolB = Bob" using assms(1) by (simp_all add: pools_ok_def)
    have "rel_vec (l + (l + l)) dA dB mA kA mB kB" unfolding mA_def kA_def mB_def kB_def
      by (intro rel_vec_append A B C)
    moreover have "l + (l + l) = 3 * l" by simp
    ultimately have rel: "vec_rel (3 * l) ?pA ?pB (mA, kA) (mB, kB)" by (simp only: d fst_conv snd_conv mark_cots_delta)
    obtain vA vB h where H: "leaky_and_halfgate aes ?pA ?pB l ((mA, kA), compute_hashes_new Alice) ((mB, kB), compute_hashes_new Bob)
        = Inr ((vA, h), (vB, h))" "hashes_ok h h" "vec_rel (3 * l) ?pA ?pB vA vB" "is_triple l (fst vA) (fst vB)"
      using leaky_and_halfgate_spec [OF ok fresh_hashes rel, of aes] by metis
    have lay: "\<forall>(sacA, sacB, r) \<in> set (take (bucket - 1) layers). r < l \<and> vec_rel (3 * l) ?pA ?pB sacA sacB"
      using assms(6) unfolding mark_cots_delta l_def by (auto dest: in_set_takeD)
    obtain accA accB h' where L: "foldR (layered_bucket_into_acc_layer aes ?pA ?pB l) (take (bucket - 1) layers) ((vA, h), (vB, h))
        = Inr ((accA, h'), (accB, h'))" "vec_rel (3 * l) ?pA ?pB accA accB" "is_triple l (fst accA) (fst accB)"
      using layers_spec [OF ok lay H(2,3,4), of aes] by metis
    define eA where "eA = \<lparr>cb_l = l, cb_bucket = bucket, rep_a_lsb = map (\<lambda>s. block_lsb (as_mac s)) aA,
       rep_b_lsb = map (\<lambda>s. block_lsb (as_mac s)) bA, acc_mac = fst accA, acc_key = snd accA\<rparr>"
    define eB where "eB = \<lparr>cb_l = l, cb_bucket = bucket, rep_a_lsb = map (\<lambda>s. block_lsb (as_mac s)) aB,
       rep_b_lsb = map (\<lambda>s. block_lsb (as_mac s)) bB, acc_mac = fst accB, acc_key = snd accB\<rparr>"
    obtain outA outB where
      F: "compute_finish ?pA eA (fst (opening_bits eA)) (snd (opening_bits eA)) (fst (opening_bits eB)) (snd (opening_bits eB)) = Inr outA"
         "compute_finish ?pB eB (fst (opening_bits eB)) (snd (opening_bits eB)) (fst (opening_bits eA)) (snd (opening_bits eA)) = Inr outB"
      and out: "length outA = l" "verify_share_relation outA dA outB dB"
         "\<forall>i < l. share_value outA outB i = (share_value aA aB i \<and> share_value bA bB i)"
      using finish_pair [OF ok L(2,3), of eA eB "share_value aA aB" "share_value bA bB"] len
      unfolding d mark_cots_delta by (auto simp: eA_def eB_def share_value_def)
    have sent: "sent_bools (fst (opening_bits cb)) = fst (opening_bits cb)" "sent_bools (snd (opening_bits cb)) = snd (opening_bits cb)"
      if "cb = eA \<or> cb = eB" for cb using that len
      by (auto simp: eA_def eB_def opening_bits_def Let_def simp del: block_lsb_bit(1) intro!: sent_bools_opening)
    have run: "compute_inplace_owned aes sha256 nonce bucket cots layers poolA poolB (aA, bA) (aB, bB) = Inr ((?pA, outA), (?pB, outB))"
      unfolding compute_inplace_owned_def prod.case cbA(1) cbB(1) shape_simps bindR_simps Let_def cbA(2) c fst_conv snd_conv cbA(3,4) cbB(4) p
        compute_buffer.select_convs mark_cots_delta H(1) L(1) compute_buffer.update_convs eA_def [symmetric] eB_def [symmetric] split_beta F
      using False by (simp add: H(1) L(1) F p eA_def [symmetric] eB_def [symmetric] split_beta sent del: block_lsb_bit)
    show ?thesis using run out ok unfolding l_def [symmetric] d mark_cots_delta by fastforce
  qed
qed

text \<open>C6: The core of the authenticated two-party computation is right. Two honest sides hold authenticated
  shares of two vectors of bits, run \<open>compute_inplace_owned\<close> over channels that deliver what is sent (the
  half-gate leaky AND, the bucketing layers and the final Beaver step), with deltas as the session sets them
  up (\<open>setup_pools_ok\<close>) and correlated OTs that are right. Then the run succeeds on both sides, the equality
  check and every other check pass, and the results are shares, with the MAC relation that
  \<open>verify_share_relation\<close> checks, of the bitwise AND of the two vectors.\<close>
theorem compute_triples_correct:
  assumes "pools_ok poolA poolB"
    and "verify_share_relation aA (tp_delta poolA) aB (tp_delta poolB)"
    and "verify_share_relation bA (tp_delta poolA) bB (tp_delta poolB)"
    and "length bA = length aA"
    and "vec_rel (length aA) poolA poolB (fst cots) (snd cots)"
    and "\<forall>(sacA, sacB, r) \<in> set layers. r < length aA \<and> vec_rel (3 * length aA) poolA poolB sacA sacB"
  shows "\<exists>poolA' poolB' outA outB. compute_inplace_owned aes sha256 nonce bucket cots layers poolA poolB (aA, bA) (aB, bB)
       = Inr ((poolA', outA), (poolB', outB)) \<and> pools_ok poolA' poolB' \<and> tp_delta poolA' = tp_delta poolA \<and> tp_delta poolB' = tp_delta poolB
     \<and> length outA = length aA \<and> verify_share_relation outA (tp_delta poolA) outB (tp_delta poolB)
     \<and> (\<forall>i < length aA. share_value outA outB i \<longleftrightarrow> share_value aA aB i \<and> share_value bA bB i)"
  by (rule compute_run [OF assms])

theorem compute_triples_correct_witness:
  "\<exists>poolA' poolB' outA outB.
     compute_inplace_owned (\<lambda>key b. key XOR b) (\<lambda>x. x) 7 2
       (([0], [0]), ([0], [0])) [((([0, 0, 0], [0, 0, 0])), ([0, 0, 0], [0, 0, 0]), 0)]
       (setup_pool Alice 40 9) (setup_pool Bob 40 9)
       ([\<lparr>as_mac = normalize_ag2pc_delta Bob 9, as_key = 0\<rparr>], [\<lparr>as_mac = 0, as_key = 0\<rparr>])
       ([\<lparr>as_mac = 0, as_key = 0\<rparr>], [\<lparr>as_mac = normalize_ag2pc_delta Alice 9, as_key = 0\<rparr>])
     = Inr ((poolA', outA), (poolB', outB)) \<and> length outA = 1
     \<and> verify_share_relation outA (normalize_ag2pc_delta Alice 9) outB (normalize_ag2pc_delta Bob 9) \<and> share_value outA outB 0"
  using compute_triples_correct [OF setup_pools_ok [of 40 9 9], where
        aA = "[\<lparr>as_mac = normalize_ag2pc_delta Bob 9, as_key = 0\<rparr>]" and aB = "[\<lparr>as_mac = 0, as_key = 0\<rparr>]"
        and bA = "[\<lparr>as_mac = 0, as_key = 0\<rparr>]" and bB = "[\<lparr>as_mac = normalize_ag2pc_delta Alice 9, as_key = 0\<rparr>]"
        and cots = "(([0], [0]), ([0], [0]))" and layers = "[((([0, 0, 0], [0, 0, 0])), ([0, 0, 0], [0, 0, 0]), 0)]"
        and aes = "\<lambda>key b. key XOR b" and ?sha256.0 = "\<lambda>x. x" and nonce = 7 and bucket = 2]
  by (simp add: setup_pool_def triple_pool_new_def verify_share_relation_def share_value_def Let_def
        rel_vec_def rel2_def rel1_def less_Suc_eq numeral_3_eq_3) blast

end
