(* ===== verification/Program.thy ===== *)
theory Program
  imports Compat_Types Circuit_Build
begin

text \<open>
  The direct programs of \<open>shachain2pc-emp-compat/src/program.rs\<close>: gates packed into two \<open>u32\<close>, with
  implicit outputs (gate \<open>i\<close> writes wire \<open>num_inputs + i\<close>), the conversion of a circuit, and the builder
  with the chunk and tile programs it makes straight from the gadget. A failed index is \<open>APanic\<close>.
\<close>

unbundle bit_operations_syntax

section \<open>Gates\<close>

datatype ag_type = AgAnd | AgXor | AgInv

definition AG2PC_GATE_TYPE_SHIFT :: nat where
  "AG2PC_GATE_TYPE_SHIFT = 30"

definition AG2PC_GATE_WIRE_MASK :: u32 where
  "AG2PC_GATE_WIRE_MASK = push_bit AG2PC_GATE_TYPE_SHIFT 1 - 1"

definition AG2PC_GATE_WIRE_LIMIT :: nat where
  "AG2PC_GATE_WIRE_LIMIT = push_bit AG2PC_GATE_TYPE_SHIFT 1"

definition UNMAPPED :: u32 where
  "UNMAPPED = - 1"

fun ag_code :: "ag_type \<Rightarrow> u32" where
  "ag_code AgAnd = 0"
| "ag_code AgXor = 1"
| "ag_code AgInv = 2"

definition ag_from_code :: "u32 \<Rightarrow> ag_type option" where
  "ag_from_code code = (if code = 0 then Some AgAnd else if code = 1 then Some AgXor else if code = 2 then Some AgInv else None)"

record ag_gate =
  ag_in0_w :: u32
  ag_in1_and_typ :: u32

definition ag_gate_new :: "ag_type \<Rightarrow> u32 \<Rightarrow> u32 \<Rightarrow> ag_gate" where
  "ag_gate_new typ in0 in1 = \<lparr>ag_in0_w = in0, ag_in1_and_typ = in1 OR push_bit AG2PC_GATE_TYPE_SHIFT (ag_code typ)\<rparr>"

definition ag_typ :: "ag_gate \<Rightarrow> ag_type" where
  \<comment> \<open>\<open>None\<close> is unreachable: a gate is only made by \<open>ag_gate_new\<close>\<close>
  "ag_typ g = (case ag_from_code (drop_bit AG2PC_GATE_TYPE_SHIFT (ag_in1_and_typ g)) of Some t \<Rightarrow> t | None \<Rightarrow> AgInv)"

definition ag_in0 :: "ag_gate \<Rightarrow> nat" where
  "ag_in0 g = unat (ag_in0_w g)"

definition ag_in1 :: "ag_gate \<Rightarrow> nat" where
  "ag_in1 g = unat (ag_in1_and_typ g AND AG2PC_GATE_WIRE_MASK)"

fun ag_of_gate_type :: "gate_type \<Rightarrow> ag_type" where
  "ag_of_gate_type And = AgAnd"
| "ag_of_gate_type Xor = AgXor"
| "ag_of_gate_type Inv = AgInv"

record program =
  pr_num_inputs :: nat
  pr_num_wires :: nat
  pr_outputs :: "u32 list"
  pr_gates :: "ag_gate list"

definition output_len :: "program \<Rightarrow> nat" where
  "output_len p = length (pr_outputs p)"

definition num_ands :: "program \<Rightarrow> nat" where
  "num_ands p = length (filter (\<lambda>g. ag_typ g = AgAnd) (pr_gates p))"

definition gate_out :: "program \<Rightarrow> nat \<Rightarrow> nat" where
  "gate_out p gate_index = pr_num_inputs p + gate_index"

section \<open>From a circuit\<close>

definition wire32 :: "nat \<Rightarrow> u32" where
  \<comment> \<open>\<open>as u32\<close>\<close>
  "wire32 n = of_nat n"

definition from_ordered_circuit :: "circuit \<Rightarrow> nat \<Rightarrow> nat \<Rightarrow> compat_error + program" where
  "from_ordered_circuit c num_inputs n3 =
     bindR (mapR (\<lambda>(i, g).
       let max_wire = num_inputs + i; typ = ag_of_gate_type (g_typ g) in
       bindR (checked_wire ''in0'' (g_in0 g) max_wire) (\<lambda>in0.
       bindR (if typ = AgInv then Inr 0 else checked_wire ''in1'' (g_in1 g) max_wire) (\<lambda>in1.
         Inr (ag_gate_new typ (wire32 in0) (wire32 in1))))) (enumerate 0 (c_gates c))) (\<lambda>gates.
     let num_wires = num_inputs + length gates; output_start = num_wires - n3 in
     Inr \<lparr>pr_num_inputs = num_inputs, pr_num_wires = num_wires, pr_outputs = map wire32 [output_start..<num_wires], pr_gates = gates\<rparr>)"

definition resolve :: "u32 list \<Rightarrow> nat \<Rightarrow> compat_error + u32" where
  "resolve remap old = (let v = remap ! old in
     if v = UNMAPPED then Inl (BadAg2pcProgram ''wire is not defined'') else Inr v)"

definition from_circuit :: "circuit \<Rightarrow> compat_error + program" where
  "from_circuit c =
     bindR (checked_nonnegative ''num_wire'' (c_num_wire c)) (\<lambda>num_wire.
     bindR (checked_nonnegative ''n1'' (c_n1 c)) (\<lambda>n1.
     bindR (checked_nonnegative ''n2'' (c_n2 c)) (\<lambda>n2.
     bindR (checked_nonnegative ''n3'' (c_n3 c)) (\<lambda>n3.
     if num_wire = 0 \<or> n1 + n2 > num_wire \<or> n3 > num_wire \<or> num_wire \<ge> AG2PC_GATE_WIRE_LIMIT
     then Inl (BadAg2pcProgram ''inconsistent circuit header'')
     else let num_inputs = n1 + n2 in
       if num_wire = num_inputs + length (c_gates c)
          \<and> list_all (\<lambda>(i, g). g_out g \<ge> 0 \<and> nat (g_out g) = num_inputs + i) (enumerate 0 (c_gates c))
       then from_ordered_circuit c num_inputs n3
       else
       let remap = map wire32 [0..<num_inputs] @ replicate (num_wire - num_inputs) UNMAPPED in
       bindR (foldR (\<lambda>(i, g) remap. bindR (checked_wire ''out'' (g_out g) num_wire) (\<lambda>out.
                Inr (remap[out := wire32 (num_inputs + i)]))) (enumerate 0 (c_gates c)) remap) (\<lambda>remap.
       bindR (mapR (\<lambda>g.
         let typ = ag_of_gate_type (g_typ g) in
         bindR (checked_wire ''in0'' (g_in0 g) num_wire) (\<lambda>in0_old.
         bindR (resolve remap in0_old) (\<lambda>in0.
         bindR (if typ = AgInv then Inr 0
                else bindR (checked_wire ''in1'' (g_in1 g) num_wire) (resolve remap)) (\<lambda>in1.
           Inr (ag_gate_new typ in0 in1))))) (c_gates c)) (\<lambda>gates.
       bindR (mapR (\<lambda>i. resolve remap (num_wire - n3 + i)) [0..<n3]) (\<lambda>outputs.
         Inr \<lparr>pr_num_inputs = num_inputs, pr_num_wires = num_inputs + length gates, pr_outputs = outputs, pr_gates = gates\<rparr>)))))))"

section \<open>The direct builder\<close>

record prog_builder =
  pb_num_inputs :: nat
  pb_gates :: "ag_gate list"

definition pb_new :: "nat \<Rightarrow> prog_builder" where
  "pb_new num_inputs = \<lparr>pb_num_inputs = num_inputs, pb_gates = []\<rparr>"

definition pb_push_gate :: "ag_type \<Rightarrow> u32 \<Rightarrow> u32 \<Rightarrow> prog_builder \<Rightarrow> compat_error + u32 \<times> prog_builder" where
  "pb_push_gate typ in0 in1 b =
     (let out = pb_num_inputs b + length (pb_gates b) in
      if out \<ge> AG2PC_GATE_WIRE_LIMIT then Inl (BadAg2pcProgram ''AG2PC direct program is too large'')
      else Inr (wire32 out, b\<lparr>pb_gates := pb_gates b @ [ag_gate_new typ in0 in1]\<rparr>))"

definition pb_and_w :: "u32 \<Rightarrow> u32 \<Rightarrow> prog_builder \<Rightarrow> compat_error + u32 \<times> prog_builder" where
  "pb_and_w in0 in1 = pb_push_gate AgAnd in0 in1"

definition pb_xor_w :: "u32 \<Rightarrow> u32 \<Rightarrow> prog_builder \<Rightarrow> compat_error + u32 \<times> prog_builder" where
  "pb_xor_w in0 in1 = pb_push_gate AgXor in0 in1"

definition pb_inv_w :: "u32 \<Rightarrow> prog_builder \<Rightarrow> compat_error + u32 \<times> prog_builder" where
  "pb_inv_w in0 = pb_push_gate AgInv in0 0"

definition resolve_direct_wire :: "u32 list \<Rightarrow> int \<Rightarrow> compat_error + u32" where
  "resolve_direct_wire m wire =
     bindR (checked_wire ''gadget wire'' wire (length m)) (\<lambda>wire.
     let resolved = m ! wire in
     if resolved = UNMAPPED then Inl (BadAg2pcProgram ''ApplyAg2pcGadget: input wire is not defined'') else Inr resolved)"

definition pb_map_gate :: "nat \<Rightarrow> gate \<Rightarrow> u32 list \<times> prog_builder \<Rightarrow> compat_error + u32 list \<times> prog_builder" where
  "pb_map_gate num_wire g = (\<lambda>(m, b).
     let typ = ag_of_gate_type (g_typ g) in
     bindR (resolve_direct_wire m (g_in0 g)) (\<lambda>in0.
     bindR (if typ = AgInv then Inr 0 else resolve_direct_wire m (g_in1 g)) (\<lambda>in1.
     bindR (case typ of AgAnd \<Rightarrow> pb_and_w in0 in1 b | AgXor \<Rightarrow> pb_xor_w in0 in1 b | AgInv \<Rightarrow> pb_inv_w in0 b) (\<lambda>(out, b).
     bindR (checked_wire ''gadget out'' (g_out g) num_wire) (\<lambda>out_wire.
       Inr (m[out_wire := out], b))))))"

definition pb_apply_gadget :: "circuit \<Rightarrow> u32 list \<Rightarrow> prog_builder \<Rightarrow> compat_error + u32 list \<times> prog_builder" where
  "pb_apply_gadget gadget inputs b =
     bindR (checked_nonnegative ''gadget inputs'' (wrap32 (c_n1 gadget + c_n2 gadget))) (\<lambda>gin.
     bindR (checked_nonnegative ''gadget num_wire'' (c_num_wire gadget)) (\<lambda>num_wire.
     bindR (checked_nonnegative ''gadget n3'' (c_n3 gadget)) (\<lambda>n3.
     if length inputs \<noteq> gin \<or> n3 > num_wire then Inl (BadAg2pcProgram ''ApplyAg2pcGadget: wrong gadget shape'')
     else if gin > num_wire then Inl APanic
     else let m = inputs @ replicate (num_wire - gin) UNMAPPED in
       bindR (foldR (pb_map_gate num_wire) (c_gates gadget) (m, b)) (\<lambda>(m, b).
         let start = num_wire - n3; outs = drop start m in
         if UNMAPPED \<in> set outs then Inl (BadAg2pcProgram ''ApplyAg2pcGadget: output wire is not defined'')
         else Inr (outs, b)))))"

definition pb_finish :: "nat \<Rightarrow> prog_builder \<Rightarrow> compat_error + program" where
  "pb_finish out_len b =
     (if out_len > length (pb_gates b) + pb_num_inputs b then Inl (BadAg2pcProgram ''AG2PC direct output length exceeds wire count'')
      else let num_wires = pb_num_inputs b + length (pb_gates b); output_start = num_wires - out_len in
        Inr \<lparr>pr_num_inputs = pb_num_inputs b, pr_num_wires = num_wires,
             pr_outputs = map wire32 [output_start..<num_wires], pr_gates = pb_gates b\<rparr>)"

fun pb_collect :: "('x \<Rightarrow> prog_builder \<Rightarrow> compat_error + u32 \<times> prog_builder) \<Rightarrow> 'x list \<Rightarrow> prog_builder \<Rightarrow> compat_error + u32 list \<times> prog_builder" where
  \<comment> \<open>a loop that pushes a gate per element, collecting the new wires\<close>
  "pb_collect f [] b = Inr ([], b)"
| "pb_collect f (x # xs) b = bindR (f x b) (\<lambda>(w, b). bindR (pb_collect f xs b) (\<lambda>(ws, b). Inr (w # ws, b)))"

definition validate_sha_gadget :: "string \<Rightarrow> circuit \<Rightarrow> compat_error + unit" where
  "validate_sha_gadget name sha =
     (if wrap32 (c_n1 sha + c_n2 sha) \<noteq> 512 \<or> c_n3 sha \<noteq> int VALUE_BITS
      then Inl (BadAg2pcProgram (name @ '': gadget is not 512->256'')) else Inr ())"

definition ag2pc_padding_bits :: bytes where
  "ag2pc_padding_bits = map (\<lambda>i. drop_bit (7 - i mod 8) (((replicate 32 0)[0 := 0x80, 30 := 0x01] :: bytes) ! (i div 8)) AND 1) [0..<VALUE_BITS]"

definition ag2pc_msb_bit_index :: "nat \<Rightarrow> nat \<Rightarrow> nat" where
  "ag2pc_msb_bit_index byte lsb_index = 8 * byte + (7 - lsb_index)"

definition ag2pc_flip_bit_index :: "nat \<Rightarrow> nat" where
  "ag2pc_flip_bit_index b = ag2pc_msb_bit_index (b div 8) (b mod 8)"

definition pb_hash_gates :: "circuit \<Rightarrow> u32 \<Rightarrow> u32 \<Rightarrow> nat \<Rightarrow> u32 list \<times> prog_builder \<Rightarrow> compat_error + u32 list \<times> prog_builder" where
  \<comment> \<open>the loop body both programs share: flip the bit, append the padding, apply the gadget\<close>
  "pb_hash_gates sha c0 c1 k = (\<lambda>(p, b).
     let idx = ag2pc_flip_bit_index k in
     if idx \<ge> length p then Inl APanic
     else bindR (pb_inv_w (p ! idx) b) (\<lambda>(w, b).
       let p = p[idx := w] in
       if length p \<noteq> VALUE_BITS then Inl APanic
       else pb_apply_gadget sha (p @ map (\<lambda>i. if ag2pc_padding_bits ! i \<noteq> 0 then c1 else c0) [0..<VALUE_BITS]) b))"

definition chunk_from_sha :: "circuit \<Rightarrow> nat list \<Rightarrow> bool \<Rightarrow> compat_error + program" where
  "chunk_from_sha sha chain_bits first =
     bindR (validate_sha_gadget ''BuildChunkProgram'' sha) (\<lambda>_.
     if \<exists>k \<in> set chain_bits. k \<ge> INDEX_BITS then Inl (BadAg2pcProgram ''BuildChunkProgram: chain bit exceeds 48 bits'')
     else bindR (pb_xor_w 0 0 (pb_new (if first then 2 * VALUE_BITS else VALUE_BITS))) (\<lambda>(c0, b).
       bindR (pb_inv_w c0 b) (\<lambda>(c1, b).
       bindR (if first then pb_collect (\<lambda>i. pb_xor_w (wire32 i) (wire32 (VALUE_BITS + i))) [0..<VALUE_BITS] b
              else Inr (map wire32 [0..<VALUE_BITS], b)) (\<lambda>(p, b).
       bindR (foldR (pb_hash_gates sha c0 c1) chain_bits (p, b)) (\<lambda>(p, b).
       bindR (pb_collect (\<lambda>wire. pb_xor_w wire c0) (take VALUE_BITS p) b) (\<lambda>(_, b).
         pb_finish VALUE_BITS b))))))"

definition pb_tile_step :: "circuit \<Rightarrow> u32 \<Rightarrow> u32 \<Rightarrow> nat \<Rightarrow> nat \<Rightarrow> nat \<Rightarrow> u32 list list \<times> prog_builder \<Rightarrow> compat_error + u32 list list \<times> prog_builder" where
  "pb_tile_step sha c0 c1 offset depth suffix = (\<lambda>(node, b).
     let s = (of_nat suffix :: u64) in
     if count_ones s \<noteq> depth then Inr (node, b)
     else let k = offset + trailing_zeros s;
              parent = unat (s AND (s - 1));
              p = node ! parent
          in bindR (pb_hash_gates sha c0 c1 k (p, b)) (\<lambda>(p, b). Inr (node[suffix := p], b)))"

definition tile_from_sha :: "circuit \<Rightarrow> nat \<Rightarrow> nat \<Rightarrow> compat_error + program" where
  "tile_from_sha sha offset tile_height =
     (if tile_height < 1 \<or> tile_height > INDEX_BITS then Inl (BadAg2pcProgram ''BuildTileProgram: invalid tile height'')
      else if offset + tile_height > INDEX_BITS then Inl (BadAg2pcProgram ''BuildTileProgram: bit window out of range'')
      else bindR (validate_sha_gadget ''BuildTileProgram'' sha) (\<lambda>_.
        let leaves = 2 ^ tile_height in
        bindR (pb_xor_w 0 0 (pb_new VALUE_BITS)) (\<lambda>(c0, b).
        bindR (pb_inv_w c0 b) (\<lambda>(c1, b).
        let node = (replicate leaves [])[0 := map wire32 [0..<VALUE_BITS]] in
        bindR (foldR (\<lambda>depth. foldR (pb_tile_step sha c0 c1 offset depth) [1..<leaves]) [1..<tile_height + 1] (node, b)) (\<lambda>(node, b).
        bindR (pb_collect (\<lambda>wire. pb_xor_w wire c0) (concat (map (take VALUE_BITS) node)) b) (\<lambda>(_, b).
          pb_finish (VALUE_BITS * leaves) b))))))"

section \<open>What a program computes\<close>

text \<open>The reference: the value of every wire, inputs first, then each gate in order.\<close>

definition gate_bool :: "ag_gate \<Rightarrow> bool list \<Rightarrow> bool" where
  "gate_bool g vs = (case ag_typ g of AgAnd \<Rightarrow> vs ! ag_in0 g \<and> vs ! ag_in1 g
     | AgXor \<Rightarrow> vs ! ag_in0 g \<noteq> vs ! ag_in1 g | AgInv \<Rightarrow> \<not> vs ! ag_in0 g)"

definition prog_wires :: "ag_gate list \<Rightarrow> bool list \<Rightarrow> bool list" where
  "prog_wires gs ins = fold (\<lambda>g vs. vs @ [gate_bool g vs]) gs ins"

definition prog_eval :: "program \<Rightarrow> bool list \<Rightarrow> bool list" where
  "prog_eval p ins = map (\<lambda>w. prog_wires (pr_gates p) ins ! unat w) (pr_outputs p)"

definition prog_ok :: "program \<Rightarrow> bool" where
  \<comment> \<open>every gate reads wires before its own, outputs are wires\<close>
  "prog_ok p \<longleftrightarrow> pr_num_wires p = pr_num_inputs p + length (pr_gates p) \<and>
     (\<forall>i < length (pr_gates p). ag_in0 (pr_gates p ! i) < gate_out p i
        \<and> (ag_typ (pr_gates p ! i) \<noteq> AgInv \<longrightarrow> ag_in1 (pr_gates p ! i) < gate_out p i)) \<and>
     (\<forall>w \<in> set (pr_outputs p). unat w < pr_num_wires p)"

lemma prog_wires_length [simp]: "length (prog_wires gs ins) = length ins + length gs"
  unfolding prog_wires_def by (induction gs arbitrary: ins) auto

lemma prog_wires_single: "prog_wires [g] vs = vs @ [gate_bool g vs]"
  by (simp add: prog_wires_def)

lemma prog_wires_append: "prog_wires (gs @ hs) ins = prog_wires hs (prog_wires gs ins)"
  by (simp add: prog_wires_def)

lemma prog_wires_prefix: "j < length ins \<Longrightarrow> prog_wires gs ins ! j = ins ! j"
  unfolding prog_wires_def by (induction gs arbitrary: ins) (auto simp: nth_append)

lemma prog_wires_take: "j < length ins + k \<Longrightarrow> k \<le> length gs \<Longrightarrow> prog_wires gs ins ! j = prog_wires (take k gs) ins ! j"
  using prog_wires_append [of "take k gs" "drop k gs" ins] prog_wires_prefix [of j "prog_wires (take k gs) ins" "drop k gs"]
  by (simp add: min_def)

lemma prog_wires_gate:
  assumes "i < length gs"
  shows "prog_wires gs ins ! (length ins + i) = gate_bool (gs ! i) (prog_wires (take i gs) ins)"
proof -
  have "prog_wires gs ins ! (length ins + i) = prog_wires (take (Suc i) gs) ins ! (length ins + i)"
    using assms by (intro prog_wires_take) auto
  also have "\<dots> = gate_bool (gs ! i) (prog_wires (take i gs) ins)"
    using assms by (simp add: take_Suc_conv_app_nth prog_wires_append prog_wires_single nth_append)
  finally show ?thesis .
qed

end
