(* ===== verification/Session.thy ===== *)
theory Session
  imports Program Triple_Compute
begin

text \<open>
  The two-party session of \<open>shachain2pc-emp-compat/src/session.rs\<close>: the liveness and slot passes, the
  garbler's and the evaluator's path over a program with the half-gate tables sent in chunks, the gamma
  check, the gathering of outputs, the opening of inputs and the decoding of outputs. As in
  \<open>Triple_Compute\<close> the two sides run jointly over channels that deliver what is sent; random draws and
  correlated OTs are inputs.

  A program's wires stay below \<open>2 ^ 30\<close>, so slots and gate indices, stored as \<open>u32\<close> and \<open>i32\<close>, are
  natural numbers and integers here. A program whose gates read wires that are not yet written makes
  the passes index out of bounds; \<open>run_program\<close> answers \<open>APanic\<close> then.
\<close>

unbundle bit_operations_syntax

section \<open>Run state\<close>

record run_state =
  rs_party :: role
  rs_delta :: block
  rs_num_inputs :: nat
  rs_num_ands :: nat
  rs_num_wires :: nat
  rs_num_slots :: nat
  rs_phys :: "nat list"
  rs_last_use :: "int list"
  rs_persist :: "bool list"
  rs_wire_slot :: "ashare_bundle list"
  rs_mask_input :: bytes
  rs_label_slot :: "block list"
  rs_eval_slot :: "block list"
  rs_rep_a :: "ashare_bundle list"
  rs_rep_b :: "ashare_bundle list"
  rs_sigma :: "ashare_bundle list"
  rs_lambda_and :: bytes
  rs_mitc :: mitccrh8

definition run_state_new :: "role \<Rightarrow> block \<Rightarrow> secure_wires \<Rightarrow> run_state" where
  "run_state_new party delta inputs = \<lparr>rs_party = party, rs_delta = delta, rs_num_inputs = sw_len inputs, rs_num_ands = 0,
     rs_num_wires = 0, rs_num_slots = sw_len inputs, rs_phys = [], rs_last_use = [], rs_persist = [],
     rs_wire_slot = sw_bundle inputs, rs_mask_input = sw_lambda inputs, rs_label_slot = sw_label0 inputs,
     rs_eval_slot = sw_eval inputs, rs_rep_a = [], rs_rep_b = [], rs_sigma = [], rs_lambda_and = [], rs_mitc = mitccrh_new block_zero\<rparr>"

definition slot :: "run_state \<Rightarrow> nat \<Rightarrow> nat" where
  "slot st wire = rs_phys st ! wire"

definition wslot :: "run_state \<Rightarrow> nat \<Rightarrow> ashare_bundle" where
  "wslot st wire = rs_wire_slot st ! slot st wire"

definition set_wslot :: "nat \<Rightarrow> ashare_bundle \<Rightarrow> run_state \<Rightarrow> run_state" where
  "set_wslot wire v st = st\<lparr>rs_wire_slot := (rs_wire_slot st)[slot st wire := v]\<rparr>"

definition minp :: "run_state \<Rightarrow> nat \<Rightarrow> u8" where
  "minp st wire = rs_mask_input st ! slot st wire"

definition set_minp :: "nat \<Rightarrow> u8 \<Rightarrow> run_state \<Rightarrow> run_state" where
  "set_minp wire v st = st\<lparr>rs_mask_input := (rs_mask_input st)[slot st wire := v AND 1]\<rparr>"

definition lbl :: "run_state \<Rightarrow> nat \<Rightarrow> block" where
  "lbl st wire = rs_label_slot st ! slot st wire"

definition set_lbl :: "nat \<Rightarrow> block \<Rightarrow> run_state \<Rightarrow> run_state" where
  "set_lbl wire v st = st\<lparr>rs_label_slot := (rs_label_slot st)[slot st wire := v]\<rparr>"

definition evl :: "run_state \<Rightarrow> nat \<Rightarrow> block" where
  "evl st wire = rs_eval_slot st ! slot st wire"

definition set_evl :: "nat \<Rightarrow> block \<Rightarrow> run_state \<Rightarrow> run_state" where
  "set_evl wire v st = st\<lparr>rs_eval_slot := (rs_eval_slot st)[slot st wire := v]\<rparr>"

definition xor_bundle :: "ashare_bundle \<Rightarrow> ashare_bundle \<Rightarrow> ashare_bundle" where
  "xor_bundle lhs rhs = \<lparr>as_mac = as_mac lhs XOR as_mac rhs, as_key = as_key lhs XOR as_key rhs\<rparr>"

section \<open>Liveness and slots\<close>

definition liveness_gate :: "program \<Rightarrow> nat \<times> ag_gate \<Rightarrow> run_state \<Rightarrow> run_state" where
  "liveness_gate p = (\<lambda>(gate_index, g) st.
     let st = st\<lparr>rs_persist := (rs_persist st)[gate_out p gate_index := (ag_typ g = AgAnd)],
                 rs_last_use := (rs_last_use st)[ag_in0 g := int gate_index]\<rparr>;
         st = (if ag_typ g \<noteq> AgInv then st\<lparr>rs_last_use := (rs_last_use st)[ag_in1 g := int gate_index]\<rparr> else st)
     in if ag_typ g = AgAnd then st\<lparr>rs_num_ands := rs_num_ands st + 1\<rparr> else st)"

definition liveness_pass :: "program \<Rightarrow> run_state \<Rightarrow> run_state" where
  "liveness_pass p st =
     (let st = st\<lparr>rs_num_wires := pr_num_wires p, rs_num_ands := 0, rs_last_use := replicate (pr_num_wires p) (- 1),
                  rs_persist := map (\<lambda>i. i < rs_num_inputs st) [0..<pr_num_wires p]\<rparr>;
          st = fold (liveness_gate p) (enumerate 0 (pr_gates p)) st
      in fold (\<lambda>out st. st\<lparr>rs_persist := (rs_persist st)[unat out := True]\<rparr>) (pr_outputs p) st)"

definition push_slot :: "run_state \<Rightarrow> nat \<times> run_state" where
  "push_slot st = (rs_num_slots st, st\<lparr>rs_num_slots := rs_num_slots st + 1,
     rs_wire_slot := rs_wire_slot st @ [default_bundle], rs_mask_input := rs_mask_input st @ [0]\<rparr>)"

definition alloc_slot :: "nat \<Rightarrow> run_state \<times> nat list \<Rightarrow> nat \<times> run_state \<times> nat list" where
  \<comment> \<open>the free list is a stack, its top first\<close>
  "alloc_slot wire = (\<lambda>(st, freelist).
     let (s, st, freelist) = (case (rs_persist st ! wire, freelist) of
            (False, s # freelist) \<Rightarrow> (s, st, freelist)
          | _ \<Rightarrow> (let (s, st) = push_slot st in (s, st, freelist)))
     in (s, st\<lparr>rs_phys := (rs_phys st)[wire := s]\<rparr>, freelist))"

definition free_if_dead :: "nat \<Rightarrow> nat \<Rightarrow> run_state \<Rightarrow> nat list \<Rightarrow> nat list" where
  "free_if_dead wire gate_index st freelist =
     (if \<not> rs_persist st ! wire \<and> rs_last_use st ! wire = int gate_index then slot st wire # freelist else freelist)"

definition free_inputs :: "ag_gate \<Rightarrow> nat \<Rightarrow> run_state \<Rightarrow> nat list \<Rightarrow> nat list" where
  "free_inputs g gate_index st freelist =
     (let freelist = free_if_dead (ag_in0 g) gate_index st freelist
      in if ag_typ g \<noteq> AgInv \<and> ag_in1 g \<noteq> ag_in0 g then free_if_dead (ag_in1 g) gate_index st freelist else freelist)"

record slot_pass =
  sp_st :: run_state
  sp_free :: "nat list"
  sp_buf :: "ashare_bundle list"
  sp_off :: nat
  sp_draws :: "ashare_bundle list list"

definition put_slot :: "nat \<Rightarrow> ashare_bundle \<Rightarrow> run_state \<times> nat list \<Rightarrow> run_state \<times> nat list" where
  "put_slot out v = (\<lambda>(st, freelist).
     let (s, st, freelist) = alloc_slot out (st, freelist)
     in (st\<lparr>rs_wire_slot := (rs_wire_slot st)[s := v], rs_mask_input := (rs_mask_input st)[s := 0]\<rparr>, freelist))"

definition slot_mask_gate :: "program \<Rightarrow> nat \<times> ag_gate \<Rightarrow> slot_pass \<Rightarrow> compat_error + slot_pass" where
  \<comment> \<open>\<open>sp_draws\<close> are the buffers that \<open>draw\<close> returns in turn\<close>
  "slot_mask_gate p = (\<lambda>(gate_index, g) sp.
     let out = gate_out p gate_index; st = sp_st sp in
     case ag_typ g of
       AgAnd \<Rightarrow>
         (let st = st\<lparr>rs_rep_a := rs_rep_a st @ [wslot st (ag_in0 g)], rs_rep_b := rs_rep_b st @ [wslot st (ag_in1 g)]\<rparr> in
          bindR (if sp_off sp \<ge> length (sp_buf sp)
                 then (case sp_draws sp of [] \<Rightarrow> Inl APanic | buf # draws \<Rightarrow> Inr (buf, 0, draws))
                 else Inr (sp_buf sp, sp_off sp, sp_draws sp)) (\<lambda>(buf, off, draws).
          if off \<ge> length buf then Inl APanic
          else let (st, freelist) = put_slot out (buf ! off) (st, sp_free sp)
               in Inr \<lparr>sp_st = st, sp_free = free_inputs g gate_index st freelist, sp_buf = buf, sp_off = off + 1, sp_draws = draws\<rparr>))
     | AgXor \<Rightarrow>
         (let (st, freelist) = put_slot out (xor_bundle (wslot st (ag_in0 g)) (wslot st (ag_in1 g))) (st, sp_free sp)
          in Inr (sp\<lparr>sp_st := st, sp_free := free_inputs g gate_index st freelist\<rparr>))
     | AgInv \<Rightarrow>
         (let (st, freelist) = put_slot out (wslot st (ag_in0 g)) (st, sp_free sp)
          in Inr (sp\<lparr>sp_st := st, sp_free := free_inputs g gate_index st freelist\<rparr>)))"

definition resize :: "nat \<Rightarrow> block list \<Rightarrow> block list" where
  "resize n xs = take n xs @ replicate (n - length xs) block_zero"

definition slot_mask_pass :: "program \<Rightarrow> ashare_bundle list list \<Rightarrow> run_state \<Rightarrow> compat_error + run_state" where
  \<comment> \<open>\<open>phys\<close> starts as \<open>u32::MAX\<close> everywhere; the reserved capacity has no effect on values\<close>
  "slot_mask_pass p draws st =
     (let st = st\<lparr>rs_phys := [0..<rs_num_inputs st] @ replicate (pr_num_wires p - rs_num_inputs st) (2 ^ 32 - 1),
                  rs_rep_a := [], rs_rep_b := []\<rparr>
      in bindR (foldR (slot_mask_gate p) (enumerate 0 (pr_gates p))
             \<lparr>sp_st = st, sp_free = [], sp_buf = [], sp_off = 0, sp_draws = draws\<rparr>) (\<lambda>sp.
         let st = sp_st sp in
         Inr (if rs_party st = Alice then st\<lparr>rs_label_slot := resize (rs_num_slots st) (rs_label_slot st)\<rparr>
              else st\<lparr>rs_eval_slot := resize (rs_num_slots st) (rs_eval_slot st)\<rparr>)))"

section \<open>Garbling\<close>

definition AG2PC_GARBLE_CHUNK_ANDS :: nat where
  "AG2PC_GARBLE_CHUNK_ANDS = push_bit 16 1"

type_synonym chunk = "block list \<times> bytes"

definition garbler_and_gate ::
  "(block \<Rightarrow> block \<Rightarrow> block) \<Rightarrow> ag_gate \<Rightarrow> nat \<Rightarrow> nat \<Rightarrow> run_state \<Rightarrow> compat_error + (block \<times> block \<times> u8) \<times> run_state" where
  "garbler_and_gate aes g out and_index st =
     (let ml_a0 = lbl st (ag_in0 g); ml_a1 = ml_a0 XOR rs_delta st;
          ml_b0 = lbl st (ag_in1 g); ml_b1 = ml_b0 XOR rs_delta st
      in bindR (okOr APanic (mitccrh_hash_cir aes [ml_a0, ml_a1, ml_b0, ml_b1] 1 4 (rs_mitc st))) (\<lambda>(buf, mitc).
         let st = st\<lparr>rs_mitc := mitc\<rparr>;
             wb_in0 = wslot st (ag_in0 g); wb_in1 = wslot st (ag_in1 g); wb_out = wslot st out; sig = rs_sigma st ! and_index;
             h_a0 = buf ! 0; h_a1 = buf ! 1; h_b0 = buf ! 2; h_b1 = buf ! 3;
             la_dot = select_block (block_lsb (as_mac wb_in0)) AND rs_delta st;
             lb_dot = select_block (block_lsb (as_mac wb_in1)) AND rs_delta st;
             lab_dot = select_block (block_lsb (as_mac sig)) AND rs_delta st;
             lg_dot = select_block (block_lsb (as_mac wb_out)) AND rs_delta st;
             g0 = h_a0 XOR h_a1 XOR as_key wb_in1 XOR lb_dot;
             g1 = h_b0 XOR h_b1 XOR ml_a0 XOR as_key wb_in0 XOR la_dot;
             ml_g0 = h_a0 XOR h_b0 XOR as_key sig XOR lab_dot XOR as_key wb_out XOR lg_dot
         in Inr ((g0, g1, block_lsb1 ml_g0), set_lbl out ml_g0 st)))"

record garbler =
  ga_st :: run_state
  ga_chunk :: chunk
  ga_and_index :: nat
  ga_sent :: "chunk list"

definition garbler_gate ::
  "(block \<Rightarrow> block \<Rightarrow> block) \<Rightarrow> program \<Rightarrow> nat \<times> ag_gate \<Rightarrow> garbler \<Rightarrow> compat_error + garbler" where
  "garbler_gate aes p = (\<lambda>(gate_index, g) ga.
     let out = gate_out p gate_index; st = ga_st ga in
     case ag_typ g of
       AgXor \<Rightarrow>
         (let st = set_wslot out (xor_bundle (wslot st (ag_in0 g)) (wslot st (ag_in1 g))) st
          in Inr (ga\<lparr>ga_st := set_lbl out (lbl st (ag_in0 g) XOR lbl st (ag_in1 g)) st\<rparr>))
     | AgInv \<Rightarrow>
         (let st = set_wslot out (wslot st (ag_in0 g)) st
          in Inr (ga\<lparr>ga_st := set_lbl out (lbl st (ag_in0 g) XOR rs_delta st) st\<rparr>))
     | AgAnd \<Rightarrow>
         bindR (garbler_and_gate aes g out (ga_and_index ga) st) (\<lambda>((g0, g1, b), st).
         let c = (fst (ga_chunk ga) @ [g0, g1], snd (ga_chunk ga) @ [b])
         in Inr (if length (snd c) = AG2PC_GARBLE_CHUNK_ANDS
                 then \<lparr>ga_st = st, ga_chunk = ([], []), ga_and_index = ga_and_index ga + 1, ga_sent = ga_sent ga @ [c]\<rparr>
                 else \<lparr>ga_st = st, ga_chunk = c, ga_and_index = ga_and_index ga + 1, ga_sent = ga_sent ga\<rparr>)))"

definition garbler_send :: "(block \<Rightarrow> block \<Rightarrow> block) \<Rightarrow> program \<Rightarrow> run_state \<Rightarrow> compat_error + run_state \<times> chunk list" where
  \<comment> \<open>the first part of \<open>ag2pc_garbler_path\<close>, up to the last table\<close>
  "garbler_send aes p st =
     bindR (foldR (garbler_gate aes p) (enumerate 0 (pr_gates p)) \<lparr>ga_st = st, ga_chunk = ([], []), ga_and_index = 0, ga_sent = []\<rparr>) (\<lambda>ga.
     Inr (ga_st ga, if snd (ga_chunk ga) \<noteq> [] then ga_sent ga @ [ga_chunk ga] else ga_sent ga))"

definition gamma_gate :: "program \<Rightarrow> nat \<times> ag_gate \<Rightarrow> run_state \<times> nat \<times> bytes \<Rightarrow> run_state \<times> nat \<times> bytes" where
  "gamma_gate p = (\<lambda>(gate_index, g) (st, and_index, gamma).
     let out = gate_out p gate_index in
     case ag_typ g of
       AgXor \<Rightarrow>
         (let st = set_wslot out (xor_bundle (wslot st (ag_in0 g)) (wslot st (ag_in1 g))) st
          in (set_minp out (minp st (ag_in0 g) XOR minp st (ag_in1 g)) st, and_index, gamma))
     | AgInv \<Rightarrow>
         (let st = set_wslot out (wslot st (ag_in0 g)) st
          in (set_minp out (minp st (ag_in0 g) XOR 1) st, and_index, gamma))
     | AgAnd \<Rightarrow>
         (let st = set_minp out (rs_lambda_and st ! and_index) st;
              la = minp st (ag_in0 g); lb = minp st (ag_in1 g);
              m = as_mac (rs_sigma st ! and_index) XOR as_mac (wslot st out);
              m = m XOR (select_block la AND as_mac (wslot st (ag_in1 g)));
              m = m XOR (select_block lb AND as_mac (wslot st (ag_in0 g)))
          in (st, and_index + 1, gamma @ block_bytes m)))"

definition gamma_check_digest :: "(bytes \<Rightarrow> bytes) \<Rightarrow> program \<Rightarrow> run_state \<Rightarrow> bytes \<times> run_state" where
  "gamma_check_digest sha256 p st =
     (let (st, _, gamma) = fold (gamma_gate p) (enumerate 0 (pr_gates p)) (st, 0, []) in (sha256 gamma, st))"

section \<open>Evaluation\<close>

definition evaluator_and_gate ::
  "(block \<Rightarrow> block \<Rightarrow> block) \<Rightarrow> ag_gate \<Rightarrow> nat \<Rightarrow> nat \<Rightarrow> block \<Rightarrow> block \<Rightarrow> u8 \<Rightarrow> run_state \<Rightarrow> compat_error + block \<times> run_state" where
  "evaluator_and_gate aes g out and_index g0 g1 b st =
     (let la = minp st (ag_in0 g); lb = minp st (ag_in1 g);
          wb_in0 = wslot st (ag_in0 g); wb_in1 = wslot st (ag_in1 g); wb_out = wslot st out; sig = rs_sigma st ! and_index;
          mr = as_mac sig XOR as_mac wb_out;
          mr = mr XOR (select_block la AND as_mac wb_in1);
          mr = mr XOR (select_block lb AND as_mac wb_in0)
      in bindR (okOr APanic (mitccrh_hash_cir aes [evl st (ag_in0 g), evl st (ag_in1 g)] 1 2 (rs_mitc st))) (\<lambda>(buf, mitc).
         let st = st\<lparr>rs_mitc := mitc\<rparr>;
             t = buf ! 0 XOR buf ! 1;
             t = t XOR (select_block la AND g0);
             t = t XOR (select_block lb AND (g1 XOR evl st (ag_in0 g)));
             t = t XOR mr;
             st = set_evl out t st;
             lg = b XOR block_lsb1 t;
             st = set_minp out lg st;
             st = st\<lparr>rs_lambda_and := (rs_lambda_and st)[and_index := lg]\<rparr>;
             v_in0 = block_lsb (as_mac wb_in0); v_in1 = block_lsb (as_mac wb_in1);
             v_out = block_lsb (as_mac wb_out); v_sig = block_lsb (as_mac sig);
             t1 = (la AND lb) XOR lg XOR (la AND v_in1) XOR (lb AND v_in0) XOR v_sig XOR v_out;
             m = select_block t1 AND rs_delta st;
             m = m XOR (select_block la AND as_key wb_in1);
             m = m XOR (select_block lb AND as_key wb_in0);
             m = m XOR as_key sig XOR as_key wb_out
         in Inr (m, st)))"

record evaluator =
  ev_st :: run_state
  ev_chunk :: chunk
  ev_pos :: nat
  ev_and_index :: nat
  ev_gamma :: bytes
  ev_in :: "chunk list"

definition recv_garble_chunk :: "nat \<Rightarrow> chunk list \<Rightarrow> compat_error + chunk \<times> chunk list" where
  \<comment> \<open>\<open>2 n\<close> blocks and \<open>n\<close> bytes of the stream; the tables come in the pieces in which they were sent\<close>
  "recv_garble_chunk n inp = (case inp of
       [] \<Rightarrow> Inl APanic
     | c # inp \<Rightarrow> if length (fst c) = 2 * n \<and> length (snd c) = n then Inr (c, inp) else Inl APanic)"

definition evaluator_gate ::
  "(block \<Rightarrow> block \<Rightarrow> block) \<Rightarrow> program \<Rightarrow> nat \<times> ag_gate \<Rightarrow> evaluator \<Rightarrow> compat_error + evaluator" where
  "evaluator_gate aes p = (\<lambda>(gate_index, g) e.
     let out = gate_out p gate_index; st = ev_st e in
     case ag_typ g of
       AgXor \<Rightarrow>
         (let st = set_wslot out (xor_bundle (wslot st (ag_in0 g)) (wslot st (ag_in1 g))) st;
              st = set_evl out (evl st (ag_in0 g) XOR evl st (ag_in1 g)) st
          in Inr (e\<lparr>ev_st := set_minp out (minp st (ag_in0 g) XOR minp st (ag_in1 g)) st\<rparr>))
     | AgInv \<Rightarrow>
         (let st = set_wslot out (wslot st (ag_in0 g)) st;
              st = set_evl out (evl st (ag_in0 g)) st
          in Inr (e\<lparr>ev_st := set_minp out (minp st (ag_in0 g) XOR 1) st\<rparr>))
     | AgAnd \<Rightarrow>
         bindR (if ev_pos e = length (snd (ev_chunk e))
                then let remaining = rs_num_ands st - ev_and_index e
                     in bindR (recv_garble_chunk (min remaining AG2PC_GARBLE_CHUNK_ANDS) (ev_in e)) (\<lambda>(c, inp). Inr (c, 0, inp))
                else Inr (ev_chunk e, ev_pos e, ev_in e)) (\<lambda>(c, pos, inp).
         bindR (evaluator_and_gate aes g out (ev_and_index e) (fst c ! (2 * pos)) (fst c ! (2 * pos + 1)) (snd c ! pos) st) (\<lambda>(m, st).
           Inr \<lparr>ev_st = st, ev_chunk = c, ev_pos = pos + 1, ev_and_index = ev_and_index e + 1,
                ev_gamma = ev_gamma e @ block_bytes m, ev_in = inp\<rparr>)))"

definition evaluator_run :: "(block \<Rightarrow> block \<Rightarrow> block) \<Rightarrow> program \<Rightarrow> chunk list \<Rightarrow> run_state \<Rightarrow> compat_error + run_state \<times> bytes" where
  \<comment> \<open>the first part of \<open>ag2pc_evaluator_path\<close>, up to the last gate\<close>
  "evaluator_run aes p chunks st =
     bindR (foldR (evaluator_gate aes p) (enumerate 0 (pr_gates p))
        \<lparr>ev_st = st, ev_chunk = ([], []), ev_pos = 0, ev_and_index = 0, ev_gamma = [], ev_in = chunks\<rparr>) (\<lambda>e.
     Inr (ev_st e, ev_gamma e))"

definition gather_outputs :: "run_state \<Rightarrow> program \<Rightarrow> secure_wires" where
  "gather_outputs st p =
     (let ws = map unat (pr_outputs p) in
      \<lparr>sw_lambda = map (minp st) ws, sw_bundle = map (wslot st) ws,
       sw_label0 = (if rs_party st = Alice then map (lbl st) ws else []),
       sw_eval = (if rs_party st = Bob then map (evl st) ws else [])\<rparr>)"

section \<open>The protocol\<close>

record protocol =
  ap_party :: role
  ap_pool :: triple_pool_state
  ap_delta :: block
  ap_prg :: prg
  ap_process_input_calls :: nat

definition protocol_setup :: "role \<Rightarrow> nat \<Rightarrow> block \<Rightarrow> block \<Rightarrow> protocol" where
  \<comment> \<open>\<open>setup_with_delta\<close>; \<open>seed\<close> is the random block of the label generator\<close>
  "protocol_setup party ssp delta seed =
     (let delta = normalize_ag2pc_delta party delta; pool = setup_pool party ssp delta
      in \<lparr>ap_party = party, ap_pool = pool, ap_delta = tp_delta pool, ap_prg = prg_new seed 0, ap_process_input_calls = 0\<rparr>)"

definition flush_cot_check :: "protocol \<Rightarrow> protocol" where
  \<comment> \<open>\<open>maybe_flush_cot_check\<close>, without the OT rounds\<close>
  "flush_cot_check pr = (if should_flush_cot_check (ap_pool pr) then pr\<lparr>ap_pool := mark_cot_check_flushed (ap_pool pr)\<rparr> else pr)"

definition public_wires :: "protocol \<Rightarrow> bytes \<Rightarrow> secure_wires" where
  "public_wires pr bits =
     (let wires = \<lparr>sw_lambda = map (\<lambda>b. b AND 1) bits, sw_bundle = replicate (length bits) default_bundle, sw_label0 = [], sw_eval = []\<rparr>
      in case ap_party pr of
           Alice \<Rightarrow> wires\<lparr>sw_label0 := map (\<lambda>b. if b AND 1 = 0 then block_zero else ap_delta pr) bits\<rparr>
         | Bob \<Rightarrow> wires\<lparr>sw_eval := replicate (length bits) block_zero\<rparr>)"

definition check_secure_wires :: "protocol \<Rightarrow> secure_wires \<Rightarrow> compat_error + unit" where
  "check_secure_wires pr wires =
     (let n = sw_len wires in
      if length (sw_bundle wires) \<noteq> n then Inl BadAg2pcInputShape
      else case ap_party pr of
          Alice \<Rightarrow> if length (sw_label0 wires) \<noteq> n then Inl BadAg2pcInputShape else Inr ()
        | Bob \<Rightarrow> if length (sw_eval wires) \<noteq> n then Inl BadAg2pcInputShape else Inr ())"

definition check_reveal_wires :: "secure_wires \<Rightarrow> compat_error + unit" where
  "check_reveal_wires wires = (if length (sw_bundle wires) \<noteq> sw_len wires then Inl BadAg2pcInputShape else Inr ())"

fun map_reveal_error :: "reveal_error \<Rightarrow> compat_error" where
  "map_reveal_error RvMacDigestMismatch = FeqMismatch"
| "map_reveal_error (BadWireShape _ _) = BadAg2pcInputShape"
| "map_reveal_error (RvPeerShareLength _ _) = BadAg2pcInputShape"

fun map_input_open_error :: "input_open_error \<Rightarrow> compat_error" where
  "map_input_open_error IoMacDigestMismatch = FeqMismatch"
| "map_input_open_error (OwnInputLength _ _) = BadAg2pcInputShape"
| "map_input_open_error (IoPeerShareLength _ _) = BadAg2pcInputShape"
| "map_input_open_error (PeerInputLength _ _) = BadAg2pcInputShape"
| "map_input_open_error (PeerInputIndex _ _) = BadAg2pcInputShape"

section \<open>Joint runs\<close>

definition prog_in_range :: "program \<Rightarrow> bool" where
  \<comment> \<open>no pass indexes out of bounds: every gate reads written wires, every output is a wire\<close>
  "prog_in_range p \<longleftrightarrow> pr_num_inputs p + length (pr_gates p) \<le> pr_num_wires p \<and>
     list_all (\<lambda>(i, g). ag_in0 g < gate_out p i \<and> (ag_typ g \<noteq> AgInv \<longrightarrow> ag_in1 g < gate_out p i)) (enumerate 0 (pr_gates p)) \<and>
     list_all (\<lambda>w. unat w < pr_num_inputs p + length (pr_gates p)) (pr_outputs p)"

record run_env =
  \<comment> \<open>what the environment gives a joint run: the drawn shares of each side, the inputs of the triple
    computation, and the seed both sides squeeze from the transcript\<close>
  en_drawsA :: "ashare_bundle list list"
  en_drawsB :: "ashare_bundle list list"
  en_nonce :: block
  en_bucket :: nat
  en_cots :: "share_vecs \<times> share_vecs"
  en_layers :: "(share_vecs \<times> share_vecs \<times> nat) list"
  en_seed :: block

definition run_program ::
  "(block \<Rightarrow> block \<Rightarrow> block) \<Rightarrow> (bytes \<Rightarrow> bytes) \<Rightarrow> run_env \<Rightarrow> program
   \<Rightarrow> protocol \<times> secure_wires \<Rightarrow> protocol \<times> secure_wires
   \<Rightarrow> compat_error + (protocol \<times> secure_wires) \<times> (protocol \<times> secure_wires)" where
  "run_program aes sha256 env p = (\<lambda>(prA, inA) (prB, inB).
     bindR (check_secure_wires prA inA) (\<lambda>_. bindR (check_secure_wires prB inB) (\<lambda>_.
     if sw_len inA \<noteq> pr_num_inputs p then Inl (BadAg2pcInputLength (pr_num_inputs p) (sw_len inA))
     else if sw_len inB \<noteq> pr_num_inputs p then Inl (BadAg2pcInputLength (pr_num_inputs p) (sw_len inB))
     else if \<not> prog_in_range p then Inl APanic
     else
     let stA = liveness_pass p (run_state_new (ap_party prA) (ap_delta prA) inA);
         stB = liveness_pass p (run_state_new (ap_party prB) (ap_delta prB) inB);
         markA = (if rs_num_ands stA > 0 then prA\<lparr>ap_pool := mark_cots_minted (ap_pool prA)\<rparr> else prA);
         markB = (if rs_num_ands stB > 0 then prB\<lparr>ap_pool := mark_cots_minted (ap_pool prB)\<rparr> else prB)
     in bindR (slot_mask_pass p (en_drawsA env) stA) (\<lambda>stA. bindR (slot_mask_pass p (en_drawsB env) stB) (\<lambda>stB.
        bindR (compute_inplace_owned aes sha256 (en_nonce env) (en_bucket env) (en_cots env) (en_layers env)
                 (ap_pool markA) (ap_pool markB) (rs_rep_a stA, rs_rep_b stA) (rs_rep_a stB, rs_rep_b stB))
              (\<lambda>((poolA, sigmaA), (poolB, sigmaB)).
        let prA = markA\<lparr>ap_pool := poolA\<rparr>; prB = markB\<lparr>ap_pool := poolB\<rparr>;
            stA = stA\<lparr>rs_rep_a := [], rs_rep_b := [], rs_sigma := sigmaA,
                      rs_lambda_and := replicate (max (rs_num_ands stA) 1) 0, rs_mitc := mitccrh_new (en_seed env)\<rparr>;
            stB = stB\<lparr>rs_rep_a := [], rs_rep_b := [], rs_sigma := sigmaB,
                      rs_lambda_and := replicate (max (rs_num_ands stB) 1) 0, rs_mitc := mitccrh_new (en_seed env)\<rparr>
        in bindR (garbler_send aes p stA) (\<lambda>(stA, chunks).
           bindR (evaluator_run aes p chunks stB) (\<lambda>(stB, gamma).
           bindR (if rs_num_ands stA > 0
                  then (let stA = stA\<lparr>rs_lambda_and := sent_bools (rs_lambda_and stB)\<rparr>;
                           (digest, stA) = gamma_check_digest sha256 p stA
                       in if sha256 gamma \<noteq> digest then Inl FeqMismatch else Inr stA)
                  else Inr stA) (\<lambda>stA.
             Inr ((flush_cot_check prA, gather_outputs stA p), (flush_cot_check prB, gather_outputs stB p)))))))))))"

definition open_inputs ::
  "protocol \<Rightarrow> role list \<Rightarrow> bytes list \<Rightarrow> bytes \<times> bytes \<times> nat list" where
  \<comment> \<open>a side's own input bits on all wires, packed, and the wires of the peer\<close>
  "open_inputs pr owners bits_per_owner =
     (let wires = concat (map (\<lambda>(owner, bits). map (\<lambda>b. (owner, b)) bits) (zip owners bits_per_owner));
          own_x_bits = map (\<lambda>(owner, b). if owner = ap_party pr then b AND 1 else 0) wires;
          idx = [0..<length wires]
      in (own_x_bits, map (\<lambda>i. own_x_bits ! i) (filter (\<lambda>i. fst (wires ! i) = ap_party pr) idx),
          filter (\<lambda>i. fst (wires ! i) \<noteq> ap_party pr) idx))"

definition slices :: "bytes list \<Rightarrow> secure_wires \<Rightarrow> compat_error + secure_wires list" where
  "slices bits_per_owner sw =
     mapR (\<lambda>(start, bits). sw_slice sw start (start + length bits))
       (zip (map (\<lambda>k. length (concat (take k bits_per_owner))) [0..<length bits_per_owner]) bits_per_owner)"

definition process_inputs ::
  "(block \<Rightarrow> block \<Rightarrow> block) \<Rightarrow> (bytes \<Rightarrow> bytes) \<Rightarrow> ashare_bundle list \<Rightarrow> ashare_bundle list \<Rightarrow> role list
   \<Rightarrow> protocol \<times> bytes list \<Rightarrow> protocol \<times> bytes list
   \<Rightarrow> compat_error + (protocol \<times> secure_wires list) \<times> (protocol \<times> secure_wires list)" where
  \<comment> \<open>\<open>drawA\<close> and \<open>drawB\<close> are the shares drawn; the input vectors of both sides have the same lengths, or
    the two streams would not agree\<close>
  "process_inputs aes sha256 drawA drawB owners = (\<lambda>(prA, bitsA) (prB, bitsB).
     let prA = prA\<lparr>ap_process_input_calls := ap_process_input_calls prA + 1\<rparr>;
         prB = prB\<lparr>ap_process_input_calls := ap_process_input_calls prB + 1\<rparr> in
     if length owners \<noteq> length bitsA \<or> length owners \<noteq> length bitsB then Inl BadAg2pcInputShape
     else let n_total = length (concat bitsA) in
       if n_total \<ge> 2 ^ 64 then Inl (LengthOverflow ''AG2PC process_inputs'')
       else if map length bitsA \<noteq> map length bitsB then Inl APanic
       else if n_total = 0
         then Inr ((prA, replicate (length owners) default_wires), (prB, replicate (length owners) default_wires))
       else
       let prA = prA\<lparr>ap_pool := mark_cots_minted (ap_pool prA)\<rparr>; prB = prB\<lparr>ap_pool := mark_cots_minted (ap_pool prB)\<rparr>;
           (label0, prg) = prg_random_block aes n_total (ap_prg prA); prA = prA\<lparr>ap_prg := prg\<rparr>;
           (own_xA, packedA, peer_idxA) = open_inputs prA owners bitsA;
           (own_xB, packedB, peer_idxB) = open_inputs prB owners bitsB;
           openA = reveal_local_share sha256 drawA; openB = reveal_local_share sha256 drawB in
       bindR (mapErr map_input_open_error
          (finalize_input_open sha256 drawA own_xA peer_idxA (rl_share_bits openB) (rl_mac_digest openB) packedB (ap_delta prA))) (\<lambda>lambdaA.
       bindR (mapErr map_input_open_error
          (finalize_input_open sha256 drawB own_xB peer_idxB (rl_share_bits openA) (rl_mac_digest openA) packedA (ap_delta prB))) (\<lambda>lambdaB.
       let labels = map (\<lambda>(label0, lambda). label0 XOR (select_block lambda AND ap_delta prA)) (zip label0 lambdaA);
           swA = \<lparr>sw_lambda = lambdaA, sw_bundle = drawA, sw_label0 = label0, sw_eval = []\<rparr>;
           swB = \<lparr>sw_lambda = lambdaB, sw_bundle = drawB, sw_label0 = [], sw_eval = labels\<rparr>
       in bindR (slices bitsA swA) (\<lambda>outA. bindR (slices bitsB swB) (\<lambda>outB. Inr ((prA, outA), (prB, outB)))))))"

datatype reveal_recipient = Public | PartyOnly role

definition decode_to_party ::
  "(bytes \<Rightarrow> bytes) \<Rightarrow> role \<Rightarrow> protocol \<times> secure_wires \<Rightarrow> protocol \<times> secure_wires \<Rightarrow> compat_error + bytes" where
  \<comment> \<open>the recipient's bits; the other side gets the empty vector\<close>
  "decode_to_party sha256 recipient = (\<lambda>(prA, wA) (prB, wB).
     (case recipient of
        Bob \<Rightarrow> let open = reveal_local_share sha256 (sw_bundle wA)
          in mapErr map_reveal_error (reveal_recipient_bits sha256 (sw_lambda wB) (sw_bundle wB) (rl_share_bits open) (rl_mac_digest open) (ap_delta prB))
      | Alice \<Rightarrow> let open = reveal_local_share sha256 (sw_bundle wB)
          in mapErr map_reveal_error (reveal_recipient_bits sha256 (sw_lambda wA) (sw_bundle wA) (rl_share_bits open) (rl_mac_digest open) (ap_delta prA))))"

definition decode ::
  "(bytes \<Rightarrow> bytes) \<Rightarrow> reveal_recipient \<Rightarrow> protocol \<times> secure_wires \<Rightarrow> protocol \<times> secure_wires \<Rightarrow> compat_error + bytes \<times> bytes" where
  \<comment> \<open>what Alice and Bob obtain\<close>
  "decode sha256 recipient a b =
     bindR (check_reveal_wires (snd a)) (\<lambda>_. bindR (check_reveal_wires (snd b)) (\<lambda>_.
     case recipient of
       Public \<Rightarrow> bindR (decode_to_party sha256 Bob a b) (\<lambda>bits. Inr (map (\<lambda>b. b AND 1) bits, bits))
     | PartyOnly Bob \<Rightarrow> bindR (decode_to_party sha256 Bob a b) (\<lambda>bits. Inr ([], bits))
     | PartyOnly Alice \<Rightarrow> bindR (decode_to_party sha256 Alice a b) (\<lambda>bits. Inr (bits, []))))"

end
