(* ===== verification/Session_Slots.thy ===== *)
theory Session_Slots
  imports Session
begin

text \<open>
  The slots of \<open>shachain2pc-emp-compat/src/session.rs\<close>: \<open>ag2pc_slot_capacity\<close>, what the liveness pass
  computes, and what the slot pass leaves: wires that are live together have different slots, a kept
  wire shares its slot with none, and the slot of a kept wire holds its share. Loops over the gates are
  reasoned about with \<open>foldR_enumerate\<close>; lists of wire values are described by \<open>build\<close>.
\<close>

unbundle bit_operations_syntax

section \<open>Loops over the gates\<close>

lemma foldR_enumerate:
  assumes "P 0 s" and "\<And>i s. i < length xs \<Longrightarrow> P i s \<Longrightarrow> \<exists>s'. f (i, xs ! i) s = Inr s' \<and> P (Suc i) s'"
  shows "\<exists>s'. foldR f (enumerate 0 xs) s = Inr s' \<and> P (length xs) s'"
proof -
  have "\<exists>s'. foldR f (take k (enumerate 0 xs)) s = Inr s' \<and> P k s'" if "k \<le> length xs" for k
    using that
  proof (induction k)
    case 0
    then show ?case using assms(1) by simp
  next
    case (Suc k)
    then obtain t where t: "foldR f (take k (enumerate 0 xs)) s = Inr t" "P k t" by auto
    obtain t' where t': "f (k, xs ! k) t = Inr t'" "P (Suc k) t'" using assms(2) [OF _ t(2)] Suc.prems by auto
    have "take (Suc k) (enumerate 0 xs) = take k (enumerate 0 xs) @ [(k, xs ! k)]"
      using Suc.prems by (simp add: take_Suc_conv_app_nth nth_enumerate_eq)
    then show ?case using t t' by (simp add: foldR_append)
  qed
  from this [of "length xs"] show ?thesis by simp
qed

lemma fold_enumerate:
  assumes "P 0 s" and "\<And>i s. i < length xs \<Longrightarrow> P i s \<Longrightarrow> P (Suc i) (f (i, xs ! i) s)"
  shows "P (length xs) (fold f (enumerate 0 xs) s)"
proof -
  have "P k (fold f (take k (enumerate 0 xs)) s)" if "k \<le> length xs" for k
    using that
  proof (induction k)
    case (Suc k)
    have "take (Suc k) (enumerate 0 xs) = take k (enumerate 0 xs) @ [(k, xs ! k)]"
      using Suc.prems by (simp add: take_Suc_conv_app_nth nth_enumerate_eq)
    then show ?case using Suc assms(2) by simp
  qed (use assms(1) in simp)
  from this [of "length xs"] show ?thesis by simp
qed

text \<open>Lists of wire values built gate by gate, each from the wires before it.\<close>

definition build :: "(nat \<Rightarrow> 'a list \<Rightarrow> 'a) \<Rightarrow> 'a list \<Rightarrow> nat \<Rightarrow> 'a list" where
  "build F ini n = fold (\<lambda>i ws. ws @ [F i ws]) [0..<n] ini"

lemma build_Suc: "build F ini (Suc n) = build F ini n @ [F n (build F ini n)]"
  by (simp add: build_def)

lemma length_build [simp]: "length (build F ini n) = length ini + n"
  by (induction n) (simp_all add: build_Suc, simp add: build_def)

lemma build_take: "i \<le> n \<Longrightarrow> build F ini i = take (length ini + i) (build F ini n)"
proof (induction n)
  case (Suc n)
  then show ?case by (cases "i = Suc n") (auto simp: build_Suc)
qed (simp add: build_def)

lemma build_input:
  assumes "w < length ini"
  shows "build F ini n ! w = ini ! w"
proof -
  have "build F ini n ! w = take (length ini + 0) (build F ini n) ! w" using assms by simp
  also have "\<dots> = build F ini 0 ! w" using build_take [of 0 n F ini] by simp
  finally show ?thesis by (simp add: build_def)
qed

lemma build_nth:
  assumes "i < n"
  shows "build F ini n ! (length ini + i) = F i (take (length ini + i) (build F ini n))"
proof -
  have "build F ini n ! (length ini + i) = take (length ini + Suc i) (build F ini n) ! (length ini + i)" by simp
  also have "\<dots> = build F ini (Suc i) ! (length ini + i)" using build_take [of "Suc i" n F ini] assms by simp
  also have "\<dots> = F i (build F ini i)" by (simp add: build_Suc nth_append)
  finally show ?thesis using build_take [of i n F ini] assms by simp
qed

section \<open>Liveness\<close>

definition live :: "bool list \<Rightarrow> int list \<Rightarrow> nat \<Rightarrow> nat \<Rightarrow> bool" where
  \<comment> \<open>the wire is read by gate \<open>i\<close> or later, or kept to the end\<close>
  "live pe lu i w \<longleftrightarrow> pe ! w \<or> int i \<le> lu ! w"

definition liveness_ok :: "program \<Rightarrow> bool list \<Rightarrow> int list \<Rightarrow> bool" where
  "liveness_ok p pe lu \<longleftrightarrow> length pe = pr_num_wires p \<and> length lu = pr_num_wires p
     \<and> (\<forall>w < pr_num_inputs p. pe ! w) \<and> (\<forall>w \<in> set (pr_outputs p). pe ! unat w)
     \<and> (\<forall>i < length (pr_gates p). (ag_typ (pr_gates p ! i) = AgAnd \<longrightarrow> pe ! gate_out p i)
          \<and> int i \<le> lu ! ag_in0 (pr_gates p ! i)
          \<and> (ag_typ (pr_gates p ! i) \<noteq> AgInv \<longrightarrow> int i \<le> lu ! ag_in1 (pr_gates p ! i)))"

definition ac :: "program \<Rightarrow> nat \<Rightarrow> nat" where
  \<comment> \<open>the number of AND gates before gate \<open>i\<close>\<close>
  "ac p i = length (filter (\<lambda>g. ag_typ g = AgAnd) (take i (pr_gates p)))"

lemma ac_0 [simp]: "ac p 0 = 0" by (simp add: ac_def)

lemma ac_Suc: "i < length (pr_gates p) \<Longrightarrow> ac p (Suc i) = ac p i + of_bool (ag_typ (pr_gates p ! i) = AgAnd)"
  by (simp add: ac_def take_Suc_conv_app_nth)

lemma ac_all: "ac p (length (pr_gates p)) = num_ands p"
  by (simp add: ac_def num_ands_def)

lemma ac_mono: "i \<le> j \<Longrightarrow> j \<le> length (pr_gates p) \<Longrightarrow> ac p i \<le> ac p j"
proof (induction j)
  case (Suc j)
  then show ?case by (cases "i = Suc j") (auto simp: ac_Suc)
qed simp

lemma ac_less: "i < length (pr_gates p) \<Longrightarrow> ag_typ (pr_gates p ! i) = AgAnd \<Longrightarrow> ac p i < num_ands p"
  using ac_mono [of "Suc i" "length (pr_gates p)" p] by (simp add: ac_Suc ac_all)

lemma prog_okD:
  assumes "prog_ok p" and "i < length (pr_gates p)"
  shows "ag_in0 (pr_gates p ! i) < gate_out p i"
    and "ag_typ (pr_gates p ! i) \<noteq> AgInv \<Longrightarrow> ag_in1 (pr_gates p ! i) < gate_out p i"
    and "gate_out p i < pr_num_wires p"
  using assms by (auto simp: prog_ok_def gate_out_def)

definition live_upto :: "program \<Rightarrow> nat \<Rightarrow> nat \<Rightarrow> int list \<Rightarrow> bool list \<Rightarrow> bool" where
  "live_upto p i na lu pe \<longleftrightarrow> length pe = pr_num_wires p \<and> length lu = pr_num_wires p
     \<and> na = ac p i \<and> (\<forall>w < pr_num_inputs p. pe ! w)
     \<and> (\<forall>j < i. (ag_typ (pr_gates p ! j) = AgAnd \<longrightarrow> pe ! gate_out p j)
          \<and> int j \<le> lu ! ag_in0 (pr_gates p ! j)
          \<and> (ag_typ (pr_gates p ! j) \<noteq> AgInv \<longrightarrow> int j \<le> lu ! ag_in1 (pr_gates p ! j)))"

abbreviation lv :: "run_state \<Rightarrow> nat \<Rightarrow> int list \<Rightarrow> bool list \<Rightarrow> run_state" where
  "lv st0 na lu pe \<equiv> st0\<lparr>rs_num_ands := na, rs_last_use := lu, rs_persist := pe\<rparr>"

lemma liveness_gate_step:
  assumes "prog_ok p" and i: "i < length (pr_gates p)" and l: "live_upto p i na lu pe"
  shows "\<exists>na' lu' pe'. liveness_gate p (i, pr_gates p ! i) (lv st0 na lu pe) = lv st0 na' lu' pe' \<and> live_upto p (Suc i) na' lu' pe'"
proof -
  let ?g = "pr_gates p ! i"
  note ok = prog_okD [OF assms(1) i]
  have in0: "ag_in0 ?g < pr_num_wires p" using ok by simp
  have old: "j < i \<Longrightarrow> gate_out p j \<noteq> gate_out p i" for j by (simp add: gate_out_def)
  have inp: "w < pr_num_inputs p \<Longrightarrow> w \<noteq> gate_out p i" for w by (simp add: gate_out_def)
  define lu' where "lu' = (if ag_typ ?g \<noteq> AgInv then lu[ag_in0 ?g := int i, ag_in1 ?g := int i] else lu[ag_in0 ?g := int i])"
  define pe' where "pe' = pe[gate_out p i := (ag_typ ?g = AgAnd)]"
  have "liveness_gate p (i, ?g) (lv st0 na lu pe) = lv st0 (na + of_bool (ag_typ ?g = AgAnd)) lu' pe'"
    by (simp add: liveness_gate_def Let_def lu'_def pe'_def)
  moreover have "live_upto p (Suc i) (na + of_bool (ag_typ ?g = AgAnd)) lu' pe'"
  proof -
    have up: "int j \<le> xs ! w \<Longrightarrow> j \<le> i \<Longrightarrow> int j \<le> xs[k := int i] ! w" for j w k xs
      by (cases "k < length xs") (auto simp: nth_list_update list_update_beyond not_less)
    then have grow: "int j \<le> lu ! w \<Longrightarrow> j \<le> i \<Longrightarrow> int j \<le> lu' ! w" for j w
      by (simp add: lu'_def)
    have new: "int i \<le> lu' ! ag_in0 ?g" "ag_typ ?g \<noteq> AgInv \<Longrightarrow> int i \<le> lu' ! ag_in1 ?g"
      using l in0 ok by (auto simp: lu'_def nth_list_update live_upto_def)
    have "length lu' = length lu" "length pe' = length pe" by (simp_all add: lu'_def pe'_def)
    moreover have "pe' ! gate_out p i" if "ag_typ ?g = AgAnd" using that l ok by (simp add: pe'_def live_upto_def)
    moreover have "pe' ! w = pe ! w" if "w \<noteq> gate_out p i" for w using that by (simp add: pe'_def)
    ultimately show ?thesis
      using l grow new inp old unfolding live_upto_def by (simp add: ac_Suc [OF i] less_Suc_eq)
  qed
  ultimately show ?thesis by blast
qed

lemma persist_outputs:
  assumes "\<forall>w \<in> set os. unat w < length (rs_persist st)"
  shows "fold (\<lambda>out st. st\<lparr>rs_persist := (rs_persist st)[unat out := True]\<rparr>) os st =
     st\<lparr>rs_persist := map (\<lambda>w. rs_persist st ! w \<or> w \<in> unat ` set os) [0..<length (rs_persist st)]\<rparr>"
  using assms
proof (induction os arbitrary: st)
  case Nil
  have "map (\<lambda>w. rs_persist st ! w) [0..<length (rs_persist st)] = rs_persist st" by (rule map_nth)
  then show ?case by simp
next
  case (Cons w os)
  have "map (\<lambda>v. (rs_persist st)[unat w := True] ! v \<or> v \<in> unat ` set os) [0..<length (rs_persist st)]
      = map (\<lambda>v. rs_persist st ! v \<or> v \<in> unat ` set (w # os)) [0..<length (rs_persist st)]"
    using Cons.prems by (auto simp: nth_list_update)
  then show ?case using Cons by simp
qed

lemma liveness_pass_spec:
  assumes ok: "prog_ok p" and ni: "rs_num_inputs st = pr_num_inputs p"
  shows "\<exists>pe lu. liveness_pass p st = st\<lparr>rs_num_wires := pr_num_wires p, rs_num_ands := num_ands p, rs_last_use := lu, rs_persist := pe\<rparr>
     \<and> liveness_ok p pe lu"
proof -
  define st0 where "st0 = st\<lparr>rs_num_wires := pr_num_wires p, rs_num_ands := 0, rs_last_use := replicate (pr_num_wires p) (- 1),
                  rs_persist := map (\<lambda>i. i < rs_num_inputs st) [0..<pr_num_wires p]\<rparr>"
  have le: "pr_num_inputs p \<le> pr_num_wires p" using ok by (simp add: prog_ok_def)
  then have "live_upto p 0 0 (rs_last_use st0) (rs_persist st0)" by (simp add: live_upto_def st0_def ni)
  moreover have "st0 = lv st0 0 (rs_last_use st0) (rs_persist st0)" by (simp add: st0_def)
  ultimately have "\<exists>na lu pe. st0 = lv st0 na lu pe \<and> live_upto p 0 na lu pe" by blast
  then have "\<exists>na lu pe. fold (liveness_gate p) (enumerate 0 (pr_gates p)) st0 = lv st0 na lu pe \<and> live_upto p (length (pr_gates p)) na lu pe"
    by (rule fold_enumerate) (use liveness_gate_step [OF ok] in blast)
  then obtain na lu pe where t: "fold (liveness_gate p) (enumerate 0 (pr_gates p)) st0 = lv st0 na lu pe"
    "live_upto p (length (pr_gates p)) na lu pe" by blast
  have len: "length pe = pr_num_wires p" using t(2) by (simp add: live_upto_def)
  have outs: "\<forall>w \<in> set (pr_outputs p). unat w < length (rs_persist (lv st0 na lu pe))"
    using ok len unfolding prog_ok_def by auto
  let ?pe = "map (\<lambda>w. pe ! w \<or> w \<in> unat ` set (pr_outputs p)) [0..<length pe]"
  have "liveness_ok p ?pe lu"
    using t(2) outs le prog_okD [OF ok] by (auto simp: liveness_ok_def live_upto_def)
  moreover have "liveness_pass p st = lv st0 na lu ?pe"
    using persist_outputs [OF outs] by (simp add: liveness_pass_def st0_def [symmetric] t(1) Let_def)
  moreover have "na = num_ands p" using t(2) by (simp add: live_upto_def ac_all)
  ultimately show ?thesis
    by (intro exI [of _ ?pe] exI [of _ lu]) (simp add: st0_def)
qed

section \<open>Slot allocation\<close>

definition capacity_free_if_dead :: "run_state \<Rightarrow> nat list \<Rightarrow> nat \<Rightarrow> nat \<Rightarrow> nat list \<Rightarrow> nat list" where
  "capacity_free_if_dead st phys wire gate_index freelist =
     (if \<not> rs_persist st ! wire \<and> rs_last_use st ! wire = int gate_index then phys ! wire # freelist else freelist)"

definition pick_slot :: "bool \<Rightarrow> nat \<Rightarrow> nat list \<Rightarrow> nat \<times> nat \<times> nat list" where
  \<comment> \<open>the slot taken, the number of slots, the free list\<close>
  "pick_slot persist num_slots freelist = (case (persist, freelist) of
       (False, s # freelist) \<Rightarrow> (s, num_slots, freelist)
     | _ \<Rightarrow> (num_slots, num_slots + 1, freelist))"

definition capacity_gate :: "program \<Rightarrow> run_state \<Rightarrow> nat \<times> ag_gate \<Rightarrow> nat list \<times> nat \<times> nat list \<Rightarrow> nat list \<times> nat \<times> nat list" where
  "capacity_gate p st = (\<lambda>(gate_index, g) (phys, num_slots, freelist).
     let out = gate_out p gate_index;
         (s, num_slots, freelist) = pick_slot (rs_persist st ! out) num_slots freelist;
         phys = phys[out := s];
         freelist = capacity_free_if_dead st phys (ag_in0 g) gate_index freelist;
         freelist = (if ag_typ g \<noteq> AgInv \<and> ag_in1 g \<noteq> ag_in0 g
                     then capacity_free_if_dead st phys (ag_in1 g) gate_index freelist else freelist)
     in (phys, num_slots, freelist))"

definition capacity_start :: "program \<Rightarrow> run_state \<Rightarrow> nat list \<times> nat \<times> nat list" where
  "capacity_start p st =
     ([0..<rs_num_inputs st] @ replicate (pr_num_wires p - rs_num_inputs st) (2 ^ 32 - 1), rs_num_inputs st, [])"

definition slot_capacity :: "run_state \<Rightarrow> program \<Rightarrow> nat" where
  "slot_capacity st p = (let (_, num_slots, _) = fold (capacity_gate p st) (enumerate 0 (pr_gates p)) (capacity_start p st) in num_slots)"

text \<open>
  What an allocation keeps: wires that are live together, and every kept wire and any other, have
  different slots; free slots are those of no live wire; and the slot of a gate's output is none of a wire
  live at that gate.
\<close>

definition slots_inv :: "program \<Rightarrow> bool list \<Rightarrow> int list \<Rightarrow> nat \<Rightarrow> nat list \<times> nat \<times> nat list \<Rightarrow> bool" where
  "slots_inv p pe lu i = (\<lambda>(phys, S, fl). let m = gate_out p i in
     length phys = pr_num_wires p \<and> (\<forall>w < m. phys ! w < S)
     \<and> (\<forall>w < m. \<forall>w' < m. w \<noteq> w' \<and> live pe lu i w \<and> live pe lu i w' \<longrightarrow> phys ! w \<noteq> phys ! w')
     \<and> (\<forall>w < m. \<forall>w' < m. w \<noteq> w' \<and> pe ! w \<longrightarrow> phys ! w \<noteq> phys ! w')
     \<and> distinct fl \<and> (\<forall>s \<in> set fl. s < S \<and> (\<forall>w < m. live pe lu i w \<longrightarrow> phys ! w \<noteq> s))
     \<and> (\<forall>j < i. \<forall>w < gate_out p j. live pe lu j w \<longrightarrow> phys ! w \<noteq> phys ! gate_out p j)
     \<and> (\<forall>w < pr_num_inputs p. phys ! w = w))"

lemma live_Suc: "live pe lu (Suc i) w \<Longrightarrow> live pe lu i w"
  by (auto simp: live_def)

lemma capacity_step:
  assumes ok: "prog_ok p" and lo: "liveness_ok p (rs_persist st) (rs_last_use st)" and i: "i < length (pr_gates p)"
    and inv: "slots_inv p (rs_persist st) (rs_last_use st) i a"
  shows "slots_inv p (rs_persist st) (rs_last_use st) (Suc i) (capacity_gate p st (i, pr_gates p ! i) a)"
proof -
  obtain phys S fl where a: "a = (phys, S, fl)" by (cases a)
  let ?pe = "rs_persist st" and ?lu = "rs_last_use st" and ?g = "pr_gates p ! i" and ?o = "gate_out p i"
  let ?m = "gate_out p i"
  note g = prog_okD [OF ok i]
  have Sm: "gate_out p (Suc i) = Suc ?m" by (simp add: gate_out_def)
  have len: "length phys = pr_num_wires p" and lt: "\<And>w. w < ?m \<Longrightarrow> phys ! w < S"
    and inj: "\<And>w w'. w < ?m \<Longrightarrow> w' < ?m \<Longrightarrow> w \<noteq> w' \<Longrightarrow> live ?pe ?lu i w \<Longrightarrow> live ?pe ?lu i w' \<Longrightarrow> phys ! w \<noteq> phys ! w'"
    and per: "\<And>w w'. w < ?m \<Longrightarrow> w' < ?m \<Longrightarrow> w \<noteq> w' \<Longrightarrow> ?pe ! w \<Longrightarrow> phys ! w \<noteq> phys ! w'"
    and dfl: "distinct fl" and fl: "\<And>s. s \<in> set fl \<Longrightarrow> s < S" "\<And>s w. s \<in> set fl \<Longrightarrow> w < ?m \<Longrightarrow> live ?pe ?lu i w \<Longrightarrow> phys ! w \<noteq> s"
    and F1: "\<And>j w. j < i \<Longrightarrow> w < gate_out p j \<Longrightarrow> live ?pe ?lu j w \<Longrightarrow> phys ! w \<noteq> phys ! gate_out p j"
    and inp: "\<And>w. w < pr_num_inputs p \<Longrightarrow> phys ! w = w"
    using inv by (auto simp: slots_inv_def a Let_def)
  obtain s S' fl' where pick: "pick_slot (?pe ! ?o) S fl = (s, S', fl')"
    by (metis prod_cases3)
  have sp: "s < S'" "S \<le> S'" "distinct fl'" "set fl' \<subseteq> set fl" "s \<notin> set fl'" "\<And>w. w < ?m \<Longrightarrow> live ?pe ?lu i w \<Longrightarrow> phys ! w \<noteq> s"
    and sp2: "?pe ! ?o \<Longrightarrow> s = S"
  proof -
    have "s < S' \<and> S \<le> S' \<and> distinct fl' \<and> set fl' \<subseteq> set fl \<and> s \<notin> set fl' \<and> (\<forall>w < ?m. live ?pe ?lu i w \<longrightarrow> phys ! w \<noteq> s) \<and> (?pe ! ?o \<longrightarrow> s = S)"
      using pick dfl fl lt unfolding pick_slot_def by (cases "?pe ! ?o"; cases fl) (fastforce simp: less_imp_neq)+
    then show "s < S'" "S \<le> S'" "distinct fl'" "set fl' \<subseteq> set fl" "s \<notin> set fl'" "\<And>w. w < ?m \<Longrightarrow> live ?pe ?lu i w \<Longrightarrow> phys ! w \<noteq> s"
      "?pe ! ?o \<Longrightarrow> s = S" by auto
  qed
  define phys' where "phys' = phys[?o := s]"
  have po: "phys' ! ?o = s" and pw: "\<And>w. w < ?m \<Longrightarrow> phys' ! w = phys ! w" "length phys' = length phys"
    using g len by (auto simp: phys'_def)
  define dead where "dead w \<longleftrightarrow> \<not> ?pe ! w \<and> ?lu ! w = int i" for w
  define fl2 where "fl2 = (if dead (ag_in0 ?g) then phys' ! ag_in0 ?g # fl' else fl')"
  define fl3 where "fl3 = (if ag_typ ?g \<noteq> AgInv \<and> ag_in1 ?g \<noteq> ag_in0 ?g \<and> dead (ag_in1 ?g) then phys' ! ag_in1 ?g # fl2 else fl2)"
  have step: "capacity_gate p st (i, ?g) a = (phys', S', fl3)"
    unfolding capacity_gate_def a prod.case pick Let_def
    by (simp add: phys'_def fl2_def fl3_def dead_def capacity_free_if_dead_def)
  have dl: "live ?pe ?lu i w" "\<not> live ?pe ?lu (Suc i) w" if "dead w" for w using that by (auto simp: dead_def live_def)
  have fl3: "distinct fl3 \<and> (\<forall>t \<in> set fl3. t < S' \<and> (\<forall>w < Suc ?m. live ?pe ?lu (Suc i) w \<longrightarrow> phys' ! w \<noteq> t))"
  proof -
    have base: "t < S'" "w < Suc ?m \<Longrightarrow> live ?pe ?lu (Suc i) w \<Longrightarrow> phys' ! w \<noteq> t" if t: "t \<in> set fl'" for t w
    proof -
      have tf: "t \<in> set fl" using t sp(4) by blast
      then show "t < S'" using fl(1) [of t] sp(2) by simp
      assume w: "w < Suc ?m" "live ?pe ?lu (Suc i) w"
      show "phys' ! w \<noteq> t"
      proof (cases "w = ?m")
        case True
        then show ?thesis using po sp(5) t by auto
      next
        case False
        then have "w < ?m" using w by simp
        then show ?thesis using fl(2) [OF tf _ live_Suc [OF w(2)]] pw(1) by simp
      qed
    qed
    have new: "phys' ! v < S'" "w < Suc ?m \<Longrightarrow> live ?pe ?lu (Suc i) w \<Longrightarrow> phys' ! w \<noteq> phys' ! v" "phys' ! v \<notin> set fl'"
      if "dead v" "v < ?m" for v w
    proof -
      show "phys' ! v < S'" using lt [OF that(2)] pw(1) [OF that(2)] sp(2) by simp
      show "phys' ! v \<notin> set fl'" using that dl fl(2) sp(4) pw by (metis subsetD)
      assume w: "w < Suc ?m" "live ?pe ?lu (Suc i) w"
      show "phys' ! w \<noteq> phys' ! v"
      proof (cases "w = ?m")
        case True
        then show ?thesis using sp(6) [OF that(2) dl(1) [OF that(1)]] po pw that by simp
      next
        case False
        then have "w < ?m" "w \<noteq> v" using w dl(2) [OF that(1)] by auto
        then show ?thesis using inj [of w v] live_Suc [OF w(2)] dl(1) [OF that(1)] that(2) pw by simp
      qed
    qed
    have two: "phys' ! ag_in0 ?g \<noteq> phys' ! ag_in1 ?g"
      if "dead (ag_in0 ?g)" "dead (ag_in1 ?g)" "ag_typ ?g \<noteq> AgInv" "ag_in1 ?g \<noteq> ag_in0 ?g"
      using inj [of "ag_in0 ?g" "ag_in1 ?g"] dl(1) that g pw by auto
    show ?thesis using base new two sp(3) g unfolding fl3_def fl2_def by auto
  qed
  have c1: "\<forall>w < Suc ?m. phys' ! w < S'" using lt sp po pw by (auto simp: less_Suc_eq intro: less_le_trans)
  have c2: "phys' ! w \<noteq> phys' ! w'" if "w < Suc ?m" "w' < Suc ?m" "w \<noteq> w'" "live ?pe ?lu (Suc i) w" "live ?pe ?lu (Suc i) w'" for w w'
    using that inj [of w w'] sp(6) live_Suc po pw by (auto simp: less_Suc_eq) metis
  have c3: "phys' ! w \<noteq> phys' ! w'" if "w < Suc ?m" "w' < Suc ?m" "w \<noteq> w'" "?pe ! w" for w w'
  proof (cases "w = ?m")
    case True
    then have "s = S" "w' < ?m" using sp2 that by auto
    then show ?thesis using lt [of w'] po pw True by simp
  next
    case False
    then have "w < ?m" "live ?pe ?lu i w" using that by (auto simp: live_def)
    then show ?thesis using that per [of w w'] sp(6) po pw by (cases "w' = ?m") auto
  qed
  have c4: "\<forall>j < Suc i. \<forall>w < gate_out p j. live ?pe ?lu j w \<longrightarrow> phys' ! w \<noteq> phys' ! gate_out p j"
  proof (intro allI impI)
    fix j w assume j: "j < Suc i" "w < gate_out p j" "live ?pe ?lu j w"
    show "phys' ! w \<noteq> phys' ! gate_out p j"
    proof (cases "j = i")
      case True
      then show ?thesis using j sp(6) po pw by simp
    next
      case False
      then have "j < i" "w < ?m" "gate_out p j < ?m" using j by (auto simp: gate_out_def)
      then show ?thesis using F1 j pw by simp
    qed
  qed
  have c5: "\<forall>w < pr_num_inputs p. phys' ! w = w" using inp pw by (simp add: gate_out_def)
  have c6: "length phys' = pr_num_wires p" using len pw by simp
  show ?thesis unfolding step slots_inv_def Let_def Sm prod.case
    by (intro conjI c1 c4 c5 c6 fl3 [THEN conjunct1] fl3 [THEN conjunct2] allI impI) (blast dest: c2 c3)+
qed

lemma capacity_start_inv:
  assumes "prog_ok p" and "rs_num_inputs st = pr_num_inputs p"
  shows "slots_inv p pe lu 0 (capacity_start p st)"
  using assms by (auto simp: slots_inv_def capacity_start_def gate_out_def nth_append prog_ok_def)

section \<open>The slot pass\<close>

definition and_gates :: "program \<Rightarrow> nat \<Rightarrow> nat list" where
  "and_gates p i = filter (\<lambda>j. ag_typ (pr_gates p ! j) = AgAnd) [0..<i]"

lemma and_gates_Suc: "and_gates p (Suc i) = and_gates p i @ (if ag_typ (pr_gates p ! i) = AgAnd then [i] else [])"
  by (simp add: and_gates_def)

lemma length_and_gates: "i \<le> length (pr_gates p) \<Longrightarrow> length (and_gates p i) = ac p i"
  by (induction i) (auto simp: and_gates_Suc ac_Suc, simp add: and_gates_def)

definition wire_shares :: "program \<Rightarrow> ashare_bundle list \<Rightarrow> ashare_bundle list \<Rightarrow> ashare_bundle list" where
  \<comment> \<open>a side's share of every wire, from the drawn shares \<open>D\<close> of the AND gates\<close>
  "wire_shares p D ins = build (\<lambda>i ws. let g = pr_gates p ! i in case ag_typ g of
       AgAnd \<Rightarrow> D ! ac p i | AgXor \<Rightarrow> xor_bundle (ws ! ag_in0 g) (ws ! ag_in1 g) | AgInv \<Rightarrow> ws ! ag_in0 g)
     ins (length (pr_gates p))"

lemma wire_shares_length: "length ins = pr_num_inputs p \<Longrightarrow> prog_ok p \<Longrightarrow> length (wire_shares p D ins) = pr_num_wires p"
  by (simp add: wire_shares_def prog_ok_def)

lemma wire_shares_input: "w < length ins \<Longrightarrow> wire_shares p D ins ! w = ins ! w"
  by (simp add: wire_shares_def build_input)

lemma wire_shares_gate:
  assumes "prog_ok p" and "length ins = pr_num_inputs p" and "i < length (pr_gates p)"
  shows "wire_shares p D ins ! gate_out p i = (let g = pr_gates p ! i; W = wire_shares p D ins in case ag_typ g of
       AgAnd \<Rightarrow> D ! ac p i | AgXor \<Rightarrow> xor_bundle (W ! ag_in0 g) (W ! ag_in1 g) | AgInv \<Rightarrow> W ! ag_in0 g)"
  unfolding wire_shares_def gate_out_def assms(2) [symmetric] build_nth [OF assms(3)]
  using prog_okD [OF assms(1,3)] assms(2) by (auto simp: Let_def gate_out_def split: ag_type.split)

definition bufs_ok :: "ashare_bundle list \<Rightarrow> nat \<Rightarrow> ashare_bundle list \<Rightarrow> nat \<Rightarrow> ashare_bundle list list \<Rightarrow> bool" where
  "bufs_ok D k buf off draws \<longleftrightarrow> k \<le> length D \<and> off \<le> length buf \<and> drop k D = drop off buf @ concat draws \<and> [] \<notin> set draws"

lemma bufs_ok_start: "[] \<notin> set draws \<Longrightarrow> bufs_ok (concat draws) 0 [] 0 draws"
  by (simp add: bufs_ok_def)

lemma bufs_ok_next:
  assumes "bufs_ok D k buf off draws" and "k < length D"
  shows "\<exists>buf' off' draws'. (if off \<ge> length buf then (case draws of [] \<Rightarrow> Inl APanic | b # ds \<Rightarrow> Inr (b, 0, ds)) else Inr (buf, off, draws))
       = Inr (buf', off', draws') \<and> off' < length buf' \<and> buf' ! off' = D ! k \<and> bufs_ok D (Suc k) buf' (Suc off') draws'"
proof (cases "off \<ge> length buf")
  case True
  then have d: "drop k D = concat draws" using assms(1) by (simp add: bufs_ok_def)
  then obtain b ds where ds: "draws = b # ds" using assms(2) by (cases draws) auto
  then have b: "b \<noteq> []" using assms(1) by (auto simp: bufs_ok_def)
  then obtain x xs where "b = x # xs" by (cases b) auto
  then show ?thesis using True ds d assms
    by (auto simp: bufs_ok_def Cons_nth_drop_Suc [symmetric])
next
  case False
  then have "drop off buf = buf ! off # drop (Suc off) buf" by (simp add: Cons_nth_drop_Suc)
  then show ?thesis using False assms
    by (auto simp: bufs_ok_def Cons_nth_drop_Suc [symmetric])
qed

definition slot_inv ::
  "program \<Rightarrow> run_state \<Rightarrow> ashare_bundle list \<Rightarrow> ashare_bundle list \<Rightarrow> bytes \<Rightarrow> nat \<Rightarrow> slot_pass \<Rightarrow> bool" where
  "slot_inv p st0 D W lam i sp \<longleftrightarrow> (\<exists>phys S ws ms.
     sp_st sp = st0\<lparr>rs_phys := phys, rs_num_slots := S, rs_wire_slot := ws, rs_mask_input := ms,
        rs_rep_a := map (\<lambda>j. W ! ag_in0 (pr_gates p ! j)) (and_gates p i),
        rs_rep_b := map (\<lambda>j. W ! ag_in1 (pr_gates p ! j)) (and_gates p i)\<rparr>
   \<and> slots_inv p (rs_persist st0) (rs_last_use st0) i (phys, S, sp_free sp)
   \<and> (phys, S, sp_free sp) = fold (capacity_gate p st0) (take i (enumerate 0 (pr_gates p))) (capacity_start p st0)
   \<and> length ws = S \<and> length ms = S \<and> pr_num_inputs p \<le> S
   \<and> (\<forall>w < gate_out p i. live (rs_persist st0) (rs_last_use st0) i w \<longrightarrow> ws ! (phys ! w) = W ! w)
   \<and> (\<forall>w < pr_num_inputs p. ms ! w = lam ! w)
   \<and> bufs_ok D (ac p i) (sp_buf sp) (sp_off sp) (sp_draws sp))"

lemma put_slot_spec:
  assumes "rs_num_slots st = S" "length (rs_wire_slot st) = S" "length (rs_mask_input st) = S"
    and "pick_slot (rs_persist st ! out) S fl = (s, S', fl')" and "\<And>t. t \<in> set fl \<Longrightarrow> t < S"
  shows "\<exists>ws ms. put_slot out v (st, fl) = (st\<lparr>rs_num_slots := S', rs_phys := (rs_phys st)[out := s],
       rs_wire_slot := ws, rs_mask_input := ms\<rparr>, fl')
     \<and> length ws = S' \<and> length ms = S' \<and> ws ! s = v
     \<and> (\<forall>t < S. t \<noteq> s \<longrightarrow> ws ! t = rs_wire_slot st ! t \<and> ms ! t = rs_mask_input st ! t)"
proof (cases "\<not> rs_persist st ! out \<and> fl \<noteq> []")
  case True
  then obtain fs where fl: "fl = s # fs" "S' = S" "fl' = fs" using assms(4) by (auto simp: pick_slot_def split: list.splits)
  then have "s < S" using assms(5) by simp
  moreover have "put_slot out v (st, fl) = (st\<lparr>rs_num_slots := S', rs_phys := (rs_phys st)[out := s],
       rs_wire_slot := (rs_wire_slot st)[s := v], rs_mask_input := (rs_mask_input st)[s := 0]\<rparr>, fl')"
    using True fl assms(1) by (simp add: put_slot_def alloc_slot_def)
  ultimately show ?thesis using fl assms(2,3)
    by (intro exI [of _ "(rs_wire_slot st)[s := v]"] exI [of _ "(rs_mask_input st)[s := 0]"]) auto
next
  case False
  then have s: "s = S" "S' = S + 1" "fl' = fl" using assms(4) by (auto simp: pick_slot_def split: list.splits bool.splits)
  have "put_slot out v (st, fl) = (st\<lparr>rs_num_slots := S', rs_phys := (rs_phys st)[out := s],
       rs_wire_slot := (rs_wire_slot st @ [default_bundle])[s := v], rs_mask_input := (rs_mask_input st @ [0])[s := 0]\<rparr>, fl')"
    using False s assms(1) by (auto simp: put_slot_def alloc_slot_def push_slot_def split: bool.splits list.splits)
  then show ?thesis using s assms(2,3)
    by (intro exI [of _ "(rs_wire_slot st @ [default_bundle])[s := v]"] exI [of _ "(rs_mask_input st @ [0])[s := 0]"])
       (auto simp: nth_append nth_list_update)
qed

lemma free_inputs_capacity:
  assumes "rs_persist st = rs_persist st0" "rs_last_use st = rs_last_use st0"
    and "pick_slot (rs_persist st0 ! gate_out p i) S fl = (s, S', fl')" and "rs_phys st = phys[gate_out p i := s]"
  shows "capacity_gate p st0 (i, g) (phys, S, fl) = (rs_phys st, S', free_inputs g i st fl')"
  using assms by (simp add: capacity_gate_def free_inputs_def free_if_dead_def capacity_free_if_dead_def slot_def Let_def)

lemma slot_inv_put:
  assumes ok: "prog_ok p" and lo: "liveness_ok p (rs_persist st0) (rs_last_use st0)" and i: "i < length (pr_gates p)"
    and inv: "slot_inv p st0 D W lam i sp" and v: "v = W ! gate_out p i"
    and t: "t = (if ag_typ (pr_gates p ! i) = AgAnd then (sp_st sp)\<lparr>rs_rep_a := rs_rep_a (sp_st sp) @ [W ! ag_in0 (pr_gates p ! i)],
        rs_rep_b := rs_rep_b (sp_st sp) @ [W ! ag_in1 (pr_gates p ! i)]\<rparr> else sp_st sp)"
    and buf: "bufs_ok D (ac p (Suc i)) buf off draws"
  shows "\<exists>st' fl'. put_slot (gate_out p i) v (t, sp_free sp) = (st', fl') \<and>
     slot_inv p st0 D W lam (Suc i) \<lparr>sp_st = st', sp_free = free_inputs (pr_gates p ! i) i st' fl', sp_buf = buf, sp_off = off, sp_draws = draws\<rparr>"
proof -
  let ?g = "pr_gates p ! i" let ?o = "gate_out p i" let ?pe = "rs_persist st0" let ?lu = "rs_last_use st0"
  obtain phys S ws ms where st: "sp_st sp = st0\<lparr>rs_phys := phys, rs_num_slots := S, rs_wire_slot := ws, rs_mask_input := ms,
        rs_rep_a := map (\<lambda>j. W ! ag_in0 (pr_gates p ! j)) (and_gates p i),
        rs_rep_b := map (\<lambda>j. W ! ag_in1 (pr_gates p ! j)) (and_gates p i)\<rparr>"
    and si: "slots_inv p ?pe ?lu i (phys, S, sp_free sp)"
    and cap: "(phys, S, sp_free sp) = fold (capacity_gate p st0) (take i (enumerate 0 (pr_gates p))) (capacity_start p st0)"
    and len: "length ws = S" "length ms = S" "pr_num_inputs p \<le> S"
    and vals: "\<And>w. w < ?o \<Longrightarrow> live ?pe ?lu i w \<Longrightarrow> ws ! (phys ! w) = W ! w"
    and ms: "\<And>w. w < pr_num_inputs p \<Longrightarrow> ms ! w = lam ! w"
    using inv unfolding slot_inv_def by blast
  obtain s S' fl' where pick: "pick_slot (?pe ! ?o) S (sp_free sp) = (s, S', fl')" by (metis prod_cases3)
  have fl: "\<And>x. x \<in> set (sp_free sp) \<Longrightarrow> x < S" "length phys = pr_num_wires p" "\<And>w. w < ?o \<Longrightarrow> phys ! w < S"
    using si by (auto simp: slots_inv_def Let_def)
  have tr: "rs_num_slots t = S" "rs_wire_slot t = ws" "rs_mask_input t = ms" "rs_persist t = ?pe" "rs_phys t = phys" "rs_last_use t = ?lu"
    using t st by auto
  obtain ws' ms' where put: "put_slot ?o v (t, sp_free sp) = (t\<lparr>rs_num_slots := S', rs_phys := phys[?o := s],
       rs_wire_slot := ws', rs_mask_input := ms'\<rparr>, fl')"
     and w': "length ws' = S'" "length ms' = S'" "ws' ! s = v" "\<And>x. x < S \<Longrightarrow> x \<noteq> s \<Longrightarrow> ws' ! x = ws ! x \<and> ms' ! x = ms ! x"
    using put_slot_spec [of t S ?o "sp_free sp" s S' fl' v] tr pick fl(1) len by auto
  define st' where "st' = t\<lparr>rs_num_slots := S', rs_phys := phys[?o := s], rs_wire_slot := ws', rs_mask_input := ms'\<rparr>"
  have cg: "capacity_gate p st0 (i, ?g) (phys, S, sp_free sp) = (phys[?o := s], S', free_inputs ?g i st' fl')"
    using free_inputs_capacity [of st' st0 p i S "sp_free sp" s S' fl' phys ?g] pick tr by (simp add: st'_def)
  have si': "slots_inv p ?pe ?lu (Suc i) (phys[?o := s], S', free_inputs ?g i st' fl')"
    using capacity_step [OF ok lo i si] unfolding cg .
  have take: "take (Suc i) (enumerate 0 (pr_gates p)) = take i (enumerate 0 (pr_gates p)) @ [(i, ?g)]"
    using i by (simp add: take_Suc_conv_app_nth nth_enumerate_eq)
  have on: "?o < length phys" using prog_okD(3) [OF ok i] fl(2) by simp
  have ne: "phys ! w \<noteq> s" if "w < ?o" "live ?pe ?lu i w" for w
  proof -
    have "\<forall>w < ?o. live ?pe ?lu i w \<longrightarrow> phys[?o := s] ! w \<noteq> phys[?o := s] ! ?o"
      using si' unfolding slots_inv_def Let_def prod.case by blast
    then show ?thesis using that on by auto
  qed
  have vals': "ws' ! (phys[?o := s] ! w) = W ! w" if "w < gate_out p (Suc i)" "live ?pe ?lu (Suc i) w" for w
  proof (cases "w = ?o")
    case True
    then show ?thesis using on w'(3) v by simp
  next
    case False
    then have w: "w < ?o" using that by (simp add: gate_out_def)
    then show ?thesis using ne [OF w live_Suc [OF that(2)]] w'(4) [OF fl(3) [OF w]] vals [OF w live_Suc [OF that(2)]] on by simp
  qed
  have ms'': "ms' ! w = lam ! w" if w: "w < pr_num_inputs p" for w
  proof -
    have "phys ! w = w" "w < ?o" using si w by (auto simp: slots_inv_def Let_def gate_out_def)
    moreover have "live ?pe ?lu i w" using lo w by (simp add: live_def liveness_ok_def)
    ultimately have "w \<noteq> s" using ne by metis
    then show ?thesis using w'(4) [of w] ms w len(3) by simp
  qed
  have S': "pr_num_inputs p \<le> S'" using pick len(3) by (auto simp: pick_slot_def split: list.splits bool.splits)
  have st'eq: "st' = st0\<lparr>rs_phys := phys[?o := s], rs_num_slots := S', rs_wire_slot := ws', rs_mask_input := ms',
        rs_rep_a := map (\<lambda>j. W ! ag_in0 (pr_gates p ! j)) (and_gates p (Suc i)),
        rs_rep_b := map (\<lambda>j. W ! ag_in1 (pr_gates p ! j)) (and_gates p (Suc i))\<rparr>"
    unfolding st'_def t st by (simp add: and_gates_Suc)
  show ?thesis
  proof (intro exI conjI)
    show "put_slot ?o v (t, sp_free sp) = (st', fl')" using put by (simp add: st'_def)
    show "slot_inv p st0 D W lam (Suc i) \<lparr>sp_st = st', sp_free = free_inputs ?g i st' fl', sp_buf = buf, sp_off = off, sp_draws = draws\<rparr>"
      unfolding slot_inv_def slot_pass.select_convs
      by (intro exI conjI, rule st'eq, rule si')
         (use cap cg w' S' vals' ms'' buf in \<open>auto simp: take simp flip: cap\<close>)
  qed
qed

definition layout :: "program \<Rightarrow> bool list \<Rightarrow> int list \<Rightarrow> nat list \<Rightarrow> nat \<Rightarrow> bool" where
  "layout p pe lu phys S \<longleftrightarrow> length phys = pr_num_wires p \<and> (\<forall>w < pr_num_wires p. phys ! w < S)
     \<and> (\<forall>w < pr_num_wires p. \<forall>w' < pr_num_wires p. w \<noteq> w' \<and> pe ! w \<longrightarrow> phys ! w \<noteq> phys ! w')
     \<and> (\<forall>j < length (pr_gates p). \<forall>w < gate_out p j. live pe lu j w \<longrightarrow> phys ! w \<noteq> phys ! gate_out p j)
     \<and> (\<forall>w < pr_num_inputs p. phys ! w = w) \<and> pr_num_inputs p \<le> S"

lemma live_in0: "liveness_ok p pe lu \<Longrightarrow> i < length (pr_gates p) \<Longrightarrow> live pe lu i (ag_in0 (pr_gates p ! i))"
  and live_in1: "liveness_ok p pe lu \<Longrightarrow> i < length (pr_gates p) \<Longrightarrow> ag_typ (pr_gates p ! i) \<noteq> AgInv \<Longrightarrow> live pe lu i (ag_in1 (pr_gates p ! i))"
  by (simp_all add: liveness_ok_def live_def)

lemma slot_inv_wslot:
  assumes "slot_inv p st0 D W lam i sp" and "w < gate_out p i" and "live (rs_persist st0) (rs_last_use st0) i w"
  shows "wslot (sp_st sp) w = W ! w"
  using assms unfolding slot_inv_def by (auto simp: wslot_def slot_def)

lemma slot_mask_gate_step:
  assumes ok: "prog_ok p" and lo: "liveness_ok p (rs_persist st0) (rs_last_use st0)" and i: "i < length (pr_gates p)"
    and W: "W = wire_shares p D ins" and li: "length ins = pr_num_inputs p" and D: "num_ands p \<le> length D"
    and inv: "slot_inv p st0 D W lam i sp"
  shows "\<exists>sp'. slot_mask_gate p (i, pr_gates p ! i) sp = Inr sp' \<and> slot_inv p st0 D W lam (Suc i) sp'"
proof -
  let ?g = "pr_gates p ! i" let ?o = "gate_out p i"
  note pk = prog_okD [OF ok i]
  have in0: "wslot (sp_st sp) (ag_in0 ?g) = W ! ag_in0 ?g"
    by (rule slot_inv_wslot [OF inv pk(1) live_in0 [OF lo i]])
  have in1: "wslot (sp_st sp) (ag_in1 ?g) = W ! ag_in1 ?g" if "ag_typ ?g \<noteq> AgInv"
    by (rule slot_inv_wslot [OF inv pk(2) live_in1 [OF lo i]]) (use that in simp_all)
  have Wo: "W ! ?o = (case ag_typ ?g of AgAnd \<Rightarrow> D ! ac p i | AgXor \<Rightarrow> xor_bundle (W ! ag_in0 ?g) (W ! ag_in1 ?g) | AgInv \<Rightarrow> W ! ag_in0 ?g)"
    unfolding W using wire_shares_gate [OF ok li i] by (simp add: Let_def)
  have upd: "sp\<lparr>sp_st := a, sp_free := b\<rparr> = \<lparr>sp_st = a, sp_free = b, sp_buf = sp_buf sp, sp_off = sp_off sp, sp_draws = sp_draws sp\<rparr>" for a b
    by (cases sp) simp
  have bufs: "bufs_ok D (ac p i) (sp_buf sp) (sp_off sp) (sp_draws sp)" using inv unfolding slot_inv_def by blast
  show ?thesis
  proof (cases "ag_typ ?g")
    case AgAnd
    have "ac p i < length D" using ac_less [OF i AgAnd] D by simp
    from bufs_ok_next [OF bufs this] obtain buf off draws where
      b: "(if sp_off sp \<ge> length (sp_buf sp) then (case sp_draws sp of [] \<Rightarrow> Inl APanic | b # ds \<Rightarrow> Inr (b, 0, ds)) else Inr (sp_buf sp, sp_off sp, sp_draws sp))
        = Inr (buf, off, draws)" "off < length buf" "buf ! off = D ! ac p i" "bufs_ok D (Suc (ac p i)) buf (Suc off) draws" by blast
    have nb: "bufs_ok D (ac p (Suc i)) buf (off + 1) draws" using b(4) AgAnd by (simp add: ac_Suc [OF i])
    have v: "buf ! off = W ! ?o" using b(3) Wo AgAnd by simp
    from slot_inv_put [OF ok lo i inv v refl nb] AgAnd obtain st' fl' where
      put: "put_slot ?o (buf ! off) ((sp_st sp)\<lparr>rs_rep_a := rs_rep_a (sp_st sp) @ [W ! ag_in0 ?g],
        rs_rep_b := rs_rep_b (sp_st sp) @ [W ! ag_in1 ?g]\<rparr>, sp_free sp) = (st', fl')"
      and fin: "slot_inv p st0 D W lam (Suc i) \<lparr>sp_st = st', sp_free = free_inputs ?g i st' fl', sp_buf = buf, sp_off = off + 1, sp_draws = draws\<rparr>"
      by auto
    have "slot_mask_gate p (i, ?g) sp = Inr \<lparr>sp_st = st', sp_free = free_inputs ?g i st' fl', sp_buf = buf, sp_off = off + 1, sp_draws = draws\<rparr>"
      using AgAnd b(2) put by (simp add: slot_mask_gate_def Let_def b(1) in0 in1)
    then show ?thesis using fin by blast
  next
    case AgXor
    have nb: "bufs_ok D (ac p (Suc i)) (sp_buf sp) (sp_off sp) (sp_draws sp)" using bufs AgXor by (simp add: ac_Suc [OF i])
    have v: "xor_bundle (W ! ag_in0 ?g) (W ! ag_in1 ?g) = W ! ?o" using Wo AgXor by simp
    from slot_inv_put [OF ok lo i inv v refl nb] AgXor obtain st' fl' where
      "put_slot ?o (xor_bundle (W ! ag_in0 ?g) (W ! ag_in1 ?g)) (sp_st sp, sp_free sp) = (st', fl')"
      "slot_inv p st0 D W lam (Suc i) \<lparr>sp_st = st', sp_free = free_inputs ?g i st' fl', sp_buf = sp_buf sp, sp_off = sp_off sp, sp_draws = sp_draws sp\<rparr>"
      by auto
    then show ?thesis using AgXor by (simp add: slot_mask_gate_def Let_def in0 in1 upd)
  next
    case AgInv
    have nb: "bufs_ok D (ac p (Suc i)) (sp_buf sp) (sp_off sp) (sp_draws sp)" using bufs AgInv by (simp add: ac_Suc [OF i])
    have v: "W ! ag_in0 ?g = W ! ?o" using Wo AgInv by simp
    from slot_inv_put [OF ok lo i inv v refl nb] AgInv obtain st' fl' where
      "put_slot ?o (W ! ag_in0 ?g) (sp_st sp, sp_free sp) = (st', fl')"
      "slot_inv p st0 D W lam (Suc i) \<lparr>sp_st = st', sp_free = free_inputs ?g i st' fl', sp_buf = sp_buf sp, sp_off = sp_off sp, sp_draws = sp_draws sp\<rparr>"
      by auto
    then show ?thesis using AgInv by (simp add: slot_mask_gate_def Let_def in0 upd)
  qed
qed

lemma gate_out_all: "prog_ok p \<Longrightarrow> gate_out p (length (pr_gates p)) = pr_num_wires p"
  by (simp add: prog_ok_def gate_out_def)

lemma slot_mask_pass_spec:
  assumes ok: "prog_ok p" and lo: "liveness_ok p (rs_persist st) (rs_last_use st)" and ni: "rs_num_inputs st = pr_num_inputs p"
    and inp: "rs_num_slots st = pr_num_inputs p" "length (rs_wire_slot st) = pr_num_inputs p" "length (rs_mask_input st) = pr_num_inputs p"
    and draws: "[] \<notin> set draws" "num_ands p \<le> length (concat draws)"
    and W: "W = wire_shares p (concat draws) (rs_wire_slot st)"
  shows "\<exists>phys S ws ms. slot_mask_pass p draws st = Inr (
       let t = st\<lparr>rs_phys := phys, rs_num_slots := S, rs_wire_slot := ws, rs_mask_input := ms,
           rs_rep_a := map (\<lambda>j. W ! ag_in0 (pr_gates p ! j)) (and_gates p (length (pr_gates p))),
           rs_rep_b := map (\<lambda>j. W ! ag_in1 (pr_gates p ! j)) (and_gates p (length (pr_gates p)))\<rparr>
       in if rs_party st = Alice then t\<lparr>rs_label_slot := resize S (rs_label_slot st)\<rparr> else t\<lparr>rs_eval_slot := resize S (rs_eval_slot st)\<rparr>)
     \<and> layout p (rs_persist st) (rs_last_use st) phys S \<and> length ws = S \<and> length ms = S \<and> S = slot_capacity st p
     \<and> (\<forall>w < pr_num_wires p. rs_persist st ! w \<longrightarrow> ws ! (phys ! w) = W ! w)
     \<and> (\<forall>w < pr_num_inputs p. ms ! w = rs_mask_input st ! w)"
proof -
  let ?pe = "rs_persist st" and ?lu = "rs_last_use st" and ?n = "length (pr_gates p)"
  define st0 where "st0 = st\<lparr>rs_phys := [0..<rs_num_inputs st] @ replicate (pr_num_wires p - rs_num_inputs st) (2 ^ 32 - 1),
                  rs_rep_a := [], rs_rep_b := []\<rparr>"
  have e: "capacity_free_if_dead st0 = capacity_free_if_dead st" "rs_persist st0 = ?pe"
    by (simp_all add: fun_eq_iff capacity_free_if_dead_def st0_def)
  have c: "capacity_start p st0 = capacity_start p st" "capacity_gate p st0 = capacity_gate p st"
    by (simp add: capacity_start_def st0_def) (unfold capacity_gate_def e, rule refl)
  have "slot_inv p st0 (concat draws) W (rs_mask_input st) 0 \<lparr>sp_st = st0, sp_free = [], sp_buf = [], sp_off = 0, sp_draws = draws\<rparr>"
    unfolding slot_inv_def slot_pass.select_convs
    by (rule exI [of _ "rs_phys st0"], rule exI [of _ "pr_num_inputs p"], rule exI [of _ "rs_wire_slot st"], rule exI [of _ "rs_mask_input st"])
       (use capacity_start_inv [OF ok ni, of ?pe ?lu] bufs_ok_start [OF draws(1)] inp in
         \<open>auto simp: st0_def and_gates_def capacity_start_def ni gate_out_def nth_append W wire_shares_input\<close>)
  moreover have "\<exists>sp'. slot_mask_gate p (i, pr_gates p ! i) sp = Inr sp' \<and> slot_inv p st0 (concat draws) W (rs_mask_input st) (Suc i) sp'"
    if "i < ?n" "slot_inv p st0 (concat draws) W (rs_mask_input st) i sp" for i sp
    by (rule slot_mask_gate_step [OF ok _ that(1) W inp(2) draws(2) that(2)]) (use lo in \<open>simp add: st0_def\<close>)
  ultimately obtain sp where run: "foldR (slot_mask_gate p) (enumerate 0 (pr_gates p))
       \<lparr>sp_st = st0, sp_free = [], sp_buf = [], sp_off = 0, sp_draws = draws\<rparr> = Inr sp"
     and fin: "slot_inv p st0 (concat draws) W (rs_mask_input st) ?n sp"
    using foldR_enumerate [where P = "slot_inv p st0 (concat draws) W (rs_mask_input st)" and xs = "pr_gates p"] by blast
  obtain phys S ws ms where sp: "sp_st sp = st0\<lparr>rs_phys := phys, rs_num_slots := S, rs_wire_slot := ws, rs_mask_input := ms,
        rs_rep_a := map (\<lambda>j. W ! ag_in0 (pr_gates p ! j)) (and_gates p ?n),
        rs_rep_b := map (\<lambda>j. W ! ag_in1 (pr_gates p ! j)) (and_gates p ?n)\<rparr>"
   and si: "slots_inv p ?pe ?lu ?n (phys, S, sp_free sp)"
   and cap: "(phys, S, sp_free sp) = fold (capacity_gate p st) (enumerate 0 (pr_gates p)) (capacity_start p st)"
   and r: "length ws = S" "length ms = S" "pr_num_inputs p \<le> S"
   and vals: "\<forall>w < pr_num_wires p. live ?pe ?lu ?n w \<longrightarrow> ws ! (phys ! w) = W ! w"
   and ms: "\<forall>w < pr_num_inputs p. ms ! w = rs_mask_input st ! w"
    using fin unfolding slot_inv_def gate_out_all [OF ok] c by (auto simp: st0_def)
  have "layout p ?pe ?lu phys S" using si r(3) unfolding slots_inv_def layout_def Let_def prod.case gate_out_all [OF ok] by blast
  moreover have "S = slot_capacity st p" by (simp add: slot_capacity_def flip: cap)
  moreover have "\<forall>w < pr_num_wires p. ?pe ! w \<longrightarrow> ws ! (phys ! w) = W ! w" using vals by (simp add: live_def)
  moreover have "slot_mask_pass p draws st = Inr (
       let t = st\<lparr>rs_phys := phys, rs_num_slots := S, rs_wire_slot := ws, rs_mask_input := ms,
           rs_rep_a := map (\<lambda>j. W ! ag_in0 (pr_gates p ! j)) (and_gates p ?n),
           rs_rep_b := map (\<lambda>j. W ! ag_in1 (pr_gates p ! j)) (and_gates p ?n)\<rparr>
       in if rs_party st = Alice then t\<lparr>rs_label_slot := resize S (rs_label_slot st)\<rparr> else t\<lparr>rs_eval_slot := resize S (rs_eval_slot st)\<rparr>)"
    unfolding slot_mask_pass_def st0_def [symmetric] Let_def run bindR_simps sp by (simp add: st0_def)
  ultimately show ?thesis using r ms by blast
qed

end
