(* ===== verification/Garbling.thy ===== *)
theory Garbling
  imports Session_Slots
begin

text \<open>
  The garbled computation of two honest sides: wire values in slots, the AND gate with its algebra, the
  half-gate tables in chunks as they are sent and read, and the garbler's pass: what it leaves in the slots
  and sends are the labels and tables of \<open>labels\<close> and \<open>tables\<close>.
\<close>

unbundle bit_operations_syntax

section \<open>Wire values in slots\<close>

definition wires_at :: "program \<Rightarrow> bool list \<Rightarrow> int list \<Rightarrow> nat list \<Rightarrow> 'a list \<Rightarrow> nat \<Rightarrow> 'a list \<Rightarrow> bool" where
  \<comment> \<open>before gate \<open>i\<close>, the slots of the live wires hold their values\<close>
  "wires_at p pe lu phys V i xs \<longleftrightarrow> (\<forall>w < gate_out p i. live pe lu i w \<longrightarrow> xs ! (phys ! w) = V ! w)"

definition kept :: "program \<Rightarrow> bool list \<Rightarrow> nat list \<Rightarrow> 'a list \<Rightarrow> 'a list \<Rightarrow> bool" where
  "kept p pe phys V xs \<longleftrightarrow> (\<forall>w < pr_num_wires p. pe ! w \<longrightarrow> xs ! (phys ! w) = V ! w)"

lemma wires_at_write:
  assumes "prog_ok p" "layout p pe lu phys S" "i < length (pr_gates p)" "length xs = S" "wires_at p pe lu phys V i xs" "v = V ! gate_out p i"
  shows "wires_at p pe lu phys V (Suc i) (xs[phys ! gate_out p i := v])"
  unfolding wires_at_def
proof (intro allI impI)
  fix w assume w: "w < gate_out p (Suc i)" "live pe lu (Suc i) w"
  have o: "phys ! gate_out p i < S" using assms(2) prog_okD(3) [OF assms(1,3)] by (simp add: layout_def)
  show "xs[phys ! gate_out p i := v] ! (phys ! w) = V ! w"
  proof (cases "w = gate_out p i")
    case False
    then have "w < gate_out p i" using w by (simp add: gate_out_def)
    moreover have "phys ! w \<noteq> phys ! gate_out p i"
      using assms(2,3) calculation live_Suc [OF w(2)] by (auto simp: layout_def)
    ultimately show ?thesis using assms(5) live_Suc [OF w(2)] by (simp add: wires_at_def)
  qed (use o assms in simp)
qed

lemma wires_at_skip:
  assumes "wires_at p pe lu phys V i xs" and "xs ! (phys ! gate_out p i) = V ! gate_out p i"
  shows "wires_at p pe lu phys V (Suc i) xs"
  using assms live_Suc by (auto simp: wires_at_def gate_out_def less_Suc_eq)

lemma kept_write:
  assumes "prog_ok p" "layout p pe lu phys S" "i < length (pr_gates p)" "length xs = S" "kept p pe phys V xs" "v = V ! gate_out p i"
  shows "kept p pe phys V (xs[phys ! gate_out p i := v])"
  unfolding kept_def
proof (intro allI impI)
  fix w assume w: "w < pr_num_wires p" "pe ! w"
  have o: "gate_out p i < pr_num_wires p" "phys ! gate_out p i < S" using assms(2) prog_okD(3) [OF assms(1,3)] by (auto simp: layout_def)
  show "xs[phys ! gate_out p i := v] ! (phys ! w) = V ! w"
  proof (cases "w = gate_out p i")
    case False
    then have "phys ! w \<noteq> phys ! gate_out p i" using assms(2) w o by (auto simp: layout_def)
    then show ?thesis using assms(5) w by (simp add: kept_def)
  qed (use o assms in simp)
qed

lemma kept_out: "kept p pe phys V xs \<Longrightarrow> liveness_ok p pe lu \<Longrightarrow> prog_ok p \<Longrightarrow> i < length (pr_gates p) \<Longrightarrow>
    ag_typ (pr_gates p ! i) = AgAnd \<Longrightarrow> xs ! (phys ! gate_out p i) = V ! gate_out p i"
  using prog_okD(3) [of p i] by (auto simp: kept_def liveness_ok_def)

lemma wires_at_in0: "wires_at p pe lu phys V i xs \<Longrightarrow> liveness_ok p pe lu \<Longrightarrow> prog_ok p \<Longrightarrow> i < length (pr_gates p) \<Longrightarrow>
    xs ! (phys ! ag_in0 (pr_gates p ! i)) = V ! ag_in0 (pr_gates p ! i)"
  using live_in0 [of p pe lu i] prog_okD(1) [of p i] by (simp add: wires_at_def)

lemma wires_at_in1: "wires_at p pe lu phys V i xs \<Longrightarrow> liveness_ok p pe lu \<Longrightarrow> prog_ok p \<Longrightarrow> i < length (pr_gates p) \<Longrightarrow>
    ag_typ (pr_gates p ! i) \<noteq> AgInv \<Longrightarrow> xs ! (phys ! ag_in1 (pr_gates p ! i)) = V ! ag_in1 (pr_gates p ! i)"
  using live_in1 [of p pe lu i] prog_okD(2) [of p i] by (simp add: wires_at_def)

lemma wires_at_start:
  assumes "layout p pe lu phys S" and "\<And>w. w < pr_num_inputs p \<Longrightarrow> xs ! w = V ! w"
  shows "wires_at p pe lu phys V 0 xs"
  using assms by (simp add: wires_at_def layout_def gate_out_def)

lemma wires_at_end:
  assumes "wires_at p pe lu phys V (length (pr_gates p)) xs" and "liveness_ok p pe lu" "prog_ok p" and "w \<in> set (pr_outputs p)"
  shows "xs ! (phys ! unat w) = V ! unat w"
  using assms gate_out_all [OF assms(3)] by (auto simp: wires_at_def liveness_ok_def live_def prog_ok_def)

section \<open>One key per gate\<close>

definition cirh :: "(block \<Rightarrow> block \<Rightarrow> block) \<Rightarrow> block \<Rightarrow> block \<Rightarrow> block" where
  "cirh aes key b = aes key (sigma b) XOR sigma b"

definition hready :: "mitccrh8 \<Rightarrow> mitccrh8" where
  "hready s = (if key_used s = 8 then renew_ks s else s)"

definition hkey :: "mitccrh8 \<Rightarrow> block" where
  "hkey s = hd (scheduled_keys (hready s))"

definition hnext :: "mitccrh8 \<Rightarrow> mitccrh8" where
  "hnext s = (hready s)\<lparr>key_used := key_used (hready s) + 1\<rparr>"

lemma hready_inv:
  assumes "mitccrh_inv s"
  shows "mitccrh_inv (hready s) \<and> key_used (hready s) < 8 \<and> (\<exists>f key. scheduled_bucket (hready s) = Some f \<and> scheduled_keys (hready s) = [key])"
  using assms gid_group [of "gid s"] by (auto simp: hready_def mitccrh_inv_def renew_ks_def Let_def)

lemma hnext_inv: "mitccrh_inv s \<Longrightarrow> mitccrh_inv (hnext s)"
  using hready_inv [of s] by (auto simp: hnext_def mitccrh_inv_def)

lemma hash_cir_one:
  assumes "mitccrh_inv s" and "length blocks = h"
  shows "mitccrh_hash_cir aes blocks 1 h s = Some (map (cirh aes (hkey s)) blocks, hnext s)"
proof -
  obtain f key where "scheduled_bucket (hready s) = Some f" "scheduled_keys (hready s) = [key]" using hready_inv [OF assms(1)] by blast
  then show ?thesis using assms(2)
    by (simp add: mitccrh_hash_cir_def hash_inner_def hready_def [symmetric] hkey_def hnext_def Let_def cirh_def [abs_def] o_def)
qed

lemma hnext_iter_inv: "mitccrh_inv s \<Longrightarrow> mitccrh_inv ((hnext ^^ k) s)"
  by (induction k) (auto simp: hnext_inv)

section \<open>The algebra of a garbled AND\<close>

lemma sel_pair: "sel a d XOR sel b d = sel (a \<noteq> b) d"
  by (cases a; cases b) auto

lemma garbled_and:
  fixes H :: "block \<Rightarrow> block" and La Lb d ka kb ks ko :: block and la lb aA aB bA bB sA sB oA oB :: bool
  defines "g0 \<equiv> H La XOR H (La XOR d) XOR kb XOR sel bA d"
    and "g1 \<equiv> H Lb XOR H (Lb XOR d) XOR La XOR ka XOR sel aA d"
    and "ml \<equiv> H La XOR H Lb XOR ks XOR sel sA d XOR ko XOR sel oA d"
    and "Ea \<equiv> La XOR sel la d" and "Eb \<equiv> Lb XOR sel lb d"
    and "mr \<equiv> (((ks XOR sel sB d) XOR (ko XOR sel oB d)) XOR sel la (kb XOR sel bB d)) XOR sel lb (ka XOR sel aB d)"
  assumes s: "(sA \<noteq> sB) = ((aA \<noteq> aB) \<and> (bA \<noteq> bB))"
  shows "(((H Ea XOR H Eb) XOR sel la g0) XOR sel lb (g1 XOR Ea)) XOR mr =
     ml XOR sel (((la \<noteq> (aA \<noteq> aB)) \<and> (lb \<noteq> (bA \<noteq> bB))) \<noteq> (oA \<noteq> oB)) d"
proof -
  have "(((H Ea XOR H Eb) XOR sel la g0) XOR sel lb (g1 XOR Ea)) XOR mr =
      ml XOR (sel sA d XOR sel sB d) XOR (sel oA d XOR sel oB d)
      XOR sel la (sel bA d XOR sel bB d) XOR sel lb (sel aA d XOR sel aB d) XOR sel (la \<and> lb) d"
    unfolding g0_def g1_def ml_def Ea_def Eb_def mr_def by (cases la; cases lb) (simp_all add: xor_ac sel_xor)
  also have "\<dots> = ml XOR sel (((la \<noteq> (aA \<noteq> aB)) \<and> (lb \<noteq> (bA \<noteq> bB))) \<noteq> (oA \<noteq> oB)) d"
    unfolding xor.assoc sel_pair sel_and [symmetric] sel_pair by (rule arg_cong [where f = "\<lambda>b. ml XOR sel b d"]) (use s in auto)
  finally show ?thesis .
qed

lemma gamma_equal:
  fixes d :: block
  assumes s: "(sA \<noteq> sB) = ((aA \<noteq> aB) \<and> (bA \<noteq> bB))" and lg: "lg = (((la \<noteq> (aA \<noteq> aB)) \<and> (lb \<noteq> (bA \<noteq> bB))) \<noteq> (oA \<noteq> oB))"
    and t1: "t1 = ((((((la \<and> lb) \<noteq> lg) \<noteq> (la \<and> bB)) \<noteq> (lb \<and> aB)) \<noteq> sB) \<noteq> oB)"
  shows "(((ks XOR sel sA d) XOR (ko XOR sel oA d)) XOR sel la (kb XOR sel bA d)) XOR sel lb (ka XOR sel aA d) =
     ((sel t1 d XOR sel la kb) XOR sel lb ka) XOR ks XOR ko"
proof -
  have "(((ks XOR sel sA d) XOR (ko XOR sel oA d)) XOR sel la (kb XOR sel bA d)) XOR sel lb (ka XOR sel aA d)
     = (((sel sA d XOR sel oA d) XOR sel (la \<and> bA) d) XOR sel (lb \<and> aA) d) XOR sel la kb XOR sel lb ka XOR ks XOR ko"
    by (cases la; cases lb) (simp_all add: xor_ac)
  also have "(((sel sA d XOR sel oA d) XOR sel (la \<and> bA) d) XOR sel (lb \<and> aA) d) = sel t1 d"
    unfolding sel_pair by (rule arg_cong [where f = "\<lambda>b. sel b d"]) (use s in \<open>auto simp: t1 lg\<close>)
  finally show ?thesis by (simp add: xor_ac)
qed

section \<open>Tables in chunks\<close>

type_synonym table = "block \<times> block \<times> u8"

definition chunk_of :: "table list \<Rightarrow> chunk" where
  "chunk_of ts = (concat (map (\<lambda>(g0, g1, b). [g0, g1]) ts), map (\<lambda>(g0, g1, b). b) ts)"

abbreviation chunk_ands :: nat where "chunk_ands \<equiv> AG2PC_GARBLE_CHUNK_ANDS"

definition nth_chunk :: "table list \<Rightarrow> nat \<Rightarrow> table list" where
  "nth_chunk T j = take chunk_ands (drop (j * chunk_ands) T)"

definition all_chunks :: "table list \<Rightarrow> chunk list" where
  "all_chunks T = map (\<lambda>j. chunk_of (nth_chunk T j)) [0..<(length T + chunk_ands - 1) div chunk_ands]"

lemma chunk_ands_pos [simp]: "0 < chunk_ands"
  by (simp add: AG2PC_GARBLE_CHUNK_ANDS_def)

lemma chunk_of_lengths [simp]: "length (fst (chunk_of ts)) = 2 * length ts" "length (snd (chunk_of ts)) = length ts"
  by (induction ts) (auto simp: chunk_of_def)

lemma chunk_of_snoc: "chunk_of (ts @ [(g0, g1, b)]) = (fst (chunk_of ts) @ [g0, g1], snd (chunk_of ts) @ [b])"
  by (simp add: chunk_of_def)

lemma chunk_of_nth: "i < length ts \<Longrightarrow> ts ! i = (fst (chunk_of ts) ! (2 * i), fst (chunk_of ts) ! (2 * i + 1), snd (chunk_of ts) ! i)"
proof (induction ts arbitrary: i)
  case (Cons t ts)
  have "concat (map (\<lambda>(g0, g1, b). [g0, g1]) (t # ts)) = fst t # fst (snd t) # concat (map (\<lambda>(g0, g1, b). [g0, g1]) ts)"
    by (cases t) simp
  then show ?case using Cons by (cases i) (auto simp: chunk_of_def split_beta)
qed simp

definition written :: "table list \<Rightarrow> nat \<Rightarrow> chunk \<Rightarrow> chunk list \<Rightarrow> bool" where
  \<comment> \<open>what the garbler has pending and sent after \<open>k\<close> tables\<close>
  "written T k c sent \<longleftrightarrow> sent = map (\<lambda>j. chunk_of (nth_chunk T j)) [0..<k div chunk_ands]
     \<and> c = chunk_of (take (k mod chunk_ands) (drop (k div chunk_ands * chunk_ands) T))"

lemma written_start: "written T 0 ([], []) []"
  by (simp add: written_def chunk_of_def)

lemma written_next:
  assumes w: "written T k c sent" and k: "k < length T" and t: "T ! k = (g0, g1, b)"
  defines "c' \<equiv> (fst c @ [g0, g1], snd c @ [b])"
  shows "if length (snd c') = chunk_ands then written T (Suc k) ([], []) (sent @ [c']) else written T (Suc k) c' sent"
proof -
  let ?K = chunk_ands let ?q = "k div ?K" let ?r = "k mod ?K"
  have kqr: "k = ?q * ?K + ?r" "?r < ?K" by simp_all
  have le: "?q * ?K + ?r < length T" using k by simp
  have "?q * ?K \<le> length T" using le by linarith
  from nth_drop [OF this, of ?r] have "drop (?q * ?K) T ! ?r = T ! k" by simp
  then have take: "take (Suc ?r) (drop (?q * ?K) T) = take ?r (drop (?q * ?K) T) @ [T ! k]"
    using le by (metis take_Suc_conv_app_nth length_drop less_diff_conv add.commute)
  have c': "c' = chunk_of (take (Suc ?r) (drop (?q * ?K) T))"
    using w unfolding c'_def written_def take t by (simp add: chunk_of_snoc)
  have "Suc ?r \<le> length T - ?q * ?K" using le by linarith
  then have len: "length (snd c') = Suc ?r" unfolding c' by (simp add: min_absorb2)
  show ?thesis
  proof (cases "Suc ?r = ?K")
    case True
    have "Suc k = (?q + 1) * ?K" using kqr(1) True by (metis Suc_eq_plus1 add_Suc_right mult.commute mult_Suc_right add.commute)
    then have d: "Suc k div ?K = Suc ?q" "Suc k mod ?K = 0" by (metis Suc_eq_plus1 chunk_ands_pos div_mult_self1_is_m mult.commute nat_mult_div_cancel_disj less_numeral_extra(3), metis mod_mult_self2_is_0)
    show ?thesis using w True len c' d by (simp add: written_def nth_chunk_def chunk_of_def)
  next
    case False
    then have "Suc ?r < ?K" using kqr(2) by linarith
    moreover have "Suc k = ?q * ?K + Suc ?r" using kqr(1) by simp
    ultimately have d: "Suc k div ?K = ?q" "Suc k mod ?K = Suc ?r"
      by (metis div_mult_self3 chunk_ands_pos div_less add_0 less_numeral_extra(3) add.commute, metis mod_less mod_mult_self3)
    show ?thesis using w False len c' d by (simp add: written_def)
  qed
qed

lemma written_end:
  assumes "written T (length T) c sent"
  shows "(if snd c \<noteq> [] then sent @ [c] else sent) = all_chunks T"
proof -
  let ?K = chunk_ands let ?q = "length T div ?K" let ?r = "length T mod ?K"
  have eq: "length T = ?q * ?K + ?r" by simp
  have rest: "take ?r (drop (?q * ?K) T) = drop (?q * ?K) T" "length (drop (?q * ?K) T) = ?r" by (simp_all add: minus_div_mult_eq_mod)
  show ?thesis
  proof (cases "?r = 0")
    case True
    have "(length T + ?K - 1) div ?K = ?q"
    proof -
      have "(?q * ?K + (?K - 1)) div ?K = ?q" by (metis chunk_ands_pos diff_less div_mult_self3 div_less add_0_right less_numeral_extra(1,3) add.commute)
      moreover have "length T + ?K - 1 = ?q * ?K + (?K - 1)" using eq True chunk_ands_pos by linarith
      ultimately show ?thesis by simp
    qed
    then show ?thesis using assms True by (simp add: written_def all_chunks_def chunk_of_def)
  next
    case False
    have "(length T + ?K - 1) div ?K = Suc ?q"
    proof -
      have "length T + ?K - 1 = Suc ?q * ?K + (?r - 1)" using eq False by simp
      moreover have "?r - 1 < ?K" using chunk_ands_pos by (meson less_imp_diff_less mod_less_divisor)
      ultimately show ?thesis by (metis chunk_ands_pos div_mult_self3 div_less add_0_right less_numeral_extra(3) add.commute)
    qed
    moreover have "nth_chunk T ?q = drop (?q * ?K) T" using rest(2) by (simp add: nth_chunk_def less_imp_le)
    moreover have "snd c \<noteq> []" "c = chunk_of (drop (?q * ?K) T)"
      using assms False rest by (auto simp: written_def chunk_of_def)
    ultimately show ?thesis using assms by (simp add: written_def all_chunks_def)
  qed
qed

definition reading :: "table list \<Rightarrow> nat \<Rightarrow> chunk \<Rightarrow> nat \<Rightarrow> chunk list \<Rightarrow> bool" where
  \<comment> \<open>the evaluator's buffer, position and pending input after \<open>k\<close> tables\<close>
  "reading T k c pos inp \<longleftrightarrow> (\<exists>q \<le> length (all_chunks T). inp = drop q (all_chunks T) \<and>
     (if q = 0 then k = 0 \<and> pos = 0 \<and> c = ([], [])
      else c = chunk_of (nth_chunk T (q - 1)) \<and> k = (q - 1) * chunk_ands + pos \<and> pos \<le> length (snd c)))"

lemma reading_start: "reading T 0 ([], []) 0 (all_chunks T)"
  by (auto simp: reading_def)

lemma reading_next:
  assumes r: "reading T k c pos inp" and k: "k < length T"
  shows "\<exists>c' pos' inp'. (if pos = length (snd c)
        then bindR (recv_garble_chunk (min (length T - k) chunk_ands) inp) (\<lambda>(c, inp). Inr (c, 0, inp))
        else Inr (c, pos, inp)) = Inr (c', pos', inp')
     \<and> (fst c' ! (2 * pos'), fst c' ! (2 * pos' + 1), snd c' ! pos') = T ! k \<and> reading T (Suc k) c' (pos' + 1) inp'"
proof -
  let ?K = chunk_ands
  obtain q where q: "q \<le> length (all_chunks T)" "inp = drop q (all_chunks T)"
    "if q = 0 then k = 0 \<and> pos = 0 \<and> c = ([], []) else c = chunk_of (nth_chunk T (q - 1)) \<and> k = (q - 1) * ?K + pos \<and> pos \<le> length (snd c)"
    using r unfolding reading_def by blast
  show ?thesis
  proof (cases "pos = length (snd c)")
    case True
    have kq: "k = q * ?K"
    proof (cases q)
      case (Suc q')
      have "pos = length (nth_chunk T q')" "k = q' * ?K + pos" using q(3) True by (simp_all add: Suc)
      moreover from this have "pos = min (length T - q' * ?K) ?K" by (simp add: nth_chunk_def min.commute)
      ultimately show ?thesis using k by (auto simp: Suc min_def split: if_splits)
    qed (use q in simp)
    have ql: "q < length (all_chunks T)"
    proof -
      have "q * ?K + ?K \<le> length T + ?K - 1" using kq k by simp
      then have "Suc q * ?K div ?K \<le> (length T + ?K - 1) div ?K" by (intro div_le_mono) simp
      then have "Suc q \<le> (length T + ?K - 1) div ?K" by (simp only: div_mult_self_is_m chunk_ands_pos)
      then show ?thesis by (simp add: all_chunks_def)
    qed
    have inp: "inp = chunk_of (nth_chunk T q) # drop (Suc q) (all_chunks T)"
      using q(2) ql by (simp add: Cons_nth_drop_Suc [symmetric]) (simp add: all_chunks_def)
    have ln: "length (nth_chunk T q) = min (length T - k) ?K" by (simp add: nth_chunk_def kq min.commute)
    have pos0: "0 < length (nth_chunk T q)" using ln k by simp
    have "T ! k = nth_chunk T q ! 0" using k pos0 by (simp add: nth_chunk_def kq)
    then have "T ! k = (fst (chunk_of (nth_chunk T q)) ! (2 * 0), fst (chunk_of (nth_chunk T q)) ! (2 * 0 + 1), snd (chunk_of (nth_chunk T q)) ! 0)"
      using chunk_of_nth [OF pos0] by simp
    moreover have "reading T (Suc k) (chunk_of (nth_chunk T q)) (0 + 1) (drop (Suc q) (all_chunks T))"
      unfolding reading_def using ql pos0 kq by (intro exI [of _ "Suc q"]) (simp add: Suc_le_eq)
    ultimately show ?thesis using True inp ln by (auto simp: recv_garble_chunk_def)
  next
    case False
    then obtain q' where Suc: "q = Suc q'" using q(3) by (cases q) auto
    have c: "c = chunk_of (nth_chunk T q')" "k = q' * ?K + pos" "pos < length (nth_chunk T q')"
      using q(3) False by (auto simp: Suc)
    have "q' * ?K \<le> length T" using c(2) k by linarith
    from nth_drop [OF this, of pos] have "T ! k = nth_chunk T q' ! pos" using c(2,3) by (simp add: nth_chunk_def)
    then have "T ! k = (fst c ! (2 * pos), fst c ! (2 * pos + 1), snd c ! pos)" using chunk_of_nth [OF c(3)] c(1) by simp
    moreover have "reading T (Suc k) c (pos + 1) inp"
      unfolding reading_def using q(1,2) c by (intro exI [of _ q]) (auto simp: Suc)
    ultimately show ?thesis using False by auto
  qed
qed

section \<open>The garbler's pass\<close>

definition slots_ready :: "program \<Rightarrow> run_state \<Rightarrow> bool" where
  "slots_ready p st \<longleftrightarrow> prog_ok p \<and> liveness_ok p (rs_persist st) (rs_last_use st)
     \<and> layout p (rs_persist st) (rs_last_use st) (rs_phys st) (rs_num_slots st)"

definition holds_at :: "program \<Rightarrow> run_state \<Rightarrow> 'a list \<Rightarrow> nat \<Rightarrow> 'a list \<Rightarrow> bool" where
  "holds_at p st V i xs \<longleftrightarrow> length xs = rs_num_slots st \<and> wires_at p (rs_persist st) (rs_last_use st) (rs_phys st) V i xs"

definition shares_at :: "program \<Rightarrow> run_state \<Rightarrow> 'a list \<Rightarrow> nat \<Rightarrow> 'a list \<Rightarrow> bool" where
  "shares_at p st V i xs \<longleftrightarrow> holds_at p st V i xs \<and> kept p (rs_persist st) (rs_phys st) V xs"

lemma holds_write:
  assumes "slots_ready p st" "i < length (pr_gates p)" "holds_at p st V i xs" "v = V ! gate_out p i"
  shows "holds_at p st V (Suc i) (xs[rs_phys st ! gate_out p i := v])"
  using assms wires_at_write [of p "rs_persist st" "rs_last_use st" "rs_phys st" "rs_num_slots st" i xs V v]
  by (auto simp: slots_ready_def holds_at_def)

lemma holds_in:
  assumes "slots_ready p st" "i < length (pr_gates p)" "holds_at p st V i xs"
  shows "xs ! (rs_phys st ! ag_in0 (pr_gates p ! i)) = V ! ag_in0 (pr_gates p ! i)"
    and "ag_typ (pr_gates p ! i) \<noteq> AgInv \<Longrightarrow> xs ! (rs_phys st ! ag_in1 (pr_gates p ! i)) = V ! ag_in1 (pr_gates p ! i)"
  using assms wires_at_in0 [of p "rs_persist st" "rs_last_use st" "rs_phys st" V i xs]
    wires_at_in1 [of p "rs_persist st" "rs_last_use st" "rs_phys st" V i xs]
  by (auto simp: slots_ready_def holds_at_def)

lemma holds_start:
  "slots_ready p st \<Longrightarrow> length xs = rs_num_slots st \<Longrightarrow> (\<And>w. w < pr_num_inputs p \<Longrightarrow> xs ! w = V ! w) \<Longrightarrow> holds_at p st V 0 xs"
  unfolding slots_ready_def holds_at_def by (blast intro: wires_at_start)

lemma holds_end:
  "slots_ready p st \<Longrightarrow> holds_at p st V (length (pr_gates p)) xs \<Longrightarrow> w \<in> set (pr_outputs p) \<Longrightarrow> xs ! (rs_phys st ! unat w) = V ! unat w"
  unfolding slots_ready_def holds_at_def by (blast intro: wires_at_end)

lemma shares_write:
  assumes "slots_ready p st" "i < length (pr_gates p)" "shares_at p st V i xs" "v = V ! gate_out p i"
  shows "shares_at p st V (Suc i) (xs[rs_phys st ! gate_out p i := v])"
  using assms holds_write [OF assms(1,2), of V xs v]
    kept_write [of p "rs_persist st" "rs_last_use st" "rs_phys st" "rs_num_slots st" i xs V v]
  by (auto simp: slots_ready_def shares_at_def holds_at_def)

lemma shares_and:
  assumes "slots_ready p st" "i < length (pr_gates p)" "shares_at p st V i xs" "ag_typ (pr_gates p ! i) = AgAnd"
  shows "shares_at p st V (Suc i) xs" and "xs ! (rs_phys st ! gate_out p i) = V ! gate_out p i"
proof -
  show o: "xs ! (rs_phys st ! gate_out p i) = V ! gate_out p i"
    using assms kept_out [of p "rs_persist st" "rs_phys st" V xs "rs_last_use st" i] by (auto simp: slots_ready_def shares_at_def)
  show "shares_at p st V (Suc i) xs"
    using assms wires_at_skip [OF _ o] by (auto simp: slots_ready_def shares_at_def holds_at_def)
qed

lemma shares_start:
  assumes "slots_ready p st" "length xs = rs_num_slots st" "\<And>w. w < pr_num_wires p \<Longrightarrow> rs_persist st ! w \<Longrightarrow> xs ! (rs_phys st ! w) = V ! w"
  shows "shares_at p st V 0 xs"
proof -
  have le: "pr_num_inputs p \<le> pr_num_wires p" using assms(1) by (simp add: slots_ready_def prog_ok_def)
  have "xs ! w = V ! w" if "w < pr_num_inputs p" for w
    using assms(3) [of w] that le assms(1) by (auto simp: slots_ready_def layout_def liveness_ok_def)
  then show ?thesis using assms holds_start [OF assms(1,2)] by (auto simp: shares_at_def kept_def)
qed

lemma shares_holds: "shares_at p st V i xs \<Longrightarrow> holds_at p st V i xs"
  by (simp add: shares_at_def)

lemma and_gates_nth: "i < n \<Longrightarrow> n \<le> length (pr_gates p) \<Longrightarrow> ag_typ (pr_gates p ! i) = AgAnd \<Longrightarrow>
    and_gates p n ! ac p i = i \<and> ac p i < length (and_gates p n)"
proof (induction n)
  case (Suc n)
  then show ?case
    by (cases "i = n") (auto simp: and_gates_Suc nth_append length_and_gates)
qed simp

definition gate_hash :: "(block \<Rightarrow> block \<Rightarrow> block) \<Rightarrow> program \<Rightarrow> mitccrh8 \<Rightarrow> nat \<Rightarrow> block \<Rightarrow> block" where
  "gate_hash aes p m0 i = cirh aes (hkey ((hnext ^^ ac p i) m0))"

definition labels ::
  "(block \<Rightarrow> block \<Rightarrow> block) \<Rightarrow> program \<Rightarrow> block \<Rightarrow> ashare_bundle list \<Rightarrow> ashare_bundle list \<Rightarrow> mitccrh8 \<Rightarrow> block list \<Rightarrow> block list" where
  \<comment> \<open>the 0-label of every wire: delta \<open>d\<close>, shares \<open>W\<close>, triple shares \<open>sg\<close>\<close>
  "labels aes p d W sg m0 ini = build (\<lambda>i ws. let g = pr_gates p ! i in case ag_typ g of
       AgXor \<Rightarrow> ws ! ag_in0 g XOR ws ! ag_in1 g
     | AgInv \<Rightarrow> ws ! ag_in0 g XOR d
     | AgAnd \<Rightarrow> gate_hash aes p m0 i (ws ! ag_in0 g) XOR gate_hash aes p m0 i (ws ! ag_in1 g)
         XOR as_key (sg ! ac p i) XOR sel (lsb (as_mac (sg ! ac p i))) d
         XOR as_key (W ! gate_out p i) XOR sel (lsb (as_mac (W ! gate_out p i))) d) ini (length (pr_gates p))"

lemma labels_gate:
  assumes "prog_ok p" and "length ini = pr_num_inputs p" and "i < length (pr_gates p)"
    and L: "L = labels aes p d W sg m0 ini" and g: "g = pr_gates p ! i"
  shows "L ! gate_out p i = (case ag_typ g of
       AgXor \<Rightarrow> L ! ag_in0 g XOR L ! ag_in1 g
     | AgInv \<Rightarrow> L ! ag_in0 g XOR d
     | AgAnd \<Rightarrow> gate_hash aes p m0 i (L ! ag_in0 g) XOR gate_hash aes p m0 i (L ! ag_in1 g)
         XOR as_key (sg ! ac p i) XOR sel (lsb (as_mac (sg ! ac p i))) d
         XOR as_key (W ! gate_out p i) XOR sel (lsb (as_mac (W ! gate_out p i))) d)"
  unfolding L g labels_def gate_out_def assms(2) [symmetric] build_nth [OF assms(3)]
  using prog_okD [OF assms(1,3)] assms(2) by (auto simp: Let_def gate_out_def split: ag_type.split)

lemma labels_input: "w < length ini \<Longrightarrow> labels aes p d W sg m0 ini ! w = ini ! w"
  by (simp add: labels_def build_input)

definition table_at ::
  "(block \<Rightarrow> block \<Rightarrow> block) \<Rightarrow> program \<Rightarrow> block \<Rightarrow> ashare_bundle list \<Rightarrow> mitccrh8 \<Rightarrow> block list \<Rightarrow> nat \<Rightarrow> table" where
  \<comment> \<open>the half-gate table of gate \<open>i\<close>\<close>
  "table_at aes p d W m0 L i = (let g = pr_gates p ! i; H = gate_hash aes p m0 i; a = L ! ag_in0 g; b = L ! ag_in1 g in
     (H a XOR H (a XOR d) XOR as_key (W ! ag_in1 g) XOR sel (lsb (as_mac (W ! ag_in1 g))) d,
      H b XOR H (b XOR d) XOR a XOR as_key (W ! ag_in0 g) XOR sel (lsb (as_mac (W ! ag_in0 g))) d,
      block_lsb1 (L ! gate_out p i)))"

definition tables where
  "tables aes p d W m0 L = map (table_at aes p d W m0 L) (and_gates p (length (pr_gates p)))"

lemma tables_nth:
  assumes "i < length (pr_gates p)" and "ag_typ (pr_gates p ! i) = AgAnd"
  shows "ac p i < length (tables aes p d W m0 L)" and "tables aes p d W m0 L ! ac p i = table_at aes p d W m0 L i"
  using and_gates_nth [OF assms(1) order_refl assms(2)] by (simp_all add: tables_def)

lemma length_tables [simp]: "length (tables aes p d W m0 L) = num_ands p"
  by (simp add: tables_def length_and_gates ac_all)

definition gr_inv ::
  "(block \<Rightarrow> block \<Rightarrow> block) \<Rightarrow> program \<Rightarrow> run_state \<Rightarrow> ashare_bundle list \<Rightarrow> block list \<Rightarrow> nat \<Rightarrow> garbler \<Rightarrow> bool" where
  "gr_inv aes p st0 W L i ga \<longleftrightarrow> (\<exists>ws ls c sent.
     ga = \<lparr>ga_st = st0\<lparr>rs_wire_slot := ws, rs_label_slot := ls, rs_mitc := (hnext ^^ ac p i) (rs_mitc st0)\<rparr>,
           ga_chunk = c, ga_and_index = ac p i, ga_sent = sent\<rparr>
     \<and> shares_at p st0 W i ws \<and> holds_at p st0 L i ls
     \<and> written (tables aes p (rs_delta st0) W (rs_mitc st0) L) (ac p i) c sent)"

lemma gr_invI:
  assumes "shares_at p st0 W i ws" "holds_at p st0 L i ls" "k = ac p i" "m = (hnext ^^ ac p i) (rs_mitc st0)"
    and "written (tables aes p (rs_delta st0) W (rs_mitc st0) L) k c sent"
  shows "gr_inv aes p st0 W L i \<lparr>ga_st = st0\<lparr>rs_wire_slot := ws, rs_label_slot := ls, rs_mitc := m\<rparr>,
           ga_chunk = c, ga_and_index = k, ga_sent = sent\<rparr>"
  unfolding gr_inv_def using assms by blast

lemma garbler_and_gate_spec:
  assumes m: "mitccrh_inv (rs_mitc st)"
  shows "garbler_and_gate aes g out k st = (let H = cirh aes (hkey (rs_mitc st)); d = rs_delta st; a = lbl st (ag_in0 g); b = lbl st (ag_in1 g);
      wa = wslot st (ag_in0 g); wb = wslot st (ag_in1 g); wo = wslot st out; s = rs_sigma st ! k;
      ml = H a XOR H b XOR as_key s XOR sel (lsb (as_mac s)) d XOR as_key wo XOR sel (lsb (as_mac wo)) d
    in Inr ((H a XOR H (a XOR d) XOR as_key wb XOR sel (lsb (as_mac wb)) d,
             H b XOR H (b XOR d) XOR a XOR as_key wa XOR sel (lsb (as_mac wa)) d, block_lsb1 ml),
            set_lbl out ml (st\<lparr>rs_mitc := hnext (rs_mitc st)\<rparr>)))"
  using hash_cir_one [OF m, of "[a, a XOR d, b, b XOR d]" 4 aes for a b d]
  by (simp add: garbler_and_gate_def Let_def wslot_def slot_def)

lemma garbler_gate_step:
  assumes r: "slots_ready p st0" and i: "i < length (pr_gates p)" and m: "mitccrh_inv (rs_mitc st0)"
    and li: "length insW = pr_num_inputs p" "length insL = pr_num_inputs p"
    and W: "W = wire_shares p D insW" and L: "L = labels aes p (rs_delta st0) W (rs_sigma st0) (rs_mitc st0) insL"
    and inv: "gr_inv aes p st0 W L i ga"
  shows "\<exists>ga'. garbler_gate aes p (i, pr_gates p ! i) ga = Inr ga' \<and> gr_inv aes p st0 W L (Suc i) ga'"
proof -
  let ?g = "pr_gates p ! i" let ?o = "gate_out p i" let ?T = "tables aes p (rs_delta st0) W (rs_mitc st0) L"
  obtain ws ls c sent where ga: "ga = \<lparr>ga_st = st0\<lparr>rs_wire_slot := ws, rs_label_slot := ls, rs_mitc := (hnext ^^ ac p i) (rs_mitc st0)\<rparr>,
           ga_chunk = c, ga_and_index = ac p i, ga_sent = sent\<rparr>"
     and ws: "shares_at p st0 W i ws" and ls: "holds_at p st0 L i ls" and wr: "written ?T (ac p i) c sent"
    using inv unfolding gr_inv_def by blast
  have ok: "prog_ok p" using r by (simp add: slots_ready_def)
  note Wo = wire_shares_gate [OF ok li(1) i, of D, folded W, unfolded Let_def]
  note Lo = labels_gate [OF ok li(2) i L refl]
  note win = holds_in [OF r i shares_holds [OF ws]] and lin = holds_in [OF r i ls]
  have lw: "holds_at p st0 L (Suc i) (ls[rs_phys st0 ! ?o := L ! ?o])" by (rule holds_write [OF r i ls refl])
  show ?thesis
  proof (cases "ag_typ ?g")
    case AgXor
    have k: "ac p (Suc i) = ac p i" using AgXor by (simp add: ac_Suc [OF i])
    have "garbler_gate aes p (i, ?g) ga = Inr \<lparr>ga_st = st0\<lparr>rs_wire_slot := ws[rs_phys st0 ! ?o := W ! ?o],
        rs_label_slot := ls[rs_phys st0 ! ?o := L ! ?o], rs_mitc := (hnext ^^ ac p i) (rs_mitc st0)\<rparr>,
           ga_chunk = c, ga_and_index = ac p i, ga_sent = sent\<rparr>"
      using AgXor Wo Lo win lin
      by (simp add: garbler_gate_def ga Let_def set_wslot_def set_lbl_def wslot_def lbl_def slot_def)
    then show ?thesis using gr_invI [OF shares_write [OF r i ws refl] lw, of "ac p i"] k wr by simp
  next
    case AgInv
    have k: "ac p (Suc i) = ac p i" using AgInv by (simp add: ac_Suc [OF i])
    have "garbler_gate aes p (i, ?g) ga = Inr \<lparr>ga_st = st0\<lparr>rs_wire_slot := ws[rs_phys st0 ! ?o := W ! ?o],
        rs_label_slot := ls[rs_phys st0 ! ?o := L ! ?o], rs_mitc := (hnext ^^ ac p i) (rs_mitc st0)\<rparr>,
           ga_chunk = c, ga_and_index = ac p i, ga_sent = sent\<rparr>"
      using AgInv Wo Lo win lin
      by (simp add: garbler_gate_def ga Let_def set_wslot_def set_lbl_def wslot_def lbl_def slot_def)
    then show ?thesis using gr_invI [OF shares_write [OF r i ws refl] lw, of "ac p i"] k wr by simp
  next
    case AgAnd
    have k: "ac p (Suc i) = Suc (ac p i)" using AgAnd by (simp add: ac_Suc [OF i])
    note T = tables_nth [OF i AgAnd, of aes "rs_delta st0" W "rs_mitc st0" L]
    obtain g0 g1 b where t: "table_at aes p (rs_delta st0) W (rs_mitc st0) L i = (g0, g1, b)" by (metis prod_cases3)
    let ?st = "st0\<lparr>rs_wire_slot := ws, rs_label_slot := ls, rs_mitc := (hnext ^^ ac p i) (rs_mitc st0)\<rparr>"
    let ?st' = "st0\<lparr>rs_wire_slot := ws, rs_label_slot := ls[rs_phys st0 ! ?o := L ! ?o], rs_mitc := (hnext ^^ Suc (ac p i)) (rs_mitc st0)\<rparr>"
    have mi: "mitccrh_inv (rs_mitc ?st)" using hnext_iter_inv [OF m] by simp
    have vals: "wslot ?st (ag_in0 ?g) = W ! ag_in0 ?g" "wslot ?st (ag_in1 ?g) = W ! ag_in1 ?g" "wslot ?st ?o = W ! ?o"
      "lbl ?st (ag_in0 ?g) = L ! ag_in0 ?g" "lbl ?st (ag_in1 ?g) = L ! ag_in1 ?g"
      using win lin shares_and(2) [OF r i ws AgAnd] AgAnd by (simp_all add: wslot_def lbl_def slot_def)
    have gate: "garbler_and_gate aes ?g ?o (ac p i) ?st = Inr ((g0, g1, b), ?st')"
      using Lo AgAnd t unfolding garbler_and_gate_spec [OF mi] vals
      by (simp add: table_at_def Let_def gate_hash_def set_lbl_def slot_def)
    let ?c = "(fst c @ [g0, g1], snd c @ [b])"
    have "garbler_gate aes p (i, ?g) ga = Inr (if length (snd ?c) = AG2PC_GARBLE_CHUNK_ANDS
                 then \<lparr>ga_st = ?st', ga_chunk = ([], []), ga_and_index = ac p i + 1, ga_sent = sent @ [?c]\<rparr>
                 else \<lparr>ga_st = ?st', ga_chunk = ?c, ga_and_index = ac p i + 1, ga_sent = sent\<rparr>)"
      using AgAnd by (simp add: garbler_gate_def ga gate)
    moreover have "if length (snd ?c) = chunk_ands then written ?T (Suc (ac p i)) ([], []) (sent @ [?c]) else written ?T (Suc (ac p i)) ?c sent"
      by (rule written_next [OF wr T(1)]) (simp add: T(2) t)
    ultimately show ?thesis using gr_invI [OF shares_and(1) [OF r i ws AgAnd] lw, of "Suc (ac p i)"] k
      by (cases "length (snd ?c) = chunk_ands") simp_all
  qed
qed

lemma garbler_send_spec:
  assumes r: "slots_ready p st0" and m: "mitccrh_inv (rs_mitc st0)"
    and li: "length insW = pr_num_inputs p" "length insL = pr_num_inputs p"
    and W: "W = wire_shares p D insW" and L: "L = labels aes p (rs_delta st0) W (rs_sigma st0) (rs_mitc st0) insL"
    and ws: "shares_at p st0 W 0 (rs_wire_slot st0)" and ls: "holds_at p st0 L 0 (rs_label_slot st0)"
  shows "\<exists>ws ls m. garbler_send aes p st0 = Inr (st0\<lparr>rs_wire_slot := ws, rs_label_slot := ls, rs_mitc := m\<rparr>,
       all_chunks (tables aes p (rs_delta st0) W (rs_mitc st0) L))
     \<and> shares_at p st0 W (length (pr_gates p)) ws \<and> holds_at p st0 L (length (pr_gates p)) ls"
proof -
  let ?n = "length (pr_gates p)" let ?T = "tables aes p (rs_delta st0) W (rs_mitc st0) L"
  have "gr_inv aes p st0 W L 0 \<lparr>ga_st = st0, ga_chunk = ([], []), ga_and_index = 0, ga_sent = []\<rparr>"
    unfolding gr_inv_def using ws ls written_start [of ?T]
    by (intro exI [of _ "rs_wire_slot st0"] exI [of _ "rs_label_slot st0"]) auto
  then obtain ga where run: "foldR (garbler_gate aes p) (enumerate 0 (pr_gates p)) \<lparr>ga_st = st0, ga_chunk = ([], []), ga_and_index = 0, ga_sent = []\<rparr> = Inr ga"
    and fin: "gr_inv aes p st0 W L ?n ga"
    using foldR_enumerate [where P = "gr_inv aes p st0 W L" and xs = "pr_gates p"] garbler_gate_step [OF r _ m li W L] by metis
  obtain ws ls c sent where ga: "ga = \<lparr>ga_st = st0\<lparr>rs_wire_slot := ws, rs_label_slot := ls, rs_mitc := (hnext ^^ ac p ?n) (rs_mitc st0)\<rparr>,
           ga_chunk = c, ga_and_index = ac p ?n, ga_sent = sent\<rparr>"
     and f: "shares_at p st0 W ?n ws" "holds_at p st0 L ?n ls" and wr: "written ?T (ac p ?n) c sent"
    using fin unfolding gr_inv_def by blast
  have "(if snd c \<noteq> [] then sent @ [c] else sent) = all_chunks ?T"
    using wr by (intro written_end) (simp add: ac_all)
  then have "garbler_send aes p st0 = Inr (st0\<lparr>rs_wire_slot := ws, rs_label_slot := ls, rs_mitc := (hnext ^^ ac p ?n) (rs_mitc st0)\<rparr>, all_chunks ?T)"
    unfolding garbler_send_def run bindR_simps ga by (auto split: if_splits)
  with f show ?thesis by blast
qed

end
