(* ===== verification/Evaluation.thy ===== *)
theory Evaluation
  imports Garbling
begin

text \<open>
  The evaluator's pass and the gamma pass of \<open>shachain2pc-emp-compat/src/session.rs\<close>: what an honest
  evaluator holds after each gate, given the garbler's labels and tables: the active label and the
  masked value of every live wire; and that both sides hash the same gamma values.
\<close>

unbundle bit_operations_syntax

section \<open>The evaluator's pass\<close>

definition shared :: "ashare_bundle \<Rightarrow> ashare_bundle \<Rightarrow> bool" where
  "shared a b \<longleftrightarrow> lsb (as_mac a) \<noteq> lsb (as_mac b)"

definition bundle_rel :: "block \<Rightarrow> block \<Rightarrow> ashare_bundle \<Rightarrow> ashare_bundle \<Rightarrow> bool" where
  "bundle_rel dA dB a b \<longleftrightarrow> rel1 dB (as_mac a) (as_key b) \<and> rel1 dA (as_mac b) (as_key a)"

lemma bundle_rel_macs:
  assumes "bundle_rel dA dB a b"
  shows "as_mac a = as_key b XOR sel (lsb (as_mac a)) dB" and "as_mac b = as_key a XOR sel (lsb (as_mac b)) dA"
  using assms by (simp_all only: bundle_rel_def rel1_def)

definition mask_bits :: "ashare_bundle list \<Rightarrow> ashare_bundle list \<Rightarrow> bool list \<Rightarrow> bool list" where
  \<comment> \<open>the masked value of every wire\<close>
  "mask_bits WA WB X = map (\<lambda>w. X ! w \<noteq> shared (WA ! w) (WB ! w)) [0..<length X]"

definition masks :: "bool list \<Rightarrow> bytes" where
  "masks M = map of_bool M"

definition actives :: "block \<Rightarrow> block list \<Rightarrow> bool list \<Rightarrow> block list" where
  \<comment> \<open>the active label of every wire\<close>
  "actives d L M = map (\<lambda>(l, m). l XOR sel m d) (zip L M)"

definition gamma_at :: "program \<Rightarrow> ashare_bundle list \<Rightarrow> ashare_bundle list \<Rightarrow> bool list \<Rightarrow> nat \<Rightarrow> block" where
  "gamma_at p W sg M i = (let g = pr_gates p ! i in
     (((as_mac (sg ! ac p i) XOR as_mac (W ! gate_out p i)) XOR sel (M ! ag_in0 g) (as_mac (W ! ag_in1 g)))
       XOR sel (M ! ag_in1 g) (as_mac (W ! ag_in0 g))))"

lemma evaluator_and_gate_spec:
  assumes m: "mitccrh_inv (rs_mitc st)" and la: "minp st (ag_in0 g) = of_bool la" and lb: "minp st (ag_in1 g) = of_bool lb"
    and s: "rs_sigma st ! k = s" and wa: "wslot st (ag_in0 g) = wa" and wb: "wslot st (ag_in1 g) = wb" and wo: "wslot st out = wo"
    and ea: "evl st (ag_in0 g) = ea" and eb: "evl st (ag_in1 g) = eb"
  shows "evaluator_and_gate aes g out k g0 g1 b st = (let H = cirh aes (hkey (rs_mitc st));
       mr = ((as_mac s XOR as_mac wo) XOR sel la (as_mac wb)) XOR sel lb (as_mac wa);
       t = ((((H ea XOR H eb) XOR sel la g0) XOR sel lb (g1 XOR ea)) XOR mr); lg = b XOR of_bool (bit t 1);
       t1 = of_bool (la \<and> lb) XOR lg XOR of_bool (la \<and> lsb (as_mac wb)) XOR of_bool (lb \<and> lsb (as_mac wa))
            XOR of_bool (lsb (as_mac s)) XOR of_bool (lsb (as_mac wo))
     in Inr (((sel (bit t1 0) (rs_delta st) XOR sel la (as_key wb)) XOR sel lb (as_key wa)) XOR as_key s XOR as_key wo,
        st\<lparr>rs_mitc := hnext (rs_mitc st), rs_eval_slot := (rs_eval_slot st)[slot st out := t],
           rs_mask_input := (rs_mask_input st)[slot st out := lg AND 1], rs_lambda_and := (rs_lambda_and st)[k := lg]\<rparr>))"
proof -
  have evl: "evl (st\<lparr>rs_mitc := x\<rparr>) w = evl st w" for x w by (simp add: evl_def slot_def)
  show ?thesis
    using hash_cir_one [OF m, of "[ea, eb]" 2 aes]
    unfolding evaluator_and_gate_def la lb s wa wb wo ea eb Let_def
    by (simp add: set_evl_def set_minp_def evl ea slot_def flip: of_bool_conj)
qed

lemma xor_bools: "(of_bool a :: u8) XOR of_bool b = of_bool (a \<noteq> b)" "(of_bool a :: u8) AND 1 = of_bool a"
  "bit (of_bool a :: u8) 0 = a"
  by (cases a; cases b; simp)+

definition ev_inv ::
  "program \<Rightarrow> run_state \<Rightarrow> ashare_bundle list \<Rightarrow> block list \<Rightarrow> bool list \<Rightarrow> (nat \<Rightarrow> block) \<Rightarrow> table list \<Rightarrow> nat \<Rightarrow> evaluator \<Rightarrow> bool" where
  "ev_inv p st0 W E M gam T i e \<longleftrightarrow> (\<exists>ws es ms la c pos inp.
     e = \<lparr>ev_st = st0\<lparr>rs_wire_slot := ws, rs_eval_slot := es, rs_mask_input := ms, rs_lambda_and := la,
            rs_mitc := (hnext ^^ ac p i) (rs_mitc st0)\<rparr>,
          ev_chunk = c, ev_pos = pos, ev_and_index = ac p i,
          ev_gamma = concat (map (\<lambda>j. block_bytes (gam j)) (and_gates p i)), ev_in = inp\<rparr>
     \<and> shares_at p st0 W i ws \<and> holds_at p st0 E i es \<and> holds_at p st0 (masks M) i ms
     \<and> length la = max (num_ands p) 1 \<and> take (ac p i) la = map (\<lambda>j. of_bool (M ! gate_out p j)) (and_gates p i)
     \<and> reading T (ac p i) c pos inp)"

lemma ev_invI:
  assumes "shares_at p st0 W i ws" "holds_at p st0 E i es" "holds_at p st0 (masks M) i ms" "length la = max (num_ands p) 1"
    "take k la = map (\<lambda>j. of_bool (M ! gate_out p j)) (and_gates p i)" "reading T k c pos inp"
    "k = ac p i" "m = (hnext ^^ ac p i) (rs_mitc st0)" "y = concat (map (\<lambda>j. block_bytes (gam j)) (and_gates p i))"
  shows "ev_inv p st0 W E M gam T i \<lparr>ev_st = st0\<lparr>rs_wire_slot := ws, rs_eval_slot := es, rs_mask_input := ms, rs_lambda_and := la,
            rs_mitc := m\<rparr>, ev_chunk = c, ev_pos = pos, ev_and_index = k, ev_gamma = y, ev_in = inp\<rparr>"
  unfolding ev_inv_def using assms by blast

text \<open>What relates the two sides of a run: the shares of every wire, the triples, the values.\<close>

definition sides_ok ::
  "program \<Rightarrow> block \<Rightarrow> block \<Rightarrow> ashare_bundle list \<Rightarrow> ashare_bundle list \<Rightarrow> ashare_bundle list \<Rightarrow> ashare_bundle list \<Rightarrow> bool" where
  "sides_ok p dA dB WA WB sgA sgB \<longleftrightarrow> bit dA 1
     \<and> (\<forall>w < pr_num_wires p. bundle_rel dA dB (WA ! w) (WB ! w))
     \<and> (\<forall>i < length (pr_gates p). ag_typ (pr_gates p ! i) = AgAnd \<longrightarrow>
          bundle_rel dA dB (sgA ! ac p i) (sgB ! ac p i)
          \<and> shared (sgA ! ac p i) (sgB ! ac p i) = (shared (WA ! ag_in0 (pr_gates p ! i)) (WB ! ag_in0 (pr_gates p ! i))
               \<and> shared (WA ! ag_in1 (pr_gates p ! i)) (WB ! ag_in1 (pr_gates p ! i))))"

text \<open>The value of an AND gate for the evaluator, from the garbler's labels and table.\<close>

lemma and_gate_values:
  fixes H :: "block \<Rightarrow> block"
  assumes rel: "bundle_rel dA dB wa wa'" "bundle_rel dA dB wb wb'" "bundle_rel dA dB wo wo'" "bundle_rel dA dB s s'"
    and tri: "shared s s' = (shared wa wa' \<and> shared wb wb')" and d: "bit dA 1"
    and lo: "lo = (((la \<noteq> shared wa wa') \<and> (lb \<noteq> shared wb wb')) \<noteq> shared wo wo')"
    and ml: "ml = H La XOR H Lb XOR as_key s XOR sel (lsb (as_mac s)) dA XOR as_key wo XOR sel (lsb (as_mac wo)) dA"
    and g0: "g0 = H La XOR H (La XOR dA) XOR as_key wb XOR sel (lsb (as_mac wb)) dA"
    and g1: "g1 = H Lb XOR H (Lb XOR dA) XOR La XOR as_key wa XOR sel (lsb (as_mac wa)) dA"
    and mr: "mr = ((as_mac s' XOR as_mac wo') XOR sel la (as_mac wb')) XOR sel lb (as_mac wa')"
    and t: "t = ((((H (La XOR sel la dA) XOR H (Lb XOR sel lb dA)) XOR sel la g0) XOR sel lb (g1 XOR (La XOR sel la dA))) XOR mr)"
    and t1: "t1 = of_bool (la \<and> lb) XOR (block_lsb1 ml XOR of_bool (bit t 1)) XOR of_bool (la \<and> lsb (as_mac wb')) XOR of_bool (lb \<and> lsb (as_mac wa'))
            XOR of_bool (lsb (as_mac s')) XOR of_bool (lsb (as_mac wo'))"
  shows "t = ml XOR sel lo dA" and "block_lsb1 ml XOR of_bool (bit t 1) = of_bool lo"
    and "((sel (bit t1 0) dB XOR sel la (as_key wb')) XOR sel lb (as_key wa')) XOR as_key s' XOR as_key wo'
       = ((as_mac s XOR as_mac wo) XOR sel la (as_mac wb)) XOR sel lb (as_mac wa)"
proof -
  note mB = rel [THEN bundle_rel_macs(2)] and mA = rel [THEN bundle_rel_macs(1)]
  have tri': "(lsb (as_mac s) \<noteq> lsb (as_mac s')) = ((lsb (as_mac wa) \<noteq> lsb (as_mac wa')) \<and> (lsb (as_mac wb) \<noteq> lsb (as_mac wb')))"
    using tri by (simp only: shared_def)
  have lo': "lo = (((la \<noteq> (lsb (as_mac wa) \<noteq> lsb (as_mac wa'))) \<and> (lb \<noteq> (lsb (as_mac wb) \<noteq> lsb (as_mac wb')))) \<noteq> (lsb (as_mac wo) \<noteq> lsb (as_mac wo')))"
    unfolding lo shared_def ..
  have mr': "mr = (((as_key s XOR sel (lsb (as_mac s')) dA) XOR (as_key wo XOR sel (lsb (as_mac wo')) dA))
      XOR sel la (as_key wb XOR sel (lsb (as_mac wb')) dA)) XOR sel lb (as_key wa XOR sel (lsb (as_mac wa')) dA)"
    unfolding mr by (simp only: mB [symmetric])
  show t': "t = ml XOR sel lo dA"
    unfolding t g0 g1 ml mr' lo' by (rule garbled_and [OF tri'])
  show lg: "block_lsb1 ml XOR of_bool (bit t 1) = of_bool lo"
    using d by (cases lo; cases "bit ml 1") (simp_all add: t' bit_xor_iff)
  have "bit t1 0 = ((((((la \<and> lb) \<noteq> lo) \<noteq> (la \<and> lsb (as_mac wb'))) \<noteq> (lb \<and> lsb (as_mac wa'))) \<noteq> lsb (as_mac s')) \<noteq> lsb (as_mac wo'))"
    unfolding t1 lg by (simp only: bit_xor_iff xor_bools) blast
  from gamma_equal [OF tri' lo' this, of "as_key s'" dB "as_key wo'" "as_key wb'" "as_key wa'"]
  show "((sel (bit t1 0) dB XOR sel la (as_key wb')) XOR sel lb (as_key wa')) XOR as_key s' XOR as_key wo'
       = ((as_mac s XOR as_mac wo) XOR sel la (as_mac wb)) XOR sel lb (as_mac wa)"
    by (simp only: mA [symmetric])
qed

lemma prog_wires_value:
  assumes ok: "prog_ok p" and x: "length x = pr_num_inputs p" and i: "i < length (pr_gates p)"
    and X: "X = prog_wires (pr_gates p) x"
  shows "X ! gate_out p i = gate_bool (pr_gates p ! i) X"
proof -
  have eq: "prog_wires (take i (pr_gates p)) x ! j = X ! j" if "j < gate_out p i" for j
    using prog_wires_take [of j x i "pr_gates p"] that i x by (simp add: X gate_out_def)
  have "X ! gate_out p i = gate_bool (pr_gates p ! i) (prog_wires (take i (pr_gates p)) x)"
    using prog_wires_gate [OF i, of x] x by (simp add: X gate_out_def)
  also have "\<dots> = gate_bool (pr_gates p ! i) X"
    using prog_okD [OF ok i] eq by (auto simp: gate_bool_def split: ag_type.split)
  finally show ?thesis .
qed

lemma shared_xor: "shared (xor_bundle a b) (xor_bundle c d) = (shared a c \<noteq> shared b d)"
  by (auto simp: shared_def xor_bundle_def bit_xor_iff)

lemma bundle_rel_xor: "bundle_rel dA dB a c \<Longrightarrow> bundle_rel dA dB b d \<Longrightarrow> bundle_rel dA dB (xor_bundle a b) (xor_bundle c d)"
  by (simp add: bundle_rel_def xor_bundle_def rel1_xor)

lemma mask_gate:
  assumes ok: "prog_ok p" and x: "length x = pr_num_inputs p" and i: "i < length (pr_gates p)"
    and X: "X = prog_wires (pr_gates p) x" and M: "M = mask_bits WA WB X"
    and WA: "WA = wire_shares p DA insA" "length insA = pr_num_inputs p" and WB: "WB = wire_shares p DB insB" "length insB = pr_num_inputs p"
    and g: "g = pr_gates p ! i"
  shows "M ! gate_out p i = (case ag_typ g of AgXor \<Rightarrow> M ! ag_in0 g \<noteq> M ! ag_in1 g | AgInv \<Rightarrow> \<not> M ! ag_in0 g
    | AgAnd \<Rightarrow> ((M ! ag_in0 g \<noteq> shared (WA ! ag_in0 g) (WB ! ag_in0 g)) \<and> (M ! ag_in1 g \<noteq> shared (WA ! ag_in1 g) (WB ! ag_in1 g)))
        \<noteq> shared (WA ! gate_out p i) (WB ! gate_out p i))"
proof -
  note pk = prog_okD [OF ok i, folded g]
  have lX: "length X = pr_num_wires p" using ok x by (simp add: X prog_ok_def)
  have Mw: "M ! w = (X ! w \<noteq> shared (WA ! w) (WB ! w))" if "w < pr_num_wires p" for w
    using that by (simp add: M mask_bits_def lX)
  have Xo: "X ! gate_out p i = gate_bool g X" unfolding g by (rule prog_wires_value [OF ok x i X])
  note A = wire_shares_gate [OF ok WA(2) i, of DA, folded WA(1) g, unfolded Let_def]
  note B = wire_shares_gate [OF ok WB(2) i, of DB, folded WB(1) g, unfolded Let_def]
  have in0: "ag_in0 g < pr_num_wires p" using pk by simp
  show ?thesis
  proof (cases "ag_typ g")
    case AgAnd
    then have "ag_in1 g < pr_num_wires p" using pk by simp
    then show ?thesis using AgAnd Xo by (auto simp: Mw pk(3) in0 gate_bool_def)
  next
    case AgXor
    then have "ag_in1 g < pr_num_wires p" using pk by simp
    then show ?thesis using AgXor Xo A B by (auto simp: Mw pk(3) in0 gate_bool_def shared_xor)
  next
    case AgInv
    then show ?thesis using Xo A B by (auto simp: Mw pk(3) in0 gate_bool_def)
  qed
qed

lemma actives_nth: "w < length L \<Longrightarrow> w < length M \<Longrightarrow> actives d L M ! w = L ! w XOR sel (M ! w) d"
  by (simp add: actives_def)

lemma evaluator_gate_step:
  assumes r: "slots_ready p st0" and i: "i < length (pr_gates p)" and m: "mitccrh_inv (rs_mitc st0)" and m': "m' = rs_mitc st0"
    and na: "rs_num_ands st0 = num_ands p"
    and x: "length x = pr_num_inputs p" and X: "X = prog_wires (pr_gates p) x" and M: "M = mask_bits WA WB X"
    and WA: "WA = wire_shares p DA insA" "length insA = pr_num_inputs p" and WB: "WB = wire_shares p DB insB" "length insB = pr_num_inputs p"
    and L: "L = labels aes p dA WA sgA m' insL" "length insL = pr_num_inputs p" and E: "E = actives dA L M"
    and ok: "sides_ok p dA (rs_delta st0) WA WB sgA (rs_sigma st0)"
    and T: "T = tables aes p dA WA m' L" and inv: "ev_inv p st0 WB E M (gamma_at p WA sgA M) T i e"
  shows "\<exists>e'. evaluator_gate aes p (i, pr_gates p ! i) e = Inr e' \<and> ev_inv p st0 WB E M (gamma_at p WA sgA M) T (Suc i) e'"
proof -
  let ?g = "pr_gates p ! i" let ?o = "gate_out p i" let ?gam = "gamma_at p WA sgA M"
  obtain ws es ms la c pos inp where e: "e = \<lparr>ev_st = st0\<lparr>rs_wire_slot := ws, rs_eval_slot := es, rs_mask_input := ms, rs_lambda_and := la,
            rs_mitc := (hnext ^^ ac p i) (rs_mitc st0)\<rparr>,
          ev_chunk = c, ev_pos = pos, ev_and_index = ac p i,
          ev_gamma = concat (map (\<lambda>j. block_bytes (?gam j)) (and_gates p i)), ev_in = inp\<rparr>"
     and ws: "shares_at p st0 WB i ws" and es: "holds_at p st0 E i es" and ms: "holds_at p st0 (masks M) i ms"
     and la: "length la = max (num_ands p) 1" "take (ac p i) la = map (\<lambda>j. of_bool (M ! gate_out p j)) (and_gates p i)"
     and rd: "reading T (ac p i) c pos inp"
    using inv unfolding ev_inv_def by blast
  have pok: "prog_ok p" using r by (simp add: slots_ready_def)
  note pk = prog_okD [OF pok i]
  have lens: "length X = pr_num_wires p" "length M = pr_num_wires p" "length L = pr_num_wires p"
    using pok x L(2) by (simp_all add: X M L(1) labels_def mask_bits_def prog_ok_def)
  have Ew: "E ! w = L ! w XOR sel (M ! w) dA" if "w < pr_num_wires p" for w
    using that by (simp add: E actives_nth lens)
  have Mw: "masks M ! w = of_bool (M ! w)" if "w < pr_num_wires p" for w
    using that by (simp add: masks_def lens)
  note Wo = wire_shares_gate [OF pok WB(2) i, of DB, folded WB(1), unfolded Let_def]
  note Lo = labels_gate [OF pok L(2) i L(1) refl]
  note Mo = mask_gate [OF pok x i X M WA WB refl]
  have in0: "ag_in0 ?g < pr_num_wires p" using pk by simp
  have in1: "ag_in1 ?g < pr_num_wires p" if "ag_typ ?g \<noteq> AgInv" using pk that by simp
  note win = holds_in [OF r i shares_holds [OF ws]] and ein = holds_in [OF r i es] and min = holds_in [OF r i ms]
  have ew: "holds_at p st0 E (Suc i) (es[rs_phys st0 ! ?o := E ! ?o])" by (rule holds_write [OF r i es refl])
  have mw: "holds_at p st0 (masks M) (Suc i) (ms[rs_phys st0 ! ?o := masks M ! ?o])" by (rule holds_write [OF r i ms refl])
  show ?thesis
  proof (cases "ag_typ ?g")
    case AgXor
    have k: "ac p (Suc i) = ac p i" "and_gates p (Suc i) = and_gates p i" using AgXor by (simp_all add: ac_Suc [OF i] and_gates_Suc)
    have eo: "E ! ?o = E ! ag_in0 ?g XOR E ! ag_in1 ?g" using AgXor Lo Mo in0 in1 pk(3) by (simp add: Ew sel_neq xor_ac)
    have mo: "masks M ! ?o = (masks M ! ag_in0 ?g XOR masks M ! ag_in1 ?g) AND 1"
      using AgXor Mo in0 in1 pk(3) by (simp add: Mw xor_bools del: of_bool_eq_iff)
    have "evaluator_gate aes p (i, ?g) e = Inr \<lparr>ev_st = st0\<lparr>rs_wire_slot := ws[rs_phys st0 ! ?o := WB ! ?o],
        rs_eval_slot := es[rs_phys st0 ! ?o := E ! ?o], rs_mask_input := ms[rs_phys st0 ! ?o := masks M ! ?o], rs_lambda_and := la,
        rs_mitc := (hnext ^^ ac p i) (rs_mitc st0)\<rparr>, ev_chunk = c, ev_pos = pos, ev_and_index = ac p i,
          ev_gamma = concat (map (\<lambda>j. block_bytes (?gam j)) (and_gates p i)), ev_in = inp\<rparr>"
      using AgXor Wo eo mo win ein min
      by (simp add: evaluator_gate_def e Let_def set_wslot_def set_evl_def set_minp_def wslot_def evl_def minp_def slot_def)
    then show ?thesis using ev_invI [OF shares_write [OF r i ws refl] ew mw la(1) la(2) [folded k(2)] rd, of _ _ ?gam] k by simp
  next
    case AgInv
    have k: "ac p (Suc i) = ac p i" "and_gates p (Suc i) = and_gates p i" using AgInv by (simp_all add: ac_Suc [OF i] and_gates_Suc)
    have eo: "E ! ?o = E ! ag_in0 ?g" using AgInv Lo Mo in0 pk(3) by (cases "M ! ag_in0 ?g") (simp_all add: Ew xor_ac)
    have mo: "masks M ! ?o = (masks M ! ag_in0 ?g XOR 1) AND 1"
      using AgInv Mo in0 pk(3) by (cases "M ! ag_in0 ?g") (simp_all add: Mw)
    have "evaluator_gate aes p (i, ?g) e = Inr \<lparr>ev_st = st0\<lparr>rs_wire_slot := ws[rs_phys st0 ! ?o := WB ! ?o],
        rs_eval_slot := es[rs_phys st0 ! ?o := E ! ?o], rs_mask_input := ms[rs_phys st0 ! ?o := masks M ! ?o], rs_lambda_and := la,
        rs_mitc := (hnext ^^ ac p i) (rs_mitc st0)\<rparr>, ev_chunk = c, ev_pos = pos, ev_and_index = ac p i,
          ev_gamma = concat (map (\<lambda>j. block_bytes (?gam j)) (and_gates p i)), ev_in = inp\<rparr>"
      using AgInv Wo eo mo win ein min
      by (simp add: evaluator_gate_def e Let_def set_wslot_def set_evl_def set_minp_def wslot_def evl_def minp_def slot_def)
    then show ?thesis using ev_invI [OF shares_write [OF r i ws refl] ew mw la(1) la(2) [folded k(2)] rd, of _ _ ?gam] k by simp
  next
    case AgAnd
    have k: "ac p (Suc i) = Suc (ac p i)" "and_gates p (Suc i) = and_gates p i @ [i]" using AgAnd by (simp_all add: ac_Suc [OF i] and_gates_Suc)
    have kl: "ac p i < num_ands p" by (rule ac_less [OF i AgAnd])
    have Tk: "T ! ac p i = table_at aes p dA WA m' L i" "length T = num_ands p"
      using tables_nth [OF i AgAnd, of aes dA WA m' L] by (simp_all add: T)
    obtain c' pos' inp' where rc: "(if pos = length (snd c)
        then bindR (recv_garble_chunk (min (num_ands p - ac p i) chunk_ands) inp) (\<lambda>(c, inp). Inr (c, 0, inp))
        else Inr (c, pos, inp)) = Inr (c', pos', inp')"
      and tb: "(fst c' ! (2 * pos'), fst c' ! (2 * pos' + 1), snd c' ! pos') = T ! ac p i" and rd': "reading T (Suc (ac p i)) c' (pos' + 1) inp'"
      using reading_next [OF rd, unfolded Tk(2), OF kl] by blast
    let ?st = "st0\<lparr>rs_wire_slot := ws, rs_eval_slot := es, rs_mask_input := ms, rs_lambda_and := la, rs_mitc := (hnext ^^ ac p i) (rs_mitc st0)\<rparr>"
    let ?H = "gate_hash aes p m' i"
    let ?a = "ag_in0 ?g" let ?b = "ag_in1 ?g"
    have H: "cirh aes (hkey (rs_mitc ?st)) = ?H" "rs_delta ?st = rs_delta st0" by (simp_all add: gate_hash_def m')
    have N: "rs_num_ands ?st = num_ands p" by (simp add: na)
    have in1': "?b < pr_num_wires p" using in1 AgAnd by simp
    have mi: "mitccrh_inv (rs_mitc ?st)" using hnext_iter_inv [OF m] by simp
    have vals: "minp ?st ?a = of_bool (M ! ?a)" "minp ?st ?b = of_bool (M ! ?b)" "rs_sigma ?st ! ac p i = rs_sigma st0 ! ac p i"
      "wslot ?st ?a = WB ! ?a" "wslot ?st ?b = WB ! ?b" "wslot ?st ?o = WB ! ?o"
      "evl ?st ?a = L ! ?a XOR sel (M ! ?a) dA" "evl ?st ?b = L ! ?b XOR sel (M ! ?b) dA"
      using win ein min shares_and(2) [OF r i ws AgAnd] AgAnd in0 in1'
      by (simp_all add: wslot_def evl_def minp_def slot_def Ew Mw)
    have rels: "bundle_rel dA (rs_delta st0) (WA ! ?a) (WB ! ?a)" "bundle_rel dA (rs_delta st0) (WA ! ?b) (WB ! ?b)"
       "bundle_rel dA (rs_delta st0) (WA ! ?o) (WB ! ?o)" "bundle_rel dA (rs_delta st0) (sgA ! ac p i) (rs_sigma st0 ! ac p i)"
       "shared (sgA ! ac p i) (rs_sigma st0 ! ac p i) = (shared (WA ! ?a) (WB ! ?a) \<and> shared (WA ! ?b) (WB ! ?b))" "bit dA 1"
      using ok i AgAnd in0 in1' pk(3) by (simp_all add: sides_ok_def)
    have Mo': "M ! ?o = (((M ! ?a \<noteq> shared (WA ! ?a) (WB ! ?a)) \<and> (M ! ?b \<noteq> shared (WA ! ?b) (WB ! ?b))) \<noteq> shared (WA ! ?o) (WB ! ?o))"
      using Mo AgAnd by simp
    note Lo' = Lo [unfolded AgAnd ag_type.case]
    let ?t0 = "fst c' ! (2 * pos')" and ?t1 = "fst c' ! (2 * pos' + 1)" and ?bb = "snd c' ! pos'"
    have tbl: "?t0 = ?H (L ! ?a) XOR ?H (L ! ?a XOR dA) XOR as_key (WA ! ?b) XOR sel (lsb (as_mac (WA ! ?b))) dA"
      "?t1 = ?H (L ! ?b) XOR ?H (L ! ?b XOR dA) XOR L ! ?a XOR as_key (WA ! ?a) XOR sel (lsb (as_mac (WA ! ?a))) dA"
      "?bb = block_lsb1 (L ! ?o)"
      using tb unfolding Tk(1) table_at_def Let_def prod.inject by blast+
    note and_gate_values [OF rels(1-6) Mo' Lo' tbl(1,2) refl refl refl]
    note V = this
    define st' where "st' = st0\<lparr>rs_wire_slot := ws, rs_eval_slot := es[rs_phys st0 ! ?o := E ! ?o], rs_mask_input := ms[rs_phys st0 ! ?o := masks M ! ?o],
       rs_lambda_and := la[ac p i := of_bool (M ! ?o)], rs_mitc := (hnext ^^ Suc (ac p i)) (rs_mitc st0)\<rparr>"
    have gate: "evaluator_and_gate aes ?g ?o (ac p i) ?t0 ?t1 ?bb ?st = Inr (?gam i, st')"
      unfolding evaluator_and_gate_spec [OF mi vals] H Let_def tbl(3)
      unfolding V(3) unfolding V(2) unfolding V(1)
      using pk(3) by (simp add: st'_def Ew Mw slot_def gamma_at_def Let_def xor_bools(2))
    have run: "evaluator_gate aes p (i, ?g) e = Inr \<lparr>ev_st = st', ev_chunk = c', ev_pos = pos' + 1, ev_and_index = Suc (ac p i),
        ev_gamma = concat (map (\<lambda>j. block_bytes (?gam j)) (and_gates p (Suc i))), ev_in = inp'\<rparr>"
      unfolding evaluator_gate_def prod.case e evaluator.select_convs AgAnd ag_type.case Let_def N rc bindR_simps gate k(2) by simp
    have la': "length (la[ac p i := of_bool (M ! ?o)]) = max (num_ands p) 1"
      "take (Suc (ac p i)) (la[ac p i := of_bool (M ! ?o)]) = map (\<lambda>j. of_bool (M ! gate_out p j)) (and_gates p (Suc i))"
      using la kl by (simp_all add: k(2) take_Suc_conv_app_nth)
    show ?thesis using ev_invI [OF shares_and(1) [OF r i ws AgAnd] ew mw la' rd', of _ _ ?gam] run unfolding st'_def by (simp add: k(1))
  qed
qed

lemma evaluator_run_spec:
  assumes r: "slots_ready p st0" and m: "mitccrh_inv (rs_mitc st0)" and m': "m' = rs_mitc st0"
    and na: "rs_num_ands st0 = num_ands p" and la: "length (rs_lambda_and st0) = max (num_ands p) 1"
    and x: "length x = pr_num_inputs p" and X: "X = prog_wires (pr_gates p) x" and M: "M = mask_bits WA WB X"
    and WA: "WA = wire_shares p DA insA" "length insA = pr_num_inputs p" and WB: "WB = wire_shares p DB insB" "length insB = pr_num_inputs p"
    and L: "L = labels aes p dA WA sgA m' insL" "length insL = pr_num_inputs p" and E: "E = actives dA L M"
    and ok: "sides_ok p dA (rs_delta st0) WA WB sgA (rs_sigma st0)"
    and T: "T = tables aes p dA WA m' L"
    and start: "shares_at p st0 WB 0 (rs_wire_slot st0)" "holds_at p st0 E 0 (rs_eval_slot st0)" "holds_at p st0 (masks M) 0 (rs_mask_input st0)"
  shows "\<exists>ws es ms la m. evaluator_run aes p (all_chunks T) st0 =
       Inr (st0\<lparr>rs_wire_slot := ws, rs_eval_slot := es, rs_mask_input := ms, rs_lambda_and := la, rs_mitc := m\<rparr>,
            concat (map (\<lambda>j. block_bytes (gamma_at p WA sgA M j)) (and_gates p (length (pr_gates p)))))
     \<and> shares_at p st0 WB (length (pr_gates p)) ws \<and> holds_at p st0 E (length (pr_gates p)) es \<and> holds_at p st0 (masks M) (length (pr_gates p)) ms
     \<and> (0 < num_ands p \<longrightarrow> la = map (\<lambda>j. of_bool (M ! gate_out p j)) (and_gates p (length (pr_gates p))))"
proof -
  let ?n = "length (pr_gates p)" let ?I = "ev_inv p st0 WB E M (gamma_at p WA sgA M) T"
  have "?I 0 \<lparr>ev_st = st0, ev_chunk = ([], []), ev_pos = 0, ev_and_index = 0, ev_gamma = [], ev_in = all_chunks T\<rparr>"
    using ev_invI [OF start la _ reading_start, where m = "rs_mitc st0" and y = "[]" and gam = "gamma_at p WA sgA M" and T = T] by (simp add: and_gates_def)
  then obtain e where run: "foldR (evaluator_gate aes p) (enumerate 0 (pr_gates p))
        \<lparr>ev_st = st0, ev_chunk = ([], []), ev_pos = 0, ev_and_index = 0, ev_gamma = [], ev_in = all_chunks T\<rparr> = Inr e"
    and fin: "?I ?n e"
    using foldR_enumerate [where P = ?I and xs = "pr_gates p"] evaluator_gate_step [OF r _ m m' na x X M WA WB L E ok T] by metis
  obtain ws es ms la c pos inp where e: "e = \<lparr>ev_st = st0\<lparr>rs_wire_slot := ws, rs_eval_slot := es, rs_mask_input := ms, rs_lambda_and := la,
            rs_mitc := (hnext ^^ ac p ?n) (rs_mitc st0)\<rparr>,
          ev_chunk = c, ev_pos = pos, ev_and_index = ac p ?n,
          ev_gamma = concat (map (\<lambda>j. block_bytes (gamma_at p WA sgA M j)) (and_gates p ?n)), ev_in = inp\<rparr>"
     and f: "shares_at p st0 WB ?n ws" "holds_at p st0 E ?n es" "holds_at p st0 (masks M) ?n ms"
     and l: "length la = max (num_ands p) 1" "take (ac p ?n) la = map (\<lambda>j. of_bool (M ! gate_out p j)) (and_gates p ?n)"
    using fin unfolding ev_inv_def by blast
  have "evaluator_run aes p (all_chunks T) st0 = Inr (st0\<lparr>rs_wire_slot := ws, rs_eval_slot := es, rs_mask_input := ms, rs_lambda_and := la,
      rs_mitc := (hnext ^^ ac p ?n) (rs_mitc st0)\<rparr>, concat (map (\<lambda>j. block_bytes (gamma_at p WA sgA M j)) (and_gates p ?n)))"
    unfolding evaluator_run_def run bindR_simps e by simp
  moreover have "0 < num_ands p \<longrightarrow> la = map (\<lambda>j. of_bool (M ! gate_out p j)) (and_gates p ?n)"
  proof
    assume "0 < num_ands p"
    then have "take (ac p ?n) la = la" using l(1) by (simp add: ac_all)
    with l(2) show "la = map (\<lambda>j. of_bool (M ! gate_out p j)) (and_gates p ?n)" by simp
  qed
  ultimately show ?thesis using f by (intro exI conjI)
qed

section \<open>The gamma pass\<close>

definition gm_inv ::
  "program \<Rightarrow> run_state \<Rightarrow> ashare_bundle list \<Rightarrow> bool list \<Rightarrow> (nat \<Rightarrow> block) \<Rightarrow> nat \<Rightarrow> run_state \<times> nat \<times> bytes \<Rightarrow> bool" where
  "gm_inv p st0 W M gam i = (\<lambda>(st, k, gamma). \<exists>ws ms. st = st0\<lparr>rs_wire_slot := ws, rs_mask_input := ms\<rparr> \<and> k = ac p i
     \<and> gamma = concat (map (\<lambda>j. block_bytes (gam j)) (and_gates p i))
     \<and> shares_at p st0 W i ws \<and> holds_at p st0 (masks M) i ms)"

lemma gamma_gate_step:
  assumes r: "slots_ready p st0" and i: "i < length (pr_gates p)"
    and la: "0 < num_ands p \<longrightarrow> rs_lambda_and st0 = map (\<lambda>j. of_bool (M ! gate_out p j)) (and_gates p (length (pr_gates p)))"
    and x: "length x = pr_num_inputs p" and X: "X = prog_wires (pr_gates p) x" and M: "M = mask_bits WA WB X"
    and WA: "WA = wire_shares p DA insA" "length insA = pr_num_inputs p" and WB: "WB = wire_shares p DB insB" "length insB = pr_num_inputs p"
    and inv: "gm_inv p st0 WA M (gamma_at p WA (rs_sigma st0) M) i s"
  shows "gm_inv p st0 WA M (gamma_at p WA (rs_sigma st0) M) (Suc i) (gamma_gate p (i, pr_gates p ! i) s)"
proof -
  let ?g = "pr_gates p ! i" let ?o = "gate_out p i" let ?gam = "gamma_at p WA (rs_sigma st0) M"
  obtain ws ms where s: "s = (st0\<lparr>rs_wire_slot := ws, rs_mask_input := ms\<rparr>, ac p i, concat (map (\<lambda>j. block_bytes (?gam j)) (and_gates p i)))"
     and ws: "shares_at p st0 WA i ws" and ms: "holds_at p st0 (masks M) i ms"
    using inv unfolding gm_inv_def by (cases s) blast
  have pok: "prog_ok p" using r by (simp add: slots_ready_def)
  note pk = prog_okD [OF pok i]
  have lM: "length M = pr_num_wires p" using pok x by (simp add: M X mask_bits_def prog_ok_def)
  have Mw: "masks M ! w = of_bool (M ! w)" if "w < pr_num_wires p" for w using that by (simp add: masks_def lM)
  note Wo = wire_shares_gate [OF pok WA(2) i, of DA, folded WA(1), unfolded Let_def]
  note Mo = mask_gate [OF pok x i X M WA WB refl]
  have in0: "ag_in0 ?g < pr_num_wires p" using pk by simp
  have in1: "ag_in1 ?g < pr_num_wires p" if "ag_typ ?g \<noteq> AgInv" using pk that by simp
  note win = holds_in [OF r i shares_holds [OF ws]] and min = holds_in [OF r i ms]
  have mw: "holds_at p st0 (masks M) (Suc i) (ms[rs_phys st0 ! ?o := masks M ! ?o])" by (rule holds_write [OF r i ms refl])
  have sw: "shares_at p st0 WA (Suc i) (ws[rs_phys st0 ! ?o := WA ! ?o])" by (rule shares_write [OF r i ws refl])
  show ?thesis
  proof (cases "ag_typ ?g")
    case AgXor
    have k: "ac p (Suc i) = ac p i" "and_gates p (Suc i) = and_gates p i" using AgXor by (simp_all add: ac_Suc [OF i] and_gates_Suc)
    have mo: "masks M ! ?o = (masks M ! ag_in0 ?g XOR masks M ! ag_in1 ?g) AND 1"
      using AgXor Mo in0 in1 pk(3) by (simp add: Mw xor_bools del: of_bool_eq_iff)
    have "gamma_gate p (i, ?g) s = (st0\<lparr>rs_wire_slot := ws[rs_phys st0 ! ?o := WA ! ?o], rs_mask_input := ms[rs_phys st0 ! ?o := masks M ! ?o]\<rparr>,
        ac p i, concat (map (\<lambda>j. block_bytes (?gam j)) (and_gates p i)))"
      using AgXor Wo mo win min by (simp add: gamma_gate_def s Let_def set_wslot_def set_minp_def wslot_def minp_def slot_def)
    then show ?thesis unfolding gm_inv_def k using mw sw by auto
  next
    case AgInv
    have k: "ac p (Suc i) = ac p i" "and_gates p (Suc i) = and_gates p i" using AgInv by (simp_all add: ac_Suc [OF i] and_gates_Suc)
    have mo: "masks M ! ?o = (masks M ! ag_in0 ?g XOR 1) AND 1"
      using AgInv Mo in0 pk(3) by (cases "M ! ag_in0 ?g") (simp_all add: Mw)
    have "gamma_gate p (i, ?g) s = (st0\<lparr>rs_wire_slot := ws[rs_phys st0 ! ?o := WA ! ?o], rs_mask_input := ms[rs_phys st0 ! ?o := masks M ! ?o]\<rparr>,
        ac p i, concat (map (\<lambda>j. block_bytes (?gam j)) (and_gates p i)))"
      using AgInv Wo mo win min by (simp add: gamma_gate_def s Let_def set_wslot_def set_minp_def wslot_def minp_def slot_def)
    then show ?thesis unfolding gm_inv_def k using mw sw by auto
  next
    case AgAnd
    have k: "ac p (Suc i) = Suc (ac p i)" "and_gates p (Suc i) = and_gates p i @ [i]" using AgAnd by (simp_all add: ac_Suc [OF i] and_gates_Suc)
    have kl: "ac p i < num_ands p" by (rule ac_less [OF i AgAnd])
    have lk: "rs_lambda_and st0 ! ac p i = of_bool (M ! ?o)"
      using la kl and_gates_nth [OF i order_refl AgAnd] by simp
    have mo: "masks M ! ?o = rs_lambda_and st0 ! ac p i AND 1" using pk(3) by (simp add: lk Mw xor_bools)
    let ?ms = "ms[rs_phys st0 ! ?o := masks M ! ?o]"
    have ne: "w < gate_out p i \<Longrightarrow> live (rs_persist st0) (rs_last_use st0) i w \<Longrightarrow> rs_phys st0 ! w \<noteq> rs_phys st0 ! ?o" for w
      using r i by (auto simp: slots_ready_def layout_def)
    have lo: "liveness_ok p (rs_persist st0) (rs_last_use st0)" using r by (simp add: slots_ready_def)
    have m01: "?ms ! (rs_phys st0 ! ag_in0 ?g) = masks M ! ag_in0 ?g" "?ms ! (rs_phys st0 ! ag_in1 ?g) = masks M ! ag_in1 ?g"
      using min AgAnd ne [OF pk(1) live_in0 [OF lo i]] ne [OF pk(2) live_in1 [OF lo i]] by auto
    have "gamma_gate p (i, ?g) s = (st0\<lparr>rs_wire_slot := ws, rs_mask_input := ?ms\<rparr>,
        Suc (ac p i), concat (map (\<lambda>j. block_bytes (?gam j)) (and_gates p (Suc i))))"
      using AgAnd win shares_and(2) [OF r i ws AgAnd] m01 in0 in1
      by (simp add: gamma_gate_def s Let_def set_minp_def wslot_def minp_def slot_def flip: mo)
         (simp add: k(2) gamma_at_def Let_def Mw)
    then show ?thesis unfolding gm_inv_def k using shares_and(1) [OF r i ws AgAnd] mw by (auto simp: k)
  qed
qed

lemma gamma_check_spec:
  assumes r: "slots_ready p st0"
    and la: "0 < num_ands p \<longrightarrow> rs_lambda_and st0 = map (\<lambda>j. of_bool (M ! gate_out p j)) (and_gates p (length (pr_gates p)))"
    and x: "length x = pr_num_inputs p" and X: "X = prog_wires (pr_gates p) x" and M: "M = mask_bits WA WB X"
    and WA: "WA = wire_shares p DA insA" "length insA = pr_num_inputs p" and WB: "WB = wire_shares p DB insB" "length insB = pr_num_inputs p"
    and start: "shares_at p st0 WA 0 (rs_wire_slot st0)" "holds_at p st0 (masks M) 0 (rs_mask_input st0)"
  shows "\<exists>ws ms. gamma_check_digest sha256 p st0 =
      (sha256 (concat (map (\<lambda>j. block_bytes (gamma_at p WA (rs_sigma st0) M j)) (and_gates p (length (pr_gates p))))),
       st0\<lparr>rs_wire_slot := ws, rs_mask_input := ms\<rparr>)
     \<and> shares_at p st0 WA (length (pr_gates p)) ws \<and> holds_at p st0 (masks M) (length (pr_gates p)) ms"
proof -
  let ?n = "length (pr_gates p)" let ?I = "gm_inv p st0 WA M (gamma_at p WA (rs_sigma st0) M)"
  have "?I 0 (st0, 0, [])" unfolding gm_inv_def prod.case using start
    by (intro exI [of _ "rs_wire_slot st0"] exI [of _ "rs_mask_input st0"]) (simp add: and_gates_def)
  then have "?I ?n (fold (gamma_gate p) (enumerate 0 (pr_gates p)) (st0, 0, []))"
    using fold_enumerate [where P = ?I and xs = "pr_gates p"] gamma_gate_step [OF r _ la x X M WA WB] by blast
  then show ?thesis unfolding gm_inv_def gamma_check_digest_def by (auto simp: split_beta Let_def)
qed

end
