(* ===== verification/Session_Correct.thy ===== *)
theory Session_Correct
  imports Evaluation
begin

text \<open>
  The session as a whole: \<open>run_program\<close> of two honest sides evaluates the program on shared, masked and
  garbled wires, and what comes in through \<open>process_inputs\<close> and goes out through \<open>decode\<close> is right.
\<close>

unbundle bit_operations_syntax

lemma slots_ready_frame [simp]:
  "slots_ready p (st\<lparr>rs_rep_a := a\<rparr>) = slots_ready p st" "slots_ready p (st\<lparr>rs_rep_b := a\<rparr>) = slots_ready p st"
  "slots_ready p (st\<lparr>rs_sigma := a\<rparr>) = slots_ready p st" "slots_ready p (st\<lparr>rs_lambda_and := la\<rparr>) = slots_ready p st"
  "slots_ready p (st\<lparr>rs_mitc := m\<rparr>) = slots_ready p st" "slots_ready p (st\<lparr>rs_wire_slot := a\<rparr>) = slots_ready p st"
  "slots_ready p (st\<lparr>rs_label_slot := b\<rparr>) = slots_ready p st" "slots_ready p (st\<lparr>rs_mask_input := la\<rparr>) = slots_ready p st"
  by (simp_all add: slots_ready_def)

lemma holds_at_frame [simp]:
  "holds_at p (st\<lparr>rs_rep_a := a\<rparr>) = holds_at p st" "holds_at p (st\<lparr>rs_rep_b := a\<rparr>) = holds_at p st"
  "holds_at p (st\<lparr>rs_sigma := a\<rparr>) = holds_at p st" "holds_at p (st\<lparr>rs_lambda_and := la\<rparr>) = holds_at p st"
  "holds_at p (st\<lparr>rs_mitc := m\<rparr>) = holds_at p st" "holds_at p (st\<lparr>rs_wire_slot := a\<rparr>) = holds_at p st"
  "holds_at p (st\<lparr>rs_label_slot := b\<rparr>) = holds_at p st" "holds_at p (st\<lparr>rs_mask_input := la\<rparr>) = holds_at p st"
  by (simp_all add: holds_at_def fun_eq_iff)

lemma shares_at_frame [simp]:
  "shares_at p (st\<lparr>rs_rep_a := a\<rparr>) = shares_at p st" "shares_at p (st\<lparr>rs_rep_b := a\<rparr>) = shares_at p st"
  "shares_at p (st\<lparr>rs_sigma := a\<rparr>) = shares_at p st" "shares_at p (st\<lparr>rs_lambda_and := la\<rparr>) = shares_at p st"
  "shares_at p (st\<lparr>rs_mitc := m\<rparr>) = shares_at p st" "shares_at p (st\<lparr>rs_wire_slot := a\<rparr>) = shares_at p st"
  "shares_at p (st\<lparr>rs_label_slot := b\<rparr>) = shares_at p st" "shares_at p (st\<lparr>rs_mask_input := la\<rparr>) = shares_at p st"
  by (simp_all add: shares_at_def fun_eq_iff)

lemma resize_length [simp]: "length (resize n xs) = n"
  by (simp add: resize_def)

lemma resize_nth: "i < length xs \<Longrightarrow> i < n \<Longrightarrow> resize n xs ! i = xs ! i"
  by (simp add: resize_def nth_append)

lemma shares_restart:
  assumes "slots_ready p st" "shares_at p st V i xs"
  shows "shares_at p st V 0 xs"
  using assms by (intro shares_start) (auto simp: shares_at_def holds_at_def kept_def)

lemma liveness_num_ands:
  "prog_ok p \<Longrightarrow> sw_len inp = pr_num_inputs p \<Longrightarrow> rs_num_ands (liveness_pass p (run_state_new party d inp)) = num_ands p"
  using liveness_pass_spec [of p "run_state_new party d inp"] by (auto simp: run_state_new_def)

lemma prepare_side:
  assumes ok: "prog_ok p" and len: "sw_len inp = pr_num_inputs p" "length (sw_bundle inp) = pr_num_inputs p"
    and draws: "[] \<notin> set draws" "num_ands p \<le> length (concat draws)"
    and W: "W = wire_shares p (concat draws) (sw_bundle inp)"
  shows "\<exists>st. slot_mask_pass p draws (liveness_pass p (run_state_new party d inp)) = Inr st
     \<and> slots_ready p st \<and> rs_party st = party \<and> rs_delta st = d \<and> rs_num_ands st = num_ands p
     \<and> rs_rep_a st = map (\<lambda>j. W ! ag_in0 (pr_gates p ! j)) (and_gates p (length (pr_gates p)))
     \<and> rs_rep_b st = map (\<lambda>j. W ! ag_in1 (pr_gates p ! j)) (and_gates p (length (pr_gates p)))
     \<and> shares_at p st W 0 (rs_wire_slot st)
     \<and> (\<forall>V. (\<forall>w < pr_num_inputs p. V ! w = sw_lambda inp ! w) \<longrightarrow> holds_at p st V 0 (rs_mask_input st))
     \<and> (\<forall>V. party = Alice \<and> length (sw_label0 inp) = pr_num_inputs p \<and> (\<forall>w < pr_num_inputs p. V ! w = sw_label0 inp ! w) \<longrightarrow> holds_at p st V 0 (rs_label_slot st))
     \<and> (\<forall>V. party = Bob \<and> length (sw_eval inp) = pr_num_inputs p \<and> (\<forall>w < pr_num_inputs p. V ! w = sw_eval inp ! w) \<longrightarrow> holds_at p st V 0 (rs_eval_slot st))"
proof -
  let ?n = "length (pr_gates p)"
  define st0 where "st0 = run_state_new party d inp"
  obtain pe lu where st1: "liveness_pass p st0 = st0\<lparr>rs_num_wires := pr_num_wires p, rs_num_ands := num_ands p, rs_last_use := lu, rs_persist := pe\<rparr>"
    and lo: "liveness_ok p pe lu"
    using liveness_pass_spec [OF ok, of st0] by (auto simp: st0_def run_state_new_def len)
  define st where "st = liveness_pass p st0"
  have s: "rs_persist st = pe" "rs_last_use st = lu" "rs_num_inputs st = pr_num_inputs p" "rs_num_slots st = pr_num_inputs p"
    "rs_wire_slot st = sw_bundle inp" "rs_mask_input st = sw_lambda inp" "rs_party st = party" "rs_delta st = d" "rs_num_ands st = num_ands p"
    "rs_label_slot st = sw_label0 inp" "rs_eval_slot st = sw_eval inp" "length (rs_mask_input st) = pr_num_inputs p"
    using len unfolding st_def st1 by (simp_all add: st0_def run_state_new_def sw_len_def)
  obtain phys S ws ms where run: "slot_mask_pass p draws st = Inr (
       let t = st\<lparr>rs_phys := phys, rs_num_slots := S, rs_wire_slot := ws, rs_mask_input := ms,
           rs_rep_a := map (\<lambda>j. W ! ag_in0 (pr_gates p ! j)) (and_gates p ?n),
           rs_rep_b := map (\<lambda>j. W ! ag_in1 (pr_gates p ! j)) (and_gates p ?n)\<rparr>
       in if rs_party st = Alice then t\<lparr>rs_label_slot := resize S (rs_label_slot st)\<rparr> else t\<lparr>rs_eval_slot := resize S (rs_eval_slot st)\<rparr>)"
     and lay: "layout p pe lu phys S" and l: "length ws = S" "length ms = S"
     and k: "\<forall>w < pr_num_wires p. pe ! w \<longrightarrow> ws ! (phys ! w) = W ! w" and mi: "\<forall>w < pr_num_inputs p. ms ! w = sw_lambda inp ! w"
    using slot_mask_pass_spec [OF ok _ s(3,4) _ s(12) draws, of W] s lo len W by auto
  define t where "t = (let t = st\<lparr>rs_phys := phys, rs_num_slots := S, rs_wire_slot := ws, rs_mask_input := ms,
           rs_rep_a := map (\<lambda>j. W ! ag_in0 (pr_gates p ! j)) (and_gates p ?n),
           rs_rep_b := map (\<lambda>j. W ! ag_in1 (pr_gates p ! j)) (and_gates p ?n)\<rparr>
       in if rs_party st = Alice then t\<lparr>rs_label_slot := resize S (rs_label_slot st)\<rparr> else t\<lparr>rs_eval_slot := resize S (rs_eval_slot st)\<rparr>)"
  have f: "rs_persist t = pe" "rs_last_use t = lu" "rs_phys t = phys" "rs_num_slots t = S" "rs_wire_slot t = ws" "rs_mask_input t = ms"
    "rs_party t = party" "rs_delta t = d" "rs_num_ands t = num_ands p"
    "rs_rep_a t = map (\<lambda>j. W ! ag_in0 (pr_gates p ! j)) (and_gates p ?n)" "rs_rep_b t = map (\<lambda>j. W ! ag_in1 (pr_gates p ! j)) (and_gates p ?n)"
    "party = Alice \<Longrightarrow> rs_label_slot t = resize S (sw_label0 inp)" "party = Bob \<Longrightarrow> rs_eval_slot t = resize S (sw_eval inp)"
    using s by (simp_all add: t_def Let_def)
  have r: "slots_ready p t" using ok lo lay by (simp add: slots_ready_def f)
  have nS: "pr_num_inputs p \<le> S" using lay by (simp add: layout_def)
  have "holds_at p t V 0 (rs_mask_input t)" if "\<forall>w < pr_num_inputs p. V ! w = sw_lambda inp ! w" for V
    by (rule holds_start [OF r]) (use that mi l in \<open>simp_all add: f\<close>)
  moreover have "holds_at p t V 0 (rs_label_slot t)"
    if "party = Alice \<and> length (sw_label0 inp) = pr_num_inputs p \<and> (\<forall>w < pr_num_inputs p. V ! w = sw_label0 inp ! w)" for V
    by (rule holds_start [OF r]) (use that nS in \<open>simp_all add: f resize_nth\<close>)
  moreover have "holds_at p t V 0 (rs_eval_slot t)"
    if "party = Bob \<and> length (sw_eval inp) = pr_num_inputs p \<and> (\<forall>w < pr_num_inputs p. V ! w = sw_eval inp ! w)" for V
    by (rule holds_start [OF r]) (use that nS in \<open>simp_all add: f resize_nth\<close>)
  moreover have "shares_at p t W 0 (rs_wire_slot t)" by (rule shares_start [OF r]) (use k l in \<open>simp_all add: f\<close>)
  moreover have "slot_mask_pass p draws (liveness_pass p (run_state_new party d inp)) = Inr t"
    using run unfolding st_def st0_def t_def .
  ultimately show ?thesis using r f(7-11) by blast
qed

lemma verify_bundles:
  "verify_share_relation A dA B dB \<longleftrightarrow> length B = length A \<and> (\<forall>i < length A. bundle_rel dA dB (A ! i) (B ! i))"
  unfolding verify_share_relation_vec rel_vec_def rel2_def bundle_rel_def by auto

lemma wire_shares_rel:
  assumes ok: "prog_ok p" and ins: "length insA = pr_num_inputs p" "length insB = pr_num_inputs p"
    and ri: "\<And>w. w < pr_num_inputs p \<Longrightarrow> bundle_rel dA dB (insA ! w) (insB ! w)"
    and rd: "\<And>k. k < num_ands p \<Longrightarrow> bundle_rel dA dB (DA ! k) (DB ! k)"
  shows "w < pr_num_wires p \<Longrightarrow> bundle_rel dA dB (wire_shares p DA insA ! w) (wire_shares p DB insB ! w)"
proof (induction w rule: less_induct)
  case (less w)
  show ?case
  proof (cases "w < pr_num_inputs p")
    case True
    then show ?thesis using ri ins by (simp add: wire_shares_input)
  next
    case False
    define i where "i = w - pr_num_inputs p"
    have w: "w = gate_out p i" "i < length (pr_gates p)" using False less.prems ok by (simp_all add: i_def gate_out_def prog_ok_def)
    note pk = prog_okD [OF ok w(2)]
    show ?thesis
    proof (cases "ag_typ (pr_gates p ! i)")
      case AgAnd
      then show ?thesis using rd ac_less [OF w(2)] wire_shares_gate [OF ok ins(1) w(2)] wire_shares_gate [OF ok ins(2) w(2)]
        by (simp add: w Let_def)
    next
      case AgXor
      have "bundle_rel dA dB (wire_shares p DA insA ! ag_in0 (pr_gates p ! i)) (wire_shares p DB insB ! ag_in0 (pr_gates p ! i))"
        "bundle_rel dA dB (wire_shares p DA insA ! ag_in1 (pr_gates p ! i)) (wire_shares p DB insB ! ag_in1 (pr_gates p ! i))"
        using less.IH pk AgXor w by auto
      then show ?thesis using AgXor wire_shares_gate [OF ok ins(1) w(2)] wire_shares_gate [OF ok ins(2) w(2)]
        by (simp add: w Let_def bundle_rel_xor)
    next
      case AgInv
      have "bundle_rel dA dB (wire_shares p DA insA ! ag_in0 (pr_gates p ! i)) (wire_shares p DB insB ! ag_in0 (pr_gates p ! i))"
        using less.IH pk w by auto
      then show ?thesis using AgInv wire_shares_gate [OF ok ins(1) w(2)] wire_shares_gate [OF ok ins(2) w(2)]
        by (simp add: w Let_def)
    qed
  qed
qed

section \<open>The run of a program\<close>

definition values_ok :: "block \<Rightarrow> block \<Rightarrow> bool list \<Rightarrow> secure_wires \<Rightarrow> secure_wires \<Rightarrow> bool" where
  \<comment> \<open>the two sides hold the bits \<open>x\<close>: shared masks, the evaluator's masked bits, the garbler's labels and
    the evaluator's active labels\<close>
  "values_ok dA dB x a b \<longleftrightarrow> sw_len a = length x \<and> length (sw_bundle a) = length x \<and> length (sw_label0 a) = length x
     \<and> verify_share_relation (sw_bundle a) dA (sw_bundle b) dB
     \<and> sw_lambda b = map (\<lambda>i. of_bool (x ! i \<noteq> share_value (sw_bundle a) (sw_bundle b) i)) [0..<length x]
     \<and> sw_eval b = map (\<lambda>i. sw_label0 a ! i XOR sel (x ! i \<noteq> share_value (sw_bundle a) (sw_bundle b) i) dA) [0..<length x]"

definition wires_ok :: "block \<Rightarrow> block \<Rightarrow> bool list \<Rightarrow> secure_wires \<Rightarrow> secure_wires \<Rightarrow> bool" where
  \<comment> \<open>and the garbler knows the masked bits too\<close>
  "wires_ok dA dB x a b \<longleftrightarrow> values_ok dA dB x a b \<and> sw_lambda a = sw_lambda b"

definition protocols_ok :: "protocol \<Rightarrow> protocol \<Rightarrow> bool" where
  "protocols_ok prA prB \<longleftrightarrow> ap_party prA = Alice \<and> ap_party prB = Bob \<and> pools_ok (ap_pool prA) (ap_pool prB)
     \<and> ap_delta prA = tp_delta (ap_pool prA) \<and> ap_delta prB = tp_delta (ap_pool prB) \<and> bit (ap_delta prA) 1"

definition env_ok :: "nat \<Rightarrow> protocol \<Rightarrow> protocol \<Rightarrow> run_env \<Rightarrow> bool" where
  \<comment> \<open>the shares drawn and the correlated OTs are right, for \<open>n\<close> AND gates\<close>
  "env_ok n prA prB env \<longleftrightarrow> [] \<notin> set (en_drawsA env) \<and> [] \<notin> set (en_drawsB env) \<and> n \<le> length (concat (en_drawsA env))
     \<and> verify_share_relation (concat (en_drawsA env)) (ap_delta prA) (concat (en_drawsB env)) (ap_delta prB)
     \<and> vec_rel n (ap_pool prA) (ap_pool prB) (fst (en_cots env)) (snd (en_cots env))
     \<and> (\<forall>(sacA, sacB, r) \<in> set (en_layers env). r < n \<and> vec_rel (3 * n) (ap_pool prA) (ap_pool prB) sacA sacB)"

lemma prog_ok_in_range: "prog_ok p \<Longrightarrow> prog_in_range p"
  by (auto simp: prog_ok_def prog_in_range_def list_all_length nth_enumerate_eq list_all_iff)

lemma share_value_shared: "share_value A B i = shared (A ! i) (B ! i)"
  by (simp add: share_value_def shared_def)

lemma protocols_ok_pools:
  assumes "protocols_ok prA prB" "pools_ok poolA poolB" "tp_delta poolA = ap_delta prA" "tp_delta poolB = ap_delta prB"
  shows "protocols_ok (flush_cot_check (prA\<lparr>ap_pool := poolA\<rparr>)) (flush_cot_check (prB\<lparr>ap_pool := poolB\<rparr>))"
    and "ap_delta (flush_cot_check (prA\<lparr>ap_pool := poolA\<rparr>)) = ap_delta prA" "ap_delta (flush_cot_check (prB\<lparr>ap_pool := poolB\<rparr>)) = ap_delta prB"
  using assms by (auto simp: protocols_ok_def flush_cot_check_def mark_cot_check_flushed_def pools_ok_def)

lemma run_spec:
  assumes ok: "prog_ok p" and pr: "protocols_ok prA prB" and x: "length x = pr_num_inputs p"
    and inp: "wires_ok (ap_delta prA) (ap_delta prB) x inA inB" and env: "env_ok (num_ands p) prA prB env"
  shows "\<exists>prA' prB' outA outB. run_program aes sha256 env p (prA, inA) (prB, inB) = Inr ((prA', outA), (prB', outB))
     \<and> protocols_ok prA' prB' \<and> ap_delta prA' = ap_delta prA \<and> ap_delta prB' = ap_delta prB
     \<and> values_ok (ap_delta prA) (ap_delta prB) (prog_eval p x) outA outB
     \<and> (0 < num_ands p \<longrightarrow> wires_ok (ap_delta prA) (ap_delta prB) (prog_eval p x) outA outB)"
proof -
  let ?n = "length (pr_gates p)" let ?dA = "ap_delta prA" and ?dB = "ap_delta prB"
  define X where "X = prog_wires (pr_gates p) x"
  define WA where "WA = wire_shares p (concat (en_drawsA env)) (sw_bundle inA)"
  define WB where "WB = wire_shares p (concat (en_drawsB env)) (sw_bundle inB)"
  define M where "M = mask_bits WA WB X"
  note io = inp [unfolded wires_ok_def values_ok_def]
  have vi: "length (sw_bundle inB) = pr_num_inputs p" "\<And>w. w < pr_num_inputs p \<Longrightarrow> bundle_rel ?dA ?dB (sw_bundle inA ! w) (sw_bundle inB ! w)"
    using io x unfolding verify_bundles by auto
  have iA: "sw_len inA = pr_num_inputs p" "length (sw_bundle inA) = pr_num_inputs p" "length (sw_label0 inA) = pr_num_inputs p"
    using io x by auto
  have lB: "sw_lambda inB = map (\<lambda>i. of_bool (x ! i \<noteq> shared (sw_bundle inA ! i) (sw_bundle inB ! i))) [0..<pr_num_inputs p]"
    and lAB: "sw_lambda inA = sw_lambda inB"
    and eB: "sw_eval inB = map (\<lambda>i. sw_label0 inA ! i XOR sel (x ! i \<noteq> shared (sw_bundle inA ! i) (sw_bundle inB ! i)) ?dA) [0..<pr_num_inputs p]"
    using io x by (simp_all add: share_value_shared)
  have iB: "sw_len inB = pr_num_inputs p" "length (sw_eval inB) = pr_num_inputs p" using lB eB by (simp_all add: sw_len_def)
  have pA: "ap_party prA = Alice" "ap_party prB = Bob" "pools_ok (ap_pool prA) (ap_pool prB)" "?dA = tp_delta (ap_pool prA)"
    "?dB = tp_delta (ap_pool prB)" "bit ?dA 1" using pr unfolding protocols_ok_def by blast+
  have dr: "[] \<notin> set (en_drawsA env)" "[] \<notin> set (en_drawsB env)" "num_ands p \<le> length (concat (en_drawsA env))"
     "length (concat (en_drawsB env)) = length (concat (en_drawsA env))"
     "\<And>k. k < num_ands p \<Longrightarrow> bundle_rel ?dA ?dB (concat (en_drawsA env) ! k) (concat (en_drawsB env) ! k)"
    using env unfolding env_ok_def verify_bundles by auto
  have rel: "bundle_rel ?dA ?dB (WA ! w) (WB ! w)" if "w < pr_num_wires p" for w
    unfolding WA_def WB_def by (rule wire_shares_rel [OF ok iA(2) vi(1) vi(2) dr(5) that])
  obtain stA where A: "slot_mask_pass p (en_drawsA env) (liveness_pass p (run_state_new Alice ?dA inA)) = Inr stA"
     "slots_ready p stA" "rs_party stA = Alice" "rs_delta stA = ?dA" "rs_num_ands stA = num_ands p"
     "rs_rep_a stA = map (\<lambda>j. WA ! ag_in0 (pr_gates p ! j)) (and_gates p ?n)"
     "rs_rep_b stA = map (\<lambda>j. WA ! ag_in1 (pr_gates p ! j)) (and_gates p ?n)"
     "shares_at p stA WA 0 (rs_wire_slot stA)"
     "\<And>V. (\<forall>w < pr_num_inputs p. V ! w = sw_lambda inA ! w) \<Longrightarrow> holds_at p stA V 0 (rs_mask_input stA)"
     "\<And>V. (\<forall>w < pr_num_inputs p. V ! w = sw_label0 inA ! w) \<Longrightarrow> holds_at p stA V 0 (rs_label_slot stA)"
    using prepare_side [OF ok iA(1,2) dr(1,3) WA_def, where party = Alice and d = ?dA] iA(3) by blast
  obtain stB where B: "slot_mask_pass p (en_drawsB env) (liveness_pass p (run_state_new Bob ?dB inB)) = Inr stB"
     "slots_ready p stB" "rs_party stB = Bob" "rs_delta stB = ?dB" "rs_num_ands stB = num_ands p"
     "rs_rep_a stB = map (\<lambda>j. WB ! ag_in0 (pr_gates p ! j)) (and_gates p ?n)"
     "rs_rep_b stB = map (\<lambda>j. WB ! ag_in1 (pr_gates p ! j)) (and_gates p ?n)"
     "shares_at p stB WB 0 (rs_wire_slot stB)"
     "\<And>V. (\<forall>w < pr_num_inputs p. V ! w = sw_lambda inB ! w) \<Longrightarrow> holds_at p stB V 0 (rs_mask_input stB)"
     "\<And>V. (\<forall>w < pr_num_inputs p. V ! w = sw_eval inB ! w) \<Longrightarrow> holds_at p stB V 0 (rs_eval_slot stB)"
    using prepare_side [OF ok iB(1) vi(1) dr(2) _ WB_def, where party = Bob and d = ?dB] iB(2) dr(3,4) by metis
  have ag: "length (and_gates p ?n) = num_ands p" by (simp add: length_and_gates ac_all)
  have agi: "j < length (pr_gates p) \<and> ag_typ (pr_gates p ! j) = AgAnd" if "j \<in> set (and_gates p ?n)" for j
    using that by (auto simp: and_gates_def)
  define poolA0 where "poolA0 = (if num_ands p > 0 then mark_cots_minted (ap_pool prA) else ap_pool prA)"
  define poolB0 where "poolB0 = (if num_ands p > 0 then mark_cots_minted (ap_pool prB) else ap_pool prB)"
  have p0: "pools_ok poolA0 poolB0" "tp_delta poolA0 = ?dA" "tp_delta poolB0 = ?dB"
    using pA by (simp_all add: poolA0_def poolB0_def)
  have in01: "ag_in0 (pr_gates p ! (and_gates p ?n ! k)) < pr_num_wires p" "ag_in1 (pr_gates p ! (and_gates p ?n ! k)) < pr_num_wires p"
    if "k < num_ands p" for k
    using agi [of "and_gates p ?n ! k"] prog_okD [OF ok, of "and_gates p ?n ! k"] that ag by fastforce+
  have va: "verify_share_relation (rs_rep_a stA) (tp_delta poolA0) (rs_rep_a stB) (tp_delta poolB0)"
    "verify_share_relation (rs_rep_b stA) (tp_delta poolA0) (rs_rep_b stB) (tp_delta poolB0)"
    unfolding verify_bundles A(6,7) B(6,7) p0 using rel in01 by (simp_all add: ag)
  have lr: "length (rs_rep_a stA) = num_ands p" "length (rs_rep_b stA) = length (rs_rep_a stA)" using ag by (simp_all add: A)
  have cots: "vec_rel (length (rs_rep_a stA)) poolA0 poolB0 (fst (en_cots env)) (snd (en_cots env))"
    "\<forall>(sacA, sacB, r) \<in> set (en_layers env). r < length (rs_rep_a stA) \<and> vec_rel (3 * length (rs_rep_a stA)) poolA0 poolB0 sacA sacB"
    using env unfolding env_ok_def lr p0 pA(4,5) by blast+
  obtain poolA1 poolB1 sgA sgB where C: "compute_inplace_owned aes sha256 (en_nonce env) (en_bucket env) (en_cots env) (en_layers env) poolA0 poolB0
       (rs_rep_a stA, rs_rep_b stA) (rs_rep_a stB, rs_rep_b stB) = Inr ((poolA1, sgA), (poolB1, sgB))"
     "pools_ok poolA1 poolB1" "tp_delta poolA1 = ?dA" "tp_delta poolB1 = ?dB" "length sgA = num_ands p"
     "verify_share_relation sgA ?dA sgB ?dB"
     "\<forall>i < num_ands p. share_value sgA sgB i \<longleftrightarrow> share_value (rs_rep_a stA) (rs_rep_a stB) i \<and> share_value (rs_rep_b stA) (rs_rep_b stB) i"
    using compute_run [OF p0(1) va lr(2) cots, of aes sha256 "en_nonce env" "en_bucket env"] unfolding lr p0 by blast
  have so: "sides_ok p ?dA ?dB WA WB sgA sgB"
    unfolding sides_ok_def
  proof (intro conjI allI impI)
    fix i assume i: "i < ?n" "ag_typ (pr_gates p ! i) = AgAnd"
    have k: "ac p i < num_ands p" "and_gates p ?n ! ac p i = i" using and_gates_nth [OF i(1) order_refl i(2)] ag by auto
    show "bundle_rel ?dA ?dB (sgA ! ac p i) (sgB ! ac p i)" using C(5,6) k by (simp add: verify_bundles)
    show "shared (sgA ! ac p i) (sgB ! ac p i) = (shared (WA ! ag_in0 (pr_gates p ! i)) (WB ! ag_in0 (pr_gates p ! i))
               \<and> shared (WA ! ag_in1 (pr_gates p ! i)) (WB ! ag_in1 (pr_gates p ! i)))"
      using C(7) k ag by (simp add: share_value_shared A B)
  qed (use rel pA in simp_all)
  define m0 where "m0 = mitccrh_new (en_seed env)"
  define L where "L = labels aes p ?dA WA sgA m0 (sw_label0 inA)"
  define E where "E = actives ?dA L M"
  define T where "T = tables aes p ?dA WA m0 L"
  have lX: "length X = pr_num_wires p" using ok x by (simp add: X_def prog_ok_def)
  have lM: "length M = pr_num_wires p" "length L = pr_num_wires p" using ok lX iA(3) by (simp_all add: M_def mask_bits_def L_def labels_def prog_ok_def)
  have Mw: "M ! w = (X ! w \<noteq> shared (WA ! w) (WB ! w))" if "w < pr_num_wires p" for w using that by (simp add: M_def mask_bits_def lX)
  have nw: "pr_num_inputs p \<le> pr_num_wires p" using ok by (simp add: prog_ok_def)
  have Mi: "masks M ! w = sw_lambda inB ! w" if "w < pr_num_inputs p" for w
    using that nw x iA(2) vi(1) by (simp add: masks_def lM Mw lB X_def prog_wires_prefix WA_def WB_def wire_shares_input)
  have Li: "L ! w = sw_label0 inA ! w" if "w < pr_num_inputs p" for w using that iA(3) by (simp add: L_def labels_input)
  have Ei: "E ! w = sw_eval inB ! w" if "w < pr_num_inputs p" for w
    using that nw x iA(2) vi(1) by (simp add: E_def actives_nth lM Mw eB Li X_def prog_wires_prefix WA_def WB_def wire_shares_input)
  define stA1 where "stA1 = stA\<lparr>rs_rep_a := [], rs_rep_b := [], rs_sigma := sgA,
                      rs_lambda_and := replicate (max (rs_num_ands stA) 1) 0, rs_mitc := m0\<rparr>"
  define stB1 where "stB1 = stB\<lparr>rs_rep_a := [], rs_rep_b := [], rs_sigma := sgB,
                      rs_lambda_and := replicate (max (rs_num_ands stB) 1) 0, rs_mitc := m0\<rparr>"
  have a1: "slots_ready p stA1" "rs_delta stA1 = ?dA" "rs_sigma stA1 = sgA" "rs_mitc stA1 = m0" "rs_num_ands stA1 = num_ands p"
     "shares_at p stA1 WA 0 (rs_wire_slot stA1)" "holds_at p stA1 L 0 (rs_label_slot stA1)" "holds_at p stA1 (masks M) 0 (rs_mask_input stA1)"
     "rs_party stA1 = Alice"
    using A Li Mi lAB by (simp_all add: stA1_def)
  have b1: "slots_ready p stB1" "rs_delta stB1 = ?dB" "rs_sigma stB1 = sgB" "rs_mitc stB1 = m0" "rs_num_ands stB1 = num_ands p"
     "shares_at p stB1 WB 0 (rs_wire_slot stB1)" "holds_at p stB1 E 0 (rs_eval_slot stB1)" "holds_at p stB1 (masks M) 0 (rs_mask_input stB1)"
     "rs_party stB1 = Bob" "length (rs_lambda_and stB1) = max (num_ands p) 1"
    using B Ei Mi by (simp_all add: stB1_def)
  have mi: "mitccrh_inv m0" by (simp add: m0_def)
  obtain wsA ls mA where GA: "garbler_send aes p stA1 = Inr (stA1\<lparr>rs_wire_slot := wsA, rs_label_slot := ls, rs_mitc := mA\<rparr>, all_chunks T)"
     "shares_at p stA1 WA ?n wsA" "holds_at p stA1 L ?n ls"
    using garbler_send_spec [OF a1(1) _ iA(2,3) WA_def _ a1(6,7), unfolded a1, of aes] mi unfolding L_def T_def by blast
  note ER = evaluator_run_spec [OF b1(1) _ _ b1(5,10) x X_def M_def WA_def iA(2) WB_def vi(1) L_def iA(3) E_def _ T_def b1(6-8), unfolded b1, OF mi refl so]
  obtain wsB es msB la mB where EB: "evaluator_run aes p (all_chunks T) stB1 =
       Inr (stB1\<lparr>rs_wire_slot := wsB, rs_eval_slot := es, rs_mask_input := msB, rs_lambda_and := la, rs_mitc := mB\<rparr>,
            concat (map (\<lambda>j. block_bytes (gamma_at p WA sgA M j)) (and_gates p ?n)))"
     "shares_at p stB1 WB ?n wsB" "holds_at p stB1 E ?n es" "holds_at p stB1 (masks M) ?n msB"
     "0 < num_ands p \<longrightarrow> la = map (\<lambda>j. of_bool (M ! gate_out p j)) (and_gates p ?n)"
    using ER by (elim exE conjE) (rule that)
  define stA2 where "stA2 = stA1\<lparr>rs_wire_slot := wsA, rs_label_slot := ls, rs_mitc := mA\<rparr>"
  define stB2 where "stB2 = stB1\<lparr>rs_wire_slot := wsB, rs_eval_slot := es, rs_mask_input := msB, rs_lambda_and := la, rs_mitc := mB\<rparr>"
  define stA3 where "stA3 = stA2\<lparr>rs_lambda_and := sent_bools la\<rparr>"
  define gam where "gam = concat (map (\<lambda>j. block_bytes (gamma_at p WA sgA M j)) (and_gates p ?n))"
  have a3: "slots_ready p stA3" "rs_sigma stA3 = sgA" "shares_at p stA3 WA 0 (rs_wire_slot stA3)" "holds_at p stA3 (masks M) 0 (rs_mask_input stA3)"
    using a1 shares_restart [OF a1(1) GA(2)] by (simp_all add: stA3_def stA2_def)
  have la3: "0 < num_ands p \<longrightarrow> rs_lambda_and stA3 = map (\<lambda>j. of_bool (M ! gate_out p j)) (and_gates p ?n)"
    using EB(5) by (auto simp: stA3_def intro!: sent_bools)
  obtain wsA' msA where G: "gamma_check_digest sha256 p stA3 = (sha256 gam, stA3\<lparr>rs_wire_slot := wsA', rs_mask_input := msA\<rparr>)"
     "shares_at p stA3 WA ?n wsA'" "holds_at p stA3 (masks M) ?n msA"
    using gamma_check_spec [OF a3(1) la3 x X_def M_def WA_def iA(2) WB_def vi(1) a3(3,4), of sha256] unfolding a3(2) gam_def by blast
  define stA4 where "stA4 = (if num_ands p > 0 then stA3\<lparr>rs_wire_slot := wsA', rs_mask_input := msA\<rparr> else stA2)"
  have checks: "check_secure_wires prA inA = Inr ()" "check_secure_wires prB inB = Inr ()"
    using iA iB vi(1) pA by (simp_all add: check_secure_wires_def)
  have liv: "rs_num_ands (liveness_pass p (run_state_new Alice ?dA inA)) = num_ands p"
    "rs_num_ands (liveness_pass p (run_state_new Bob ?dB inB)) = num_ands p"
    using liveness_num_ands [OF ok] iA iB by auto
  have mk: "(if 0 < num_ands p then prA\<lparr>ap_pool := mark_cots_minted (ap_pool prA)\<rparr> else prA) = prA\<lparr>ap_pool := poolA0\<rparr>"
    "(if 0 < num_ands p then prB\<lparr>ap_pool := mark_cots_minted (ap_pool prB)\<rparr> else prB) = prB\<lparr>ap_pool := poolB0\<rparr>"
    by (simp_all add: poolA0_def poolB0_def)
  have sel: "ap_pool (prA\<lparr>ap_pool := poolA0\<rparr>) = poolA0" "ap_pool (prB\<lparr>ap_pool := poolB0\<rparr>) = poolB0"
    "prA\<lparr>ap_pool := poolA0\<rparr>\<lparr>ap_pool := poolA1\<rparr> = prA\<lparr>ap_pool := poolA1\<rparr>" "prB\<lparr>ap_pool := poolB0\<rparr>\<lparr>ap_pool := poolB1\<rparr> = prB\<lparr>ap_pool := poolB1\<rparr>"
    by simp_all
  have fold: "stA\<lparr>rs_rep_a := [], rs_rep_b := [], rs_sigma := sgA, rs_lambda_and := replicate (max (rs_num_ands stA) 1) 0, rs_mitc := mitccrh_new (en_seed env)\<rparr> = stA1"
    "stB\<lparr>rs_rep_a := [], rs_rep_b := [], rs_sigma := sgB, rs_lambda_and := replicate (max (rs_num_ands stB) 1) 0, rs_mitc := mitccrh_new (en_seed env)\<rparr> = stB1"
    by (simp_all add: stA1_def stB1_def m0_def)
  have last: "(if 0 < rs_num_ands stA2 then case gamma_check_digest sha256 p (stA2\<lparr>rs_lambda_and := sent_bools (rs_lambda_and stB2)\<rparr>) of
       (digest, stA) \<Rightarrow> if sha256 gam \<noteq> digest then Inl FeqMismatch else Inr stA else Inr stA2) = Inr stA4"
    using a1(5) G(1) by (simp add: stA2_def stB2_def stA3_def stA4_def)
  have run: "run_program aes sha256 env p (prA, inA) (prB, inB) =
      Inr ((flush_cot_check (prA\<lparr>ap_pool := poolA1\<rparr>), gather_outputs stA4 p), (flush_cot_check (prB\<lparr>ap_pool := poolB1\<rparr>), gather_outputs stB2 p))"
    unfolding run_program_def prod.case checks bindR_simps Let_def liv mk pA(1,2) A(1) B(1) sel C(1) fold GA(1) EB(1)
      stA2_def [symmetric] stB2_def [symmetric] gam_def [symmetric] last
    using iA(1) iB(1) prog_ok_in_range [OF ok] by simp
  define N where "N = length (pr_outputs p)"
  define o' where "o' i = unat (pr_outputs p ! i)" for i
  have mem: "pr_outputs p ! i \<in> set (pr_outputs p)" if "i < N" for i using that by (simp add: N_def)
  have ow: "o' i < pr_num_wires p" if "i < N" for i using ok mem [OF that] by (auto simp: prog_ok_def o'_def)
  have ph: "rs_phys stA3 = rs_phys stA1" by (simp add: stA3_def stA2_def)
  note e1 = holds_end [OF a1(1) shares_holds [OF GA(2)]] and e2 = holds_end [OF a1(1) GA(3)]
    and e3 = holds_end [OF a3(1) shares_holds [OF G(2)], unfolded ph] and e4 = holds_end [OF a3(1) G(3), unfolded ph]
    and e5 = holds_end [OF b1(1) shares_holds [OF EB(2)]] and e6 = holds_end [OF b1(1) EB(3)] and e7 = holds_end [OF b1(1) EB(4)]
  have gA: "wslot stA4 (o' i) = WA ! o' i" "lbl stA4 (o' i) = L ! o' i" "0 < num_ands p \<Longrightarrow> minp stA4 (o' i) = masks M ! o' i" if "i < N" for i
    using e1 [OF mem [OF that]] e2 [OF mem [OF that]] e3 [OF mem [OF that]] e4 [OF mem [OF that]]
    by (simp_all add: stA4_def stA3_def stA2_def wslot_def lbl_def minp_def slot_def o'_def)
  have gB: "wslot stB2 (o' i) = WB ! o' i" "evl stB2 (o' i) = E ! o' i" "minp stB2 (o' i) = masks M ! o' i" if "i < N" for i
    using e5 [OF mem [OF that]] e6 [OF mem [OF that]] e7 [OF mem [OF that]]
    by (simp_all add: stB2_def wslot_def evl_def minp_def slot_def o'_def)
  have party: "rs_party stA4 = Alice" "rs_party stB2 = Bob" using a1 b1 by (simp_all add: stA4_def stA3_def stA2_def stB2_def)
  have outs: "map f (map unat (pr_outputs p)) = map (\<lambda>i. f (o' i)) [0..<N]" for f :: "nat \<Rightarrow> 'z"
    by (rule nth_equalityI) (simp_all add: N_def o'_def)
  have oA: "sw_bundle (gather_outputs stA4 p) = map (\<lambda>i. WA ! o' i) [0..<N]" "sw_label0 (gather_outputs stA4 p) = map (\<lambda>i. L ! o' i) [0..<N]"
    "0 < num_ands p \<Longrightarrow> sw_lambda (gather_outputs stA4 p) = map (\<lambda>i. masks M ! o' i) [0..<N]" "length (sw_lambda (gather_outputs stA4 p)) = N"
    unfolding gather_outputs_def Let_def outs by (simp_all add: gA party)
  have oB: "sw_bundle (gather_outputs stB2 p) = map (\<lambda>i. WB ! o' i) [0..<N]" "sw_eval (gather_outputs stB2 p) = map (\<lambda>i. E ! o' i) [0..<N]"
    "sw_lambda (gather_outputs stB2 p) = map (\<lambda>i. masks M ! o' i) [0..<N]"
    unfolding gather_outputs_def Let_def outs by (simp_all add: gB party)
  have y: "length (prog_eval p x) = N" "\<And>i. i < N \<Longrightarrow> prog_eval p x ! i = X ! o' i"
    by (simp_all add: prog_eval_def N_def X_def o'_def)
  have vals: "values_ok ?dA ?dB (prog_eval p x) (gather_outputs stA4 p) (gather_outputs stB2 p)"
    unfolding values_ok_def oA oB y(1) sw_len_def verify_bundles
    using rel ow by (simp add: y(2) share_value_shared masks_def lM Mw E_def actives_nth oA(4))
  have "0 < num_ands p \<longrightarrow> wires_ok ?dA ?dB (prog_eval p x) (gather_outputs stA4 p) (gather_outputs stB2 p)"
    using vals oA(3) oB(3) by (simp add: wires_ok_def)
  then show ?thesis using run vals protocols_ok_pools [OF pr C(2-4)] by (intro exI conjI)
qed

section \<open>Inputs\<close>

definition sl :: "nat \<Rightarrow> nat \<Rightarrow> 'a list \<Rightarrow> 'a list" where
  "sl s n xs = take n (drop s xs)"

lemma sl_length [simp]: "length (sl s n xs) = min n (length xs - s)"
  by (simp add: sl_def min.commute)

lemma sl_nth: "s + n \<le> length xs \<Longrightarrow> i < n \<Longrightarrow> sl s n xs ! i = xs ! (s + i)"
  by (simp add: sl_def)

lemma range_of_sl: "s + n \<le> length xs \<Longrightarrow> range_of xs s (s + n) = Inr (sl s n xs)"
  by (simp add: range_of_def sl_def drop_take)

definition wires_sl :: "nat \<Rightarrow> nat \<Rightarrow> secure_wires \<Rightarrow> secure_wires" where
  "wires_sl s n w = \<lparr>sw_lambda = sl s n (sw_lambda w), sw_bundle = sl s n (sw_bundle w),
     sw_label0 = (if sw_label0 w = [] then [] else sl s n (sw_label0 w)), sw_eval = (if sw_eval w = [] then [] else sl s n (sw_eval w))\<rparr>"

lemma sw_slice_sl:
  assumes "s + n \<le> sw_len w" "length (sw_bundle w) = sw_len w" "sw_label0 w = [] \<or> length (sw_label0 w) = sw_len w"
    "sw_eval w = [] \<or> length (sw_eval w) = sw_len w"
  shows "sw_slice w s (s + n) = Inr (wires_sl s n w)"
  using assms range_of_sl [of s n "sw_lambda w"] range_of_sl [of s n "sw_bundle w"] range_of_sl [of s n "sw_label0 w"] range_of_sl [of s n "sw_eval w"]
  by (auto simp: sw_slice_def wires_sl_def sw_len_def)

lemma wires_ok_sl:
  assumes w: "wires_ok dA dB x a b" and le: "s + n \<le> length x"
  shows "wires_ok dA dB (sl s n x) (wires_sl s n a) (wires_sl s n b)"
proof (cases "n = 0")
  case True
  then show ?thesis using w
    by (auto simp: wires_ok_def values_ok_def wires_sl_def sl_def sw_len_def verify_bundles)
next
  case False
  note f = w [unfolded wires_ok_def values_ok_def sw_len_def verify_bundles share_value_shared]
  have lab: "sw_label0 a \<noteq> []" "sw_eval b \<noteq> []" using f False le by auto
  have "length (sw_lambda b) = length x" "length (sw_eval b) = length x" using f by auto
  then show ?thesis using f le lab False
    unfolding wires_ok_def values_ok_def sw_len_def verify_bundles share_value_shared wires_sl_def secure_wires.select_convs
    by (auto simp: sl_nth min_absorb1 intro!: nth_equalityI)
qed

lemma concat_sl: "k < length xs \<Longrightarrow> sl (length (concat (take k xs))) (length (xs ! k)) (concat xs) = xs ! k"
proof (induction xs arbitrary: k)
  case (Cons a xs)
  then show ?case by (cases k) (auto simp: sl_def)
qed simp

lemma concat_take_le: "k < length xs \<Longrightarrow> length (concat (take k xs)) + length (xs ! k) \<le> length (concat xs)"
proof (induction xs arbitrary: k)
  case (Cons a xs)
  then show ?case by (cases k) auto
qed simp

lemma slices_spec:
  assumes w: "sw_len w = length (concat bits)" "length (sw_bundle w) = sw_len w" "sw_label0 w = [] \<or> length (sw_label0 w) = sw_len w"
    "sw_eval w = [] \<or> length (sw_eval w) = sw_len w"
  shows "slices bits w = Inr (map (\<lambda>k. wires_sl (length (concat (take k bits))) (length (bits ! k)) w) [0..<length bits])"
proof -
  have z: "zip (map (\<lambda>k. length (concat (take k bits))) [0..<length bits]) bits = map (\<lambda>k. (length (concat (take k bits)), bits ! k)) [0..<length bits]"
    by (rule nth_equalityI) simp_all
  have "mapR (\<lambda>(start, bits). sw_slice w start (start + length bits)) (zip (map (\<lambda>k. length (concat (take k bits))) [0..<length bits]) bits)
    = Inr (map (\<lambda>(s, b). wires_sl s (length b) w) (zip (map (\<lambda>k. length (concat (take k bits))) [0..<length bits]) bits))"
  proof (rule mapR_all_Inr)
    fix y assume "y \<in> set (zip (map (\<lambda>k. length (concat (take k bits))) [0..<length bits]) bits)"
    then obtain k where k: "k < length bits" "y = (length (concat (take k bits)), bits ! k)" unfolding z by auto
    have "length (concat (take k bits)) + length (bits ! k) \<le> sw_len w" using concat_take_le [OF k(1)] w(1) by simp
    from sw_slice_sl [OF this w(2-4)] show "(case y of (start, bits) \<Rightarrow> sw_slice w start (start + length bits)) = Inr (case y of (s, b) \<Rightarrow> wires_sl s (length b) w)"
      by (simp add: k(2))
  qed
  then show ?thesis unfolding slices_def z by (simp add: o_def)
qed

definition wires_of :: "role list \<Rightarrow> bytes list \<Rightarrow> (role \<times> u8) list" where
  "wires_of owners bits = concat (map (\<lambda>(owner, bits). map (\<lambda>b. (owner, b)) bits) (zip owners bits))"

definition input_bits :: "role list \<Rightarrow> bytes list \<Rightarrow> bytes list \<Rightarrow> bool list list" where
  \<comment> \<open>the bits given: each owner's own\<close>
  "input_bits owners bitsA bitsB = map (\<lambda>(owner, a, b). map (\<lambda>x. bit x 0) (if owner = Alice then a else b)) (zip owners (zip bitsA bitsB))"

lemma wires_of_all:
  assumes "length owners = length bitsA" "length bitsA = length bitsB" "map length bitsA = map length bitsB"
  shows "length (wires_of owners bitsA) = length (concat bitsA) \<and> length (wires_of owners bitsB) = length (concat bitsA)
     \<and> map fst (wires_of owners bitsA) = map fst (wires_of owners bitsB)
     \<and> concat (input_bits owners bitsA bitsB) =
         map2 (\<lambda>(o1, a) (_, b). bit (if o1 = Alice then a else b) 0) (wires_of owners bitsA) (wires_of owners bitsB)
     \<and> map length (input_bits owners bitsA bitsB) = map length bitsA"
  using assms
proof (induction owners bitsA bitsB rule: list_induct3)
  case (Cons ow owners a bitsA b bitsB)
  have l: "length a = length b" using Cons.prems by simp
  then have 1: "map (\<lambda>x. bit x 0) (if ow = Alice then a else b) =
     map2 (\<lambda>(o1, a) (_, b). bit (if o1 = Alice then a else b) 0) (map (Pair ow) a) (map (Pair ow) b)"
    by (auto intro!: nth_equalityI)
  have w: "wires_of (ow # owners) (c # cs) = map (Pair ow) c @ wires_of owners cs" for c cs by (simp add: wires_of_def)
  have x: "input_bits (ow # owners) (a # bitsA) (b # bitsB) = map (\<lambda>x. bit x 0) (if ow = Alice then a else b) # input_bits owners bitsA bitsB"
    by (simp add: input_bits_def)
  show ?case using Cons.IH Cons.prems l unfolding w x concat.simps 1 by (simp add: o_def map_replicate_const)
qed (simp_all add: wires_of_def input_bits_def)

lemmas wires_of_spec = wires_of_all [THEN conjunct1] wires_of_all [THEN conjunct2, THEN conjunct1]
  wires_of_all [THEN conjunct2, THEN conjunct2, THEN conjunct1]
  wires_of_all [THEN conjunct2, THEN conjunct2, THEN conjunct2, THEN conjunct1]
  wires_of_all [THEN conjunct2, THEN conjunct2, THEN conjunct2, THEN conjunct2]

lemma verify_sym: "verify_share_relation A dA B dB \<Longrightarrow> verify_share_relation B dB A dA"
  by (auto simp: verify_bundles bundle_rel_def)

lemma share_value_sym: "share_value B A i = share_value A B i"
  by (auto simp: share_value_def)

lemma prg_blocks_length: "length (fst (prg_random_block aes n g)) = n"
proof -
  have "length (fst (fold (\<lambda>_ (out, g). (out @ [block_make 0 (prg_counter g)], g\<lparr>prg_counter := prg_counter g + 1\<rparr>)) xs (out, g))) = length out + length xs"
    for xs :: "nat list" and out g by (induction xs arbitrary: out g) auto
  from this [of "[0..<n]" "[]" g] show ?thesis by (simp add: prg_random_block_def prp_permute_block_def split_beta Let_def)
qed

text \<open>What a side computes from its own and its peer's input bits.\<close>

lemma open_side:
  fixes mine peer :: "(role \<times> u8) list" and me :: role
  assumes n: "length mine = n" "length peer = n" and own: "map fst mine = map fst peer"
    and rel: "verify_share_relation D d D' d'" "length D = n"
  defines "own \<equiv> map (\<lambda>(r, b). if r = me then b AND 1 else 0) mine"
    and "idx \<equiv> filter (\<lambda>i. fst (mine ! i) \<noteq> me) [0..<n]"
    and "packed \<equiv> map (\<lambda>i. map (\<lambda>(r, b). if r \<noteq> me then b AND 1 else 0) peer ! i) (filter (\<lambda>i. fst (peer ! i) \<noteq> me) [0..<n])"
  shows "finalize_input_open sha256 D own idx (rl_share_bits (reveal_local_share sha256 D')) (rl_mac_digest (reveal_local_share sha256 D')) packed d =
     Inr (map (\<lambda>i. of_bool (bit (snd ((if fst (mine ! i) = me then mine else peer) ! i)) 0 \<noteq> share_value D D' i)) [0..<n])"
proof -
  have fp: "fst (peer ! i) = fst (mine ! i)" if "i < n" for i using own n that by (metis nth_map)
  have pk: "packed = map (\<lambda>i. snd (peer ! i) AND 1) idx"
    unfolding packed_def idx_def using n fp by (auto simp: split_beta intro!: map_cong filter_cong)
  have mo: "map_of (zip idx packed) i = (if i \<in> set idx then Some (snd (peer ! i) AND 1) else None)" for i
    unfolding pk by (simp add: map_of_zip_map)
  have len: "length own = length D" "length packed = length idx" "distinct idx" "\<forall>i \<in> set idx. i < length D"
    using n rel(2) by (auto simp: own_def pk idx_def)
  have "map (\<lambda>i. of_bool (share_value D D' i \<noteq> (bit (own ! i) 0 \<noteq> (case map_of (zip idx packed) i of None \<Rightarrow> False | Some b \<Rightarrow> bit b 0)))) [0..<length D]
     = map (\<lambda>i. (of_bool (bit (snd ((if fst (mine ! i) = me then mine else peer) ! i)) 0 \<noteq> share_value D D' i) :: u8)) [0..<n]"
    unfolding mo using n rel(2) by (auto simp: own_def idx_def split_beta bit_and_iff)
  then show ?thesis using input_open_run [OF rel(1) len, of sha256] by simp
qed

lemma open_inputs_eq:
  "open_inputs pr owners bits = (let w = wires_of owners bits in
     (map (\<lambda>(r, b). if r = ap_party pr then b AND 1 else 0) w,
      map (\<lambda>i. map (\<lambda>(r, b). if r = ap_party pr then b AND 1 else 0) w ! i) (filter (\<lambda>i. fst (w ! i) = ap_party pr) [0..<length w]),
      filter (\<lambda>i. fst (w ! i) \<noteq> ap_party pr) [0..<length w]))"
  by (simp add: open_inputs_def wires_of_def Let_def)

lemma protocols_ok_upd:
  assumes "protocols_ok prA prB"
  shows "protocols_ok (prA\<lparr>ap_process_input_calls := n\<rparr>) (prB\<lparr>ap_process_input_calls := m\<rparr>)"
    "protocols_ok (prA\<lparr>ap_pool := mark_cots_minted (ap_pool prA)\<rparr>) (prB\<lparr>ap_pool := mark_cots_minted (ap_pool prB)\<rparr>)"
    "protocols_ok (prA\<lparr>ap_prg := g\<rparr>) prB"
  using assms by (auto simp: protocols_ok_def)

lemma process_inputs_run:
  assumes pr: "protocols_ok prA prB" and len: "length bitsA = length owners" "map length bitsA = map length bitsB"
    and small: "length (concat bitsA) < 2 ^ 64"
    and draws: "verify_share_relation drawA (ap_delta prA) drawB (ap_delta prB)" "length drawA = length (concat bitsA)"
  shows "\<exists>prA' prB' outA outB. process_inputs aes sha256 drawA drawB owners (prA, bitsA) (prB, bitsB) = Inr ((prA', outA), (prB', outB))
     \<and> protocols_ok prA' prB' \<and> ap_delta prA' = ap_delta prA \<and> ap_delta prB' = ap_delta prB
     \<and> length outA = length owners \<and> length outB = length owners
     \<and> (\<forall>k < length owners. wires_ok (ap_delta prA) (ap_delta prB) (input_bits owners bitsA bitsB ! k) (outA ! k) (outB ! k))"
proof -
  let ?n = "length (concat bitsA)" let ?dA = "ap_delta prA" and ?dB = "ap_delta prB"
  define X where "X = concat (input_bits owners bitsA bitsB)"
  have lb: "length bitsB = length owners" using len by (metis length_map)
  note ws = wires_of_spec [OF len(1) [symmetric] _ len(2)]
  let ?wA = "wires_of owners bitsA" and ?wB = "wires_of owners bitsB"
  have w: "length ?wA = ?n" "length ?wB = ?n" "map fst ?wA = map fst ?wB"
    "X = map2 (\<lambda>(o1, a) (_, b). bit (if o1 = Alice then a else b) 0) ?wA ?wB" "map length (input_bits owners bitsA bitsB) = map length bitsA"
    using ws len lb unfolding X_def by simp_all
  have lX: "length X = ?n" using w by simp
  have il: "length (input_bits owners bitsA bitsB) = length owners" using len lb by (simp add: input_bits_def)
  show ?thesis
  proof (cases "?n = 0")
    case True
    then have e: "concat bitsA = []" by simp
    have ib: "input_bits owners bitsA bitsB ! k = []" if "k < length owners" for k
    proof -
      have "bitsA ! k = []" using e that len(1) by (metis concat_eq_Nil_conv nth_mem)
      then have "length (input_bits owners bitsA bitsB ! k) = 0" using w(5) that len(1) il by (metis list.size(3) nth_map)
      then show ?thesis by simp
    qed
    have "process_inputs aes sha256 drawA drawB owners (prA, bitsA) (prB, bitsB) =
       Inr ((prA\<lparr>ap_process_input_calls := ap_process_input_calls prA + 1\<rparr>, replicate (length owners) default_wires),
            (prB\<lparr>ap_process_input_calls := ap_process_input_calls prB + 1\<rparr>, replicate (length owners) default_wires))"
      using e True len lb by (simp add: process_inputs_def Let_def del: length_concat length_0_conv)
    moreover have "wires_ok ?dA ?dB [] default_wires default_wires"
      by (simp add: wires_ok_def values_ok_def default_wires_def sw_len_def verify_bundles)
    ultimately show ?thesis using protocols_ok_upd(1) [OF pr] ib by (auto simp del: default_wires_def)
  next
    case False
    define prA1 where "prA1 = prA\<lparr>ap_process_input_calls := ap_process_input_calls prA + 1\<rparr>"
    define prB1 where "prB1 = prB\<lparr>ap_process_input_calls := ap_process_input_calls prB + 1\<rparr>"
    define prA2 where "prA2 = prA1\<lparr>ap_pool := mark_cots_minted (ap_pool prA1)\<rparr>"
    define prB2 where "prB2 = prB1\<lparr>ap_pool := mark_cots_minted (ap_pool prB1)\<rparr>"
    obtain label0 prg where rb: "prg_random_block aes ?n (ap_prg prA2) = (label0, prg)" by (cases "prg_random_block aes ?n (ap_prg prA2)")
    have ll: "length label0 = ?n" using prg_blocks_length [of aes ?n "ap_prg prA2"] by (simp add: rb)
    define prA3 where "prA3 = prA2\<lparr>ap_prg := prg\<rparr>"
    have ok3: "protocols_ok prA3 prB2" unfolding prA3_def prA2_def prB2_def prA1_def prB1_def
      using pr by (intro protocols_ok_upd)
    have dl: "ap_delta prA3 = ?dA" "ap_delta prB2 = ?dB" by (simp_all add: prA3_def prA2_def prA1_def prB2_def prB1_def)
    have party: "ap_party prA3 = Alice" "ap_party prB2 = Bob" using ok3 by (simp_all add: protocols_ok_def)
    have nb: "(r :: role) \<noteq> Alice \<longleftrightarrow> r = Bob" "r \<noteq> Bob \<longleftrightarrow> r = Alice" for r by (cases r; simp)+
    define lamA where "lamA = map (\<lambda>i. (of_bool (X ! i \<noteq> share_value drawA drawB i) :: u8)) [0..<?n]"
    have Xi: "X ! i = bit (snd ((if fst (?wA ! i) = Alice then ?wA else ?wB) ! i)) 0" if "i < ?n" for i
      unfolding w(4) using that w(1,2) by (simp add: split_beta)
    have fi: "fst (?wB ! i) = fst (?wA ! i)" if "i < ?n" for i using w(1-3) that by (metis nth_map)
    note oA = open_side [OF w(1,2,3) draws(1) draws(2), where me = Alice and ?sha256.0 = sha256, unfolded nb]
    note oB = open_side [OF w(2,1) w(3) [symmetric] verify_sym [OF draws(1)], where me = Bob and ?sha256.0 = sha256, unfolded nb]
    have lB: "length drawB = ?n" using draws by (simp add: verify_bundles)
    have mA: "map (\<lambda>i. of_bool (bit (snd ((if fst (?wA ! i) = Alice then ?wA else ?wB) ! i)) 0 \<noteq> share_value drawA drawB i)) [0..<?n] = lamA"
      unfolding lamA_def using Xi by (intro map_cong refl) simp
    have mB: "map (\<lambda>i. of_bool (bit (snd ((if fst (?wB ! i) = Bob then ?wB else ?wA) ! i)) 0 \<noteq> share_value drawB drawA i)) [0..<?n] = lamA"
      unfolding lamA_def using Xi fi by (intro map_cong refl) (auto simp: share_value_sym nb)
    define swA where "swA = \<lparr>sw_lambda = lamA, sw_bundle = drawA, sw_label0 = label0, sw_eval = []\<rparr>"
    define swB where "swB = \<lparr>sw_lambda = lamA, sw_bundle = drawB, sw_label0 = [],
       sw_eval = map (\<lambda>(label0, lambda). label0 XOR (select_block lambda AND ?dA)) (zip label0 lamA)\<rparr>"
    define outA where "outA = map (\<lambda>k. wires_sl (length (concat (take k bitsA))) (length (bitsA ! k)) swA) [0..<length bitsA]"
    define outB where "outB = map (\<lambda>k. wires_sl (length (concat (take k bitsB))) (length (bitsB ! k)) swB) [0..<length bitsB]"
    have lc: "length (concat bitsB) = ?n" using len(2) by (simp add: length_concat)
    have sA: "slices bitsA swA = Inr outA" unfolding outA_def
      by (rule slices_spec) (use draws(2) ll in \<open>simp_all add: swA_def sw_len_def lamA_def\<close>)
    have sB: "slices bitsB swB = Inr outB" unfolding outB_def
      by (rule slices_spec) (use lB ll lc in \<open>simp_all add: swB_def sw_len_def lamA_def\<close>)
    have wok: "wires_ok ?dA ?dB X swA swB"
      using draws ll lX by (auto simp: wires_ok_def values_ok_def swA_def swB_def sw_len_def lamA_def intro!: nth_equalityI)
    have run: "process_inputs aes sha256 drawA drawB owners (prA, bitsA) (prB, bitsB) = Inr ((prA3, outA), (prB2, outB))"
      using False small len lb
      unfolding process_inputs_def prod.case Let_def
        prA1_def [symmetric] prB1_def [symmetric] prA2_def [symmetric] prB2_def [symmetric] rb prA3_def [symmetric] open_inputs_eq party w(1,2) dl nb
        oA oB [OF lB] mA mB mapErr_simps bindR_simps swA_def [symmetric] swB_def [symmetric] sA sB
      by auto
    have "wires_ok ?dA ?dB (input_bits owners bitsA bitsB ! k) (outA ! k) (outB ! k)" if k: "k < length owners" for k
    proof -
      let ?s = "length (concat (take k bitsA))" and ?m = "length (bitsA ! k)"
      have e: "map length (take k (input_bits owners bitsA bitsB)) = map length (take k bitsA)" "map length (take k bitsB) = map length (take k bitsA)"
        using w(5) len(2) by (metis take_map)+
      have ss: "length (concat (take k (input_bits owners bitsA bitsB))) = ?s" "length (concat (take k bitsB)) = ?s" using e by (simp_all add: length_concat)
      have mm: "length (input_bits owners bitsA bitsB ! k) = ?m" "length (bitsB ! k) = ?m" using w(5) len lb il k by (metis nth_map)+
      have sx: "sl ?s ?m X = input_bits owners bitsA bitsB ! k"
        using concat_sl [of k "input_bits owners bitsA bitsB"] k il ss mm by (simp add: X_def)
      have "?s + ?m \<le> length X" using concat_take_le [of k bitsA] k len(1) lX by simp
      from wires_ok_sl [OF wok this] show ?thesis using k len lb by (simp add: outA_def outB_def ss mm sx)
    qed
    then show ?thesis using run ok3 dl len lb by (auto simp: outA_def outB_def)
  qed
qed

section \<open>Public wires and outputs\<close>

lemma public_wires_ok:
  assumes "protocols_ok prA prB"
  shows "wires_ok (ap_delta prA) (ap_delta prB) (map (\<lambda>b. bit b 0) bits) (public_wires prA bits) (public_wires prB bits)"
  using assms
  by (auto simp: protocols_ok_def wires_ok_def values_ok_def public_wires_def sw_len_def verify_bundles bundle_rel_def default_bundle_def
      share_value_def block_zero_def and_1_eq_of_bool Let_def intro!: nth_equalityI)

definition masked_ok :: "block \<Rightarrow> block \<Rightarrow> bool list \<Rightarrow> secure_wires \<Rightarrow> secure_wires \<Rightarrow> bool" where
  \<comment> \<open>without the labels: what is needed to open the bits \<open>x\<close>\<close>
  "masked_ok dA dB x a b \<longleftrightarrow> sw_len a = length x \<and> length (sw_bundle a) = length x
     \<and> verify_share_relation (sw_bundle a) dA (sw_bundle b) dB
     \<and> sw_lambda b = map (\<lambda>i. of_bool (x ! i \<noteq> share_value (sw_bundle a) (sw_bundle b) i)) [0..<length x]"

lemma values_masked: "values_ok dA dB x a b \<Longrightarrow> masked_ok dA dB x a b"
  by (simp add: values_ok_def masked_ok_def)

lemma masked_strip [simp]: "masked_ok dA dB x (strip_labels_for_reveal a) (strip_labels_for_reveal b) = masked_ok dA dB x a b"
  by (simp add: masked_ok_def strip_labels_for_reveal_def sw_len_def)

lemma reveal_to_bob:
  assumes "masked_ok dA dB x a b"
  shows "reveal_recipient_bits sha256 (sw_lambda b) (sw_bundle b) (rl_share_bits (reveal_local_share sha256 (sw_bundle a)))
     (rl_mac_digest (reveal_local_share sha256 (sw_bundle a))) dB = Inr (map of_bool x)"
proof -
  note v = assms [unfolded masked_ok_def]
  have len: "length (sw_lambda b) = length (sw_bundle b)" "length (sw_bundle b) = length x" using v by (auto simp: verify_bundles)
  have rel: "verify_share_relation (sw_bundle a) dA (sw_bundle b) dB" using v by blast
  have "map (\<lambda>i. of_bool (bit (sw_lambda b ! i) 0 \<noteq> share_value (sw_bundle b) (sw_bundle a) i)) [0..<length (sw_bundle b)] = map of_bool x"
    using v len(2) by (intro nth_equalityI) (auto simp: share_value_sym)
  then show ?thesis using reveal_honest [OF verify_sym [OF rel] len(1), of sha256] by simp
qed

lemma reveal_to_alice:
  assumes "masked_ok dA dB x a b" and "sw_lambda a = sw_lambda b"
  shows "reveal_recipient_bits sha256 (sw_lambda a) (sw_bundle a) (rl_share_bits (reveal_local_share sha256 (sw_bundle b)))
     (rl_mac_digest (reveal_local_share sha256 (sw_bundle b))) dA = Inr (map of_bool x)"
proof -
  note v = assms [unfolded masked_ok_def]
  have len: "length (sw_lambda a) = length (sw_bundle a)" "length (sw_bundle a) = length x" using v by (auto simp: sw_len_def)
  have rel: "verify_share_relation (sw_bundle a) dA (sw_bundle b) dB" using v by blast
  have "map (\<lambda>i. of_bool (bit (sw_lambda a ! i) 0 \<noteq> share_value (sw_bundle a) (sw_bundle b) i)) [0..<length (sw_bundle a)] = map of_bool x"
    using v len(2) by (intro nth_equalityI) auto
  then show ?thesis using reveal_honest [OF rel len(1), of sha256] by simp
qed

lemma decode_to_bob:
  "masked_ok (ap_delta prA) (ap_delta prB) x a b \<Longrightarrow> decode_to_party sha256 Bob (prA, a) (prB, b) = Inr (map of_bool x)"
  by (simp add: decode_to_party_def Let_def reveal_to_bob)

lemma decode_to_alice:
  "masked_ok (ap_delta prA) (ap_delta prB) x a b \<Longrightarrow> sw_lambda a = sw_lambda b \<Longrightarrow>
     decode_to_party sha256 Alice (prA, a) (prB, b) = Inr (map of_bool x)"
  using reveal_to_alice [of "ap_delta prA" "ap_delta prB" x a b sha256] by (simp add: decode_to_party_def Let_def)

lemma decode_run:
  assumes v: "masked_ok (ap_delta prA) (ap_delta prB) x a b"
  shows "decode sha256 Public (prA, a) (prB, b) = Inr (map of_bool x, map of_bool x)"
    and "decode sha256 (PartyOnly Bob) (prA, a) (prB, b) = Inr ([], map of_bool x)"
    and "sw_lambda a = sw_lambda b \<Longrightarrow> decode sha256 (PartyOnly Alice) (prA, a) (prB, b) = Inr (map of_bool x, [])"
proof -
  have c: "check_reveal_wires a = Inr ()" "check_reveal_wires b = Inr ()"
    using v by (auto simp: check_reveal_wires_def masked_ok_def sw_len_def verify_bundles)
  have "map (\<lambda>b. b AND 1) (map of_bool x) = (map of_bool x :: bytes)" by (simp add: o_def xor_bools(2))
  then show "decode sha256 Public (prA, a) (prB, b) = Inr (map of_bool x, map of_bool x)"
    "decode sha256 (PartyOnly Bob) (prA, a) (prB, b) = Inr ([], map of_bool x)"
    using decode_to_bob [OF v, of sha256] by (simp_all add: decode_def c)
  show "decode sha256 (PartyOnly Alice) (prA, a) (prB, b) = Inr (map of_bool x, [])" if "sw_lambda a = sw_lambda b"
    using decode_to_alice [OF v that, of sha256] by (simp add: decode_def c)
qed

end
