(* ===== verification/Program_Correct.thy ===== *)
theory Program_Correct
  imports Program
begin

text \<open>
  Correctness of the direct programs of \<open>shachain2pc-emp-compat/src/program.rs\<close>: a packed gate reads back
  what was packed, the builder keeps every wire's value, \<open>apply_gadget\<close> computes the gadget, and the
  chunk and tile programs compute the hash chain and the leaves. The chain and the tile are the ones of
  \<open>Hash_Tree\<close>, interpreted for the direct builder.
\<close>

unbundle bit_operations_syntax

section \<open>Packed gates\<close>

lemma unat_UNMAPPED: "unat UNMAPPED = 2 ^ 32 - 1"
  by (simp add: UNMAPPED_def unsigned_minus_1_eq_mask mask_eq_exp_minus_1)

lemma wire_limit [simp]: "AG2PC_GATE_WIRE_LIMIT = 2 ^ 30"
  by (simp add: AG2PC_GATE_WIRE_LIMIT_def AG2PC_GATE_TYPE_SHIFT_def push_bit_eq_mult)

lemma unat_wire32: "n < 2 ^ 32 \<Longrightarrow> unat (wire32 n) = n"
  by (simp add: wire32_def unat_of_nat take_bit_nat_eq_self)

lemma wire32_mapped: "n < 2 ^ 30 \<Longrightarrow> wire32 n \<noteq> UNMAPPED"
proof
  assume "n < 2 ^ 30" "wire32 n = UNMAPPED"
  then have "unat (wire32 n) = 2 ^ 32 - 1" by (simp only: unat_UNMAPPED)
  with \<open>n < 2 ^ 30\<close> show False by (simp add: unat_wire32)
qed

lemma small_word_bits: "unat (w :: u32) < 2 ^ 30 \<Longrightarrow> bit w i \<Longrightarrow> i < 30"
proof -
  assume w: "unat w < 2 ^ 30" "bit w i"
  have "bit (unat w) i" using w(2) by (simp add: bit_unsigned_iff)
  then have "odd (unat w div 2 ^ i)" by (simp add: bit_iff_odd)
  then have "unat w div 2 ^ i \<noteq> 0" by (metis even_zero)
  then have "2 ^ i \<le> unat w" by (auto simp: div_eq_0_iff)
  with w(1) have "(2 :: nat) ^ i < 2 ^ 30" by linarith
  then show ?thesis by (rule power_less_imp_less_exp [rotated]) simp
qed

lemma ag_gate_new_sel:
  assumes "unat in1 < 2 ^ 30"
  shows "ag_typ (ag_gate_new t in0 in1) = t" and "ag_in0 (ag_gate_new t in0 in1) = unat in0" and "ag_in1 (ag_gate_new t in0 in1) = unat in1"
proof -
  have b: "bit in1 i \<Longrightarrow> i < 30" for i using small_word_bits [OF assms] .
  have "drop_bit 30 (in1 OR push_bit 30 (ag_code t)) = ag_code t"
  proof (rule bit_word_eqI)
    fix i assume i: "i < LENGTH(32)"
    have c: "bit (ag_code t) i \<Longrightarrow> i < 2" for i by (cases t) (auto simp: bit_1_iff bit_2_iff)
    have "\<not> bit in1 (30 + i)" using b [of "30 + i"] by auto
    then show "bit (drop_bit 30 (in1 OR push_bit 30 (ag_code t))) i = bit (ag_code t) i"
      using c [of i] by (auto simp: bit_simps)
  qed
  then have d: "drop_bit AG2PC_GATE_TYPE_SHIFT (ag_in1_and_typ (ag_gate_new t in0 in1)) = ag_code t"
    by (simp add: ag_gate_new_def AG2PC_GATE_TYPE_SHIFT_def)
  show "ag_typ (ag_gate_new t in0 in1) = t" unfolding ag_typ_def d by (cases t) (simp_all add: ag_from_code_def)
  show "ag_in0 (ag_gate_new t in0 in1) = unat in0" by (simp add: ag_in0_def ag_gate_new_def)
  have m: "AG2PC_GATE_WIRE_MASK = mask 30" unfolding AG2PC_GATE_WIRE_MASK_def AG2PC_GATE_TYPE_SHIFT_def
    by (simp add: mask_eq_exp_minus_1 push_bit_eq_mult)
  have "(in1 OR push_bit 30 (ag_code t)) AND mask 30 = in1"
    using b by (auto intro!: bit_word_eqI simp: bit_simps)
  then show "ag_in1 (ag_gate_new t in0 in1) = unat in1"
    by (simp add: ag_in1_def ag_gate_new_def m AG2PC_GATE_TYPE_SHIFT_def)
qed

section \<open>The direct builder and wire values\<close>

definition pb_next :: "prog_builder \<Rightarrow> nat" where
  "pb_next b = pb_num_inputs b + length (pb_gates b)"

definition pvals :: "prog_builder \<Rightarrow> bool list \<Rightarrow> bool list" where
  "pvals b ins = prog_wires (pb_gates b) ins"

definition pb_ok :: "prog_builder \<Rightarrow> bool" where
  "pb_ok b \<longleftrightarrow> pb_next b \<le> 2 ^ 30 \<and> (\<forall>i < length (pb_gates b). ag_in0 (pb_gates b ! i) < pb_num_inputs b + i
     \<and> (ag_typ (pb_gates b ! i) \<noteq> AgInv \<longrightarrow> ag_in1 (pb_gates b ! i) < pb_num_inputs b + i))"

definition pb_grows :: "prog_builder \<Rightarrow> prog_builder \<Rightarrow> bool" where
  "pb_grows b b' \<longleftrightarrow> pb_ok b' \<and> pb_num_inputs b' = pb_num_inputs b \<and> (\<exists>gs. pb_gates b' = pb_gates b @ gs)"

lemma pb_grows_refl: "pb_ok b \<Longrightarrow> pb_grows b b" by (simp add: pb_grows_def)

lemma pb_grows_trans: "pb_grows a b \<Longrightarrow> pb_grows b c \<Longrightarrow> pb_grows a c" by (auto simp: pb_grows_def)

lemma pb_grows_next: "pb_grows b b' \<Longrightarrow> pb_next b \<le> pb_next b'" by (auto simp: pb_grows_def pb_next_def)

lemma pb_grows_val: "pb_grows b b' \<Longrightarrow> length ins = pb_num_inputs b \<Longrightarrow> w < pb_next b \<Longrightarrow> pvals b' ins ! w = pvals b ins ! w"
  by (auto simp: pb_grows_def pvals_def pb_next_def prog_wires_append prog_wires_prefix)

definition has_and :: "prog_builder \<Rightarrow> bool" where
  "has_and b \<longleftrightarrow> AgAnd \<in> ag_typ ` set (pb_gates b)"

lemma has_and_grows: "pb_grows b b' \<Longrightarrow> has_and b \<Longrightarrow> has_and b'"
  by (auto simp: pb_grows_def has_and_def)

lemma pb_push_spec:
  assumes b: "pb_ok b" and i0: "unat in0 < pb_next b" and i1: "t \<noteq> AgInv \<Longrightarrow> unat in1 < pb_next b" "t = AgInv \<Longrightarrow> in1 = 0"
    and l: "pb_next b < 2 ^ 30"
  shows "\<exists>b'. pb_push_gate t in0 in1 b = Inr (wire32 (pb_next b), b') \<and> pb_next b' = Suc (pb_next b) \<and> pb_grows b b' \<and> (t = AgAnd \<longrightarrow> has_and b')
     \<and> (\<forall>ins. length ins = pb_num_inputs b \<longrightarrow> pvals b' ins ! pb_next b = (case t of
          AgAnd \<Rightarrow> pvals b ins ! unat in0 \<and> pvals b ins ! unat in1 | AgXor \<Rightarrow> pvals b ins ! unat in0 \<noteq> pvals b ins ! unat in1
        | AgInv \<Rightarrow> \<not> pvals b ins ! unat in0))"
proof -
  let ?g = "ag_gate_new t in0 in1" let ?b = "b\<lparr>pb_gates := pb_gates b @ [?g]\<rparr>"
  have in1: "unat in1 < 2 ^ 30" using i1 l by (cases "t = AgInv") auto
  note g = ag_gate_new_sel [OF in1]
  have "pb_ok ?b" using b i0 i1 l by (auto simp: pb_ok_def pb_next_def nth_append g less_Suc_eq)
  then have gr: "pb_grows b ?b" by (simp add: pb_grows_def)
  have "pvals ?b ins ! pb_next b = (case t of
          AgAnd \<Rightarrow> pvals b ins ! unat in0 \<and> pvals b ins ! unat in1 | AgXor \<Rightarrow> pvals b ins ! unat in0 \<noteq> pvals b ins ! unat in1
        | AgInv \<Rightarrow> \<not> pvals b ins ! unat in0)" if "length ins = pb_num_inputs b" for ins
    using that by (simp add: pvals_def prog_wires_append prog_wires_single nth_append pb_next_def gate_bool_def g split: ag_type.split)
  moreover have "pb_push_gate t in0 in1 b = Inr (wire32 (pb_next b), ?b)"
    using l by (simp add: pb_push_gate_def Let_def pb_next_def)
  ultimately show ?thesis using gr by (intro exI [of _ ?b]) (simp add: pb_next_def has_and_def g)
qed

section \<open>Gadgets\<close>

fun reads_defined :: "nat set \<Rightarrow> gate list \<Rightarrow> bool" where
  \<comment> \<open>every gate reads wires of \<open>D\<close> or written before it\<close>
  "reads_defined D [] = True"
| "reads_defined D (g # gs) = (nat (g_in0 g) \<in> D \<and> (g_typ g \<noteq> Inv \<longrightarrow> nat (g_in1 g) \<in> D) \<and> reads_defined (insert (nat (g_out g)) D) gs)"

definition written_wires :: "gate list \<Rightarrow> nat set" where
  "written_wires gs = (\<lambda>g. nat (g_out g)) ` set gs"

definition gadget_closed :: "circuit \<Rightarrow> bool" where
  \<comment> \<open>the gadget reads no undefined wire and defines its outputs\<close>
  "gadget_closed c \<longleftrightarrow> reads_defined {..<512} (c_gates c)
     \<and> {nat (c_num_wire c) - nat (c_n3 c)..<nat (c_num_wire c)} \<subseteq> {..<512} \<union> written_wires (c_gates c)"

definition map_rel :: "prog_builder \<Rightarrow> bool list \<Rightarrow> (int \<Rightarrow> u8) \<Rightarrow> nat \<Rightarrow> nat set \<Rightarrow> u32 list \<Rightarrow> bool" where
  \<comment> \<open>the mapped wires carry the gadget's values\<close>
  "map_rel b ins w n D m \<longleftrightarrow> length m = n \<and> (\<forall>j \<in> D. j < n \<longrightarrow> m ! j \<noteq> UNMAPPED \<and> unat (m ! j) < pb_next b
     \<and> pvals b ins ! unat (m ! j) = bit (w (int j)) 0)"

lemma resolve_direct_spec:
  "0 \<le> w \<Longrightarrow> nat w < length m \<Longrightarrow> m ! nat w \<noteq> UNMAPPED \<Longrightarrow> resolve_direct_wire m w = Inr (m ! nat w)"
  by (simp add: resolve_direct_wire_def checked_wire_def)

lemma of_gate_type_Inv [simp]: "ag_of_gate_type t = AgInv \<longleftrightarrow> t = Inv" by (cases t) simp_all

lemma pb_map_gate_spec:
  assumes b: "pb_ok b" and l: "pb_next b < 2 ^ 30" and g: "wf_gate (int n) g" and ins: "length ins = pb_num_inputs b"
    and m: "map_rel b ins w n D m"
    and d: "nat (g_in0 g) \<in> D" "g_typ g \<noteq> Inv \<Longrightarrow> nat (g_in1 g) \<in> D"
  shows "\<exists>m' b'. pb_map_gate n g (m, b) = Inr (m', b') \<and> pb_next b' = Suc (pb_next b) \<and> pb_grows b b'
     \<and> map_rel b' ins (ev_gate g w) n (insert (nat (g_out g)) D) m' \<and> (g_typ g = And \<longrightarrow> has_and b')"
proof -
  let ?i0 = "nat (g_in0 g)" let ?i1 = "nat (g_in1 g)" let ?o = "nat (g_out g)"
  let ?t = "ag_of_gate_type (g_typ g)" let ?r1 = "if g_typ g = Inv then 0 else m ! ?i1"
  have rng: "0 \<le> g_in0 g" "?i0 < n" "0 \<le> g_out g" "?o < n" "g_typ g \<noteq> Inv \<Longrightarrow> 0 \<le> g_in1 g \<and> ?i1 < n"
    using g by (auto simp: wf_gate_def in_range_def)
  have len: "length m = n" using m by (simp add: map_rel_def)
  have v0: "m ! ?i0 \<noteq> UNMAPPED" "unat (m ! ?i0) < pb_next b" "pvals b ins ! unat (m ! ?i0) = bit (w (g_in0 g)) 0"
    using m d(1) rng by (auto simp: map_rel_def)
  have v1: "m ! ?i1 \<noteq> UNMAPPED" "unat (m ! ?i1) < pb_next b" "pvals b ins ! unat (m ! ?i1) = bit (w (g_in1 g)) 0" if "g_typ g \<noteq> Inv"
    using m d(2) rng that by (auto simp: map_rel_def)
  obtain b' where b': "pb_push_gate ?t (m ! ?i0) ?r1 b = Inr (wire32 (pb_next b), b')" "pb_next b' = Suc (pb_next b)" "pb_grows b b'"
     "pvals b' ins ! pb_next b = (case ?t of
          AgAnd \<Rightarrow> pvals b ins ! unat (m ! ?i0) \<and> pvals b ins ! unat ?r1 | AgXor \<Rightarrow> pvals b ins ! unat (m ! ?i0) \<noteq> pvals b ins ! unat ?r1
        | AgInv \<Rightarrow> \<not> pvals b ins ! unat (m ! ?i0))"
     "?t = AgAnd \<longrightarrow> has_and b'"
    using pb_push_spec [OF b v0(2), of ?t ?r1] v1 l ins by (cases "g_typ g = Inv") auto
  have val: "pvals b' ins ! pb_next b = bit (ev_gate g w (g_out g)) 0"
    using v0(3) v1(3) unfolding b'(4) by (cases "g_typ g") (auto simp: ev_gate.simps bit_simps)
  have "pb_map_gate n g (m, b) = Inr (m[?o := wire32 (pb_next b)], b')"
  proof -
    have "(case ?t of AgAnd \<Rightarrow> pb_and_w (m ! ?i0) ?r1 b | AgXor \<Rightarrow> pb_xor_w (m ! ?i0) ?r1 b | AgInv \<Rightarrow> pb_inv_w (m ! ?i0) b) = Inr (wire32 (pb_next b), b')"
      using b'(1) by (cases "g_typ g") (simp_all add: pb_and_w_def pb_xor_w_def pb_inv_w_def)
    moreover have "(if ?t = AgInv then Inr 0 else resolve_direct_wire m (g_in1 g)) = Inr ?r1"
      using v1 rng len by (simp add: resolve_direct_spec)
    moreover have "resolve_direct_wire m (g_in0 g) = Inr (m ! ?i0)" using v0 rng len by (simp add: resolve_direct_spec)
    moreover have "checked_wire ''gadget out'' (g_out g) n = Inr ?o" using rng by (simp add: checked_wire_def)
    ultimately show ?thesis by (simp add: pb_map_gate_def Let_def)
  qed
  moreover have "map_rel b' ins (ev_gate g w) n (insert ?o D) (m[?o := wire32 (pb_next b)])"
    unfolding map_rel_def
  proof (intro conjI ballI impI)
    show "length (m[?o := wire32 (pb_next b)]) = n" using len by simp
    fix j assume j: "j \<in> insert ?o D" "j < n"
    let ?m = "m[?o := wire32 (pb_next b)]"
    have u: "unat (wire32 (pb_next b)) = pb_next b" using l by (simp add: unat_wire32)
    have "?m ! j \<noteq> UNMAPPED \<and> unat (?m ! j) < pb_next b' \<and> pvals b' ins ! unat (?m ! j) = bit (ev_gate g w (int j)) 0"
    proof (cases "j = ?o")
      case True
      then have "int j = g_out g" using rng by simp
      then show ?thesis using True j len wire32_mapped [OF l] u b'(2) val by simp
    next
      case False
      then have "int j \<noteq> g_out g" by auto
      then have "ev_gate g w (int j) = w (int j)" by (simp add: ev_gate.simps)
      moreover have "m ! j \<noteq> UNMAPPED" "unat (m ! j) < pb_next b" "pvals b ins ! unat (m ! j) = bit (w (int j)) 0"
        using False j m by (auto simp: map_rel_def)
      ultimately show ?thesis using False b'(2) pb_grows_val [OF b'(3) ins] by simp
    qed
    then show "?m ! j \<noteq> UNMAPPED" "unat (?m ! j) < pb_next b'" "pvals b' ins ! unat (?m ! j) = bit (ev_gate g w (int j)) 0" by blast+
  qed
  moreover have "g_typ g = And \<longrightarrow> has_and b'" using b'(5) by auto
  ultimately show ?thesis using b'(2,3) by blast
qed

lemma pb_map_gates_spec:
  assumes "pb_ok b" "pb_next b + length gs \<le> 2 ^ 30" "\<forall>g \<in> set gs. wf_gate (int n) g" "length ins = pb_num_inputs b"
    "map_rel b ins w n D m" "reads_defined D gs"
  shows "\<exists>m' b'. foldR (pb_map_gate n) gs (m, b) = Inr (m', b') \<and> pb_next b' = pb_next b + length gs \<and> pb_grows b b'
     \<and> map_rel b' ins (ev gs w) n (D \<union> written_wires gs) m' \<and> (And \<in> g_typ ` set gs \<longrightarrow> has_and b')"
  using assms
proof (induction gs arbitrary: b w D m)
  case Nil
  then show ?case by (simp add: pb_grows_refl written_wires_def)
next
  case (Cons g gs)
  obtain m1 b1 where b1: "pb_map_gate n g (m, b) = Inr (m1, b1)" "pb_next b1 = Suc (pb_next b)" "pb_grows b b1"
     "map_rel b1 ins (ev_gate g w) n (insert (nat (g_out g)) D) m1" "g_typ g = And \<longrightarrow> has_and b1"
    using pb_map_gate_spec [OF Cons.prems(1) _ _ Cons.prems(4,5), of g] Cons.prems by auto
  have ok1: "pb_ok b1" "pb_num_inputs b1 = pb_num_inputs b" using b1(3) by (simp_all add: pb_grows_def)
  obtain m2 b2 where b2: "foldR (pb_map_gate n) gs (m1, b1) = Inr (m2, b2)" "pb_next b2 = pb_next b1 + length gs" "pb_grows b1 b2"
     "map_rel b2 ins (ev gs (ev_gate g w)) n (insert (nat (g_out g)) D \<union> written_wires gs) m2" "And \<in> g_typ ` set gs \<longrightarrow> has_and b2"
    using Cons.IH [OF ok1(1) _ _ _ b1(4)] Cons.prems b1(2) ok1 by auto
  have "insert (nat (g_out g)) D \<union> written_wires gs = D \<union> written_wires (g # gs)" by (auto simp: written_wires_def)
  moreover have "And \<in> g_typ ` set (g # gs) \<longrightarrow> has_and b2" using b1(5) b2(5) has_and_grows [OF b2(3)] by auto
  ultimately show ?case using b1 b2 pb_grows_trans [OF b1(3) b2(3)] by (auto simp: ev_def)
qed

lemma pb_apply_gadget_spec:
  assumes ok: "gadget_ok c" and cl: "gadget_closed c" and b: "pb_ok b" and l: "pb_next b + length (c_gates c) \<le> 2 ^ 30"
    and ins: "length ins = pb_num_inputs b" and inp: "length inputs = 512" "\<forall>x \<in> set inputs. unat x < pb_next b"
    and bits: "length bits = 512" "\<And>j. j < 512 \<Longrightarrow> bit (bits ! j) 0 = pvals b ins ! unat (inputs ! j)"
  shows "\<exists>outs b'. pb_apply_gadget c inputs b = Inr (outs, b') \<and> pb_next b' = pb_next b + length (c_gates c) \<and> pb_grows b b'
     \<and> length outs = 256 \<and> (\<forall>x \<in> set outs. unat x < pb_next b')
     \<and> map (\<lambda>x. pvals b' ins ! unat x) outs = map (\<lambda>b. bit b 0) (out_bits c bits) \<and> (And \<in> g_typ ` set (c_gates c) \<longrightarrow> has_and b')"
proof -
  note gf = gadget_ok_facts [OF ok]
  let ?n = "nat (c_num_wire c)"
  have n: "512 \<le> ?n" "int ?n = c_num_wire c" using gf(3) by auto
  have wf: "\<forall>g \<in> set (c_gates c). wf_gate (int ?n) g" using gf(5) n by simp
  let ?m = "inputs @ replicate (?n - 512) UNMAPPED"
  have "map_rel b ins (init_wires bits) ?n {..<512} ?m"
    unfolding map_rel_def
  proof (intro conjI ballI impI)
    fix j assume "j \<in> {..<512 :: nat}" "j < ?n"
    then have j: "j < 512" by simp
    have mj: "?m ! j = inputs ! j" using j inp by (simp add: nth_append)
    have lt: "unat (inputs ! j) < pb_next b" using j inp by simp
    then have "unat (inputs ! j) < 2 ^ 30" using b by (simp add: pb_ok_def)
    then have "inputs ! j \<noteq> UNMAPPED" using unat_UNMAPPED by auto
    moreover have "bit (init_wires bits (int j)) 0 = bit (bits ! j) 0" using j bits(1) by (simp add: init_wires_def bit_simps)
    ultimately show "?m ! j \<noteq> UNMAPPED" "unat (?m ! j) < pb_next b" "pvals b ins ! unat (?m ! j) = bit (init_wires bits (int j)) 0"
      using mj lt bits(2) [OF j] by simp_all
  qed (use inp n in simp)
  then obtain m' b' where r: "foldR (pb_map_gate ?n) (c_gates c) (?m, b) = Inr (m', b')" "pb_next b' = pb_next b + length (c_gates c)" "pb_grows b b'"
     "map_rel b' ins (ev (c_gates c) (init_wires bits)) ?n ({..<512} \<union> written_wires (c_gates c)) m'"
     "And \<in> g_typ ` set (c_gates c) \<longrightarrow> has_and b'"
    using pb_map_gates_spec [OF b l wf ins] cl unfolding gadget_closed_def by blast
  have n3: "nat (c_n3 c) = 256" using gf(2) by simp
  have lm: "length m' = ?n" using r(4) by (simp add: map_rel_def)
  have o: "m' ! (?n - 256 + j) \<noteq> UNMAPPED \<and> unat (m' ! (?n - 256 + j)) < pb_next b'
      \<and> pvals b' ins ! unat (m' ! (?n - 256 + j)) = bit (ev (c_gates c) (init_wires bits) (int (?n - 256 + j))) 0" if "j < 256" for j
  proof -
    have lt: "?n - 256 + j < ?n" "?n - 256 \<le> ?n - 256 + j" using that n by simp_all
    moreover have "{?n - 256..<?n} \<subseteq> {..<512} \<union> written_wires (c_gates c)" using cl by (simp add: gadget_closed_def n3)
    ultimately have "?n - 256 + j \<in> {..<512} \<union> written_wires (c_gates c)" by (meson atLeastLessThan_iff subsetD)
    with lt(1) show ?thesis using r(4) unfolding map_rel_def by blast
  qed
  let ?outs = "drop (?n - 256) m'"
  have lo: "length ?outs = 256" using lm n by simp
  have no: "?outs ! j = m' ! (?n - 256 + j)" if "j < 256" for j using that lm n by simp
  have "UNMAPPED \<notin> set ?outs" using o no lo by (metis in_set_conv_nth)
  then have "pb_apply_gadget c inputs b = Inr (?outs, b')"
    using gf n inp r(1) n3 unfolding pb_apply_gadget_def gf(1,2)
    by (simp add: checked_nonnegative_def wrap32_def Let_def)
  moreover have "\<forall>x \<in> set ?outs. unat x < pb_next b'" using o no lo by (metis in_set_conv_nth)
  moreover have "map (\<lambda>x. pvals b' ins ! unat x) ?outs = map (\<lambda>b. bit b 0) (out_bits c bits)"
  proof (rule nth_equalityI)
    fix j assume "j < length (map (\<lambda>x. pvals b' ins ! unat x) ?outs)"
    then have j: "j < 256" using lo by simp
    have ix: "c_num_wire c - c_n3 c + int j = int (?n - 256 + j)" using n gf(2) by (simp add: of_nat_diff)
    have "out_bits c bits ! j = ev (c_gates c) (init_wires bits) (int (?n - 256 + j))"
      unfolding ix [symmetric] using j n3 by (intro nth_out_bits) simp
    then have e: "map (\<lambda>b. bit b 0) (out_bits c bits) ! j = bit (ev (c_gates c) (init_wires bits) (int (?n - 256 + j))) 0"
      using j gf(2) by (subst nth_map) (simp add: out_bits_def, metis)
    have "map (\<lambda>x. pvals b' ins ! unat x) ?outs ! j = pvals b' ins ! unat (m' ! (?n - 256 + j))"
      using j lo no [OF j] by (simp only: nth_map)
    then show "map (\<lambda>x. pvals b' ins ! unat x) ?outs ! j = map (\<lambda>b. bit b 0) (out_bits c bits) ! j"
      unfolding e using o [OF j] by metis
  qed (use gf(2) lo in \<open>simp add: out_bits_def\<close>)
  ultimately show ?thesis using r(2,3,5) lo by blast
qed

section \<open>The hash step\<close>

abbreviation bools :: "bytes \<Rightarrow> bool list" where
  "bools xs \<equiv> map (\<lambda>b. bit b 0) xs"

definition pholds :: "prog_builder \<Rightarrow> bool list \<Rightarrow> u32 list \<Rightarrow> value32 \<Rightarrow> bool" where
  \<comment> \<open>the wires \<open>p\<close> carry the bits of \<open>v\<close>\<close>
  "pholds b ins p v \<longleftrightarrow> wf_value v \<and> length p = VALUE_BITS \<and> (\<forall>x \<in> set p. unat x < pb_next b)
     \<and> map (\<lambda>x. pvals b ins ! unat x) p = bools (to_bits_msb v)"

lemma pb_grows_vals:
  "pb_grows b b' \<Longrightarrow> length ins = pb_num_inputs b \<Longrightarrow> \<forall>x \<in> set p. unat x < pb_next b \<Longrightarrow>
    map (\<lambda>x. pvals b' ins ! unat x) p = map (\<lambda>x. pvals b ins ! unat x) p"
  by (simp add: pb_grows_val)

lemma pholds_grows: "pb_grows b b' \<Longrightarrow> length ins = pb_num_inputs b \<Longrightarrow> pholds b ins p v \<Longrightarrow> pholds b' ins p v"
  using pb_grows_vals [of b b' ins p] pb_grows_next [of b b'] unfolding pholds_def by fastforce

lemma pb_collect_xor_spec:
  assumes "pb_ok b" "length ins = pb_num_inputs b" "\<forall>x \<in> set xs. unat (f x) < pb_next b \<and> unat (h x) < pb_next b"
    "pb_next b + length xs \<le> 2 ^ 30"
  shows "\<exists>b'. pb_collect (\<lambda>x. pb_xor_w (f x) (h x)) xs b = Inr (map wire32 [pb_next b..<pb_next b + length xs], b')
     \<and> pb_next b' = pb_next b + length xs \<and> pb_grows b b'
     \<and> map (\<lambda>w. pvals b' ins ! w) [pb_next b..<pb_next b + length xs] = map (\<lambda>x. pvals b ins ! unat (f x) \<noteq> pvals b ins ! unat (h x)) xs"
  using assms
proof (induction xs arbitrary: b)
  case Nil
  then show ?case by (simp add: pb_grows_refl)
next
  case (Cons x xs)
  obtain b1 where b1: "pb_xor_w (f x) (h x) b = Inr (wire32 (pb_next b), b1)" "pb_next b1 = Suc (pb_next b)" "pb_grows b b1"
     "pvals b1 ins ! pb_next b = (pvals b ins ! unat (f x) \<noteq> pvals b ins ! unat (h x))"
    using pb_push_spec [OF Cons.prems(1), of "f x" AgXor "h x"] Cons.prems by (auto simp: pb_xor_w_def)
  have ok: "pb_ok b1" "length ins = pb_num_inputs b1" using b1(3) Cons.prems(2) by (simp_all add: pb_grows_def)
  have rng1: "\<forall>x \<in> set xs. unat (f x) < pb_next b1 \<and> unat (h x) < pb_next b1" using Cons.prems(3) b1(2) by (auto intro: less_SucI)
  have l1: "pb_next b1 + length xs \<le> 2 ^ 30" using Cons.prems(4) b1(2) by simp
  obtain b2 where b2: "pb_collect (\<lambda>x. pb_xor_w (f x) (h x)) xs b1 = Inr (map wire32 [pb_next b1..<pb_next b1 + length xs], b2)"
      "pb_next b2 = pb_next b1 + length xs" "pb_grows b1 b2"
      "map (\<lambda>w. pvals b2 ins ! w) [pb_next b1..<pb_next b1 + length xs] = map (\<lambda>x. pvals b1 ins ! unat (f x) \<noteq> pvals b1 ins ! unat (h x)) xs"
    using Cons.IH [OF ok rng1 l1] by blast
  have "map (\<lambda>x. pvals b1 ins ! unat (f x) \<noteq> pvals b1 ins ! unat (h x)) xs = map (\<lambda>x. pvals b ins ! unat (f x) \<noteq> pvals b ins ! unat (h x)) xs"
    using Cons.prems by (simp add: pb_grows_val [OF b1(3) Cons.prems(2)])
  moreover have "pvals b2 ins ! pb_next b = pvals b1 ins ! pb_next b" using pb_grows_val [OF b2(3) ok(2)] b1(2) by simp
  moreover have "[pb_next b..<pb_next b + length (x # xs)] = pb_next b # [pb_next b1..<pb_next b1 + length xs]"
    using upt_conv_Cons [of "pb_next b" "pb_next b + length (x # xs)"] b1(2) by (simp del: upt_Suc)
  ultimately show ?case using b1 b2 pb_grows_trans [OF b1(3) b2(3)] by simp
qed

lemma ag2pc_padding_nth:
  "i < VALUE_BITS \<Longrightarrow> (ag2pc_padding_bits ! i \<noteq> 0) = bit (to_bits_msb pad_bytes ! i) 0"
  by (simp add: ag2pc_padding_bits_def to_bits_msb_nth pad_bytes_def and_1_eq_of_bool)

lemma ag2pc_flip_bit_index_eq: "ag2pc_flip_bit_index = flip_bit_index"
  by (simp add: fun_eq_iff ag2pc_flip_bit_index_def flip_bit_index_def ag2pc_msb_bit_index_def msb_bit_index_def)

definition pb_ready :: "(bytes \<Rightarrow> bytes) \<Rightarrow> circuit \<Rightarrow> u32 \<Rightarrow> u32 \<Rightarrow> bool list \<Rightarrow> prog_builder \<Rightarrow> prog_builder \<Rightarrow> bool" where
  \<comment> \<open>a builder grown from \<open>b0\<close>, which has the two constant wires\<close>
  "pb_ready sha256 sha c0 c1 ins b0 b \<longleftrightarrow> sha_gadget sha256 sha \<and> gadget_closed sha \<and> pb_grows b0 b \<and> length ins = pb_num_inputs b0
     \<and> unat c0 < pb_next b0 \<and> unat c1 < pb_next b0 \<and> \<not> pvals b0 ins ! unat c0 \<and> pvals b0 ins ! unat c1"

lemma pb_ready_grows: "pb_ready sha256 sha c0 c1 ins b0 b \<Longrightarrow> pb_grows b b' \<Longrightarrow> pb_ready sha256 sha c0 c1 ins b0 b'"
  unfolding pb_ready_def using pb_grows_trans by blast

lemma pb_ready_facts:
  assumes "pb_ready sha256 sha c0 c1 ins b0 b"
  shows "pb_ok b" "length ins = pb_num_inputs b" "unat c0 < pb_next b" "unat c1 < pb_next b" "\<not> pvals b ins ! unat c0" "pvals b ins ! unat c1"
  using assms pb_grows_next [of b0 b] pb_grows_val [of b0 b ins] by (auto simp: pb_ready_def pb_grows_def)

lemma pb_hash_gates_spec:
  assumes r: "pb_ready sha256 sha c0 c1 ins b0 b" and p: "pholds b ins p v" and k: "k < INDEX_BITS"
    and l: "pb_next b + Suc (length (c_gates sha)) \<le> 2 ^ 30"
  shows "\<exists>p' b'. pb_hash_gates sha c0 c1 k (p, b) = Inr (p', b') \<and> pb_grows b b' \<and> pb_next b' = pb_next b + Suc (length (c_gates sha))
     \<and> pholds b' ins p' (hash_step sha256 k v) \<and> (And \<in> g_typ ` set (c_gates sha) \<longrightarrow> has_and b')"
proof -
  have g: "sha_gadget sha256 sha" "gadget_ok sha" "gadget_closed sha" using r by (auto simp: pb_ready_def sha_gadget_def)
  note f = pb_ready_facts [OF r]
  let ?idx = "ag2pc_flip_bit_index k"
  have idx: "?idx < length p" using k p by (simp add: ag2pc_flip_bit_index_eq flip_bit_index_less pholds_def)
  have wfv: "wf_value v" using p by (simp add: pholds_def)
  have pidx: "unat (p ! ?idx) < pb_next b" using idx p by (auto simp: pholds_def)
  obtain b1 where b1: "pb_inv_w (p ! ?idx) b = Inr (wire32 (pb_next b), b1)" "pb_next b1 = Suc (pb_next b)" "pb_grows b b1"
      "pvals b1 ins ! pb_next b = (\<not> pvals b ins ! unat (p ! ?idx))"
    using pb_push_spec [OF f(1) pidx, of AgInv 0] l f(2) by (auto simp: pb_inv_w_def)
  note f1 = pb_ready_facts [OF pb_ready_grows [OF r b1(3)]]
  let ?p = "p[?idx := wire32 (pb_next b)]"
  let ?pad = "map (\<lambda>i. if ag2pc_padding_bits ! i \<noteq> 0 then c1 else c0) [0..<VALUE_BITS]"
  have u: "unat (wire32 (pb_next b)) = pb_next b" using l by (simp add: unat_wire32)
  have rng: "\<forall>x \<in> set (?p @ ?pad). unat x < pb_next b1"
  proof
    fix x assume "x \<in> set (?p @ ?pad)"
    then have "x = wire32 (pb_next b) \<or> x \<in> set p \<or> x = c0 \<or> x = c1"
      by (auto dest!: set_update_subset_insert [THEN subsetD] split: if_splits)
    then show "unat x < pb_next b1" using p u b1(2) f1(3,4) by (auto simp: pholds_def intro: less_SucI)
  qed
  have vp: "map (\<lambda>x. pvals b1 ins ! unat x) ?p = bools (to_bits_msb (flip_bit k v))"
  proof -
    have vp0: "map (\<lambda>x. pvals b1 ins ! unat x) p = bools (to_bits_msb v)" using pholds_grows [OF b1(3) f(2) p] by (simp add: pholds_def)
    then have e: "pvals b ins ! unat (p ! ?idx) = bit (to_bits_msb v ! ?idx) 0"
      using arg_cong [OF p [unfolded pholds_def, THEN conjunct2, THEN conjunct2, THEN conjunct2], of "\<lambda>xs. xs ! ?idx"] idx p by (simp add: pholds_def)
    have "map (\<lambda>x. pvals b1 ins ! unat x) ?p = (map (\<lambda>x. pvals b1 ins ! unat x) p)[?idx := \<not> bit (to_bits_msb v ! ?idx) 0]"
      unfolding map_update u b1(4) e ..
    also have "\<dots> = bools ((to_bits_msb v)[?idx := to_bits_msb v ! ?idx XOR 1])"
      unfolding map_update vp0 bit_xor_iff by simp
    finally show ?thesis using k wfv by (simp add: to_bits_msb_flip ag2pc_flip_bit_index_eq)
  qed
  have vpad: "map (\<lambda>x. pvals b1 ins ! unat x) ?pad = bools (to_bits_msb pad_bytes)"
    using f1 by (intro nth_equalityI) (auto simp: ag2pc_padding_nth)
  let ?bits = "to_bits_msb (flip_bit k v) @ to_bits_msb pad_bytes"
  have vin: "map (\<lambda>x. pvals b1 ins ! unat x) (?p @ ?pad) = bools ?bits" unfolding map_append vp vpad ..
  have len: "length (?p @ ?pad) = 512" using p by (simp add: pholds_def VALUE_BITS_def)
  have bit0: "bit (?bits ! j) 0 = pvals b1 ins ! unat ((?p @ ?pad) ! j)" if "j < 512" for j
    using arg_cong [OF vin, of "\<lambda>xs. xs ! j"] that len by (simp del: map_append add: VALUE_BITS_def)
  have lb: "length ?bits = 512" by (simp add: VALUE_BITS_def)
  have l1: "pb_next b1 + length (c_gates sha) \<le> 2 ^ 30" using l b1(2) by simp
  obtain outs b2 where b2: "pb_apply_gadget sha (?p @ ?pad) b1 = Inr (outs, b2)" "pb_next b2 = pb_next b1 + length (c_gates sha)"
      "pb_grows b1 b2" "length outs = 256" "\<forall>x \<in> set outs. unat x < pb_next b2"
      "map (\<lambda>x. pvals b2 ins ! unat x) outs = bools (out_bits sha ?bits)" "And \<in> g_typ ` set (c_gates sha) \<longrightarrow> has_and b2"
    using pb_apply_gadget_spec [OF g(2,3) f1(1) l1 f1(2) len rng lb bit0] by blast
  have fw: "wf_value (flip_bit k v)" using wfv by (rule flip_bit_wf)
  then have "wf_value (hash_step sha256 k v)" using g(1) by (simp add: hash_step_def sha_gadget_def)
  then have "pholds b2 ins outs (hash_step sha256 k v)"
    using b2 out_bits_gadget [OF g(1) fw] by (simp add: pholds_def hash_step_def VALUE_BITS_def)
  moreover have "pb_hash_gates sha c0 c1 k (p, b) = Inr (outs, b2)"
    using idx p b1(1) b2(1) by (simp add: pb_hash_gates_def Let_def pholds_def)
  ultimately show ?thesis using pb_grows_trans [OF b1(3) b2(3)] b2(2,7) b1(2) by auto
qed

interpretation direct: hash_builder sha256 "pb_ready sha256 sha c0 c1 ins b0" "\<lambda>b. int (pb_next b)"
    "1 + int (length (c_gates sha))" "1 + int (length (c_gates sha))" "2 ^ 30 + 1" "\<lambda>b. pholds b ins" "pb_hash_gates sha c0 c1"
    "\<lambda>b. And \<in> g_typ ` set (c_gates sha) \<longrightarrow> has_and b"
  for sha256 sha c0 c1 ins b0
proof unfold_locales
  fix b p v k
  assume r: "pb_ready sha256 sha c0 c1 ins b0 b" and p: "pholds b ins p v" and k: "k < INDEX_BITS"
    and bound: "int (pb_next b) + (1 + int (length (c_gates sha))) < 2 ^ 30 + 1"
  from bound have "pb_next b + Suc (length (c_gates sha)) \<le> 2 ^ 30" by simp
  then obtain p' b' where b': "pb_hash_gates sha c0 c1 k (p, b) = Inr (p', b')" "pb_grows b b'"
      "pb_next b' = pb_next b + Suc (length (c_gates sha))" "pholds b' ins p' (hash_step sha256 k v)" "And \<in> g_typ ` set (c_gates sha) \<longrightarrow> has_and b'"
    using pb_hash_gates_spec [OF r p k] by blast
  show "\<exists>p' b'. pb_hash_gates sha c0 c1 k (p, b) = Inr (p', b') \<and> pb_ready sha256 sha c0 c1 ins b0 b'
      \<and> int (pb_next b') = int (pb_next b) + (1 + int (length (c_gates sha))) \<and> pholds b' ins p' (hash_step sha256 k v)
      \<and> (\<forall>q u. pholds b ins q u \<longrightarrow> pholds b' ins q u) \<and> (And \<in> g_typ ` set (c_gates sha) \<longrightarrow> has_and b')"
    using b' pb_ready_grows [OF r b'(2)] pholds_grows [OF b'(2) pb_ready_facts(2) [OF r]] by (intro exI conjI) auto
qed simp

section \<open>Start and end of a program\<close>

lemma pb_start:
  assumes ni: "0 < ni" "ni + 2 \<le> 2 ^ 30" and ins: "length ins = ni" and g: "sha_gadget sha256 sha" "gadget_closed sha"
  shows "\<exists>b0 b1. pb_xor_w 0 0 (pb_new ni) = Inr (wire32 ni, b0) \<and> pb_inv_w (wire32 ni) b0 = Inr (wire32 (ni + 1), b1)
     \<and> pb_next b1 = ni + 2 \<and> pb_num_inputs b1 = ni \<and> pb_ready sha256 sha (wire32 ni) (wire32 (ni + 1)) ins b1 b1 \<and> (\<forall>i < ni. pvals b1 ins ! i = ins ! i)"
proof -
  let ?b = "pb_new ni"
  have ok: "pb_ok ?b" and n: "pb_next ?b = ni" "pb_num_inputs ?b = ni" and v: "pvals ?b ins = ins"
    using ni by (simp_all add: pb_new_def pb_ok_def pb_next_def pvals_def prog_wires_def)
  obtain b0 where b0: "pb_xor_w 0 0 ?b = Inr (wire32 ni, b0)" "pb_next b0 = Suc ni" "pb_grows ?b b0" "\<not> pvals b0 ins ! ni"
    using pb_push_spec [OF ok, of 0 AgXor 0] n ni ins by (auto simp: pb_xor_w_def)
  have u: "unat (wire32 ni) = ni" "unat (wire32 (ni + 1)) = ni + 1" using ni by (simp_all add: unat_wire32)
  have ok0: "pb_ok b0" "pb_num_inputs b0 = ni" using b0(3) n by (simp_all add: pb_grows_def)
  obtain b1 where b1: "pb_inv_w (wire32 ni) b0 = Inr (wire32 (ni + 1), b1)" "pb_next b1 = ni + 2" "pb_grows b0 b1" "pvals b1 ins ! (ni + 1)"
    using pb_push_spec [OF ok0(1), of "wire32 ni" AgInv 0] b0(2,4) u ni ok0(2) ins by (auto simp: pb_inv_w_def)
  have gr: "pb_grows ?b b1" using pb_grows_trans b0(3) b1(3) by blast
  have "\<forall>i < ni. pvals b1 ins ! i = ins ! i" using pb_grows_val [OF gr] n v ins by simp
  moreover have "pb_ready sha256 sha (wire32 ni) (wire32 (ni + 1)) ins b1 b1"
    using b1 b0(4) g u ok0 ins b0(2) pb_grows_val [OF b1(3), of ins ni] by (auto simp: pb_ready_def pb_grows_def)
  ultimately show ?thesis using b0(1) b1(1,2) gr n by (intro exI conjI) (auto simp: pb_grows_def)
qed

lemma pb_end:
  assumes r: "pb_ready sha256 sha c0 c1 ins b0 b" and rng: "\<forall>x \<in> set ps. unat x < pb_next b" and l: "pb_next b + length ps \<le> 2 ^ 30"
  shows "\<exists>ws b' p. pb_collect (\<lambda>wire. pb_xor_w wire c0) ps b = Inr (ws, b') \<and> pb_finish (length ps) b' = Inr p
     \<and> prog_ok p \<and> pr_num_inputs p = length ins \<and> output_len p = length ps \<and> prog_eval p ins = map (\<lambda>x. pvals b ins ! unat x) ps
     \<and> (has_and b \<longrightarrow> 0 < num_ands p)"
proof -
  note f = pb_ready_facts [OF r]
  obtain b' where b': "pb_collect (\<lambda>wire. pb_xor_w wire c0) ps b = Inr (map wire32 [pb_next b..<pb_next b + length ps], b')"
      "pb_next b' = pb_next b + length ps" "pb_grows b b'"
      "map (\<lambda>w. pvals b' ins ! w) [pb_next b..<pb_next b + length ps] = map (\<lambda>x. pvals b ins ! unat x \<noteq> pvals b ins ! unat c0) ps"
    using pb_collect_xor_spec [OF f(1,2), of ps "\<lambda>x. x" "\<lambda>_. c0"] rng f l by auto
  define p where "p = \<lparr>pr_num_inputs = pb_num_inputs b', pr_num_wires = pb_next b',
             pr_outputs = map wire32 [pb_next b..<pb_next b + length ps], pr_gates = pb_gates b'\<rparr>"
  have nb: "pb_num_inputs b' = length ins" "pb_ok b'" using b'(3) f(2) by (simp_all add: pb_grows_def)
  have u: "unat (wire32 w) = w" if "w < pb_next b + length ps" for w using that l by (simp add: unat_wire32)
  have "pb_finish (length ps) b' = Inr p"
    using b'(2) by (simp add: pb_finish_def Let_def p_def pb_next_def add.commute)
  moreover have "prog_ok p"
  proof -
    have "pb_next b' = length ins + length (pb_gates b')" using nb(1) by (simp add: pb_next_def)
    then show ?thesis using nb u b'(2) by (auto simp: p_def prog_ok_def pb_ok_def gate_out_def)
  qed
  moreover have "prog_eval p ins = map (\<lambda>w. pvals b' ins ! w) [pb_next b..<pb_next b + length ps]"
    using u by (simp add: prog_eval_def p_def pvals_def)
  moreover have "has_and b \<longrightarrow> 0 < num_ands p"
  proof
    assume "has_and b"
    then have "has_and b'" by (rule has_and_grows [OF b'(3)])
    then obtain g where "g \<in> set (pb_gates b')" "ag_typ g = AgAnd" unfolding has_and_def by (metis imageE)
    then have "filter (\<lambda>g. ag_typ g = AgAnd) (pb_gates b') \<noteq> []" by (auto simp: filter_empty_conv)
    then show "0 < num_ands p" by (simp add: p_def num_ands_def)
  qed
  moreover have "pr_num_inputs p = length ins" "output_len p = length ps" using nb(1) by (simp_all add: p_def output_len_def)
  ultimately show ?thesis using b'(1,4) f(5) by auto
qed

lemma validate_sha_ok: "sha_gadget sha256 sha \<Longrightarrow> validate_sha_gadget name sha = Inr ()"
  using gadget_ok_facts [of sha] by (simp add: sha_gadget_def validate_sha_gadget_def VALUE_BITS_def)

lemma pb_seed_direct:
  assumes a: "wf_value a" and v: "\<forall>i < VALUE_BITS. pvals b ins ! i = bit (to_bits_msb a ! i) 0" and n: "VALUE_BITS \<le> pb_next b"
  shows "pholds b ins (map wire32 [0..<VALUE_BITS]) a"
proof -
  have u: "unat (wire32 i) = i" if "i < VALUE_BITS" for i using that by (simp add: unat_wire32 VALUE_BITS_def)
  have "map (\<lambda>x. pvals b ins ! unat x) (map wire32 [0..<VALUE_BITS]) = bools (to_bits_msb a)"
    using v u by (intro nth_equalityI) auto
  then show ?thesis using a n u by (auto simp: pholds_def)
qed

lemma pb_seed_xor:
  assumes r: "pb_ready sha256 sha c0 c1 ins b0 b" and n: "2 * VALUE_BITS \<le> pb_next b" "pb_next b \<le> 1000"
    and a: "wf_value a" "wf_value c" and v: "\<forall>i < 2 * VALUE_BITS. pvals b ins ! i = bools (to_bits_msb a @ to_bits_msb c) ! i"
  shows "\<exists>p b'. pb_collect (\<lambda>i. pb_xor_w (wire32 i) (wire32 (VALUE_BITS + i))) [0..<VALUE_BITS] b = Inr (p, b')
     \<and> pb_next b' = pb_next b + VALUE_BITS \<and> pb_grows b b' \<and> pholds b' ins p (combine a c)"
proof -
  note f = pb_ready_facts [OF r]
  have u: "unat (wire32 i) = i" "unat (wire32 (VALUE_BITS + i)) = VALUE_BITS + i" if "i < VALUE_BITS" for i
    using that by (simp_all add: unat_wire32 VALUE_BITS_def)
  have rng: "\<forall>x \<in> set [0..<VALUE_BITS]. unat (wire32 x) < pb_next b \<and> unat (wire32 (VALUE_BITS + x)) < pb_next b"
    using u n by auto
  have l: "pb_next b + length [0..<VALUE_BITS] \<le> 2 ^ 30" using n by (simp add: VALUE_BITS_def)
  obtain b' where b': "pb_collect (\<lambda>i. pb_xor_w (wire32 i) (wire32 (VALUE_BITS + i))) [0..<VALUE_BITS] b
        = Inr (map wire32 [pb_next b..<pb_next b + VALUE_BITS], b')"
      "pb_next b' = pb_next b + VALUE_BITS" "pb_grows b b'"
      "map (\<lambda>w. pvals b' ins ! w) [pb_next b..<pb_next b + VALUE_BITS]
        = map (\<lambda>i. pvals b ins ! unat (wire32 i) \<noteq> pvals b ins ! unat (wire32 (VALUE_BITS + i))) [0..<VALUE_BITS]"
    using pb_collect_xor_spec [OF f(1,2) rng l, unfolded length_upt diff_zero] by (elim exE conjE) (rule that)
  have w: "unat (wire32 w) = w" if "w < pb_next b + VALUE_BITS" for w using that n by (simp add: unat_wire32 VALUE_BITS_def)
  have e: "(pvals b ins ! unat (wire32 i) \<noteq> pvals b ins ! unat (wire32 (VALUE_BITS + i))) = bit (to_bits_msb (combine a c) ! i) 0"
    if i: "i < VALUE_BITS" for i
  proof -
    have "pvals b ins ! i = bit (to_bits_msb a ! i) 0" "pvals b ins ! (VALUE_BITS + i) = bit (to_bits_msb c ! i) 0"
      using v [rule_format, of i] v [rule_format, of "VALUE_BITS + i"] i by (simp_all add: nth_append)
    then show ?thesis unfolding u [OF i] combine_def to_bits_msb_xor [OF i] bit_xor_iff by simp
  qed
  have vv: "map (\<lambda>w. pvals b' ins ! w) [pb_next b..<pb_next b + VALUE_BITS] = bools (to_bits_msb (combine a c))"
  proof -
    have "bools (to_bits_msb (combine a c)) = map (\<lambda>i. bit (to_bits_msb (combine a c) ! i) 0) [0..<VALUE_BITS]"
      by (intro nth_equalityI) simp_all
    also have "\<dots> = map (\<lambda>i. pvals b ins ! unat (wire32 i) \<noteq> pvals b ins ! unat (wire32 (VALUE_BITS + i))) [0..<VALUE_BITS]"
      by (rule map_cong [OF refl]) (simp only: set_upt atLeastLessThan_iff e [symmetric])
    finally show ?thesis using b'(4) by (simp only:)
  qed
  have "map (\<lambda>x. pvals b' ins ! unat x) (map wire32 [pb_next b..<pb_next b + VALUE_BITS]) = map (\<lambda>w. pvals b' ins ! w) [pb_next b..<pb_next b + VALUE_BITS]"
    unfolding map_map o_def by (rule map_cong [OF refl]) (simp add: w)
  then have "pholds b' ins (map wire32 [pb_next b..<pb_next b + VALUE_BITS]) (combine a c)"
    unfolding pholds_def vv using w b'(2) by (auto simp: combine_def)
  then show ?thesis using b' by auto
qed

lemma chunk_program_run:
  assumes g: "sha_gadget sha256 sha" "gadget_closed sha" and size: "length ks * Suc (length (c_gates sha)) + 1100 \<le> 2 ^ 30"
    and ks: "\<forall>k \<in> set ks. k < INDEX_BITS" and a: "wf_value a" and c: "wf_value c"
    and ins: "ins = bools (if first then to_bits_msb a @ to_bits_msb c else to_bits_msb a)"
    and v: "v = (if first then combine a c else a)"
  shows "\<exists>p. chunk_from_sha sha ks first = Inr p \<and> prog_ok p \<and> pr_num_inputs p = length ins \<and> output_len p = VALUE_BITS
    \<and> prog_eval p ins = bools (to_bits_msb (fold (hash_step sha256) ks v))
    \<and> (And \<in> g_typ ` set (c_gates sha) \<and> ks \<noteq> [] \<longrightarrow> 0 < num_ands p)"
proof -
  define ni where "ni = (if first then 2 * VALUE_BITS else VALUE_BITS)"
  have ni: "0 < ni" "ni + 2 \<le> 2 ^ 30" "length ins = ni" "VALUE_BITS \<le> ni" "ni \<le> 512" by (simp_all add: ni_def ins VALUE_BITS_def)
  obtain b0 b1 where b1: "pb_xor_w 0 0 (pb_new ni) = Inr (wire32 ni, b0)" "pb_inv_w (wire32 ni) b0 = Inr (wire32 (ni + 1), b1)"
      "pb_next b1 = ni + 2" "pb_ready sha256 sha (wire32 ni) (wire32 (ni + 1)) ins b1 b1" "\<forall>i < ni. pvals b1 ins ! i = ins ! i"
    using pb_start [OF ni(1,2,3) g] by blast
  let ?seed = "if first then pb_collect (\<lambda>i. pb_xor_w (wire32 i) (wire32 (VALUE_BITS + i))) [0..<VALUE_BITS] b1
              else Inr (map wire32 [0..<VALUE_BITS], b1)"
  have "\<exists>p b2. ?seed = Inr (p, b2) \<and> pb_grows b1 b2 \<and> pb_next b2 \<le> 770 \<and> pholds b2 ins p v"
  proof (cases first)
    case True
    have "\<forall>i < 2 * VALUE_BITS. pvals b1 ins ! i = bools (to_bits_msb a @ to_bits_msb c) ! i"
      using b1(5) True by (simp add: ni_def ins)
    then show ?thesis using pb_seed_xor [OF b1(4) _ _ a c] b1(3) True by (auto simp: ni_def VALUE_BITS_def v)
  next
    case False
    have "\<forall>i < VALUE_BITS. pvals b1 ins ! i = bit (to_bits_msb a ! i) 0" using b1(5) False by (simp add: ni_def ins)
    then have "pholds b1 ins (map wire32 [0..<VALUE_BITS]) a" using pb_seed_direct [OF a] b1(3) ni by simp
    then show ?thesis using False b1(3) pb_ready_facts(1) [OF b1(4)] by (simp add: v ni_def VALUE_BITS_def pb_grows_refl)
  qed
  then obtain p b2 where b2: "?seed = Inr (p, b2)" "pb_grows b1 b2" "pb_next b2 \<le> 770" "pholds b2 ins p v" by blast
  note r2 = pb_ready_grows [OF b1(4) b2(2)]
  have sz: "int (length ks) * (1 + int (length (c_gates sha))) + 1100 \<le> 2 ^ 30"
    using size by (simp add: algebra_simps flip: of_nat_le_iff [where 'a = int])
  have "int (pb_next b2) + int (length ks) * (1 + int (length (c_gates sha))) < 2 ^ 30 + 1" using sz b2(3) by simp
  then obtain p' b3 where b3: "foldR (pb_hash_gates sha (wire32 ni) (wire32 (ni + 1))) ks (p, b2) = Inr (p', b3)"
      "pb_ready sha256 sha (wire32 ni) (wire32 (ni + 1)) ins b1 b3"
      "int (pb_next b3) = int (pb_next b2) + int (length ks) * (1 + int (length (c_gates sha)))"
      "pholds b3 ins p' (fold (hash_step sha256) ks v)" "And \<in> g_typ ` set (c_gates sha) \<and> ks \<noteq> [] \<longrightarrow> has_and b3"
    using direct.chain [OF r2 b2(4) ks] by blast
  have tk: "take VALUE_BITS p' = p'" "length p' = VALUE_BITS" using b3(4) by (simp_all add: pholds_def)
  have "pb_next b3 + length p' \<le> 2 ^ 30" using sz b2(3) b3(3) tk(2) by (simp add: VALUE_BITS_def)
  moreover have "\<forall>x \<in> set p'. unat x < pb_next b3" using b3(4) by (simp add: pholds_def)
  ultimately obtain ws b4 q where q: "pb_collect (\<lambda>wire. pb_xor_w wire (wire32 ni)) p' b3 = Inr (ws, b4)" "pb_finish (length p') b4 = Inr q"
     "prog_ok q" "pr_num_inputs q = length ins" "output_len q = length p'" "prog_eval q ins = map (\<lambda>x. pvals b3 ins ! unat x) p'" "has_and b3 \<longrightarrow> 0 < num_ands q"
    using pb_end [OF b3(2)] by blast
  have "\<not> (\<exists>k \<in> set ks. k \<ge> INDEX_BITS)" using ks by auto
  then have "chunk_from_sha sha ks first = Inr q"
    using q(2) unfolding chunk_from_sha_def validate_sha_ok [OF g(1)] ni_def [symmetric]
    by (simp only: bindR_simps prod.case b1(1,2) b2(1) b3(1) tk q(1) if_False)
  then show ?thesis using q b3(4,5) tk by (simp add: pholds_def)
qed

lemma pb_tile_step_walk: "pb_tile_step sha c0 c1 offset depth = tile_walk (pb_hash_gates sha c0 c1) offset depth"
  by (simp add: fun_eq_iff pb_tile_step_def tile_walk_def Let_def)

lemma tile_program_run:
  assumes g: "sha_gadget sha256 sha" "gadget_closed sha" and h: "1 \<le> h" "offset + h \<le> INDEX_BITS"
    and size: "h * 2 ^ h * Suc (length (c_gates sha)) + 256 * 2 ^ h + 258 \<le> 2 ^ 30" and v: "wf_value v"
  shows "\<exists>p. tile_from_sha sha offset h = Inr p \<and> prog_ok p \<and> pr_num_inputs p = VALUE_BITS \<and> output_len p = VALUE_BITS * 2 ^ h
    \<and> prog_eval p (bools (to_bits_msb v)) = concat (map (\<lambda>s. bools (to_bits_msb (leaf_value sha256 offset v s))) [0..<2 ^ h])
    \<and> (And \<in> g_typ ` set (c_gates sha) \<longrightarrow> 0 < num_ands p)"
proof -
  define ins where "ins = bools (to_bits_msb v)"
  let ?c0 = "wire32 VALUE_BITS" and ?c1 = "wire32 (VALUE_BITS + 1)"
  have ni: "0 < VALUE_BITS" "VALUE_BITS + 2 \<le> 2 ^ 30" "length ins = VALUE_BITS" by (simp_all add: ins_def VALUE_BITS_def)
  obtain b0 b1 where b1: "pb_xor_w 0 0 (pb_new VALUE_BITS) = Inr (?c0, b0)" "pb_inv_w ?c0 b0 = Inr (?c1, b1)"
      "pb_next b1 = VALUE_BITS + 2" "pb_ready sha256 sha ?c0 ?c1 ins b1 b1" "\<forall>i < VALUE_BITS. pvals b1 ins ! i = ins ! i"
    using pb_start [OF ni g] by blast
  let ?node = "(replicate (2 ^ h) [])[0 := map wire32 [0..<VALUE_BITS]]"
  have "pholds b1 ins (map wire32 [0..<VALUE_BITS]) v" using pb_seed_direct [OF v] b1(3,5) by (simp add: ins_def)
  then have inv1: "tree_inv (\<lambda>b. pholds b ins) sha256 offset (2 ^ h) v 1 1 (?node, b1)" using h(2) by (intro tree_start) auto
  have sz: "int (h * 2 ^ h) * (1 + int (length (c_gates sha))) + 256 * 2 ^ h + 258 \<le> 2 ^ 30"
    using size by (simp add: algebra_simps flip: of_nat_le_iff [where 'a = int])
  have "(0 :: int) \<le> 256 * 2 ^ h" by simp
  then have bnd1: "int (pb_next b1) + int (h * 2 ^ h) * (1 + int (length (c_gates sha))) < 2 ^ 30 + 1"
    using sz b1(3) unfolding VALUE_BITS_def by linarith
  obtain node b2 where b2: "foldR (\<lambda>depth. foldR (pb_tile_step sha ?c0 ?c1 offset depth) [1..<2 ^ h]) [1..<Suc h] (?node, b1) = Inr (node, b2)"
      "pb_ready sha256 sha ?c0 ?c1 ins b1 b2" "tree_inv (\<lambda>b. pholds b ins) sha256 offset (2 ^ h) v (Suc h) 1 (node, b2)"
      "int (pb_next b2) \<le> int (pb_next b1) + int (h * 2 ^ h) * (1 + int (length (c_gates sha)))"
      "And \<in> g_typ ` set (c_gates sha) \<longrightarrow> has_and b2"
    using direct.levels [OF h(2) b1(4) inv1 bnd1] h(1) unfolding pb_tile_step_walk by auto
  have leaf: "pholds b2 ins (node ! t) (leaf_value sha256 offset v t)" if "t < 2 ^ h" for t
    using direct.leaves(1) [OF b2(3) that] .
  have len: "length node = 2 ^ h" using b2(3) by (simp add: tree_inv_def)
  let ?ps = "concat node"
  have take_id: "map (take VALUE_BITS) node = node"
    using leaf len by (intro nth_equalityI) (auto simp: pholds_def)
  have "map length node = replicate (2 ^ h) VALUE_BITS"
    using leaf len by (intro nth_equalityI) (auto simp: pholds_def)
  then have lenp: "length ?ps = VALUE_BITS * 2 ^ h" by (simp add: length_concat sum_list_replicate)
  have rng: "\<forall>x \<in> set ?ps. unat x < pb_next b2" using leaf len by (fastforce simp: pholds_def in_set_conv_nth)
  have vals: "map (\<lambda>x. pvals b2 ins ! unat x) ?ps = concat (map (\<lambda>s. bools (to_bits_msb (leaf_value sha256 offset v s))) [0..<2 ^ h])"
  proof -
    have "map (map (\<lambda>x. pvals b2 ins ! unat x)) node = map (\<lambda>s. bools (to_bits_msb (leaf_value sha256 offset v s))) [0..<2 ^ h]"
      using leaf len by (intro nth_equalityI) (auto simp: pholds_def)
    then show ?thesis unfolding map_concat by simp
  qed
  have "int (length ?ps) = 256 * 2 ^ h" unfolding lenp by (simp add: VALUE_BITS_def)
  then have "int (pb_next b2 + length ?ps) \<le> 2 ^ 30" using sz b2(4) b1(3) by (simp add: VALUE_BITS_def)
  then have bnd: "pb_next b2 + length ?ps \<le> 2 ^ 30" by simp
  obtain ws b3 q where q: "pb_collect (\<lambda>wire. pb_xor_w wire ?c0) ?ps b2 = Inr (ws, b3)" "pb_finish (VALUE_BITS * 2 ^ h) b3 = Inr q"
     "prog_ok q" "pr_num_inputs q = VALUE_BITS" "output_len q = VALUE_BITS * 2 ^ h" "prog_eval q ins = map (\<lambda>x. pvals b2 ins ! unat x) ?ps"
     "has_and b2 \<longrightarrow> 0 < num_ands q"
    using pb_end [OF b2(2) rng bnd] unfolding lenp ni(3) by blast
  have "\<not> (h < 1 \<or> h > INDEX_BITS)" "\<not> offset + h > INDEX_BITS" using h by auto
  then have "tile_from_sha sha offset h = Inr q"
    unfolding tile_from_sha_def validate_sha_ok [OF g(1)] Let_def Suc_eq_plus1 [symmetric]
    by (simp only: bindR_simps prod.case b1(1,2) [unfolded Suc_eq_plus1 [symmetric]] b2(1) [unfolded Suc_eq_plus1 [symmetric]] take_id
          q(1,2) [unfolded Suc_eq_plus1 [symmetric]] if_False)
  then show ?thesis using q vals b2(5) unfolding ins_def by metis
qed

lemma not_gadget_closed: "gadget_closed not_gadget"
proof -
  have "reads_defined {..<512} (map (\<lambda>i. \<lparr>g_typ = Inv, g_in0 = int i, g_in1 = - 1, g_out = 512 + int i\<rparr>) xs)" if "set xs \<subseteq> {..<512}" for xs
  proof -
    have "reads_defined D (map (\<lambda>i. \<lparr>g_typ = Inv, g_in0 = int i, g_in1 = - 1, g_out = 512 + int i\<rparr>) xs)" if "{..<512} \<subseteq> D" for D
      using that \<open>set xs \<subseteq> {..<512}\<close> by (induction xs arbitrary: D) (simp_all, blast)
    then show ?thesis by blast
  qed
  from this [of "[0..<256]"] have "reads_defined {..<512} (c_gates not_gadget)" by (simp add: not_gadget_def atLeast0LessThan)
  moreover have "{512..<768} \<subseteq> written_wires (c_gates not_gadget)"
  proof
    fix x :: nat assume "x \<in> {512..<768}"
    then have "x = nat (512 + int (x - 512))" "x - 512 \<in> set [0..<256]" by auto
    then show "x \<in> written_wires (c_gates not_gadget)"
      unfolding written_wires_def not_gadget_def circuit.select_convs set_map image_image gate.select_convs by blast
  qed
  ultimately show ?thesis by (simp add: gadget_closed_def) (simp add: not_gadget_def, blast)
qed

end
