(* ===== verification/Party_Cli.thy ===== *)
theory Party_Cli
  imports Program
begin

text \<open>
  The command line and the helpers of \<open>shachain2pc-party\<close> (\<open>lib.rs\<close>, \<open>helpers.rs\<close>): errors, index
  specifications, the arguments, the modes chosen by environment variables, the guard on revealing the
  seed, the split of a range into a shared trunk and low bits, and the programs of a chunk or a tile.
  The environment is a map from names to values. Addresses are parsed by the standard library's
  \<open>IpAddr::from_str\<close>, a parameter \<open>parse_ip\<close> here, since nothing looks into an address.
\<close>

unbundle bit_operations_syntax

section \<open>Errors\<close>

datatype party_error =
    PUsage string
  | PParse string
  | PCircuit circuit_error
  | PCompat compat_error
  | PWire wire_error
  | PIo io_error
  | PCircuitMismatch
  | PSeedRevealRefused
  | PUnsupportedMode string
  | PPanic \<comment> \<open>a failed index or \<open>expect\<close>\<close>

fun show_party_error :: "party_error \<Rightarrow> string" where
  "show_party_error (PUsage msg) = msg"
| "show_party_error (PParse msg) = msg"
| "show_party_error (PCircuit e) = show_circuit_error e"
| "show_party_error (PCompat e) = show_compat_error e"
| "show_party_error (PWire e) = show_wire_error e"
| "show_party_error (PIo e) = show_io_error e"
| "show_party_error PCircuitMismatch =
     ''shachain2pc: circuit mismatch -- the two parties are not running the same agreed circuit (same index?)''"
| "show_party_error PSeedRevealRefused =
     ''I=0 reveals the seed (root of all revocation secrets); re-run with --allow-seed-reveal to proceed''"
| "show_party_error (PUnsupportedMode msg) = msg"
| "show_party_error PPanic = ''panic''"

section \<open>Index specifications\<close>

datatype index_spec = Single index48 | Range index48 index48

fun is_range :: "index_spec \<Rightarrow> bool" where
  "is_range (Single _) = False"
| "is_range (Range _ _) = True"

fun indices :: "index_spec \<Rightarrow> index48 list option" where
  "indices (Single _) = None"
| "indices (Range lo hi) = Some (map (\<lambda>v. Index48 (of_nat v)) [unat (index_get lo)..<Suc (unat (index_get hi))])"

fun contains_seed :: "index_spec \<Rightarrow> bool" where
  "contains_seed (Single i) = (index_get i = 0)"
| "contains_seed (Range lo hi) = (index_get lo = 0 \<and> index_get hi \<ge> index_get lo)"

fun single_index :: "index_spec \<Rightarrow> party_error + index48" where
  "single_index (Single i) = Inr i"
| "single_index (Range _ _) = Inl (PUnsupportedMode ''this operation requires a single index, not a range'')"

definition MAX_BATCH :: u64 where
  "MAX_BATCH = 100000"

definition find_dash :: "string \<Rightarrow> nat option" where
  \<comment> \<open>\<open>spec.find('-')\<close>\<close>
  "find_dash s = (let k = length (takeWhile (\<lambda>ch. ch \<noteq> CHR ''-'') s) in if k < length s then Some k else None)"

definition parse_hex_index :: "string \<Rightarrow> party_error + index48" where
  "parse_hex_index s = mapErr (\<lambda>e. PParse (show_parse_error e)) (index_from_hex s)"

definition parse_index_spec :: "string \<Rightarrow> party_error + index_spec" where
  "parse_index_spec spec = (case find_dash spec of
       Some dash \<Rightarrow>
         (let lo_s = take dash spec; hi_s = drop (dash + 1) spec in
          if lo_s = [] \<or> hi_s = [] then Inl (PParse ''range must be LO-HI (both hex)'')
          else bindR (parse_hex_index lo_s) (\<lambda>lo. bindR (parse_hex_index hi_s) (\<lambda>hi.
            if index_get lo > index_get hi then Inl (PParse ''range LO must be <= HI'')
            else let count = index_get hi - index_get lo + 1 in
              if count > MAX_BATCH then Inl (PParse ''range too large (max 100000 indices)'')
              else Inr (Range lo hi))))
     | None \<Rightarrow> bindR (parse_hex_index spec) (\<lambda>index. Inr (Single index)))"

definition ensure_index_allowed :: "index_spec \<Rightarrow> bool \<Rightarrow> party_error + unit" where
  "ensure_index_allowed index allow_seed_reveal =
     (if contains_seed index \<and> \<not> allow_seed_reveal then Inl PSeedRevealRefused else Inr ())"

section \<open>Arguments\<close>

definition parse_unsigned :: "int \<Rightarrow> string \<Rightarrow> int option" where
  \<comment> \<open>\<open>str::parse\<close> of an unsigned type of \<open>lim\<close> values: an optional plus sign, at least one digit, no overflow\<close>
  "parse_unsigned lim s =
     (let ds = (case s of ch # rest \<Rightarrow> if ch = CHR ''+'' then rest else s | [] \<Rightarrow> s)
      in if ds = [] then None else parse_i32_digits lim ds 0)"

definition parse_i64 :: "string \<Rightarrow> int option" where
  "parse_i64 s =
     (let (neg, ds) = (case s of
            ch # rest \<Rightarrow> if ch = CHR ''-'' then (True, rest) else if ch = CHR ''+'' then (False, rest) else (False, s)
          | [] \<Rightarrow> (False, s))
      in if ds = [] then None
         else if neg then map_option uminus (parse_i32_digits (2 ^ 63 + 1) ds 0)
         else parse_i32_digits (2 ^ 63) ds 0)"

definition parse_usize :: "string \<Rightarrow> nat option" where
  "parse_usize s = map_option nat (parse_unsigned (2 ^ 64) s)"

record 'ip args =
  ar_role :: role
  ar_port :: u16
  ar_index_spec :: index_spec
  ar_share :: value32
  ar_peer_ip :: 'ip
  ar_allow_seed_reveal :: bool

definition usage :: "string \<Rightarrow> string" where
  "usage program = ''usage: '' @ program @ '' [--allow-seed-reveal] <1|2> <port> <I_spec> <share_hex> [peer_ip]'' @ [CHR 0x0A]
     @ ''  I_spec = single hex index (\"64\") or inclusive hex range (\"64-c8\")'' @ [CHR 0x0A]
     @ ''  1 = ALICE (garbler, listens), 2 = BOB (evaluator, connects)''"

definition scan_arg :: "string \<Rightarrow> bool \<times> string list \<Rightarrow> party_error + bool \<times> string list" where
  "scan_arg arg = (\<lambda>(allow, positional).
     if arg = ''--allow-seed-reveal'' then Inr (True, positional)
     else if take 2 arg = ''--'' then Inl (PParse (''unknown flag: '' @ arg))
     else Inr (allow, positional @ [arg]))"

definition parse_args :: "(string \<Rightarrow> 'ip option) \<Rightarrow> 'ip \<Rightarrow> string list \<Rightarrow> party_error + 'ip args" where
  \<comment> \<open>\<open>localhost\<close> is \<open>Ipv4Addr::LOCALHOST\<close>\<close>
  "parse_args parse_ip localhost argv =
     (let program = (case argv of p # _ \<Rightarrow> p | [] \<Rightarrow> ''party'') in
      bindR (foldR scan_arg (drop 1 argv) (False, [])) (\<lambda>(allow_seed_reveal, positional).
      if length positional < 4 \<or> length positional > 5 then Inl (PUsage (usage program))
      else
      bindR (okOr (PParse (''party must be 1 or 2, got '' @ positional ! 0)) (parse_unsigned 256 (positional ! 0))) (\<lambda>role_id.
      bindR (mapErr (\<lambda>e. PParse (show_parse_error e)) (from_party_id (of_int role_id))) (\<lambda>role.
      bindR (okOr (PParse ''port must be in 1..65535'') (parse_unsigned 65536 (positional ! 1))) (\<lambda>port.
      if port = 0 then Inl (PParse ''port must be in 1..65535'')
      else
      bindR (parse_index_spec (positional ! 2)) (\<lambda>index_spec.
      bindR (mapErr (\<lambda>e. PParse (show_parse_error e)) (value_from_hex (positional ! 3))) (\<lambda>share.
      bindR (ensure_index_allowed index_spec allow_seed_reveal) (\<lambda>_.
      bindR (if 4 < length positional
             then okOr (PParse (''bad peer ip: '' @ positional ! 4)) (parse_ip (positional ! 4)) else Inr localhost) (\<lambda>peer_ip.
        Inr \<lparr>ar_role = role, ar_port = of_int port, ar_index_spec = index_spec, ar_share = share, ar_peer_ip = peer_ip,
             ar_allow_seed_reveal = allow_seed_reveal\<rparr>)))))))))"

section \<open>Modes\<close>

datatype requested_mode = Full | Chunked | Tree | Cache

type_synonym env = "string \<Rightarrow> string option"

definition env_nonzero :: "env \<Rightarrow> string \<Rightarrow> bool" where
  "env_nonzero env name = (case env name of None \<Rightarrow> False
     | Some value \<Rightarrow> (case parse_i32 value of None \<Rightarrow> False | Some v \<Rightarrow> v \<noteq> 0))"

definition env_positive :: "env \<Rightarrow> string \<Rightarrow> bool" where
  "env_positive env name = (case env name of None \<Rightarrow> False
     | Some value \<Rightarrow> (case parse_i32 value of None \<Rightarrow> False | Some v \<Rightarrow> v > 0))"

definition requested_mode_from_env :: "env \<Rightarrow> bool \<Rightarrow> requested_mode" where
  "requested_mode_from_env env is_rng =
     (if is_rng \<and> env_nonzero env ''SHACHAIN2PC_CACHE'' then Cache
      else if is_rng \<and> env_nonzero env ''SHACHAIN2PC_TREE'' then Tree
      else if env_positive env ''SHACHAIN2PC_CHUNK_BLOCKS'' then Chunked
      else Full)"

definition chunk_blocks_from_env :: "env \<Rightarrow> nat option" where
  "chunk_blocks_from_env env = (case Option.bind (env ''SHACHAIN2PC_CHUNK_BLOCKS'') parse_usize of
       Some value \<Rightarrow> if value > 0 then Some value else None
     | None \<Rightarrow> None)"

definition trunk_chunk_blocks_from_env :: "env \<Rightarrow> int \<Rightarrow> int" where
  "trunk_chunk_blocks_from_env env dflt =
     (case Option.bind (env ''SHACHAIN2PC_CHUNK_BLOCKS'') parse_i32 of Some v \<Rightarrow> v | None \<Rightarrow> dflt)"

definition CACHE_TILE_HEIGHT :: nat where
  "CACHE_TILE_HEIGHT = 4"

definition CACHE_TILE_LEAVES :: nat where
  "CACHE_TILE_LEAVES = 2 ^ CACHE_TILE_HEIGHT"

definition is_power_of_two :: "nat \<Rightarrow> bool" where
  \<comment> \<open>\<open>usize::is_power_of_two\<close>\<close>
  "is_power_of_two n \<longleftrightarrow> count_ones (of_nat n :: u64) = 1"

definition validate_tile_fanout :: "nat \<Rightarrow> party_error + nat" where
  "validate_tile_fanout value =
     (if value < 1 \<or> \<not> is_power_of_two value then Inl (PUnsupportedMode ''shachain2pc: tile_fanout must be a power of two'')
      else if value > CACHE_TILE_LEAVES then Inl (PUnsupportedMode ''shachain2pc: tile_fanout > 16 not supported'')
      else Inr value)"

definition tile_fanout_from_env :: "env \<Rightarrow> party_error + nat" where
  "tile_fanout_from_env env =
     validate_tile_fanout (case Option.bind (env ''SHACHAIN2PC_TILE_FANOUT'') parse_usize of Some v \<Rightarrow> v | None \<Rightarrow> CACHE_TILE_LEAVES)"

definition tile_height_for_fanout :: "nat \<Rightarrow> party_error + nat" where
  "tile_height_for_fanout tile_fanout = bindR (validate_tile_fanout tile_fanout) (\<lambda>_. Inr (trailing_zeros (of_nat tile_fanout :: u64)))"

definition effective_chunk_size :: "int \<Rightarrow> nat" where
  \<comment> \<open>\<open>trunk_chunk_blocks\<close> is an \<open>i32\<close>: its conversion to \<open>usize\<close> does not fail\<close>
  "effective_chunk_size trunk_chunk_blocks = (if trunk_chunk_blocks > 0 then nat trunk_chunk_blocks else INDEX_BITS)"

definition tamper_step_from_env :: "env \<Rightarrow> int" where
  "tamper_step_from_env env = (case Option.bind (env ''SHACHAIN2PC_TAMPER'') parse_i64 of Some v \<Rightarrow> v | None \<Rightarrow> - 1)"

definition ensure_mode_supported_for_now :: "index_spec \<Rightarrow> requested_mode \<Rightarrow> party_error + unit" where
  "ensure_mode_supported_for_now index_spec mode = (case (is_range index_spec, mode) of
       (False, Full) \<Rightarrow> Inr ()
     | (True, Full) \<Rightarrow> Inr ()
     | (False, Chunked) \<Rightarrow> Inr ()
     | (True, Chunked) \<Rightarrow> Inl (PUnsupportedMode ''Rust SHACHAIN2PC_CHUNK_BLOCKS mode is single-index only'')
     | (True, Tree) \<Rightarrow> Inr ()
     | (False, Tree) \<Rightarrow> Inl (PUnsupportedMode ''Rust SHACHAIN2PC_TREE mode requires a range'')
     | (True, Cache) \<Rightarrow> Inr ()
     | (False, Cache) \<Rightarrow> Inl (PUnsupportedMode ''Rust SHACHAIN2PC_CACHE mode requires a range''))"

section \<open>Programs\<close>

fun tamper_gates :: "int \<Rightarrow> gate list \<Rightarrow> gate list" where
  "tamper_gates c0_wire [] = []"
| "tamper_gates c0_wire (g # gs) =
     (if g_typ g = Inv \<and> g_in0 g \<noteq> c0_wire then g\<lparr>g_in0 := 0\<rparr> # gs else g # tamper_gates c0_wire gs)"

definition tamper_first_flip :: "circuit \<Rightarrow> circuit" where
  "tamper_first_flip c =
     (let c0_wire = (case c_gates c of g # _ \<Rightarrow> g_out g | [] \<Rightarrow> - 1) in c\<lparr>c_gates := tamper_gates c0_wire (c_gates c)\<rparr>)"

definition chunk_program :: "circuit \<Rightarrow> nat list \<Rightarrow> bool \<Rightarrow> bool \<Rightarrow> party_error + program" where
  "chunk_program sha bits first tamper =
     (if \<not> tamper then mapErr PCompat (chunk_from_sha sha bits first)
      else bindR (mapErr PCircuit (build_chunk_circuit sha bits first)) (\<lambda>circuit.
        let circuit = tamper_first_flip circuit in
        bindR (mapErr PCircuit (check_chunk_circuit circuit)) (\<lambda>_. mapErr PCompat (from_circuit circuit))))"

definition build_tile_program :: "circuit \<Rightarrow> nat \<Rightarrow> nat \<Rightarrow> bool \<Rightarrow> party_error + program" where
  "build_tile_program sha bit_offset tile_height tamper =
     (if \<not> tamper then mapErr PCompat (tile_from_sha sha bit_offset tile_height)
      else bindR (mapErr PCircuit (build_tile_circuit sha bit_offset tile_height)) (\<lambda>circuit.
        let circuit = tamper_first_flip circuit in
        bindR (mapErr PCircuit (check_tile_circuit circuit tile_height)) (\<lambda>_. mapErr PCompat (from_circuit circuit))))"

definition value_from_bits :: "bytes \<Rightarrow> party_error + value32" where
  "value_from_bits bits = mapErr (\<lambda>e. PParse (show_parse_error e)) (from_bits_msb bits)"

section \<open>Splitting a range\<close>

definition range_split_masks :: "u64 list \<Rightarrow> party_error + int \<times> u64 \<times> u64" where
  "range_split_masks idxs = (case idxs of
       [] \<Rightarrow> Inl (PUnsupportedMode ''range must not be empty'')
     | first # _ \<Rightarrow>
       (let diff = fold (\<lambda>index diff. diff OR (index XOR first)) idxs 0;
            split = (case filter (bit_set diff) (rev [0..<INDEX_BITS]) of b # _ \<Rightarrow> int b | [] \<Rightarrow> - 1);
            low_mask = (if split < 0 then 0 else push_bit (nat split + 1) 1 - 1);
            high_mask = MAX_INDEX AND NOT low_mask
        in Inr (split, low_mask, high_mask)))"

definition check_circuit_digest :: "bytes \<Rightarrow> bytes \<Rightarrow> party_error + unit" where
  \<comment> \<open>the decision of \<open>exchange_circuit_digest\<close>, once the digests are exchanged\<close>
  "check_circuit_digest peer digest = (if peer = digest then Inr () else Inl PCircuitMismatch)"

section \<open>Facts\<close>

lemma range_split_bits:
  assumes "range_split_masks (first # rest) = Inr (split, low, high)"
  shows "\<And>b. bit low b \<longleftrightarrow> int b \<le> split" and "high = MAX_INDEX AND NOT low" and "- 1 \<le> split" and "split < int INDEX_BITS"
    and "\<And>i b. i \<in> set (first # rest) \<Longrightarrow> split < int b \<Longrightarrow> b < INDEX_BITS \<Longrightarrow> bit i b = bit first b"
proof -
  let ?idxs = "first # rest"
  define diff where "diff = fold (\<lambda>index diff. diff OR (index XOR first)) ?idxs 0"
  have bd: "bit (fold (\<lambda>index diff. diff OR (index XOR first)) xs d) b \<longleftrightarrow> bit d b \<or> (\<exists>i \<in> set xs. bit i b \<noteq> bit first b)" for xs d b
    by (induction xs arbitrary: d) (auto simp: bit_or_iff bit_xor_iff)
  let ?bs = "filter (bit_set diff) (rev [0..<INDEX_BITS])"
  have sp: "split = (case ?bs of b # _ \<Rightarrow> int b | [] \<Rightarrow> - 1)"
    and low: "low = (if split < 0 then 0 else push_bit (nat split + 1) 1 - 1)" and "high = MAX_INDEX AND NOT low"
    using assms [unfolded range_split_masks_def list.case Let_def, folded diff_def] by (auto simp only: sum.inject prod.inject)
  then show "high = MAX_INDEX AND NOT low" by blast
  have bs: "?bs = set_bits_desc diff" by (simp add: set_bits_desc_def)
  have rng: "- 1 \<le> split \<and> split < int INDEX_BITS \<and> (\<forall>b < INDEX_BITS. split < int b \<longrightarrow> \<not> bit diff b)"
  proof (cases "set_bits_desc diff")
    case Nil
    then have "\<forall>b < INDEX_BITS. \<not> bit diff b" using set_set_bits_desc [of diff] by auto
    then show ?thesis using Nil sp unfolding bs by (simp add: INDEX_BITS_def)
  next
    case (Cons c cs)
    have "c < INDEX_BITS" using set_set_bits_desc [of diff] Cons by (metis (mono_tags, lifting) list.set_intros(1) mem_Collect_eq)
    moreover have "b \<le> c" if "b < INDEX_BITS" "bit diff b" for b
    proof -
      have "b \<in> set (c # cs)" using that set_set_bits_desc [of diff] Cons by (metis (mono_tags, lifting) mem_Collect_eq)
      then show ?thesis using sorted_set_bits_desc [of diff] unfolding Cons by auto
    qed
    ultimately show ?thesis using Cons sp unfolding bs by force
  qed
  then show "- 1 \<le> split" "split < int INDEX_BITS" by blast+
  show "bit low b \<longleftrightarrow> int b \<le> split" for b
  proof (cases "split < 0")
    case True
    then show ?thesis using low by simp
  next
    case False
    then have "low = mask (nat split + 1)" using low by (simp add: mask_eq_exp_minus_1 push_bit_eq_mult)
    then show ?thesis using False rng by (auto simp: bit_mask_iff INDEX_BITS_def)
  qed
  show "bit i b = bit first b" if "i \<in> set ?idxs" "split < int b" "b < INDEX_BITS" for i b
  proof -
    have "\<not> bit diff b" using rng that by blast
    then show ?thesis using bd [of ?idxs 0 b] that(1) unfolding diff_def by auto
  qed
qed

lemma range_split_spec:
  assumes ne: "idxs \<noteq> []" and le: "\<forall>i \<in> set idxs. i \<le> MAX_INDEX"
  shows "\<exists>split low high. range_split_masks idxs = Inr (split, low, high) \<and> low AND high = 0
    \<and> (\<forall>i \<in> set idxs. \<forall>j \<in> set idxs. i AND high = j AND high)
    \<and> (\<forall>i \<in> set idxs. set_bits_desc i = set_bits_desc (i AND high) @ set_bits_desc (i AND low))"
proof -
  obtain first rest where f: "idxs = first # rest" using ne by (cases idxs) auto
  obtain split low high where r: "range_split_masks idxs = Inr (split, low, high)"
    by (auto simp: range_split_masks_def f Let_def)
  note b = range_split_bits [OF r [unfolded f]]
  have bh: "bit high k \<longleftrightarrow> k < INDEX_BITS \<and> split < int k" for k
    unfolding b(2) by (auto simp: bit_simps bit_MAX_INDEX b(1) INDEX_BITS_def)
  have "low AND high = 0" by (rule bit_word_eqI) (auto simp: bit_and_iff bh b(1))
  moreover have "i AND high = j AND high" if "i \<in> set idxs" "j \<in> set idxs" for i j
    using b(5) [of i] b(5) [of j] that f by (intro bit_word_eqI) (auto simp: bit_and_iff bh)
  moreover have "set_bits_desc i = set_bits_desc (i AND high) @ set_bits_desc (i AND low)" if "i \<in> set idxs" for i
  proof (rule desc_unique)
    show "sorted_wrt (>) (set_bits_desc i)" by simp
    show "sorted_wrt (>) (set_bits_desc (i AND high) @ set_bits_desc (i AND low))"
      by (auto simp: sorted_wrt_append bit_and_iff bh b(1))
    show "set (set_bits_desc i) = set (set_bits_desc (i AND high) @ set_bits_desc (i AND low))"
      by (auto simp: bit_and_iff bh b(1))
  qed
  ultimately show ?thesis using r by blast
qed

lemma parse_index_spec_ok:
  assumes "parse_index_spec s = Inr spec"
  shows "case spec of Single i \<Rightarrow> index_get i \<le> MAX_INDEX
     | Range lo hi \<Rightarrow> index_get lo \<le> index_get hi \<and> index_get hi \<le> MAX_INDEX \<and> unat (index_get hi) < unat (index_get lo) + 100000"
proof (cases "find_dash s")
  case None
  then show ?thesis using assms
    by (auto simp: parse_index_spec_def parse_hex_index_def bindR_eq_Inr dest: index_from_hex_bound)
next
  case (Some dash)
  then obtain lo hi where spec: "spec = Range lo hi" and lh: "index_get lo \<le> index_get hi" "\<not> index_get hi - index_get lo + 1 > MAX_BATCH"
      and hi: "index_get hi \<le> MAX_INDEX"
    using assms by (auto simp: parse_index_spec_def parse_hex_index_def bindR_eq_Inr Let_def dest: index_from_hex_bound split: if_splits)
  have d: "unat (index_get hi - index_get lo) = unat (index_get hi) - unat (index_get lo)" using lh(1) by (simp add: unat_sub)
  have "unat (index_get hi) < 2 ^ 48" using hi by (simp add: MAX_INDEX_eq word_le_nat_alt)
  then have "unat (index_get hi - index_get lo + 1) = unat (index_get hi) - unat (index_get lo) + 1"
    using d by (simp add: unat_word_ariths)
  moreover have "unat (index_get hi - index_get lo + 1) \<le> unat MAX_BATCH" using lh(2) by (simp add: not_less word_le_nat_alt)
  ultimately have "unat (index_get hi) < unat (index_get lo) + 100000" by (simp add: MAX_BATCH_def)
  then show ?thesis using spec lh(1) hi by simp
qed

lemma parse_args_ok:
  assumes "parse_args parse_ip localhost argv = Inr a"
  shows "0 < ar_port a \<and> wf_value (ar_share a) \<and> (contains_seed (ar_index_spec a) \<longrightarrow> ar_allow_seed_reveal a)
    \<and> (\<exists>s. parse_index_spec s = Inr (ar_index_spec a))"
proof -
  obtain allow pos port spec share ip where a: "ar_port a = of_int port" "ar_share a = share" "ar_index_spec a = spec" "ar_allow_seed_reveal a = allow"
      and p: "parse_unsigned 65536 (pos ! 1) = Some port" "port \<noteq> 0"
      and s: "parse_index_spec (pos ! 2) = Inr spec" "value_from_hex (pos ! 3) = Inr share" "ensure_index_allowed spec allow = Inr ()"
    using assms by (auto simp: parse_args_def bindR_eq_Inr Let_def split: if_splits)
  have "0 \<le> port \<and> port < 65536" using p(1) parse_i32_digits_bound [of 65536 _ 0 port]
    by (auto simp: parse_unsigned_def Let_def split: if_splits)
  then have "uint (of_int port :: u16) = port" by (simp add: unsigned_of_int take_bit_int_eq_self)
  then have "(of_int port :: u16) \<noteq> 0" using p(2) by (metis unsigned_0)
  then show ?thesis using a s by (auto simp: ensure_index_allowed_def word_gt_0 dest: value_from_hex_wf split: if_splits)
qed

end
