(* ===== verification/Party_Jobs.thy ===== *)
theory Party_Jobs
  imports Party_Cli Session
begin

text \<open>
  The jobs of \<open>shachain2pc-party\<close> (\<open>jobs.rs\<close> and the helpers they call): authenticating the two shares of
  the seed, the root and one-hash jobs, the precompute session with its cache of partial chains, the
  precompute path, and the ways to reveal a node. The two parties run in lockstep, as in \<open>Session\<close>: a pair
  holds Alice's and Bob's value, and since both run the same deterministic code over the same public
  masks, the two caches of a precompute session are one cache of pairs. The streams are open and deliver;
  opening them, the final check of the session's OTs and the release of idle memory are not modelled.
  \<open>env k n\<close> is what the environment gives the \<open>k\<close>-th program run, with \<open>n\<close> AND gates.
\<close>

unbundle bit_operations_syntax

section \<open>A joint session\<close>

type_synonym 'a both = "'a \<times> 'a"

record joint =
  jo_a :: protocol
  jo_b :: protocol
  jo_step :: nat

type_synonym runs = "nat \<Rightarrow> nat \<Rightarrow> run_env"

definition joint_setup :: "nat \<Rightarrow> block both \<Rightarrow> block both \<Rightarrow> joint" where
  \<comment> \<open>\<open>Ag2pcSession::setup_with_delta\<close> on both sides; \<open>seeds\<close> are their random blocks\<close>
  "joint_setup ssp deltas seeds = \<lparr>jo_a = protocol_setup Alice ssp (fst deltas) (fst seeds),
     jo_b = protocol_setup Bob ssp (snd deltas) (snd seeds), jo_step = 0\<rparr>"

definition run_both ::
  "(block \<Rightarrow> block \<Rightarrow> block) \<Rightarrow> (bytes \<Rightarrow> bytes) \<Rightarrow> runs \<Rightarrow> program \<Rightarrow> secure_wires both \<Rightarrow> joint
   \<Rightarrow> party_error + secure_wires both \<times> joint" where
  "run_both aes sha256 env p ws j =
     bindR (mapErr PCompat (run_program aes sha256 (env (jo_step j) (num_ands p)) p (jo_a j, fst ws) (jo_b j, snd ws)))
       (\<lambda>((prA, wA), (prB, wB)). Inr ((wA, wB), \<lparr>jo_a = prA, jo_b = prB, jo_step = jo_step j + 1\<rparr>))"

definition strip_both :: "secure_wires both \<Rightarrow> secure_wires both" where
  "strip_both ws = (strip_labels_for_reveal (fst ws), strip_labels_for_reveal (snd ws))"

definition reveal_public :: "(bytes \<Rightarrow> bytes) \<Rightarrow> joint \<Rightarrow> secure_wires both \<Rightarrow> party_error + bytes both" where
  "reveal_public sha256 j ws = mapErr PCompat (decode sha256 Public (jo_a j, fst ws) (jo_b j, snd ws))"

definition values_from_bits :: "bytes both \<Rightarrow> party_error + value32 both" where
  "values_from_bits bits = bindR (value_from_bits (fst bits)) (\<lambda>a. bindR (value_from_bits (snd bits)) (\<lambda>b. Inr (a, b)))"

definition authenticate_seed_inputs ::
  "(block \<Rightarrow> block \<Rightarrow> block) \<Rightarrow> (bytes \<Rightarrow> bytes) \<Rightarrow> ashare_bundle list both \<times> ashare_bundle list both \<Rightarrow> value32 both \<Rightarrow> joint
   \<Rightarrow> party_error + secure_wires both \<times> joint" where
  \<comment> \<open>\<open>draws\<close> are the shares drawn for Bob's input, then for Alice's\<close>
  "authenticate_seed_inputs aes sha256 draws shares j =
     (let zeros = replicate VALUE_BITS 0; alice_bits = (to_bits_msb (fst shares), zeros); bob_bits = (zeros, to_bits_msb (snd shares)) in
      bindR (mapErr PCompat (process_inputs aes sha256 (fst (fst draws)) (snd (fst draws)) [Bob]
                (jo_a j, [fst bob_bits]) (jo_b j, [snd bob_bits]))) (\<lambda>((prA, bobA), (prB, bobB)).
      bindR (mapErr PCompat (process_inputs aes sha256 (fst (snd draws)) (snd (snd draws)) [Alice]
                (prA, [fst alice_bits]) (prB, [snd alice_bits]))) (\<lambda>((prA, aliceA), (prB, aliceB)).
        Inr ((sw_concat [bobA ! 0, aliceA ! 0], sw_concat [bobB ! 0, aliceB ! 0]), j\<lparr>jo_a := prA, jo_b := prB\<rparr>))))"

definition reveal_authenticated_values ::
  "(bytes \<Rightarrow> bytes) \<Rightarrow> joint \<Rightarrow> ('i \<times> secure_wires both) list \<Rightarrow> party_error + ('i \<times> value32 both) list" where
  "reveal_authenticated_values sha256 j authenticated =
     mapR (\<lambda>(index, wires). bindR (reveal_public sha256 j wires) (\<lambda>bits.
       bindR (values_from_bits bits) (\<lambda>value. Inr (index, value)))) authenticated"

section \<open>Root and one-hash jobs\<close>

record job_env =
  \<comment> \<open>what a job is started with and what its environment gives\<close>
  jb_ssp :: nat
  jb_deltas :: "block both"
  jb_seeds :: "block both"
  jb_draws :: "ashare_bundle list both \<times> ashare_bundle list both"
  jb_runs :: runs

definition job_setup :: "job_env \<Rightarrow> joint" where
  "job_setup e = joint_setup (jb_ssp e) (jb_deltas e) (jb_seeds e)"

definition run_seed_root_job ::
  "(block \<Rightarrow> block \<Rightarrow> block) \<Rightarrow> (bytes \<Rightarrow> bytes) \<Rightarrow> job_env \<Rightarrow> circuit \<Rightarrow> value32 both \<Rightarrow> party_error + secure_wires both" where
  "run_seed_root_job aes sha256 e sha shares =
     bindR (mapErr PCompat (chunk_from_sha sha [] True)) (\<lambda>program.
     bindR (authenticate_seed_inputs aes sha256 (jb_draws e) shares (job_setup e)) (\<lambda>(seed_inputs, j).
     bindR (run_both aes sha256 (jb_runs e) program seed_inputs j) (\<lambda>(root, j). Inr root)))"

definition run_one_hash_job ::
  "(block \<Rightarrow> block \<Rightarrow> block) \<Rightarrow> (bytes \<Rightarrow> bytes) \<Rightarrow> job_env \<Rightarrow> circuit \<Rightarrow> secure_wires both \<Rightarrow> nat \<Rightarrow> party_error + secure_wires both" where
  "run_one_hash_job aes sha256 e sha parent b =
     (if b \<ge> INDEX_BITS then Inl (PUnsupportedMode ''one-H job bit is outside the 48-bit shachain index'')
      else bindR (mapErr PCompat (chunk_from_sha sha [b] False)) (\<lambda>program.
        bindR (run_both aes sha256 (jb_runs e) program parent (job_setup e)) (\<lambda>(child, j). Inr child)))"

section \<open>The precompute session\<close>

record precompute_session =
  pc_joint :: joint
  pc_sha :: circuit
  pc_seed_inputs :: "secure_wires both"
  pc_cache :: "(u32, u64 \<times> secure_wires both) bmap"

definition precompute_setup ::
  "(block \<Rightarrow> block \<Rightarrow> block) \<Rightarrow> (bytes \<Rightarrow> bytes) \<Rightarrow> job_env \<Rightarrow> circuit \<Rightarrow> value32 both \<Rightarrow> party_error + precompute_session" where
  \<comment> \<open>\<open>PrecomputeSession::setup_with_streams_and_circuit\<close>\<close>
  "precompute_setup aes sha256 e sha shares =
     bindR (authenticate_seed_inputs aes sha256 (jb_draws e) shares (job_setup e)) (\<lambda>(seed_inputs, j).
       Inr \<lparr>pc_joint = j, pc_sha = sha, pc_seed_inputs = seed_inputs, pc_cache = []\<rparr>)"

fun max_by_key :: "('a \<Rightarrow> nat) \<Rightarrow> 'a list \<Rightarrow> 'a option" where
  \<comment> \<open>\<open>Iterator::max_by_key\<close>: the last of the maximal elements\<close>
  "max_by_key f [] = None"
| "max_by_key f (x # xs) = (case max_by_key f xs of None \<Rightarrow> Some x | Some y \<Rightarrow> if f x > f y then Some x else Some y)"

definition best_parent :: "precompute_session \<Rightarrow> u64 \<Rightarrow> (u64 \<times> secure_wires both) option" where
  "best_parent ps target = max_by_key (\<lambda>e. count_ones (fst e)) (filter (\<lambda>e. can_derive_mask (fst e) target) (bm_values (pc_cache ps)))"

definition missing_bits :: "precompute_session \<Rightarrow> u64 \<Rightarrow> nat list" where
  "missing_bits ps target = (case best_parent ps target of
       None \<Rightarrow> set_bits_desc target
     | Some (parent_mask, _) \<Rightarrow> set_bits_desc (target AND NOT parent_mask))"

definition planned_checked_units :: "precompute_session \<Rightarrow> index48 \<Rightarrow> nat" where
  "planned_checked_units ps index = length (missing_bits ps (index_get index))"

definition precompute_bit ::
  "(block \<Rightarrow> block \<Rightarrow> block) \<Rightarrow> (bytes \<Rightarrow> bytes) \<Rightarrow> runs \<Rightarrow> u64 \<Rightarrow> nat
   \<Rightarrow> u64 \<times> secure_wires both option \<times> precompute_session \<Rightarrow> party_error + u64 \<times> secure_wires both option \<times> precompute_session" where
  \<comment> \<open>the loop body; \<open>carried\<close> is \<open>None\<close> until there is a carried value\<close>
  "precompute_bit aes sha256 env target b = (\<lambda>(msk, carried, ps).
     let first = (carried = None); inp = (case carried of Some w \<Rightarrow> w | None \<Rightarrow> pc_seed_inputs ps) in
     bindR (mapErr PCompat (chunk_from_sha (pc_sha ps) [b] first)) (\<lambda>program.
     bindR (run_both aes sha256 env program inp (pc_joint ps)) (\<lambda>(child, j).
       let ps = ps\<lparr>pc_joint := j\<rparr>; msk = msk OR push_bit b 1
       in Inr (msk, Some child,
            if retain_cache_mask_for_future msk target
            then ps\<lparr>pc_cache := bm_insert (of_nat (trailing_zeros msk)) (msk, child) (pc_cache ps)\<rparr> else ps))))"

definition precompute_target ::
  "(block \<Rightarrow> block \<Rightarrow> block) \<Rightarrow> (bytes \<Rightarrow> bytes) \<Rightarrow> runs \<Rightarrow> index48 \<Rightarrow> precompute_session
   \<Rightarrow> party_error + secure_wires both \<times> precompute_session" where
  "precompute_target aes sha256 env index ps =
     (let target = index_get index in
      if target = 0 then
        bindR (mapErr PCompat (chunk_from_sha (pc_sha ps) [] True)) (\<lambda>root_program.
        bindR (run_both aes sha256 env root_program (pc_seed_inputs ps) (pc_joint ps)) (\<lambda>(root, j).
          Inr (strip_both root, ps\<lparr>pc_joint := j\<rparr>)))
      else
        let (msk, carried) = (case best_parent ps target of Some (m, w) \<Rightarrow> (m, Some w) | None \<Rightarrow> (0, None)) in
        if msk = target then (case carried of Some w \<Rightarrow> Inr (strip_both w, ps) | None \<Rightarrow> Inr ((default_wires, default_wires), ps))
        else bindR (foldR (precompute_bit aes sha256 env target) (set_bits_desc (target AND NOT msk)) (msk, carried, ps)) (\<lambda>(_, carried, ps).
          let ps = ps\<lparr>pc_cache := prune_cache_for_target (pc_cache ps) target\<rparr>
          in case carried of Some w \<Rightarrow> Inr (strip_both w, ps) | None \<Rightarrow> Inr ((default_wires, default_wires), ps)))"

definition precompute_path_bit ::
  "(block \<Rightarrow> block \<Rightarrow> block) \<Rightarrow> (bytes \<Rightarrow> bytes) \<Rightarrow> runs \<Rightarrow> circuit \<Rightarrow> nat
   \<Rightarrow> u64 \<times> secure_wires both \<times> joint \<times> (u64 \<times> secure_wires both) list
   \<Rightarrow> party_error + u64 \<times> secure_wires both \<times> joint \<times> (u64 \<times> secure_wires both) list" where
  "precompute_path_bit aes sha256 env sha b = (\<lambda>(msk, carried, j, out).
     let msk = msk OR push_bit b 1 in
     bindR (mapErr PCompat (chunk_from_sha sha [b] False)) (\<lambda>program.
     bindR (run_both aes sha256 env program carried j) (\<lambda>(carried, j).
       Inr (msk, carried, j, out @ [(msk, strip_both carried)]))))"

definition run_precompute_path ::
  "(block \<Rightarrow> block \<Rightarrow> block) \<Rightarrow> (bytes \<Rightarrow> bytes) \<Rightarrow> job_env \<Rightarrow> circuit \<Rightarrow> value32 both \<Rightarrow> index48
   \<Rightarrow> party_error + (u64 \<times> secure_wires both) list" where
  "run_precompute_path aes sha256 e sha shares index =
     bindR (authenticate_seed_inputs aes sha256 (jb_draws e) shares (job_setup e)) (\<lambda>(seed_inputs, j).
     case set_bits_desc (index_get index) of
       [] \<Rightarrow>
         bindR (mapErr PCompat (chunk_from_sha sha [] True)) (\<lambda>root_program.
         bindR (run_both aes sha256 (jb_runs e) root_program seed_inputs j) (\<lambda>(root, j). Inr [(0, strip_both root)]))
     | first_bit # bits \<Rightarrow>
         bindR (mapErr PCompat (chunk_from_sha sha [first_bit] True)) (\<lambda>first_program.
         bindR (run_both aes sha256 (jb_runs e) first_program seed_inputs j) (\<lambda>(carried, j).
         let msk = push_bit first_bit 1 in
         bindR (foldR (precompute_path_bit aes sha256 (jb_runs e) sha) bits (msk, carried, j, [(msk, strip_both carried)])) (\<lambda>(_, _, _, out).
           Inr out))))"

section \<open>Revealing a node\<close>

definition reveal_node_job :: "(bytes \<Rightarrow> bytes) \<Rightarrow> job_env \<Rightarrow> secure_wires both \<Rightarrow> party_error + value32 both" where
  "reveal_node_job sha256 e node =
     bindR (reveal_public sha256 (job_setup e) (strip_both node)) values_from_bits"

definition reveal_node_local_share :: "(bytes \<Rightarrow> bytes) \<Rightarrow> secure_wires \<Rightarrow> party_error + reveal_local_share_t" where
  "reveal_node_local_share sha256 node =
     (if length (sw_bundle node) \<noteq> sw_len node then Inl (PCompat BadAg2pcInputShape)
      else Inr (reveal_local_share sha256 (sw_bundle node)))"

definition reveal_node_from_peer_share ::
  "(bytes \<Rightarrow> bytes) \<Rightarrow> secure_wires \<Rightarrow> block \<Rightarrow> bytes \<Rightarrow> bytes \<Rightarrow> party_error + bytes \<times> value32" where
  "reveal_node_from_peer_share sha256 node delta peer_share_bits peer_mac_digest =
     (if length (sw_bundle node) \<noteq> sw_len node then Inl (PCompat BadAg2pcInputShape)
      else bindR (mapErr (\<lambda>e. PCompat (map_reveal_error e))
              (reveal_recipient_bits sha256 (sw_lambda node) (sw_bundle node) peer_share_bits peer_mac_digest delta)) (\<lambda>bits.
        bindR (value_from_bits bits) (\<lambda>value. Inr (bits, value))))"

definition reveal_node_fast :: "(bytes \<Rightarrow> bytes) \<Rightarrow> block both \<Rightarrow> secure_wires both \<Rightarrow> party_error + value32 both" where
  \<comment> \<open>\<open>reveal_node_fast_over_streams\<close>: Alice sends her share, Bob opens and sends the bits back\<close>
  "reveal_node_fast sha256 deltas node =
     bindR (reveal_node_local_share sha256 (fst node)) (\<lambda>local.
     bindR (reveal_node_from_peer_share sha256 (snd node) (snd deltas) (rl_share_bits local) (rl_mac_digest local)) (\<lambda>(bits, value).
     bindR (value_from_bits (map (\<lambda>b. b AND 1) bits)) (\<lambda>alice. Inr (alice, value))))"

definition reveal_node_fast_job :: "(bytes \<Rightarrow> bytes) \<Rightarrow> block both \<Rightarrow> secure_wires both \<Rightarrow> party_error + value32 both" where
  "reveal_node_fast_job sha256 deltas node = reveal_node_fast sha256 deltas (strip_both node)"

end
