(* ===== verification/Party_Correct.thy ===== *)
theory Party_Correct
  imports Party_Jobs Session_Correct Program_Correct
begin

text \<open>
  Correctness of the jobs of \<open>shachain2pc-party\<close>: the authenticated inputs carry the two shares, every
  chunk run over a joint session carries the next value of the chain, the precompute session keeps its
  cache right and returns the value of its target, the path returns every partial chain, and a node
  opens to its value by each of the ways to reveal it.
\<close>

unbundle bit_operations_syntax

section \<open>Values on wires\<close>

abbreviation value_bools :: "value32 \<Rightarrow> bool list" where
  "value_bools v \<equiv> bools (to_bits_msb v)"

lemma value_xor_sym: "value_xor a b = value_xor b a"
  by (simp add: value_xor_def xor.commute)

lemma of_bool_bools: "map of_bool (value_bools v) = to_bits_msb v"
proof (rule nth_equalityI)
  fix i assume "i < length (map of_bool (value_bools v) :: bytes)"
  then have i: "i < VALUE_BITS" by simp
  then have "to_bits_msb v ! i \<in> {0, 1}" using to_bits_msb_01 [of "to_bits_msb v ! i" v] by auto
  then show "map of_bool (value_bools v) ! i = to_bits_msb v ! i" using i by auto
qed simp

lemma value_from_bools [simp]: "wf_value v \<Longrightarrow> value_from_bits (map of_bool (value_bools v)) = Inr v"
  unfolding of_bool_bools by (simp add: value_from_bits_def from_bits_msb_to_bits_msb)

lemma hash_chain_wf: "sha_gadget sha256 sha \<Longrightarrow> wf_value v \<Longrightarrow> wf_value (fold (hash_step sha256) ks v)"
  by (induction ks arbitrary: v) (auto simp: hash_step_def flip_bit_wf sha_gadget_def)

lemma wires_ok_append:
  assumes a: "wires_ok dA dB x a b" and c: "wires_ok dA dB y c d"
  shows "wires_ok dA dB (x @ y) (sw_concat [a, c]) (sw_concat [b, d])"
proof -
  let ?A = "sw_bundle a @ sw_bundle c" and ?B = "sw_bundle b @ sw_bundle d" and ?n = "length (x @ y)"
  note f = a [unfolded wires_ok_def values_ok_def sw_len_def verify_bundles share_value_shared]
  note g = c [unfolded wires_ok_def values_ok_def sw_len_def verify_bundles share_value_shared]
  have lf: "length (sw_lambda a) = length x" "length (sw_bundle a) = length x" "length (sw_label0 a) = length x" "length (sw_bundle b) = length x"
      "sw_lambda a = sw_lambda b" using f by auto
  have lg: "length (sw_lambda c) = length y" "length (sw_bundle c) = length y" "length (sw_label0 c) = length y" "length (sw_bundle d) = length y"
      "sw_lambda c = sw_lambda d" using g by auto
  have fb: "sw_lambda b = map (\<lambda>i. of_bool (x ! i \<noteq> shared (sw_bundle a ! i) (sw_bundle b ! i))) [0..<length x]"
      "sw_eval b = map (\<lambda>i. sw_label0 a ! i XOR sel (x ! i \<noteq> shared (sw_bundle a ! i) (sw_bundle b ! i)) dA) [0..<length x]" using f by blast+
  have gb: "sw_lambda d = map (\<lambda>i. of_bool (y ! i \<noteq> shared (sw_bundle c ! i) (sw_bundle d ! i))) [0..<length y]"
      "sw_eval d = map (\<lambda>i. sw_label0 c ! i XOR sel (y ! i \<noteq> shared (sw_bundle c ! i) (sw_bundle d ! i)) dA) [0..<length y]" using g by blast+
  have sp: "[0..<?n] = [0..<length x] @ map (\<lambda>i. i + length x) [0..<length y]"
    using upt_add_eq_append [of 0 "length x" "length y"] by (simp add: map_add_upt add.commute)
  have l: "sw_lambda b @ sw_lambda d = map (\<lambda>i. of_bool ((x @ y) ! i \<noteq> shared (?A ! i) (?B ! i))) [0..<?n]"
    unfolding sp fb gb map_append map_map using lf lg by (auto simp: nth_append)
  have e: "sw_eval b @ sw_eval d = map (\<lambda>i. (sw_label0 a @ sw_label0 c) ! i XOR sel ((x @ y) ! i \<noteq> shared (?A ! i) (?B ! i)) dA) [0..<?n]"
    unfolding sp fb gb map_append map_map using lf lg by (auto simp: nth_append)
  have "\<forall>i < length x. bundle_rel dA dB (sw_bundle a ! i) (sw_bundle b ! i)" "\<forall>i < length y. bundle_rel dA dB (sw_bundle c ! i) (sw_bundle d ! i)"
    using f g lf(2) lg(2) by simp_all
  then have r: "\<forall>i < length ?A. bundle_rel dA dB (?A ! i) (?B ! i)"
    using lf lg by (auto simp: nth_append)
  show ?thesis
    unfolding wires_ok_def values_ok_def sw_len_def verify_bundles share_value_shared sw_concat_def secure_wires.select_convs list.map concat.simps append_Nil2
    using l e r lf lg by (intro conjI) simp_all
qed

section \<open>Joint runs\<close>

definition joint_ok :: "block \<Rightarrow> block \<Rightarrow> runs \<Rightarrow> joint \<Rightarrow> bool" where
  \<comment> \<open>the two protocols fit, and the environment draws right shares for every run\<close>
  "joint_ok dA dB env j \<longleftrightarrow> protocols_ok (jo_a j) (jo_b j) \<and> ap_delta (jo_a j) = dA \<and> ap_delta (jo_b j) = dB
     \<and> (\<forall>k n. env_ok n (jo_a j) (jo_b j) (env k n))"

lemma env_ok_delta:
  assumes "protocols_ok a b" "protocols_ok a' b'" "ap_delta a' = ap_delta a" "ap_delta b' = ap_delta b"
  shows "env_ok n a' b' e = env_ok n a b e"
proof -
  have "tp_delta (ap_pool a') = tp_delta (ap_pool a)" "tp_delta (ap_pool b') = tp_delta (ap_pool b)"
    using assms unfolding protocols_ok_def by metis+
  then show ?thesis using assms(3,4) by (simp add: env_ok_def)
qed

lemma run_both_spec:
  assumes j: "joint_ok dA dB env j" and p: "prog_ok p" and x: "length x = pr_num_inputs p" and w: "wires_ok dA dB x (fst ws) (snd ws)"
  shows "\<exists>ws' j'. run_both aes sha256 env p ws j = Inr (ws', j') \<and> joint_ok dA dB env j' \<and> jo_step j' = Suc (jo_step j)
    \<and> values_ok dA dB (prog_eval p x) (fst ws') (snd ws')
    \<and> (0 < num_ands p \<longrightarrow> wires_ok dA dB (prog_eval p x) (fst ws') (snd ws'))"
proof -
  have d: "ap_delta (jo_a j) = dA" "ap_delta (jo_b j) = dB" and pr: "protocols_ok (jo_a j) (jo_b j)"
    and env: "\<And>k n. env_ok n (jo_a j) (jo_b j) (env k n)" using j by (auto simp: joint_ok_def)
  obtain prA prB outA outB where r: "run_program aes sha256 (env (jo_step j) (num_ands p)) p (jo_a j, fst ws) (jo_b j, snd ws) = Inr ((prA, outA), (prB, outB))"
      "protocols_ok prA prB" "ap_delta prA = dA" "ap_delta prB = dB" "values_ok dA dB (prog_eval p x) outA outB"
      "0 < num_ands p \<longrightarrow> wires_ok dA dB (prog_eval p x) outA outB"
    using run_spec [OF p pr x w [folded d] env] d by blast
  have "env_ok n prA prB (env k n)" for k n using env env_ok_delta [OF pr r(2)] r(3,4) d by simp
  then show ?thesis using r by (auto simp: run_both_def joint_ok_def)
qed

lemma protocol_setup_ok: "protocols_ok (protocol_setup Alice sspA dA seedA) (protocol_setup Bob sspB dB seedB)"
  by (simp add: protocols_ok_def protocol_setup_def Let_def pools_ok_def setup_pool_def triple_pool_new_def bit_xor_iff)

lemma joint_setup_ok:
  assumes "\<And>k n. env_ok n (jo_a (joint_setup ssp deltas seeds)) (jo_b (joint_setup ssp deltas seeds)) (env k n)"
  shows "joint_ok (ap_delta (jo_a (joint_setup ssp deltas seeds))) (ap_delta (jo_b (joint_setup ssp deltas seeds))) env (joint_setup ssp deltas seeds)"
  using assms protocol_setup_ok by (simp add: joint_ok_def joint_setup_def)

lemma seed_inputs_run:
  assumes j: "joint_ok dA dB env j" and v: "wf_value shA" "wf_value shB"
    and d1: "verify_share_relation (fst (fst draws)) dA (snd (fst draws)) dB" "length (fst (fst draws)) = VALUE_BITS"
    and d2: "verify_share_relation (fst (snd draws)) dA (snd (snd draws)) dB" "length (fst (snd draws)) = VALUE_BITS"
  shows "\<exists>ws j'. authenticate_seed_inputs aes sha256 draws (shA, shB) j = Inr (ws, j') \<and> joint_ok dA dB env j'
    \<and> wires_ok dA dB (value_bools shB @ value_bools shA) (fst ws) (snd ws)"
proof -
  let ?z = "replicate VALUE_BITS (0 :: u8)"
  have d: "ap_delta (jo_a j) = dA" "ap_delta (jo_b j) = dB" and pr: "protocols_ok (jo_a j) (jo_b j)"
    and env: "\<And>k n. env_ok n (jo_a j) (jo_b j) (env k n)" using j by (auto simp: joint_ok_def)
  have sm: "length (concat [?z]) < 2 ^ 64" "length (concat [to_bits_msb shA]) < 2 ^ 64" by (simp_all add: VALUE_BITS_def)
  obtain a1 b1 oA oB where p1: "process_inputs aes sha256 (fst (fst draws)) (snd (fst draws)) [Bob] (jo_a j, [?z]) (jo_b j, [to_bits_msb shB]) = Inr ((a1, oA), (b1, oB))"
      "protocols_ok a1 b1" "ap_delta a1 = dA" "ap_delta b1 = dB"
      "\<forall>k < length [Bob]. wires_ok dA dB (input_bits [Bob] [?z] [to_bits_msb shB] ! k) (oA ! k) (oB ! k)"
    using process_inputs_run [OF pr, of "[?z]" "[Bob]" "[to_bits_msb shB]" "fst (fst draws)" "snd (fst draws)" aes sha256] sm(1) d1 d by auto
  obtain a2 b2 qA qB where p2: "process_inputs aes sha256 (fst (snd draws)) (snd (snd draws)) [Alice] (a1, [to_bits_msb shA]) (b1, [?z]) = Inr ((a2, qA), (b2, qB))"
      "protocols_ok a2 b2" "ap_delta a2 = dA" "ap_delta b2 = dB"
      "\<forall>k < length [Alice]. wires_ok dA dB (input_bits [Alice] [to_bits_msb shA] [?z] ! k) (qA ! k) (qB ! k)"
    using process_inputs_run [OF p1(2), of "[to_bits_msb shA]" "[Alice]" "[?z]" "fst (snd draws)" "snd (snd draws)" aes sha256] sm(2) d2 p1(3,4) by auto
  have "wires_ok dA dB (value_bools shB) (oA ! 0) (oB ! 0)" "wires_ok dA dB (value_bools shA) (qA ! 0) (qB ! 0)"
    using p1(5) p2(5) by (simp_all add: input_bits_def)
  then have w: "wires_ok dA dB (value_bools shB @ value_bools shA) (sw_concat [oA ! 0, qA ! 0]) (sw_concat [oB ! 0, qB ! 0])"
    by (rule wires_ok_append)
  have "joint_ok dA dB env (j\<lparr>jo_a := a2, jo_b := b2\<rparr>)"
    using p2 env env_ok_delta [OF pr p2(2)] d by (simp add: joint_ok_def)
  then show ?thesis using w p1(1) p2(1) by (simp add: authenticate_seed_inputs_def Let_def)
qed

lemma reveal_public_run:
  assumes j: "joint_ok dA dB env j" and m: "masked_ok dA dB (value_bools v) (fst ws) (snd ws)" and v: "wf_value v"
  shows "bindR (reveal_public sha256 j ws) values_from_bits = Inr (v, v)"
  using j m decode_run(1) [of "jo_a j" "jo_b j" "value_bools v" "fst ws" "snd ws" sha256] v
  by (simp add: joint_ok_def reveal_public_def values_from_bits_def del: map_map)

section \<open>Chunks of the chain over a joint session\<close>

definition hash_gadget :: "(bytes \<Rightarrow> bytes) \<Rightarrow> circuit \<Rightarrow> bool" where
  \<comment> \<open>the gadget computes the hash, reads no undefined wire, has an AND gate, and 64 copies of it stay below the wire limit\<close>
  "hash_gadget sha256 sha \<longleftrightarrow> sha_gadget sha256 sha \<and> gadget_closed sha \<and> And \<in> g_typ ` set (c_gates sha)
     \<and> 64 * Suc (length (c_gates sha)) + 5000 \<le> 2 ^ 30"

lemma hash_gadget_wf: "hash_gadget sha256 sha \<Longrightarrow> wf_value v \<Longrightarrow> wf_value (fold (hash_step sha256) ks v)"
  unfolding hash_gadget_def by (blast intro: hash_chain_wf)

lemma generate_wf: "hash_gadget sha256 sha \<Longrightarrow> wf_value v \<Longrightarrow> wf_value (generate_from_seed sha256 v i)"
  by (simp add: generate_from_seed_eq hash_gadget_wf)

lemma chunk_both_spec:
  assumes g: "hash_gadget sha256 sha" and j: "joint_ok dA dB env j" and ks: "\<forall>k \<in> set ks. k < INDEX_BITS" "length ks \<le> 48"
    and a: "wf_value a" "wf_value c" and v: "v = (if first then combine a c else a)"
    and w: "wires_ok dA dB (if first then value_bools a @ value_bools c else value_bools a) (fst ws) (snd ws)"
  shows "\<exists>program ws' j'. chunk_from_sha sha ks first = Inr program \<and> run_both aes sha256 env program ws j = Inr (ws', j')
    \<and> joint_ok dA dB env j' \<and> jo_step j' = Suc (jo_step j)
    \<and> values_ok dA dB (value_bools (fold (hash_step sha256) ks v)) (fst ws') (snd ws')
    \<and> (ks \<noteq> [] \<longrightarrow> wires_ok dA dB (value_bools (fold (hash_step sha256) ks v)) (fst ws') (snd ws'))"
proof -
  let ?ins = "bools (if first then to_bits_msb a @ to_bits_msb c else to_bits_msb a)"
  have "length ks * Suc (length (c_gates sha)) \<le> 48 * Suc (length (c_gates sha))" using ks(2) by (rule mult_le_mono1)
  then have size: "length ks * Suc (length (c_gates sha)) + 1100 \<le> 2 ^ 30" using g unfolding hash_gadget_def by linarith
  have gg: "sha_gadget sha256 sha" "gadget_closed sha" "And \<in> g_typ ` set (c_gates sha)" using g by (simp_all add: hash_gadget_def)
  obtain p where p: "chunk_from_sha sha ks first = Inr p" "prog_ok p" "pr_num_inputs p = length ?ins"
      "prog_eval p ?ins = value_bools (fold (hash_step sha256) ks v)" "ks \<noteq> [] \<longrightarrow> 0 < num_ands p"
    using chunk_program_run [OF gg(1,2) size ks(1) a refl v] gg(3) by blast
  have "wires_ok dA dB ?ins (fst ws) (snd ws)" using w by (simp split: if_splits)
  from run_both_spec [OF j p(2) p(3) [symmetric] this, of aes sha256] p show ?thesis by auto
qed

lemma strip_lambda [simp]: "sw_lambda (strip_labels_for_reveal w) = sw_lambda w"
  by (simp add: strip_labels_for_reveal_def)

section \<open>The precompute session\<close>

definition cache_ok :: "block \<Rightarrow> block \<Rightarrow> (bytes \<Rightarrow> bytes) \<Rightarrow> value32 \<Rightarrow> (u32, u64 \<times> secure_wires both) bmap \<Rightarrow> bool" where
  \<comment> \<open>every entry holds the value derived for its mask\<close>
  "cache_ok dA dB sha256 seed cache \<longleftrightarrow> bm_inv cache \<and> (\<forall>(_, m, w) \<in> set cache. m \<noteq> 0 \<and> m \<le> MAX_INDEX
     \<and> wires_ok dA dB (value_bools (generate_from_seed sha256 seed m)) (fst w) (snd w))"

definition session_ok :: "block \<Rightarrow> block \<Rightarrow> runs \<Rightarrow> (bytes \<Rightarrow> bytes) \<Rightarrow> value32 both \<Rightarrow> precompute_session \<Rightarrow> bool" where
  "session_ok dA dB env sha256 shares ps \<longleftrightarrow> joint_ok dA dB env (pc_joint ps) \<and> hash_gadget sha256 (pc_sha ps)
     \<and> wf_value (fst shares) \<and> wf_value (snd shares)
     \<and> wires_ok dA dB (value_bools (snd shares) @ value_bools (fst shares)) (fst (pc_seed_inputs ps)) (snd (pc_seed_inputs ps))
     \<and> cache_ok dA dB sha256 (combine (fst shares) (snd shares)) (pc_cache ps)"

definition carried_ok :: "block \<Rightarrow> block \<Rightarrow> (bytes \<Rightarrow> bytes) \<Rightarrow> value32 \<Rightarrow> u64 \<Rightarrow> secure_wires both option \<Rightarrow> bool" where
  "carried_ok dA dB sha256 seed msk carried \<longleftrightarrow> msk \<le> MAX_INDEX \<and> (case carried of None \<Rightarrow> msk = 0
     | Some w \<Rightarrow> msk \<noteq> 0 \<and> wires_ok dA dB (value_bools (generate_from_seed sha256 seed msk)) (fst w) (snd w))"

lemma set_bits_desc_add:
  assumes "b < INDEX_BITS" and "\<And>c. bit m c \<Longrightarrow> b < c"
  shows "set_bits_desc (m OR push_bit b 1) = set_bits_desc m @ [b]"
proof (rule desc_unique)
  have bb: "bit (m OR push_bit b (1 :: u64)) c \<longleftrightarrow> bit m c \<or> c = b" for c
    using assms(1) by (auto simp: bit_simps INDEX_BITS_def simp del: push_bit_of_1)
  show "sorted_wrt (>) (set_bits_desc (m OR push_bit b 1))" by simp
  show "sorted_wrt (>) (set_bits_desc m @ [b])" using assms(2) by (auto simp: sorted_wrt_append)
  show "set (set_bits_desc (m OR push_bit b 1)) = set (set_bits_desc m @ [b])" using assms(1) by (auto simp: bb simp del: push_bit_of_1)
qed

lemma set_bits_desc_inj: "set_bits_desc i = set_bits_desc j \<Longrightarrow> i \<le> MAX_INDEX \<Longrightarrow> j \<le> MAX_INDEX \<Longrightarrow> i = j"
proof (rule bit_word_eqI)
  fix n assume s: "set_bits_desc i = set_bits_desc j" "i \<le> MAX_INDEX" "j \<le> MAX_INDEX" and "n < LENGTH(64)"
  have "n \<in> set (set_bits_desc i) \<longleftrightarrow> n \<in> set (set_bits_desc j)" using s(1) by simp
  then show "bit i n \<longleftrightarrow> bit j n" using s(2,3) by (auto simp: le_MAX_INDEX_iff)
qed

lemma max_by_key_in: "max_by_key f xs = Some x \<Longrightarrow> x \<in> set xs"
  by (induction xs) (auto split: option.splits if_splits)

lemma max_by_key_max: "max_by_key f xs = Some x \<Longrightarrow> y \<in> set xs \<Longrightarrow> f y \<le> f x"
proof (induction xs arbitrary: x y)
  case (Cons a xs)
  show ?case
  proof (cases "max_by_key f xs")
    case None
    then have "xs = []" by (cases xs) (auto split: option.splits if_splits)
    then show ?thesis using Cons.prems by simp
  next
    case (Some z)
    then have "f y \<le> f z" if "y \<in> set xs" using Cons.IH that by blast
    then show ?thesis using Cons.prems Some by (auto split: if_splits)
  qed
qed simp

lemma max_by_key_None: "max_by_key f xs = None \<longleftrightarrow> xs = []"
  by (cases xs) (auto split: option.splits)

lemma cache_ok_insert:
  assumes "cache_ok dA dB sha256 seed cache" "m \<noteq> 0" "m \<le> MAX_INDEX"
    "wires_ok dA dB (value_bools (generate_from_seed sha256 seed m)) (fst w) (snd w)"
  shows "cache_ok dA dB sha256 seed (bm_insert k (m, w) cache)"
  using assms by (auto simp: cache_ok_def set_bm_insert)

lemma cache_ok_prune: "cache_ok dA dB sha256 seed cache \<Longrightarrow> cache_ok dA dB sha256 seed (prune_cache_for_target cache t)"
  by (auto simp: cache_ok_def prune_cache_for_target_def bm_retain_def)

lemma best_parent_ok:
  assumes "cache_ok dA dB sha256 seed (pc_cache ps)" "best_parent ps target = Some (m, w)"
  shows "carried_ok dA dB sha256 seed m (Some w)" and "can_derive_mask m target"
proof -
  have "(m, w) \<in> set (bm_values (pc_cache ps))" "can_derive_mask m target"
    using max_by_key_in [OF assms(2) [unfolded best_parent_def]] by auto
  then show "carried_ok dA dB sha256 seed m (Some w)" "can_derive_mask m target"
    using assms(1) by (auto simp: cache_ok_def carried_ok_def bm_values_def)
qed

lemma precompute_bit_spec:
  assumes s: "session_ok dA dB env sha256 shares ps" and c: "carried_ok dA dB sha256 (combine (fst shares) (snd shares)) msk carried"
    and b: "b < INDEX_BITS" "\<And>c. bit msk c \<Longrightarrow> b < c"
  shows "\<exists>w ps'. precompute_bit aes sha256 env target b (msk, carried, ps) = Inr (msk OR push_bit b 1, Some w, ps')
    \<and> session_ok dA dB env sha256 shares ps' \<and> carried_ok dA dB sha256 (combine (fst shares) (snd shares)) (msk OR push_bit b 1) (Some w)
    \<and> jo_step (pc_joint ps') = Suc (jo_step (pc_joint ps))"
proof -
  define seed where "seed = combine (fst shares) (snd shares)"
  let ?m = "msk OR push_bit b 1" and ?first = "carried = None"
  let ?inp = "case carried of Some w \<Rightarrow> w | None \<Rightarrow> pc_seed_inputs ps"
  let ?v = "generate_from_seed sha256 seed msk"
  note so = s [unfolded session_ok_def]
  have seed: "seed = combine (snd shares) (fst shares)" by (simp add: seed_def combine_def value_xor_sym)
  have vm: "generate_from_seed sha256 seed ?m = fold (hash_step sha256) [b] ?v"
    by (simp add: generate_from_seed_eq set_bits_desc_add [OF b] del: push_bit_of_1)
  have m: "?m \<noteq> 0" "?m \<le> MAX_INDEX"
  proof -
    have "bit ?m b" using b(1) by (simp add: bit_simps INDEX_BITS_def del: push_bit_of_1)
    then show "?m \<noteq> 0" by auto
    show "?m \<le> MAX_INDEX" using c b(1) by (auto simp: le_MAX_INDEX_iff carried_ok_def bit_simps simp del: push_bit_of_1)
  qed
  define a where "a = (if ?first then snd shares else ?v)"
  have wf: "wf_value a" "wf_value (fst shares)" using so generate_wf [of sha256 "pc_sha ps" seed msk] by (auto simp: a_def seed_def combine_def)
  have v: "?v = (if ?first then combine a (fst shares) else a)"
    using c by (auto simp: a_def seed carried_ok_def generate_from_seed_eq)
  have w: "wires_ok dA dB (if ?first then value_bools a @ value_bools (fst shares) else value_bools a) (fst ?inp) (snd ?inp)"
    using so c by (auto simp: a_def seed_def carried_ok_def)
  obtain program ws' j' where r: "chunk_from_sha (pc_sha ps) [b] ?first = Inr program"
      "run_both aes sha256 env program ?inp (pc_joint ps) = Inr (ws', j')" "joint_ok dA dB env j'" "jo_step j' = Suc (jo_step (pc_joint ps))"
      "wires_ok dA dB (value_bools (generate_from_seed sha256 seed ?m)) (fst ws') (snd ws')"
    using chunk_both_spec [OF _ _ _ _ wf v w, of sha256 "pc_sha ps" env "pc_joint ps" "[b]" aes] so b(1) unfolding vm by auto
  have co: "cache_ok dA dB sha256 seed (bm_insert k (?m, ws') (pc_cache ps))" for k
    using cache_ok_insert [OF _ m r(5)] so by (simp add: seed_def)
  show ?thesis
    using r co so m unfolding seed_def [symmetric]
    by (auto simp: precompute_bit_def Let_def session_ok_def carried_ok_def seed_def)
qed

lemma planned_zero [simp]: "index_get index = 0 \<Longrightarrow> planned_checked_units ps index = 0"
  by (simp add: planned_checked_units_def missing_bits_def split: option.splits)

lemma precompute_loop:
  assumes "session_ok dA dB env sha256 shares ps" "carried_ok dA dB sha256 (combine (fst shares) (snd shares)) msk carried"
    "sorted_wrt (>) ks" "\<forall>b \<in> set ks. b < INDEX_BITS \<and> (\<forall>c. bit msk c \<longrightarrow> b < c)"
  shows "\<exists>msk' carried' ps'. foldR (precompute_bit aes sha256 env target) ks (msk, carried, ps) = Inr (msk', carried', ps')
    \<and> session_ok dA dB env sha256 shares ps' \<and> carried_ok dA dB sha256 (combine (fst shares) (snd shares)) msk' carried'
    \<and> set_bits_desc msk' = set_bits_desc msk @ ks \<and> jo_step (pc_joint ps') = jo_step (pc_joint ps) + length ks"
  using assms
proof (induction ks arbitrary: msk carried ps)
  case (Cons b ks)
  let ?m = "msk OR push_bit b 1"
  have b: "b < INDEX_BITS" "\<And>c. bit msk c \<Longrightarrow> b < c" using Cons.prems(4) by auto
  obtain w ps1 where r: "precompute_bit aes sha256 env target b (msk, carried, ps) = Inr (?m, Some w, ps1)"
      "session_ok dA dB env sha256 shares ps1" "carried_ok dA dB sha256 (combine (fst shares) (snd shares)) ?m (Some w)"
      "jo_step (pc_joint ps1) = Suc (jo_step (pc_joint ps))"
    using precompute_bit_spec [OF Cons.prems(1,2) b] by blast
  have "\<forall>b' \<in> set ks. b' < INDEX_BITS \<and> (\<forall>c. bit ?m c \<longrightarrow> b' < c)"
    using Cons.prems(3,4) by (auto simp: bit_simps simp del: push_bit_of_1)
  then obtain msk' carried' ps' where "foldR (precompute_bit aes sha256 env target) ks (?m, Some w, ps1) = Inr (msk', carried', ps')"
     "session_ok dA dB env sha256 shares ps'" "carried_ok dA dB sha256 (combine (fst shares) (snd shares)) msk' carried'"
     "set_bits_desc msk' = set_bits_desc ?m @ ks" "jo_step (pc_joint ps') = jo_step (pc_joint ps1) + length ks"
    using Cons.IH [OF r(2,3)] Cons.prems(3) by auto
  then show ?case using r(1,4) set_bits_desc_add [OF b] by (simp del: push_bit_of_1)
qed simp

lemma precompute_target_run:
  assumes s: "session_ok dA dB env sha256 shares ps" and i: "index_get index \<le> MAX_INDEX"
  defines "v \<equiv> generate_from_seed sha256 (combine (fst shares) (snd shares)) (index_get index)"
  shows "\<exists>ws ps'. precompute_target aes sha256 env index ps = Inr (ws, ps') \<and> session_ok dA dB env sha256 shares ps'
    \<and> masked_ok dA dB (value_bools v) (fst ws) (snd ws) \<and> (index_get index \<noteq> 0 \<longrightarrow> sw_lambda (fst ws) = sw_lambda (snd ws))
    \<and> jo_step (pc_joint ps') = jo_step (pc_joint ps) + (if index_get index = 0 then 1 else planned_checked_units ps index)"
proof -
  define seed where "seed = combine (fst shares) (snd shares)"
  define target where "target = index_get index"
  note so = s [unfolded session_ok_def]
  have sm: "wf_value (snd shares)" "wf_value (fst shares)" "hash_gadget sha256 (pc_sha ps)" "joint_ok dA dB env (pc_joint ps)"
    "cache_ok dA dB sha256 seed (pc_cache ps)" using so by (simp_all add: seed_def)
  show ?thesis
  proof (cases "target = 0")
    case True
    have vv: "v = (if True then combine (snd shares) (fst shares) else snd shares)"
      using True by (simp add: v_def target_def [symmetric] combine_def value_xor_sym generate_from_seed_eq)
    have w: "wires_ok dA dB (if True then value_bools (snd shares) @ value_bools (fst shares) else value_bools (snd shares)) (fst (pc_seed_inputs ps)) (snd (pc_seed_inputs ps))"
      using so by simp
    obtain program ws' j' where r: "chunk_from_sha (pc_sha ps) [] True = Inr program"
      "run_both aes sha256 env program (pc_seed_inputs ps) (pc_joint ps) = Inr (ws', j')" "joint_ok dA dB env j'" "jo_step j' = Suc (jo_step (pc_joint ps))"
      "values_ok dA dB (value_bools v) (fst ws') (snd ws')"
      using chunk_both_spec [OF sm(3,4) _ _ sm(1,2) vv w, of "[]" aes] by auto
    have "session_ok dA dB env sha256 shares (ps\<lparr>pc_joint := j'\<rparr>)" using so r(3) by (simp add: session_ok_def)
    then show ?thesis using True r values_masked [OF r(5)]
      by (simp add: precompute_target_def target_def [symmetric] strip_both_def)
  next
    case False
    define mc where "mc = (case best_parent ps target of Some (m, w) \<Rightarrow> (m, Some w) | None \<Rightarrow> (0, None))"
    obtain msk carried where mc: "mc = (msk, carried)" by (cases mc)
    have co: "carried_ok dA dB sha256 seed msk carried" "can_derive_mask msk target" and mb: "missing_bits ps target = set_bits_desc (target AND NOT msk)"
      using best_parent_ok [OF sm(5), of target] mc unfolding mc_def missing_bits_def
      by (auto simp: carried_ok_def split: option.splits)
    have pt: "precompute_target aes sha256 env index ps =
        (if msk = target then (case carried of Some w \<Rightarrow> Inr (strip_both w, ps) | None \<Rightarrow> Inr ((default_wires, default_wires), ps))
         else bindR (foldR (precompute_bit aes sha256 env target) (set_bits_desc (target AND NOT msk)) (msk, carried, ps)) (\<lambda>(_, carried, ps).
          let ps = ps\<lparr>pc_cache := prune_cache_for_target (pc_cache ps) target\<rparr>
          in case carried of Some w \<Rightarrow> Inr (strip_both w, ps) | None \<Rightarrow> Inr ((default_wires, default_wires), ps)))"
      using False mc unfolding precompute_target_def target_def [symmetric] mc_def by (simp add: Let_def)
    show ?thesis
    proof (cases "msk = target")
      case True
      then obtain w where w: "carried = Some w" "wires_ok dA dB (value_bools v) (fst w) (snd w)"
        using co(1) False by (auto simp: carried_ok_def v_def target_def [symmetric] seed_def split: option.splits)
      have "planned_checked_units ps index = 0" using mb True by (simp add: planned_checked_units_def target_def [symmetric])
      then show ?thesis using True s w values_masked [of dA dB "value_bools v" "fst w" "snd w"]
        False unfolding pt by (auto simp: strip_both_def wires_ok_def target_def)
    next
      case ne: False
      let ?ks = "set_bits_desc (target AND NOT msk)"
      have ks: "\<forall>b \<in> set ?ks. b < INDEX_BITS \<and> (\<forall>c. bit msk c \<longrightarrow> b < c)"
        using co(2) unfolding can_derive_mask_iff by (auto simp: bit_simps)
      obtain msk' carried' ps' where r: "foldR (precompute_bit aes sha256 env target) ?ks (msk, carried, ps) = Inr (msk', carried', ps')"
        "session_ok dA dB env sha256 shares ps'" "carried_ok dA dB sha256 seed msk' carried'" "set_bits_desc msk' = set_bits_desc msk @ ?ks"
        "jo_step (pc_joint ps') = jo_step (pc_joint ps) + length ?ks"
        using precompute_loop [OF s co(1) [unfolded seed_def] _ ks, of aes target] unfolding seed_def by auto
      have "set_bits_desc msk' = set_bits_desc target" using r(4) set_bits_desc_split [OF co(2)] by simp
      then have mt: "msk' = target" using set_bits_desc_inj r(3) i by (simp add: carried_ok_def target_def)
      then obtain w where w: "carried' = Some w" "wires_ok dA dB (value_bools v) (fst w) (snd w)"
        using r(3) False by (auto simp: carried_ok_def v_def target_def [symmetric] seed_def split: option.splits)
      have "session_ok dA dB env sha256 shares (ps'\<lparr>pc_cache := prune_cache_for_target (pc_cache ps') target\<rparr>)"
        using r(2) cache_ok_prune by (simp add: session_ok_def)
      moreover have "planned_checked_units ps index = length ?ks" using mb by (simp add: planned_checked_units_def target_def [symmetric])
      ultimately show ?thesis using ne r(1,5) w values_masked [of dA dB "value_bools v" "fst w" "snd w"] False
        unfolding pt by (auto simp: strip_both_def wires_ok_def target_def)
    qed
  qed
qed

lemma combine_sym: "combine a b = combine b a"
  by (simp add: combine_def value_xor_sym)

lemma job_setup_ok: "joint_ok dA dB (jb_runs e) (job_setup e) \<Longrightarrow> dA = ap_delta (jo_a (job_setup e)) \<and> dB = ap_delta (jo_b (job_setup e))"
  by (simp add: joint_ok_def)

definition job_ok :: "block \<Rightarrow> block \<Rightarrow> job_env \<Rightarrow> bool" where
  \<comment> \<open>the job runs under the deltas \<open>dA\<close> and \<open>dB\<close>, and its environment draws right shares\<close>
  "job_ok dA dB e \<longleftrightarrow> joint_ok dA dB (jb_runs e) (job_setup e)
     \<and> verify_share_relation (fst (fst (jb_draws e))) dA (snd (fst (jb_draws e))) dB \<and> length (fst (fst (jb_draws e))) = VALUE_BITS
     \<and> verify_share_relation (fst (snd (jb_draws e))) dA (snd (snd (jb_draws e))) dB \<and> length (fst (snd (jb_draws e))) = VALUE_BITS"

lemma job_seed_inputs:
  assumes "job_ok dA dB e" "wf_value shA" "wf_value shB"
  shows "\<exists>ws j'. authenticate_seed_inputs aes sha256 (jb_draws e) (shA, shB) (job_setup e) = Inr (ws, j') \<and> joint_ok dA dB (jb_runs e) j'
    \<and> wires_ok dA dB (value_bools shB @ value_bools shA) (fst ws) (snd ws)"
  using seed_inputs_run [OF _ assms(2,3)] assms(1) unfolding job_ok_def by blast

lemma precompute_setup_run:
  assumes "job_ok dA dB e" "wf_value shA" "wf_value shB" "hash_gadget sha256 sha"
  shows "\<exists>ps. precompute_setup aes sha256 e sha (shA, shB) = Inr ps \<and> session_ok dA dB (jb_runs e) sha256 (shA, shB) ps \<and> pc_sha ps = sha"
proof -
  obtain ws j' where "authenticate_seed_inputs aes sha256 (jb_draws e) (shA, shB) (job_setup e) = Inr (ws, j')" "joint_ok dA dB (jb_runs e) j'"
      "wires_ok dA dB (value_bools shB @ value_bools shA) (fst ws) (snd ws)"
    using job_seed_inputs [OF assms(1-3)] by blast
  then show ?thesis using assms(2-4) by (simp add: precompute_setup_def session_ok_def cache_ok_def)
qed

section \<open>The path and the one-hash jobs\<close>

lemma one_hash_run:
  assumes g: "hash_gadget sha256 sha" and e: "job_ok dA dB e" and b: "b < INDEX_BITS" and v: "wf_value v"
    and w: "wires_ok dA dB (value_bools v) (fst parent) (snd parent)"
  shows "\<exists>child. run_one_hash_job aes sha256 e sha parent b = Inr child \<and> wires_ok dA dB (value_bools (hash_step sha256 b v)) (fst child) (snd child)"
proof -
  have j: "joint_ok dA dB (jb_runs e) (job_setup e)" using e by (simp add: job_ok_def)
  have w': "wires_ok dA dB (if False then value_bools v @ value_bools v else value_bools v) (fst parent) (snd parent)" using w by simp
  have vv: "v = (if False then combine v v else v)" by simp
  show ?thesis using chunk_both_spec [OF g j _ _ v v vv w', of "[b]" aes] b by (auto simp: run_one_hash_job_def)
qed

lemma seed_root_run:
  assumes g: "hash_gadget sha256 sha" and e: "job_ok dA dB e" and v: "wf_value shA" "wf_value shB"
  shows "\<exists>root. run_seed_root_job aes sha256 e sha (shA, shB) = Inr root \<and> values_ok dA dB (value_bools (combine shA shB)) (fst root) (snd root)"
proof -
  obtain ws j' where s: "authenticate_seed_inputs aes sha256 (jb_draws e) (shA, shB) (job_setup e) = Inr (ws, j')" "joint_ok dA dB (jb_runs e) j'"
      "wires_ok dA dB (if True then value_bools shB @ value_bools shA else value_bools shB) (fst ws) (snd ws)"
    using job_seed_inputs [OF e v] by fastforce
  have vv: "combine shA shB = (if True then combine shB shA else shB)" by (simp add: combine_sym)
  show ?thesis using chunk_both_spec [OF g s(2) _ _ v(2,1) vv s(3), of "[]" aes] s(1) by (auto simp: run_seed_root_job_def)
qed

definition path_ok :: "block \<Rightarrow> block \<Rightarrow> (bytes \<Rightarrow> bytes) \<Rightarrow> value32 \<Rightarrow> nat list \<Rightarrow> (u64 \<times> secure_wires both) list \<Rightarrow> bool" where
  \<comment> \<open>entry \<open>k\<close> holds the value after the first \<open>k + 1\<close> bits of the chain\<close>
  "path_ok dA dB sha256 seed bits out \<longleftrightarrow> length out = length bits \<and> (\<forall>k < length out. set_bits_desc (fst (out ! k)) = take (Suc k) bits
     \<and> fst (out ! k) \<le> MAX_INDEX
     \<and> masked_ok dA dB (value_bools (generate_from_seed sha256 seed (fst (out ! k)))) (fst (snd (out ! k))) (snd (snd (out ! k)))
     \<and> sw_lambda (fst (snd (out ! k))) = sw_lambda (snd (snd (out ! k))))"

lemma path_ok_snoc:
  assumes "path_ok dA dB sha256 seed bits out" "set_bits_desc m = bits @ [b]" "m \<le> MAX_INDEX"
    "wires_ok dA dB (value_bools (generate_from_seed sha256 seed m)) (fst w) (snd w)"
  shows "path_ok dA dB sha256 seed (bits @ [b]) (out @ [(m, strip_both w)])"
  using assms values_masked [of dA dB _ "fst w" "snd w"]
  by (auto simp: path_ok_def nth_append strip_both_def wires_ok_def less_Suc_eq)

lemma path_ok_last:
  assumes "path_ok dA dB sha256 seed (set_bits_desc index) out" "index \<noteq> 0" "index \<le> MAX_INDEX"
  shows "fst (last out) = index"
proof -
  have ne: "set_bits_desc index \<noteq> []" using set_bits_desc_inj [of index 0] assms(2,3) by auto
  then have "out \<noteq> []" and l: "length out = length (set_bits_desc index)" using assms(1) by (auto simp: path_ok_def)
  then have "set_bits_desc (fst (last out)) = set_bits_desc index \<and> fst (last out) \<le> MAX_INDEX"
    using assms(1) ne unfolding path_ok_def last_conv_nth [OF \<open>out \<noteq> []\<close>] by simp
  then show ?thesis using set_bits_desc_inj assms(3) by blast
qed

lemma mask_add_le: "msk \<le> MAX_INDEX \<Longrightarrow> b < INDEX_BITS \<Longrightarrow> msk OR push_bit b 1 \<le> MAX_INDEX"
  by (auto simp: le_MAX_INDEX_iff bit_simps simp del: push_bit_of_1)

lemma path_loop:
  assumes "hash_gadget sha256 sha" "joint_ok dA dB env j" "wf_value seed"
    "wires_ok dA dB (value_bools (generate_from_seed sha256 seed msk)) (fst carried) (snd carried)"
    "path_ok dA dB sha256 seed (set_bits_desc msk) out"
    "sorted_wrt (>) ks" "\<forall>b \<in> set ks. b < INDEX_BITS \<and> (\<forall>c. bit msk c \<longrightarrow> b < c)" "msk \<le> MAX_INDEX"
  shows "\<exists>msk' carried' j' out'. foldR (precompute_path_bit aes sha256 env sha) ks (msk, carried, j, out) = Inr (msk', carried', j', out')
     \<and> path_ok dA dB sha256 seed (set_bits_desc msk @ ks) out'"
  using assms(2-)
proof (induction ks arbitrary: msk carried j out)
  case (Cons b ks)
  let ?m = "msk OR push_bit b 1" let ?v = "generate_from_seed sha256 seed msk"
  have b: "b < INDEX_BITS" "\<And>c. bit msk c \<Longrightarrow> b < c" using Cons.prems(6) by auto
  note sb = set_bits_desc_add [OF b]
  have vm: "generate_from_seed sha256 seed ?m = fold (hash_step sha256) [b] ?v"
    by (simp add: generate_from_seed_eq sb del: push_bit_of_1)
  have wf: "wf_value ?v" by (rule generate_wf [OF assms(1) Cons.prems(2)])
  have vv: "?v = (if False then combine ?v ?v else ?v)" by simp
  have w': "wires_ok dA dB (if False then value_bools ?v @ value_bools ?v else value_bools ?v) (fst carried) (snd carried)" using Cons.prems(3) by simp
  obtain program w j1 where r: "chunk_from_sha sha [b] False = Inr program" "run_both aes sha256 env program carried j = Inr (w, j1)"
      "joint_ok dA dB env j1" "wires_ok dA dB (value_bools (generate_from_seed sha256 seed ?m)) (fst w) (snd w)"
    using chunk_both_spec [OF assms(1) Cons.prems(1) _ _ wf wf vv w', of "[b]" aes] b(1) unfolding vm by auto
  have po: "path_ok dA dB sha256 seed (set_bits_desc ?m) (out @ [(?m, strip_both w)])"
    using path_ok_snoc [OF Cons.prems(4) sb mask_add_le [OF Cons.prems(7) b(1)] r(4)] sb by simp
  have "\<forall>b' \<in> set ks. b' < INDEX_BITS \<and> (\<forall>c. bit ?m c \<longrightarrow> b' < c)"
    using Cons.prems(5,6) by (auto simp: bit_simps simp del: push_bit_of_1)
  then obtain msk' carried' j' out' where "foldR (precompute_path_bit aes sha256 env sha) ks (?m, w, j1, out @ [(?m, strip_both w)]) = Inr (msk', carried', j', out')"
     "path_ok dA dB sha256 seed (set_bits_desc ?m @ ks) out'"
    using Cons.IH [OF r(3) Cons.prems(2) r(4) po] Cons.prems(5) mask_add_le [OF Cons.prems(7) b(1)] by auto
  moreover have "precompute_path_bit aes sha256 env sha b (msk, carried, j, out) = Inr (?m, w, j1, out @ [(?m, strip_both w)])"
    using r(1,2) by (simp add: precompute_path_bit_def Let_def del: push_bit_of_1)
  ultimately show ?case using sb by (simp del: push_bit_of_1)
qed auto

lemma precompute_path_run:
  assumes g: "hash_gadget sha256 sha" and e: "job_ok dA dB e" and v: "wf_value shA" "wf_value shB"
    and i: "index_get index \<noteq> 0" "index_get index \<le> MAX_INDEX"
  shows "\<exists>out. run_precompute_path aes sha256 e sha (shA, shB) index = Inr out
    \<and> path_ok dA dB sha256 (combine shA shB) (set_bits_desc (index_get index)) out"
proof -
  let ?seed = "combine shA shB"
  have wfs: "wf_value ?seed" by (simp add: combine_def)
  have "set_bits_desc (index_get index) \<noteq> []"
    using set_bits_desc_inj [of "index_get index" 0] i by auto
  then obtain b bits where bits: "set_bits_desc (index_get index) = b # bits" by (cases "set_bits_desc (index_get index)") auto
  let ?m = "push_bit b 1 :: u64"
  have bI: "b < INDEX_BITS" and lt: "\<forall>c \<in> set bits. c < b \<and> c < INDEX_BITS" and sorted: "sorted_wrt (>) bits"
    using set_set_bits_desc [of "index_get index"] sorted_set_bits_desc [of "index_get index"] unfolding bits by auto
  have sb: "set_bits_desc ?m = [b]" using set_bits_desc_add [OF bI, of 0] by (simp del: push_bit_of_1)
  have vm: "generate_from_seed sha256 ?seed ?m = fold (hash_step sha256) [b] ?seed"
    by (simp add: generate_from_seed_eq sb del: push_bit_of_1)
  obtain ws j' where s: "authenticate_seed_inputs aes sha256 (jb_draws e) (shA, shB) (job_setup e) = Inr (ws, j')" "joint_ok dA dB (jb_runs e) j'"
      "wires_ok dA dB (if True then value_bools shB @ value_bools shA else value_bools shB) (fst ws) (snd ws)"
    using job_seed_inputs [OF e v] by fastforce
  have vv: "?seed = (if True then combine shB shA else shB)" by (simp add: combine_sym)
  obtain program w j1 where r: "chunk_from_sha sha [b] True = Inr program" "run_both aes sha256 (jb_runs e) program ws j' = Inr (w, j1)"
      "joint_ok dA dB (jb_runs e) j1" "wires_ok dA dB (value_bools (generate_from_seed sha256 ?seed ?m)) (fst w) (snd w)"
    using chunk_both_spec [OF g s(2) _ _ v(2,1) vv s(3), of "[b]" aes] bI unfolding vm by auto
  have mle: "?m \<le> MAX_INDEX" using mask_add_le [of 0 b] bI by (simp del: push_bit_of_1)
  have "path_ok dA dB sha256 ?seed [] []" by (simp add: path_ok_def)
  from path_ok_snoc [OF this _ mle r(4), of b] sb have po: "path_ok dA dB sha256 ?seed (set_bits_desc ?m) [(?m, strip_both w)]" by simp
  have "\<forall>b' \<in> set bits. b' < INDEX_BITS \<and> (\<forall>c. bit ?m c \<longrightarrow> b' < c)"
    using lt by (auto simp: bit_simps simp del: push_bit_of_1)
  then obtain msk' carried' j2 out where "foldR (precompute_path_bit aes sha256 (jb_runs e) sha) bits (?m, w, j1, [(?m, strip_both w)]) = Inr (msk', carried', j2, out)"
     "path_ok dA dB sha256 ?seed (set_bits_desc ?m @ bits) out"
    using path_loop [OF g r(3) wfs r(4) po sorted _ mle] by blast
  then show ?thesis using s(1) r(1,2) sb by (auto simp: run_precompute_path_def bits Let_def simp del: push_bit_of_1)
qed

lemma precompute_path_root_run:
  assumes g: "hash_gadget sha256 sha" and e: "job_ok dA dB e" and v: "wf_value shA" "wf_value shB" and i: "index_get index = 0"
  shows "\<exists>w. run_precompute_path aes sha256 e sha (shA, shB) index = Inr [(0, w)]
    \<and> masked_ok dA dB (value_bools (combine shA shB)) (fst w) (snd w)"
proof -
  obtain ws j' where s: "authenticate_seed_inputs aes sha256 (jb_draws e) (shA, shB) (job_setup e) = Inr (ws, j')" "joint_ok dA dB (jb_runs e) j'"
      "wires_ok dA dB (if True then value_bools shB @ value_bools shA else value_bools shB) (fst ws) (snd ws)"
    using job_seed_inputs [OF e v] by fastforce
  have vv: "combine shA shB = (if True then combine shB shA else shB)" by (simp add: combine_sym)
  obtain program w j1 where r: "chunk_from_sha sha [] True = Inr program" "run_both aes sha256 (jb_runs e) program ws j' = Inr (w, j1)"
      "values_ok dA dB (value_bools (combine shA shB)) (fst w) (snd w)"
    using chunk_both_spec [OF g s(2) _ _ v(2,1) vv s(3), of "[]" aes] by auto
  show ?thesis using s(1) r(1,2) values_masked [OF r(3)] i by (simp add: run_precompute_path_def strip_both_def)
qed

section \<open>Reveals\<close>

lemma reveal_node_share:
  assumes "masked_ok dA dB (value_bools v) a b" and "wf_value v"
  shows "reveal_node_local_share sha256 a = Inr (reveal_local_share sha256 (sw_bundle a))"
    and "reveal_node_local_share sha256 b = Inr (reveal_local_share sha256 (sw_bundle b))"
    and "reveal_node_from_peer_share sha256 b dB (rl_share_bits (reveal_local_share sha256 (sw_bundle a)))
       (rl_mac_digest (reveal_local_share sha256 (sw_bundle a))) = Inr (to_bits_msb v, v)"
    and "sw_lambda a = sw_lambda b \<Longrightarrow> reveal_node_from_peer_share sha256 a dA (rl_share_bits (reveal_local_share sha256 (sw_bundle b)))
       (rl_mac_digest (reveal_local_share sha256 (sw_bundle b))) = Inr (to_bits_msb v, v)"
proof -
  have len: "length (sw_bundle a) = sw_len a" "length (sw_bundle b) = sw_len b"
    using assms(1) by (auto simp: masked_ok_def sw_len_def verify_bundles)
  then show "reveal_node_local_share sha256 a = Inr (reveal_local_share sha256 (sw_bundle a))"
    "reveal_node_local_share sha256 b = Inr (reveal_local_share sha256 (sw_bundle b))" by (simp_all add: reveal_node_local_share_def)
  show "reveal_node_from_peer_share sha256 b dB (rl_share_bits (reveal_local_share sha256 (sw_bundle a)))
       (rl_mac_digest (reveal_local_share sha256 (sw_bundle a))) = Inr (to_bits_msb v, v)"
    unfolding reveal_node_from_peer_share_def reveal_to_bob [OF assms(1)] using len assms(2) value_from_bools [OF assms(2)]
    by (simp add: of_bool_bools del: map_map)
  show "reveal_node_from_peer_share sha256 a dA (rl_share_bits (reveal_local_share sha256 (sw_bundle b)))
       (rl_mac_digest (reveal_local_share sha256 (sw_bundle b))) = Inr (to_bits_msb v, v)" if "sw_lambda a = sw_lambda b"
    unfolding reveal_node_from_peer_share_def reveal_to_alice [OF assms(1) that] using len assms(2) value_from_bools [OF assms(2)]
    by (simp add: of_bool_bools del: map_map)
qed

lemma mask_bits_msb: "map (\<lambda>b. b AND 1) (to_bits_msb v) = to_bits_msb v"
  by (simp add: to_bits_msb_def)

lemma reveal_fast_run:
  assumes m: "masked_ok dA dB (value_bools v) (fst node) (snd node)" and v: "wf_value v"
  shows "reveal_node_fast_job sha256 (dA, dB) node = Inr (v, v)"
proof -
  have m': "masked_ok dA dB (value_bools v) (fst (strip_both node)) (snd (strip_both node))" using m by (simp add: strip_both_def)
  have "value_from_bits (to_bits_msb v) = Inr v" using v value_from_bools [OF v] by (simp add: of_bool_bools del: map_map)
  then show ?thesis using reveal_node_share [OF m' v, of sha256]
    by (simp add: reveal_node_fast_job_def reveal_node_fast_def mask_bits_msb)
qed

end
