(* ===== verification/Party_Modes.thy ===== *)
theory Party_Modes
  imports Party_Jobs
begin

text \<open>
  The derivation modes of \<open>shachain2pc-party/src/standalone_modes.rs\<close> and \<open>run_party\<close> of \<open>lib.rs\<close>: one full
  circuit, one circuit per index, chunks, a shared trunk with branches, and the cached tiles. As in
  \<open>Party_Jobs\<close> both parties run in lockstep on the same arguments, the exchange of the circuit's digest
  has succeeded (\<open>check_circuit_digest\<close>), and phase timing has no effect on values. \<open>tamper\<close> is the step the
  environment variable of the tests names, \<open>-1\<close> otherwise, the same on both sides.
\<close>

unbundle bit_operations_syntax

definition AG2PC_SSP :: nat where
  "AG2PC_SSP = 40"

definition standalone_setup :: "job_env \<Rightarrow> joint" where
  \<comment> \<open>\<open>Ag2pcSession::setup\<close>: the deltas are random\<close>
  "standalone_setup e = joint_setup AG2PC_SSP (jb_deltas e) (jb_seeds e)"

section \<open>Batches\<close>

definition batch_item ::
  "(block \<Rightarrow> block \<Rightarrow> block) \<Rightarrow> (bytes \<Rightarrow> bytes) \<Rightarrow> runs \<Rightarrow> circuit \<Rightarrow> secure_wires both \<Rightarrow> index48
   \<Rightarrow> (index48 \<times> secure_wires both) list \<times> joint \<Rightarrow> party_error + (index48 \<times> secure_wires both) list \<times> joint" where
  "batch_item aes sha256 env sha seed_inputs index = (\<lambda>(authenticated, j).
     bindR (mapErr PCircuit (build_circuit_for_index index sha)) (\<lambda>circuit.
     bindR (mapErr PCompat (from_circuit circuit)) (\<lambda>program.
     bindR (run_both aes sha256 env program seed_inputs j) (\<lambda>(out, j).
       Inr (authenticated @ [(index, strip_both out)], j)))))"

definition run_derivation_batch ::
  "(block \<Rightarrow> block \<Rightarrow> block) \<Rightarrow> (bytes \<Rightarrow> bytes) \<Rightarrow> job_env \<Rightarrow> circuit \<Rightarrow> value32 both \<Rightarrow> index48 list
   \<Rightarrow> party_error + (index48 \<times> value32 both) list" where
  "run_derivation_batch aes sha256 e sha shares idxs =
     (if idxs = [] then Inl (PUnsupportedMode ''range must not be empty'')
      else bindR (authenticate_seed_inputs aes sha256 (jb_draws e) shares (standalone_setup e)) (\<lambda>(seed_inputs, j).
        bindR (foldR (batch_item aes sha256 (jb_runs e) sha seed_inputs) idxs ([], j)) (\<lambda>(authenticated, j).
          reveal_authenticated_values sha256 j authenticated)))"

definition run_derivation_single ::
  "(block \<Rightarrow> block \<Rightarrow> block) \<Rightarrow> (bytes \<Rightarrow> bytes) \<Rightarrow> job_env \<Rightarrow> circuit \<Rightarrow> value32 both \<Rightarrow> index48 \<Rightarrow> party_error + value32 both" where
  \<comment> \<open>the full mode of \<open>run_party\<close>\<close>
  "run_derivation_single aes sha256 e sha shares index =
     bindR (mapErr PCircuit (build_circuit_for_index index sha)) (\<lambda>circuit.
     bindR (mapErr PCompat (from_circuit circuit)) (\<lambda>program.
     bindR (authenticate_seed_inputs aes sha256 (jb_draws e) shares (standalone_setup e)) (\<lambda>(seed_inputs, j).
     bindR (run_both aes sha256 (jb_runs e) program seed_inputs j) (\<lambda>(authenticated, j).
     bindR (reveal_public sha256 j (strip_both authenticated)) values_from_bits))))"

section \<open>Chunks and trunks\<close>

definition chunk_item ::
  "(block \<Rightarrow> block \<Rightarrow> block) \<Rightarrow> (bytes \<Rightarrow> bytes) \<Rightarrow> runs \<Rightarrow> circuit \<Rightarrow> int \<Rightarrow> nat \<times> nat list
   \<Rightarrow> secure_wires both \<times> joint \<Rightarrow> party_error + secure_wires both \<times> joint" where
  "chunk_item aes sha256 env sha tamper = (\<lambda>(chunk, bits) (carried, j).
     bindR (chunk_program sha bits False (int chunk = tamper)) (\<lambda>program. run_both aes sha256 env program carried j))"

definition run_groups ::
  "(block \<Rightarrow> block \<Rightarrow> block) \<Rightarrow> (bytes \<Rightarrow> bytes) \<Rightarrow> runs \<Rightarrow> circuit \<Rightarrow> int \<Rightarrow> nat list list \<Rightarrow> secure_wires both \<Rightarrow> joint
   \<Rightarrow> party_error + secure_wires both \<times> joint" where
  \<comment> \<open>the first chunk on the seed inputs, the others on what is carried; \<open>groups\<close> is not empty\<close>
  "run_groups aes sha256 env sha tamper groups seed_inputs j =
     bindR (chunk_program sha (hd groups) True (tamper = 0)) (\<lambda>first_program.
     bindR (run_both aes sha256 env first_program seed_inputs j) (\<lambda>(carried, j).
       foldR (chunk_item aes sha256 env sha tamper) (enumerate 1 (tl groups)) (carried, j)))"

definition run_derivation_chunked ::
  "(block \<Rightarrow> block \<Rightarrow> block) \<Rightarrow> (bytes \<Rightarrow> bytes) \<Rightarrow> job_env \<Rightarrow> circuit \<Rightarrow> int \<Rightarrow> value32 both \<Rightarrow> index48 \<Rightarrow> nat \<Rightarrow> party_error + value32 both" where
  "run_derivation_chunked aes sha256 e sha tamper shares index blocks_per_chunk =
     bindR (mapErr PCircuit (split_chain_bits (index_get index) blocks_per_chunk)) (\<lambda>groups.
     bindR (authenticate_seed_inputs aes sha256 (jb_draws e) shares (standalone_setup e)) (\<lambda>(seed_inputs, j).
     bindR (run_groups aes sha256 (jb_runs e) sha tamper groups seed_inputs j) (\<lambda>(carried, j).
     bindR (reveal_public sha256 j (strip_both carried)) values_from_bits)))"

definition tree_branch ::
  "(block \<Rightarrow> block \<Rightarrow> block) \<Rightarrow> (bytes \<Rightarrow> bytes) \<Rightarrow> runs \<Rightarrow> circuit \<Rightarrow> int \<Rightarrow> u64 \<Rightarrow> secure_wires both \<Rightarrow> nat \<times> index48
   \<Rightarrow> (index48 \<times> secure_wires both) list \<times> joint \<Rightarrow> party_error + (index48 \<times> secure_wires both) list \<times> joint" where
  "tree_branch aes sha256 env sha tamper_branch low_mask trunk = (\<lambda>(i, index) (authenticated, j).
     bindR (chunk_program sha (set_bits_desc (index_get index AND low_mask)) False (int i = tamper_branch)) (\<lambda>program.
     bindR (run_both aes sha256 env program trunk j) (\<lambda>(out, j).
       Inr (authenticated @ [(index, strip_both out)], j))))"

definition run_derivation_tree ::
  "(block \<Rightarrow> block \<Rightarrow> block) \<Rightarrow> (bytes \<Rightarrow> bytes) \<Rightarrow> job_env \<Rightarrow> circuit \<Rightarrow> int \<Rightarrow> value32 both \<Rightarrow> index48 list \<Rightarrow> int
   \<Rightarrow> party_error + (index48 \<times> value32 both) list" where
  "run_derivation_tree aes sha256 e sha tamper_branch shares idxs trunk_chunk_blocks =
     (if idxs = [] then Inl (PUnsupportedMode ''range must not be empty'')
      else bindR (range_split_masks (map index_get idxs)) (\<lambda>(_, low_mask, high_mask).
        bindR (mapErr PCircuit (split_chain_bits (index_get (hd idxs) AND high_mask) (effective_chunk_size trunk_chunk_blocks))) (\<lambda>trunk_groups.
        if sum_list (map length trunk_groups) = 0
        then Inl (PUnsupportedMode ''shachain2pc: shared-trunk needs >=1 common high set bit (no shared hash in this range); use batch mode'')
        else
        bindR (authenticate_seed_inputs aes sha256 (jb_draws e) shares (standalone_setup e)) (\<lambda>(seed_inputs, j).
        bindR (run_groups aes sha256 (jb_runs e) sha (- 1) trunk_groups seed_inputs j) (\<lambda>(trunk, j).
        bindR (foldR (tree_branch aes sha256 (jb_runs e) sha tamper_branch low_mask trunk) (enumerate 0 idxs) ([], j)) (\<lambda>(authenticated, j).
          reveal_authenticated_values sha256 j authenticated))))))"

section \<open>Cached tiles\<close>

record cache_stack =
  cs_bits :: "nat list"
  cs_vals :: "secure_wires both list"

definition stack_new :: "secure_wires both \<Rightarrow> cache_stack" where
  "stack_new root = \<lparr>cs_bits = [], cs_vals = [root]\<rparr>"

definition stack_last :: "cache_stack \<Rightarrow> secure_wires both" where
  "stack_last s = last (cs_vals s)"

record tamper_cursor =
  tc_target :: int
  tc_current :: int

definition matches_current :: "tamper_cursor \<Rightarrow> bool" where
  "matches_current t \<longleftrightarrow> tc_current t = tc_target t"

definition advance :: "tamper_cursor \<Rightarrow> tamper_cursor" where
  "advance t = t\<lparr>tc_current := tc_current t + 1\<rparr>"

fun common_prefix :: "nat list \<Rightarrow> nat list \<Rightarrow> nat" where
  "common_prefix (x # xs) (y # ys) = (if x = y then Suc (common_prefix xs ys) else 0)"
| "common_prefix _ _ = 0"

definition align_push ::
  "(block \<Rightarrow> block \<Rightarrow> block) \<Rightarrow> (bytes \<Rightarrow> bytes) \<Rightarrow> runs \<Rightarrow> circuit \<Rightarrow> program \<Rightarrow> nat
   \<Rightarrow> cache_stack \<times> tamper_cursor \<times> joint \<Rightarrow> party_error + cache_stack \<times> tamper_cursor \<times> joint" where
  "align_push aes sha256 env sha one_step_template b = (\<lambda>(stack, tamper, j).
     let should_tamper = matches_current tamper in
     bindR (if b = 0 \<and> \<not> should_tamper then Inr one_step_template else chunk_program sha [b] False should_tamper) (\<lambda>program.
     bindR (run_both aes sha256 env program (stack_last stack) j) (\<lambda>(nxt, j).
       Inr (stack\<lparr>cs_vals := cs_vals stack @ [nxt], cs_bits := cs_bits stack @ [b]\<rparr>, advance tamper, j))))"

definition align_cache_stack ::
  "(block \<Rightarrow> block \<Rightarrow> block) \<Rightarrow> (bytes \<Rightarrow> bytes) \<Rightarrow> runs \<Rightarrow> circuit \<Rightarrow> program \<Rightarrow> nat list
   \<Rightarrow> cache_stack \<times> tamper_cursor \<times> joint \<Rightarrow> party_error + cache_stack \<times> tamper_cursor \<times> joint" where
  "align_cache_stack aes sha256 env sha one_step_template target = (\<lambda>(stack, tamper, j).
     let prefix = common_prefix (cs_bits stack) target;
         stack = stack\<lparr>cs_bits := take prefix (cs_bits stack), cs_vals := take (prefix + 1) (cs_vals stack)\<rparr>
     in foldR (align_push aes sha256 env sha one_step_template) (drop prefix target) (stack, tamper, j))"

definition slice_both :: "secure_wires both \<Rightarrow> nat \<Rightarrow> party_error + secure_wires both" where
  \<comment> \<open>\<open>tile.slice(slot * VALUE_BITS, (slot + 1) * VALUE_BITS)\<close> on both sides\<close>
  "slice_both tile n =
     bindR (mapErr PCompat (sw_slice (fst tile) (n * VALUE_BITS) ((n + 1) * VALUE_BITS))) (\<lambda>a.
     bindR (mapErr PCompat (sw_slice (snd tile) (n * VALUE_BITS) ((n + 1) * VALUE_BITS))) (\<lambda>b. Inr (a, b)))"

definition run_tile ::
  "(block \<Rightarrow> block \<Rightarrow> block) \<Rightarrow> (bytes \<Rightarrow> bytes) \<Rightarrow> runs \<Rightarrow> circuit \<Rightarrow> program \<Rightarrow> nat \<Rightarrow> nat \<Rightarrow> secure_wires both
   \<Rightarrow> tamper_cursor \<times> joint \<Rightarrow> party_error + secure_wires both \<times> tamper_cursor \<times> joint" where
  \<comment> \<open>one tile over a root, with the tampered program at its step\<close>
  "run_tile aes sha256 env sha program bit_offset height root = (\<lambda>(tamper, j).
     bindR (if matches_current tamper then build_tile_program sha bit_offset height True else Inr program) (\<lambda>program.
     bindR (run_both aes sha256 env program root j) (\<lambda>(tile, j). Inr (tile, advance tamper, j))))"

definition level_root ::
  "(block \<Rightarrow> block \<Rightarrow> block) \<Rightarrow> (bytes \<Rightarrow> bytes) \<Rightarrow> runs \<Rightarrow> circuit \<Rightarrow> program \<Rightarrow> tile_level \<Rightarrow> bool \<Rightarrow> secure_wires both
   \<Rightarrow> secure_wires both list \<times> tamper_cursor \<times> joint \<Rightarrow> party_error + secure_wires both list \<times> tamper_cursor \<times> joint" where
  \<comment> \<open>the bottom level keeps whole tiles, the others the slots of each tile\<close>
  "level_root aes sha256 env sha program level is_bottom root = (\<lambda>(acc, tamper, j).
     bindR (run_tile aes sha256 env sha program (tl_bit_offset level) (tl_height level) root (tamper, j)) (\<lambda>(tile, tamper, j).
     if is_bottom then Inr (acc @ [strip_both tile], tamper, j)
     else bindR (mapR (slice_both tile) [0..<2 ^ tl_height level]) (\<lambda>slots. Inr (acc @ slots, tamper, j))))"

fun run_levels ::
  "(block \<Rightarrow> block \<Rightarrow> block) \<Rightarrow> (bytes \<Rightarrow> bytes) \<Rightarrow> runs \<Rightarrow> circuit \<Rightarrow> tile_level list
   \<Rightarrow> secure_wires both list \<times> tamper_cursor \<times> joint \<Rightarrow> party_error + secure_wires both list \<times> tamper_cursor \<times> joint" where
  "run_levels aes sha256 env sha [] st = Inr st"
| "run_levels aes sha256 env sha (level # levels) (roots, tamper, j) =
     bindR (build_tile_program sha (tl_bit_offset level) (tl_height level) False) (\<lambda>program.
     bindR (foldR (level_root aes sha256 env sha program level (levels = [])) roots ([], tamper, j)) (\<lambda>(roots, tamper, j).
       run_levels aes sha256 env sha levels (roots, tamper, j)))"

definition reveal_value :: "(bytes \<Rightarrow> bytes) \<Rightarrow> joint \<Rightarrow> secure_wires both \<Rightarrow> party_error + value32 both" where
  "reveal_value sha256 j wires = bindR (reveal_public sha256 j wires) values_from_bits"

definition reveal_tiles ::
  "(bytes \<Rightarrow> bytes) \<Rightarrow> joint \<Rightarrow> nat \<Rightarrow> u64 \<Rightarrow> u64 \<Rightarrow> secure_wires both list \<Rightarrow> u64
   \<Rightarrow> value32 both option list \<Rightarrow> party_error + value32 both option list" where
  \<comment> \<open>the body of the loop that opens the leaves of the recursive tiles\<close>
  "reveal_tiles sha256 j height lo low_mask tiles reveal_index results =
     (let leaf_mask = push_bit height 1 - 1; suffix = reveal_index AND low_mask;
          tile_index = unat (drop_bit height suffix); n = unat (suffix AND leaf_mask)
      in if tile_index \<ge> length tiles then Inl (PUnsupportedMode ''shachain2pc: missing recursive cached tile'')
         else bindR (slice_both (tiles ! tile_index) n) (\<lambda>leaf.
           bindR (reveal_value sha256 j leaf) (\<lambda>value.
             Inr (results[unat (reveal_index - lo) := Some value]))))"

record cache_walk =
  cw_stack :: cache_stack
  cw_tamper :: tamper_cursor
  cw_joint :: joint
  cw_tiles :: "u64 \<Rightarrow> secure_wires both option"
  cw_singles :: "u64 \<Rightarrow> secure_wires both option"

definition full_tile :: "bool \<Rightarrow> nat \<Rightarrow> nat \<Rightarrow> nat \<Rightarrow> bool" where
  "full_tile can_tile lo hi index =
     (let tile_mask = CACHE_TILE_LEAVES - 1; tile_base = index - index mod CACHE_TILE_LEAVES in
      can_tile \<and> index mod CACHE_TILE_LEAVES = tile_mask \<and> tile_base \<ge> lo \<and> tile_base + tile_mask \<le> hi)"

definition walk_tile ::
  "(block \<Rightarrow> block \<Rightarrow> block) \<Rightarrow> (bytes \<Rightarrow> bytes) \<Rightarrow> runs \<Rightarrow> circuit \<Rightarrow> program \<Rightarrow> program option \<Rightarrow> u64 \<Rightarrow> u64 \<Rightarrow> cache_walk \<Rightarrow> party_error + cache_walk" where
  "walk_tile aes sha256 env sha one_step tile_program low_mask tile_base w =
     (let tile_mask = of_nat CACHE_TILE_LEAVES - 1; prefix = set_bits_desc ((tile_base AND low_mask) AND NOT tile_mask) in
      bindR (align_cache_stack aes sha256 env sha one_step prefix (cw_stack w, cw_tamper w, cw_joint w)) (\<lambda>(stack, tamper, j).
      bindR (okOr PPanic tile_program) (\<lambda>program.
      bindR (run_tile aes sha256 env sha program 0 CACHE_TILE_HEIGHT (stack_last stack) (tamper, j)) (\<lambda>(tile, tamper, j).
        Inr (w\<lparr>cw_stack := stack, cw_tamper := tamper, cw_joint := j, cw_tiles := (cw_tiles w)(tile_base \<mapsto> strip_both tile)\<rparr>)))))"

definition walk_single ::
  "(block \<Rightarrow> block \<Rightarrow> block) \<Rightarrow> (bytes \<Rightarrow> bytes) \<Rightarrow> runs \<Rightarrow> circuit \<Rightarrow> program \<Rightarrow> u64 \<Rightarrow> u64 \<Rightarrow> cache_walk \<Rightarrow> party_error + cache_walk" where
  "walk_single aes sha256 env sha one_step low_mask index w =
     bindR (align_cache_stack aes sha256 env sha one_step (set_bits_desc (index AND low_mask)) (cw_stack w, cw_tamper w, cw_joint w)) (\<lambda>(stack, tamper, j).
       Inr (w\<lparr>cw_stack := stack, cw_tamper := tamper, cw_joint := j, cw_singles := (cw_singles w)(index \<mapsto> strip_both (stack_last stack))\<rparr>))"

lemma bindR_cong [fundef_cong]: "m = m' \<Longrightarrow> (\<And>x. m' = Inr x \<Longrightarrow> f x = g x) \<Longrightarrow> bindR m f = bindR m' g"
  by (cases m') auto

function walk_range ::
  "(block \<Rightarrow> block \<Rightarrow> block) \<Rightarrow> (bytes \<Rightarrow> bytes) \<Rightarrow> runs \<Rightarrow> circuit \<Rightarrow> program \<Rightarrow> program option \<Rightarrow> bool \<Rightarrow> nat \<Rightarrow> nat \<Rightarrow> u64 \<Rightarrow> nat
   \<Rightarrow> cache_walk \<Rightarrow> party_error + cache_walk" where
  \<comment> \<open>the loop from \<open>hi\<close> down to \<open>lo\<close>; the index never falls below \<open>lo\<close>, so \<open>\<le> lo\<close> is the code's \<open>== lo\<close>\<close>
  "walk_range aes sha256 env sha one_step tile_program can_tile lo hi low_mask index w =
     (if full_tile can_tile lo hi index then
        let tile_base = index - index mod CACHE_TILE_LEAVES in
        bindR (walk_tile aes sha256 env sha one_step tile_program low_mask (of_nat tile_base) w) (\<lambda>w.
          if tile_base \<le> lo then Inr w
          else walk_range aes sha256 env sha one_step tile_program can_tile lo hi low_mask (tile_base - 1) w)
      else
        bindR (walk_single aes sha256 env sha one_step low_mask (of_nat index) w) (\<lambda>w.
          if index \<le> lo then Inr w
          else walk_range aes sha256 env sha one_step tile_program can_tile lo hi low_mask (index - 1) w))"
  by pat_completeness auto

termination
  by (relation "measure (\<lambda>(_, _, _, _, _, _, _, _, _, _, index, _). index)") auto

declare walk_range.simps [simp del]

definition reveal_cached ::
  "(bytes \<Rightarrow> bytes) \<Rightarrow> u64 \<Rightarrow> cache_walk \<Rightarrow> u64 \<Rightarrow> value32 both option list \<Rightarrow> party_error + value32 both option list" where
  "reveal_cached sha256 lo w reveal_index results =
     (let tile_mask = of_nat CACHE_TILE_LEAVES - 1; tile_base = reveal_index AND NOT tile_mask in
      bindR (case cw_tiles w tile_base of
               Some tile \<Rightarrow> slice_both tile (unat (reveal_index AND tile_mask))
             | None \<Rightarrow> okOr (PUnsupportedMode ''shachain2pc: missing cached output'') (cw_singles w reveal_index)) (\<lambda>wires.
      bindR (reveal_value sha256 (cw_joint w) wires) (\<lambda>value.
        Inr (results[unat (reveal_index - lo) := Some value]))))"

definition collect_results :: "string \<Rightarrow> u64 \<Rightarrow> index48 list \<Rightarrow> value32 both option list \<Rightarrow> party_error + (index48 \<times> value32 both) list" where
  "collect_results msg lo idxs results =
     mapR (\<lambda>index. let offset = unat (index_get index - lo) in
       if offset \<ge> length results then Inl PPanic
       else bindR (okOr (PUnsupportedMode msg) (results ! offset)) (\<lambda>value. Inr (index, value))) idxs"

definition descending :: "u64 \<Rightarrow> u64 \<Rightarrow> u64 list" where
  \<comment> \<open>the indices of the reveal loops, from \<open>hi\<close> down to \<open>lo\<close>\<close>
  "descending lo hi = map of_nat (rev [unat lo..<Suc (unat hi)])"

definition run_derivation_cache ::
  "(block \<Rightarrow> block \<Rightarrow> block) \<Rightarrow> (bytes \<Rightarrow> bytes) \<Rightarrow> job_env \<Rightarrow> circuit \<Rightarrow> int \<Rightarrow> value32 both \<Rightarrow> index48 list \<Rightarrow> int \<Rightarrow> nat
   \<Rightarrow> party_error + (index48 \<times> value32 both) list" where
  "run_derivation_cache aes sha256 e sha tamper_target shares idxs trunk_chunk_blocks tile_fanout =
     (if idxs = [] then Inl (PUnsupportedMode ''range must not be empty'')
      else let lo = index_get (hd idxs); hi = index_get (last idxs); env = jb_runs e in
        bindR (tile_height_for_fanout tile_fanout) (\<lambda>tile_height.
        bindR (range_split_masks [lo, hi]) (\<lambda>(split, low_mask, high_mask).
        bindR (mapErr PCircuit (split_chain_bits (lo AND high_mask) (effective_chunk_size trunk_chunk_blocks))) (\<lambda>trunk_groups.
        if sum_list (map length trunk_groups) = 0
        then Inl (PUnsupportedMode ''shachain2pc: cache needs >=1 common high set bit (no shared trunk hash); use batch mode for this range'')
        else let tamper = \<lparr>tc_target = tamper_target, tc_current = 0\<rparr>;
                 depth = (if split < 0 then 0 else nat split + 1);
                 aligned = (split \<ge> 0 \<and> lo AND low_mask = 0 \<and> hi AND low_mask = low_mask);
                 none_results = replicate (unat (hi - lo + 1)) None in
        bindR (if tile_height \<ge> 1 \<and> aligned \<and> depth \<ge> tile_height
               then bindR (mapErr PCircuit (plan_tile_levels depth tile_height)) (\<lambda>l. Inr (Some l)) else Inr None) (\<lambda>recursive_levels.
        bindR (authenticate_seed_inputs aes sha256 (jb_draws e) shares (standalone_setup e)) (\<lambda>(seed_inputs, j).
        bindR (run_groups aes sha256 env sha (- 1) trunk_groups seed_inputs j) (\<lambda>(trunk, j).
        case recursive_levels of
          Some levels \<Rightarrow>
            bindR (run_levels aes sha256 env sha levels ([trunk], tamper, j)) (\<lambda>(tiles, tamper, j).
            bindR (foldR (reveal_tiles sha256 j (tl_height (last levels)) lo low_mask tiles) (descending lo hi) none_results) (\<lambda>results.
              collect_results ''shachain2pc: missing recursive cached result'' lo idxs results))
        | None \<Rightarrow>
            bindR (if tile_fanout \<ge> 2 then bindR (build_tile_program sha 0 CACHE_TILE_HEIGHT False) (\<lambda>p. Inr (Some p)) else Inr None) (\<lambda>tile_program.
            bindR (chunk_program sha [0] False False) (\<lambda>one_step_program.
            let can_tile = (tile_fanout \<ge> 2 \<and> split \<ge> int CACHE_TILE_HEIGHT - 1) in
            bindR (walk_range aes sha256 env sha one_step_program tile_program can_tile (unat lo) (unat hi) low_mask (unat hi)
                     \<lparr>cw_stack = stack_new trunk, cw_tamper = tamper, cw_joint = j, cw_tiles = Map.empty, cw_singles = Map.empty\<rparr>) (\<lambda>w.
            bindR (foldR (reveal_cached sha256 lo w) (descending lo hi) none_results) (\<lambda>results.
              collect_results ''shachain2pc: missing cached result'' lo idxs results)))))))))))"

section \<open>The party\<close>

datatype party_output = OutSingle "value32 both" | OutRange "(index48 \<times> value32 both) list"

definition run_party ::
  "(block \<Rightarrow> block \<Rightarrow> block) \<Rightarrow> (bytes \<Rightarrow> bytes) \<Rightarrow> env \<Rightarrow> job_env \<Rightarrow> circuit \<Rightarrow> index_spec \<Rightarrow> bool \<Rightarrow> value32 both
   \<Rightarrow> party_error + party_output" where
  "run_party aes sha256 env e sha spec allow_seed_reveal shares =
     bindR (ensure_index_allowed spec allow_seed_reveal) (\<lambda>_.
     let requested_mode = requested_mode_from_env env (is_range spec) in
     bindR (ensure_mode_supported_for_now spec requested_mode) (\<lambda>_.
     case indices spec of
       Some idxs \<Rightarrow>
         bindR (case requested_mode of
             Full \<Rightarrow> run_derivation_batch aes sha256 e sha shares idxs
           | Tree \<Rightarrow> run_derivation_tree aes sha256 e sha (tamper_step_from_env env) shares idxs (trunk_chunk_blocks_from_env env 0)
           | Cache \<Rightarrow> bindR (tile_fanout_from_env env) (\<lambda>tile_fanout.
               run_derivation_cache aes sha256 e sha (tamper_step_from_env env) shares idxs (trunk_chunk_blocks_from_env env 16) tile_fanout)
           | Chunked \<Rightarrow> Inl PPanic) (\<lambda>outputs. Inr (OutRange outputs))
     | None \<Rightarrow>
         bindR (single_index spec) (\<lambda>index.
         if requested_mode = Chunked then
           bindR (okOr (PUnsupportedMode ''Rust SHACHAIN2PC_CHUNK_BLOCKS mode requires a positive chunk size'') (chunk_blocks_from_env env)) (\<lambda>blocks_per_chunk.
           bindR (run_derivation_chunked aes sha256 e sha (tamper_step_from_env env) shares index blocks_per_chunk) (\<lambda>v. Inr (OutSingle v)))
         else bindR (run_derivation_single aes sha256 e sha shares index) (\<lambda>v. Inr (OutSingle v)))))"

end
