(* ===== verification/Party_Modes_Correct.thy ===== *)
theory Party_Modes_Correct
  imports Party_Modes Party_Correct
begin

text \<open>
  Correctness of the derivation modes: chunks, the shared trunk with branches and the cached tiles all
  reveal, for every index, the value that \<open>generate_from_seed\<close> derives from the xor of the two shares.
\<close>

unbundle bit_operations_syntax

section \<open>Chunks\<close>

definition standalone_ok :: "block \<Rightarrow> block \<Rightarrow> job_env \<Rightarrow> bool" where
  \<comment> \<open>a standalone session under the deltas \<open>dA\<close> and \<open>dB\<close>, with right draws\<close>
  "standalone_ok dA dB e \<longleftrightarrow> joint_ok dA dB (jb_runs e) (standalone_setup e)
     \<and> verify_share_relation (fst (fst (jb_draws e))) dA (snd (fst (jb_draws e))) dB \<and> length (fst (fst (jb_draws e))) = VALUE_BITS
     \<and> verify_share_relation (fst (snd (jb_draws e))) dA (snd (snd (jb_draws e))) dB \<and> length (fst (snd (jb_draws e))) = VALUE_BITS"

lemma standalone_inputs:
  assumes "standalone_ok dA dB e" "wf_value shA" "wf_value shB"
  shows "\<exists>ws j'. authenticate_seed_inputs aes sha256 (jb_draws e) (shA, shB) (standalone_setup e) = Inr (ws, j') \<and> joint_ok dA dB (jb_runs e) j'
    \<and> wires_ok dA dB (value_bools shB @ value_bools shA) (fst ws) (snd ws)"
  using seed_inputs_run [OF _ assms(2,3)] assms(1) unfolding standalone_ok_def by blast

lemma chunk_program_honest: "chunk_program sha bits first False = mapErr PCompat (chunk_from_sha sha bits first)"
  by (simp add: chunk_program_def)

lemma next_chunk:
  assumes g: "hash_gadget sha256 sha" and j: "joint_ok dA dB env j" and ks: "\<forall>k \<in> set ks. k < INDEX_BITS" "length ks \<le> 48"
    and v: "wf_value v" and w: "wires_ok dA dB (value_bools v) (fst ws) (snd ws)"
  shows "\<exists>program ws' j'. chunk_program sha ks False False = Inr program \<and> run_both aes sha256 env program ws j = Inr (ws', j')
    \<and> joint_ok dA dB env j' \<and> values_ok dA dB (value_bools (fold (hash_step sha256) ks v)) (fst ws') (snd ws')
    \<and> (ks \<noteq> [] \<longrightarrow> wires_ok dA dB (value_bools (fold (hash_step sha256) ks v)) (fst ws') (snd ws'))"
proof -
  have w': "wires_ok dA dB (if False then value_bools v @ value_bools v else value_bools v) (fst ws) (snd ws)" using w by simp
  have vv: "v = (if False then combine v v else v)" by simp
  show ?thesis using chunk_both_spec [OF g j ks v v vv w', of aes] by (auto simp: chunk_program_honest)
qed

lemma first_chunk:
  assumes g: "hash_gadget sha256 sha" and j: "joint_ok dA dB env j" and ks: "\<forall>k \<in> set ks. k < INDEX_BITS" "length ks \<le> 48"
    and v: "wf_value shA" "wf_value shB" and w: "wires_ok dA dB (value_bools shB @ value_bools shA) (fst ws) (snd ws)"
  shows "\<exists>program ws' j'. chunk_program sha ks True False = Inr program \<and> run_both aes sha256 env program ws j = Inr (ws', j')
    \<and> joint_ok dA dB env j' \<and> values_ok dA dB (value_bools (fold (hash_step sha256) ks (combine shA shB))) (fst ws') (snd ws')
    \<and> (ks \<noteq> [] \<longrightarrow> wires_ok dA dB (value_bools (fold (hash_step sha256) ks (combine shA shB))) (fst ws') (snd ws'))"
proof -
  have w': "wires_ok dA dB (if True then value_bools shB @ value_bools shA else value_bools shB) (fst ws) (snd ws)" using w by simp
  have vv: "combine shA shB = (if True then combine shB shA else shB)" by (simp add: combine_sym)
  show ?thesis using chunk_both_spec [OF g j ks v(2,1) vv w', of aes] by (auto simp: chunk_program_honest)
qed

lemma chunk_items:
  assumes g: "hash_gadget sha256 sha" and "joint_ok dA dB env j" "wf_value v" "wires_ok dA dB (value_bools v) (fst ws) (snd ws)"
    and "\<forall>ks \<in> set grps. ks \<noteq> [] \<and> (\<forall>k \<in> set ks. k < INDEX_BITS) \<and> length ks \<le> 48"
  shows "\<exists>ws' j'. foldR (chunk_item aes sha256 env sha (- 1)) (enumerate n grps) (ws, j) = Inr (ws', j') \<and> joint_ok dA dB env j'
    \<and> wires_ok dA dB (value_bools (fold (hash_step sha256) (concat grps) v)) (fst ws') (snd ws')"
  using assms(2-)
proof (induction grps arbitrary: n v ws j)
  case (Cons ks grps)
  have ks: "\<forall>k \<in> set ks. k < INDEX_BITS" "length ks \<le> 48" "ks \<noteq> []" using Cons.prems(4) by auto
  obtain program w1 j1 where r: "chunk_program sha ks False False = Inr program" "run_both aes sha256 env program ws j = Inr (w1, j1)"
     "joint_ok dA dB env j1" "wires_ok dA dB (value_bools (fold (hash_step sha256) ks v)) (fst w1) (snd w1)"
    using next_chunk [OF g Cons.prems(1) ks(1,2) Cons.prems(2,3), of aes] ks(3) by blast
  have "wf_value (fold (hash_step sha256) ks v)" by (rule hash_gadget_wf [OF g Cons.prems(2)])
  then obtain ws' j' where "foldR (chunk_item aes sha256 env sha (- 1)) (enumerate (Suc n) grps) (w1, j1) = Inr (ws', j')" "joint_ok dA dB env j'"
    "wires_ok dA dB (value_bools (fold (hash_step sha256) (concat grps) (fold (hash_step sha256) ks v))) (fst ws') (snd ws')"
    using Cons.IH [OF r(3) _ r(4), of "Suc n"] Cons.prems(4) by auto
  then show ?case using r(1,2) by (simp add: chunk_item_def)
qed auto

lemma run_groups_spec:
  assumes g: "hash_gadget sha256 sha" and j: "joint_ok dA dB env j" and v: "wf_value shA" "wf_value shB"
    and w: "wires_ok dA dB (value_bools shB @ value_bools shA) (fst ws) (snd ws)"
    and split: "split_chain_bits i n = Inr groups"
  shows "\<exists>ws' j'. run_groups aes sha256 env sha (- 1) groups ws j = Inr (ws', j') \<and> joint_ok dA dB env j'
    \<and> values_ok dA dB (value_bools (generate_from_seed sha256 (combine shA shB) i)) (fst ws') (snd ws')
    \<and> (sum_list (map length groups) \<noteq> 0 \<longrightarrow> wires_ok dA dB (value_bools (generate_from_seed sha256 (combine shA shB) i)) (fst ws') (snd ws'))"
proof -
  have n: "0 < n" and i: "i \<le> MAX_INDEX" using split by (auto simp: split_chain_bits_def split: if_splits)
  have gs: "groups = fold (push_group n) (set_bits_desc i) [[]]" using split split_chain_bits_eq [OF n i] by simp
  have conc: "concat groups = set_bits_desc i" and ne: "groups = [[]] \<or> [] \<notin> set groups"
    using fold_push_group [OF n, of "[[]]" "set_bits_desc i"] unfolding gs by simp_all
  have ks: "\<forall>k \<in> set ks. k < INDEX_BITS" "length ks \<le> 48" if "ks \<in> set groups" for ks
  proof -
    have "set ks \<subseteq> set (set_bits_desc i)" using that conc by (metis UN_upper set_concat)
    then show "\<forall>k \<in> set ks. k < INDEX_BITS" by auto
    have "length ks \<le> sum_list (map length groups)" using that by (intro member_le_sum_list) auto
    also have "\<dots> = length (set_bits_desc i)" by (simp only: length_concat [symmetric] conc)
    finally show "length ks \<le> 48" using length_set_bits_desc [of i] by linarith
  qed
  have total: "sum_list (map length groups) = length (set_bits_desc i)" by (simp only: length_concat [symmetric] conc)
  have "groups \<noteq> []" unfolding gs by (rule fold_invariant [where P = "\<lambda>g. g \<noteq> []" and Q = "\<lambda>_. True"]) (auto simp: push_group_def Let_def)
  then obtain grp grps where gg: "groups = grp # grps" by (cases groups) auto
  have k0: "\<forall>k \<in> set grp. k < INDEX_BITS" "length grp \<le> 48" using ks [of grp] gg by auto
  obtain program w1 j1 where r: "chunk_program sha grp True False = Inr program" "run_both aes sha256 env program ws j = Inr (w1, j1)"
     "joint_ok dA dB env j1" "values_ok dA dB (value_bools (fold (hash_step sha256) grp (combine shA shB))) (fst w1) (snd w1)"
     "grp \<noteq> [] \<longrightarrow> wires_ok dA dB (value_bools (fold (hash_step sha256) grp (combine shA shB))) (fst w1) (snd w1)"
    using first_chunk [OF g j k0 v w, of aes] by blast
  have step: "run_groups aes sha256 env sha (- 1) groups ws j = foldR (chunk_item aes sha256 env sha (- 1)) (enumerate 1 grps) (w1, j1)"
    using r(1,2) by (simp add: run_groups_def gg)
  have val: "generate_from_seed sha256 (combine shA shB) i = fold (hash_step sha256) (concat grps) (fold (hash_step sha256) grp (combine shA shB))"
    by (simp add: generate_from_seed_eq conc [symmetric] gg)
  show ?thesis
  proof (cases "grp = []")
    case True
    then have "grps = []" using ne gg by auto
    then show ?thesis using True r step total conc gg by (simp add: val)
  next
    case False
    have wf: "wf_value (fold (hash_step sha256) grp (combine shA shB))" by (rule hash_gadget_wf [OF g]) (simp add: combine_def)
    have "\<forall>ks \<in> set grps. ks \<noteq> [] \<and> (\<forall>k \<in> set ks. k < INDEX_BITS) \<and> length ks \<le> 48"
      using ne False gg ks by auto
    from chunk_items [OF g r(3) wf r(5) [rule_format, OF False] this, of aes 1] show ?thesis
      unfolding step val by (auto simp: wires_ok_def)
  qed
qed

lemma chunked_run:
  assumes g: "hash_gadget sha256 sha" and e: "standalone_ok dA dB e" and v: "wf_value shA" "wf_value shB"
    and i: "index_get index \<le> MAX_INDEX" and n: "0 < blocks"
  defines "r \<equiv> generate_from_seed sha256 (combine shA shB) (index_get index)"
  shows "run_derivation_chunked aes sha256 e sha (- 1) (shA, shB) index blocks = Inr (r, r)"
proof -
  obtain groups where s: "split_chain_bits (index_get index) blocks = Inr groups" using split_chain_bits_eq [OF n i] by blast
  obtain ws j where w: "authenticate_seed_inputs aes sha256 (jb_draws e) (shA, shB) (standalone_setup e) = Inr (ws, j)" "joint_ok dA dB (jb_runs e) j"
    "wires_ok dA dB (value_bools shB @ value_bools shA) (fst ws) (snd ws)"
    using standalone_inputs [OF e v] by blast
  obtain ws' j' where c: "run_groups aes sha256 (jb_runs e) sha (- 1) groups ws j = Inr (ws', j')" "joint_ok dA dB (jb_runs e) j'"
    "values_ok dA dB (value_bools r) (fst ws') (snd ws')"
    using run_groups_spec [OF g w(2) v w(3) s] unfolding r_def by blast
  have "wf_value r" unfolding r_def by (rule generate_wf [OF g]) (simp add: combine_def)
  moreover have "masked_ok dA dB (value_bools r) (fst (strip_both ws')) (snd (strip_both ws'))"
    using values_masked [OF c(3)] by (simp add: strip_both_def)
  ultimately show ?thesis using s w(1) c(1) reveal_public_run [OF c(2)] by (simp add: run_derivation_chunked_def)
qed

section \<open>Trees\<close>

definition outputs_ok :: "block \<Rightarrow> block \<Rightarrow> (index48 \<Rightarrow> value32) \<Rightarrow> (index48 \<times> secure_wires both) list \<Rightarrow> bool" where
  "outputs_ok dA dB r out \<longleftrightarrow> (\<forall>(index, ws) \<in> set out. masked_ok dA dB (value_bools (r index)) (fst ws) (snd ws) \<and> wf_value (r index))"

lemma reveal_outputs:
  assumes "joint_ok dA dB env j" "outputs_ok dA dB r out"
  shows "reveal_authenticated_values sha256 j out = Inr (map (\<lambda>(index, _). (index, (r index, r index))) out)"
  unfolding reveal_authenticated_values_def
proof (rule mapR_all_Inr)
  fix x assume "x \<in> set out"
  then show "(case x of (index, wires) \<Rightarrow> bindR (reveal_public sha256 j wires) (\<lambda>bits. bindR (values_from_bits bits) (\<lambda>value. Inr (index, value))))
      = Inr (case x of (index, _) \<Rightarrow> (index, (r index, r index)))"
    using reveal_public_run [OF assms(1), of "r (fst x)" "snd x" sha256] assms(2)
    by (cases x) (auto simp: outputs_ok_def bindR_eq_Inr)
qed

lemma tree_branches:
  assumes g: "hash_gadget sha256 sha" and t: "wf_value t" "wires_ok dA dB (value_bools t) (fst trunk) (snd trunk)"
    and r: "\<forall>index \<in> set idxs. r index = fold (hash_step sha256) (set_bits_desc (index_get index AND low)) t"
    and "joint_ok dA dB env j" "outputs_ok dA dB r out"
  shows "\<exists>out' j'. foldR (tree_branch aes sha256 env sha (- 1) low trunk) (enumerate n idxs) (out, j) = Inr (out', j') \<and> joint_ok dA dB env j'
    \<and> outputs_ok dA dB r out' \<and> map fst out' = map fst out @ idxs"
  using assms(4-)
proof (induction idxs arbitrary: n out j)
  case (Cons index idxs)
  let ?ks = "set_bits_desc (index_get index AND low)"
  have ri: "r index = fold (hash_step sha256) ?ks t" and kb: "\<forall>k \<in> set ?ks. k < INDEX_BITS" using Cons.prems(1) by auto
  obtain program w1 j1 where p: "chunk_program sha ?ks False False = Inr program" "run_both aes sha256 env program trunk j = Inr (w1, j1)"
     "joint_ok dA dB env j1" "values_ok dA dB (value_bools (r index)) (fst w1) (snd w1)"
    using next_chunk [OF g Cons.prems(2) kb length_set_bits_desc t, of aes] unfolding ri [symmetric] by blast
  have "wf_value (r index)" using Cons.prems(1) hash_gadget_wf [OF g t(1)] by simp
  then have "outputs_ok dA dB r (out @ [(index, strip_both w1)])"
    using Cons.prems(3) values_masked [OF p(4)] by (auto simp: outputs_ok_def strip_both_def)
  then obtain out' j' where "foldR (tree_branch aes sha256 env sha (- 1) low trunk) (enumerate (Suc n) idxs) (out @ [(index, strip_both w1)], j1) = Inr (out', j')"
      "joint_ok dA dB env j'" "outputs_ok dA dB r out'" "map fst out' = map fst out @ index # idxs"
    using Cons.IH [OF _ p(3), of "out @ [(index, strip_both w1)]" "Suc n"] Cons.prems(1) by auto
  moreover have "tree_branch aes sha256 env sha (- 1) low trunk (n, index) (out, j) = Inr (out @ [(index, strip_both w1)], j1)"
    using p(1,2) by (simp add: tree_branch_def)
  ultimately show ?case by simp
qed simp

lemma effective_chunk_pos: "0 < effective_chunk_size n"
  by (simp add: effective_chunk_size_def INDEX_BITS_def)

lemma trunk_run:
  assumes g: "hash_gadget sha256 sha" and e: "standalone_ok dA dB e" and v: "wf_value shA" "wf_value shB"
    and b: "base \<le> MAX_INDEX" "base \<noteq> 0" and n: "0 < n"
  shows "\<exists>groups ws j trunk j1. split_chain_bits base n = Inr groups \<and> sum_list (map length groups) \<noteq> 0
    \<and> authenticate_seed_inputs aes sha256 (jb_draws e) (shA, shB) (standalone_setup e) = Inr (ws, j)
    \<and> run_groups aes sha256 (jb_runs e) sha (- 1) groups ws j = Inr (trunk, j1) \<and> joint_ok dA dB (jb_runs e) j1
    \<and> wf_value (generate_from_seed sha256 (combine shA shB) base)
    \<and> wires_ok dA dB (value_bools (generate_from_seed sha256 (combine shA shB) base)) (fst trunk) (snd trunk)"
proof -
  let ?seed = "combine shA shB"
  obtain groups where s: "split_chain_bits base n = Inr groups" using split_chain_bits_eq [OF n b(1)] by blast
  have tot: "sum_list (map length groups) \<noteq> 0"
  proof -
    have "concat groups = set_bits_desc base"
      using s split_chain_bits_eq [OF n b(1)] fold_push_group [OF n, of "[[]]" "set_bits_desc base"] by simp
    then have "sum_list (map length groups) = length (set_bits_desc base)" by (metis length_concat)
    moreover have "set_bits_desc base \<noteq> []" using b by (metis set_bits_desc_inj set_bits_desc_0 le_MAX_INDEX_iff word_zero_le)
    ultimately show ?thesis by simp
  qed
  obtain ws j where w: "authenticate_seed_inputs aes sha256 (jb_draws e) (shA, shB) (standalone_setup e) = Inr (ws, j)" "joint_ok dA dB (jb_runs e) j"
    "wires_ok dA dB (value_bools shB @ value_bools shA) (fst ws) (snd ws)"
    using standalone_inputs [OF e v] by blast
  obtain trunk j1 where t: "run_groups aes sha256 (jb_runs e) sha (- 1) groups ws j = Inr (trunk, j1)" "joint_ok dA dB (jb_runs e) j1"
    "wires_ok dA dB (value_bools (generate_from_seed sha256 ?seed base)) (fst trunk) (snd trunk)"
    using run_groups_spec [OF g w(2) v w(3) s, of aes] tot by (elim exE conjE) (rule that, simp_all)
  have "wf_value (generate_from_seed sha256 ?seed base)" by (rule generate_wf [OF g]) (simp add: combine_def)
  with s tot w(1) t show ?thesis by blast
qed

lemma tree_run:
  assumes g: "hash_gadget sha256 sha" and e: "standalone_ok dA dB e" and v: "wf_value shA" "wf_value shB"
    and idxs: "idxs \<noteq> []" "\<forall>i \<in> set idxs. index_get i \<le> MAX_INDEX"
    and split: "range_split_masks (map index_get idxs) = Inr (split, low, high)" and common: "index_get (hd idxs) AND high \<noteq> 0"
  shows "run_derivation_tree aes sha256 e sha (- 1) (shA, shB) idxs blocks
    = Inr (map (\<lambda>i. (i, (generate_from_seed sha256 (combine shA shB) (index_get i), generate_from_seed sha256 (combine shA shB) (index_get i)))) idxs)"
proof -
  let ?seed = "combine shA shB" let ?r = "\<lambda>i. generate_from_seed sha256 ?seed (index_get i)"
  have "map index_get idxs \<noteq> []" "\<forall>i \<in> set (map index_get idxs). i \<le> MAX_INDEX" using idxs by auto
  then obtain s' l' h' where rs: "range_split_masks (map index_get idxs) = Inr (s', l', h')"
      "\<forall>i \<in> set (map index_get idxs). \<forall>j \<in> set (map index_get idxs). i AND h' = j AND h'"
      "\<forall>i \<in> set (map index_get idxs). set_bits_desc i = set_bits_desc (i AND h') @ set_bits_desc (i AND l')"
    using range_split_spec by blast
  have lh: "l' = low" "h' = high" using rs(1) split by simp_all
  note hi = rs(2) [unfolded lh] and bits = rs(3) [unfolded lh]
  let ?base = "index_get (hd idxs) AND high"
  have bl: "?base \<le> MAX_INDEX" using idxs by (auto simp: le_MAX_INDEX_iff bit_simps)
  have bn: "?base \<noteq> 0" using common .
  obtain groups ws j trunk j1 where s: "split_chain_bits ?base (effective_chunk_size blocks) = Inr groups" and tot: "sum_list (map length groups) \<noteq> 0"
    and w: "authenticate_seed_inputs aes sha256 (jb_draws e) (shA, shB) (standalone_setup e) = Inr (ws, j)"
    and t: "run_groups aes sha256 (jb_runs e) sha (- 1) groups ws j = Inr (trunk, j1)" "joint_ok dA dB (jb_runs e) j1"
    and wt: "wf_value (generate_from_seed sha256 ?seed ?base)" and tw: "wires_ok dA dB (value_bools (generate_from_seed sha256 ?seed ?base)) (fst trunk) (snd trunk)"
    using trunk_run [where aes = aes, OF g e v bl bn effective_chunk_pos [of blocks]] by (elim exE conjE) (rule that)
  have r: "\<forall>i \<in> set idxs. ?r i = fold (hash_step sha256) (set_bits_desc (index_get i AND low)) (generate_from_seed sha256 ?seed ?base)"
  proof
    fix i assume i: "i \<in> set idxs"
    have mem: "index_get i \<in> set (map index_get idxs)" "index_get (hd idxs) \<in> set (map index_get idxs)" using i idxs(1) by auto
    have "index_get i AND high = ?base" using hi mem by blast
    moreover have "set_bits_desc (index_get i) = set_bits_desc (index_get i AND high) @ set_bits_desc (index_get i AND low)" using bits mem(1) by blast
    ultimately have "set_bits_desc (index_get i) = set_bits_desc ?base @ set_bits_desc (index_get i AND low)" by (simp only:)
    then show "?r i = fold (hash_step sha256) (set_bits_desc (index_get i AND low)) (generate_from_seed sha256 ?seed ?base)"
      by (simp add: generate_from_seed_eq)
  qed
  have "outputs_ok dA dB ?r []" by (simp add: outputs_ok_def)
  then obtain out j2 where o: "foldR (tree_branch aes sha256 (jb_runs e) sha (- 1) low trunk) (enumerate 0 idxs) ([], j1) = Inr (out, j2)"
      "joint_ok dA dB (jb_runs e) j2" "outputs_ok dA dB ?r out" "map fst out = idxs"
    using tree_branches [OF g wt tw r t(2)] by fastforce
  have "map (\<lambda>(index, _). (index, (?r index, ?r index))) out = map (\<lambda>i. (i, (?r i, ?r i))) (map fst out)" by auto
  then show ?thesis using idxs(1) split s tot w t(1) o(1,4) reveal_outputs [OF o(2,3)]
    by (simp add: run_derivation_tree_def)
qed

end
