(* ===== verification/Party_Cache_Correct.thy ===== *)
theory Party_Cache_Correct
  imports Party_Modes_Correct
begin

unbundle bit_operations_syntax

text \<open>
  The cached mode (\<open>run_derivation_cache\<close> in \<open>shachain2pc-party/src/standalone_modes.rs\<close>) opens
  the value of every index of its range: the recursive tiles level by level, and the walk from the
  top of the range with its stack of partial chains, its tiles of 16 leaves and its single nodes.
\<close>

section \<open>Tiles\<close>

definition tile_bools :: "(bytes \<Rightarrow> bytes) \<Rightarrow> nat \<Rightarrow> nat \<Rightarrow> value32 \<Rightarrow> bool list" where
  "tile_bools sha256 offset h v = concat (map (\<lambda>s. value_bools (leaf_value sha256 offset v s)) [0..<2 ^ h])"

lemma leaf_value_wf: "hash_gadget sha256 sha \<Longrightarrow> wf_value v \<Longrightarrow> wf_value (leaf_value sha256 offset v s)"
  unfolding leaf_value_def by (rule hash_gadget_wf)

lemma tile_program_exists:
  assumes g: "hash_gadget sha256 sha" and h: "1 \<le> h" "h \<le> 4" "offset + h \<le> INDEX_BITS" and v: "wf_value v"
  shows "\<exists>program. build_tile_program sha offset h False = Inr program \<and> prog_ok program \<and> pr_num_inputs program = VALUE_BITS
    \<and> prog_eval program (value_bools v) = tile_bools sha256 offset h v \<and> 0 < num_ands program"
proof -
  have gg: "sha_gadget sha256 sha" "gadget_closed sha" "And \<in> g_typ ` set (c_gates sha)" "64 * Suc (length (c_gates sha)) + 5000 \<le> 2 ^ 30"
    using g by (simp_all add: hash_gadget_def)
  have "2 ^ h \<le> (2 :: nat) ^ 4" using h(2) by (intro power_increasing) auto
  then have h16: "2 ^ h \<le> (16 :: nat)" by simp
  then have "h * 2 ^ h \<le> 4 * 16" using h(2) by (rule mult_le_mono [rotated])
  then have "h * 2 ^ h * Suc (length (c_gates sha)) \<le> 64 * Suc (length (c_gates sha))" by (intro mult_le_mono1) simp
  then have "h * 2 ^ h * Suc (length (c_gates sha)) + 256 * 2 ^ h + 258 \<le> 2 ^ 30" using gg(4) h16 by linarith
  from tile_program_run [OF gg(1,2) h(1,3) this v] gg(3) show ?thesis
    by (auto simp: build_tile_program_def tile_bools_def)
qed

lemma tile_run:
  assumes g: "hash_gadget sha256 sha" and h: "1 \<le> h" "h \<le> 4" "offset + h \<le> INDEX_BITS" and j: "joint_ok dA dB env j"
    and p: "build_tile_program sha offset h False = Inr program"
    and v: "wf_value v" "wires_ok dA dB (value_bools v) (fst ws) (snd ws)"
  shows "\<exists>ws' j'. run_both aes sha256 env program ws j = Inr (ws', j') \<and> joint_ok dA dB env j'
    \<and> wires_ok dA dB (tile_bools sha256 offset h v) (fst ws') (snd ws')"
proof -
  have f: "prog_ok program" "pr_num_inputs program = VALUE_BITS" "prog_eval program (value_bools v) = tile_bools sha256 offset h v" "0 < num_ands program"
    using tile_program_exists [OF g h v(1)] p by auto
  have "length (value_bools v) = pr_num_inputs program" using f(2) by simp
  from run_both_spec [OF j f(1) this v(2), of aes sha256] f(3,4) show ?thesis by auto
qed

lemma length_tile_bools: "length (concat (map (\<lambda>s. value_bools (f s)) xs)) = length xs * VALUE_BITS"
  by (induction xs) auto

lemma sl_tile:
  assumes "n < 2 ^ h"
  shows "n * VALUE_BITS + VALUE_BITS \<le> length (tile_bools sha256 offset h v)"
    and "sl (n * VALUE_BITS) VALUE_BITS (tile_bools sha256 offset h v) = value_bools (leaf_value sha256 offset v n)"
proof -
  let ?xs = "map (\<lambda>s. value_bools (leaf_value sha256 offset v s)) [0..<2 ^ h]"
  have n: "n < length ?xs" using assms by simp
  have "take n ?xs = map (\<lambda>s. value_bools (leaf_value sha256 offset v s)) [0..<n]" using assms by (simp add: take_map)
  then have t: "length (concat (take n ?xs)) = n * VALUE_BITS" using length_tile_bools [of "leaf_value sha256 offset v" "[0..<n]"] by simp
  have l: "?xs ! n = value_bools (leaf_value sha256 offset v n)" "length (?xs ! n) = VALUE_BITS" using assms by simp_all
  show "sl (n * VALUE_BITS) VALUE_BITS (tile_bools sha256 offset h v) = value_bools (leaf_value sha256 offset v n)"
    using concat_sl [OF n] unfolding t l by (simp add: tile_bools_def)
  show "n * VALUE_BITS + VALUE_BITS \<le> length (tile_bools sha256 offset h v)"
    using concat_take_le [OF n] unfolding t l by (simp add: tile_bools_def)
qed

lemma wires_lengths:
  assumes "wires_ok dA dB x a b"
  shows "sw_len a = length x" "length (sw_bundle a) = length x" "length (sw_label0 a) = length x"
    "sw_len b = length x" "length (sw_bundle b) = length x" "length (sw_eval b) = length x"
  using assms by (auto simp: wires_ok_def values_ok_def sw_len_def verify_bundles)

definition labels_fit :: "secure_wires \<Rightarrow> bool" where
  "labels_fit w \<longleftrightarrow> length (sw_bundle w) = sw_len w \<and> (sw_label0 w = [] \<or> length (sw_label0 w) = sw_len w)
     \<and> (sw_eval w = [] \<or> length (sw_eval w) = sw_len w)"

lemma slice_fit: "labels_fit w \<Longrightarrow> s + n \<le> sw_len w \<Longrightarrow> sw_slice w s (s + n) = Inr (wires_sl s n w)"
  unfolding labels_fit_def by (blast intro: sw_slice_sl)

lemma labels_fit_strip: "labels_fit w \<Longrightarrow> labels_fit (strip_labels_for_reveal w)"
  by (simp add: labels_fit_def strip_labels_for_reveal_def sw_len_def)

lemma wires_sl_strip: "wires_sl s n (strip_labels_for_reveal w) = strip_labels_for_reveal (wires_sl s n w)"
  by (simp add: wires_sl_def strip_labels_for_reveal_def)

definition tile_ok :: "block \<Rightarrow> block \<Rightarrow> (bytes \<Rightarrow> bytes) \<Rightarrow> nat \<Rightarrow> nat \<Rightarrow> value32 \<Rightarrow> secure_wires both \<Rightarrow> bool" where
  \<comment> \<open>the leaves of a tile can be opened\<close>
  "tile_ok dA dB sha256 offset h v t \<longleftrightarrow> (\<forall>n < 2 ^ h. \<exists>w. slice_both t n = Inr w
     \<and> masked_ok dA dB (value_bools (leaf_value sha256 offset v n)) (fst w) (snd w))"

lemma slice_tile:
  assumes w: "wires_ok dA dB (tile_bools sha256 offset h v) (fst t) (snd t)" and n: "n < 2 ^ h"
    and fit: "labels_fit (fst t)" "labels_fit (snd t)"
  shows "\<exists>w. slice_both t n = Inr w \<and> wires_ok dA dB (value_bools (leaf_value sha256 offset v n)) (fst w) (snd w)
    \<and> labels_fit (fst w) \<and> labels_fit (snd w) \<and> slice_both (strip_both t) n = Inr (strip_both w)"
proof -
  let ?s = "n * VALUE_BITS"
  note st = sl_tile [OF n, of sha256 offset v]
  have le: "?s + VALUE_BITS \<le> sw_len (fst t)" "?s + VALUE_BITS \<le> sw_len (snd t)" using st(1) wires_lengths [OF w] by simp_all
  have sl: "sw_len (strip_labels_for_reveal x) = sw_len x" for x by (simp add: sw_len_def)
  have e: "(n + 1) * VALUE_BITS = ?s + VALUE_BITS" by simp
  let ?w = "(wires_sl ?s VALUE_BITS (fst t), wires_sl ?s VALUE_BITS (snd t))"
  have "slice_both t n = Inr ?w" unfolding slice_both_def e using slice_fit [OF fit(1) le(1)] slice_fit [OF fit(2) le(2)] by simp
  moreover have "slice_both (strip_both t) n = Inr (strip_both ?w)"
    unfolding slice_both_def e strip_both_def fst_conv snd_conv
    using slice_fit [OF labels_fit_strip [OF fit(1)], of ?s VALUE_BITS] slice_fit [OF labels_fit_strip [OF fit(2)], of ?s VALUE_BITS] le
    by (simp add: sl wires_sl_strip)
  moreover have "wires_ok dA dB (value_bools (leaf_value sha256 offset v n)) (fst ?w) (snd ?w)"
    using wires_ok_sl [OF w st(1)] unfolding st(2) by simp
  moreover have "labels_fit (wires_sl ?s VALUE_BITS x)" if "labels_fit x" "?s + VALUE_BITS \<le> sw_len x" for x
    using that by (auto simp: labels_fit_def wires_sl_def sw_len_def)
  ultimately show ?thesis using fit le by auto
qed

lemma gather_fit: "labels_fit (gather_outputs st p)"
  by (simp add: labels_fit_def gather_outputs_def Let_def sw_len_def)

lemma run_program_gathers:
  assumes "run_program aes sha256 env p (prA, inA) (prB, inB) = Inr ((prA', outA), (prB', outB))"
  shows "\<exists>stA stB. outA = gather_outputs stA p \<and> outB = gather_outputs stB p"
  using assms unfolding run_program_def prod.case Let_def bindR_eq_Inr
  by (auto simp: bindR_eq_Inr split: if_splits prod.splits)

lemma run_both_fit: "run_both aes sha256 env p ws j = Inr (ws', j') \<Longrightarrow> labels_fit (fst ws') \<and> labels_fit (snd ws')"
  using run_program_gathers [of aes sha256 "env (jo_step j) (num_ands p)" p "jo_a j" "fst ws" "jo_b j" "snd ws"] gather_fit
  by (fastforce simp: run_both_def bindR_eq_Inr)

lemma tile_opens:
  assumes "wires_ok dA dB (tile_bools sha256 offset h v) (fst t) (snd t)" "labels_fit (fst t)" "labels_fit (snd t)"
  shows "tile_ok dA dB sha256 offset h v (strip_both t)"
  unfolding tile_ok_def
proof (intro allI impI)
  fix n :: nat assume "n < 2 ^ h"
  from slice_tile [OF assms(1) this assms(2,3)] obtain w where "slice_both (strip_both t) n = Inr (strip_both w)"
    "wires_ok dA dB (value_bools (leaf_value sha256 offset v n)) (fst w) (snd w)" by blast
  then show "\<exists>w. slice_both (strip_both t) n = Inr w \<and> masked_ok dA dB (value_bools (leaf_value sha256 offset v n)) (fst w) (snd w)"
    using values_masked by (auto simp: strip_both_def wires_ok_def)
qed

definition idle :: "tamper_cursor \<Rightarrow> bool" where
  \<comment> \<open>no step is tampered with\<close>
  "idle t \<longleftrightarrow> tc_target t = - 1 \<and> 0 \<le> tc_current t"

lemma idle_facts: "idle t \<Longrightarrow> \<not> matches_current t \<and> idle (advance t)"
  by (auto simp: idle_def matches_current_def advance_def)

lemma run_tile_spec:
  assumes g: "hash_gadget sha256 sha" and h: "1 \<le> h" "h \<le> 4" "offset + h \<le> INDEX_BITS" and j: "joint_ok dA dB env j"
    and p: "build_tile_program sha offset h False = Inr program"
    and v: "wf_value v" "wires_ok dA dB (value_bools v) (fst ws) (snd ws)" and t: "idle tamper"
  shows "\<exists>tile j'. run_tile aes sha256 env sha program offset h ws (tamper, j) = Inr (tile, advance tamper, j') \<and> joint_ok dA dB env j'
    \<and> wires_ok dA dB (tile_bools sha256 offset h v) (fst tile) (snd tile) \<and> labels_fit (fst tile) \<and> labels_fit (snd tile)"
  using tile_run [OF g h j p v, of aes] idle_facts [OF t] run_both_fit [of aes sha256 env program ws j]
  by (fastforce simp: run_tile_def)

section \<open>Recursive levels\<close>

definition root_ok :: "block \<Rightarrow> block \<Rightarrow> value32 \<Rightarrow> secure_wires both \<Rightarrow> bool" where
  "root_ok dA dB v w \<longleftrightarrow> wf_value v \<and> wires_ok dA dB (value_bools v) (fst w) (snd w)"

definition level_values :: "(bytes \<Rightarrow> bytes) \<Rightarrow> nat \<Rightarrow> nat \<Rightarrow> value32 list \<Rightarrow> value32 list" where
  "level_values sha256 offset h vs = concat (map (\<lambda>v. map (leaf_value sha256 offset v) [0..<2 ^ h]) vs)"

lemma inner_level:
  assumes g: "hash_gadget sha256 sha" and l: "1 \<le> tl_height l" "tl_height l \<le> 4" "tl_bit_offset l + tl_height l \<le> INDEX_BITS"
    and p: "build_tile_program sha (tl_bit_offset l) (tl_height l) False = Inr program"
    and "list_all2 (root_ok dA dB) vs roots" "list_all2 (root_ok dA dB) us acc" "idle tamper" "joint_ok dA dB env j"
  shows "\<exists>acc' tamper' j'. foldR (level_root aes sha256 env sha program l False) roots (acc, tamper, j) = Inr (acc', tamper', j')
    \<and> idle tamper' \<and> joint_ok dA dB env j'
    \<and> list_all2 (root_ok dA dB) (us @ level_values sha256 (tl_bit_offset l) (tl_height l) vs) acc'"
  using assms(6-)
proof (induction vs roots arbitrary: us acc tamper j rule: list_all2_induct)
  case Nil
  then show ?case by (simp add: level_values_def)
next
  case (Cons v vs root roots)
  let ?o = "tl_bit_offset l" and ?h = "tl_height l"
  have v: "wf_value v" "wires_ok dA dB (value_bools v) (fst root) (snd root)" using Cons.hyps(1) by (simp_all add: root_ok_def)
  obtain tile j1 where t: "run_tile aes sha256 env sha program ?o ?h root (tamper, j) = Inr (tile, advance tamper, j1)" "joint_ok dA dB env j1"
     "wires_ok dA dB (tile_bools sha256 ?o ?h v) (fst tile) (snd tile)" "labels_fit (fst tile)" "labels_fit (snd tile)"
    using run_tile_spec [OF g l Cons.prems(3) p v Cons.prems(2)] by blast
  have "\<exists>w. slice_both tile n = Inr w \<and> root_ok dA dB (leaf_value sha256 ?o v n) w" if "n \<in> set [0..<2 ^ ?h]" for n
    using slice_tile [OF t(3) _ t(4,5), of n] that leaf_value_wf [OF g v(1)] by (auto simp: root_ok_def)
  then obtain f where f: "\<And>n. n \<in> set [0..<2 ^ ?h] \<Longrightarrow> slice_both tile n = Inr (f n)"
      "\<And>n. n \<in> set [0..<2 ^ ?h] \<Longrightarrow> root_ok dA dB (leaf_value sha256 ?o v n) (f n)" by metis
  have m: "mapR (slice_both tile) [0..<2 ^ ?h] = Inr (map f [0..<2 ^ ?h])" by (rule mapR_all_Inr) (rule f(1))
  have acc1: "list_all2 (root_ok dA dB) (us @ map (leaf_value sha256 ?o v) [0..<2 ^ ?h]) (acc @ map f [0..<2 ^ ?h])"
    using Cons.prems(1) f(2) by (intro list_all2_appendI) (auto simp: list_all2_map1 list_all2_map2 list_all2_same)
  obtain acc' tamper' j' where r: "foldR (level_root aes sha256 env sha program l False) roots (acc @ map f [0..<2 ^ ?h], advance tamper, j1) = Inr (acc', tamper', j')"
      "idle tamper'" "joint_ok dA dB env j'"
      "list_all2 (root_ok dA dB) ((us @ map (leaf_value sha256 ?o v) [0..<2 ^ ?h]) @ level_values sha256 ?o ?h vs) acc'"
    using Cons.IH [OF acc1 _ t(2)] idle_facts [OF Cons.prems(2)] by blast
  have "level_root aes sha256 env sha program l False root (acc, tamper, j) = Inr (acc @ map f [0..<2 ^ ?h], advance tamper, j1)"
    using t(1) m by (simp add: level_root_def)
  then show ?case using r by (simp add: level_values_def)
qed

lemma bottom_level:
  assumes g: "hash_gadget sha256 sha" and l: "1 \<le> tl_height l" "tl_height l \<le> 4" "tl_bit_offset l + tl_height l \<le> INDEX_BITS"
    and p: "build_tile_program sha (tl_bit_offset l) (tl_height l) False = Inr program"
    and "list_all2 (root_ok dA dB) vs roots" "idle tamper" "joint_ok dA dB env j"
  shows "\<exists>tiles tamper' j'. foldR (level_root aes sha256 env sha program l True) roots (acc, tamper, j) = Inr (acc @ tiles, tamper', j')
    \<and> joint_ok dA dB env j' \<and> list_all2 (tile_ok dA dB sha256 (tl_bit_offset l) (tl_height l)) vs tiles"
  using assms(6-)
proof (induction vs roots arbitrary: acc tamper j rule: list_all2_induct)
  case (Cons v vs root roots)
  let ?o = "tl_bit_offset l" and ?h = "tl_height l"
  have v: "wf_value v" "wires_ok dA dB (value_bools v) (fst root) (snd root)" using Cons.hyps(1) by (simp_all add: root_ok_def)
  obtain tile j1 where t: "run_tile aes sha256 env sha program ?o ?h root (tamper, j) = Inr (tile, advance tamper, j1)" "joint_ok dA dB env j1"
     "wires_ok dA dB (tile_bools sha256 ?o ?h v) (fst tile) (snd tile)" "labels_fit (fst tile)" "labels_fit (snd tile)"
    using run_tile_spec [OF g l Cons.prems(2) p v Cons.prems(1)] by blast
  obtain tiles tamper' j' where "foldR (level_root aes sha256 env sha program l True) roots (acc @ [strip_both tile], advance tamper, j1) = Inr ((acc @ [strip_both tile]) @ tiles, tamper', j')"
      "joint_ok dA dB env j'" "list_all2 (tile_ok dA dB sha256 ?o ?h) vs tiles"
    using Cons.IH [OF _ t(2)] idle_facts [OF Cons.prems(1)] by blast
  moreover have "level_root aes sha256 env sha program l True root (acc, tamper, j) = Inr (acc @ [strip_both tile], advance tamper, j1)"
    using t(1) by (simp add: level_root_def)
  ultimately show ?case using tile_opens [OF t(3-5)] by (intro exI [of _ "strip_both tile # tiles"]) auto
qed auto

fun levels_ok :: "nat \<Rightarrow> tile_level list \<Rightarrow> bool" where
  \<comment> \<open>the levels cover the bits below \<open>offset\<close>, from the top\<close>
  "levels_ok offset [] \<longleftrightarrow> offset = 0"
| "levels_ok offset (l # ls) \<longleftrightarrow> tl_bit_offset l + tl_height l = offset \<and> 1 \<le> tl_height l \<and> tl_height l \<le> 4 \<and> levels_ok (tl_bit_offset l) ls"

lemma plan_from_ok: "h dvd o1 \<Longrightarrow> 1 \<le> h \<Longrightarrow> h \<le> 4 \<Longrightarrow> levels_ok (o1 + h) (plan_from o1 h)"
proof (induction o1 h rule: plan_from.induct)
  case (1 o1 h)
  show ?case
  proof (cases "o1 = 0")
    case True
    then show ?thesis using "1.prems" by (simp add: plan_from.simps)
  next
    case False
    then have "h \<le> o1" "h dvd o1 - h" using "1.prems" by (auto simp: dvd_imp_le dvd_diff_nat)
    then show ?thesis using 1 False by (auto simp: plan_from.simps [of o1])
  qed
qed

lemma plan_tile_levels_ok:
  assumes "1 \<le> h" "h \<le> 4" "h \<le> depth"
  shows "\<exists>ls. plan_tile_levels depth h = Inr ls \<and> levels_ok depth ls \<and> ls \<noteq> []"
proof -
  let ?r = "depth mod h"
  have d: "h dvd depth - ?r" by (simp add: minus_mod_eq_mult_div)
  have le: "h \<le> depth - ?r"
  proof -
    have "depth - ?r = h * (depth div h)" by (simp add: minus_mod_eq_mult_div)
    moreover have "1 \<le> depth div h" using assms by (simp add: div_greater_zero_iff Suc_le_eq)
    ultimately show ?thesis by simp
  qed
  have p: "levels_ok (depth - ?r) (plan_from (depth - ?r - h) h)"
    using plan_from_ok [OF dvd_diff_nat [OF d dvd_refl] assms(1,2)] by (simp only: le_add_diff_inverse2 [OF le])
  have "plan_from (depth - ?r - h) h \<noteq> []" by (simp add: plan_from.simps)
  moreover have "?r \<le> 4" using mod_less_divisor [of h depth] assms(1,2) by linarith
  ultimately show ?thesis using p assms le by (auto simp: plan_tile_levels_def Let_def)
qed

lemma leaf_compose:
  assumes s: "s < 2 ^ h" and i: "i * 2 ^ h + s < 2 ^ n" "n \<le> INDEX_BITS"
  shows "leaf_value sha256 offset (leaf_value sha256 (offset + h) v i) s = leaf_value sha256 offset v (i * 2 ^ h + s)"
proof -
  define m :: u64 where "m = of_nat (i * 2 ^ h + s)"
  have b: "bit (i * 2 ^ h + s) k \<longleftrightarrow> (if k < h then bit s k else bit i (k - h))" for k
  proof -
    have "take_bit h (i * 2 ^ h + s) = s" using s by (simp add: take_bit_eq_mod)
    moreover have "drop_bit h (i * 2 ^ h + s) = i" using s by (simp add: drop_bit_eq_div)
    ultimately show ?thesis
      by (metis bit_drop_bit_eq bit_take_bit_iff comp_apply le_add_diff_inverse not_le)
  qed
  have small: "bit s k \<Longrightarrow> k < h" for k using s
    by (metis bit_take_bit_iff take_bit_nat_eq_self)
  have si: "s < 2 ^ n" using i(1) by simp
  have "i \<le> i * 2 ^ h" by simp
  then have ii: "i < 2 ^ n" using i(1) by linarith
  have big: "bit (i * 2 ^ h + s) k \<Longrightarrow> k < INDEX_BITS" for k
    using i by (metis bit_take_bit_iff less_le_trans take_bit_nat_eq_self)
  have "set_bits_desc m = map (\<lambda>k. h + k) (set_bits_desc (of_nat i)) @ set_bits_desc (of_nat s)"
  proof (rule desc_unique)
    show "sorted_wrt (>) (set_bits_desc m)" by simp
    show "sorted_wrt (>) (map (\<lambda>k. h + k) (set_bits_desc (of_nat i)) @ set_bits_desc (of_nat s))"
      using small by (fastforce simp: sorted_wrt_append sorted_wrt_map bit_of_nat_iff)
    have bm: "bit m k \<longleftrightarrow> k < 64 \<and> bit (i * 2 ^ h + s) k" "bit (of_nat i :: u64) k \<longleftrightarrow> k < 64 \<and> bit i k" "bit (of_nat s :: u64) k \<longleftrightarrow> k < 64 \<and> bit s k" for k
      by (simp_all add: m_def bit_of_nat_iff del: of_nat_add of_nat_mult)
    show "set (set_bits_desc m) = set (map (\<lambda>k. h + k) (set_bits_desc (of_nat i)) @ set_bits_desc (of_nat s))"
    proof (intro set_eqI iffI)
      fix k assume "k \<in> set (set_bits_desc m)"
      then have k: "k < INDEX_BITS" "bit (i * 2 ^ h + s) k" by (simp_all add: bm)
      show "k \<in> set (map (\<lambda>k. h + k) (set_bits_desc (of_nat i)) @ set_bits_desc (of_nat s))"
      proof (cases "k < h")
        case True
        then show ?thesis using k b [of k] by (simp add: bm INDEX_BITS_def)
      next
        case False
        then have "k = h + (k - h)" "bit i (k - h)" "k - h < INDEX_BITS" using k b [of k] by simp_all
        then show ?thesis by (auto simp: bm INDEX_BITS_def image_iff intro!: bexI [of _ "k - h"])
      qed
    next
      fix k assume "k \<in> set (map (\<lambda>k. h + k) (set_bits_desc (of_nat i)) @ set_bits_desc (of_nat s))"
      then have "bit (i * 2 ^ h + s) k" using b [of k] small by (auto simp: bm)
      then show "k \<in> set (set_bits_desc m)" using big [of k] by (auto simp: bm INDEX_BITS_def)
    qed
  qed
  then show ?thesis by (simp add: leaf_value_def m_def o_def add.assoc del: of_nat_add of_nat_mult)
qed

lemma upt_blocks: "concat (map (\<lambda>i. map (\<lambda>s. i * m + s) [0..<m]) [0..<n]) = [0..<n * m]"
proof (induction n)
  case (Suc n)
  have "map (\<lambda>s. n * m + s) [0..<m] = [n * m..<m + n * m]" using map_add_upt [of "n * m" m] by (simp add: add.commute)
  moreover have "[0..<Suc n * m] = [0..<n * m] @ [n * m..<m + n * m]"
    using upt_add_eq_append [of 0 "n * m" m] by (simp add: add.commute)
  ultimately show ?case using Suc.IH by simp
qed simp

lemma level_values_leaves:
  assumes "N * 2 ^ h \<le> 2 ^ n" "n \<le> INDEX_BITS"
  shows "level_values sha256 offset h (map (leaf_value sha256 (offset + h) v) [0..<N]) = map (leaf_value sha256 offset v) [0..<N * 2 ^ h]"
proof -
  have c: "leaf_value sha256 offset (leaf_value sha256 (offset + h) v i) s = leaf_value sha256 offset v (i * 2 ^ h + s)"
    if "i \<in> set [0..<N]" "s \<in> set [0..<2 ^ h]" for i s
  proof (rule leaf_compose [OF _ _ assms(2)])
    show "s < 2 ^ h" using that by simp
    have "Suc i * 2 ^ h \<le> N * 2 ^ h" using that by (intro mult_le_mono1) simp
    then show "i * 2 ^ h + s < 2 ^ n" using that assms(1) by simp
  qed
  have "level_values sha256 offset h (map (leaf_value sha256 (offset + h) v) [0..<N])
     = concat (map (\<lambda>i. map (\<lambda>s. leaf_value sha256 offset v (i * 2 ^ h + s)) [0..<2 ^ h]) [0..<N])"
    unfolding level_values_def map_map o_def by (intro arg_cong [of _ _ concat] map_cong refl) (rule c)
  also have "\<dots> = map (leaf_value sha256 offset v) (concat (map (\<lambda>i. map (\<lambda>s. i * 2 ^ h + s) [0..<2 ^ h]) [0..<N]))"
    by (simp add: map_concat o_def)
  finally show ?thesis unfolding upt_blocks .
qed

lemma run_levels_spec:
  assumes g: "hash_gadget sha256 sha" and T: "wf_value T" and d: "depth \<le> INDEX_BITS"
    and "levels_ok o1 levels" "levels \<noteq> []" "o1 \<le> depth" "list_all2 (root_ok dA dB) (map (leaf_value sha256 o1 T) [0..<2 ^ (depth - o1)]) roots"
    "idle tamper" "joint_ok dA dB env j"
  shows "\<exists>tiles tamper' j'. run_levels aes sha256 env sha levels (roots, tamper, j) = Inr (tiles, tamper', j') \<and> joint_ok dA dB env j'
    \<and> tl_height (last levels) \<le> depth
    \<and> list_all2 (tile_ok dA dB sha256 0 (tl_height (last levels))) (map (leaf_value sha256 (tl_height (last levels)) T) [0..<2 ^ (depth - tl_height (last levels))]) tiles"
  using assms(4-)
proof (induction levels arbitrary: o1 roots tamper j)
  case (Cons l ls)
  let ?o = "tl_bit_offset l" and ?h = "tl_height l"
  have l: "1 \<le> ?h" "?h \<le> 4" "?o + ?h = o1" "levels_ok ?o ls" using Cons.prems(1) by auto
  have oI: "?o + ?h \<le> INDEX_BITS" using l(3) Cons.prems(3) d by simp
  obtain program where p: "build_tile_program sha ?o ?h False = Inr program" using tile_program_exists [OF g l(1,2) oI T] by blast
  show ?case
  proof (cases "ls = []")
    case True
    then have o: "?o = 0" "o1 = ?h" using l by auto
    obtain tiles tamper' j' where b: "foldR (level_root aes sha256 env sha program l True) roots ([], tamper, j) = Inr ([] @ tiles, tamper', j')"
      "joint_ok dA dB env j'" "list_all2 (tile_ok dA dB sha256 ?o ?h) (map (leaf_value sha256 o1 T) [0..<2 ^ (depth - o1)]) tiles"
      using bottom_level [OF g l(1,2) oI p Cons.prems(4,5,6)] by blast
    then show ?thesis using True p o Cons.prems(3) by simp
  next
    case False
    have e0: "list_all2 (root_ok dA dB) [] []" by simp
    obtain next_roots tamper1 j1 where b: "foldR (level_root aes sha256 env sha program l False) roots ([], tamper, j) = Inr (next_roots, tamper1, j1)"
      "idle tamper1" "joint_ok dA dB env j1"
      "list_all2 (root_ok dA dB) ([] @ level_values sha256 ?o ?h (map (leaf_value sha256 o1 T) [0..<2 ^ (depth - o1)])) next_roots"
      using inner_level [OF g l(1,2) oI p Cons.prems(4) e0 Cons.prems(5,6)] by blast
    have pw: "2 ^ (depth - o1) * 2 ^ ?h = (2 :: nat) ^ (depth - ?o)"
    proof -
      have e: "depth - o1 + ?h = depth - ?o" using l(3) Cons.prems(3) by linarith
      show ?thesis unfolding power_add [symmetric] e ..
    qed
    have lr: "list_all2 (root_ok dA dB) (map (leaf_value sha256 ?o T) [0..<2 ^ (depth - ?o)]) next_roots"
      using b(4) level_values_leaves [of "2 ^ (depth - o1)" ?h "depth - ?o" sha256 ?o T] d unfolding l(3) pw by simp
    have lo: "?o \<le> depth" using l(3) Cons.prems(3) by simp
    obtain tiles tamper' j' where "run_levels aes sha256 env sha ls (next_roots, tamper1, j1) = Inr (tiles, tamper', j')" "joint_ok dA dB env j'"
      "tl_height (last ls) \<le> depth"
      "list_all2 (tile_ok dA dB sha256 0 (tl_height (last ls))) (map (leaf_value sha256 (tl_height (last ls)) T) [0..<2 ^ (depth - tl_height (last ls))]) tiles"
      using Cons.IH [OF l(4) False lo lr b(2,3)] by (elim exE conjE) (rule that)
    then show ?thesis using False p b(1) by simp
  qed
qed simp

section \<open>Opening the leaves\<close>

lemma fold_update_nth:
  assumes "x \<in> set xs" "inj_on pos (set xs)" "pos x < length rs"
  shows "fold (\<lambda>x rs. rs[pos x := Some (f x)]) xs rs ! pos x = Some (f x)"
  using assms
proof (induction xs rule: rev_induct)
  case (snoc y xs)
  have len: "length (fold (\<lambda>x rs. rs[pos x := Some (f x)]) zs rs) = length rs" for zs by (induction zs arbitrary: rs) auto
  show ?case
  proof (cases "x = y")
    case True
    then show ?thesis using snoc.prems(3) by (simp add: len)
  next
    case False
    then have x: "x \<in> set xs" using snoc.prems(1) by simp
    have "pos y \<noteq> pos x" using False snoc.prems(1,2) x by (metis inj_on_contraD in_set_conv_decomp set_append Un_iff)
    moreover have "inj_on pos (set xs)" using snoc.prems(2) by (rule inj_on_subset) auto
    ultimately show ?thesis using snoc.IH [OF x _ snoc.prems(3)] by simp
  qed
qed simp

lemma descending_set: "set (descending lo hi) = {x. lo \<le> x \<and> x \<le> hi}"
proof (intro set_eqI iffI)
  fix x assume "x \<in> set (descending lo hi)"
  then obtain k where k: "unat lo \<le> k" "k \<le> unat hi" "x = of_nat k" by (auto simp: descending_def)
  have "k < 2 ^ 64" 
  proof -
    have "unat hi < 2 ^ LENGTH(64)" by (rule unsigned_less)
    then show ?thesis using k(2) by simp
  qed
  then have "unat x = k" using k(3) by (simp add: unat_of_nat take_bit_nat_eq_self)
  then show "x \<in> {x. lo \<le> x \<and> x \<le> hi}" using k by (simp add: word_le_nat_alt)
next
  fix x assume "x \<in> {x. lo \<le> x \<and> x \<le> hi}"
  then have "unat x \<in> set (rev [unat lo..<Suc (unat hi)])" by (simp del: upt_Suc add: less_Suc_eq_le word_le_nat_alt)
  then have "of_nat (unat x) \<in> set (descending lo hi)" unfolding descending_def set_map by (rule imageI)
  then show "x \<in> set (descending lo hi)" by simp
qed

lemma reveal_all:
  assumes lh: "lo \<le> hi" "hi \<le> MAX_INDEX"
    and step: "\<And>x rs. lo \<le> x \<Longrightarrow> x \<le> hi \<Longrightarrow> step x rs = Inr (rs[unat (x - lo) := Some (f x)])"
    and idxs: "\<forall>i \<in> set idxs. lo \<le> index_get i \<and> index_get i \<le> hi"
  shows "bindR (foldR step (descending lo hi) (replicate (unat (hi - lo + 1)) None)) (collect_results msg lo idxs)
    = Inr (map (\<lambda>i. (i, f (index_get i))) idxs)"
proof -
  let ?ds = "descending lo hi" let ?n = "unat (hi - lo + 1)" let ?upd = "\<lambda>x rs. rs[unat (x - lo) := Some (f x)]"
  have "foldR step xs rs = Inr (fold ?upd xs rs)" if "set xs \<subseteq> set ?ds" for xs rs
    using that unfolding descending_set by (induction xs arbitrary: rs) (auto simp: step)
  then have r: "foldR step ?ds (replicate ?n None) = Inr (fold ?upd ?ds (replicate ?n None))" by blast
  have len: "length (fold ?upd xs rs) = length rs" for xs rs by (induction xs arbitrary: rs) auto
  have n: "?n = unat hi - unat lo + 1"
  proof -
    have d: "unat (hi - lo) = unat hi - unat lo" using lh(1) by (simp add: unat_sub)
    have "unat hi < 2 ^ 48" using lh(2) by (simp add: MAX_INDEX_eq word_le_nat_alt)
    then show ?thesis using d by (simp add: unat_word_ariths)
  qed
  have pos: "unat (x - lo) = unat x - unat lo" "unat (x - lo) < ?n" if "x \<in> set ?ds" for x
  proof -
    have x: "lo \<le> x" "x \<le> hi" using that by (auto simp: descending_set)
    then show d: "unat (x - lo) = unat x - unat lo" by (simp add: unat_sub)
    then show "unat (x - lo) < ?n" using x unfolding n by (simp add: word_le_nat_alt)
  qed
  have inj: "inj_on (\<lambda>x. unat (x - lo)) (set ?ds)"
    by (rule inj_onI) (metis diff_add_cancel word_eq_iff_unsigned)
  have "collect_results msg lo idxs (fold ?upd ?ds (replicate ?n None)) = Inr (map (\<lambda>i. (i, f (index_get i))) idxs)"
    unfolding collect_results_def
  proof (rule mapR_all_Inr)
    fix i assume "i \<in> set idxs"
    then have i: "index_get i \<in> set ?ds" using idxs by (simp add: descending_set)
    have "fold ?upd ?ds (replicate ?n None) ! unat (index_get i - lo) = Some (f (index_get i))"
      using fold_update_nth [OF i inj, of "replicate ?n None" f] pos(2) [OF i] by simp
    then show "(let offset = unat (index_get i - lo) in if offset \<ge> length (fold ?upd ?ds (replicate ?n None)) then Inl PPanic
       else bindR (okOr (PUnsupportedMode msg) (fold ?upd ?ds (replicate ?n None) ! offset)) (\<lambda>value. Inr (i, value))) = Inr (i, f (index_get i))"
      using pos(2) [OF i] by (simp add: len Let_def)
  qed
  then show ?thesis using r by simp
qed

lemma reveal_value_run:
  "joint_ok dA dB env j \<Longrightarrow> masked_ok dA dB (value_bools v) (fst ws) (snd ws) \<Longrightarrow> wf_value v \<Longrightarrow> reveal_value sha256 j ws = Inr (v, v)"
  unfolding reveal_value_def by (rule reveal_public_run)

lemma reveal_tiles_step:
  assumes g: "hash_gadget sha256 sha" and T: "wf_value T" and j: "joint_ok dA dB env j" and low: "low = mask depth" and d: "h \<le> depth" "depth \<le> INDEX_BITS"
    and t: "list_all2 (tile_ok dA dB sha256 0 h) (map (leaf_value sha256 h T) [0..<2 ^ (depth - h)]) tiles"
    and r: "r = fold (hash_step sha256) (set_bits_desc (x AND low)) T"
  shows "reveal_tiles sha256 j h lo low tiles x rs = Inr (rs[unat (x - lo) := Some (r, r)])"
proof -
  define u where "u = unat (x AND low)"
  have u: "u < 2 ^ depth"
  proof -
    have "u = take_bit depth (unat x)" unfolding u_def low take_bit_eq_mask [symmetric] by (simp add: unsigned_take_bit_eq)
    then show ?thesis by simp
  qed
  have ti: "unat (drop_bit h (x AND low)) = u div 2 ^ h" using unat_drop_bit_eq [of h "x AND low"] by (simp only: drop_bit_eq_div [where ?'a = nat] u_def)
  have lm: "push_bit h 1 - 1 = (mask h :: u64)" by (simp add: mask_eq_exp_minus_1 push_bit_eq_mult)
  have ni: "unat ((x AND low) AND (push_bit h 1 - 1)) = u mod 2 ^ h"
    unfolding lm take_bit_eq_mask [symmetric] u_def
    by (simp only: unsigned_take_bit_eq take_bit_eq_mod [where ?'a = nat])
  have div: "u div 2 ^ h < 2 ^ (depth - h)"
  proof -
    have "(2 :: nat) ^ depth = 2 ^ (depth - h) * 2 ^ h" using d(1) by (simp flip: power_add)
    then show ?thesis using u by (simp add: less_mult_imp_div_less)
  qed
  have len: "length tiles = 2 ^ (depth - h)" using t by (simp add: list_all2_lengthD [symmetric])
  have "tile_ok dA dB sha256 0 h (leaf_value sha256 h T (u div 2 ^ h)) (tiles ! (u div 2 ^ h))"
    using list_all2_nthD [OF t, of "u div 2 ^ h"] div by simp
  then obtain w where w: "slice_both (tiles ! (u div 2 ^ h)) (u mod 2 ^ h) = Inr w"
      "masked_ok dA dB (value_bools (leaf_value sha256 0 (leaf_value sha256 h T (u div 2 ^ h)) (u mod 2 ^ h))) (fst w) (snd w)"
    using mod_less_divisor [of "2 ^ h" u] unfolding tile_ok_def by fastforce
  have "leaf_value sha256 0 (leaf_value sha256 h T (u div 2 ^ h)) (u mod 2 ^ h) = leaf_value sha256 0 T u"
    using leaf_compose [of "u mod 2 ^ h" h "u div 2 ^ h" depth sha256 0 T, unfolded div_mult_mod_eq] u d(2) by simp
  also have "\<dots> = r" unfolding leaf_value_def r u_def by (simp add: map_idI)
  finally have w2: "masked_ok dA dB (value_bools r) (fst w) (snd w)" using w(2) by simp
  have "wf_value r" unfolding r by (rule hash_gadget_wf [OF g T])
  then have rv: "reveal_value sha256 j w = Inr (r, r)" by (rule reveal_value_run [OF j w2])
  have il: "u div 2 ^ h < length tiles" using div len by simp
  show ?thesis unfolding reveal_tiles_def Let_def ti ni using w(1) rv il by simp
qed

section \<open>The stack of partial chains\<close>

definition stack_ok :: "block \<Rightarrow> block \<Rightarrow> (bytes \<Rightarrow> bytes) \<Rightarrow> value32 \<Rightarrow> cache_stack \<Rightarrow> bool" where
  \<comment> \<open>value \<open>k\<close> of the stack is the trunk's after the first \<open>k\<close> bits\<close>
  "stack_ok dA dB sha256 T s \<longleftrightarrow> length (cs_vals s) = Suc (length (cs_bits s)) \<and>
     (\<forall>k \<le> length (cs_bits s). root_ok dA dB (fold (hash_step sha256) (take k (cs_bits s)) T) (cs_vals s ! k))"

lemma stack_last_ok: "stack_ok dA dB sha256 T s \<Longrightarrow> root_ok dA dB (fold (hash_step sha256) (cs_bits s) T) (stack_last s)"
  unfolding stack_ok_def by (elim conjE, drule spec [of _ "length (cs_bits s)"]) (auto simp: stack_last_def last_conv_nth simp flip: length_greater_0_conv)

lemma stack_push_ok:
  assumes "stack_ok dA dB sha256 T s" "root_ok dA dB (fold (hash_step sha256) (cs_bits s @ [b]) T) w"
  shows "stack_ok dA dB sha256 T (s\<lparr>cs_vals := cs_vals s @ [w], cs_bits := cs_bits s @ [b]\<rparr>)"
  using assms by (auto simp: stack_ok_def nth_append le_Suc_eq)

lemma stack_take_ok:
  "stack_ok dA dB sha256 T s \<Longrightarrow> n \<le> length (cs_bits s) \<Longrightarrow>
    stack_ok dA dB sha256 T (s\<lparr>cs_bits := take n (cs_bits s), cs_vals := take (n + 1) (cs_vals s)\<rparr>)"
  by (auto simp: stack_ok_def min_def)

lemma common_prefix_spec: "common_prefix xs ys \<le> length xs \<and> take (common_prefix xs ys) xs = take (common_prefix xs ys) ys"
  by (induction xs ys rule: common_prefix.induct) auto

lemma align_pushes:
  assumes g: "hash_gadget sha256 sha" and one: "chunk_program sha [0] False False = Inr one_step"
    and "stack_ok dA dB sha256 T stack" "\<forall>b \<in> set bits. b < INDEX_BITS" "idle tamper" "joint_ok dA dB env j"
  shows "\<exists>stack' tamper' j'. foldR (align_push aes sha256 env sha one_step) bits (stack, tamper, j) = Inr (stack', tamper', j')
    \<and> stack_ok dA dB sha256 T stack' \<and> cs_bits stack' = cs_bits stack @ bits \<and> idle tamper' \<and> joint_ok dA dB env j'"
  using assms(3-)
proof (induction bits arbitrary: stack tamper j)
  case (Cons b bits)
  let ?v = "fold (hash_step sha256) (cs_bits stack) T"
  have r: "wf_value ?v" "wires_ok dA dB (value_bools ?v) (fst (stack_last stack)) (snd (stack_last stack))"
    using stack_last_ok [OF Cons.prems(1)] by (simp_all add: root_ok_def)
  have kb: "\<forall>k \<in> set [b]. k < INDEX_BITS" "length [b] \<le> 48" using Cons.prems(2) by auto
  obtain program w j1 where p: "chunk_program sha [b] False False = Inr program" "run_both aes sha256 env program (stack_last stack) j = Inr (w, j1)"
     "joint_ok dA dB env j1" "wires_ok dA dB (value_bools (fold (hash_step sha256) [b] ?v)) (fst w) (snd w)"
    using next_chunk [OF g Cons.prems(4) kb r, of aes] by blast
  let ?s = "stack\<lparr>cs_vals := cs_vals stack @ [w], cs_bits := cs_bits stack @ [b]\<rparr>"
  have "root_ok dA dB (fold (hash_step sha256) (cs_bits stack @ [b]) T) w"
    using p(4) hash_gadget_wf [OF g r(1), of "[b]"] by (simp add: root_ok_def)
  then have so: "stack_ok dA dB sha256 T ?s" by (rule stack_push_ok [OF Cons.prems(1)])
  have step: "align_push aes sha256 env sha one_step b (stack, tamper, j) = Inr (?s, advance tamper, j1)"
    using p(1,2) one idle_facts [OF Cons.prems(3)] by (cases "b = 0") (simp_all add: align_push_def Let_def)
  obtain stack' tamper' j' where "foldR (align_push aes sha256 env sha one_step) bits (?s, advance tamper, j1) = Inr (stack', tamper', j')"
    "stack_ok dA dB sha256 T stack'" "cs_bits stack' = cs_bits ?s @ bits" "idle tamper'" "joint_ok dA dB env j'"
    using Cons.IH [OF so _ _ p(3), of "advance tamper"] Cons.prems(2) idle_facts [OF Cons.prems(3)] by auto
  then show ?case using step by simp
qed simp

lemma align_spec:
  assumes g: "hash_gadget sha256 sha" and one: "chunk_program sha [0] False False = Inr one_step"
    and s: "stack_ok dA dB sha256 T stack" and t: "\<forall>b \<in> set target. b < INDEX_BITS" and i: "idle tamper" and j: "joint_ok dA dB env j"
  shows "\<exists>stack' tamper' j'. align_cache_stack aes sha256 env sha one_step target (stack, tamper, j) = Inr (stack', tamper', j')
    \<and> stack_ok dA dB sha256 T stack' \<and> cs_bits stack' = target \<and> idle tamper' \<and> joint_ok dA dB env j'"
proof -
  let ?n = "common_prefix (cs_bits stack) target"
  let ?s = "stack\<lparr>cs_bits := take ?n (cs_bits stack), cs_vals := take (?n + 1) (cs_vals stack)\<rparr>"
  note cp = common_prefix_spec [of "cs_bits stack" target]
  have so: "stack_ok dA dB sha256 T ?s" by (rule stack_take_ok [OF s]) (use cp in simp)
  have d: "\<forall>b \<in> set (drop ?n target). b < INDEX_BITS" using t by (meson in_set_dropD)
  obtain stack' tamper' j' where r: "foldR (align_push aes sha256 env sha one_step) (drop ?n target) (?s, tamper, j) = Inr (stack', tamper', j')"
    "stack_ok dA dB sha256 T stack'" "cs_bits stack' = cs_bits ?s @ drop ?n target" "idle tamper'" "joint_ok dA dB env j'"
    using align_pushes [OF g one so d i j] by blast
  have "cs_bits stack' = target" using r(3) cp by simp
  then show ?thesis using r by (simp add: align_cache_stack_def Let_def)
qed

section \<open>The walk over a range\<close>

abbreviation low_value :: "(bytes \<Rightarrow> bytes) \<Rightarrow> u64 \<Rightarrow> value32 \<Rightarrow> u64 \<Rightarrow> value32" where
  \<comment> \<open>the value of an index over the trunk value \<open>T\<close>\<close>
  "low_value sha256 low T x \<equiv> fold (hash_step sha256) (set_bits_desc (x AND low)) T"

abbreviation tile_base :: "u64 \<Rightarrow> u64" where
  "tile_base x \<equiv> x AND NOT (of_nat CACHE_TILE_LEAVES - 1)"

lemma tile_mask: "(of_nat CACHE_TILE_LEAVES :: u64) - 1 = mask 4"
  by (simp add: CACHE_TILE_LEAVES_def CACHE_TILE_HEIGHT_def mask_eq_exp_minus_1)

definition walk_ok :: "block \<Rightarrow> block \<Rightarrow> runs \<Rightarrow> (bytes \<Rightarrow> bytes) \<Rightarrow> u64 \<Rightarrow> value32 \<Rightarrow> cache_walk \<Rightarrow> bool" where
  \<comment> \<open>what is cached opens to the right values\<close>
  "walk_ok dA dB env sha256 low T w \<longleftrightarrow> stack_ok dA dB sha256 T (cw_stack w) \<and> idle (cw_tamper w) \<and> joint_ok dA dB env (cw_joint w)
     \<and> (\<forall>x ws. cw_singles w x = Some ws \<longrightarrow> masked_ok dA dB (value_bools (low_value sha256 low T x)) (fst ws) (snd ws))
     \<and> (\<forall>x t. cw_tiles w (tile_base x) = Some t \<longrightarrow> (\<exists>ws. slice_both t (unat (x AND mask 4)) = Inr ws
          \<and> masked_ok dA dB (value_bools (low_value sha256 low T x)) (fst ws) (snd ws)))"

definition covered :: "cache_walk \<Rightarrow> u64 \<Rightarrow> bool" where
  "covered w x \<longleftrightarrow> cw_tiles w (tile_base x) \<noteq> None \<or> cw_singles w x \<noteq> None"

lemma low_split:
  assumes "mask 4 AND low = (mask 4 :: u64)"
  shows "set_bits_desc (x AND low) = set_bits_desc ((tile_base x AND low) AND NOT (mask 4)) @ set_bits_desc (x AND mask 4)"
proof (rule desc_unique)
  have m: "bit low k" if "k < 4" for k
  proof -
    have "bit (mask 4 AND low) k" unfolding assms using that by (simp add: bit_mask_iff)
    then show ?thesis by (simp add: bit_and_iff)
  qed
  show "sorted_wrt (>) (set_bits_desc (x AND low))" by simp
  show "sorted_wrt (>) (set_bits_desc ((tile_base x AND low) AND NOT (mask 4)) @ set_bits_desc (x AND mask 4))"
    by (auto simp: sorted_wrt_append bit_and_iff bit_not_iff bit_mask_iff)
  show "set (set_bits_desc (x AND low)) = set (set_bits_desc ((tile_base x AND low) AND NOT (mask 4)) @ set_bits_desc (x AND mask 4))"
    unfolding tile_mask using m by (auto simp: bit_and_iff bit_not_iff bit_mask_iff INDEX_BITS_def)
qed

lemma walk_single_spec:
  assumes g: "hash_gadget sha256 sha" and one: "chunk_program sha [0] False False = Inr one_step" and w: "walk_ok dA dB env sha256 low T w"
  shows "\<exists>w'. walk_single aes sha256 env sha one_step low x w = Inr w' \<and> walk_ok dA dB env sha256 low T w'
    \<and> covered w' x \<and> (\<forall>y. covered w y \<longrightarrow> covered w' y)"
proof -
  have so: "stack_ok dA dB sha256 T (cw_stack w)" and i: "idle (cw_tamper w)" and j: "joint_ok dA dB env (cw_joint w)"
    using w by (simp_all add: walk_ok_def)
  note wk = w [unfolded walk_ok_def]
  have b: "\<forall>b \<in> set (set_bits_desc (x AND low)). b < INDEX_BITS" by simp
  obtain stack tamper j where a: "align_cache_stack aes sha256 env sha one_step (set_bits_desc (x AND low)) (cw_stack w, cw_tamper w, cw_joint w) = Inr (stack, tamper, j)"
      "stack_ok dA dB sha256 T stack" "cs_bits stack = set_bits_desc (x AND low)" "idle tamper" "joint_ok dA dB env j"
    using align_spec [OF g one so b i j, of aes] by (elim exE conjE) (rule that)
  have "wires_ok dA dB (value_bools (low_value sha256 low T x)) (fst (stack_last stack)) (snd (stack_last stack))"
    using stack_last_ok [OF a(2)] unfolding a(3) by (simp add: root_ok_def)
  then have "masked_ok dA dB (value_bools (low_value sha256 low T x)) (fst (strip_both (stack_last stack))) (snd (strip_both (stack_last stack)))"
    using values_masked by (simp add: strip_both_def wires_ok_def)
  then show ?thesis using a wk by (auto simp: walk_single_def walk_ok_def covered_def)
qed

lemma walk_tile_spec:
  assumes g: "hash_gadget sha256 sha" and one: "chunk_program sha [0] False False = Inr one_step"
    and p: "build_tile_program sha 0 CACHE_TILE_HEIGHT False = Inr program" and w: "walk_ok dA dB env sha256 low T w"
    and low: "mask 4 AND low = (mask 4 :: u64)"
  shows "\<exists>w'. walk_tile aes sha256 env sha one_step (Some program) low (tile_base y) w = Inr w' \<and> walk_ok dA dB env sha256 low T w'
    \<and> (\<forall>x. tile_base x = tile_base y \<longrightarrow> covered w' x) \<and> (\<forall>x. covered w x \<longrightarrow> covered w' x)"
proof -
  have so: "stack_ok dA dB sha256 T (cw_stack w)" and i: "idle (cw_tamper w)" and j: "joint_ok dA dB env (cw_joint w)"
    using w by (simp_all add: walk_ok_def)
  note wk = w [unfolded walk_ok_def]
  let ?pre = "set_bits_desc ((tile_base y AND low) AND NOT (of_nat CACHE_TILE_LEAVES - 1))"
  have b: "\<forall>b \<in> set ?pre. b < INDEX_BITS" by simp
  obtain stack tamper j where a: "align_cache_stack aes sha256 env sha one_step ?pre (cw_stack w, cw_tamper w, cw_joint w) = Inr (stack, tamper, j)"
      "stack_ok dA dB sha256 T stack" "cs_bits stack = ?pre" "idle tamper" "joint_ok dA dB env j"
    using align_spec [OF g one so b i j, of aes] by (elim exE conjE) (rule that)
  let ?V = "fold (hash_step sha256) ?pre T"
  have V: "wf_value ?V" "wires_ok dA dB (value_bools ?V) (fst (stack_last stack)) (snd (stack_last stack))"
    using stack_last_ok [OF a(2)] unfolding a(3) by (simp_all add: root_ok_def)
  have h4: "1 \<le> CACHE_TILE_HEIGHT" "CACHE_TILE_HEIGHT \<le> 4" "0 + CACHE_TILE_HEIGHT \<le> INDEX_BITS" by (simp_all add: CACHE_TILE_HEIGHT_def INDEX_BITS_def)
  obtain tile j1 where t: "run_tile aes sha256 env sha program 0 CACHE_TILE_HEIGHT (stack_last stack) (tamper, j) = Inr (tile, advance tamper, j1)"
      "joint_ok dA dB env j1" "wires_ok dA dB (tile_bools sha256 0 CACHE_TILE_HEIGHT ?V) (fst tile) (snd tile)" "labels_fit (fst tile)" "labels_fit (snd tile)"
    using run_tile_spec [OF g h4 a(5) p V a(4)] by blast
  have tk: "tile_ok dA dB sha256 0 4 ?V (strip_both tile)" using tile_opens [OF t(3-5)] by (simp add: CACHE_TILE_HEIGHT_def)
  have leaf: "\<exists>ws. slice_both (strip_both tile) (unat (x AND mask 4)) = Inr ws \<and> masked_ok dA dB (value_bools (low_value sha256 low T x)) (fst ws) (snd ws)"
    if x: "tile_base x = tile_base y" for x
  proof -
    have "unat (x AND mask 4) = take_bit 4 (unat x)" by (simp only: take_bit_eq_mask [symmetric] unsigned_take_bit_eq)
    then have lt: "unat (x AND mask 4) < 2 ^ 4" by (simp only: take_bit_nat_less_exp)
    have "leaf_value sha256 0 ?V (unat (x AND mask 4)) = fold (hash_step sha256) (set_bits_desc (x AND mask 4)) ?V"
      by (simp add: leaf_value_def map_idI)
    also have "\<dots> = low_value sha256 low T x"
      unfolding low_split [OF low, of x] fold_append o_apply x unfolding tile_mask ..
    finally show ?thesis using tk lt unfolding tile_ok_def by metis
  qed
  let ?w = "w\<lparr>cw_stack := stack, cw_tamper := advance tamper, cw_joint := j1, cw_tiles := (cw_tiles w)(tile_base y \<mapsto> strip_both tile)\<rparr>"
  have "walk_tile aes sha256 env sha one_step (Some program) low (tile_base y) w = Inr ?w"
    using a(1) t(1) by (simp add: walk_tile_def Let_def)
  moreover have "walk_ok dA dB env sha256 low T ?w"
    unfolding walk_ok_def
  proof (intro conjI allI impI)
    fix x t assume "cw_tiles ?w (tile_base x) = Some t"
    then show "\<exists>ws. slice_both t (unat (x AND mask 4)) = Inr ws \<and> masked_ok dA dB (value_bools (low_value sha256 low T x)) (fst ws) (snd ws)"
    proof (cases "tile_base x = tile_base y")
      case True
      then show ?thesis using leaf [of x] \<open>cw_tiles ?w (tile_base x) = Some t\<close> by simp
    next
      case False
      then have "cw_tiles w (tile_base x) = Some t" using \<open>cw_tiles ?w (tile_base x) = Some t\<close> by simp
      then show ?thesis using wk by blast
    qed
  qed (use wk a(2) t(2) idle_facts [OF a(4)] in auto)
  ultimately show ?thesis by (auto simp: covered_def)
qed

lemma tile_base_of_nat:
  assumes "index < 2 ^ 64" shows "(of_nat (index - index mod CACHE_TILE_LEAVES) :: u64) = tile_base (of_nat index)"
proof -
  let ?x = "of_nat index :: u64"
  have ux: "unat ?x = index" using assms by (simp add: unat_of_nat take_bit_nat_eq_self)
  have m: "unat (?x AND mask 4) = index mod CACHE_TILE_LEAVES"
    unfolding take_bit_eq_mask [symmetric] unfolding unsigned_take_bit_eq ux by (simp add: take_bit_eq_mod CACHE_TILE_LEAVES_def CACHE_TILE_HEIGHT_def)
  have "?x = (?x AND mask 4) + tile_base ?x"
  proof -
    have "?x = (?x AND mask 4) OR (?x AND NOT (mask 4))" by (rule bit_word_eqI) (auto simp: bit_simps)
    moreover have "(?x AND mask 4) AND (?x AND NOT (mask 4)) = 0" by (rule bit_word_eqI) (auto simp: bit_simps)
    ultimately show ?thesis unfolding tile_mask using word_plus_and_or [of "?x AND mask 4" "?x AND NOT (mask 4)"] by simp
  qed
  then have "tile_base ?x = ?x - (?x AND mask 4)" by (metis add_diff_cancel_left')
  also have "\<dots> = of_nat index - of_nat (index mod CACHE_TILE_LEAVES)" unfolding m [symmetric] by simp
  finally show ?thesis by (simp add: of_nat_diff)
qed

lemma block_of_16: "(i :: nat) mod 16 = 15 \<Longrightarrow> i - i mod 16 \<le> u \<Longrightarrow> u \<le> i \<Longrightarrow> u - u mod 16 = i - i mod 16"
proof -
  assume a: "i mod 16 = 15" "i - i mod 16 \<le> u" "u \<le> i"
  have "i = 16 * (i div 16) + 15" using a(1) mult_div_mod_eq [of 16 i] by simp
  then have "u div 16 = i div 16" using a by (intro div_nat_eqI) (auto simp: a(1))
  then show ?thesis by (simp add: minus_mod_eq_mult_div)
qed

lemma tile_base_block:
  assumes "index < 2 ^ 64" "index mod CACHE_TILE_LEAVES = CACHE_TILE_LEAVES - 1" "index - index mod CACHE_TILE_LEAVES \<le> unat x" "unat x \<le> index"
  shows "tile_base x = tile_base (of_nat index)"
proof -
  have "unat x < 2 ^ 64" using assms(1,4) by linarith
  then have "tile_base x = of_nat (unat x - unat x mod CACHE_TILE_LEAVES)" using tile_base_of_nat [of "unat x"] by simp
  moreover have "unat x - unat x mod CACHE_TILE_LEAVES = index - index mod CACHE_TILE_LEAVES"
    using assms(2-4) block_of_16 [of index "unat x"] by (simp add: CACHE_TILE_LEAVES_def CACHE_TILE_HEIGHT_def)
  ultimately show ?thesis using tile_base_of_nat [OF assms(1)] by simp
qed

lemma walk_range_spec:
  assumes g: "hash_gadget sha256 sha" and one: "chunk_program sha [0] False False = Inr one_step"
    and tl: "can_tile \<Longrightarrow> mask 4 AND low = (mask 4 :: u64) \<and> tile_program \<noteq> None"
    and p: "\<And>program. tile_program = Some program \<Longrightarrow> build_tile_program sha 0 CACHE_TILE_HEIGHT False = Inr program"
    and "walk_ok dA dB env sha256 low T w" "index < 2 ^ 64" "lo \<le> index"
  shows "\<exists>w'. walk_range aes sha256 env sha one_step tile_program can_tile lo hi low index w = Inr w' \<and> walk_ok dA dB env sha256 low T w'
    \<and> (\<forall>x. covered w x \<longrightarrow> covered w' x) \<and> (\<forall>x. lo \<le> unat x \<longrightarrow> unat x \<le> index \<longrightarrow> covered w' x)"
  using assms(5-)
proof (induction index arbitrary: w rule: less_induct)
  case (less index)
  show ?case
  proof (cases "full_tile can_tile lo hi index")
    case True
    let ?b = "index - index mod CACHE_TILE_LEAVES"
    have ft: "can_tile" "index mod CACHE_TILE_LEAVES = CACHE_TILE_LEAVES - 1" "lo \<le> ?b" using True by (auto simp: full_tile_def Let_def)
    obtain program where tp: "tile_program = Some program" using tl [OF ft(1)] by auto
    have lm: "mask 4 AND low = (mask 4 :: u64)" using tl [OF ft(1)] by simp
    obtain w1 where w1: "walk_tile aes sha256 env sha one_step (Some program) low (tile_base (of_nat index)) w = Inr w1" "walk_ok dA dB env sha256 low T w1"
        "\<forall>x. tile_base x = tile_base (of_nat index) \<longrightarrow> covered w1 x" "\<forall>x. covered w x \<longrightarrow> covered w1 x"
      using walk_tile_spec [OF g one p [OF tp] less.prems(1) lm, of aes "of_nat index"] by (elim exE conjE) (rule that)
    have blk: "covered w1 x" if "?b \<le> unat x" "unat x \<le> index" for x
      using w1(3) tile_base_block [OF less.prems(2) ft(2) that] by blast
    have wt: "walk_tile aes sha256 env sha one_step tile_program low (of_nat ?b) w = Inr w1"
      using w1(1) unfolding tp tile_base_of_nat [OF less.prems(2)] .
    show ?thesis
    proof (cases "?b \<le> lo")
      case True
      then have "walk_range aes sha256 env sha one_step tile_program can_tile lo hi low index w = Inr w1"
        using \<open>full_tile can_tile lo hi index\<close> wt by (subst walk_range.simps) (simp add: Let_def)
      then show ?thesis using w1(2,4) blk True ft(3) by (intro exI [of _ w1]) auto
    next
      case False
      have lt: "?b - 1 < index" "?b - 1 < 2 ^ 64" "lo \<le> ?b - 1" using False less.prems(2,3) by linarith+
      obtain w2 where w2: "walk_range aes sha256 env sha one_step tile_program can_tile lo hi low (?b - 1) w1 = Inr w2" "walk_ok dA dB env sha256 low T w2"
        "\<forall>x. covered w1 x \<longrightarrow> covered w2 x" "\<forall>x. lo \<le> unat x \<longrightarrow> unat x \<le> ?b - 1 \<longrightarrow> covered w2 x"
        using less.IH [OF lt(1) w1(2) lt(2,3)] by (elim exE conjE) (rule that)
      have "walk_range aes sha256 env sha one_step tile_program can_tile lo hi low index w = Inr w2"
        using \<open>full_tile can_tile lo hi index\<close> wt w2(1) False by (subst walk_range.simps) (simp add: Let_def)
      moreover have "covered w2 x" if "lo \<le> unat x" "unat x \<le> index" for x
        using blk w2(3,4) that by (cases "?b \<le> unat x") auto
      ultimately show ?thesis using w1(4) w2(2,3) by blast
    qed
  next
    case False
    obtain w1 where w1: "walk_single aes sha256 env sha one_step low (of_nat index) w = Inr w1" "walk_ok dA dB env sha256 low T w1"
        "covered w1 (of_nat index)" "\<forall>x. covered w x \<longrightarrow> covered w1 x"
      using walk_single_spec [OF g one less.prems(1), of aes "of_nat index"] by (elim exE conjE) (rule that)
    have blk: "covered w1 x" if "unat x = index" for x using w1(3) that by auto
    show ?thesis
    proof (cases "index \<le> lo")
      case True
      then have "walk_range aes sha256 env sha one_step tile_program can_tile lo hi low index w = Inr w1"
        using False w1(1) by (subst walk_range.simps) simp
      then show ?thesis using w1(2,4) blk True less.prems(3) by (intro exI [of _ w1]) auto
    next
      case gt: False
      have lt: "index - 1 < index" "index - 1 < 2 ^ 64" "lo \<le> index - 1" using gt less.prems(2,3) by linarith+
      obtain w2 where w2: "walk_range aes sha256 env sha one_step tile_program can_tile lo hi low (index - 1) w1 = Inr w2" "walk_ok dA dB env sha256 low T w2"
        "\<forall>x. covered w1 x \<longrightarrow> covered w2 x" "\<forall>x. lo \<le> unat x \<longrightarrow> unat x \<le> index - 1 \<longrightarrow> covered w2 x"
        using less.IH [OF lt(1) w1(2) lt(2,3)] by (elim exE conjE) (rule that)
      have "walk_range aes sha256 env sha one_step tile_program can_tile lo hi low index w = Inr w2"
        using False w1(1) w2(1) gt by (subst walk_range.simps) simp
      moreover have "covered w2 x" if "lo \<le> unat x" "unat x \<le> index" for x
        using blk [of x] w2(3,4) that by (cases "unat x = index") auto
      ultimately show ?thesis using w1(4) w2(2,3) by blast
    qed
  qed
qed

lemma reveal_cached_step:
  assumes g: "hash_gadget sha256 sha" and T: "wf_value T" and w: "walk_ok dA dB env sha256 low T w" and c: "covered w x"
    and r: "r = low_value sha256 low T x"
  shows "reveal_cached sha256 lo w x rs = Inr (rs[unat (x - lo) := Some (r, r)])"
proof -
  note wk = w [unfolded walk_ok_def, folded r]
  have j: "joint_ok dA dB env (cw_joint w)" using wk by simp
  have wf: "wf_value r" unfolding r by (rule hash_gadget_wf [OF g T])
  obtain ws where ws: "(case cw_tiles w (tile_base x) of Some tile \<Rightarrow> slice_both tile (unat (x AND mask 4))
             | None \<Rightarrow> okOr (PUnsupportedMode ''shachain2pc: missing cached output'') (cw_singles w x)) = Inr ws"
      "masked_ok dA dB (value_bools r) (fst ws) (snd ws)"
  proof (cases "cw_tiles w (tile_base x)")
    case None
    then obtain ws where "cw_singles w x = Some ws" using c by (auto simp: covered_def)
    then show ?thesis using that [of ws] wk None r by (simp add: okOr_def)
  next
    case (Some t)
    then have "\<exists>ws. slice_both t (unat (x AND mask 4)) = Inr ws \<and> masked_ok dA dB (value_bools r) (fst ws) (snd ws)"
      using w unfolding walk_ok_def r by blast
    then show ?thesis using that Some by auto
  qed
  show ?thesis unfolding reveal_cached_def Let_def tile_mask using ws(1) reveal_value_run [OF j ws(2) wf] by (simp add: tile_mask)
qed

lemma tile_height_le:
  assumes "validate_tile_fanout f = Inr f'"
  shows "tile_height_for_fanout f = Inr (trailing_zeros (of_nat f :: u64)) \<and> trailing_zeros (of_nat f :: u64) \<le> 4"
proof -
  have f: "1 \<le> f" "f \<le> 16" using assms by (auto simp: validate_tile_fanout_def CACHE_TILE_LEAVES_def CACHE_TILE_HEIGHT_def split: if_splits)
  let ?w = "of_nat f :: u64" let ?t = "trailing_zeros ?w"
  have u: "unat ?w = f" using f by (simp add: unat_of_nat take_bit_nat_eq_self)
  then have "?w \<noteq> 0" using f(1) by (metis unsigned_0 not_one_le_zero)
  then have "bit ?w ?t" using trailing_zeros_spec by blast
  then have "bit (unat ?w) ?t" by (simp only: bit_unsigned_iff) simp
  then have "bit f ?t" unfolding u .
  then have "2 ^ ?t \<le> f" using f(1) by (metis bit_iff_odd div_less even_zero not_le)
  then have "(2 :: nat) ^ ?t < 2 ^ 5" using f(2) by simp
  then have "?t < 5" by (simp only: power_strict_increasing_iff)
  then show ?thesis using assms by (simp add: tile_height_for_fanout_def)
qed

lemma range_agrees:
  assumes r: "range_split_masks [lo, hi] = Inr (split, low, high)" and hi: "hi \<le> MAX_INDEX" and x: "lo \<le> x" "x \<le> hi"
  shows "x AND high = lo AND high" and "set_bits_desc x = set_bits_desc (lo AND high) @ set_bits_desc (x AND low)"
proof -
  note b = range_split_bits [OF r]
  have bh: "bit high k \<longleftrightarrow> k < INDEX_BITS \<and> split < int k" for k
    unfolding b(2) by (auto simp: bit_simps bit_MAX_INDEX b(1) INDEX_BITS_def)
  define d where "d = nat (split + 1)"
  have d: "split < int k \<longleftrightarrow> d \<le> k" for k using b(3) unfolding d_def by linarith
  have m: "\<And>v :: u64. v \<le> hi \<Longrightarrow> bit v k \<Longrightarrow> k < INDEX_BITS" for k using hi le_MAX_INDEX_iff order_trans by blast
  have lh: "lo \<le> hi" using x by simp
  have "drop_bit d lo = drop_bit d hi"
  proof (rule bit_word_eqI)
    fix k assume "k < LENGTH(64)"
    show "bit (drop_bit d lo) k = bit (drop_bit d hi) k"
      unfolding bit_drop_bit_eq o_def using b(5) [of hi "d + k"] m [OF lh, of "d + k"] m [of hi "d + k"] d [of "d + k"] by auto
  qed
  then have "unat lo div 2 ^ d = unat hi div 2 ^ d" by (metis unat_drop_bit_eq drop_bit_eq_div)
  moreover have "unat lo div 2 ^ d \<le> unat x div 2 ^ d" "unat x div 2 ^ d \<le> unat hi div 2 ^ d"
    using x by (simp_all add: div_le_mono word_le_nat_alt)
  ultimately have "unat x div 2 ^ d = unat lo div 2 ^ d" by simp
  then have dx: "drop_bit d x = drop_bit d lo" by (metis unat_drop_bit_eq drop_bit_eq_div word_eq_iff_unsigned)
  have xl: "bit x k = bit lo k" if "d \<le> k" for k
    using arg_cong [OF dx, of "\<lambda>w. bit w (k - d)"] that by (simp add: bit_drop_bit_eq)
  show e: "x AND high = lo AND high" by (rule bit_word_eqI) (auto simp: bit_and_iff bh d xl)
  have "set_bits_desc x = set_bits_desc (x AND high) @ set_bits_desc (x AND low)"
  proof (rule desc_unique)
    show "sorted_wrt (>) (set_bits_desc x)" by simp
    show "sorted_wrt (>) (set_bits_desc (x AND high) @ set_bits_desc (x AND low))"
      by (auto simp: sorted_wrt_append bit_and_iff bh b(1))
    show "set (set_bits_desc x) = set (set_bits_desc (x AND high) @ set_bits_desc (x AND low))"
      by (auto simp: bit_and_iff bh b(1))
  qed
  then show "set_bits_desc x = set_bits_desc (lo AND high) @ set_bits_desc (x AND low)" unfolding e .
qed

lemma aligned_low:
  assumes r: "range_split_masks [lo, hi] = Inr (split, low, high)"
  shows "low = mask (nat (split + 1))" and "nat (split + 1) \<le> INDEX_BITS"
proof -
  note b = range_split_bits [OF r]
  show "low = mask (nat (split + 1))" by (rule bit_word_eqI) (auto simp: b(1) bit_mask_iff)
  show "nat (split + 1) \<le> INDEX_BITS" using b(4) by (simp add: INDEX_BITS_def)
qed

lemma recursive_reveal:
  assumes g: "hash_gadget sha256 sha" and T: "wf_value T" and trunk: "root_ok dA dB T trunk" and j: "joint_ok dA dB env j" and t: "idle tamper"
    and d: "depth \<le> INDEX_BITS" "low = mask depth" and h: "1 \<le> h" "h \<le> 4" "h \<le> depth"
  shows "\<exists>levels tiles tamper' j'. plan_tile_levels depth h = Inr levels \<and> run_levels aes sha256 env sha levels ([trunk], tamper, j) = Inr (tiles, tamper', j')
    \<and> (\<forall>lo x rs. reveal_tiles sha256 j' (tl_height (last levels)) lo low tiles x rs = Inr (rs[unat (x - lo) := Some (low_value sha256 low T x, low_value sha256 low T x)]))"
proof -
  obtain levels where l: "plan_tile_levels depth h = Inr levels" "levels_ok depth levels" "levels \<noteq> []" using plan_tile_levels_ok [OF h] by blast
  have "map (leaf_value sha256 depth T) [0..<2 ^ (depth - depth)] = [T]" by (simp add: leaf_value_def)
  then have r: "list_all2 (root_ok dA dB) (map (leaf_value sha256 depth T) [0..<2 ^ (depth - depth)]) [trunk]" using trunk by simp
  obtain tiles tamper' j' where b: "run_levels aes sha256 env sha levels ([trunk], tamper, j) = Inr (tiles, tamper', j')" "joint_ok dA dB env j'"
    "tl_height (last levels) \<le> depth"
    "list_all2 (tile_ok dA dB sha256 0 (tl_height (last levels))) (map (leaf_value sha256 (tl_height (last levels)) T) [0..<2 ^ (depth - tl_height (last levels))]) tiles"
    using run_levels_spec [OF g T d(1) l(2,3) order_refl r t j, of aes] by (elim exE conjE) (rule that)
  have "reveal_tiles sha256 j' (tl_height (last levels)) lo low tiles x rs = Inr (rs[unat (x - lo) := Some (low_value sha256 low T x, low_value sha256 low T x)])" for lo x rs
    by (rule reveal_tiles_step [OF g T b(2) d(2) b(3) d(1) b(4) refl])
  with l(1) b(1) show ?thesis by blast
qed

lemma walk_reveal:
  assumes g: "hash_gadget sha256 sha" and T: "wf_value T" and trunk: "root_ok dA dB T trunk" and j: "joint_ok dA dB env j" and t: "idle tamper"
    and low: "can_tile \<longrightarrow> mask 4 AND low = (mask 4 :: u64) \<and> f" and lohi: "lo \<le> hi"
  shows "\<exists>tile_program one w. (if f then bindR (build_tile_program sha 0 CACHE_TILE_HEIGHT False) (\<lambda>p. Inr (Some p)) else Inr None) = Inr tile_program
    \<and> chunk_program sha [0] False False = Inr one
    \<and> walk_range aes sha256 env sha one tile_program can_tile (unat lo) (unat hi) low (unat hi)
         \<lparr>cw_stack = stack_new trunk, cw_tamper = tamper, cw_joint = j, cw_tiles = Map.empty, cw_singles = Map.empty\<rparr> = Inr w
    \<and> (\<forall>x rs. lo \<le> x \<longrightarrow> x \<le> hi \<longrightarrow> reveal_cached sha256 lo w x rs = Inr (rs[unat (x - lo) := Some (low_value sha256 low T x, low_value sha256 low T x)]))"
proof -
  let ?w0 = "\<lparr>cw_stack = stack_new trunk, cw_tamper = tamper, cw_joint = j, cw_tiles = Map.empty, cw_singles = Map.empty\<rparr>"
  have tw: "wires_ok dA dB (value_bools T) (fst trunk) (snd trunk)" using trunk by (simp add: root_ok_def)
  have k0: "\<forall>k \<in> set [0 :: nat]. k < INDEX_BITS" "length [0 :: nat] \<le> 48" by (simp_all add: INDEX_BITS_def)
  obtain one where one: "chunk_program sha [0] False False = Inr one" using next_chunk [OF g j k0 T tw] by blast
  have h4: "1 \<le> CACHE_TILE_HEIGHT" "CACHE_TILE_HEIGHT \<le> 4" "0 + CACHE_TILE_HEIGHT \<le> INDEX_BITS" by (simp_all add: CACHE_TILE_HEIGHT_def INDEX_BITS_def)
  obtain program where p: "build_tile_program sha 0 CACHE_TILE_HEIGHT False = Inr program" using tile_program_exists [OF g h4 T] by blast
  let ?tp = "if f then Some program else None"
  have w0: "walk_ok dA dB env sha256 low T ?w0" using trunk j t by (simp add: walk_ok_def stack_ok_def stack_new_def)
  have hi: "unat hi < 2 ^ 64" using unsigned_less [of hi] by simp
  have lh: "unat lo \<le> unat hi" using lohi by (simp add: word_le_nat_alt)
  obtain w where w: "walk_range aes sha256 env sha one ?tp can_tile (unat lo) (unat hi) low (unat hi) ?w0 = Inr w" "walk_ok dA dB env sha256 low T w"
     "\<forall>x. unat lo \<le> unat x \<longrightarrow> unat x \<le> unat hi \<longrightarrow> covered w x"
    using walk_range_spec [OF g one _ _ w0 hi lh, of can_tile ?tp aes "unat hi"] low p by (fastforce split: if_splits)
  have "reveal_cached sha256 lo w x rs = Inr (rs[unat (x - lo) := Some (low_value sha256 low T x, low_value sha256 low T x)])" if "lo \<le> x" "x \<le> hi" for x rs
    by (rule reveal_cached_step [OF g T w(2) _ refl]) (use w(3) that in \<open>simp add: word_le_nat_alt\<close>)
  moreover have "(if f then bindR (build_tile_program sha 0 CACHE_TILE_HEIGHT False) (\<lambda>p. Inr (Some p)) else Inr None) = Inr ?tp" using p by simp
  ultimately show ?thesis using one w(1) by blast
qed

lemma cache_run:
  assumes g: "hash_gadget sha256 sha" and e: "standalone_ok dA dB e" and v: "wf_value shA" "wf_value shB" and f: "validate_tile_fanout f = Inr f'"
    and idxs: "idxs \<noteq> []" "\<forall>i \<in> set idxs. index_get (hd idxs) \<le> index_get i \<and> index_get i \<le> index_get (last idxs)" "index_get (last idxs) \<le> MAX_INDEX"
    and split: "range_split_masks [index_get (hd idxs), index_get (last idxs)] = Inr (split, low, high)" and common: "index_get (hd idxs) AND high \<noteq> 0"
  shows "run_derivation_cache aes sha256 e sha (- 1) (shA, shB) idxs blocks f
    = Inr (map (\<lambda>i. (i, (generate_from_seed sha256 (combine shA shB) (index_get i), generate_from_seed sha256 (combine shA shB) (index_get i)))) idxs)"
proof -
  define lo hi where lh: "lo = index_get (hd idxs)" "hi = index_get (last idxs)"
  define base seed where bs: "base = lo AND high" "seed = combine shA shB"
  define T where T: "T = generate_from_seed sha256 seed base"
  define h where h: "h = trailing_zeros (of_nat f :: u64)"
  let ?depth = "nat (split + 1)"
  have l0: "lo \<le> hi" using idxs(2) last_in_set [OF idxs(1)] unfolding lh by blast
  note lohi = l0 idxs(3) [folded lh] order.trans [OF l0 idxs(3) [folded lh]]
  note sp = split [folded lh]
  have gen: "generate_from_seed sha256 seed x = low_value sha256 low T x" if "lo \<le> x" "x \<le> hi" for x
    unfolding T generate_from_seed_eq range_agrees(2) [OF sp lohi(2) that] fold_append o_apply bs ..
  have bl: "base \<le> MAX_INDEX" unfolding bs using lohi(3) by (auto simp: le_MAX_INDEX_iff bit_simps)
  have bn: "base \<noteq> 0" using common unfolding bs lh .
  obtain groups ws j trunk j1 where t: "split_chain_bits base (effective_chunk_size blocks) = Inr groups" "sum_list (map length groups) \<noteq> 0"
    "authenticate_seed_inputs aes sha256 (jb_draws e) (shA, shB) (standalone_setup e) = Inr (ws, j)"
    "run_groups aes sha256 (jb_runs e) sha (- 1) groups ws j = Inr (trunk, j1)" "joint_ok dA dB (jb_runs e) j1" "wf_value T" "wires_ok dA dB (value_bools T) (fst trunk) (snd trunk)"
    using trunk_run [where aes = aes, OF g e v bl bn effective_chunk_pos [of blocks], folded bs(2), folded T] by (elim exE conjE) (rule that)
  have rt: "root_ok dA dB T trunk" using t(6,7) by (simp add: root_ok_def)
  have out: "bindR (foldR step (descending lo hi) (replicate (unat (hi - lo + 1)) None)) (collect_results msg lo idxs)
     = Inr (map (\<lambda>i. (i, (generate_from_seed sha256 seed (index_get i), generate_from_seed sha256 seed (index_get i)))) idxs)"
    if st: "\<And>x rs. lo \<le> x \<Longrightarrow> x \<le> hi \<Longrightarrow> step x rs = Inr (rs[unat (x - lo) := Some (low_value sha256 low T x, low_value sha256 low T x)])" for step msg
  proof -
    have bnd: "\<forall>i \<in> set idxs. lo \<le> index_get i \<and> index_get i \<le> hi" using idxs(2) unfolding lh .
    have "bindR (foldR step (descending lo hi) (replicate (unat (hi - lo + 1)) None)) (collect_results msg lo idxs)
      = Inr (map (\<lambda>i. (i, (low_value sha256 low T (index_get i), low_value sha256 low T (index_get i)))) idxs)"
      by (rule reveal_all [OF lohi(1,2) _ bnd, where f = "\<lambda>x. (low_value sha256 low T x, low_value sha256 low T x)"]) (rule st)
    then show ?thesis using bnd by (simp add: gen)
  qed
  let ?tamper = "\<lparr>tc_target = - 1, tc_current = 0\<rparr>"
  have idle0: "idle ?tamper" by (simp add: idle_def)
  note hf = tile_height_le [OF f, folded h]
  have dep: "(if split < 0 then 0 else nat split + 1) = ?depth" by (simp add: Suc_nat_eq_nat_zadd1 add.commute)
  show ?thesis
  proof (cases "h \<ge> 1 \<and> (split \<ge> 0 \<and> lo AND low = 0 \<and> hi AND low = low) \<and> ?depth \<ge> h")
    case True
    then have h: "1 \<le> h" "h \<le> ?depth" by auto
    obtain levels tiles tamper' j' where l: "plan_tile_levels ?depth h = Inr levels"
        "run_levels aes sha256 (jb_runs e) sha levels ([trunk], ?tamper, j1) = Inr (tiles, tamper', j')"
        "\<forall>lo x rs. reveal_tiles sha256 j' (tl_height (last levels)) lo low tiles x rs = Inr (rs[unat (x - lo) := Some (low_value sha256 low T x, low_value sha256 low T x)])"
      using recursive_reveal [where aes = aes, OF g t(6) rt t(5) idle0 aligned_low(2,1) [OF sp] h(1) conjunct2 [OF hf] h(2)] by (elim exE conjE) (rule that)
    have rl: "(if h \<ge> 1 \<and> (split \<ge> 0 \<and> lo AND low = 0 \<and> hi AND low = low) \<and> ?depth \<ge> h then X else Y) = X" for X Y :: "party_error + tile_level list option"
      by (rule if_P [OF True])
    show ?thesis
      unfolding run_derivation_cache_def Let_def lh [symmetric] bs [symmetric] conjunct1 [OF hf] sp bindR_simps prod.case t(1) mapErr_simps dep rl t(3,4) l(1,2) option.case
      using idxs(1) t(2) out [of "reveal_tiles sha256 j' (tl_height (last levels)) lo low tiles"] l(3) by simp
  next
    case False
    have tl4: "2 \<le> f \<and> int CACHE_TILE_HEIGHT - 1 \<le> split \<longrightarrow> mask 4 AND low = (mask 4 :: u64) \<and> 2 \<le> f"
      unfolding aligned_low(1) [OF sp] by (auto intro!: bit_word_eqI simp: bit_simps CACHE_TILE_HEIGHT_def)
    obtain tp one w where w: "(if 2 \<le> f then bindR (build_tile_program sha 0 CACHE_TILE_HEIGHT False) (\<lambda>p. Inr (Some p)) else Inr None) = Inr tp"
       "chunk_program sha [0] False False = Inr one"
       "walk_range aes sha256 (jb_runs e) sha one tp (f \<ge> 2 \<and> split \<ge> int CACHE_TILE_HEIGHT - 1) (unat lo) (unat hi) low (unat hi)
         \<lparr>cw_stack = stack_new trunk, cw_tamper = ?tamper, cw_joint = j1, cw_tiles = Map.empty, cw_singles = Map.empty\<rparr> = Inr w"
       "\<forall>x rs. lo \<le> x \<longrightarrow> x \<le> hi \<longrightarrow> reveal_cached sha256 lo w x rs = Inr (rs[unat (x - lo) := Some (low_value sha256 low T x, low_value sha256 low T x)])"
      using walk_reveal [where aes = aes and can_tile = "2 \<le> f \<and> int CACHE_TILE_HEIGHT - 1 \<le> split", OF g t(6) rt t(5) idle0 tl4 lohi(1)] by (elim exE conjE) (rule that)
    have rl: "(if h \<ge> 1 \<and> (split \<ge> 0 \<and> lo AND low = 0 \<and> hi AND low = low) \<and> ?depth \<ge> h then X else Y) = Y" for X Y :: "party_error + tile_level list option"
      by (rule if_not_P [OF False])
    show ?thesis
      unfolding run_derivation_cache_def Let_def lh [symmetric] bs [symmetric] conjunct1 [OF hf] sp bindR_simps prod.case t(1) mapErr_simps dep rl t(3,4) option.case
      using idxs(1) t(2) w out [of "reveal_cached sha256 lo w"] by simp
  qed
qed

end
