(* ===== verification/Party_Properties.thy ===== *)
theory Party_Properties
  imports Party_Cache_Correct
begin

unbundle bit_operations_syntax

text \<open>
  The properties of the two-party session, of the jobs and of the modes of the party, with an instance
  (a gadget, environments and wires) on which their hypotheses hold.
\<close>

section \<open>A small instance\<close>

text \<open>
  The complement gadget with an AND gate before its inverters, all-zero draws and all-zero shares: an
  instance the hypotheses of the properties hold of.
\<close>

definition and_gadget :: circuit where
  "and_gadget = not_gadget\<lparr>c_gates := \<lparr>g_typ = And, g_in0 = 0, g_in1 = 0, g_out = 512\<rparr> # c_gates not_gadget\<rparr>"

lemma and_gadget_wf: "gadget_ok and_gadget"
  using not_gadget_wf
  by (auto simp: gadget_ok_def wf_circuit_def gadget_shape_ok_def and_gadget_def not_gadget_def wf_gate_def in_range_def VALUE_BITS_def)

lemma and_gadget_out: "out_bits and_gadget bits = out_bits not_gadget bits"
proof (rule nth_equalityI)
  fix i assume "i < length (out_bits and_gadget bits)"
  then have i: "i < 256" by (simp add: out_bits_def and_gadget_def not_gadget_def)
  have "ev (c_gates and_gadget) (init_wires bits) (512 + int i) = ev (c_gates not_gadget) (init_wires bits) (512 + int i)"
    using i unfolding and_gadget_def not_gadget_def by (simp add: ev_def fold_Cons [symmetric] del: fold_Cons) (simp add: ev_gate.simps flip: ev_def add: ev_not_gates)
  then show "out_bits and_gadget bits ! i = out_bits not_gadget bits ! i"
    using i nth_out_bits [of i and_gadget bits] nth_out_bits [of i not_gadget bits] by (simp add: and_gadget_def not_gadget_def)
qed (simp add: out_bits_def and_gadget_def)

lemma and_gadget_hash: "hash_gadget not_hash and_gadget"
proof -
  have wf: "wf_circuit and_gadget" "wf_circuit not_gadget" using and_gadget_wf not_gadget_wf by (simp_all add: gadget_ok_def)
  have "sha_gadget not_hash and_gadget"
    unfolding sha_gadget_def
  proof (intro conjI allI impI)
    show "gadget_ok and_gadget" by (rule and_gadget_wf)
    fix v assume v: "wf_value v"
    let ?bits = "to_bits_msb v @ to_bits_msb pad_bytes"
    have n: "wf_value (not_hash v)" "eval_bristol not_gadget ?bits = Inr (to_bits_msb (not_hash v))"
      using sha_gadget_not v unfolding sha_gadget_def by blast+
    have l: "length ?bits = 512" by (simp add: VALUE_BITS_def)
    have "eval_bristol and_gadget ?bits = eval_bristol not_gadget ?bits"
      using l by (simp add: eval_bristol_wf [OF wf(1)] eval_bristol_wf [OF wf(2)] and_gadget_out) (simp add: and_gadget_def)
    then show "wf_value (not_hash v)" "eval_bristol and_gadget ?bits = Inr (to_bits_msb (not_hash v))" using n by simp_all
  qed
  moreover have "gadget_closed and_gadget"
  proof -
    have mono: "reads_defined D gs \<Longrightarrow> D \<subseteq> D' \<Longrightarrow> reads_defined D' gs" for D D' gs
    proof (induction gs arbitrary: D D')
      case (Cons g gs)
      then show ?case using Cons.IH [OF _ insert_mono, of _ D D'] by auto
    qed simp
    have "reads_defined {..<512} (c_gates not_gadget)" using not_gadget_closed by (simp add: gadget_closed_def)
    then have "reads_defined {..<512} (c_gates and_gadget)" by (simp add: and_gadget_def) (rule mono, auto)
    moreover have "written_wires (c_gates not_gadget) \<subseteq> written_wires (c_gates and_gadget)"
      by (auto simp: written_wires_def and_gadget_def)
    ultimately show ?thesis using not_gadget_closed by (auto simp: gadget_closed_def and_gadget_def)
  qed
  ultimately show ?thesis by (simp add: hash_gadget_def) (simp add: and_gadget_def not_gadget_def)
qed

definition zero_shares :: "nat \<Rightarrow> ashare_bundle list" where
  "zero_shares n = replicate n \<lparr>as_mac = 0, as_key = 0\<rparr>"

definition zero_runs :: runs where
  "zero_runs = (\<lambda>k n. \<lparr>en_drawsA = (if n = 0 then [] else [zero_shares n]), en_drawsB = (if n = 0 then [] else [zero_shares n]),
     en_nonce = 0, en_bucket = 1, en_cots = ((replicate n 0, replicate n 0), (replicate n 0, replicate n 0)), en_layers = [], en_seed = 0\<rparr>)"

lemma zero_shares_ok: "verify_share_relation (zero_shares n) dA (zero_shares n) dB" "length (zero_shares n) = n"
  by (simp_all add: verify_bundles bundle_rel_def zero_shares_def rel1_def sel_def)

lemma zero_runs_ok: "env_ok n a b (zero_runs k n)"
  using zero_shares_ok [of n] by (auto simp: env_ok_def zero_runs_def rel_vec_def rel2_def rel1_def sel_def zero_shares_def)

definition zero_job :: job_env where
  "zero_job = \<lparr>jb_ssp = 40, jb_deltas = (5, 9), jb_seeds = (0, 1), jb_draws = ((zero_shares VALUE_BITS, zero_shares VALUE_BITS),
     (zero_shares VALUE_BITS, zero_shares VALUE_BITS)), jb_runs = zero_runs\<rparr>"

lemma zero_job_ok:
  "job_ok (ap_delta (jo_a (job_setup zero_job))) (ap_delta (jo_b (job_setup zero_job))) zero_job"
  "standalone_ok (ap_delta (jo_a (standalone_setup zero_job))) (ap_delta (jo_b (standalone_setup zero_job))) zero_job"
  using joint_setup_ok [OF zero_runs_ok] zero_shares_ok
  by (simp_all add: job_ok_def standalone_ok_def zero_job_def job_setup_def standalone_setup_def)

section \<open>A run as a refinement of the evaluation of its program\<close>

definition opened :: "secure_wires both \<Rightarrow> bool list" where
  \<comment> \<open>the abstraction: the bits that two sides hold together\<close>
  "opened ws = map (\<lambda>i. bit (sw_lambda (snd ws) ! i) 0 \<noteq> share_value (sw_bundle (fst ws)) (sw_bundle (snd ws)) i) [0..<sw_len (snd ws)]"

lemma opened_values:
  assumes "values_ok dA dB x (fst ws) (snd ws)" shows "opened ws = x"
proof -
  have "sw_lambda (snd ws) = map (\<lambda>i. of_bool (x ! i \<noteq> share_value (sw_bundle (fst ws)) (sw_bundle (snd ws)) i)) [0..<length x]"
    using assms by (simp add: values_ok_def)
  then show ?thesis by (auto simp: opened_def sw_len_def intro!: nth_equalityI)
qed

definition wires_fit :: "block \<Rightarrow> block \<Rightarrow> secure_wires both \<Rightarrow> bool" where
  \<comment> \<open>the representation invariant\<close>
  "wires_fit dA dB ws \<longleftrightarrow> wires_ok dA dB (opened ws) (fst ws) (snd ws)"

lemma wires_fit_iff: "wires_fit dA dB ws \<and> opened ws = x \<longleftrightarrow> wires_ok dA dB x (fst ws) (snd ws)"
  using opened_values [of dA dB x ws] by (auto simp: wires_fit_def wires_ok_def)

text \<open>C1: The two-party run of a program refines its evaluation. Whatever shares the two sides hold of the inputs,
  once their shares, masks and labels fit, \<open>run_program\<close> returns, keeps the two protocols fitting and the deltas, and
  the bits its outputs open to are \<open>prog_eval\<close> of the bits its inputs open to. With an AND gate in the program the
  outputs fit again and can be the inputs of the next run.\<close>
theorem run_program_refines_eval:
  assumes "prog_ok p" "protocols_ok prA prB" "env_ok (num_ands p) prA prB env"
    and "wires_fit (ap_delta prA) (ap_delta prB) (inA, inB)" "sw_len inB = pr_num_inputs p"
  shows "\<exists>prA' prB' outA outB. run_program aes sha256 env p (prA, inA) (prB, inB) = Inr ((prA', outA), (prB', outB))
     \<and> protocols_ok prA' prB' \<and> ap_delta prA' = ap_delta prA \<and> ap_delta prB' = ap_delta prB
     \<and> opened (outA, outB) = prog_eval p (opened (inA, inB))
     \<and> (0 < num_ands p \<longrightarrow> wires_fit (ap_delta prA) (ap_delta prB) (outA, outB))"
proof -
  have x: "length (opened (inA, inB)) = pr_num_inputs p" using assms(5) by (simp add: opened_def)
  have inp: "wires_ok (ap_delta prA) (ap_delta prB) (opened (inA, inB)) inA inB" using assms(4) by (simp add: wires_fit_def)
  obtain prA' prB' outA outB where r: "run_program aes sha256 env p (prA, inA) (prB, inB) = Inr ((prA', outA), (prB', outB))"
     "protocols_ok prA' prB'" "ap_delta prA' = ap_delta prA" "ap_delta prB' = ap_delta prB"
     "values_ok (ap_delta prA) (ap_delta prB) (prog_eval p (opened (inA, inB))) outA outB"
     "0 < num_ands p \<longrightarrow> wires_ok (ap_delta prA) (ap_delta prB) (prog_eval p (opened (inA, inB))) outA outB"
    using run_spec [OF assms(1,2) x inp assms(3), of aes sha256] by (elim exE conjE) (rule that)
  have "opened (outA, outB) = prog_eval p (opened (inA, inB))" using r(5) opened_values [of _ _ _ "(outA, outB)"] by simp
  with r show ?thesis by (auto simp: wires_fit_def)
qed

definition and_program :: program where
  "and_program = \<lparr>pr_num_inputs = 2, pr_num_wires = 3, pr_outputs = [2], pr_gates = [ag_gate_new AgAnd 0 1]\<rparr>"

definition clear_wires :: "bool list \<Rightarrow> block \<Rightarrow> secure_wires both" where
  \<comment> \<open>bits held under zero shares and zero labels\<close>
  "clear_wires x dA = (\<lparr>sw_lambda = map of_bool x, sw_bundle = zero_shares (length x), sw_label0 = replicate (length x) 0, sw_eval = []\<rparr>,
     \<lparr>sw_lambda = map of_bool x, sw_bundle = zero_shares (length x), sw_label0 = [], sw_eval = map (\<lambda>b. sel b dA) x\<rparr>)"

lemma clear_wires_ok: "wires_ok dA dB x (fst (clear_wires x dA)) (snd (clear_wires x dA))"
  using zero_shares_ok [of "length x"]
  by (auto simp: wires_ok_def values_ok_def clear_wires_def sw_len_def share_value_def zero_shares_def intro!: nth_equalityI)

lemma and_program_facts: "prog_ok and_program" "num_ands and_program = 1" "prog_eval and_program [a, b] = [a \<and> b]"
  by (simp_all add: and_program_def prog_ok_def num_ands_def prog_eval_def prog_wires_def gate_bool_def ag_gate_new_def ag_typ_def ag_code.simps
      ag_from_code_def ag_in0_def ag_in1_def AG2PC_GATE_TYPE_SHIFT_def AG2PC_GATE_WIRE_MASK_def gate_out_def)

theorem run_program_refines_eval_witness:
  "\<exists>prA prB outA outB. run_program (\<lambda>_ x. x) (\<lambda>_. []) (zero_runs 0 1) and_program
      (protocol_setup Alice 40 5 0, fst (clear_wires [True, True] (ap_delta (protocol_setup Alice 40 5 0))))
      (protocol_setup Bob 40 9 1, snd (clear_wires [True, True] (ap_delta (protocol_setup Alice 40 5 0)))) = Inr ((prA, outA), (prB, outB))
    \<and> opened (outA, outB) = [True]"
proof -
  let ?a = "protocol_setup Alice 40 5 0" and ?b = "protocol_setup Bob 40 9 1" and ?ws = "clear_wires [True, True] (ap_delta (protocol_setup Alice 40 5 0))"
  have w: "wires_fit (ap_delta ?a) (ap_delta ?b) (fst ?ws, snd ?ws)" "opened (fst ?ws, snd ?ws) = [True, True]"
    using wires_fit_iff [of "ap_delta ?a" "ap_delta ?b" "(fst ?ws, snd ?ws)" "[True, True]"] clear_wires_ok by simp_all
  have e: "env_ok (num_ands and_program) ?a ?b (zero_runs 0 1)" unfolding and_program_facts(2) by (rule zero_runs_ok)
  have l: "sw_len (snd ?ws) = pr_num_inputs and_program" by (simp add: clear_wires_def sw_len_def and_program_def)
  show ?thesis
    using run_program_refines_eval [OF and_program_facts(1) protocol_setup_ok e w(1) l, of "\<lambda>_ x. x" "\<lambda>_. []"]
    unfolding w(2) and_program_facts(3) by auto
qed

section \<open>Precomputation and reveals\<close>

text \<open>C3: The precompute session keeps its invariant and returns right nodes. From a session whose seed inputs carry the
  two shares and whose cache holds, for every mask, wires that open to the value of that mask, \<open>precompute_target\<close>
  succeeds for every index, the session is again such a session (so the cache and its pruning never hold a wrong value),
  the node returned opens to the value that \<open>generate_from_seed\<close> derives from the xor of the shares, and the number of
  program runs is the one \<open>planned_checked_units\<close> announced for every index but 0: for index 0 the code announces no
  unit and always runs one program, the root program, which has no AND gate.\<close>
theorem precompute_session_invariant:
  assumes "session_ok dA dB env sha256 shares ps" "index_get index \<le> MAX_INDEX"
  shows "\<exists>ws ps'. precompute_target aes sha256 env index ps = Inr (ws, ps') \<and> session_ok dA dB env sha256 shares ps'
    \<and> masked_ok dA dB (value_bools (generate_from_seed sha256 (combine (fst shares) (snd shares)) (index_get index))) (fst ws) (snd ws)
    \<and> jo_step (pc_joint ps') = jo_step (pc_joint ps) + (if index_get index = 0 then 1 else planned_checked_units ps index)
    \<and> (index_get index = 0 \<longrightarrow> planned_checked_units ps index = 0)"
  using precompute_target_run [OF assms, of aes] planned_zero by blast

abbreviation zero_dA :: block where "zero_dA \<equiv> ap_delta (jo_a (job_setup zero_job))"
abbreviation zero_dB :: block where "zero_dB \<equiv> ap_delta (jo_b (job_setup zero_job))"

lemma wf_value_zero [simp]: "wf_value value_zero" by (simp add: wf_value_def value_zero_def)

theorem precompute_session_invariant_witness:
  "\<exists>ps ws ps'. precompute_setup (\<lambda>_ x. x) not_hash zero_job and_gadget (value_zero, value_zero) = Inr ps
    \<and> precompute_target (\<lambda>_ x. x) not_hash zero_runs (Index48 5) ps = Inr (ws, ps')
    \<and> masked_ok zero_dA zero_dB (value_bools (5 # replicate 31 0)) (fst ws) (snd ws)"
proof -
  obtain ps where ps: "precompute_setup (\<lambda>_ x. x) not_hash zero_job and_gadget (value_zero, value_zero) = Inr ps"
    "session_ok zero_dA zero_dB zero_runs not_hash (value_zero, value_zero) ps"
    using precompute_setup_run [OF zero_job_ok(1) wf_value_zero wf_value_zero and_gadget_hash, of "\<lambda>_ x. x"] by (auto simp: zero_job_def)
  have i: "index_get (Index48 5) \<le> MAX_INDEX" by (simp add: MAX_INDEX_eq)
  have "generate_from_seed not_hash (combine value_zero value_zero) 5 = 5 # replicate 31 0" by code_simp
  then show ?thesis using ps precompute_session_invariant [OF ps(2) i, of "\<lambda>_ x. x"] by auto
qed

text \<open>C14: The path of a node. For an index that is not 0, \<open>run_precompute_path\<close> returns one entry for every set bit of
  the index, from the highest to the lowest; entry \<open>k\<close> has the mask of the first \<open>k + 1\<close> bits, opens to the value derived
  for that mask, and both sides hold the same masked bits, so either of them can open it; the last entry is the node
  itself. For index 0, which has no set bit, it returns one entry, the root, with mask 0 and wires that open to the xor
  of the shares; there the masked bits of the two sides need not be the same, so the entry opens on the evaluator's side
  and in a session, and nothing is claimed of the garbler's side alone.\<close>
theorem precompute_path_correct:
  assumes "hash_gadget sha256 sha" "job_ok dA dB e" "wf_value shA" "wf_value shB" "index_get index \<le> MAX_INDEX"
  shows "\<exists>out. run_precompute_path aes sha256 e sha (shA, shB) index = Inr out
    \<and> length out = (if index_get index = 0 then 1 else length (set_bits_desc (index_get index)))
    \<and> (\<forall>k < length out. set_bits_desc (fst (out ! k)) = take (Suc k) (set_bits_desc (index_get index))
      \<and> masked_ok dA dB (value_bools (generate_from_seed sha256 (combine shA shB) (fst (out ! k)))) (fst (snd (out ! k))) (snd (snd (out ! k)))
      \<and> (index_get index \<noteq> 0 \<longrightarrow> sw_lambda (fst (snd (out ! k))) = sw_lambda (snd (snd (out ! k)))))
    \<and> fst (last out) = index_get index"
proof (cases "index_get index = 0")
  case True
  obtain w where "run_precompute_path aes sha256 e sha (shA, shB) index = Inr [(0, w)]"
      "masked_ok dA dB (value_bools (combine shA shB)) (fst w) (snd w)"
    using precompute_path_root_run [OF assms(1-4) True] by blast
  then show ?thesis using True by (simp add: generate_from_seed_eq)
next
  case False
  then obtain out where o: "run_precompute_path aes sha256 e sha (shA, shB) index = Inr out"
      "path_ok dA dB sha256 (combine shA shB) (set_bits_desc (index_get index)) out"
    using precompute_path_run [OF assms(1-4) _ assms(5)] by blast
  then show ?thesis using False path_ok_last [OF o(2) False assms(5)] unfolding path_ok_def by simp
qed

theorem precompute_path_correct_witness:
  "\<exists>out. run_precompute_path (\<lambda>_ x. x) not_hash zero_job and_gadget (value_zero, value_zero) (Index48 5) = Inr out \<and> length out = 2"
proof -
  have i: "index_get (Index48 5) \<le> MAX_INDEX" by (simp add: MAX_INDEX_eq)
  have "length (set_bits_desc 5) = 2" by code_simp
  then show ?thesis
    using precompute_path_correct [OF and_gadget_hash zero_job_ok(1) wf_value_zero wf_value_zero i, of "\<lambda>_ x. x"] by auto
qed

text \<open>C13: The ways to open a node agree. A node whose sides fit opens, in the job that runs a session
  (\<open>reveal_node_job\<close>) and in the one that exchanges a share and a digest (\<open>reveal_node_fast_job\<close>), to the same value
  on both sides; and the local step that a daemon does with the share of its peer gives the value on the evaluator's
  side, and on the garbler's side too when it knows the masked bits.\<close>
theorem reveal_ways_agree:
  assumes "masked_ok dA dB (value_bools v) (fst node) (snd node)" "wf_value v" "job_ok dA dB e"
  shows "reveal_node_job sha256 e node = Inr (v, v) \<and> reveal_node_fast_job sha256 (dA, dB) node = Inr (v, v)
    \<and> (\<exists>local. reveal_node_local_share sha256 (fst node) = Inr local
        \<and> reveal_node_from_peer_share sha256 (snd node) dB (rl_share_bits local) (rl_mac_digest local) = Inr (to_bits_msb v, v))
    \<and> (sw_lambda (fst node) = sw_lambda (snd node) \<longrightarrow> (\<exists>local. reveal_node_local_share sha256 (snd node) = Inr local
        \<and> reveal_node_from_peer_share sha256 (fst node) dA (rl_share_bits local) (rl_mac_digest local) = Inr (to_bits_msb v, v)))"
proof -
  have "masked_ok dA dB (value_bools v) (fst (strip_both node)) (snd (strip_both node))" using assms(1) by (simp add: strip_both_def)
  then have "reveal_node_job sha256 e node = Inr (v, v)"
    using reveal_public_run [of dA dB "jb_runs e" "job_setup e" v "strip_both node" sha256] assms(2,3) by (simp add: reveal_node_job_def job_ok_def)
  then show ?thesis using reveal_fast_run [OF assms(1,2)] reveal_node_share [OF assms(1,2)] by blast
qed

theorem reveal_ways_agree_witness:
  "reveal_node_job not_hash zero_job (clear_wires (value_bools value_zero) 0) = Inr (value_zero, value_zero)"
proof -
  have "masked_ok zero_dA zero_dB (value_bools value_zero) (fst (clear_wires (value_bools value_zero) zero_dA)) (snd (clear_wires (value_bools value_zero) zero_dA))"
    using clear_wires_ok [of zero_dA zero_dB "value_bools value_zero"] by (simp add: wires_ok_def values_masked)
  then have m: "masked_ok zero_dA zero_dB (value_bools value_zero) (fst (clear_wires (value_bools value_zero) 0)) (snd (clear_wires (value_bools value_zero) 0))"
    by (simp add: masked_ok_def clear_wires_def sw_len_def)
  show ?thesis using reveal_ways_agree [OF m wf_value_zero zero_job_ok(1)] by blast
qed

section \<open>The modes of the party\<close>

text \<open>C2: The modes of the party agree. For the indices of a range whose common high bits are not all zero, the tree
  mode and the cached mode (any valid fanout, any trunk chunk size) both return, on both sides and for every index in
  order, the value that the chunked mode returns for it, and that is \<open>generate_from_seed\<close> of the xor of the shares.\<close>
theorem derivation_modes_agree:
  assumes "hash_gadget sha256 sha" "standalone_ok dA dB e" "wf_value shA" "wf_value shB"
    and "idxs \<noteq> []" "\<forall>i \<in> set idxs. index_get (hd idxs) \<le> index_get i \<and> index_get i \<le> index_get (last idxs)" "index_get (last idxs) \<le> MAX_INDEX"
    and "range_split_masks (map index_get idxs) = Inr (split, low, high)" "index_get (hd idxs) AND high \<noteq> 0"
    and "range_split_masks [index_get (hd idxs), index_get (last idxs)] = Inr (split', low', high')" "index_get (hd idxs) AND high' \<noteq> 0"
    and "validate_tile_fanout fanout = Inr fanout'" "0 < blocks"
  shows "\<exists>out. run_derivation_tree aes sha256 e sha (- 1) (shA, shB) idxs trunk_blocks = Inr out
    \<and> run_derivation_cache aes sha256 e sha (- 1) (shA, shB) idxs trunk_blocks' fanout = Inr out
    \<and> map fst out = idxs \<and> (\<forall>(i, v) \<in> set out. v = (generate_from_seed sha256 (combine shA shB) (index_get i), generate_from_seed sha256 (combine shA shB) (index_get i))
        \<and> run_derivation_chunked aes sha256 e sha (- 1) (shA, shB) i blocks = Inr v)"
proof -
  have le: "\<forall>i \<in> set idxs. index_get i \<le> MAX_INDEX" using assms(6,7) order_trans by blast
  show ?thesis
    using tree_run [OF assms(1-5) le assms(8,9)] cache_run [OF assms(1-4,12,5,6,7,10,11)] chunked_run [OF assms(1-4) _ assms(13)] le
    by (auto simp: o_def)
qed

theorem derivation_modes_agree_witness:
  "\<exists>out. run_derivation_tree (\<lambda>_ x. x) not_hash zero_job and_gadget (- 1) (value_zero, value_zero) [Index48 4, Index48 5] 0 = Inr out
    \<and> run_derivation_cache (\<lambda>_ x. x) not_hash zero_job and_gadget (- 1) (value_zero, value_zero) [Index48 4, Index48 5] 16 16 = Inr out
    \<and> map fst out = [Index48 4, Index48 5]"
proof -
  let ?idxs = "[Index48 4, Index48 5]"
  have r: "range_split_masks [4, 5] = Inr (0, 1, MAX_INDEX AND NOT 1)" by code_simp
  have f: "validate_tile_fanout 16 = Inr 16" by code_simp
  have h: "4 AND (MAX_INDEX AND NOT 1) \<noteq> 0" by code_simp
  have m: "map index_get ?idxs = [4, 5]" "index_get (hd ?idxs) = 4" "index_get (last ?idxs) = 5" by simp_all
  have b: "\<forall>i \<in> set ?idxs. index_get (hd ?idxs) \<le> index_get i \<and> index_get i \<le> index_get (last ?idxs)" "index_get (last ?idxs) \<le> MAX_INDEX"
    by (simp_all add: MAX_INDEX_eq)
  have p: "range_split_masks (map index_get ?idxs) = Inr (0, 1, MAX_INDEX AND NOT 1)" unfolding m by (rule r)
  have q: "index_get (hd ?idxs) AND (MAX_INDEX AND NOT 1) \<noteq> 0" unfolding m by (rule h)
  have r2: "range_split_masks [index_get (hd ?idxs), index_get (last ?idxs)] = Inr (0, 1, MAX_INDEX AND NOT 1)" unfolding m by (rule r)
  have ne: "?idxs \<noteq> []" by simp
  obtain out where "run_derivation_tree (\<lambda>_ x. x) not_hash zero_job and_gadget (- 1) (value_zero, value_zero) ?idxs 0 = Inr out"
    "run_derivation_cache (\<lambda>_ x. x) not_hash zero_job and_gadget (- 1) (value_zero, value_zero) ?idxs 16 16 = Inr out" "map fst out = ?idxs"
    using derivation_modes_agree [where aes = "\<lambda>_ x. x" and trunk_blocks = 0 and trunk_blocks' = 16,
        OF and_gadget_hash zero_job_ok(2) wf_value_zero wf_value_zero ne b p q r2 q f zero_less_one]
    by (elim exE conjE) (rule that)
  then show ?thesis by (intro exI conjI)
qed

section \<open>Programs and slots\<close>

text \<open>C11: The direct programs compute the derivation. For a gadget that computes the hash, the chunk program of any bits
  below 48 is built without error, reads only wires defined before, and its value on the bits of a value (for the first
  chunk: of the two shares) is the hash chain over the bits in that order; the tile program's value is the concatenation,
  slot by slot, of the values derived for every suffix of its window.\<close>
theorem direct_programs_correct:
  assumes "hash_gadget sha256 sha" "wf_value a" "wf_value c"
    and "\<forall>k \<in> set ks. k < INDEX_BITS" "length ks \<le> 48" "1 \<le> height" "height \<le> 4" "offset + height \<le> INDEX_BITS"
  shows "(\<exists>p. chunk_from_sha sha ks True = Inr p \<and> prog_ok p \<and> prog_eval p (value_bools a @ value_bools c) = value_bools (fold (hash_step sha256) ks (combine a c)))
    \<and> (\<exists>p. chunk_from_sha sha ks False = Inr p \<and> prog_ok p \<and> prog_eval p (value_bools a) = value_bools (fold (hash_step sha256) ks a))
    \<and> (\<exists>p. tile_from_sha sha offset height = Inr p \<and> prog_ok p
        \<and> prog_eval p (value_bools a) = concat (map (\<lambda>s. value_bools (leaf_value sha256 offset a s)) [0..<2 ^ height]))"
proof -
  have g: "sha_gadget sha256 sha" "gadget_closed sha" and lim: "64 * Suc (length (c_gates sha)) + 5000 \<le> 2 ^ 30"
    using assms(1) by (simp_all add: hash_gadget_def)
  have "length ks * Suc (length (c_gates sha)) \<le> 48 * Suc (length (c_gates sha))" using assms(5) by (rule mult_le_mono1)
  then have size: "length ks * Suc (length (c_gates sha)) + 1100 \<le> 2 ^ 30" using lim by linarith
  have h: "2 ^ height \<le> (16 :: nat)" using power_increasing [OF assms(7), of "2 :: nat"] by simp
  then have "height * 2 ^ height \<le> (64 :: nat)" using mult_le_mono [OF assms(7) h] by simp
  then have "height * 2 ^ height * Suc (length (c_gates sha)) \<le> 64 * Suc (length (c_gates sha))" by (rule mult_le_mono1)
  then have tsize: "height * 2 ^ height * Suc (length (c_gates sha)) + 256 * 2 ^ height + 258 \<le> 2 ^ 30" using lim h by linarith
  have "\<exists>p. chunk_from_sha sha ks True = Inr p \<and> prog_ok p \<and> prog_eval p (value_bools a @ value_bools c) = value_bools (fold (hash_step sha256) ks (combine a c))"
    using chunk_program_run [OF g size assms(4,2,3), of "value_bools a @ value_bools c" True] by auto
  moreover have "\<exists>p. chunk_from_sha sha ks False = Inr p \<and> prog_ok p \<and> prog_eval p (value_bools a) = value_bools (fold (hash_step sha256) ks a)"
    using chunk_program_run [OF g size assms(4,2,3), of "value_bools a" False] by auto
  moreover have "\<exists>p. tile_from_sha sha offset height = Inr p \<and> prog_ok p
      \<and> prog_eval p (value_bools a) = concat (map (\<lambda>s. value_bools (leaf_value sha256 offset a s)) [0..<2 ^ height])"
    using tile_program_run [OF g assms(6,8) tsize assms(2)] by blast
  ultimately show ?thesis by blast
qed

theorem direct_programs_correct_witness:
  "\<exists>p. chunk_from_sha and_gadget [2, 0] False = Inr p \<and> prog_eval p (value_bools value_zero) = value_bools (5 # replicate 31 0)"
proof -
  have k: "\<forall>k \<in> set [2, 0]. k < INDEX_BITS" "length [2, 0 :: nat] \<le> 48" "(1 :: nat) \<le> 2" "(2 :: nat) \<le> 4" "0 + 2 \<le> INDEX_BITS"
    by (simp_all add: INDEX_BITS_def)
  have "fold (hash_step not_hash) [2, 0] value_zero = 5 # replicate 31 0" by code_simp
  then show ?thesis using direct_programs_correct [OF and_gadget_hash wf_value_zero wf_value_zero k] by auto
qed

text \<open>C16: Reusing slots loses no share. After the liveness and slot passes over a program whose gates read wires
  defined before, as many slots are used as \<open>slot_capacity\<close> computed beforehand and every wire has one of them; no gate
  writes a slot of a wire that is still to be read or kept; every kept wire has its own share in its slot; and the
  operands collected for the triples are the shares of the AND gates' input wires, in order.\<close>
theorem slot_reuse_safe:
  fixes party :: role and d :: block
  assumes "prog_ok p" "sw_len inp = pr_num_inputs p" "length (sw_bundle inp) = pr_num_inputs p" "[] \<notin> set draws" "num_ands p \<le> length (concat draws)"
  defines "st0 \<equiv> liveness_pass p (run_state_new party d inp)" and "W \<equiv> wire_shares p (concat draws) (sw_bundle inp)"
  shows "\<exists>st. slot_mask_pass p draws st0 = Inr st \<and> rs_num_slots st = slot_capacity st0 p
    \<and> (\<forall>w < pr_num_wires p. rs_phys st ! w < rs_num_slots st)
    \<and> (\<forall>j < length (pr_gates p). \<forall>w < gate_out p j. live (rs_persist st) (rs_last_use st) j w \<longrightarrow> rs_phys st ! w \<noteq> rs_phys st ! gate_out p j)
    \<and> (\<forall>w < pr_num_wires p. rs_persist st ! w \<longrightarrow> rs_wire_slot st ! (rs_phys st ! w) = W ! w)
    \<and> rs_rep_a st = map (\<lambda>j. W ! ag_in0 (pr_gates p ! j)) (and_gates p (length (pr_gates p)))
    \<and> rs_rep_b st = map (\<lambda>j. W ! ag_in1 (pr_gates p ! j)) (and_gates p (length (pr_gates p)))"
proof -
  let ?s0 = "run_state_new party d inp"
  obtain pe lu where l: "liveness_pass p ?s0 = ?s0\<lparr>rs_num_wires := pr_num_wires p, rs_num_ands := num_ands p, rs_last_use := lu, rs_persist := pe\<rparr>" "liveness_ok p pe lu"
    using liveness_pass_spec [OF assms(1), of ?s0] assms(2) by (auto simp: run_state_new_def)
  have s: "rs_num_inputs st0 = pr_num_inputs p" "rs_num_slots st0 = pr_num_inputs p" "length (rs_wire_slot st0) = pr_num_inputs p" "length (rs_mask_input st0) = pr_num_inputs p"
    "liveness_ok p (rs_persist st0) (rs_last_use st0)" "W = wire_shares p (concat draws) (rs_wire_slot st0)"
    using assms(2,3) l by (simp_all add: st0_def W_def run_state_new_def sw_len_def)
  show ?thesis
    using slot_mask_pass_spec [OF assms(1) s(5,1,2,3,4) assms(4,5) s(6)] unfolding layout_def
    by (elim exE conjE) (rule exI, rule conjI, assumption, simp add: Let_def)
qed

theorem slot_reuse_safe_witness:
  "\<exists>st. slot_mask_pass and_program [zero_shares 1] (liveness_pass and_program (run_state_new Alice 5 (fst (clear_wires [True, True] 5)))) = Inr st
    \<and> rs_num_slots st = slot_capacity (liveness_pass and_program (run_state_new Alice 5 (fst (clear_wires [True, True] 5)))) and_program"
proof -
  have h: "sw_len (fst (clear_wires [True, True] 5)) = pr_num_inputs and_program" "length (sw_bundle (fst (clear_wires [True, True] 5))) = pr_num_inputs and_program"
    "[] \<notin> set [zero_shares 1]" "num_ands and_program \<le> length (concat [zero_shares 1])"
    by (simp_all add: clear_wires_def sw_len_def and_program_def zero_shares_def num_ands_def ag_gate_new_def ag_typ_def ag_code.simps ag_from_code_def
      AG2PC_GATE_TYPE_SHIFT_def)
  show ?thesis using slot_reuse_safe [OF and_program_facts(1) h, of Alice 5] by blast
qed

section \<open>Types of a session\<close>

text \<open>C18: The two protocol states of a session stay well typed: \<open>setup_with_delta\<close> on the two sides gives states that fit
  (roles, pools whose deltas have low bit 1 and second bits that differ, deltas equal to those of the pools), flushing the
  correlation checks keeps them so, and \<open>process_inputs\<close> over right draws returns without error, with fitting states, the
  same deltas, and for every input vector wires that carry its owner's bits.\<close>
theorem session_states_typed:
  assumes "protocols_ok prA prB" "length bitsA = length owners" "map length bitsA = map length bitsB" "length (concat bitsA) < 2 ^ 64"
    and "verify_share_relation drawA (ap_delta prA) drawB (ap_delta prB)" "length drawA = length (concat bitsA)"
  shows "protocols_ok (protocol_setup Alice ssp dA seedA) (protocol_setup Bob ssp dB seedB)
    \<and> protocols_ok (flush_cot_check prA) (flush_cot_check prB)
    \<and> (\<exists>prA' prB' outA outB. process_inputs aes sha256 drawA drawB owners (prA, bitsA) (prB, bitsB) = Inr ((prA', outA), (prB', outB))
       \<and> protocols_ok prA' prB' \<and> ap_delta prA' = ap_delta prA \<and> ap_delta prB' = ap_delta prB
       \<and> (\<forall>k < length owners. wires_ok (ap_delta prA) (ap_delta prB) (input_bits owners bitsA bitsB ! k) (outA ! k) (outB ! k)))"
proof -
  have pr: "pools_ok (ap_pool prA) (ap_pool prB)" "tp_delta (ap_pool prA) = ap_delta prA" "tp_delta (ap_pool prB) = ap_delta prB"
    using assms(1) by (simp_all add: protocols_ok_def)
  have "prA\<lparr>ap_pool := ap_pool prA\<rparr> = prA" "prB\<lparr>ap_pool := ap_pool prB\<rparr> = prB" by simp_all
  then have "protocols_ok (flush_cot_check prA) (flush_cot_check prB)"
    using protocols_ok_pools(1) [OF assms(1) pr] by simp
  then show ?thesis using protocol_setup_ok process_inputs_run [OF assms, of aes sha256] by blast
qed

theorem session_states_typed_witness:
  "\<exists>prA prB outA outB. process_inputs (\<lambda>_ x. x) (\<lambda>_. []) (zero_shares 2) (zero_shares 2) [Alice]
      (protocol_setup Alice 40 5 0, [[1, 0]]) (protocol_setup Bob 40 9 1, [[0, 0]]) = Inr ((prA, outA), (prB, outB)) \<and> protocols_ok prA prB"
proof -
  have h: "length [[1, 0 :: u8]] = length [Alice]" "map length [[1, 0 :: u8]] = map length [[0, 0 :: u8]]" "length (concat [[1, 0 :: u8]]) < 2 ^ 64"
    "length (zero_shares 2) = length (concat [[1, 0 :: u8]])" by (simp_all add: zero_shares_def)
  show ?thesis
    using session_states_typed [OF protocol_setup_ok h(1-3) zero_shares_ok(1) h(4), of 40 5 0 9 1 40 5 0 40 9 1 "\<lambda>_ x. x" "\<lambda>_. []"] by blast
qed

section \<open>Arguments\<close>

text \<open>C32: Accepted arguments are safe. When \<open>parse_args\<close> accepts a command line, the port is not 0, the share has 32 bytes,
  the indices are of 48 bits, a range is not empty and has at most 100000 indices, and an index spec that contains the seed
  (index 0) was given together with the flag that allows revealing it.\<close>
theorem accepted_args_safe:
  assumes "parse_args parse_ip localhost argv = Inr a"
  shows "0 < ar_port a \<and> wf_value (ar_share a) \<and> (contains_seed (ar_index_spec a) \<longrightarrow> ar_allow_seed_reveal a)
    \<and> (case ar_index_spec a of Single i \<Rightarrow> index_get i \<le> MAX_INDEX
       | Range lo hi \<Rightarrow> index_get lo \<le> index_get hi \<and> index_get hi \<le> MAX_INDEX \<and> unat (index_get hi) < unat (index_get lo) + 100000)"
  using parse_args_ok [OF assms] parse_index_spec_ok by blast

theorem accepted_args_safe_witness:
  "\<exists>a. parse_args (\<lambda>_. None) () [''party'', ''1'', ''9000'', ''4-7'', replicate 64 (CHR ''0'')] = Inr a \<and> 0 < ar_port (a :: unit args)"
proof -
  have "\<not> isl (parse_args (\<lambda>_. None :: unit option) () [''party'', ''1'', ''9000'', ''4-7'', replicate 64 (CHR ''0'')])" by code_simp
  then obtain a where a: "parse_args (\<lambda>_. None) () [''party'', ''1'', ''9000'', ''4-7'', replicate 64 (CHR ''0'')] = Inr (a :: unit args)"
    by (cases "parse_args (\<lambda>_. None :: unit option) () [''party'', ''1'', ''9000'', ''4-7'', replicate 64 (CHR ''0'')]") (simp_all only: isl_def, blast+)
  show ?thesis by (rule exI [of _ a], rule conjI [OF a conjunct1 [OF accepted_args_safe [OF a]]])
qed

section \<open>Programs without an AND gate\<close>


lemma not_program_gate [simp]: "ag_typ (ag_gate_new AgInv 0 0) = AgInv" "ag_in0 (ag_gate_new AgInv 0 0) = 0"
  by (simp_all add: ag_gate_new_def ag_typ_def ag_code.simps ag_from_code_def ag_in0_def AG2PC_GATE_TYPE_SHIFT_def AG2PC_GATE_WIRE_MASK_def)







end
