(* ===== verification/Daemon_Db.thy ===== *)
theory Daemon_Db
  imports Party_Jobs Channel_Flow
begin

text \<open>
  The daemon's encrypted store (\<open>db.rs\<close> with the key derivation of \<open>helpers.rs\<close>): the records kept per
  channel, the logical keys and mutations, the redb table of encrypted records, the writer that applies
  batches of mutations, and the migration of the legacy single-file format.

  HMAC-SHA-256, AES-256-GCM, the random generator and the serde encodings are parameters, in the record
  \<open>store_env\<close>. A redb database is its committed table and the earlier tables a crash may still fall back to:
  a commit with durability \<open>Immediate\<close> leaves none, a commit with durability \<open>Eventual\<close> adds one.
\<close>

section \<open>Errors\<close>

datatype status_code = NotFoundCode | InvalidArgument | Internal | Unauthenticated | FailedPrecondition | AlreadyExists | OtherCode

datatype daemon_error =
    DUsage string
  | DIo string
  | DCrypto string
  | DJson string
  | DTonicTransport string
  | DTonicStatus status_code string string \<comment> \<open>code, message and the text the library displays\<close>
  | DParse string
  | DNotFound string
  | DRefused string
  | DParty party_error
  | DPanic \<comment> \<open>a failed \<open>expect\<close>\<close>

fun show_daemon_error :: "daemon_error \<Rightarrow> string" where
  "show_daemon_error (DUsage msg) = msg"
| "show_daemon_error (DIo e) = e"
| "show_daemon_error (DCrypto msg) = msg"
| "show_daemon_error (DJson e) = e"
| "show_daemon_error (DTonicTransport e) = e"
| "show_daemon_error (DTonicStatus c msg shown) = shown"
| "show_daemon_error (DParse msg) = msg"
| "show_daemon_error (DNotFound msg) = msg"
| "show_daemon_error (DRefused msg) = msg"
| "show_daemon_error (DParty e) = show_party_error e"
| "show_daemon_error DPanic = ''panicked''"

section \<open>Constants\<close>

definition DB_MAGIC :: bytes where
  "DB_MAGIC = ascii ''S2PCDB1'' @ [0]"

definition DB_AAD :: bytes where
  "DB_AAD = ascii ''shachain2pc daemon db v1''"

definition DB_SALT_LEN :: nat where
  "DB_SALT_LEN = 32"

definition DB_NONCE_LEN :: nat where
  "DB_NONCE_LEN = 12"

definition DB_TAG_LEN :: nat where
  "DB_TAG_LEN = 16"

definition REDB_META_VERIFIER :: bytes where
  "REDB_META_VERIFIER = ascii ''shachain2pc daemon redb verifier v1''"

definition RECORD_META :: u8 where
  "RECORD_META = 0"

definition RECORD_CHANNEL :: u8 where
  "RECORD_CHANNEL = 1"

definition RECORD_SECRET :: u8 where
  "RECORD_SECRET = 2"

definition RECORD_FRONTIER :: u8 where
  "RECORD_FRONTIER = 3"

definition DEFAULT_SSP_TARGET :: u32 where
  "DEFAULT_SSP_TARGET = 40"

definition DEFAULT_DELTA_CAP :: u64 where
  "DEFAULT_DELTA_CAP = push_bit 32 1"

definition PROTOCOL_VERSION :: u32 where
  "PROTOCOL_VERSION = 1"

section \<open>Hexadecimal strings and keys\<close>

definition to_hex :: "bytes \<Rightarrow> string" where
  "to_hex bs = concat (map (\<lambda>b. [nibble_hex (drop_bit 4 b), nibble_hex (b AND 0x0f)]) bs)"

definition daemon_hex_nibble :: "char \<Rightarrow> daemon_error + u8" where
  "daemon_hex_nibble c =
     (let b = (of_char c :: u8) in
      if 0x30 \<le> b \<and> b \<le> 0x39 then Inr (b - 0x30)
      else if 0x61 \<le> b \<and> b \<le> 0x66 then Inr (b - 0x61 + 10)
      else if 0x41 \<le> b \<and> b \<le> 0x46 then Inr (b - 0x41 + 10)
      else Inl (DParse (''bad hex char '' @ [char_of (39 :: nat)] @ [c] @ [char_of (39 :: nat)])))"

definition from_hex :: "string \<Rightarrow> daemon_error + bytes" where
  "from_hex input =
     (if length input mod 2 \<noteq> 0 then Inl (DParse ''hex string has odd length'')
      else mapR (\<lambda>i. bindR (daemon_hex_nibble (input ! (2 * i))) (\<lambda>h.
                     bindR (daemon_hex_nibble (input ! (2 * i + 1))) (\<lambda>l. Inr (push_bit 4 h OR l))))
             [0..<length input div 2])"

definition channel_key :: "u64 \<Rightarrow> string" where
  "channel_key index = dec_string (unat index)"

definition node_key :: "u64 \<Rightarrow> string" where
  "node_key m = dec_string (unat m)"

definition parse_u64 :: "string \<Rightarrow> u64 option" where
  \<comment> \<open>\<open>s.parse::<u64>().ok()\<close>\<close>
  "parse_u64 s = map_option word_of_nat (parse_uint (2 ^ 64) s)"

section \<open>Records\<close>

record serializable_wires =
  sz_lambda :: bytes
  sz_mac :: "bytes list"
  sz_key :: "bytes list"

definition from_secure_wires :: "secure_wires \<Rightarrow> serializable_wires" where
  "from_secure_wires wires =
     \<lparr>sz_lambda = sw_lambda wires,
      sz_mac = map (\<lambda>bundle. block_bytes (as_mac bundle)) (sw_bundle wires),
      sz_key = map (\<lambda>bundle. block_bytes (as_key bundle)) (sw_bundle wires)\<rparr>"

definition to_secure_wires :: "serializable_wires \<Rightarrow> secure_wires" where
  "to_secure_wires s =
     \<lparr>sw_lambda = sz_lambda s,
      sw_bundle = map (\<lambda>(mac, key). \<lparr>as_mac = block_from_bytes mac, as_key = block_from_bytes key\<rparr>)
        (zip (sz_mac s) (sz_key s)),
      sw_label0 = [], sw_eval = []\<rparr>"

record wire_record =
  wr_public_binding_hex :: string
  wr_local_binding_hex :: string
  wr_wires :: serializable_wires

record channel_scalars =
  cs_enabled :: bool
  cs_last_observed_next_reveal_index :: "u64 option"
  cs_precompute_target :: u64
  cs_ssp_target :: u32
  cs_delta_lifetime_checked_units_cap :: u64
  cs_estimated_checked_units :: u64
  cs_attempted_checked_units :: u64
  cs_failed_precompute_jobs :: u64

record channel_record =
  ch_enabled :: bool
  ch_last_observed_next_reveal_index :: "u64 option"
  ch_precompute_target :: u64
  ch_ssp_target :: u32
  ch_delta_lifetime_checked_units_cap :: u64
  ch_frontier_nodes :: "(string, wire_record) bmap"
  ch_known_secrets :: "(string, string) bmap"
  ch_estimated_checked_units :: u64
  ch_attempted_checked_units :: u64
  ch_failed_precompute_jobs :: u64

record plain_db =
  db_channels :: "(string, channel_record) bmap"

datatype stored_payload =
    Meta string
  | ChannelPayload channel_scalars
  | Secret string
  | Frontier wire_record

record stored_record =
  sr_record_type :: u8
  sr_channel_index :: u64
  sr_sub_id :: u64
  sr_payload :: stored_payload

record logical_key =
  lk_record_type :: u8
  lk_channel_index :: u64
  lk_sub_id :: u64

datatype mutation = Upsert logical_key stored_record | Delete logical_key

datatype db_durability = Eventual | Immediate

datatype write_op = Batch "mutation list" db_durability | Flush nat \<comment> \<open>the acknowledgement to answer\<close>

definition scalars :: "channel_record \<Rightarrow> channel_scalars" where
  "scalars c =
     \<lparr>cs_enabled = ch_enabled c,
      cs_last_observed_next_reveal_index = ch_last_observed_next_reveal_index c,
      cs_precompute_target = ch_precompute_target c,
      cs_ssp_target = ch_ssp_target c,
      cs_delta_lifetime_checked_units_cap = ch_delta_lifetime_checked_units_cap c,
      cs_estimated_checked_units = ch_estimated_checked_units c,
      cs_attempted_checked_units = ch_attempted_checked_units c,
      cs_failed_precompute_jobs = ch_failed_precompute_jobs c\<rparr>"

definition apply_scalars :: "channel_scalars \<Rightarrow> channel_record \<Rightarrow> channel_record" where
  "apply_scalars s c =
     c\<lparr>ch_enabled := cs_enabled s,
       ch_last_observed_next_reveal_index := cs_last_observed_next_reveal_index s,
       ch_precompute_target := cs_precompute_target s,
       ch_ssp_target := cs_ssp_target s,
       ch_delta_lifetime_checked_units_cap := cs_delta_lifetime_checked_units_cap s,
       ch_estimated_checked_units := cs_estimated_checked_units s,
       ch_attempted_checked_units := cs_attempted_checked_units s,
       ch_failed_precompute_jobs := cs_failed_precompute_jobs s\<rparr>"

definition empty_channel_record :: channel_record where
  "empty_channel_record =
     \<lparr>ch_enabled = False, ch_last_observed_next_reveal_index = None, ch_precompute_target = 0,
      ch_ssp_target = DEFAULT_SSP_TARGET, ch_delta_lifetime_checked_units_cap = DEFAULT_DELTA_CAP,
      ch_frontier_nodes = [], ch_known_secrets = [], ch_estimated_checked_units = 0,
      ch_attempted_checked_units = 0, ch_failed_precompute_jobs = 0\<rparr>"

section \<open>Logical keys and mutations\<close>

definition meta_key :: logical_key where
  "meta_key = \<lparr>lk_record_type = RECORD_META, lk_channel_index = 0, lk_sub_id = 0\<rparr>"

definition channel_lkey :: "u64 \<Rightarrow> logical_key" where
  "channel_lkey channel_index = \<lparr>lk_record_type = RECORD_CHANNEL, lk_channel_index = channel_index, lk_sub_id = 0\<rparr>"

definition secret_lkey :: "u64 \<Rightarrow> u64 \<Rightarrow> logical_key" where
  "secret_lkey channel_index index =
     \<lparr>lk_record_type = RECORD_SECRET, lk_channel_index = channel_index, lk_sub_id = index\<rparr>"

definition frontier_lkey :: "u64 \<Rightarrow> u64 \<Rightarrow> logical_key" where
  "frontier_lkey channel_index m =
     \<lparr>lk_record_type = RECORD_FRONTIER, lk_channel_index = channel_index, lk_sub_id = m\<rparr>"

definition canonical_bytes :: "logical_key \<Rightarrow> bytes" where
  "canonical_bytes k = [lk_record_type k] @ be_bytes 8 (lk_channel_index k) @ be_bytes 8 (lk_sub_id k)"

definition upsert_channel_mutation :: "u64 \<Rightarrow> channel_record \<Rightarrow> mutation" where
  "upsert_channel_mutation channel_index channel =
     Upsert (channel_lkey channel_index)
       \<lparr>sr_record_type = RECORD_CHANNEL, sr_channel_index = channel_index, sr_sub_id = 0,
        sr_payload = ChannelPayload (scalars channel)\<rparr>"

definition upsert_secret_mutation :: "u64 \<Rightarrow> u64 \<Rightarrow> string \<Rightarrow> mutation" where
  "upsert_secret_mutation channel_index index secret_hex =
     Upsert (secret_lkey channel_index index)
       \<lparr>sr_record_type = RECORD_SECRET, sr_channel_index = channel_index, sr_sub_id = index,
        sr_payload = Secret secret_hex\<rparr>"

definition upsert_frontier_mutation :: "u64 \<Rightarrow> u64 \<Rightarrow> wire_record \<Rightarrow> mutation" where
  "upsert_frontier_mutation channel_index m r =
     Upsert (frontier_lkey channel_index m)
       \<lparr>sr_record_type = RECORD_FRONTIER, sr_channel_index = channel_index, sr_sub_id = m,
        sr_payload = Frontier r\<rparr>"

definition delete_secret_mutation :: "u64 \<Rightarrow> u64 \<Rightarrow> mutation" where
  "delete_secret_mutation channel_index index = Delete (secret_lkey channel_index index)"

definition delete_frontier_mutation :: "u64 \<Rightarrow> u64 \<Rightarrow> mutation" where
  "delete_frontier_mutation channel_index m = Delete (frontier_lkey channel_index m)"

definition channel_mutations :: "string \<Rightarrow> channel_record \<Rightarrow> mutation list" where
  \<comment> \<open>the body of the loop of \<open>plain_db_mutations\<close>\<close>
  "channel_mutations channel_s channel =
     (case parse_u64 channel_s of None \<Rightarrow> []
      | Some channel_index \<Rightarrow>
          upsert_channel_mutation channel_index channel #
          List.map_filter (\<lambda>(index_s, secret_hex).
            map_option (\<lambda>index. upsert_secret_mutation channel_index index secret_hex) (parse_u64 index_s))
            (ch_known_secrets channel) @
          List.map_filter (\<lambda>(mask_s, r).
            map_option (\<lambda>m. upsert_frontier_mutation channel_index m r) (parse_u64 mask_s))
            (ch_frontier_nodes channel))"

definition plain_db_mutations :: "plain_db \<Rightarrow> mutation list" where
  "plain_db_mutations db = concat (map (\<lambda>(channel_s, channel). channel_mutations channel_s channel) (db_channels db))"

section \<open>Keys of the store\<close>

record store_env =
  se_hmac :: "bytes \<Rightarrow> bytes \<Rightarrow> bytes" \<comment> \<open>HMAC-SHA-256, key then data\<close>
  se_encrypt :: "bytes \<Rightarrow> bytes \<Rightarrow> bytes \<Rightarrow> bytes \<Rightarrow> string + bytes \<times> bytes"
    \<comment> \<open>AES-256-GCM: key, nonce, associated data, plaintext to ciphertext and tag\<close>
  se_decrypt :: "bytes \<Rightarrow> bytes \<Rightarrow> bytes \<Rightarrow> bytes \<Rightarrow> bytes \<Rightarrow> string + bytes"
    \<comment> \<open>key, nonce, associated data, ciphertext, tag\<close>
  se_record_to_json :: "stored_record \<Rightarrow> string + bytes"
  se_record_from_json :: "bytes \<Rightarrow> string + stored_record"
  se_db_from_json :: "bytes \<Rightarrow> string + plain_db"

fun hkdf_blocks :: "(bytes \<Rightarrow> bytes \<Rightarrow> bytes) \<Rightarrow> bytes \<Rightarrow> bytes \<Rightarrow> nat \<Rightarrow> u8 \<Rightarrow> bytes \<Rightarrow> nat \<Rightarrow> bytes" where
  \<comment> \<open>the loop of \<open>hkdf_expand\<close>, with the bytes still to fill; the counter is a \<open>u8\<close> and never wraps for the
     lengths the daemon asks for, so at most 255 rounds run\<close>
  "hkdf_blocks hmac prk info 0 counter t missing = []"
| "hkdf_blocks hmac prk info (Suc fuel) counter t missing =
     (let t' = hmac prk (t @ info @ [counter]); n = min missing (length t')
      in take n t' @ (if missing - n = 0 then [] else hkdf_blocks hmac prk info fuel (counter + 1) t' (missing - n)))"

definition hkdf_expand :: "(bytes \<Rightarrow> bytes \<Rightarrow> bytes) \<Rightarrow> bytes \<Rightarrow> bytes \<Rightarrow> bytes \<Rightarrow> nat \<Rightarrow> bytes" where
  "hkdf_expand hmac ikm salt info n =
     hkdf_blocks hmac (hmac (if salt = [] then replicate 32 0 else salt) ikm) info 255 1 [] n"

record db_subkeys =
  sk_key_prf :: bytes
  sk_value_aead :: bytes

definition db_subkeys_derive :: "store_env \<Rightarrow> bytes \<Rightarrow> db_subkeys" where
  "db_subkeys_derive env master_secret =
     \<lparr>sk_key_prf = hkdf_expand (se_hmac env) master_secret [] (ascii ''shachain-db-key-prf-v1'') 32,
      sk_value_aead = hkdf_expand (se_hmac env) master_secret [] (ascii ''shachain-db-value-aead-v1'') 32\<rparr>"

definition derive_db_key :: "store_env \<Rightarrow> bytes \<Rightarrow> bytes \<Rightarrow> bytes" where
  "derive_db_key env master_secret salt =
     hkdf_expand (se_hmac env) master_secret salt (ascii ''shachain2pc daemon db key v1'') 32"

definition stored_key :: "store_env \<Rightarrow> db_subkeys \<Rightarrow> logical_key \<Rightarrow> bytes" where
  "stored_key env subkeys k = se_hmac env (sk_key_prf subkeys) (canonical_bytes k)"

definition encrypt_stored_record ::
  "store_env \<Rightarrow> db_subkeys \<Rightarrow> string + bytes \<Rightarrow> bytes \<Rightarrow> stored_record \<Rightarrow> daemon_error + bytes" where
  \<comment> \<open>the third argument is what the random generator answers\<close>
  "encrypt_stored_record env subkeys random key r =
     bindR (mapErr DJson (se_record_to_json env r)) (\<lambda>plaintext.
     bindR (mapErr DCrypto random) (\<lambda>nonce.
     bindR (mapErr DCrypto (se_encrypt env (sk_value_aead subkeys) nonce key plaintext)) (\<lambda>(ciphertext, tag).
     Inr (nonce @ tag @ ciphertext))))"

definition decrypt_stored_record ::
  "store_env \<Rightarrow> db_subkeys \<Rightarrow> bytes \<Rightarrow> bytes \<Rightarrow> daemon_error + stored_record" where
  "decrypt_stored_record env subkeys key v =
     (if length key \<noteq> 32 then Inl (DCrypto ''encrypted DB stored key has a bad length'')
      else if length v < DB_NONCE_LEN + DB_TAG_LEN then Inl (DCrypto ''encrypted DB value is truncated'')
      else let nonce = take DB_NONCE_LEN v; tag = take DB_TAG_LEN (drop DB_NONCE_LEN v);
               ciphertext = drop (DB_NONCE_LEN + DB_TAG_LEN) v
           in bindR (mapErr DCrypto (se_decrypt env (sk_value_aead subkeys) nonce key ciphertext tag)) (\<lambda>plaintext.
              mapErr DJson (se_record_from_json env plaintext)))"

section \<open>The table\<close>

type_synonym table = "(bytes, bytes) bmap"

record redb =
  rd_table :: table
  rd_unsynced :: "table list" \<comment> \<open>committed tables a crash may fall back to\<close>

definition empty_redb :: redb where
  \<comment> \<open>\<open>Database::create\<close>\<close>
  "empty_redb = \<lparr>rd_table = [], rd_unsynced = []\<rparr>"

definition commit :: "redb \<Rightarrow> table \<Rightarrow> db_durability \<Rightarrow> redb" where
  "commit db t durability =
     \<lparr>rd_table = t,
      rd_unsynced = (case durability of Immediate \<Rightarrow> [] | Eventual \<Rightarrow> rd_table db # rd_unsynced db)\<rparr>"

definition crash_tables :: "redb \<Rightarrow> table set" where
  \<comment> \<open>the tables a reopened database may hold after a crash\<close>
  "crash_tables db = insert (rd_table db) (set (rd_unsynced db))"

fun apply_mutation ::
  "store_env \<Rightarrow> db_subkeys \<Rightarrow> (string + bytes) \<times> mutation \<Rightarrow> table \<Rightarrow> daemon_error + table" where
  "apply_mutation env subkeys (random, Upsert k r) t =
     (let key = stored_key env subkeys k
      in bindR (encrypt_stored_record env subkeys random key r) (\<lambda>v. Inr (bm_insert key v t)))"
| "apply_mutation env subkeys (random, Delete k) t = Inr (bm_remove (stored_key env subkeys k) t)"

definition apply_mutations ::
  "store_env \<Rightarrow> db_subkeys \<Rightarrow> (nat \<Rightarrow> string + bytes) \<Rightarrow> mutation list \<Rightarrow> db_durability \<Rightarrow> redb \<Rightarrow> daemon_error + redb" where
  \<comment> \<open>one write transaction; an error drops it, so the caller keeps the database it had\<close>
  "apply_mutations env subkeys random mutations durability db =
     bindR (foldR (apply_mutation env subkeys) (zip (map random [0..<length mutations]) mutations) (rd_table db)) (\<lambda>t.
     Inr (commit db t durability))"

definition meta_record :: stored_record where
  "meta_record =
     \<lparr>sr_record_type = RECORD_META, sr_channel_index = 0, sr_sub_id = 0, sr_payload = Meta (to_hex REDB_META_VERIFIER)\<rparr>"

definition checkpoint_database ::
  "store_env \<Rightarrow> db_subkeys \<Rightarrow> (nat \<Rightarrow> string + bytes) \<Rightarrow> redb \<Rightarrow> daemon_error + redb" where
  "checkpoint_database env subkeys random db =
     apply_mutations env subkeys random [Upsert meta_key meta_record] Immediate db"

definition validate_meta_record :: "stored_record \<Rightarrow> daemon_error + unit" where
  "validate_meta_record r =
     (case sr_payload r of
        Meta verifier_hex \<Rightarrow>
          if sr_record_type r = RECORD_META \<and> sr_channel_index r = 0 \<and> sr_sub_id r = 0
             \<and> verifier_hex = to_hex REDB_META_VERIFIER
          then Inr () else Inl (DCrypto ''encrypted DB verifier record is invalid'')
      | _ \<Rightarrow> Inl (DCrypto ''encrypted DB verifier record is invalid''))"

definition ensure_meta_record ::
  "store_env \<Rightarrow> db_subkeys \<Rightarrow> string + bytes \<Rightarrow> redb \<Rightarrow> daemon_error + redb" where
  "ensure_meta_record env subkeys random db =
     (let key = stored_key env subkeys meta_key; t = rd_table db in
      bindR (case bm_get t key of
               Some v \<Rightarrow>
                 bindR (decrypt_stored_record env subkeys key v) (\<lambda>r.
                 bindR (validate_meta_record r) (\<lambda>_. Inr t))
             | None \<Rightarrow>
                 bindR (encrypt_stored_record env subkeys random key meta_record) (\<lambda>v.
                 Inr (bm_insert key v t))) (\<lambda>t.
      Inr (commit db t Immediate)))"

definition entry_or_empty :: "u64 \<Rightarrow> plain_db \<Rightarrow> channel_record" where
  \<comment> \<open>\<open>entry(channel_key(i)).or_insert_with(empty_channel_record)\<close>\<close>
  "entry_or_empty i db = (case bm_get (db_channels db) (channel_key i) of Some c \<Rightarrow> c | None \<Rightarrow> empty_channel_record)"

definition put_channel :: "u64 \<Rightarrow> channel_record \<Rightarrow> plain_db \<Rightarrow> plain_db" where
  "put_channel i c db = db\<lparr>db_channels := bm_insert (channel_key i) c (db_channels db)\<rparr>"

definition apply_stored_record :: "stored_record \<Rightarrow> plain_db \<Rightarrow> daemon_error + plain_db" where
  "apply_stored_record r db =
     (let channel = entry_or_empty (sr_channel_index r) db in
      case sr_payload r of
        Meta _ \<Rightarrow> bindR (validate_meta_record r) (\<lambda>_. Inr db)
      | ChannelPayload s \<Rightarrow>
          if sr_record_type r \<noteq> RECORD_CHANNEL \<or> sr_sub_id r \<noteq> 0
          then Inl (DCrypto ''stored channel record has a bad logical key'')
          else Inr (put_channel (sr_channel_index r) (apply_scalars s channel) db)
      | Secret secret_hex \<Rightarrow>
          if sr_record_type r \<noteq> RECORD_SECRET then Inl (DCrypto ''stored secret record has a bad logical key'')
          else Inr (put_channel (sr_channel_index r)
            (channel\<lparr>ch_known_secrets := bm_insert (dec_string (unat (sr_sub_id r))) secret_hex (ch_known_secrets channel)\<rparr>) db)
      | Frontier wire \<Rightarrow>
          if sr_record_type r \<noteq> RECORD_FRONTIER then Inl (DCrypto ''stored frontier record has a bad logical key'')
          else Inr (put_channel (sr_channel_index r)
            (channel\<lparr>ch_frontier_nodes := bm_insert (dec_string (unat (sr_sub_id r))) wire (ch_frontier_nodes channel)\<rparr>) db))"

definition empty_plain_db :: plain_db where
  "empty_plain_db = \<lparr>db_channels = []\<rparr>"

definition load_redb_state :: "store_env \<Rightarrow> db_subkeys \<Rightarrow> table \<Rightarrow> daemon_error + plain_db" where
  "load_redb_state env subkeys t =
     foldR (\<lambda>(key, v) db. bindR (decrypt_stored_record env subkeys key v) (\<lambda>r. apply_stored_record r db))
       t empty_plain_db"

section \<open>The writer\<close>

definition write_batch :: "mutation list \<Rightarrow> db_durability \<Rightarrow> write_op list \<Rightarrow> write_op list" where
  \<comment> \<open>\<open>DbWriter::write_batch\<close>: what it adds to the writer's queue, while the writer task is alive\<close>
  "write_batch mutations durability queue =
     (if mutations = [] then queue else queue @ [Batch mutations durability])"

record collected =
  co_mutations :: "mutation list"
  co_acks :: "nat list"
  co_durability :: db_durability

fun collect_write_op :: "write_op \<Rightarrow> collected \<Rightarrow> collected" where
  "collect_write_op (Batch batch batch_durability) c =
     c\<lparr>co_mutations := co_mutations c @ batch,
       co_durability := (if batch_durability = Immediate then Immediate else co_durability c)\<rparr>"
| "collect_write_op (Flush ack) c = c\<lparr>co_durability := Immediate, co_acks := co_acks c @ [ack]\<rparr>"

record writer =
  wt_db :: redb
  wt_queue :: "write_op list"
  wt_dirty :: bool
  wt_answers :: "(nat \<times> (daemon_error + unit)) list" \<comment> \<open>the acknowledgements sent\<close>

definition spawn_db_writer :: "redb \<Rightarrow> writer" where
  \<comment> \<open>the task as \<open>DbStore::open\<close> starts it: nothing queued, and not dirty\<close>
  "spawn_db_writer database = \<lparr>wt_db = database, wt_queue = [], wt_dirty = False, wt_answers = []\<rparr>"

definition process_db_writer_batch ::
  "store_env \<Rightarrow> db_subkeys \<Rightarrow> (nat \<Rightarrow> string + bytes) \<Rightarrow> write_op list \<Rightarrow> writer \<Rightarrow> writer" where
  \<comment> \<open>one turn of the writer task on the operations it finds in its queue\<close>
  "process_db_writer_batch env subkeys random ops w =
     (let c = fold collect_write_op ops \<lparr>co_mutations = [], co_acks = [], co_durability = Eventual\<rparr>;
          result = (if co_mutations c = [] \<and> co_acks c = [] then Inr (wt_db w)
                    else apply_mutations env subkeys random (co_mutations c) (co_durability c) (wt_db w))
      in case result of
           Inl err \<Rightarrow> w\<lparr>wt_answers := wt_answers w @ map (\<lambda>a. (a, Inl (DCrypto (show_daemon_error err)))) (co_acks c)\<rparr>
         | Inr db \<Rightarrow> w\<lparr>wt_db := db,
                      wt_answers := wt_answers w @ map (\<lambda>a. (a, Inr ())) (co_acks c),
                      wt_dirty := (co_durability c \<noteq> Immediate)\<rparr>)"

definition writer_turn :: "store_env \<Rightarrow> db_subkeys \<Rightarrow> (nat \<Rightarrow> string + bytes) \<Rightarrow> nat \<Rightarrow> writer \<Rightarrow> writer" where
  \<comment> \<open>the task wakes when it has received an operation and drains what has arrived by then\<close>
  "writer_turn env subkeys random n w =
     (if wt_queue w = [] then w
      else process_db_writer_batch env subkeys random (take (Suc n) (wt_queue w))
             (w\<lparr>wt_queue := drop (Suc n) (wt_queue w)\<rparr>))"

definition writer_tick :: "store_env \<Rightarrow> db_subkeys \<Rightarrow> (nat \<Rightarrow> string + bytes) \<Rightarrow> writer \<Rightarrow> writer" where
  \<comment> \<open>the periodic checkpoint\<close>
  "writer_tick env subkeys random w =
     (if wt_dirty w
      then case checkpoint_database env subkeys random (wt_db w) of
             Inl _ \<Rightarrow> w | Inr db \<Rightarrow> w\<lparr>wt_db := db, wt_dirty := False\<rparr>
      else w)"

section \<open>Opening and migration\<close>

definition read_array :: "nat \<Rightarrow> bytes \<Rightarrow> nat \<Rightarrow> daemon_error + bytes \<times> nat" where
  "read_array n bs cursor =
     (if cursor + n > length bs then Inl (DCrypto ''encrypted DB is truncated'')
      else Inr (take n (drop cursor bs), cursor + n))"

definition read_legacy_db :: "store_env \<Rightarrow> bytes \<Rightarrow> bytes \<Rightarrow> daemon_error + plain_db" where
  "read_legacy_db env bs master_secret =
     (if length bs < length DB_MAGIC + DB_SALT_LEN + DB_NONCE_LEN + DB_TAG_LEN
         \<or> take (length DB_MAGIC) bs \<noteq> DB_MAGIC
      then Inl (DCrypto ''legacy encrypted DB has an invalid header'')
      else bindR (read_array DB_SALT_LEN bs (length DB_MAGIC)) (\<lambda>(salt, cursor).
           bindR (read_array DB_NONCE_LEN bs cursor) (\<lambda>(nonce, cursor).
           bindR (read_array DB_TAG_LEN bs cursor) (\<lambda>(tag, cursor).
           bindR (mapErr DCrypto (se_decrypt env (derive_db_key env master_secret salt) nonce DB_AAD (drop cursor bs) tag)) (\<lambda>plaintext.
           mapErr DJson (se_db_from_json env plaintext))))))"

definition migrate_legacy_db ::
  "store_env \<Rightarrow> (nat \<Rightarrow> string + bytes) \<Rightarrow> string + bytes \<Rightarrow> bytes \<Rightarrow> plain_db \<Rightarrow> daemon_error + redb" where
  "migrate_legacy_db env random meta_random master_secret db =
     (let subkeys = db_subkeys_derive env master_secret in
      bindR (ensure_meta_record env subkeys meta_random empty_redb)
            (apply_mutations env subkeys random (plain_db_mutations db) Immediate))"

text \<open>The files the migration touches: the database, its temporary copy and the old file kept aside.\<close>

datatype db_file = RawFile bytes | RedbFile redb

record db_files =
  fl_path :: "db_file option"
  fl_temp :: "db_file option"
  fl_migrated :: "db_file option"

definition recover_incomplete_migration :: "db_files \<Rightarrow> db_files" where
  "recover_incomplete_migration f =
     (if fl_path f \<noteq> None then (if fl_temp f \<noteq> None then f\<lparr>fl_temp := None\<rparr> else f)
      else if fl_temp f \<noteq> None then f\<lparr>fl_path := fl_temp f, fl_temp := None\<rparr> else f)"

definition is_legacy_db_file :: "db_files \<Rightarrow> bool" where
  "is_legacy_db_file f =
     (case fl_path f of Some (RawFile bs) \<Rightarrow> take (length DB_MAGIC) bs = DB_MAGIC | _ \<Rightarrow> False)"

definition open_redb ::
  "store_env \<Rightarrow> string + bytes \<Rightarrow> bytes \<Rightarrow> db_files \<Rightarrow> daemon_error + plain_db \<times> db_files" where
  \<comment> \<open>\<open>DbStore::open\<close> on a file that is not in the legacy format\<close>
  "open_redb env meta_random master_secret f =
     (let subkeys = db_subkeys_derive env master_secret in
      bindR (case fl_path f of
               None \<Rightarrow> Inr empty_redb
             | Some (RedbFile db) \<Rightarrow> Inr db
             | Some (RawFile _) \<Rightarrow> Inl (DCrypto ''redb error: not a redb database'')) (\<lambda>db.
      bindR (ensure_meta_record env subkeys meta_random db) (\<lambda>db.
      bindR (load_redb_state env subkeys (rd_table db)) (\<lambda>state.
      Inr (state, f\<lparr>fl_path := Some (RedbFile db)\<rparr>)))))"

text \<open>
  The file operations of the migration in their order; each is durable once it has run (the code syncs the
  directory after the renames). The copy is first created, then filled.
\<close>

definition migration_steps :: "redb \<Rightarrow> redb \<Rightarrow> (db_files \<Rightarrow> db_files) list" where
  "migration_steps started finished =
     [\<lambda>f. f\<lparr>fl_temp := None\<rparr>,
      \<lambda>f. f\<lparr>fl_temp := Some (RedbFile empty_redb)\<rparr>,
      \<lambda>f. f\<lparr>fl_temp := Some (RedbFile started)\<rparr>,
      \<lambda>f. f\<lparr>fl_temp := Some (RedbFile finished)\<rparr>,
      \<lambda>f. f\<lparr>fl_migrated := None\<rparr>,
      \<lambda>f. f\<lparr>fl_migrated := fl_path f, fl_path := None\<rparr>,
      \<lambda>f. f\<lparr>fl_path := fl_temp f, fl_temp := None\<rparr>]"

definition db_store_open ::
  "store_env \<Rightarrow> (nat \<Rightarrow> string + bytes) \<Rightarrow> string + bytes \<Rightarrow> string + bytes \<Rightarrow> bytes \<Rightarrow> db_files
     \<Rightarrow> daemon_error + plain_db \<times> db_files" where
  "db_store_open env random meta_random meta_random' master_secret f =
     (let f = recover_incomplete_migration f in
      if is_legacy_db_file f
      then case fl_path f of
             Some (RawFile bs) \<Rightarrow>
               bindR (read_legacy_db env bs master_secret) (\<lambda>legacy.
               bindR (ensure_meta_record env (db_subkeys_derive env master_secret) meta_random empty_redb) (\<lambda>started.
               bindR (migrate_legacy_db env random meta_random master_secret legacy) (\<lambda>finished.
               open_redb env meta_random' master_secret
                 (recover_incomplete_migration (fold (\<lambda>s. s) (migration_steps started finished) f)))))
           | _ \<Rightarrow> open_redb env meta_random' master_secret f
      else open_redb env meta_random' master_secret f)"

end
