(* ===== verification/Daemon_State.thy ===== *)
theory Daemon_State
  imports Daemon_Db
begin

text \<open>
  The daemon's state and the operations on it (\<open>state.rs\<close>, with the bindings and small helpers of
  \<open>helpers.rs\<close>). A method that takes the lock on \<open>Inner\<close> is a definition over the whole daemon state;
  its writes are a list of mutations that it hands to the writer's queue after it has released the lock,
  so each such method has a \<open>_locked\<close> part and an enqueueing part. What the daemon asks of its peer and of
  the network is a parameter, the record \<open>peer_env\<close> of \<open>Daemon_Tasks\<close>.
\<close>

section \<open>State\<close>

record daemon_config =
  cf_role :: role
  cf_control_addr :: string
  cf_peer_addr :: string
  cf_peer_url :: "string option"
  cf_mpc_port :: u16
  cf_max_ram_bytes :: u64
  cf_workers :: u32
  cf_precompute :: u64

record job_record =
  jb_channel_index :: u64
  jb_kind :: string
  jb_state :: string
  jb_planned_checked_units :: u64

record inner =
  in_cfg :: daemon_config
  in_master_secret :: bytes
  in_cookie :: string
  in_db :: plain_db
  in_active_jobs :: "(string, job_record) bmap"
  in_next_job_id :: u64

record peer_frontier_config =
  pf_channel_enabled :: bool
  pf_precompute :: u64
  pf_workers :: u32
  pf_effective_workers :: u32
  pf_ssp_target :: u32
  pf_delta_lifetime_checked_units_cap :: u64

record resource_model_t =
  rm_configured_workers :: u32
  rm_effective_workers :: u32
  rm_ram_limited_workers_raw :: u32
  rm_ram_overcommit_warning :: bool
  rm_baseline_daemon_rss_bytes :: u64
  rm_current_rss_bytes :: u64
  rm_idle_session_rss_estimate_bytes :: u64
  rm_one_h_worker_peak_rss_estimate_bytes :: u64
  rm_live_session_count :: u64
  rm_reserved_ram_bytes :: u64

record precompute_job =
  pj_job_id :: string
  pj_planned_checked_units :: u64

datatype precompute_start = AlreadyStored | Run precompute_job

record incoming_precompute_session =
  ip_delta :: block
  ip_ssp :: nat
  ip_share :: value32

datatype reveal_request_key =
  RevealRequestKey (rk_channel_index: u64) (rk_requested_index: u64) (rk_expected_next_index: u64) (rk_allow_seed_reveal: bool)

record grpc_job_descriptor =
  gd_job_id :: string
  gd_channel_index :: u64
  gd_target_index :: u64
  gd_ssp :: u32
  gd_ssp_target :: u32
  gd_delta_lifetime_checked_units_cap :: u64
  gd_digest :: bytes

record 's pending_grpc_job =
  pg_descriptor :: grpc_job_descriptor
  pg_main :: "'s option"
  pg_sibling :: "'s option"

text \<open>
  The daemon as its tasks share it. Sessions are named by the number of the task that serves them, an
  outgoing one with a flag telling whether that task has ended (\<open>tx.is_closed()\<close>); a pending reveal is
  named by the one-shot channel its caller waits on; byte streams are of any type \<open>'s\<close>.
\<close>

record 's daemon =
  dm_inner :: inner
  dm_queue :: "write_op list"
  dm_grpc_jobs :: "(string, 's pending_grpc_job) bmap"
  dm_pending_reveals :: "reveal_request_key \<Rightarrow> nat option"
  dm_reveal_answers :: "(nat \<times> (daemon_error + value32)) list" \<comment> \<open>what was sent on the one-shot channels\<close>
  dm_scheduled :: "u64 set"
  dm_full_reconcile_after :: "u64 \<Rightarrow> nat option"
  dm_precompute_sessions :: "(u64, nat \<times> bool) bmap"
  dm_incoming_sessions :: "(u64, nat) bmap"
  dm_aborted_tasks :: "nat set"
  dm_peer_channels :: "nat option" \<comment> \<open>how many peer connections there are, when a peer is configured\<close>

section \<open>Methods\<close>

text \<open>A method of the daemon: the state is kept also when it fails.\<close>

type_synonym ('s, 'a) act = "'s daemon \<Rightarrow> (daemon_error + 'a) \<times> 's daemon"

definition act_return :: "'a \<Rightarrow> ('s, 'a) act" where
  "act_return x d = (Inr x, d)"

definition act_fail :: "daemon_error \<Rightarrow> ('s, 'a) act" where
  "act_fail e d = (Inl e, d)"

definition act_bind :: "('s, 'a) act \<Rightarrow> ('a \<Rightarrow> ('s, 'b) act) \<Rightarrow> ('s, 'b) act" where
  "act_bind m k d = (case m d of (Inl e, d) \<Rightarrow> (Inl e, d) | (Inr x, d) \<Rightarrow> k x d)"

definition act_lift :: "daemon_error + 'a \<Rightarrow> ('s, 'a) act" where
  "act_lift r d = (r, d)"

definition act_inner :: "(inner \<Rightarrow> daemon_error + 'a) \<Rightarrow> ('s, 'a) act" where
  \<comment> \<open>a method that only reads \<open>Inner\<close>\<close>
  "act_inner f d = (f (dm_inner d), d)"

definition locked :: "(inner \<Rightarrow> daemon_error + 'a \<times> inner) \<Rightarrow> ('s, 'a) act" where
  \<comment> \<open>a method that changes \<open>Inner\<close> under its lock\<close>
  "locked f d = (case f (dm_inner d) of Inl e \<Rightarrow> (Inl e, d) | Inr (x, i) \<Rightarrow> (Inr x, d\<lparr>dm_inner := i\<rparr>))"

definition enqueue :: "mutation list \<Rightarrow> db_durability \<Rightarrow> ('s, unit) act" where
  \<comment> \<open>\<open>self.db_writer.write_batch(..).await?\<close>; the writer lives as long as the daemon\<close>
  "enqueue mutations durability d = (Inr (), d\<lparr>dm_queue := write_batch mutations durability (dm_queue d)\<rparr>)"

section \<open>Bindings and keys\<close>

definition public_binding :: "(bytes \<Rightarrow> bytes) \<Rightarrow> u64 \<Rightarrow> u64 \<Rightarrow> u32 \<Rightarrow> u64 \<Rightarrow> bytes" where
  "public_binding sha256 channel_index m ssp_target cap =
     sha256 (ascii ''shachain2pc frontier public binding v1'' @ le_bytes 8 channel_index @ le_bytes 8 m @
       le_bytes 4 ssp_target @ le_bytes 8 cap @ le_bytes 4 PROTOCOL_VERSION)"

definition binding_pair :: "(bytes \<Rightarrow> bytes) \<Rightarrow> inner \<Rightarrow> u64 \<Rightarrow> u64 \<Rightarrow> (bytes \<times> bytes) option" where
  \<comment> \<open>\<open>None\<close> is the panic of \<open>expect("channel exists for binding")\<close>\<close>
  "binding_pair sha256 i channel_index m =
     map_option (\<lambda>channel.
       let public = public_binding sha256 channel_index m (ch_ssp_target channel) (ch_delta_lifetime_checked_units_cap channel)
       in (public, sha256 (ascii ''shachain2pc frontier local binding v1'' @ public @ [party_id (cf_role (in_cfg i))])))
       (bm_get (db_channels (in_db i)) (channel_key channel_index))"

definition binding_current :: "(bytes \<Rightarrow> bytes) \<Rightarrow> inner \<Rightarrow> u64 \<Rightarrow> u64 \<Rightarrow> wire_record \<Rightarrow> bool" where
  \<comment> \<open>the test the methods make on a stored node\<close>
  "binding_current sha256 i channel_index m r =
     (case binding_pair sha256 i channel_index m of None \<Rightarrow> False
      | Some (public, local) \<Rightarrow> wr_public_binding_hex r = to_hex public \<and> wr_local_binding_hex r = to_hex local)"

definition job_digest :: "(bytes \<Rightarrow> bytes) \<Rightarrow> u64 \<Rightarrow> string \<Rightarrow> u64 \<Rightarrow> u64 \<Rightarrow> u32 \<Rightarrow> bytes" where
  "job_digest sha256 channel_index kind parent_mask child_mask ssp =
     sha256 (ascii ''shachain2pc daemon one-H job v1'' @ le_bytes 8 channel_index @ ascii kind @
       le_bytes 8 parent_mask @ le_bytes 8 child_mask @ le_bytes 4 ssp @ le_bytes 4 PROTOCOL_VERSION)"

definition info_with_u64 :: "bytes \<Rightarrow> u64 \<Rightarrow> bytes" where
  "info_with_u64 prefix v = prefix @ le_bytes 8 v"

definition channel_seed_share :: "(bytes \<Rightarrow> bytes \<Rightarrow> bytes) \<Rightarrow> bytes \<Rightarrow> u64 \<Rightarrow> value32" where
  "channel_seed_share hmac master_secret channel_index =
     hkdf_expand hmac master_secret [] (info_with_u64 (ascii ''shachain2pc channel seed share v1'') channel_index) 32"

definition channel_delta :: "(bytes \<Rightarrow> bytes \<Rightarrow> bytes) \<Rightarrow> bytes \<Rightarrow> u64 \<Rightarrow> role \<Rightarrow> block" where
  "channel_delta hmac master_secret channel_index role =
     normalize_ag2pc_delta role (block_from_bytes
       (hkdf_expand hmac master_secret []
         (info_with_u64 (ascii ''shachain2pc channel delta v1'') channel_index @ [party_id role]) 16))"

definition leading_zeros :: "u64 \<Rightarrow> nat" where
  "leading_zeros w = length (takeWhile (\<lambda>b. \<not> bit w b) (rev [0..<64]))"

definition ssp_effective :: "u32 \<Rightarrow> u64 \<Rightarrow> nat" where
  \<comment> \<open>the \<open>u32\<close> addition is unchecked\<close>
  "ssp_effective ssp_target cap =
     (let cap_log = (if cap \<le> 1 then 0 else of_nat (64 - leading_zeros (cap - 1)))
      in unat (ssp_target + cap_log))"

definition daemon_set_bits_desc :: "u64 \<Rightarrow> nat list" where
  "daemon_set_bits_desc v = filter (\<lambda>b. drop_bit b v AND 1 \<noteq> 0) (rev [0..<INDEX_BITS])"

definition daemon_derive_from_known :: "(bytes \<Rightarrow> bytes) \<Rightarrow> u64 \<Rightarrow> value32 \<Rightarrow> u64 \<Rightarrow> value32 option" where
  "daemon_derive_from_known sha256 from_index secret to_index =
     (if from_index AND NOT to_index \<noteq> 0 then None
      else let missing = to_index AND NOT from_index in
        if from_index \<noteq> 0 \<and> drop_bit (trailing_zeros from_index) missing \<noteq> 0 then None
        else Some (fold (\<lambda>b p. sha256 (p[b div 8 := p ! (b div 8) XOR push_bit (b mod 8) 1]))
               (daemon_set_bits_desc missing) secret))"

definition reference_for_channel ::
  "(bytes \<Rightarrow> bytes) \<Rightarrow> (bytes \<Rightarrow> bytes \<Rightarrow> bytes) \<Rightarrow> bytes \<Rightarrow> bytes \<Rightarrow> u64 \<Rightarrow> index48 \<Rightarrow> value32" where
  "reference_for_channel sha256 hmac master_a master_b channel_index index =
     generate_from_seed sha256
       (value_xor (channel_seed_share hmac master_a channel_index) (channel_seed_share hmac master_b channel_index))
       (index_get index)"

definition daemon_id :: "(bytes \<Rightarrow> bytes) \<Rightarrow> bytes \<Rightarrow> string" where
  "daemon_id sha256 master_secret = to_hex (sha256 (ascii ''shachain2pc daemon id v1'' @ master_secret))"

definition has_prefix :: "string \<Rightarrow> string \<Rightarrow> bool" where
  "has_prefix pat s \<longleftrightarrow> take (length pat) s = pat"

fun contains :: "string \<Rightarrow> string \<Rightarrow> bool" where
  \<comment> \<open>\<open>s.contains(pat)\<close>\<close>
  "contains pat [] \<longleftrightarrow> pat = []"
| "contains pat (c # s) \<longleftrightarrow> has_prefix pat (c # s) \<or> contains pat s"

definition is_cached_reveal_cache_miss :: "daemon_error \<Rightarrow> bool" where
  "is_cached_reveal_cache_miss err =
     (case err of
        DNotFound msg \<Rightarrow> contains ''cached reveal node is not stored'' msg
      | DRefused msg \<Rightarrow> contains ''cached reveal node is not stored'' msg
          \<or> contains ''timed out waiting for peer cached reveal'' msg
      | DTonicStatus code msg _ \<Rightarrow> (code = NotFoundCode \<or> code = InvalidArgument)
          \<and> contains ''cached reveal node is not stored'' msg
      | _ \<Rightarrow> False)"

definition parse_mac_digest :: "bytes \<Rightarrow> string \<Rightarrow> daemon_error + bytes" where
  "parse_mac_digest bs ctx =
     (if length bs \<noteq> HASH_DIGEST_BYTES
      then Inl (DParse (ctx @ '' MAC digest must be '' @ dec_string HASH_DIGEST_BYTES @ '' bytes''))
      else Inr bs)"

section \<open>Resources and peers\<close>

definition resource_model_of :: "inner \<Rightarrow> u64 \<Rightarrow> resource_model_t" where
  "resource_model_of i live_session_count =
     (let configured_workers = max (cf_workers (in_cfg i)) 1 in
      \<lparr>rm_configured_workers = configured_workers, rm_effective_workers = configured_workers,
       rm_ram_limited_workers_raw = configured_workers, rm_ram_overcommit_warning = False,
       rm_baseline_daemon_rss_bytes = 0, rm_current_rss_bytes = 0, rm_idle_session_rss_estimate_bytes = 0,
       rm_one_h_worker_peak_rss_estimate_bytes = 0, rm_live_session_count = live_session_count,
       rm_reserved_ram_bytes = 0\<rparr>)"

definition resource_model :: "'s daemon \<Rightarrow> resource_model_t" where
  "resource_model d =
     (let outgoing = word_of_nat (length (dm_precompute_sessions d));
          incoming = word_of_nat (length (dm_incoming_sessions d))
      in resource_model_of (dm_inner d) (sat_add outgoing incoming))"

definition has_peer_channels :: "'s daemon \<Rightarrow> bool" where
  "has_peer_channels d = (case dm_peer_channels d of None \<Rightarrow> False | Some n \<Rightarrow> n \<noteq> 0)"

definition peer_channel_for_optional :: "u64 \<Rightarrow> 's daemon \<Rightarrow> nat option" where
  "peer_channel_for_optional channel_index d =
     (case dm_peer_channels d of None \<Rightarrow> None
      | Some n \<Rightarrow> if n = 0 then None else Some (unat channel_index mod n))"

definition peer_channel_for :: "u64 \<Rightarrow> ('s, nat) act" where
  "peer_channel_for channel_index d =
     (okOr (DRefused ''peer URL is not configured'') (peer_channel_for_optional channel_index d), d)"

definition get_channel :: "inner \<Rightarrow> u64 \<Rightarrow> daemon_error + channel_record" where
  \<comment> \<open>\<open>inner.db.channels.get(..).ok_or_else(..)?\<close>\<close>
  "get_channel i channel_index =
     okOr (DNotFound ''channel is not enabled'') (bm_get (db_channels (in_db i)) (channel_key channel_index))"

definition get_enabled_channel :: "inner \<Rightarrow> u64 \<Rightarrow> daemon_error + channel_record" where
  \<comment> \<open>the same, then the check that the channel is enabled\<close>
  "get_enabled_channel i channel_index =
     bindR (get_channel i channel_index) (\<lambda>channel.
     if \<not> ch_enabled channel then Inl (DRefused ''channel is disabled'') else Inr channel)"

definition set_channel :: "u64 \<Rightarrow> channel_record \<Rightarrow> inner \<Rightarrow> inner" where
  "set_channel channel_index channel i = i\<lparr>in_db := put_channel channel_index channel (in_db i)\<rparr>"

definition security_params_differ :: "peer_frontier_config \<Rightarrow> channel_record \<Rightarrow> bool" where
  "security_params_differ peer channel \<longleftrightarrow>
     pf_ssp_target peer \<noteq> ch_ssp_target channel
     \<or> pf_delta_lifetime_checked_units_cap peer \<noteq> ch_delta_lifetime_checked_units_cap channel"

definition validate_peer_security_params :: "u64 \<Rightarrow> peer_frontier_config \<Rightarrow> ('s, unit) act" where
  "validate_peer_security_params channel_index peer = act_inner (\<lambda>i.
     bindR (get_channel i channel_index) (\<lambda>channel.
     if security_params_differ peer channel
     then Inl (DRefused ''peer channel security parameters do not match'') else Inr ()))"

definition effective_precompute_target :: "u64 \<Rightarrow> peer_frontier_config \<Rightarrow> ('s, u64) act" where
  "effective_precompute_target channel_index peer =
     act_bind (validate_peer_security_params channel_index peer) (\<lambda>_. act_inner (\<lambda>i.
     bindR (get_channel i channel_index) (\<lambda>channel.
     Inr (min (min (ch_precompute_target channel) (cf_precompute (in_cfg i))) (pf_precompute peer)))))"

definition present :: "(bytes \<Rightarrow> bytes) \<Rightarrow> inner \<Rightarrow> u64 \<Rightarrow> channel_record \<Rightarrow> u64 \<Rightarrow> bool" where
  "present sha256 i channel_index channel index =
     (case bm_get (ch_frontier_nodes channel) (node_key index) of None \<Rightarrow> False
      | Some r \<Rightarrow> binding_current sha256 i channel_index index r)"

fun first_missing :: "(u64 \<Rightarrow> bool) \<Rightarrow> nat \<Rightarrow> u64 \<Rightarrow> u64 option" where
  \<comment> \<open>\<open>for index in lo..=hi\<close> with \<open>n\<close> indices left\<close>
  "first_missing P 0 lo = None"
| "first_missing P (Suc n) lo = (if \<not> P lo then Some lo else first_missing P n (lo + 1))"

definition next_missing_frontier :: "(bytes \<Rightarrow> bytes) \<Rightarrow> u64 \<Rightarrow> u64 \<Rightarrow> ('s, u64 option) act" where
  "next_missing_frontier sha256 channel_index effective_precompute = act_inner (\<lambda>i.
     case bm_get (db_channels (in_db i)) (channel_key channel_index) of None \<Rightarrow> Inr None
     | Some channel \<Rightarrow>
         Inr (first_missing (present sha256 i channel_index channel) (unat (min effective_precompute MAX_INDEX)) 1))"

section \<open>The scheduler\<close>

definition active_channels :: "inner \<Rightarrow> u64 set" where
  "active_channels i = jb_channel_index ` set (bm_values (in_active_jobs i))"

definition candidate ::
  "(bytes \<Rightarrow> bytes) \<Rightarrow> nat \<Rightarrow> 's daemon \<Rightarrow> string \<times> channel_record \<Rightarrow> (u64 \<times> bool) option" where
  \<comment> \<open>the closure of \<open>scheduler_candidates\<close>: the channel and whether its local frontier is full\<close>
  "candidate sha256 now d = (\<lambda>(key, channel).
     case parse_u64 key of None \<Rightarrow> None
     | Some channel_index \<Rightarrow>
         let i = dm_inner d; local_precompute = min (ch_precompute_target channel) (cf_precompute (in_cfg i)) in
         if \<not> ch_enabled channel \<or> ch_precompute_target channel = 0 then None
         else if local_precompute = 0 then None
         else let has_missing_frontier =
                first_missing (present sha256 i channel_index channel) (unat (min local_precompute MAX_INDEX)) 1 \<noteq> None in
           if \<not> has_missing_frontier
              \<and> (case dm_full_reconcile_after d channel_index of None \<Rightarrow> False | Some deadline \<Rightarrow> deadline > now) then None
           else if channel_index \<in> active_channels i \<or> channel_index \<in> dm_scheduled d then None
           else Some (channel_index, \<not> has_missing_frontier))"

definition scheduler_candidates ::
  "(bytes \<Rightarrow> bytes) \<Rightarrow> nat \<Rightarrow> nat \<Rightarrow> 's daemon \<Rightarrow> u64 list \<times> 's daemon" where
  \<comment> \<open>\<open>interval\<close> is \<open>FULL_FRONTIER_RECONCILE_INTERVAL\<close> in the unit of the clock\<close>
  "scheduler_candidates sha256 interval now d =
     (let i = dm_inner d in
      if cf_workers (in_cfg i) = 0 \<or> cf_precompute (in_cfg i) = 0 then ([], d)
      else let in_flight = card (active_channels i \<union> dm_scheduled d);
               effective_workers = unat (rm_effective_workers (resource_model d)) in
        if in_flight \<ge> effective_workers then ([], d)
        else let candidates = take (effective_workers - in_flight)
                   (List.map_filter (candidate sha256 now d) (db_channels (in_db i)))
          in (map fst candidates,
              d\<lparr>dm_scheduled := dm_scheduled d \<union> set (map fst candidates),
                dm_full_reconcile_after := (\<lambda>c. if (c, True) \<in> set candidates then Some (now + interval)
                                               else dm_full_reconcile_after d c)\<rparr>))"

section \<open>Sessions\<close>

definition drop_precompute_session :: "u64 \<Rightarrow> 's daemon \<Rightarrow> 's daemon" where
  "drop_precompute_session channel_index d =
     d\<lparr>dm_scheduled := dm_scheduled d - {channel_index},
       dm_full_reconcile_after := (dm_full_reconcile_after d)(channel_index := None),
       dm_precompute_sessions := bm_remove channel_index (dm_precompute_sessions d),
       dm_incoming_sessions := bm_remove channel_index (dm_incoming_sessions d),
       dm_aborted_tasks := dm_aborted_tasks d \<union> set_option (bm_get (dm_incoming_sessions d) channel_index)\<rparr>"

definition unregister_incoming_precompute_session :: "u64 \<Rightarrow> 's daemon \<Rightarrow> 's daemon" where
  "unregister_incoming_precompute_session channel_index d =
     d\<lparr>dm_incoming_sessions := bm_remove channel_index (dm_incoming_sessions d)\<rparr>"

definition open_session_handle :: "u64 \<Rightarrow> ('s, nat option) act" where
  \<comment> \<open>the first block of \<open>precompute_session_handle\<close>: the live session of the channel, if any\<close>
  "open_session_handle channel_index d =
     (case bm_get (dm_precompute_sessions d) channel_index of
        Some (task, False) \<Rightarrow> (Inr (Some task), d)
      | _ \<Rightarrow> (Inr None, d\<lparr>dm_precompute_sessions := bm_remove channel_index (dm_precompute_sessions d)\<rparr>))"

definition session_descriptor_locked ::
  "(bytes \<Rightarrow> bytes) \<Rightarrow> u64 \<Rightarrow> peer_frontier_config \<Rightarrow> inner \<Rightarrow> daemon_error + grpc_job_descriptor \<times> inner" where
  \<comment> \<open>the second block: the checks and the descriptor of a new session\<close>
  "session_descriptor_locked sha256 channel_index peer i =
     bindR (get_enabled_channel i channel_index) (\<lambda>channel.
     if security_params_differ peer channel
     then Inl (DRefused ''peer channel security parameters do not match'')
     else let ssp_target = ch_ssp_target channel; cap = ch_delta_lifetime_checked_units_cap channel;
              i = i\<lparr>in_next_job_id := sat_add (in_next_job_id i) 1\<rparr>;
              ssp = of_nat (ssp_effective ssp_target cap)
          in Inr (\<lparr>gd_job_id = ''precompute-session-'' @ dec_string (unat channel_index) @ ''-'' @
                     dec_string (unat (in_next_job_id i)),
                   gd_channel_index = channel_index, gd_target_index = 0, gd_ssp = ssp, gd_ssp_target = ssp_target,
                   gd_delta_lifetime_checked_units_cap = cap,
                   gd_digest = job_digest sha256 channel_index ''precompute-session'' 0 0 ssp\<rparr>, i))"

definition session_descriptor ::
  "(bytes \<Rightarrow> bytes) \<Rightarrow> u64 \<Rightarrow> peer_frontier_config \<Rightarrow> ('s, grpc_job_descriptor) act" where
  "session_descriptor sha256 channel_index peer = locked (session_descriptor_locked sha256 channel_index peer)"

definition register_session :: "u64 \<Rightarrow> nat \<Rightarrow> 's daemon \<Rightarrow> 's daemon" where
  "register_session channel_index task d =
     d\<lparr>dm_precompute_sessions := bm_insert channel_index (task, False) (dm_precompute_sessions d)\<rparr>"

definition register_incoming_job_stream ::
  "grpc_job_descriptor \<Rightarrow> u32 \<Rightarrow> 's \<Rightarrow> nat \<Rightarrow> 's daemon
     \<Rightarrow> (status_code \<times> string + (grpc_job_descriptor \<times> 's \<times> 's) option) \<times> 's daemon" where
  \<comment> \<open>\<open>task\<close> is the task started when both streams are there; its arguments are the result\<close>
  "register_incoming_job_stream descriptor channel stream task d =
     (let entry = (case bm_get (dm_grpc_jobs d) (gd_job_id descriptor) of Some e \<Rightarrow> e
                   | None \<Rightarrow> \<lparr>pg_descriptor = descriptor, pg_main = None, pg_sibling = None\<rparr>);
          d = d\<lparr>dm_grpc_jobs := bm_insert (gd_job_id descriptor) entry (dm_grpc_jobs d)\<rparr>
      in if pg_descriptor entry \<noteq> descriptor then (Inl (InvalidArgument, ''JobStream descriptor mismatch''), d)
         else if channel \<noteq> 1 \<and> channel \<noteq> 2 then (Inl (InvalidArgument, ''JobStream channel must be 1 or 2''), d)
         else if (if channel = 1 then pg_main entry else pg_sibling entry) \<noteq> None
         then (Inl (AlreadyExists, ''duplicate JobStream channel''), d)
         else let entry = (if channel = 1 then entry\<lparr>pg_main := Some stream\<rparr> else entry\<lparr>pg_sibling := Some stream\<rparr>) in
           case (pg_main entry, pg_sibling entry) of
             (Some main, Some sibling) \<Rightarrow>
               let c = gd_channel_index (pg_descriptor entry) in
               (Inr (Some (pg_descriptor entry, main, sibling)),
                d\<lparr>dm_grpc_jobs := bm_remove (gd_job_id descriptor) (dm_grpc_jobs d),
                  dm_incoming_sessions := bm_insert c task (dm_incoming_sessions d),
                  dm_aborted_tasks := dm_aborted_tasks d \<union> set_option (bm_get (dm_incoming_sessions d) c)\<rparr>)
           | _ \<Rightarrow> (Inr None, d\<lparr>dm_grpc_jobs := bm_insert (gd_job_id descriptor) entry (dm_grpc_jobs d)\<rparr>))"

section \<open>Jobs\<close>

definition job_on_channel :: "inner \<Rightarrow> u64 \<Rightarrow> bool" where
  "job_on_channel i channel_index \<longleftrightarrow> list_ex (\<lambda>job. jb_channel_index job = channel_index) (bm_values (in_active_jobs i))"

definition reserved_units :: "inner \<Rightarrow> u64 \<Rightarrow> u64" where
  "reserved_units i channel_index =
     sum_list (map jb_planned_checked_units
       (filter (\<lambda>job. jb_channel_index job = channel_index) (bm_values (in_active_jobs i))))"

definition units_used :: "inner \<Rightarrow> u64 \<Rightarrow> channel_record \<Rightarrow> u64 \<Rightarrow> u64" where
  \<comment> \<open>the units a channel has used, reserved and asks for\<close>
  "units_used i channel_index channel planned =
     sat_add (sat_add (ch_estimated_checked_units channel) (reserved_units i channel_index)) planned"

definition start_job :: "string \<Rightarrow> u64 \<Rightarrow> index48 \<Rightarrow> u64 \<Rightarrow> channel_record \<Rightarrow> inner \<Rightarrow> inner" where
  \<comment> \<open>the end of both \<open>begin_\<close> methods: count the attempt and enter the job\<close>
  "start_job job_id channel_index index planned channel i =
     (let i = set_channel channel_index
                (channel\<lparr>ch_attempted_checked_units := sat_add (ch_attempted_checked_units channel) planned\<rparr>) i
      in i\<lparr>in_active_jobs := bm_insert job_id
             \<lparr>jb_channel_index = channel_index, jb_kind = ''precompute'',
              jb_state = ''grpc target='' @ dec_string (unat (index_get index)), jb_planned_checked_units = planned\<rparr>
             (in_active_jobs i)\<rparr>)"

definition channel_writes :: "u64 \<Rightarrow> inner \<Rightarrow> mutation list" where
  \<comment> \<open>\<open>vec![upsert_channel_mutation(channel_index, channel)]\<close> on the updated channel\<close>
  "channel_writes channel_index i =
     (case bm_get (db_channels (in_db i)) (channel_key channel_index) of None \<Rightarrow> []
      | Some channel \<Rightarrow> [upsert_channel_mutation channel_index channel])"

definition cap_message :: "u64 \<Rightarrow> u64 \<Rightarrow> u64 \<Rightarrow> u64 \<Rightarrow> string" where
  "cap_message estimated reserved requested cap =
     ''precompute would exceed Delta lifetime checked-unit cap: estimated='' @ dec_string (unat estimated) @
     '' reserved='' @ dec_string (unat reserved) @ '' requested='' @ dec_string (unat requested) @
     '' cap='' @ dec_string (unat cap)"

definition begin_precompute_locked ::
  "(bytes \<Rightarrow> bytes) \<Rightarrow> u32 \<Rightarrow> u64 \<Rightarrow> index48 \<Rightarrow> peer_frontier_config \<Rightarrow> u64 \<Rightarrow> inner
     \<Rightarrow> daemon_error + (precompute_start \<times> mutation list) \<times> inner" where
  "begin_precompute_locked sha256 effective_workers channel_index index peer planned i =
     bindR (get_enabled_channel i channel_index) (\<lambda>channel.
     if present sha256 i channel_index channel (index_get index) then Inr ((AlreadyStored, []), i)
     else if job_on_channel i channel_index then Inl (DRefused ''channel already has an active precompute job'')
     else let worker_count = min effective_workers (min (pf_effective_workers peer) (max (pf_workers peer) 1)) in
       if worker_count = 0 then Inl (DRefused ''no shared precompute worker is available'')
       else if length (in_active_jobs i) \<ge> unat worker_count then Inl (DRefused ''all shared precompute workers are busy'')
       else if units_used i channel_index channel planned > ch_delta_lifetime_checked_units_cap channel
       then Inl (DRefused (cap_message (ch_estimated_checked_units channel) (reserved_units i channel_index)
                   planned (ch_delta_lifetime_checked_units_cap channel)))
       else let i = i\<lparr>in_next_job_id := sat_add (in_next_job_id i) 1\<rparr>;
                job_id = ''precompute-'' @ dec_string (unat channel_index) @ ''-'' @ dec_string (unat (in_next_job_id i));
                i = start_job job_id channel_index index planned channel i
         in Inr ((Run \<lparr>pj_job_id = job_id, pj_planned_checked_units = planned\<rparr>, channel_writes channel_index i), i))"

definition begin_precompute_jobstream ::
  "(bytes \<Rightarrow> bytes) \<Rightarrow> u64 \<Rightarrow> index48 \<Rightarrow> peer_frontier_config \<Rightarrow> u64 \<Rightarrow> ('s, precompute_start) act" where
  "begin_precompute_jobstream sha256 channel_index index peer planned d =
     act_bind (locked (begin_precompute_locked sha256 (rm_effective_workers (resource_model d)) channel_index index peer planned))
       (\<lambda>(start, writes). act_bind (enqueue writes Eventual) (\<lambda>_. act_return start)) d"

definition record_failed_locked :: "u64 \<Rightarrow> u64 \<Rightarrow> inner \<Rightarrow> daemon_error + mutation list \<times> inner" where
  "record_failed_locked channel_index planned i =
     bindR (get_channel i channel_index) (\<lambda>channel.
     let i = set_channel channel_index
               (channel\<lparr>ch_attempted_checked_units := sat_add (ch_attempted_checked_units channel) planned,
                        ch_failed_precompute_jobs := sat_add (ch_failed_precompute_jobs channel) 1\<rparr>) i
     in Inr (channel_writes channel_index i, i))"

definition record_failed_precompute_attempt :: "u64 \<Rightarrow> u64 \<Rightarrow> ('s, unit) act" where
  "record_failed_precompute_attempt channel_index planned =
     act_bind (locked (record_failed_locked channel_index planned)) (\<lambda>writes. enqueue writes Eventual)"

definition begin_incoming_precompute_session ::
  "(bytes \<Rightarrow> bytes) \<Rightarrow> (bytes \<Rightarrow> bytes \<Rightarrow> bytes) \<Rightarrow> grpc_job_descriptor \<Rightarrow> ('s, incoming_precompute_session) act" where
  "begin_incoming_precompute_session sha256 hmac descriptor = act_inner (\<lambda>i.
     bindR (get_enabled_channel i (gd_channel_index descriptor)) (\<lambda>channel.
     if gd_ssp_target descriptor \<noteq> ch_ssp_target channel
        \<or> gd_delta_lifetime_checked_units_cap descriptor \<noteq> ch_delta_lifetime_checked_units_cap channel
     then Inl (DRefused ''incoming JobStream security parameters do not match'')
     else let ssp = ssp_effective (ch_ssp_target channel) (ch_delta_lifetime_checked_units_cap channel) in
       if gd_ssp descriptor \<noteq> of_nat ssp
       then Inl (DRefused ''incoming JobStream uses the wrong security parameter'')
       else if gd_digest descriptor \<noteq> job_digest sha256 (gd_channel_index descriptor) ''precompute-session'' 0 0 (gd_ssp descriptor)
       then Inl (DRefused ''incoming JobStream digest does not match local job'')
       else if gd_target_index descriptor \<noteq> 0
       then Inl (DRefused ''incoming precompute session must use target index 0'')
       else Inr \<lparr>ip_delta = channel_delta hmac (in_master_secret i) (gd_channel_index descriptor) (cf_role (in_cfg i)),
                 ip_ssp = ssp, ip_share = channel_seed_share hmac (in_master_secret i) (gd_channel_index descriptor)\<rparr>))"

definition begin_incoming_locked ::
  "u32 \<Rightarrow> grpc_job_descriptor \<Rightarrow> index48 \<Rightarrow> u64 \<Rightarrow> inner \<Rightarrow> daemon_error + (string \<times> mutation list) \<times> inner" where
  "begin_incoming_locked effective_workers descriptor index planned i =
     (let channel_index = gd_channel_index descriptor in
      bindR (get_enabled_channel i channel_index) (\<lambda>channel.
      if gd_ssp_target descriptor \<noteq> ch_ssp_target channel
         \<or> gd_delta_lifetime_checked_units_cap descriptor \<noteq> ch_delta_lifetime_checked_units_cap channel
      then Inl (DRefused ''incoming JobStream security parameters do not match'')
      else if length (in_active_jobs i) \<ge> unat effective_workers
      then Inl (DRefused ''all local precompute workers are busy'')
      else if job_on_channel i channel_index then Inl (DRefused ''channel already has an active precompute job'')
      else if units_used i channel_index channel planned > ch_delta_lifetime_checked_units_cap channel
      then Inl (DRefused ''incoming JobStream would exceed Delta lifetime checked-unit cap'')
      else let job_id = gd_job_id descriptor @ ''-target-'' @ dec_string (unat (index_get index));
               i = start_job job_id channel_index index planned channel i
        in Inr ((job_id, channel_writes channel_index i), i)))"

definition begin_incoming_precompute_target ::
  "grpc_job_descriptor \<Rightarrow> index48 \<Rightarrow> u64 \<Rightarrow> ('s, string) act" where
  "begin_incoming_precompute_target descriptor index planned d =
     act_bind (locked (begin_incoming_locked (rm_effective_workers (resource_model d)) descriptor index planned))
       (\<lambda>(job_id, writes). act_bind (enqueue writes Eventual) (\<lambda>_. act_return job_id)) d"

definition finish_job_locked :: "string \<Rightarrow> bool \<Rightarrow> inner \<Rightarrow> mutation list \<times> inner" where
  "finish_job_locked job_id failed i =
     (case bm_get (in_active_jobs i) job_id of None \<Rightarrow> ([], i)
      | Some job \<Rightarrow>
          let i = i\<lparr>in_active_jobs := bm_remove job_id (in_active_jobs i)\<rparr> in
          if failed
          then case bm_get (db_channels (in_db i)) (channel_key (jb_channel_index job)) of None \<Rightarrow> ([], i)
               | Some channel \<Rightarrow>
                   let channel = channel\<lparr>ch_failed_precompute_jobs := sat_add (ch_failed_precompute_jobs channel) 1\<rparr>
                   in ([upsert_channel_mutation (jb_channel_index job) channel], set_channel (jb_channel_index job) channel i)
          else ([], i))"

definition finish_job :: "string \<Rightarrow> bool \<Rightarrow> ('s, unit) act" where
  "finish_job job_id failed =
     act_bind (locked (\<lambda>i. Inr (finish_job_locked job_id failed i))) (\<lambda>writes. enqueue writes Eventual)"

section \<open>Stored nodes\<close>

definition load_node :: "(bytes \<Rightarrow> bytes) \<Rightarrow> u64 \<Rightarrow> u64 \<Rightarrow> ('s, secure_wires option) act" where
  "load_node sha256 channel_index m = act_inner (\<lambda>i.
     case bm_get (db_channels (in_db i)) (channel_key channel_index) of None \<Rightarrow> Inr None
     | Some channel \<Rightarrow>
         case bm_get (ch_frontier_nodes channel) (node_key m) of None \<Rightarrow> Inr None
         | Some r \<Rightarrow>
             if \<not> binding_current sha256 i channel_index m r then Inr None
             else Inr (Some (to_secure_wires (wr_wires r))))"

definition new_wire_record :: "bytes \<times> bytes \<Rightarrow> secure_wires \<Rightarrow> wire_record" where
  "new_wire_record bindings wires =
     \<lparr>wr_public_binding_hex = to_hex (fst bindings), wr_local_binding_hex = to_hex (snd bindings),
      wr_wires = from_secure_wires wires\<rparr>"

definition store_node_locked ::
  "(bytes \<Rightarrow> bytes) \<Rightarrow> u64 \<Rightarrow> u64 \<Rightarrow> secure_wires \<Rightarrow> inner \<Rightarrow> daemon_error + mutation list \<times> inner" where
  "store_node_locked sha256 channel_index m wires i =
     bindR (okOr DPanic (binding_pair sha256 i channel_index m)) (\<lambda>bindings.
     bindR (get_channel i channel_index) (\<lambda>channel.
     let r = new_wire_record bindings wires in
     Inr ([upsert_frontier_mutation channel_index m r],
          set_channel channel_index (channel\<lparr>ch_frontier_nodes := bm_insert (node_key m) r (ch_frontier_nodes channel)\<rparr>) i)))"

definition store_node :: "(bytes \<Rightarrow> bytes) \<Rightarrow> u64 \<Rightarrow> u64 \<Rightarrow> secure_wires \<Rightarrow> ('s, unit) act" where
  "store_node sha256 channel_index m wires =
     act_bind (locked (store_node_locked sha256 channel_index m wires)) (\<lambda>writes. enqueue writes Eventual)"

definition store_precomputed_locked ::
  "(bytes \<Rightarrow> bytes) \<Rightarrow> u64 \<Rightarrow> string \<Rightarrow> u64 \<Rightarrow> u64 \<Rightarrow> secure_wires \<Rightarrow> inner \<Rightarrow> daemon_error + mutation list \<times> inner" where
  "store_precomputed_locked sha256 channel_index job_id planned target_mask wires i =
     bindR (okOr DPanic (binding_pair sha256 i channel_index target_mask)) (\<lambda>bindings.
     bindR (get_enabled_channel i channel_index) (\<lambda>channel.
     let r = new_wire_record bindings wires;
         channel = channel\<lparr>ch_frontier_nodes := bm_insert (node_key target_mask) r (ch_frontier_nodes channel)\<rparr>;
         channel = channel\<lparr>ch_estimated_checked_units := sat_add (ch_estimated_checked_units channel) planned\<rparr>;
         i = set_channel channel_index channel i;
         i = i\<lparr>in_active_jobs := bm_remove job_id (in_active_jobs i)\<rparr>
     in Inr ([upsert_frontier_mutation channel_index target_mask r, upsert_channel_mutation channel_index channel], i)))"

definition store_precomputed_target_wires_and_finish_job ::
  "(bytes \<Rightarrow> bytes) \<Rightarrow> u64 \<Rightarrow> string \<Rightarrow> u64 \<Rightarrow> u64 \<Rightarrow> secure_wires \<Rightarrow> ('s, u64) act" where
  "store_precomputed_target_wires_and_finish_job sha256 channel_index job_id planned target_mask wires =
     act_bind (locked (store_precomputed_locked sha256 channel_index job_id planned target_mask wires)) (\<lambda>writes.
     act_bind (enqueue writes Eventual) (\<lambda>_. act_return 1))"

definition reveal_node_context ::
  "(bytes \<Rightarrow> bytes) \<Rightarrow> (bytes \<Rightarrow> bytes \<Rightarrow> bytes) \<Rightarrow> u64 \<Rightarrow> u64 \<Rightarrow> ('s, block \<times> u32 \<times> u64 \<times> string) act" where
  "reveal_node_context sha256 hmac channel_index m = act_inner (\<lambda>i.
     bindR (get_enabled_channel i channel_index) (\<lambda>channel.
     bindR (okOr DPanic (binding_pair sha256 i channel_index m)) (\<lambda>(public, _).
     Inr (channel_delta hmac (in_master_secret i) channel_index (cf_role (in_cfg i)),
          ch_ssp_target channel, ch_delta_lifetime_checked_units_cap channel, to_hex public))))"

definition job_context :: "(bytes \<Rightarrow> bytes \<Rightarrow> bytes) \<Rightarrow> u64 \<Rightarrow> ('s, block \<times> nat) act" where
  \<comment> \<open>the security parameters of a job of its own; where the peer listens is part of the network\<close>
  "job_context hmac channel_index = act_inner (\<lambda>i.
     bindR (get_enabled_channel i channel_index) (\<lambda>channel.
     Inr (channel_delta hmac (in_master_secret i) channel_index (cf_role (in_cfg i)),
          ssp_effective (ch_ssp_target channel) (ch_delta_lifetime_checked_units_cap channel))))"

definition channel_share :: "(bytes \<Rightarrow> bytes \<Rightarrow> bytes) \<Rightarrow> u64 \<Rightarrow> ('s, value32) act" where
  "channel_share hmac channel_index = act_inner (\<lambda>i. Inr (channel_seed_share hmac (in_master_secret i) channel_index))"

section \<open>Known secrets\<close>

fun derive_known_from :: "(bytes \<Rightarrow> bytes) \<Rightarrow> (string \<times> string) list \<Rightarrow> u64 \<Rightarrow> daemon_error + value32 option" where
  \<comment> \<open>the loop of \<open>derive_known\<close>\<close>
  "derive_known_from sha256 [] requested = Inr None"
| "derive_known_from sha256 ((index_s, secret_hex) # rest) requested =
     (case parse_u64 index_s of None \<Rightarrow> derive_known_from sha256 rest requested
      | Some from_index \<Rightarrow>
          bindR (mapErr (\<lambda>e. DParse (show_parse_error e)) (value_from_hex secret_hex)) (\<lambda>secret.
          case daemon_derive_from_known sha256 from_index secret requested of
            Some out \<Rightarrow> Inr (Some out) | None \<Rightarrow> derive_known_from sha256 rest requested))"

definition derive_known :: "(bytes \<Rightarrow> bytes) \<Rightarrow> u64 \<Rightarrow> index48 \<Rightarrow> ('s, value32 option) act" where
  "derive_known sha256 channel_index requested = act_inner (\<lambda>i.
     case bm_get (db_channels (in_db i)) (channel_key channel_index) of None \<Rightarrow> Inr None
     | Some channel \<Rightarrow> derive_known_from sha256 (ch_known_secrets channel) (index_get requested))"

fun redundant_or_drops ::
  "(bytes \<Rightarrow> bytes) \<Rightarrow> u64 \<Rightarrow> value32 \<Rightarrow> (string \<times> string) list \<Rightarrow> string list \<Rightarrow> daemon_error + bool \<times> string list" where
  \<comment> \<open>the loop of \<open>store_known_secret\<close>: whether the secret is redundant, and the keys it makes redundant\<close>
  "redundant_or_drops sha256 index secret [] drop_keys = Inr (False, drop_keys)"
| "redundant_or_drops sha256 index secret ((stored_index_s, stored_secret_hex) # rest) drop_keys =
     (case parse_u64 stored_index_s of
        None \<Rightarrow> redundant_or_drops sha256 index secret rest (drop_keys @ [stored_index_s])
      | Some stored_index \<Rightarrow>
          bindR (mapErr (\<lambda>e. DParse (show_parse_error e)) (value_from_hex stored_secret_hex)) (\<lambda>stored_secret.
          if daemon_derive_from_known sha256 stored_index stored_secret index = Some secret then Inr (True, drop_keys)
          else if daemon_derive_from_known sha256 index secret stored_index = Some stored_secret
          then redundant_or_drops sha256 index secret rest (drop_keys @ [stored_index_s])
          else redundant_or_drops sha256 index secret rest drop_keys))"

definition store_known_locked ::
  "(bytes \<Rightarrow> bytes) \<Rightarrow> u64 \<Rightarrow> index48 \<Rightarrow> u64 \<Rightarrow> value32 \<Rightarrow> inner \<Rightarrow> daemon_error + mutation list \<times> inner" where
  "store_known_locked sha256 channel_index index expected_next_index secret i =
     bindR (get_channel i channel_index) (\<lambda>channel.
     bindR (redundant_or_drops sha256 (index_get index) secret (ch_known_secrets channel) []) (\<lambda>(redundant, drop_keys).
     let secrets = (if redundant then ch_known_secrets channel
           else bm_insert (dec_string (unat (index_get index))) (value_to_hex secret)
                  (fold bm_remove drop_keys (ch_known_secrets channel)));
         channel = channel\<lparr>ch_known_secrets := secrets,
                     ch_frontier_nodes := bm_remove (node_key (index_get index)) (ch_frontier_nodes channel),
                     ch_last_observed_next_reveal_index := Some (sat_sub expected_next_index 1)\<rparr>;
         writes = (if redundant then []
             else upsert_secret_mutation channel_index (index_get index) (value_to_hex secret) #
                  map (delete_secret_mutation channel_index) (List.map_filter parse_u64 drop_keys)) @
             [delete_frontier_mutation channel_index (index_get index), upsert_channel_mutation channel_index channel]
     in Inr (writes, set_channel channel_index channel i)))"

definition store_known_secret ::
  "(bytes \<Rightarrow> bytes) \<Rightarrow> u64 \<Rightarrow> index48 \<Rightarrow> u64 \<Rightarrow> value32 \<Rightarrow> ('s, unit) act" where
  "store_known_secret sha256 channel_index index expected_next_index secret =
     act_bind (locked (store_known_locked sha256 channel_index index expected_next_index secret))
       (\<lambda>writes. enqueue writes Eventual)"

section \<open>Reconciling with the peer\<close>

record frontier_node =
  fn_mask :: u64
  fn_public_binding_hex :: string

record get_frontier_response =
  gf_nodes :: "frontier_node list"
  gf_channel_enabled :: bool
  gf_precompute :: u64
  gf_ssp_target :: u32
  gf_delta_lifetime_checked_units_cap :: u64
  gf_workers :: u32
  gf_effective_workers :: u32
  gf_ram_limited_workers_raw :: u32
  gf_ram_overcommit_warning :: bool

definition peer_config_of :: "get_frontier_response \<Rightarrow> peer_frontier_config" where
  "peer_config_of response =
     \<lparr>pf_channel_enabled = gf_channel_enabled response, pf_precompute = gf_precompute response,
      pf_workers = gf_workers response, pf_effective_workers = max (gf_effective_workers response) 1,
      pf_ssp_target = gf_ssp_target response,
      pf_delta_lifetime_checked_units_cap = gf_delta_lifetime_checked_units_cap response\<rparr>"

definition peer_bindings :: "frontier_node list \<Rightarrow> u64 \<Rightarrow> string option" where
  \<comment> \<open>collecting into a map: the last node of a mask counts\<close>
  "peer_bindings nodes = map_of (rev (map (\<lambda>n. (fn_mask n, fn_public_binding_hex n)) nodes))"

definition reconcile_locked :: "u64 \<Rightarrow> get_frontier_response \<Rightarrow> inner \<Rightarrow> mutation list \<times> inner" where
  "reconcile_locked channel_index response i =
     (case bm_get (db_channels (in_db i)) (channel_key channel_index) of None \<Rightarrow> ([], i)
      | Some channel \<Rightarrow>
          let peer = peer_bindings (gf_nodes response);
              drop_masks = map fst (filter (\<lambda>(mask_s, node).
                case parse_u64 mask_s of None \<Rightarrow> True
                | Some m \<Rightarrow> peer m \<noteq> Some (wr_public_binding_hex node)) (ch_frontier_nodes channel));
              channel = channel\<lparr>ch_frontier_nodes := fold bm_remove drop_masks (ch_frontier_nodes channel)\<rparr>
          in (map (delete_frontier_mutation channel_index) (List.map_filter parse_u64 drop_masks),
              set_channel channel_index channel i))"

definition reconcile_with_response :: "u64 \<Rightarrow> get_frontier_response \<Rightarrow> ('s, unit) act" where
  \<comment> \<open>\<open>reconcile_with_peer\<close> once the peer has answered\<close>
  "reconcile_with_response channel_index response =
     (if \<not> gf_channel_enabled response then act_return ()
      else act_bind (locked (\<lambda>i. Inr (reconcile_locked channel_index response i))) (\<lambda>writes. enqueue writes Eventual))"

end
