(* ===== verification/Daemon_Tasks.thy ===== *)
theory Daemon_Tasks
  imports Daemon_State
begin

text \<open>
  The daemon's methods that talk to the peer (\<open>state.rs\<close>): revealing an index, the peer's side of a cached
  reveal, precomputing a node over a session, and serving a session the peer opened. Each is composed of the
  locked methods of \<open>Daemon_State\<close> the way the code composes them.

  The network is the record \<open>peer_env\<close>. Each of its calls also returns the state the daemon is in when
  the call returns, because the daemon's other tasks run while a task waits.
\<close>

record reveal_cached_request =
  rq_channel_index :: u64
  rq_requested_index :: u64
  rq_expected_next_index :: u64
  rq_allow_seed_reveal :: bool
  rq_share_bits :: bytes
  rq_mac_digest :: bytes
  rq_ssp_target :: u32
  rq_delta_lifetime_checked_units_cap :: u64
  rq_public_binding_hex :: string

record reveal_cached_response =
  rs_share_bits :: bytes
  rs_mac_digest :: bytes

datatype wait_outcome = Answered "daemon_error + value32" | SenderDropped | TimedOut

record reveal_response =
  rr_channel_index :: u64
  rr_index :: u64
  rr_secret_hex :: string
  rr_from_cache :: bool
  rr_source :: string

record precompute_response =
  pp_channel_index :: u64
  pp_target_index :: u64
  pp_nodes_stored :: u64
  pp_checked_units :: u64

record 's peer_env =
  pe_get_frontier :: "u64 \<Rightarrow> ('s, get_frontier_response) act"
  pe_reveal_cached :: "reveal_cached_request \<Rightarrow> ('s, reveal_cached_response) act"
  pe_wait_answer :: "nat \<Rightarrow> 's daemon \<Rightarrow> wait_outcome \<times> 's daemon"
  pe_wait_pending :: "reveal_request_key \<Rightarrow> 's daemon \<Rightarrow> 's daemon"
  pe_fast_job :: "secure_wires \<Rightarrow> block \<Rightarrow> bytes \<Rightarrow> ('s, value32) act"
  pe_root_job :: "value32 \<Rightarrow> block \<Rightarrow> bytes \<Rightarrow> nat \<Rightarrow> ('s, secure_wires) act"
  pe_full_derivation :: "index48 \<Rightarrow> value32 \<Rightarrow> ('s, value32) act"
  pe_open_session :: "grpc_job_descriptor \<Rightarrow> value32 \<Rightarrow> block \<Rightarrow> nat \<Rightarrow> ('s, nat) act"
    \<comment> \<open>open the streams, run the handshake and set the session up; the task that will serve it\<close>
  pe_plan :: "nat \<Rightarrow> index48 \<Rightarrow> ('s, u64) act"
  pe_precompute :: "nat \<Rightarrow> index48 \<Rightarrow> ('s, secure_wires) act"
  pe_accept_session :: "grpc_job_descriptor \<Rightarrow> incoming_precompute_session \<Rightarrow> ('s, unit) act"
  pe_recv_target :: "('s, bytes) act"
  pe_serve_plan :: "index48 \<Rightarrow> 's daemon \<Rightarrow> u64"
  pe_serve_precompute :: "index48 \<Rightarrow> ('s, secure_wires) act"

section \<open>The peer's frontier\<close>

definition peer_frontier_response ::
  "'s peer_env \<Rightarrow> u64 \<Rightarrow> ('s, (get_frontier_response \<times> peer_frontier_config) option) act" where
  "peer_frontier_response env channel_index d =
     (case peer_channel_for_optional channel_index d of None \<Rightarrow> act_return None d
      | Some _ \<Rightarrow> act_bind (pe_get_frontier env channel_index) (\<lambda>response.
          act_return (Some (response, peer_config_of response))) d)"

definition peer_frontier :: "'s peer_env \<Rightarrow> u64 \<Rightarrow> ('s, peer_frontier_config option) act" where
  "peer_frontier env channel_index =
     act_bind (peer_frontier_response env channel_index) (\<lambda>r. act_return (map_option snd r))"

definition reconcile_with_peer :: "'s peer_env \<Rightarrow> u64 \<Rightarrow> ('s, unit) act" where
  "reconcile_with_peer env channel_index =
     act_bind (peer_frontier_response env channel_index) (\<lambda>r.
     case r of None \<Rightarrow> act_return () | Some (response, _) \<Rightarrow> reconcile_with_response channel_index response)"

section \<open>Revealing a stored node\<close>

definition reveal_persisted_node ::
  "(bytes \<Rightarrow> bytes) \<Rightarrow> (bytes \<Rightarrow> bytes \<Rightarrow> bytes) \<Rightarrow> 's peer_env \<Rightarrow> u64 \<Rightarrow> index48 \<Rightarrow> secure_wires \<Rightarrow> ('s, value32) act" where
  "reveal_persisted_node sha256 hmac env channel_index index node =
     act_bind (job_context hmac channel_index) (\<lambda>(delta, ssp).
     pe_fast_job env node delta (job_digest sha256 channel_index ''reveal'' (index_get index) (index_get index) (of_nat ssp)))"

definition reveal_cached_node_via_peer ::
  "(bytes \<Rightarrow> bytes) \<Rightarrow> (bytes \<Rightarrow> bytes \<Rightarrow> bytes) \<Rightarrow> 's peer_env \<Rightarrow> u64 \<Rightarrow> index48 \<Rightarrow> u64 \<Rightarrow> bool \<Rightarrow> secure_wires
     \<Rightarrow> ('s, value32) act" where
  "reveal_cached_node_via_peer sha256 hmac env channel_index index expected_next_index allow_seed_reveal node =
     act_bind (reveal_node_context sha256 hmac channel_index (index_get index)) (\<lambda>(delta, ssp_target, cap, public_binding_hex).
     act_bind (act_lift (mapErr DParty (reveal_node_local_share sha256 node))) (\<lambda>local.
     act_bind (peer_channel_for channel_index) (\<lambda>_.
     act_bind (pe_reveal_cached env
       \<lparr>rq_channel_index = channel_index, rq_requested_index = index_get index, rq_expected_next_index = expected_next_index,
        rq_allow_seed_reveal = allow_seed_reveal, rq_share_bits = rl_share_bits local, rq_mac_digest = rl_mac_digest local,
        rq_ssp_target = ssp_target, rq_delta_lifetime_checked_units_cap = cap, rq_public_binding_hex = public_binding_hex\<rparr>) (\<lambda>response.
     act_bind (act_lift (parse_mac_digest (rs_mac_digest response) ''RevealCached response'')) (\<lambda>peer_digest.
     act_bind (act_lift (mapErr DParty (reveal_node_from_peer_share sha256 node delta (rs_share_bits response) peer_digest))) (\<lambda>(_, v).
     act_return v))))))"

definition register_pending_reveal :: "reveal_request_key \<Rightarrow> nat \<Rightarrow> ('s, unit) act" where
  \<comment> \<open>the entry is written before the old one is looked at\<close>
  "register_pending_reveal key tx d =
     (case dm_pending_reveals d key of
        Some _ \<Rightarrow> Inl (DRefused ''cached reveal is already pending'') | None \<Rightarrow> Inr (),
      d\<lparr>dm_pending_reveals := (dm_pending_reveals d)(key \<mapsto> tx)\<rparr>)"

definition await_incoming_cached_reveal ::
  "(bytes \<Rightarrow> bytes) \<Rightarrow> 's peer_env \<Rightarrow> nat \<Rightarrow> u64 \<Rightarrow> index48 \<Rightarrow> u64 \<Rightarrow> bool \<Rightarrow> secure_wires \<Rightarrow> ('s, value32) act" where
  \<comment> \<open>\<open>tx\<close> names the one-shot channel the method creates\<close>
  "await_incoming_cached_reveal sha256 env tx channel_index index expected_next_index allow_seed_reveal node =
     act_bind (act_lift (mapErr DParty (reveal_node_local_share sha256 node))) (\<lambda>_.
     let key = RevealRequestKey channel_index (index_get index) expected_next_index allow_seed_reveal in
     act_bind (register_pending_reveal key tx) (\<lambda>_ d.
     case pe_wait_answer env tx d of
       (Answered result, d) \<Rightarrow> (result, d)
     | (SenderDropped, d) \<Rightarrow> (Inl (DRefused ''cached reveal peer handler stopped''), d)
     | (TimedOut, d) \<Rightarrow>
         (Inl (DRefused ''timed out waiting for peer cached reveal''),
          d\<lparr>dm_pending_reveals := (dm_pending_reveals d)(key := None)\<rparr>)))"

definition reveal_cached_node ::
  "(bytes \<Rightarrow> bytes) \<Rightarrow> (bytes \<Rightarrow> bytes \<Rightarrow> bytes) \<Rightarrow> 's peer_env \<Rightarrow> nat \<Rightarrow> u64 \<Rightarrow> index48 \<Rightarrow> u64 \<Rightarrow> bool \<Rightarrow> secure_wires
     \<Rightarrow> ('s, value32) act" where
  "reveal_cached_node sha256 hmac env tx channel_index index expected_next_index allow_seed_reveal node d =
     (if index_get index = 0 then reveal_persisted_node sha256 hmac env channel_index index node d
      else case (cf_role (in_cfg (dm_inner d)), has_peer_channels d) of
        (Alice, True) \<Rightarrow>
          reveal_cached_node_via_peer sha256 hmac env channel_index index expected_next_index allow_seed_reveal node d
      | (Bob, True) \<Rightarrow>
          await_incoming_cached_reveal sha256 env tx channel_index index expected_next_index allow_seed_reveal node d
      | _ \<Rightarrow> reveal_persisted_node sha256 hmac env channel_index index node d)"

definition ensure_root ::
  "(bytes \<Rightarrow> bytes) \<Rightarrow> (bytes \<Rightarrow> bytes \<Rightarrow> bytes) \<Rightarrow> 's peer_env \<Rightarrow> u64 \<Rightarrow> ('s, secure_wires \<times> bool) act" where
  "ensure_root sha256 hmac env channel_index =
     act_bind (load_node sha256 channel_index 0) (\<lambda>node.
     case node of Some node \<Rightarrow> act_return (node, True)
     | None \<Rightarrow>
         act_bind (job_context hmac channel_index) (\<lambda>(delta, ssp).
         act_bind (channel_share hmac channel_index) (\<lambda>share.
         act_bind (pe_root_job env share delta (job_digest sha256 channel_index ''root'' 0 0 (of_nat ssp)) ssp) (\<lambda>root.
         act_bind (store_node sha256 channel_index 0 root) (\<lambda>_. act_return (root, False))))))"

definition run_full_derivation ::
  "(bytes \<Rightarrow> bytes \<Rightarrow> bytes) \<Rightarrow> 's peer_env \<Rightarrow> u64 \<Rightarrow> index48 \<Rightarrow> ('s, value32) act" where
  \<comment> \<open>\<open>run_party\<close> on a single index gives a single value\<close>
  "run_full_derivation hmac env channel_index index =
     act_bind (act_inner (\<lambda>i. bindR (get_enabled_channel i channel_index) (\<lambda>_.
       Inr (channel_seed_share hmac (in_master_secret i) channel_index)))) (\<lambda>share.
     pe_full_derivation env index share)"

definition reveal_response_of :: "u64 \<Rightarrow> index48 \<Rightarrow> value32 \<Rightarrow> bool \<Rightarrow> string \<Rightarrow> reveal_response" where
  "reveal_response_of channel_index index secret from_cache src =
     \<lparr>rr_channel_index = channel_index, rr_index = index_get index, rr_secret_hex = value_to_hex secret,
      rr_from_cache = from_cache, rr_source = src\<rparr>"

definition store_and_answer ::
  "(bytes \<Rightarrow> bytes) \<Rightarrow> u64 \<Rightarrow> index48 \<Rightarrow> u64 \<Rightarrow> value32 \<Rightarrow> bool \<Rightarrow> string \<Rightarrow> ('s, reveal_response) act" where
  \<comment> \<open>the end of each branch of \<open>reveal\<close>\<close>
  "store_and_answer sha256 channel_index index expected_next_index secret from_cache src =
     act_bind (store_known_secret sha256 channel_index index expected_next_index secret) (\<lambda>_.
     act_return (reveal_response_of channel_index index secret from_cache src))"

definition reveal_uncached ::
  "(bytes \<Rightarrow> bytes) \<Rightarrow> (bytes \<Rightarrow> bytes \<Rightarrow> bytes) \<Rightarrow> 's peer_env \<Rightarrow> nat \<Rightarrow> u64 \<Rightarrow> index48 \<Rightarrow> u64 \<Rightarrow> bool
     \<Rightarrow> ('s, reveal_response) act" where
  \<comment> \<open>the part of \<open>reveal\<close> after a miss of the local frontier\<close>
  "reveal_uncached sha256 hmac env tx channel_index index expected_next_index allow_seed_reveal =
     act_bind (reconcile_with_peer env channel_index) (\<lambda>_.
     act_bind (load_node sha256 channel_index (index_get index)) (\<lambda>node.
     case node of
       Some node \<Rightarrow>
         act_bind (reveal_cached_node sha256 hmac env tx channel_index index expected_next_index allow_seed_reveal node) (\<lambda>secret.
         store_and_answer sha256 channel_index index expected_next_index secret True ''frontier'')
     | None \<Rightarrow>
         if index_get index = 0 then
           act_bind (ensure_root sha256 hmac env channel_index) (\<lambda>(node, root_from_cache).
           act_bind (reveal_cached_node sha256 hmac env tx channel_index index expected_next_index allow_seed_reveal node) (\<lambda>secret.
           store_and_answer sha256 channel_index index expected_next_index secret root_from_cache
             (if root_from_cache then ''frontier'' else ''seed_root'')))
         else
           act_bind (run_full_derivation hmac env channel_index index) (\<lambda>secret.
           store_and_answer sha256 channel_index index expected_next_index secret False ''full_derivation'')))"

definition reveal ::
  "(bytes \<Rightarrow> bytes) \<Rightarrow> (bytes \<Rightarrow> bytes \<Rightarrow> bytes) \<Rightarrow> 's peer_env \<Rightarrow> nat \<Rightarrow> nat \<Rightarrow> u64 \<Rightarrow> u64 \<Rightarrow> u64 \<Rightarrow> bool
     \<Rightarrow> ('s, reveal_response) act" where
  \<comment> \<open>\<open>tx\<close>, \<open>tx'\<close>: the one-shot channels of the two cached reveals that may be tried\<close>
  "reveal sha256 hmac env tx tx' channel_index requested_index expected_next_index allow_seed_reveal =
     act_bind (act_lift (mapErr (\<lambda>e. DParse (show_parse_error e)) (index_new requested_index))) (\<lambda>index.
     if index_get index = 0 \<and> \<not> allow_seed_reveal
     then act_fail (DRefused ''I=0 reveals the seed; pass allow_seed_reveal to proceed'')
     else act_bind (derive_known sha256 channel_index index) (\<lambda>known.
     case known of
       Some secret \<Rightarrow> act_return (reveal_response_of channel_index index secret True ''known'')
     | None \<Rightarrow>
         if requested_index \<noteq> expected_next_index
         then act_fail (DRefused ''requested index must match expected_next_index unless locally derivable'')
         else act_bind (load_node sha256 channel_index (index_get index)) (\<lambda>node.
         case node of
           None \<Rightarrow> reveal_uncached sha256 hmac env tx' channel_index index expected_next_index allow_seed_reveal
         | Some node \<Rightarrow> (\<lambda>d.
             case reveal_cached_node sha256 hmac env tx channel_index index expected_next_index allow_seed_reveal node d of
               (Inr secret, d) \<Rightarrow> store_and_answer sha256 channel_index index expected_next_index secret True ''frontier'' d
             | (Inl err, d) \<Rightarrow>
                 if is_cached_reveal_cache_miss err
                 then reveal_uncached sha256 hmac env tx' channel_index index expected_next_index allow_seed_reveal d
                 else (Inl err, d)))))"

section \<open>The peer's side of a cached reveal\<close>

definition complete_peer_cached_reveal ::
  "(bytes \<Rightarrow> bytes) \<Rightarrow> (bytes \<Rightarrow> bytes \<Rightarrow> bytes) \<Rightarrow> reveal_cached_request \<Rightarrow> ('s, reveal_cached_response \<times> value32) act" where
  "complete_peer_cached_reveal sha256 hmac req =
     act_bind (act_lift (mapErr (\<lambda>e. DParse (show_parse_error e)) (index_new (rq_requested_index req)))) (\<lambda>index.
     if index_get index = 0 \<and> \<not> rq_allow_seed_reveal req
     then act_fail (DRefused ''I=0 reveals the seed; pass allow_seed_reveal to proceed'')
     else if rq_requested_index req \<noteq> rq_expected_next_index req
     then act_fail (DRefused ''requested index must match expected_next_index'')
     else act_bind (act_lift (parse_mac_digest (rq_mac_digest req) ''RevealCached request'')) (\<lambda>peer_digest.
     act_bind (load_node sha256 (rq_channel_index req) (index_get index)) (\<lambda>node.
     act_bind (act_lift (okOr (DNotFound ''cached reveal node is not stored'') node)) (\<lambda>node.
     act_bind (reveal_node_context sha256 hmac (rq_channel_index req) (index_get index)) (\<lambda>(delta, ssp_target, cap, public_binding_hex).
     if rq_ssp_target req \<noteq> ssp_target \<or> rq_delta_lifetime_checked_units_cap req \<noteq> cap
        \<or> rq_public_binding_hex req \<noteq> public_binding_hex
     then act_fail (DRefused ''cached reveal binding does not match local channel'')
     else act_bind (act_lift (mapErr DParty (reveal_node_local_share sha256 node))) (\<lambda>local.
     act_bind (act_lift (mapErr DParty (reveal_node_from_peer_share sha256 node delta (rq_share_bits req) peer_digest))) (\<lambda>(_, v).
     act_bind (store_known_secret sha256 (rq_channel_index req) index (rq_expected_next_index req) v) (\<lambda>_.
     act_return (\<lparr>rs_share_bits = rl_share_bits local, rs_mac_digest = rl_mac_digest local\<rparr>, v)))))))))"

definition take_pending_reveal :: "'s peer_env \<Rightarrow> reveal_request_key \<Rightarrow> ('s, nat) act" where
  \<comment> \<open>\<open>pe_wait_pending\<close>: the state when the entry is there, or when the wait has timed out\<close>
  "take_pending_reveal env key d =
     (let d = (if dm_pending_reveals d key \<noteq> None then d else pe_wait_pending env key d) in
      case dm_pending_reveals d key of
        Some tx \<Rightarrow> (Inr tx, d\<lparr>dm_pending_reveals := (dm_pending_reveals d)(key := None)\<rparr>)
      | None \<Rightarrow> (Inl (DRefused ''cached reveal needs matching local authorization''), d))"

definition answer_reveal :: "nat \<Rightarrow> daemon_error + value32 \<Rightarrow> 's daemon \<Rightarrow> 's daemon" where
  "answer_reveal tx result d = d\<lparr>dm_reveal_answers := dm_reveal_answers d @ [(tx, result)]\<rparr>"

definition handle_peer_cached_reveal ::
  "(bytes \<Rightarrow> bytes) \<Rightarrow> (bytes \<Rightarrow> bytes \<Rightarrow> bytes) \<Rightarrow> 's peer_env \<Rightarrow> reveal_cached_request \<Rightarrow> ('s, reveal_cached_response) act" where
  "handle_peer_cached_reveal sha256 hmac env req =
     act_bind (take_pending_reveal env (RevealRequestKey (rq_channel_index req) (rq_requested_index req)
                 (rq_expected_next_index req) (rq_allow_seed_reveal req))) (\<lambda>tx d.
     case complete_peer_cached_reveal sha256 hmac req d of
       (Inr (response, v), d) \<Rightarrow> (Inr response, answer_reveal tx (Inr v) d)
     | (Inl err, d) \<Rightarrow> (Inl err, answer_reveal tx (Inl (DRefused (show_daemon_error err))) d))"

section \<open>Precomputing over a session\<close>

definition precompute_session_handle ::
  "(bytes \<Rightarrow> bytes) \<Rightarrow> (bytes \<Rightarrow> bytes \<Rightarrow> bytes) \<Rightarrow> 's peer_env \<Rightarrow> u64 \<Rightarrow> peer_frontier_config \<Rightarrow> ('s, nat) act" where
  "precompute_session_handle sha256 hmac env channel_index peer =
     act_bind (open_session_handle channel_index) (\<lambda>live.
     case live of Some task \<Rightarrow> act_return task
     | None \<Rightarrow>
         act_bind (session_descriptor sha256 channel_index peer) (\<lambda>descriptor d.
         let i = dm_inner d in
         act_bind (pe_open_session env descriptor (channel_seed_share hmac (in_master_secret i) channel_index)
             (channel_delta hmac (in_master_secret i) channel_index (cf_role (in_cfg i)))
             (ssp_effective (gd_ssp_target descriptor) (gd_delta_lifetime_checked_units_cap descriptor)))
           (\<lambda>task d. (Inr task, register_session channel_index task d)) d))"

definition after_error :: "('s daemon \<Rightarrow> 's daemon) \<Rightarrow> ('s, 'a) act \<Rightarrow> ('s, 'a) act" where
  \<comment> \<open>\<open>match m { Err(e) => { cleanup; return Err(e) } .. }\<close>\<close>
  "after_error cleanup m d = (case m d of (Inl e, d) \<Rightarrow> (Inl e, cleanup d) | (Inr x, d) \<Rightarrow> (Inr x, d))"

definition precompute_path_jobstream ::
  "(bytes \<Rightarrow> bytes) \<Rightarrow> (bytes \<Rightarrow> bytes \<Rightarrow> bytes) \<Rightarrow> 's peer_env \<Rightarrow> u64 \<Rightarrow> u64 \<Rightarrow> ('s, precompute_response) act" where
  "precompute_path_jobstream sha256 hmac env channel_index target_index =
     act_bind (act_lift (mapErr (\<lambda>e. DParse (show_parse_error e)) (index_new target_index))) (\<lambda>index.
     act_bind (peer_frontier env channel_index) (\<lambda>peer.
     case peer of None \<Rightarrow> act_fail (DRefused ''peer URL is not configured'')
     | Some peer \<Rightarrow>
       if \<not> pf_channel_enabled peer then act_fail (DRefused ''peer has not enabled this channel'')
       else act_bind (\<lambda>d. case validate_peer_security_params channel_index peer d of
            (Inr _, d) \<Rightarrow> (Inr (), d)
          | (Inl e, d) \<Rightarrow> act_bind (record_failed_precompute_attempt channel_index
                (word_of_nat (length (daemon_set_bits_desc (index_get index))))) (\<lambda>_. act_fail e) d) (\<lambda>_.
       act_bind (reconcile_with_peer env channel_index) (\<lambda>_.
       act_bind (precompute_session_handle sha256 hmac env channel_index peer) (\<lambda>session.
       act_bind (after_error (drop_precompute_session channel_index) (pe_plan env session index)) (\<lambda>planned.
       act_bind (begin_precompute_jobstream sha256 channel_index index peer planned) (\<lambda>start.
       case start of
         AlreadyStored \<Rightarrow> act_return \<lparr>pp_channel_index = channel_index, pp_target_index = index_get index,
                            pp_nodes_stored = 0, pp_checked_units = 0\<rparr>
       | Run job \<Rightarrow>
           act_bind (after_error (\<lambda>d. snd (finish_job (pj_job_id job) True (drop_precompute_session channel_index d)))
               (pe_precompute env session index)) (\<lambda>wires.
           act_bind (after_error (\<lambda>d. snd (finish_job (pj_job_id job) True d))
               (store_precomputed_target_wires_and_finish_job sha256 channel_index (pj_job_id job)
                 (pj_planned_checked_units job) (index_get index) wires)) (\<lambda>nodes_stored.
           act_return \<lparr>pp_channel_index = channel_index, pp_target_index = index_get index,
                       pp_nodes_stored = nodes_stored, pp_checked_units = pj_planned_checked_units job\<rparr>)))))))))"

definition run_scheduled_precompute_inner ::
  "(bytes \<Rightarrow> bytes) \<Rightarrow> (bytes \<Rightarrow> bytes \<Rightarrow> bytes) \<Rightarrow> 's peer_env \<Rightarrow> u64 \<Rightarrow> ('s, bool) act" where
  "run_scheduled_precompute_inner sha256 hmac env channel_index =
     act_bind (peer_frontier env channel_index) (\<lambda>peer.
     case peer of None \<Rightarrow> act_return False
     | Some peer \<Rightarrow>
       if \<not> pf_channel_enabled peer then act_return False
       else act_bind (reconcile_with_peer env channel_index) (\<lambda>_ d.
         case effective_precompute_target channel_index peer d of
           (Inl (DRefused message), d) \<Rightarrow>
             if contains ''security parameters do not match'' message
             then (Inr False, snd (record_failed_precompute_attempt channel_index 1 d))
             else (Inl (DRefused message), d)
         | (Inl e, d) \<Rightarrow> (Inl e, d)
         | (Inr effective_precompute, d) \<Rightarrow>
             if effective_precompute = 0 then (Inr False, d)
             else act_bind (next_missing_frontier sha256 channel_index effective_precompute) (\<lambda>target.
               case target of None \<Rightarrow> act_return False
               | Some target \<Rightarrow>
                   act_bind (precompute_path_jobstream sha256 hmac env channel_index target) (\<lambda>_. act_return True)) d))"

definition run_scheduled_precompute ::
  "(bytes \<Rightarrow> bytes) \<Rightarrow> (bytes \<Rightarrow> bytes \<Rightarrow> bytes) \<Rightarrow> 's peer_env \<Rightarrow> u64 \<Rightarrow> 's daemon \<Rightarrow> bool \<times> 's daemon" where
  \<comment> \<open>whether the scheduler is woken\<close>
  "run_scheduled_precompute sha256 hmac env channel_index d =
     (case run_scheduled_precompute_inner sha256 hmac env channel_index d of
        (result, d) \<Rightarrow> (result = Inr True, d\<lparr>dm_scheduled := dm_scheduled d - {channel_index}\<rparr>))"

section \<open>Serving a session the peer opened\<close>

definition serve_target ::
  "(bytes \<Rightarrow> bytes) \<Rightarrow> 's peer_env \<Rightarrow> grpc_job_descriptor \<Rightarrow> bytes \<Rightarrow> ('s, unit) act" where
  \<comment> \<open>the body of the loop of \<open>run_incoming_precompute_session\<close>, once the command has arrived\<close>
  "serve_target sha256 env descriptor target_bytes =
     act_bind (act_lift (if length target_bytes \<noteq> 8 then Inl (DParse ''bad precompute target command'')
                         else mapErr (\<lambda>e. DParse (show_parse_error e)) (index_new (word_of_le target_bytes)))) (\<lambda>index d.
     let planned = pe_serve_plan env index d in
     act_bind (begin_incoming_precompute_target descriptor index planned) (\<lambda>job_id.
     act_bind (after_error (\<lambda>d. snd (finish_job job_id True d)) (pe_serve_precompute env index)) (\<lambda>wires.
     act_bind (after_error (\<lambda>d. snd (finish_job job_id True d))
         (store_precomputed_target_wires_and_finish_job sha256 (gd_channel_index descriptor) job_id planned (index_get index) wires))
       (\<lambda>_. act_return ()))) d)"

fun serve_targets ::
  "(bytes \<Rightarrow> bytes) \<Rightarrow> 's peer_env \<Rightarrow> grpc_job_descriptor \<Rightarrow> nat \<Rightarrow> ('s, unit) act" where
  \<comment> \<open>the loop, for at most the given number of commands; only an error ends it\<close>
  "serve_targets sha256 env descriptor 0 d = (Inr (), d)"
| "serve_targets sha256 env descriptor (Suc n) d =
     act_bind (pe_recv_target env) (\<lambda>target_bytes.
     act_bind (serve_target sha256 env descriptor target_bytes) (\<lambda>_. serve_targets sha256 env descriptor n)) d"

definition run_incoming_precompute_session ::
  "(bytes \<Rightarrow> bytes) \<Rightarrow> (bytes \<Rightarrow> bytes \<Rightarrow> bytes) \<Rightarrow> 's peer_env \<Rightarrow> grpc_job_descriptor \<Rightarrow> nat \<Rightarrow> ('s, unit) act" where
  "run_incoming_precompute_session sha256 hmac env descriptor n =
     act_bind (begin_incoming_precompute_session sha256 hmac descriptor) (\<lambda>job.
     act_bind (pe_accept_session env descriptor job) (\<lambda>_. serve_targets sha256 env descriptor n))"

end
