(* ===== verification/Daemon_Services.thy ===== *)
theory Daemon_Services
  imports Daemon_Tasks
begin

text \<open>
  The two gRPC services of the daemon (\<open>services.rs\<close>, with the response and frame helpers of
  \<open>helpers.rs\<close>): the control service behind the local cookie, the peer service, and the frames that carry
  a session's byte streams over a \<open>JobStream\<close>. A response is \<open>Inr\<close>, a \<open>Status\<close> is \<open>Inl\<close>.
\<close>

type_synonym status = "status_code \<times> string"

definition to_status :: "daemon_error \<Rightarrow> status" where
  "to_status err =
     (case err of
        DNotFound msg \<Rightarrow> (NotFoundCode, msg)
      | DRefused msg \<Rightarrow> (InvalidArgument, msg)
      | DUsage msg \<Rightarrow> (InvalidArgument, msg)
      | DParse msg \<Rightarrow> (InvalidArgument, msg)
      | other \<Rightarrow> (Internal, show_daemon_error other))"

type_synonym ('s, 'a) rpc = "'s daemon \<Rightarrow> (status + 'a) \<times> 's daemon"

definition rpc_of :: "('s, 'a) act \<Rightarrow> ('s, 'a) rpc" where
  "rpc_of m d = (case m d of (r, d) \<Rightarrow> (mapErr to_status r, d))"

section \<open>The local cookie\<close>

definition header_to_str :: "bytes \<Rightarrow> string option" where
  \<comment> \<open>\<open>to_str\<close> of an ASCII metadata value: visible characters and tabs only\<close>
  "header_to_str bs = (if list_all (\<lambda>b. 32 \<le> b \<and> b < 127 \<or> b = 9) bs then Some (map (\<lambda>b. char_of (unat b)) bs) else None)"

definition check_cookie :: "bytes option \<Rightarrow> 's daemon \<Rightarrow> status + unit" where
  \<comment> \<open>the request's \<open>x-shachain-cookie\<close> metadata\<close>
  "check_cookie metadata d =
     (case metadata of None \<Rightarrow> Inl (Unauthenticated, ''missing local cookie'')
      | Some v \<Rightarrow>
          case header_to_str v of None \<Rightarrow> Inl (Unauthenticated, ''bad local cookie'')
          | Some cookie \<Rightarrow>
              if cookie = in_cookie (dm_inner d) then Inr () else Inl (Unauthenticated, ''bad local cookie''))"

definition control :: "bytes option \<Rightarrow> ('s, 'a) rpc \<Rightarrow> ('s, 'a) rpc" where
  \<comment> \<open>every method of the control service begins with the check\<close>
  "control metadata m d = (case check_cookie metadata d of Inl e \<Rightarrow> (Inl e, d) | Inr _ \<Rightarrow> m d)"

section \<open>Responses\<close>

record channel_response =
  cr_channel_index :: u64
  cr_enabled :: bool
  cr_precompute :: u64
  cr_ssp_target :: u32
  cr_delta_lifetime_checked_units_cap :: u64
  cr_frontier_nodes :: u64
  cr_known_secrets :: u64
  cr_estimated_checked_units :: u64
  cr_attempted_checked_units :: u64
  cr_failed_precompute_jobs :: u64

definition channel_response_of :: "u64 \<Rightarrow> channel_record \<Rightarrow> channel_response" where
  "channel_response_of index channel =
     \<lparr>cr_channel_index = index, cr_enabled = ch_enabled channel, cr_precompute = ch_precompute_target channel,
      cr_ssp_target = ch_ssp_target channel,
      cr_delta_lifetime_checked_units_cap = ch_delta_lifetime_checked_units_cap channel,
      cr_frontier_nodes = word_of_nat (length (ch_frontier_nodes channel)),
      cr_known_secrets = word_of_nat (length (ch_known_secrets channel)),
      cr_estimated_checked_units = ch_estimated_checked_units channel,
      cr_attempted_checked_units = ch_attempted_checked_units channel,
      cr_failed_precompute_jobs = ch_failed_precompute_jobs channel\<rparr>"

record status_response =
  st_role :: u32
  st_local_addr :: string
  st_peer_addr :: string
  st_max_ram_bytes :: u64
  st_workers :: u32
  st_precompute :: u64
  st_channel_count :: u64
  st_active_job_count :: u64
  st_resources :: resource_model_t \<comment> \<open>the remaining fields, copied from the resource model\<close>

record set_config_request =
  sq_max_ram_bytes :: "u64 option"
  sq_workers :: "u32 option"
  sq_precompute :: "u64 option"

record set_config_response =
  sr_max_ram_bytes :: u64
  sr_workers :: u32
  sr_precompute :: u64
  sr_effective_workers :: u32
  sr_ram_overcommit_warning :: bool

record enable_channel_request =
  eq_channel_index :: u64
  eq_precompute :: u64
  eq_ssp_target :: u32
  eq_delta_lifetime_checked_units_cap :: u64

record job_info =
  ji_job_id :: string
  ji_channel_index :: u64
  ji_kind :: string
  ji_state :: string

record config_update =
  cu_max_ram_bytes :: u64
  cu_workers :: u32
  cu_precompute :: u64
  cu_ssp_target :: u32
  cu_delta_lifetime_checked_units_cap :: u64
  cu_effective_workers :: u32
  cu_ram_limited_workers_raw :: u32
  cu_ram_overcommit_warning :: bool

record hello_response =
  hr_role :: u32
  hr_daemon_id :: string
  hr_protocol_version :: u32

section \<open>The control service\<close>

definition status_rpc :: "('s, status_response) rpc" where
  "status_rpc d =
     (let i = dm_inner d; resources = resource_model d in
      (Inr \<lparr>st_role = ucast (party_id (cf_role (in_cfg i))), st_local_addr = cf_control_addr (in_cfg i),
            st_peer_addr = (case cf_peer_url (in_cfg i) of Some url \<Rightarrow> url | None \<Rightarrow> cf_peer_addr (in_cfg i)),
            st_max_ram_bytes = cf_max_ram_bytes (in_cfg i), st_workers = rm_configured_workers resources,
            st_precompute = cf_precompute (in_cfg i),
            st_channel_count = word_of_nat (length (db_channels (in_db i))),
            st_active_job_count = word_of_nat (length (in_active_jobs i)), st_resources = resources\<rparr>, d))"

definition set_config_inner :: "set_config_request \<Rightarrow> inner \<Rightarrow> inner" where
  "set_config_inner req i =
     (let cfg = in_cfg i;
          cfg = (case sq_max_ram_bytes req of Some v \<Rightarrow> cfg\<lparr>cf_max_ram_bytes := v\<rparr> | None \<Rightarrow> cfg);
          cfg = (case sq_workers req of Some v \<Rightarrow> cfg\<lparr>cf_workers := max v 1\<rparr> | None \<Rightarrow> cfg);
          cfg = (case sq_precompute req of Some v \<Rightarrow> cfg\<lparr>cf_precompute := v\<rparr> | None \<Rightarrow> cfg)
      in i\<lparr>in_cfg := cfg\<rparr>)"

definition set_config :: "set_config_request \<Rightarrow> ('s, set_config_response) rpc" where
  "set_config req d =
     (let d = d\<lparr>dm_inner := set_config_inner req (dm_inner d)\<rparr>; cfg = in_cfg (dm_inner d); resources = resource_model d in
      (Inr \<lparr>sr_max_ram_bytes = cf_max_ram_bytes cfg, sr_workers = cf_workers cfg, sr_precompute = cf_precompute cfg,
            sr_effective_workers = rm_effective_workers resources,
            sr_ram_overcommit_warning = rm_ram_overcommit_warning resources\<rparr>, d))"

definition flush_queue :: "nat \<Rightarrow> 's daemon \<Rightarrow> 's daemon" where
  \<comment> \<open>\<open>db_writer.flush()\<close>: the request it queues; the acknowledgement is awaited\<close>
  "flush_queue ack d = d\<lparr>dm_queue := dm_queue d @ [Flush ack]\<rparr>"

definition enable_channel_locked ::
  "enable_channel_request \<Rightarrow> inner \<Rightarrow> (channel_response \<times> mutation list) \<times> inner" where
  "enable_channel_locked req i =
     (let default_precompute = (if eq_precompute req = 0 then cf_precompute (in_cfg i) else eq_precompute req);
          channel = (case bm_get (db_channels (in_db i)) (channel_key (eq_channel_index req)) of
              Some channel \<Rightarrow> channel
            | None \<Rightarrow>
                \<lparr>ch_enabled = True, ch_last_observed_next_reveal_index = None, ch_precompute_target = default_precompute,
                 ch_ssp_target = (if eq_ssp_target req = 0 then DEFAULT_SSP_TARGET else eq_ssp_target req),
                 ch_delta_lifetime_checked_units_cap =
                   (if eq_delta_lifetime_checked_units_cap req = 0 then DEFAULT_DELTA_CAP
                    else eq_delta_lifetime_checked_units_cap req),
                 ch_frontier_nodes = [], ch_known_secrets = [], ch_estimated_checked_units = 0,
                 ch_attempted_checked_units = 0, ch_failed_precompute_jobs = 0\<rparr>);
          channel = channel\<lparr>ch_enabled := True, ch_precompute_target := default_precompute\<rparr>;
          channel = (if eq_ssp_target req \<noteq> 0 then channel\<lparr>ch_ssp_target := eq_ssp_target req\<rparr> else channel);
          channel = (if eq_delta_lifetime_checked_units_cap req \<noteq> 0
                     then channel\<lparr>ch_delta_lifetime_checked_units_cap := eq_delta_lifetime_checked_units_cap req\<rparr>
                     else channel)
      in ((channel_response_of (eq_channel_index req) channel, [upsert_channel_mutation (eq_channel_index req) channel]),
          set_channel (eq_channel_index req) channel i))"

definition enable_channel :: "nat \<Rightarrow> enable_channel_request \<Rightarrow> ('s, channel_response) rpc" where
  \<comment> \<open>\<open>ack\<close> names the flush\<close>
  "enable_channel ack req = rpc_of
     (act_bind (locked (\<lambda>i. Inr (enable_channel_locked req i))) (\<lambda>(response, writes).
      act_bind (enqueue writes Immediate) (\<lambda>_ d. (Inr response, flush_queue ack d))))"

definition disable_channel_locked ::
  "u64 \<Rightarrow> inner \<Rightarrow> status + (channel_response \<times> mutation list) \<times> inner" where
  "disable_channel_locked channel_index i =
     (if job_on_channel i channel_index then Inl (FailedPrecondition, ''channel has an active precompute job'')
      else bindR (okOr (NotFoundCode, ''channel is not enabled'')
               (bm_get (db_channels (in_db i)) (channel_key channel_index))) (\<lambda>channel.
        let drop_masks = List.map_filter parse_u64 (bm_keys (ch_frontier_nodes channel));
            channel = channel\<lparr>ch_enabled := False, ch_frontier_nodes := []\<rparr>
        in Inr ((channel_response_of channel_index channel,
                 upsert_channel_mutation channel_index channel # map (delete_frontier_mutation channel_index) drop_masks),
                set_channel channel_index channel i)))"

definition disable_channel :: "nat \<Rightarrow> u64 \<Rightarrow> ('s, channel_response) rpc" where
  "disable_channel ack channel_index d =
     (case disable_channel_locked channel_index (dm_inner d) of
        Inl e \<Rightarrow> (Inl e, d)
      | Inr ((response, writes), i) \<Rightarrow>
          let d = d\<lparr>dm_inner := i\<rparr>; d = flush_queue ack (snd (enqueue writes Immediate d))
          in (Inr response, drop_precompute_session channel_index d))"

definition reveal_rpc ::
  "(bytes \<Rightarrow> bytes) \<Rightarrow> (bytes \<Rightarrow> bytes \<Rightarrow> bytes) \<Rightarrow> 's peer_env \<Rightarrow> nat \<Rightarrow> nat \<Rightarrow> u64 \<Rightarrow> u64 \<Rightarrow> u64 \<Rightarrow> bool
     \<Rightarrow> ('s, reveal_response) rpc" where
  "reveal_rpc sha256 hmac env tx tx' channel_index requested_index expected_next_index allow_seed_reveal =
     rpc_of (reveal sha256 hmac env tx tx' channel_index requested_index expected_next_index allow_seed_reveal)"

definition list_channels :: "('s, channel_response list) rpc" where
  "list_channels d =
     (Inr (List.map_filter (\<lambda>(key, channel). map_option (\<lambda>index. channel_response_of index channel) (parse_u64 key))
        (db_channels (in_db (dm_inner d)))), d)"

definition list_jobs :: "('s, job_info list) rpc" where
  "list_jobs d =
     (Inr (map (\<lambda>(job_id, job).
        \<lparr>ji_job_id = job_id, ji_channel_index = jb_channel_index job,
         ji_kind = jb_kind job @ '' checked='' @ dec_string (unat (jb_planned_checked_units job)),
         ji_state = jb_state job\<rparr>) (in_active_jobs (dm_inner d))), d)"

section \<open>The peer service\<close>

definition hello :: "(bytes \<Rightarrow> bytes) \<Rightarrow> ('s, hello_response) rpc" where
  "hello sha256 d =
     (let i = dm_inner d in
      (Inr \<lparr>hr_role = ucast (party_id (cf_role (in_cfg i))), hr_daemon_id = daemon_id sha256 (in_master_secret i),
            hr_protocol_version = PROTOCOL_VERSION\<rparr>, d))"

definition config_rpc :: "('s, config_update) rpc" where
  "config_rpc d =
     (let cfg = in_cfg (dm_inner d); resources = resource_model d in
      (Inr \<lparr>cu_max_ram_bytes = cf_max_ram_bytes cfg, cu_workers = cf_workers cfg, cu_precompute = cf_precompute cfg,
            cu_ssp_target = DEFAULT_SSP_TARGET, cu_delta_lifetime_checked_units_cap = DEFAULT_DELTA_CAP,
            cu_effective_workers = rm_effective_workers resources,
            cu_ram_limited_workers_raw = rm_ram_limited_workers_raw resources,
            cu_ram_overcommit_warning = rm_ram_overcommit_warning resources\<rparr>, d))"

definition get_frontier :: "u64 \<Rightarrow> ('s, get_frontier_response) rpc" where
  "get_frontier channel_index d =
     (let i = dm_inner d; resources = resource_model d in
      (Inr (case bm_get (db_channels (in_db i)) (channel_key channel_index) of
         None \<Rightarrow>
           \<lparr>gf_nodes = [], gf_channel_enabled = False, gf_precompute = 0, gf_ssp_target = 0,
            gf_delta_lifetime_checked_units_cap = 0, gf_workers = cf_workers (in_cfg i),
            gf_effective_workers = rm_effective_workers resources,
            gf_ram_limited_workers_raw = rm_ram_limited_workers_raw resources,
            gf_ram_overcommit_warning = rm_ram_overcommit_warning resources\<rparr>
       | Some channel \<Rightarrow>
           \<lparr>gf_nodes = List.map_filter (\<lambda>(m, node). map_option (\<lambda>m.
                \<lparr>fn_mask = m, fn_public_binding_hex = wr_public_binding_hex node\<rparr>) (parse_u64 m)) (ch_frontier_nodes channel),
            gf_channel_enabled = ch_enabled channel, gf_precompute = ch_precompute_target channel,
            gf_ssp_target = ch_ssp_target channel,
            gf_delta_lifetime_checked_units_cap = ch_delta_lifetime_checked_units_cap channel,
            gf_workers = cf_workers (in_cfg i), gf_effective_workers = rm_effective_workers resources,
            gf_ram_limited_workers_raw = rm_ram_limited_workers_raw resources,
            gf_ram_overcommit_warning = rm_ram_overcommit_warning resources\<rparr>), d))"

definition reveal_cached_rpc ::
  "(bytes \<Rightarrow> bytes) \<Rightarrow> (bytes \<Rightarrow> bytes \<Rightarrow> bytes) \<Rightarrow> 's peer_env \<Rightarrow> reveal_cached_request \<Rightarrow> ('s, reveal_cached_response) rpc" where
  "reveal_cached_rpc sha256 hmac env req = rpc_of (handle_peer_cached_reveal sha256 hmac env req)"

section \<open>Job streams\<close>

record job_frame =
  jf_job_id :: string
  jf_channel :: u32
  jf_channel_index :: u64
  jf_target_index :: u64
  jf_ssp :: u32
  jf_digest :: bytes
  jf_start :: bool
  jf_payload :: bytes
  jf_ssp_target :: u32
  jf_delta_lifetime_checked_units_cap :: u64

definition JOBSTREAM_PAYLOAD_CHUNK_BYTES :: nat where
  "JOBSTREAM_PAYLOAD_CHUNK_BYTES = 512 * 1024"

definition JOBSTREAM_SESSION_BINDING_DOMAIN :: bytes where
  "JOBSTREAM_SESSION_BINDING_DOMAIN = ascii ''shachain2pc daemon JobStream precompute v1''"

definition descriptor_from_job_frame :: "job_frame \<Rightarrow> string + grpc_job_descriptor" where
  "descriptor_from_job_frame frame =
     (if jf_job_id frame = [] then Inl ''JobStream job_id is empty''
      else if length (jf_digest frame) \<noteq> 32 then Inl ''JobStream digest must be 32 bytes''
      else Inr \<lparr>gd_job_id = jf_job_id frame, gd_channel_index = jf_channel_index frame,
                gd_target_index = jf_target_index frame, gd_ssp = jf_ssp frame, gd_ssp_target = jf_ssp_target frame,
                gd_delta_lifetime_checked_units_cap = jf_delta_lifetime_checked_units_cap frame,
                gd_digest = jf_digest frame\<rparr>)"

definition validate_job_channel :: "u32 \<Rightarrow> string + u32" where
  "validate_job_channel channel =
     (if channel = 1 \<or> channel = 2 then Inr channel else Inl ''JobStream channel must be 1 or 2'')"

definition validate_job_payload_context :: "job_frame \<Rightarrow> grpc_job_descriptor \<Rightarrow> bool" where
  "validate_job_payload_context frame descriptor \<longleftrightarrow>
     jf_channel_index frame = gd_channel_index descriptor
     \<and> jf_target_index frame = gd_target_index descriptor
     \<and> jf_ssp frame = gd_ssp descriptor
     \<and> jf_ssp_target frame = gd_ssp_target descriptor
     \<and> jf_delta_lifetime_checked_units_cap frame = gd_delta_lifetime_checked_units_cap descriptor
     \<and> jf_digest frame = gd_digest descriptor"

definition jobstream_session_binding :: "grpc_job_descriptor \<Rightarrow> bytes" where
  "jobstream_session_binding descriptor =
     JOBSTREAM_SESSION_BINDING_DOMAIN @ le_bytes 8 (gd_channel_index descriptor) @ le_bytes 8 (gd_target_index descriptor) @
     le_bytes 4 (gd_ssp_target descriptor) @ le_bytes 8 (gd_delta_lifetime_checked_units_cap descriptor) @
     le_bytes 4 PROTOCOL_VERSION"

definition make_job_frame :: "grpc_job_descriptor \<Rightarrow> u32 \<Rightarrow> bool \<Rightarrow> bytes \<Rightarrow> job_frame" where
  "make_job_frame descriptor channel start payload =
     \<lparr>jf_job_id = gd_job_id descriptor, jf_channel = channel, jf_channel_index = gd_channel_index descriptor,
      jf_target_index = gd_target_index descriptor, jf_ssp = gd_ssp descriptor, jf_digest = gd_digest descriptor,
      jf_start = start, jf_payload = payload, jf_ssp_target = gd_ssp_target descriptor,
      jf_delta_lifetime_checked_units_cap = gd_delta_lifetime_checked_units_cap descriptor\<rparr>"

fun chunks :: "nat \<Rightarrow> 'a list \<Rightarrow> 'a list list" where
  \<comment> \<open>\<open>chunks(n)\<close> for a positive \<open>n\<close>\<close>
  "chunks n [] = []"
| "chunks n (x # xs) = (x # take (n - 1) xs) # chunks n (drop (n - 1) xs)"

definition forward_payload :: "grpc_job_descriptor \<Rightarrow> u32 \<Rightarrow> bytes \<Rightarrow> job_frame list" where
  \<comment> \<open>what the sending task makes of one write to the stream\<close>
  "forward_payload descriptor channel payload =
     map (make_job_frame descriptor channel False) (chunks JOBSTREAM_PAYLOAD_CHUNK_BYTES payload)"

definition frame_belongs :: "grpc_job_descriptor \<Rightarrow> u32 \<Rightarrow> job_frame \<Rightarrow> bool" where
  \<comment> \<open>the negation of the receiving task's condition to stop\<close>
  "frame_belongs descriptor channel frame \<longleftrightarrow>
     \<not> (jf_start frame \<or> jf_job_id frame \<noteq> gd_job_id descriptor \<or> jf_channel frame \<noteq> channel
        \<or> \<not> validate_job_payload_context frame descriptor)"

definition forward_frames :: "grpc_job_descriptor \<Rightarrow> u32 \<Rightarrow> job_frame list \<Rightarrow> bytes list" where
  \<comment> \<open>what the receiving task hands to the stream, until the first frame that does not belong\<close>
  "forward_frames descriptor channel frames = map jf_payload (takeWhile (frame_belongs descriptor channel) frames)"

definition open_peer_job_stream :: "job_frame list \<Rightarrow> status + grpc_job_descriptor \<times> u32 \<times> bytes list" where
  \<comment> \<open>the descriptor, the channel and what the new stream will receive\<close>
  "open_peer_job_stream incoming =
     (case incoming of [] \<Rightarrow> Inl (InvalidArgument, ''missing JobStream start frame'')
      | start # frames \<Rightarrow>
          bindR (mapErr (\<lambda>m. (InvalidArgument, m)) (descriptor_from_job_frame start)) (\<lambda>descriptor.
          bindR (mapErr (\<lambda>m. (InvalidArgument, m)) (validate_job_channel (jf_channel start))) (\<lambda>channel.
          if \<not> jf_start start then Inl (InvalidArgument, ''first JobStream frame must be a start frame'')
          else if jf_payload start \<noteq> [] then Inl (InvalidArgument, ''JobStream start frame must not carry payload'')
          else Inr (descriptor, channel, forward_frames descriptor channel frames))))"

definition open_peer_job_channel :: "grpc_job_descriptor \<Rightarrow> u32 \<Rightarrow> bytes list \<Rightarrow> daemon_error + job_frame list" where
  \<comment> \<open>the frames sent for a stream on which the given payloads are written\<close>
  "open_peer_job_channel descriptor channel payloads =
     bindR (mapErr DRefused (validate_job_channel channel)) (\<lambda>channel.
     Inr (make_job_frame descriptor channel True [] # concat (map (forward_payload descriptor channel) payloads)))"

definition job_stream_rpc :: "nat \<Rightarrow> job_frame list \<Rightarrow> (bytes list, (grpc_job_descriptor \<times> bytes list \<times> bytes list) option) rpc" where
  "job_stream_rpc task incoming d =
     (case open_peer_job_stream incoming of Inl e \<Rightarrow> (Inl e, d)
      | Inr (descriptor, channel, stream) \<Rightarrow> register_incoming_job_stream descriptor channel stream task d)"

end
