(* ===== verification/Daemon_Init.thy ===== *)
theory Daemon_Init
  imports Daemon_Services
begin

text \<open>
  What surrounds the daemon's methods: its start (\<open>init_daemon_state\<close> in \<open>lib.rs\<close>), the cookie and control
  files and the command-line parsers (\<open>helpers.rs\<close>), one turn of the scheduler, and the task that drives an
  outgoing precompute session (\<open>precompute_driver.rs\<close>). The files a function reads are arguments; what it
  writes is part of its result.
\<close>

section \<open>Parsers\<close>

definition parse_master_secret_hex :: "string \<Rightarrow> daemon_error + bytes" where
  "parse_master_secret_hex input = from_hex input"

definition parse_role :: "string \<Rightarrow> daemon_error + role" where
  "parse_role input =
     bindR (okOr (DParse (''role must be 1 or 2, got '' @ input)) (parse_uint 256 input)) (\<lambda>party.
     mapErr (\<lambda>e. DParse (show_parse_error e)) (from_party_id (word_of_nat party)))"

fun split_once :: "string \<Rightarrow> string \<Rightarrow> (string \<times> string) option" where
  "split_once pat [] = (if pat = [] then Some ([], []) else None)"
| "split_once pat (c # s) =
     (if has_prefix pat (c # s) then Some ([], drop (length pat) (c # s))
      else map_option (\<lambda>(a, b). (c # a, b)) (split_once pat s))"

definition rsplit_colon :: "string \<Rightarrow> string option" where
  \<comment> \<open>\<open>s.rsplit_once(':')\<close>, its first part\<close>
  "rsplit_colon s =
     (if CHR '':'' \<in> set s then Some (rev (tl (dropWhile (\<lambda>c. c \<noteq> CHR '':'') (rev s)))) else None)"

definition peer_ip_from_url :: "(string \<Rightarrow> 'ip option) \<Rightarrow> string \<Rightarrow> 'ip option" where
  \<comment> \<open>\<open>parse_ip\<close> is the parser of \<open>IpAddr\<close>\<close>
  "peer_ip_from_url parse_ip url =
     (let without_scheme = (case split_once ''://'' url of Some (_, rest) \<Rightarrow> rest | None \<Rightarrow> url);
          host = takeWhile (\<lambda>c. c \<noteq> CHR ''/'') without_scheme
      in parse_ip (case rsplit_colon host of Some h \<Rightarrow> h | None \<Rightarrow> host))"

section \<open>Cookie and control file\<close>

definition trim :: "string \<Rightarrow> string" where
  "trim s = rev (dropWhile is_space (rev (dropWhile is_space s)))"

definition random_cookie :: "string + bytes \<Rightarrow> daemon_error + string" where
  \<comment> \<open>\<open>random\<close> is the outcome of the random generator\<close>
  "random_cookie random = bindR (mapErr DCrypto random) (\<lambda>bs. Inr (to_hex bs))"

definition load_or_create_cookie ::
  "string option \<Rightarrow> (string \<Rightarrow> string option) \<Rightarrow> string + bytes \<Rightarrow> daemon_error + string \<times> (string \<Rightarrow> string option)" where
  \<comment> \<open>the configured cookie file and the files before; the cookie and the files after\<close>
  "load_or_create_cookie cookie_file files random =
     (case cookie_file of
        None \<Rightarrow> bindR (random_cookie random) (\<lambda>cookie. Inr (cookie, files))
      | Some path \<Rightarrow>
          case files path of
            Some content \<Rightarrow> Inr (trim content, files)
          | None \<Rightarrow> bindR (random_cookie random) (\<lambda>cookie. Inr (cookie, files(path \<mapsto> cookie @ [char_of (10 :: nat)]))))"

record control_file =
  cl_addr :: string
  cl_cookie_path :: string

definition write_control_file :: "string \<Rightarrow> string \<Rightarrow> string option \<Rightarrow> control_file" where
  \<comment> \<open>the contents that are encoded and written\<close>
  "write_control_file addr cookie cookie_file =
     \<lparr>cl_addr = ''http://'' @ addr,
      cl_cookie_path = (case cookie_file of Some path \<Rightarrow> path | None \<Rightarrow> ''inline:'' @ cookie)\<rparr>"

definition read_control_file :: "(string \<Rightarrow> string option) \<Rightarrow> control_file \<Rightarrow> daemon_error + string \<times> string" where
  \<comment> \<open>after decoding; the text of a failed read is the library's\<close>
  "read_control_file files f =
     (if has_prefix ''inline:'' (cl_cookie_path f) then Inr (cl_addr f, drop (length ''inline:'') (cl_cookie_path f))
      else bindR (okOr (DIo []) (files (cl_cookie_path f))) (\<lambda>content. Inr (cl_addr f, trim content)))"

section \<open>The start of the daemon\<close>

definition init_daemon_state ::
  "daemon_config \<Rightarrow> bytes \<Rightarrow> daemon_error + plain_db \<Rightarrow> daemon_error + string \<Rightarrow> daemon_error + nat option \<Rightarrow> string + unit
     \<Rightarrow> daemon_error + 's daemon" where
  \<comment> \<open>the outcomes of opening the store, of the cookie, of the peer's channels and of loading the SHA circuit\<close>
  "init_daemon_state cfg master_secret opened cookie peer_channels sha =
     (if length master_secret < 32 then Inl (DUsage ''master secret must contain at least 32 bytes'')
      else bindR opened (\<lambda>db.
           bindR cookie (\<lambda>cookie.
           bindR peer_channels (\<lambda>peer_channels.
           bindR (mapErr (\<lambda>e. DCrypto (''failed to load SHA circuit: '' @ e)) sha) (\<lambda>_.
           Inr \<lparr>dm_inner = \<lparr>in_cfg = cfg, in_master_secret = master_secret, in_cookie = cookie, in_db = db,
                  in_active_jobs = [], in_next_job_id = 0\<rparr>,
                dm_queue = [], dm_grpc_jobs = [], dm_pending_reveals = Map.empty, dm_reveal_answers = [],
                dm_scheduled = {}, dm_full_reconcile_after = Map.empty, dm_precompute_sessions = [],
                dm_incoming_sessions = [], dm_aborted_tasks = {}, dm_peer_channels = peer_channels\<rparr>)))))"

definition run_scheduler_once :: "(bytes \<Rightarrow> bytes) \<Rightarrow> nat \<Rightarrow> nat \<Rightarrow> 's daemon \<Rightarrow> u64 list \<times> 's daemon" where
  \<comment> \<open>the channels a task is started for\<close>
  "run_scheduler_once sha256 interval now d =
     (if cf_role (in_cfg (dm_inner d)) \<noteq> Alice then ([], d) else scheduler_candidates sha256 interval now d)"

section \<open>The driver of an outgoing session\<close>

text \<open>A command carries the one-shot channel its answer is sent on.\<close>

datatype session_command = Plan (sc_index: index48) (sc_response: nat) | Precompute (sc_index: index48) (sc_response: nat)

datatype session_answer = Planned u64 | Computed "daemon_error + secure_wires"

record 's outgoing_env =
  oe_plan :: "'s \<Rightarrow> index48 \<Rightarrow> u64"
  oe_send :: "bytes \<Rightarrow> 's \<Rightarrow> (wire_error + unit) \<times> 's" \<comment> \<open>send and flush\<close>
  oe_precompute :: "index48 \<Rightarrow> 's \<Rightarrow> (party_error + secure_wires) \<times> 's"

definition precompute_command :: "'s outgoing_env \<Rightarrow> index48 \<Rightarrow> 's \<Rightarrow> (daemon_error + secure_wires) \<times> 's" where
  "precompute_command env index s =
     (case oe_send env (le_bytes 8 (index_get index)) s of
        (Inl e, s) \<Rightarrow> (Inl (DParty (PWire e)), s)
      | (Inr _, s) \<Rightarrow> (case oe_precompute env index s of (r, s) \<Rightarrow> (mapErr DParty r, s)))"

fun run_outgoing_precompute_session ::
  "'s outgoing_env \<Rightarrow> session_command list \<Rightarrow> 's \<Rightarrow> (nat \<times> session_answer) list" where
  \<comment> \<open>the answers sent before the channel of commands is closed or a precomputation has failed\<close>
  "run_outgoing_precompute_session env [] s = []"
| "run_outgoing_precompute_session env (Plan index response # commands) s =
     (response, Planned (oe_plan env s index)) # run_outgoing_precompute_session env commands s"
| "run_outgoing_precompute_session env (Precompute index response # commands) s =
     (case precompute_command env index s of
        (Inl e, s) \<Rightarrow> [(response, Computed (Inl e))]
      | (Inr wires, s) \<Rightarrow> (response, Computed (Inr wires)) # run_outgoing_precompute_session env commands s)"

definition handle_plan :: "bool \<Rightarrow> session_answer option \<Rightarrow> daemon_error + u64" where
  \<comment> \<open>\<open>plan\<close>: whether the task has ended before the command is sent, and the answer if one is ever sent\<close>
  "handle_plan closed answer =
     (if closed then Inl (DRefused ''precompute session is closed'')
      else case answer of Some (Planned n) \<Rightarrow> Inr n | _ \<Rightarrow> Inl (DRefused ''precompute session stopped''))"

definition handle_precompute :: "bool \<Rightarrow> session_answer option \<Rightarrow> daemon_error + secure_wires" where
  "handle_precompute closed answer =
     (if closed then Inl (DRefused ''precompute session is closed'')
      else case answer of Some (Computed r) \<Rightarrow> r | _ \<Rightarrow> Inl (DRefused ''precompute session stopped''))"

section \<open>What they promise\<close>

lemma trim_clean: "s \<noteq> [] \<Longrightarrow> \<not> is_space (hd s) \<Longrightarrow> \<not> is_space (last s) \<Longrightarrow> trim (s @ [char_of (10 :: nat)]) = s"
proof -
  assume s: "s \<noteq> []" "\<not> is_space (hd s)" "\<not> is_space (last s)"
  have sp: "is_space (char_of (10 :: nat))" by (simp add: is_space_def)
  from s have "dropWhile is_space (s @ [char_of (10 :: nat)]) = s @ [char_of (10 :: nat)]" by (cases s) auto
  moreover have "dropWhile is_space (rev s) = rev s" using s(1,3) by (cases s rule: rev_cases) auto
  ultimately show ?thesis using sp by (simp add: trim_def)
qed

lemma nibble_not_space: "\<not> is_space (nibble_hex b)"
proof -
  have "nibble_hex b \<in> set ''0123456789abcdef''" unfolding nibble_hex_def by (rule nth_mem) (use unat_nibble [of b] in simp)
  moreover have "list_all (\<lambda>c. \<not> is_space c) ''0123456789abcdef''" by code_simp
  ultimately show ?thesis by (auto simp only: list_all_iff)
qed

lemma to_hex_clean:
  assumes "bs \<noteq> []"
  shows "to_hex bs \<noteq> []" "\<not> is_space (hd (to_hex bs))" "\<not> is_space (last (to_hex bs))"
proof -
  obtain b r where f: "bs = b # r" using assms by (cases bs) auto
  obtain c q where l: "bs = q @ [c]" using assms by (cases bs rule: rev_cases) auto
  show "to_hex bs \<noteq> []" "\<not> is_space (hd (to_hex bs))" by (simp_all add: f to_hex_def nibble_not_space)
  show "\<not> is_space (last (to_hex bs))" by (simp add: l to_hex_def nibble_not_space)
qed

lemma cookie_reaches_client:
  assumes c: "load_or_create_cookie cookie_file files (Inr bs) = Inr (cookie, files')" and bs: "bs \<noteq> []"
    and p: "\<forall>path. cookie_file = Some path \<longrightarrow> \<not> has_prefix ''inline:'' path"
  shows "read_control_file files' (write_control_file addr cookie cookie_file) = Inr (''http://'' @ addr, cookie)"
proof (cases cookie_file)
  case None
  then show ?thesis by (simp add: read_control_file_def write_control_file_def has_prefix_def)
next
  case (Some path)
  then have f: "\<exists>content. files' path = Some content \<and> trim content = cookie"
    using c trim_clean [OF to_hex_clean [OF bs]]
    by (auto simp: load_or_create_cookie_def random_cookie_def split: option.splits)
  then show ?thesis using p Some by (auto simp: read_control_file_def write_control_file_def)
qed

lemma driver_answers:
  "\<exists>n \<le> length commands. map fst (run_outgoing_precompute_session env commands s) = map sc_response (take n commands)
    \<and> (\<forall>k < n. (\<exists>e. snd (run_outgoing_precompute_session env commands s ! k) = Computed (Inl e)) \<longrightarrow> k = n - 1)
    \<and> (n < length commands \<longrightarrow> 0 < n \<and> (\<exists>e. snd (run_outgoing_precompute_session env commands s ! (n - 1)) = Computed (Inl e)))"
proof (induction commands arbitrary: s)
  case Nil
  then show ?case by simp
next
  case (Cons c commands)
  have more: "\<exists>n \<le> length (c # commands). map fst (a # run_outgoing_precompute_session env commands s') = map sc_response (take n (c # commands))
      \<and> (\<forall>k < n. (\<exists>e. snd ((a # run_outgoing_precompute_session env commands s') ! k) = Computed (Inl e)) \<longrightarrow> k = n - 1)
      \<and> (n < length (c # commands) \<longrightarrow> 0 < n \<and> (\<exists>e. snd ((a # run_outgoing_precompute_session env commands s') ! (n - 1)) = Computed (Inl e)))"
    if "fst a = sc_response c" "\<forall>e. snd a \<noteq> Computed (Inl e)" for a s'
  proof -
    let ?r = "run_outgoing_precompute_session env commands s'"
    from Cons.IH [of s'] obtain n where n: "n \<le> length commands" "map fst ?r = map sc_response (take n commands)"
      "\<forall>k < n. (\<exists>e. snd (?r ! k) = Computed (Inl e)) \<longrightarrow> k = n - 1"
      "n < length commands \<longrightarrow> 0 < n \<and> (\<exists>e. snd (?r ! (n - 1)) = Computed (Inl e))" by blast
    have "\<forall>k < Suc n. (\<exists>e. snd ((a # ?r) ! k) = Computed (Inl e)) \<longrightarrow> k = Suc n - 1"
      using n(3) that(2) by (auto simp: nth_Cons split: nat.splits)
    then show ?thesis using n that(1) by (intro exI [of _ "Suc n"]) (auto simp: nth_Cons split: nat.splits)
  qed
  show ?case
  proof (cases c)
    case (Plan index response)
    then show ?thesis using more [of "(response, Planned (oe_plan env s index))" s] by simp
  next
    case (Precompute index response)
    obtain r s' where r: "precompute_command env index s = (r, s')" by force
    show ?thesis
    proof (cases r)
      case (Inl e)
      then show ?thesis using Precompute r by (intro exI [of _ 1]) auto
    next
      case (Inr wires)
      then show ?thesis using Precompute r more [of "(response, Computed (Inr wires))" s'] by simp
    qed
  qed
qed

end
