(* ===== verification/Daemon_Store_Correct.thy ===== *)
theory Daemon_Store_Correct
  imports Daemon_Services
begin

text \<open>
  What the store promises: a logical map from keys to payloads. The encrypted table implements it, the
  daemon's channels in memory are one of its values, and each method's mutations are the difference it
  makes to that value.
\<close>

section \<open>The logical store\<close>

type_synonym logical_store = "logical_key \<Rightarrow> stored_payload option"

definition record_at :: "logical_key \<Rightarrow> stored_payload \<Rightarrow> stored_record" where
  "record_at k p = \<lparr>sr_record_type = lk_record_type k, sr_channel_index = lk_channel_index k, sr_sub_id = lk_sub_id k, sr_payload = p\<rparr>"

fun apply_logical :: "mutation \<Rightarrow> logical_store \<Rightarrow> logical_store" where
  "apply_logical (Upsert k r) l = l(k \<mapsto> sr_payload r)"
| "apply_logical (Delete k) l = l(k := None)"

fun keyed :: "mutation \<Rightarrow> bool" where
  "keyed (Upsert k r) \<longleftrightarrow> r = record_at k (sr_payload r)"
| "keyed (Delete k) \<longleftrightarrow> True"

fun proper :: "mutation \<Rightarrow> bool" where
  \<comment> \<open>what the methods write: never the verifier record\<close>
  "proper (Upsert k r) \<longleftrightarrow> k \<noteq> meta_key \<and> r = record_at k (sr_payload r)"
| "proper (Delete k) \<longleftrightarrow> k \<noteq> meta_key"

definition channel_logical :: "channel_record \<Rightarrow> logical_key \<Rightarrow> stored_payload option" where
  "channel_logical c k =
     (if lk_record_type k = RECORD_CHANNEL then (if lk_sub_id k = 0 then Some (ChannelPayload (scalars c)) else None)
      else if lk_record_type k = RECORD_SECRET then map_option Secret (bm_get (ch_known_secrets c) (node_key (lk_sub_id k)))
      else if lk_record_type k = RECORD_FRONTIER then map_option Frontier (bm_get (ch_frontier_nodes c) (node_key (lk_sub_id k)))
      else None)"

definition logical_of :: "plain_db \<Rightarrow> logical_store" where
  "logical_of db k =
     (if k = meta_key then Some (sr_payload meta_record)
      else case bm_get (db_channels db) (channel_key (lk_channel_index k)) of None \<Rightarrow> None
           | Some c \<Rightarrow> channel_logical c k)"

definition canonical_keys :: "(string, 'v) bmap \<Rightarrow> bool" where
  "canonical_keys m \<longleftrightarrow> bm_inv m \<and> fst ` set m \<subseteq> range node_key"

definition canonical_db :: "plain_db \<Rightarrow> bool" where
  "canonical_db db \<longleftrightarrow> canonical_keys (db_channels db)
     \<and> (\<forall>c \<in> snd ` set (db_channels db). canonical_keys (ch_known_secrets c) \<and> canonical_keys (ch_frontier_nodes c))"

section \<open>Keys\<close>

lemma node_key_inj [simp]: "node_key a = node_key b \<longleftrightarrow> a = b"
  by (simp add: node_key_def dec_string_inj word_unat_eq_iff)

lemma channel_key_eq: "channel_key = node_key"
  by (rule ext) (simp add: channel_key_def node_key_def)

lemma dec_string_key: "dec_string (unat i) = node_key i"
  by (simp add: node_key_def)

lemma parse_node_key [simp]: "parse_u64 (node_key i) = Some i"
proof -
  have "parse_uint (2 ^ 64) (dec_string (unat i)) = Some (unat i)"
    by (rule parse_uint_dec_string) (rule order.strict_trans2 [OF unsigned_less], simp)
  then show ?thesis by (simp only: parse_u64_def node_key_def option.map of_nat_unat ucast_id)
qed

lemmas record_types = RECORD_META_def RECORD_CHANNEL_def RECORD_SECRET_def RECORD_FRONTIER_def
lemmas lkeys = meta_key_def channel_lkey_def secret_lkey_def frontier_lkey_def

lemma canonical_keysD: "canonical_keys m \<Longrightarrow> (s, v) \<in> set m \<Longrightarrow> \<exists>i. s = node_key i"
  by (force simp: canonical_keys_def)

lemma canonical_keys_insert [simp, intro]: "canonical_keys m \<Longrightarrow> canonical_keys (bm_insert (node_key i) v m)"
  by (auto simp: canonical_keys_def fst_set_bm_insert)

lemma canonical_keys_remove [simp, intro]: "canonical_keys m \<Longrightarrow> canonical_keys (bm_remove s m)"
  by (auto simp: canonical_keys_def bm_remove_def)

lemma canonical_keys_Nil [simp]: "canonical_keys []"
  by (simp add: canonical_keys_def)

lemma canonical_keys_folds [simp, intro]: "canonical_keys m \<Longrightarrow> canonical_keys (fold bm_remove ks m)"
  by (induction ks arbitrary: m) auto

lemma canonical_keys_ext:
  assumes "canonical_keys m" and "canonical_keys m'" and "\<And>i. bm_get m (node_key i) = bm_get m' (node_key i)"
  shows "m = m'"
proof (rule bm_ext)
  show "bm_inv m" "bm_inv m'" using assms by (auto simp: canonical_keys_def)
  have none: "bm_get n s = None" if "canonical_keys n" and "s \<notin> range node_key" for n :: "(string, 'a) bmap" and s
    using that by (auto simp: canonical_keys_def bm_get_def map_of_eq_None_iff)
  show "bm_get m = bm_get m'"
  proof
    fix s show "bm_get m s = bm_get m' s" using assms none by (cases "s \<in> range node_key") auto
  qed
qed

lemma canonical_channel:
  assumes "canonical_db db" and "bm_get (db_channels db) s = Some c"
  shows "canonical_keys (ch_known_secrets c)" and "canonical_keys (ch_frontier_nodes c)"
  using assms by (force simp: canonical_db_def dest: bm_get_in_set)+

section \<open>Updates of one channel\<close>

lemma get_put_channel: "canonical_db db \<Longrightarrow>
    bm_get (db_channels (put_channel i c db)) (channel_key j) = (if j = i then Some c else bm_get (db_channels db) (channel_key j))"
  by (simp add: put_channel_def channel_key_eq canonical_db_def canonical_keys_def)

lemma canonical_put_channel:
  assumes "canonical_db db" and "canonical_keys (ch_known_secrets c)" and "canonical_keys (ch_frontier_nodes c)"
  shows "canonical_db (put_channel i c db)"
  using assms set_bm_insert [of "db_channels db" "channel_key i" c]
  by (auto simp: canonical_db_def put_channel_def channel_key_eq canonical_keys_def fst_set_bm_insert)

lemma logical_put_channel:
  assumes "canonical_db db"
  shows "logical_of (put_channel i c db) =
    (\<lambda>k. if k \<noteq> meta_key \<and> lk_channel_index k = i then channel_logical c k else logical_of db k)"
  using assms by (auto simp: logical_of_def fun_eq_iff get_put_channel)

text \<open>The difference a method makes to one channel is what its mutations say about that channel's keys.\<close>

lemma logical_update:
  assumes "canonical_db db"
    and "\<And>k. k \<noteq> meta_key \<Longrightarrow> lk_channel_index k = i \<Longrightarrow> channel_logical c k = fold apply_logical ms (logical_of db) k"
    and "\<And>k. k = meta_key \<or> lk_channel_index k \<noteq> i \<Longrightarrow> fold apply_logical ms (logical_of db) k = logical_of db k"
  shows "logical_of (put_channel i c db) = fold apply_logical ms (logical_of db)"
  unfolding logical_put_channel [OF assms(1)] using assms(2,3) by (auto simp: fun_eq_iff)

lemma logical_ext:
  assumes "canonical_db db" and "canonical_db db'" and l: "logical_of db = logical_of db'"
  shows "db = db'"
proof -
  let ?m = "db_channels db" and ?m' = "db_channels db'"
  have eq: "bm_get ?m (node_key i) = bm_get ?m' (node_key i)" for i
  proof -
    have ch: "logical_of db (channel_lkey i) = logical_of db' (channel_lkey i)"
      and se: "logical_of db (secret_lkey i j) = logical_of db' (secret_lkey i j)"
      and fr: "logical_of db (frontier_lkey i j) = logical_of db' (frontier_lkey i j)" for j using l by simp_all
    show ?thesis
    proof (cases "bm_get ?m (node_key i)")
      case None
      then show ?thesis using ch
        by (auto simp: logical_of_def channel_key_eq channel_logical_def lkeys record_types split: option.splits)
    next
      case (Some c)
      then obtain c' where c': "bm_get ?m' (node_key i) = Some c'" using ch
        by (auto simp: logical_of_def channel_key_eq channel_logical_def lkeys record_types split: option.splits)
      have s: "scalars c = scalars c'" using ch Some c'
        by (simp add: logical_of_def channel_key_eq channel_logical_def lkeys record_types)
      have "bm_get (ch_known_secrets c) (node_key j) = bm_get (ch_known_secrets c') (node_key j)" for j
        using se [of j] Some c'
        by (cases "bm_get (ch_known_secrets c) (node_key j)"; cases "bm_get (ch_known_secrets c') (node_key j)")
           (simp_all add: logical_of_def channel_key_eq channel_logical_def lkeys record_types)
      then have k: "ch_known_secrets c = ch_known_secrets c'"
        using canonical_keys_ext canonical_channel(1) [OF assms(1) Some] canonical_channel(1) [OF assms(2) c'] by blast
      have "bm_get (ch_frontier_nodes c) (node_key j) = bm_get (ch_frontier_nodes c') (node_key j)" for j
        using fr [of j] Some c'
        by (cases "bm_get (ch_frontier_nodes c) (node_key j)"; cases "bm_get (ch_frontier_nodes c') (node_key j)")
           (simp_all add: logical_of_def channel_key_eq channel_logical_def lkeys record_types)
      then have f: "ch_frontier_nodes c = ch_frontier_nodes c'"
        using canonical_keys_ext canonical_channel(2) [OF assms(1) Some] canonical_channel(2) [OF assms(2) c'] by blast
      have "c = c'" using s k f by (simp add: scalars_def)
      then show ?thesis using Some c' by simp
    qed
  qed
  have "?m = ?m'" by (rule canonical_keys_ext) (use assms eq in \<open>auto simp: canonical_db_def\<close>)
  then show ?thesis by simp
qed

section \<open>The mutations of each method\<close>

definition writes_match :: "inner \<Rightarrow> mutation list \<Rightarrow> inner \<Rightarrow> bool" where
  \<comment> \<open>the mutations are the difference between the two states\<close>
  "writes_match i ms i' \<longleftrightarrow> (canonical_db (in_db i) \<longrightarrow>
     canonical_db (in_db i') \<and> list_all proper ms \<and> logical_of (in_db i') = fold apply_logical ms (logical_of (in_db i)))"

lemma writes_match_same: "in_db i' = in_db i \<Longrightarrow> writes_match i [] i'"
  by (simp add: writes_match_def)

lemma writes_match_jobs: "in_db i'' = in_db i' \<Longrightarrow> writes_match i ms i' \<Longrightarrow> writes_match i ms i''"
  by (simp add: writes_match_def)

lemma writes_match_from: "in_db i0 = in_db i \<Longrightarrow> writes_match i0 ms i' \<Longrightarrow> writes_match i ms i'"
  by (simp add: writes_match_def)

lemma in_db_set_channel: "in_db (set_channel ci c i) = put_channel ci c (in_db i)"
  by (simp add: set_channel_def)

lemma get_insert_canonical [simp]: "canonical_keys m \<Longrightarrow> bm_get (bm_insert k v m) = (bm_get m)(k \<mapsto> v)"
  by (simp add: canonical_keys_def)

lemma proper_mutations [simp]:
  "proper (upsert_channel_mutation c ch)" "proper (upsert_secret_mutation c k h)" "proper (upsert_frontier_mutation c m r)"
  "proper (delete_secret_mutation c k)" "proper (delete_frontier_mutation c m)"
  by (simp_all add: upsert_channel_mutation_def upsert_secret_mutation_def upsert_frontier_mutation_def
      delete_secret_mutation_def delete_frontier_mutation_def record_at_def lkeys record_types)

lemma proper_keyed: "proper m \<Longrightarrow> keyed m"
  by (cases m) simp_all

lemmas mutation_defs = upsert_channel_mutation_def upsert_secret_mutation_def upsert_frontier_mutation_def
  delete_secret_mutation_def delete_frontier_mutation_def

lemma logical_channel_at:
  assumes "bm_get (db_channels (in_db i)) (channel_key ci) = Some c" and "k \<noteq> meta_key" and "lk_channel_index k = ci"
  shows "logical_of (in_db i) k = channel_logical c k"
  using assms by (simp add: logical_of_def)

lemma key_eqs: "k = meta_key \<longleftrightarrow> lk_record_type k = RECORD_META \<and> lk_channel_index k = 0 \<and> lk_sub_id k = 0"
  "k = channel_lkey c \<longleftrightarrow> lk_record_type k = RECORD_CHANNEL \<and> lk_channel_index k = c \<and> lk_sub_id k = 0"
  "k = secret_lkey c j \<longleftrightarrow> lk_record_type k = RECORD_SECRET \<and> lk_channel_index k = c \<and> lk_sub_id k = j"
  "k = frontier_lkey c j \<longleftrightarrow> lk_record_type k = RECORD_FRONTIER \<and> lk_channel_index k = c \<and> lk_sub_id k = j"
  by (auto simp: lkeys)

lemma lkey_sel [simp]:
  "lk_record_type (channel_lkey c) = RECORD_CHANNEL" "lk_channel_index (channel_lkey c) = c" "lk_sub_id (channel_lkey c) = 0"
  "lk_record_type (secret_lkey c j) = RECORD_SECRET" "lk_channel_index (secret_lkey c j) = c" "lk_sub_id (secret_lkey c j) = j"
  "lk_record_type (frontier_lkey c j) = RECORD_FRONTIER" "lk_channel_index (frontier_lkey c j) = c" "lk_sub_id (frontier_lkey c j) = j"
  by (simp_all add: lkeys)

lemma record_type_neqs:
  "RECORD_META \<noteq> RECORD_CHANNEL" "RECORD_META \<noteq> RECORD_SECRET" "RECORD_META \<noteq> RECORD_FRONTIER"
  "RECORD_CHANNEL \<noteq> RECORD_SECRET" "RECORD_CHANNEL \<noteq> RECORD_FRONTIER" "RECORD_SECRET \<noteq> RECORD_FRONTIER"
  by (simp_all add: record_types)

lemma fold_delete_nodes:
  "fold apply_logical (map (delete_frontier_mutation ci) js) l k =
     (if lk_record_type k = RECORD_FRONTIER \<and> lk_channel_index k = ci \<and> lk_sub_id k \<in> set js then None else l k)"
  by (induction js arbitrary: l) (auto simp: delete_frontier_mutation_def key_eqs)

lemma fold_delete_secrets:
  "fold apply_logical (map (delete_secret_mutation ci) js) l k =
     (if lk_record_type k = RECORD_SECRET \<and> lk_channel_index k = ci \<and> lk_sub_id k \<in> set js then None else l k)"
  by (induction js arbitrary: l) (auto simp: delete_secret_mutation_def key_eqs)

lemma get_fold_node_keys:
  "bm_get (fold bm_remove (map node_key js) m) (node_key j) = (if j \<in> set js then None else bm_get m (node_key j))"
  by (induction js arbitrary: m) auto

text \<open>Every method replaces one channel's record and writes its scalars, some of its nodes or some of its secrets.\<close>

lemma writes_scalars:
  assumes "bm_get (db_channels (in_db i)) (channel_key ci) = Some c"
    and "ch_known_secrets c' = ch_known_secrets c" and "ch_frontier_nodes c' = ch_frontier_nodes c"
  shows "writes_match i [upsert_channel_mutation ci c'] (set_channel ci c' i)"
  unfolding writes_match_def
proof (intro impI conjI)
  assume can: "canonical_db (in_db i)"
  have keys: "canonical_keys (ch_known_secrets c')" "canonical_keys (ch_frontier_nodes c')"
    using canonical_channel [OF can assms(1)] assms(2,3) by simp_all
  show "canonical_db (in_db (set_channel ci c' i))"
    using canonical_put_channel [OF can keys] by (simp add: set_channel_def)
  show "list_all proper [upsert_channel_mutation ci c']" by simp
  show "logical_of (in_db (set_channel ci c' i)) = fold apply_logical [upsert_channel_mutation ci c'] (logical_of (in_db i))"
    unfolding in_db_set_channel
    by (rule logical_update [OF can])
       (use assms record_type_neqs in \<open>auto simp: logical_channel_at [OF assms(1)] channel_logical_def upsert_channel_mutation_def key_eqs\<close>)
qed

lemma writes_new_channel:
  assumes "bm_get (db_channels (in_db i)) (channel_key ci) = None"
    and "ch_known_secrets c' = []" and "ch_frontier_nodes c' = []"
  shows "writes_match i [upsert_channel_mutation ci c'] (set_channel ci c' i)"
  unfolding writes_match_def
proof (intro impI conjI)
  assume can: "canonical_db (in_db i)"
  show "canonical_db (in_db (set_channel ci c' i))"
    using canonical_put_channel [OF can, of c' ci] assms(2,3) by (simp add: set_channel_def)
  show "list_all proper [upsert_channel_mutation ci c']" by simp
  have "logical_of (in_db i) k = None" if "k \<noteq> meta_key" "lk_channel_index k = ci" for k
    using that assms(1) by (simp add: logical_of_def)
  then show "logical_of (in_db (set_channel ci c' i)) = fold apply_logical [upsert_channel_mutation ci c'] (logical_of (in_db i))"
    unfolding in_db_set_channel
    by (intro logical_update [OF can])
       (use assms record_type_neqs in \<open>auto simp: channel_logical_def upsert_channel_mutation_def key_eqs\<close>)
qed

lemma writes_nodes:
  assumes c: "bm_get (db_channels (in_db i)) (channel_key ci) = Some c"
    and "ch_known_secrets c' = ch_known_secrets c" and "scalars c' = scalars c \<or> upsert_channel_mutation ci c' \<in> set ms"
    and keys: "canonical_keys (ch_frontier_nodes c) \<Longrightarrow> canonical_keys (ch_frontier_nodes c')"
    and "list_all proper ms"
    and ms: "\<And>k. canonical_keys (ch_frontier_nodes c) \<Longrightarrow> fold apply_logical ms (logical_of (in_db i)) k =
       (if k = channel_lkey ci then channel_logical c' k
        else if lk_record_type k = RECORD_FRONTIER \<and> lk_channel_index k = ci then channel_logical c' k
        else logical_of (in_db i) k)"
  shows "writes_match i ms (set_channel ci c' i)"
  unfolding writes_match_def
proof (intro impI conjI)
  assume can: "canonical_db (in_db i)"
  note cc = canonical_channel [OF can c]
  show "canonical_db (in_db (set_channel ci c' i))"
    using canonical_put_channel [OF can] cc assms(2) keys by (simp add: set_channel_def)
  show "list_all proper ms" by fact
  show "logical_of (in_db (set_channel ci c' i)) = fold apply_logical ms (logical_of (in_db i))"
    unfolding in_db_set_channel
    by (rule logical_update [OF can])
       (use assms(2) record_type_neqs in \<open>auto simp: ms [OF cc(2)] logical_channel_at [OF c] channel_logical_def key_eqs\<close>)
qed

lemma get_channel_Inr [simp]: "get_channel i ci = Inr c \<longleftrightarrow> bm_get (db_channels (in_db i)) (channel_key ci) = Some c"
  by (auto simp: get_channel_def okOr_def split: option.splits)

lemma get_enabled_channel_Inr [simp]:
  "get_enabled_channel i ci = Inr c \<longleftrightarrow> bm_get (db_channels (in_db i)) (channel_key ci) = Some c \<and> ch_enabled c"
  by (auto simp: get_enabled_channel_def bindR_eq_Inr)

lemma get_set_channel [simp]:
  "canonical_db (in_db i) \<Longrightarrow> bm_get (db_channels (in_db (set_channel ci c i))) (channel_key cj) =
     (if cj = ci then Some c else bm_get (db_channels (in_db i)) (channel_key cj))"
  by (simp add: set_channel_def get_put_channel)

lemma channel_writes_set: "canonical_db (in_db i) \<Longrightarrow> in_db i' = in_db (set_channel ci c i) \<Longrightarrow> channel_writes ci i' = [upsert_channel_mutation ci c]"
  by (simp add: channel_writes_def)

lemma writes_match_canonical: "(canonical_db (in_db i) \<Longrightarrow> writes_match i ms i') \<Longrightarrow> writes_match i ms i'"
  by (simp add: writes_match_def)

lemma start_job_writes:
  assumes "bm_get (db_channels (in_db i)) (channel_key ci) = Some c" and "i' = start_job jid ci idx planned c i"
  shows "writes_match i (channel_writes ci i') i'"
proof (rule writes_match_canonical)
  assume can: "canonical_db (in_db i)"
  let ?c = "c\<lparr>ch_attempted_checked_units := sat_add (ch_attempted_checked_units c) planned\<rparr>"
  have db: "in_db i' = in_db (set_channel ci ?c i)" by (simp add: assms(2) start_job_def Let_def)
  have "writes_match i [upsert_channel_mutation ci ?c] (set_channel ci ?c i)" by (rule writes_scalars [OF assms(1)]) simp_all
  then show "writes_match i (channel_writes ci i') i'"
    unfolding channel_writes_set [OF can db] by (rule writes_match_jobs [OF db])
qed

lemma begin_precompute_writes:
  "begin_precompute_locked sha256 w ci idx peer planned i = Inr ((start, ms), i') \<Longrightarrow> writes_match i ms i'"
  by (auto simp: begin_precompute_locked_def bindR_eq_Inr Let_def writes_match_same split: if_splits
      intro!: writes_match_from [where i = i, OF _ start_job_writes [OF _ refl]])

lemma begin_incoming_writes:
  "begin_incoming_locked w g idx planned i = Inr ((jid, ms), i') \<Longrightarrow> writes_match i ms i'"
  by (auto simp: begin_incoming_locked_def bindR_eq_Inr Let_def split: if_splits intro!: start_job_writes)

lemma record_failed_writes:
  assumes "record_failed_locked ci planned i = Inr (ms, i')"
  shows "writes_match i ms i'"
proof (rule writes_match_canonical)
  assume can: "canonical_db (in_db i)"
  from assms obtain c where c: "bm_get (db_channels (in_db i)) (channel_key ci) = Some c"
    and i': "i' = set_channel ci (c\<lparr>ch_attempted_checked_units := sat_add (ch_attempted_checked_units c) planned,
                        ch_failed_precompute_jobs := sat_add (ch_failed_precompute_jobs c) 1\<rparr>) i" and ms: "ms = channel_writes ci i'"
    by (auto simp: record_failed_locked_def bindR_eq_Inr Let_def)
  show "writes_match i ms i'" unfolding ms channel_writes_set [OF can arg_cong [where f = in_db, OF i']]
    unfolding i' by (rule writes_scalars [OF c]) simp_all
qed

lemma finish_job_writes: "finish_job_locked jid failed i = (ms, i') \<Longrightarrow> writes_match i ms i'"
  by (auto simp: finish_job_locked_def Let_def writes_match_same split: option.splits if_splits
      intro!: writes_match_from [where i = i, OF _ writes_scalars])

lemma insert_node_logical:
  "upsert_frontier_mutation ci m r = Upsert (frontier_lkey ci m) (record_at (frontier_lkey ci m) (Frontier r))"
  by (simp add: upsert_frontier_mutation_def record_at_def lkeys)

lemma store_node_writes:
  assumes "store_node_locked sha256 ci m wires i = Inr (ms, i')"
  shows "writes_match i ms i'"
proof -
  from assms obtain b c where c: "bm_get (db_channels (in_db i)) (channel_key ci) = Some c"
    and ms: "ms = [upsert_frontier_mutation ci m (new_wire_record b wires)]"
    and i': "i' = set_channel ci (c\<lparr>ch_frontier_nodes := bm_insert (node_key m) (new_wire_record b wires) (ch_frontier_nodes c)\<rparr>) i"
    by (auto simp: store_node_locked_def bindR_eq_Inr Let_def)
  show ?thesis unfolding i' ms
    by (rule writes_nodes [OF c])
       (use record_type_neqs in \<open>auto simp: insert_node_logical key_eqs channel_logical_def logical_channel_at [OF c] record_at_def scalars_def\<close>)
qed

lemma store_precomputed_writes:
  assumes "store_precomputed_locked sha256 ci jid planned m wires i = Inr (ms, i')"
  shows "writes_match i ms i'"
proof -
  from assms obtain b c where c: "bm_get (db_channels (in_db i)) (channel_key ci) = Some c"
    and i': "i' = (let c' = c\<lparr>ch_frontier_nodes := bm_insert (node_key m) (new_wire_record b wires) (ch_frontier_nodes c),
        ch_estimated_checked_units := sat_add (ch_estimated_checked_units c) planned\<rparr>; i = set_channel ci c' i
        in i\<lparr>in_active_jobs := bm_remove jid (in_active_jobs i)\<rparr>)"
    and ms: "ms = [upsert_frontier_mutation ci m (new_wire_record b wires), upsert_channel_mutation ci
        (c\<lparr>ch_frontier_nodes := bm_insert (node_key m) (new_wire_record b wires) (ch_frontier_nodes c),
        ch_estimated_checked_units := sat_add (ch_estimated_checked_units c) planned\<rparr>)]"
    by (auto simp: store_precomputed_locked_def bindR_eq_Inr Let_def)
  show ?thesis unfolding i' ms Let_def
    by (rule writes_match_jobs [rotated], rule writes_nodes [OF c])
       (use record_type_neqs in \<open>auto simp: insert_node_logical upsert_channel_mutation_def key_eqs channel_logical_def
          logical_channel_at [OF c] record_at_def scalars_def set_channel_def\<close>)
qed

lemma derive_self: "daemon_derive_from_known sha256 i s i = Some s"
  by (simp add: daemon_derive_from_known_def daemon_set_bits_desc_def Let_def)

lemma redundant_or_drops_spec:
  assumes "redundant_or_drops sha256 index secret es ds = Inr (red, ds')" and "fst ` set es \<subseteq> range node_key"
  shows "\<exists>js. ds' = ds @ map node_key js \<and> index \<notin> set js \<and> node_key ` set js \<subseteq> fst ` set es"
  using assms
proof (induction sha256 index secret es ds arbitrary: red ds' rule: redundant_or_drops.induct)
  case (1 sha256 index secret drop_keys)
  then show ?case by (auto intro: exI [of _ "[]"])
next
  case (2 sha256 index secret s hex rest drop_keys)
  from "2.prems"(2) obtain j where s: "s = node_key j" by auto
  from "2.prems"(1) obtain stored where v: "value_from_hex hex = Inr stored"
    by (auto simp: s bindR_eq_Inr)
  have rest: "fst ` set rest \<subseteq> range node_key" using "2.prems"(2) by auto
  have p: "parse_u64 s = Some j" by (simp add: s)
  have m: "mapErr (\<lambda>e. DParse (show_parse_error e)) (value_from_hex hex) = Inr stored" by (simp add: v)
  consider (red) "daemon_derive_from_known sha256 j stored index = Some secret"
    | (drop) "daemon_derive_from_known sha256 j stored index \<noteq> Some secret" "daemon_derive_from_known sha256 index secret j = Some stored"
    | (keep) "daemon_derive_from_known sha256 j stored index \<noteq> Some secret" "daemon_derive_from_known sha256 index secret j \<noteq> Some stored"
    by blast
  then show ?case
  proof cases
    case red
    then have "ds' = drop_keys" using "2.prems"(1) by (simp add: s v)
    then show ?thesis by (auto intro: exI [of _ "[]"])
  next
    case drop
    have ne: "j \<noteq> index" using drop by (auto simp: derive_self)
    have "redundant_or_drops sha256 index secret rest (drop_keys @ [s]) = Inr (red, ds')"
      using "2.prems"(1) drop by (simp add: s v)
    from "2.IH"(2) [OF p drop this rest] obtain js where
      "ds' = (drop_keys @ [s]) @ map node_key js" "index \<notin> set js" "node_key ` set js \<subseteq> fst ` set rest" by blast
    then show ?thesis using ne by (intro exI [of _ "j # js"]) (auto simp: s)
  next
    case keep
    have "redundant_or_drops sha256 index secret rest drop_keys = Inr (red, ds')"
      using "2.prems"(1) keep by (simp add: s v)
    from "2.IH"(3) [OF p keep this rest] show ?thesis by auto
  qed
qed


lemma map_filter_node_keys [simp]: "List.map_filter parse_u64 (map node_key js) = js"
  by (induction js) (simp_all add: List.map_filter_simps)

lemma store_known_writes:
  assumes "store_known_locked sha256 ci idx expected secret i = Inr (ms, i')"
  shows "writes_match i ms i'"
proof (rule writes_match_canonical)
  assume can: "canonical_db (in_db i)"
  let ?k = "index_get idx"
  from assms obtain c red drops where c: "bm_get (db_channels (in_db i)) (channel_key ci) = Some c"
    and r: "redundant_or_drops sha256 ?k secret (ch_known_secrets c) [] = Inr (red, drops)"
    by (auto simp: store_known_locked_def bindR_eq_Inr Let_def)
  note cc = canonical_channel [OF can c]
  from redundant_or_drops_spec [OF r] cc(1) obtain js where js: "drops = map node_key js" "?k \<notin> set js"
    by (auto simp: canonical_keys_def)
  define c' where "c' = c\<lparr>ch_known_secrets := (if red then ch_known_secrets c else
       bm_insert (node_key ?k) (value_to_hex secret) (fold bm_remove (map node_key js) (ch_known_secrets c))),
     ch_frontier_nodes := bm_remove (node_key ?k) (ch_frontier_nodes c), ch_last_observed_next_reveal_index := Some (sat_sub expected 1)\<rparr>"
  have i': "i' = set_channel ci c' i"
    and ms: "ms = (if red then [] else upsert_secret_mutation ci ?k (value_to_hex secret) # map (delete_secret_mutation ci) js) @
       [delete_frontier_mutation ci ?k, upsert_channel_mutation ci c']"
    using assms c r by (auto simp: store_known_locked_def bindR_eq_Inr Let_def js(1) c'_def dec_string_key)
  have keys: "canonical_keys (ch_known_secrets c')" "canonical_keys (ch_frontier_nodes c')"
    using cc by (simp_all add: c'_def canonical_keys_folds)
  have cf: "canonical_keys (fold bm_remove (map node_key js) (ch_known_secrets c))" using cc by blast
  have dk: "delete_frontier_mutation ci ?k = Delete (frontier_lkey ci ?k)"
    and uk: "upsert_channel_mutation ci c' = Upsert (channel_lkey ci) (record_at (channel_lkey ci) (ChannelPayload (scalars c')))"
    and us: "upsert_secret_mutation ci ?k h = Upsert (secret_lkey ci ?k) (record_at (secret_lkey ci ?k) (Secret h))" for h
    by (simp_all add: mutation_defs record_at_def lkeys)
  have ap: "fold apply_logical ms l k =
      (if k = channel_lkey ci then Some (ChannelPayload (scalars c'))
       else if k = frontier_lkey ci ?k then None
       else if \<not> red \<and> k = secret_lkey ci ?k then Some (Secret (value_to_hex secret))
       else if \<not> red \<and> lk_record_type k = RECORD_SECRET \<and> lk_channel_index k = ci \<and> lk_sub_id k \<in> set js then None
       else l k)" for l k
    using js(2) record_type_neqs by (auto simp: ms dk uk us fold_delete_secrets key_eqs record_at_def)
  show "writes_match i ms i'" unfolding writes_match_def
  proof (intro impI conjI)
    show "canonical_db (in_db i')" using canonical_put_channel [OF can keys] by (simp add: i' in_db_set_channel)
    show "list_all proper ms" by (auto simp: ms list_all_iff)
    show "logical_of (in_db i') = fold apply_logical ms (logical_of (in_db i))"
      unfolding i' in_db_set_channel
      by (rule logical_update [OF can], unfold ap)
         (use record_type_neqs cf js(2) in \<open>auto simp: logical_channel_at [OF c] channel_logical_def key_eqs c'_def
            get_fold_node_keys scalars_def\<close>)
  qed
qed

lemma map_filter_drops:
  assumes "fst ` set es \<subseteq> range node_key"
  shows "\<exists>js. map fst (filter P es) = map node_key js \<and> List.map_filter parse_u64 (map fst (filter P es)) = js
    \<and> (\<forall>j. j \<in> set js \<longleftrightarrow> (\<exists>v. (node_key j, v) \<in> set es \<and> P (node_key j, v)))"
proof -
  have "\<exists>js. map fst (filter P es) = map node_key js \<and> (\<forall>j. j \<in> set js \<longleftrightarrow> (\<exists>v. (node_key j, v) \<in> set es \<and> P (node_key j, v)))"
    using assms
  proof (induction es)
    case Nil
    then show ?case by (intro exI [of _ "[]"]) simp
  next
    case (Cons e es)
    then obtain js where js: "map fst (filter P es) = map node_key js"
        "\<forall>j. j \<in> set js \<longleftrightarrow> (\<exists>v. (node_key j, v) \<in> set es \<and> P (node_key j, v))" by auto
    from Cons.prems obtain j v where e: "e = (node_key j, v)" by (cases e) auto
    show ?case
      using js by (intro exI [of _ "(if P e then [j] else []) @ js"]) (auto simp: e)
  qed
  then show ?thesis using map_filter_node_keys by metis
qed

lemma reconcile_writes:
  assumes "reconcile_locked ci response i = (ms, i')"
  shows "writes_match i ms i'"
proof (cases "bm_get (db_channels (in_db i)) (channel_key ci)")
  case None
  then show ?thesis using assms by (simp add: reconcile_locked_def writes_match_same)
next
  case (Some c)
  show ?thesis
  proof (rule writes_match_canonical)
    assume can: "canonical_db (in_db i)"
    let ?P = "\<lambda>(mask_s, node). case parse_u64 mask_s of None \<Rightarrow> True
                | Some m \<Rightarrow> peer_bindings (gf_nodes response) m \<noteq> Some (wr_public_binding_hex node)"
    from canonical_channel(2) [OF can Some] have "fst ` set (ch_frontier_nodes c) \<subseteq> range node_key"
      by (simp add: canonical_keys_def)
    from map_filter_drops [OF this, of ?P] obtain js where
      js: "map fst (filter ?P (ch_frontier_nodes c)) = map node_key js" by blast
    let ?c = "c\<lparr>ch_frontier_nodes := fold bm_remove (map node_key js) (ch_frontier_nodes c)\<rparr>"
    have i': "i' = set_channel ci ?c i" and ms: "ms = map (delete_frontier_mutation ci) js"
      using assms Some js by (auto simp: reconcile_locked_def Let_def)
    show "writes_match i ms i'" unfolding i' ms
      by (rule writes_nodes [OF Some])
         (use record_type_neqs in \<open>auto simp: fold_delete_nodes key_eqs channel_logical_def logical_channel_at [OF Some]
            scalars_def get_fold_node_keys list_all_iff\<close>)
  qed
qed

lemma enable_channel_writes:
  assumes "enable_channel_locked req i = ((response, ms), i')"
  shows "writes_match i ms i'"
proof (cases "bm_get (db_channels (in_db i)) (channel_key (eq_channel_index req))")
  case None
  then show ?thesis using assms
    by (auto simp: enable_channel_locked_def Let_def intro!: writes_new_channel)
next
  case (Some c)
  then show ?thesis using assms
    by (auto simp: enable_channel_locked_def Let_def intro!: writes_scalars)
qed

lemma disable_channel_writes:
  assumes "disable_channel_locked ci i = Inr ((response, ms), i')"
  shows "writes_match i ms i'"
proof (rule writes_match_canonical)
  assume can: "canonical_db (in_db i)"
  from assms obtain c where c: "bm_get (db_channels (in_db i)) (channel_key ci) = Some c"
    by (auto simp: disable_channel_locked_def bindR_eq_Inr split: if_splits)
  from canonical_channel(2) [OF can c] have "fst ` set (ch_frontier_nodes c) \<subseteq> range node_key"
    by (simp add: canonical_keys_def)
  from map_filter_drops [OF this, of "\<lambda>_. True"] obtain js where
    js: "map fst (ch_frontier_nodes c) = map node_key js"
        "\<forall>j. j \<in> set js \<longleftrightarrow> (\<exists>v. (node_key j, v) \<in> set (ch_frontier_nodes c))" by auto
  let ?c = "c\<lparr>ch_enabled := False, ch_frontier_nodes := []\<rparr>"
  have i': "i' = set_channel ci ?c i"
    and ms: "ms = upsert_channel_mutation ci ?c # map (delete_frontier_mutation ci) js"
    using assms c js(1) by (auto simp: disable_channel_locked_def bindR_eq_Inr Let_def bm_keys_def split: if_splits)
  have none: "bm_get (ch_frontier_nodes c) (node_key j) = None" if "j \<notin> set js" for j
    using that js(2) by (cases "bm_get (ch_frontier_nodes c) (node_key j)") (auto dest: bm_get_in_set)
  show "writes_match i ms i'" unfolding i' ms
    by (rule writes_nodes [OF c])
       (use record_type_neqs in \<open>auto simp: fold_delete_nodes key_eqs channel_logical_def logical_channel_at [OF c]
          upsert_channel_mutation_def record_at_def list_all_iff none\<close>)
qed

section \<open>The encrypted table\<close>

text \<open>
  What the store relies on: the 32-byte HMAC does not collide on the keys it names, AES-GCM opens what it
  sealed and its tag has 16 bytes, serde reads back what it wrote, and nonces have 12 bytes.
\<close>

definition store_env_ok :: "store_env \<Rightarrow> db_subkeys \<Rightarrow> bool" where
  "store_env_ok env sk \<longleftrightarrow>
     (\<forall>k. length (stored_key env sk k) = 32) \<and> inj (stored_key env sk)
     \<and> (\<forall>nonce aad p c tag. se_encrypt env (sk_value_aead sk) nonce aad p = Inr (c, tag) \<longrightarrow>
          length tag = DB_TAG_LEN \<and> se_decrypt env (sk_value_aead sk) nonce aad c tag = Inr p)
     \<and> (\<forall>r p. se_record_to_json env r = Inr p \<longrightarrow> se_record_from_json env p = Inr r)"

definition nonces_ok :: "(nat \<Rightarrow> string + bytes) \<Rightarrow> bool" where
  "nonces_ok random \<longleftrightarrow> (\<forall>n b. random n = Inr b \<longrightarrow> length b = DB_NONCE_LEN)"

definition table_holds :: "store_env \<Rightarrow> db_subkeys \<Rightarrow> table \<Rightarrow> logical_store \<Rightarrow> bool" where
  \<comment> \<open>the table holds exactly the records of the logical store\<close>
  "table_holds env sk t l \<longleftrightarrow> bm_inv t
     \<and> (\<forall>key v. bm_get t key = Some v \<longrightarrow>
          (\<exists>k p. key = stored_key env sk k \<and> l k = Some p \<and> decrypt_stored_record env sk key v = Inr (record_at k p)))
     \<and> (\<forall>k p. l k = Some p \<longrightarrow> bm_get t (stored_key env sk k) \<noteq> None)"

lemma decrypt_encrypt:
  assumes "store_env_ok env sk" and "encrypt_stored_record env sk random (stored_key env sk k) r = Inr v"
    and "\<forall>b. random = Inr b \<longrightarrow> length b = DB_NONCE_LEN"
  shows "decrypt_stored_record env sk (stored_key env sk k) v = Inr r"
proof -
  from assms(2) obtain p n c tag where p: "se_record_to_json env r = Inr p" and n: "random = Inr n"
    and e: "se_encrypt env (sk_value_aead sk) n (stored_key env sk k) p = Inr (c, tag)" and v: "v = n @ tag @ c"
    by (auto simp: encrypt_stored_record_def bindR_eq_Inr)
  have "length n = DB_NONCE_LEN" using assms(3) n by simp
  moreover have "length tag = DB_TAG_LEN" "se_decrypt env (sk_value_aead sk) n (stored_key env sk k) c tag = Inr p"
    and "se_record_from_json env p = Inr r" and "length (stored_key env sk k) = 32"
    using assms(1) e p by (auto simp: store_env_ok_def)
  ultimately show ?thesis by (simp add: decrypt_stored_record_def v Let_def)
qed

lemma table_holds_upsert:
  assumes ok: "store_env_ok env sk" and t: "table_holds env sk t l"
    and d: "decrypt_stored_record env sk (stored_key env sk k) v = Inr (record_at k p)"
  shows "table_holds env sk (bm_insert (stored_key env sk k) v t) (l(k \<mapsto> p))"
proof -
  have inv: "bm_inv t" using t by (simp add: table_holds_def)
  have inj: "stored_key env sk a = stored_key env sk b \<longleftrightarrow> a = b" for a b
    using ok by (auto simp: store_env_ok_def dest: injD)
  show ?thesis unfolding table_holds_def
  proof (intro conjI allI impI)
    show "bm_inv (bm_insert (stored_key env sk k) v t)" using inv by simp
    show "\<exists>k' p'. key = stored_key env sk k' \<and> (l(k \<mapsto> p)) k' = Some p' \<and> decrypt_stored_record env sk key w = Inr (record_at k' p')"
      if g: "bm_get (bm_insert (stored_key env sk k) v t) key = Some w" for key w
    proof (cases "key = stored_key env sk k")
      case True
      then show ?thesis using g d inv by (intro exI [of _ k] exI [of _ p]) simp
    next
      case False
      then have "bm_get t key = Some w" using g inv by simp
      then obtain k' p' where k': "key = stored_key env sk k'" "l k' = Some p'" "decrypt_stored_record env sk key w = Inr (record_at k' p')"
        using t unfolding table_holds_def by blast
      then have "k' \<noteq> k" using False by auto
      then show ?thesis using k' by (intro exI [of _ k'] exI [of _ p']) simp
    qed
    show "bm_get (bm_insert (stored_key env sk k) v t) (stored_key env sk k') \<noteq> None" if "(l(k \<mapsto> p)) k' = Some p'" for k' p'
      using that t inv by (auto simp: table_holds_def split: if_splits)
  qed
qed

lemma table_holds_delete:
  assumes ok: "store_env_ok env sk" and t: "table_holds env sk t l"
  shows "table_holds env sk (bm_remove (stored_key env sk k) t) (l(k := None))"
proof -
  have inv: "bm_inv t" using t by (simp add: table_holds_def)
  have inj: "stored_key env sk a = stored_key env sk b \<longleftrightarrow> a = b" for a b
    using ok by (auto simp: store_env_ok_def dest: injD)
  show ?thesis unfolding table_holds_def
  proof (intro conjI allI impI)
    show "bm_inv (bm_remove (stored_key env sk k) t)" using inv by simp
    show "\<exists>k' p'. key = stored_key env sk k' \<and> (l(k := None)) k' = Some p' \<and> decrypt_stored_record env sk key w = Inr (record_at k' p')"
      if g: "bm_get (bm_remove (stored_key env sk k) t) key = Some w" for key w
    proof -
      have g': "bm_get t key = Some w" "key \<noteq> stored_key env sk k" using g by (auto split: if_splits)
      then obtain k' p' where k': "key = stored_key env sk k'" "l k' = Some p'" "decrypt_stored_record env sk key w = Inr (record_at k' p')"
        using t unfolding table_holds_def by blast
      then have "k' \<noteq> k" using g'(2) by auto
      then show ?thesis using k' by (intro exI [of _ k'] exI [of _ p']) simp
    qed
    show "bm_get (bm_remove (stored_key env sk k) t) (stored_key env sk k') \<noteq> None" if "(l(k := None)) k' = Some p'" for k' p'
      using that t by (auto simp: table_holds_def inj split: if_splits)
  qed
qed

lemma apply_mutation_holds:
  assumes "store_env_ok env sk" and "table_holds env sk t l" and "keyed m"
    and "\<forall>b. random = Inr b \<longrightarrow> length b = DB_NONCE_LEN" and "apply_mutation env sk (random, m) t = Inr t'"
  shows "table_holds env sk t' (apply_logical m l)"
proof (cases m)
  case (Upsert k r)
  then have r: "r = record_at k (sr_payload r)" using assms(3) by simp
  from assms(5) obtain v where e: "encrypt_stored_record env sk random (stored_key env sk k) r = Inr v"
    and t': "t' = bm_insert (stored_key env sk k) v t" by (auto simp: Upsert Let_def bindR_eq_Inr)
  show ?thesis using table_holds_upsert [OF assms(1,2), of k v "sr_payload r"] decrypt_encrypt [OF assms(1) e assms(4)] r t' Upsert
    by simp
next
  case (Delete k)
  then show ?thesis using assms table_holds_delete by auto
qed

lemma apply_mutations_holds:
  assumes ok: "store_env_ok env sk" and "nonces_ok random" and "list_all keyed ms"
    and "table_holds env sk (rd_table db) l" and "apply_mutations env sk random ms durability db = Inr db'"
  shows "table_holds env sk (rd_table db') (fold apply_logical ms l)"
proof -
  have "table_holds env sk t' (fold apply_logical ms l)"
    if "foldR (apply_mutation env sk) (zip rs ms) t = Inr t'" "length rs = length ms"
       "\<forall>r \<in> set rs. \<forall>b. r = Inr b \<longrightarrow> length b = DB_NONCE_LEN" "table_holds env sk t l" "list_all keyed ms" for t t' l rs
    using that
  proof (induction ms arbitrary: t l rs)
    case (Cons m ms)
    then obtain r rs' where rs: "rs = r # rs'" by (cases rs) auto
    from Cons.prems(1) obtain t1 where t1: "apply_mutation env sk (r, m) t = Inr t1"
      and rest: "foldR (apply_mutation env sk) (zip rs' ms) t1 = Inr t'" by (auto simp: rs bindR_eq_Inr)
    have "table_holds env sk t1 (apply_logical m l)"
      by (rule apply_mutation_holds [OF ok Cons.prems(4) _ _ t1]) (use Cons.prems rs in auto)
    from Cons.IH [OF rest _ _ this] show ?case using Cons.prems rs by simp
  qed simp
  note fold = this
  obtain t' where t': "foldR (apply_mutation env sk) (zip (map random [0..<length ms]) ms) (rd_table db) = Inr t'"
    and db': "rd_table db' = t'" using assms(5) by (auto simp: apply_mutations_def bindR_eq_Inr commit_def)
  show ?thesis unfolding db' by (rule fold [OF t']) (use assms in \<open>auto simp: nonces_ok_def\<close>)
qed

section \<open>Loading\<close>

definition loading :: "logical_store \<Rightarrow> logical_key set \<Rightarrow> plain_db \<Rightarrow> bool" where
  \<comment> \<open>what the state holds once the records of \<open>s\<close> have been read\<close>
  "loading l s p \<longleftrightarrow> canonical_db p
     \<and> (\<forall>k \<in> s. k \<noteq> meta_key \<longrightarrow> l k \<noteq> None \<and> logical_of p k = l k)
     \<and> (\<forall>k. k \<notin> s \<longrightarrow> lk_record_type k \<noteq> RECORD_CHANNEL \<longrightarrow> k \<noteq> meta_key \<longrightarrow> logical_of p k = None)
     \<and> (\<forall>c. bm_get (db_channels p) (channel_key c) \<noteq> None \<longrightarrow> (\<exists>k \<in> s. k \<noteq> meta_key \<and> lk_channel_index k = c))"

lemma logical_of_cases:
  assumes "logical_of db k = Some p" and "k \<noteq> meta_key"
  obtains (channel) c where "bm_get (db_channels db) (channel_key (lk_channel_index k)) = Some c" "k = channel_lkey (lk_channel_index k)"
      "p = ChannelPayload (scalars c)"
  | (secret) c h where "bm_get (db_channels db) (channel_key (lk_channel_index k)) = Some c" "lk_record_type k = RECORD_SECRET"
      "p = Secret h" "bm_get (ch_known_secrets c) (node_key (lk_sub_id k)) = Some h"
  | (frontier) c w where "bm_get (db_channels db) (channel_key (lk_channel_index k)) = Some c" "lk_record_type k = RECORD_FRONTIER"
      "p = Frontier w" "bm_get (ch_frontier_nodes c) (node_key (lk_sub_id k)) = Some w"
  using assms by (auto simp: logical_of_def channel_logical_def key_eqs split: option.splits if_splits)

lemma apply_scalars_sel [simp]:
  "scalars (apply_scalars s c) = s" "ch_known_secrets (apply_scalars s c) = ch_known_secrets c"
  "ch_frontier_nodes (apply_scalars s c) = ch_frontier_nodes c"
  by (simp_all add: scalars_def apply_scalars_def)

lemma entry_canonical: "canonical_db p \<Longrightarrow> canonical_keys (ch_known_secrets (entry_or_empty c p)) \<and> canonical_keys (ch_frontier_nodes (entry_or_empty c p))"
  by (auto simp: entry_or_empty_def empty_channel_record_def dest: canonical_channel split: option.splits)

lemma entry_logical:
  assumes "canonical_db p" and "k \<noteq> meta_key" and "lk_channel_index k = c" and "lk_record_type k \<noteq> RECORD_CHANNEL"
  shows "channel_logical (entry_or_empty c p) k = logical_of p k"
  using assms by (auto simp: entry_or_empty_def logical_of_def channel_logical_def empty_channel_record_def split: option.splits)


definition load_step :: "logical_key \<Rightarrow> stored_payload \<Rightarrow> plain_db \<Rightarrow> plain_db" where
  "load_step k p db =
     (let c = entry_or_empty (lk_channel_index k) db in
      case p of Meta _ \<Rightarrow> db
      | ChannelPayload s \<Rightarrow> put_channel (lk_channel_index k) (apply_scalars s c) db
      | Secret h \<Rightarrow> put_channel (lk_channel_index k) (c\<lparr>ch_known_secrets := bm_insert (node_key (lk_sub_id k)) h (ch_known_secrets c)\<rparr>) db
      | Frontier w \<Rightarrow> put_channel (lk_channel_index k) (c\<lparr>ch_frontier_nodes := bm_insert (node_key (lk_sub_id k)) w (ch_frontier_nodes c)\<rparr>) db)"

lemma apply_stored_record_at:
  assumes "logical_of db k = Some p"
  shows "apply_stored_record (record_at k p) q = Inr (load_step k p q)"
proof (cases "k = meta_key")
  case True
  then have "p = Meta (to_hex REDB_META_VERIFIER)" using assms by (simp add: logical_of_def meta_record_def)
  then show ?thesis using True
    by (simp add: apply_stored_record_def load_step_def validate_meta_record_def record_at_def meta_key_def)
next
  case False
  from assms False show ?thesis
  proof (cases rule: logical_of_cases)
    case (channel c)
    then show ?thesis by (simp add: apply_stored_record_def load_step_def record_at_def Let_def key_eqs)
  next
    case (secret c h)
    then show ?thesis by (simp add: apply_stored_record_def load_step_def record_at_def Let_def dec_string_key)
  next
    case (frontier c w)
    then show ?thesis by (simp add: apply_stored_record_def load_step_def record_at_def Let_def dec_string_key)
  qed
qed

lemma channel_key_logical:
  assumes "canonical_db q" and "logical_of q k \<noteq> None" and "lk_record_type k = RECORD_CHANNEL" and "k \<noteq> meta_key"
  shows "channel_logical (entry_or_empty (lk_channel_index k) q) k = logical_of q k"
  using assms by (auto simp: entry_or_empty_def logical_of_def split: option.splits)

lemma key_ext: "(k :: logical_key) = k' \<longleftrightarrow>
    lk_record_type k = lk_record_type k' \<and> lk_channel_index k = lk_channel_index k' \<and> lk_sub_id k = lk_sub_id k'"
  by (auto intro: logical_key.equality)

lemma load_step_put:
  assumes p: "logical_of db k = Some p" and can: "canonical_db q" and "k \<noteq> meta_key"
  shows "\<exists>c'. load_step k p q = put_channel (lk_channel_index k) c' q
      \<and> canonical_keys (ch_known_secrets c') \<and> canonical_keys (ch_frontier_nodes c')
      \<and> channel_logical c' k = Some p
      \<and> (\<forall>k'. k' \<noteq> k \<longrightarrow> k' \<noteq> meta_key \<longrightarrow> lk_channel_index k' = lk_channel_index k \<longrightarrow>
            lk_record_type k' \<noteq> RECORD_CHANNEL \<or> logical_of q k' \<noteq> None \<longrightarrow> channel_logical c' k' = logical_of q k')"
proof -
  let ?i = "lk_channel_index k" and ?c = "entry_or_empty (lk_channel_index k) q"
  note ec = entry_canonical [OF can, of ?i]
  have same: "channel_logical ?c k' = logical_of q k'"
    if "k' \<noteq> meta_key" "lk_channel_index k' = ?i" "lk_record_type k' \<noteq> RECORD_CHANNEL \<or> logical_of q k' \<noteq> None" for k'
    using that entry_logical [OF can, of k' ?i] channel_key_logical [OF can, of k'] by auto
  from p assms(3) show ?thesis
  proof (cases rule: logical_of_cases)
    case (channel c)
    let ?c' = "apply_scalars (scalars c) ?c"
    have "channel_logical ?c' k' = channel_logical ?c k'" if "k' \<noteq> k" "lk_channel_index k' = ?i" for k'
      using that channel record_type_neqs by (auto simp: channel_logical_def key_eqs key_ext [of k' k])
    moreover have "channel_logical ?c' k = Some p" using channel by (simp add: channel_logical_def key_eqs)
    moreover have "load_step k p q = put_channel ?i ?c' q" using channel by (simp add: load_step_def Let_def)
    ultimately show ?thesis using same ec by (intro exI [of _ ?c']) simp
  next
    case (secret c h)
    let ?c' = "?c\<lparr>ch_known_secrets := bm_insert (node_key (lk_sub_id k)) h (ch_known_secrets ?c)\<rparr>"
    have "channel_logical ?c' k' = channel_logical ?c k'" if "k' \<noteq> k" "lk_channel_index k' = ?i" for k'
      using that secret ec by (auto simp: channel_logical_def key_ext [of k' k] scalars_def)
    moreover have "channel_logical ?c' k = Some p" using secret ec record_type_neqs by (simp add: channel_logical_def)
    moreover have "load_step k p q = put_channel ?i ?c' q" using secret by (simp add: load_step_def Let_def)
    ultimately show ?thesis using same ec by (intro exI [of _ ?c']) simp
  next
    case (frontier c w)
    let ?c' = "?c\<lparr>ch_frontier_nodes := bm_insert (node_key (lk_sub_id k)) w (ch_frontier_nodes ?c)\<rparr>"
    have "channel_logical ?c' k' = channel_logical ?c k'" if "k' \<noteq> k" "lk_channel_index k' = ?i" for k'
      using that frontier ec by (auto simp: channel_logical_def key_ext [of k' k] scalars_def)
    moreover have "channel_logical ?c' k = Some p" using frontier ec record_type_neqs by (simp add: channel_logical_def)
    moreover have "load_step k p q = put_channel ?i ?c' q" using frontier by (simp add: load_step_def Let_def)
    ultimately show ?thesis using same ec by (intro exI [of _ ?c']) simp
  qed
qed

text \<open>Reading one record of the store adds what the store has at its key.\<close>

lemma load_step_loading:
  assumes p: "logical_of db k = Some p" and l: "loading (logical_of db) s q" and k: "k \<notin> s"
  shows "loading (logical_of db) (insert k s) (load_step k p q)"
proof (cases "k = meta_key")
  case True
  then have "load_step k p q = q" using p by (auto simp: logical_of_def load_step_def meta_record_def)
  then show ?thesis using l True by (auto simp: loading_def)
next
  case False
  have can: "canonical_db q" and old: "\<forall>k'\<in>s. k' \<noteq> meta_key \<longrightarrow> logical_of db k' \<noteq> None \<and> logical_of q k' = logical_of db k'"
    and new: "\<forall>k'. k' \<notin> s \<longrightarrow> lk_record_type k' \<noteq> RECORD_CHANNEL \<longrightarrow> k' \<noteq> meta_key \<longrightarrow> logical_of q k' = None"
    and chans: "\<forall>c. bm_get (db_channels q) (channel_key c) \<noteq> None \<longrightarrow> (\<exists>k'\<in>s. k' \<noteq> meta_key \<and> lk_channel_index k' = c)"
    using l unfolding loading_def by blast+
  from load_step_put [OF p can False] obtain c' where q': "load_step k p q = put_channel (lk_channel_index k) c' q"
    and keys: "canonical_keys (ch_known_secrets c')" "canonical_keys (ch_frontier_nodes c')"
    and at: "channel_logical c' k = Some p"
    and rest: "\<And>k'. k' \<noteq> k \<Longrightarrow> k' \<noteq> meta_key \<Longrightarrow> lk_channel_index k' = lk_channel_index k \<Longrightarrow>
            lk_record_type k' \<noteq> RECORD_CHANNEL \<or> logical_of q k' \<noteq> None \<Longrightarrow> channel_logical c' k' = logical_of q k'" by blast
  have lo: "logical_of (load_step k p q) k' = (if k' \<noteq> meta_key \<and> lk_channel_index k' = lk_channel_index k then channel_logical c' k' else logical_of q k')" for k'
    unfolding q' logical_put_channel [OF can] by simp
  have keep: "logical_of (load_step k p q) k' = logical_of q k'"
    if "k' \<noteq> k" "lk_record_type k' \<noteq> RECORD_CHANNEL \<or> logical_of q k' \<noteq> None" for k'
    using rest [OF that(1) _ _ that(2)] by (simp add: lo)
  show ?thesis unfolding loading_def
  proof (intro conjI ballI allI impI)
    show "canonical_db (load_step k p q)" unfolding q' by (rule canonical_put_channel [OF can keys])
    show "logical_of db k' \<noteq> None" if "k' \<in> insert k s" "k' \<noteq> meta_key" for k' using that old p by auto
    show "logical_of (load_step k p q) k' = logical_of db k'" if k': "k' \<in> insert k s" "k' \<noteq> meta_key" for k'
    proof (cases "k' = k")
      case True then show ?thesis using at p False by (simp add: lo)
    next
      case False then show ?thesis using keep [OF False] old k' by auto
    qed
    show "logical_of (load_step k p q) k' = None" if "k' \<notin> insert k s" "lk_record_type k' \<noteq> RECORD_CHANNEL" "k' \<noteq> meta_key" for k'
      using that keep [of k'] new by simp
    show "\<exists>k'\<in>insert k s. k' \<noteq> meta_key \<and> lk_channel_index k' = c"
      if "bm_get (db_channels (load_step k p q)) (channel_key c) \<noteq> None" for c
      using that chans False by (cases "c = lk_channel_index k") (auto simp: q' get_put_channel [OF can])
  qed
qed

lemma loading_done:
  assumes can: "canonical_db db" and l: "loading (logical_of db) s q" and s: "\<And>k. logical_of db k \<noteq> None \<Longrightarrow> k \<in> s"
  shows "q = db"
proof (rule logical_ext)
  show "canonical_db q" using l by (simp add: loading_def)
  show "canonical_db db" by fact
  show "logical_of q = logical_of db"
  proof
    fix k
    show "logical_of q k = logical_of db k"
    proof (cases "k \<in> s \<or> k = meta_key")
      case True
      then show ?thesis using l by (auto simp: loading_def logical_of_def)
    next
      case False
      then have none: "logical_of db k = None" using s by blast
      show ?thesis
      proof (cases "lk_record_type k = RECORD_CHANNEL \<and> lk_sub_id k = 0")
        case True
        have "bm_get (db_channels q) (channel_key (lk_channel_index k)) = None"
        proof (rule ccontr)
          assume "\<not> ?thesis"
          then obtain k' where k': "k' \<in> s" "k' \<noteq> meta_key" "lk_channel_index k' = lk_channel_index k"
            using l unfolding loading_def by blast
          then have "logical_of db k' \<noteq> None" using l by (auto simp: loading_def)
          then have "bm_get (db_channels db) (channel_key (lk_channel_index k)) \<noteq> None"
            using k' by (auto simp: logical_of_def split: option.splits)
          then show False using none True False by (auto simp: logical_of_def channel_logical_def)
        qed
        then show ?thesis using none False by (simp add: logical_of_def)
      next
        case sub: False
        then show ?thesis using l False none
          by (cases "lk_record_type k = RECORD_CHANNEL") (auto simp: loading_def logical_of_def channel_logical_def split: option.splits)
      qed
    qed
  qed
qed

lemma load_holds:
  assumes ok: "store_env_ok env sk" and t: "table_holds env sk t (logical_of db)" and can: "canonical_db db"
  shows "load_redb_state env sk t = Inr db"
proof -
  have inj: "stored_key env sk a = stored_key env sk b \<longleftrightarrow> a = b" for a b
    using ok by (auto simp: store_env_ok_def dest: injD)
  have inv: "bm_inv t" using t by (simp add: table_holds_def)
  have row: "\<exists>k p. key = stored_key env sk k \<and> logical_of db k = Some p \<and> decrypt_stored_record env sk key v = Inr (record_at k p)"
    if "(key, v) \<in> set t" for key v
    using t bm_in_set_get [OF inv that] unfolding table_holds_def by blast
  have step: "\<exists>q'. foldR (\<lambda>(key, v) db. bindR (decrypt_stored_record env sk key v) (\<lambda>r. apply_stored_record r db)) rows q = Inr q'
      \<and> loading (logical_of db) (s \<union> {k. stored_key env sk k \<in> fst ` set rows}) q'"
    if "set rows \<subseteq> set t" "distinct (map fst rows)" "loading (logical_of db) s q" "\<forall>k\<in>s. stored_key env sk k \<notin> fst ` set rows" for rows q s
    using that
  proof (induction rows arbitrary: q s)
    case Nil
    then show ?case by simp
  next
    case (Cons r rows)
    obtain key v where r: "r = (key, v)" by force
    from Cons.prems(1) r have "(key, v) \<in> set t" by simp
    from row [OF this] obtain k p where k: "key = stored_key env sk k" "logical_of db k = Some p"
      "decrypt_stored_record env sk key v = Inr (record_at k p)" by blast
    have "k \<notin> s" using Cons.prems(4) r k(1) by auto
    from load_step_loading [OF k(2) Cons.prems(3) this]
    have ld: "loading (logical_of db) (insert k s) (load_step k p q)" .
    have ap: "apply_stored_record (record_at k p) q = Inr (load_step k p q)" by (rule apply_stored_record_at [OF k(2)])
    have "\<forall>k'\<in>insert k s. stored_key env sk k' \<notin> fst ` set rows"
      using Cons.prems(2,4) r k(1) by (auto simp: inj)
    with Cons.IH [OF _ _ ld] Cons.prems(1,2) obtain q' where
      "foldR (\<lambda>(key, v) db. bindR (decrypt_stored_record env sk key v) (\<lambda>r. apply_stored_record r db)) rows (load_step k p q) = Inr q'"
      "loading (logical_of db) (insert k s \<union> {k. stored_key env sk k \<in> fst ` set rows}) q'" by auto
    moreover have "insert k s \<union> {k. stored_key env sk k \<in> fst ` set rows} = s \<union> {k. stored_key env sk k \<in> fst ` set (r # rows)}"
      by (auto simp: r k(1) inj)
    ultimately show ?case by (simp add: r k(3) ap)
  qed
  have "loading (logical_of db) {} empty_plain_db"
    by (auto simp: loading_def empty_plain_db_def canonical_db_def logical_of_def)
  from step [OF subset_refl bm_inv_distinct [OF inv] this] obtain q' where
    q': "load_redb_state env sk t = Inr q'" "loading (logical_of db) {k. stored_key env sk k \<in> fst ` set t} q'"
    by (auto simp: load_redb_state_def)
  have "k \<in> {k. stored_key env sk k \<in> fst ` set t}" if "logical_of db k \<noteq> None" for k
    using that t by (force simp: table_holds_def dest: bm_get_in_set)
  from loading_done [OF can q'(2) this] q'(1) show ?thesis by simp
qed

end
