(* ===== verification/Daemon_Writer_Correct.thy ===== *)
theory Daemon_Writer_Correct
  imports Daemon_Store_Correct
begin

text \<open>
  The writer, the restart and the migration: the writer task's invariant over any sequence of submitted
  batches, turns and checkpoints; the relation \<open>daemon_step\<close> of the locked methods, whose mutations the
  writer replays; and the migration of the legacy file with a crash at any point.
\<close>

section \<open>The writer\<close>

text \<open>
  When serde, AES-GCM and the random generator do not fail, neither does the writer.
\<close>

definition store_env_total :: "store_env \<Rightarrow> db_subkeys \<Rightarrow> bool" where
  "store_env_total env sk \<longleftrightarrow> (\<forall>r. \<exists>p. se_record_to_json env r = Inr p)
     \<and> (\<forall>nonce aad p. \<exists>e. se_encrypt env (sk_value_aead sk) nonce aad p = Inr e)"

definition nonces_total :: "(nat \<Rightarrow> string + bytes) \<Rightarrow> bool" where
  "nonces_total random \<longleftrightarrow> (\<forall>n. \<exists>b. random n = Inr b \<and> length b = DB_NONCE_LEN)"

lemma encrypt_total:
  assumes "store_env_total env sk" and "random = Inr b"
  shows "\<exists>v. encrypt_stored_record env sk random key r = Inr v"
proof -
  from assms(1) obtain p where p: "se_record_to_json env r = Inr p" unfolding store_env_total_def by blast
  from assms(1) obtain c tag where "se_encrypt env (sk_value_aead sk) b key p = Inr (c, tag)"
    unfolding store_env_total_def by (metis surj_pair)
  with p assms(2) show ?thesis by (auto simp: encrypt_stored_record_def)
qed

lemma apply_mutations_total:
  assumes env: "store_env_total env sk" and "nonces_total random"
  shows "\<exists>db'. apply_mutations env sk random ms durability db = Inr db' \<and> (durability = Immediate \<longrightarrow> rd_unsynced db' = [])"
proof -
  have "\<exists>t'. foldR (apply_mutation env sk) (zip rs ms) t = Inr t'"
    if "\<forall>r \<in> set rs. \<exists>b. r = Inr b" for rs t
    using that
  proof (induction ms arbitrary: rs t)
    case (Cons m ms)
    show ?case
    proof (cases rs)
      case rs: (Cons r rs')
      obtain b where b: "r = Inr b" using Cons.prems rs by auto
      have "\<exists>t1. apply_mutation env sk (r, m) t = Inr t1"
        using encrypt_total [OF env b] by (cases m) (auto simp: Let_def bindR_eq_Inr)
      then obtain t1 where t1: "apply_mutation env sk (r, m) t = Inr t1" by blast
      have "\<exists>t'. foldR (apply_mutation env sk) (zip rs' ms) t1 = Inr t'" by (rule Cons.IH) (use Cons.prems rs in simp)
      then show ?thesis by (simp add: rs t1)
    qed simp
  qed simp
  then obtain t' where "foldR (apply_mutation env sk) (zip (map random [0..<length ms]) ms) (rd_table db) = Inr t'"
    using assms(2) unfolding nonces_total_def by (metis (no_types, lifting) in_set_conv_nth length_map nth_map)
  then show ?thesis by (auto simp: apply_mutations_def commit_def)
qed

fun op_mutations :: "write_op \<Rightarrow> mutation list" where
  "op_mutations (Batch ms durability) = ms"
| "op_mutations (Flush ack) = []"

definition queued :: "write_op list \<Rightarrow> mutation list" where
  "queued ops = concat (map op_mutations ops)"

lemma queued_simps [simp]:
  "queued [] = []" "queued (op # ops) = op_mutations op @ queued ops" "queued (ops @ ops') = queued ops @ queued ops'"
  by (simp_all add: queued_def)

lemma queued_write_batch [simp]: "queued (write_batch ms durability q) = queued q @ ms"
  by (simp add: write_batch_def)

lemma collect_mutations: "co_mutations (fold collect_write_op ops c) = co_mutations c @ queued ops"
proof (induction ops arbitrary: c)
  case (Cons op ops)
  then show ?case by (cases op) simp_all
qed simp

datatype writer_event =
    SubmitBatch "mutation list" db_durability
  | SubmitFlush nat
  | Turn nat "nat \<Rightarrow> string + bytes"
  | Tick "nat \<Rightarrow> string + bytes"

fun run_event :: "store_env \<Rightarrow> db_subkeys \<Rightarrow> writer_event \<Rightarrow> writer \<Rightarrow> writer" where
  "run_event env sk (SubmitBatch ms durability) w = w\<lparr>wt_queue := write_batch ms durability (wt_queue w)\<rparr>"
| "run_event env sk (SubmitFlush ack) w = w\<lparr>wt_queue := wt_queue w @ [Flush ack]\<rparr>"
| "run_event env sk (Turn n random) w = writer_turn env sk random n w"
| "run_event env sk (Tick random) w = writer_tick env sk random w"

fun submitted :: "writer_event \<Rightarrow> mutation list" where
  "submitted (SubmitBatch ms durability) = ms"
| "submitted (SubmitFlush ack) = []"
| "submitted (Turn n random) = []"
| "submitted (Tick random) = []"

fun generator_works :: "writer_event \<Rightarrow> bool" where
  "generator_works (Turn n random) = nonces_total random"
| "generator_works (Tick random) = nonces_total random"
| "generator_works e = True"

definition event_ok :: "writer_event \<Rightarrow> bool" where
  "event_ok e \<longleftrightarrow> list_all proper (submitted e) \<and> generator_works e"

text \<open>
  The writer's invariant: the table with the queued mutations still to come is the logical store \<open>l\<close> after
  all submitted ones; the queue holds no empty batch; and a table that is not dirty is on the disk.
\<close>

definition writer_inv :: "store_env \<Rightarrow> db_subkeys \<Rightarrow> logical_store \<Rightarrow> writer \<Rightarrow> bool" where
  "writer_inv env sk l w \<longleftrightarrow>
     (\<exists>l0. table_holds env sk (rd_table (wt_db w)) l0 \<and> l0 meta_key = Some (sr_payload meta_record)
        \<and> fold apply_logical (queued (wt_queue w)) l0 = l)
     \<and> list_all proper (queued (wt_queue w)) \<and> (\<forall>d. Batch [] d \<notin> set (wt_queue w))
     \<and> (\<not> wt_dirty w \<longrightarrow> rd_unsynced (wt_db w) = [])"

lemma fold_proper_meta: "list_all proper ms \<Longrightarrow> fold apply_logical ms l meta_key = l meta_key"
proof (induction ms arbitrary: l)
  case (Cons m ms)
  then show ?case by (cases m) auto
qed simp

lemma nonces_total_ok: "nonces_total random \<Longrightarrow> nonces_ok random"
  unfolding nonces_total_def nonces_ok_def by (metis sum.inject(2))

lemma meta_keyed: "keyed (Upsert meta_key meta_record)"
  by (simp add: record_at_def meta_record_def meta_key_def)

lemma collect_nonempty:
  assumes "ops \<noteq> []" and "\<forall>d. Batch [] d \<notin> set ops"
  shows "co_mutations (fold collect_write_op ops c) \<noteq> [] \<or> co_acks (fold collect_write_op ops c) \<noteq> []"
proof -
  have acks: "co_acks c \<noteq> [] \<Longrightarrow> co_acks (fold collect_write_op os c) \<noteq> []" for os c
  proof (induction os arbitrary: c)
    case (Cons o' os)
    then show ?case by (cases o') simp_all
  qed simp
  from assms(1) obtain op rest where ops: "ops = op # rest" by (cases ops) auto
  show ?thesis
  proof (cases op)
    case (Batch ms d)
    then have "ms \<noteq> []" using assms(2) ops by auto
    then show ?thesis using Batch by (simp add: ops collect_mutations)
  next
    case (Flush a)
    then show ?thesis by (simp add: ops acks)
  qed
qed

lemma run_event_inv:
  assumes ok: "store_env_ok env sk" and tot: "store_env_total env sk" and inv: "writer_inv env sk l w" and evt: "event_ok evt"
  shows "writer_inv env sk (fold apply_logical (submitted evt) l) (run_event env sk evt w)"
proof -
  from inv obtain l0 where t: "table_holds env sk (rd_table (wt_db w)) l0" and m: "l0 meta_key = Some (sr_payload meta_record)"
    and l: "fold apply_logical (queued (wt_queue w)) l0 = l" and p: "list_all proper (queued (wt_queue w))"
    and b: "\<forall>d. Batch [] d \<notin> set (wt_queue w)" and u: "\<not> wt_dirty w \<longrightarrow> rd_unsynced (wt_db w) = []"
    unfolding writer_inv_def by blast
  show ?thesis
  proof (cases evt)
    case (SubmitBatch ms d)
    then show ?thesis using t m l p b u evt unfolding writer_inv_def event_ok_def
      by (auto simp: write_batch_def intro!: exI [of _ l0])
  next
    case (SubmitFlush a)
    then show ?thesis using t m l p b u unfolding writer_inv_def by (auto intro!: exI [of _ l0])
  next
    case (Tick random)
    have nt: "nonces_total random" using evt Tick by (simp add: event_ok_def)
    show ?thesis
    proof (cases "wt_dirty w")
      case True
      from apply_mutations_total [OF tot nt] obtain db' where
        db': "checkpoint_database env sk random (wt_db w) = Inr db'" "rd_unsynced db' = []"
        unfolding checkpoint_database_def by blast
      have "table_holds env sk (rd_table db') (fold apply_logical [Upsert meta_key meta_record] l0)"
        by (rule apply_mutations_holds [OF ok nonces_total_ok [OF nt] _ t db'(1) [unfolded checkpoint_database_def]])
           (simp add: meta_keyed del: keyed.simps)
      moreover have "fold apply_logical [Upsert meta_key meta_record] l0 = l0" using m by auto
      ultimately show ?thesis using Tick True db' m l p b
        unfolding writer_inv_def by (auto simp: writer_tick_def intro!: exI [of _ l0])
    next
      case False
      then show ?thesis using Tick inv by (simp add: writer_tick_def)
    qed
  next
    case (Turn n random)
    have nt: "nonces_total random" using evt Turn by (simp add: event_ok_def)
    show ?thesis
    proof (cases "wt_queue w")
      case Nil
      then show ?thesis using Turn inv by (simp add: writer_turn_def)
    next
      case (Cons o1 os)
      define ops where "ops = take (Suc n) (wt_queue w)"
      define c where "c = fold collect_write_op ops \<lparr>co_mutations = [], co_acks = [], co_durability = Eventual\<rparr>"
      have split: "queued (wt_queue w) = co_mutations c @ queued (drop (Suc n) (wt_queue w))"
        using queued_simps(3) [of ops "drop (Suc n) (wt_queue w)"] unfolding ops_def c_def collect_mutations by simp
      have "ops \<noteq> []" using Cons by (simp add: ops_def)
      moreover have "\<forall>d. Batch [] d \<notin> set ops" using b unfolding ops_def by (meson in_set_takeD)
      ultimately have ne: "\<not> (co_mutations c = [] \<and> co_acks c = [])" unfolding c_def using collect_nonempty by blast
      from apply_mutations_total [OF tot nt] obtain db' where
        db': "apply_mutations env sk random (co_mutations c) (co_durability c) (wt_db w) = Inr db'"
          "co_durability c = Immediate \<longrightarrow> rd_unsynced db' = []" by blast
      have pc: "list_all proper (co_mutations c)" "list_all proper (queued (drop (Suc n) (wt_queue w)))" using p split by simp_all
      then have "list_all keyed (co_mutations c)" by (auto simp: list_all_iff proper_keyed)
      from apply_mutations_holds [OF ok nonces_total_ok [OF nt] this t db'(1)]
      have th: "table_holds env sk (rd_table db') (fold apply_logical (co_mutations c) l0)" .
      have w': "run_event env sk evt w = w\<lparr>wt_db := db', wt_queue := drop (Suc n) (wt_queue w),
          wt_answers := wt_answers w @ map (\<lambda>a. (a, Inr ())) (co_acks c), wt_dirty := (co_durability c \<noteq> Immediate)\<rparr>"
      proof -
        have "run_event env sk evt w = process_db_writer_batch env sk random ops (w\<lparr>wt_queue := drop (Suc n) (wt_queue w)\<rparr>)"
          using Turn Cons by (simp add: writer_turn_def ops_def)
        then show ?thesis unfolding process_db_writer_batch_def c_def [symmetric] Let_def if_not_P [OF ne]
          by (simp add: db'(1))
      qed
      have l': "fold apply_logical (queued (drop (Suc n) (wt_queue w))) (fold apply_logical (co_mutations c) l0) = l"
        using l split by simp
      have m': "fold apply_logical (co_mutations c) l0 meta_key = Some (sr_payload meta_record)"
        using fold_proper_meta [OF pc(1)] m by simp
      have b': "\<forall>d. Batch [] d \<notin> set (drop (Suc n) (wt_queue w))" using b by (meson in_set_dropD)
      show ?thesis unfolding writer_inv_def w' using th m' l' pc(2) b' db'(2) Turn by auto
    qed
  qed
qed

lemma run_events_inv:
  assumes ok: "store_env_ok env sk" and tot: "store_env_total env sk" and "writer_inv env sk l w" and "list_all event_ok evts"
  shows "writer_inv env sk (fold apply_logical (concat (map submitted evts)) l) (fold (run_event env sk) evts w)"
  using assms(3,4)
proof (induction evts arbitrary: l w)
  case (Cons evt evts)
  then show ?case using run_event_inv [OF ok tot] by simp
qed simp

section \<open>Steps of the daemon\<close>

text \<open>
  One method that holds the lock on \<open>Inner\<close>, with the mutations it hands to the writer. The daemon's tasks
  interleave these in any order.
\<close>

inductive daemon_step :: "(bytes \<Rightarrow> bytes) \<Rightarrow> inner \<Rightarrow> mutation list \<Rightarrow> inner \<Rightarrow> bool" for sha256 where
  begin_precompute: "begin_precompute_locked sha256 w ci idx peer planned i = Inr ((start, ms), i') \<Longrightarrow> daemon_step sha256 i ms i'"
| begin_incoming: "begin_incoming_locked w g idx planned i = Inr ((jid, ms), i') \<Longrightarrow> daemon_step sha256 i ms i'"
| finish_job: "finish_job_locked jid failed i = (ms, i') \<Longrightarrow> daemon_step sha256 i ms i'"
| record_failed: "record_failed_locked ci planned i = Inr (ms, i') \<Longrightarrow> daemon_step sha256 i ms i'"
| store_node: "store_node_locked sha256 ci m wires i = Inr (ms, i') \<Longrightarrow> daemon_step sha256 i ms i'"
| store_precomputed: "store_precomputed_locked sha256 ci jid planned m wires i = Inr (ms, i') \<Longrightarrow> daemon_step sha256 i ms i'"
| store_known: "store_known_locked sha256 ci idx expected secret i = Inr (ms, i') \<Longrightarrow> daemon_step sha256 i ms i'"
| reconcile: "reconcile_locked ci response i = (ms, i') \<Longrightarrow> daemon_step sha256 i ms i'"
| enable: "enable_channel_locked req i = ((response, ms), i') \<Longrightarrow> daemon_step sha256 i ms i'"
| disable: "disable_channel_locked ci i = Inr ((response, ms), i') \<Longrightarrow> daemon_step sha256 i ms i'"
| set_config: "daemon_step sha256 i [] (set_config_inner req i)"
| open_session: "session_descriptor_locked sha256 ci peer i = Inr (g, i') \<Longrightarrow> daemon_step sha256 i [] i'"

inductive daemon_run :: "(bytes \<Rightarrow> bytes) \<Rightarrow> inner \<Rightarrow> mutation list \<Rightarrow> inner \<Rightarrow> bool" for sha256 where
  start: "daemon_run sha256 i [] i"
| step: "daemon_run sha256 i ms i' \<Longrightarrow> daemon_step sha256 i' ms' i'' \<Longrightarrow> daemon_run sha256 i (ms @ ms') i''"

lemma set_config_db [simp]: "in_db (set_config_inner req i) = in_db i" "in_active_jobs (set_config_inner req i) = in_active_jobs i"
  by (simp_all add: set_config_inner_def Let_def)

lemma session_descriptor_db:
  assumes "session_descriptor_locked sha256 ci peer i = Inr (g, i')"
  shows "in_db i' = in_db i" and "in_active_jobs i' = in_active_jobs i"
  using assms by (auto simp: session_descriptor_locked_def bindR_eq_Inr Let_def split: if_splits)

lemma daemon_step_writes: "daemon_step sha256 i ms i' \<Longrightarrow> writes_match i ms i'"
proof (induction rule: daemon_step.induct)
  case (set_config i req)
  then show ?case by (simp add: writes_match_same)
next
  case (open_session ci peer i g i')
  then show ?case by (simp add: writes_match_same session_descriptor_db)
qed (fact begin_precompute_writes begin_incoming_writes finish_job_writes record_failed_writes store_node_writes
    store_precomputed_writes store_known_writes reconcile_writes enable_channel_writes disable_channel_writes)+

lemma daemon_run_writes:
  assumes "daemon_run sha256 i ms i'" and "canonical_db (in_db i)"
  shows "canonical_db (in_db i')" and "list_all proper ms" and "logical_of (in_db i') = fold apply_logical ms (logical_of (in_db i))"
proof -
  have "canonical_db (in_db i') \<and> list_all proper ms \<and> logical_of (in_db i') = fold apply_logical ms (logical_of (in_db i))"
    using assms
  proof (induction rule: daemon_run.induct)
    case (step i ms i' ms' i'')
    from daemon_step_writes [OF step.hyps(2)] step.IH [OF step.prems] show ?case by (simp add: writes_match_def)
  qed simp
  then show "canonical_db (in_db i')" and "list_all proper ms" and "logical_of (in_db i') = fold apply_logical ms (logical_of (in_db i))"
    by simp_all
qed

section \<open>Restart\<close>

lemma logical_meta [simp]: "logical_of db meta_key = Some (sr_payload meta_record)"
  by (simp add: logical_of_def)

lemma restart_table:
  assumes ok: "store_env_ok env sk" and tot: "store_env_total env sk" and can: "canonical_db (in_db i)"
    and t: "table_holds env sk (rd_table (wt_db w)) (logical_of (in_db i))" and q: "wt_queue w = []"
    and d: "wt_dirty w \<or> rd_unsynced (wt_db w) = []"
    and run: "daemon_run sha256 i ms i'"
    and sub: "concat (map submitted evts) = ms" and evts: "list_all generator_works evts"
    and w': "w' = fold (run_event env sk) evts w" and q': "wt_queue w' = []"
  shows "table_holds env sk (rd_table (wt_db w')) (logical_of (in_db i')) \<and> canonical_db (in_db i')
    \<and> (wt_dirty w' \<or> crash_tables (wt_db w') = {rd_table (wt_db w')})"
proof -
  note r = daemon_run_writes [OF run can]
  have "list_all event_ok evts"
    using r(2) evts unfolding sub [symmetric] by (auto simp: list_all_iff event_ok_def)
  note ok' = this
  have "writer_inv env sk (logical_of (in_db i)) w" using t q d by (auto simp: writer_inv_def)
  from run_events_inv [OF ok tot this ok'] have "writer_inv env sk (logical_of (in_db i')) w'"
    by (simp add: sub r(3) w')
  then have t': "table_holds env sk (rd_table (wt_db w')) (logical_of (in_db i'))"
    and u: "\<not> wt_dirty w' \<longrightarrow> rd_unsynced (wt_db w') = []" using q' by (auto simp: writer_inv_def)
  show ?thesis using t' r(1) u by (auto simp: crash_tables_def)
qed

section \<open>Migration of the legacy format\<close>

lemma canonical_as:
  assumes "canonical_keys m"
  shows "\<exists>js. m = map (\<lambda>(j, v). (node_key j, v)) js \<and> distinct (map fst js) \<and> (\<forall>j. bm_get m (node_key j) = map_of js j)"
proof -
  have "\<exists>js. m = map (\<lambda>(j, v). (node_key j, v)) js" if "fst ` set m \<subseteq> range node_key" for m :: "(string, 'a) bmap"
    using that
  proof (induction m)
    case (Cons e m)
    then obtain js j v where "m = map (\<lambda>(j, v). (node_key j, v)) js" "e = (node_key j, v)" by (cases e) auto
    then show ?case by (intro exI [of _ "(j, v) # js"]) simp
  qed simp
  then obtain js where js: "m = map (\<lambda>(j, v). (node_key j, v)) js" using assms unfolding canonical_keys_def by blast
  have "distinct (map fst m)" using assms by (simp add: canonical_keys_def bm_inv_distinct)
  then have "distinct (map fst js)"
    by (auto simp: js distinct_map inj_on_def split_beta comp_def)
  moreover have "map_of (map (\<lambda>(j, v). (node_key j, v)) js) (node_key j) = map_of js j" for j
    by (induction js) auto
  ultimately show ?thesis using js by (auto simp: bm_get_def)
qed

lemma upserts_secret:
  "distinct (map fst js) \<Longrightarrow> fold apply_logical (map (\<lambda>(j, h). upsert_secret_mutation c j h) js) l k =
     (if lk_record_type k = RECORD_SECRET \<and> lk_channel_index k = c then
        (case map_of js (lk_sub_id k) of None \<Rightarrow> l k | Some h \<Rightarrow> Some (Secret h)) else l k)"
proof (induction js arbitrary: l)
  case (Cons e js)
  obtain j h where e: "e = (j, h)" by force
  then have "map_of js j = None" using Cons.prems by (auto simp: map_of_eq_None_iff)
  then show ?case using Cons by (auto simp: e upsert_secret_mutation_def key_eqs split: option.splits)
qed simp

lemma upserts_frontier:
  "distinct (map fst js) \<Longrightarrow> fold apply_logical (map (\<lambda>(j, w). upsert_frontier_mutation c j w) js) l k =
     (if lk_record_type k = RECORD_FRONTIER \<and> lk_channel_index k = c then
        (case map_of js (lk_sub_id k) of None \<Rightarrow> l k | Some w \<Rightarrow> Some (Frontier w)) else l k)"
proof (induction js arbitrary: l)
  case (Cons e js)
  obtain j w where e: "e = (j, w)" by force
  then have "map_of js j = None" using Cons.prems by (auto simp: map_of_eq_None_iff)
  then show ?case using Cons by (auto simp: e upsert_frontier_mutation_def key_eqs split: option.splits)
qed simp

lemma map_filter_Some: "List.map_filter (\<lambda>x. Some (f x)) xs = map f xs"
  by (induction xs) (simp_all add: List.map_filter_simps)

lemma channel_mutations_logical:
  assumes "canonical_keys (ch_known_secrets ch)" and "canonical_keys (ch_frontier_nodes ch)"
  shows "fold apply_logical (channel_mutations (node_key c) ch) l k =
     (if lk_channel_index k = c \<and> channel_logical ch k \<noteq> None then channel_logical ch k else l k)"
    and "list_all proper (channel_mutations (node_key c) ch)"
proof -
  from canonical_as [OF assms(1)] obtain ss where ss: "ch_known_secrets ch = map (\<lambda>(j, v). (node_key j, v)) ss" "distinct (map fst ss)"
    "\<And>j. bm_get (ch_known_secrets ch) (node_key j) = map_of ss j" by blast
  from canonical_as [OF assms(2)] obtain fs where fs: "ch_frontier_nodes ch = map (\<lambda>(j, v). (node_key j, v)) fs" "distinct (map fst fs)"
    "\<And>j. bm_get (ch_frontier_nodes ch) (node_key j) = map_of fs j" by blast
  have mf: "List.map_filter f (map g xs) = List.map_filter (f \<circ> g) xs" for f :: "'x \<Rightarrow> 'y option" and g :: "'z \<Rightarrow> 'x" and xs
    by (induction xs) (auto simp: List.map_filter_simps split: option.split)
  have ms: "channel_mutations (node_key c) ch = upsert_channel_mutation c ch #
      map (\<lambda>(j, h). upsert_secret_mutation c j h) ss @ map (\<lambda>(j, w). upsert_frontier_mutation c j w) fs"
    unfolding channel_mutations_def ss(1) fs(1) mf by (simp add: comp_def split_beta map_filter_Some)
  show "list_all proper (channel_mutations (node_key c) ch)" unfolding ms by (auto simp: list_all_iff)
  show "fold apply_logical (channel_mutations (node_key c) ch) l k =
     (if lk_channel_index k = c \<and> channel_logical ch k \<noteq> None then channel_logical ch k else l k)"
    using record_type_neqs unfolding ms
    by (auto simp: upserts_secret [OF ss(2)] upserts_frontier [OF fs(2)] channel_logical_def ss(3) fs(3)
        upsert_channel_mutation_def key_eqs split: option.splits)
qed

lemma plain_db_mutations_logical:
  assumes "canonical_db db"
  shows "fold apply_logical (plain_db_mutations db) (logical_of empty_plain_db) = logical_of db"
    and "list_all proper (plain_db_mutations db)"
proof -
  from assms have "canonical_keys (db_channels db)" by (simp add: canonical_db_def)
  from canonical_as [OF this] obtain cs where cs: "db_channels db = map (\<lambda>(j, v). (node_key j, v)) cs" "distinct (map fst cs)"
    "\<And>j. bm_get (db_channels db) (node_key j) = map_of cs j" by blast
  have can: "canonical_keys (ch_known_secrets ch) \<and> canonical_keys (ch_frontier_nodes ch)" if "(j, ch) \<in> set cs" for j ch
    using assms that by (force simp: canonical_db_def cs(1))
  have pm: "plain_db_mutations db = concat (map (\<lambda>(j, ch). channel_mutations (node_key j) ch) cs)"
    by (simp add: plain_db_mutations_def cs(1) comp_def case_prod_unfold)
  show "list_all proper (plain_db_mutations db)" unfolding pm
    using can channel_mutations_logical(2) by (fastforce simp: list_all_iff)
  have f: "fold apply_logical (concat (map (\<lambda>(j, ch). channel_mutations (node_key j) ch) es)) l k =
      (case map_of es (lk_channel_index k) of None \<Rightarrow> l k
       | Some ch \<Rightarrow> if channel_logical ch k \<noteq> None then channel_logical ch k else l k)"
    if "set es \<subseteq> set cs" "distinct (map fst es)" for es l k
    using that
  proof (induction es arbitrary: l)
    case (Cons e es)
    obtain j ch where e: "e = (j, ch)" by force
    then have "(j, ch) \<in> set cs" using Cons.prems(1) by simp
    from can [OF this] have cc: "canonical_keys (ch_known_secrets ch)" "canonical_keys (ch_frontier_nodes ch)" by simp_all
    have "map_of es j = None" using Cons.prems(2) e by (auto simp: map_of_eq_None_iff)
    then show ?case using Cons by (auto simp: e channel_mutations_logical(1) [OF cc] split: option.splits)
  qed simp
  show "fold apply_logical (plain_db_mutations db) (logical_of empty_plain_db) = logical_of db"
  proof
    fix k
    show "fold apply_logical (plain_db_mutations db) (logical_of empty_plain_db) k = logical_of db k"
      unfolding pm f [OF subset_refl cs(2)] using record_type_neqs
      by (auto simp: logical_of_def channel_key_eq cs(3) empty_plain_db_def channel_logical_def key_eqs split: option.splits)
  qed
qed

lemma ensure_meta_fresh:
  assumes ok: "store_env_ok env sk" and "ensure_meta_record env sk random empty_redb = Inr started"
    and "\<forall>b. random = Inr b \<longrightarrow> length b = DB_NONCE_LEN"
  shows "table_holds env sk (rd_table started) (logical_of empty_plain_db)"
proof -
  from assms(2) obtain v where v: "encrypt_stored_record env sk random (stored_key env sk meta_key) meta_record = Inr v"
    and st: "rd_table started = bm_insert (stored_key env sk meta_key) v []"
    by (auto simp: ensure_meta_record_def empty_redb_def bindR_eq_Inr Let_def commit_def)
  have none: "table_holds env sk [] (\<lambda>_. None)" by (simp add: table_holds_def)
  have "decrypt_stored_record env sk (stored_key env sk meta_key) v = Inr (record_at meta_key (sr_payload meta_record))"
    using decrypt_encrypt [OF ok v assms(3)] meta_keyed by simp
  from table_holds_upsert [OF ok none this]
  have "table_holds env sk (rd_table started) ((\<lambda>_. None)(meta_key \<mapsto> sr_payload meta_record))" unfolding st .
  moreover have "(\<lambda>_. None)(meta_key \<mapsto> sr_payload meta_record) = logical_of empty_plain_db"
    by (auto simp: fun_eq_iff logical_of_def empty_plain_db_def)
  ultimately show ?thesis by simp
qed

lemma ensure_meta_again:
  assumes "table_holds env sk (rd_table db) l" and "l meta_key = Some (sr_payload meta_record)" and ok: "store_env_ok env sk"
  shows "ensure_meta_record env sk random db = Inr (commit db (rd_table db) Immediate)"
proof -
  from assms(1,2) obtain v where v: "bm_get (rd_table db) (stored_key env sk meta_key) = Some v"
    unfolding table_holds_def by blast
  then obtain k p where k: "stored_key env sk meta_key = stored_key env sk k" "l k = Some p"
      "decrypt_stored_record env sk (stored_key env sk meta_key) v = Inr (record_at k p)"
    using assms(1) unfolding table_holds_def by blast
  then have "k = meta_key" using ok by (auto simp: store_env_ok_def dest: injD)
  then have "record_at k p = meta_record" using k(2) assms(2) meta_keyed by simp
  then show ?thesis using v k(3)
    by (simp add: ensure_meta_record_def Let_def validate_meta_record_def meta_record_def)
qed

lemma open_redb_loads:
  assumes ok: "store_env_ok env (db_subkeys_derive env ms)" and "fl_path f = Some (RedbFile r)"
    and "table_holds env (db_subkeys_derive env ms) (rd_table r) (logical_of db)" and "canonical_db db"
  shows "open_redb env mr ms f = Inr (db, f\<lparr>fl_path := Some (RedbFile (commit r (rd_table r) Immediate))\<rparr>)"
  using ensure_meta_again [OF assms(3) _ ok, of mr] load_holds [OF ok assms(3,4)] assms(2)
  by (simp add: open_redb_def Let_def commit_def)

lemma migrate_holds:
  assumes ok: "store_env_ok env (db_subkeys_derive env ms)" and n: "nonces_ok random" "\<forall>b. mr = Inr b \<longrightarrow> length b = DB_NONCE_LEN"
    and can: "canonical_db db" and m: "migrate_legacy_db env random mr ms db = Inr finished"
  shows "table_holds env (db_subkeys_derive env ms) (rd_table finished) (logical_of db)" and "rd_unsynced finished = []"
proof -
  from m obtain started where st: "ensure_meta_record env (db_subkeys_derive env ms) mr empty_redb = Inr started"
    and ap: "apply_mutations env (db_subkeys_derive env ms) random (plain_db_mutations db) Immediate started = Inr finished"
    by (auto simp: migrate_legacy_db_def Let_def bindR_eq_Inr)
  have "list_all keyed (plain_db_mutations db)" using plain_db_mutations_logical(2) [OF can] by (auto simp: list_all_iff proper_keyed)
  from apply_mutations_holds [OF ok n(1) this ensure_meta_fresh [OF ok st n(2)] ap]
  show "table_holds env (db_subkeys_derive env ms) (rd_table finished) (logical_of db)"
    unfolding plain_db_mutations_logical(1) [OF can] .
  show "rd_unsynced finished = []" using ap by (auto simp: apply_mutations_def bindR_eq_Inr commit_def)
qed

text \<open>Wherever the migration stops, the next start finds the legacy content.\<close>

definition after_crash :: "redb \<Rightarrow> redb \<Rightarrow> nat \<Rightarrow> db_files \<Rightarrow> db_files" where
  \<comment> \<open>the files when the migration has run \<open>n\<close> of its file operations\<close>
  "after_crash started finished n f = fold (\<lambda>s. s) (take n (migration_steps started finished)) (recover_incomplete_migration f)"

definition migration_ready :: "store_env \<Rightarrow> (nat \<Rightarrow> string + bytes) \<Rightarrow> string + bytes \<Rightarrow> bytes \<Rightarrow> bytes \<Rightarrow> plain_db \<Rightarrow> bool" where
  "migration_ready env random mr ms bs db \<longleftrightarrow>
     (let sk = db_subkeys_derive env ms in
      store_env_ok env sk \<and> store_env_total env sk \<and> nonces_total random \<and> (\<exists>b. mr = Inr b \<and> length b = DB_NONCE_LEN)
      \<and> read_legacy_db env bs ms = Inr db \<and> canonical_db db)"

lemma db_files_eqI: "(f :: db_files) = g" if "fl_path f = fl_path g" "fl_temp f = fl_temp g" "fl_migrated f = fl_migrated g"
  using that by simp

lemma migration_prefix:
  assumes "fl_path f = Some (RawFile bs)"
  shows "n \<le> 5 \<Longrightarrow> fl_path (after_crash started finished n f) = Some (RawFile bs)"
    and "6 \<le> n \<Longrightarrow> recover_incomplete_migration (after_crash started finished n f) =
      \<lparr>fl_path = Some (RedbFile finished), fl_temp = None, fl_migrated = Some (RawFile bs)\<rparr>"
proof -
  have le: "n \<le> 5 \<Longrightarrow> n = 0 \<or> n = 1 \<or> n = 2 \<or> n = 3 \<or> n = 4 \<or> n = 5" by linarith
  then show "n \<le> 5 \<Longrightarrow> fl_path (after_crash started finished n f) = Some (RawFile bs)"
    using assms by (auto simp: after_crash_def migration_steps_def recover_incomplete_migration_def numeral_eq_Suc)
  have "take n (migration_steps started finished) =
      (if n = 6 then take 6 (migration_steps started finished) else migration_steps started finished)" if "6 \<le> n"
    using that by (simp add: migration_steps_def take_all)
  then show "6 \<le> n \<Longrightarrow> recover_incomplete_migration (after_crash started finished n f) =
      \<lparr>fl_path = Some (RedbFile finished), fl_temp = None, fl_migrated = Some (RawFile bs)\<rparr>"
    using assms by (auto simp: after_crash_def migration_steps_def recover_incomplete_migration_def numeral_eq_Suc intro!: db_files_eqI)
qed

lemma legacy_header: "read_legacy_db env bs ms = Inr db \<Longrightarrow> take (length DB_MAGIC) bs = DB_MAGIC"
  by (auto simp: read_legacy_db_def split: if_splits)

lemma migration_runs:
  assumes "migration_ready env random mr ms bs db"
  shows "\<exists>started finished. ensure_meta_record env (db_subkeys_derive env ms) mr empty_redb = Inr started
    \<and> migrate_legacy_db env random mr ms db = Inr finished
    \<and> table_holds env (db_subkeys_derive env ms) (rd_table finished) (logical_of db) \<and> rd_unsynced finished = []"
proof -
  let ?sk = "db_subkeys_derive env ms"
  from assms obtain b where ok: "store_env_ok env ?sk" and tot: "store_env_total env ?sk" and n: "nonces_total random"
    and b: "mr = Inr b" "length b = DB_NONCE_LEN" and can: "canonical_db db"
    unfolding migration_ready_def Let_def by blast
  from encrypt_total [OF tot b(1)] obtain v where
    "encrypt_stored_record env ?sk mr (stored_key env ?sk meta_key) meta_record = Inr v" by blast
  then obtain started where st: "ensure_meta_record env ?sk mr empty_redb = Inr started"
    by (auto simp: ensure_meta_record_def empty_redb_def Let_def)
  from apply_mutations_total [OF tot n] obtain finished where
    "apply_mutations env ?sk random (plain_db_mutations db) Immediate started = Inr finished" by blast
  then have m: "migrate_legacy_db env random mr ms db = Inr finished" using st by (simp add: migrate_legacy_db_def Let_def)
  have mr: "\<forall>b. mr = Inr b \<longrightarrow> length b = DB_NONCE_LEN" using b by simp
  from migrate_holds [OF ok nonces_total_ok [OF n] mr can m] st m show ?thesis by blast
qed

lemma open_after_migration:
  assumes ready: "migration_ready env random mr ms bs db" and f: "fl_path f = Some (RawFile bs)"
  shows "\<exists>g. db_store_open env random mr mr' ms f = Inr (db, g) \<and> fl_migrated g = Some (RawFile bs)"
proof -
  let ?sk = "db_subkeys_derive env ms"
  from migration_runs [OF ready] obtain started finished where
    st: "ensure_meta_record env ?sk mr empty_redb = Inr started" and m: "migrate_legacy_db env random mr ms db = Inr finished"
    and t: "table_holds env ?sk (rd_table finished) (logical_of db)" by blast
  have ok: "store_env_ok env ?sk" and r: "read_legacy_db env bs ms = Inr db" and can: "canonical_db db"
    using ready by (auto simp: migration_ready_def Let_def)
  let ?f = "recover_incomplete_migration f"
  have p: "fl_path ?f = Some (RawFile bs)" using f by (simp add: recover_incomplete_migration_def)
  then have leg: "is_legacy_db_file ?f" using legacy_header [OF r] by (simp add: is_legacy_db_file_def)
  have "migration_steps started finished = take 7 (migration_steps started finished)" by (simp add: migration_steps_def)
  then have "fold (\<lambda>s. s) (migration_steps started finished) ?f = after_crash started finished 7 f"
    by (simp add: after_crash_def)
  then have g: "recover_incomplete_migration (fold (\<lambda>s. s) (migration_steps started finished) ?f) =
      \<lparr>fl_path = Some (RedbFile finished), fl_temp = None, fl_migrated = Some (RawFile bs)\<rparr>"
    using migration_prefix(2) [OF f, of 7] by simp
  show ?thesis unfolding db_store_open_def Let_def
    using leg p r st m g open_redb_loads [OF ok _ t can] by (simp add: open_redb_loads [OF ok _ t can])
qed

lemma migration_crash_safe:
  assumes ready: "migration_ready env random mr ms bs db" and f: "fl_path f = Some (RawFile bs)"
    and st: "ensure_meta_record env (db_subkeys_derive env ms) mr empty_redb = Inr started"
    and m: "migrate_legacy_db env random mr ms db = Inr finished"
  shows "\<exists>g. db_store_open env random mr mr' ms (after_crash started finished n f) = Inr (db, g) \<and> fl_migrated g = Some (RawFile bs)"
proof (cases "n \<le> 5")
  case True
  show ?thesis by (rule open_after_migration [OF ready migration_prefix(1) [OF f True]])
next
  case False
  then have g: "recover_incomplete_migration (after_crash started finished n f) =
      \<lparr>fl_path = Some (RedbFile finished), fl_temp = None, fl_migrated = Some (RawFile bs)\<rparr>"
    using migration_prefix(2) [OF f, of n] by simp
  have ok: "store_env_ok env (db_subkeys_derive env ms)" and can: "canonical_db db"
    using ready by (auto simp: migration_ready_def Let_def)
  have t: "table_holds env (db_subkeys_derive env ms) (rd_table finished) (logical_of db)"
    using migration_runs [OF ready] m by auto
  show ?thesis unfolding db_store_open_def Let_def g
    by (simp add: is_legacy_db_file_def open_redb_loads [OF ok _ t can])
qed

lemma restart_opens:
  assumes ok: "store_env_ok env (db_subkeys_derive env ms)" and can: "canonical_db db"
    and t: "table_holds env (db_subkeys_derive env ms) (rd_table r) (logical_of db)" and f: "fl_path f = Some (RedbFile r)"
  shows "\<exists>g. db_store_open env random mr mr' ms f = Inr (db, g)"
proof -
  have f': "fl_path (recover_incomplete_migration f) = Some (RedbFile r)" using f by (simp add: recover_incomplete_migration_def)
  have "\<not> is_legacy_db_file (recover_incomplete_migration f)" by (simp add: is_legacy_db_file_def f')
  then show ?thesis using open_redb_loads [OF ok f' t can] by (simp add: db_store_open_def Let_def)
qed

end
