(* ===== verification/Daemon_Jobs_Correct.thy ===== *)
theory Daemon_Jobs_Correct
  imports Daemon_Writer_Correct "HOL-Library.Multiset"
begin

text \<open>
  The state machine of the precompute jobs and its invariant: one job per channel, and no channel uses more
  checked units than its cap.
\<close>

section \<open>Jobs and the checked-unit cap\<close>

text \<open>
  The tasks that run a precompute job, each between its \<open>begin_\<close> method and the method that stores its node
  or gives it up. A step of this machine is a locked method on behalf of one of them, the abortion of a task,
  or any method that touches neither jobs nor units. A start is \<open>fresh\<close> when its job id names no other
  active job, and an enable keeps the cap when it does not lower it.
\<close>

record live_job =
  lj_job_id :: string
  lj_channel :: u64
  lj_planned :: u64
  lj_target :: index48

definition job_entry :: "live_job \<Rightarrow> job_record" where
  "job_entry j = \<lparr>jb_channel_index = lj_channel j, jb_kind = ''precompute'',
     jb_state = ''grpc target='' @ dec_string (unat (index_get (lj_target j))), jb_planned_checked_units = lj_planned j\<rparr>"

definition keeps_cap :: "enable_channel_request \<Rightarrow> inner \<Rightarrow> bool" where
  "keeps_cap req i \<longleftrightarrow> eq_delta_lifetime_checked_units_cap req = 0
     \<or> (case bm_get (db_channels (in_db i)) (channel_key (eq_channel_index req)) of None \<Rightarrow> True
        | Some c \<Rightarrow> ch_delta_lifetime_checked_units_cap c \<le> eq_delta_lifetime_checked_units_cap req)"

inductive job_step :: "(bytes \<Rightarrow> bytes) \<Rightarrow> inner \<times> live_job list \<Rightarrow> inner \<times> live_job list \<Rightarrow> bool" for sha256 where
  start_own: "begin_precompute_locked sha256 w ci idx peer planned i = Inr ((Run job, ms), i') \<Longrightarrow>
     bm_get (in_active_jobs i) (pj_job_id job) = None \<Longrightarrow>
     job_step sha256 (i, js) (i', \<lparr>lj_job_id = pj_job_id job, lj_channel = ci, lj_planned = planned, lj_target = idx\<rparr> # js)"
| start_peer: "begin_incoming_locked w g idx planned i = Inr ((jid, ms), i') \<Longrightarrow>
     bm_get (in_active_jobs i) jid = None \<Longrightarrow>
     job_step sha256 (i, js) (i', \<lparr>lj_job_id = jid, lj_channel = gd_channel_index g, lj_planned = planned, lj_target = idx\<rparr> # js)"
| store: "j \<in> set js \<Longrightarrow>
     store_precomputed_locked sha256 (lj_channel j) (lj_job_id j) (lj_planned j) (index_get (lj_target j)) wires i = Inr (ms, i') \<Longrightarrow>
     job_step sha256 (i, js) (i', removeAll j js)"
| give_up: "j \<in> set js \<Longrightarrow> finish_job_locked (lj_job_id j) True i = (ms, i') \<Longrightarrow> job_step sha256 (i, js) (i', removeAll j js)"
| abort: "j \<in> set js \<Longrightarrow> job_step sha256 (i, js) (i, removeAll j js)"
| already: "begin_precompute_locked sha256 w ci idx peer planned i = Inr ((AlreadyStored, ms), i') \<Longrightarrow> job_step sha256 (i, js) (i', js)"
| record_failed: "record_failed_locked ci planned i = Inr (ms, i') \<Longrightarrow> job_step sha256 (i, js) (i', js)"
| store_node: "store_node_locked sha256 ci m wires i = Inr (ms, i') \<Longrightarrow> job_step sha256 (i, js) (i', js)"
| store_known: "store_known_locked sha256 ci idx expected secret i = Inr (ms, i') \<Longrightarrow> job_step sha256 (i, js) (i', js)"
| reconcile: "reconcile_locked ci response i = (ms, i') \<Longrightarrow> job_step sha256 (i, js) (i', js)"
| enable: "enable_channel_locked req i = ((response, ms), i') \<Longrightarrow> keeps_cap req i \<Longrightarrow> job_step sha256 (i, js) (i', js)"
| disable: "disable_channel_locked ci i = Inr ((response, ms), i') \<Longrightarrow> job_step sha256 (i, js) (i', js)"
| set_config: "job_step sha256 (i, js) (set_config_inner req i, js)"
| open_session: "session_descriptor_locked sha256 ci peer i = Inr (g, i') \<Longrightarrow> job_step sha256 (i, js) (i', js)"

definition channel_jobs :: "inner \<Rightarrow> u64 \<Rightarrow> job_record list" where
  "channel_jobs i ci = filter (\<lambda>job. jb_channel_index job = ci) (bm_values (in_active_jobs i))"

definition units_promised :: "inner \<Rightarrow> u64 \<Rightarrow> nat" where
  "units_promised i ci = sum_list (map (unat \<circ> jb_planned_checked_units) (channel_jobs i ci))"

definition within_cap :: "channel_record \<Rightarrow> nat \<Rightarrow> bool" where
  \<comment> \<open>up to the saturation of the counters\<close>
  "within_cap c n \<longleftrightarrow> min (unat (ch_estimated_checked_units c) + n) (2 ^ 64 - 1) \<le> unat (ch_delta_lifetime_checked_units_cap c)"

definition jobs_inv :: "inner \<times> live_job list \<Rightarrow> bool" where
  "jobs_inv s \<longleftrightarrow> (let (i, js) = s in
     canonical_db (in_db i) \<and> bm_inv (in_active_jobs i)
     \<and> (\<forall>ci. length (channel_jobs i ci) \<le> 1)
     \<and> (\<forall>ci. channel_jobs i ci \<noteq> [] \<longrightarrow> bm_get (db_channels (in_db i)) (channel_key ci) \<noteq> None)
     \<and> (\<forall>ci c. bm_get (db_channels (in_db i)) (channel_key ci) = Some c \<longrightarrow> within_cap c (units_promised i ci))
     \<and> (\<forall>j \<in> set js. bm_get (in_active_jobs i) (lj_job_id j) = Some (job_entry j))
     \<and> distinct (map lj_job_id js))"

text \<open>The two shapes a step has: it leaves jobs alone and lowers no cap, or it changes one job.\<close>

definition quiet :: "inner \<Rightarrow> inner \<Rightarrow> bool" where
  "quiet i i' \<longleftrightarrow> in_active_jobs i' = in_active_jobs i \<and> (\<forall>ci.
     case (bm_get (db_channels (in_db i)) (channel_key ci), bm_get (db_channels (in_db i')) (channel_key ci)) of
        (None, None) \<Rightarrow> True
      | (None, Some c') \<Rightarrow> ch_estimated_checked_units c' = 0
      | (Some c, None) \<Rightarrow> False
      | (Some c, Some c') \<Rightarrow> ch_estimated_checked_units c' = ch_estimated_checked_units c
          \<and> ch_delta_lifetime_checked_units_cap c \<le> ch_delta_lifetime_checked_units_cap c')"

lemma quiet_set_channel:
  assumes "canonical_db (in_db i)" and "bm_get (db_channels (in_db i)) (channel_key ci) = Some c"
    and "ch_estimated_checked_units c' = ch_estimated_checked_units c"
    and "ch_delta_lifetime_checked_units_cap c \<le> ch_delta_lifetime_checked_units_cap c'"
    and "in_db i' = in_db (set_channel ci c' i)" and "in_active_jobs i' = in_active_jobs i"
  shows "quiet i i'"
  using assms by (auto simp: quiet_def split: option.splits)

lemma channel_jobs_quiet: "in_active_jobs i' = in_active_jobs i \<Longrightarrow> channel_jobs i' = channel_jobs i"
  by (simp add: channel_jobs_def fun_eq_iff)

lemma values_remove:
  assumes "bm_inv m" and "bm_get m k = Some v"
  shows "mset (bm_values m) = add_mset v (mset (bm_values (bm_remove k m)))"
proof -
  have "map_of m k = Some v" and d: "distinct (map fst m)" using assms by (simp_all add: bm_get_def bm_inv_distinct)
  then show ?thesis
  proof (induction m)
    case (Cons e m)
    obtain a b where e: "e = (a, b)" by force
    show ?case
    proof (cases "a = k")
      case True
      then have "filter (\<lambda>e. fst e \<noteq> k) m = m" using Cons.prems e by (auto simp: filter_id_conv)
      then show ?thesis using True Cons.prems e by (simp add: bm_values_def bm_remove_def)
    next
      case False
      then show ?thesis using Cons e by (simp add: bm_values_def bm_remove_def)
    qed
  qed simp
qed

lemma values_insert_new:
  assumes "bm_inv m" and "bm_get m k = None"
  shows "mset (bm_values (bm_insert k v m)) = add_mset v (mset (bm_values m))"
proof -
  have "map_of m k = None" using assms(2) by (simp add: bm_get_def)
  then show ?thesis unfolding bm_values_def
  proof (induction k v m rule: bm_insert.induct)
    case (2 k v k' v' m)
    then show ?case by (auto split: if_splits)
  qed simp
qed

lemma promised_mset: "units_promised i ci = sum_mset (image_mset (unat \<circ> jb_planned_checked_units)
    (filter_mset (\<lambda>job. jb_channel_index job = ci) (mset (bm_values (in_active_jobs i)))))"
  by (simp only: units_promised_def channel_jobs_def mset_filter [symmetric] mset_map [symmetric] sum_mset_sum_list)

lemma channel_jobs_size: "length (channel_jobs i ci) = size (filter_mset (\<lambda>job. jb_channel_index job = ci) (mset (bm_values (in_active_jobs i))))"
  by (simp only: channel_jobs_def mset_filter [symmetric] size_mset)


lemma quiet_inv:
  assumes q: "quiet i i'" and inv: "jobs_inv (i, js)" and can: "canonical_db (in_db i')"
  shows "jobs_inv (i', js)"
proof -
  have a: "in_active_jobs i' = in_active_jobs i" using q by (simp add: quiet_def)
  have k: "case (bm_get (db_channels (in_db i)) (channel_key ci), bm_get (db_channels (in_db i')) (channel_key ci)) of
        (None, None) \<Rightarrow> True
      | (None, Some c') \<Rightarrow> ch_estimated_checked_units c' = 0
      | (Some c, None) \<Rightarrow> False
      | (Some c, Some c') \<Rightarrow> ch_estimated_checked_units c' = ch_estimated_checked_units c
          \<and> ch_delta_lifetime_checked_units_cap c \<le> ch_delta_lifetime_checked_units_cap c'" for ci
    using q by (simp add: quiet_def)
  have j: "channel_jobs i ci \<noteq> [] \<Longrightarrow> bm_get (db_channels (in_db i)) (channel_key ci) \<noteq> None" for ci
    using inv by (simp add: jobs_inv_def)
  have "within_cap c' (units_promised i' ci)"
    if c': "bm_get (db_channels (in_db i')) (channel_key ci) = Some c'" for ci c'
  proof (cases "bm_get (db_channels (in_db i)) (channel_key ci)")
    case None
    then have "channel_jobs i ci = []" using j by blast
    then show ?thesis using k [of ci] c' None by (simp add: within_cap_def units_promised_def channel_jobs_quiet [OF a])
  next
    case (Some c)
    then have "within_cap c (units_promised i ci)" using inv by (auto simp: jobs_inv_def)
    then show ?thesis using k [of ci] c' Some
      by (simp add: within_cap_def units_promised_def channel_jobs_quiet [OF a] word_le_nat_alt)
  qed
  moreover have "bm_get (db_channels (in_db i')) (channel_key ci) \<noteq> None" if "channel_jobs i ci \<noteq> []" for ci
    using k [of ci] j [OF that] by (auto split: option.splits)
  ultimately show ?thesis using inv can by (auto simp: jobs_inv_def a channel_jobs_quiet [OF a])
qed

lemma job_on_channel_iff: "job_on_channel i ci \<longleftrightarrow> channel_jobs i ci \<noteq> []"
  by (auto simp: job_on_channel_def channel_jobs_def list_ex_iff filter_empty_conv)

lemma no_reserved: "channel_jobs i ci = [] \<Longrightarrow> reserved_units i ci = 0"
  by (simp add: reserved_units_def channel_jobs_def [symmetric])

lemma start_job_inv:
  assumes inv: "jobs_inv (i0, js)" and i0: "in_active_jobs i = in_active_jobs i0" "in_db i = in_db i0"
    and c: "bm_get (db_channels (in_db i)) (channel_key ci) = Some c" and free: "\<not> job_on_channel i ci"
    and units: "units_used i ci c planned \<le> ch_delta_lifetime_checked_units_cap c"
    and new: "bm_get (in_active_jobs i) jid = None"
  shows "jobs_inv (start_job jid ci idx planned c i, \<lparr>lj_job_id = jid, lj_channel = ci, lj_planned = planned, lj_target = idx\<rparr> # js)"
proof -
  let ?j = "\<lparr>lj_job_id = jid, lj_channel = ci, lj_planned = planned, lj_target = idx\<rparr>"
  let ?c = "c\<lparr>ch_attempted_checked_units := sat_add (ch_attempted_checked_units c) planned\<rparr>"
  let ?i = "start_job jid ci idx planned c i"
  have can: "canonical_db (in_db i)" and binv: "bm_inv (in_active_jobs i)" using inv i0 by (simp_all add: jobs_inv_def)
  have db: "in_db ?i = in_db (set_channel ci ?c i)" and act: "in_active_jobs ?i = bm_insert jid (job_entry ?j) (in_active_jobs i)"
    by (simp_all add: start_job_def Let_def job_entry_def set_channel_def)
  have vals: "mset (bm_values (in_active_jobs ?i)) = add_mset (job_entry ?j) (mset (bm_values (in_active_jobs i)))"
    unfolding act by (rule values_insert_new [OF binv new])
  have cj: "channel_jobs i ci = []" using free by (simp add: job_on_channel_iff)
  have cj0: "channel_jobs i = channel_jobs i0" using i0 by (simp add: channel_jobs_def fun_eq_iff)
  have size: "length (channel_jobs ?i k) = (if k = ci then 1 else length (channel_jobs i k))" for k
    using cj unfolding channel_jobs_size vals by (auto simp: job_entry_def channel_jobs_size [symmetric] simp flip: size_eq_0_iff_empty)
  have prom: "units_promised ?i k = (if k = ci then unat planned else units_promised i k)" for k
  proof -
    have "units_promised i ci = 0" using cj by (simp add: units_promised_def)
    then show ?thesis unfolding promised_mset vals by (simp add: job_entry_def promised_mset)
  qed
  have "within_cap ?c (unat planned)" using units no_reserved [OF cj]
    by (simp add: within_cap_def units_used_def word_le_nat_alt unat_sat_add)
  moreover have "within_cap d (units_promised i k)" if "bm_get (db_channels (in_db i)) (channel_key k) = Some d" for k d
    using inv that i0 cj0 by (auto simp: jobs_inv_def units_promised_def)
  moreover have "bm_get (in_active_jobs ?i) (lj_job_id j) = Some (job_entry j)" if "j \<in> set (?j # js)" for j
    using that inv new i0 binv by (auto simp: act jobs_inv_def)
  moreover have "jid \<notin> lj_job_id ` set js" using inv new i0 by (auto simp: jobs_inv_def)
  moreover have "canonical_db (in_db ?i)"
    unfolding db in_db_set_channel by (rule canonical_put_channel [OF can]) (use canonical_channel [OF can c] in simp_all)
  moreover have "length (channel_jobs ?i k) \<le> 1" for k using inv cj0 by (simp add: size jobs_inv_def)
  moreover have "bm_get (db_channels (in_db ?i)) (channel_key k) \<noteq> None" if "channel_jobs ?i k \<noteq> []" for k
  proof (cases "k = ci")
    case False
    then have "channel_jobs i0 k \<noteq> []" using size [of k] that cj0 by (metis length_0_conv)
    then have "bm_get (db_channels (in_db i)) (channel_key k) \<noteq> None" using inv i0 by (simp add: jobs_inv_def)
    then show ?thesis using can False unfolding db by simp
  qed (use can in \<open>simp add: db\<close>)
  ultimately show ?thesis using binv inv
    by (auto simp: jobs_inv_def prom db can act split: if_splits)
qed

lemma remove_job_inv:
  assumes inv: "jobs_inv (i, js)" and j: "j \<in> set js" and c: "bm_get (db_channels (in_db i)) (channel_key (lj_channel j)) = Some c"
    and i': "in_active_jobs i' = bm_remove (lj_job_id j) (in_active_jobs i)" "in_db i' = in_db (set_channel (lj_channel j) c' i)"
    and c': "canonical_keys (ch_known_secrets c')" "canonical_keys (ch_frontier_nodes c')"
      "ch_delta_lifetime_checked_units_cap c' = ch_delta_lifetime_checked_units_cap c"
      "ch_estimated_checked_units c' \<in> {ch_estimated_checked_units c, sat_add (ch_estimated_checked_units c) (lj_planned j)}"
  shows "jobs_inv (i', removeAll j js)"
proof -
  have can: "canonical_db (in_db i)" and binv: "bm_inv (in_active_jobs i)" and d: "distinct (map lj_job_id js)"
    and e: "bm_get (in_active_jobs i) (lj_job_id j) = Some (job_entry j)" using inv j by (auto simp: jobs_inv_def)
  have vals: "mset (bm_values (in_active_jobs i)) = add_mset (job_entry j) (mset (bm_values (in_active_jobs i')))"
    unfolding i' by (rule values_remove [OF binv e])
  have size: "length (channel_jobs i k) = (if k = lj_channel j then Suc (length (channel_jobs i' k)) else length (channel_jobs i' k))" for k
    unfolding channel_jobs_size vals by (simp add: job_entry_def)
  have prom: "units_promised i k = (if k = lj_channel j then unat (lj_planned j) + units_promised i' k else units_promised i' k)" for k
    unfolding promised_mset vals by (simp add: job_entry_def)
  have w: "within_cap d (units_promised i k)" if "bm_get (db_channels (in_db i)) (channel_key k) = Some d" for k d
    using inv that by (auto simp: jobs_inv_def)
  have "within_cap c' (units_promised i' (lj_channel j))"
    using w [OF c] c'(3,4) by (auto simp: within_cap_def prom unat_sat_add)
  moreover have "within_cap d (units_promised i' k)" if "bm_get (db_channels (in_db i)) (channel_key k) = Some d" "k \<noteq> lj_channel j" for k d
    using w [OF that(1)] that(2) by (simp add: prom)
  moreover have "length (channel_jobs i' k) \<le> 1" for k
  proof -
    have "length (channel_jobs i k) \<le> 1" using inv by (simp add: jobs_inv_def)
    then show ?thesis using size [of k] by (simp split: if_splits)
  qed
  moreover have "bm_get (db_channels (in_db i')) (channel_key k) \<noteq> None" if "channel_jobs i' k \<noteq> []" for k
  proof -
    have "channel_jobs i k \<noteq> []" using size [of k] that by (auto split: if_splits)
    then have "bm_get (db_channels (in_db i)) (channel_key k) \<noteq> None" using inv by (simp add: jobs_inv_def)
    then show ?thesis using can by (simp add: i')
  qed
  moreover have "bm_get (in_active_jobs i') (lj_job_id k) = Some (job_entry k)" if "k \<in> set (removeAll j js)" for k
  proof -
    have "k \<in> set js" "k \<noteq> j" using that by auto
    moreover have "lj_job_id k \<noteq> lj_job_id j" using d j calculation by (auto simp: distinct_map inj_on_def)
    ultimately show ?thesis using inv by (auto simp: i' jobs_inv_def)
  qed
  moreover have "distinct (map lj_job_id (removeAll j js))" using d by (simp add: distinct_map inj_on_def distinct_removeAll)
  moreover have "canonical_db (in_db i')" unfolding i' in_db_set_channel by (rule canonical_put_channel [OF can c'(1,2)])
  ultimately show ?thesis using binv can by (auto simp: jobs_inv_def i' split: if_splits)
qed


lemma job_step_inv:
  assumes "job_step sha256 s s'" and "jobs_inv s"
  shows "jobs_inv s'"
  using assms
proof (induction rule: job_step.induct)
  case (start_own w ci idx peer planned i job ms i' js)
  from start_own(1) obtain c where c: "bm_get (db_channels (in_db i)) (channel_key ci) = Some c" "\<not> job_on_channel i ci"
      "units_used i ci c planned \<le> ch_delta_lifetime_checked_units_cap c"
    and i': "i' = start_job (pj_job_id job) ci idx planned c (i\<lparr>in_next_job_id := sat_add (in_next_job_id i) 1\<rparr>)"
    by (auto simp: begin_precompute_locked_def bindR_eq_Inr Let_def split: if_splits)
  show ?case unfolding i'
    by (rule start_job_inv [where ?i0.0 = i]) (use start_own(2,3) c in \<open>simp_all add: job_on_channel_def units_used_def reserved_units_def\<close>)
next
  case (start_peer w g idx planned i jid ms i' js)
  from start_peer(1) obtain c where c: "bm_get (db_channels (in_db i)) (channel_key (gd_channel_index g)) = Some c"
      "\<not> job_on_channel i (gd_channel_index g)" "units_used i (gd_channel_index g) c planned \<le> ch_delta_lifetime_checked_units_cap c"
    and i': "i' = start_job jid (gd_channel_index g) idx planned c i"
    by (auto simp: begin_incoming_locked_def bindR_eq_Inr Let_def split: if_splits)
  show ?case unfolding i' by (rule start_job_inv [where ?i0.0 = i]) (use start_peer(2,3) c in simp_all)
next
  case (store j js wires i ms i')
  from store(2) obtain b c where c: "bm_get (db_channels (in_db i)) (channel_key (lj_channel j)) = Some c"
    and i': "i' = (let c' = c\<lparr>ch_frontier_nodes := bm_insert (node_key (index_get (lj_target j))) (new_wire_record b wires) (ch_frontier_nodes c),
        ch_estimated_checked_units := sat_add (ch_estimated_checked_units c) (lj_planned j)\<rparr>; i = set_channel (lj_channel j) c' i
        in i\<lparr>in_active_jobs := bm_remove (lj_job_id j) (in_active_jobs i)\<rparr>)"
    by (auto simp: store_precomputed_locked_def bindR_eq_Inr Let_def)
  have can: "canonical_db (in_db i)" using store(3) by (simp add: jobs_inv_def)
  show ?case
    by (rule remove_job_inv [OF store(3,1) c, where c' = "c\<lparr>ch_frontier_nodes := bm_insert (node_key (index_get (lj_target j))) (new_wire_record b wires) (ch_frontier_nodes c),
        ch_estimated_checked_units := sat_add (ch_estimated_checked_units c) (lj_planned j)\<rparr>"]) (use canonical_channel [OF can c] in \<open>simp_all add: i' Let_def set_channel_def\<close>)
next
  case (give_up j js i ms i')
  then have e: "bm_get (in_active_jobs i) (lj_job_id j) = Some (job_entry j)" and can: "canonical_db (in_db i)"
    by (simp_all add: jobs_inv_def)
  have "(lj_job_id j, job_entry j) \<in> set (in_active_jobs i)" using e by (rule bm_get_in_set)
  then have "channel_jobs i (lj_channel j) \<noteq> []"
    by (force simp: channel_jobs_def job_entry_def bm_values_def filter_empty_conv)
  then obtain c where c: "bm_get (db_channels (in_db i)) (channel_key (lj_channel j)) = Some c"
    using give_up(3) by (auto simp: jobs_inv_def)
  have i': "i' = set_channel (lj_channel j) (c\<lparr>ch_failed_precompute_jobs := sat_add (ch_failed_precompute_jobs c) 1\<rparr>)
      (i\<lparr>in_active_jobs := bm_remove (lj_job_id j) (in_active_jobs i)\<rparr>)"
    using give_up(2) e c by (auto simp: finish_job_locked_def Let_def job_entry_def)
  show ?case
    by (rule remove_job_inv [OF give_up(3,1) c, where c' = "c\<lparr>ch_failed_precompute_jobs := sat_add (ch_failed_precompute_jobs c) 1\<rparr>"]) (use canonical_channel [OF can c] in \<open>simp_all add: i' set_channel_def\<close>)
next
  case (abort j js i)
  then show ?case by (auto simp: jobs_inv_def distinct_map inj_on_def distinct_removeAll)
next
  case (already w ci idx peer planned i ms i' js)
  then have "i' = i" by (auto simp: begin_precompute_locked_def bindR_eq_Inr Let_def split: if_splits)
  then show ?case using already by simp
next
  case (enable req i response ms i' js)
  have can: "canonical_db (in_db i)" using enable(3) by (simp add: jobs_inv_def)
  have "writes_match i ms i'" by (rule enable_channel_writes [OF enable(1)])
  then have "canonical_db (in_db i')" using can by (simp add: writes_match_def)
  moreover have "quiet i i'" using enable(1,2) can
    by (auto simp: enable_channel_locked_def keeps_cap_def Let_def quiet_def set_channel_def get_put_channel split: option.splits if_splits)
  ultimately show ?case using quiet_inv enable(3) by blast
next
  case (set_config i js req)
  then show ?case by (auto simp: jobs_inv_def channel_jobs_def units_promised_def)
next
  case (open_session ci peer i g i' js)
  then show ?case using session_descriptor_db [OF open_session(1)] by (auto simp: jobs_inv_def channel_jobs_def units_promised_def)
next
  case (record_failed ci planned i ms i' js)
  have can: "canonical_db (in_db i)" using record_failed(2) by (simp add: jobs_inv_def)
  have "canonical_db (in_db i')" using record_failed_writes [OF record_failed(1)] can by (simp add: writes_match_def)
  moreover have "quiet i i'" using record_failed(1) can
    by (auto simp: record_failed_locked_def bindR_eq_Inr Let_def quiet_def set_channel_def get_put_channel split: option.splits if_splits)
  ultimately show ?case using quiet_inv record_failed(2) by blast
next
  case (store_node ci m wires i ms i' js)
  have can: "canonical_db (in_db i)" using store_node(2) by (simp add: jobs_inv_def)
  have "canonical_db (in_db i')" using store_node_writes [OF store_node(1)] can by (simp add: writes_match_def)
  moreover have "quiet i i'" using store_node(1) can
    by (auto simp: store_node_locked_def bindR_eq_Inr Let_def quiet_def set_channel_def get_put_channel split: option.splits if_splits)
  ultimately show ?case using quiet_inv store_node(2) by blast
next
  case (store_known ci idx expected secret i ms i' js)
  have can: "canonical_db (in_db i)" using store_known(2) by (simp add: jobs_inv_def)
  have "canonical_db (in_db i')" using store_known_writes [OF store_known(1)] can by (simp add: writes_match_def)
  moreover have "quiet i i'" using store_known(1) can
    by (auto simp: store_known_locked_def bindR_eq_Inr Let_def quiet_def set_channel_def get_put_channel split: option.splits if_splits)
  ultimately show ?case using quiet_inv store_known(2) by blast
next
  case (reconcile ci response i ms i' js)
  have can: "canonical_db (in_db i)" using reconcile(2) by (simp add: jobs_inv_def)
  have "canonical_db (in_db i')" using reconcile_writes [OF reconcile(1)] can by (simp add: writes_match_def)
  moreover have "quiet i i'" using reconcile(1) can
    by (auto simp: reconcile_locked_def Let_def quiet_def set_channel_def get_put_channel split: option.splits if_splits)
  ultimately show ?case using quiet_inv reconcile(2) by blast
next
  case (disable ci i response ms i' js)
  have can: "canonical_db (in_db i)" using disable(2) by (simp add: jobs_inv_def)
  have "canonical_db (in_db i')" using disable_channel_writes [OF disable(1)] can by (simp add: writes_match_def)
  moreover have "quiet i i'" using disable(1) can
    by (auto simp: disable_channel_locked_def bindR_eq_Inr Let_def quiet_def set_channel_def get_put_channel split: option.splits if_splits)
  ultimately show ?case using quiet_inv disable(2) by blast
qed

lemma job_steps_inv: "(job_step sha256)\<^sup>*\<^sup>* s s' \<Longrightarrow> jobs_inv s \<Longrightarrow> jobs_inv s'"
  by (induction rule: rtranclp_induct) (auto dest: job_step_inv)

section \<open>Job ids that are used twice\<close>

definition reuse_run ::
  "(bytes \<Rightarrow> bytes) \<Rightarrow> u32 \<Rightarrow> string \<Rightarrow> grpc_job_descriptor \<Rightarrow> grpc_job_descriptor \<Rightarrow> string \<Rightarrow> index48 \<Rightarrow> index48 \<Rightarrow> u64 \<Rightarrow> u64 \<Rightarrow> u64
     \<Rightarrow> secure_wires \<Rightarrow> secure_wires \<Rightarrow> inner \<Rightarrow> daemon_error + inner" where
  \<comment> \<open>the peer opens a job \<open>jid\<close> on a channel and, under the same id and target, one on another channel; it opens a job
    \<open>jid'\<close> on the first channel, and the two jobs of that channel store their nodes\<close>
  "reuse_run sha256 w jid g g' jid' index index' planned planned2 planned' wires wires' i =
     bindR (begin_incoming_locked w (g\<lparr>gd_job_id := jid\<rparr>) index planned i) (\<lambda>((a, _), i).
     bindR (begin_incoming_locked w (g'\<lparr>gd_job_id := jid\<rparr>) index planned2 i) (\<lambda>(_, i).
     bindR (begin_incoming_locked w (g\<lparr>gd_job_id := jid'\<rparr>) index' planned' i) (\<lambda>((c, _), i).
     bindR (store_precomputed_locked sha256 (gd_channel_index g) a planned (index_get index) wires i) (\<lambda>(_, i).
     bindR (store_precomputed_locked sha256 (gd_channel_index g) c planned' (index_get index') wires' i) (\<lambda>(_, i). Inr i)))))"

definition may_open :: "inner \<Rightarrow> grpc_job_descriptor \<Rightarrow> channel_record \<Rightarrow> u64 \<Rightarrow> bool" where
  \<comment> \<open>the channel of \<open>g\<close> is enabled with the parameters of \<open>g\<close>, idle, and has room for the planned units\<close>
  "may_open i g c planned \<longleftrightarrow> bm_get (db_channels (in_db i)) (channel_key (gd_channel_index g)) = Some c \<and> ch_enabled c
     \<and> gd_ssp_target g = ch_ssp_target c \<and> gd_delta_lifetime_checked_units_cap g = ch_delta_lifetime_checked_units_cap c
     \<and> \<not> job_on_channel i (gd_channel_index g) \<and> sat_add (ch_estimated_checked_units c) planned \<le> ch_delta_lifetime_checked_units_cap c"

lemma idle_reserved: "\<not> job_on_channel i ci \<Longrightarrow> reserved_units i ci = 0"
  by (simp add: job_on_channel_iff channel_jobs_def reserved_units_def)

lemma begin_incoming_may_open:
  assumes "may_open i g c planned" "length (in_active_jobs i) < unat w"
  shows "begin_incoming_locked w g index planned i =
    (let jid = gd_job_id g @ ''-target-'' @ dec_string (unat (index_get index)); i' = start_job jid (gd_channel_index g) index planned c i
     in Inr ((jid, channel_writes (gd_channel_index g) i'), i'))"
  using assms by (simp add: may_open_def begin_incoming_locked_def get_enabled_channel_def get_channel_def units_used_def
      idle_reserved Let_def not_less)

lemma bm_insert_length: "length (bm_insert k v m) \<le> Suc (length m)"
  by (induction k v m rule: bm_insert.induct) auto

lemma start_job_facts:
  assumes can: "canonical_db (in_db i)" and inv: "bm_inv (in_active_jobs i)" and c: "bm_get (db_channels (in_db i)) (channel_key ci) = Some c"
    and i': "i' = start_job jid ci idx planned c i"
  shows "canonical_db (in_db i')" and "bm_inv (in_active_jobs i')" and "length (in_active_jobs i') \<le> Suc (length (in_active_jobs i))"
    and "bm_get (db_channels (in_db i')) (channel_key ci') =
       (if ci' = ci then Some (c\<lparr>ch_attempted_checked_units := sat_add (ch_attempted_checked_units c) planned\<rparr>)
        else bm_get (db_channels (in_db i)) (channel_key ci'))"
    and "map_option jb_channel_index (bm_get (in_active_jobs i') k) =
       (if k = jid then Some ci else map_option jb_channel_index (bm_get (in_active_jobs i) k))"
proof -
  let ?c = "c\<lparr>ch_attempted_checked_units := sat_add (ch_attempted_checked_units c) planned\<rparr>"
  define e where "e = \<lparr>jb_channel_index = ci, jb_kind = ''precompute'', jb_state = ''grpc target='' @ dec_string (unat (index_get idx)),
     jb_planned_checked_units = planned\<rparr>"
  have e: "jb_channel_index e = ci" "in_active_jobs i' = bm_insert jid e (in_active_jobs i)"
    by (simp_all add: i' e_def start_job_def set_channel_def Let_def)
  have db: "in_db i' = in_db (set_channel ci ?c i)" by (simp add: i' start_job_def Let_def)
  show "canonical_db (in_db i')" unfolding db in_db_set_channel
    by (rule canonical_put_channel [OF can]) (use canonical_channel [OF can c] in simp_all)
  show "bm_get (db_channels (in_db i')) (channel_key ci') = (if ci' = ci then Some ?c else bm_get (db_channels (in_db i)) (channel_key ci'))"
    using can unfolding db by simp
  show "bm_inv (in_active_jobs i')" "length (in_active_jobs i') \<le> Suc (length (in_active_jobs i))"
    unfolding e(2) using inv bm_insert_length by auto
  show "map_option jb_channel_index (bm_get (in_active_jobs i') k) =
       (if k = jid then Some ci else map_option jb_channel_index (bm_get (in_active_jobs i) k))"
    unfolding e(2) using inv e(1) by simp
qed

lemma job_on_channel_get:
  assumes "bm_inv (in_active_jobs i)"
  shows "job_on_channel i ci \<longleftrightarrow> (\<exists>k. map_option jb_channel_index (bm_get (in_active_jobs i) k) = Some ci)"
proof -
  have "(\<exists>e \<in> set (in_active_jobs i). jb_channel_index (snd e) = ci)
      \<longleftrightarrow> (\<exists>k j. bm_get (in_active_jobs i) k = Some j \<and> jb_channel_index j = ci)" (is "?l \<longleftrightarrow> ?r")
  proof
    assume ?l
    then obtain k j where "(k, j) \<in> set (in_active_jobs i)" "jb_channel_index j = ci" by auto
    then show ?r using bm_in_set_get [OF assms] by blast
  next
    assume ?r
    then obtain k j where "(k, j) \<in> set (in_active_jobs i)" "jb_channel_index j = ci" using bm_get_in_set by metis
    then show ?l by (intro bexI [of _ "(k, j)"]) simp_all
  qed
  then show ?thesis by (auto simp: job_on_channel_def list_ex_iff bm_values_def)
qed

lemma store_precomputed_enabled:
  assumes can: "canonical_db (in_db i)" and c: "bm_get (db_channels (in_db i)) (channel_key ci) = Some c" and en: "ch_enabled c"
  shows "\<exists>ms i' c'. store_precomputed_locked sha256 ci jid planned m wires i = Inr (ms, i') \<and> canonical_db (in_db i')
    \<and> bm_get (db_channels (in_db i')) (channel_key ci) = Some c' \<and> ch_enabled c'
    \<and> ch_estimated_checked_units c' = sat_add (ch_estimated_checked_units c) planned
    \<and> ch_delta_lifetime_checked_units_cap c' = ch_delta_lifetime_checked_units_cap c"
proof -
  obtain bs where b: "binding_pair sha256 i ci m = Some bs" using c by (simp add: binding_pair_def Let_def)
  define c' where "c' = c\<lparr>ch_frontier_nodes := bm_insert (node_key m) (new_wire_record bs wires) (ch_frontier_nodes c),
     ch_estimated_checked_units := sat_add (ch_estimated_checked_units c) planned\<rparr>"
  have s: "\<exists>ms. store_precomputed_locked sha256 ci jid planned m wires i =
      Inr (ms, (set_channel ci c' i)\<lparr>in_active_jobs := bm_remove jid (in_active_jobs i)\<rparr>)"
    using b c en by (simp add: store_precomputed_locked_def get_enabled_channel_def get_channel_def c'_def Let_def set_channel_def)
  have "canonical_db (put_channel ci c' (in_db i))"
    by (rule canonical_put_channel [OF can]) (use canonical_channel [OF can c] in \<open>simp_all add: c'_def\<close>)
  moreover have "bm_get (db_channels (put_channel ci c' (in_db i))) (channel_key ci) = Some c'"
    using can unfolding in_db_set_channel [symmetric] by simp
  moreover have "ch_enabled c'" "ch_estimated_checked_units c' = sat_add (ch_estimated_checked_units c) planned"
    "ch_delta_lifetime_checked_units_cap c' = ch_delta_lifetime_checked_units_cap c" using en by (simp_all add: c'_def)
  moreover obtain ms where "store_precomputed_locked sha256 ci jid planned m wires i =
      Inr (ms, (set_channel ci c' i)\<lparr>in_active_jobs := bm_remove jid (in_active_jobs i)\<rparr>)" using s by blast
  ultimately show ?thesis
    by (intro exI [of _ ms] exI [of _ "(set_channel ci c' i)\<lparr>in_active_jobs := bm_remove jid (in_active_jobs i)\<rparr>"] exI [of _ c'])
      (simp add: set_channel_def)
qed

lemma reuse_run_result:
  assumes can: "canonical_db (in_db i)" and inv: "bm_inv (in_active_jobs i)" and len: "length (in_active_jobs i) + 2 < unat w"
    and ne: "gd_channel_index g' \<noteq> gd_channel_index g"
    and o1: "may_open i g c planned" and o2: "may_open i g' c' planned2" and o3: "may_open i g c planned'"
  shows "\<exists>i' d. reuse_run sha256 w jid g g' jid' index index' planned planned2 planned' wires wires' i = Inr i'
    \<and> bm_get (db_channels (in_db i')) (channel_key (gd_channel_index g)) = Some d
    \<and> ch_estimated_checked_units d = sat_add (sat_add (ch_estimated_checked_units c) planned) planned'
    \<and> ch_delta_lifetime_checked_units_cap d = ch_delta_lifetime_checked_units_cap c"
proof -
  let ?ci = "gd_channel_index g" and ?ci' = "gd_channel_index g'"
  let ?t = "''-target-'' @ dec_string (unat (index_get index))" and ?t' = "''-target-'' @ dec_string (unat (index_get index'))"
  let ?c = "c\<lparr>ch_attempted_checked_units := sat_add (ch_attempted_checked_units c) planned\<rparr>"
  let ?g = "g\<lparr>gd_job_id := jid\<rparr>" and ?g' = "g'\<lparr>gd_job_id := jid\<rparr>" and ?g3 = "g\<lparr>gd_job_id := jid'\<rparr>"
  define i1 where "i1 = start_job (jid @ ?t) ?ci index planned c i"
  define i2 where "i2 = start_job (jid @ ?t) ?ci' index planned2 c' i1"
  define i3 where "i3 = start_job (jid' @ ?t') ?ci index' planned' ?c i2"
  have idle: "\<not> job_on_channel i ?ci" "\<not> job_on_channel i ?ci'" using o1 o2 by (simp_all add: may_open_def)
  have get: "bm_get (db_channels (in_db i)) (channel_key ?ci) = Some c" "bm_get (db_channels (in_db i)) (channel_key ?ci') = Some c'"
    using o1 o2 by (simp_all add: may_open_def)
  note f1 = start_job_facts [OF can inv get(1) i1_def]
  have get1: "bm_get (db_channels (in_db i1)) (channel_key ?ci') = Some c'" using f1(4) [of ?ci'] get(2) ne by simp
  note f2 = start_job_facts [OF f1(1,2) get1 i2_def]
  have get2: "bm_get (db_channels (in_db i2)) (channel_key ?ci) = Some ?c" using f2(4) [of ?ci] f1(4) [of ?ci] ne by simp
  note f3 = start_job_facts [OF f2(1,2) get2 i3_def]
  have "may_open i ?g c planned" using o1 by (simp add: may_open_def)
  from begin_incoming_may_open [OF this, of w index] len
  have b1: "begin_incoming_locked w ?g index planned i = Inr ((jid @ ?t, channel_writes ?ci i1), i1)" by (simp add: i1_def Let_def)
  have "\<not> job_on_channel i1 ?ci'"
    using idle(2) f1(5) ne unfolding job_on_channel_get [OF inv] job_on_channel_get [OF f1(2)] by auto
  then have "may_open i1 ?g' c' planned2" using o2 get1 by (simp add: may_open_def)
  from begin_incoming_may_open [OF this, of w index] len f1(3)
  have b2: "begin_incoming_locked w ?g' index planned2 i1 = Inr ((jid @ ?t, channel_writes ?ci' i2), i2)" by (simp add: i2_def Let_def)
  have "\<not> job_on_channel i2 ?ci"
    using idle(1) f1(5) f2(5) ne unfolding job_on_channel_get [OF inv] job_on_channel_get [OF f2(2)] by (auto split: if_splits)
  then have "may_open i2 ?g3 ?c planned'" using o3 get2 by (simp add: may_open_def)
  from begin_incoming_may_open [OF this, of w index'] len f1(3) f2(3)
  have b3: "begin_incoming_locked w ?g3 index' planned' i2 = Inr ((jid' @ ?t', channel_writes ?ci i3), i3)" by (simp add: i3_def Let_def)
  have get3: "bm_get (db_channels (in_db i3)) (channel_key ?ci) =
      Some (?c\<lparr>ch_attempted_checked_units := sat_add (ch_attempted_checked_units ?c) planned'\<rparr>)" using f3(4) [of ?ci] by simp
  have en: "ch_enabled (?c\<lparr>ch_attempted_checked_units := sat_add (ch_attempted_checked_units ?c) planned'\<rparr>)" using o1 by (simp add: may_open_def)
  note st = store_precomputed_enabled [OF f3(1) get3 en, of sha256 "jid @ ?t" planned "index_get index" wires]
  from st obtain ms4 i4 c4 where
    s4: "store_precomputed_locked sha256 ?ci (jid @ ?t) planned (index_get index) wires i3 = Inr (ms4, i4)" "canonical_db (in_db i4)"
      "bm_get (db_channels (in_db i4)) (channel_key ?ci) = Some c4" "ch_enabled c4"
      "ch_estimated_checked_units c4 = sat_add (ch_estimated_checked_units c) planned"
      "ch_delta_lifetime_checked_units_cap c4 = ch_delta_lifetime_checked_units_cap c"
    by (elim exE conjE) (rule that, assumption+, simp_all)
  from store_precomputed_enabled [OF s4(2-4), of sha256 "jid' @ ?t'" planned' "index_get index'" wires'] obtain ms5 i5 c5 where
    s5: "store_precomputed_locked sha256 ?ci (jid' @ ?t') planned' (index_get index') wires' i4 = Inr (ms5, i5)"
      "bm_get (db_channels (in_db i5)) (channel_key ?ci) = Some c5"
      "ch_estimated_checked_units c5 = sat_add (ch_estimated_checked_units c4) planned'"
      "ch_delta_lifetime_checked_units_cap c5 = ch_delta_lifetime_checked_units_cap c4"
    by (elim exE conjE) (rule that)
  have "reuse_run sha256 w jid g g' jid' index index' planned planned2 planned' wires wires' i = Inr i5"
    by (simp only: reuse_run_def b1 b2 b3 s4(1) s5(1) bindR_simps prod.case)
  then show ?thesis using s4(5,6) s5(2-4) by (intro exI [of _ i5] exI [of _ c5]) simp
qed

end
