(* ===== verification/Daemon_Reveal_Correct.thy ===== *)
theory Daemon_Reveal_Correct
  imports Daemon_Jobs_Correct Party_Correct
begin

text \<open>
  The secrets a daemon knows and the reveals it makes: the set of known secrets stays right, minimal and
  loses nothing; a reveal is authorised; and a cached reveal between two daemons gives both the same secret.
\<close>

section \<open>Known secrets\<close>

lemma daemon_set_bits_desc_eq: "daemon_set_bits_desc v = set_bits_desc v"
  by (simp add: daemon_set_bits_desc_def set_bits_desc_def bit_set_def cong: filter_cong)

lemma daemon_derive_eq: "daemon_derive_from_known sha256 i s j = derive_from_known sha256 i s j"
proof -
  have "(\<lambda>b p. sha256 (p[b div 8 := p ! (b div 8) XOR push_bit (b mod 8) 1])) = hash_step sha256"
    by (intro ext) (simp only: hash_step_def flip_bit_def)
  then show ?thesis unfolding daemon_derive_from_known_def derive_from_known_def daemon_set_bits_desc_eq by (simp only:)
qed

lemma derive_right: "daemon_derive_from_known sha256 i (generate_from_seed sha256 seed i) j =
    (if can_derive_mask i j then Some (generate_from_seed sha256 seed j) else None)"
  using derive_generate [of i j sha256 seed] by (simp add: daemon_derive_eq derive_from_known_eq)

definition right_secrets :: "(bytes \<Rightarrow> bytes) \<Rightarrow> value32 \<Rightarrow> (string \<times> string) list \<Rightarrow> bool" where
  \<comment> \<open>every stored secret is the shachain's\<close>
  "right_secrets sha256 seed m \<longleftrightarrow>
     (\<forall>e \<in> set m. \<exists>i. e = (node_key i, value_to_hex (generate_from_seed sha256 seed i)))"

definition derivable :: "(string \<times> string) list \<Rightarrow> u64 \<Rightarrow> bool" where
  \<comment> \<open>some stored index derives \<open>j\<close>\<close>
  "derivable m j \<longleftrightarrow> (\<exists>i. node_key i \<in> fst ` set m \<and> can_derive_mask i j)"

definition no_redundancy :: "(string \<times> string) list \<Rightarrow> bool" where
  "no_redundancy m \<longleftrightarrow> (\<forall>i j. node_key i \<in> fst ` set m \<longrightarrow> node_key j \<in> fst ` set m \<longrightarrow> can_derive_mask i j \<longrightarrow> i = j)"

definition hash32 :: "(bytes \<Rightarrow> bytes) \<Rightarrow> bool" where
  "hash32 sha256 \<longleftrightarrow> (\<forall>b. wf_value (sha256 b))"

lemma generate_wf32:
  assumes "hash32 sha256" and "wf_value seed"
  shows "wf_value (generate_from_seed sha256 seed i)"
proof -
  have "wf_value (fold (hash_step sha256) bs v)" if "wf_value v" for bs v
    using that assms(1) by (induction bs arbitrary: v) (simp_all add: hash_step_def hash32_def)
  then show ?thesis using assms(2) by (simp add: generate_from_seed_eq)
qed

lemma stored_value:
  assumes "hash32 sha256" and "wf_value seed"
  shows "value_from_hex (value_to_hex (generate_from_seed sha256 seed i)) = Inr (generate_from_seed sha256 seed i)"
  by (rule value_from_hex_to_hex [OF generate_wf32 [OF assms]])

lemma derive_known_from_right:
  assumes "hash32 sha256" and "wf_value seed" and "right_secrets sha256 seed m"
  shows "derive_known_from sha256 m j = Inr (if derivable m j then Some (generate_from_seed sha256 seed j) else None)"
  using assms(3)
proof (induction m)
  case Nil
  then show ?case by (simp add: derivable_def)
next
  case (Cons e m)
  then obtain i where e: "e = (node_key i, value_to_hex (generate_from_seed sha256 seed i))" and r: "right_secrets sha256 seed m"
    by (auto simp: right_secrets_def)
  have "derivable (e # m) j \<longleftrightarrow> can_derive_mask i j \<or> derivable m j" by (auto simp: derivable_def e)
  then show ?case using Cons.IH [OF r]
    by (simp add: e stored_value [OF assms(1,2)] derive_right)
qed

lemma redundant_or_drops_right:
  assumes "hash32 sha256" and "wf_value seed" and "right_secrets sha256 seed m"
  shows "\<exists>ds'. redundant_or_drops sha256 k (generate_from_seed sha256 seed k) m ds = Inr (derivable m k, ds')
    \<and> (\<not> derivable m k \<longrightarrow> set ds' = set ds \<union> {s \<in> fst ` set m. \<exists>i. s = node_key i \<and> can_derive_mask k i})"
  using assms(3)
proof (induction m arbitrary: ds)
  case Nil
  then show ?case by (simp add: derivable_def)
next
  case (Cons e m)
  then obtain i where e: "e = (node_key i, value_to_hex (generate_from_seed sha256 seed i))" and r: "right_secrets sha256 seed m"
    by (auto simp: right_secrets_def)
  have d: "derivable (e # m) k \<longleftrightarrow> can_derive_mask i k \<or> derivable m k" by (auto simp: derivable_def e)
  note st = stored_value [OF assms(1,2)] derive_right
  consider "can_derive_mask i k" | "\<not> can_derive_mask i k" "can_derive_mask k i" | "\<not> can_derive_mask i k" "\<not> can_derive_mask k i" by blast
  then show ?case
  proof cases
    case 1
    then show ?thesis by (simp add: d) (simp add: e st)
  next
    case 2
    from Cons.IH [OF r, of "ds @ [node_key i]"] obtain ds' where
      *: "redundant_or_drops sha256 k (generate_from_seed sha256 seed k) m (ds @ [node_key i]) = Inr (derivable m k, ds')"
         "\<not> derivable m k \<longrightarrow> set ds' = set (ds @ [node_key i]) \<union> {s \<in> fst ` set m. \<exists>i. s = node_key i \<and> can_derive_mask k i}"
      by blast
    then have "redundant_or_drops sha256 k (generate_from_seed sha256 seed k) (e # m) ds = Inr (derivable (e # m) k, ds')"
      using 2 by (simp add: d) (simp add: e st)
    moreover have "set (ds @ [node_key i]) \<union> {s \<in> fst ` set m. \<exists>i. s = node_key i \<and> can_derive_mask k i} =
        set ds \<union> {s \<in> fst ` set (e # m). \<exists>i. s = node_key i \<and> can_derive_mask k i}"
      using 2 by (auto simp: e image_iff)
    ultimately show ?thesis using *(2) 2 d by auto
  next
    case 3
    from Cons.IH [OF r, of ds] obtain ds' where
      *: "redundant_or_drops sha256 k (generate_from_seed sha256 seed k) m ds = Inr (derivable m k, ds')"
         "\<not> derivable m k \<longrightarrow> set ds' = set ds \<union> {s \<in> fst ` set m. \<exists>i. s = node_key i \<and> can_derive_mask k i}"
      by blast
    then have "redundant_or_drops sha256 k (generate_from_seed sha256 seed k) (e # m) ds = Inr (derivable (e # m) k, ds')"
      using 3 by (simp add: d) (simp add: e st)
    moreover have "{s \<in> fst ` set m. \<exists>i. s = node_key i \<and> can_derive_mask k i} =
        {s \<in> fst ` set (e # m). \<exists>i. s = node_key i \<and> can_derive_mask k i}"
      using 3 by (auto simp: e image_iff)
    ultimately show ?thesis using *(2) 3 d by auto
  qed
qed

lemma right_secretsI:
  assumes "canonical_keys m" and "\<And>i h. bm_get m (node_key i) = Some h \<Longrightarrow> h = value_to_hex (generate_from_seed sha256 seed i)"
  shows "right_secrets sha256 seed m"
  unfolding right_secrets_def
proof
  fix e assume e: "e \<in> set m"
  obtain s h where sh: "e = (s, h)" by force
  from canonical_keysD [OF assms(1)] e sh obtain i where "s = node_key i" by blast
  moreover have "bm_get m s = Some h" using assms(1) e sh by (simp add: canonical_keys_def bm_in_set_get)
  ultimately show "\<exists>i. e = (node_key i, value_to_hex (generate_from_seed sha256 seed i))" using assms(2) sh by blast
qed

lemma in_keys_get: "bm_inv m \<Longrightarrow> s \<in> fst ` set m \<longleftrightarrow> bm_get m s \<noteq> None"
  by (force dest: bm_get_in_set bm_in_set_get)

lemma store_known_right:
  assumes h: "hash32 sha256" and s: "wf_value seed" and can: "canonical_db (in_db i)"
    and c: "bm_get (db_channels (in_db i)) (channel_key ci) = Some c"
    and r: "right_secrets sha256 seed (ch_known_secrets c)" and n: "no_redundancy (ch_known_secrets c)"
  shows "\<exists>ms i' c'. store_known_locked sha256 ci idx expected (generate_from_seed sha256 seed (index_get idx)) i = Inr (ms, i')
    \<and> bm_get (db_channels (in_db i')) (channel_key ci) = Some c'
    \<and> right_secrets sha256 seed (ch_known_secrets c') \<and> no_redundancy (ch_known_secrets c')
    \<and> (\<forall>j. derivable (ch_known_secrets c') j \<longleftrightarrow> derivable (ch_known_secrets c) j \<or> can_derive_mask (index_get idx) j)"
proof -
  let ?k = "index_get idx" and ?m = "ch_known_secrets c" and ?v = "generate_from_seed sha256 seed (index_get idx)"
  from redundant_or_drops_right [OF h s r, of ?k "[]"] obtain ds where
    rd: "redundant_or_drops sha256 ?k ?v ?m [] = Inr (derivable ?m ?k, ds)"
    and ds: "\<not> derivable ?m ?k \<Longrightarrow> set ds = {s \<in> fst ` set ?m. \<exists>i. s = node_key i \<and> can_derive_mask ?k i}" by auto
  have cm: "canonical_keys ?m" using canonical_channel(1) [OF can c] .
  then have inv: "bm_inv ?m" by (simp add: canonical_keys_def)
  let ?m' = "if derivable ?m ?k then ?m else bm_insert (node_key ?k) (value_to_hex ?v) (fold bm_remove ds ?m)"
  define c' where "c' = c\<lparr>ch_known_secrets := ?m', ch_frontier_nodes := bm_remove (node_key ?k) (ch_frontier_nodes c),
      ch_last_observed_next_reveal_index := Some (sat_sub expected 1)\<rparr>"
  have run: "\<exists>ms. store_known_locked sha256 ci idx expected ?v i = Inr (ms, set_channel ci c' i)"
    using c rd by (auto simp: store_known_locked_def c'_def get_channel_def dec_string_key Let_def)
  have cf: "canonical_keys (fold bm_remove ds ?m)" using cm by blast
  then have "canonical_keys ?m'" using cm by simp
  have get': "bm_get ?m' (node_key j) = (if derivable ?m ?k then bm_get ?m (node_key j)
       else if j = ?k then Some (value_to_hex ?v) else if can_derive_mask ?k j then None else bm_get ?m (node_key j))" for j
  proof (cases "derivable ?m ?k")
    case False
    have "bm_get (fold bm_remove ds ?m) (node_key j) = (if can_derive_mask ?k j then None else bm_get ?m (node_key j))"
      using bm.get_fold_remove [OF inv, of ds "node_key j"] ds [OF False] in_keys_get [OF inv, of "node_key j"] by auto
    then show ?thesis using False cf by simp
  qed simp
  have keys': "node_key j \<in> fst ` set ?m' \<longleftrightarrow> (if derivable ?m ?k then node_key j \<in> fst ` set ?m
       else j = ?k \<or> \<not> can_derive_mask ?k j \<and> node_key j \<in> fst ` set ?m)" for j
    using get' [of j] in_keys_get [OF inv, of "node_key j"] in_keys_get [of ?m' "node_key j"] \<open>canonical_keys ?m'\<close>
    by (auto simp: canonical_keys_def split: if_splits)
  have g: "bm_get ?m (node_key j) = Some w \<Longrightarrow> w = value_to_hex (generate_from_seed sha256 seed j)" for j w
    using r by (auto simp: right_secrets_def dest!: bm_get_in_set)
  have f1: "right_secrets sha256 seed ?m'"
    by (rule right_secretsI [OF \<open>canonical_keys ?m'\<close>]) (use get' g in \<open>auto split: if_splits\<close>)
  have f2: "no_redundancy ?m'"
  proof (cases "derivable ?m ?k")
    case True then show ?thesis using n by simp
  next
    case False
    have "\<not> can_derive_mask j ?k" if "node_key j \<in> fst ` set ?m" for j using False that by (auto simp: derivable_def)
    then show ?thesis using n False unfolding no_redundancy_def keys' by (auto simp: can_derive_mask_refl)
  qed
  have f3: "derivable ?m' j \<longleftrightarrow> derivable ?m j \<or> can_derive_mask ?k j" for j
  proof (cases "derivable ?m ?k")
    case True then show ?thesis by (auto simp: derivable_def intro: can_derive_mask_trans)
  next
    case False
    have "derivable ?m' j \<longleftrightarrow> (\<exists>i. (i = ?k \<or> \<not> can_derive_mask ?k i \<and> node_key i \<in> fst ` set ?m) \<and> can_derive_mask i j)"
      unfolding derivable_def [of ?m' j] keys' by (simp only: False if_False)
    then show ?thesis unfolding derivable_def [of ?m j] using can_derive_mask_trans by blast
  qed
  have f4: "bm_get (db_channels (in_db (set_channel ci c' i))) (channel_key ci) = Some c'" using can by simp
  have sel: "ch_known_secrets c' = ?m'" by (simp add: c'_def)
  from run obtain ms where run': "store_known_locked sha256 ci idx expected ?v i = Inr (ms, set_channel ci c' i)" by blast
  show ?thesis
    by (intro exI conjI allI, rule run', rule f4) (unfold sel, (rule f1 f2 f3)+)
qed

section \<open>Authorised reveals\<close>

lemma act_bind_Inr: "act_bind m k d = (Inr y, d'') \<longleftrightarrow> (\<exists>x d'. m d = (Inr x, d') \<and> k x d' = (Inr y, d''))"
  by (auto simp: act_bind_def split: prod.splits sum.splits)

lemma act_simps [simp]:
  "act_return x d = (Inr x, d)" "act_fail e d = (Inl e, d)" "act_lift r d = (r, d)" "act_inner f d = (f (dm_inner d), d)"
  "enqueue ms durability d = (Inr (), d\<lparr>dm_queue := write_batch ms durability (dm_queue d)\<rparr>)"
  by (simp_all add: act_return_def act_fail_def act_lift_def act_inner_def enqueue_def)

lemma act_bind_step:
  "m d = (Inr x, d') \<Longrightarrow> act_bind m k d = k x d'"
  "m d = (Inl e, d') \<Longrightarrow> act_bind m k d = (Inl e, d')"
  by (simp_all add: act_bind_def)

lemma locked_Inr: "locked f d = (Inr x, d') \<longleftrightarrow> (\<exists>i. f (dm_inner d) = Inr (x, i) \<and> d' = d\<lparr>dm_inner := i\<rparr>)"
  by (auto simp: locked_def split: sum.splits)

lemma store_known_secret_run:
  assumes "store_known_locked sha256 ci idx expected v (dm_inner d) = Inr (ms, i')"
  shows "store_known_secret sha256 ci idx expected v d =
    (Inr (), d\<lparr>dm_inner := i', dm_queue := write_batch ms Eventual (dm_queue d)\<rparr>)"
  using assms by (simp add: store_known_secret_def act_bind_def locked_def)

lemma reveal_guard:
  assumes "reveal sha256 hmac env tx tx' ci requested expected allow d = (Inr resp, d')"
  shows "requested \<le> MAX_INDEX \<and> (requested = 0 \<longrightarrow> allow) \<and>
    (requested = expected \<or>
     (d' = d \<and> (\<exists>c v. bm_get (db_channels (in_db (dm_inner d))) (channel_key ci) = Some c
        \<and> derive_known_from sha256 (ch_known_secrets c) requested = Inr (Some v)
        \<and> resp = reveal_response_of ci (Index48 requested) v True ''known'')))"
proof -
  from assms obtain idx where idx: "idx = Index48 requested" "requested \<le> MAX_INDEX" and g: "\<not> (requested = 0 \<and> \<not> allow)"
    by (auto simp: reveal_def act_bind_Inr index_new_def mapErr_def split: if_splits)
  have "requested = expected \<or> (d' = d \<and> (\<exists>c v. bm_get (db_channels (in_db (dm_inner d))) (channel_key ci) = Some c
        \<and> derive_known_from sha256 (ch_known_secrets c) requested = Inr (Some v)
        \<and> resp = reveal_response_of ci (Index48 requested) v True ''known''))"
    using assms idx g
    by (auto simp: reveal_def act_bind_Inr index_new_def derive_known_def split: if_splits option.splits)
  then show ?thesis using idx g by blast
qed

lemma take_pending_Inr:
  assumes "take_pending_reveal env key d = (Inr tx, d')"
  shows "\<exists>d0. (d0 = d \<or> d0 = pe_wait_pending env key d) \<and> dm_pending_reveals d0 key = Some tx
    \<and> d' = d0\<lparr>dm_pending_reveals := (dm_pending_reveals d0)(key := None)\<rparr>"
  using assms by (auto simp: take_pending_reveal_def Let_def split: option.splits if_splits)

section \<open>A cached reveal between two daemons\<close>

definition keeps_node :: "(bytes \<Rightarrow> bytes) \<Rightarrow> 's daemon \<Rightarrow> u64 \<Rightarrow> u64 \<Rightarrow> channel_record \<Rightarrow> secure_wires \<Rightarrow> bool" where
  \<comment> \<open>the channel \<open>c\<close> is enabled and has the node \<open>m\<close> stored, bound to its present parameters\<close>
  "keeps_node sha256 d ci m c w \<longleftrightarrow> bm_get (db_channels (in_db (dm_inner d))) (channel_key ci) = Some c \<and> ch_enabled c
     \<and> (\<exists>r. bm_get (ch_frontier_nodes c) (node_key m) = Some r \<and> binding_current sha256 (dm_inner d) ci m r
          \<and> to_secure_wires (wr_wires r) = w)"

definition delta_of :: "(bytes \<Rightarrow> bytes \<Rightarrow> bytes) \<Rightarrow> 's daemon \<Rightarrow> u64 \<Rightarrow> block" where
  "delta_of hmac d ci = channel_delta hmac (in_master_secret (dm_inner d)) ci (cf_role (in_cfg (dm_inner d)))"

definition channel_binding :: "(bytes \<Rightarrow> bytes) \<Rightarrow> u64 \<Rightarrow> u64 \<Rightarrow> channel_record \<Rightarrow> string" where
  "channel_binding sha256 ci m c = to_hex (public_binding sha256 ci m (ch_ssp_target c) (ch_delta_lifetime_checked_units_cap c))"

definition cached_request :: "(bytes \<Rightarrow> bytes) \<Rightarrow> u64 \<Rightarrow> u64 \<Rightarrow> bool \<Rightarrow> channel_record \<Rightarrow> secure_wires \<Rightarrow> reveal_cached_request" where
  "cached_request sha256 ci m allow c w =
     \<lparr>rq_channel_index = ci, rq_requested_index = m, rq_expected_next_index = m, rq_allow_seed_reveal = allow,
      rq_share_bits = rl_share_bits (reveal_local_share sha256 (sw_bundle w)),
      rq_mac_digest = rl_mac_digest (reveal_local_share sha256 (sw_bundle w)),
      rq_ssp_target = ch_ssp_target c, rq_delta_lifetime_checked_units_cap = ch_delta_lifetime_checked_units_cap c,
      rq_public_binding_hex = channel_binding sha256 ci m c\<rparr>"

lemma load_node_keeps: "keeps_node sha256 d ci m c w \<Longrightarrow> load_node sha256 ci m d = (Inr (Some w), d)"
  by (auto simp: load_node_def keeps_node_def)

lemma reveal_context_keeps:
  assumes "keeps_node sha256 d ci m c w"
  shows "reveal_node_context sha256 hmac ci m d =
    (Inr (delta_of hmac d ci, ch_ssp_target c, ch_delta_lifetime_checked_units_cap c, channel_binding sha256 ci m c), d)"
proof -
  have "bm_get (db_channels (in_db (dm_inner d))) (channel_key ci) = Some c" "ch_enabled c"
    using assms by (simp_all add: keeps_node_def)
  then show ?thesis
    by (simp add: reveal_node_context_def get_enabled_channel_def get_channel_def binding_pair_def
        delta_of_def channel_binding_def Let_def)
qed

lemma mac_digest_length: "hash32 sha256 \<Longrightarrow> length (rl_mac_digest (reveal_local_share sha256 w)) = HASH_DIGEST_BYTES"
  by (simp add: reveal_local_share_def hash32_def wf_value_def HASH_DIGEST_BYTES_def VALUE_BYTES_def)

lemma peer_answers:
  assumes h: "hash32 sha256" and s: "wf_value seed" and m: "m \<le> MAX_INDEX" "m \<noteq> 0 \<or> allow"
    and v: "v = generate_from_seed sha256 seed m"
    and B: "keeps_node sha256 dB ci m cB b" and can: "canonical_db (in_db (dm_inner dB))"
    and sec: "right_secrets sha256 seed (ch_known_secrets cB)" "no_redundancy (ch_known_secrets cB)"
    and p: "ch_ssp_target cA = ch_ssp_target cB" "ch_delta_lifetime_checked_units_cap cA = ch_delta_lifetime_checked_units_cap cB"
    and ok: "masked_ok deltaA (delta_of hmac dB ci) (value_bools v) a b"
    and pend: "dm_pending_reveals dB (RevealRequestKey ci m m allow) = Some tx"
  shows "\<exists>dB' cB'. handle_peer_cached_reveal sha256 hmac env (cached_request sha256 ci m allow cA a) dB =
      (Inr \<lparr>rs_share_bits = rl_share_bits (reveal_local_share sha256 (sw_bundle b)),
            rs_mac_digest = rl_mac_digest (reveal_local_share sha256 (sw_bundle b))\<rparr>, dB')
    \<and> dm_reveal_answers dB' = dm_reveal_answers dB @ [(tx, Inr v)]
    \<and> dm_pending_reveals dB' (RevealRequestKey ci m m allow) = None
    \<and> bm_get (db_channels (in_db (dm_inner dB'))) (channel_key ci) = Some cB'
    \<and> right_secrets sha256 seed (ch_known_secrets cB') \<and> derivable (ch_known_secrets cB') m"
proof -
  have wv: "wf_value v" unfolding v by (rule generate_wf32 [OF h s])
  note sh = reveal_node_share [OF ok wv, of sha256]
  let ?key = "RevealRequestKey ci m m allow" and ?d = "dB\<lparr>dm_pending_reveals := (dm_pending_reveals dB)(RevealRequestKey ci m m allow := None)\<rparr>"
  let ?req = "cached_request sha256 ci m allow cA a"
  have c: "bm_get (db_channels (in_db (dm_inner dB))) (channel_key ci) = Some cB" using B by (simp add: keeps_node_def)
  from store_known_right [OF h s can c sec, of "Index48 m" m] obtain ms i' cB' where
    st: "store_known_locked sha256 ci (Index48 m) m v (dm_inner dB) = Inr (ms, i')"
    and c': "bm_get (db_channels (in_db i')) (channel_key ci) = Some cB'" "right_secrets sha256 seed (ch_known_secrets cB')"
    and dv: "derivable (ch_known_secrets cB') m"
    by (auto simp: v)
  have B': "keeps_node sha256 ?d ci m cB b" using B by (simp add: keeps_node_def)
  have dl: "delta_of hmac ?d ci = delta_of hmac dB ci" by (simp add: delta_of_def)
  have bind: "channel_binding sha256 ci m cA = channel_binding sha256 ci m cB" by (simp add: channel_binding_def p)
  have idx: "index_new m = Inr (Index48 m)" using m(1) by (simp add: index_new_def)
  have mac: "parse_mac_digest (rl_mac_digest (reveal_local_share sha256 w)) s = Inr (rl_mac_digest (reveal_local_share sha256 w))" for w s
    using mac_digest_length [OF h] by (simp add: parse_mac_digest_def)
  have st': "store_known_locked sha256 ci (Index48 m) m v (dm_inner ?d) = Inr (ms, i')" using st by simp
  have "complete_peer_cached_reveal sha256 hmac ?req ?d =
      (Inr (\<lparr>rs_share_bits = rl_share_bits (reveal_local_share sha256 (sw_bundle b)),
            rs_mac_digest = rl_mac_digest (reveal_local_share sha256 (sw_bundle b))\<rparr>, v),
       ?d\<lparr>dm_inner := i', dm_queue := write_batch ms Eventual (dm_queue ?d)\<rparr>)"
    using m(2) unfolding complete_peer_cached_reveal_def cached_request_def
    by (simp add: act_bind_def idx mac load_node_keeps [OF B'] reveal_context_keeps [OF B'] p bind dl sh
        store_known_secret_run [OF st'] cong: if_cong)
  then have "handle_peer_cached_reveal sha256 hmac env ?req dB =
      (Inr \<lparr>rs_share_bits = rl_share_bits (reveal_local_share sha256 (sw_bundle b)),
            rs_mac_digest = rl_mac_digest (reveal_local_share sha256 (sw_bundle b))\<rparr>,
       answer_reveal tx (Inr v) (?d\<lparr>dm_inner := i', dm_queue := write_batch ms Eventual (dm_queue ?d)\<rparr>))"
    using pend by (simp add: handle_peer_cached_reveal_def act_bind_def take_pending_reveal_def cached_request_def)
  then show ?thesis using c' dv by (simp add: answer_reveal_def)
qed

definition peer_rpc ::
  "(bytes \<Rightarrow> bytes) \<Rightarrow> (bytes \<Rightarrow> bytes \<Rightarrow> bytes) \<Rightarrow> 's peer_env \<Rightarrow> 's daemon \<Rightarrow> reveal_cached_request \<Rightarrow> ('s, reveal_cached_response) act" where
  \<comment> \<open>the call arrives at a daemon in the state \<open>dB\<close>; a status comes back as an error of the caller\<close>
  "peer_rpc sha256 hmac envB dB req d =
     (mapErr (\<lambda>st. DTonicStatus (fst st) (snd st) (snd st)) (fst (reveal_cached_rpc sha256 hmac envB req dB)), d)"

lemma caller_knows:
  assumes h: "hash32 sha256" and s: "wf_value seed" and m: "m \<le> MAX_INDEX" "m \<noteq> 0"
    and v: "v = generate_from_seed sha256 seed m"
    and A: "keeps_node sha256 dA ci m cA a" and secA: "right_secrets sha256 seed (ch_known_secrets cA)"
    and known: "derivable (ch_known_secrets cA) m"
  shows "reveal sha256 hmac env t t' ci m m allow dA = (Inr (reveal_response_of ci (Index48 m) v True ''known''), dA)"
proof -
  have "bm_get (db_channels (in_db (dm_inner dA))) (channel_key ci) = Some cA" using A by (simp add: keeps_node_def)
  then have "derive_known sha256 ci (Index48 m) dA = (Inr (Some v), dA)"
    using derive_known_from_right [OF h s secA, of m] known v by (simp add: derive_known_def)
  moreover have "index_new m = Inr (Index48 m)" using m(1) by (simp add: index_new_def)
  ultimately show ?thesis using m(2) by (simp add: reveal_def act_bind_def)
qed

lemma caller_reveals:
  assumes h: "hash32 sha256" and s: "wf_value seed" and m: "m \<le> MAX_INDEX" "m \<noteq> 0"
    and v: "v = generate_from_seed sha256 seed m"
    and A: "keeps_node sha256 dA ci m cA a" and B: "keeps_node sha256 dB ci m cB b"
    and can: "canonical_db (in_db (dm_inner dA))" "canonical_db (in_db (dm_inner dB))"
    and secA: "right_secrets sha256 seed (ch_known_secrets cA)" "no_redundancy (ch_known_secrets cA)"
    and secB: "right_secrets sha256 seed (ch_known_secrets cB)" "no_redundancy (ch_known_secrets cB)"
    and p: "ch_ssp_target cA = ch_ssp_target cB" "ch_delta_lifetime_checked_units_cap cA = ch_delta_lifetime_checked_units_cap cB"
    and ok: "masked_ok (delta_of hmacA dA ci) (delta_of hmacB dB ci) (value_bools v) a b" "sw_lambda a = sw_lambda b"
    and pend: "dm_pending_reveals dB (RevealRequestKey ci m m allow) = Some tx"
    and role: "cf_role (in_cfg (dm_inner dA)) = Alice" "has_peer_channels dA"
    and new: "\<not> derivable (ch_known_secrets cA) m"
    and env: "pe_reveal_cached env = peer_rpc sha256 hmacB envB dB"
  shows "\<exists>dA' cA'. reveal sha256 hmacA env t t' ci m m allow dA =
      (Inr (reveal_response_of ci (Index48 m) v True ''frontier''), dA')
    \<and> bm_get (db_channels (in_db (dm_inner dA'))) (channel_key ci) = Some cA'
    \<and> right_secrets sha256 seed (ch_known_secrets cA') \<and> derivable (ch_known_secrets cA') m"
proof -
  have wv: "wf_value v" unfolding v by (rule generate_wf32 [OF h s])
  note sh = reveal_node_share [OF ok(1) wv, of sha256]
  have m': "m \<noteq> 0 \<or> allow" using m(2) by simp
  from peer_answers [OF h s m(1) m' v B can(2) secB p ok(1) pend, of envB] obtain dB' where
    rpc: "handle_peer_cached_reveal sha256 hmacB envB (cached_request sha256 ci m allow cA a) dB =
      (Inr \<lparr>rs_share_bits = rl_share_bits (reveal_local_share sha256 (sw_bundle b)),
            rs_mac_digest = rl_mac_digest (reveal_local_share sha256 (sw_bundle b))\<rparr>, dB')" by blast
  have c: "bm_get (db_channels (in_db (dm_inner dA))) (channel_key ci) = Some cA" using A by (simp add: keeps_node_def)
  from store_known_right [OF h s can(1) c secA, of "Index48 m" m] obtain ms i' cA' where
    st: "store_known_locked sha256 ci (Index48 m) m v (dm_inner dA) = Inr (ms, i')"
    and c': "bm_get (db_channels (in_db i')) (channel_key ci) = Some cA'" "right_secrets sha256 seed (ch_known_secrets cA')"
    and dv: "derivable (ch_known_secrets cA') m" by (auto simp: v)
  have idx: "index_new m = Inr (Index48 m)" using m(1) by (simp add: index_new_def)
  have mac: "parse_mac_digest (rl_mac_digest (reveal_local_share sha256 w)) s = Inr (rl_mac_digest (reveal_local_share sha256 w))" for w s
    using mac_digest_length [OF h] by (simp add: parse_mac_digest_def)
  obtain n where n: "peer_channel_for_optional ci dA = Some n"
    using role(2) by (auto simp: has_peer_channels_def peer_channel_for_optional_def split: option.splits)
  have via: "reveal_cached_node_via_peer sha256 hmacA env ci (Index48 m) m allow a dA = (Inr v, dA)"
    using rpc sh(4) [OF ok(2)] unfolding cached_request_def reveal_cached_node_via_peer_def
    by (simp add: act_bind_def reveal_context_keeps [OF A] sh(1) peer_channel_for_def n env peer_rpc_def reveal_cached_rpc_def rpc_of_def mac)
  have known: "derive_known sha256 ci (Index48 m) dA = (Inr None, dA)"
    using c derive_known_from_right [OF h s secA(1), of m] new by (simp add: derive_known_def)
  have "reveal sha256 hmacA env t t' ci m m allow dA =
      (Inr (reveal_response_of ci (Index48 m) v True ''frontier''),
       dA\<lparr>dm_inner := i', dm_queue := write_batch ms Eventual (dm_queue dA)\<rparr>)"
    using m(2) by (simp add: reveal_def act_bind_def idx known load_node_keeps [OF A] reveal_cached_node_def role via
        store_and_answer_def store_known_secret_run [OF st])
  then show ?thesis using c' dv by simp
qed

end
