(* ===== verification/Daemon_Peer_Correct.thy ===== *)
theory Daemon_Peer_Correct
  imports Daemon_Reveal_Correct
begin

text \<open>
  What the daemon decides from its state and tells its peer: the effective security parameter, the candidates
  of the scheduler, the frames of a job stream, the reconciliation of two frontiers; and the three places
  where an interleaving leaves something behind: aborted tasks, late writes, duplicate reveals.
\<close>

section \<open>Security parameter\<close>

lemma take_while_down:
  fixes n :: nat and P
  defines "k \<equiv> n - length (takeWhile (\<lambda>b. \<not> P b) (rev [0..<n]))"
  shows "k \<le> n \<and> (\<forall>b. k \<le> b \<and> b < n \<longrightarrow> \<not> P b) \<and> (0 < k \<longrightarrow> P (k - 1))"
  unfolding k_def
proof (induction n)
  case (Suc n)
  show ?case
  proof (cases "P n")
    case False
    have e: "Suc n - length (takeWhile (\<lambda>b. \<not> P b) (rev [0..<Suc n])) = n - length (takeWhile (\<lambda>b. \<not> P b) (rev [0..<n]))"
      using False by simp
    show ?thesis unfolding e using Suc False by (metis le_SucI less_antisym)
  qed auto
qed simp

lemma word_bits_bound:
  fixes w :: u64
  assumes "\<And>b. k \<le> b \<Longrightarrow> b < 64 \<Longrightarrow> \<not> bit w b" and "k \<le> 64"
  shows "unat w < 2 ^ k"
proof -
  have "take_bit k w = w"
  proof (rule bit_eqI)
    fix n show "bit (take_bit k w) n = bit w n"
      using assms(1) [of n] by (cases "k \<le> n"; cases "n < 64") (auto simp: bit_take_bit_iff dest: bit_imp_le_length)
  qed
  then have "unat w = take_bit k (unat w)" by (metis unsigned_take_bit_eq)
  then show ?thesis by (metis take_bit_nat_less_exp)
qed

lemma ssp_effective_spec:
  "\<exists>k \<le> 64. unat cap \<le> 2 ^ k \<and> (0 < k \<longrightarrow> 2 ^ (k - 1) < unat cap) \<and> ssp_effective t cap = (unat t + k) mod 2 ^ 32"
proof (cases "cap \<le> 1")
  case True
  then have "unat cap \<le> 1" by (simp add: word_le_nat_alt)
  moreover have "unat t < 2 ^ 32" using unsigned_less [of t, where 'a = nat] by simp
  ultimately show ?thesis using True by (intro exI [of _ 0]) (simp add: ssp_effective_def)
next
  case False
  let ?w = "cap - 1" and ?k = "64 - leading_zeros (cap - 1)"
  have c: "1 < unat cap" using False by (simp add: word_le_nat_alt)
  then have w: "unat ?w = unat cap - 1" by (simp add: unat_sub word_le_nat_alt)
  from take_while_down [of 64 "bit ?w"] have
    k: "?k \<le> 64" "\<And>b. ?k \<le> b \<Longrightarrow> b < 64 \<Longrightarrow> \<not> bit ?w b" "0 < ?k \<Longrightarrow> bit ?w (?k - 1)"
    unfolding leading_zeros_def by blast+
  have "unat ?w < 2 ^ ?k" by (rule word_bits_bound) (use k in auto)
  then have e1: "unat cap \<le> 2 ^ ?k" using w c by linarith
  have e2: "2 ^ (?k - 1) < unat cap" if "0 < ?k"
  proof -
    have "bit (unat ?w) (?k - 1)" using k(3) [OF that] by (simp add: bit_unsigned_iff)
    then have "2 ^ (?k - 1) \<le> unat ?w" by (metis bit_iff_odd div_less even_zero linorder_not_le)
    then show ?thesis using w c by linarith
  qed
  have e3: "ssp_effective t cap = (unat t + ?k) mod 2 ^ 32" using False
    by (simp add: ssp_effective_def Let_def unat_word_ariths unat_of_nat mod_add_right_eq)
  show ?thesis by (intro exI [of _ ?k] conjI impI, rule k(1), rule e1, rule e2, assumption, rule e3)
qed

section \<open>The scheduler\<close>

lemma map_filter_set: "x \<in> set (List.map_filter f xs) \<longleftrightarrow> (\<exists>e \<in> set xs. f e = Some x)"
  by (force simp: List.map_filter_def)

lemma distinct_map_filter:
  assumes "distinct (map fst xs)" and "\<And>k c x. f (k, c) = Some x \<Longrightarrow> k = g (fst x)"
  shows "distinct (map fst (List.map_filter f xs))"
  using assms(1)
proof (induction xs)
  case (Cons e xs)
  have "g y \<in> fst ` set xs" if "y \<in> fst ` set (List.map_filter f xs)" for y
  proof -
    from that obtain x e where x: "y = fst x" "e \<in> set xs" "f e = Some x" by (auto simp: map_filter_set)
    then have "fst e = g y" using assms(2) [of "fst e" "snd e" x] by simp
    then show ?thesis using x(2) by (metis image_eqI)
  qed
  note sub = this
  show ?case
  proof (cases "f e")
    case None
    then show ?thesis using Cons by (simp add: List.map_filter_simps)
  next
    case (Some x)
    have "fst e = g (fst x)" using assms(2) [of "fst e" "snd e" x] Some by simp
    then have "fst x \<notin> fst ` set (List.map_filter f xs)" using sub [of "fst x"] Cons.prems by auto
    then show ?thesis using Some Cons by (simp add: List.map_filter_simps)
  qed
qed (simp add: List.map_filter_simps)

lemma canonical_parse: "canonical_keys m \<Longrightarrow> (s, v) \<in> set m \<Longrightarrow> parse_u64 s = Some i \<Longrightarrow> s = node_key i"
  by (auto dest!: canonical_keysD)

lemma map_filter_same: "(\<And>e. e \<in> set xs \<Longrightarrow> f e = g e) \<Longrightarrow> List.map_filter f xs = List.map_filter g xs"
  by (induction xs) (auto simp: List.map_filter_simps split: option.split)

definition frontier_full :: "(bytes \<Rightarrow> bytes) \<Rightarrow> inner \<Rightarrow> u64 \<Rightarrow> bool" where
  \<comment> \<open>the nodes \<open>1\<close> to the channel's target, or the configured precompute if that is less, are stored for the present binding\<close>
  "frontier_full sha256 i c \<longleftrightarrow> (\<exists>ch. bm_get (db_channels (in_db i)) (channel_key c) = Some ch
     \<and> first_missing (present sha256 i c ch) (unat (min (min (ch_precompute_target ch) (cf_precompute (in_cfg i))) MAX_INDEX)) 1 = None)"

lemma scheduler_sound:
  assumes can: "canonical_db (in_db (dm_inner d))" and fin: "finite (dm_scheduled d)"
    and run: "scheduler_candidates sha256 interval now d = (cs, d')"
  shows "distinct cs
    \<and> d' = d\<lparr>dm_scheduled := dm_scheduled d \<union> set cs,
              dm_full_reconcile_after := (\<lambda>c. if c \<in> set cs \<and> frontier_full sha256 (dm_inner d) c then Some (now + interval)
                                             else dm_full_reconcile_after d c)\<rparr>
    \<and> (\<forall>c \<in> set cs. c \<notin> dm_scheduled d \<and> \<not> job_on_channel (dm_inner d) c
        \<and> (\<exists>ch. bm_get (db_channels (in_db (dm_inner d))) (channel_key c) = Some ch \<and> ch_enabled ch \<and> ch_precompute_target ch \<noteq> 0)
        \<and> (frontier_full sha256 (dm_inner d) c \<longrightarrow> (\<forall>deadline. dm_full_reconcile_after d c = Some deadline \<longrightarrow> deadline \<le> now)))
    \<and> card (active_channels (dm_inner d) \<union> dm_scheduled d')
        \<le> max (unat (max (cf_workers (in_cfg (dm_inner d))) 1)) (card (active_channels (dm_inner d) \<union> dm_scheduled d))"
proof -
  let ?i = "dm_inner d" and ?m = "db_channels (in_db (dm_inner d))"
  let ?F = "active_channels (dm_inner d) \<union> dm_scheduled d" and ?W = "unat (max (cf_workers (in_cfg (dm_inner d))) 1)"
  let ?cand = "List.map_filter (candidate sha256 now d) ?m"
  have ck: "canonical_keys ?m" using can by (simp add: canonical_db_def)
  have key: "k = channel_key (fst x)" if "(k, c) \<in> set ?m" "candidate sha256 now d (k, c) = Some x" for k c x
    using that canonical_parse [OF ck that(1)] by (auto simp: candidate_def channel_key_eq Let_def split: option.splits if_splits)
  have spec: "fst x \<notin> dm_scheduled d \<and> fst x \<notin> active_channels ?i \<and> ch_enabled c \<and> ch_precompute_target c \<noteq> 0"
      "snd x \<longleftrightarrow> first_missing (present sha256 ?i (fst x) c) (unat (min (min (ch_precompute_target c) (cf_precompute (in_cfg ?i))) MAX_INDEX)) 1 = None"
      "snd x \<longrightarrow> (\<forall>deadline. dm_full_reconcile_after d (fst x) = Some deadline \<longrightarrow> deadline \<le> now)"
    if "candidate sha256 now d (k, c) = Some x" for k c x
    using that by (auto simp: candidate_def Let_def split: option.splits if_splits)
  have W: "rm_effective_workers (resource_model d) = max (cf_workers (in_cfg ?i)) 1"
    by (simp add: resource_model_def resource_model_of_def Let_def)
  define cs' where "cs' = take (?W - card ?F) ?cand"
  show ?thesis
  proof (cases "cf_workers (in_cfg ?i) = 0 \<or> cf_precompute (in_cfg ?i) = 0 \<or> card ?F \<ge> ?W")
    case True
    then have "cs = [] \<and> d' = d" using run by (auto simp: scheduler_candidates_def Let_def W split: if_splits)
    then show ?thesis by simp
  next
    case False
    then have cs: "cs = map fst cs'" and d': "d' = d\<lparr>dm_scheduled := dm_scheduled d \<union> set cs,
        dm_full_reconcile_after := (\<lambda>c. if (c, True) \<in> set cs' then Some (now + interval) else dm_full_reconcile_after d c)\<rparr>"
      using run by (auto simp: scheduler_candidates_def Let_def W cs'_def)
    have sub: "set cs' \<subseteq> set ?cand" unfolding cs'_def by (rule set_take_subset)
    have "distinct (map fst ?m)" using ck by (simp add: canonical_keys_def bm_inv_distinct)
    then have "distinct (map fst (filter (\<lambda>_. True) ?m))" by simp
    have "distinct (map fst ?cand)"
    proof -
      let ?f = "\<lambda>e. if e \<in> set ?m then candidate sha256 now d e else None"
      have "?cand = List.map_filter ?f ?m" by (rule map_filter_same) simp
      moreover have "distinct (map fst (List.map_filter ?f ?m))"
        by (rule distinct_map_filter [OF \<open>distinct (map fst ?m)\<close>, where g = channel_key]) (use key in \<open>auto split: if_splits\<close>)
      ultimately show ?thesis by simp
    qed
    then have dist: "distinct cs" unfolding cs cs'_def take_map [symmetric] by (rule distinct_take)
    have each: "c \<notin> dm_scheduled d \<and> \<not> job_on_channel ?i c
        \<and> (\<exists>ch. bm_get ?m (channel_key c) = Some ch \<and> ch_enabled ch \<and> ch_precompute_target ch \<noteq> 0)"
      "frontier_full sha256 ?i c \<longleftrightarrow> full"
      "full \<longrightarrow> (\<forall>deadline. dm_full_reconcile_after d c = Some deadline \<longrightarrow> deadline \<le> now)"
      if "(c, full) \<in> set cs'" for c full
    proof -
      define x where "x = (c, full)"
      have x: "x \<in> set ?cand" "c = fst x" "full = snd x" using sub that by (auto simp: x_def)
      then obtain k ch where k: "(k, ch) \<in> set ?m" "candidate sha256 now d (k, ch) = Some x" by (auto simp: map_filter_set)
      have "bm_get ?m (channel_key c) = Some ch"
        using key [OF k] k(1) x(2) ck by (simp add: canonical_keys_def bm_in_set_get)
      moreover have "\<not> job_on_channel ?i c" using spec [OF k(2)] x(2)
        by (force simp: job_on_channel_def list_ex_iff active_channels_def)
      ultimately show "c \<notin> dm_scheduled d \<and> \<not> job_on_channel ?i c
          \<and> (\<exists>ch. bm_get ?m (channel_key c) = Some ch \<and> ch_enabled ch \<and> ch_precompute_target ch \<noteq> 0)"
        "frontier_full sha256 ?i c \<longleftrightarrow> full" "full \<longrightarrow> (\<forall>deadline. dm_full_reconcile_after d c = Some deadline \<longrightarrow> deadline \<le> now)"
        using spec [OF k(2)] x(2,3) by (auto simp: frontier_full_def)
    qed
    have full: "(c, True) \<in> set cs' \<longleftrightarrow> c \<in> set cs \<and> frontier_full sha256 ?i c" for c
    proof -
      have "c \<in> set cs \<longleftrightarrow> (\<exists>f. (c, f) \<in> set cs')" by (force simp: cs)
      then show ?thesis using each(2) by (metis (full_types))
    qed
    have "card (active_channels ?i \<union> dm_scheduled d') \<le> card ?F + card (set cs)"
      unfolding d' using card_Un_le [of ?F "set cs"] by (simp add: Un_assoc)
    also have "card (set cs) \<le> ?W - card ?F" using card_length [of cs] by (simp add: cs cs'_def)
    finally have "card (active_channels ?i \<union> dm_scheduled d') \<le> ?W" using False by linarith
    then have bound: "card (active_channels ?i \<union> dm_scheduled d') \<le> max ?W (card ?F)" by simp
    have "d' = d\<lparr>dm_scheduled := dm_scheduled d \<union> set cs,
        dm_full_reconcile_after := (\<lambda>c. if c \<in> set cs \<and> frontier_full sha256 ?i c then Some (now + interval) else dm_full_reconcile_after d c)\<rparr>"
      unfolding d' full ..
    moreover have "\<forall>c \<in> set cs. c \<notin> dm_scheduled d \<and> \<not> job_on_channel ?i c
        \<and> (\<exists>ch. bm_get ?m (channel_key c) = Some ch \<and> ch_enabled ch \<and> ch_precompute_target ch \<noteq> 0)
        \<and> (frontier_full sha256 ?i c \<longrightarrow> (\<forall>deadline. dm_full_reconcile_after d c = Some deadline \<longrightarrow> deadline \<le> now))"
    proof
      fix c assume "c \<in> set cs"
      then obtain f where f: "(c, f) \<in> set cs'" by (auto simp: cs)
      from each [OF f] show "c \<notin> dm_scheduled d \<and> \<not> job_on_channel ?i c
        \<and> (\<exists>ch. bm_get ?m (channel_key c) = Some ch \<and> ch_enabled ch \<and> ch_precompute_target ch \<noteq> 0)
        \<and> (frontier_full sha256 ?i c \<longrightarrow> (\<forall>deadline. dm_full_reconcile_after d c = Some deadline \<longrightarrow> deadline \<le> now))" by blast
    qed
    ultimately show ?thesis using dist bound by blast
  qed
qed

section \<open>Job streams\<close>

lemma concat_chunks: "concat (chunks n xs) = xs"
  by (induction n xs rule: chunks.induct) simp_all

lemma chunks_length: "0 < n \<Longrightarrow> c \<in> set (chunks n xs) \<Longrightarrow> length c \<le> n \<and> c \<noteq> []"
  by (induction n xs rule: chunks.induct) (auto simp: min_def)

lemma own_frames_belong: "frame_belongs g ch (make_job_frame g ch False payload)"
  by (simp add: frame_belongs_def make_job_frame_def validate_job_payload_context_def)

lemma forward_own:
  assumes "\<And>f. f \<in> set frames \<Longrightarrow> \<exists>p. f = make_job_frame g ch False p"
  shows "forward_frames g ch frames = map jf_payload frames"
proof -
  have "takeWhile (frame_belongs g ch) frames = frames"
    using assms own_frames_belong by (metis takeWhile_eq_all_conv)
  then show ?thesis unfolding forward_frames_def by (rule arg_cong)
qed

lemma job_stream_delivers:
  assumes id: "gd_job_id g \<noteq> []" "length (gd_digest g) = 32" and ch: "ch = 1 \<or> ch = 2"
  shows "\<exists>frames rs. open_peer_job_channel g ch ps = Inr frames \<and> open_peer_job_stream frames = Inr (g, ch, rs)
    \<and> concat rs = concat ps \<and> (\<forall>r \<in> set rs. 0 < length r \<and> length r \<le> JOBSTREAM_PAYLOAD_CHUNK_BYTES)"
proof -
  let ?fs = "concat (map (forward_payload g ch) ps)" and ?rs = "concat (map (chunks JOBSTREAM_PAYLOAD_CHUNK_BYTES) ps)"
  have "forward_frames g ch ?fs = map jf_payload ?fs"
    by (rule forward_own) (auto simp: forward_payload_def)
  also have "\<dots> = ?rs" by (induction ps) (simp_all add: forward_payload_def make_job_frame_def comp_def)
  finally have fw: "forward_frames g ch ?fs = ?rs" .
  have "concat ?rs = concat ps" by (induction ps) (simp_all add: concat_chunks)
  moreover have "0 < length r \<and> length r \<le> JOBSTREAM_PAYLOAD_CHUNK_BYTES" if "r \<in> set ?rs" for r
    using that chunks_length [of JOBSTREAM_PAYLOAD_CHUNK_BYTES r] by (auto simp: JOBSTREAM_PAYLOAD_CHUNK_BYTES_def)
  moreover have "descriptor_from_job_frame (make_job_frame g ch True []) = Inr g"
    using id by (simp add: descriptor_from_job_frame_def make_job_frame_def)
  moreover have "validate_job_channel ch = Inr ch" using ch by (auto simp: validate_job_channel_def)
  ultimately show ?thesis
    by (simp add: open_peer_job_channel_def open_peer_job_stream_def) (simp add: make_job_frame_def fw)
qed

text \<open>A frame of another stream ends the stream it arrives on; nothing of it gets through.\<close>

lemma foreign_frame_stops:
  assumes "\<not> frame_belongs g ch f"
  shows "forward_frames g ch (xs @ f # ys) = forward_frames g ch xs"
proof (cases "\<forall>x \<in> set xs. frame_belongs g ch x")
  case True
  then have "takeWhile (frame_belongs g ch) xs = xs" by (simp only: takeWhile_eq_all_conv)
  then show ?thesis using True assms by (simp only: forward_frames_def takeWhile_append if_True) simp
qed (auto simp: forward_frames_def takeWhile_append)

section \<open>Reconciled frontiers\<close>

lemma map_of_rev: "distinct (map fst xs) \<Longrightarrow> map_of (rev xs) = map_of xs"
  by (rule map_of_inject_set [THEN iffD2]) (simp_all add: rev_map [symmetric])

lemma peer_bindings_frontier:
  assumes can: "canonical_keys m"
  shows "peer_bindings (List.map_filter (\<lambda>(s, node). map_option (\<lambda>k. \<lparr>fn_mask = k, fn_public_binding_hex = wr_public_binding_hex node\<rparr>) (parse_u64 s)) m) k =
     map_option wr_public_binding_hex (bm_get m (node_key k))"
proof -
  from canonical_as [OF can] obtain js where js: "m = map (\<lambda>(j, v). (node_key j, v)) js" "distinct (map fst js)"
    "\<And>j. bm_get m (node_key j) = map_of js j" by blast
  let ?ns = "map (\<lambda>(j, node). \<lparr>fn_mask = j, fn_public_binding_hex = wr_public_binding_hex node\<rparr>) js"
  have "List.map_filter (\<lambda>(s, node). map_option (\<lambda>k. \<lparr>fn_mask = k, fn_public_binding_hex = wr_public_binding_hex node\<rparr>) (parse_u64 s)) m = ?ns"
    unfolding js(1) by (induction js) (auto simp: List.map_filter_simps)
  moreover have "peer_bindings ?ns k = map_option wr_public_binding_hex (map_of js k)"
  proof -
    have p: "map (\<lambda>n. (fn_mask n, fn_public_binding_hex n)) ?ns = map (\<lambda>(j, node). (j, wr_public_binding_hex node)) js" by auto
    have "distinct (map fst (map (\<lambda>(j, node). (j, wr_public_binding_hex node)) js))" using js(2) by (simp add: comp_def case_prod_unfold)
    then have "map_of (rev (map (\<lambda>(j, node). (j, wr_public_binding_hex node)) js)) = map_of (map (\<lambda>(j, node). (j, wr_public_binding_hex node)) js)"
      by (rule map_of_rev)
    then show ?thesis unfolding peer_bindings_def p by (simp add: map_of_map)
  qed
  ultimately show ?thesis using js(3) by simp
qed

lemma reconciled_nodes:
  assumes can: "canonical_db (in_db (dm_inner dA))" "canonical_db (in_db (dm_inner dB))"
    and B: "fst (get_frontier ci dB) = Inr response" and en: "gf_channel_enabled response"
    and A: "reconcile_with_response ci response dA = (Inr (), dA')"
    and cA: "bm_get (db_channels (in_db (dm_inner dA))) (channel_key ci) = Some cA"
  shows "\<exists>cA' cB. bm_get (db_channels (in_db (dm_inner dA'))) (channel_key ci) = Some cA'
    \<and> bm_get (db_channels (in_db (dm_inner dB))) (channel_key ci) = Some cB
    \<and> (\<forall>m. bm_get (ch_frontier_nodes cA') (node_key m) =
         (case (bm_get (ch_frontier_nodes cA) (node_key m), bm_get (ch_frontier_nodes cB) (node_key m)) of
            (Some rA, Some rB) \<Rightarrow> if wr_public_binding_hex rA = wr_public_binding_hex rB then Some rA else None
          | _ \<Rightarrow> None))"
proof -
  from B en obtain cB where cB: "bm_get (db_channels (in_db (dm_inner dB))) (channel_key ci) = Some cB"
    by (auto simp: get_frontier_def Let_def split: option.splits)
  note kB = canonical_channel(2) [OF can(2) cB] and kA = canonical_channel(2) [OF can(1) cA]
  have nodes: "gf_nodes response = List.map_filter (\<lambda>(s, node). map_option (\<lambda>k. \<lparr>fn_mask = k, fn_public_binding_hex = wr_public_binding_hex node\<rparr>) (parse_u64 s)) (ch_frontier_nodes cB)"
    using B cB by (auto simp: get_frontier_def Let_def)
  let ?P = "\<lambda>(mask_s, node). case parse_u64 mask_s of None \<Rightarrow> True
                | Some m \<Rightarrow> peer_bindings (gf_nodes response) m \<noteq> Some (wr_public_binding_hex node)"
  from kA have "fst ` set (ch_frontier_nodes cA) \<subseteq> range node_key" by (simp add: canonical_keys_def)
  from map_filter_drops [OF this, of ?P] obtain js where
    js: "map fst (filter ?P (ch_frontier_nodes cA)) = map node_key js"
      "\<And>j. j \<in> set js \<longleftrightarrow> (\<exists>v. (node_key j, v) \<in> set (ch_frontier_nodes cA) \<and> ?P (node_key j, v))" by blast
  let ?c = "cA\<lparr>ch_frontier_nodes := fold bm_remove (map node_key js) (ch_frontier_nodes cA)\<rparr>"
  have d': "dm_inner dA' = set_channel ci ?c (dm_inner dA)"
    using A en cA js(1) by (auto simp: reconcile_with_response_def act_bind_def locked_def reconcile_locked_def Let_def)
  have inv: "bm_inv (ch_frontier_nodes cA)" using kA by (simp add: canonical_keys_def)
  have "bm_get (ch_frontier_nodes ?c) (node_key m) =
         (case (bm_get (ch_frontier_nodes cA) (node_key m), bm_get (ch_frontier_nodes cB) (node_key m)) of
            (Some rA, Some rB) \<Rightarrow> if wr_public_binding_hex rA = wr_public_binding_hex rB then Some rA else None
          | _ \<Rightarrow> None)" for m
  proof (cases "bm_get (ch_frontier_nodes cA) (node_key m)")
    case None
    then show ?thesis by (simp add: get_fold_node_keys)
  next
    case (Some r)
    have "(node_key m, v) \<in> set (ch_frontier_nodes cA) \<longleftrightarrow> v = r" for v
      using Some bm_get_in_set [OF Some] bm_in_set_get [OF inv, of "node_key m" v] by auto
    then have "m \<in> set js \<longleftrightarrow> peer_bindings (gf_nodes response) m \<noteq> Some (wr_public_binding_hex r)" by (simp add: js(2))
    then show ?thesis unfolding nodes peer_bindings_frontier [OF kB] using Some
      by (auto simp: get_fold_node_keys split: option.splits)
  qed
  then show ?thesis using cB can by (intro exI [of _ ?c] exI [of _ cB]) (simp add: d')
qed

section \<open>Aborted tasks\<close>

text \<open>An entry of an aborted task: a job on the channel that no running task will finish.\<close>

definition orphan :: "u64 \<Rightarrow> inner \<times> live_job list \<Rightarrow> bool" where
  "orphan ci s \<longleftrightarrow> (\<exists>jid e. bm_get (in_active_jobs (fst s)) jid = Some e \<and> jb_channel_index e = ci \<and> jid \<notin> lj_job_id ` set (snd s))"

lemma orphanI: "bm_get (in_active_jobs i) jid = Some e \<Longrightarrow> jb_channel_index e = ci \<Longrightarrow> jid \<notin> lj_job_id ` set js \<Longrightarrow> orphan ci (i, js)"
  by (auto simp: orphan_def)

lemma orphan_step:
  assumes "job_step sha256 s s'" and "jobs_inv s" and "orphan ci s"
  shows "orphan ci s'"
proof -
  obtain i js i' js' where s: "s = (i, js)" "s' = (i', js')" by (cases s, cases s') auto
  from assms(3) obtain jid e where o: "bm_get (in_active_jobs i) jid = Some e" "jb_channel_index e = ci" "jid \<notin> lj_job_id ` set js"
    by (auto simp: orphan_def s)
  have inv: "bm_inv (in_active_jobs i)" using assms(2) by (simp add: jobs_inv_def s)
  have "bm_get (in_active_jobs i') jid = Some e \<and> jid \<notin> lj_job_id ` set js'"
    using assms(1) unfolding s
  proof (cases rule: job_step.cases)
    case (start_own w ci' idx peer planned job ms)
    then have "in_active_jobs i' = bm_insert (pj_job_id job) (job_entry \<lparr>lj_job_id = pj_job_id job, lj_channel = ci', lj_planned = planned, lj_target = idx\<rparr>) (in_active_jobs i)"
      by (auto simp: begin_precompute_locked_def bindR_eq_Inr Let_def start_job_def set_channel_def job_entry_def split: if_splits)
    then show ?thesis using start_own o inv by auto
  next
    case (start_peer w g idx planned jid' ms)
    then have "in_active_jobs i' = bm_insert jid' (job_entry \<lparr>lj_job_id = jid', lj_channel = gd_channel_index g, lj_planned = planned, lj_target = idx\<rparr>) (in_active_jobs i)"
      by (auto simp: begin_incoming_locked_def bindR_eq_Inr Let_def start_job_def set_channel_def job_entry_def split: if_splits)
    then show ?thesis using start_peer o inv by auto
  next
    case (store j wires ms)
    then have "in_active_jobs i' = bm_remove (lj_job_id j) (in_active_jobs i)"
      by (auto simp: store_precomputed_locked_def bindR_eq_Inr Let_def set_channel_def)
    then show ?thesis using store o by auto
  next
    case (give_up j ms)
    then have "in_active_jobs i' = bm_remove (lj_job_id j) (in_active_jobs i) \<or> in_active_jobs i' = in_active_jobs i"
      by (auto simp: finish_job_locked_def Let_def set_channel_def split: option.splits)
    then show ?thesis using give_up o by auto
  next
    case (abort j)
    then show ?thesis using o by auto
  next
    case (already w ci' idx peer planned ms)
    then have "i' = i" by (auto simp: begin_precompute_locked_def bindR_eq_Inr Let_def split: if_splits)
    then show ?thesis using already o by simp
  next
    case (open_session ci' peer g)
    then show ?thesis using o session_descriptor_db(2) [OF open_session(2)] by simp
  qed (use o in \<open>auto simp: record_failed_locked_def store_node_locked_def store_known_locked_def reconcile_locked_def
      enable_channel_locked_def disable_channel_locked_def bindR_eq_Inr Let_def set_channel_def split: option.splits if_splits\<close>)
  then show ?thesis using o(2) unfolding s by (auto intro: orphanI)
qed

lemma orphan_steps: "(job_step sha256)\<^sup>*\<^sup>* s s' \<Longrightarrow> jobs_inv s \<Longrightarrow> orphan ci s \<Longrightarrow> orphan ci s'"
  by (induction rule: rtranclp_induct) (auto dest: job_steps_inv orphan_step)

lemma orphan_blocks:
  assumes "orphan ci (i, js)"
  shows "job_on_channel i ci"
  using assms by (auto simp: orphan_def job_on_channel_def list_ex_iff bm_values_def dest!: bm_get_in_set intro: bexI [rotated])

lemma blocked_channel:
  assumes "job_on_channel i ci"
  shows "disable_channel_locked ci i = Inl (FailedPrecondition, ''channel has an active precompute job'')"
    and "gd_channel_index g = ci \<Longrightarrow> isl (begin_incoming_locked w g idx planned i)"
    and "begin_precompute_locked sha256 w ci idx peer planned i \<noteq> Inr ((Run job, ms), i')"
  using assms by (auto simp: disable_channel_locked_def begin_incoming_locked_def begin_precompute_locked_def bindR_def Let_def
      split: sum.splits if_splits)

section \<open>Writes out of order\<close>

lemma late_write:
  assumes can: "canonical_db (in_db i)"
    and k: "store_known_locked sha256 ci idx expected secret i = Inr (ms1, i1)"
    and p: "store_precomputed_locked sha256 ci jid planned m wires i1 = Inr (ms2, i2)"
  shows "\<exists>c c2 s. bm_get (db_channels (in_db i)) (channel_key ci) = Some c
    \<and> bm_get (db_channels (in_db i2)) (channel_key ci) = Some c2
    \<and> ch_estimated_checked_units c2 = sat_add (ch_estimated_checked_units c) planned
    \<and> fold apply_logical (ms2 @ ms1) (logical_of (in_db i)) (channel_lkey ci) = Some (ChannelPayload s)
    \<and> cs_estimated_checked_units s = ch_estimated_checked_units c"
proof -
  from k obtain c c1 pre where c: "bm_get (db_channels (in_db i)) (channel_key ci) = Some c"
    and i1: "i1 = set_channel ci c1 i" and e1: "ch_estimated_checked_units c1 = ch_estimated_checked_units c"
    and ms1: "ms1 = pre @ [upsert_channel_mutation ci c1]"
    by (auto simp: store_known_locked_def bindR_eq_Inr Let_def split: if_splits)
  have c1: "bm_get (db_channels (in_db i1)) (channel_key ci) = Some c1" using can by (simp add: i1)
  have can1: "canonical_db (in_db i1)" using store_known_writes [OF k] can by (simp add: writes_match_def)
  from p c1 can1 obtain c2 where "bm_get (db_channels (in_db i2)) (channel_key ci) = Some c2"
    and "ch_estimated_checked_units c2 = sat_add (ch_estimated_checked_units c1) planned"
    by (auto simp: store_precomputed_locked_def bindR_eq_Inr Let_def set_channel_def get_put_channel)
  moreover have "fold apply_logical (ms2 @ ms1) l (channel_lkey ci) = Some (ChannelPayload (scalars c1))" for l
    by (simp add: ms1 upsert_channel_mutation_def)
  ultimately show ?thesis using c e1 by (simp add: scalars_def)
qed

section \<open>Two reveals of one index\<close>

lemma duplicate_reveal:
  assumes d: "dm_pending_reveals d (RevealRequestKey ci (index_get idx) expected allow) = None"
    and w: "length (sw_bundle node) = sw_len node"
    and wait: "pe_wait_answer env tx1 = (\<lambda>d. (SenderDropped, snd (await_incoming_cached_reveal sha256 env' tx2 ci idx expected allow node d)))"
  shows "\<exists>d'. await_incoming_cached_reveal sha256 env tx1 ci idx expected allow node d =
      (Inl (DRefused ''cached reveal peer handler stopped''), d')
    \<and> d' = d\<lparr>dm_pending_reveals := (dm_pending_reveals d)(RevealRequestKey ci (index_get idx) expected allow \<mapsto> tx2)\<rparr>"
  using assms by (simp add: await_incoming_cached_reveal_def act_bind_def reveal_node_local_share_def register_pending_reveal_def Let_def)

end
