(* ===== verification/Daemon_Tasks_Correct.thy ===== *)
theory Daemon_Tasks_Correct
  imports Daemon_Peer_Correct
begin

text \<open>
  Invariants of whole tasks: an invariant that the locked methods keep, together with the writes they
  enqueue, is kept by the reveal, precompute, scheduler and serving tasks; the queue of the store is in
  step with the memory throughout.
\<close>

section \<open>Invariants of whole tasks\<close>

text \<open>
  What the locked methods keep, with the writes they enqueue, a whole task keeps, as long as what runs
  while the task waits keeps it too.
\<close>

definition act_keeps :: "('s daemon \<Rightarrow> bool) \<Rightarrow> ('s, 'a) act \<Rightarrow> bool" where
  \<comment> \<open>the method keeps the invariant, also when it fails\<close>
  "act_keeps P m \<longleftrightarrow> (\<forall>d. P d \<longrightarrow> P (snd (m d)))"

definition peer_keeps :: "('s daemon \<Rightarrow> bool) \<Rightarrow> 's peer_env \<Rightarrow> bool" where
  \<comment> \<open>what runs while a task waits keeps the invariant\<close>
  "peer_keeps P env \<longleftrightarrow> (\<forall>c. act_keeps P (pe_get_frontier env c)) \<and> (\<forall>r. act_keeps P (pe_reveal_cached env r))
     \<and> (\<forall>t d. P d \<longrightarrow> P (snd (pe_wait_answer env t d))) \<and> (\<forall>k d. P d \<longrightarrow> P (pe_wait_pending env k d))
     \<and> (\<forall>w b x. act_keeps P (pe_fast_job env w b x)) \<and> (\<forall>s b x n. act_keeps P (pe_root_job env s b x n))
     \<and> (\<forall>i s. act_keeps P (pe_full_derivation env i s)) \<and> (\<forall>g s b n. act_keeps P (pe_open_session env g s b n))
     \<and> (\<forall>t i. act_keeps P (pe_plan env t i)) \<and> (\<forall>t i. act_keeps P (pe_precompute env t i))
     \<and> (\<forall>g j. act_keeps P (pe_accept_session env g j)) \<and> act_keeps P (pe_recv_target env)
     \<and> (\<forall>i. act_keeps P (pe_serve_precompute env i))"

locale daemon_invariant =
  fixes sha256 :: "bytes \<Rightarrow> bytes"
    and inv :: "'s daemon \<Rightarrow> bool"
  assumes frame: "inv d \<Longrightarrow> dm_inner d' = dm_inner d \<Longrightarrow> dm_queue d' = dm_queue d \<Longrightarrow> inv d'"
    and step: "inv d \<Longrightarrow> daemon_step sha256 (dm_inner d) ms i \<Longrightarrow>
       inv (d\<lparr>dm_inner := i, dm_queue := write_batch ms Eventual (dm_queue d)\<rparr>)"
begin

abbreviation keeps :: "('s, 'a) act \<Rightarrow> bool" where
  "keeps \<equiv> act_keeps inv"

abbreviation env_keeps :: "'s peer_env \<Rightarrow> bool" where
  "env_keeps \<equiv> peer_keeps inv"

lemmas keeps_def = act_keeps_def and env_keeps_def = peer_keeps_def

lemma keeps_bind: "keeps m \<Longrightarrow> (\<And>x. keeps (k x)) \<Longrightarrow> keeps (act_bind m k)"
  unfolding keeps_def act_bind_def by (fastforce split: prod.splits sum.splits)

lemma keeps_simple: "keeps (act_return x)" "keeps (act_fail e)" "keeps (act_lift r)" "keeps (act_inner f)" "keeps (peer_channel_for c)"
  by (simp_all add: keeps_def peer_channel_for_def)

lemma keeps_locked:
  assumes "\<And>i x i'. f i = Inr (x, i') \<Longrightarrow> daemon_step sha256 i (writes x) i'"
  shows "keeps (act_bind (locked f) (\<lambda>x. act_bind (enqueue (writes x) Eventual) (\<lambda>_. act_return (g x))))"
  unfolding keeps_def
proof (intro allI impI)
  fix d assume d: "inv d"
  show "inv (snd (act_bind (locked f) (\<lambda>x. act_bind (enqueue (writes x) Eventual) (\<lambda>_. act_return (g x))) d))"
  proof (cases "f (dm_inner d)")
    case (Inl e)
    then show ?thesis using d by (simp add: act_bind_def locked_def)
  next
    case (Inr r)
    then obtain x i' where r: "f (dm_inner d) = Inr (x, i')" by (cases r) auto
    from step [OF d assms [OF r]] show ?thesis using r by (simp add: act_bind_def locked_def)
  qed
qed

lemma bind_return_unit: "act_bind m (\<lambda>_. act_return ()) = (m :: ('s, unit) act)"
  by (rule ext) (auto simp: act_bind_def split: prod.splits sum.splits)

lemma keeps_locked_unit:
  "(\<And>i ms i'. f i = Inr (ms, i') \<Longrightarrow> daemon_step sha256 i ms i') \<Longrightarrow> keeps (act_bind (locked f) (\<lambda>ms. enqueue ms Eventual))"
  using keeps_locked [of f "\<lambda>ms. ms" "\<lambda>_. ()"] unfolding bind_return_unit by blast

lemma keeps_pair:
  "(\<And>i y ms i'. f i = Inr ((y, ms), i') \<Longrightarrow> daemon_step sha256 i ms i') \<Longrightarrow>
     keeps (act_bind (locked f) (\<lambda>(y, ms). act_bind (enqueue ms Eventual) (\<lambda>_. act_return y)))"
  unfolding case_prod_unfold by (rule keeps_locked [where writes = snd and g = fst]) (metis prod.collapse)

lemma keeps_methods:
  "keeps (record_failed_precompute_attempt c n)" "keeps (finish_job jid failed)" "keeps (store_node sha256 c m w)"
  "keeps (store_known_secret sha256 c idx expected v)" "keeps (store_precomputed_target_wires_and_finish_job sha256 c jid n m w)"
  by (auto simp: record_failed_precompute_attempt_def finish_job_def store_node_def store_known_secret_def
      store_precomputed_target_wires_and_finish_job_def
      intro!: keeps_locked_unit keeps_locked [where writes = "\<lambda>ms. ms"] intro: daemon_step.intros)

lemma keeps_reconcile: "keeps (reconcile_with_response c response)"
  by (auto simp: reconcile_with_response_def intro!: keeps_simple keeps_locked_unit intro: daemon_step.reconcile)

lemma keeps_begin: "keeps (begin_precompute_jobstream sha256 c idx peer n)"
  unfolding keeps_def begin_precompute_jobstream_def
proof (intro allI impI)
  fix d assume "inv d"
  have "keeps (act_bind (locked (begin_precompute_locked sha256 (rm_effective_workers (resource_model d)) c idx peer n))
       (\<lambda>(start, writes). act_bind (enqueue writes Eventual) (\<lambda>_. act_return start)))"
    by (rule keeps_pair) (rule daemon_step.begin_precompute)
  then show "inv (snd (act_bind (locked (begin_precompute_locked sha256 (rm_effective_workers (resource_model d)) c idx peer n))
       (\<lambda>(start, writes). act_bind (enqueue writes Eventual) (\<lambda>_. act_return start)) d))" using \<open>inv d\<close> by (simp add: keeps_def)
qed

lemma keeps_begin_incoming: "keeps (begin_incoming_precompute_target g idx n)"
  unfolding keeps_def begin_incoming_precompute_target_def
proof (intro allI impI)
  fix d assume "inv d"
  have "keeps (act_bind (locked (begin_incoming_locked (rm_effective_workers (resource_model d)) g idx n))
       (\<lambda>(job_id, writes). act_bind (enqueue writes Eventual) (\<lambda>_. act_return job_id)))"
    by (rule keeps_pair) (rule daemon_step.begin_incoming)
  then show "inv (snd (act_bind (locked (begin_incoming_locked (rm_effective_workers (resource_model d)) g idx n))
       (\<lambda>(job_id, writes). act_bind (enqueue writes Eventual) (\<lambda>_. act_return job_id)) d))" using \<open>inv d\<close> by (simp add: keeps_def)
qed

lemma keeps_descriptor: "keeps (session_descriptor sha256 c peer)"
  unfolding keeps_def session_descriptor_def
proof (intro allI impI)
  fix d assume d: "inv d"
  show "inv (snd (locked (session_descriptor_locked sha256 c peer) d))"
  proof (cases "session_descriptor_locked sha256 c peer (dm_inner d)")
    case (Inl e)
    then show ?thesis using d by (simp add: locked_def)
  next
    case (Inr r)
    then obtain g i' where r: "session_descriptor_locked sha256 c peer (dm_inner d) = Inr (g, i')" by (cases r) auto
    from step [OF d daemon_step.open_session [OF r]] show ?thesis using r by (simp add: locked_def write_batch_def)
  qed
qed

lemma keeps_frame: "(\<And>d. dm_inner (snd (m d)) = dm_inner d \<and> dm_queue (snd (m d)) = dm_queue d) \<Longrightarrow> keeps m"
  using frame by (auto simp: keeps_def)

lemma keeps_apply: "keeps m \<Longrightarrow> inv d \<Longrightarrow> inv (snd (m d))"
  by (simp add: keeps_def)

lemma keeps_env:
  assumes "env_keeps env"
  shows "keeps (pe_get_frontier env c)" "keeps (pe_reveal_cached env r)" "keeps (pe_fast_job env w b x)"
    "keeps (pe_root_job env s b x n)" "keeps (pe_full_derivation env i s)" "keeps (pe_open_session env g s b n)"
    "keeps (pe_plan env t i)" "keeps (pe_precompute env t i)" "keeps (pe_accept_session env g j)"
    "keeps (pe_recv_target env)" "keeps (pe_serve_precompute env i)"
  using assms by (simp_all add: env_keeps_def)

lemma keeps_load: "keeps (load_node sha256 c m)" "keeps (derive_known sha256 c idx)" "keeps (reveal_node_context sha256 hmac c m)"
  "keeps (job_context hmac c)" "keeps (channel_share hmac c)" "keeps (next_missing_frontier sha256 c n)"
  "keeps (validate_peer_security_params c peer)" "keeps (begin_incoming_precompute_session sha256 hmac g)"
  unfolding load_node_def derive_known_def reveal_node_context_def job_context_def channel_share_def next_missing_frontier_def
    validate_peer_security_params_def begin_incoming_precompute_session_def by (rule keeps_simple)+

lemma keeps_frontier:
  assumes "env_keeps env"
  shows "keeps (peer_frontier_response env c)" and "keeps (peer_frontier env c)" and "keeps (reconcile_with_peer env c)"
proof -
  have k: "keeps (act_bind (pe_get_frontier env c) (\<lambda>response. act_return (Some (response, peer_config_of response))))"
    by (intro keeps_bind keeps_env [OF assms] keeps_simple)
  show r: "keeps (peer_frontier_response env c)"
    using k unfolding keeps_def peer_frontier_response_def by (auto split: option.splits)
  show "keeps (peer_frontier env c)" unfolding peer_frontier_def by (intro keeps_bind r keeps_simple)
  show "keeps (reconcile_with_peer env c)" unfolding reconcile_with_peer_def
    by (rule keeps_bind [OF r]) (auto intro: keeps_simple keeps_reconcile split: option.split)
qed

lemma keeps_await:
  assumes "env_keeps env"
  shows "keeps (await_incoming_cached_reveal sha256 env tx c idx expected allow node)"
proof -
  have "keeps (register_pending_reveal k tx)" for k
    by (rule keeps_frame) (simp add: register_pending_reveal_def)
  moreover have "keeps (\<lambda>d. case pe_wait_answer env tx d of (Answered result, d) \<Rightarrow> (result, d)
     | (SenderDropped, d) \<Rightarrow> (Inl e1, d)
     | (TimedOut, d) \<Rightarrow> (Inl e2, d\<lparr>dm_pending_reveals := (dm_pending_reveals d)(k := None)\<rparr>))" for e1 e2 k
    unfolding keeps_def
  proof (intro allI impI)
    fix d assume "inv d"
    obtain r d' where p: "pe_wait_answer env tx d = (r, d')" by force
    have "inv d'" using assms \<open>inv d\<close> p unfolding env_keeps_def by (metis snd_conv)
    then show "inv (snd (case pe_wait_answer env tx d of (Answered result, d) \<Rightarrow> (result, d)
     | (SenderDropped, d) \<Rightarrow> (Inl e1, d)
     | (TimedOut, d) \<Rightarrow> (Inl e2, d\<lparr>dm_pending_reveals := (dm_pending_reveals d)(k := None)\<rparr>)))"
      using frame [OF \<open>inv d'\<close>] by (cases r) (simp_all add: p)
  qed
  ultimately show ?thesis unfolding await_incoming_cached_reveal_def Let_def by (intro keeps_bind keeps_simple)
qed

lemma keeps_reveal_node:
  assumes "env_keeps env"
  shows "keeps (reveal_cached_node sha256 hmac env tx c idx expected allow node)"
proof -
  have p: "keeps (reveal_persisted_node sha256 hmac env c idx node)" unfolding reveal_persisted_node_def case_prod_unfold
    by (intro keeps_bind keeps_load keeps_env [OF assms])
  have v: "keeps (reveal_cached_node_via_peer sha256 hmac env c idx expected allow node)"
    unfolding reveal_cached_node_via_peer_def case_prod_unfold
    by (intro keeps_bind keeps_load keeps_simple keeps_env [OF assms])
  show ?thesis using keeps_apply [OF p] keeps_apply [OF v] keeps_apply [OF keeps_await [OF assms]]
    unfolding keeps_def reveal_cached_node_def by (auto split: role.split bool.split)
qed

lemma keeps_store_answer: "keeps (store_and_answer sha256 c idx expected v cached src)"
  unfolding store_and_answer_def by (intro keeps_bind keeps_methods keeps_simple)

lemma keeps_reveal_uncached:
  assumes e: "env_keeps env"
  shows "keeps (reveal_uncached sha256 hmac env tx c idx expected allow)"
proof -
  have root: "keeps (ensure_root sha256 hmac env c)" unfolding ensure_root_def case_prod_unfold
    by (rule keeps_bind [OF keeps_load(1)], split option.split)
       (intro conjI allI impI keeps_simple keeps_bind keeps_load keeps_env [OF e] keeps_methods)
  have full: "keeps (run_full_derivation hmac env c idx)" unfolding run_full_derivation_def
    by (intro keeps_bind keeps_simple keeps_env [OF e])
  show ?thesis unfolding reveal_uncached_def case_prod_unfold
    by (rule keeps_bind [OF keeps_frontier(3) [OF e]], rule keeps_bind [OF keeps_load(1)], split option.split)
       (auto intro!: keeps_bind keeps_reveal_node [OF e] keeps_store_answer root full)
qed

lemma keeps_reveal:
  assumes e: "env_keeps env"
  shows "keeps (reveal sha256 hmac env tx tx' c requested expected allow)"
proof -
  have cached: "keeps (\<lambda>d. case reveal_cached_node sha256 hmac env tx c idx expected allow node d of
               (Inr secret, d) \<Rightarrow> store_and_answer sha256 c idx expected secret True ''frontier'' d
             | (Inl err, d) \<Rightarrow> if is_cached_reveal_cache_miss err
                 then reveal_uncached sha256 hmac env tx' c idx expected allow d else (Inl err, d))" for idx node
    unfolding keeps_def
  proof (intro allI impI)
    fix d assume d: "inv d"
    obtain r d' where p: "reveal_cached_node sha256 hmac env tx c idx expected allow node d = (r, d')" by force
    have "inv d'" using keeps_apply [OF keeps_reveal_node [OF e] d, of hmac tx c idx expected allow node] by (simp add: p)
    then show "inv (snd (case reveal_cached_node sha256 hmac env tx c idx expected allow node d of
               (Inr secret, d) \<Rightarrow> store_and_answer sha256 c idx expected secret True ''frontier'' d
             | (Inl err, d) \<Rightarrow> if is_cached_reveal_cache_miss err
                 then reveal_uncached sha256 hmac env tx' c idx expected allow d else (Inl err, d)))"
      using keeps_apply [OF keeps_store_answer] keeps_apply [OF keeps_reveal_uncached [OF e]] by (cases r) (simp_all add: p)
  qed
  have loaded: "keeps (case node of None \<Rightarrow> reveal_uncached sha256 hmac env tx' c idx expected allow
      | Some node \<Rightarrow> (\<lambda>d. case reveal_cached_node sha256 hmac env tx c idx expected allow node d of
               (Inr secret, d) \<Rightarrow> store_and_answer sha256 c idx expected secret True ''frontier'' d
             | (Inl err, d) \<Rightarrow> if is_cached_reveal_cache_miss err
                 then reveal_uncached sha256 hmac env tx' c idx expected allow d else (Inl err, d)))" for idx node
    by (cases node) (simp_all only: option.case keeps_reveal_uncached [OF e] cached)
  have unknown: "keeps (if requested \<noteq> expected then act_fail err
       else act_bind (load_node sha256 c (index_get idx)) (\<lambda>node. case node of None \<Rightarrow> reveal_uncached sha256 hmac env tx' c idx expected allow
      | Some node \<Rightarrow> (\<lambda>d. case reveal_cached_node sha256 hmac env tx c idx expected allow node d of
               (Inr secret, d) \<Rightarrow> store_and_answer sha256 c idx expected secret True ''frontier'' d
             | (Inl err, d) \<Rightarrow> if is_cached_reveal_cache_miss err
                 then reveal_uncached sha256 hmac env tx' c idx expected allow d else (Inl err, d))))" for err idx
    by (split if_split, intro conjI impI, rule keeps_simple, rule keeps_bind [OF keeps_load(1) loaded])
  show ?thesis unfolding reveal_def
    by (rule keeps_bind [OF keeps_simple(3)], split if_split, intro conjI impI, rule keeps_simple,
        rule keeps_bind [OF keeps_load(2)], split option.split, intro conjI allI impI, rule unknown, rule keeps_simple)
qed

lemma keeps_handle_reveal:
  assumes e: "env_keeps env"
  shows "keeps (handle_peer_cached_reveal sha256 hmac env req)"
proof -
  have take: "keeps (take_pending_reveal env k)" for k
    unfolding keeps_def
  proof (intro allI impI)
    fix d assume d: "inv d"
    then have "inv (pe_wait_pending env k d)" using e by (simp add: env_keeps_def)
    then show "inv (snd (take_pending_reveal env k d))" using d frame
      by (auto simp: take_pending_reveal_def Let_def split: option.splits)
  qed
  have complete: "keeps (complete_peer_cached_reveal sha256 hmac req)"
    unfolding complete_peer_cached_reveal_def case_prod_unfold
    by (auto intro!: keeps_bind keeps_simple keeps_load keeps_methods)
  have answer: "keeps (\<lambda>d. case complete_peer_cached_reveal sha256 hmac req d of
       (Inr (response, v), d) \<Rightarrow> (Inr response, answer_reveal tx (Inr v) d)
     | (Inl err, d) \<Rightarrow> (Inl err, answer_reveal tx (Inl (DRefused (show_daemon_error err))) d))" for tx
    unfolding keeps_def
  proof (intro allI impI)
    fix d assume d: "inv d"
    obtain r d' where p: "complete_peer_cached_reveal sha256 hmac req d = (r, d')" by force
    have "inv d'" using keeps_apply [OF complete d] by (simp add: p)
    then have "inv (answer_reveal tx a d')" for a by (rule frame) (simp_all add: answer_reveal_def)
    then show "inv (snd (case complete_peer_cached_reveal sha256 hmac req d of
       (Inr (response, v), d) \<Rightarrow> (Inr response, answer_reveal tx (Inr v) d)
     | (Inl err, d) \<Rightarrow> (Inl err, answer_reveal tx (Inl (DRefused (show_daemon_error err))) d)))"
      by (cases r) (auto simp: p)
  qed
  show ?thesis unfolding handle_peer_cached_reveal_def by (rule keeps_bind [OF take answer])
qed

lemma keeps_after_error:
  assumes m: "keeps m" and c: "\<And>d. inv d \<Longrightarrow> inv (cleanup d)"
  shows "keeps (after_error cleanup m)"
  unfolding keeps_def
proof (intro allI impI)
  fix d assume d: "inv d"
  obtain r d' where p: "m d = (r, d')" by force
  have "inv d'" using keeps_apply [OF m d] by (simp add: p)
  then show "inv (snd (after_error cleanup m d))" using c by (cases r) (simp_all add: after_error_def p)
qed

lemma inv_drop: "inv d \<Longrightarrow> inv (drop_precompute_session c d)"
  by (rule frame) (simp_all add: drop_precompute_session_def)

lemma keeps_session_handle:
  assumes e: "env_keeps env"
  shows "keeps (precompute_session_handle sha256 hmac env c peer)"
proof -
  have o: "keeps (open_session_handle c)"
    by (rule keeps_frame) (auto simp: open_session_handle_def split: option.splits bool.splits)
  have r: "keeps (\<lambda>d. (Inr task, register_session c task d))" for task
    by (rule keeps_frame) (simp add: register_session_def)
  have n: "keeps (\<lambda>d. let i = dm_inner d in act_bind (pe_open_session env g (channel_seed_share hmac (in_master_secret i) c)
             (channel_delta hmac (in_master_secret i) c (cf_role (in_cfg i)))
             (ssp_effective (gd_ssp_target g) (gd_delta_lifetime_checked_units_cap g)))
           (\<lambda>task d. (Inr task, register_session c task d)) d)" for g
    unfolding Let_def
  proof (unfold keeps_def, intro allI impI)
    fix d assume "inv d"
    show "inv (snd (act_bind (pe_open_session env g (channel_seed_share hmac (in_master_secret (dm_inner d)) c)
             (channel_delta hmac (in_master_secret (dm_inner d)) c (cf_role (in_cfg (dm_inner d))))
             (ssp_effective (gd_ssp_target g) (gd_delta_lifetime_checked_units_cap g)))
           (\<lambda>task d. (Inr task, register_session c task d)) d))"
      by (rule keeps_apply [OF keeps_bind \<open>inv d\<close>], rule keeps_env(6) [OF e], rule r)
  qed
  show ?thesis unfolding precompute_session_handle_def
    by (rule keeps_bind [OF o], split option.split, intro conjI allI impI, rule keeps_bind [OF keeps_descriptor n], rule keeps_simple)
qed

lemma keeps_precompute:
  assumes e: "env_keeps env"
  shows "keeps (precompute_path_jobstream sha256 hmac env c target)"
proof -
  have v: "keeps (\<lambda>d. case validate_peer_security_params c peer d of (Inr _, d) \<Rightarrow> (Inr (), d)
          | (Inl err, d) \<Rightarrow> act_bind (record_failed_precompute_attempt c n) (\<lambda>_. act_fail err) d)" for peer n
    using keeps_apply [OF keeps_bind [OF keeps_methods(1) keeps_simple(2)]]
    by (auto simp: keeps_def validate_peer_security_params_def split: sum.split)
  have f: "inv d \<Longrightarrow> inv (snd (finish_job jid True d))" for jid d
    using keeps_apply [OF keeps_methods(2)] .
  note parts = keeps_frontier(3) [OF e] keeps_session_handle [OF e] keeps_after_error [OF keeps_env(7) [OF e] inv_drop]
    keeps_begin keeps_after_error [OF keeps_env(8) [OF e] f [OF inv_drop]] keeps_after_error [OF keeps_methods(5) f]
  have run: "keeps (case start of
         AlreadyStored \<Rightarrow> act_return \<lparr>pp_channel_index = c, pp_target_index = index_get index,
                            pp_nodes_stored = 0, pp_checked_units = 0\<rparr>
       | Run job \<Rightarrow>
           act_bind (after_error (\<lambda>d. snd (finish_job (pj_job_id job) True (drop_precompute_session c d)))
               (pe_precompute env session index)) (\<lambda>wires.
           act_bind (after_error (\<lambda>d. snd (finish_job (pj_job_id job) True d))
               (store_precomputed_target_wires_and_finish_job sha256 c (pj_job_id job)
                 (pj_planned_checked_units job) (index_get index) wires)) (\<lambda>nodes_stored.
           act_return \<lparr>pp_channel_index = c, pp_target_index = index_get index,
                       pp_nodes_stored = nodes_stored, pp_checked_units = pj_planned_checked_units job\<rparr>)))" for start session index
    by (cases start) (simp_all only: precompute_start.case keeps_simple keeps_bind parts)
  show ?thesis unfolding precompute_path_jobstream_def
    apply (rule keeps_bind [OF keeps_simple(3)])
    apply (rule keeps_bind [OF keeps_frontier(2) [OF e]])
    apply (split option.split, intro conjI allI impI)
     apply (rule keeps_simple)
    apply (split if_split, intro conjI impI)
     apply (rule keeps_simple)
    apply (rule keeps_bind [OF v])
    apply (rule keeps_bind [OF parts(1)])
    apply (rule keeps_bind [OF parts(2)])
    apply (rule keeps_bind [OF parts(3)])
     apply assumption
    apply (rule keeps_bind [OF parts(4) run])
    done
qed

lemma keeps_scheduled:
  assumes e: "env_keeps env"
  shows "keeps (run_scheduled_precompute_inner sha256 hmac env c)"
proof -
  have t: "keeps (act_bind (next_missing_frontier sha256 c n) (\<lambda>target. case target of None \<Rightarrow> act_return False
               | Some target \<Rightarrow> act_bind (precompute_path_jobstream sha256 hmac env c target) (\<lambda>_. act_return True)))" for n
    by (rule keeps_bind [OF keeps_load(6)], split option.split, intro conjI allI impI keeps_simple keeps_bind keeps_precompute [OF e])
  have b: "keeps (\<lambda>d. case effective_precompute_target c peer d of
           (Inl (DRefused message), d) \<Rightarrow>
             if contains ''security parameters do not match'' message
             then (Inr False, snd (record_failed_precompute_attempt c 1 d))
             else (Inl (DRefused message), d)
         | (Inl err, d) \<Rightarrow> (Inl err, d)
         | (Inr effective_precompute, d) \<Rightarrow>
             if effective_precompute = 0 then (Inr False, d)
             else act_bind (next_missing_frontier sha256 c effective_precompute) (\<lambda>target.
               case target of None \<Rightarrow> act_return False
               | Some target \<Rightarrow>
                   act_bind (precompute_path_jobstream sha256 hmac env c target) (\<lambda>_. act_return True)) d)" for peer
    unfolding keeps_def
  proof (intro allI impI)
    fix d assume d: "inv d"
    have "snd (effective_precompute_target c peer d) = d"
      by (auto simp: effective_precompute_target_def validate_peer_security_params_def act_bind_def split: sum.split)
    then obtain r where p: "effective_precompute_target c peer d = (r, d)" by (metis prod.collapse)
    show "inv (snd (case effective_precompute_target c peer d of
           (Inl (DRefused message), d) \<Rightarrow>
             if contains ''security parameters do not match'' message
             then (Inr False, snd (record_failed_precompute_attempt c 1 d))
             else (Inl (DRefused message), d)
         | (Inl err, d) \<Rightarrow> (Inl err, d)
         | (Inr effective_precompute, d) \<Rightarrow>
             if effective_precompute = 0 then (Inr False, d)
             else act_bind (next_missing_frontier sha256 c effective_precompute) (\<lambda>target.
               case target of None \<Rightarrow> act_return False
               | Some target \<Rightarrow>
                   act_bind (precompute_path_jobstream sha256 hmac env c target) (\<lambda>_. act_return True)) d))"
      using d keeps_apply [OF keeps_methods(1)] keeps_apply [OF t]
      by (cases r) (auto simp: p split: daemon_error.split)
  qed
  show ?thesis unfolding run_scheduled_precompute_inner_def
    by (rule keeps_bind [OF keeps_frontier(2) [OF e]], split option.split, intro conjI allI impI, rule keeps_simple,
        split if_split, intro conjI impI, rule keeps_simple, rule keeps_bind [OF keeps_frontier(3) [OF e] b])
qed

lemma keeps_serve:
  assumes e: "env_keeps env"
  shows "keeps (run_incoming_precompute_session sha256 hmac env g n)"
proof -
  have f: "inv d \<Longrightarrow> inv (snd (finish_job jid True d))" for jid d
    using keeps_apply [OF keeps_methods(2)] .
  note parts = keeps_begin_incoming keeps_after_error [OF keeps_env(11) [OF e] f] keeps_after_error [OF keeps_methods(5) f]
  have "keeps (act_bind (begin_incoming_precompute_target g idx units) (\<lambda>job_id.
     act_bind (after_error (\<lambda>d. snd (finish_job job_id True d)) (pe_serve_precompute env idx)) (\<lambda>wires.
     act_bind (after_error (\<lambda>d. snd (finish_job job_id True d))
         (store_precomputed_target_wires_and_finish_job sha256 (gd_channel_index g) job_id units (index_get idx) wires))
       (\<lambda>_. act_return ()))))" for idx units
    by (intro keeps_bind parts keeps_simple)
  then have "keeps (\<lambda>d. let units = pe_serve_plan env idx d in
     act_bind (begin_incoming_precompute_target g idx units) (\<lambda>job_id.
     act_bind (after_error (\<lambda>d. snd (finish_job job_id True d)) (pe_serve_precompute env idx)) (\<lambda>wires.
     act_bind (after_error (\<lambda>d. snd (finish_job job_id True d))
         (store_precomputed_target_wires_and_finish_job sha256 (gd_channel_index g) job_id units (index_get idx) wires))
       (\<lambda>_. act_return ()))) d)" for idx
    unfolding keeps_def Let_def by blast
  then have t: "keeps (serve_target sha256 env g bs)" for bs
    unfolding serve_target_def by (rule keeps_bind [OF keeps_simple(3)])
  have s: "keeps (serve_targets sha256 env g n)" for n
  proof (induction n)
    case (Suc n)
    have "keeps (act_bind (pe_recv_target env) (\<lambda>bs. act_bind (serve_target sha256 env g bs) (\<lambda>_. serve_targets sha256 env g n)))"
      by (rule keeps_bind [OF keeps_env(10) [OF e] keeps_bind [OF t Suc]])
    then show ?case by (simp add: keeps_def)
  qed (simp add: keeps_def)
  show ?thesis unfolding run_incoming_precompute_session_def
    by (rule keeps_bind [OF keeps_load(8)], rule keeps_bind [OF keeps_env(9) [OF e] s])
qed

end

section \<open>The queue is in step with the memory\<close>

definition queue_in_step :: "logical_store \<Rightarrow> 's daemon \<Rightarrow> bool" where
  \<comment> \<open>the mutations queued, applied to \<open>base\<close>, give the channels in memory\<close>
  "queue_in_step base d \<longleftrightarrow> canonical_db (in_db (dm_inner d)) \<and> list_all proper (queued (dm_queue d))
     \<and> fold apply_logical (queued (dm_queue d)) base = logical_of (in_db (dm_inner d))"

interpretation in_step: daemon_invariant sha256 "queue_in_step base" for sha256 base
proof unfold_locales
  show "queue_in_step base d'" if "queue_in_step base d" "dm_inner d' = dm_inner d" "dm_queue d' = dm_queue d" for d d'
    using that by (simp add: queue_in_step_def)
  show "queue_in_step base (d\<lparr>dm_inner := i, dm_queue := write_batch ms Eventual (dm_queue d)\<rparr>)"
    if "queue_in_step base d" "daemon_step sha256 (dm_inner d) ms i" for d ms i
    using that daemon_step_writes [OF that(2)] by (auto simp: queue_in_step_def writes_match_def)
qed

end
