(* ===== verification/Daemon_Example.thy ===== *)
theory Daemon_Example
  imports Daemon_Tasks_Correct
begin

text \<open>
  Instances the properties of the daemon are evaluated on: a store whose laws hold, and a pair of daemons with
  one channel and one stored node.
\<close>

section \<open>A store to evaluate on\<close>

text \<open>
  An instance of the store's parameters: an HMAC that pads the data, a cipher that leaves the plaintext as it
  is, and a prefix-free encoding of records. It shows that the laws of \<open>store_env_ok\<close> can hold together.
\<close>

definition prefix_free :: "('a \<Rightarrow> bytes) \<Rightarrow> bool" where
  "prefix_free f \<longleftrightarrow> (\<forall>x y r s. f x @ r = f y @ s \<longrightarrow> x = y \<and> r = s)"

definition enc_list :: "('a \<Rightarrow> bytes) \<Rightarrow> 'a list \<Rightarrow> bytes" where
  "enc_list f xs = concat (map (\<lambda>x. 1 # f x) xs) @ [0]"

definition enc_string :: "string \<Rightarrow> bytes" where
  "enc_string = enc_list (\<lambda>c. [word_of_nat (of_char c)])"

definition enc_scalars :: "channel_scalars \<Rightarrow> bytes" where
  "enc_scalars s = [of_bool (cs_enabled s)] @ enc_list (le_bytes 8) (case cs_last_observed_next_reveal_index s of None \<Rightarrow> [] | Some i \<Rightarrow> [i]) @
     le_bytes 8 (cs_precompute_target s) @ le_bytes 4 (cs_ssp_target s) @ le_bytes 8 (cs_delta_lifetime_checked_units_cap s) @
     le_bytes 8 (cs_estimated_checked_units s) @ le_bytes 8 (cs_attempted_checked_units s) @ le_bytes 8 (cs_failed_precompute_jobs s)"

definition enc_wire :: "wire_record \<Rightarrow> bytes" where
  "enc_wire w = enc_string (wr_public_binding_hex w) @ enc_string (wr_local_binding_hex w) @
     enc_list (\<lambda>b. [b]) (sz_lambda (wr_wires w)) @ enc_list (enc_list (\<lambda>b. [b])) (sz_mac (wr_wires w)) @
     enc_list (enc_list (\<lambda>b. [b])) (sz_key (wr_wires w))"

fun enc_payload :: "stored_payload \<Rightarrow> bytes" where
  "enc_payload (Meta v) = 0 # enc_string v"
| "enc_payload (ChannelPayload s) = 1 # enc_scalars s"
| "enc_payload (Secret h) = 2 # enc_string h"
| "enc_payload (Frontier w) = 3 # enc_wire w"

definition enc_record :: "stored_record \<Rightarrow> bytes" where
  "enc_record r = [sr_record_type r] @ le_bytes 8 (sr_channel_index r) @ le_bytes 8 (sr_sub_id r) @ enc_payload (sr_payload r)"

lemma prefix_freeD: "prefix_free f \<Longrightarrow> f x @ r = f y @ s \<longleftrightarrow> x = y \<and> r = s"
  by (auto simp: prefix_free_def)

lemma prefix_free_word: "LENGTH('a::len) = 8 * n \<Longrightarrow> prefix_free (le_bytes n :: 'a word \<Rightarrow> bytes)"
  by (auto simp: prefix_free_def le_bytes_inj)

lemma prefix_free_list:
  assumes "prefix_free f"
  shows "prefix_free (enc_list f)"
proof -
  have "concat (map (\<lambda>x. 1 # f x) xs) @ 0 # r = concat (map (\<lambda>x. 1 # f x) ys) @ 0 # s \<Longrightarrow> xs = ys \<and> r = s" for xs ys r s
  proof (induction xs arbitrary: ys)
    case Nil
    then show ?case by (cases ys) auto
  next
    case (Cons x xs)
    then obtain y ys' where y: "ys = y # ys'" by (cases ys) auto
    from Cons.prems have "f x @ (concat (map (\<lambda>x. 1 # f x) xs) @ 0 # r) = f y @ (concat (map (\<lambda>x. 1 # f x) ys') @ 0 # s)"
      by (simp add: y)
    then show ?case using Cons.IH [of ys'] by (simp add: prefix_freeD [OF assms] y)
  qed
  then show ?thesis by (simp add: prefix_free_def enc_list_def)
qed

lemma prefix_free_byte: "prefix_free (\<lambda>b :: u8. [b])"
  by (simp add: prefix_free_def)

lemma word_of_char_inj: "(word_of_nat (of_char c) :: u8) = word_of_nat (of_char d) \<longleftrightarrow> c = d"
proof
  assume "(word_of_nat (of_char c) :: u8) = word_of_nat (of_char d)"
  then have "unat (word_of_nat (of_char c) :: u8) = unat (word_of_nat (of_char d) :: u8)" by simp
  then have "(of_char c :: nat) = of_char d" by (simp add: unat_of_nat take_bit_nat_eq_self)
  then show "c = d" by simp
qed simp

lemma prefix_free_string: "prefix_free enc_string"
  unfolding enc_string_def by (rule prefix_free_list) (simp add: prefix_free_def word_of_char_inj)

lemma le_bytes_8_inj: "le_bytes 8 (x :: u64) = le_bytes 8 y \<longleftrightarrow> x = y"
  using prefix_freeD [OF prefix_free_word [where 'a = 64 and n = 8], of x "[]" y "[]"] by simp

lemma le_bytes_4_inj: "le_bytes 4 (x :: u32) = le_bytes 4 y \<longleftrightarrow> x = y"
  using prefix_freeD [OF prefix_free_word [where 'a = 32 and n = 4], of x "[]" y "[]"] by simp

lemmas prefix_free_parts = le_bytes_8_inj le_bytes_4_inj
  prefix_freeD [OF prefix_free_word [where 'a = 64 and n = 8]] prefix_freeD [OF prefix_free_word [where 'a = 32 and n = 4]]
  prefix_freeD [OF prefix_free_string] prefix_freeD [OF prefix_free_list [OF prefix_free_byte]]
  prefix_freeD [OF prefix_free_list [OF prefix_free_list [OF prefix_free_byte]]]
  prefix_freeD [OF prefix_free_list [OF prefix_free_word [where 'a = 64 and n = 8]]]

lemma enc_record_inj: "enc_record r = enc_record r' \<Longrightarrow> r = r'"
proof -
  have s: "prefix_free enc_scalars"
    by (auto simp: prefix_free_def enc_scalars_def prefix_free_parts intro!: channel_scalars.equality split: option.splits)
  have w: "prefix_free enc_wire"
    by (auto simp: prefix_free_def enc_wire_def prefix_free_parts intro!: wire_record.equality serializable_wires.equality)
  have "prefix_free enc_payload"
    unfolding prefix_free_def
  proof (intro allI impI)
    fix x y r s' assume "enc_payload x @ r = enc_payload y @ s'"
    then show "x = y \<and> r = s'"
      by (cases x; cases y) (simp_all add: prefix_free_parts prefix_freeD [OF s] prefix_freeD [OF w])
  qed
  then show "enc_record r = enc_record r' \<Longrightarrow> r = r'"
    using prefix_freeD [of enc_payload "sr_payload r" "[]" "sr_payload r'" "[]"]
    by (auto simp: enc_record_def prefix_free_parts intro!: stored_record.equality)
qed

definition plain_hmac :: "bytes \<Rightarrow> bytes \<Rightarrow> bytes" where
  "plain_hmac key data = take 32 (data @ replicate 32 0)"

definition plain_env :: store_env where
  "plain_env =
     \<lparr>se_hmac = plain_hmac,
      se_encrypt = (\<lambda>key nonce aad p. Inr (p, replicate 16 0)),
      se_decrypt = (\<lambda>key nonce aad c tag. Inr c),
      se_record_to_json = (\<lambda>r. Inr (enc_record r)),
      se_record_from_json = (\<lambda>bs. Inr (inv enc_record bs)),
      se_db_from_json = (\<lambda>bs. Inr \<lparr>db_channels = [(channel_key 7, empty_channel_record\<lparr>ch_enabled := True\<rparr>)]\<rparr>)\<rparr>"

lemma canonical_bytes_inj: "canonical_bytes k = canonical_bytes k' \<Longrightarrow> k = k'"
proof -
  assume "canonical_bytes k = canonical_bytes k'"
  then have "lk_record_type k = lk_record_type k'" "be_bytes 8 (lk_channel_index k) = be_bytes 8 (lk_channel_index k')"
    "be_bytes 8 (lk_sub_id k) = be_bytes 8 (lk_sub_id k')" by (simp_all add: canonical_bytes_def)
  moreover have "lk_channel_index k = lk_channel_index k'" by (rule be_bytes_inj [of 8]) (use calculation in simp_all)
  moreover have "lk_sub_id k = lk_sub_id k'" by (rule be_bytes_inj [of 8]) (use calculation in simp_all)
  ultimately show "k = k'" by simp
qed

lemma plain_env_ok: "store_env_ok plain_env sk" "store_env_total plain_env sk"
proof -
  have len: "length (canonical_bytes k) = 17" for k by (simp add: canonical_bytes_def)
  have sk: "stored_key plain_env sk k = canonical_bytes k @ replicate 15 0" for k
    by (simp add: stored_key_def plain_env_def plain_hmac_def len)
  have "inj (stored_key plain_env sk)" unfolding sk by (auto intro!: injI dest: canonical_bytes_inj)
  moreover have "inj enc_record" by (rule injI) (rule enc_record_inj)
  ultimately show "store_env_ok plain_env sk"
    by (simp add: store_env_ok_def sk len) (simp add: plain_env_def DB_TAG_LEN_def)
  show "store_env_total plain_env sk" by (simp add: store_env_total_def plain_env_def)
qed

section \<open>A pair of daemons\<close>

text \<open>
  Two daemons with one enabled channel, number 7, of which the node of index 5 is stored under zero shares. The
  hash is constant, so that the value of every index but the root is zero.
\<close>

definition zero_hash :: "bytes \<Rightarrow> bytes" where
  "zero_hash b = value_zero"

definition node_wires :: secure_wires where
  "node_wires = \<lparr>sw_lambda = replicate 256 0, sw_bundle = replicate 256 \<lparr>as_mac = 0, as_key = 0\<rparr>, sw_label0 = [], sw_eval = []\<rparr>"

definition node_record :: wire_record where
  "node_record = \<lparr>wr_public_binding_hex = to_hex value_zero, wr_local_binding_hex = to_hex value_zero, wr_wires = from_secure_wires node_wires\<rparr>"

definition seven_channel :: channel_record where
  "seven_channel =
     \<lparr>ch_enabled = True, ch_last_observed_next_reveal_index = None, ch_precompute_target = 4, ch_ssp_target = 40,
      ch_delta_lifetime_checked_units_cap = 100, ch_frontier_nodes = [(node_key 5, node_record)], ch_known_secrets = [],
      ch_estimated_checked_units = 0, ch_attempted_checked_units = 0, ch_failed_precompute_jobs = 0\<rparr>"

definition party_inner :: "role \<Rightarrow> inner" where
  "party_inner role =
     \<lparr>in_cfg = \<lparr>cf_role = role, cf_control_addr = ''127.0.0.1:7001'', cf_peer_addr = ''127.0.0.1:7002'', cf_peer_url = None,
        cf_mpc_port = 0, cf_max_ram_bytes = 0, cf_workers = 2, cf_precompute = 4\<rparr>,
      in_master_secret = replicate 32 1, in_cookie = ''cookie'', in_db = \<lparr>db_channels = [(channel_key 7, seven_channel)]\<rparr>,
      in_active_jobs = [], in_next_job_id = 0\<rparr>"

definition party_daemon :: "role \<Rightarrow> nat daemon" where
  "party_daemon role =
     \<lparr>dm_inner = party_inner role, dm_queue = [], dm_grpc_jobs = [], dm_pending_reveals = Map.empty, dm_reveal_answers = [],
      dm_scheduled = {}, dm_full_reconcile_after = Map.empty, dm_precompute_sessions = [], dm_incoming_sessions = [],
      dm_aborted_tasks = {}, dm_peer_channels = Some 1\<rparr>"

definition silent_peer :: "nat peer_env" where
  \<comment> \<open>a peer that never answers\<close>
  "silent_peer =
     \<lparr>pe_get_frontier = (\<lambda>_. act_fail (DRefused ''silent'')), pe_reveal_cached = (\<lambda>_. act_fail (DRefused ''silent'')),
      pe_wait_answer = (\<lambda>_. Pair TimedOut), pe_wait_pending = (\<lambda>_ d. d),
      pe_fast_job = (\<lambda>_ _ _. act_fail (DRefused ''silent'')), pe_root_job = (\<lambda>_ _ _ _. act_fail (DRefused ''silent'')),
      pe_full_derivation = (\<lambda>_ _. act_fail (DRefused ''silent'')), pe_open_session = (\<lambda>_ _ _ _. act_fail (DRefused ''silent'')),
      pe_plan = (\<lambda>_ _. act_fail (DRefused ''silent'')), pe_precompute = (\<lambda>_ _. act_fail (DRefused ''silent'')),
      pe_accept_session = (\<lambda>_ _. act_fail (DRefused ''silent'')), pe_recv_target = act_fail (DRefused ''silent''),
      pe_serve_plan = (\<lambda>_ _. 0), pe_serve_precompute = (\<lambda>_. act_fail (DRefused ''silent''))\<rparr>"

lemma zero_hash_facts: "hash32 zero_hash" "wf_value value_zero" "generate_from_seed zero_hash value_zero 5 = value_zero"
proof -
  show "hash32 zero_hash" "wf_value value_zero" by (simp_all add: hash32_def zero_hash_def wf_value_def value_zero_def)
  show "generate_from_seed zero_hash value_zero 5 = value_zero" by code_simp
qed

lemma canonical_single: "canonical_keys [(node_key j, v)]" "canonical_keys []"
  by (simp_all add: canonical_keys_def bm_inv_def)

lemma party_db: "canonical_db (in_db (party_inner role))"
  "bm_get (db_channels (in_db (party_inner role))) (channel_key c) = (if c = 7 then Some seven_channel else None)"
  by (simp_all add: canonical_db_def party_inner_def seven_channel_def channel_key_eq canonical_single bm_get_def)

lemma node_wires_stored: "to_secure_wires (wr_wires node_record) = node_wires"
  by (simp add: node_record_def to_secure_wires_def from_secure_wires_def node_wires_def zip_replicate)

lemma party_keeps: "keeps_node zero_hash (party_daemon role) 7 5 seven_channel node_wires"
  using party_db(2) [of role 7]
  by (simp add: keeps_node_def party_daemon_def binding_current_def binding_pair_def public_binding_def zero_hash_def node_wires_stored)
     (simp add: seven_channel_def bm_get_def node_record_def node_wires_stored [unfolded node_record_def, simplified])

lemma node_wires_ok: "masked_ok dA dB (value_bools value_zero) node_wires node_wires"
proof -
  have v: "value_bools value_zero = replicate 256 False" by code_simp
  show ?thesis unfolding v
    by (auto simp: masked_ok_def node_wires_def sw_len_def verify_bundles bundle_rel_def rel1_def sel_def share_value_def intro!: nth_equalityI)
qed

end
