(* ===== verification/Daemon_Properties.thy ===== *)
theory Daemon_Properties
  imports Daemon_Init Daemon_Example
begin

text \<open>
  The properties of the daemon: its store, the secrets it reveals, the jobs it starts and what it tells its
  peer, each with an instance.
\<close>

section \<open>Revealed secrets\<close>

text \<open>C9: The known secrets stay right and irredundant. When the stored secrets of a channel are those of its seed and
  none of them derives another, storing the secret of any index keeps both, and the secrets that can be derived
  afterwards are exactly those that could be before and those of the new index; \<open>derive_known_from\<close> finds a secret
  exactly when it can be derived, and returns the one the seed generates.\<close>
theorem known_secrets_kept:
  assumes "hash32 sha256" "wf_value seed" "canonical_db (in_db i)"
    and "bm_get (db_channels (in_db i)) (channel_key ci) = Some c"
    and "right_secrets sha256 seed (ch_known_secrets c)" "no_redundancy (ch_known_secrets c)"
  shows "\<exists>ms i' c'. store_known_locked sha256 ci idx expected (generate_from_seed sha256 seed (index_get idx)) i = Inr (ms, i')
    \<and> bm_get (db_channels (in_db i')) (channel_key ci) = Some c'
    \<and> right_secrets sha256 seed (ch_known_secrets c') \<and> no_redundancy (ch_known_secrets c')
    \<and> (\<forall>j. derive_known_from sha256 (ch_known_secrets c') j =
         Inr (if derivable (ch_known_secrets c) j \<or> can_derive_mask (index_get idx) j
              then Some (generate_from_seed sha256 seed j) else None))"
proof -
  obtain ms i' c' where r: "store_known_locked sha256 ci idx expected (generate_from_seed sha256 seed (index_get idx)) i = Inr (ms, i')"
    "bm_get (db_channels (in_db i')) (channel_key ci) = Some c'"
    "right_secrets sha256 seed (ch_known_secrets c')" "no_redundancy (ch_known_secrets c')"
    "\<forall>j. derivable (ch_known_secrets c') j \<longleftrightarrow> derivable (ch_known_secrets c) j \<or> can_derive_mask (index_get idx) j"
    using store_known_right [OF assms, of idx expected] by (elim exE conjE) (rule that)
  show ?thesis by (intro exI conjI, rule r(1), rule r(2), rule r(3), rule r(4)) (simp add: derive_known_from_right [OF assms(1,2) r(3)] r(5))
qed

theorem known_secrets_kept_witness:
  "\<exists>ms i' c'. store_known_locked zero_hash 7 (Index48 4) 4 value_zero (party_inner Alice) = Inr (ms, i')
    \<and> bm_get (db_channels (in_db i')) (channel_key 7) = Some c'
    \<and> derive_known_from zero_hash (ch_known_secrets c') 5 = Inr (Some value_zero)
    \<and> derive_known_from zero_hash (ch_known_secrets c') 8 = Inr None"
proof -
  have c: "bm_get (db_channels (in_db (party_inner Alice))) (channel_key 7) = Some seven_channel" using party_db(2) by simp
  have k: "right_secrets zero_hash value_zero (ch_known_secrets seven_channel)" "no_redundancy (ch_known_secrets seven_channel)"
    "\<And>j. \<not> derivable (ch_known_secrets seven_channel) j"
    by (simp_all add: seven_channel_def right_secrets_def no_redundancy_def derivable_def)
  have e: "generate_from_seed zero_hash value_zero (index_get (Index48 4)) = value_zero" "can_derive_mask 4 5" "\<not> can_derive_mask 4 8"
    by code_simp+
  show ?thesis
    using known_secrets_kept [OF zero_hash_facts(1,2) party_db(1) c k(1,2), of "Index48 4" 4] k(3) e zero_hash_facts(3)
    by (auto simp del: One_nat_def)
qed

text \<open>C12: Reveals are authorised. Whatever the peer and the network do, when \<open>reveal\<close> returns a secret, the index asked
  for is of 48 bits, the root is only revealed when the caller allows it, and either the index is the one the caller
  expects next, or the secret is derived from the stored ones, the answer says so, and the daemon is unchanged.\<close>
theorem reveal_authorised:
  assumes "reveal sha256 hmac env tx tx' ci requested expected allow d = (Inr resp, d')"
  shows "requested \<le> MAX_INDEX \<and> (requested = 0 \<longrightarrow> allow) \<and>
    (requested = expected \<or>
     (d' = d \<and> (\<exists>c v. bm_get (db_channels (in_db (dm_inner d))) (channel_key ci) = Some c
        \<and> derive_known_from sha256 (ch_known_secrets c) requested = Inr (Some v)
        \<and> resp = reveal_response_of ci (Index48 requested) v True ''known'')))"
  using assms by (rule reveal_guard)

definition knowing_daemon :: "nat daemon" where
  "knowing_daemon = (party_daemon Alice)\<lparr>dm_inner := (party_inner Alice)\<lparr>in_db :=
     \<lparr>db_channels = [(channel_key 7, seven_channel\<lparr>ch_known_secrets := [(node_key 4, value_to_hex value_zero)]\<rparr>)]\<rparr>\<rparr>\<rparr>"

lemma knowing_run:
  "reveal zero_hash (\<lambda>_ _. []) silent_peer 0 1 7 5 9 False knowing_daemon =
     (Inr (reveal_response_of 7 (Index48 5) value_zero True ''known''), knowing_daemon)"
proof -
  let ?m = "[(node_key 4, value_to_hex value_zero)]"
  have g: "generate_from_seed zero_hash value_zero 4 = value_zero" and c: "can_derive_mask 4 5" by code_simp+
  have "right_secrets zero_hash value_zero ?m" using g by (auto simp: right_secrets_def intro!: exI [of _ 4])
  moreover have "derivable ?m 5" using c by (auto simp: derivable_def)
  ultimately have d: "derive_known_from zero_hash ?m 5 = Inr (Some value_zero)"
    unfolding derive_known_from_right [OF zero_hash_facts(1,2) \<open>right_secrets zero_hash value_zero ?m\<close>]
    using zero_hash_facts(3) by simp
  have n: "index_new 5 = Inr (Index48 5)" by code_simp
  have "derive_known zero_hash 7 (Index48 5) knowing_daemon = (Inr (Some value_zero), knowing_daemon)"
    by (simp add: derive_known_def act_inner_def knowing_daemon_def party_daemon_def bm_get_def d del: derive_known_from.simps)
  then show ?thesis by (simp add: reveal_def act_bind_def act_lift_def act_return_def n)
qed

theorem reveal_authorised_witness:
  "reveal zero_hash (\<lambda>_ _. []) silent_peer 0 1 7 5 9 False knowing_daemon =
     (Inr (reveal_response_of 7 (Index48 5) value_zero True ''known''), knowing_daemon)
   \<and> (5 :: u64) \<le> MAX_INDEX"
  using reveal_authorised [OF knowing_run] knowing_run by simp

text \<open>C5: Two daemons reveal a stored node right. Take an index of 48 bits that is not 0 (the root takes another path), a
  caller in the role of Alice that has channels to its peer, and a peer. When both keep the node of the index with sides
  that fit and agree on the masked bits, the known secrets of both are right and irredundant, the peer has registered the
  reveal and the security parameters agree, the caller's \<open>reveal\<close> returns the secret the seed generates. It answers
  \<open>known\<close>, without a call and with the daemon unchanged, when a secret it already knows derives the index, and
  \<open>frontier\<close> otherwise, from the peer's answer to the cached reveal, which it accepts; in both cases the secret is
  derivable from its known secrets afterwards, and these are right. The peer, for its part, answers the caller's cached
  request, hands the secret to the reveal that waits for it, no longer has it pending, and keeps it too.\<close>
theorem cached_reveal_agrees:
  assumes h: "hash32 sha256" and s: "wf_value seed" and m: "m \<le> MAX_INDEX" "m \<noteq> 0"
    and v: "v = generate_from_seed sha256 seed m"
    and A: "keeps_node sha256 dA ci m cA a" and B: "keeps_node sha256 dB ci m cB b"
    and can: "canonical_db (in_db (dm_inner dA))" "canonical_db (in_db (dm_inner dB))"
    and secA: "right_secrets sha256 seed (ch_known_secrets cA)" "no_redundancy (ch_known_secrets cA)"
    and secB: "right_secrets sha256 seed (ch_known_secrets cB)" "no_redundancy (ch_known_secrets cB)"
    and p: "ch_ssp_target cA = ch_ssp_target cB" "ch_delta_lifetime_checked_units_cap cA = ch_delta_lifetime_checked_units_cap cB"
    and ok: "masked_ok (delta_of hmacA dA ci) (delta_of hmacB dB ci) (value_bools v) a b" "sw_lambda a = sw_lambda b"
    and pend: "dm_pending_reveals dB (RevealRequestKey ci m m allow) = Some tx"
    and role: "cf_role (in_cfg (dm_inner dA)) = Alice" "has_peer_channels dA"
    and env: "pe_reveal_cached env = peer_rpc sha256 hmacB envB dB"
  shows "(\<exists>dA' cA'. reveal sha256 hmacA env t t' ci m m allow dA =
      (Inr (reveal_response_of ci (Index48 m) v True (if derivable (ch_known_secrets cA) m then ''known'' else ''frontier'')), dA')
    \<and> (derivable (ch_known_secrets cA) m \<longrightarrow> dA' = dA)
    \<and> bm_get (db_channels (in_db (dm_inner dA'))) (channel_key ci) = Some cA'
    \<and> right_secrets sha256 seed (ch_known_secrets cA') \<and> derivable (ch_known_secrets cA') m)
    \<and> (\<exists>answer dB'. handle_peer_cached_reveal sha256 hmacB envB (cached_request sha256 ci m allow cA a) dB = (Inr answer, dB')
         \<and> dm_reveal_answers dB' = dm_reveal_answers dB @ [(tx, Inr v)]
         \<and> dm_pending_reveals dB' (RevealRequestKey ci m m allow) = None
         \<and> (\<exists>cB'. bm_get (db_channels (in_db (dm_inner dB'))) (channel_key ci) = Some cB'
              \<and> right_secrets sha256 seed (ch_known_secrets cB') \<and> derivable (ch_known_secrets cB') m))"
proof -
  have m': "m \<noteq> 0 \<or> allow" using m(2) by simp
  have cA: "bm_get (db_channels (in_db (dm_inner dA))) (channel_key ci) = Some cA" using A by (simp add: keeps_node_def)
  have caller: "\<exists>dA' cA'. reveal sha256 hmacA env t t' ci m m allow dA =
      (Inr (reveal_response_of ci (Index48 m) v True (if derivable (ch_known_secrets cA) m then ''known'' else ''frontier'')), dA')
    \<and> (derivable (ch_known_secrets cA) m \<longrightarrow> dA' = dA)
    \<and> bm_get (db_channels (in_db (dm_inner dA'))) (channel_key ci) = Some cA'
    \<and> right_secrets sha256 seed (ch_known_secrets cA') \<and> derivable (ch_known_secrets cA') m"
  proof (cases "derivable (ch_known_secrets cA) m")
    case True
    then show ?thesis using caller_knows [OF h s m v A secA(1) True] secA(1) cA
      by (intro exI [of _ dA] exI [of _ cA]) simp
  next
    case False
    then show ?thesis using caller_reveals [OF h s m v A B can secA secB p ok pend role False env, of t t'] by simp
  qed
  show ?thesis
    by (intro conjI caller) (use peer_answers [OF h s m(1) m' v B can(2) secB p ok(1) pend, of envB] in blast)
qed

definition waiting_daemon :: "nat daemon" where
  \<comment> \<open>Bob, waiting for the reveal of index 5\<close>
  "waiting_daemon = (party_daemon Bob)\<lparr>dm_pending_reveals := [RevealRequestKey 7 5 5 False \<mapsto> 3]\<rparr>"

theorem cached_reveal_agrees_witness:
  "\<exists>dA'. reveal zero_hash (\<lambda>_ _. replicate 32 7)
       (silent_peer\<lparr>pe_reveal_cached := peer_rpc zero_hash (\<lambda>_ _. replicate 32 7) silent_peer waiting_daemon\<rparr>) 0 1 7 5 5 False (party_daemon Alice) =
     (Inr (reveal_response_of 7 (Index48 5) value_zero True ''frontier''), dA')"
proof -
  have B: "keeps_node zero_hash waiting_daemon 7 5 seven_channel node_wires"
    using party_keeps [of Bob] by (simp add: keeps_node_def waiting_daemon_def)
  have i: "dm_inner (party_daemon r) = party_inner r" "dm_inner waiting_daemon = party_inner Bob" for r
    by (simp_all add: party_daemon_def waiting_daemon_def)
  note can = party_db(1) [of Alice, folded i(1)] party_db(1) [of Bob, folded i(2)]
  have k: "right_secrets zero_hash value_zero (ch_known_secrets seven_channel)" "no_redundancy (ch_known_secrets seven_channel)"
    by (simp_all add: seven_channel_def right_secrets_def no_redundancy_def)
  have new: "\<not> derivable (ch_known_secrets seven_channel) 5" by (simp add: seven_channel_def derivable_def)
  have m: "(5 :: u64) \<le> MAX_INDEX" "(5 :: u64) \<noteq> 0" by (simp_all add: MAX_INDEX_eq)
  have pend: "dm_pending_reveals waiting_daemon (RevealRequestKey 7 5 5 False) = Some 3" by (simp add: waiting_daemon_def)
  have role: "cf_role (in_cfg (dm_inner (party_daemon Alice))) = Alice" "has_peer_channels (party_daemon Alice)"
    by (simp_all add: party_daemon_def party_inner_def has_peer_channels_def)
  show ?thesis
    using cached_reveal_agrees [OF zero_hash_facts(1,2) m zero_hash_facts(3) [symmetric] party_keeps [of Alice] B can k(1,2) k(1,2)
        refl refl node_wires_ok refl pend role, where env = "silent_peer\<lparr>pe_reveal_cached :=
          peer_rpc zero_hash (\<lambda>_ _. replicate 32 7) silent_peer waiting_daemon\<rparr>" and hmacA = "\<lambda>_ _. replicate 32 7"
        and hmacB = "\<lambda>_ _. replicate 32 7" and envB = silent_peer and t = 0 and t' = 1] new
    by auto
qed

section \<open>The store\<close>

text \<open>C4: The store refines the memory. Start a daemon with a table that holds its channels and a writer whose queue is empty,
  clean as \<open>spawn_db_writer\<close> starts it on a table whose last commit was synced (as \<open>ensure_meta_record\<close> leaves every
  database that is opened), or dirty. Run the daemon's locked methods in any order; hand their writes to the writer in that order, interleaved with flushes, turns that drain any number of
  operations, and checkpoints. Whenever the queue is empty, opening the store on the committed table gives exactly the
  channels in memory; and when the writer is not dirty, so does opening it on any table a crash can leave. This holds for
  a store whose cipher and record encoding invert and whose keys do not collide, as long as encryption and the random
  generator do not fail.\<close>
theorem store_refines_memory:
  assumes "store_env_ok env (db_subkeys_derive env secret)" "store_env_total env (db_subkeys_derive env secret)" "canonical_db (in_db i)"
    and "table_holds env (db_subkeys_derive env secret) (rd_table (wt_db w)) (logical_of (in_db i))" "wt_queue w = []"
    and "wt_dirty w \<or> rd_unsynced (wt_db w) = []"
    and "daemon_run sha256 i ms i'" "concat (map submitted evts) = ms" "list_all generator_works evts"
    and "w' = fold (run_event env (db_subkeys_derive env secret)) evts w" "wt_queue w' = []"
    and "T = rd_table (wt_db w') \<or> T \<in> crash_tables (wt_db w') \<and> \<not> wt_dirty w'"
  shows "\<exists>g. db_store_open env random mr mr' secret \<lparr>fl_path = Some (RedbFile \<lparr>rd_table = T, rd_unsynced = []\<rparr>), fl_temp = temp,
    fl_migrated = migrated\<rparr> = Inr (in_db i', g)"
proof -
  note r = restart_table [OF assms(1-11)]
  from assms(12) have T: "T = rd_table (wt_db w')"
  proof (elim disjE conjE)
    assume "T \<in> crash_tables (wt_db w')" "\<not> wt_dirty w'"
    then show ?thesis using r by simp
  qed
  show ?thesis by (rule restart_opens [OF assms(1), where r = "\<lparr>rd_table = T, rd_unsynced = []\<rparr>"]) (simp_all add: r T)
qed

definition enable_nine :: enable_channel_request where
  "enable_nine = \<lparr>eq_channel_index = 9, eq_precompute = 3, eq_ssp_target = 0, eq_delta_lifetime_checked_units_cap = 0\<rparr>"

definition blank_inner :: inner where
  "blank_inner = (party_inner Alice)\<lparr>in_db := empty_plain_db\<rparr>"

definition plain_nonce :: "nat \<Rightarrow> string + bytes" where
  "plain_nonce n = Inr (replicate DB_NONCE_LEN 0)"

lemma plain_nonce_facts: "nonces_total plain_nonce" "\<forall>b. plain_nonce n = Inr b \<longrightarrow> length b = DB_NONCE_LEN"
  by (simp_all add: nonces_total_def plain_nonce_def)

lemma blank_table:
  "\<exists>db. ensure_meta_record plain_env sk (plain_nonce 0) empty_redb = Inr db
    \<and> table_holds plain_env sk (rd_table db) (logical_of empty_plain_db) \<and> rd_unsynced db = []"
proof -
  obtain v where "encrypt_stored_record plain_env sk (plain_nonce 0) (stored_key plain_env sk meta_key) meta_record = Inr v"
    using encrypt_total [OF plain_env_ok(2), of "plain_nonce 0"] unfolding plain_nonce_def by blast
  then have "\<exists>db. ensure_meta_record plain_env sk (plain_nonce 0) empty_redb = Inr db \<and> rd_unsynced db = []"
    by (simp add: ensure_meta_record_def empty_redb_def Let_def commit_def)
  then show ?thesis using ensure_meta_fresh [OF plain_env_ok(1) _ plain_nonce_facts(2)] by blast
qed

theorem store_refines_memory_witness:
  "\<exists>db w' g. ensure_meta_record plain_env (db_subkeys_derive plain_env [1]) (plain_nonce 0) empty_redb = Inr db \<and> w' = fold (run_event plain_env (db_subkeys_derive plain_env [1]))
       [SubmitBatch (snd (fst (enable_channel_locked enable_nine blank_inner))) Immediate, SubmitFlush 1, Turn 5 plain_nonce]
       (spawn_db_writer db)
     \<and> db_store_open plain_env plain_nonce (plain_nonce 0) (plain_nonce 1) [1] \<lparr>fl_path = Some (RedbFile \<lparr>rd_table = rd_table (wt_db w'),
         rd_unsynced = []\<rparr>), fl_temp = None, fl_migrated = None\<rparr> = Inr (in_db (snd (enable_channel_locked enable_nine blank_inner)), g)"
proof -
  let ?r = "enable_channel_locked enable_nine blank_inner" and ?sk = "db_subkeys_derive plain_env [1]"
  obtain db where db: "ensure_meta_record plain_env ?sk (plain_nonce 0) empty_redb = Inr db"
    "table_holds plain_env ?sk (rd_table db) (logical_of empty_plain_db)" "rd_unsynced db = []" using blank_table by blast
  define w where "w = spawn_db_writer db"
  let ?evts = "[SubmitBatch (snd (fst ?r)) Immediate, SubmitFlush 1, Turn 5 plain_nonce]"
  have can: "canonical_db (in_db blank_inner)" by (simp add: blank_inner_def empty_plain_db_def canonical_db_def canonical_single)
  have t: "table_holds plain_env ?sk (rd_table (wt_db w)) (logical_of (in_db blank_inner))"
    using db(2) by (simp add: w_def spawn_db_writer_def blank_inner_def)
  have "daemon_step zero_hash blank_inner (snd (fst ?r)) (snd ?r)"
    by (rule daemon_step.enable [where response = "fst (fst ?r)"]) simp
  then have run: "daemon_run zero_hash blank_inner (snd (fst ?r)) (snd ?r)"
    using daemon_run.step [OF daemon_run.start] by force
  have w: "wt_queue w = []" "wt_dirty w \<or> rd_unsynced (wt_db w) = []" using db(3) by (simp_all add: w_def spawn_db_writer_def)
  have s: "concat (map submitted ?evts) = snd (fst ?r)" "list_all generator_works ?evts" by (simp_all add: plain_nonce_facts)
  have q: "wt_queue (fold (run_event plain_env ?sk) ?evts w) = []"
    by (simp add: write_batch_def writer_turn_def process_db_writer_batch_def w_def spawn_db_writer_def Let_def split: sum.split)
  let ?w' = "fold (run_event plain_env ?sk) ?evts w"
  from store_refines_memory [OF plain_env_ok can t w run s refl q disjI1 [OF refl], of plain_nonce "plain_nonce 0" "plain_nonce 1" None None]
  obtain g where g: "db_store_open plain_env plain_nonce (plain_nonce 0) (plain_nonce 1) [1] \<lparr>fl_path = Some (RedbFile
     \<lparr>rd_table = rd_table (wt_db ?w'), rd_unsynced = []\<rparr>), fl_temp = None, fl_migrated = None\<rparr> = Inr (in_db (snd ?r), g)" by (elim exE) (rule that)
  show ?thesis unfolding w_def [symmetric]
    by (rule exI [of _ db], rule exI [of _ ?w'], rule exI [of _ g]) (intro conjI db(1) g, simp add: w_def)
qed

text \<open>C15: The migration of a legacy database survives a crash. Stop it after any number of its file operations and open the
  store again: the channels are those of the legacy file, and the legacy file is kept aside, byte by byte.\<close>
theorem migration_survives_crash:
  assumes "migration_ready env random mr ms bs db" "fl_path f = Some (RawFile bs)"
    and "ensure_meta_record env (db_subkeys_derive env ms) mr empty_redb = Inr started"
    and "migrate_legacy_db env random mr ms db = Inr finished"
  shows "\<exists>g. db_store_open env random mr mr' ms (after_crash started finished n f) = Inr (db, g) \<and> fl_migrated g = Some (RawFile bs)"
  using assms by (rule migration_crash_safe)

definition legacy_bytes :: bytes where
  "legacy_bytes = DB_MAGIC @ replicate (DB_SALT_LEN + DB_NONCE_LEN + DB_TAG_LEN) 0"

definition legacy_db :: plain_db where
  "legacy_db = \<lparr>db_channels = [(channel_key 7, empty_channel_record\<lparr>ch_enabled := True\<rparr>)]\<rparr>"

lemma legacy_ready: "migration_ready plain_env plain_nonce (plain_nonce 0) [1] legacy_bytes legacy_db"
proof -
  have "read_legacy_db plain_env legacy_bytes [1] = Inr legacy_db"
    by (simp add: read_legacy_db_def legacy_bytes_def read_array_def)
       (simp add: plain_env_def legacy_db_def)
  moreover have "canonical_db legacy_db"
    by (simp add: legacy_db_def canonical_db_def channel_key_eq canonical_single empty_channel_record_def)
  ultimately show ?thesis
    using plain_env_ok plain_nonce_facts by (auto simp: migration_ready_def Let_def plain_nonce_def)
qed

theorem migration_survives_crash_witness:
  "\<exists>started finished. \<forall>n \<in> {..<12 :: nat}. \<exists>g.
     db_store_open plain_env plain_nonce (plain_nonce 0) (plain_nonce 0) [1]
       (after_crash started finished n \<lparr>fl_path = Some (RawFile legacy_bytes), fl_temp = None, fl_migrated = None\<rparr>) = Inr (legacy_db, g)"
proof -
  let ?f = "\<lparr>fl_path = Some (RawFile legacy_bytes), fl_temp = None, fl_migrated = None\<rparr>"
  obtain started finished where r: "ensure_meta_record plain_env (db_subkeys_derive plain_env [1]) (plain_nonce 0) empty_redb = Inr started"
    "migrate_legacy_db plain_env plain_nonce (plain_nonce 0) [1] legacy_db = Inr finished"
    using migration_runs [OF legacy_ready] by blast
  have "fl_path ?f = Some (RawFile legacy_bytes)" by simp
  from migration_survives_crash [OF legacy_ready this r] show ?thesis by blast
qed

text \<open>C17: Whole tasks keep the queue in step with the memory. The reveal, the peer's side of a reveal, the outgoing and the
  scheduled precomputation and the serving of a peer's session never leave, on any path and whatever the peer answers,
  a change of the channels without its writes or writes without their change: the queued mutations, applied to what
  the store held, are the channels in memory, provided that what runs while a task waits keeps this too.\<close>
theorem tasks_keep_queue_in_step:
  assumes "peer_keeps (queue_in_step base) env" "queue_in_step base d"
  shows "queue_in_step base (snd (reveal sha256 hmac env tx tx' ci requested expected allow d))
    \<and> queue_in_step base (snd (handle_peer_cached_reveal sha256 hmac env req d))
    \<and> queue_in_step base (snd (precompute_path_jobstream sha256 hmac env ci target d))
    \<and> queue_in_step base (snd (run_scheduled_precompute_inner sha256 hmac env ci d))
    \<and> queue_in_step base (snd (run_incoming_precompute_session sha256 hmac env g n d))"
  by (intro conjI in_step.keeps_apply [OF _ assms(2)] in_step.keeps_reveal in_step.keeps_handle_reveal in_step.keeps_precompute
      in_step.keeps_scheduled in_step.keeps_serve assms(1))

lemma silent_keeps: "peer_keeps P silent_peer"
  by (simp add: peer_keeps_def silent_peer_def act_keeps_def act_fail_def)

theorem tasks_keep_queue_in_step_witness:
  "queue_in_step (logical_of (in_db (party_inner Alice)))
     (snd (reveal zero_hash (\<lambda>_ _. []) silent_peer 0 1 7 5 5 False (party_daemon Alice)))"
proof -
  have "queue_in_step (logical_of (in_db (party_inner Alice))) (party_daemon Alice)"
    using party_db(1) [of Alice] by (simp add: queue_in_step_def party_daemon_def)
  from tasks_keep_queue_in_step [OF silent_keeps this] show ?thesis by blast
qed

section \<open>Jobs\<close>

text \<open>C8: The lifetime cap of a channel is never exceeded. From a daemon without jobs whose counters are within their caps,
  after any steps in which tasks start jobs under fresh ids, store their results once, give up or are aborted, and
  requests arrive that do not lower a cap, a channel has at most one job, and its checked units with those its job
  has been promised are within its cap (counters saturate at the largest 64-bit number).\<close>
theorem cap_never_exceeded:
  assumes "(job_step sha256)\<^sup>*\<^sup>* (i, []) (i', js)" "canonical_db (in_db i)" "in_active_jobs i = []"
    and "\<forall>ci c. bm_get (db_channels (in_db i)) (channel_key ci) = Some c \<longrightarrow>
       ch_estimated_checked_units c \<le> ch_delta_lifetime_checked_units_cap c"
  shows "length (channel_jobs i' ci) \<le> 1
    \<and> (\<forall>c. bm_get (db_channels (in_db i')) (channel_key ci) = Some c \<longrightarrow> within_cap c (units_promised i' ci))"
proof -
  have "jobs_inv (i, [])"
    using assms(2-4) by (auto simp: jobs_inv_def bm_inv_def channel_jobs_def bm_values_def units_promised_def within_cap_def
        word_le_nat_alt min.coboundedI1)
  from job_steps_inv [OF assms(1) this] show ?thesis by (auto simp: jobs_inv_def)
qed

definition seven_job :: "string \<Rightarrow> grpc_job_descriptor" where
  "seven_job job_id = \<lparr>gd_job_id = job_id, gd_channel_index = 7, gd_target_index = 5, gd_ssp = 47, gd_ssp_target = 40,
     gd_delta_lifetime_checked_units_cap = 100, gd_digest = value_zero\<rparr>"

lemma begin_seven:
  "\<exists>ms i'. begin_incoming_locked 2 (seven_job ''s'') (Index48 5) 60 (party_inner role) = Inr ((''s-target-5'', ms), i')"
proof -
  have "dec_string 5 = ''5''" by code_simp
  then show ?thesis
    using party_db(2) [of role 7]
    by (simp add: begin_incoming_locked_def get_enabled_channel_def get_channel_def seven_job_def seven_channel_def units_used_def reserved_units_def
        job_on_channel_def Let_def party_inner_def bm_values_def sat_add_def)
qed

theorem cap_never_exceeded_witness:
  "\<exists>ms i'. begin_incoming_locked 2 (seven_job ''s'') (Index48 5) 60 (party_inner Alice) = Inr ((''s-target-5'', ms), i')
    \<and> length (channel_jobs i' 7) \<le> 1
    \<and> (\<forall>c. bm_get (db_channels (in_db i')) (channel_key 7) = Some c \<longrightarrow> within_cap c (units_promised i' 7))"
proof -
  obtain ms i' where b: "begin_incoming_locked 2 (seven_job ''s'') (Index48 5) 60 (party_inner Alice) = Inr ((''s-target-5'', ms), i')"
    using begin_seven by blast
  have n: "in_active_jobs (party_inner Alice) = []" by (simp add: party_inner_def)
  have "\<exists>js. job_step zero_hash (party_inner Alice, []) (i', js)"
    using job_step.start_peer [OF b] n by (auto simp: bm_get_def)
  then obtain js where s: "(job_step zero_hash)\<^sup>*\<^sup>* (party_inner Alice, []) (i', js)" by blast
  have c: "\<forall>ci c. bm_get (db_channels (in_db (party_inner Alice))) (channel_key ci) = Some c \<longrightarrow>
       ch_estimated_checked_units c \<le> ch_delta_lifetime_checked_units_cap c"
    using party_db(2) by (auto simp: seven_channel_def split: if_splits)
  from cap_never_exceeded [OF s party_db(1) n c, of 7] b show ?thesis by blast
qed

text \<open>A peer that reuses a job id over two channels takes one of them out of the account.\<close>

definition two_channels :: inner where
  "two_channels = (party_inner Alice)\<lparr>in_db := \<lparr>db_channels = [(channel_key 7, seven_channel), (channel_key 8, seven_channel)]\<rparr>\<rparr>"

text \<open>C35: Without fresh ids the cap does not hold, in any state. Take a daemon with two channels that are enabled and idle, and
  room for three more jobs. When the peer opens a job on the first channel and, under the same id and target, one on the
  second, the entry of the second replaces that of the first, and the first channel takes another job: every request is
  accepted, as long as each of the jobs alone fits under its channel's cap. After both jobs of the first channel have
  stored their nodes, its checked units are above its cap whenever the two together are.\<close>
theorem job_id_reuse_breaks_cap:
  assumes "canonical_db (in_db i)" "bm_inv (in_active_jobs i)" "length (in_active_jobs i) + 2 < unat w"
    and "gd_channel_index g' \<noteq> gd_channel_index g" "may_open i g c planned" "may_open i g' c' planned2" "may_open i g c planned'"
    and "unat (ch_delta_lifetime_checked_units_cap c) < min (unat (ch_estimated_checked_units c) + unat planned + unat planned') (2 ^ 64 - 1)"
  shows "\<exists>i' d. reuse_run sha256 w jid g g' jid' index index' planned planned2 planned' wires wires' i = Inr i'
    \<and> bm_get (db_channels (in_db i')) (channel_key (gd_channel_index g)) = Some d
    \<and> ch_delta_lifetime_checked_units_cap d = ch_delta_lifetime_checked_units_cap c
    \<and> ch_delta_lifetime_checked_units_cap d < ch_estimated_checked_units d"
proof -
  obtain i' d where r: "reuse_run sha256 w jid g g' jid' index index' planned planned2 planned' wires wires' i = Inr i'"
    "bm_get (db_channels (in_db i')) (channel_key (gd_channel_index g)) = Some d"
    "ch_estimated_checked_units d = sat_add (sat_add (ch_estimated_checked_units c) planned) planned'"
    "ch_delta_lifetime_checked_units_cap d = ch_delta_lifetime_checked_units_cap c"
    using reuse_run_result [OF assms(1-7)] by blast
  have "ch_delta_lifetime_checked_units_cap d < ch_estimated_checked_units d"
    using assms(8) unfolding word_less_nat_alt r(3,4) unat_sat_add by (auto simp: min_def)
  then show ?thesis using r(1,2,4) by blast
qed

theorem job_id_reuse_breaks_cap_witness:
  "\<exists>i' d. reuse_run zero_hash 3 ''s'' (seven_job ''x'') ((seven_job ''x'')\<lparr>gd_channel_index := 8\<rparr>) ''t'' (Index48 6) (Index48 4) 60 60 60
      node_wires node_wires two_channels = Inr i'
    \<and> bm_get (db_channels (in_db i')) (channel_key 7) = Some d \<and> ch_estimated_checked_units d > 100"
proof -
  let ?g = "seven_job ''x''" and ?g' = "(seven_job ''x'')\<lparr>gd_channel_index := 8\<rparr>"
  have k: "channel_key 7 = ''7''" "channel_key 8 = ''8''" by code_simp+
  have "node_key 7 < node_key 8" using k by (simp add: channel_key_eq less_char_def)
  then have can: "canonical_db (in_db two_channels)"
    by (simp add: canonical_db_def canonical_keys_def two_channels_def seven_channel_def channel_key_eq bm_inv_def)
  have "in_active_jobs two_channels = []" by (simp add: two_channels_def party_inner_def)
  then have n: "bm_inv (in_active_jobs two_channels)" "length (in_active_jobs two_channels) + 2 < unat (3 :: u32)"
    "\<not> job_on_channel two_channels ci" for ci by (simp_all add: bm_inv_def job_on_channel_def bm_values_def)
  have o: "may_open two_channels ?g seven_channel 60" "may_open two_channels ?g' seven_channel 60"
    using n(3) by (simp_all add: may_open_def seven_job_def seven_channel_def two_channels_def k bm_get_def sat_add_def)
  have ne: "gd_channel_index ?g' \<noteq> gd_channel_index ?g" by (simp add: seven_job_def)
  have cap: "unat (ch_delta_lifetime_checked_units_cap seven_channel) < min (unat (ch_estimated_checked_units seven_channel) + unat (60 :: u64) + unat (60 :: u64)) (2 ^ 64 - 1)"
    by (simp add: seven_channel_def)
  have f: "gd_channel_index ?g = 7" "ch_delta_lifetime_checked_units_cap seven_channel = 100" by (simp_all add: seven_job_def seven_channel_def)
  show ?thesis
    using job_id_reuse_breaks_cap [OF can n(1,2) ne o(1,2,1) cap, of zero_hash "''s''" "''t''" "Index48 6" "Index48 4" node_wires node_wires]
    unfolding f by metis
qed

section \<open>Scheduling, frontiers and parameters\<close>

text \<open>C28: The scheduler starts only what may run. Its candidates are distinct; each is an enabled channel with a precompute
  target that is neither scheduled nor has a job, and a candidate whose local frontier is full has no deadline of a full
  reconciliation still to come. The state changes in two ways and no other: the candidates are added to the scheduled
  channels, and each candidate whose frontier is full gets \<open>now + interval\<close> as its next deadline. The channels with a job
  or scheduled are afterwards no more than the workers, or no more than they were before.\<close>
theorem scheduler_starts_allowed:
  assumes "canonical_db (in_db (dm_inner d))" "finite (dm_scheduled d)" "scheduler_candidates sha256 interval now d = (cs, d')"
  shows "distinct cs
    \<and> d' = d\<lparr>dm_scheduled := dm_scheduled d \<union> set cs,
              dm_full_reconcile_after := (\<lambda>c. if c \<in> set cs \<and> frontier_full sha256 (dm_inner d) c then Some (now + interval)
                                             else dm_full_reconcile_after d c)\<rparr>
    \<and> (\<forall>c \<in> set cs. c \<notin> dm_scheduled d \<and> \<not> job_on_channel (dm_inner d) c
        \<and> (\<exists>ch. bm_get (db_channels (in_db (dm_inner d))) (channel_key c) = Some ch \<and> ch_enabled ch \<and> ch_precompute_target ch \<noteq> 0)
        \<and> (frontier_full sha256 (dm_inner d) c \<longrightarrow> (\<forall>deadline. dm_full_reconcile_after d c = Some deadline \<longrightarrow> deadline \<le> now)))
    \<and> card (active_channels (dm_inner d) \<union> dm_scheduled d')
        \<le> max (unat (max (cf_workers (in_cfg (dm_inner d))) 1)) (card (active_channels (dm_inner d) \<union> dm_scheduled d))"
  using assms by (rule scheduler_sound)

theorem scheduler_starts_allowed_witness:
  "\<exists>cs d'. scheduler_candidates zero_hash 30 100 (party_daemon Alice) = (cs, d') \<and> distinct cs \<and> set cs \<subseteq> {7}
    \<and> dm_scheduled d' = set cs"
proof -
  obtain cs d' where r: "scheduler_candidates zero_hash 30 100 (party_daemon Alice) = (cs, d')" by force
  have i: "dm_inner (party_daemon Alice) = party_inner Alice" "dm_scheduled (party_daemon Alice) = {}"
    by (simp_all add: party_daemon_def)
  have "canonical_db (in_db (dm_inner (party_daemon Alice)))" "finite (dm_scheduled (party_daemon Alice))"
    using party_db(1) by (simp_all add: i)
  from scheduler_starts_allowed [OF this r] show ?thesis
    using r party_db(2) [of Alice] by (auto simp: i split: if_splits)
qed

text \<open>C19: Reconciling with the frontier a peer reports keeps exactly the nodes both have. When the peer answers with its
  frontier of an enabled channel and this side reconciles with the answer, a node is left, unchanged, exactly when the
  peer has a node of the same index with the same public binding.\<close>
theorem frontiers_reconciled:
  assumes "canonical_db (in_db (dm_inner dA))" "canonical_db (in_db (dm_inner dB))"
    and "fst (get_frontier ci dB) = Inr response" "gf_channel_enabled response"
    and "reconcile_with_response ci response dA = (Inr (), dA')"
    and "bm_get (db_channels (in_db (dm_inner dA))) (channel_key ci) = Some cA"
  shows "\<exists>cA' cB. bm_get (db_channels (in_db (dm_inner dA'))) (channel_key ci) = Some cA'
    \<and> bm_get (db_channels (in_db (dm_inner dB))) (channel_key ci) = Some cB
    \<and> (\<forall>m. bm_get (ch_frontier_nodes cA') (node_key m) =
         (case (bm_get (ch_frontier_nodes cA) (node_key m), bm_get (ch_frontier_nodes cB) (node_key m)) of
            (Some rA, Some rB) \<Rightarrow> if wr_public_binding_hex rA = wr_public_binding_hex rB then Some rA else None
          | _ \<Rightarrow> None))"
  using assms by (rule reconciled_nodes)

theorem frontiers_reconciled_witness:
  "\<exists>response dA' cA'. fst (get_frontier 7 (party_daemon Bob)) = Inr response
    \<and> reconcile_with_response 7 response (party_daemon Alice) = (Inr (), dA')
    \<and> bm_get (db_channels (in_db (dm_inner dA'))) (channel_key 7) = Some cA'
    \<and> bm_get (ch_frontier_nodes cA') (node_key 5) = Some node_record"
proof -
  have i: "dm_inner (party_daemon r) = party_inner r" for r by (simp add: party_daemon_def)
  have can: "canonical_db (in_db (dm_inner (party_daemon r)))" for r using party_db(1) by (simp add: i)
  have c: "bm_get (db_channels (in_db (dm_inner (party_daemon r)))) (channel_key 7) = Some seven_channel" for r
    using party_db(2) by (simp add: i)
  obtain response where g: "fst (get_frontier 7 (party_daemon Bob)) = Inr response" "gf_channel_enabled response"
    using c [of Bob] by (simp add: get_frontier_def Let_def) (simp add: seven_channel_def)
  obtain dA' where r: "reconcile_with_response 7 response (party_daemon Alice) = (Inr (), dA')"
    using g(2) by (cases "reconcile_locked 7 response (dm_inner (party_daemon Alice))")
      (simp add: reconcile_with_response_def act_bind_def locked_def enqueue_def)
  have n: "bm_get (ch_frontier_nodes seven_channel) (node_key 5) = Some node_record" by (simp add: seven_channel_def bm_get_def)
  show ?thesis using frontiers_reconciled [OF can can g r c] g(1) r c [of Bob] n by fastforce
qed

text \<open>C36: The effective security parameter covers the lifetime cap. It is the target plus \<open>k\<close>, the least number of bits that
  hold the cap, added as a \<open>u32\<close>. The sum is exact whenever it is below \<open>2 ^ 32\<close>, and then the bound of \<open>ssp_effective\<close>
  bits is the one of the target over any number of units up to the cap; otherwise it is \<open>2 ^ 32\<close> too small.\<close>
theorem ssp_effective_covers_cap:
  "\<exists>k. k \<le> 64 \<and> unat cap \<le> 2 ^ k \<and> (0 < k \<longrightarrow> 2 ^ (k - 1) < unat cap)
    \<and> (unat t + k < 2 ^ 32 \<longrightarrow> ssp_effective t cap = unat t + k \<and> unat cap * 2 ^ unat t \<le> 2 ^ ssp_effective t cap)
    \<and> (2 ^ 32 \<le> unat t + k \<longrightarrow> ssp_effective t cap + 2 ^ 32 = unat t + k)"
proof -
  obtain k where k: "k \<le> 64" "unat cap \<le> 2 ^ k" "0 < k \<longrightarrow> 2 ^ (k - 1) < unat cap" "ssp_effective t cap = (unat t + k) mod 2 ^ 32"
    using ssp_effective_spec [of cap t] by blast
  have "unat cap * 2 ^ unat t \<le> 2 ^ k * 2 ^ unat t" using k(2) by (rule mult_right_mono) simp
  then have e: "unat cap * 2 ^ unat t \<le> 2 ^ (unat t + k)" by (simp add: power_add mult.commute)
  have "unat t < 2 ^ 32" using unsigned_less [of t, where 'a = nat] by simp
  then have w: "ssp_effective t cap + 2 ^ 32 = unat t + k" if "2 ^ 32 \<le> unat t + k"
  proof -
    have "unat t + k - 2 ^ 32 < 2 ^ 32" using k(1) \<open>unat t < 2 ^ 32\<close> by simp
    then have "(unat t + k) mod 2 ^ 32 = unat t + k - 2 ^ 32" using that by (simp add: mod_if)
    then show ?thesis using that k(4) by linarith
  qed
  have x: "ssp_effective t cap = unat t + k" if "unat t + k < 2 ^ 32" using that k(4) by simp
  show ?thesis using k(1-3) e w x by (intro exI [of _ k]) simp
qed

theorem ssp_effective_covers_cap_witness:
  "ssp_effective 0xFFFFFFD8 DEFAULT_DELTA_CAP = 0xFFFFFFD8 + 32 \<and> unat DEFAULT_DELTA_CAP * 2 ^ 40 \<le> 2 ^ ssp_effective 40 DEFAULT_DELTA_CAP"
proof -
  have cap: "unat DEFAULT_DELTA_CAP = 2 ^ 32" by (simp add: DEFAULT_DELTA_CAP_def)
  have eq: "k = 32" if "(2 :: nat) ^ 32 \<le> 2 ^ k" "0 < k \<longrightarrow> (2 :: nat) ^ (k - 1) < 2 ^ 32" for k
  proof -
    have "32 \<le> k" using power_le_imp_le_exp [OF _ that(1)] by simp
    moreover have "k - 1 < 32" using that(2) power_less_imp_less_exp [of 2 "k - 1" 32] calculation by simp
    ultimately show ?thesis by simp
  qed
  have "ssp_effective 0xFFFFFFD8 DEFAULT_DELTA_CAP = 0xFFFFFFD8 + 32"
  proof -
    obtain k where k: "2 ^ 32 \<le> (2 :: nat) ^ k" "0 < k \<longrightarrow> (2 :: nat) ^ (k - 1) < 2 ^ 32"
      and e: "unat (0xFFFFFFD8 :: u32) + k < 2 ^ 32 \<longrightarrow> ssp_effective 0xFFFFFFD8 DEFAULT_DELTA_CAP = unat (0xFFFFFFD8 :: u32) + k"
      using ssp_effective_covers_cap [of DEFAULT_DELTA_CAP "0xFFFFFFD8"] unfolding cap by blast
    show ?thesis using e unfolding eq [OF k] by simp
  qed
  moreover have "unat DEFAULT_DELTA_CAP * 2 ^ 40 \<le> 2 ^ ssp_effective 40 DEFAULT_DELTA_CAP"
  proof -
    obtain k where "k \<le> 64" and e: "unat (40 :: u32) + k < 2 ^ 32 \<longrightarrow>
        unat DEFAULT_DELTA_CAP * 2 ^ unat (40 :: u32) \<le> 2 ^ ssp_effective 40 DEFAULT_DELTA_CAP"
      using ssp_effective_covers_cap [of DEFAULT_DELTA_CAP 40] by blast
    then show ?thesis by simp
  qed
  ultimately show ?thesis by blast
qed

text \<open>Without that bound the parameter wraps. A target of \<open>2 ^ 32 - 32\<close>, which the request to enable a channel may name,
  gives with the default cap an effective parameter of zero.\<close>
theorem ssp_effective_wraps:
  "ssp_effective 0xFFFFFFE0 DEFAULT_DELTA_CAP = 0"
  by code_simp

text \<open>C31: A job stream delivers what was sent. The frames one side makes of a first frame and any payloads are accepted by
  the other side for the same job and channel; the payloads received, in chunks of at most the chunk size and none of
  them empty, are together the payloads sent.\<close>
theorem job_stream_in_order:
  assumes "gd_job_id g \<noteq> []" "length (gd_digest g) = 32" "ch = 1 \<or> ch = 2"
  shows "\<exists>frames rs. open_peer_job_channel g ch ps = Inr frames \<and> open_peer_job_stream frames = Inr (g, ch, rs)
    \<and> concat rs = concat ps \<and> (\<forall>r \<in> set rs. 0 < length r \<and> length r \<le> JOBSTREAM_PAYLOAD_CHUNK_BYTES)"
  using assms by (rule job_stream_delivers)

theorem job_stream_in_order_witness:
  "\<exists>frames rs. open_peer_job_channel (seven_job ''s'') 2 [[1, 2], [], [3]] = Inr frames
    \<and> open_peer_job_stream frames = Inr (seven_job ''s'', 2, rs) \<and> concat rs = [1, 2, 3]"
proof -
  have g: "gd_job_id (seven_job ''s'') \<noteq> []" "length (gd_digest (seven_job ''s'')) = 32" "(2 :: u32) = 1 \<or> (2 :: u32) = 2"
    by (simp_all add: seven_job_def value_zero_def VALUE_BYTES_def)
  have "concat [[1, 2], [], [3]] = [1, 2, 3 :: u8]" by simp
  then show ?thesis using job_stream_in_order [OF g, of "[[1, 2], [], [3]]"] by metis
qed

text \<open>C34: A task that is aborted blocks its channel. An aborted task leaves its entry among the active jobs; from then on, and
  through any further steps of the machine \<open>job_step\<close>, in which the id of a new job names no other active job, the channel
  cannot be disabled and no new job of either side starts on it. (A peer that opens a job on another channel under the
  id of the entry replaces it.)\<close>
theorem aborted_task_blocks_channel:
  assumes "jobs_inv (i, js)" "j \<in> set js" "(job_step sha256)\<^sup>*\<^sup>* (i, removeAll j js) (i', js')"
  shows "disable_channel_locked (lj_channel j) i' = Inl (FailedPrecondition, ''channel has an active precompute job'')
    \<and> (gd_channel_index g = lj_channel j \<longrightarrow> isl (begin_incoming_locked w g idx planned i'))
    \<and> begin_precompute_locked sha256 w (lj_channel j) idx peer planned i' \<noteq> Inr ((Run job, ms), i'')"
proof -
  have s: "job_step sha256 (i, js) (i, removeAll j js)" by (rule job_step.abort) (rule assms(2))
  have inv: "jobs_inv (i, removeAll j js)" using job_step_inv [OF s assms(1)] .
  have "bm_get (in_active_jobs i) (lj_job_id j) = Some (job_entry j)" "distinct (map lj_job_id js)"
    using assms(1,2) by (auto simp: jobs_inv_def)
  moreover from this have "lj_job_id j \<notin> lj_job_id ` set (removeAll j js)"
    using assms(2) by (auto simp: distinct_map dest: inj_onD)
  ultimately have "orphan (lj_channel j) (i, removeAll j js)"
    by (intro orphanI [of _ "lj_job_id j" "job_entry j"]) (simp_all add: job_entry_def)
  from orphan_blocks [OF orphan_steps [OF assms(3) inv this]]
  have "job_on_channel i' (lj_channel j)" .
  then show ?thesis using blocked_channel by blast
qed

theorem aborted_task_blocks_channel_witness:
  "\<exists>ms i'. begin_incoming_locked 2 (seven_job ''s'') (Index48 5) 60 (party_inner Alice) = Inr ((''s-target-5'', ms), i')
    \<and> disable_channel_locked 7 i' = Inl (FailedPrecondition, ''channel has an active precompute job'')"
proof -
  obtain ms i' where b: "begin_incoming_locked 2 (seven_job ''s'') (Index48 5) 60 (party_inner Alice) = Inr ((''s-target-5'', ms), i')"
    using begin_seven by blast
  let ?j = "\<lparr>lj_job_id = ''s-target-5'', lj_channel = gd_channel_index (seven_job ''s''), lj_planned = 60, lj_target = Index48 5\<rparr>"
  have n: "in_active_jobs (party_inner Alice) = []" by (simp add: party_inner_def)
  have s: "job_step zero_hash (party_inner Alice, []) (i', [?j])"
    using job_step.start_peer [OF b] n by (auto simp: bm_get_def)
  have "jobs_inv (party_inner Alice, [])"
    using party_db n by (auto simp: jobs_inv_def bm_inv_def channel_jobs_def bm_values_def units_promised_def within_cap_def seven_channel_def)
  from job_step_inv [OF s this] have inv: "jobs_inv (i', [?j])" .
  have "?j \<in> set [?j]" by simp
  from aborted_task_blocks_channel [OF inv this rtranclp.rtrancl_refl] b show ?thesis
    by (auto simp: seven_job_def)
qed

section \<open>Starting and driving\<close>

text \<open>The cookie reaches the client. Whether it is drawn anew, kept in a cookie file or read from one the daemon wrote
  before, the cookie that a client reads by way of the control file is the daemon's, with its address, unless the path of
  the cookie file itself starts like an inline cookie.\<close>
theorem control_file_roundtrip:
  assumes "load_or_create_cookie cookie_file files (Inr bs) = Inr (cookie, files')" "bs \<noteq> []"
    and "\<forall>path. cookie_file = Some path \<longrightarrow> \<not> has_prefix ''inline:'' path"
  shows "read_control_file files' (write_control_file addr cookie cookie_file) = Inr (''http://'' @ addr, cookie)"
  using assms by (rule cookie_reaches_client)

theorem control_file_roundtrip_witness:
  "read_control_file [''c'' \<mapsto> ''0aff'' @ [char_of (10 :: nat)]] (write_control_file ''h:1'' ''0aff'' (Some ''c'')) = Inr (''http://h:1'', ''0aff'')"
proof -
  have h: "to_hex [10, 255] = ''0aff''" by code_simp
  have c: "load_or_create_cookie (Some ''c'') Map.empty (Inr [10, 255]) = Inr (''0aff'', [''c'' \<mapsto> ''0aff'' @ [char_of (10 :: nat)]])"
    by (simp add: load_or_create_cookie_def random_cookie_def h del: fun_upd_apply)
  show ?thesis using control_file_roundtrip [OF c, of "''h:1''"] by (simp add: has_prefix_def)
qed

text \<open>The driver of an outgoing session answers every command once, in order. Each command before the first failed
  precomputation gets its answer on its own channel; a failed precomputation is answered with its error and is the last;
  without a failure every command is answered.\<close>
theorem driver_answers_in_order:
  "\<exists>n \<le> length commands. map fst (run_outgoing_precompute_session env commands s) = map sc_response (take n commands)
    \<and> (\<forall>k < n. (\<exists>e. snd (run_outgoing_precompute_session env commands s ! k) = Computed (Inl e)) \<longrightarrow> k = n - 1)
    \<and> (n < length commands \<longrightarrow> 0 < n \<and> (\<exists>e. snd (run_outgoing_precompute_session env commands s ! (n - 1)) = Computed (Inl e)))"
  by (rule driver_answers)

definition echo_session :: "nat outgoing_env" where
  "echo_session = \<lparr>oe_plan = (\<lambda>s _. word_of_nat s), oe_send = (\<lambda>_ s. (Inr (), Suc s)), oe_precompute = (\<lambda>_ s. (Inr node_wires, s))\<rparr>"

theorem driver_answers_in_order_witness:
  "map fst (run_outgoing_precompute_session echo_session [Plan (Index48 5) 1, Precompute (Index48 5) 2] 0) = [1, 2]"
proof -
  let ?c = "[Plan (Index48 5) 1, Precompute (Index48 5) 2]"
  have ok: "\<forall>e. snd (run_outgoing_precompute_session echo_session ?c 0 ! k) \<noteq> Computed (Inl e)" if "k < 2" for k
    using that by (auto simp: less_2_cases_iff precompute_command_def echo_session_def)
  obtain n where n: "n \<le> length ?c" "map fst (run_outgoing_precompute_session echo_session ?c 0) = map sc_response (take n ?c)"
    "n < length ?c \<longrightarrow> 0 < n \<and> (\<exists>e. snd (run_outgoing_precompute_session echo_session ?c 0 ! (n - 1)) = Computed (Inl e))"
    using driver_answers_in_order [of ?c echo_session 0] by (elim exE conjE) (rule that)
  have "n = length ?c"
  proof (rule ccontr)
    assume "n \<noteq> length ?c"
    then have l: "n < length ?c" using n(1) by simp
    then have "n - 1 < 2" by simp
    then show False using ok [of "n - 1"] n(3) l by blast
  qed
  then show ?thesis using n(2) by simp
qed

end
