(* ===== verification/Gf128.thy ===== *)
theory Gf128
  imports Compat_Types
begin

text \<open>
  The field arithmetic of \<open>reveal.rs\<close> in \<open>shachain2pc-mpc-core\<close>: multiplication in GF(2^128) modulo
  \<open>x^128 + x^7 + x^2 + x + 1\<close>, in the portable form (\<open>gf_mul_soft\<close>, four 64-bit words of product, then
  \<open>gf_reduce\<close>) and in the form that uses the carry-less multiplication of the processor
  (\<open>gf_mul_clmul\<close>), the inner product, and the packing of 128 blocks into one. The lemmas read both
  forms as one product, \<open>mul\<close>, of which they show the laws of a commutative ring.
\<close>

unbundle bit_operations_syntax

section \<open>Portable arithmetic\<close>

definition xor_at :: "nat \<Rightarrow> u64 \<Rightarrow> u64 list \<Rightarrow> u64 list" where
  \<comment> \<open>\<open>dst[i] ^= v\<close>\<close>
  "xor_at i v dst = dst[i := dst ! i XOR v]"

definition xor_shifted_u128 :: "u64 list \<Rightarrow> block \<Rightarrow> nat \<Rightarrow> u64 list" where
  "xor_shifted_u128 dst value shift =
     (let lo = ucast value; hi = ucast (drop_bit 64 value); word = shift div 64; bits = shift mod 64
      in if bits = 0 then xor_at (word + 1) hi (xor_at word lo dst)
         else let dst = xor_at word (push_bit bits lo) dst;
                  dst = xor_at (word + 1) (drop_bit (64 - bits) lo XOR push_bit bits hi) dst
              in if word + 2 < length dst then xor_at (word + 2) (drop_bit (64 - bits) hi) dst else dst)"

definition gf_bit :: "u64 list \<Rightarrow> nat \<Rightarrow> bool" where
  "gf_bit words i \<longleftrightarrow> drop_bit (i mod 64) (words ! (i div 64)) AND 1 \<noteq> 0"

definition gf_flip :: "nat \<Rightarrow> u64 list \<Rightarrow> u64 list" where
  "gf_flip i words = xor_at (i div 64) (push_bit (i mod 64) 1) words"

definition gf_reduce_step :: "nat \<Rightarrow> u64 list \<Rightarrow> u64 list" where
  "gf_reduce_step i product =
     (if gf_bit product i then
        let base = i - 128
        in gf_flip (base + 7) (gf_flip (base + 2) (gf_flip (base + 1) (gf_flip base (gf_flip i product))))
      else product)"

definition gf_reduce :: "u64 list \<Rightarrow> block" where
  "gf_reduce product =
     (let product = fold gf_reduce_step (rev [128..<256]) product
      in ucast (product ! 0) OR push_bit 64 (ucast (product ! 1)))"

definition gf_mul_soft :: "block \<Rightarrow> block \<Rightarrow> block" where
  "gf_mul_soft a b =
     gf_reduce (fold (\<lambda>i product. if drop_bit i b AND 1 \<noteq> 0 then xor_shifted_u128 product a i else product)
       [0..<128] (replicate 4 0))"

definition gf_inner_product :: "block list \<Rightarrow> block list \<Rightarrow> block option" where
  "gf_inner_product xs ys =
     (if length xs \<noteq> length ys then None
      else Some (fold (\<lambda>(l, r) acc. acc XOR gf_mul_soft l r) (zip xs ys) 0))"

definition gf_pack_128_soft :: "block list \<Rightarrow> block option" where
  "gf_pack_128_soft dat =
     (if length dat \<noteq> 128 then None
      else Some (gf_reduce (fold (\<lambda>(shift, b) product. xor_shifted_u128 product b shift) (enumerate 0 dat) (replicate 4 0))))"

section \<open>Carry-less multiplication of the processor\<close>

text \<open>The instructions on 128-bit registers: \<open>_mm_clmulepi64_si128\<close>, shifts by bytes, shifts of each half.\<close>

definition clmul64 :: "u64 \<Rightarrow> u64 \<Rightarrow> block" where
  "clmul64 x y = fold (\<lambda>i acc. if bit y i then acc XOR push_bit i (ucast x) else acc) [0..<64] 0"

definition mm_clmulepi64 :: "block \<Rightarrow> block \<Rightarrow> nat \<Rightarrow> block" where
  \<comment> \<open>bit 0 of the selector takes the half of the first operand, bit 4 that of the second\<close>
  "mm_clmulepi64 a b sel8 =
     clmul64 (ucast (if bit sel8 0 then drop_bit 64 a else a)) (ucast (if bit sel8 4 then drop_bit 64 b else b))"

definition mm_slli_si128 :: "block \<Rightarrow> nat \<Rightarrow> block" where
  "mm_slli_si128 a n = push_bit (8 * n) a"

definition mm_srli_si128 :: "block \<Rightarrow> nat \<Rightarrow> block" where
  "mm_srli_si128 a n = drop_bit (8 * n) a"

definition mm_slli_epi64 :: "block \<Rightarrow> nat \<Rightarrow> block" where
  "mm_slli_epi64 a n = block_make (push_bit n (ucast (drop_bit 64 a))) (push_bit n (ucast a))"

definition mm_srli_epi64 :: "block \<Rightarrow> nat \<Rightarrow> block" where
  "mm_srli_epi64 a n = block_make (drop_bit n (ucast (drop_bit 64 a))) (drop_bit n (ucast a))"

definition gf_fold_clmul :: "block \<Rightarrow> block \<Rightarrow> block" where
  \<comment> \<open>the last lines of \<open>gf_mul_clmul\<close> and of \<open>gf_pack_128_clmul\<close>\<close>
  "gf_fold_clmul p_lo p_hi =
     (let g = block_make 0 0x87;
          c0 = mm_clmulepi64 p_hi g 0x00; c1 = mm_clmulepi64 p_hi g 0x01;
          q_lo = c0 XOR mm_slli_si128 c1 8; q_hi = mm_srli_si128 c1 8;
          e = mm_clmulepi64 q_hi g 0x00
      in (p_lo XOR q_lo) XOR e)"

definition gf_mul_clmul :: "block \<Rightarrow> block \<Rightarrow> block" where
  "gf_mul_clmul a b =
     (let t0 = mm_clmulepi64 a b 0x00; t3 = mm_clmulepi64 a b 0x11;
          t1 = mm_clmulepi64 a b 0x01; t2 = mm_clmulepi64 a b 0x10;
          mid = t1 XOR t2;
          p_lo = t0 XOR mm_slli_si128 mid 8; p_hi = t3 XOR mm_srli_si128 mid 8
      in gf_fold_clmul p_lo p_hi)"

definition pack_octet_bit :: "block list \<Rightarrow> nat \<Rightarrow> nat \<Rightarrow> block \<times> block \<Rightarrow> block \<times> block" where
  \<comment> \<open>the macro \<open>bit!\<close>\<close>
  "pack_octet_bit dat base b = (\<lambda>(clo, chi).
     let d = dat ! (base + b); s = mm_slli_epi64 d b; c = mm_srli_epi64 d (64 - b)
     in (clo XOR (s XOR mm_slli_si128 c 8), chi XOR mm_srli_si128 c 8))"

definition pack_octet :: "block list \<Rightarrow> nat \<Rightarrow> block \<times> block \<Rightarrow> block \<times> block" where
  \<comment> \<open>the macro \<open>pack_byte!\<close>\<close>
  "pack_octet dat boff = (\<lambda>(lo, hi).
     let base = boff * 8;
         (clo, chi) = fold (pack_octet_bit dat base) [1, 2, 3, 4, 5, 6, 7] (dat ! base, 0)
     in if boff = 0 then (lo XOR clo, hi XOR chi)
        else (lo XOR mm_slli_si128 clo boff,
              hi XOR (mm_srli_si128 clo (16 - boff) XOR mm_slli_si128 chi boff)))"

definition gf_pack_128_clmul :: "block list \<Rightarrow> block option" where
  "gf_pack_128_clmul dat =
     (if length dat \<noteq> 128 then None
      else let (lo, hi) = fold (pack_octet dat) [0..<16] (0, 0) in Some (gf_fold_clmul lo hi))"

section \<open>The field as a ring of blocks\<close>

interpretation xs: comm_monoid_set "(XOR)" "0 :: block" ..

lemma F_append: "xs.F f {..<m + n} = xs.F f {..<m} XOR xs.F (\<lambda>i. f (m + i)) {..<n}" for m n :: nat
  by (induction n) (simp_all add: lessThan_Suc xor_ac)

definition xt :: "block \<Rightarrow> block" where
  \<comment> \<open>multiplication by \<open>x\<close>\<close>
  "xt b = push_bit 1 b XOR (if bit b 127 then 0x87 else 0)"

abbreviation xtn :: "nat \<Rightarrow> block \<Rightarrow> block" where
  "xtn n \<equiv> xt ^^ n"

definition mul :: "block \<Rightarrow> block \<Rightarrow> block" where
  "mul a b = xs.F (\<lambda>i. sel (bit b i) (xtn i a)) {..<128}"

lemma sel_sel [simp]: "sel b (sel c x) = sel (b \<and> c) x"
  by (simp add: sel_and)

lemma sel_commute: "sel b (sel c x) = sel c (sel b x)"
  by (simp add: conj_commute)

lemma xt_xor: "xt (a XOR b) = xt a XOR xt b"
  by (auto simp: xt_def push_bit_xor bit_xor_iff xor_ac)

lemma xt_0 [simp]: "xt 0 = 0"
  by (simp add: xt_def)

lemma xtn_xor: "xtn n (a XOR b) = xtn n a XOR xtn n b"
  by (induction n) (simp_all add: xt_xor)

lemma xtn_0 [simp]: "xtn n 0 = 0"
  by (induction n) simp_all

lemma xtn_sel: "xtn n (sel b a) = sel b (xtn n a)"
  by (cases b) simp_all

lemma xtn_xtn: "xtn m (xtn n a) = xtn (m + n) a"
  by (simp add: funpow_add)

lemma xtn_F: "xtn n (xs.F g A) = xs.F (\<lambda>i. xtn n (g i)) A"
  by (induction A rule: infinite_finite_induct) (simp_all add: xtn_xor)

lemma F_sel: "sel b (xs.F g A) = xs.F (\<lambda>i. sel b (g i)) A"
  by (cases b) simp_all

lemma xtn_push:
  assumes "\<And>i. 128 - n \<le> i \<Longrightarrow> \<not> bit a i" and "n \<le> 128"
  shows "xtn n a = push_bit n a"
  using assms
proof (induction n)
  case (Suc n)
  have "xtn n a = push_bit n a" by (rule Suc.IH) (use Suc.prems in auto)
  moreover have "\<not> bit (push_bit n a) 127" using Suc.prems(1) [of "127 - n"] Suc.prems(2) by (auto simp: bit_push_bit_iff)
  ultimately have "xtn (Suc n) a = push_bit 1 (push_bit n a)" by (simp only: funpow.simps o_apply xt_def) simp
  then show ?case by (simp only: push_bit_push_bit plus_1_eq_Suc)
qed simp

lemma xtn_1: "n < 128 \<Longrightarrow> xtn n 1 = push_bit n 1"
  by (rule xtn_push) (auto simp: bit_1_iff)

lemma xtn_128: "xtn 128 1 = 0x87"
proof -
  have "xtn (Suc 127) 1 = xt (push_bit 127 1)" by (simp only: funpow.simps o_apply xtn_1)
  also have "\<dots> = 0x87" by (simp add: xt_def)
  moreover have "(128 :: nat) = Suc 127" by simp
  ultimately show ?thesis by metis
qed

lemma take_bit_sum: "n \<le> 128 \<Longrightarrow> take_bit n a = xs.F (\<lambda>i. sel (bit a i) (xtn i 1)) {..<n}"
proof (induction n)
  case (Suc n)
  have "take_bit (Suc n) a = take_bit n a XOR sel (bit a n) (push_bit n 1)"
    by (rule bit_word_eqI) (auto simp: bit_simps less_Suc_eq simp del: push_bit_of_1)
  with Suc show ?case by (simp add: xtn_1 lessThan_Suc xor_ac)
qed simp

lemma block_sum: "a = xs.F (\<lambda>i. sel (bit a i) (xtn i 1)) {..<128}"
  using take_bit_sum [of 128 a] take_bit_word_eq_self [of 128 a] by simp

lemma mul_xor_left: "mul (a XOR a') b = mul a b XOR mul a' b"
  by (simp add: mul_def xtn_xor sel_xor xs.distrib)

lemma mul_xtn_left: "mul (xtn n a) b = xtn n (mul a b)"
  by (simp add: mul_def xtn_F xtn_sel xtn_xtn add.commute)

lemma mul_commute: "mul a b = mul b a"
proof -
  have e: "mul a b = xs.F (\<lambda>i. xs.F (\<lambda>j. sel (bit b i \<and> bit a j) (xtn (i + j) 1)) {..<128}) {..<128}" for a b
  proof -
    have "xtn i a = xs.F (\<lambda>j. sel (bit a j) (xtn (i + j) 1)) {..<128}" for i
      by (subst block_sum [of a]) (simp add: xtn_F xtn_sel xtn_xtn)
    then show ?thesis by (simp add: mul_def F_sel)
  qed
  show ?thesis unfolding e [of a b] e [of b a] by (subst xs.swap) (simp add: conj_commute add.commute)
qed

lemma mul_xor_right: "mul a (b XOR b') = mul a b XOR mul a b'"
  by (simp add: mul_commute [of a] mul_xor_left)

lemma mul_0 [simp]: "mul 0 b = 0" "mul a 0 = 0"
  by (simp_all add: mul_def xs.neutral)

lemma mul_1 [simp]: "mul 1 b = b" "mul b 1 = b"
  using block_sum [of b] mul_commute [of b 1] by (simp_all add: mul_def)

lemma mul_sel: "mul (sel c a) b = sel c (mul a b)" "mul a (sel c b) = sel c (mul a b)"
  by (cases c; simp)+

lemma mul_F_left: "mul (xs.F g A) b = xs.F (\<lambda>i. mul (g i) b) A"
  by (induction A rule: infinite_finite_induct) (simp_all add: mul_xor_left)

lemma mul_F_right: "mul a (xs.F g A) = xs.F (\<lambda>i. mul a (g i)) A"
  by (simp add: mul_commute [of a] mul_F_left)

lemma mul_xtn_right: "mul a (xtn n b) = xtn n (mul a b)"
  by (simp add: mul_commute [of a] mul_xtn_left)

lemma mul_assoc: "mul (mul a b) c = mul a (mul b c)"
proof -
  have "mul (mul a b) c = xs.F (\<lambda>i. mul a (sel (bit c i) (xtn i b))) {..<128}"
    by (simp add: mul_def [of "mul a b"] mul_sel mul_xtn_right)
  then show ?thesis by (simp add: mul_F_right mul_def [of b])
qed

lemma xtn_mul: "xtn n a = mul (xtn n 1) a"
  by (simp add: mul_xtn_left)

text \<open>So the blocks with \<open>XOR\<close> and \<open>mul\<close> are a commutative ring.\<close>

interpretation gf: comm_monoid_set mul 1
  by unfold_locales (simp_all add: mul_assoc, rule mul_commute)

lemmas mul_ac = gf.assoc gf.commute gf.left_commute

section \<open>The portable form\<close>

definition pv :: "u64 list \<Rightarrow> block" where
  \<comment> \<open>the element of the field that the words of a product stand for\<close>
  "pv ws = xs.F (\<lambda>k. xtn (64 * k) (ucast (ws ! k))) {..<length ws}"

lemma ucast_xor64: "(ucast ((a :: u64) XOR b) :: block) = ucast a XOR ucast b"
  by (rule bit_word_eqI) (auto simp: bit_simps)

lemma length_xor_at [simp]: "length (xor_at k v ws) = length ws"
  by (simp add: xor_at_def)

lemma pv_xor_at:
  assumes "k < length ws"
  shows "pv (xor_at k v ws) = pv ws XOR xtn (64 * k) (ucast v)"
proof -
  let ?A = "{..<length ws} - {k}"
  have A: "{..<length ws} = insert k ?A" "finite ?A" "k \<notin> ?A" using assms by auto
  have e: "xs.F (\<lambda>i. xtn (64 * i) (ucast (xor_at k v ws ! i))) ?A = xs.F (\<lambda>i. xtn (64 * i) (ucast (ws ! i))) ?A"
    by (rule xs.cong) (auto simp: xor_at_def)
  have "ucast (xor_at k v ws ! k) = (ucast (ws ! k) XOR ucast v :: block)"
    using assms by (simp add: xor_at_def ucast_xor64)
  then show ?thesis unfolding pv_def length_xor_at
    by (subst (1 2) A(1)) (simp only: xs.insert [OF A(2,3)] e xtn_xor xor_ac)
qed

lemma xtn_ucast: "n \<le> 64 \<Longrightarrow> xtn n (ucast (v :: u64)) = push_bit n (ucast v)"
  by (rule xtn_push) (auto simp: bit_simps dest: bit_imp_le_length)

lemma xtn_split:
  assumes "0 < n" "n < 64"
  shows "xtn n (ucast (v :: u64)) = ucast (push_bit n v) XOR xtn 64 (ucast (drop_bit (64 - n) v))"
  unfolding xtn_ucast [OF less_imp_le [OF assms(2)]] xtn_ucast [OF order_refl]
  by (rule bit_word_eqI) (use assms in \<open>auto simp: bit_simps dest: bit_imp_le_length\<close>)

lemma block_halves: "v = ucast (ucast v :: u64) XOR xtn 64 (ucast (ucast (drop_bit 64 v) :: u64))"
  unfolding xtn_ucast [OF order_refl]
  by (rule bit_word_eqI) (auto simp: bit_simps)

lemma pv_xor_shifted:
  assumes "length ws = 4" and "s < 128"
  shows "pv (xor_shifted_u128 ws v s) = pv ws XOR xtn s v" and "length (xor_shifted_u128 ws v s) = 4"
proof -
  define w b where wb: "w = s div 64" "b = s mod 64"
  define lo hi where lh: "lo = (ucast v :: u64)" "hi = (ucast (drop_bit 64 v) :: u64)"
  have s: "s = 64 * w + b" "w < 2" "b < 64" using assms(2) by (auto simp: wb)
  have v: "xtn s v = xtn (64 * w) (xtn b (ucast lo)) XOR xtn (64 * (w + 1)) (xtn b (ucast hi))"
    by (subst block_halves [of v], simp only: s(1) xtn_xor xtn_xtn lh) (simp add: ac_simps)
  have p: "xtn (64 * k) (xtn b (ucast x)) = xtn (64 * k) (ucast (push_bit b x)) XOR xtn (64 * (k + 1)) (ucast (drop_bit (64 - b) x))"
    if "0 < b" for k and x :: u64
    using xtn_split [OF that s(3), of x] by (simp add: xtn_xor xtn_xtn ac_simps)
  have "pv (xor_shifted_u128 ws v s) = pv ws XOR xtn s v \<and> length (xor_shifted_u128 ws v s) = 4"
  proof (cases "b = 0")
    case True
    then have "xor_shifted_u128 ws v s = xor_at (w + 1) hi (xor_at w lo ws)"
      by (simp add: xor_shifted_u128_def Let_def flip: wb lh)
    with True show ?thesis using assms(1) s(2) by (simp add: v pv_xor_at xor_ac)
  next
    case False
    then have "xor_shifted_u128 ws v s = xor_at (w + 2) (drop_bit (64 - b) hi)
        (xor_at (w + 1) (drop_bit (64 - b) lo XOR push_bit b hi) (xor_at w (push_bit b lo) ws))"
      using assms(1) s(2) by (simp add: xor_shifted_u128_def Let_def flip: wb lh)
    with False show ?thesis using assms(1) s(2)
      by (simp only: v p) (simp add: pv_xor_at ucast_xor64 xtn_xor xor_ac add.assoc)
  qed
  then show "pv (xor_shifted_u128 ws v s) = pv ws XOR xtn s v" and "length (xor_shifted_u128 ws v s) = 4" by auto
qed

lemma gf_bit_iff: "gf_bit ws i \<longleftrightarrow> bit (ws ! (i div 64)) (i mod 64)"
  by (simp add: gf_bit_def and_1_eq_of_bool bit_drop_bit_eq)

lemma gf_flip:
  assumes "length ws = 4" "i < 256"
  shows "pv (gf_flip i ws) = pv ws XOR xtn i 1" "length (gf_flip i ws) = 4"
    "j < 256 \<Longrightarrow> gf_bit (gf_flip i ws) j \<longleftrightarrow> gf_bit ws j \<noteq> (i = j)"
proof -
  have k: "i div 64 < 4" using assms by auto
  have "ucast (push_bit (i mod 64) (1 :: u64)) = (push_bit (i mod 64) 1 :: block)"
    by (rule bit_word_eqI) (auto simp: bit_simps simp del: push_bit_of_1)
  then have "xtn (64 * (i div 64)) (ucast (push_bit (i mod 64) (1 :: u64))) = xtn i 1"
    by (simp only: xtn_1 [of "i mod 64", symmetric] xtn_xtn mult_div_mod_eq)
  with k show "pv (gf_flip i ws) = pv ws XOR xtn i 1" using assms(1) by (simp add: gf_flip_def pv_xor_at del: push_bit_of_1)
  show "length (gf_flip i ws) = 4" using assms by (simp add: gf_flip_def)
  show "gf_bit (gf_flip i ws) j \<longleftrightarrow> gf_bit ws j \<noteq> (i = j)" if "j < 256"
  proof -
    have "i = j \<longleftrightarrow> i div 64 = j div 64 \<and> i mod 64 = j mod 64" by (metis div_mult_mod_eq)
    then show ?thesis using k that assms(1)
      by (auto simp: gf_flip_def xor_at_def gf_bit_iff nth_list_update bit_xor_iff bit_push_bit_iff bit_1_iff simp del: push_bit_of_1)
  qed
qed

lemma xtn_128_terms: "xtn 128 1 = ((1 XOR xtn 1 1) XOR xtn 2 1) XOR xtn 7 1"
  unfolding xtn_128 by (simp add: xtn_1 xt_def)

lemma gf_reduce_step:
  assumes "length ws = 4" "128 \<le> i" "i < 256" and hi: "\<And>j. i < j \<Longrightarrow> j < 256 \<Longrightarrow> \<not> gf_bit ws j"
  shows "pv (gf_reduce_step i ws) = pv ws" "length (gf_reduce_step i ws) = 4"
    "i \<le> j \<Longrightarrow> j < 256 \<Longrightarrow> \<not> gf_bit (gf_reduce_step i ws) j"
proof -
  define b where "b = i - 128"
  have i: "i = b + 128" "b < 128" using assms by (auto simp: b_def)
  have x: "xtn i 1 = xtn b 1 XOR xtn (b + 1) 1 XOR xtn (b + 2) 1 XOR xtn (b + 7) 1"
    by (simp only: i(1) xtn_128_terms xtn_xor xtn_xtn flip: xtn_xtn [of b 128]) (simp add: xtn_xtn xor_ac)
  show "pv (gf_reduce_step i ws) = pv ws"
    using assms(1,3) i(2) by (simp add: gf_reduce_step_def Let_def gf_flip x xor_ac flip: b_def)
  show "length (gf_reduce_step i ws) = 4"
    using assms(1,3) i(2) by (simp add: gf_reduce_step_def Let_def gf_flip flip: b_def)
  show "\<not> gf_bit (gf_reduce_step i ws) j" if "i \<le> j" "j < 256"
    using assms(1,3) i that hi [of j] by (cases "i = j") (auto simp: gf_reduce_step_def Let_def gf_flip simp flip: b_def)
qed

lemma gf_reduce_fold:
  assumes "length ws = 4" "128 \<le> m" "m \<le> 256"
  shows "pv (fold gf_reduce_step (rev [m..<256]) ws) = pv ws \<and> length (fold gf_reduce_step (rev [m..<256]) ws) = 4
    \<and> (\<forall>j. m \<le> j \<longrightarrow> j < 256 \<longrightarrow> \<not> gf_bit (fold gf_reduce_step (rev [m..<256]) ws) j)"
  using assms(3,2)
proof (induction rule: inc_induct)
  case base
  then show ?case using assms(1) by simp
next
  case (step n)
  let ?v = "fold gf_reduce_step (rev [Suc n..<256]) ws"
  have IH: "pv ?v = pv ws" "length ?v = 4" "\<And>j. n < j \<Longrightarrow> j < 256 \<Longrightarrow> \<not> gf_bit ?v j"
    using step.IH step.prems by auto
  have e: "fold gf_reduce_step (rev [n..<256]) ws = gf_reduce_step n ?v"
    using step.hyps by (simp add: upt_conv_Cons)
  show ?case unfolding e
    using gf_reduce_step [OF IH(2) step.prems step.hyps(2) IH(3)] by (simp add: IH)
qed

lemma gf_reduce:
  assumes "length ws = 4"
  shows "gf_reduce ws = pv ws"
proof -
  define v where "v = fold gf_reduce_step (rev [128..<256]) ws"
  have v: "pv v = pv ws" "length v = 4" and hi: "\<And>j. 128 \<le> j \<Longrightarrow> j < 256 \<Longrightarrow> \<not> gf_bit v j"
    using gf_reduce_fold [OF assms, of 128] by (simp_all add: v_def)
  have "v ! k = 0" if "k = 2 \<or> k = 3" for k
  proof (rule bit_word_eqI)
    fix n assume "n < LENGTH(64)"
    then have "(64 * k + n) div 64 = k" "(64 * k + n) mod 64 = n" by auto
    then show "bit (v ! k) n = bit (0 :: u64) n"
      using hi [of "64 * k + n"] that \<open>n < LENGTH(64)\<close> by (auto simp: gf_bit_iff)
  qed
  moreover have "{..<4 :: nat} = {0, 1, 2, 3}" by auto
  ultimately have "pv v = ucast (v ! 0) XOR push_bit 64 (ucast (v ! 1))"
    by (simp add: pv_def v(2) xtn_ucast)
  moreover have "\<dots> = ucast (v ! 0) OR push_bit 64 (ucast (v ! 1))"
    by (rule bit_word_eqI) (auto simp: bit_simps dest: bit_imp_le_length)
  ultimately show ?thesis using v(1) by (simp only: gf_reduce_def Let_def flip: v_def)
qed

lemma pv_zero [simp]: "pv (replicate 4 0) = 0"
  by (auto simp: pv_def intro!: xs.neutral)

lemma gf_mul_soft: "gf_mul_soft a b = mul a b"
proof -
  define f where "f i ws = (if drop_bit i b AND 1 \<noteq> 0 then xor_shifted_u128 ws a i else ws)" for i ws
  have "pv (fold f [0..<n] (replicate 4 0)) = xs.F (\<lambda>i. sel (bit b i) (xtn i a)) {..<n}
      \<and> length (fold f [0..<n] (replicate 4 0)) = 4" if "n \<le> 128" for n
    using that
  proof (induction n)
    case (Suc n)
    then show ?case
      by (cases "bit b n") (simp_all add: f_def pv_xor_shifted lessThan_Suc and_1_eq_of_bool bit_drop_bit_eq xor_ac)
  qed simp
  moreover have "gf_mul_soft a b = gf_reduce (fold f [0..<128] (replicate 4 0))" by (simp add: gf_mul_soft_def f_def [abs_def])
  ultimately show ?thesis by (simp add: mul_def gf_reduce)
qed

lemma fold_xor_F: "fold (\<lambda>i acc. acc XOR f i) [0..<n] z = z XOR xs.F f {..<n}"
  by (induction n) (simp_all add: lessThan_Suc xor_ac)

definition pack :: "block list \<Rightarrow> block" where
  "pack dat = xs.F (\<lambda>i. xtn i (dat ! i)) {..<128}"

lemma gf_pack_soft:
  assumes "length dat = 128"
  shows "gf_pack_128_soft dat = Some (pack dat)"
proof -
  define f where "f = (\<lambda>(shift, b) product. xor_shifted_u128 product b shift)"
  have e: "enumerate 0 dat = map (\<lambda>i. (i, dat ! i)) [0..<128]"
    by (rule nth_equalityI) (auto simp: assms nth_enumerate_eq)
  have "pv (fold f (map (\<lambda>i. (i, dat ! i)) [0..<n]) (replicate 4 0)) = xs.F (\<lambda>i. xtn i (dat ! i)) {..<n}
      \<and> length (fold f (map (\<lambda>i. (i, dat ! i)) [0..<n]) (replicate 4 0)) = 4" if "n \<le> 128" for n
    using that
  proof (induction n)
    case (Suc n)
    then show ?case by (simp add: f_def pv_xor_shifted lessThan_Suc xor_ac)
  qed simp
  from this [of 128] show ?thesis by (simp add: gf_pack_128_soft_def assms pack_def e gf_reduce f_def)
qed

lemma gf_inner:
  assumes "length xs = n" "length ys = n"
  shows "gf_inner_product xs ys = Some (xs.F (\<lambda>i. mul (xs ! i) (ys ! i)) {..<n})"
proof -
  have "zip xs ys = map (\<lambda>i. (xs ! i, ys ! i)) [0..<n]" by (rule nth_equalityI) (auto simp: assms)
  then show ?thesis using assms fold_xor_F [of "\<lambda>i. mul (xs ! i) (ys ! i)" n 0]
    by (simp add: gf_inner_product_def gf_mul_soft fold_map o_def)
qed

section \<open>The form with processor instructions\<close>

lemma bit_u64_high: "64 \<le> i \<Longrightarrow> \<not> bit (y :: u64) i"
  by (auto dest: bit_imp_le_length)

lemma clmul64: "clmul64 x y = mul (ucast x) (ucast y)"
proof -
  have "fold (\<lambda>i acc. if bit y i then acc XOR push_bit i (ucast x) else acc) [0..<n] 0
      = xs.F (\<lambda>i. sel (bit y i) (xtn i (ucast x))) {..<n}" if "n \<le> 64" for n
    using that
  proof (induction n)
    case (Suc n)
    then show ?case by (simp add: lessThan_Suc xtn_ucast xor_ac)
  qed simp
  moreover have "mul (ucast x) (ucast y) = xs.F (\<lambda>i. sel (bit y i) (xtn i (ucast x))) {..<64}" unfolding mul_def
    by (rule xs.mono_neutral_cong_right) (auto simp: bit_simps bit_u64_high)
  ultimately show ?thesis by (simp add: clmul64_def)
qed

definition lo64 :: "block \<Rightarrow> block" where
  "lo64 a = take_bit 64 a"

definition hi64 :: "block \<Rightarrow> block" where
  "hi64 a = drop_bit 64 a"

lemma halves: "a = lo64 a XOR xtn 64 (hi64 a)"
proof -
  have "take_bit 64 (drop_bit 64 a) = drop_bit 64 a"
    by (rule bit_word_eqI) (auto simp: bit_simps dest: bit_imp_le_length)
  then show ?thesis using block_halves [of a] by (simp add: lo64_def hi64_def unsigned_ucast_eq)
qed

lemma mm_clmul:
  "mm_clmulepi64 a b sel8 = mul (if bit sel8 0 then hi64 a else lo64 a) (if bit sel8 4 then hi64 b else lo64 b)"
proof -
  have "ucast (ucast (drop_bit 64 a) :: u64) = drop_bit 64 a" for a :: block
    by (rule bit_word_eqI) (auto simp: bit_simps dest: bit_imp_le_length)
  then show ?thesis by (simp add: mm_clmulepi64_def clmul64 hi64_def lo64_def unsigned_ucast_eq)
qed

text \<open>The part of a shift by bytes that leaves the register comes back as a multiple of \<open>x^128\<close>.\<close>

lemma push_overflow:
  assumes "n \<le> 128"
  shows "xtn n a = push_bit n a XOR xtn 128 (drop_bit (128 - n) a)"
proof -
  have a: "a = take_bit (128 - n) a XOR push_bit (128 - n) (drop_bit (128 - n) a)"
    by (rule bit_word_eqI) (auto simp: bit_simps)
  have "xtn n (take_bit (128 - n) a) = push_bit n (take_bit (128 - n) a)" by (rule xtn_push) (auto simp: bit_simps assms)
  also have "\<dots> = push_bit n a" by (rule bit_word_eqI) (use assms in \<open>auto simp: bit_simps\<close>)
  moreover have "push_bit (128 - n) (drop_bit (128 - n) a) = xtn (128 - n) (drop_bit (128 - n) a)"
    by (rule xtn_push [symmetric]) (auto simp: bit_simps dest: bit_imp_le_length)
  then have "xtn n (push_bit (128 - n) (drop_bit (128 - n) a)) = xtn 128 (drop_bit (128 - n) a)"
    using assms by (simp add: xtn_xtn)
  ultimately show ?thesis by (subst a) (simp only: xtn_xor)
qed

lemma xtn_128_mul: "xtn 128 a = mul a (0x87)"
  by (subst xtn_mul) (simp only: xtn_128 mul_commute)

lemma gf_fold_clmul: "gf_fold_clmul p_lo p_hi = p_lo XOR xtn 128 p_hi"
proof -
  let ?g = "0x87 :: block"
  have g: "block_make 0 0x87 = ?g" "lo64 ?g = ?g" by (simp_all add: block_make_def lo64_def)
  define c1 where "c1 = mul (hi64 p_hi) ?g"
  have sel: "bit (Suc 0) 0" "bit (0x01 :: nat) 0" "\<not> bit (0x01 :: nat) 4" "\<not> bit (0 :: nat) n" for n by (simp_all add: bit_iff_odd)
  have q: "drop_bit 64 c1 = lo64 (drop_bit 64 c1)"
    by (rule bit_word_eqI) (auto simp: lo64_def bit_simps dest: bit_imp_le_length)
  have "xtn 128 p_hi = mul (lo64 p_hi) ?g XOR xtn 64 c1"
    unfolding xtn_128_mul by (subst halves [of p_hi]) (simp only: mul_xor_left mul_xtn_left c1_def)
  also have "xtn 64 c1 = push_bit 64 c1 XOR mul (lo64 (drop_bit 64 c1)) ?g"
    using push_overflow [of 64 c1] q by (simp add: xtn_128_mul)
  finally show ?thesis
    by (simp add: gf_fold_clmul_def Let_def g mm_clmul sel mm_slli_si128_def mm_srli_si128_def xor_ac flip: c1_def)
qed

lemma gf_mul_clmul: "gf_mul_clmul a b = mul a b"
proof -
  define mid where "mid = mul (hi64 a) (lo64 b) XOR mul (lo64 a) (hi64 b)"
  have sel: "bit (Suc 0) 0" "bit (0x01 :: nat) 0" "\<not> bit (0x01 :: nat) 4" "\<not> bit (0x10 :: nat) 0" "bit (0x10 :: nat) 4" "bit (0x11 :: nat) 0"
    "bit (0x11 :: nat) 4" "\<not> bit (0 :: nat) n" for n by (simp_all add: bit_iff_odd)
  have "mul a b = mul (lo64 a) (lo64 b) XOR xtn 64 mid XOR xtn 128 (mul (hi64 a) (hi64 b))"
    by (subst halves [of a], subst halves [of b])
      (simp add: mul_xor_left mul_xor_right mul_xtn_left mul_xtn_right xtn_xtn mid_def xtn_xor xor_ac)
  also have "xtn 64 mid = push_bit 64 mid XOR xtn 128 (drop_bit 64 mid)" using push_overflow [of 64 mid] by simp
  finally show ?thesis
    by (simp add: gf_mul_clmul_def Let_def gf_fold_clmul mm_clmul sel mm_slli_si128_def mm_srli_si128_def xtn_xor mid_def push_bit_xor drop_bit_xor xor_ac)
qed

lemma pack_shift:
  assumes "0 < b" "b < 64"
  shows "mm_slli_epi64 d b XOR mm_slli_si128 (mm_srli_epi64 d (64 - b)) 8 = push_bit b d"
    and "mm_srli_si128 (mm_srli_epi64 d (64 - b)) 8 = drop_bit (128 - b) d"
  by (rule bit_word_eqI; use assms in \<open>auto simp: mm_slli_epi64_def mm_srli_epi64_def mm_slli_si128_def mm_srli_si128_def
      block_make_def bit_simps dest: bit_imp_le_length\<close>)+

lemma pack_bits:
  assumes "m \<le> 7"
  shows "\<exists>clo chi. fold (pack_octet_bit dat base) [1..<Suc m] (dat ! base, 0) = (clo, chi)
    \<and> clo XOR xtn 128 chi = xs.F (\<lambda>b. xtn b (dat ! (base + b))) {..<Suc m} \<and> (\<forall>i \<ge> 8. \<not> bit chi i)"
  using assms
proof (induction m)
  case (Suc m)
  then obtain clo chi where st: "fold (pack_octet_bit dat base) [1..<Suc m] (dat ! base, 0) = (clo, chi)"
    and v: "clo XOR xtn 128 chi = xs.F (\<lambda>b. xtn b (dat ! (base + b))) {..<Suc m}" and small: "\<forall>i \<ge> 8. \<not> bit chi i" by auto
  let ?b = "Suc m" and ?d = "dat ! (base + Suc m)"
  have b: "0 < ?b" "?b < 64" "?b \<le> 128" using Suc.prems by auto
  have step: "fold (pack_octet_bit dat base) [1..<Suc ?b] (dat ! base, 0) = (clo XOR push_bit ?b ?d, chi XOR drop_bit (128 - ?b) ?d)"
  proof -
    have "[1..<Suc ?b] = [1..<?b] @ [?b]" by simp
    then show ?thesis
      by (simp only: fold_append o_apply st fold_simps) (simp only: pack_octet_bit_def Let_def prod.case pack_shift [OF b(1,2)])
  qed
  have "(clo XOR push_bit ?b ?d) XOR xtn 128 (chi XOR drop_bit (128 - ?b) ?d) = (clo XOR xtn 128 chi) XOR xtn ?b ?d"
    unfolding push_overflow [OF b(3), of ?d] by (simp only: xtn_xor xor_ac)
  also have "\<dots> = xs.F (\<lambda>b. xtn b (dat ! (base + b))) {..<Suc ?b}" by (simp only: v lessThan_Suc [of ?b]) (simp add: xor_ac)
  finally have "(clo XOR push_bit ?b ?d) XOR xtn 128 (chi XOR drop_bit (128 - ?b) ?d) = \<dots>" .
  moreover have "\<forall>i \<ge> 8. \<not> bit (chi XOR drop_bit (128 - ?b) ?d) i"
    using small Suc.prems by (auto simp: bit_simps dest: bit_imp_le_length)
  ultimately show ?case using step by blast
qed simp

lemma pack_octet_value:
  assumes "n < 16"
  shows "\<exists>lo' hi'. pack_octet dat n (lo, hi) = (lo', hi')
    \<and> lo' XOR xtn 128 hi' = (lo XOR xtn 128 hi) XOR xs.F (\<lambda>b. xtn (8 * n + b) (dat ! (8 * n + b))) {..<8}"
proof -
  have l: "[1, 2, 3, 4, 5, 6, 7] = [1..<Suc 7]" by (simp add: upt_rec)
  obtain clo chi where b: "fold (pack_octet_bit dat (n * 8)) [1, 2, 3, 4, 5, 6, 7] (dat ! (n * 8), 0) = (clo, chi)"
    and c: "clo XOR xtn 128 chi = xs.F (\<lambda>b. xtn b (dat ! (n * 8 + b))) {..<8}" and small: "\<forall>i \<ge> 8. \<not> bit chi i"
    using pack_bits [of 7 dat "n * 8"] unfolding l by auto
  have n: "8 * n \<le> 128" using assms by simp
  have "xtn (8 * n) chi = push_bit (8 * n) chi" by (rule xtn_push) (use small assms in auto)
  then have "xtn (8 * n) (xtn 128 chi) = xtn 128 (push_bit (8 * n) chi)" by (metis add.commute xtn_xtn)
  then have "xtn (8 * n) (clo XOR xtn 128 chi) = push_bit (8 * n) clo XOR xtn 128 (drop_bit (128 - 8 * n) clo XOR push_bit (8 * n) chi)"
    by (simp only: xtn_xor push_overflow [OF n, of clo] xor_ac)
  then have "(lo XOR push_bit (8 * n) clo) XOR xtn 128 (hi XOR (drop_bit (128 - 8 * n) clo XOR push_bit (8 * n) chi))
      = (lo XOR xtn 128 hi) XOR xs.F (\<lambda>b. xtn (8 * n + b) (dat ! (8 * n + b))) {..<8}"
    by (simp only: c xtn_F xtn_xtn mult.commute [of n 8]) (simp only: xtn_xor xor_ac)
  moreover have "pack_octet dat n (lo, hi) = (lo XOR push_bit (8 * n) clo, hi XOR (drop_bit (128 - 8 * n) clo XOR push_bit (8 * n) chi))"
  proof -
    have z: "drop_bit 128 clo = 0" by (rule bit_word_eqI) (auto simp: bit_simps dest: bit_imp_le_length)
    show ?thesis unfolding pack_octet_def Let_def prod.case b
      by (cases "n = 0") (simp_all add: z mm_slli_si128_def mm_srli_si128_def diff_mult_distrib2)
  qed
  ultimately show ?thesis by auto
qed

lemma gf_pack_clmul:
  assumes "length dat = 128"
  shows "gf_pack_128_clmul dat = Some (pack dat)"
proof -
  have "\<exists>lo hi. fold (pack_octet dat) [0..<n] (0, 0) = (lo, hi) \<and> lo XOR xtn 128 hi = xs.F (\<lambda>i. xtn i (dat ! i)) {..<8 * n}"
    if "n \<le> 16" for n
    using that
  proof (induction n)
    case (Suc n)
    then obtain lo hi where st: "fold (pack_octet dat) [0..<n] (0, 0) = (lo, hi)"
      and v: "lo XOR xtn 128 hi = xs.F (\<lambda>i. xtn i (dat ! i)) {..<8 * n}" by auto
    have "xs.F (\<lambda>i. xtn i (dat ! i)) {..<8 * n} XOR xs.F (\<lambda>b. xtn (8 * n + b) (dat ! (8 * n + b))) {..<8}
        = xs.F (\<lambda>i. xtn i (dat ! i)) {..<8 * Suc n}"
      using F_append [of "\<lambda>i. xtn i (dat ! i)" "8 * n" 8] by (simp add: ac_simps)
    with pack_octet_value [of n dat lo hi] Suc.prems show ?case by (auto simp: st v)
  qed simp
  from this [of 16] show ?thesis by (auto simp: gf_pack_128_clmul_def assms gf_fold_clmul pack_def)
qed

text \<open>C37: The arithmetic of the correlation check does not depend on the build: the multiplication with carry-less
  instructions and the one over four 64-bit words give the same product for all operands, and the two forms of packing
  128 blocks into one agree on every input, the ones they reject included.\<close>
theorem gf_builds_agree:
  "gf_mul_clmul a b = gf_mul_soft a b \<and> gf_pack_128_clmul dat = gf_pack_128_soft dat"
proof
  show "gf_mul_clmul a b = gf_mul_soft a b" by (simp add: gf_mul_clmul gf_mul_soft)
  show "gf_pack_128_clmul dat = gf_pack_128_soft dat"
    by (cases "length dat = 128") (simp_all add: gf_pack_clmul gf_pack_soft, simp add: gf_pack_128_clmul_def gf_pack_128_soft_def)
qed

end
