(* ===== verification/Bit_Transpose.thy ===== *)
theory Bit_Transpose
  imports Prg_Hash
begin

text \<open>
  The transposition of a bit matrix of 128 rows (\<open>softspoken.rs\<close> of \<open>shachain2pc-mpc-core\<close>): tiles of
  16 by 16 bytes are transposed in registers by four rounds of interleaving, then the bits of each
  byte column are peeled off with comparisons. A register of 16 bytes is the list of its bytes; read
  at a wider lane it is the list of its groups of bytes. The last lemma says that the result is the
  transposed matrix.
\<close>

unbundle bit_operations_syntax

section \<open>Registers\<close>

definition interleave :: "'a list \<Rightarrow> 'a list \<Rightarrow> 'a list \<times> 'a list" where
  \<comment> \<open>\<open>Simd::interleave\<close>\<close>
  "interleave a b = (let z = concat (map2 (\<lambda>x y. [x, y]) a b) in (take (length a) z, drop (length a) z))"

definition lanes :: "nat \<Rightarrow> 'a list \<Rightarrow> 'a list list" where
  \<comment> \<open>the register read with lanes of \<open>w\<close> bytes; \<open>concat\<close> reads it back as bytes\<close>
  "lanes w xs = map (\<lambda>i. take w (drop (w * i) xs)) [0..<length xs div w]"

definition interleave_lanes :: "nat \<Rightarrow> 'a list \<Rightarrow> 'a list \<Rightarrow> 'a list list" where
  "interleave_lanes w a b = (let (lo, hi) = interleave (lanes w a) (lanes w b) in [concat lo, concat hi])"

definition transpose_16x16_bytes :: "'a list list \<Rightarrow> 'a list list" where
  "transpose_16x16_bytes m =
     (let t = concat (map (\<lambda>i. interleave_lanes 1 (m ! (2 * i)) (m ! (2 * i + 1))) [0..<8]);
          u = concat (map (\<lambda>i. interleave_lanes 2 (t ! (4 * i)) (t ! (4 * i + 2))
                             @ interleave_lanes 2 (t ! (4 * i + 1)) (t ! (4 * i + 3))) [0..<4]);
          v = concat (map (\<lambda>i. concat (map (\<lambda>k. interleave_lanes 4 (u ! (8 * i + k)) (u ! (8 * i + k + 4))) [0..<4])) [0..<2])
      in concat (map (\<lambda>k. interleave_lanes 8 (v ! k) (v ! (k + 8))) [0..<8]))"

section \<open>The matrix\<close>

definition set_bytes2 :: "nat \<Rightarrow> u8 \<Rightarrow> u8 \<Rightarrow> block \<Rightarrow> block" where
  "set_bytes2 i b0 b1 w = block_from_bytes ((block_bytes w)[i := b0, i + 1 := b1])"

definition to_bitmask :: "bool list \<Rightarrow> u16" where
  "to_bitmask bs = fold (\<lambda>i w. if bs ! i then w OR push_bit i 1 else w) [0..<length bs] 0"

definition emit_bit :: "nat \<Rightarrow> nat \<Rightarrow> nat \<Rightarrow> block list \<times> bytes \<Rightarrow> block list \<times> bytes" where
  "emit_bit source_byte row_group b = (\<lambda>(out, col).
     let m = to_bitmask (map (\<lambda>x. 0x80 \<le> x) col); at = source_byte * 8 + b
     in (out[at := set_bytes2 (row_group * 2) (ucast m) (ucast (drop_bit 8 m)) (out ! at)], map (push_bit 1) col))"

definition transpose_emit_column :: "bytes \<Rightarrow> nat \<Rightarrow> nat \<Rightarrow> block list \<Rightarrow> block list" where
  "transpose_emit_column col source_byte row_group out =
     fst (fold (emit_bit source_byte row_group) (rev [0..<8]) (out, col))"

definition transpose_tile :: "bytes \<Rightarrow> nat \<Rightarrow> nat \<Rightarrow> nat \<Rightarrow> block list \<Rightarrow> block list" where
  "transpose_tile rows row_bytes rg cg out =
     (let m = map (\<lambda>r. take 16 (drop ((rg * 16 + r) * row_bytes + cg * 16) rows)) [0..<16];
          cols = transpose_16x16_bytes m
      in fold (\<lambda>(c, col). transpose_emit_column col (cg * 16 + c) rg) (enumerate 0 cols) out)"

definition transpose_tail_column :: "bytes \<Rightarrow> nat \<Rightarrow> nat \<Rightarrow> nat \<Rightarrow> block list \<Rightarrow> block list" where
  "transpose_tail_column rows row_bytes source_byte rg out =
     (let base = rg * 16; lane = map (\<lambda>i. rows ! ((base + i) * row_bytes + source_byte)) [0..<16]
      in transpose_emit_column lane source_byte rg out)"

definition transpose_128_rows :: "bytes \<Rightarrow> nat \<Rightarrow> nat \<Rightarrow> block list" where
  "transpose_128_rows rows row_bytes output_len =
     (let out = replicate output_len 0; col_tiles = row_bytes div 16;
          out = fold (\<lambda>rg out. fold (transpose_tile rows row_bytes rg) [0..<col_tiles] out) [0..<128 div 16] out
      in fold (\<lambda>source_byte out. fold (transpose_tail_column rows row_bytes source_byte) [0..<128 div 16] out)
           [col_tiles * 16..<row_bytes] out)"

definition transpose_softspoken_planes :: "block list \<Rightarrow> nat \<Rightarrow> block list" where
  "transpose_softspoken_planes planes bs =
     transpose_128_rows (slice_as_bytes planes) (bs * BLOCK_BYTES) (bs * 128)"

section \<open>The result is the transposed matrix\<close>

lemma transpose_16x16:
  fixes f :: "nat \<Rightarrow> nat \<Rightarrow> u8"
  shows "transpose_16x16_bytes (map (\<lambda>i. map (f i) [0..<16]) [0..<16]) = map (\<lambda>j. map (\<lambda>i. f i j) [0..<16]) [0..<16]"
  by code_simp

lemma bit_to_bitmask: "bit (to_bitmask bs) i \<longleftrightarrow> i < 16 \<and> i < length bs \<and> bs ! i"
proof -
  have "bit (fold (\<lambda>i w. if bs ! i then w OR push_bit i 1 else w) [0..<n] (0 :: u16)) i \<longleftrightarrow> i < 16 \<and> i < n \<and> bs ! i" for n
    by (induction n) (auto simp: bit_or_iff bit_push_bit_iff bit_1_iff less_Suc_eq simp del: push_bit_of_1)
  then show ?thesis by (simp add: to_bitmask_def)
qed

lemma msb_u8: "0x80 \<le> x \<longleftrightarrow> bit x 7" for x :: u8
proof -
  have "unat x < 256" using unsigned_less [of x] by simp
  then have "unat x div 128 = (if 128 \<le> unat x then 1 else 0)" by (auto intro: div_nat_eqI)
  then have "128 \<le> unat x \<longleftrightarrow> odd (unat x div 128)" by simp
  moreover have "bit x 7 \<longleftrightarrow> bit (unat x) 7" by (simp add: bit_unsigned_iff)
  ultimately show ?thesis by (simp add: word_le_nat_alt bit_iff_odd [of "unat x"])
qed

lemma bit_set_bytes2:
  assumes "rg < 8" "r < 128"
  shows "bit (set_bytes2 (rg * 2) b0 b1 w) r =
    (if r div 8 = rg * 2 then bit b0 (r mod 8) else if r div 8 = rg * 2 + 1 then bit b1 (r mod 8) else bit w r)"
proof -
  have r: "r div 8 < 16" "8 * (r div 8) + r mod 8 = r" using assms by auto
  then have "bit (block_bytes w ! (r div 8)) (r mod 8) = bit w r"
    by (simp add: block_bytes_def bit_le_bytes_nth BLOCK_BYTES_def)
  then show ?thesis using assms r(1)
    by (auto simp: set_bytes2_def block_from_bytes_def bit_word_of_le BLOCK_BYTES_def nth_list_update)
qed

lemma emit_bits:
  assumes c: "length col = 16" and rg: "rg < 8" and sb: "8 * sb + 7 < length out" and k: "k \<le> 8"
  shows "snd (fold (emit_bit sb rg) (rev [k..<8]) (out, col)) = map (push_bit (8 - k)) col
    \<and> length (fst (fold (emit_bit sb rg) (rev [k..<8]) (out, col))) = length out
    \<and> (\<forall>j < length out. \<forall>r < 128. bit (fst (fold (emit_bit sb rg) (rev [k..<8]) (out, col)) ! j) r =
        (if j div 8 = sb \<and> k \<le> j mod 8 \<and> r div 16 = rg then bit (col ! (r mod 16)) (j mod 8) else bit (out ! j) r))"
  using k
proof (induction rule: inc_induct)
  case base
  have "\<not> 8 \<le> j mod 8" for j :: nat by (simp add: not_le)
  then show ?case by simp
next
  case (step n)
  obtain o' c' where st: "fold (emit_bit sb rg) (rev [Suc n..<8]) (out, col) = (o', c')" by (cases "fold (emit_bit sb rg) (rev [Suc n..<8]) (out, col)")
  have IH: "c' = map (push_bit (7 - n)) col" "length o' = length out"
    "\<And>j r. j < length out \<Longrightarrow> r < 128 \<Longrightarrow> bit (o' ! j) r =
        (if j div 8 = sb \<and> Suc n \<le> j mod 8 \<and> r div 16 = rg then bit (col ! (r mod 16)) (j mod 8) else bit (out ! j) r)"
    using step.IH by (simp_all add: st)
  define m where "m = to_bitmask (map (\<lambda>x. 0x80 \<le> x) c')"
  have e: "fold (emit_bit sb rg) (rev [n..<8]) (out, col)
      = (o'[sb * 8 + n := set_bytes2 (rg * 2) (ucast m) (ucast (drop_bit 8 m)) (o' ! (sb * 8 + n))], map (push_bit 1) c')"
    using step.hyps by (simp add: upt_conv_Cons st emit_bit_def Let_def m_def)
  have bm: "bit m i \<longleftrightarrow> i < 16 \<and> bit (col ! i) n" for i
    using step.hyps by (auto simp: m_def IH(1) bit_to_bitmask c msb_u8 bit_simps)
  have at: "j = sb * 8 + n \<longleftrightarrow> j div 8 = sb \<and> j mod 8 = n" for j using step.hyps by auto
  have "1 + (7 - n) = 8 - n" using step.hyps by simp
  then have s: "map (push_bit 1) c' = map (push_bit (8 - n)) col" by (simp only: IH(1) map_map o_def push_bit_push_bit)
  have b: "bit (o'[sb * 8 + n := set_bytes2 (rg * 2) (ucast m) (ucast (drop_bit 8 m)) (o' ! (sb * 8 + n))] ! j) r =
     (if j div 8 = sb \<and> n \<le> j mod 8 \<and> r div 16 = rg then bit (col ! (r mod 16)) (j mod 8) else bit (out ! j) r)"
    if j: "j < length out" and r: "r < 128" for j r
  proof (cases "j = sb * 8 + n")
    case True
    have d: "r div 8 div 2 = r div 16" "r mod 16 = 8 * (r div 8 mod 2) + r mod 8" using mod_mult2_eq [of r 8 2] by (simp_all add: div_mult2_eq [symmetric])
    have g: "r div 16 = rg \<longleftrightarrow> r div 8 = rg * 2 \<or> r div 8 = rg * 2 + 1" using d(1) by auto
    have old: "bit (o' ! j) r = bit (out ! j) r" using IH(3) [OF j r] True at by auto
    have l: "r div 8 = rg * 2 \<Longrightarrow> r mod 16 = r mod 8" "r div 8 = rg * 2 + 1 \<Longrightarrow> r mod 16 = 8 + r mod 8"
      using d(2) by (simp_all add: mod_Suc)
    have "bit (set_bytes2 (rg * 2) (ucast m) (ucast (drop_bit 8 m)) (o' ! j)) r =
       (if r div 16 = rg then bit (col ! (r mod 16)) n else bit (out ! j) r)"
      unfolding bit_set_bytes2 [OF rg r] g by (auto simp: bit_simps bm l old)
    then show ?thesis using True j at IH(2) by auto
  next
    case False
    then have "j div 8 = sb \<and> n \<le> j mod 8 \<longleftrightarrow> j div 8 = sb \<and> Suc n \<le> j mod 8" using at [of j] by auto
    then show ?thesis using IH(3) [OF j r] False by (simp flip: conj_assoc)
  qed
  show ?case unfolding e fst_conv snd_conv using s b by (simp add: IH(2))
qed

lemma transpose_emit_column:
  assumes "length col = 16" "rg < 8" "8 * sb + 7 < length out"
  shows "length (transpose_emit_column col sb rg out) = length out"
    and "j < length out \<Longrightarrow> r < 128 \<Longrightarrow> bit (transpose_emit_column col sb rg out ! j) r =
      (if j div 8 = sb \<and> r div 16 = rg then bit (col ! (r mod 16)) (j mod 8) else bit (out ! j) r)"
  using emit_bits [OF assms, of 0] by (simp_all add: transpose_emit_column_def)

text \<open>The cells of the result that hold their final bits: pairs of a byte column and a group of 16 rows.\<close>

definition cells_done :: "bytes \<Rightarrow> nat \<Rightarrow> (nat \<times> nat) set \<Rightarrow> block list \<Rightarrow> bool" where
  "cells_done rows rb S out \<longleftrightarrow> length out = rb * 8 \<and>
     (\<forall>j < rb * 8. \<forall>r < 128. bit (out ! j) r \<longleftrightarrow> (j div 8, r div 16) \<in> S \<and> bit (rows ! (r * rb + j div 8)) (j mod 8))"

lemma cells_done_fold:
  assumes "\<And>x S out. x \<in> set xs \<Longrightarrow> cells_done rows rb S out \<Longrightarrow> cells_done rows rb (S \<union> A x) (f x out)"
    and "cells_done rows rb S out"
  shows "cells_done rows rb (S \<union> (\<Union>x \<in> set xs. A x)) (fold f xs out)"
  using assms
proof (induction xs arbitrary: S out)
  case (Cons x xs)
  have "cells_done rows rb ((S \<union> A x) \<union> (\<Union>x \<in> set xs. A x)) (fold f xs (f x out))"
    by (rule Cons.IH) (use Cons.prems in auto)
  then show ?case by (simp add: Un_assoc)
qed simp

lemma cells_done_emit:
  assumes "cells_done rows rb S out" "sb < rb" "rg < 8"
  shows "cells_done rows rb (S \<union> {(sb, rg)}) (transpose_emit_column (map (\<lambda>i. rows ! ((rg * 16 + i) * rb + sb)) [0..<16]) sb rg out)"
proof -
  let ?col = "map (\<lambda>i. rows ! ((rg * 16 + i) * rb + sb)) [0..<16]"
  have l: "length ?col = 16" "8 * sb + 7 < length out" using assms by (simp_all add: cells_done_def)
  note e = transpose_emit_column [OF l(1) assms(3) l(2)]
  have c: "?col ! (r mod 16) = rows ! (r * rb + sb)" if "r div 16 = rg" for r
    using div_mult_mod_eq [of r 16] that by simp
  show ?thesis using assms(1) c by (auto simp: cells_done_def e)
qed

lemma cells_done_tile:
  assumes "cells_done rows rb S out" "cg < rb div 16" "rg < 8" and len: "length rows = 128 * rb"
  shows "cells_done rows rb (S \<union> {cg * 16..<cg * 16 + 16} \<times> {rg}) (transpose_tile rows rb rg cg out)"
proof -
  define col where "col sb = map (\<lambda>i. rows ! ((rg * 16 + i) * rb + sb)) [0..<16]" for sb
  have cg: "cg * 16 + 16 \<le> rb" using assms(2) by (metis Suc_leI div_times_less_eq_dividend le_trans mult_Suc mult_le_mono1 add.commute)
  have m: "take 16 (drop ((rg * 16 + r) * rb + cg * 16) rows) = map (\<lambda>j. rows ! ((rg * 16 + r) * rb + (cg * 16 + j))) [0..<16]"
    if "r < 16" for r
  proof (rule nth_equalityI)
    have "(rg * 16 + r + 1) * rb \<le> 128 * rb" by (rule mult_le_mono1) (use that assms(3) in simp)
    then have "(rg * 16 + r) * rb + rb \<le> 128 * rb" by (simp only: add_mult_distrib mult_1)
    then have l: "(rg * 16 + r) * rb + cg * 16 + 16 \<le> length rows" using cg len by linarith
    then show "length (take 16 (drop ((rg * 16 + r) * rb + cg * 16) rows)) = length (map (\<lambda>j. rows ! ((rg * 16 + r) * rb + (cg * 16 + j))) [0..<16])"
      by simp
    show "take 16 (drop ((rg * 16 + r) * rb + cg * 16) rows) ! j = map (\<lambda>j. rows ! ((rg * 16 + r) * rb + (cg * 16 + j))) [0..<16] ! j"
      if "j < length (take 16 (drop ((rg * 16 + r) * rb + cg * 16) rows))" for j
      using that l by (simp add: add.assoc)
  qed
  have "transpose_16x16_bytes (map (\<lambda>r. take 16 (drop ((rg * 16 + r) * rb + cg * 16) rows)) [0..<16])
      = map (\<lambda>c. col (cg * 16 + c)) [0..<16]"
  proof -
    have "map (\<lambda>r. take 16 (drop ((rg * 16 + r) * rb + cg * 16) rows)) [0..<16]
        = map (\<lambda>r. map (\<lambda>j. rows ! ((rg * 16 + r) * rb + (cg * 16 + j))) [0..<16]) [0..<16]"
      by (rule map_cong [OF refl m]) simp
    then show ?thesis by (simp only: transpose_16x16 col_def)
  qed
  moreover have "enumerate 0 (map (\<lambda>c. col (cg * 16 + c)) [0..<16]) = map (\<lambda>c. (c, col (cg * 16 + c))) [0..<16]"
    by (rule nth_equalityI) (simp_all add: nth_enumerate_eq)
  ultimately have t: "transpose_tile rows rb rg cg out = fold (\<lambda>c. transpose_emit_column (col (cg * 16 + c)) (cg * 16 + c) rg) [0..<16] out"
    by (simp only: transpose_tile_def Let_def fold_map o_def prod.case)
  have "cells_done rows rb (S \<union> (\<Union>c \<in> set [0..<16]. {(cg * 16 + c, rg)})) (transpose_tile rows rb rg cg out)"
    unfolding t col_def by (rule cells_done_fold [OF cells_done_emit assms(1)]) (use cg assms(3) in auto)
  moreover have "(\<Union>c \<in> set [0..<16]. {(cg * 16 + c, rg)}) = ((\<lambda>c. cg * 16 + c) ` set [0..<16]) \<times> {rg}" by blast
  then have "(\<Union>c \<in> set [0..<16]. {(cg * 16 + c, rg)}) = {cg * 16..<cg * 16 + 16} \<times> {rg}" by (simp add: add.commute)
  ultimately show ?thesis by simp
qed

lemma transpose_128_rows_done:
  assumes "length rows = 128 * rb"
  shows "cells_done rows rb ({..<rb} \<times> {..<8}) (transpose_128_rows rows rb (rb * 8))"
proof -
  define ct where "ct = rb div 16"
  define out1 where "out1 = fold (\<lambda>rg out. fold (transpose_tile rows rb rg) [0..<ct] out) [0..<128 div 16] (replicate (rb * 8) 0)"
  have z: "cells_done rows rb {} (replicate (rb * 8) 0)" by (simp add: cells_done_def)
  have "cells_done rows rb ({} \<union> (\<Union>rg \<in> set [0..<128 div 16]. \<Union>cg \<in> set [0..<ct]. {cg * 16..<cg * 16 + 16} \<times> {rg})) out1"
    unfolding out1_def
  proof (rule cells_done_fold [OF _ z])
    fix rg S out assume "rg \<in> set [0..<128 div 16]" and "cells_done rows rb S out"
    then show "cells_done rows rb (S \<union> (\<Union>cg \<in> set [0..<ct]. {cg * 16..<cg * 16 + 16} \<times> {rg})) (fold (transpose_tile rows rb rg) [0..<ct] out)"
      by (intro cells_done_fold cells_done_tile) (auto simp: assms ct_def)
  qed
  then have "cells_done rows rb ({} \<union> (\<Union>rg \<in> set [0..<128 div 16]. \<Union>cg \<in> set [0..<ct]. {cg * 16..<cg * 16 + 16} \<times> {rg})
       \<union> (\<Union>sb \<in> set [ct * 16..<rb]. \<Union>rg \<in> set [0..<128 div 16]. {(sb, rg)})) (transpose_128_rows rows rb (rb * 8))"
    unfolding transpose_128_rows_def Let_def ct_def [symmetric] out1_def [symmetric]
  proof (rule cells_done_fold [rotated])
    fix sb S out assume "sb \<in> set [ct * 16..<rb]" and "cells_done rows rb S out"
    then show "cells_done rows rb (S \<union> (\<Union>rg \<in> set [0..<128 div 16]. {(sb, rg)})) (fold (transpose_tail_column rows rb sb) [0..<128 div 16] out)"
      by (intro cells_done_fold) (auto simp: transpose_tail_column_def Let_def intro!: cells_done_emit [simplified])
  qed
  moreover have "({} \<union> (\<Union>rg \<in> set [0..<128 div 16]. \<Union>cg \<in> set [0..<ct]. {cg * 16..<cg * 16 + 16} \<times> {rg})
       \<union> (\<Union>sb \<in> set [ct * 16..<rb]. \<Union>rg \<in> set [0..<128 div 16]. {(sb, rg)})) = {..<rb} \<times> {..<8}"
  proof -
    have "sb < ct * 16 \<longleftrightarrow> (\<exists>cg < ct. cg * 16 \<le> sb \<and> sb < cg * 16 + 16)" for sb
      by (intro iffI exI [of _ "sb div 16"]) auto
    moreover have "ct * 16 \<le> rb" by (simp add: ct_def)
    ultimately have "(\<exists>cg < ct. cg * 16 \<le> sb \<and> sb < cg * 16 + 16) \<or> ct * 16 \<le> sb \<and> sb < rb \<longleftrightarrow> sb < rb" for sb
      by (metis not_le order_less_le_trans)
    moreover have "({} \<union> (\<Union>rg \<in> set [0..<128 div 16]. \<Union>cg \<in> set [0..<ct]. {cg * 16..<cg * 16 + 16} \<times> {rg})
       \<union> (\<Union>sb \<in> set [ct * 16..<rb]. \<Union>rg \<in> set [0..<128 div 16]. {(sb, rg)}))
      = {(sb, rg). ((\<exists>cg < ct. cg * 16 \<le> sb \<and> sb < cg * 16 + 16) \<or> ct * 16 \<le> sb \<and> sb < rb) \<and> rg < 8}"
      by fastforce
    ultimately show ?thesis by auto
  qed
  ultimately show ?thesis by simp
qed

lemma bit_transpose:
  assumes "length rows = 128 * rb" "j < rb * 8" "r < 128"
  shows "bit (transpose_128_rows rows rb (rb * 8) ! j) r = bit (rows ! (r * rb + j div 8)) (j mod 8)"
    and "length (transpose_128_rows rows rb (rb * 8)) = rb * 8"
proof -
  have "j div 8 < rb" "r div 16 < 8" using assms by auto
  then show "bit (transpose_128_rows rows rb (rb * 8) ! j) r = bit (rows ! (r * rb + j div 8)) (j mod 8)"
    using transpose_128_rows_done [OF assms(1)] assms(2,3) by (simp add: cells_done_def)
  show "length (transpose_128_rows rows rb (rb * 8)) = rb * 8"
    using transpose_128_rows_done [OF assms(1)] by (simp add: cells_done_def)
qed

end
