(* ===== verification/F64.thy ===== *)
theory F64
  imports Complex_Main "HOL-Library.Log_Nat"
begin

text \<open>
  The \<open>f64\<close> arithmetic that the code uses in one place, \<open>TriplePoolState::get_bucket_size\<close> of
  \<open>shachain2pc-mpc-core\<close>: conversion of an integer, a product and a comparison, of numbers that are not
  negative. A number is its significand and its exponent; every operation is the exact result rounded to 53
  bits, to nearest and ties to even. The exponent is not bounded: what the code computes there is 0 or
  between 1 and \<open>2 ^ 71\<close>, far from the subnormal numbers and from infinity. The logarithm is not of this
  theory: the standard library leaves its precision open.
\<close>

section \<open>Numbers and rounding\<close>

record f64 =
  f64_significand :: nat
  f64_exponent :: int

definition f64_val :: "f64 \<Rightarrow> real" where
  "f64_val x = real (f64_significand x) * 2 powr real_of_int (f64_exponent x)"

definition f64_round :: "nat \<Rightarrow> int \<Rightarrow> f64" where
  \<comment> \<open>\<open>m * 2 ^ e\<close> to nearest with 53 bits: the low \<open>d\<close> bits are cut off, and \<open>r\<close> of them decides the direction\<close>
  "f64_round m e =
     (let d = floorlog 2 m - 53 in
      if d = 0 then \<lparr>f64_significand = m, f64_exponent = e\<rparr>
      else let q = m div 2 ^ d; r = m mod 2 ^ d;
               q = (if r > 2 ^ (d - 1) \<or> r = 2 ^ (d - 1) \<and> odd q then q + 1 else q)
        in \<lparr>f64_significand = q, f64_exponent = e + int d\<rparr>)"

definition f64_of_nat :: "nat \<Rightarrow> f64" where
  "f64_of_nat n = f64_round n 0"

definition f64_mul :: "f64 \<Rightarrow> f64 \<Rightarrow> f64" where
  "f64_mul x y = f64_round (f64_significand x * f64_significand y) (f64_exponent x + f64_exponent y)"

definition f64_le :: "f64 \<Rightarrow> f64 \<Rightarrow> bool" where
  "f64_le x y =
     (let e = min (f64_exponent x) (f64_exponent y)
      in f64_significand x * 2 ^ nat (f64_exponent x - e) \<le> f64_significand y * 2 ^ nat (f64_exponent y - e))"

section \<open>What the operations compute\<close>

lemma f64_val_shift: "0 \<le> d \<Longrightarrow> real m * 2 powr real_of_int (e + d) = real (m * 2 ^ nat d) * 2 powr real_of_int e"
  by (simp add: powr_add powr_real_of_int)

lemma f64_le_val: "f64_le x y \<longleftrightarrow> f64_val x \<le> f64_val y"
proof -
  define e where "e = min (f64_exponent x) (f64_exponent y)"
  let ?a = "\<lambda>z. f64_significand z * 2 ^ nat (f64_exponent z - e)"
  have v: "f64_val z = real (?a z) * 2 powr real_of_int e" if "e \<le> f64_exponent z" for z
    using f64_val_shift [of "f64_exponent z - e" "f64_significand z" e] that by (simp add: f64_val_def)
  have "f64_val x = real (?a x) * 2 powr real_of_int e" "f64_val y = real (?a y) * 2 powr real_of_int e"
    by (rule v, simp add: e_def)+
  moreover have "0 < 2 powr real_of_int e" by simp
  ultimately have "f64_val x \<le> f64_val y \<longleftrightarrow> real (?a x) \<le> real (?a y)" by (simp only: mult_le_cancel_right_pos)
  then show ?thesis unfolding of_nat_le_iff f64_le_def Let_def e_def by (rule sym)
qed

lemma floorlog_split:
  assumes "53 < floorlog 2 m"
  shows "2 ^ (floorlog 2 m - 53 + 52) \<le> m"
proof -
  have "0 < m" using assms by (cases "m = 0") (auto simp: floorlog_def)
  then show ?thesis using floorlog_bounds [of m 2] assms by simp
qed

lemma round_near:
  fixes m d :: nat
  assumes "0 < d" and q: "q = (if m mod 2 ^ d > 2 ^ (d - 1) \<or> m mod 2 ^ d = 2 ^ (d - 1) \<and> odd (m div 2 ^ d) then m div 2 ^ d + 1 else m div 2 ^ d)"
  shows "\<bar>real (q * 2 ^ d) - real m\<bar> \<le> 2 ^ (d - 1)"
proof -
  have m: "m = m div 2 ^ d * 2 ^ d + m mod 2 ^ d" by (rule div_mult_mod_eq [symmetric])
  have lt: "m mod 2 ^ d < 2 ^ d" by simp
  have p: "(2 :: nat) ^ d = 2 * 2 ^ (d - 1)" using assms(1) by (cases d) simp_all
  have "q * 2 ^ d \<le> m + 2 ^ (d - 1) \<and> m \<le> q * 2 ^ d + 2 ^ (d - 1)"
  proof (cases "q = m div 2 ^ d + 1")
    case True
    then have "2 ^ (d - 1) \<le> m mod 2 ^ d" using q by (auto split: if_splits)
    moreover have "q * 2 ^ d = m div 2 ^ d * 2 ^ d + 2 ^ d" using True by (simp add: algebra_simps)
    ultimately show ?thesis using m lt p by linarith
  next
    case False
    then have "q = m div 2 ^ d" "m mod 2 ^ d \<le> 2 ^ (d - 1)" using q by (auto split: if_splits)
    moreover from this have "q * 2 ^ d = m div 2 ^ d * 2 ^ d" by simp
    ultimately show ?thesis using m by linarith
  qed
  then have "real (q * 2 ^ d) \<le> real (m + 2 ^ (d - 1))" "real m \<le> real (q * 2 ^ d + 2 ^ (d - 1))" by (simp_all only: of_nat_le_iff)
  then show ?thesis by simp
qed

lemma f64_round_error: "\<bar>f64_val (f64_round m e) - real m * 2 powr real_of_int e\<bar> \<le> real m * 2 powr real_of_int e / 2 ^ 53"
proof -
  define d where "d = floorlog 2 m - 53"
  show ?thesis
  proof (cases "d = 0")
    case True
    then show ?thesis by (simp add: f64_round_def f64_val_def d_def)
  next
    case False
    define q where "q = (if m mod 2 ^ d > 2 ^ (d - 1) \<or> m mod 2 ^ d = 2 ^ (d - 1) \<and> odd (m div 2 ^ d) then m div 2 ^ d + 1 else m div 2 ^ d)"
    have "f64_round m e = \<lparr>f64_significand = q, f64_exponent = e + int d\<rparr>"
      using False unfolding f64_round_def d_def [symmetric] q_def Let_def by simp
    then have v: "f64_val (f64_round m e) = real (q * 2 ^ d) * 2 powr real_of_int e"
      using f64_val_shift [of "int d" q e] by (simp add: f64_val_def)
    have "2 ^ (d + 52) \<le> m" using floorlog_split [of m] False by (simp add: d_def)
    then have "real (2 ^ (d + 52)) \<le> real m" by (simp only: of_nat_le_iff)
    moreover have "(2 :: real) ^ (d - 1) * 2 ^ 53 = 2 ^ (d + 52)"
    proof -
      have "d - 1 + 53 = d + 52" using False by simp
      then show ?thesis by (metis power_add)
    qed
    ultimately have "(2 :: real) ^ (d - 1) \<le> real m / 2 ^ 53" by (simp add: field_simps)
    with round_near [OF _ q_def] False have "\<bar>real (q * 2 ^ d) - real m\<bar> \<le> real m / 2 ^ 53" by (meson gr0I order_trans)
    then have le: "\<bar>real (q * 2 ^ d) - real m\<bar> * 2 powr real_of_int e \<le> real m / 2 ^ 53 * 2 powr real_of_int e" by (rule mult_right_mono) simp
    have eq: "\<bar>real (q * 2 ^ d) - real m\<bar> * 2 powr real_of_int e = \<bar>f64_val (f64_round m e) - real m * 2 powr real_of_int e\<bar>"
      unfolding v left_diff_distrib [symmetric] abs_mult by simp
    show ?thesis using le unfolding eq times_divide_eq_left .
  qed
qed

lemma f64_round_exact:
  assumes "m = m0 * 2 ^ j" and "m0 < 2 ^ 53"
  shows "f64_val (f64_round m e) = real m * 2 powr real_of_int e"
proof -
  define d where "d = floorlog 2 m - 53"
  have "d \<le> j"
  proof (cases "m0 = 0")
    case False
    then have "floorlog 2 m = floorlog 2 m0 + j" by (simp add: assms(1))
    moreover have "floorlog 2 m0 \<le> 53" using assms(2) by (rule floorlog_leI) simp_all
    ultimately show ?thesis by (simp add: d_def)
  qed (simp add: assms(1) d_def floorlog_def)
  then have dvd: "2 ^ d dvd m" unfolding assms(1) by (simp add: le_imp_power_dvd)
  show ?thesis
  proof (cases "d = 0")
    case True
    then show ?thesis by (simp add: f64_round_def f64_val_def d_def)
  next
    case False
    have "f64_round m e = \<lparr>f64_significand = m div 2 ^ d, f64_exponent = e + int d\<rparr>"
      using False dvd unfolding f64_round_def d_def [symmetric] Let_def by (simp add: dvd_imp_mod_0)
    then show ?thesis using f64_val_shift [of "int d" "m div 2 ^ d" e] dvd by (simp add: f64_val_def flip: of_nat_power of_nat_mult)
  qed
qed

definition f64_near :: "real \<Rightarrow> real \<Rightarrow> bool" where
  \<comment> \<open>equal up to one rounding\<close>
  "f64_near x y \<longleftrightarrow> (1 - 1 / 2 ^ 53) * y \<le> x \<and> x \<le> (1 + 1 / 2 ^ 53) * y"

lemma f64_nearI:
  assumes "\<bar>x - y\<bar> \<le> y / 2 ^ 53"
  shows "f64_near x y"
proof -
  define c :: real where "c = 1 / 2 ^ 53"
  have "\<bar>x - y\<bar> \<le> c * y" using assms by (simp only: c_def times_divide_eq_left mult_1)
  then show ?thesis unfolding f64_near_def c_def [symmetric] by (simp add: algebra_simps abs_le_iff)
qed

lemma f64_of_nat_near: "f64_near (f64_val (f64_of_nat n)) (real n)"
  using f64_nearI f64_round_error [of n 0] by (simp add: f64_of_nat_def)

lemma f64_val_mul: "real (f64_significand x * f64_significand y) * 2 powr real_of_int (f64_exponent x + f64_exponent y) = f64_val x * f64_val y"
  by (simp add: f64_val_def powr_add)

lemma f64_mul_near: "f64_near (f64_val (f64_mul x y)) (f64_val x * f64_val y)"
  using f64_round_error [of "f64_significand x * f64_significand y" "f64_exponent x + f64_exponent y"]
  unfolding f64_mul_def f64_val_mul by (rule f64_nearI)

lemma f64_of_nat_exact: "n < 2 ^ 53 \<Longrightarrow> f64_of_nat n = \<lparr>f64_significand = n, f64_exponent = 0\<rparr>"
  using floorlog_leI [of n 2 53] by (simp add: f64_of_nat_def f64_round_def)

lemma f64_val_of_nat: "n < 2 ^ 53 \<Longrightarrow> f64_val (f64_of_nat n) = real n"
  by (simp add: f64_of_nat_exact f64_val_def)

lemma f64_mul_exact:
  assumes "f64_val x = real a" and "a * k < 2 ^ 53" and "k < 2 ^ 53"
  shows "f64_val (f64_mul x (f64_of_nat k)) = real (a * k)"
proof -
  have "f64_val x * f64_val (f64_of_nat k) = real (a * k)" using assms by (simp add: f64_val_of_nat)
  moreover have "\<exists>m0 j. f64_significand x * k = m0 * 2 ^ j \<and> m0 < 2 ^ 53"
  proof (cases "0 \<le> f64_exponent x")
    case True
    then have "real a = real (f64_significand x * 2 ^ nat (f64_exponent x))"
      using assms(1) f64_val_shift [of "f64_exponent x" "f64_significand x" 0] by (simp add: f64_val_def)
    then have "a = f64_significand x * 2 ^ nat (f64_exponent x)" by (simp only: of_nat_eq_iff)
    then have "f64_significand x \<le> a" by simp
    then have "f64_significand x * k < 2 ^ 53" using assms(2) by (meson le_less_trans mult_le_mono1)
    then show ?thesis by (intro exI [of _ "f64_significand x * k"] exI [of _ 0]) simp
  next
    case False
    then have "real (f64_significand x) = real a * 2 ^ nat (- f64_exponent x)"
      using assms(1) by (simp add: f64_val_def powr_minus_divide powr_real_of_int field_simps)
    then have "real (f64_significand x) = real (a * 2 ^ nat (- f64_exponent x))" by simp
    then have "f64_significand x = a * 2 ^ nat (- f64_exponent x)" by (simp only: of_nat_eq_iff)
    then show ?thesis using assms(2) by (intro exI [of _ "a * k"] exI [of _ "nat (- f64_exponent x)"]) simp
  qed
  ultimately obtain m0 j where mj: "f64_significand x * k = m0 * 2 ^ j" "m0 < 2 ^ 53"
    and v: "f64_val x * f64_val (f64_of_nat k) = real (a * k)" by blast
  have k: "f64_of_nat k = \<lparr>f64_significand = k, f64_exponent = 0\<rparr>" by (rule f64_of_nat_exact [OF assms(3)])
  show ?thesis using f64_round_exact [OF mj, of "f64_exponent x"] f64_val_mul [of x "f64_of_nat k"] v by (simp add: f64_mul_def k)
qed

end
