(* ===== verification/Bucket_Size.thy ===== *)
theory Bucket_Size
  imports Auth_Shares F64
begin

text \<open>
  The size of the buckets of the triple computation, \<open>TriplePoolState::get_bucket_size\<close> of
  \<open>shachain2pc-mpc-core\<close> (\<open>triple_pool.rs\<close>), in the \<open>f64\<close> arithmetic of the code.
\<close>

section \<open>The loop\<close>

text \<open>
  The bucket size compares \<open>log2(size) * (bucket - 1)\<close> with the security parameter in \<open>f64\<close>. The logarithm of the
  standard library, whose precision Rust leaves open, is the argument \<open>flog2\<close>; the rest is the arithmetic of
  \<open>F64\<close>.
\<close>

partial_function (option) bucket_from :: "f64 \<Rightarrow> nat \<Rightarrow> nat \<Rightarrow> nat option" where
  \<comment> \<open>the \<open>while\<close> loop\<close>
  "bucket_from log2_l ssp bucket =
     (if f64_le (f64_mul log2_l (f64_of_nat (bucket - 1))) (f64_of_nat ssp) then bucket_from log2_l ssp (bucket + 1)
      else Some bucket)"

definition get_bucket_size :: "(f64 \<Rightarrow> f64) \<Rightarrow> triple_pool_state \<Rightarrow> nat \<Rightarrow> nat option" where
  "get_bucket_size flog2 pool n =
     (let n = max n 1024; log2_l = flog2 (f64_of_nat n) in bucket_from log2_l (tp_ssp pool) 2)"

section \<open>What the loop finds\<close>

definition bucket_short :: "f64 \<Rightarrow> nat \<Rightarrow> nat \<Rightarrow> bool" where
  \<comment> \<open>the condition of the loop\<close>
  "bucket_short log2_l ssp b \<longleftrightarrow> f64_val (f64_mul log2_l (f64_of_nat (b - 1))) \<le> f64_val (f64_of_nat ssp)"

lemma bucket_from_step: "bucket_from log2_l ssp b = (if bucket_short log2_l ssp b then bucket_from log2_l ssp (b + 1) else Some b)"
  by (subst bucket_from.simps) (simp only: bucket_short_def f64_le_val)

lemma bucket_from_finds:
  assumes "b0 \<le> c" and "\<not> bucket_short log2_l ssp c"
  shows "\<exists>b. bucket_from log2_l ssp b0 = Some b \<and> b0 \<le> b \<and> \<not> bucket_short log2_l ssp b
    \<and> (\<forall>k. b0 \<le> k \<longrightarrow> k < b \<longrightarrow> bucket_short log2_l ssp k)"
  using assms(1)
proof (induction "c - b0" arbitrary: b0)
  case 0
  then show ?case using assms(2) by (intro exI [of _ b0]) (simp add: bucket_from_step [of log2_l ssp b0])
next
  case (Suc n)
  show ?case
  proof (cases "bucket_short log2_l ssp b0")
    case True
    have "n = c - (b0 + 1)" "b0 + 1 \<le> c" using Suc.hyps(2) by simp_all
    from Suc.hyps(1) [OF this] obtain b where "bucket_from log2_l ssp (b0 + 1) = Some b" "b0 + 1 \<le> b" "\<not> bucket_short log2_l ssp b"
      and lo: "\<forall>k. b0 + 1 \<le> k \<longrightarrow> k < b \<longrightarrow> bucket_short log2_l ssp k" by blast
    moreover have "bucket_short log2_l ssp k" if "b0 \<le> k" "k < b" for k
      using lo True that by (cases "k = b0") simp_all
    ultimately show ?thesis using True by (intro exI [of _ b]) (simp add: bucket_from_step [of log2_l ssp b0])
  next
    case False
    then show ?thesis by (intro exI [of _ b0]) (simp add: bucket_from_step [of log2_l ssp b0])
  qed
qed

definition log2_within :: "(f64 \<Rightarrow> f64) \<Rightarrow> real \<Rightarrow> bool" where
  \<comment> \<open>the logarithm is right up to the relative error \<open>err\<close>, on arguments from 1024 on\<close>
  "log2_within flog2 err \<longleftrightarrow> (\<forall>x. 1024 \<le> f64_val x \<longrightarrow> \<bar>f64_val (flog2 x) - log 2 (f64_val x)\<bar> \<le> err * log 2 (f64_val x))"

lemma log2_big:
  assumes "1024 \<le> n"
  shows "10 \<le> log 2 (real n)"
proof -
  have "(2 :: real) powr 10 \<le> real n" using assms by simp
  then show ?thesis using assms by (subst le_log_iff) simp_all
qed

lemma log2_rounded:
  assumes n: "1024 \<le> n"
  shows "1024 \<le> f64_val (f64_of_nat n)" and "f64_near (log 2 (f64_val (f64_of_nat n))) (log 2 (real n))"
proof -
  let ?u = "1 / 2 ^ 53 :: real" and ?x = "f64_val (f64_of_nat n)"
  have near: "(1 - ?u) * real n \<le> ?x" "?x \<le> (1 + ?u) * real n" using f64_of_nat_near [of n] by (simp_all add: f64_near_def)
  show x: "1024 \<le> ?x"
  proof (cases "n < 2 ^ 53")
    case True
    then show ?thesis using n by (simp add: f64_val_of_nat)
  next
    case False
    then have "real (2 ^ 53) \<le> real n" by (simp only: of_nat_le_iff not_less)
    then show ?thesis using near(1) by simp
  qed
  have pos: "0 < real n" "0 < ?x" using n x by simp_all
  note L = log2_big [OF n]
  have ln2: "1 / 2 \<le> ln (2 :: real)" using ln_le_minus_one [of "1 / 2 :: real"] by (simp add: ln_div)
  have "ln ?x \<le> ln ((1 + ?u) * real n)" using pos near(2) by (subst ln_le_cancel_iff) simp_all
  also have "\<dots> = ln (1 + ?u) + ln (real n)" using pos by (subst ln_mult) simp_all
  also have "ln (1 + ?u) \<le> ?u" by (rule ln_add_one_self_le_self) simp
  finally have up: "ln ?x - ln (real n) \<le> ?u" by simp
  have "- ?u - 2 * ?u\<^sup>2 \<le> ln (1 - ?u)" by (rule ln_one_minus_pos_lower_bound) simp_all
  moreover have "ln (1 - ?u) + ln (real n) = ln ((1 - ?u) * real n)" using pos by (subst ln_mult) simp_all
  moreover have "ln ((1 - ?u) * real n) \<le> ln ?x" using pos near(1) by (subst ln_le_cancel_iff) simp_all
  moreover have "2 * ?u\<^sup>2 \<le> ?u" by (simp add: power2_eq_square)
  ultimately have dn: "ln (real n) - ln ?x \<le> 2 * ?u" by linarith
  have "\<bar>log 2 ?x - log 2 (real n)\<bar> = \<bar>ln ?x - ln (real n)\<bar> / ln 2" using ln2 by (simp add: log_def diff_divide_distrib [symmetric] abs_divide)
  also have "\<dots> \<le> 2 * ?u / ln 2" using up dn ln2 by (intro divide_right_mono) linarith+
  also have "\<dots> \<le> 10 * ?u" using ln2 by (simp add: field_simps)
  also have "\<dots> \<le> log 2 (real n) * ?u" using L by (intro mult_right_mono) simp_all
  finally show "f64_near (log 2 ?x) (log 2 (real n))" by (intro f64_nearI) simp
qed

lemma log2_pos:
  assumes "1024 \<le> n" and "log2_within flog2 err" "0 \<le> err" "err < 1"
  shows "0 < f64_val (flog2 (f64_of_nat n))"
proof -
  let ?x = "f64_val (f64_of_nat n)"
  have "1024 \<le> ?x" by (rule log2_rounded(1) [OF assms(1)])
  then have "\<bar>f64_val (flog2 (f64_of_nat n)) - log 2 ?x\<bar> \<le> err * log 2 ?x" and "0 < log 2 ?x"
    using assms(2) by (simp_all add: log2_within_def)
  moreover have "err * log 2 ?x < 1 * log 2 ?x" using assms(4) \<open>0 < log 2 ?x\<close> by (intro mult_strict_right_mono) simp_all
  ultimately show ?thesis by linarith
qed

lemma bucket_bounds:
  assumes n: "1024 \<le> n" and ok: "log2_within flog2 err" "0 \<le> err" "err < 1"
  defines "l \<equiv> flog2 (f64_of_nat n)"
  shows "\<not> bucket_short l ssp b \<Longrightarrow> real ssp < (1 + err) * (1 + 1 / 2 ^ 50) * (real (b - 1) * log 2 (real n))"
    and "bucket_short l ssp b \<Longrightarrow> (1 - err) * (1 - 1 / 2 ^ 50) * (real (b - 1) * log 2 (real n)) \<le> real ssp"
    and "10 \<le> log 2 (real n)"
proof -
  let ?u = "1 / 2 ^ 53 :: real" and ?k = "real (b - 1)" and ?L = "log 2 (real n)" and ?x = "f64_val (f64_of_nat n)"
  show L: "10 \<le> ?L" by (rule log2_big [OF n])
  note x = log2_rounded [OF n]
  have e: "\<bar>f64_val l - log 2 ?x\<bar> \<le> err * log 2 ?x" using ok(1) x(1) by (simp add: log2_within_def l_def)
  have lx: "(1 - ?u) * ?L \<le> log 2 ?x" "log 2 ?x \<le> (1 + ?u) * ?L" using x(2) by (simp_all add: f64_near_def)
  have "(1 - err) * log 2 ?x \<le> f64_val l" "f64_val l \<le> (1 + err) * log 2 ?x" using e by (simp_all add: abs_le_iff algebra_simps)
  then have l: "(1 - err) * ((1 - ?u) * ?L) \<le> f64_val l" "f64_val l \<le> (1 + err) * ((1 + ?u) * ?L)"
    using mult_left_mono [OF lx(1), of "1 - err"] mult_left_mono [OF lx(2), of "1 + err"] ok(2,3) by linarith+
  have k: "(1 - ?u) * ?k \<le> f64_val (f64_of_nat (b - 1))" "f64_val (f64_of_nat (b - 1)) \<le> (1 + ?u) * ?k"
    using f64_of_nat_near [of "b - 1"] by (simp_all add: f64_near_def)
  have s: "(1 - ?u) * real ssp \<le> f64_val (f64_of_nat ssp)" "f64_val (f64_of_nat ssp) \<le> (1 + ?u) * real ssp"
    using f64_of_nat_near [of ssp] by (simp_all add: f64_near_def)
  let ?p = "f64_val (f64_mul l (f64_of_nat (b - 1)))"
  have p: "(1 - ?u) * (f64_val l * f64_val (f64_of_nat (b - 1))) \<le> ?p" "?p \<le> (1 + ?u) * (f64_val l * f64_val (f64_of_nat (b - 1)))"
    using f64_mul_near [of l "f64_of_nat (b - 1)"] by (simp_all add: f64_near_def)
  have nn: "0 \<le> (1 - err) * ((1 - ?u) * ?L)" "0 \<le> (1 - ?u) * ?k" using ok(3) L by simp_all
  have hi: "f64_val l * f64_val (f64_of_nat (b - 1)) \<le> (1 + err) * ((1 + ?u) * ?L) * ((1 + ?u) * ?k)"
    by (rule mult_mono [OF l(2) k(2)]) (use ok(2) L k(1) nn in \<open>auto intro: order_trans\<close>)
  have lo: "(1 - err) * ((1 - ?u) * ?L) * ((1 - ?u) * ?k) \<le> f64_val l * f64_val (f64_of_nat (b - 1))"
    by (rule mult_mono [OF l(1) k(1)]) (use nn l(1) in \<open>auto intro: order_trans\<close>)
  have kL: "0 \<le> ?k * ?L" using L by simp
  show "real ssp < (1 + err) * (1 + 1 / 2 ^ 50) * (?k * ?L)" if "\<not> bucket_short l ssp b"
  proof -
    note s(1)
    also have "f64_val (f64_of_nat ssp) < ?p" using that by (simp add: bucket_short_def)
    also note p(2)
    also have "(1 + ?u) * (f64_val l * f64_val (f64_of_nat (b - 1))) \<le> (1 + ?u) * ((1 + err) * ((1 + ?u) * ?L) * ((1 + ?u) * ?k))"
      by (rule mult_left_mono [OF hi]) simp
    also have "\<dots> = (1 + ?u) ^ 3 * ((1 + err) * (?k * ?L))" by (simp only: power3_eq_cube mult_ac)
    also have "\<dots> \<le> ((1 - ?u) * (1 + 1 / 2 ^ 50)) * ((1 + err) * (?k * ?L))"
      by (rule mult_right_mono) (use ok(2) kL in \<open>simp_all add: power3_eq_cube\<close>)
    also have "\<dots> = (1 - ?u) * ((1 + err) * (1 + 1 / 2 ^ 50) * (?k * ?L))" by (simp only: mult_ac)
    finally show ?thesis by (rule mult_left_less_imp_less) simp
  qed
  show "(1 - err) * (1 - 1 / 2 ^ 50) * (?k * ?L) \<le> real ssp" if "bucket_short l ssp b"
  proof -
    have "(1 + ?u) * ((1 - err) * (1 - 1 / 2 ^ 50) * (?k * ?L)) = ((1 + ?u) * (1 - 1 / 2 ^ 50)) * ((1 - err) * (?k * ?L))" by (simp only: mult_ac)
    also have "\<dots> \<le> (1 - ?u) ^ 3 * ((1 - err) * (?k * ?L))"
      by (rule mult_right_mono) (use ok(3) kL in \<open>simp_all add: power3_eq_cube\<close>)
    also have "\<dots> = (1 - ?u) * ((1 - err) * ((1 - ?u) * ?L) * ((1 - ?u) * ?k))" by (simp only: power3_eq_cube mult_ac)
    also have "\<dots> \<le> (1 - ?u) * (f64_val l * f64_val (f64_of_nat (b - 1)))"
      by (rule mult_left_mono [OF lo]) simp
    also note p(1)
    also have "?p \<le> f64_val (f64_of_nat ssp)" using that by (simp add: bucket_short_def)
    also note s(2)
    finally show ?thesis by (rule mult_left_le_imp_le) simp
  qed
qed

lemma bucket_exact:
  assumes "f64_val l = real a" and "ssp < 2 ^ 52" and "k < 2 ^ 53"
  shows "f64_val (f64_mul l (f64_of_nat k)) \<le> f64_val (f64_of_nat ssp) \<longleftrightarrow> a * k \<le> ssp"
proof -
  have s: "f64_val (f64_of_nat ssp) = real ssp" using assms(2) by (intro f64_val_of_nat) simp
  show ?thesis
  proof (cases "a * k < 2 ^ 53")
    case True
    then show ?thesis unfolding s f64_mul_exact [OF assms(1) True assms(3)] by (simp only: of_nat_le_iff)
  next
    case False
    then have "real (2 ^ 53) \<le> real (a * k)" by (simp only: of_nat_le_iff not_less)
    then have big: "2 ^ 53 \<le> f64_val l * f64_val (f64_of_nat k)" by (simp add: assms(1) f64_val_of_nat [OF assms(3)])
    have "(1 - 1 / 2 ^ 53) * 2 ^ 53 \<le> (1 - 1 / 2 ^ 53) * (f64_val l * f64_val (f64_of_nat k))"
      by (rule mult_left_mono [OF big]) simp
    also have "\<dots> \<le> f64_val (f64_mul l (f64_of_nat k))" using f64_mul_near by (simp only: f64_near_def)
    finally have "(1 - 1 / 2 ^ 53) * 2 ^ 53 \<le> f64_val (f64_mul l (f64_of_nat k))" .
    moreover have "real ssp < 2 ^ 52" using assms(2) by (simp flip: of_nat_power add: of_nat_less_iff)
    ultimately have "real ssp < f64_val (f64_mul l (f64_of_nat k))" by simp
    then show ?thesis using False assms(2) s by simp
  qed
qed

lemma bucket_size_runs:
  assumes ok: "log2_within flog2 err" "0 \<le> err" "err < 1"
  shows "\<exists>b. get_bucket_size flog2 pool n = Some b \<and> 2 \<le> b \<and> \<not> bucket_short (flog2 (f64_of_nat (max n 1024))) (tp_ssp pool) b
     \<and> (\<forall>k. 2 \<le> k \<longrightarrow> k < b \<longrightarrow> bucket_short (flog2 (f64_of_nat (max n 1024))) (tp_ssp pool) k)"
proof -
  let ?n = "max n 1024" and ?l = "flog2 (f64_of_nat (max n 1024))"
  have n: "1024 \<le> ?n" by simp
  define x where "x = (1 - err) * (1 - 1 / 2 ^ 50) * log 2 (real ?n)"
  have "0 < x" unfolding x_def using ok(3) log2_big [OF n] by (intro mult_pos_pos) simp_all
  then obtain k where k: "real (tp_ssp pool) < real k * x" using reals_Archimedean3 by blast
  have "\<not> bucket_short ?l (tp_ssp pool) (k + 2)"
  proof
    assume "bucket_short ?l (tp_ssp pool) (k + 2)"
    from bucket_bounds(2) [OF n ok this] have "real (k + 1) * x \<le> real (tp_ssp pool)" by (simp add: x_def mult_ac)
    then show False using k \<open>0 < x\<close> by (simp add: distrib_right)
  qed
  then show ?thesis using bucket_from_finds [of 2 "k + 2" ?l "tp_ssp pool"] by (simp add: get_bucket_size_def Let_def)
qed

text \<open>C38: \<open>get_bucket_size\<close> ends, and returns the smallest bucket of at least two triples whose cut-and-choose bound
  \<open>(bucket - 1) * log2(size)\<close> is above the statistical security parameter, the size being at least 1024. The loop
  computes in \<open>f64\<close>, with rounding after every operation, and with a logarithm whose relative error is at most \<open>err\<close>; so
  against the real logarithm this is right up to the factors \<open>1 + err\<close> and \<open>1 - err\<close> of the logarithm and \<open>1 + 2 ^ -50\<close> and
  \<open>1 - 2 ^ -50\<close> of the rounding. It is right exactly, with the strict comparison, whenever the logarithm it gets is an
  integer, as it is for a size that is a power of two when the library computes that exactly, and the parameter is
  below \<open>2 ^ 52\<close>.\<close>
theorem bucket_size_secure_and_minimal:
  assumes "log2_within flog2 err" "0 \<le> err" "err < 1"
  shows "\<exists>b. get_bucket_size flog2 pool n = Some b \<and> 2 \<le> b
     \<and> real (tp_ssp pool) < (1 + err) * (1 + 1 / 2 ^ 50) * (real (b - 1) * log 2 (real (max n 1024)))
     \<and> (\<forall>k. 2 \<le> k \<longrightarrow> k < b \<longrightarrow>
          (1 - err) * (1 - 1 / 2 ^ 50) * (real (k - 1) * log 2 (real (max n 1024))) \<le> real (tp_ssp pool))
     \<and> (\<forall>a. f64_val (flog2 (f64_of_nat (max n 1024))) = real a \<longrightarrow> tp_ssp pool < 2 ^ 52 \<longrightarrow>
          tp_ssp pool < a * (b - 1) \<and> (2 < b \<longrightarrow> a * (b - 2) \<le> tp_ssp pool))"
proof -
  let ?n = "max n 1024" and ?ssp = "tp_ssp pool"
  define l where "l = flog2 (f64_of_nat ?n)"
  have n: "1024 \<le> ?n" by simp
  obtain b where b: "get_bucket_size flog2 pool n = Some b" "2 \<le> b" and hi: "\<not> bucket_short l ?ssp b"
    and lo: "\<And>k. 2 \<le> k \<Longrightarrow> k < b \<Longrightarrow> bucket_short l ?ssp k"
    using bucket_size_runs [OF assms, of pool n] unfolding l_def by blast
  note bounds = bucket_bounds [OF n assms, folded l_def]
  have exact: "?ssp < a * (b - 1) \<and> (2 < b \<longrightarrow> a * (b - 2) \<le> ?ssp)" if a: "f64_val l = real a" and s: "?ssp < 2 ^ 52" for a
  proof -
    have "0 < a" using log2_pos [OF n assms] a unfolding l_def by simp
    have k: "b - 1 < 2 ^ 53"
    proof (rule ccontr)
      assume "\<not> b - 1 < 2 ^ 53"
      then have "bucket_short l ?ssp (2 ^ 52 + 2)" by (intro lo) simp_all
      then have "a * (2 ^ 52 + 1) \<le> ?ssp" using bucket_exact [OF a s, of "2 ^ 52 + 1"] by (simp add: bucket_short_def)
      moreover have "2 ^ 52 + 1 \<le> a * (2 ^ 52 + 1)" using \<open>0 < a\<close> by (cases a) simp_all
      ultimately have "2 ^ 52 + 1 \<le> ?ssp" by (rule order_trans [rotated])
      then show False using s by simp
    qed
    have "?ssp < a * (b - 1)" using bucket_exact [OF a s k] hi by (simp add: bucket_short_def)
    moreover have "a * (b - 2) \<le> ?ssp" if "2 < b"
    proof -
      have "bucket_short l ?ssp (b - 1)" using lo [of "b - 1"] that by simp
      then show ?thesis using bucket_exact [OF a s, of "b - 2"] k by (simp add: bucket_short_def numeral_2_eq_2)
    qed
    ultimately show ?thesis by blast
  qed
  show ?thesis using b bounds(1) [OF hi] bounds(2) [OF lo] exact unfolding l_def by blast
qed

definition floor_log2 :: "f64 \<Rightarrow> f64" where
  \<comment> \<open>a logarithm that is right to 43 bits after the point\<close>
  "floor_log2 x = \<lparr>f64_significand = nat \<lfloor>log 2 (f64_val x) * 2 ^ 43\<rfloor>, f64_exponent = - 43\<rparr>"

lemma floor_log2_within: "log2_within floor_log2 (1 / 2 ^ 40)"
  unfolding log2_within_def
proof (intro allI impI)
  fix x assume "1024 \<le> f64_val x"
  then have "(2 :: real) powr 10 \<le> f64_val x" by simp
  then have L: "10 \<le> log 2 (f64_val x)" using \<open>1024 \<le> f64_val x\<close> by (subst le_log_iff) simp_all
  let ?y = "log 2 (f64_val x) * 2 ^ 43"
  have "real (nat \<lfloor>?y\<rfloor>) = real_of_int \<lfloor>?y\<rfloor>" using L by simp
  then have v: "f64_val (floor_log2 x) = real_of_int \<lfloor>?y\<rfloor> / 2 ^ 43"
    by (simp add: f64_val_def floor_log2_def powr_minus_divide)
  have "\<bar>real_of_int \<lfloor>?y\<rfloor> - ?y\<bar> \<le> 1" by linarith
  then have "\<bar>f64_val (floor_log2 x) - log 2 (f64_val x)\<bar> \<le> 1 / 2 ^ 43" unfolding v by (simp add: field_simps abs_le_iff)
  also have "\<dots> \<le> 1 / 2 ^ 40 * log 2 (f64_val x)" using L by simp
  finally show "\<bar>f64_val (floor_log2 x) - log 2 (f64_val x)\<bar> \<le> 1 / 2 ^ 40 * log 2 (f64_val x)" .
qed

theorem bucket_size_secure_and_minimal_witness:
  "get_bucket_size floor_log2 (triple_pool_new Alice 40 0) 1000 = Some 6"
proof -
  let ?pool = "triple_pool_new Alice 40 0"
  have ssp: "tp_ssp ?pool = 40" by (simp add: triple_pool_new_def)
  have m: "max 1000 1024 = (1024 :: nat)" by simp
  have "log 2 1024 = (10 :: real)" using log_pow_cancel [of 2 10] by simp
  then have a: "f64_val (floor_log2 (f64_of_nat (max 1000 1024))) = real 10"
    by (simp add: floor_log2_def f64_val_of_nat m f64_val_def [of "\<lparr>f64_significand = _, f64_exponent = _\<rparr>"] powr_minus_divide)
  obtain b where b: "get_bucket_size floor_log2 ?pool 1000 = Some b" "2 \<le> b" "40 < 10 * (b - 1)" "2 < b \<longrightarrow> 10 * (b - 2) \<le> 40"
    using bucket_size_secure_and_minimal [OF floor_log2_within, of ?pool 1000] a unfolding ssp by auto
  have "b = 6" using b(2-4) by linarith
  then show ?thesis using b(1) by simp
qed

end
