(* ===== verification/Soft_Spoken.thy ===== *)
theory Soft_Spoken
  imports Gf128 Bit_Transpose
begin

text \<open>
  The state machine of the SoftSpoken OT extension (\<open>softspoken.rs\<close> of \<open>shachain2pc-mpc-core\<close>): correlated
  GGM trees, the two butterflies that turn their leaves into planes of bits, the state with its
  sessions, its leftover buffer and its two consistency checks. AES-128 is the parameter \<open>aes\<close>,
  SHA-256 the parameter \<open>sha256\<close>; a hash in progress is the bytes it has taken. Alice is the sender of
  the correlated OTs, Bob the receiver. A failed \<open>assert!\<close> and an index out of range are the result
  \<open>None\<close> in the pure routines and the error \<open>SPanic\<close> in the operations of the state. The leaves and the
  planes have their full length from the setup on; the operations that read them are modelled from there.
\<close>

unbundle bit_operations_syntax

section \<open>Constants and errors\<close>

definition SOFTSPOKEN_K :: nat where "SOFTSPOKEN_K = 4"
definition SOFTSPOKEN_N :: nat where "SOFTSPOKEN_N = 128 div SOFTSPOKEN_K"
definition SOFTSPOKEN_Q :: nat where "SOFTSPOKEN_Q = 2 ^ SOFTSPOKEN_K"
definition SOFTSPOKEN_CHUNK_BLOCKS :: nat where "SOFTSPOKEN_CHUNK_BLOCKS = 64"
definition SOFTSPOKEN_CHUNK_OTS :: nat where "SOFTSPOKEN_CHUNK_OTS = SOFTSPOKEN_CHUNK_BLOCKS * 128"
definition REVEAL_DIGEST_BYTES :: nat where "REVEAL_DIGEST_BYTES = 32"
definition SOFTSPOKEN_PPRF_CHECK_HIGH :: u64 where "SOFTSPOKEN_PPRF_CHECK_HIGH = 0x70505246434b5f00"

datatype softspoken_error =
    BadDeltaRole
  | MaliciousCheckMismatch
  | PprfBufferLength nat nat
  | PprfDigestLength nat nat
  | PprfCheckMismatch
  | BaseOtLength nat nat
  | SPanic

fun show_softspoken_error :: "softspoken_error \<Rightarrow> string" where
  "show_softspoken_error BadDeltaRole = ''SoftSpoken delta can only be set before Alice setup starts''"
| "show_softspoken_error MaliciousCheckMismatch = ''SoftSpoken malicious check mismatch''"
| "show_softspoken_error (PprfBufferLength e a) =
     ''SoftSpoken PPRF buffer length mismatch: expected '' @ dec_string e @ '', got '' @ dec_string a"
| "show_softspoken_error (PprfDigestLength e a) =
     ''SoftSpoken PPRF digest length mismatch: expected '' @ dec_string e @ '', got '' @ dec_string a"
| "show_softspoken_error PprfCheckMismatch = ''SoftSpoken PPRF check mismatch''"
| "show_softspoken_error (BaseOtLength e a) =
     ''SoftSpoken base OT length mismatch: expected '' @ dec_string e @ '', got '' @ dec_string a"
| "show_softspoken_error SPanic = ''panic''"

section \<open>GGM trees\<close>

definition CGGM_LSB_CLEAR_MASK :: block where
  "CGGM_LSB_CLEAR_MASK = block_from_bytes (0xfe # replicate 15 0xff)"

definition ccrh_hash :: "(block \<Rightarrow> block \<Rightarrow> block) \<Rightarrow> block \<Rightarrow> block" where
  "ccrh_hash aes b = (let s = sigma b in aes 0 s XOR s)"

definition cggm_bit_reverse :: "u32 \<Rightarrow> nat \<Rightarrow> u32" where
  "cggm_bit_reverse x depth =
     snd (fold (\<lambda>_ (x, out). (drop_bit 1 x, push_bit 1 out OR (x AND 1))) [0..<depth] (x, 0))"

definition cggm_expand_node ::
  "(block \<Rightarrow> block \<Rightarrow> block) \<Rightarrow> nat \<Rightarrow> bool \<Rightarrow> bool \<Rightarrow> nat \<Rightarrow> block list \<times> block \<Rightarrow> block list \<times> block" where
  "cggm_expand_node aes parents want_right clear_lsb j = (\<lambda>(leaves, sum).
     let parent = leaves ! j; left = ccrh_hash aes parent; right = parent XOR left;
         left = (if clear_lsb then left AND CGGM_LSB_CLEAR_MASK else left);
         right = (if clear_lsb then right AND CGGM_LSB_CLEAR_MASK else right)
     in (leaves[parents + j := right, j := left], sum XOR (if want_right then right else left)))"

definition cggm_expand_level ::
  "(block \<Rightarrow> block \<Rightarrow> block) \<Rightarrow> nat \<Rightarrow> bool \<Rightarrow> bool \<Rightarrow> block list \<Rightarrow> block list \<times> block" where
  "cggm_expand_level aes parents want_right clear_lsb leaves =
     fold (cggm_expand_node aes parents want_right clear_lsb) [0..<parents] (leaves, 0)"

definition cggm_build_level ::
  "(block \<Rightarrow> block \<Rightarrow> block) \<Rightarrow> bool \<Rightarrow> nat \<Rightarrow> block list \<times> block list \<Rightarrow> block list \<times> block list" where
  "cggm_build_level aes clear level = (\<lambda>(leaves, k0).
     let (leaves, sum) = cggm_expand_level aes (2 ^ (level - 1)) False clear leaves in (leaves, k0[level - 1 := sum]))"

definition cggm_build_sender ::
  "(block \<Rightarrow> block \<Rightarrow> block) \<Rightarrow> nat \<Rightarrow> block \<Rightarrow> block \<Rightarrow> bool \<Rightarrow> (block list \<times> block list) option" where
  "cggm_build_sender aes depth delta root clear_leaf_lsb =
     (if depth < 1 then None
      else let q = 2 ^ depth; leaves = replicate q 0; k0 = replicate depth 0;
               leaves = leaves[0 := root, 1 := delta XOR root]; k0 = k0[0 := root];
               st = fold (cggm_build_level aes False) [2..<depth] (leaves, k0)
           in Some (if 2 \<le> depth then cggm_build_level aes clear_leaf_lsb depth st else st))"

definition cggm_eval_level ::
  "(block \<Rightarrow> block \<Rightarrow> block) \<Rightarrow> nat \<Rightarrow> nat \<Rightarrow> block list \<Rightarrow> bool \<Rightarrow> nat \<Rightarrow> block list \<times> nat \<Rightarrow> block list \<times> nat" where
  "cggm_eval_level aes depth alpha recv_keys clear_leaf_lsb level = (\<lambda>(leaves, pos).
     let half = 2 ^ (level - 1); alpha_i = drop_bit (depth - level) alpha AND 1; alpha_bar_i = 1 - alpha_i;
         clear = (clear_leaf_lsb \<and> level = depth);
         (leaves, sum_pre) = cggm_expand_level aes half (alpha_bar_i \<noteq> 0) clear leaves;
         junk = leaves ! pos;
         leaves = leaves[pos := 0, pos + half := 0];
         sibling = (sum_pre XOR junk) XOR recv_keys ! (level - 1);
         sibling = (if clear then sibling AND CGGM_LSB_CLEAR_MASK else sibling)
     in (leaves[pos + alpha_bar_i * half := sibling], pos + alpha_i * half))"

definition cggm_eval_receiver ::
  "(block \<Rightarrow> block \<Rightarrow> block) \<Rightarrow> nat \<Rightarrow> nat \<Rightarrow> block list \<Rightarrow> bool \<Rightarrow> block list option" where
  "cggm_eval_receiver aes depth alpha recv_keys clear_leaf_lsb =
     (if depth < 1 \<or> length recv_keys \<noteq> depth then None
      else let leaves = replicate (2 ^ depth) 0;
               alpha_1 = drop_bit (depth - 1) alpha AND 1; alpha_bar_1 = 1 - alpha_1;
               leaves = leaves[alpha_bar_1 := recv_keys ! 0]
           in Some (fst (fold (cggm_eval_level aes depth alpha recv_keys clear_leaf_lsb) [2..<Suc depth] (leaves, alpha_1))))"

section \<open>Butterflies\<close>

definition butterfly_pair :: "nat \<Rightarrow> block \<times> block list \<Rightarrow> block \<times> block list" where
  "butterfly_pair y = (\<lambda>(acc, r). let lo = r ! (2 * y); hi = r ! (2 * y + 1) in (acc XOR hi, r[y := lo XOR hi]))"

definition butterfly_round :: "nat \<Rightarrow> nat \<Rightarrow> nat \<Rightarrow> nat \<times> block list \<times> block list \<Rightarrow> nat \<times> block list \<times> block list" where
  "butterfly_round bs j b = (\<lambda>(n, r, v).
     let half = n div 2; (acc, r) = fold butterfly_pair [0..<half] (0, r) in (half, r, v[b * bs + j := acc]))"

definition sfvole_sender_column ::
  "(block \<Rightarrow> block \<Rightarrow> block) \<Rightarrow> nat \<Rightarrow> block list \<Rightarrow> u64 \<Rightarrow> nat \<Rightarrow> block \<Rightarrow> nat \<Rightarrow> block list \<times> block list \<Rightarrow> block list \<times> block list" where
  "sfvole_sender_column aes k leaves counter_base bs key j = (\<lambda>(u, v).
     let ctr = block_make 0 (counter_base + of_nat j);
         inputs = map (\<lambda>leaf. ctr XOR leaf) leaves;
         r = map2 (XOR) (prp_permute_block aes key inputs) inputs;
         (n, r, v) = fold (butterfly_round bs j) [0..<k] (2 ^ k, r, v)
     in (u[j := r ! 0], v))"

definition sfvole_sender_butterfly ::
  "(block \<Rightarrow> block \<Rightarrow> block) \<Rightarrow> nat \<Rightarrow> block list \<Rightarrow> u64 \<Rightarrow> nat \<Rightarrow> u64 \<Rightarrow> (block list \<times> block list) option" where
  "sfvole_sender_butterfly aes k leaves counter_base bs session_id =
     (if k < 2 \<or> length leaves \<noteq> 2 ^ k then None
      else Some (fold (sfvole_sender_column aes k leaves counter_base bs (block_make 0 session_id)) [0..<bs]
                   (replicate bs 0, replicate (k * bs) 0)))"

definition sfvole_receiver_column ::
  "(block \<Rightarrow> block \<Rightarrow> block) \<Rightarrow> nat \<Rightarrow> nat \<Rightarrow> block list \<Rightarrow> u64 \<Rightarrow> nat \<Rightarrow> block \<Rightarrow> nat \<Rightarrow> block list \<Rightarrow> block list" where
  "sfvole_receiver_column aes k alpha leaves counter_base bs key j w =
     (let ctr = block_make 0 (counter_base + of_nat j);
          inputs = map (\<lambda>y. ctr XOR leaves ! (alpha XOR y)) [0..<2 ^ k];
          r = map2 (XOR) (prp_permute_block aes key inputs) inputs;
          (n, r, w) = fold (butterfly_round bs j) [0..<k] (2 ^ k, r, w)
      in w)"

definition sfvole_receiver_butterfly ::
  "(block \<Rightarrow> block \<Rightarrow> block) \<Rightarrow> nat \<Rightarrow> nat \<Rightarrow> block list \<Rightarrow> u64 \<Rightarrow> nat \<Rightarrow> u64 \<Rightarrow> block list option" where
  "sfvole_receiver_butterfly aes k alpha leaves counter_base bs session_id =
     (if k < 2 \<or> length leaves \<noteq> 2 ^ k \<or> 0 < bs \<and> 2 ^ k \<le> alpha then None
      else Some (fold (sfvole_receiver_column aes k alpha leaves counter_base bs (block_make 0 session_id)) [0..<bs]
                   (replicate (k * bs) 0)))"

section \<open>State\<close>

record softspoken =
  so_role :: role
  so_malicious :: bool
  so_setup_done :: bool
  so_delta :: block
  so_delta_bool :: "bool list"
  so_choice_prg :: prg
  so_session :: u64
  so_cur_send_session :: u64
  so_cur_recv_session :: u64
  so_cur_send_b0 :: u64
  so_cur_recv_b0 :: u64
  so_leftover :: "block list"
  so_leftover_pos :: nat
  so_leftover_count :: nat
  so_alphas :: "nat list"
  so_leaves_recv :: "block list"
  so_leaves_send :: "block list"
  so_check_q :: block
  so_check_t :: block
  so_check_x :: block

definition block_to_bools :: "block \<Rightarrow> bool list" where
  "block_to_bools b = (let bs = block_bytes b in map (\<lambda>i. drop_bit (i mod 8) (bs ! (i div 8)) AND 1 \<noteq> 0) [0..<128])"

definition softspoken_new :: "role \<Rightarrow> bool \<Rightarrow> block \<Rightarrow> block \<Rightarrow> softspoken" where
  "softspoken_new r malicious delta choice_seed =
     (let (delta, delta_bool) = (if r = Alice then (delta, block_to_bools delta) else (0, replicate 128 False))
      in \<lparr>so_role = r, so_malicious = malicious, so_setup_done = False, so_delta = delta, so_delta_bool = delta_bool,
          so_choice_prg = prg_new choice_seed 0, so_session = 0, so_cur_send_session = 0, so_cur_recv_session = 0,
          so_cur_send_b0 = 0, so_cur_recv_b0 = 0, so_leftover = [], so_leftover_pos = 0, so_leftover_count = 0,
          so_alphas = replicate SOFTSPOKEN_N 0, so_leaves_recv = [], so_leaves_send = [],
          so_check_q = 0, so_check_t = 0, so_check_x = 0\<rparr>)"

definition softspoken_set_delta :: "block \<Rightarrow> softspoken \<Rightarrow> softspoken_error + softspoken" where
  "softspoken_set_delta delta s =
     (if so_setup_done s \<or> so_role s \<noteq> Alice then Inl BadDeltaRole
      else Inr (s\<lparr>so_delta := delta, so_delta_bool := block_to_bools delta\<rparr>))"

definition reset_leftover :: "softspoken \<Rightarrow> softspoken" where
  "reset_leftover s = s\<lparr>so_leftover_pos := 0, so_leftover_count := 0\<rparr>"

definition drain_leftover :: "nat \<Rightarrow> softspoken \<Rightarrow> softspoken_error + block list \<times> softspoken" where
  \<comment> \<open>the blocks copied to the start of a buffer of \<open>len\<close> blocks\<close>
  "drain_leftover len s =
     (if so_leftover_count s = 0 \<or> len = 0 then Inr ([], s)
      else let take_n = min len (so_leftover_count s); start = so_leftover_pos s
           in if start + take_n > length (so_leftover s) then Inl SPanic
              else Inr (take take_n (drop start (so_leftover s)),
                s\<lparr>so_leftover_pos := so_leftover_pos s + take_n, so_leftover_count := so_leftover_count s - take_n\<rparr>))"

definition begin_send_session :: "softspoken \<Rightarrow> softspoken" where
  "begin_send_session s =
     (let s = s\<lparr>so_cur_send_session := so_session s, so_session := so_session s + 1, so_cur_send_b0 := 0\<rparr>
      in if so_malicious s then s\<lparr>so_check_q := 0\<rparr> else s)"

definition begin_recv_session :: "softspoken \<Rightarrow> softspoken" where
  "begin_recv_session s =
     (let s = s\<lparr>so_cur_recv_session := so_session s, so_session := so_session s + 1, so_cur_recv_b0 := 0\<rparr>
      in if so_malicious s then s\<lparr>so_check_t := 0, so_check_x := 0\<rparr> else s)"

definition verify_send_check :: "block \<Rightarrow> block \<Rightarrow> softspoken \<Rightarrow> softspoken_error + unit" where
  "verify_send_check check_x check_t s =
     (let lhs = so_check_q s XOR gf_mul_soft check_x (so_delta s)
      in if lhs \<noteq> check_t then Inl MaliciousCheckMismatch else Inr ())"

definition recv_check_blocks :: "softspoken \<Rightarrow> block \<times> block" where
  "recv_check_blocks s = (so_check_x s, so_check_t s)"

section \<open>Setup\<close>

definition alpha_of :: "bool list \<Rightarrow> nat \<Rightarrow> nat" where
  "alpha_of delta_bool i =
     fold (\<lambda>b alpha. if delta_bool ! (i * SOFTSPOKEN_K + b) then alpha OR push_bit b 1 else alpha) [0..<SOFTSPOKEN_K] 0"

definition bootstrap_send_choices :: "softspoken \<Rightarrow> bool list \<times> softspoken" where
  "bootstrap_send_choices s =
     fold (\<lambda>i (choices, s).
        let alpha = alpha_of (so_delta_bool s) i
        in (choices @ map (\<lambda>b. drop_bit b alpha AND 1 = 0) [0..<SOFTSPOKEN_K],
            s\<lparr>so_alphas := (so_alphas s)[i := alpha]\<rparr>))
       [0..<SOFTSPOKEN_N] ([], s)"

definition set_slice :: "nat \<Rightarrow> 'a list \<Rightarrow> 'a list \<Rightarrow> 'a list" where
  \<comment> \<open>\<open>dst[at..at + src.len()].copy_from_slice(src)\<close>\<close>
  "set_slice at src dst = take at dst @ src @ drop (at + length src) dst"

definition bootstrap_send_apply_received ::
  "(block \<Rightarrow> block \<Rightarrow> block) \<Rightarrow> block list \<Rightarrow> softspoken \<Rightarrow> softspoken_error + softspoken" where
  "bootstrap_send_apply_received aes received s =
     (if length received \<noteq> SOFTSPOKEN_N * SOFTSPOKEN_K
      then Inl (BaseOtLength (SOFTSPOKEN_N * SOFTSPOKEN_K) (length received))
      else foldR (\<lambda>i s.
          let path = unat (cggm_bit_reverse (of_nat (so_alphas s ! i)) SOFTSPOKEN_K)
          in bindR (okOr SPanic (cggm_eval_receiver aes SOFTSPOKEN_K path
                      (take SOFTSPOKEN_K (drop (i * SOFTSPOKEN_K) received)) False)) (\<lambda>leaves.
               Inr (s\<lparr>so_leaves_recv := set_slice (i * SOFTSPOKEN_Q) leaves (so_leaves_recv s)\<rparr>)))
        [0..<SOFTSPOKEN_N] (s\<lparr>so_leaves_recv := replicate (SOFTSPOKEN_N * SOFTSPOKEN_Q) 0\<rparr>))"

definition bootstrap_recv_keys ::
  "(block \<Rightarrow> block \<Rightarrow> block) \<Rightarrow> softspoken \<Rightarrow> softspoken_error + (block list \<times> block list) \<times> softspoken" where
  "bootstrap_recv_keys aes s =
     foldR (\<lambda>i ((k0, k1), s).
        let (pair, g) = prg_random_block aes 2 (so_choice_prg s); s = s\<lparr>so_choice_prg := g\<rparr>
        in bindR (okOr SPanic (cggm_build_sender aes SOFTSPOKEN_K (pair ! 0) (pair ! 1) False)) (\<lambda>(leaves, k0_i).
             Inr ((k0 @ k0_i, k1 @ map (\<lambda>key. key XOR pair ! 0) k0_i),
                  s\<lparr>so_leaves_send := set_slice (i * SOFTSPOKEN_Q) leaves (so_leaves_send s)\<rparr>)))
       [0..<SOFTSPOKEN_N] (([], []), s\<lparr>so_leaves_send := replicate (SOFTSPOKEN_N * SOFTSPOKEN_Q) 0\<rparr>)"

definition mark_setup_done :: "softspoken \<Rightarrow> softspoken" where
  "mark_setup_done s = s\<lparr>so_setup_done := True\<rparr>"

section \<open>The check of the trees\<close>

definition aes_dm :: "(block \<Rightarrow> block \<Rightarrow> block) \<Rightarrow> block \<Rightarrow> u64 \<Rightarrow> block \<Rightarrow> block" where
  "aes_dm aes key counter tweak = (let pt = block_make 0 counter XOR tweak in aes key pt XOR pt)"

definition aes_dm_3 :: "(block \<Rightarrow> block \<Rightarrow> block) \<Rightarrow> block \<Rightarrow> block \<Rightarrow> block \<times> block \<times> block" where
  "aes_dm_3 aes key tweak = (aes_dm aes key 0 tweak, aes_dm aes key 1 tweak, aes_dm aes key 2 tweak)"

definition pprf_check_key :: block where
  "pprf_check_key = block_make SOFTSPOKEN_PPRF_CHECK_HIGH 0"

definition pprf_send_leaf ::
  "(block \<Rightarrow> block \<Rightarrow> block) \<Rightarrow> nat \<Rightarrow> nat \<Rightarrow> (block \<times> block) \<times> bytes \<times> block list \<Rightarrow> (block \<times> block) \<times> bytes \<times> block list" where
  "pprf_send_leaf aes base y = (\<lambda>((tx, ty), hash, leaves).
     let (e0, e1, e2) = aes_dm_3 aes pprf_check_key (leaves ! (base + y))
     in ((tx XOR e1, ty XOR e2), hash @ block_bytes e1 @ block_bytes e2, leaves[base + y := e0]))"

definition pprf_check_send_prepare ::
  "(block \<Rightarrow> block \<Rightarrow> block) \<Rightarrow> (bytes \<Rightarrow> bytes) \<Rightarrow> softspoken \<Rightarrow> (block list \<times> bytes) \<times> softspoken" where
  "pprf_check_send_prepare aes sha256 s =
     (let (t_buf, hash, leaves) = fold (\<lambda>i (t_buf, hash, leaves).
            let ((tx, ty), hash, leaves) = fold (pprf_send_leaf aes (i * SOFTSPOKEN_Q)) [0..<SOFTSPOKEN_Q] ((0, 0), hash, leaves)
            in (t_buf[i * 2 := tx, i * 2 + 1 := ty], hash, leaves))
          [0..<SOFTSPOKEN_N] (replicate (SOFTSPOKEN_N * 2) 0, [], so_leaves_send s)
      in ((t_buf, sha256 hash), s\<lparr>so_leaves_send := leaves\<rparr>))"

definition pprf_recv_leaf ::
  "(block \<Rightarrow> block \<Rightarrow> block) \<Rightarrow> nat \<Rightarrow> nat \<Rightarrow> nat \<Rightarrow> (block \<times> block) \<times> block list \<times> block list \<Rightarrow> (block \<times> block) \<times> block list \<times> block list" where
  "pprf_recv_leaf aes base alpha y = (\<lambda>((tx, ty), s_buf, leaves).
     if y = alpha then ((tx, ty), s_buf, leaves)
     else let (e0, e1, e2) = aes_dm_3 aes pprf_check_key (leaves ! (base + y))
       in ((tx XOR e1, ty XOR e2), s_buf[y * 2 := e1, y * 2 + 1 := e2], leaves[base + y := e0]))"

definition pprf_recv_tree ::
  "(block \<Rightarrow> block \<Rightarrow> block) \<Rightarrow> block list \<Rightarrow> nat list \<Rightarrow> nat \<Rightarrow> bytes \<times> block list \<times> block list \<Rightarrow> bytes \<times> block list \<times> block list" where
  "pprf_recv_tree aes t_buf alphas i = (\<lambda>(hash, s_buf, leaves).
     let alpha = alphas ! i;
         ((tx, ty), s_buf, leaves) = fold (pprf_recv_leaf aes (i * SOFTSPOKEN_Q) alpha) [0..<SOFTSPOKEN_Q] ((0, 0), s_buf, leaves);
         s_buf = s_buf[alpha * 2 := t_buf ! (i * 2) XOR tx, alpha * 2 + 1 := t_buf ! (i * 2 + 1) XOR ty]
     in (hash @ concat (map block_bytes s_buf), s_buf, leaves))"

definition pprf_check_recv_verify ::
  "(block \<Rightarrow> block \<Rightarrow> block) \<Rightarrow> (bytes \<Rightarrow> bytes) \<Rightarrow> block list \<Rightarrow> bytes \<Rightarrow> softspoken \<Rightarrow> (softspoken_error + unit) \<times> softspoken" where
  \<comment> \<open>a mismatch leaves the leaves already replaced\<close>
  "pprf_check_recv_verify aes sha256 t_buf their_digest s =
     (if length t_buf \<noteq> SOFTSPOKEN_N * 2 then (Inl (PprfBufferLength (SOFTSPOKEN_N * 2) (length t_buf)), s)
      else if length their_digest \<noteq> REVEAL_DIGEST_BYTES then (Inl (PprfDigestLength REVEAL_DIGEST_BYTES (length their_digest)), s)
      else let (hash, s_buf, leaves) = fold (pprf_recv_tree aes t_buf (so_alphas s)) [0..<SOFTSPOKEN_N]
                 ([], replicate (SOFTSPOKEN_Q * 2) 0, so_leaves_recv s);
               s = s\<lparr>so_leaves_recv := leaves\<rparr>
           in (if sha256 hash \<noteq> their_digest then Inl PprfCheckMismatch else Inr (), s))"

section \<open>Chunks\<close>

definition copy_planes :: "nat \<Rightarrow> nat \<Rightarrow> block list \<Rightarrow> block list \<Rightarrow> block list" where
  \<comment> \<open>the \<open>K\<close> rows of butterfly \<open>i\<close> into the planes\<close>
  "copy_planes bs i w planes =
     fold (\<lambda>b. set_slice ((i * SOFTSPOKEN_K + b) * bs) (take bs (drop (b * bs) w))) [0..<SOFTSPOKEN_K] planes"

definition leaves_at :: "nat \<Rightarrow> block list \<Rightarrow> block list" where
  "leaves_at i leaves = take SOFTSPOKEN_Q (drop (i * SOFTSPOKEN_Q) leaves)"

definition send_chunk_prepare :: "(block \<Rightarrow> block \<Rightarrow> block) \<Rightarrow> nat \<Rightarrow> softspoken \<Rightarrow> softspoken_error + block list" where
  "send_chunk_prepare aes bs s =
     foldR (\<lambda>i planes.
         bindR (okOr SPanic (sfvole_receiver_butterfly aes SOFTSPOKEN_K (so_alphas s ! i) (leaves_at i (so_leaves_recv s))
                   (so_cur_send_b0 s) bs (so_cur_send_session s))) (\<lambda>w.
           Inr (copy_planes bs i w planes)))
       [0..<SOFTSPOKEN_N] (replicate (128 * bs) 0)"

definition combine_send_chunk ::
  "(block \<Rightarrow> block \<Rightarrow> block) \<Rightarrow> block \<Rightarrow> block list \<Rightarrow> nat \<Rightarrow> softspoken \<Rightarrow> softspoken_error + softspoken" where
  "combine_send_chunk aes transcript_seed out bs s =
     (let (chi, g) = prg_random_block aes bs (prg_new transcript_seed 0)
      in bindR (mapR (\<lambda>i. okOr SPanic (gf_pack_128_soft (take 128 (drop (i * 128) out)))) [0..<bs]) (\<lambda>packed.
         bindR (okOr SPanic (gf_inner_product chi packed)) (\<lambda>ip.
           Inr (s\<lparr>so_check_q := so_check_q s XOR ip\<rparr>))))"

definition combine_recv_chunk ::
  "(block \<Rightarrow> block \<Rightarrow> block) \<Rightarrow> block \<Rightarrow> block list \<Rightarrow> block list \<Rightarrow> nat \<Rightarrow> softspoken \<Rightarrow> softspoken_error + softspoken" where
  "combine_recv_chunk aes transcript_seed out u_canonical bs s =
     (let (chi, g) = prg_random_block aes bs (prg_new transcript_seed 0)
      in bindR (mapR (\<lambda>i. okOr SPanic (gf_pack_128_soft (take 128 (drop (i * 128) out)))) [0..<bs]) (\<lambda>packed.
         bindR (okOr SPanic (gf_inner_product chi packed)) (\<lambda>ip.
         bindR (okOr SPanic (gf_inner_product chi u_canonical)) (\<lambda>iu.
           Inr (s\<lparr>so_check_t := so_check_t s XOR ip, so_check_x := so_check_x s XOR iu\<rparr>)))))"

definition apply_corrections :: "nat \<Rightarrow> nat list \<Rightarrow> block list \<Rightarrow> block list \<Rightarrow> block list" where
  "apply_corrections bs alphas d_bufs planes =
     fold (\<lambda>i planes.
        let d_i = take bs (drop ((i - 1) * bs) d_bufs)
        in fold (\<lambda>b planes.
             if drop_bit b (alphas ! i) AND 1 \<noteq> 0
             then let offset = (i * SOFTSPOKEN_K + b) * bs
               in fold (\<lambda>j planes. planes[offset + j := planes ! (offset + j) XOR d_i ! j]) [0..<bs] planes
             else planes) [0..<SOFTSPOKEN_K] planes)
       [1..<SOFTSPOKEN_N] planes"

definition send_chunk_finish ::
  "(block \<Rightarrow> block \<Rightarrow> block) \<Rightarrow> block list \<Rightarrow> block list \<Rightarrow> block option \<Rightarrow> nat \<Rightarrow> softspoken \<Rightarrow> softspoken_error + block list \<times> softspoken" where
  "send_chunk_finish aes planes d_bufs transcript_seed bs s =
     (let expected = (SOFTSPOKEN_N - 1) * bs
      in if length d_bufs \<noteq> expected then Inl (BaseOtLength expected (length d_bufs))
         else let planes = apply_corrections bs (so_alphas s) d_bufs planes;
                  planes = set_slice 0 (replicate bs 0) planes;
                  out = transpose_softspoken_planes planes bs
              in bindR (case transcript_seed of None \<Rightarrow> Inr s | Some seed \<Rightarrow> combine_send_chunk aes seed out bs s) (\<lambda>s.
                 Inr (out, s\<lparr>so_cur_send_b0 := so_cur_send_b0 s + of_nat bs\<rparr>)))"

definition recv_chunk_prepare ::
  "(block \<Rightarrow> block \<Rightarrow> block) \<Rightarrow> nat \<Rightarrow> softspoken \<Rightarrow> softspoken_error + block list \<times> block list \<times> block list" where
  "recv_chunk_prepare aes bs s =
     (let butterfly = (\<lambda>i. okOr SPanic (sfvole_sender_butterfly aes SOFTSPOKEN_K (leaves_at i (so_leaves_send s))
                         (so_cur_recv_b0 s) bs (so_cur_recv_session s)))
      in bindR (butterfly 0) (\<lambda>(u_canonical, v0).
         bindR (foldR (\<lambda>i (planes, d_bufs). bindR (butterfly i) (\<lambda>(u_temp, v_i).
              Inr (copy_planes bs i v_i planes,
                   fold (\<lambda>j d_bufs. d_bufs[(i - 1) * bs + j := u_canonical ! j XOR u_temp ! j]) [0..<bs] d_bufs)))
            [1..<SOFTSPOKEN_N] (copy_planes bs 0 v0 (replicate (128 * bs) 0), replicate ((SOFTSPOKEN_N - 1) * bs) 0)) (\<lambda>(planes, d_bufs).
         let planes = set_slice 0 u_canonical planes
         in Inr (d_bufs, transpose_softspoken_planes planes bs, u_canonical))))"

definition recv_chunk_finish ::
  "(block \<Rightarrow> block \<Rightarrow> block) \<Rightarrow> block option \<Rightarrow> block list \<Rightarrow> block list \<Rightarrow> nat \<Rightarrow> softspoken \<Rightarrow> softspoken_error + softspoken" where
  "recv_chunk_finish aes transcript_seed out u_canonical bs s =
     bindR (case transcript_seed of None \<Rightarrow> Inr s | Some seed \<Rightarrow> combine_recv_chunk aes seed out u_canonical bs s) (\<lambda>s.
       Inr (s\<lparr>so_cur_recv_b0 := so_cur_recv_b0 s + of_nat bs\<rparr>))"

end
