(* ===== verification/Soft_Spoken_Correct.thy ===== *)
theory Soft_Spoken_Correct
  imports Soft_Spoken
begin

text \<open>
  Facts about one honest run of the state machine: the receiver of a GGM tree learns every leaf but the
  one its path names, the two butterflies agree up to the correction by the choice bits, a chunk gives
  correlated blocks, and both consistency checks pass.
\<close>

unbundle bit_operations_syntax

section \<open>GGM trees\<close>

definition child :: "(block \<Rightarrow> block \<Rightarrow> block) \<Rightarrow> bool \<Rightarrow> block \<Rightarrow> block" where
  "child aes right p = (if right then p XOR ccrh_hash aes p else ccrh_hash aes p)"

definition expand :: "(block \<Rightarrow> block \<Rightarrow> block) \<Rightarrow> block list \<Rightarrow> block list" where
  "expand aes ps = map (child aes False) ps @ map (child aes True) ps"

lemma expand_level:
  assumes "2 * p \<le> length leaves"
  shows "cggm_expand_level aes p r False leaves =
    (expand aes (take p leaves) @ drop (2 * p) leaves, xs.F (\<lambda>j. child aes r (leaves ! j)) {..<p})"
proof -
  have "fold (cggm_expand_node aes p r False) [0..<n] (leaves, 0) =
      (map (\<lambda>i. if i < n then child aes False (leaves ! i) else if p \<le> i \<and> i < p + n then child aes True (leaves ! (i - p))
         else leaves ! i) [0..<length leaves], xs.F (\<lambda>j. child aes r (leaves ! j)) {..<n})" if "n \<le> p" for n
    using that
  proof (induction n)
    case 0
    show ?case by (auto intro!: nth_equalityI)
  next
    case (Suc n)
    then show ?case using assms
      by (auto simp: cggm_expand_node_def Let_def child_def lessThan_Suc xor_ac nth_list_update less_Suc_eq intro!: nth_equalityI)
  qed
  from this [of p] show ?thesis using assms
    by (auto simp: cggm_expand_level_def expand_def nth_append intro!: nth_equalityI)
qed

lemma length_expand [simp]: "length (expand aes ps) = 2 * length ps"
  by (simp add: expand_def)

lemma nth_expand:
  assumes "j < length ps"
  shows "expand aes ps ! j = child aes False (ps ! j)" "expand aes ps ! (length ps + j) = child aes True (ps ! j)"
  using assms by (simp_all add: expand_def nth_append)

text \<open>The tree of the sender, level by level, and the sums of its left children.\<close>

fun tree :: "(block \<Rightarrow> block \<Rightarrow> block) \<Rightarrow> block \<Rightarrow> block \<Rightarrow> nat \<Rightarrow> block list" where
  "tree aes delta root 0 = []"
| "tree aes delta root (Suc 0) = [root, delta XOR root]"
| "tree aes delta root (Suc (Suc l)) = expand aes (tree aes delta root (Suc l))"

definition level_sum :: "(block \<Rightarrow> block \<Rightarrow> block) \<Rightarrow> block \<Rightarrow> block \<Rightarrow> bool \<Rightarrow> nat \<Rightarrow> block" where
  "level_sum aes delta root r l = xs.F (\<lambda>j. tree aes delta root (Suc l) ! ((if r then 2 ^ l else 0) + j)) {..<2 ^ l}"

lemma length_tree: "length (tree aes delta root (Suc l)) = 2 ^ Suc l"
  by (induction l) simp_all

lemma level_sum_0: "level_sum aes delta root False 0 = root" "level_sum aes delta root True 0 = delta XOR root"
  by (simp_all add: level_sum_def lessThan_Suc)

lemma level_sum_Suc:
  "level_sum aes delta root r (Suc l) = xs.F (\<lambda>j. child aes r (tree aes delta root (Suc l) ! j)) {..<2 ^ Suc l}"
proof -
  have l: "length (tree aes delta root (Suc l)) = 2 ^ Suc l" by (rule length_tree)
  show ?thesis unfolding level_sum_def
    by (rule xs.cong) (use nth_expand [of _ "tree aes delta root (Suc l)" aes] in \<open>auto simp: l\<close>)
qed

lemma level_sums: "level_sum aes delta root True l = level_sum aes delta root False l XOR delta"
proof (cases l)
  case 0
  then show ?thesis by (simp add: level_sum_0 xor.commute)
next
  case (Suc m)
  have tot: "xs.F (\<lambda>j. tree aes delta root (Suc m) ! j) {..<2 ^ Suc m} = delta" for m
  proof (induction m)
    case 0
    then show ?case by (simp add: lessThan_Suc numeral_2_eq_2 xor_ac)
  next
    case (Suc m)
    let ?t = "tree aes delta root (Suc m)"
    have l: "length ?t = 2 ^ Suc m" by (rule length_tree)
    have "(2 :: nat) ^ Suc (Suc m) = 2 ^ Suc m + 2 ^ Suc m" by simp
    then have "xs.F (\<lambda>j. tree aes delta root (Suc (Suc m)) ! j) {..<2 ^ Suc (Suc m)}
        = xs.F (\<lambda>j. expand aes ?t ! j XOR expand aes ?t ! (2 ^ Suc m + j)) {..<2 ^ Suc m}"
      by (simp only: F_append xs.distrib tree.simps)
    also have "\<dots> = xs.F (\<lambda>j. ?t ! j) {..<2 ^ Suc m}"
      by (rule xs.cong) (use nth_expand [of _ ?t aes] in \<open>auto simp: l child_def xor_ac\<close>)
    finally show ?case using Suc by simp
  qed
  have "xs.F (\<lambda>j. child aes True (tree aes delta root (Suc m) ! j)) {..<2 ^ Suc m} =
      xs.F (\<lambda>j. tree aes delta root (Suc m) ! j XOR child aes False (tree aes delta root (Suc m) ! j)) {..<2 ^ Suc m}"
    by (rule xs.cong) (auto simp: child_def)
  then show ?thesis by (simp add: Suc level_sum_Suc xs.distrib tot xor.commute del: power_Suc)
qed

lemma build_levels:
  assumes "n \<le> depth" "1 \<le> n"
  shows "fold (cggm_build_level aes False) [2..<Suc n]
     ((replicate (2 ^ depth) 0)[0 := root, 1 := delta XOR root], (replicate depth 0)[0 := root])
   = (tree aes delta root n @ replicate (2 ^ depth - 2 ^ n) 0, map (level_sum aes delta root False) [0..<n] @ replicate (depth - n) 0)"
  using assms(2,1)
proof (induction n rule: dec_induct)
  case base
  obtain d where d: "depth = Suc d" using base by (cases depth) auto
  have "2 \<le> (2 :: nat) ^ depth" by (simp add: d)
  then obtain e where e: "2 ^ depth = Suc (Suc e)" by (metis add_2_eq_Suc le_Suc_ex)
  show ?case unfolding e by (simp add: d level_sum_0)
next
  case (step n)
  obtain m where m: "n = Suc m" using step.hyps by (cases n) auto
  have p: "(2 :: nat) ^ Suc n \<le> 2 ^ depth" using step.prems by (intro power_increasing) auto
  have l: "length (tree aes delta root n) = 2 ^ n" unfolding m by (rule length_tree)
  have le: "2 * 2 ^ n \<le> length (tree aes delta root n @ replicate (2 ^ depth - 2 ^ n) (0 :: block))" using p by (simp add: l)
  have f: "fold (cggm_build_level aes False) [2..<Suc (Suc n)]
     ((replicate (2 ^ depth) 0)[0 := root, 1 := delta XOR root], (replicate depth 0)[0 := root])
    = cggm_build_level aes False (Suc n) (tree aes delta root n @ replicate (2 ^ depth - 2 ^ n) 0,
         map (level_sum aes delta root False) [0..<n] @ replicate (depth - n) 0)"
    using step m by simp
  have s: "xs.F (\<lambda>j. child aes False ((tree aes delta root n @ replicate (2 ^ depth - 2 ^ n) 0) ! j)) {..<2 ^ n} = level_sum aes delta root False n"
    unfolding m level_sum_Suc by (rule xs.cong) (use l in \<open>auto simp: nth_append m\<close>)
  have e: "tree aes delta root (Suc n) = expand aes (tree aes delta root n)" by (simp add: m)
  have k: "(map (level_sum aes delta root False) [0..<n] @ replicate (depth - n) 0)[n := level_sum aes delta root False n]
      = map (level_sum aes delta root False) [0..<Suc n] @ replicate (depth - Suc n) 0"
    using step.prems by (cases "depth - n") (auto simp: list_update_append Suc_diff_Suc)
  show ?case unfolding f
    by (simp add: cggm_build_level_def expand_level [OF le] l s k e del: upt_Suc map_append power_Suc) (simp add: l)
qed

lemma cggm_build_sender:
  assumes "1 \<le> depth"
  shows "cggm_build_sender aes depth delta root False =
    Some (tree aes delta root depth, map (level_sum aes delta root False) [0..<depth])"
proof -
  have "[2..<Suc depth] = (if 2 \<le> depth then [2..<depth] @ [depth] else [])" by simp
  with build_levels [OF order_refl assms, of aes root delta] show ?thesis using assms
    by (auto simp: cggm_build_sender_def Let_def simp del: upt_Suc)
qed

text \<open>
  The receiver: at each level the unknown node is zero, all others are those of the sender; its
  position collects the bits of the path.
\<close>

fun path_pos :: "nat \<Rightarrow> nat \<Rightarrow> nat \<Rightarrow> nat" where
  "path_pos depth path 0 = 0"
| "path_pos depth path (Suc l) = path_pos depth path l + of_bool (bit path (depth - Suc l)) * 2 ^ l"

lemma path_pos_less: "path_pos depth path l < 2 ^ l"
  by (induction l) (auto simp: algebra_simps)

definition recv_key :: "(block \<Rightarrow> block \<Rightarrow> block) \<Rightarrow> nat \<Rightarrow> block \<Rightarrow> block \<Rightarrow> nat \<Rightarrow> nat \<Rightarrow> block" where
  \<comment> \<open>what the base OT gives for level \<open>l + 1\<close>: the sum on the side the path does not take\<close>
  "recv_key aes depth delta root path l = level_sum aes delta root (\<not> bit path (depth - Suc l)) l"

definition known_level :: "(block \<Rightarrow> block \<Rightarrow> block) \<Rightarrow> nat \<Rightarrow> block \<Rightarrow> block \<Rightarrow> nat \<Rightarrow> nat \<Rightarrow> block list \<times> nat \<Rightarrow> bool" where
  "known_level aes depth delta root path l = (\<lambda>(leaves, pos). length leaves = 2 ^ depth \<and> pos = path_pos depth path l \<and>
     (\<forall>j < 2 ^ l. leaves ! j = (if j = pos then 0 else tree aes delta root l ! j)))"

lemma F_remove:
  assumes "finite A" "x \<in> A"
  shows "xs.F f (A - {x}) = xs.F f A XOR f x"
  using xs.remove [OF assms, of f] by (simp add: xor_ac)

lemma and_one_bit: "drop_bit n (a :: nat) AND 1 = of_bool (bit a n)"
  by (simp add: and_one_eq bit_iff_odd_drop_bit mod_2_eq_odd)

lemma cggm_eval_level:
  assumes known: "known_level aes depth delta root path (Suc l) (leaves, pos)" and lev: "Suc (Suc l) \<le> depth"
    and key: "recv_keys ! Suc l = recv_key aes depth delta root path (Suc l)"
  shows "known_level aes depth delta root path (Suc (Suc l)) (cggm_eval_level aes depth path recv_keys False (Suc (Suc l)) (leaves, pos))"
proof -
  define h where "h = (2 :: nat) ^ Suc l"
  define a where "a = bit path (depth - Suc (Suc l))"
  define t where "t = tree aes delta root (Suc l)"
  have len: "length leaves = 2 ^ depth" and pos: "pos = path_pos depth path (Suc l)" "pos < h" and tl: "length t = h"
    using known path_pos_less [of depth path "Suc l"] length_tree by (auto simp: known_level_def h_def t_def)
  have lv: "leaves ! j = (if j = pos then 0 else t ! j)" if "j < h" for j
    using known that by (simp add: known_level_def h_def t_def)
  have hd: "2 * h \<le> 2 ^ depth" unfolding h_def power_Suc [symmetric] by (rule power_increasing [OF lev]) simp
  have ex: "cggm_expand_level aes h (\<not> a) False leaves = (expand aes (take h leaves) @ drop (2 * h) leaves,
      xs.F (\<lambda>j. child aes (\<not> a) (leaves ! j)) {..<h})"
    by (rule expand_level) (simp add: len hd)
  define lv' where "lv' = expand aes (take h leaves) @ drop (2 * h) leaves"
  have lv': "lv' ! j = child aes False (leaves ! j)" "lv' ! (h + j) = child aes True (leaves ! j)" if "j < h" for j
    using nth_expand [of j "take h leaves" aes] that hd len by (simp_all add: lv'_def nth_append)
  have lv'l: "length lv' = 2 ^ depth" using hd len by (simp add: lv'_def)
  have c0: "child aes b 0 = child aes c 0" for b c by (simp add: child_def)
  define sib where "sib = (xs.F (\<lambda>j. child aes (\<not> a) (leaves ! j)) {..<h} XOR lv' ! pos) XOR recv_keys ! Suc l"
  have "sib = child aes (\<not> a) (t ! pos)"
  proof -
    have "xs.F (\<lambda>j. child aes (\<not> a) (leaves ! j)) {..<h} XOR lv' ! pos = xs.F (\<lambda>j. child aes (\<not> a) (leaves ! j)) ({..<h} - {pos})"
      using F_remove [of "{..<h}" pos "\<lambda>j. child aes (\<not> a) (leaves ! j)"] pos(2) lv'(1) [OF pos(2)] c0 [of "\<not> a" False] by (simp add: lv)
    also have "\<dots> = xs.F (\<lambda>j. child aes (\<not> a) (t ! j)) ({..<h} - {pos})" by (rule xs.cong) (auto simp: lv)
    also have "\<dots> = level_sum aes delta root (\<not> a) (Suc l) XOR child aes (\<not> a) (t ! pos)"
      using F_remove [of "{..<h}" pos "\<lambda>j. child aes (\<not> a) (t ! j)"] pos(2) by (simp add: level_sum_Suc t_def h_def)
    finally show ?thesis by (simp add: sib_def key recv_key_def a_def xor_ac)
  qed
  moreover have "cggm_eval_level aes depth path recv_keys False (Suc (Suc l)) (leaves, pos)
      = (lv'[pos := 0, pos + h := 0, pos + of_bool (\<not> a) * h := sib], pos + of_bool a * h)"
  proof -
    have "cggm_expand_level aes h ((1 - of_bool a :: nat) \<noteq> 0) False leaves
        = (lv', xs.F (\<lambda>j. child aes (\<not> a) (leaves ! j)) {..<h})"
      using ex by (cases a) (simp_all flip: lv'_def)
    then show ?thesis unfolding cggm_eval_level_def Let_def prod.case and_one_bit diff_Suc_1 a_def [symmetric] h_def [symmetric]
      by (cases a) (simp_all add: sib_def)
  qed
  moreover have "tree aes delta root (Suc (Suc l)) ! j = (if j < h then child aes False (t ! j) else child aes True (t ! (j - h)))"
    if "j < 2 * h" for j
    using nth_expand [of j t aes] nth_expand [of "j - h" t aes] that tl by (auto simp: t_def)
  moreover have "lv' ! j = (if j < h then child aes False (leaves ! j) else child aes True (leaves ! (j - h)))" if "j < 2 * h" for j
    using lv'(1) [of j] lv'(2) [of "j - h"] that by auto
  moreover have "2 ^ Suc (Suc l) = 2 * h" by (simp add: h_def)
  ultimately show ?thesis using pos hd lv'l
    by (auto simp: known_level_def nth_list_update lv simp flip: a_def h_def)
qed

lemma cggm_eval_receiver:
  assumes d: "1 \<le> depth" and len: "length recv_keys = depth"
    and keys: "\<And>l. l < depth \<Longrightarrow> recv_keys ! l = recv_key aes depth delta root path l"
  shows "\<exists>leaves. cggm_eval_receiver aes depth path recv_keys False = Some leaves \<and> length leaves = 2 ^ depth
    \<and> (\<forall>j < 2 ^ depth. leaves ! j = (if j = path_pos depth path depth then 0 else tree aes delta root depth ! j))"
proof -
  define st0 where "st0 = ((replicate (2 ^ depth) (0 :: block))[1 - of_bool (bit path (depth - 1)) := recv_keys ! 0],
     of_bool (bit path (depth - 1)) :: nat)"
  obtain d' where d': "depth = Suc d'" using d by (cases depth) auto
  have "2 \<le> (2 :: nat) ^ depth" by (simp add: d')
  then obtain e where e: "2 ^ depth = Suc (Suc e)" by (metis add_2_eq_Suc le_Suc_ex)
  have k0: "recv_keys ! 0 = (if bit path d' then root else delta XOR root)"
    using keys [of 0] by (simp add: d' recv_key_def level_sum_0)
  have base: "known_level aes depth delta root path (Suc 0) st0"
    unfolding known_level_def st0_def prod.case e using k0
    by (auto simp: d' nth_Cons' less_2_cases_iff nth_list_update)
  have levels: "known_level aes depth delta root path n (fold (cggm_eval_level aes depth path recv_keys False) [2..<Suc n] st0)"
    if "1 \<le> n" "n \<le> depth" for n
    using that
  proof (induction n rule: dec_induct)
    case base
    then show ?case using \<open>known_level aes depth delta root path (Suc 0) st0\<close> by simp
  next
    case (step n)
    obtain m where m: "n = Suc m" using step.hyps by (cases n) auto
    obtain lv pos where st: "fold (cggm_eval_level aes depth path recv_keys False) [2..<Suc n] st0 = (lv, pos)"
      by (cases "fold (cggm_eval_level aes depth path recv_keys False) [2..<Suc n] st0")
    have "fold (cggm_eval_level aes depth path recv_keys False) [2..<Suc (Suc n)] st0 = cggm_eval_level aes depth path recv_keys False (Suc n) (lv, pos)"
      using st step.hyps by simp
    moreover have "known_level aes depth delta root path n (lv, pos)" using step st by (simp del: upt_Suc)
    ultimately show ?case using cggm_eval_level [of aes depth delta root path m lv pos recv_keys] keys [of n] step.prems m by simp
  qed
  have "cggm_eval_receiver aes depth path recv_keys False
      = Some (fst (fold (cggm_eval_level aes depth path recv_keys False) [2..<Suc depth] st0))"
    unfolding cggm_eval_receiver_def Let_def and_one_bit st0_def by (rule if_not_P) (use d len in simp)
  moreover obtain lv pos where "fold (cggm_eval_level aes depth path recv_keys False) [2..<Suc depth] st0 = (lv, pos)" by fastforce
  moreover from this have "known_level aes depth delta root path depth (lv, pos)" using levels [OF d order_refl] by (simp del: upt_Suc)
  ultimately show ?thesis by (simp add: known_level_def del: upt_Suc)
qed

lemma reversed_path:
  assumes "alpha < 16"
  defines "path \<equiv> unat (cggm_bit_reverse (of_nat alpha) SOFTSPOKEN_K)"
  shows "path_pos SOFTSPOKEN_K path SOFTSPOKEN_K = alpha" and "l < SOFTSPOKEN_K \<Longrightarrow> bit path (SOFTSPOKEN_K - Suc l) = bit alpha l"
proof -
  have "\<forall>alpha \<in> set [0..<16]. path_pos SOFTSPOKEN_K (unat (cggm_bit_reverse (of_nat alpha) SOFTSPOKEN_K)) SOFTSPOKEN_K = alpha
     \<and> (\<forall>l \<in> set [0..<SOFTSPOKEN_K]. bit (unat (cggm_bit_reverse (of_nat alpha) SOFTSPOKEN_K)) (SOFTSPOKEN_K - Suc l) = bit alpha l)"
    by code_simp
  then show "path_pos SOFTSPOKEN_K path SOFTSPOKEN_K = alpha" and "l < SOFTSPOKEN_K \<Longrightarrow> bit path (SOFTSPOKEN_K - Suc l) = bit alpha l"
    using assms(1) by (simp_all add: path_def)
qed

text \<open>One tree of the setup, of depth four: the receiver misses the leaf \<open>alpha\<close>, which it has as zero.\<close>

lemma setup_tree:
  assumes alpha: "alpha < 16" and len: "length recv_keys = SOFTSPOKEN_K"
    and keys: "\<And>l. l < SOFTSPOKEN_K \<Longrightarrow> recv_keys ! l = (if bit alpha l then level_sum aes delta root False l else level_sum aes delta root False l XOR delta)"
  shows "\<exists>leaves. cggm_eval_receiver aes SOFTSPOKEN_K (unat (cggm_bit_reverse (of_nat alpha) SOFTSPOKEN_K)) recv_keys False = Some leaves
    \<and> length leaves = SOFTSPOKEN_Q
    \<and> (\<forall>j < SOFTSPOKEN_Q. leaves ! j = (if j = alpha then 0 else tree aes delta root SOFTSPOKEN_K ! j))"
proof -
  note p = reversed_path [OF alpha]
  have "\<exists>leaves. cggm_eval_receiver aes SOFTSPOKEN_K (unat (cggm_bit_reverse (of_nat alpha) SOFTSPOKEN_K)) recv_keys False = Some leaves
    \<and> length leaves = 2 ^ SOFTSPOKEN_K \<and> (\<forall>j < 2 ^ SOFTSPOKEN_K. leaves ! j =
       (if j = path_pos SOFTSPOKEN_K (unat (cggm_bit_reverse (of_nat alpha) SOFTSPOKEN_K)) SOFTSPOKEN_K then 0
        else tree aes delta root SOFTSPOKEN_K ! j))"
    by (rule cggm_eval_receiver) (use keys p(2) in \<open>auto simp: len recv_key_def level_sums\<close>, simp add: SOFTSPOKEN_K_def)
  then show ?thesis by (simp add: p SOFTSPOKEN_Q_def)
qed

section \<open>Butterflies\<close>

lemma butterfly_pairs:
  assumes "2 * m \<le> length r"
  shows "fold butterfly_pair [0..<m] (0, r) =
    (xs.F (\<lambda>y. r ! (2 * y + 1)) {..<m}, map (\<lambda>i. if i < m then r ! (2 * i) XOR r ! (2 * i + 1) else r ! i) [0..<length r])"
  using assms
proof (induction m)
  case 0
  then show ?case by (simp add: map_nth)
next
  case (Suc m)
  then show ?case
    by (auto simp: butterfly_pair_def Let_def lessThan_Suc xor_ac nth_list_update less_Suc_eq intro!: nth_equalityI)
qed

definition plane :: "nat \<Rightarrow> block list \<Rightarrow> nat \<Rightarrow> block" where
  \<comment> \<open>the sum of the leaves whose index has bit \<open>b\<close>\<close>
  "plane k r b = xs.F (\<lambda>x. sel (bit x b) (r ! x)) {..<2 ^ k}"

lemma plane_pairs:
  "xs.F (\<lambda>x. sel (bit x b) (f x)) {..<m * 2 ^ Suc b} = xs.F (\<lambda>y. xs.F (\<lambda>i. f ((2 * y + 1) * 2 ^ b + i)) {..<2 ^ b}) {..<m}" for m :: nat
proof (induction m)
  case (Suc m)
  have lo: "\<not> bit (m * 2 ^ Suc b + i) b" and hi: "bit (m * 2 ^ Suc b + (2 ^ b + i)) b" if "i < 2 ^ b" for i :: nat
  proof -
    have "(m * 2 ^ Suc b + i) div 2 ^ b = 2 * m" "(m * 2 ^ Suc b + (2 ^ b + i)) div 2 ^ b = 2 * m + 1"
      using that by (auto intro!: div_nat_eqI simp: algebra_simps)
    then show "\<not> bit (m * 2 ^ Suc b + i) b" and "bit (m * 2 ^ Suc b + (2 ^ b + i)) b" by (simp_all add: bit_iff_odd del: power_Suc)
  qed
  have "Suc m * 2 ^ Suc b = m * 2 ^ Suc b + (2 ^ b + 2 ^ b)" by simp
  then have "xs.F (\<lambda>x. sel (bit x b) (f x)) {..<Suc m * 2 ^ Suc b} = xs.F (\<lambda>x. sel (bit x b) (f x)) {..<m * 2 ^ Suc b}
      XOR (xs.F (\<lambda>i. sel (bit (m * 2 ^ Suc b + i) b) (f (m * 2 ^ Suc b + i))) {..<2 ^ b}
      XOR xs.F (\<lambda>i. sel (bit (m * 2 ^ Suc b + (2 ^ b + i)) b) (f (m * 2 ^ Suc b + (2 ^ b + i)))) {..<2 ^ b})"
    by (simp only: F_append)
  also have "xs.F (\<lambda>i. sel (bit (m * 2 ^ Suc b + i) b) (f (m * 2 ^ Suc b + i))) {..<2 ^ b} = 0"
    by (rule xs.neutral) (simp add: lo del: power_Suc)
  also have "xs.F (\<lambda>i. sel (bit (m * 2 ^ Suc b + (2 ^ b + i)) b) (f (m * 2 ^ Suc b + (2 ^ b + i)))) {..<2 ^ b}
      = xs.F (\<lambda>i. f ((2 * m + 1) * 2 ^ b + i)) {..<2 ^ b}"
    by (rule xs.cong) (use hi in \<open>auto simp: algebra_simps\<close>)
  finally show ?case by (simp add: Suc lessThan_Suc xor_ac del: power_Suc)
qed simp

lemma butterfly_rounds:
  assumes "length r0 = 2 ^ k" "b \<le> k"
  shows "\<exists>r. fold (butterfly_round bs j) [0..<b] (2 ^ k, r0, v0)
      = (2 ^ (k - b), r, fold (\<lambda>b v. v[b * bs + j := plane k r0 b]) [0..<b] v0)
    \<and> length r = 2 ^ k \<and> (\<forall>y < 2 ^ (k - b). r ! y = xs.F (\<lambda>i. r0 ! (y * 2 ^ b + i)) {..<2 ^ b})"
  using assms(2)
proof (induction b)
  case 0
  then show ?case using assms(1) by (simp add: lessThan_Suc)
next
  case (Suc b)
  then obtain r where st: "fold (butterfly_round bs j) [0..<b] (2 ^ k, r0, v0)
      = (2 ^ (k - b), r, fold (\<lambda>b v. v[b * bs + j := plane k r0 b]) [0..<b] v0)"
    and r: "length r = 2 ^ k" "\<And>y. y < 2 ^ (k - b) \<Longrightarrow> r ! y = xs.F (\<lambda>i. r0 ! (y * 2 ^ b + i)) {..<2 ^ b}" by auto
  define h where "h = (2 :: nat) ^ (k - Suc b)"
  have h: "2 ^ (k - b) = 2 * h" unfolding h_def power_Suc [symmetric] using Suc.prems by (simp add: Suc_diff_Suc)
  have le: "2 * h \<le> length r" unfolding r(1) h [symmetric] by (rule power_increasing) auto
  have "h * 2 ^ Suc b = 2 ^ k" using Suc.prems by (simp add: h_def flip: power_add power_Suc)
  then have acc: "xs.F (\<lambda>y. r ! (2 * y + 1)) {..<h} = plane k r0 b"
    unfolding plane_def using plane_pairs [of b "\<lambda>x. r0 ! x" h] by (simp only:) (rule xs.cong; simp add: r(2) h)
  define r' where "r' = map (\<lambda>i. if i < h then r ! (2 * i) XOR r ! (2 * i + 1) else r ! i) [0..<length r]"
  have "r' ! y = xs.F (\<lambda>i. r0 ! (y * 2 ^ Suc b + i)) {..<2 ^ Suc b}" if "y < h" for y
  proof -
    have y: "2 * y < 2 ^ (k - b)" "2 * y + 1 < 2 ^ (k - b)" "y < length r" using that le h by auto
    have "r' ! y = r ! (2 * y) XOR r ! (2 * y + 1)" using that y(3) by (simp add: r'_def)
    also have "\<dots> = xs.F (\<lambda>i. r0 ! (2 * y * 2 ^ b + i)) {..<2 ^ b} XOR xs.F (\<lambda>i. r0 ! (2 * y * 2 ^ b + (2 ^ b + i))) {..<2 ^ b}"
      unfolding r(2) [OF y(1)] r(2) [OF y(2)] by (simp add: algebra_simps)
    also have "\<dots> = xs.F (\<lambda>i. r0 ! (2 * y * 2 ^ b + i)) {..<2 ^ b + 2 ^ b}" by (simp only: F_append)
    finally show ?thesis by (simp add: mult_2 algebra_simps)
  qed
  moreover have "fold (butterfly_round bs j) [0..<Suc b] (2 ^ k, r0, v0)
      = (h, r', fold (\<lambda>b v. v[b * bs + j := plane k r0 b]) [0..<Suc b] v0)"
    by (simp add: st butterfly_round_def Let_def h butterfly_pairs [OF le] r'_def acc [simplified])
  moreover have "length r' = 2 ^ k" by (simp add: r'_def r)
  ultimately show ?case unfolding h_def by blast
qed

lemma columns_fold:
  assumes "j < bs" "m \<le> k" "length v = k * bs"
  shows "fold (\<lambda>b v. v[b * bs + j := g b]) [0..<m] v = map (\<lambda>p. if p mod bs = j \<and> p div bs < m then g (p div bs) else v ! p) [0..<k * bs]"
  using assms(2)
proof (induction m)
  case 0
  then show ?case using assms(3) by (simp flip: assms(3)) (simp add: map_nth)
next
  case (Suc m)
  have at: "m * bs + j = p \<longleftrightarrow> p mod bs = j \<and> p div bs = m" for p using assms(1) by auto
  have "Suc m * bs \<le> k * bs" using Suc.prems by (rule mult_le_mono1)
  then have lt: "m * bs + j < k * bs" using assms(1) by simp
  have "fold (\<lambda>b v. v[b * bs + j := g b]) [0..<Suc m] v
      = (map (\<lambda>p. if p mod bs = j \<and> p div bs < m then g (p div bs) else v ! p) [0..<k * bs])[m * bs + j := g m]"
    using Suc by simp
  also have "\<dots> = map (\<lambda>p. if p mod bs = j \<and> p div bs < Suc m then g (p div bs) else v ! p) [0..<k * bs]"
    by (rule nth_equalityI) (auto simp: nth_list_update lt at less_Suc_eq)
  finally show ?case .
qed

lemma matrix_fold:
  assumes "length v = k * bs" "n \<le> bs"
  shows "fold (\<lambda>j v. fold (\<lambda>b v. v[b * bs + j := g j b]) [0..<k] v) [0..<n] v
     = map (\<lambda>p. if p mod bs < n then g (p mod bs) (p div bs) else v ! p) [0..<k * bs]"
  using assms(2)
proof (induction n)
  case 0
  then show ?case using assms(1) by (simp flip: assms(1)) (simp add: map_nth)
next
  case (Suc n)
  let ?v = "map (\<lambda>p. if p mod bs < n then g (p mod bs) (p div bs) else v ! p) [0..<k * bs]"
  have "fold (\<lambda>j v. fold (\<lambda>b v. v[b * bs + j := g j b]) [0..<k] v) [0..<Suc n] v = fold (\<lambda>b v. v[b * bs + n := g n b]) [0..<k] ?v"
    using Suc by simp
  also have "\<dots> = map (\<lambda>p. if p mod bs = n \<and> p div bs < k then g n (p div bs) else ?v ! p) [0..<k * bs]"
    by (rule columns_fold) (use Suc.prems in auto)
  also have "\<dots> = map (\<lambda>p. if p mod bs < Suc n then g (p mod bs) (p div bs) else v ! p) [0..<k * bs]"
    by (rule map_cong) (auto simp: less_Suc_eq less_mult_imp_div_less)
  finally show ?case .
qed

text \<open>The values at the leaves for column \<open>j\<close>, and the result of the two butterflies in closed form.\<close>

definition leaf_hash :: "(block \<Rightarrow> block \<Rightarrow> block) \<Rightarrow> u64 \<Rightarrow> u64 \<Rightarrow> nat \<Rightarrow> block \<Rightarrow> block" where
  "leaf_hash aes session_id counter_base j leaf =
     (let x = block_make 0 (counter_base + of_nat j) XOR leaf in aes (block_make 0 session_id) x XOR x)"

lemma sender_butterfly:
  assumes "2 \<le> k" "length leaves = 2 ^ k"
  shows "sfvole_sender_butterfly aes k leaves cb bs sid = Some
    (map (\<lambda>j. xs.F (\<lambda>x. leaf_hash aes sid cb j (leaves ! x)) {..<2 ^ k}) [0..<bs],
     map (\<lambda>p. plane k (map (leaf_hash aes sid cb (p mod bs)) leaves) (p div bs)) [0..<k * bs])"
proof -
  define R where "R j = map (leaf_hash aes sid cb j) leaves" for j
  have Rl: "length (R j) = 2 ^ k" for j by (simp add: R_def assms)
  have col: "sfvole_sender_column aes k leaves cb bs (block_make 0 sid) j (u, v)
     = (u[j := xs.F (\<lambda>x. leaf_hash aes sid cb j (leaves ! x)) {..<2 ^ k}], fold (\<lambda>b v. v[b * bs + j := plane k (R j) b]) [0..<k] v)" for j u v
  proof -
    have "map2 (XOR) (prp_permute_block aes (block_make 0 sid) (map ((XOR) (block_make 0 (cb + word_of_nat j))) leaves))
        (map ((XOR) (block_make 0 (cb + word_of_nat j))) leaves) = R j"
      by (simp add: prp_permute_block_def R_def leaf_hash_def Let_def zip_map1 zip_map2 zip_same_conv_map o_def)
    moreover obtain r where "fold (butterfly_round bs j) [0..<k] (2 ^ k, R j, v) = (1, r, fold (\<lambda>b v. v[b * bs + j := plane k (R j) b]) [0..<k] v)"
      and "r ! 0 = xs.F (\<lambda>i. R j ! i) {..<2 ^ k}"
      using butterfly_rounds [OF Rl order_refl, of bs j j v] by auto
    moreover have "xs.F (\<lambda>i. R j ! i) {..<2 ^ k} = xs.F (\<lambda>x. leaf_hash aes sid cb j (leaves ! x)) {..<2 ^ k}"
      by (rule xs.cong) (auto simp: R_def assms)
    ultimately show ?thesis by (simp add: sfvole_sender_column_def Let_def)
  qed
  have f: "fold (sfvole_sender_column aes k leaves cb bs (block_make 0 sid)) [0..<n] (u, v)
     = (fold (\<lambda>j u. u[j := xs.F (\<lambda>x. leaf_hash aes sid cb j (leaves ! x)) {..<2 ^ k}]) [0..<n] u,
        fold (\<lambda>j v. fold (\<lambda>b v. v[b * bs + j := plane k (R j) b]) [0..<k] v) [0..<n] v)" for n u v
    by (induction n) (simp_all add: col)
  have u: "fold (\<lambda>j u. u[j := f j]) [0..<n] u = map (\<lambda>j. if j < n then f j else u ! j) [0..<length u]" if "n \<le> length u" for f n and u :: "block list"
    using that by (induction n) (auto simp: nth_list_update less_Suc_eq map_nth intro!: nth_equalityI)
  show ?thesis using assms unfolding sfvole_sender_butterfly_def f
    by (cases "bs = 0") (simp_all add: u matrix_fold, auto simp: R_def intro!: map_cong mod_less_divisor)
qed

lemma receiver_butterfly:
  assumes "2 \<le> k" "length leaves = 2 ^ k" "alpha < 2 ^ k"
  shows "sfvole_receiver_butterfly aes k alpha leaves cb bs sid = Some
    (map (\<lambda>p. plane k (map (\<lambda>y. leaf_hash aes sid cb (p mod bs) (leaves ! (alpha XOR y))) [0..<2 ^ k]) (p div bs)) [0..<k * bs])"
proof -
  define R where "R j = map (\<lambda>y. leaf_hash aes sid cb j (leaves ! (alpha XOR y))) [0..<2 ^ k]" for j
  have Rl: "length (R j) = 2 ^ k" for j by (simp add: R_def)
  have col: "sfvole_receiver_column aes k alpha leaves cb bs (block_make 0 sid) j w
     = fold (\<lambda>b v. v[b * bs + j := plane k (R j) b]) [0..<k] w" for j w
  proof -
    have "map2 (XOR) (prp_permute_block aes (block_make 0 sid) (map (\<lambda>y. block_make 0 (cb + word_of_nat j) XOR leaves ! (alpha XOR y)) [0..<2 ^ k]))
        (map (\<lambda>y. block_make 0 (cb + word_of_nat j) XOR leaves ! (alpha XOR y)) [0..<2 ^ k]) = R j"
      by (simp add: prp_permute_block_def R_def leaf_hash_def Let_def zip_map1 zip_map2 zip_same_conv_map o_def)
    moreover obtain r where "fold (butterfly_round bs j) [0..<k] (2 ^ k, R j, w) = (1, r, fold (\<lambda>b v. v[b * bs + j := plane k (R j) b]) [0..<k] w)"
      using butterfly_rounds [OF Rl order_refl, of bs j j w] by auto
    ultimately show ?thesis by (simp add: sfvole_receiver_column_def Let_def)
  qed
  have f: "fold (sfvole_receiver_column aes k alpha leaves cb bs (block_make 0 sid)) [0..<n] w
     = fold (\<lambda>j v. fold (\<lambda>b v. v[b * bs + j := plane k (R j) b]) [0..<k] v) [0..<n] w" for n w
    by (induction n) (simp_all add: col)
  show ?thesis using assms unfolding sfvole_receiver_butterfly_def f
    by (cases "bs = 0") (simp_all add: matrix_fold, auto simp: R_def intro!: map_cong mod_less_divisor)
qed

lemma xor_less_power: "a < 2 ^ k \<Longrightarrow> b < 2 ^ k \<Longrightarrow> a XOR b < 2 ^ k" for a b :: nat
  by (metis take_bit_nat_eq_self_iff take_bit_xor)

lemma plane_receiver:
  assumes "b < k" "alpha < 2 ^ k" "length lS = 2 ^ k"
    and known: "\<And>x. x < 2 ^ k \<Longrightarrow> x \<noteq> alpha \<Longrightarrow> lR ! x = lS ! x"
  shows "plane k (map (\<lambda>y. h (lR ! (alpha XOR y))) [0..<2 ^ k]) b
     = plane k (map h lS) b XOR sel (bit alpha b) (xs.F (\<lambda>x. h (lS ! x)) {..<2 ^ k})"
proof -
  have "plane k (map (\<lambda>y. h (lR ! (alpha XOR y))) [0..<2 ^ k]) b = xs.F (\<lambda>y. sel (bit y b) (h (lR ! (alpha XOR y)))) {..<2 ^ k}"
    unfolding plane_def by (rule xs.cong) auto
  also have "\<dots> = xs.F (\<lambda>x. sel (bit (alpha XOR x) b) (h (lR ! x))) {..<2 ^ k}"
    by (rule xs.reindex_bij_witness [where i = "(XOR) alpha" and j = "(XOR) alpha"])
      (use assms(2) in \<open>auto simp: xor_less_power simp flip: xor.assoc\<close>)
  also have "\<dots> = xs.F (\<lambda>x. sel (bit (alpha XOR x) b) (h (lS ! x))) {..<2 ^ k}"
  proof (rule xs.cong [OF refl])
    fix x :: nat assume "x \<in> {..<2 ^ k}"
    then show "sel (bit (alpha XOR x) b) (h (lR ! x)) = sel (bit (alpha XOR x) b) (h (lS ! x))"
      using known [of x] by (cases "x = alpha") auto
  qed
  also have "\<dots> = xs.F (\<lambda>x. sel (bit x b) (h (lS ! x)) XOR sel (bit alpha b) (h (lS ! x))) {..<2 ^ k}"
    by (rule xs.cong) (auto simp: bit_xor_iff sel_def)
  also have "\<dots> = plane k (map h lS) b XOR sel (bit alpha b) (xs.F (\<lambda>x. h (lS ! x)) {..<2 ^ k})"
    unfolding xs.distrib F_sel plane_def by (intro arg_cong2 [where f = "(XOR)"] xs.cong refl) (auto simp: assms(3))
  finally show ?thesis .
qed

section \<open>Slices of planes\<close>

lemma length_set_slice [simp]: "at + length src \<le> length dst \<Longrightarrow> length (set_slice at src dst) = length dst"
  by (simp add: set_slice_def)

lemma nth_set_slice:
  assumes "at + length src \<le> length dst" "p < length dst"
  shows "set_slice at src dst ! p = (if at \<le> p \<and> p < at + length src then src ! (p - at) else dst ! p)"
  using assms by (auto simp: set_slice_def nth_append min_def)

lemma set_slices:
  assumes "\<And>i. i < n \<Longrightarrow> length (W i) = m" "n * m \<le> length dst"
  shows "fold (\<lambda>i. set_slice (i * m) (W i)) [0..<n] dst = concat (map W [0..<n]) @ drop (n * m) dst"
  using assms
proof (induction n)
  case (Suc n)
  have l: "length (concat (map W [0..<n])) = n * m" using Suc.prems(1) by (induction n) auto
  with Suc show ?case by (simp add: set_slice_def add.commute)
qed simp

lemma concat_uniform:
  assumes "\<And>i. i < n \<Longrightarrow> length (W i) = m" "i < n" "q < m"
  shows "concat (map W [0..<n]) ! (i * m + q) = W i ! q" "length (concat (map W [0..<n])) = n * m"
proof -
  have l: "length (concat (map W [0..<k])) = k * m" if "k \<le> n" for k using that assms(1) by (induction k) auto
  then show "length (concat (map W [0..<n])) = n * m" by simp
  have "[0..<n] = [0..<i] @ i # [Suc i..<n]" using assms(2) by (metis upt_add_eq_append upt_conv_Cons le_add1 le_add_diff_inverse less_imp_le add_0)
  then have "concat (map W [0..<n]) = concat (map W [0..<i]) @ W i @ concat (map W [Suc i..<n])" by simp
  then show "concat (map W [0..<n]) ! (i * m + q) = W i ! q" using l [of i] assms by (simp add: nth_append)
qed

lemma copy_planes_slice:
  assumes "length w = SOFTSPOKEN_K * bs" "i < SOFTSPOKEN_N" "length planes = 128 * bs"
  shows "copy_planes bs i w planes = set_slice (i * (SOFTSPOKEN_K * bs)) w planes"
proof -
  have le: "i * (4 * bs) + 4 * bs \<le> 128 * bs" using mult_le_mono1 [of "Suc i" 32 "4 * bs"] assms(2) by (simp add: SOFTSPOKEN_N_def SOFTSPOKEN_K_def)
  define r where "r b = take bs (drop (b * bs) w)" for b
  have r: "length (r b) = bs" if "b < 4" for b
  proof -
    have "Suc b * bs \<le> 4 * bs" using that by (intro mult_le_mono1) simp
    then have "bs \<le> 4 * bs - b * bs" by (simp only: mult_Suc)
    then show ?thesis using assms(1) by (simp add: r_def SOFTSPOKEN_K_def)
  qed
  have "fold (\<lambda>b. set_slice ((i * 4 + b) * bs) (r b)) [0..<n] planes = set_slice (i * (4 * bs)) (take (n * bs) w) planes" if "n \<le> 4" for n
    using that
  proof (induction n)
    case 0
    then show ?case by (simp add: set_slice_def)
  next
    case (Suc n)
    have n: "n * bs + bs \<le> 4 * bs" using mult_le_mono1 [of "Suc n" 4 bs] Suc.prems by simp
    have "set_slice ((i * 4 + n) * bs) (r n) (set_slice (i * (4 * bs)) (take (n * bs) w) planes) = set_slice (i * (4 * bs)) (take (Suc n * bs) w) planes"
    proof (rule nth_equalityI)
      have l: "length (take (n * bs) w) = n * bs" "length (take (Suc n * bs) w) = n * bs + bs" "length (r n) = bs"
        using n assms(1) r [of n] Suc.prems by (simp_all add: SOFTSPOKEN_K_def)
      have f: "i * (4 * bs) + n * bs \<le> length planes" "i * (4 * bs) + (n * bs + bs) \<le> length planes" using le n assms(3) by linarith+
      have e: "(i * 4 + n) * bs = i * (4 * bs) + n * bs" by (simp add: algebra_simps)
      have mb: "min (4 * bs - n * bs) bs = bs" using n by linarith
      show "length (set_slice ((i * 4 + n) * bs) (r n) (set_slice (i * (4 * bs)) (take (n * bs) w) planes)) = length (set_slice (i * (4 * bs)) (take (Suc n * bs) w) planes)"
        using f l by (simp add: e del: mult_Suc)
      fix p assume "p < length (set_slice ((i * 4 + n) * bs) (r n) (set_slice (i * (4 * bs)) (take (n * bs) w) planes))"
      then have p: "p < length planes" using f l by (simp add: e)
      show "set_slice ((i * 4 + n) * bs) (r n) (set_slice (i * (4 * bs)) (take (n * bs) w) planes) ! p = set_slice (i * (4 * bs)) (take (Suc n * bs) w) planes ! p"
        using f l p n assms(1) by (auto simp: e mb nth_set_slice r_def SOFTSPOKEN_K_def)
    qed
    then show ?case using Suc by simp
  qed
  from this [of 4] show ?thesis using assms(1) by (simp add: copy_planes_def SOFTSPOKEN_K_def r_def)
qed

lemma fold_consecutive:
  assumes "at + n \<le> length d"
  shows "fold (\<lambda>j d. d[at + j := f j]) [0..<n] d = set_slice at (map f [0..<n]) d"
  using assms
proof (induction n)
  case 0
  then show ?case by (simp add: set_slice_def)
next
  case (Suc n)
  have "(set_slice at (map f [0..<n]) d)[at + n := f n] = set_slice at (map f [0..<Suc n]) d"
    by (rule nth_equalityI) (use Suc.prems in \<open>auto simp: nth_set_slice nth_list_update nth_append\<close>)
  with Suc show ?case by simp
qed

text \<open>A row of the planes under the corrections of the receiver.\<close>

lemma row_index: "q * bs + j = q' * bs + j' \<longleftrightarrow> q = q' \<and> j = j'" if "j < bs" "j' < bs" for q q' bs j j' :: nat
  using that by (metis div_mult_self3 mod_mult_self3 mod_less div_less add.right_neutral less_nat_zero_code)

lemma row_less: "q < 128 \<Longrightarrow> j < bs \<Longrightarrow> q * bs + j < 128 * (bs :: nat)"
proof -
  assume "q < 128" "j < bs"
  moreover from this have "Suc q * bs \<le> 128 * bs" by (intro mult_le_mono1) simp
  ultimately show "q * bs + j < 128 * bs" by (simp only: mult_Suc)
qed

lemma xor_row:
  assumes "q < 128" "length planes = 128 * bs"
  shows "length (fold (\<lambda>j planes. planes[q * bs + j := planes ! (q * bs + j) XOR d ! j]) [0..<bs] planes) = 128 * bs"
    and "q' < 128 \<Longrightarrow> j < bs \<Longrightarrow> fold (\<lambda>j planes. planes[q * bs + j := planes ! (q * bs + j) XOR d ! j]) [0..<bs] planes ! (q' * bs + j)
       = planes ! (q' * bs + j) XOR sel (q' = q) (d ! j)"
proof -
  have "length (fold (\<lambda>j planes. planes[q * bs + j := planes ! (q * bs + j) XOR d ! j]) [0..<n] planes) = 128 * bs
    \<and> (\<forall>q' < 128. \<forall>j < bs. fold (\<lambda>j planes. planes[q * bs + j := planes ! (q * bs + j) XOR d ! j]) [0..<n] planes ! (q' * bs + j)
       = planes ! (q' * bs + j) XOR sel (q' = q \<and> j < n) (d ! j))" if "n \<le> bs" for n
    using that
  proof (induction n)
    case (Suc n)
    then show ?case using assms row_less [OF assms(1), of n bs]
      by (auto simp: nth_list_update row_index less_Suc_eq sel_def)
  qed (simp add: assms)
  from this [of bs]
  show "length (fold (\<lambda>j planes. planes[q * bs + j := planes ! (q * bs + j) XOR d ! j]) [0..<bs] planes) = 128 * bs"
    and "q' < 128 \<Longrightarrow> j < bs \<Longrightarrow> fold (\<lambda>j planes. planes[q * bs + j := planes ! (q * bs + j) XOR d ! j]) [0..<bs] planes ! (q' * bs + j)
       = planes ! (q' * bs + j) XOR sel (q' = q) (d ! j)" by auto
qed

lemma apply_corrections:
  assumes "length planes = 128 * bs"
  shows "length (apply_corrections bs alphas d_bufs planes) = 128 * bs"
    and "q < 128 \<Longrightarrow> j < bs \<Longrightarrow> apply_corrections bs alphas d_bufs planes ! (q * bs + j) = planes ! (q * bs + j) XOR
      sel (SOFTSPOKEN_K \<le> q \<and> bit (alphas ! (q div SOFTSPOKEN_K)) (q mod SOFTSPOKEN_K))
        (take bs (drop ((q div SOFTSPOKEN_K - 1) * bs) d_bufs) ! j)"
proof -
  define D where "D i = take bs (drop ((i - 1) * bs) d_bufs)" for i
  define row where "row i b planes = (if drop_bit b (alphas ! i) AND 1 \<noteq> 0
      then fold (\<lambda>j planes. planes[(i * 4 + b) * bs + j := planes ! ((i * 4 + b) * bs + j) XOR D i ! j]) [0..<bs] planes else planes)"
    for i b and planes :: "block list"
  have row: "length (row i b pl) = 128 * bs \<and> (\<forall>q < 128. \<forall>j < bs. row i b pl ! (q * bs + j)
      = pl ! (q * bs + j) XOR sel (q = i * 4 + b \<and> bit (alphas ! i) b) (D i ! j))" if "i < 32" "b < 4" "length pl = 128 * bs" for i b pl
  proof -
    have "row i b pl = (if bit (alphas ! i) b then fold (\<lambda>j planes. planes[(i * 4 + b) * bs + j :=
        planes ! ((i * 4 + b) * bs + j) XOR D i ! j]) [0..<bs] pl else pl)"
      unfolding row_def and_one_bit by simp
    moreover have "i * 4 + b < 128" using that by simp
    ultimately show ?thesis using xor_row [of "i * 4 + b" pl bs] that(3) by auto
  qed
  have rows: "length (fold (row i) [0..<n] pl) = 128 * bs \<and> (\<forall>q < 128. \<forall>j < bs. fold (row i) [0..<n] pl ! (q * bs + j)
      = pl ! (q * bs + j) XOR sel (q div 4 = i \<and> q mod 4 < n \<and> bit (alphas ! i) (q mod 4)) (D i ! j))"
    if "i < 32" "n \<le> 4" "length pl = 128 * bs" for i n pl
    using that(2)
  proof (induction n)
    case (Suc n)
    have at: "q = i * 4 + n \<longleftrightarrow> q div 4 = i \<and> q mod 4 = n" for q using Suc.prems by auto
    show ?case using Suc that row [of i n "fold (row i) [0..<n] pl"]
      by (auto simp: at less_Suc_eq sel_def)
  qed (simp add: that)
  have "length (fold (\<lambda>i. fold (row i) [0..<4]) [1..<Suc n] planes) = 128 * bs \<and> (\<forall>q < 128. \<forall>j < bs.
      fold (\<lambda>i. fold (row i) [0..<4]) [1..<Suc n] planes ! (q * bs + j)
      = planes ! (q * bs + j) XOR sel (4 \<le> q \<and> q div 4 \<le> n \<and> bit (alphas ! (q div 4)) (q mod 4)) (D (q div 4) ! j))"
    if "n < 32" for n
    using that
  proof (induction n)
    case (Suc n)
    let ?p = "fold (\<lambda>i. fold (row i) [0..<4]) [1..<Suc n] planes"
    have r: "length (fold (row (Suc n)) [0..<4] ?p) = 128 * bs" "\<And>q j. q < 128 \<Longrightarrow> j < bs \<Longrightarrow> fold (row (Suc n)) [0..<4] ?p ! (q * bs + j)
      = ?p ! (q * bs + j) XOR sel (q div 4 = Suc n \<and> q mod 4 < 4 \<and> bit (alphas ! Suc n) (q mod 4)) (D (Suc n) ! j)"
      using rows [of "Suc n" 4 ?p] Suc by auto
    have st: "fold (\<lambda>i. fold (row i) [0..<4]) [1..<Suc (Suc n)] planes = fold (row (Suc n)) [0..<4] ?p" by simp
    have "fold (row (Suc n)) [0..<4] ?p ! (q * bs + j)
      = planes ! (q * bs + j) XOR sel (4 \<le> q \<and> q div 4 \<le> Suc n \<and> bit (alphas ! (q div 4)) (q mod 4)) (D (q div 4) ! j)"
      if q: "q < 128" and j: "j < bs" for q j
    proof -
      have "?p ! (q * bs + j) = planes ! (q * bs + j) XOR sel (4 \<le> q \<and> q div 4 \<le> n \<and> bit (alphas ! (q div 4)) (q mod 4)) (D (q div 4) ! j)"
        using Suc q j by auto
      moreover have "4 \<le> q" if "q div 4 = Suc n" using that by (cases "4 \<le> q") auto
      ultimately show ?thesis unfolding r(2) [OF q j] by (cases "q div 4 = Suc n") (auto simp: le_Suc_eq)
    qed
    with r(1) show ?case unfolding st by blast
  qed (auto simp: assms div_eq_0_iff sel_def)
  from this [of 31] have m: "length (fold (\<lambda>i. fold (row i) [0..<4]) [1..<32] planes) = 128 * bs"
    "\<And>q j. q < 128 \<Longrightarrow> j < bs \<Longrightarrow> fold (\<lambda>i. fold (row i) [0..<4]) [1..<32] planes ! (q * bs + j)
      = planes ! (q * bs + j) XOR sel (4 \<le> q \<and> q div 4 \<le> 31 \<and> bit (alphas ! (q div 4)) (q mod 4)) (D (q div 4) ! j)" by auto
  have e: "apply_corrections bs alphas d_bufs planes = fold (\<lambda>i. fold (row i) [0..<4]) [1..<32] planes"
    unfolding apply_corrections_def Let_def row_def [abs_def] D_def SOFTSPOKEN_N_def SOFTSPOKEN_K_def by simp
  show "length (apply_corrections bs alphas d_bufs planes) = 128 * bs" unfolding e by (rule m(1))
  show "apply_corrections bs alphas d_bufs planes ! (q * bs + j) = planes ! (q * bs + j) XOR
      sel (SOFTSPOKEN_K \<le> q \<and> bit (alphas ! (q div SOFTSPOKEN_K)) (q mod SOFTSPOKEN_K))
        (take bs (drop ((q div SOFTSPOKEN_K - 1) * bs) d_bufs) ! j)" if "q < 128" "j < bs"
  proof -
    have "q div 4 \<le> 31" using that by auto
    then show ?thesis using m(2) [OF that] by (simp add: e D_def SOFTSPOKEN_K_def)
  qed
qed

text \<open>The transposed planes: bit \<open>q\<close> of output \<open>j\<close> is bit \<open>j\<close> of row \<open>q\<close>.\<close>

lemma transpose_planes:
  assumes "length planes = 128 * bs" "j < bs * 128" "q < 128"
  shows "bit (transpose_softspoken_planes planes bs ! j) q = bit (planes ! (q * bs + j div 128)) (j mod 128)"
    and "length (transpose_softspoken_planes planes bs) = bs * 128"
proof -
  have len: "length (slice_as_bytes planes) = 128 * (bs * BLOCK_BYTES)"
  proof -
    have "length (concat (map block_bytes ps)) = length ps * BLOCK_BYTES" for ps by (induction ps) auto
    then show ?thesis using assms(1) by (simp add: slice_as_bytes_def)
  qed
  have n: "bs * 128 = bs * BLOCK_BYTES * 8" by (simp add: BLOCK_BYTES_def)
  note t = bit_transpose [OF len, of j q, folded n, OF assms(2,3)]
  show "length (transpose_softspoken_planes planes bs) = bs * 128" using t(2) by (simp add: transpose_softspoken_planes_def)
  have j: "j div 8 = j div 128 * 16 + j mod 128 div 8" "j mod 128 div 8 < 16" "8 * (j mod 128 div 8) + j mod 8 = j mod 128"
    using div_mult2_eq [of j 8 16] mod_mult2_eq [of j 8 16] by simp_all
  have "slice_as_bytes planes = concat (map (\<lambda>i. block_bytes (planes ! i)) [0..<128 * bs])"
    unfolding slice_as_bytes_def by (subst map_nth [symmetric, of planes]) (simp add: o_def assms(1) map_nth)
  moreover have i: "q * bs + j div 128 < 128 * bs" by (rule row_less) (use assms in \<open>auto simp: less_mult_imp_div_less mult.commute\<close>)
  ultimately have "slice_as_bytes planes ! ((q * bs + j div 128) * 16 + j mod 128 div 8) = block_bytes (planes ! (q * bs + j div 128)) ! (j mod 128 div 8)"
    using concat_uniform(1) [of "128 * bs" "\<lambda>i. block_bytes (planes ! i)" 16 "q * bs + j div 128" "j mod 128 div 8"] j(2)
    by (simp add: BLOCK_BYTES_def)
  moreover have "q * (bs * BLOCK_BYTES) + j div 8 = (q * bs + j div 128) * 16 + j mod 128 div 8"
    by (simp add: j(1) BLOCK_BYTES_def algebra_simps)
  ultimately have b: "slice_as_bytes planes ! (q * (bs * BLOCK_BYTES) + j div 8) = block_bytes (planes ! (q * bs + j div 128)) ! (j mod 128 div 8)"
    by (simp only:)
  have "bit (transpose_softspoken_planes planes bs ! j) q = bit (block_bytes (planes ! (q * bs + j div 128)) ! (j mod 128 div 8)) (j mod 8)"
    using t(1) by (simp only: transpose_softspoken_planes_def b)
  also have "\<dots> = bit (planes ! (q * bs + j div 128)) (j mod 128)"
    using j(2,3) by (simp add: block_bytes_def bit_le_bytes_nth BLOCK_BYTES_def)
  finally show "bit (transpose_softspoken_planes planes bs ! j) q = bit (planes ! (q * bs + j div 128)) (j mod 128)" .
qed

section \<open>Two states in step\<close>

definition trees_agree :: "softspoken \<Rightarrow> softspoken \<Rightarrow> bool" where
  \<comment> \<open>the sender of correlated OTs knows every leaf of the receiver but one of each tree\<close>
  "trees_agree S R \<longleftrightarrow>
     (\<forall>i < SOFTSPOKEN_N. so_alphas S ! i < SOFTSPOKEN_Q
        \<and> (\<forall>b < SOFTSPOKEN_K. bit (so_alphas S ! i) b = bit (so_delta S) (i * SOFTSPOKEN_K + b))
        \<and> (\<forall>y < SOFTSPOKEN_Q. y \<noteq> so_alphas S ! i \<longrightarrow>
             so_leaves_recv S ! (i * SOFTSPOKEN_Q + y) = so_leaves_send R ! (i * SOFTSPOKEN_Q + y)))
     \<and> length (so_leaves_recv S) = SOFTSPOKEN_N * SOFTSPOKEN_Q \<and> length (so_leaves_send R) = SOFTSPOKEN_N * SOFTSPOKEN_Q
     \<and> lsb (so_delta S)"

definition in_step :: "softspoken \<Rightarrow> softspoken \<Rightarrow> bool" where
  "in_step S R \<longleftrightarrow> trees_agree S R \<and> so_cur_send_session S = so_cur_recv_session R
     \<and> so_cur_send_b0 S = so_cur_recv_b0 R \<and> so_check_t R = so_check_q S XOR mul (so_check_x R) (so_delta S)"

lemmas softspoken_sizes = SOFTSPOKEN_K_def SOFTSPOKEN_N_def SOFTSPOKEN_Q_def

lemma leaves_at:
  assumes "length leaves = SOFTSPOKEN_N * SOFTSPOKEN_Q" "i < SOFTSPOKEN_N"
  shows "length (leaves_at i leaves) = 2 ^ SOFTSPOKEN_K"
    and "y < SOFTSPOKEN_Q \<Longrightarrow> leaves_at i leaves ! y = leaves ! (i * SOFTSPOKEN_Q + y)"
proof -
  have "Suc i * SOFTSPOKEN_Q \<le> SOFTSPOKEN_N * SOFTSPOKEN_Q" using assms(2) by (intro mult_le_mono1) simp
  then have "i * SOFTSPOKEN_Q + SOFTSPOKEN_Q \<le> length leaves" by (simp only: mult_Suc assms(1))
  then show "length (leaves_at i leaves) = 2 ^ SOFTSPOKEN_K"
    and "y < SOFTSPOKEN_Q \<Longrightarrow> leaves_at i leaves ! y = leaves ! (i * SOFTSPOKEN_Q + y)"
    by (simp_all add: leaves_at_def SOFTSPOKEN_Q_def)
qed

definition u_row :: "(block \<Rightarrow> block \<Rightarrow> block) \<Rightarrow> nat \<Rightarrow> softspoken \<Rightarrow> nat \<Rightarrow> block list" where
  \<comment> \<open>the sum over the leaves of tree \<open>i\<close> of the receiver, per column\<close>
  "u_row aes bs R i = map (\<lambda>j. xs.F (\<lambda>x. leaf_hash aes (so_cur_recv_session R) (so_cur_recv_b0 R) j (leaves_at i (so_leaves_send R) ! x)) {..<2 ^ SOFTSPOKEN_K}) [0..<bs]"

definition v_rows :: "(block \<Rightarrow> block \<Rightarrow> block) \<Rightarrow> nat \<Rightarrow> softspoken \<Rightarrow> nat \<Rightarrow> block list" where
  "v_rows aes bs R i = map (\<lambda>p. plane SOFTSPOKEN_K (map (leaf_hash aes (so_cur_recv_session R) (so_cur_recv_b0 R) (p mod bs)) (leaves_at i (so_leaves_send R))) (p div bs))
     [0..<SOFTSPOKEN_K * bs]"

definition w_rows :: "(block \<Rightarrow> block \<Rightarrow> block) \<Rightarrow> nat \<Rightarrow> softspoken \<Rightarrow> nat \<Rightarrow> block list" where
  "w_rows aes bs S i = map (\<lambda>p. plane SOFTSPOKEN_K (map (\<lambda>y. leaf_hash aes (so_cur_send_session S) (so_cur_send_b0 S) (p mod bs)
       (leaves_at i (so_leaves_recv S) ! (so_alphas S ! i XOR y))) [0..<2 ^ SOFTSPOKEN_K]) (p div bs))
     [0..<SOFTSPOKEN_K * bs]"

lemma w_rows_v_rows:
  assumes "in_step S R" "i < SOFTSPOKEN_N" "b < SOFTSPOKEN_K" "j < bs"
  shows "w_rows aes bs S i ! (b * bs + j) = v_rows aes bs R i ! (b * bs + j)
    XOR sel (bit (so_delta S) (i * SOFTSPOKEN_K + b)) (u_row aes bs R i ! j)"
proof -
  have t: "so_alphas S ! i < 2 ^ SOFTSPOKEN_K" "bit (so_alphas S ! i) b = bit (so_delta S) (i * SOFTSPOKEN_K + b)"
    and l: "length (so_leaves_recv S) = SOFTSPOKEN_N * SOFTSPOKEN_Q" "length (so_leaves_send R) = SOFTSPOKEN_N * SOFTSPOKEN_Q"
    and agree: "\<And>y. y < SOFTSPOKEN_Q \<Longrightarrow> y \<noteq> so_alphas S ! i \<Longrightarrow>
             so_leaves_recv S ! (i * SOFTSPOKEN_Q + y) = so_leaves_send R ! (i * SOFTSPOKEN_Q + y)"
    using assms(1-3) by (auto simp: in_step_def trees_agree_def SOFTSPOKEN_Q_def)
  have known: "leaves_at i (so_leaves_recv S) ! x = leaves_at i (so_leaves_send R) ! x" if "x < 2 ^ SOFTSPOKEN_K" "x \<noteq> so_alphas S ! i" for x
    using that agree [of x] leaves_at(2) [OF l(1) assms(2)] leaves_at(2) [OF l(2) assms(2)] by (simp add: SOFTSPOKEN_Q_def)
  have p: "b * bs + j < SOFTSPOKEN_K * bs" "(b * bs + j) mod bs = j" "(b * bs + j) div bs = b"
    using assms(3,4) mult_le_mono1 [of "Suc b" SOFTSPOKEN_K bs] by (simp_all add: mult_Suc)
  have s: "so_cur_send_session S = so_cur_recv_session R" "so_cur_send_b0 S = so_cur_recv_b0 R" using assms(1) by (simp_all add: in_step_def)
  show ?thesis using plane_receiver [OF assms(3) t(1) leaves_at(1) [OF l(2) assms(2)] known,
      of "leaf_hash aes (so_cur_recv_session R) (so_cur_recv_b0 R) j"] assms(4)
    by (simp add: w_rows_def v_rows_def u_row_def p s t(2))
qed

section \<open>One chunk\<close>

lemma foldR_Inr: "(\<And>x s. x \<in> set xs \<Longrightarrow> P s \<Longrightarrow> f x s = Inr (g x s) \<and> P (g x s)) \<Longrightarrow> P s \<Longrightarrow> foldR f xs s = Inr (fold g xs s) \<and> P (fold g xs s)"
  by (induction xs arbitrary: s) auto

lemma slice_fits: "i < SOFTSPOKEN_N \<Longrightarrow> i * (SOFTSPOKEN_K * bs) + SOFTSPOKEN_K * bs \<le> 128 * bs"
  using mult_le_mono1 [of "Suc i" SOFTSPOKEN_N "SOFTSPOKEN_K * bs"] by (simp add: softspoken_sizes)

lemma send_chunk_prepare:
  assumes "in_step S R"
  shows "send_chunk_prepare aes bs S = Inr (concat (map (w_rows aes bs S) [0..<SOFTSPOKEN_N]))"
proof -
  have l: "length (w_rows aes bs S i) = SOFTSPOKEN_K * bs" for i by (simp add: w_rows_def)
  have step: "bindR (okOr SPanic (sfvole_receiver_butterfly aes SOFTSPOKEN_K (so_alphas S ! i) (leaves_at i (so_leaves_recv S))
       (so_cur_send_b0 S) bs (so_cur_send_session S))) (\<lambda>w. Inr (copy_planes bs i w planes))
     = Inr (set_slice (i * (SOFTSPOKEN_K * bs)) (w_rows aes bs S i) planes)
     \<and> length (set_slice (i * (SOFTSPOKEN_K * bs)) (w_rows aes bs S i) planes) = 128 * bs"
    if "i \<in> set [0..<SOFTSPOKEN_N]" "length planes = 128 * bs" for i planes
  proof -
    have i: "i < SOFTSPOKEN_N" using that by simp
    have "so_alphas S ! i < 2 ^ SOFTSPOKEN_K" "length (so_leaves_recv S) = SOFTSPOKEN_N * SOFTSPOKEN_Q"
      using assms i by (auto simp: in_step_def trees_agree_def SOFTSPOKEN_Q_def)
    then have "sfvole_receiver_butterfly aes SOFTSPOKEN_K (so_alphas S ! i) (leaves_at i (so_leaves_recv S))
       (so_cur_send_b0 S) bs (so_cur_send_session S) = Some (w_rows aes bs S i)"
      using receiver_butterfly [of SOFTSPOKEN_K "leaves_at i (so_leaves_recv S)" "so_alphas S ! i"] leaves_at(1) i
      by (simp add: w_rows_def) (simp add: SOFTSPOKEN_K_def)
    then show ?thesis using copy_planes_slice [OF l i that(2)] slice_fits [OF i] that(2) by (simp add: l)
  qed
  show ?thesis unfolding send_chunk_prepare_def
    using foldR_Inr [where P = "\<lambda>pl. length pl = 128 * bs" and xs = "[0..<SOFTSPOKEN_N]"
          and g = "\<lambda>i. set_slice (i * (SOFTSPOKEN_K * bs)) (w_rows aes bs S i)" and s = "replicate (128 * bs) 0", OF step]
      set_slices [of SOFTSPOKEN_N "w_rows aes bs S" "SOFTSPOKEN_K * bs" "replicate (128 * bs) 0"] l
    by (simp add: softspoken_sizes)
qed

definition d_row :: "(block \<Rightarrow> block \<Rightarrow> block) \<Rightarrow> nat \<Rightarrow> softspoken \<Rightarrow> nat \<Rightarrow> block list" where
  "d_row aes bs R i = map (\<lambda>j. u_row aes bs R 0 ! j XOR u_row aes bs R i ! j) [0..<bs]"

lemma fold_pair: "fold (\<lambda>x (a, b). (f x a, g x b)) xs (a, b) = (fold f xs a, fold g xs b)"
  by (induction xs arbitrary: a b) auto

lemma recv_chunk_prepare:
  assumes "length (so_leaves_send R) = SOFTSPOKEN_N * SOFTSPOKEN_Q"
  shows "recv_chunk_prepare aes bs R = Inr (concat (map (\<lambda>i. d_row aes bs R (Suc i)) [0..<SOFTSPOKEN_N - 1]),
    transpose_softspoken_planes (set_slice 0 (u_row aes bs R 0) (concat (map (v_rows aes bs R) [0..<SOFTSPOKEN_N]))) bs, u_row aes bs R 0)"
proof -
  have l: "length (v_rows aes bs R i) = SOFTSPOKEN_K * bs" "length (d_row aes bs R i) = bs" for i by (simp_all add: v_rows_def d_row_def)
  have bf: "sfvole_sender_butterfly aes SOFTSPOKEN_K (leaves_at i (so_leaves_send R)) (so_cur_recv_b0 R) bs (so_cur_recv_session R)
      = Some (u_row aes bs R i, v_rows aes bs R i)" if "i < SOFTSPOKEN_N" for i
    using sender_butterfly [of SOFTSPOKEN_K "leaves_at i (so_leaves_send R)"] leaves_at(1) [OF assms that]
    by (simp add: u_row_def v_rows_def) (simp add: SOFTSPOKEN_K_def)
  have n0: "0 < SOFTSPOKEN_N" by (simp add: softspoken_sizes)
  let ?g1 = "\<lambda>i. set_slice (i * (SOFTSPOKEN_K * bs)) (v_rows aes bs R i)"
  let ?g2 = "\<lambda>i. set_slice ((i - 1) * bs) (d_row aes bs R i)"
  let ?P = "\<lambda>(planes, d). length planes = 128 * bs \<and> length d = (SOFTSPOKEN_N - 1) * bs"
  let ?f = "\<lambda>i (planes, d_bufs). bindR (okOr SPanic (sfvole_sender_butterfly aes SOFTSPOKEN_K (leaves_at i (so_leaves_send R)) (so_cur_recv_b0 R) bs (so_cur_recv_session R)))
     (\<lambda>(u_temp, v_i). Inr (copy_planes bs i v_i planes,
         fold (\<lambda>j d_bufs. d_bufs[(i - 1) * bs + j := u_row aes bs R 0 ! j XOR u_temp ! j]) [0..<bs] d_bufs))"
  have step: "?f i st = Inr ((\<lambda>i (planes, d). (?g1 i planes, ?g2 i d)) i st) \<and> ?P ((\<lambda>i (planes, d). (?g1 i planes, ?g2 i d)) i st)"
    if "i \<in> set [1..<SOFTSPOKEN_N]" "?P st" for i st
  proof -
    obtain planes d where st: "st = (planes, d)" by (cases st)
    have i: "1 \<le> i" "i < SOFTSPOKEN_N" using that by auto
    have "Suc (i - 1) * bs \<le> (SOFTSPOKEN_N - 1) * bs" using i by (intro mult_le_mono1) simp
    then have dl: "(i - 1) * bs + bs \<le> length d" using that(2) by (simp only: mult_Suc st prod.case)
    have "fold (\<lambda>j d_bufs. d_bufs[(i - 1) * bs + j := u_row aes bs R 0 ! j XOR u_row aes bs R i ! j]) [0..<bs] d = ?g2 i d"
      unfolding d_row_def by (rule fold_consecutive [OF dl])
    then show ?thesis using copy_planes_slice [OF l(1) i(2), of planes] slice_fits [OF i(2), of bs] that(2) bf [OF i(2)] dl
      by (simp add: st l)
  qed
  have P0: "?P (set_slice 0 (v_rows aes bs R 0) (replicate (128 * bs) 0), replicate ((SOFTSPOKEN_N - 1) * bs) 0)"
    using slice_fits [OF n0, of bs] by (simp add: l)
  have "foldR ?f [1..<SOFTSPOKEN_N] (set_slice 0 (v_rows aes bs R 0) (replicate (128 * bs) 0), replicate ((SOFTSPOKEN_N - 1) * bs) 0)
     = Inr (fold ?g1 [1..<SOFTSPOKEN_N] (set_slice 0 (v_rows aes bs R 0) (replicate (128 * bs) 0)), fold ?g2 [1..<SOFTSPOKEN_N] (replicate ((SOFTSPOKEN_N - 1) * bs) 0))"
    using foldR_Inr [where P = ?P and xs = "[1..<SOFTSPOKEN_N]" and f = ?f and g = "\<lambda>i (planes, d). (?g1 i planes, ?g2 i d)", OF step P0]
    unfolding fold_pair by blast
  moreover have "fold ?g1 [1..<SOFTSPOKEN_N] (set_slice 0 (v_rows aes bs R 0) (replicate (128 * bs) 0)) = concat (map (v_rows aes bs R) [0..<SOFTSPOKEN_N])"
  proof -
    have "[0..<SOFTSPOKEN_N] = 0 # [1..<SOFTSPOKEN_N]" using n0 by (simp add: upt_conv_Cons)
    then have "fold ?g1 [1..<SOFTSPOKEN_N] (set_slice 0 (v_rows aes bs R 0) (replicate (128 * bs) 0)) = fold ?g1 [0..<SOFTSPOKEN_N] (replicate (128 * bs) 0)"
      by simp
    then show ?thesis using set_slices [of SOFTSPOKEN_N "v_rows aes bs R" "SOFTSPOKEN_K * bs" "replicate (128 * bs) 0"] l
      by (simp add: softspoken_sizes)
  qed
  moreover have "fold ?g2 [1..<SOFTSPOKEN_N] (replicate ((SOFTSPOKEN_N - 1) * bs) 0) = concat (map (\<lambda>i. d_row aes bs R (Suc i)) [0..<SOFTSPOKEN_N - 1])"
  proof -
    have "[1..<SOFTSPOKEN_N] = map Suc [0..<SOFTSPOKEN_N - 1]" using n0 by (simp add: map_Suc_upt)
    then show ?thesis using set_slices [of "SOFTSPOKEN_N - 1" "\<lambda>i. d_row aes bs R (Suc i)" bs "replicate ((SOFTSPOKEN_N - 1) * bs) 0"] l
      by (simp add: fold_map o_def)
  qed
  moreover have "copy_planes bs 0 (v_rows aes bs R 0) (replicate (128 * bs) 0) = set_slice 0 (v_rows aes bs R 0) (replicate (128 * bs) 0)"
    using copy_planes_slice [OF l(1) n0, of "replicate (128 * bs) 0"] by simp
  ultimately show ?thesis by (simp add: recv_chunk_prepare_def bf [OF n0] Let_def)
qed

definition planes_S :: "(block \<Rightarrow> block \<Rightarrow> block) \<Rightarrow> nat \<Rightarrow> softspoken \<Rightarrow> softspoken \<Rightarrow> block list" where
  "planes_S aes bs S R = set_slice 0 (replicate bs 0) (apply_corrections bs (so_alphas S)
     (concat (map (\<lambda>i. d_row aes bs R (Suc i)) [0..<SOFTSPOKEN_N - 1])) (concat (map (w_rows aes bs S) [0..<SOFTSPOKEN_N])))"

definition planes_R :: "(block \<Rightarrow> block \<Rightarrow> block) \<Rightarrow> nat \<Rightarrow> softspoken \<Rightarrow> block list" where
  "planes_R aes bs R = set_slice 0 (u_row aes bs R 0) (concat (map (v_rows aes bs R) [0..<SOFTSPOKEN_N]))"

lemma row_of_rows:
  assumes "\<And>i. length (W i) = SOFTSPOKEN_K * bs" "q < 128" "j < bs"
  shows "concat (map W [0..<SOFTSPOKEN_N]) ! (q * bs + j) = W (q div SOFTSPOKEN_K) ! (q mod SOFTSPOKEN_K * bs + j)"
    and "length (concat (map W [0..<SOFTSPOKEN_N])) = 128 * bs"
proof -
  have q: "q div 4 < 32" using assms(2) by auto
  have "Suc (q mod 4) * bs \<le> 4 * bs" by (intro mult_le_mono1) (simp add: Suc_le_eq)
  then have lt: "q mod 4 * bs + j < 4 * bs" using assms(3) by (simp only: mult_Suc)
  have "q div 4 * (4 * bs) + q mod 4 * bs = (q div 4 * 4 + q mod 4) * bs" by (simp only: add_mult_distrib mult.assoc)
  then have "q * bs + j = q div 4 * (4 * bs) + (q mod 4 * bs + j)" by simp
  then have e: "q * bs + j = q div 4 * (4 * bs) + (q mod 4 * bs + j)" .
  have nk: "SOFTSPOKEN_N = 32" "SOFTSPOKEN_K = 4" by (simp_all add: softspoken_sizes)
  note c = concat_uniform [of 32 W "4 * bs", OF assms(1) [unfolded nk] q lt]
  show "concat (map W [0..<SOFTSPOKEN_N]) ! (q * bs + j) = W (q div SOFTSPOKEN_K) ! (q mod SOFTSPOKEN_K * bs + j)"
    unfolding nk e by (rule c(1))
  show "length (concat (map W [0..<SOFTSPOKEN_N])) = 128 * bs" unfolding nk c(2) by simp
qed

lemma planes:
  assumes st: "in_step S R" and q: "q < 128" and j: "j < bs"
  shows "planes_S aes bs S R ! (q * bs + j) = (if q = 0 then 0 else planes_R aes bs R ! (q * bs + j)
      XOR sel (bit (so_delta S) q) (u_row aes bs R 0 ! j))"
    and "planes_R aes bs R ! j = u_row aes bs R 0 ! j"
    and "length (planes_S aes bs S R) = 128 * bs" "length (planes_R aes bs R) = 128 * bs"
proof -
  let ?W = "concat (map (w_rows aes bs S) [0..<SOFTSPOKEN_N])" and ?V = "concat (map (v_rows aes bs R) [0..<SOFTSPOKEN_N])"
  let ?D = "concat (map (\<lambda>i. d_row aes bs R (Suc i)) [0..<SOFTSPOKEN_N - 1])"
  have w: "?W ! (q * bs + j) = w_rows aes bs S (q div SOFTSPOKEN_K) ! (q mod SOFTSPOKEN_K * bs + j)" "length ?W = 128 * bs"
    by (rule row_of_rows [OF _ q j]; simp add: w_rows_def)+
  have v: "?V ! (q * bs + j) = v_rows aes bs R (q div SOFTSPOKEN_K) ! (q mod SOFTSPOKEN_K * bs + j)" "length ?V = 128 * bs"
    by (rule row_of_rows [OF _ q j]; simp add: v_rows_def)+
  have ul: "length (u_row aes bs R 0) = bs" by (simp add: u_row_def)
  have le: "bs \<le> 128 * bs" "j < 128 * bs" "q * bs + j < 128 * bs" using row_less [OF q j] j by auto
  have z: "q * bs + j < bs \<longleftrightarrow> q = 0" using j by (cases q) auto
  have i: "q div SOFTSPOKEN_K < SOFTSPOKEN_N" "q mod SOFTSPOKEN_K < SOFTSPOKEN_K" using q by (auto simp: softspoken_sizes)
  have wv: "?W ! (q * bs + j) = ?V ! (q * bs + j) XOR sel (bit (so_delta S) q) (u_row aes bs R (q div SOFTSPOKEN_K) ! j)"
    using w_rows_v_rows [OF st i j, of aes] by (simp add: w(1) v(1))
  have corr: "apply_corrections bs (so_alphas S) ?D ?W ! (q * bs + j) = ?V ! (q * bs + j) XOR sel (bit (so_delta S) q) (u_row aes bs R 0 ! j)"
  proof (cases "SOFTSPOKEN_K \<le> q")
    case False
    then show ?thesis using apply_corrections(2) [OF w(2) q j] wv by simp
  next
    case True
    define t where "t = q div SOFTSPOKEN_K - 1"
    have t: "q div SOFTSPOKEN_K = Suc t" "t < SOFTSPOKEN_N - 1" using True i(1) by (auto simp: t_def softspoken_sizes)
    have Dl: "length (d_row aes bs R (Suc i)) = bs" for i by (simp add: d_row_def)
    have "Suc t * bs \<le> (SOFTSPOKEN_N - 1) * bs" using t(2) by (intro mult_le_mono1) simp
    then have tl: "t * bs + bs \<le> (SOFTSPOKEN_N - 1) * bs" by (simp only: mult_Suc)
    note c = concat_uniform [of "SOFTSPOKEN_N - 1" "\<lambda>i. d_row aes bs R (Suc i)" bs, OF Dl t(2) j]
    have "t * bs \<le> length ?D" using tl c(2) by linarith
    then have "take bs (drop (t * bs) ?D) ! j = d_row aes bs R (Suc t) ! j" by (simp only: nth_take [OF j] nth_drop c(1))
    moreover have "bit (so_alphas S ! (q div SOFTSPOKEN_K)) (q mod SOFTSPOKEN_K) = bit (so_delta S) q"
      using st i by (simp add: in_step_def trees_agree_def)
    ultimately show ?thesis using apply_corrections(2) [OF w(2) q j, of "so_alphas S" ?D] True wv j
      by (simp add: t(1) d_row_def) (auto simp: sel_def xor_ac)
  qed
  show "planes_S aes bs S R ! (q * bs + j) = (if q = 0 then 0 else planes_R aes bs R ! (q * bs + j)
      XOR sel (bit (so_delta S) q) (u_row aes bs R 0 ! j))"
    using apply_corrections(1) [OF w(2), of "so_alphas S" ?D] corr le j
    by (simp add: planes_S_def planes_R_def nth_set_slice v(2) ul z)
  show "planes_R aes bs R ! j = u_row aes bs R 0 ! j" using le j by (simp add: planes_R_def nth_set_slice v(2) ul)
  show "length (planes_S aes bs S R) = 128 * bs" "length (planes_R aes bs R) = 128 * bs"
    using apply_corrections(1) [OF w(2), of "so_alphas S" ?D] le by (simp_all add: planes_S_def planes_R_def v(2) ul)
qed

definition out_S :: "(block \<Rightarrow> block \<Rightarrow> block) \<Rightarrow> nat \<Rightarrow> softspoken \<Rightarrow> softspoken \<Rightarrow> block list" where
  "out_S aes bs S R = transpose_softspoken_planes (planes_S aes bs S R) bs"

definition out_R :: "(block \<Rightarrow> block \<Rightarrow> block) \<Rightarrow> nat \<Rightarrow> softspoken \<Rightarrow> block list" where
  "out_R aes bs R = transpose_softspoken_planes (planes_R aes bs R) bs"

lemma chunk_correlated:
  assumes st: "in_step S R" and p: "p < bs * 128"
  shows "lsb (out_R aes bs R ! p) = bit (u_row aes bs R 0 ! (p div 128)) (p mod 128)"
    and "rel1 (so_delta S) (out_R aes bs R ! p) (out_S aes bs S R ! p)"
    and "length (out_R aes bs R) = bs * 128" "length (out_S aes bs S R) = bs * 128"
proof -
  have c: "p div 128 < bs" using p by (simp add: less_mult_imp_div_less)
  note pl = planes [OF st _ c, where aes = aes]
  note len = pl(3,4) [of 0, simplified]
  have S: "bit (out_S aes bs S R ! p) q = bit (planes_S aes bs S R ! (q * bs + p div 128)) (p mod 128)"
    and R: "bit (out_R aes bs R ! p) q = bit (planes_R aes bs R ! (q * bs + p div 128)) (p mod 128)" if "q < 128" for q
    unfolding out_S_def out_R_def by (rule transpose_planes [OF len(1) p that], rule transpose_planes [OF len(2) p that])
  show u: "lsb (out_R aes bs R ! p) = bit (u_row aes bs R 0 ! (p div 128)) (p mod 128)"
    using R [of 0] pl(2) [of 0] by simp
  have d: "lsb (so_delta S)" using st by (simp add: in_step_def trees_agree_def)
  have "out_R aes bs R ! p = out_S aes bs S R ! p XOR sel (lsb (out_R aes bs R ! p)) (so_delta S)"
  proof (rule bit_word_eqI)
    fix q assume "q < LENGTH(128)"
    then have q: "q < 128" by simp
    show "bit (out_R aes bs R ! p) q = bit (out_S aes bs S R ! p XOR sel (lsb (out_R aes bs R ! p)) (so_delta S)) q"
      unfolding bit_xor_iff sel_simps u S [OF q] R [OF q] pl(1) [OF q]
      using d pl(2) [of 0] by (cases "q = 0") (auto simp: bit_xor_iff)
  qed
  then show "rel1 (so_delta S) (out_R aes bs R ! p) (out_S aes bs S R ! p)" by (simp add: rel1_def)
  show "length (out_R aes bs R) = bs * 128" "length (out_S aes bs S R) = bs * 128"
    unfolding out_S_def out_R_def using transpose_planes(2) [OF len(1) p, of 0] transpose_planes(2) [OF len(2) p, of 0] by auto
qed

section \<open>The consistency check\<close>

lemma length_prg_random_block [simp]: "length (fst (prg_random_block aes n g)) = n"
proof -
  have "length (fst (fold (\<lambda>_ (out, g). (out @ [block_make 0 (prg_counter g)], g\<lparr>prg_counter := prg_counter g + 1\<rparr>)) [0..<n] (out, g))) = length out + n" for out
    by (induction n) (simp_all add: case_prod_beta)
  from this [of "[]"] show ?thesis by (simp add: prg_random_block_def Let_def prp_permute_block_def case_prod_beta)
qed

lemma pack_slices:
  assumes "length out = bs * 128"
  shows "mapR (\<lambda>i. okOr SPanic (gf_pack_128_soft (take 128 (drop (i * 128) out)))) [0..<bs]
    = Inr (map (\<lambda>i. pack (take 128 (drop (i * 128) out))) [0..<bs])"
proof (rule mapR_all_Inr)
  fix i assume "i \<in> set [0..<bs]"
  then have "Suc i * 128 \<le> bs * 128" by (intro mult_le_mono1) simp
  then have "length (take 128 (drop (i * 128) out)) = 128" by (simp add: assms)
  then show "okOr SPanic (gf_pack_128_soft (take 128 (drop (i * 128) out))) = Inr (pack (take 128 (drop (i * 128) out)))"
    by (simp add: gf_pack_soft)
qed

lemma pack_chunk:
  assumes st: "in_step S R" and i: "i < bs"
  shows "pack (take 128 (drop (i * 128) (out_S aes bs S R)))
    = pack (take 128 (drop (i * 128) (out_R aes bs R))) XOR mul (u_row aes bs R 0 ! i) (so_delta S)"
proof -
  have b: "i * 128 + k < bs * 128" if "k < 128" for k using that i mult_le_mono1 [of "Suc i" bs 128] by simp
  note c = chunk_correlated [OF st b, where aes = aes]
  have l: "length (out_R aes bs R) = bs * 128" "length (out_S aes bs S R) = bs * 128" using c(3,4) [of 0] by simp_all
  have o: "out_S aes bs S R ! (i * 128 + k) = out_R aes bs R ! (i * 128 + k) XOR sel (bit (u_row aes bs R 0 ! i) k) (so_delta S)" if "k < 128" for k
    using c(1,2) [OF that] that by (simp add: rel1_def xor.assoc)
  have "pack (take 128 (drop (i * 128) (out_S aes bs S R)))
    = xs.F (\<lambda>k. xtn k (out_R aes bs R ! (i * 128 + k)) XOR sel (bit (u_row aes bs R 0 ! i) k) (xtn k (so_delta S))) {..<128}"
    unfolding pack_def by (rule xs.cong) (use i in \<open>auto simp: l o xtn_xor xtn_sel\<close>)
  also have "\<dots> = pack (take 128 (drop (i * 128) (out_R aes bs R))) XOR mul (so_delta S) (u_row aes bs R 0 ! i)"
    unfolding xs.distrib pack_def mul_def by (intro arg_cong2 [where f = "(XOR)"] xs.cong refl) (use i in \<open>auto simp: l\<close>)
  finally show ?thesis by (simp add: mul_commute)
qed

definition chi_of :: "(block \<Rightarrow> block \<Rightarrow> block) \<Rightarrow> block \<Rightarrow> nat \<Rightarrow> block list" where
  "chi_of aes seed bs = fst (prg_random_block aes bs (prg_new seed 0))"

lemma combine_send:
  assumes "length out = bs * 128"
  shows "combine_send_chunk aes seed out bs s = Inr (s\<lparr>so_check_q := so_check_q s
     XOR xs.F (\<lambda>i. mul (chi_of aes seed bs ! i) (pack (take 128 (drop (i * 128) out)))) {..<bs}\<rparr>)"
proof -
  have l: "length (chi_of aes seed bs) = bs" by (simp add: chi_of_def)
  have "xs.F (\<lambda>i. mul (chi_of aes seed bs ! i) (map (\<lambda>i. pack (take 128 (drop (i * 128) out))) [0..<bs] ! i)) {..<bs}
     = xs.F (\<lambda>i. mul (chi_of aes seed bs ! i) (pack (take 128 (drop (i * 128) out)))) {..<bs}" by (rule xs.cong) auto
  then show ?thesis unfolding combine_send_chunk_def case_prod_beta pack_slices [OF assms] bindR_simps
    by (simp add: gf_inner [OF l] flip: chi_of_def)
qed

lemma combine_recv:
  assumes "length out = bs * 128" "length u = bs"
  shows "combine_recv_chunk aes seed out u bs s = Inr (s\<lparr>so_check_t := so_check_t s
       XOR xs.F (\<lambda>i. mul (chi_of aes seed bs ! i) (pack (take 128 (drop (i * 128) out)))) {..<bs},
     so_check_x := so_check_x s XOR xs.F (\<lambda>i. mul (chi_of aes seed bs ! i) (u ! i)) {..<bs}\<rparr>)"
proof -
  have l: "length (chi_of aes seed bs) = bs" by (simp add: chi_of_def)
  have "xs.F (\<lambda>i. mul (chi_of aes seed bs ! i) (map (\<lambda>i. pack (take 128 (drop (i * 128) out))) [0..<bs] ! i)) {..<bs}
     = xs.F (\<lambda>i. mul (chi_of aes seed bs ! i) (pack (take 128 (drop (i * 128) out)))) {..<bs}" by (rule xs.cong) auto
  then show ?thesis unfolding combine_recv_chunk_def case_prod_beta pack_slices [OF assms(1)] bindR_simps
    by (simp add: gf_inner [OF l] assms(2) flip: chi_of_def)
qed

text \<open>
  A chunk with the same transcript seed on both sides: the outputs are correlated, the states stay in
  step, and nothing else of the states changes.
\<close>

lemma chunk_run:
  assumes st: "in_step S R"
  shows "\<exists>d u planes S' R'. recv_chunk_prepare aes bs R = Inr (d, out_R aes bs R, u) \<and> length d = (SOFTSPOKEN_N - 1) * bs
    \<and> recv_chunk_finish aes (Some seed) (out_R aes bs R) u bs R = Inr R'
    \<and> send_chunk_prepare aes bs S = Inr planes
    \<and> send_chunk_finish aes planes d (Some seed) bs S = Inr (out_S aes bs S R, S')
    \<and> in_step S' R'
    \<and> (\<exists>q b. S' = S\<lparr>so_check_q := q, so_cur_send_b0 := b\<rparr>) \<and> (\<exists>t x b. R' = R\<lparr>so_check_t := t, so_check_x := x, so_cur_recv_b0 := b\<rparr>)"
proof -
  let ?d = "concat (map (\<lambda>i. d_row aes bs R (Suc i)) [0..<SOFTSPOKEN_N - 1])" and ?u = "u_row aes bs R 0"
  let ?X = "xs.F (\<lambda>i. mul (chi_of aes seed bs ! i) (?u ! i)) {..<bs}"
  let ?T = "xs.F (\<lambda>i. mul (chi_of aes seed bs ! i) (pack (take 128 (drop (i * 128) (out_R aes bs R))))) {..<bs}"
  let ?Q = "xs.F (\<lambda>i. mul (chi_of aes seed bs ! i) (pack (take 128 (drop (i * 128) (out_S aes bs S R))))) {..<bs}"
  have R: "length (so_leaves_send R) = SOFTSPOKEN_N * SOFTSPOKEN_Q" using st by (simp add: in_step_def trees_agree_def)
  have outs: "length (out_R aes bs R) = bs * 128" "length (out_S aes bs S R) = bs * 128"
  proof -
    have "fold (\<lambda>_. id) xs z = z" for xs :: "nat list" and z :: "block list" by (induction xs) auto
    then have "length (transpose_softspoken_planes pl 0) = 0" for pl by (simp add: transpose_softspoken_planes_def transpose_128_rows_def)
    then show "length (out_R aes bs R) = bs * 128" "length (out_S aes bs S R) = bs * 128"
      using chunk_correlated(3,4) [OF st, of 0 bs aes] by (cases "bs = 0"; simp add: out_R_def out_S_def)+
  qed
  have ul: "length ?u = bs" by (simp add: u_row_def)
  have dl: "length ?d = (SOFTSPOKEN_N - 1) * bs"
  proof -
    have "length (concat (map (\<lambda>i. d_row aes bs R (Suc i)) [0..<n])) = n * bs" for n by (induction n) (simp_all add: d_row_def)
    then show ?thesis .
  qed
  define R' where "R' = R\<lparr>so_check_t := so_check_t R XOR ?T, so_check_x := so_check_x R XOR ?X, so_cur_recv_b0 := so_cur_recv_b0 R + of_nat bs\<rparr>"
  define S' where "S' = S\<lparr>so_check_q := so_check_q S XOR ?Q, so_cur_send_b0 := so_cur_send_b0 S + of_nat bs\<rparr>"
  have rp: "recv_chunk_prepare aes bs R = Inr (?d, out_R aes bs R, ?u)" using recv_chunk_prepare [OF R] by (simp add: out_R_def planes_R_def)
  have rf: "recv_chunk_finish aes (Some seed) (out_R aes bs R) ?u bs R = Inr R'"
    by (simp add: recv_chunk_finish_def combine_recv [OF outs(1) ul] R'_def)
  have sf: "send_chunk_finish aes (concat (map (w_rows aes bs S) [0..<SOFTSPOKEN_N])) ?d (Some seed) bs S = Inr (out_S aes bs S R, S')"
  proof -
    have "transpose_softspoken_planes (set_slice 0 (replicate bs 0) (apply_corrections bs (so_alphas S) ?d
        (concat (map (w_rows aes bs S) [0..<SOFTSPOKEN_N])))) bs = out_S aes bs S R" by (simp only: out_S_def planes_S_def)
    then show ?thesis unfolding send_chunk_finish_def Let_def
      by (simp add: dl combine_send [OF outs(2)] S'_def del: One_nat_def length_concat)
  qed
  have "?Q = ?T XOR mul ?X (so_delta S)"
  proof -
    have "?Q = xs.F (\<lambda>i. mul (chi_of aes seed bs ! i) (pack (take 128 (drop (i * 128) (out_R aes bs R))))
        XOR mul (mul (chi_of aes seed bs ! i) (?u ! i)) (so_delta S)) {..<bs}"
      by (rule xs.cong) (auto simp: pack_chunk [OF st] mul_xor_right mul_assoc)
    then show ?thesis by (simp add: xs.distrib mul_F_left)
  qed
  then have "in_step S' R'" using st by (simp add: in_step_def trees_agree_def S'_def R'_def mul_xor_left xor_ac)
  then show ?thesis using rp rf sf dl send_chunk_prepare [OF st] unfolding S'_def R'_def by blast
qed

lemma check_accepts:
  assumes "in_step S R"
  shows "verify_send_check (fst (recv_check_blocks R)) (snd (recv_check_blocks R)) S = Inr ()"
  using assms by (simp add: verify_send_check_def recv_check_blocks_def gf_mul_soft in_step_def)

section \<open>Setup\<close>

lemma block_to_bools: "length (block_to_bools b) = 128" "k < 128 \<Longrightarrow> block_to_bools b ! k = bit b k"
  by (auto simp: block_to_bools_def Let_def and_1_eq_of_bool bit_drop_bit_eq block_bytes_def bit_le_bytes_nth BLOCK_BYTES_def)

lemma alpha_of:
  shows "bit (alpha_of db i) b \<longleftrightarrow> b < SOFTSPOKEN_K \<and> db ! (i * SOFTSPOKEN_K + b)" and "alpha_of db i < SOFTSPOKEN_Q"
proof -
  have b: "bit (fold (\<lambda>b alpha. if db ! (i * SOFTSPOKEN_K + b) then alpha OR push_bit b 1 else alpha) [0..<n] (0 :: nat)) b
     \<longleftrightarrow> b < n \<and> db ! (i * SOFTSPOKEN_K + b)" for n b
    by (induction n) (auto simp: bit_or_iff bit_exp_iff less_Suc_eq)
  then show "bit (alpha_of db i) b \<longleftrightarrow> b < SOFTSPOKEN_K \<and> db ! (i * SOFTSPOKEN_K + b)" for b by (simp add: alpha_of_def)
  then have "take_bit SOFTSPOKEN_K (alpha_of db i) = alpha_of db i" by (intro bit_eqI) (auto simp: bit_take_bit_iff)
  then show "alpha_of db i < SOFTSPOKEN_Q" by (simp add: take_bit_nat_eq_self_iff SOFTSPOKEN_Q_def)
qed

lemma bootstrap_send_choices:
  assumes "length (so_alphas S) = SOFTSPOKEN_N"
  shows "bootstrap_send_choices S = (concat (map (\<lambda>i. map (\<lambda>b. \<not> bit (alpha_of (so_delta_bool S) i) b) [0..<SOFTSPOKEN_K]) [0..<SOFTSPOKEN_N]),
    S\<lparr>so_alphas := map (alpha_of (so_delta_bool S)) [0..<SOFTSPOKEN_N]\<rparr>)"
proof -
  define db where "db = so_delta_bool S"
  let ?f = "\<lambda>i (choices, s). let alpha = alpha_of (so_delta_bool s) i
        in (choices @ map (\<lambda>b. drop_bit b alpha AND 1 = 0) [0..<SOFTSPOKEN_K], s\<lparr>so_alphas := (so_alphas s)[i := alpha]\<rparr>)"
  have "fold ?f [0..<n] ([], S) = (concat (map (\<lambda>i. map (\<lambda>b. \<not> bit (alpha_of db i) b) [0..<SOFTSPOKEN_K]) [0..<n]),
      S\<lparr>so_alphas := map (alpha_of db) [0..<n] @ drop n (so_alphas S)\<rparr>)" if "n \<le> SOFTSPOKEN_N" for n
    using that
  proof (induction n)
    case (Suc n)
    have "(map (alpha_of db) [0..<n] @ drop n (so_alphas S))[n := alpha_of db n] = map (alpha_of db) [0..<Suc n] @ drop (Suc n) (so_alphas S)"
      using Suc.prems assms by (simp add: list_update_append upd_conv_take_nth_drop)
    moreover have "(\<lambda>b. drop_bit b (alpha_of db n) AND 1 = 0) = (\<lambda>b. \<not> bit (alpha_of db n) b)" by (simp only: and_one_bit) auto
    ultimately show ?case using Suc unfolding db_def by (simp add: Let_def del: and_one_eq)
  qed simp
  from this [of SOFTSPOKEN_N] show ?thesis by (simp add: bootstrap_send_choices_def db_def assms)
qed

definition setup_prg :: "(block \<Rightarrow> block \<Rightarrow> block) \<Rightarrow> softspoken \<Rightarrow> nat \<Rightarrow> prg" where
  "setup_prg aes R i = ((\<lambda>g. snd (prg_random_block aes 2 g)) ^^ i) (so_choice_prg R)"

definition setup_delta :: "(block \<Rightarrow> block \<Rightarrow> block) \<Rightarrow> softspoken \<Rightarrow> nat \<Rightarrow> block" where
  "setup_delta aes R i = fst (prg_random_block aes 2 (setup_prg aes R i)) ! 0"

definition setup_root :: "(block \<Rightarrow> block \<Rightarrow> block) \<Rightarrow> softspoken \<Rightarrow> nat \<Rightarrow> block" where
  "setup_root aes R i = fst (prg_random_block aes 2 (setup_prg aes R i)) ! 1"

definition setup_sums :: "(block \<Rightarrow> block \<Rightarrow> block) \<Rightarrow> softspoken \<Rightarrow> nat \<Rightarrow> block list" where
  "setup_sums aes R i = map (level_sum aes (setup_delta aes R i) (setup_root aes R i) False) [0..<SOFTSPOKEN_K]"

definition setup_leaves :: "(block \<Rightarrow> block \<Rightarrow> block) \<Rightarrow> softspoken \<Rightarrow> nat \<Rightarrow> block list" where
  "setup_leaves aes R i = tree aes (setup_delta aes R i) (setup_root aes R i) SOFTSPOKEN_K"

lemma length_setup_leaves [simp]: "length (setup_leaves aes R i) = SOFTSPOKEN_Q"
  using length_tree [of aes _ _ 3] by (simp add: setup_leaves_def SOFTSPOKEN_K_def SOFTSPOKEN_Q_def eval_nat_numeral)

lemma bootstrap_recv_keys:
  "bootstrap_recv_keys aes R = Inr ((concat (map (setup_sums aes R) [0..<SOFTSPOKEN_N]),
      concat (map (\<lambda>i. map (\<lambda>k. k XOR setup_delta aes R i) (setup_sums aes R i)) [0..<SOFTSPOKEN_N])),
    R\<lparr>so_choice_prg := setup_prg aes R SOFTSPOKEN_N, so_leaves_send := concat (map (setup_leaves aes R) [0..<SOFTSPOKEN_N])\<rparr>)"
proof -
  let ?f = "\<lambda>i ((k0, k1), s). let (pair, g) = prg_random_block aes 2 (so_choice_prg s); s = s\<lparr>so_choice_prg := g\<rparr>
        in bindR (okOr SPanic (cggm_build_sender aes SOFTSPOKEN_K (pair ! 0) (pair ! 1) False)) (\<lambda>(leaves, k0_i).
             Inr ((k0 @ k0_i, k1 @ map (\<lambda>key. key XOR pair ! 0) k0_i),
                  s\<lparr>so_leaves_send := set_slice (i * SOFTSPOKEN_Q) leaves (so_leaves_send s)\<rparr>))"
  let ?st = "\<lambda>n. ((concat (map (setup_sums aes R) [0..<n]),
      concat (map (\<lambda>i. map (\<lambda>k. k XOR setup_delta aes R i) (setup_sums aes R i)) [0..<n])),
    R\<lparr>so_choice_prg := setup_prg aes R n, so_leaves_send := fold (\<lambda>i. set_slice (i * SOFTSPOKEN_Q) (setup_leaves aes R i)) [0..<n]
       (replicate (SOFTSPOKEN_N * SOFTSPOKEN_Q) 0)\<rparr>)"
  have step: "?f n (?st n) = Inr (?st (Suc n))" for n
  proof -
    have "cggm_build_sender aes SOFTSPOKEN_K (setup_delta aes R n) (setup_root aes R n) False = Some (setup_leaves aes R n, setup_sums aes R n)"
      unfolding setup_leaves_def setup_sums_def by (rule cggm_build_sender) (simp add: SOFTSPOKEN_K_def)
    moreover have "setup_prg aes R (Suc n) = snd (prg_random_block aes 2 (setup_prg aes R n))" by (simp add: setup_prg_def)
    ultimately show ?thesis by (simp add: Let_def case_prod_beta setup_delta_def setup_root_def)
  qed
  have "foldR ?f [0..<n] (?st 0) = Inr (?st n)" for n
  proof (induction n)
    case (Suc n)
    then show ?case using step [of n] by (simp only: upt_Suc le0 if_True foldR_append bindR_simps foldR.simps)
  qed simp
  from this [of SOFTSPOKEN_N] show ?thesis
    using set_slices [of SOFTSPOKEN_N "setup_leaves aes R" SOFTSPOKEN_Q "replicate (SOFTSPOKEN_N * SOFTSPOKEN_Q) 0"]
    by (simp add: bootstrap_recv_keys_def setup_prg_def)
qed

text \<open>What a base OT gives for choices and pairs of messages.\<close>

definition ot_choose :: "bool list \<Rightarrow> block list \<Rightarrow> block list \<Rightarrow> block list" where
  "ot_choose choices k0 k1 = map (\<lambda>i. if choices ! i then k1 ! i else k0 ! i) [0..<length choices]"

lemma bootstrap_apply:
  assumes alphas: "\<And>i. i < SOFTSPOKEN_N \<Longrightarrow> so_alphas S ! i < SOFTSPOKEN_Q"
    and rec: "received = concat (map (\<lambda>i. map (\<lambda>l. if bit (so_alphas S ! i) l then setup_sums aes R i ! l
        else setup_sums aes R i ! l XOR setup_delta aes R i) [0..<SOFTSPOKEN_K]) [0..<SOFTSPOKEN_N])"
  shows "\<exists>L. bootstrap_send_apply_received aes received S = Inr (S\<lparr>so_leaves_recv := concat (map L [0..<SOFTSPOKEN_N])\<rparr>)
    \<and> (\<forall>i < SOFTSPOKEN_N. length (L i) = SOFTSPOKEN_Q
        \<and> (\<forall>y < SOFTSPOKEN_Q. L i ! y = (if y = so_alphas S ! i then 0 else setup_leaves aes R i ! y)))"
proof -
  define row where "row i = map (\<lambda>l. if bit (so_alphas S ! i) l then setup_sums aes R i ! l
        else setup_sums aes R i ! l XOR setup_delta aes R i) [0..<SOFTSPOKEN_K]" for i
  have rl: "length (row i) = SOFTSPOKEN_K" for i by (simp add: row_def)
  have rec': "received = concat (map row [0..<SOFTSPOKEN_N])" by (simp only: rec row_def [abs_def])
  have len: "length received = SOFTSPOKEN_N * SOFTSPOKEN_K"
    unfolding rec' by (rule concat_uniform(2) [of SOFTSPOKEN_N row SOFTSPOKEN_K 0 0, OF rl]) (simp_all add: softspoken_sizes)
  have sl: "take SOFTSPOKEN_K (drop (i * SOFTSPOKEN_K) received) = row i" if i: "i < SOFTSPOKEN_N" for i
  proof (rule nth_equalityI)
    have "Suc i * SOFTSPOKEN_K \<le> SOFTSPOKEN_N * SOFTSPOKEN_K" using i by (intro mult_le_mono1) simp
    then have le: "i * SOFTSPOKEN_K + SOFTSPOKEN_K \<le> length received" by (simp only: mult_Suc len)
    then show "length (take SOFTSPOKEN_K (drop (i * SOFTSPOKEN_K) received)) = length (row i)" by (simp add: rl)
    fix l assume "l < length (take SOFTSPOKEN_K (drop (i * SOFTSPOKEN_K) received))"
    then have l: "l < SOFTSPOKEN_K" by simp
    then show "take SOFTSPOKEN_K (drop (i * SOFTSPOKEN_K) received) ! l = row i ! l"
      using concat_uniform(1) [OF rl i l] le by (simp add: rec')
  qed
  have "\<exists>L. cggm_eval_receiver aes SOFTSPOKEN_K (unat (cggm_bit_reverse (of_nat (so_alphas S ! i)) SOFTSPOKEN_K)) (row i) False = Some L
    \<and> length L = SOFTSPOKEN_Q \<and> (\<forall>y < SOFTSPOKEN_Q. L ! y = (if y = so_alphas S ! i then 0 else setup_leaves aes R i ! y))"
    if "i < SOFTSPOKEN_N" for i
    unfolding setup_leaves_def
    by (rule setup_tree) (use alphas [OF that] in \<open>simp_all add: row_def setup_sums_def softspoken_sizes\<close>)
  then obtain L where L: "\<And>i. i < SOFTSPOKEN_N \<Longrightarrow>
      cggm_eval_receiver aes SOFTSPOKEN_K (unat (cggm_bit_reverse (of_nat (so_alphas S ! i)) SOFTSPOKEN_K)) (row i) False = Some (L i)
    \<and> length (L i) = SOFTSPOKEN_Q \<and> (\<forall>y < SOFTSPOKEN_Q. L i ! y = (if y = so_alphas S ! i then 0 else setup_leaves aes R i ! y))"
    by metis
  let ?f = "\<lambda>i s. let path = unat (cggm_bit_reverse (of_nat (so_alphas s ! i)) SOFTSPOKEN_K)
          in bindR (okOr SPanic (cggm_eval_receiver aes SOFTSPOKEN_K path
                      (take SOFTSPOKEN_K (drop (i * SOFTSPOKEN_K) received)) False)) (\<lambda>leaves.
               Inr (s\<lparr>so_leaves_recv := set_slice (i * SOFTSPOKEN_Q) leaves (so_leaves_recv s)\<rparr>))"
  have "foldR ?f [0..<n] (S\<lparr>so_leaves_recv := z\<rparr>)
     = Inr (S\<lparr>so_leaves_recv := fold (\<lambda>i. set_slice (i * SOFTSPOKEN_Q) (L i)) [0..<n] z\<rparr>)" if "n \<le> SOFTSPOKEN_N" for n z
    using that
  proof (induction n)
    case (Suc n)
    then show ?case using L [of n] sl [of n] by (simp add: foldR_append Let_def)
  qed simp
  from this [of SOFTSPOKEN_N "replicate (SOFTSPOKEN_N * SOFTSPOKEN_Q) 0"] show ?thesis
    using set_slices [of SOFTSPOKEN_N L SOFTSPOKEN_Q "replicate (SOFTSPOKEN_N * SOFTSPOKEN_Q) 0"] L
    by (intro exI [of _ L]) (simp add: bootstrap_send_apply_received_def len)
qed

lemma ot_choose_append:
  assumes "length a = length c" "length b = length c"
  shows "ot_choose (c @ c') (a @ a') (b @ b') = ot_choose c a b @ ot_choose c' a' b'"
  by (rule nth_equalityI) (auto simp: ot_choose_def nth_append assms)

lemma ot_choose_concat:
  assumes "\<And>i. length (A i) = length (C i)" "\<And>i. length (B i) = length (C i)"
  shows "ot_choose (concat (map C [0..<n])) (concat (map A [0..<n])) (concat (map B [0..<n]))
    = concat (map (\<lambda>i. ot_choose (C i) (A i) (B i)) [0..<n])"
proof (induction n)
  case (Suc n)
  have "length (concat (map X [0..<n])) = length (concat (map C [0..<n]))" if "\<And>i. length (X i) = length (C i)" for X :: "nat \<Rightarrow> block list"
    using that by (induction n) auto
  with Suc assms show ?case by (simp add: ot_choose_append)
qed (simp add: ot_choose_def)

lemma bootstrap_run:
  assumes "length (so_alphas S) = SOFTSPOKEN_N" and db: "so_delta_bool S = block_to_bools (so_delta S)" and d: "lsb (so_delta S)"
  shows "\<exists>choices k0 k1 S1 R1 S2. bootstrap_send_choices S = (choices, S1) \<and> bootstrap_recv_keys aes R = Inr ((k0, k1), R1)
    \<and> bootstrap_send_apply_received aes (ot_choose choices k0 k1) S1 = Inr S2
    \<and> length choices = 128 \<and> length k0 = 128 \<and> length k1 = 128
    \<and> trees_agree S2 R1 \<and> (\<exists>a l. S2 = S\<lparr>so_alphas := a, so_leaves_recv := l\<rparr>)
    \<and> (\<exists>g l. R1 = R\<lparr>so_choice_prg := g, so_leaves_send := l\<rparr>)"
proof -
  let ?a = "alpha_of (so_delta_bool S)"
  let ?C = "\<lambda>i. map (\<lambda>b. \<not> bit (?a i) b) [0..<SOFTSPOKEN_K]"
  let ?B = "\<lambda>i. map (\<lambda>k. k XOR setup_delta aes R i) (setup_sums aes R i)"
  define S1 where "S1 = S\<lparr>so_alphas := map ?a [0..<SOFTSPOKEN_N]\<rparr>"
  define R1 where "R1 = R\<lparr>so_choice_prg := setup_prg aes R SOFTSPOKEN_N, so_leaves_send := concat (map (setup_leaves aes R) [0..<SOFTSPOKEN_N])\<rparr>"
  have sl: "length (setup_sums aes R i) = SOFTSPOKEN_K" for i by (simp add: setup_sums_def)
  have l: "length (concat (map X [0..<SOFTSPOKEN_N])) = 128" if "\<And>i. length (X i) = SOFTSPOKEN_K" for X :: "nat \<Rightarrow> 'x list"
    using concat_uniform(2) [of SOFTSPOKEN_N X SOFTSPOKEN_K 0 0] that by (simp add: softspoken_sizes del: length_concat)
  have al: "so_alphas S1 ! i = ?a i" if "i < SOFTSPOKEN_N" for i using that by (simp add: S1_def)
  have "ot_choose (concat (map ?C [0..<SOFTSPOKEN_N])) (concat (map (setup_sums aes R) [0..<SOFTSPOKEN_N])) (concat (map ?B [0..<SOFTSPOKEN_N]))
    = concat (map (\<lambda>i. ot_choose (?C i) (setup_sums aes R i) (?B i)) [0..<SOFTSPOKEN_N])"
    by (rule ot_choose_concat) (simp_all add: sl)
  also have "\<dots> = concat (map (\<lambda>i. map (\<lambda>l. if bit (so_alphas S1 ! i) l then setup_sums aes R i ! l
        else setup_sums aes R i ! l XOR setup_delta aes R i) [0..<SOFTSPOKEN_K]) [0..<SOFTSPOKEN_N])"
    by (intro arg_cong [where f = concat] map_cong refl) (auto simp: ot_choose_def al sl intro!: nth_equalityI)
  finally have rec: "ot_choose (concat (map ?C [0..<SOFTSPOKEN_N])) (concat (map (setup_sums aes R) [0..<SOFTSPOKEN_N])) (concat (map ?B [0..<SOFTSPOKEN_N])) = \<dots>" .
  have alq: "so_alphas S1 ! i < SOFTSPOKEN_Q" if "i < SOFTSPOKEN_N" for i using al [OF that] alpha_of(2) by simp
  obtain L where L: "bootstrap_send_apply_received aes (ot_choose (concat (map ?C [0..<SOFTSPOKEN_N]))
        (concat (map (setup_sums aes R) [0..<SOFTSPOKEN_N])) (concat (map ?B [0..<SOFTSPOKEN_N]))) S1
      = Inr (S1\<lparr>so_leaves_recv := concat (map L [0..<SOFTSPOKEN_N])\<rparr>)"
    and Lp: "\<And>i. i < SOFTSPOKEN_N \<Longrightarrow> length (L i) = SOFTSPOKEN_Q
        \<and> (\<forall>y < SOFTSPOKEN_Q. L i ! y = (if y = so_alphas S1 ! i then 0 else setup_leaves aes R i ! y))"
    using bootstrap_apply [OF alq rec] by blast
  have db': "so_delta_bool S ! (i * SOFTSPOKEN_K + b) = bit (so_delta S) (i * SOFTSPOKEN_K + b)" if "i < SOFTSPOKEN_N" "b < SOFTSPOKEN_K" for i b
    using that by (simp add: db block_to_bools softspoken_sizes)
  have "trees_agree (S1\<lparr>so_leaves_recv := concat (map L [0..<SOFTSPOKEN_N])\<rparr>) R1"
    unfolding trees_agree_def
  proof (intro conjI allI impI)
    fix i b assume i: "i < SOFTSPOKEN_N"
    show "so_alphas (S1\<lparr>so_leaves_recv := concat (map L [0..<SOFTSPOKEN_N])\<rparr>) ! i < SOFTSPOKEN_Q" by (simp add: al i alpha_of)
    assume "b < SOFTSPOKEN_K"
    then show "bit (so_alphas (S1\<lparr>so_leaves_recv := concat (map L [0..<SOFTSPOKEN_N])\<rparr>) ! i) b
        = bit (so_delta (S1\<lparr>so_leaves_recv := concat (map L [0..<SOFTSPOKEN_N])\<rparr>)) (i * SOFTSPOKEN_K + b)"
      using al [OF i] db' [OF i] by (simp add: alpha_of) (simp add: S1_def)
  next
    fix i y assume i: "i < SOFTSPOKEN_N" and y: "y < SOFTSPOKEN_Q" and "y \<noteq> so_alphas (S1\<lparr>so_leaves_recv := concat (map L [0..<SOFTSPOKEN_N])\<rparr>) ! i"
    then show "so_leaves_recv (S1\<lparr>so_leaves_recv := concat (map L [0..<SOFTSPOKEN_N])\<rparr>) ! (i * SOFTSPOKEN_Q + y) = so_leaves_send R1 ! (i * SOFTSPOKEN_Q + y)"
      using concat_uniform(1) [of SOFTSPOKEN_N L, OF _ i y] concat_uniform(1) [of SOFTSPOKEN_N "setup_leaves aes R", OF _ i y] Lp
      by (simp add: R1_def)
  next
    show "length (so_leaves_recv (S1\<lparr>so_leaves_recv := concat (map L [0..<SOFTSPOKEN_N])\<rparr>)) = SOFTSPOKEN_N * SOFTSPOKEN_Q"
      using concat_uniform(2) [of SOFTSPOKEN_N L SOFTSPOKEN_Q 0 0] Lp by (simp add: softspoken_sizes del: length_concat)
    show "length (so_leaves_send R1) = SOFTSPOKEN_N * SOFTSPOKEN_Q"
      using concat_uniform(2) [of SOFTSPOKEN_N "setup_leaves aes R" SOFTSPOKEN_Q 0 0] by (simp add: R1_def softspoken_sizes del: length_concat)
    show "lsb (so_delta (S1\<lparr>so_leaves_recv := concat (map L [0..<SOFTSPOKEN_N])\<rparr>))" using d by (simp add: S1_def)
  qed
  note agree = this
  have f1: "bootstrap_send_choices S = (concat (map ?C [0..<SOFTSPOKEN_N]), S1)" unfolding S1_def by (rule bootstrap_send_choices [OF assms(1)])
  have f2: "bootstrap_recv_keys aes R = Inr ((concat (map (setup_sums aes R) [0..<SOFTSPOKEN_N]), concat (map ?B [0..<SOFTSPOKEN_N])), R1)"
    unfolding R1_def by (rule bootstrap_recv_keys)
  have ls: "length (concat (map ?C [0..<SOFTSPOKEN_N])) = 128" "length (concat (map (setup_sums aes R) [0..<SOFTSPOKEN_N])) = 128"
    "length (concat (map ?B [0..<SOFTSPOKEN_N])) = 128"
    by (rule l; simp add: sl)+
  have r: "\<exists>a l. S1\<lparr>so_leaves_recv := concat (map L [0..<SOFTSPOKEN_N])\<rparr> = S\<lparr>so_alphas := a, so_leaves_recv := l\<rparr>"
    "\<exists>g l. R1 = R\<lparr>so_choice_prg := g, so_leaves_send := l\<rparr>"
    unfolding S1_def R1_def by blast+
  show ?thesis by (rule exI, rule exI, rule exI, rule exI, rule exI, rule exI, intro conjI, rule f1, rule f2, rule L) (use ls agree r in blast)+
qed

section \<open>The check of the trees\<close>

abbreviation dm :: "(block \<Rightarrow> block \<Rightarrow> block) \<Rightarrow> u64 \<Rightarrow> block \<Rightarrow> block" where
  "dm aes c x \<equiv> aes_dm aes pprf_check_key c x"

definition leaf_bytes :: "(block \<Rightarrow> block \<Rightarrow> block) \<Rightarrow> block \<Rightarrow> bytes" where
  "leaf_bytes aes x = block_bytes (dm aes 1 x) @ block_bytes (dm aes 2 x)"

definition tree_sums :: "(block \<Rightarrow> block \<Rightarrow> block) \<Rightarrow> (nat \<Rightarrow> block) \<Rightarrow> nat set \<Rightarrow> block \<times> block" where
  "tree_sums aes f A = (xs.F (\<lambda>y. dm aes 1 (f y)) A, xs.F (\<lambda>y. dm aes 2 (f y)) A)"

lemma send_leaves:
  assumes "base + n \<le> length leaves"
  shows "fold (pprf_send_leaf aes base) [0..<n] ((0, 0), hash, leaves) =
    (tree_sums aes (\<lambda>y. leaves ! (base + y)) {..<n}, hash @ concat (map (\<lambda>y. leaf_bytes aes (leaves ! (base + y))) [0..<n]),
     set_slice base (map (\<lambda>y. dm aes 0 (leaves ! (base + y))) [0..<n]) leaves)"
  using assms
proof (induction n)
  case 0
  then show ?case by (simp add: tree_sums_def set_slice_def)
next
  case (Suc n)
  let ?l = "set_slice base (map (\<lambda>y. dm aes 0 (leaves ! (base + y))) [0..<n]) leaves"
  have r: "?l ! (base + n) = leaves ! (base + n)" using Suc.prems by (simp add: nth_set_slice)
  have w: "?l[base + n := dm aes 0 (leaves ! (base + n))] = set_slice base (map (\<lambda>y. dm aes 0 (leaves ! (base + y))) [0..<Suc n]) leaves"
    by (rule nth_equalityI) (use Suc.prems in \<open>auto simp: nth_set_slice nth_list_update nth_append\<close>)
  have "fold (pprf_send_leaf aes base) [0..<Suc n] ((0, 0), hash, leaves) = pprf_send_leaf aes base n (tree_sums aes (\<lambda>y. leaves ! (base + y)) {..<n},
      hash @ concat (map (\<lambda>y. leaf_bytes aes (leaves ! (base + y))) [0..<n]), ?l)"
    using Suc by simp
  also have "\<dots> = (tree_sums aes (\<lambda>y. leaves ! (base + y)) {..<Suc n}, hash @ concat (map (\<lambda>y. leaf_bytes aes (leaves ! (base + y))) [0..<Suc n]),
     ?l[base + n := dm aes 0 (leaves ! (base + n))])"
    by (simp add: pprf_send_leaf_def Let_def aes_dm_3_def tree_sums_def r lessThan_Suc xor_ac leaf_bytes_def)
  finally show ?case unfolding w .
qed

lemma recv_leaves:
  assumes "base + n \<le> length leaves" "2 * n \<le> length s_buf"
  shows "fold (pprf_recv_leaf aes base a) [0..<n] ((0, 0), s_buf, leaves) =
    (tree_sums aes (\<lambda>y. leaves ! (base + y)) ({..<n} - {a}),
     map (\<lambda>p. if p div 2 < n \<and> p div 2 \<noteq> a then dm aes (if even p then 1 else 2) (leaves ! (base + p div 2)) else s_buf ! p) [0..<length s_buf],
     map (\<lambda>p. if base \<le> p \<and> p < base + n \<and> p \<noteq> base + a then dm aes 0 (leaves ! p) else leaves ! p) [0..<length leaves])"
  using assms
proof (induction n)
  case 0
  then show ?case by (auto simp: tree_sums_def intro!: nth_equalityI)
next
  case (Suc n)
  let ?s = "\<lambda>n. map (\<lambda>p. if p div 2 < n \<and> p div 2 \<noteq> a then dm aes (if even p then 1 else 2) (leaves ! (base + p div 2)) else s_buf ! p) [0..<length s_buf]"
  let ?l = "\<lambda>n. map (\<lambda>p. if base \<le> p \<and> p < base + n \<and> p \<noteq> base + a then dm aes 0 (leaves ! p) else leaves ! p) [0..<length leaves]"
  have st: "fold (pprf_recv_leaf aes base a) [0..<Suc n] ((0, 0), s_buf, leaves)
      = pprf_recv_leaf aes base a n (tree_sums aes (\<lambda>y. leaves ! (base + y)) ({..<n} - {a}), ?s n, ?l n)"
    using Suc by simp
  show ?case
  proof (cases "n = a")
    case True
    have "?s (Suc n) = ?s n" "?l (Suc n) = ?l n" using True by (auto simp: less_Suc_eq)
    moreover have "{..<Suc n} - {a} = {..<n} - {a}" using True by auto
    ultimately show ?thesis unfolding st by (simp add: pprf_recv_leaf_def tree_sums_def True)
  next
    case False
    have r: "?l n ! (base + n) = leaves ! (base + n)" using Suc.prems by simp
    have odd: "p div 2 = n \<longleftrightarrow> p = n * 2 \<or> p = n * 2 + 1" for p by auto
    have "(?s n)[n * 2 := dm aes 1 (leaves ! (base + n)), n * 2 + 1 := dm aes 2 (leaves ! (base + n))] = ?s (Suc n)"
      by (rule nth_equalityI) (use Suc.prems False odd in \<open>auto simp: nth_list_update less_Suc_eq\<close>)
    moreover have "(?l n)[base + n := dm aes 0 (leaves ! (base + n))] = ?l (Suc n)"
      by (rule nth_equalityI) (use Suc.prems False in \<open>auto simp: nth_list_update less_Suc_eq\<close>)
    moreover have "{..<Suc n} - {a} = insert n ({..<n} - {a})" using False by auto
    ultimately show ?thesis unfolding st using False
      by (simp add: pprf_recv_leaf_def Let_def aes_dm_3_def tree_sums_def r xor_ac)
  qed
qed

text \<open>All trees, over the leaves \<open>l\<close> of the receiver of correlated OTs.\<close>

definition hash_upto :: "(block \<Rightarrow> block \<Rightarrow> block) \<Rightarrow> block list \<Rightarrow> nat \<Rightarrow> bytes" where
  "hash_upto aes l n = concat (map (\<lambda>i. concat (map (\<lambda>y. leaf_bytes aes (l ! (i * SOFTSPOKEN_Q + y))) [0..<SOFTSPOKEN_Q])) [0..<n])"

definition sums_at :: "(block \<Rightarrow> block \<Rightarrow> block) \<Rightarrow> block list \<Rightarrow> nat \<Rightarrow> block \<times> block" where
  "sums_at aes l i = tree_sums aes (\<lambda>y. l ! (i * SOFTSPOKEN_Q + y)) {..<SOFTSPOKEN_Q}"

definition t_upto :: "(block \<Rightarrow> block \<Rightarrow> block) \<Rightarrow> block list \<Rightarrow> nat \<Rightarrow> block list" where
  "t_upto aes l n = map (\<lambda>p. if p div 2 < n then (if even p then fst else snd) (sums_at aes l (p div 2)) else 0) [0..<SOFTSPOKEN_N * 2]"

lemma length_t_upto [simp]: "length (t_upto aes l n) = SOFTSPOKEN_N * 2"
  by (simp add: t_upto_def)

lemma tree_fits: "i < SOFTSPOKEN_N \<Longrightarrow> i * SOFTSPOKEN_Q + SOFTSPOKEN_Q \<le> SOFTSPOKEN_N * SOFTSPOKEN_Q"
  using mult_le_mono1 [of "Suc i" SOFTSPOKEN_N SOFTSPOKEN_Q] by (simp only: mult_Suc) simp

lemma pprf_send:
  assumes "length (so_leaves_send R) = SOFTSPOKEN_N * SOFTSPOKEN_Q"
  shows "pprf_check_send_prepare aes sha256 R = ((t_upto aes (so_leaves_send R) SOFTSPOKEN_N, sha256 (hash_upto aes (so_leaves_send R) SOFTSPOKEN_N)),
    R\<lparr>so_leaves_send := map (dm aes 0) (so_leaves_send R)\<rparr>)"
proof -
  define l where "l = so_leaves_send R"
  have len: "length l = SOFTSPOKEN_N * SOFTSPOKEN_Q" using assms by (simp add: l_def)
  define f where "f = (\<lambda>i (t_buf, hash, leaves).
            let ((tx, ty), hash, leaves) = fold (pprf_send_leaf aes (i * SOFTSPOKEN_Q)) [0..<SOFTSPOKEN_Q] ((0, 0), hash, leaves)
            in (t_buf[i * 2 := tx, i * 2 + 1 := ty], hash, leaves))"
  let ?l = "\<lambda>n. map (\<lambda>p. if p < n * SOFTSPOKEN_Q then dm aes 0 (l ! p) else l ! p) [0..<length l]"
  have "fold f [0..<n] (replicate (SOFTSPOKEN_N * 2) 0, [], l) = (t_upto aes l n, hash_upto aes l n, ?l n)" if "n \<le> SOFTSPOKEN_N" for n
    using that
  proof (induction n)
    case 0
    then show ?case by (auto simp: t_upto_def hash_upto_def map_nth map_replicate_const)
  next
    case (Suc n)
    have fit: "n * SOFTSPOKEN_Q + SOFTSPOKEN_Q \<le> length l" using tree_fits [of n] Suc.prems len by simp
    then have fit': "n * SOFTSPOKEN_Q + SOFTSPOKEN_Q \<le> length (?l n)" by simp
    have old: "?l n ! (n * SOFTSPOKEN_Q + y) = l ! (n * SOFTSPOKEN_Q + y)" if "y < SOFTSPOKEN_Q" for y using that fit by simp
    have s: "tree_sums aes (\<lambda>y. ?l n ! (n * SOFTSPOKEN_Q + y)) {..<SOFTSPOKEN_Q} = sums_at aes l n"
      unfolding sums_at_def tree_sums_def by (intro arg_cong2 [where f = Pair] xs.cong refl) (use old in auto)
    have h: "hash_upto aes l n @ concat (map (\<lambda>y. leaf_bytes aes (?l n ! (n * SOFTSPOKEN_Q + y))) [0..<SOFTSPOKEN_Q]) = hash_upto aes l (Suc n)"
    proof -
      have "map (\<lambda>y. leaf_bytes aes (?l n ! (n * SOFTSPOKEN_Q + y))) [0..<SOFTSPOKEN_Q] = map (\<lambda>y. leaf_bytes aes (l ! (n * SOFTSPOKEN_Q + y))) [0..<SOFTSPOKEN_Q]"
        by (rule map_cong) (use old in auto)
      then show ?thesis
        by (simp only: hash_upto_def upt_Suc le0 if_True map_append concat_append list.map concat.simps append_Nil2)
    qed
    have lv: "set_slice (n * SOFTSPOKEN_Q) (map (\<lambda>y. dm aes 0 (?l n ! (n * SOFTSPOKEN_Q + y))) [0..<SOFTSPOKEN_Q]) (?l n) = ?l (Suc n)"
      by (rule nth_equalityI) (use fit in \<open>auto simp: nth_set_slice not_less\<close>)
    have odd: "p div 2 = n \<longleftrightarrow> p = n * 2 \<or> p = n * 2 + 1" for p by auto
    have t: "(t_upto aes l n)[n * 2 := fst (sums_at aes l n), n * 2 + 1 := snd (sums_at aes l n)] = t_upto aes l (Suc n)"
      by (rule nth_equalityI) (use Suc.prems odd in \<open>auto simp: t_upto_def nth_list_update less_Suc_eq\<close>)
    have "f n (t_upto aes l n, hash_upto aes l n, ?l n) = (t_upto aes l (Suc n), hash_upto aes l (Suc n), ?l (Suc n))"
      unfolding f_def prod.case send_leaves [OF fit'] s h lv t [symmetric] by (simp only: Let_def case_prod_beta fst_conv snd_conv)
    with Suc show ?case by simp
  qed
  from this [of SOFTSPOKEN_N] have "fold f [0..<SOFTSPOKEN_N] (replicate (SOFTSPOKEN_N * 2) 0, [], l)
      = (t_upto aes l SOFTSPOKEN_N, hash_upto aes l SOFTSPOKEN_N, map (dm aes 0) l)"
    using len by (auto intro!: nth_equalityI)
  then show ?thesis unfolding pprf_check_send_prepare_def l_def [symmetric] f_def [symmetric] by (simp only: Let_def prod.case)
qed

lemma pprf_recv_tree:
  assumes i: "i < SOFTSPOKEN_N" and a: "a < SOFTSPOKEN_Q" and al: "alphas ! i = a" and len: "length lR = SOFTSPOKEN_N * SOFTSPOKEN_Q"
    and s: "length s_buf = SOFTSPOKEN_Q * 2"
    and known: "\<And>y. y < SOFTSPOKEN_Q \<Longrightarrow> y \<noteq> a \<Longrightarrow> lR ! (i * SOFTSPOKEN_Q + y) = l ! (i * SOFTSPOKEN_Q + y)"
  shows "\<exists>s'. pprf_recv_tree aes (t_upto aes l SOFTSPOKEN_N) alphas i (hash, s_buf, lR) =
      (hash @ concat (map (\<lambda>y. leaf_bytes aes (l ! (i * SOFTSPOKEN_Q + y))) [0..<SOFTSPOKEN_Q]), s',
       map (\<lambda>p. if i * SOFTSPOKEN_Q \<le> p \<and> p < i * SOFTSPOKEN_Q + SOFTSPOKEN_Q \<and> p \<noteq> i * SOFTSPOKEN_Q + a then dm aes 0 (lR ! p) else lR ! p) [0..<length lR])
    \<and> length s' = SOFTSPOKEN_Q * 2"
proof -
  let ?f = "\<lambda>y. l ! (i * SOFTSPOKEN_Q + y)"
  have fit: "i * SOFTSPOKEN_Q + SOFTSPOKEN_Q \<le> length lR" using tree_fits [OF i] len by simp
  have "tree_sums aes (\<lambda>y. lR ! (i * SOFTSPOKEN_Q + y)) ({..<SOFTSPOKEN_Q} - {a}) = tree_sums aes ?f ({..<SOFTSPOKEN_Q} - {a})"
    unfolding tree_sums_def by (intro arg_cong2 [where f = Pair] xs.cong refl) (auto simp: known)
  also have "\<dots> = (fst (sums_at aes l i) XOR dm aes 1 (?f a), snd (sums_at aes l i) XOR dm aes 2 (?f a))"
    using a by (simp add: tree_sums_def sums_at_def F_remove)
  finally have sums: "tree_sums aes (\<lambda>y. lR ! (i * SOFTSPOKEN_Q + y)) ({..<SOFTSPOKEN_Q} - {a})
      = (fst (sums_at aes l i) XOR dm aes 1 (?f a), snd (sums_at aes l i) XOR dm aes 2 (?f a))" .
  have t: "t_upto aes l SOFTSPOKEN_N ! (i * 2) = fst (sums_at aes l i)" "t_upto aes l SOFTSPOKEN_N ! (i * 2 + 1) = snd (sums_at aes l i)"
    using i by (simp_all add: t_upto_def)
  define s0 where "s0 = map (\<lambda>p. if p div 2 < SOFTSPOKEN_Q \<and> p div 2 \<noteq> a then dm aes (if even p then 1 else 2) (lR ! (i * SOFTSPOKEN_Q + p div 2)) else s_buf ! p) [0..<length s_buf]"
  define s' where "s' = s0[a * 2 := dm aes 1 (?f a), a * 2 + 1 := dm aes 2 (?f a)]"
  have sc: "s' = concat (map (\<lambda>y. [dm aes 1 (?f y), dm aes 2 (?f y)]) [0..<SOFTSPOKEN_Q])"
  proof (rule nth_equalityI)
    have c: "length (concat (map (\<lambda>y. [dm aes 1 (?f y), dm aes 2 (?f y)]) [0..<SOFTSPOKEN_Q])) = SOFTSPOKEN_Q * 2"
      by (rule concat_uniform(2) [of _ _ _ 0 0]) (simp_all add: SOFTSPOKEN_Q_def)
    then show "length s' = length (concat (map (\<lambda>y. [dm aes 1 (?f y), dm aes 2 (?f y)]) [0..<SOFTSPOKEN_Q]))"
      by (simp add: s'_def s0_def s)
    fix p assume "p < length s'"
    then have p: "p < SOFTSPOKEN_Q * 2" "p div 2 < SOFTSPOKEN_Q" by (auto simp: s'_def s0_def s)
    have e: "concat (map (\<lambda>y. [dm aes 1 (?f y), dm aes 2 (?f y)]) [0..<SOFTSPOKEN_Q]) ! (p div 2 * 2 + p mod 2) = [dm aes 1 (?f (p div 2)), dm aes 2 (?f (p div 2))] ! (p mod 2)"
      by (rule concat_uniform(1)) (use p in auto)
    have at: "p = a * 2 \<longleftrightarrow> p div 2 = a \<and> even p" "p = a * 2 + 1 \<longleftrightarrow> p div 2 = a \<and> odd p" by presburger+
    show "s' ! p = concat (map (\<lambda>y. [dm aes 1 (?f y), dm aes 2 (?f y)]) [0..<SOFTSPOKEN_Q]) ! p"
      using e [unfolded div_mult_mod_eq] div_mult_mod_eq [of p 2] p known [of "p div 2"] s a
      by (cases "even p"; cases "p div 2 = a") (auto simp: s'_def s0_def nth_list_update at even_iff_mod_2_eq_zero odd_iff_mod_2_eq_one)
  qed
  have h: "concat (map block_bytes s') = concat (map (\<lambda>y. leaf_bytes aes (?f y)) [0..<SOFTSPOKEN_Q])"
  proof -
    have "concat (map block_bytes (concat (map (\<lambda>y. [f y, g y]) xs))) = concat (map (\<lambda>y. block_bytes (f y) @ block_bytes (g y)) xs)"
      for f g :: "nat \<Rightarrow> block" and xs by (induction xs) auto
    with sc show ?thesis by (simp only: leaf_bytes_def)
  qed
  have "2 * SOFTSPOKEN_Q \<le> length s_buf" using s by simp
  note r = recv_leaves [OF fit this, of aes a, folded s0_def, unfolded sums]
  have "pprf_recv_tree aes (t_upto aes l SOFTSPOKEN_N) alphas i (hash, s_buf, lR) =
      (hash @ concat (map block_bytes s'), s',
       map (\<lambda>p. if i * SOFTSPOKEN_Q \<le> p \<and> p < i * SOFTSPOKEN_Q + SOFTSPOKEN_Q \<and> p \<noteq> i * SOFTSPOKEN_Q + a then dm aes 0 (lR ! p) else lR ! p) [0..<length lR])"
    unfolding pprf_recv_tree_def Let_def prod.case al r t by (simp add: s'_def flip: xor.assoc)
  moreover have "length s' = SOFTSPOKEN_Q * 2" by (simp add: s'_def s0_def s)
  ultimately show ?thesis unfolding h by blast
qed

lemma pprf_recv:
  assumes agree: "trees_agree S R" and sha: "\<And>m. length (sha256 m) = 32"
  shows "\<exists>l. pprf_check_recv_verify aes sha256 (t_upto aes (so_leaves_send R) SOFTSPOKEN_N) (sha256 (hash_upto aes (so_leaves_send R) SOFTSPOKEN_N)) S
      = (Inr (), S\<lparr>so_leaves_recv := l\<rparr>)
    \<and> trees_agree (S\<lparr>so_leaves_recv := l\<rparr>) (R\<lparr>so_leaves_send := map (dm aes 0) (so_leaves_send R)\<rparr>)"
proof -
  define lS lR al where d: "lS = so_leaves_send R" "lR = so_leaves_recv S" "al = so_alphas S"
  let ?Q = SOFTSPOKEN_Q
  have len: "length lR = SOFTSPOKEN_N * ?Q" "length lS = SOFTSPOKEN_N * ?Q" using agree by (simp_all add: trees_agree_def d)
  have a: "al ! i < ?Q" "\<And>y. y < ?Q \<Longrightarrow> y \<noteq> al ! i \<Longrightarrow> lR ! (i * ?Q + y) = lS ! (i * ?Q + y)" if "i < SOFTSPOKEN_N" for i
    using agree that by (simp_all add: trees_agree_def d)
  let ?l = "\<lambda>n. map (\<lambda>p. if p div ?Q < n \<and> p mod ?Q \<noteq> al ! (p div ?Q) then dm aes 0 (lR ! p) else lR ! p) [0..<length lR]"
  have "\<exists>s'. fold (pprf_recv_tree aes (t_upto aes lS SOFTSPOKEN_N) al) [0..<n] ([], replicate (?Q * 2) 0, lR) = (hash_upto aes lS n, s', ?l n)
     \<and> length s' = ?Q * 2" if "n \<le> SOFTSPOKEN_N" for n
    using that
  proof (induction n)
    case 0
    then show ?case by (auto simp: hash_upto_def intro!: nth_equalityI)
  next
    case (Suc n)
    then obtain s' where st: "fold (pprf_recv_tree aes (t_upto aes lS SOFTSPOKEN_N) al) [0..<n] ([], replicate (?Q * 2) 0, lR) = (hash_upto aes lS n, s', ?l n)"
      and s': "length s' = ?Q * 2" by auto
    have n: "n < SOFTSPOKEN_N" using Suc.prems by simp
    have fit: "n * ?Q + ?Q \<le> length lR" using tree_fits [OF n] len by simp
    have ll: "length (?l n) = SOFTSPOKEN_N * ?Q" by (simp add: len)
    have k: "?l n ! (n * ?Q + y) = lS ! (n * ?Q + y)" if "y < ?Q" "y \<noteq> al ! n" for y
    proof -
      have "n * ?Q + y < length lR" using fit that by linarith
      then show ?thesis using a(2) [OF n that] that by simp
    qed
    obtain s2 where t: "pprf_recv_tree aes (t_upto aes lS SOFTSPOKEN_N) al n (hash_upto aes lS n, s', ?l n) =
      (hash_upto aes lS n @ concat (map (\<lambda>y. leaf_bytes aes (lS ! (n * ?Q + y))) [0..<?Q]), s2,
       map (\<lambda>p. if n * ?Q \<le> p \<and> p < n * ?Q + ?Q \<and> p \<noteq> n * ?Q + al ! n then dm aes 0 (?l n ! p) else ?l n ! p) [0..<length (?l n)])"
      and s2: "length s2 = ?Q * 2"
      using pprf_recv_tree [OF n a(1) [OF n] refl ll s' k] by blast
    have at: "n * ?Q \<le> p \<and> p < n * ?Q + ?Q \<longleftrightarrow> p div ?Q = n" for p
      by (auto simp: softspoken_sizes)
    have at': "p \<noteq> n * ?Q + al ! n \<longleftrightarrow> p mod ?Q \<noteq> al ! n" if "p div ?Q = n" for p
    proof -
      have "p = n * ?Q + p mod ?Q" using div_mult_mod_eq [of p ?Q] that by simp
      then show ?thesis by (metis add_left_cancel)
    qed
    have "map (\<lambda>p. if n * ?Q \<le> p \<and> p < n * ?Q + ?Q \<and> p \<noteq> n * ?Q + al ! n then dm aes 0 (?l n ! p) else ?l n ! p) [0..<length (?l n)] = ?l (Suc n)"
    proof (rule nth_equalityI)
      fix p assume "p < length (map (\<lambda>p. if n * ?Q \<le> p \<and> p < n * ?Q + ?Q \<and> p \<noteq> n * ?Q + al ! n then dm aes 0 (?l n ! p) else ?l n ! p) [0..<length (?l n)])"
      then have p: "p < length lR" by simp
      show "map (\<lambda>p. if n * ?Q \<le> p \<and> p < n * ?Q + ?Q \<and> p \<noteq> n * ?Q + al ! n then dm aes 0 (?l n ! p) else ?l n ! p) [0..<length (?l n)] ! p = ?l (Suc n) ! p"
        using p at [of p] at' [of p] by (cases "p div ?Q = n") (auto simp: less_Suc_eq)
    qed simp
    moreover have "hash_upto aes lS n @ concat (map (\<lambda>y. leaf_bytes aes (lS ! (n * ?Q + y))) [0..<?Q]) = hash_upto aes lS (Suc n)"
      by (simp add: hash_upto_def)
    ultimately show ?case using st t s2 by simp
  qed
  from this [of SOFTSPOKEN_N] obtain s' where run: "fold (pprf_recv_tree aes (t_upto aes lS SOFTSPOKEN_N) al) [0..<SOFTSPOKEN_N] ([], replicate (?Q * 2) 0, lR)
      = (hash_upto aes lS SOFTSPOKEN_N, s', ?l SOFTSPOKEN_N)" by auto
  have v: "pprf_check_recv_verify aes sha256 (t_upto aes lS SOFTSPOKEN_N) (sha256 (hash_upto aes lS SOFTSPOKEN_N)) S
      = (Inr (), S\<lparr>so_leaves_recv := ?l SOFTSPOKEN_N\<rparr>)"
    using run unfolding d by (simp add: pprf_check_recv_verify_def sha REVEAL_DIGEST_BYTES_def)
  have "?l SOFTSPOKEN_N ! (i * ?Q + y) = map (dm aes 0) lS ! (i * ?Q + y)" if "i < SOFTSPOKEN_N" "y < ?Q" "y \<noteq> al ! i" for i y
  proof -
    have "i * ?Q + y < length lR" using tree_fits [OF that(1)] that(2) len by linarith
    then show ?thesis using a(2) [OF that] that len by simp
  qed
  then have "trees_agree (S\<lparr>so_leaves_recv := ?l SOFTSPOKEN_N\<rparr>) (R\<lparr>so_leaves_send := map (dm aes 0) lS\<rparr>)"
    using agree len by (simp add: trees_agree_def flip: d)
  with v show ?thesis unfolding d(1) by blast
qed

end
