(* ===== verification/Base_Ot.thy ===== *)
theory Base_Ot
  imports Soft_Spoken_Correct
begin

text \<open>
  The base oblivious transfer of \<open>shachain2pc-emp-compat\<close> (\<open>base_ot.rs\<close>): the random oracle \<open>EmpRo\<close> with
  its framed transcript, points on the wire, the sender \<open>csw_send\<close> and the receiver \<open>csw_recv\<close>. SHA-256
  is the parameter \<open>sha256\<close>; the curve P-256 of OpenSSL and of the crate \<open>p256\<close> is the record \<open>p256\<close> of
  the operations the code calls, scalars are drawn by the caller. A stream holds the bytes the peer
  will send, the bytes sent, and its transcripts; a read past the end is the closed channel.
\<close>

unbundle bit_operations_syntax

section \<open>Streams\<close>

record ot_io = fs_state +
  io_in :: bytes
  io_out :: bytes

definition io_send_data :: "bytes \<Rightarrow> ot_io \<Rightarrow> ot_io" where
  "io_send_data data io = io\<lparr>fs_send := absorb data (fs_send io), io_out := io_out io @ data\<rparr>"

definition io_recv_data :: "nat \<Rightarrow> ot_io \<Rightarrow> compat_error + bytes \<times> ot_io" where
  "io_recv_data len io =
     (if length (io_in io) < len then Inl (CWire (Io (BrokenPipe ''byte channel closed'')))
      else let data = take len (io_in io)
           in Inr (data, io\<lparr>io_in := drop len (io_in io), fs_recv := absorb data (fs_recv io)\<rparr>))"

definition io_send_block :: "block list \<Rightarrow> ot_io \<Rightarrow> ot_io" where
  "io_send_block blocks = io_send_data (slice_as_bytes blocks)"

definition io_recv_block :: "nat \<Rightarrow> ot_io \<Rightarrow> compat_error + block list \<times> ot_io" where
  "io_recv_block count io = bindR (io_recv_data (count * BLOCK_BYTES) io) (\<lambda>(bs, io). Inr (blocks_of bs, io))"

section \<open>Random oracle\<close>

record emp_ro =
  ro_domain :: bytes
  ro_buf :: bytes

definition ro_frame :: "u32 \<Rightarrow> bytes \<Rightarrow> emp_ro \<Rightarrow> emp_ro" where
  \<comment> \<open>no frame comes near \<open>2^32\<close> bytes, where the code would panic\<close>
  "ro_frame typ data ro = ro\<lparr>ro_buf := ro_buf ro @ le_bytes 4 typ @ le_bytes 4 (of_nat (length data) :: u32) @ data\<rparr>"

definition ascii_bytes :: "string \<Rightarrow> bytes" where
  "ascii_bytes s = map of_char s"

definition ro_new :: "string \<Rightarrow> block \<Rightarrow> emp_ro" where
  "ro_new domain sid =
     ro_frame 3 (block_bytes sid) (ro_frame 1 (ascii_bytes domain) \<lparr>ro_domain = ascii_bytes domain, ro_buf = []\<rparr>)"

definition absorb_bytes :: "bytes \<Rightarrow> emp_ro \<Rightarrow> emp_ro" where
  "absorb_bytes data = ro_frame 2 data"

definition absorb_block :: "block \<Rightarrow> emp_ro \<Rightarrow> emp_ro" where
  "absorb_block b = ro_frame 3 (block_bytes b)"

definition absorb_u64 :: "u64 \<Rightarrow> emp_ro \<Rightarrow> emp_ro" where
  "absorb_u64 v = ro_frame 4 (le_bytes 8 v)"

definition absorb_point :: "bytes \<Rightarrow> emp_ro \<Rightarrow> emp_ro" where
  "absorb_point p = ro_frame 5 p"

definition squeeze_block :: "(bytes \<Rightarrow> bytes) \<Rightarrow> emp_ro \<Rightarrow> block" where
  "squeeze_block sha256 ro = block_from_bytes (take BLOCK_BYTES (hash_once sha256 (ro_buf ro)))"

section \<open>Curve\<close>

text \<open>The operations of the group, on uncompressed encodings; each may fail inside OpenSSL.\<close>

record 's p256 =
  mul_gen_bn :: "'s \<Rightarrow> compat_error + bytes"
  point_mul_bn :: "bytes \<Rightarrow> 's \<Rightarrow> compat_error + bytes"
  point_add :: "bytes \<Rightarrow> bytes \<Rightarrow> compat_error + bytes"
  point_inv :: "bytes \<Rightarrow> compat_error + bytes"
  hash_from_bytes :: "bytes \<Rightarrow> bytes \<Rightarrow> bytes option"

definition squeeze_p256_point :: "'s p256 \<Rightarrow> emp_ro \<Rightarrow> compat_error + bytes" where
  "squeeze_p256_point ec ro = okOr HashToCurve (hash_from_bytes ec (ro_buf ro) (ro_domain ro))"

definition send_pt_bytes :: "bytes \<Rightarrow> compat_error + bytes" where
  "send_pt_bytes point =
     (if length point \<noteq> POINT_BYTES then Inl (BadPointLength (length point))
      else Inr (le_bytes 4 (of_nat (length point) :: u32) @ point))"

definition kdf :: "(bytes \<Rightarrow> bytes) \<Rightarrow> bytes \<Rightarrow> u64 \<Rightarrow> compat_error + block" where
  "kdf sha256 point i =
     (if length point \<noteq> POINT_BYTES then Inl (BadPointLength (length point))
      else Inr (block_from_bytes (take 16 (hash_once sha256 (point @ le_bytes 8 i)))))"

definition send_point :: "bytes \<Rightarrow> ot_io \<Rightarrow> compat_error + ot_io" where
  "send_point point io =
     (if length point \<noteq> POINT_BYTES then Inl (BadPointLength (length point))
      else Inr (io_send_data point (io_send_data (le_bytes 4 (of_nat (length point) :: u32)) io)))"

definition recv_point :: "ot_io \<Rightarrow> compat_error + bytes \<times> ot_io" where
  "recv_point io = bindR (io_recv_data 4 io) (\<lambda>(len_bytes, io).
     let len = (word_of_le len_bytes :: u32)
     in if len \<noteq> of_nat POINT_BYTES then Inl (BadPointWireLength len) else io_recv_data POINT_BYTES io)"

section \<open>Transfer\<close>

definition csw_pad_block :: "(bytes \<Rightarrow> bytes) \<Rightarrow> block \<Rightarrow> nat \<Rightarrow> bytes \<Rightarrow> block" where
  "csw_pad_block sha256 sid i point =
     squeeze_block sha256 (absorb_point point (absorb_u64 (of_nat i) (ro_new ''emp-ot:csw-base-ot:pad'' sid)))"

definition csw_short_block :: "(bytes \<Rightarrow> bytes) \<Rightarrow> block \<Rightarrow> block \<Rightarrow> block" where
  "csw_short_block sha256 sid b = squeeze_block sha256 (absorb_block b (ro_new ''emp-ot:csw-base-ot:short'' sid))"

definition csw_agg_block :: "(bytes \<Rightarrow> bytes) \<Rightarrow> block \<Rightarrow> block list \<Rightarrow> block" where
  \<comment> \<open>the oracle over the short blocks of both sides\<close>
  "csw_agg_block sha256 sid hs =
     squeeze_block sha256 (absorb_bytes (slice_as_bytes hs) (ro_new ''emp-ot:csw-base-ot:agg'' sid))"

definition csw_curve_point :: "'s p256 \<Rightarrow> block \<Rightarrow> block \<Rightarrow> compat_error + bytes" where
  "csw_curve_point ec sid seed = squeeze_p256_point ec (absorb_block seed (ro_new ''emp-ot:csw-base-ot:to-curve'' sid))"

definition recv_points :: "nat \<Rightarrow> ot_io \<Rightarrow> compat_error + bytes list \<times> ot_io" where
  "recv_points n io = foldR (\<lambda>_ (points, io). bindR (recv_point io) (\<lambda>(p, io). Inr (points @ [p], io))) [0..<n] ([], io)"

definition csw_send ::
  "'s p256 \<Rightarrow> (bytes \<Rightarrow> bytes) \<Rightarrow> 's \<Rightarrow> block list \<Rightarrow> block list \<Rightarrow> ot_io \<Rightarrow> compat_error + ot_io" where
  \<comment> \<open>\<open>r\<close> is the scalar the sender draws\<close>
  "csw_send ec sha256 r data0 data1 io =
     (if length data0 \<noteq> length data1 then Inl (BadOtLength (length data0) (length data1))
      else if length data0 < 80 then Inl (BadCswLength (length data0))
      else let sid = 0; n = length data0 in
        bindR (io_recv_block 1 io) (\<lambda>(seed, io).
        bindR (recv_points n io) (\<lambda>(b_points, io).
        bindR (csw_curve_point ec sid (seed ! 0)) (\<lambda>t.
        bindR (mul_gen_bn ec r) (\<lambda>z.
        bindR (point_mul_bn ec t r) (\<lambda>t_r.
        bindR (point_inv ec t_r) (\<lambda>t_r_neg.
        bindR (mapR (\<lambda>(i, b_point). bindR (point_mul_bn ec b_point r) (\<lambda>rho0.
                 bindR (point_add ec rho0 t_r_neg) (\<lambda>rho1.
                   Inr (csw_pad_block sha256 sid i rho0, csw_pad_block sha256 sid i rho1)))) (enumerate 0 b_points)) (\<lambda>pads.
        let p0 = map fst pads; p1 = map snd pads; h0 = map (csw_short_block sha256 sid) p0;
            otans = csw_agg_block sha256 sid h0; proof' = csw_short_block sha256 sid otans;
            chi = map (\<lambda>i. h0 ! i XOR csw_short_block sha256 sid (p1 ! i)) [0..<n];
            c0 = map (\<lambda>i. p0 ! i XOR data0 ! i) [0..<n]; c1 = map (\<lambda>i. p1 ! i XOR data1 ! i) [0..<n]
        in bindR (send_point z io) (\<lambda>io.
           let io = io_send_block c1 (io_send_block c0 (io_send_block [proof'] (io_send_block chi io)))
           in bindR (io_recv_block 1 io) (\<lambda>(otans', io).
                if otans' ! 0 \<noteq> otans then Inl CswReceiverMismatch else Inr io))))))))))"

definition csw_recv ::
  "'s p256 \<Rightarrow> (bytes \<Rightarrow> bytes) \<Rightarrow> block \<Rightarrow> 's list \<Rightarrow> bool list \<Rightarrow> ot_io \<Rightarrow> compat_error + block list \<times> ot_io" where
  \<comment> \<open>\<open>seed\<close> and \<open>alphas\<close>, one scalar for each choice, are what the receiver draws\<close>
  "csw_recv ec sha256 seed alphas choices io =
     (if length choices < 80 then Inl (BadCswLength (length choices))
      else let sid = 0; n = length choices in
        bindR (csw_curve_point ec sid seed) (\<lambda>t.
        let io = io_send_block [seed] io in
        bindR (foldR (\<lambda>(choice, alpha) io. bindR (mul_gen_bn ec alpha) (\<lambda>b_point.
                 bindR (if choice then point_add ec b_point t else Inr b_point) (\<lambda>b_point. send_point b_point io)))
               (zip choices alphas) io) (\<lambda>io.
        bindR (recv_point io) (\<lambda>(z, io).
        bindR (mapR (\<lambda>(i, alpha). bindR (point_mul_bn ec z alpha) (\<lambda>z_alpha. Inr (csw_pad_block sha256 sid i z_alpha)))
               (enumerate 0 alphas)) (\<lambda>p_bi.
        let h_bi = map (csw_short_block sha256 sid) p_bi in
        bindR (io_recv_block n io) (\<lambda>(chi, io).
        bindR (io_recv_block 1 io) (\<lambda>(proof', io).
        bindR (io_recv_block n io) (\<lambda>(c0, io).
        bindR (io_recv_block n io) (\<lambda>(c1, io).
        let otresp = map (\<lambda>i. if choices ! i then h_bi ! i XOR chi ! i else h_bi ! i) [0..<n];
            otans' = csw_agg_block sha256 sid otresp
        in if csw_short_block sha256 sid otans' \<noteq> proof' ! 0 then Inl CswProofMismatch
           else Inr (map (\<lambda>i. p_bi ! i XOR (if choices ! i then c1 ! i else c0 ! i)) [0..<n], io_send_block [otans'] io))))))))))"

section \<open>Garbling hash\<close>

definition garble_hash_preprocess ::
  "(block \<Rightarrow> block \<Rightarrow> block) \<Rightarrow> block \<Rightarrow> block \<Rightarrow> block \<Rightarrow> u64 \<Rightarrow> (block \<times> block) list" where
  "garble_hash_preprocess aes a b delta gate_index =
     (let a0 = sigma a; a1 = sigma (a XOR delta); b0 = sigma (sigma b); b1 = sigma (sigma (b XOR delta));
          rows = [a0 XOR b0, a0 XOR b1, a1 XOR b0, a1 XOR b1];
          flat = concat (map (\<lambda>(row, x). [x XOR block_make (4 * gate_index + of_nat row) 0, x XOR block_make (4 * gate_index + of_nat row) 1])
                   (enumerate 0 rows));
          flat = prp_permute_block aes 0 flat
      in map (\<lambda>row. (flat ! (2 * row), flat ! (2 * row + 1))) [0..<4])"

definition garble_hash_online :: "(block \<Rightarrow> block \<Rightarrow> block) \<Rightarrow> block \<Rightarrow> block \<Rightarrow> u64 \<Rightarrow> u64 \<Rightarrow> block \<times> block" where
  "garble_hash_online aes a b gate_index row =
     (let base = sigma a XOR sigma (sigma b);
          blocks = prp_permute_block aes 0 [base XOR block_make (4 * gate_index + row) 0, base XOR block_make (4 * gate_index + row) 1]
      in (blocks ! 0, blocks ! 1))"

lemma garble_hash_rows:
  \<comment> \<open>the evaluator, with one label of each wire, computes the row the garbler prepared for them\<close>
  "garble_hash_preprocess aes a b delta i ! (2 * of_bool x + of_bool y) =
     garble_hash_online aes (if x then a XOR delta else a) (if y then b XOR delta else b) i (2 * of_bool x + of_bool y)"
  by (cases x; cases y) (simp_all add: garble_hash_preprocess_def garble_hash_online_def prp_permute_block_def Let_def upt_rec numeral_eq_Suc)

section \<open>Streams after a run\<close>

definition io_after :: "bytes \<Rightarrow> bytes \<Rightarrow> ot_io \<Rightarrow> ot_io" where
  \<comment> \<open>the stream after \<open>sent\<close> was sent and \<open>recvd\<close> received\<close>
  "io_after sent recvd io = io\<lparr>fs_send := absorb sent (fs_send io), fs_recv := absorb recvd (fs_recv io),
     io_in := drop (length recvd) (io_in io), io_out := io_out io @ sent\<rparr>"

lemma io_after_Nil [simp]: "io_after [] [] io = io"
  by (simp add: io_after_def)

lemma io_after_after [simp]: "io_after s2 r2 (io_after s1 r1 io) = io_after (s1 @ s2) (r1 @ r2) io"
  by (simp add: io_after_def add.commute)

lemma io_in_after [simp]: "io_in (io_after s r io) = drop (length r) (io_in io)"
  by (simp add: io_after_def)

lemma io_send_after: "io_send_data data io = io_after data [] io"
  by (simp add: io_send_data_def io_after_def)

lemma io_send_block_after: "io_send_block bs io = io_after (slice_as_bytes bs) [] io"
  by (simp add: io_send_block_def io_send_after)

lemma io_recv_after: "io_in io = data @ rest \<Longrightarrow> length data = len \<Longrightarrow> io_recv_data len io = Inr (data, io_after [] data io)"
  by (auto simp: io_recv_data_def io_after_def)

lemma io_recv_block_after:
  "io_in io = slice_as_bytes bs @ rest \<Longrightarrow> length bs = n \<Longrightarrow> io_recv_block n io = Inr (bs, io_after [] (slice_as_bytes bs) io)"
  by (simp add: io_recv_block_def io_recv_after [where data = "slice_as_bytes bs"])

definition point_frame :: "bytes \<Rightarrow> bytes" where
  "point_frame p = le_bytes 4 (of_nat POINT_BYTES :: u32) @ p"

lemma send_point_after: "length p = POINT_BYTES \<Longrightarrow> send_point p io = Inr (io_after (point_frame p) [] io)"
  by (simp add: send_point_def io_send_after point_frame_def)

lemma recv_point_after:
  assumes "io_in io = point_frame p @ rest" "length p = POINT_BYTES"
  shows "recv_point io = Inr (p, io_after [] (point_frame p) io)"
proof -
  have "word_of_le (le_bytes 4 (of_nat POINT_BYTES :: u32)) = (of_nat POINT_BYTES :: u32)" by (rule word_of_le_le_bytes) simp
  moreover have "io_recv_data 4 io = Inr (le_bytes 4 (of_nat POINT_BYTES :: u32), io_after [] (le_bytes 4 (of_nat POINT_BYTES :: u32)) io)"
    by (rule io_recv_after [where rest = "p @ rest"]) (use assms in \<open>simp_all add: point_frame_def\<close>)
  moreover have "io_recv_data POINT_BYTES (io_after [] (le_bytes 4 (of_nat POINT_BYTES :: u32)) io)
      = Inr (p, io_after [] p (io_after [] (le_bytes 4 (of_nat POINT_BYTES :: u32)) io))"
    by (rule io_recv_after [where rest = rest]) (use assms in \<open>simp_all add: point_frame_def\<close>)
  ultimately show ?thesis by (simp add: recv_point_def Let_def point_frame_def)
qed

lemma recv_points_after:
  assumes "io_in io = concat (map point_frame ps) @ rest" "\<And>p. p \<in> set ps \<Longrightarrow> length p = POINT_BYTES"
  shows "recv_points (length ps) io = Inr (ps, io_after [] (concat (map point_frame ps)) io)"
proof -
  have "foldR (\<lambda>_ (points, io). bindR (recv_point io) (\<lambda>(p, io). Inr (points @ [p], io))) [0..<n] ([], io)
      = Inr (take n ps, io_after [] (concat (map point_frame (take n ps))) io)" if "n \<le> length ps" for n
    using that
  proof (induction n)
    case (Suc n)
    have ps: "ps = take n ps @ ps ! n # drop (Suc n) ps" using Suc.prems by (simp add: id_take_nth_drop)
    have "io_in io = concat (map point_frame (take n ps)) @ point_frame (ps ! n) @ concat (map point_frame (drop (Suc n) ps)) @ rest"
      using assms(1) by (subst (asm) ps) simp
    then have "recv_point (io_after [] (concat (map point_frame (take n ps))) io)
        = Inr (ps ! n, io_after [] (point_frame (ps ! n)) (io_after [] (concat (map point_frame (take n ps))) io))"
      by (intro recv_point_after [where rest = "concat (map point_frame (drop (Suc n) ps)) @ rest"])
        (use Suc.prems assms(2) in \<open>simp_all del: length_concat\<close>)
    with Suc show ?case by (simp add: foldR_append take_Suc_conv_app_nth del: length_concat)
  qed simp
  from this [of "length ps"] show ?thesis by (simp add: recv_points_def)
qed

section \<open>An honest run\<close>

text \<open>
  What the code relies on of the curve: encodings of an abelian group with commuting scalar
  multiplications, 65 bytes for every point but the neutral one.
\<close>

definition curve_group ::
  "'s p256 \<Rightarrow> ('g::ab_group_add \<Rightarrow> bytes) \<Rightarrow> ('s \<Rightarrow> 'g \<Rightarrow> 'g) \<Rightarrow> 'g \<Rightarrow> (bytes \<Rightarrow> bytes \<Rightarrow> 'g) \<Rightarrow> bool" where
  "curve_group ec enc scal G hp \<longleftrightarrow>
     (\<forall>a. mul_gen_bn ec a = Inr (enc (scal a G))) \<and> (\<forall>P a. point_mul_bn ec (enc P) a = Inr (enc (scal a P)))
   \<and> (\<forall>P Q. point_add ec (enc P) (enc Q) = Inr (enc (P + Q))) \<and> (\<forall>P. point_inv ec (enc P) = Inr (enc (- P)))
   \<and> (\<forall>b d. hash_from_bytes ec b d = Some (enc (hp b d))) \<and> (\<forall>P. P \<noteq> 0 \<longrightarrow> length (enc P) = POINT_BYTES)
   \<and> (\<forall>a P Q. scal a (P + Q) = scal a P + scal a Q) \<and> (\<forall>a b P. scal a (scal b P) = scal b (scal a P))"

definition csw_hidden :: "(bytes \<Rightarrow> bytes \<Rightarrow> 'g) \<Rightarrow> block \<Rightarrow> 'g" where
  "csw_hidden hp seed = (let ro = absorb_block seed (ro_new ''emp-ot:csw-base-ot:to-curve'' 0) in hp (ro_buf ro) (ro_domain ro))"

definition good_draws :: "('s \<Rightarrow> 'g \<Rightarrow> 'g :: ab_group_add) \<Rightarrow> 'g \<Rightarrow> 'g \<Rightarrow> 's list \<Rightarrow> 's \<Rightarrow> bool" where
  \<comment> \<open>no draw meets the neutral element\<close>
  "good_draws scal G T alphas r \<longleftrightarrow> scal r G \<noteq> 0 \<and> (\<forall>a \<in> set alphas. scal a G \<noteq> 0 \<and> scal a G + T \<noteq> 0)"

text \<open>What the two sides put on the wire, and their runs on what the other side put there.\<close>

definition wire_recv1 :: "block \<Rightarrow> bytes list \<Rightarrow> bytes" where
  "wire_recv1 seed points = slice_as_bytes [seed] @ concat (map point_frame points)"

definition wire_recv :: "block \<Rightarrow> bytes list \<Rightarrow> block \<Rightarrow> bytes" where
  "wire_recv seed points otans = wire_recv1 seed points @ slice_as_bytes [otans]"

definition wire_send :: "bytes \<Rightarrow> block list \<Rightarrow> block \<Rightarrow> block list \<Rightarrow> block list \<Rightarrow> bytes" where
  "wire_send z chi proof' c0 c1 = point_frame z @ slice_as_bytes chi @ slice_as_bytes [proof'] @ slice_as_bytes c0 @ slice_as_bytes c1"

lemma mapR_map: "mapR f (map g xs) = mapR (\<lambda>x. f (g x)) xs"
  by (induction xs) auto

lemma enumerate_index: "enumerate 0 xs = map (\<lambda>i. (i, xs ! i)) [0..<length xs]"
  by (rule nth_equalityI) (auto simp: nth_enumerate_eq)

lemma recv_wire_send:
  assumes io: "io_in io = wire_send z chi pr c0 c1 @ rest" and l: "length z = POINT_BYTES" "length chi = n" "length c0 = n" "length c1 = n"
  shows "\<exists>io1 io2 io3 io4. recv_point (io_after s [] io) = Inr (z, io1) \<and> io_recv_block n io1 = Inr (chi, io2)
    \<and> io_recv_block 1 io2 = Inr ([pr], io3) \<and> io_recv_block n io3 = Inr (c0, io4)
    \<and> io_recv_block n io4 = Inr (c1, io_after s (wire_send z chi pr c0 c1) io)"
proof (intro exI conjI)
  let ?p = "point_frame z" and ?x = "slice_as_bytes chi" and ?q = "slice_as_bytes [pr]" and ?c = "slice_as_bytes c0"
  note w = io [unfolded wire_send_def]
  show "recv_point (io_after s [] io) = Inr (z, io_after s ?p io)"
    using recv_point_after [of "io_after s [] io" z, OF _ l(1)] w by simp
  show "io_recv_block n (io_after s ?p io) = Inr (chi, io_after s (?p @ ?x) io)"
    using io_recv_block_after [of "io_after s ?p io" chi _ n] w l by simp
  show "io_recv_block 1 (io_after s (?p @ ?x) io) = Inr ([pr], io_after s (?p @ ?x @ ?q) io)"
    using io_recv_block_after [of "io_after s (?p @ ?x) io" "[pr]" _ 1] w l by simp
  show "io_recv_block n (io_after s (?p @ ?x @ ?q) io) = Inr (c0, io_after s (?p @ ?x @ ?q @ ?c) io)"
    using io_recv_block_after [of "io_after s (?p @ ?x @ ?q) io" c0 _ n] w l by simp
  show "io_recv_block n (io_after s (?p @ ?x @ ?q @ ?c) io) = Inr (c1, io_after s (wire_send z chi pr c0 c1) io)"
    using io_recv_block_after [of "io_after s (?p @ ?x @ ?q @ ?c) io" c1 _ n] w l by (simp add: wire_send_def)
qed

lemma csw_send_points:
  assumes "\<And>i. i < n \<Longrightarrow> bindR (mul_gen_bn ec (alphas ! i)) (\<lambda>b. if choices ! i then point_add ec b t else Inr b) = Inr (pts ! i)"
    and "\<And>i. i < n \<Longrightarrow> length (pts ! i) = POINT_BYTES" and "length pts = n" "length choices = n" "length alphas = n"
  shows "foldR (\<lambda>(choice, alpha) io. bindR (mul_gen_bn ec alpha) (\<lambda>b_point.
             bindR (if choice then point_add ec b_point t else Inr b_point) (\<lambda>b_point. send_point b_point io)))
     (zip choices alphas) io = Inr (io_after (concat (map point_frame pts)) [] io)"
proof -
  define f where "f = (\<lambda>(choice, alpha) io. bindR (mul_gen_bn ec alpha) (\<lambda>b_point.
             bindR (if choice then point_add ec b_point t else Inr b_point) (\<lambda>b_point. send_point b_point io)))"
  have step: "f (choices ! k, alphas ! k) io = Inr (io_after (point_frame (pts ! k)) [] io)" if "k < n" for k io
    using assms(1) [OF that] send_point_after [OF assms(2) [OF that]] by (auto simp: f_def bindR_eq_Inr)
  have "foldR f (map (\<lambda>i. (choices ! i, alphas ! i)) [0..<k]) io = Inr (io_after (concat (map point_frame (take k pts))) [] io)" if "k \<le> n" for k
    using that
  proof (induction k)
    case (Suc k)
    then show ?case using step [of k] assms(3) by (simp add: foldR_append take_Suc_conv_app_nth)
  qed simp
  moreover have "zip choices alphas = map (\<lambda>i. (choices ! i, alphas ! i)) [0..<n]" by (rule nth_equalityI) (auto simp: assms)
  ultimately show ?thesis unfolding f_def [symmetric] using assms(3) by simp
qed

lemma csw_recv_after:
  assumes n: "length choices = n" "length alphas = n" "80 \<le> n" and curve: "csw_curve_point ec 0 seed = Inr t"
    and pts: "\<And>i. i < n \<Longrightarrow> bindR (mul_gen_bn ec (alphas ! i)) (\<lambda>b. if choices ! i then point_add ec b t else Inr b) = Inr (pts ! i)"
      "\<And>i. i < n \<Longrightarrow> length (pts ! i) = POINT_BYTES" "length pts = n"
    and pads: "\<And>i. i < n \<Longrightarrow> bindR (point_mul_bn ec z (alphas ! i)) (\<lambda>x. Inr (csw_pad_block sha256 0 i x)) = Inr (pR ! i)" "length pR = n"
    and resp: "map (\<lambda>i. if choices ! i then map (csw_short_block sha256 0) pR ! i XOR chi ! i else map (csw_short_block sha256 0) pR ! i) [0..<n] = h0"
    and outs: "map (\<lambda>i. pR ! i XOR (if choices ! i then c1 ! i else c0 ! i)) [0..<n] = out"
    and l: "length z = POINT_BYTES" "length chi = n" "length c0 = n" "length c1 = n"
    and io: "io_in io = wire_send z chi (csw_short_block sha256 0 (csw_agg_block sha256 0 h0)) c0 c1 @ rest"
  shows "csw_recv ec sha256 seed alphas choices io = Inr (out, io_after (wire_recv seed pts (csw_agg_block sha256 0 h0))
     (wire_send z chi (csw_short_block sha256 0 (csw_agg_block sha256 0 h0)) c0 c1) io)"
proof -
  have sent: "foldR (\<lambda>(choice, alpha) io. bindR (mul_gen_bn ec alpha) (\<lambda>b_point.
             bindR (if choice then point_add ec b_point t else Inr b_point) (\<lambda>b_point. send_point b_point io)))
     (zip choices alphas) (io_send_block [seed] io) = Inr (io_after (wire_recv1 seed pts) [] io)"
    using csw_send_points [OF pts n(1,2), of "io_send_block [seed] io"] by (simp add: io_send_block_after wire_recv1_def)
  have ps: "mapR (\<lambda>(i, alpha). bindR (point_mul_bn ec z alpha) (\<lambda>z_alpha. Inr (csw_pad_block sha256 0 i z_alpha))) (enumerate 0 alphas) = Inr pR"
  proof -
    have "mapR (\<lambda>i. bindR (point_mul_bn ec z (alphas ! i)) (\<lambda>x. Inr (csw_pad_block sha256 0 i x))) [0..<n] = Inr (map (\<lambda>i. pR ! i) [0..<n])"
      by (rule mapR_all_Inr) (use pads in simp)
    moreover have "map (\<lambda>i. pR ! i) [0..<n] = pR" using map_nth [of pR] pads(2) by simp
    ultimately show ?thesis by (simp add: enumerate_index mapR_map n)
  qed
  obtain io1 io2 io3 io4 where r: "recv_point (io_after (wire_recv1 seed pts) [] io) = Inr (z, io1)" "io_recv_block n io1 = Inr (chi, io2)"
    "io_recv_block 1 io2 = Inr ([csw_short_block sha256 0 (csw_agg_block sha256 0 h0)], io3)" "io_recv_block n io3 = Inr (c0, io4)"
    "io_recv_block n io4 = Inr (c1, io_after (wire_recv1 seed pts) (wire_send z chi (csw_short_block sha256 0 (csw_agg_block sha256 0 h0)) c0 c1) io)"
    using recv_wire_send [OF io l] by blast
  show ?thesis using n(3) unfolding csw_recv_def Let_def curve n(1) bindR_simps sent r prod.case ps resp outs
    by (simp add: io_send_block_after wire_recv_def)
qed

lemma csw_send_after:
  assumes n: "length d0 = n" "length d1 = n" "80 \<le> n" and curve: "csw_curve_point ec 0 seed = Inr t"
    and ec: "mul_gen_bn ec r = Inr z" "point_mul_bn ec t r = Inr tr" "point_inv ec tr = Inr tn"
    and pads: "\<And>i. i < n \<Longrightarrow> bindR (point_mul_bn ec (pts ! i) r) (\<lambda>rho0. bindR (point_add ec rho0 tn) (\<lambda>rho1.
         Inr (csw_pad_block sha256 0 i rho0, csw_pad_block sha256 0 i rho1))) = Inr (p0 ! i, p1 ! i)" "length p0 = n" "length p1 = n"
    and pts: "\<And>p. p \<in> set pts \<Longrightarrow> length p = POINT_BYTES" "length pts = n"
    and l: "length z = POINT_BYTES"
    and h0: "h0 = map (csw_short_block sha256 0) p0" and io: "io_in io = wire_recv seed pts (csw_agg_block sha256 0 h0) @ rest"
  shows "csw_send ec sha256 r d0 d1 io = Inr (io_after
     (wire_send z (map (\<lambda>i. h0 ! i XOR csw_short_block sha256 0 (p1 ! i)) [0..<n]) (csw_short_block sha256 0 (csw_agg_block sha256 0 h0))
       (map (\<lambda>i. p0 ! i XOR d0 ! i) [0..<n]) (map (\<lambda>i. p1 ! i XOR d1 ! i) [0..<n]))
     (wire_recv seed pts (csw_agg_block sha256 0 h0)) io)"
proof -
  note w = io [unfolded wire_recv_def wire_recv1_def]
  have r1: "io_recv_block 1 io = Inr ([seed], io_after [] (slice_as_bytes [seed]) io)"
    using io_recv_block_after [of io "[seed]" _ 1] w by simp
  have "recv_points (length pts) (io_after [] (slice_as_bytes [seed]) io) = Inr (pts, io_after [] (concat (map point_frame pts)) (io_after [] (slice_as_bytes [seed]) io))"
    by (rule recv_points_after [where rest = "slice_as_bytes [csw_agg_block sha256 0 h0] @ rest"]) (use w pts in \<open>auto simp del: length_concat\<close>)
  then have r2: "recv_points n (io_after [] (slice_as_bytes [seed]) io) = Inr (pts, io_after [] (wire_recv1 seed pts) io)" by (simp add: pts wire_recv1_def)
  have ps: "mapR (\<lambda>(i, b_point). bindR (point_mul_bn ec b_point r) (\<lambda>rho0. bindR (point_add ec rho0 tn) (\<lambda>rho1.
       Inr (csw_pad_block sha256 0 i rho0, csw_pad_block sha256 0 i rho1)))) (enumerate 0 pts) = Inr (map (\<lambda>i. (p0 ! i, p1 ! i)) [0..<n])"
    unfolding enumerate_index mapR_map pts(2) prod.case by (rule mapR_all_Inr) (use pads(1) in simp)
  have mp: "map fst (map (\<lambda>i. (p0 ! i, p1 ! i)) [0..<n]) = p0" "map snd (map (\<lambda>i. (p0 ! i, p1 ! i)) [0..<n]) = p1"
    by (rule nth_equalityI; simp add: pads)+
  define mS where "mS = wire_send z (map (\<lambda>i. h0 ! i XOR csw_short_block sha256 0 (p1 ! i)) [0..<n]) (csw_short_block sha256 0 (csw_agg_block sha256 0 h0))
       (map (\<lambda>i. p0 ! i XOR d0 ! i) [0..<n]) (map (\<lambda>i. p1 ! i XOR d1 ! i) [0..<n])"
  have r3: "io_recv_block 1 (io_after mS (wire_recv1 seed pts) io) = Inr ([csw_agg_block sha256 0 h0], io_after mS (wire_recv seed pts (csw_agg_block sha256 0 h0)) io)"
    using io_recv_block_after [of "io_after mS (wire_recv1 seed pts) io" "[csw_agg_block sha256 0 h0]" _ 1] io by (simp add: wire_recv_def)
  have sp: "send_point z (io_after [] (wire_recv1 seed pts) io) = Inr (io_after (point_frame z) (wire_recv1 seed pts) io)" using send_point_after [OF l] by simp
  have s0: "[seed] ! 0 = seed" by simp
  show ?thesis using n(3) r3 unfolding csw_send_def Let_def n(1,2) r1 bindR_simps prod.case r2 s0 curve ec ps mp sp h0 [symmetric] mS_def [symmetric]
    by (simp add: io_send_block_after mS_def wire_send_def)
qed

lemma csw_run:
  assumes grp: "curve_group ec enc scal G hp" and draws: "good_draws scal G (csw_hidden hp seed) alphas r"
    and len: "length alphas = n" "length choices = n" "length d0 = n" "length d1 = n" "80 \<le> n"
  shows "\<exists>mR mS. (\<forall>io rest. io_in io = mS @ rest \<longrightarrow> csw_recv ec sha256 seed alphas choices io = Inr (ot_choose choices d0 d1, io_after mR mS io))
    \<and> (\<forall>io rest. io_in io = mR @ rest \<longrightarrow> csw_send ec sha256 r d0 d1 io = Inr (io_after mS mR io))"
proof -
  define T where "T = csw_hidden hp seed"
  have ops: "mul_gen_bn ec a = Inr (enc (scal a G))" "point_mul_bn ec (enc P) a = Inr (enc (scal a P))"
    "point_add ec (enc P) (enc Q) = Inr (enc (P + Q))" "point_inv ec (enc P) = Inr (enc (- P))"
    "hash_from_bytes ec b d = Some (enc (hp b d))" "P \<noteq> 0 \<Longrightarrow> length (enc P) = POINT_BYTES"
    "scal a (P + Q) = scal a P + scal a Q" "scal a (scal b' P) = scal b' (scal a P)" for a b' P Q b d
    using grp by (simp_all add: curve_group_def)
  have curve: "csw_curve_point ec 0 seed = Inr (enc T)"
    by (simp add: csw_curve_point_def squeeze_p256_point_def ops(5) T_def csw_hidden_def Let_def)
  define B where "B i = (if choices ! i then scal (alphas ! i) G + T else scal (alphas ! i) G)" for i
  define pts where "pts = map (\<lambda>i. enc (B i)) [0..<n]"
  define p0 where "p0 = map (\<lambda>i. csw_pad_block sha256 0 i (enc (scal r (B i)))) [0..<n]"
  define p1 where "p1 = map (\<lambda>i. csw_pad_block sha256 0 i (enc (scal r (B i) + - scal r T))) [0..<n]"
  define pR where "pR = map (\<lambda>i. csw_pad_block sha256 0 i (enc (scal (alphas ! i) (scal r G)))) [0..<n]"
  define h0 where "h0 = map (csw_short_block sha256 0) p0"
  define chi where "chi = map (\<lambda>i. h0 ! i XOR csw_short_block sha256 0 (p1 ! i)) [0..<n]"
  define c0 where "c0 = map (\<lambda>i. p0 ! i XOR d0 ! i) [0..<n]"
  define c1 where "c1 = map (\<lambda>i. p1 ! i XOR d1 ! i) [0..<n]"
  have dr: "scal r G \<noteq> 0" "\<And>i. i < n \<Longrightarrow> B i \<noteq> 0" using draws len by (auto simp: good_draws_def B_def T_def)
  have l: "length (enc (scal r G)) = POINT_BYTES" "\<And>i. i < n \<Longrightarrow> length (pts ! i) = POINT_BYTES"
    using dr ops(6) by (simp_all add: pts_def)
  have pad: "pR ! i = (if choices ! i then p1 ! i else p0 ! i)" if "i < n" for i
    using that by (simp add: pR_def p0_def p1_def B_def ops(7) ops(8) [of _ r])
  have lens: "length p0 = n" "length p1 = n" "length pR = n" "length h0 = n" "length chi = n" "length c0 = n" "length c1 = n" "length pts = n"
    by (simp_all add: p0_def p1_def pR_def h0_def chi_def c0_def c1_def pts_def)
  have resp: "map (\<lambda>i. if choices ! i then map (csw_short_block sha256 0) pR ! i XOR chi ! i else map (csw_short_block sha256 0) pR ! i) [0..<n] = h0"
    by (rule nth_equalityI) (use pad in \<open>auto simp: lens chi_def h0_def xor_ac\<close>)
  have outs: "map (\<lambda>i. pR ! i XOR (if choices ! i then c1 ! i else c0 ! i)) [0..<n] = ot_choose choices d0 d1"
    by (rule nth_equalityI) (use pad len in \<open>auto simp: lens c0_def c1_def ot_choose_def\<close>)
  have recv: "csw_recv ec sha256 seed alphas choices io = Inr (ot_choose choices d0 d1,
      io_after (wire_recv seed pts (csw_agg_block sha256 0 h0))
       (wire_send (enc (scal r G)) chi (csw_short_block sha256 0 (csw_agg_block sha256 0 h0)) c0 c1) io)"
    if "io_in io = wire_send (enc (scal r G)) chi (csw_short_block sha256 0 (csw_agg_block sha256 0 h0)) c0 c1 @ rest" for io rest
    by (rule csw_recv_after [OF len(2,1,5) curve _ l(2) lens(8) _ lens(3) resp outs l(1) lens(5,6,7) that])
      (auto simp: ops(1,2,3) pts_def B_def pR_def)
  have "csw_send ec sha256 r d0 d1 io = Inr (io_after
      (wire_send (enc (scal r G)) chi (csw_short_block sha256 0 (csw_agg_block sha256 0 h0)) c0 c1)
      (wire_recv seed pts (csw_agg_block sha256 0 h0)) io)"
    if "io_in io = wire_recv seed pts (csw_agg_block sha256 0 h0) @ rest" for io rest
    unfolding chi_def c0_def c1_def
    by (rule csw_send_after [OF len(3-5) curve ops(1) ops(2) ops(4) _ lens(1,2) _ lens(8) l(1) h0_def that])
      (use l(2) in \<open>auto simp: ops(2,3) pts_def p0_def p1_def\<close>)
  with recv show ?thesis by blast
qed

end
