(* ===== verification/Ot_Extension.thy ===== *)
theory Ot_Extension
  imports Base_Ot
begin

text \<open>
  The OT extension with its messages: \<open>softspoken.rs\<close> of \<open>shachain2pc-emp-compat\<close> (\<open>SoftSpoken4\<close>, the state of
  \<open>shachain2pc-mpc-core\<close> driven over a stream) and the part of its \<open>triple_pool.rs\<close> that keeps two of them,
  one in each direction, and draws authenticated shares from them. An operation takes the state and the
  stream and returns its result with both; after an error neither is used again. What a side draws from
  the system's random generator for the base OT is an argument. \<open>tokio::try_join!\<close> runs two futures that share no
  state; when both fail the model keeps the error of the first. Flushing a stream changes no state of the model.
\<close>

unbundle bit_operations_syntax

section \<open>One direction\<close>

definition soft_err :: "compat_error \<Rightarrow> softspoken_error + 'a \<Rightarrow> compat_error + 'a" where
  \<comment> \<open>\<open>.map_err(|_| e)\<close>; a panic stays one\<close>
  "soft_err e = mapErr (\<lambda>x. if x = SPanic then APanic else e)"

definition soft4_new :: "role \<Rightarrow> bool \<Rightarrow> block \<Rightarrow> block \<Rightarrow> softspoken" where
  \<comment> \<open>\<open>drawn\<close> and \<open>seed\<close> are the random blocks; Bob draws only the second\<close>
  "soft4_new r malicious drawn seed =
     (let delta = (if r = Alice then let bs = block_bytes drawn in block_from_bytes (bs[0 := bs ! 0 OR 1]) else 0)
      in softspoken_new r malicious delta seed)"

definition soft4_set_delta :: "block \<Rightarrow> softspoken \<Rightarrow> compat_error + softspoken" where
  "soft4_set_delta delta s = soft_err (BadOtRole ''SoftSpoken4::set_delta'') (softspoken_set_delta delta s)"

definition new_with_delta :: "role \<Rightarrow> bool \<Rightarrow> block \<Rightarrow> block \<Rightarrow> block \<Rightarrow> compat_error + softspoken" where
  "new_with_delta r malicious drawn seed delta = soft4_set_delta delta (soft4_new r malicious drawn seed)"

definition transcript_seed :: "(bytes \<Rightarrow> bytes) \<Rightarrow> softspoken \<Rightarrow> ot_io \<Rightarrow> compat_error + block option" where
  "transcript_seed sha256 s io =
     (if so_malicious s then bindR (mapErr CWire (get_digest sha256 io)) (\<lambda>d. Inr (Some d)) else Inr None)"

definition send_chunk_pipeline ::
  "(block \<Rightarrow> block \<Rightarrow> block) \<Rightarrow> (bytes \<Rightarrow> bytes) \<Rightarrow> nat \<Rightarrow> softspoken \<Rightarrow> ot_io \<Rightarrow> compat_error + (block list \<times> softspoken) \<times> ot_io" where
  "send_chunk_pipeline aes sha256 bs s io =
     bindR (soft_err APanic (send_chunk_prepare aes bs s)) (\<lambda>planes.
     bindR (io_recv_block ((SOFTSPOKEN_N - 1) * bs) io) (\<lambda>(d_bufs, io).
     bindR (transcript_seed sha256 s io) (\<lambda>seed.
     bindR (soft_err FeqMismatch (send_chunk_finish aes planes d_bufs seed bs s)) (\<lambda>r. Inr (r, io)))))"

definition recv_chunk_pipeline ::
  "(block \<Rightarrow> block \<Rightarrow> block) \<Rightarrow> (bytes \<Rightarrow> bytes) \<Rightarrow> nat \<Rightarrow> softspoken \<Rightarrow> ot_io \<Rightarrow> compat_error + (block list \<times> softspoken) \<times> ot_io" where
  "recv_chunk_pipeline aes sha256 bs s io =
     bindR (soft_err APanic (recv_chunk_prepare aes bs s)) (\<lambda>(d_bufs, out, u_canonical).
     let io = io_send_block d_bufs io in
     bindR (transcript_seed sha256 s io) (\<lambda>seed.
     bindR (soft_err APanic (recv_chunk_finish aes seed out u_canonical bs s)) (\<lambda>s. Inr ((out, s), io))))"

definition next_chunk ::
  "(block \<Rightarrow> block \<Rightarrow> block) \<Rightarrow> (bytes \<Rightarrow> bytes) \<Rightarrow> nat \<Rightarrow> softspoken \<Rightarrow> ot_io \<Rightarrow> compat_error + (block list \<times> softspoken) \<times> ot_io" where
  "next_chunk aes sha256 bs s =
     (if so_role s = Alice then send_chunk_pipeline aes sha256 bs s else recv_chunk_pipeline aes sha256 bs s)"

function full_chunks ::
  "(block \<Rightarrow> block \<Rightarrow> block) \<Rightarrow> (bytes \<Rightarrow> bytes) \<Rightarrow> nat \<Rightarrow> block list \<Rightarrow> softspoken \<Rightarrow> ot_io \<Rightarrow> compat_error + (block list \<times> softspoken) \<times> ot_io" where
  \<comment> \<open>the loop of \<open>next_n\<close>; \<open>out\<close> is the part of the result already written\<close>
  "full_chunks aes sha256 len out s io =
     (if length out + SOFTSPOKEN_CHUNK_OTS \<le> len
      then case next_chunk aes sha256 SOFTSPOKEN_CHUNK_BLOCKS s io of
          Inl e \<Rightarrow> Inl e
        | Inr ((chunk, s), io) \<Rightarrow>
            if length chunk \<noteq> SOFTSPOKEN_CHUNK_OTS then Inl APanic else full_chunks aes sha256 len (out @ chunk) s io
      else Inr ((out, s), io))"
  by pat_completeness auto
termination
  by (relation "measure (\<lambda>(aes, sha256, len, out, s, io). len - length out)")
    (auto simp: SOFTSPOKEN_CHUNK_OTS_def SOFTSPOKEN_CHUNK_BLOCKS_def)

definition next_n ::
  "(block \<Rightarrow> block \<Rightarrow> block) \<Rightarrow> (bytes \<Rightarrow> bytes) \<Rightarrow> nat \<Rightarrow> softspoken \<Rightarrow> ot_io \<Rightarrow> compat_error + (block list \<times> softspoken) \<times> ot_io" where
  "next_n aes sha256 len s io =
     bindR (soft_err APanic (drain_leftover len s)) (\<lambda>(out, s).
     bindR (full_chunks aes sha256 len out s io) (\<lambda>((out, s), io).
       if length out < len
       then bindR (next_chunk aes sha256 SOFTSPOKEN_CHUNK_BLOCKS s io) (\<lambda>((chunk, s), io).
         let take_n = len - length out
         in if length chunk < take_n then Inl APanic
            else Inr ((out @ take take_n chunk, s\<lparr>so_leftover := chunk, so_leftover_pos := take_n,
                         so_leftover_count := SOFTSPOKEN_CHUNK_OTS - take_n\<rparr>), io))
       else Inr ((out, s), io)))"

record 's csw_draws =
  dr_seed :: block
  dr_alphas :: "'s list"
  dr_scalar :: 's

definition pprf_check_send ::
  "(block \<Rightarrow> block \<Rightarrow> block) \<Rightarrow> (bytes \<Rightarrow> bytes) \<Rightarrow> softspoken \<Rightarrow> ot_io \<Rightarrow> compat_error + softspoken \<times> ot_io" where
  "pprf_check_send aes sha256 s io =
     (let ((t_buf, digest), s) = pprf_check_send_prepare aes sha256 s
      in Inr (s, io_send_data digest (io_send_block t_buf io)))"

definition pprf_check_recv ::
  "(block \<Rightarrow> block \<Rightarrow> block) \<Rightarrow> (bytes \<Rightarrow> bytes) \<Rightarrow> softspoken \<Rightarrow> ot_io \<Rightarrow> compat_error + softspoken \<times> ot_io" where
  "pprf_check_recv aes sha256 s io =
     bindR (io_recv_block (SOFTSPOKEN_N * 2) io) (\<lambda>(t_buf, io).
     bindR (io_recv_data HASH_DIGEST_BYTES io) (\<lambda>(their_digest, io).
       let (r, s) = pprf_check_recv_verify aes sha256 t_buf their_digest s
       in bindR (soft_err FeqMismatch r) (\<lambda>_. Inr (s, io))))"

definition enable_once :: "bool \<Rightarrow> ot_io \<Rightarrow> compat_error + ot_io" where
  "enable_once send_first io = (if \<not> fs_enabled io then mapErr CWire (enable_fs send_first io) else Inr io)"

definition bootstrap_send ::
  "'c p256 \<Rightarrow> (block \<Rightarrow> block \<Rightarrow> block) \<Rightarrow> (bytes \<Rightarrow> bytes) \<Rightarrow> 'c csw_draws \<Rightarrow> softspoken \<Rightarrow> ot_io \<Rightarrow> compat_error + softspoken \<times> ot_io" where
  "bootstrap_send ec aes sha256 draws s io =
     (let (choices, s) = bootstrap_send_choices s in
      bindR (csw_recv ec sha256 (dr_seed draws) (dr_alphas draws) choices io) (\<lambda>(received, io).
      bindR (soft_err (BadCswLength (length received)) (bootstrap_send_apply_received aes received s)) (\<lambda>s.
      bindR (if so_malicious s then bindR (pprf_check_recv aes sha256 s io) (\<lambda>(s, io). bindR (enable_once True io) (\<lambda>io. Inr (s, io)))
             else Inr (s, io)) (\<lambda>(s, io).
        Inr (mark_setup_done s, io)))))"

definition bootstrap_recv ::
  "'c p256 \<Rightarrow> (block \<Rightarrow> block \<Rightarrow> block) \<Rightarrow> (bytes \<Rightarrow> bytes) \<Rightarrow> 'c csw_draws \<Rightarrow> softspoken \<Rightarrow> ot_io \<Rightarrow> compat_error + softspoken \<times> ot_io" where
  "bootstrap_recv ec aes sha256 draws s io =
     bindR (soft_err APanic (bootstrap_recv_keys aes s)) (\<lambda>((k0, k1), s).
     bindR (csw_send ec sha256 (dr_scalar draws) k0 k1 io) (\<lambda>io.
     bindR (if so_malicious s then bindR (pprf_check_send aes sha256 s io) (\<lambda>(s, io). bindR (enable_once False io) (\<lambda>io. Inr (s, io)))
            else Inr (s, io)) (\<lambda>(s, io).
       Inr (mark_setup_done s, io))))"

definition soft4_begin ::
  "'c p256 \<Rightarrow> (block \<Rightarrow> block \<Rightarrow> block) \<Rightarrow> (bytes \<Rightarrow> bytes) \<Rightarrow> 'c csw_draws \<Rightarrow> softspoken \<Rightarrow> ot_io \<Rightarrow> compat_error + softspoken \<times> ot_io" where
  \<comment> \<open>\<open>send_begin\<close> and \<open>recv_begin\<close>\<close>
  "soft4_begin ec aes sha256 draws s io =
     (let s = reset_leftover s in
      if so_role s = Alice
      then bindR (if \<not> so_setup_done s then bootstrap_send ec aes sha256 draws s io else Inr (s, io)) (\<lambda>(s, io).
        Inr (begin_send_session s, io))
      else bindR (if \<not> so_setup_done s then bootstrap_recv ec aes sha256 draws s io else Inr (s, io)) (\<lambda>(s, io).
        Inr (begin_recv_session s, io)))"

definition send_end ::
  "(block \<Rightarrow> block \<Rightarrow> block) \<Rightarrow> (bytes \<Rightarrow> bytes) \<Rightarrow> softspoken \<Rightarrow> ot_io \<Rightarrow> compat_error + softspoken \<times> ot_io" where
  "send_end aes sha256 s io =
     (if so_malicious s
      then bindR (send_chunk_pipeline aes sha256 1 s io) (\<lambda>((scratch, s), io).
        bindR (io_recv_block 1 io) (\<lambda>(x, io).
        bindR (io_recv_block 1 io) (\<lambda>(t, io).
        bindR (soft_err FeqMismatch (verify_send_check (x ! 0) (t ! 0) s)) (\<lambda>_. Inr (s, io)))))
      else Inr (s, io))"

definition recv_end ::
  "(block \<Rightarrow> block \<Rightarrow> block) \<Rightarrow> (bytes \<Rightarrow> bytes) \<Rightarrow> softspoken \<Rightarrow> ot_io \<Rightarrow> compat_error + softspoken \<times> ot_io" where
  "recv_end aes sha256 s io =
     (if so_malicious s
      then bindR (recv_chunk_pipeline aes sha256 1 s io) (\<lambda>((scratch, s), io).
        let (check_x, check_t) = recv_check_blocks s
        in Inr (s, io_send_block [check_t] (io_send_block [check_x] io)))
      else Inr (s, io))"

definition soft4_end ::
  "(block \<Rightarrow> block \<Rightarrow> block) \<Rightarrow> (bytes \<Rightarrow> bytes) \<Rightarrow> softspoken \<Rightarrow> ot_io \<Rightarrow> compat_error + softspoken \<times> ot_io" where
  "soft4_end aes sha256 s = (if so_role s = Alice then send_end aes sha256 s else recv_end aes sha256 s)"

definition soft4_run ::
  "'c p256 \<Rightarrow> (block \<Rightarrow> block \<Rightarrow> block) \<Rightarrow> (bytes \<Rightarrow> bytes) \<Rightarrow> 'c csw_draws \<Rightarrow> nat \<Rightarrow> softspoken \<Rightarrow> ot_io
   \<Rightarrow> compat_error + (block list \<times> softspoken) \<times> ot_io" where
  "soft4_run ec aes sha256 draws len s io =
     bindR (soft_err APanic (drain_leftover len s)) (\<lambda>(out, s).
       if length out = len then Inr ((out, s), io)
       else bindR (soft4_begin ec aes sha256 draws s io) (\<lambda>(s, io).
         bindR (next_n aes sha256 (len - length out) s io) (\<lambda>((rest, s), io).
         bindR (soft4_end aes sha256 s io) (\<lambda>(s, io). Inr ((out @ rest, s), io)))))"

definition soft4_trim :: "softspoken \<Rightarrow> softspoken" where
  "soft4_trim s = s\<lparr>so_leftover := [], so_leftover_pos := 0, so_leftover_count := 0\<rparr>"

section \<open>Both directions\<close>

record ag2pc_streams =
  st_main :: ot_io
  st_sibling :: ot_io

record ot_pool = triple_pool_state +
  abit1 :: softspoken
  abit2 :: softspoken

definition on_abits ::
  "(softspoken \<Rightarrow> ot_io \<Rightarrow> compat_error + ('a \<times> softspoken) \<times> ot_io) \<Rightarrow> (softspoken \<Rightarrow> ot_io \<Rightarrow> compat_error + ('a \<times> softspoken) \<times> ot_io)
   \<Rightarrow> ot_pool \<Rightarrow> ag2pc_streams \<Rightarrow> compat_error + (('a \<times> 'a) \<times> ot_pool) \<times> ag2pc_streams" where
  \<comment> \<open>the two futures of a \<open>try_join!\<close>: Alice sends over \<open>sibling\<close> and receives over \<open>main\<close>, Bob the other way\<close>
  "on_abits f1 f2 pool streams =
     (case tp_party pool of
        Alice \<Rightarrow> bindR (f1 (abit1 pool) (st_sibling streams)) (\<lambda>((a, s1), io1).
          bindR (f2 (abit2 pool) (st_main streams)) (\<lambda>((b, s2), io2).
            Inr (((a, b), pool\<lparr>abit1 := s1, abit2 := s2\<rparr>), \<lparr>st_main = io2, st_sibling = io1\<rparr>)))
      | Bob \<Rightarrow> bindR (f1 (abit1 pool) (st_main streams)) (\<lambda>((a, s1), io1).
          bindR (f2 (abit2 pool) (st_sibling streams)) (\<lambda>((b, s2), io2).
            Inr (((a, b), pool\<lparr>abit1 := s1, abit2 := s2\<rparr>), \<lparr>st_main = io1, st_sibling = io2\<rparr>))))"

definition no_result :: "(softspoken \<Rightarrow> ot_io \<Rightarrow> compat_error + softspoken \<times> ot_io) \<Rightarrow> softspoken \<Rightarrow> ot_io
   \<Rightarrow> compat_error + (unit \<times> softspoken) \<times> ot_io" where
  "no_result f s io = bindR (f s io) (\<lambda>(s, io). Inr (((), s), io))"

definition begin_abits ::
  "'c p256 \<Rightarrow> (block \<Rightarrow> block \<Rightarrow> block) \<Rightarrow> (bytes \<Rightarrow> bytes) \<Rightarrow> 'c csw_draws \<Rightarrow> 'c csw_draws \<Rightarrow> ot_pool \<Rightarrow> ag2pc_streams
   \<Rightarrow> compat_error + ot_pool \<times> ag2pc_streams" where
  "begin_abits ec aes sha256 draws1 draws2 pool streams =
     bindR (on_abits (no_result (soft4_begin ec aes sha256 draws1)) (no_result (soft4_begin ec aes sha256 draws2)) pool streams)
       (\<lambda>((_, pool), streams). Inr (pool, streams))"

definition end_abits ::
  "(block \<Rightarrow> block \<Rightarrow> block) \<Rightarrow> (bytes \<Rightarrow> bytes) \<Rightarrow> ot_pool \<Rightarrow> ag2pc_streams \<Rightarrow> compat_error + ot_pool \<times> ag2pc_streams" where
  "end_abits aes sha256 pool streams =
     bindR (on_abits (no_result (soft4_end aes sha256)) (no_result (soft4_end aes sha256)) pool streams)
       (\<lambda>((_, pool), streams). Inr (pool, streams))"

record 'c pool_draws =
  dr_delta :: block
  dr_choice1 :: block
  dr_choice2 :: block
  dr_csw1 :: "'c csw_draws"
  dr_csw2 :: "'c csw_draws"

definition enable_both :: "role \<Rightarrow> ag2pc_streams \<Rightarrow> compat_error + ag2pc_streams" where
  "enable_both party streams =
     bindR (enable_once (party = Alice) (st_main streams)) (\<lambda>mn.
     bindR (enable_once (party = Alice) (st_sibling streams)) (\<lambda>sib. Inr \<lparr>st_main = mn, st_sibling = sib\<rparr>))"

definition setup_with_delta ::
  "'c p256 \<Rightarrow> (block \<Rightarrow> block \<Rightarrow> block) \<Rightarrow> (bytes \<Rightarrow> bytes) \<Rightarrow> 'c pool_draws \<Rightarrow> role \<Rightarrow> nat \<Rightarrow> block \<Rightarrow> ag2pc_streams
   \<Rightarrow> compat_error + ot_pool \<times> ag2pc_streams" where
  "setup_with_delta ec aes sha256 draws party ssp delta streams =
     bindR (enable_both party streams) (\<lambda>streams.
     let delta = normalize_ag2pc_delta party delta in
     bindR (new_with_delta Alice True (dr_delta draws) (dr_choice1 draws) delta) (\<lambda>abit1.
       let out = triple_pool_state.extend (triple_pool_new party ssp delta)
             (ot_pool.fields abit1 (soft4_new Bob True 0 (dr_choice2 draws)))
       in begin_abits ec aes sha256 (dr_csw1 draws) (dr_csw2 draws) out streams))"

definition pool_setup ::
  "'c p256 \<Rightarrow> (block \<Rightarrow> block \<Rightarrow> block) \<Rightarrow> (bytes \<Rightarrow> bytes) \<Rightarrow> 'c pool_draws \<Rightarrow> role \<Rightarrow> nat \<Rightarrow> block \<Rightarrow> ag2pc_streams
   \<Rightarrow> compat_error + ot_pool \<times> ag2pc_streams" where
  \<comment> \<open>\<open>setup\<close>, which draws the delta\<close>
  "pool_setup ec aes sha256 draws party ssp drawn = setup_with_delta ec aes sha256 draws party ssp (normalize_ag2pc_delta party drawn)"

definition gen_cot_shares ::
  "(block \<Rightarrow> block \<Rightarrow> block) \<Rightarrow> (bytes \<Rightarrow> bytes) \<Rightarrow> nat \<Rightarrow> ot_pool \<Rightarrow> ag2pc_streams
   \<Rightarrow> compat_error + ((block list \<times> block list) \<times> ot_pool) \<times> ag2pc_streams" where
  \<comment> \<open>the macs, then the keys\<close>
  "gen_cot_shares aes sha256 count pool streams =
     bindR (on_abits (next_n aes sha256 count) (next_n aes sha256 count) (mark_cots_minted pool) streams) (\<lambda>(((key, mac), pool), streams).
       Inr (((mac, key), pool), streams))"

definition pool_draw ::
  "(block \<Rightarrow> block \<Rightarrow> block) \<Rightarrow> (bytes \<Rightarrow> bytes) \<Rightarrow> nat \<Rightarrow> ot_pool \<Rightarrow> ag2pc_streams
   \<Rightarrow> compat_error + (ashare_bundle list \<times> ot_pool) \<times> ag2pc_streams" where
  "pool_draw aes sha256 count pool streams =
     bindR (gen_cot_shares aes sha256 count pool streams) (\<lambda>(((mac, key), pool), streams).
       Inr ((map2 (\<lambda>m k. \<lparr>as_mac = m, as_key = k\<rparr>) mac key, pool), streams))"

definition pool_end ::
  "(block \<Rightarrow> block \<Rightarrow> block) \<Rightarrow> (bytes \<Rightarrow> bytes) \<Rightarrow> ot_pool \<Rightarrow> ag2pc_streams \<Rightarrow> compat_error + ot_pool \<times> ag2pc_streams" where
  "pool_end aes sha256 pool = end_abits aes sha256 (mark_cot_check_flushed pool)"

definition pool_flush ::
  "'c p256 \<Rightarrow> (block \<Rightarrow> block \<Rightarrow> block) \<Rightarrow> (bytes \<Rightarrow> bytes) \<Rightarrow> 'c csw_draws \<Rightarrow> 'c csw_draws \<Rightarrow> ot_pool \<Rightarrow> ag2pc_streams
   \<Rightarrow> compat_error + ot_pool \<times> ag2pc_streams" where
  "pool_flush ec aes sha256 draws1 draws2 pool streams =
     bindR (end_abits aes sha256 (mark_cot_check_flushed pool) streams) (\<lambda>(pool, streams).
       begin_abits ec aes sha256 draws1 draws2 pool streams)"

definition pool_maybe_flush ::
  "'c p256 \<Rightarrow> (block \<Rightarrow> block \<Rightarrow> block) \<Rightarrow> (bytes \<Rightarrow> bytes) \<Rightarrow> 'c csw_draws \<Rightarrow> 'c csw_draws \<Rightarrow> ot_pool \<Rightarrow> ag2pc_streams
   \<Rightarrow> compat_error + ot_pool \<times> ag2pc_streams" where
  "pool_maybe_flush ec aes sha256 draws1 draws2 pool streams =
     (if should_flush_cot_check pool then pool_flush ec aes sha256 draws1 draws2 pool streams else Inr (pool, streams))"

definition pool_trim :: "ot_pool \<Rightarrow> ot_pool" where
  "pool_trim pool = pool\<lparr>abit1 := soft4_trim (abit1 pool), abit2 := soft4_trim (abit2 pool)\<rparr>"

end
