(* ===== verification/Ot_Extension_Correct.thy ===== *)
theory Ot_Extension_Correct
  imports Ot_Extension
begin

text \<open>
  Two honest ends of the OT extension. \<open>speaks f io a out inp\<close> says that an operation, when \<open>inp\<close> arrives on
  its stream, reads all of it, sends \<open>out\<close> and returns \<open>a\<close>; conversations are composed from it. For each
  operation there are messages with which the sender and the receiver both succeed: the start of a session with
  its base OT and its check of the trees, the draws with their leftover, the end with its consistency check. What
  is drawn is correlated under the sender's delta.
\<close>

unbundle bit_operations_syntax

section \<open>Two ends of a stream\<close>

definition speaks :: "(ot_io \<Rightarrow> compat_error + 'a \<times> ot_io) \<Rightarrow> ot_io \<Rightarrow> 'a \<Rightarrow> bytes \<Rightarrow> bytes \<Rightarrow> bool" where
  \<comment> \<open>with \<open>inp\<close> arriving, the operation reads it all, sends \<open>out\<close> and gives \<open>a\<close>\<close>
  "speaks f io a out inp \<longleftrightarrow> (\<forall>rest. f (io\<lparr>io_in := inp @ rest\<rparr>) = Inr (a, (io_after out inp io)\<lparr>io_in := rest\<rparr>))"

lemma speaks_then:
  assumes "speaks f io a o1 i1" "speaks g (io_after o1 i1 io) b o2 i2" "\<And>io io'. f io = Inr (a, io') \<Longrightarrow> h io = g io'"
  shows "speaks h io b (o1 @ o2) (i1 @ i2)"
  using assms by (simp add: speaks_def)

lemma speaks_map:
  assumes "speaks f io a o1 i1" "\<And>io io'. f io = Inr (a, io') \<Longrightarrow> h io = Inr (b, io')"
  shows "speaks h io b o1 i1"
  using assms by (simp add: speaks_def)

lemma speaks_result: "speaks (\<lambda>io. Inr (a, io)) io a [] []"
  by (simp add: speaks_def)

lemma speaks_after: "(\<And>rest. f (io\<lparr>io_in := inp @ rest\<rparr>) = Inr (a, io_after out inp (io\<lparr>io_in := inp @ rest\<rparr>))) \<Longrightarrow> speaks f io a out inp"
  by (simp add: speaks_def io_after_def)

lemma speaks_send: "speaks (\<lambda>io. Inr ((), io_send_data d io)) io () d []"
  by (rule speaks_after) (simp add: io_send_after)

lemma speaks_send_block: "speaks (\<lambda>io. Inr ((), io_send_block d io)) io () (slice_as_bytes d) []"
  by (rule speaks_after) (simp add: io_send_block_after)

lemma speaks_recv: "length d = n \<Longrightarrow> speaks (io_recv_data n) io d [] d"
  by (rule speaks_after) (simp add: io_recv_after)

lemma speaks_recv_block: "length d = n \<Longrightarrow> speaks (io_recv_block n) io d [] (slice_as_bytes d)"
  by (rule speaks_after) (simp add: io_recv_block_after)

definition in_touch :: "ot_io \<Rightarrow> ot_io \<Rightarrow> bool" where
  \<comment> \<open>the two ends keep the same transcripts\<close>
  "in_touch a b \<longleftrightarrow> fs_enabled a \<and> fs_enabled b \<and> fs_send a = fs_recv b \<and> fs_recv a = fs_send b \<and> fs_send_first a = (\<not> fs_send_first b)"

lemma in_touch_after: "in_touch a b \<Longrightarrow> in_touch (io_after x y a) (io_after y x b)"
  by (auto simp: in_touch_def io_after_def fs_enabled_def absorb_def)

lemma in_touch_digest:
  assumes "in_touch a b"
  shows "\<exists>d. get_digest sha256 a = Inr d \<and> get_digest sha256 b = Inr d"
  using assms by (auto simp: in_touch_def fs_enabled_def get_digest_def okOr_def Let_def split: option.splits)

lemma digest_given [simp]:
  "get_digest sha256 (io\<lparr>io_in := x\<rparr>) = get_digest sha256 io" "transcript_seed sha256 s (io\<lparr>io_in := x\<rparr>) = transcript_seed sha256 s io"
  by (simp_all add: get_digest_def transcript_seed_def)

section \<open>A sender and its receiver\<close>

definition paired :: "softspoken \<Rightarrow> softspoken \<Rightarrow> bool" where
  "paired S R \<longleftrightarrow> so_role S = Alice \<and> so_role R = Bob \<and> so_malicious S \<and> so_malicious R
     \<and> so_session S = so_session R \<and> so_setup_done S = so_setup_done R
     \<and> so_leftover_pos S = so_leftover_pos R \<and> so_leftover_count S = so_leftover_count R
     \<and> (0 < so_leftover_count R \<longrightarrow> so_leftover_pos R + so_leftover_count R \<le> length (so_leftover R))
     \<and> list_all2 (rel1 (so_delta S)) (so_leftover R) (so_leftover S)
     \<and> (if so_setup_done S then trees_agree S R
        else length (so_alphas S) = SOFTSPOKEN_N \<and> so_delta_bool S = block_to_bools (so_delta S) \<and> lsb (so_delta S))"

definition active :: "softspoken \<Rightarrow> softspoken \<Rightarrow> bool" where
  \<comment> \<open>inside a session\<close>
  "active S R \<longleftrightarrow> paired S R \<and> so_setup_done S \<and> in_step S R"

lemma chunk_talk:
  assumes act: "active S R" and touch: "in_touch ioS ioR" and bs: "0 < bs"
  shows "\<exists>outS S' outR R' m. speaks (next_chunk aes sha256 bs S) ioS (outS, S') [] m \<and> speaks (next_chunk aes sha256 bs R) ioR (outR, R') m []
    \<and> length outR = bs * 128 \<and> list_all2 (rel1 (so_delta S)) outR outS \<and> active S' R'
    \<and> so_delta S' = so_delta S \<and> so_leftover S' = so_leftover S"
proof -
  have st: "in_step S R" using act by (simp add: active_def)
  have roles: "so_role S = Alice" "so_role R = Bob" "so_malicious S" "so_malicious R" using act by (simp_all add: active_def paired_def)
  obtain d0 u where "\<exists>planes S' R'. recv_chunk_prepare aes bs R = Inr (d0, out_R aes bs R, u) \<and> length d0 = (SOFTSPOKEN_N - 1) * bs"
    using chunk_run [OF st, where aes = aes and bs = bs] by blast
  then have rp: "recv_chunk_prepare aes bs R = Inr (d0, out_R aes bs R, u)" and dl: "length d0 = (SOFTSPOKEN_N - 1) * bs" by auto
  define m where "m = slice_as_bytes d0"
  obtain seed where seed: "get_digest sha256 (io_after [] m ioS) = Inr seed" "get_digest sha256 (io_after m [] ioR) = Inr seed"
    using in_touch_digest [OF in_touch_after [OF touch, of "[]" m]] by blast
  obtain d u' planes S' R' where run: "recv_chunk_prepare aes bs R = Inr (d, out_R aes bs R, u')"
    "recv_chunk_finish aes (Some seed) (out_R aes bs R) u' bs R = Inr R'" "send_chunk_prepare aes bs S = Inr planes"
    "send_chunk_finish aes planes d (Some seed) bs S = Inr (out_S aes bs S R, S')" "in_step S' R'"
    "\<exists>q b. S' = S\<lparr>so_check_q := q, so_cur_send_b0 := b\<rparr>" "\<exists>t x b. R' = R\<lparr>so_check_t := t, so_check_x := x, so_cur_recv_b0 := b\<rparr>"
    using chunk_run [OF st, where aes = aes and bs = bs and seed = seed] by blast
  then have [simp]: "d = d0" "u' = u" using rp by simp_all
  have send: "speaks (next_chunk aes sha256 bs S) ioS (out_S aes bs S R, S') [] m"
  proof -
    have "speaks (io_recv_block ((SOFTSPOKEN_N - 1) * bs)) ioS d0 [] m" unfolding m_def by (rule speaks_recv_block [OF dl])
    moreover have "soft_err FeqMismatch (send_chunk_finish aes planes d0 (Some seed) bs S) = Inr (out_S aes bs S R, S')"
      using run(4) by (simp add: soft_err_def)
    ultimately show ?thesis using run(3) seed(1) roles
      by (simp add: speaks_def next_chunk_def send_chunk_pipeline_def soft_err_def transcript_seed_def del: One_nat_def)
  qed
  have recv: "speaks (next_chunk aes sha256 bs R) ioR (out_R aes bs R, R') m []"
    using run(2) rp seed(2) roles
    by (intro speaks_after) (simp add: next_chunk_def recv_chunk_pipeline_def soft_err_def transcript_seed_def io_send_block_after m_def
        io_after_def get_digest_def)
  have outs: "length (out_R aes bs R) = bs * 128 \<and> list_all2 (rel1 (so_delta S)) (out_R aes bs R) (out_S aes bs S R)"
    using chunk_correlated(2) [OF st] chunk_correlated(3,4) [OF st, of 0 bs aes] bs by (simp add: list_all2_conv_all_nth)
  have "active S' R'" using act run(5,6,7) by (auto simp: active_def paired_def in_step_def)
  moreover have "so_delta S' = so_delta S" "so_leftover S' = so_leftover S" using run(6) by auto
  ultimately show ?thesis using send recv outs by (intro exI conjI) (assumption | simp)+
qed

declare full_chunks.simps [simp del]

lemma full_chunks_stop: "len < length out + SOFTSPOKEN_CHUNK_OTS \<Longrightarrow> full_chunks aes sha256 len out s io = Inr ((out, s), io)"
  by (simp add: full_chunks.simps)

lemma full_chunks_step:
  "length out + SOFTSPOKEN_CHUNK_OTS \<le> len \<Longrightarrow> next_chunk aes sha256 SOFTSPOKEN_CHUNK_BLOCKS s io = Inr ((chunk, s'), io')
   \<Longrightarrow> length chunk = SOFTSPOKEN_CHUNK_OTS \<Longrightarrow> full_chunks aes sha256 len out s io = full_chunks aes sha256 len (out @ chunk) s' io'"
  by (subst full_chunks.simps) simp

lemma full_chunk_talk:
  assumes "active S R" and "in_touch ioS ioR"
  shows "\<exists>outS S' outR R' m. speaks (next_chunk aes sha256 SOFTSPOKEN_CHUNK_BLOCKS S) ioS (outS, S') [] m
    \<and> speaks (next_chunk aes sha256 SOFTSPOKEN_CHUNK_BLOCKS R) ioR (outR, R') m []
    \<and> length outR = SOFTSPOKEN_CHUNK_OTS \<and> list_all2 (rel1 (so_delta S)) outR outS \<and> active S' R' \<and> so_delta S' = so_delta S"
proof -
  have "0 < SOFTSPOKEN_CHUNK_BLOCKS" by (simp add: SOFTSPOKEN_CHUNK_BLOCKS_def)
  from chunk_talk [OF assms this] show ?thesis unfolding SOFTSPOKEN_CHUNK_OTS_def by blast
qed

lemma full_chunks_talk:
  assumes "active S R" "in_touch ioS ioR" "list_all2 (rel1 (so_delta S)) outR outS" "length outR \<le> len"
  shows "\<exists>outS' S' outR' R' m. speaks (full_chunks aes sha256 len outS S) ioS (outS', S') [] m
    \<and> speaks (full_chunks aes sha256 len outR R) ioR (outR', R') m []
    \<and> list_all2 (rel1 (so_delta S)) outR' outS' \<and> length outR' \<le> len \<and> len < length outR' + SOFTSPOKEN_CHUNK_OTS
    \<and> active S' R' \<and> so_delta S' = so_delta S"
  using assms
proof (induction "len - length outR" arbitrary: S R ioS ioR outS outR rule: less_induct)
  case less
  have len: "length outS = length outR" using less.prems(3) by (simp add: list_all2_lengthD)
  show ?case
  proof (cases "length outR + SOFTSPOKEN_CHUNK_OTS \<le> len")
    case False
    then have "speaks (full_chunks aes sha256 len outS S) ioS (outS, S) [] []" "speaks (full_chunks aes sha256 len outR R) ioR (outR, R) [] []"
      by (simp_all add: speaks_def full_chunks_stop len)
    then show ?thesis using less.prems False by (intro exI conjI) auto
  next
    case True
    obtain cS S1 cR R1 m where c: "speaks (next_chunk aes sha256 SOFTSPOKEN_CHUNK_BLOCKS S) ioS (cS, S1) [] m"
      "speaks (next_chunk aes sha256 SOFTSPOKEN_CHUNK_BLOCKS R) ioR (cR, R1) m []" "length cR = SOFTSPOKEN_CHUNK_OTS"
      "list_all2 (rel1 (so_delta S)) cR cS" "active S1 R1" "so_delta S1 = so_delta S"
      using full_chunk_talk [OF less.prems(1,2)] by blast
    have cl: "length cS = SOFTSPOKEN_CHUNK_OTS" using c(3,4) by (simp add: list_all2_lengthD)
    have pos: "0 < SOFTSPOKEN_CHUNK_OTS" by (simp add: SOFTSPOKEN_CHUNK_OTS_def SOFTSPOKEN_CHUNK_BLOCKS_def)
    have shorter: "len - length (outR @ cR) < len - length outR" and fits: "length (outR @ cR) \<le> len" using True c(3) pos by simp_all
    have l: "list_all2 (rel1 (so_delta S1)) (outR @ cR) (outS @ cS)" using less.prems(3) c(4,6) by (simp add: list_all2_appendI)
    obtain oS S2 oR R2 m2 where r: "speaks (full_chunks aes sha256 len (outS @ cS) S1) (io_after [] m ioS) (oS, S2) [] m2"
      "speaks (full_chunks aes sha256 len (outR @ cR) R1) (io_after m [] ioR) (oR, R2) m2 []"
      "list_all2 (rel1 (so_delta S1)) oR oS" "length oR \<le> len" "len < length oR + SOFTSPOKEN_CHUNK_OTS" "active S2 R2" "so_delta S2 = so_delta S1"
      using less.hyps [OF shorter c(5) in_touch_after [OF less.prems(2)] l fits] by blast
    have "speaks (full_chunks aes sha256 len outS S) ioS (oS, S2) ([] @ []) (m @ m2)"
      by (rule speaks_then [OF c(1) r(1)]) (use full_chunks_step True len cl in auto)
    moreover have "speaks (full_chunks aes sha256 len outR R) ioR (oR, R2) (m @ m2) ([] @ [])"
      by (rule speaks_then [OF c(2) r(2)]) (use full_chunks_step True c(3) in auto)
    ultimately show ?thesis using r(3-7) c(6) by (intro exI conjI) (assumption | simp)+
  qed
qed

lemma drain_talk:
  assumes "active S R"
  shows "\<exists>outS S' outR R'. drain_leftover len S = Inr (outS, S') \<and> drain_leftover len R = Inr (outR, R')
    \<and> list_all2 (rel1 (so_delta S)) outR outS \<and> length outR \<le> len \<and> active S' R' \<and> so_delta S' = so_delta S"
proof (cases "so_leftover_count R = 0 \<or> len = 0")
  case True
  then have "drain_leftover len S = Inr ([], S)" "drain_leftover len R = Inr ([], R)"
    using assms by (auto simp: drain_leftover_def active_def paired_def)
  then show ?thesis using assms by (intro exI conjI) (assumption | simp)+
next
  case False
  let ?n = "min len (so_leftover_count R)" and ?p = "so_leftover_pos R"
  have fit: "?p + so_leftover_count R \<le> length (so_leftover R)" and l: "list_all2 (rel1 (so_delta S)) (so_leftover R) (so_leftover S)"
    and eq: "so_leftover_pos S = ?p" "so_leftover_count S = so_leftover_count R"
    using assms False by (auto simp: active_def paired_def)
  have ll: "length (so_leftover S) = length (so_leftover R)" using l by (simp add: list_all2_lengthD)
  have "drain_leftover len S = Inr (take ?n (drop ?p (so_leftover S)), S\<lparr>so_leftover_pos := ?p + ?n, so_leftover_count := so_leftover_count R - ?n\<rparr>)"
    "drain_leftover len R = Inr (take ?n (drop ?p (so_leftover R)), R\<lparr>so_leftover_pos := ?p + ?n, so_leftover_count := so_leftover_count R - ?n\<rparr>)"
    using False fit by (auto simp: drain_leftover_def Let_def eq ll)
  moreover have "list_all2 (rel1 (so_delta S)) (take ?n (drop ?p (so_leftover R))) (take ?n (drop ?p (so_leftover S)))"
    using l by (intro list_all2_takeI list_all2_dropI)
  moreover have "active (S\<lparr>so_leftover_pos := ?p + ?n, so_leftover_count := so_leftover_count R - ?n\<rparr>)
      (R\<lparr>so_leftover_pos := ?p + ?n, so_leftover_count := so_leftover_count R - ?n\<rparr>)"
    using assms fit by (auto simp: active_def paired_def in_step_def trees_agree_def)
  ultimately show ?thesis by (intro exI conjI) (assumption | simp)+
qed

lemma next_n_talk:
  assumes act: "active S R" and touch: "in_touch ioS ioR"
  shows "\<exists>outS S' outR R' m. speaks (next_n aes sha256 len S) ioS (outS, S') [] m \<and> speaks (next_n aes sha256 len R) ioR (outR, R') m []
    \<and> length outR = len \<and> list_all2 (rel1 (so_delta S)) outR outS \<and> active S' R' \<and> so_delta S' = so_delta S"
proof -
  obtain oS S0 oR R0 where d: "drain_leftover len S = Inr (oS, S0)" "drain_leftover len R = Inr (oR, R0)"
    "list_all2 (rel1 (so_delta S)) oR oS" "length oR \<le> len" "active S0 R0" and d0: "so_delta S0 = so_delta S"
    using drain_talk [OF act, of len] by blast
  obtain outS S1 outR R1 m where f: "speaks (full_chunks aes sha256 len oS S0) ioS (outS, S1) [] m"
    "speaks (full_chunks aes sha256 len oR R0) ioR (outR, R1) m []"
    and l: "list_all2 (rel1 (so_delta S)) outR outS" and len: "length outR \<le> len" "len < length outR + SOFTSPOKEN_CHUNK_OTS"
    and act1: "active S1 R1" and d1: "so_delta S1 = so_delta S"
    using full_chunks_talk [OF d(5) touch d(3) [folded d0] d(4), of aes sha256] d0 by metis
  have ll: "length outS = length outR" using l by (simp add: list_all2_lengthD)
  show ?thesis
  proof (cases "length outR < len")
    case False
    have "speaks (next_n aes sha256 len S) ioS (outS, S1) [] m"
      by (rule speaks_map [OF f(1)]) (use d False ll in \<open>simp add: next_n_def soft_err_def\<close>)
    moreover have "speaks (next_n aes sha256 len R) ioR (outR, R1) m []"
      by (rule speaks_map [OF f(2)]) (use d False in \<open>simp add: next_n_def soft_err_def\<close>)
    ultimately show ?thesis using False l len(1) act1 d1 by (intro exI conjI) (assumption | simp)+
  next
    case True
    obtain cS S2 cR R2 m2 where c: "speaks (next_chunk aes sha256 SOFTSPOKEN_CHUNK_BLOCKS S1) (io_after [] m ioS) (cS, S2) [] m2"
      "speaks (next_chunk aes sha256 SOFTSPOKEN_CHUNK_BLOCKS R1) (io_after m [] ioR) (cR, R2) m2 []"
      and cl: "length cR = SOFTSPOKEN_CHUNK_OTS" and cr: "list_all2 (rel1 (so_delta S)) cR cS" and act2: "active S2 R2" and d2: "so_delta S2 = so_delta S"
      using full_chunk_talk [OF act1 in_touch_after [OF touch, of "[]" m]] d1 by metis
    let ?k = "len - length outR"
    have k: "?k < SOFTSPOKEN_CHUNK_OTS" using len True by simp
    have cl': "length cS = SOFTSPOKEN_CHUNK_OTS" using cl cr by (simp add: list_all2_lengthD)
    have "speaks (next_n aes sha256 len S) ioS (outS @ take ?k cS, S2\<lparr>so_leftover := cS, so_leftover_pos := ?k, so_leftover_count := SOFTSPOKEN_CHUNK_OTS - ?k\<rparr>) ([] @ []) (m @ m2)"
      by (rule speaks_then [OF f(1) speaks_map [OF c(1)]]) (use d True ll k cl' in \<open>simp_all add: next_n_def soft_err_def Let_def\<close>)
    moreover have "speaks (next_n aes sha256 len R) ioR (outR @ take ?k cR, R2\<lparr>so_leftover := cR, so_leftover_pos := ?k, so_leftover_count := SOFTSPOKEN_CHUNK_OTS - ?k\<rparr>) (m @ m2) ([] @ [])"
      by (rule speaks_then [OF f(2) speaks_map [OF c(2)]]) (use d True k cl in \<open>simp_all add: next_n_def soft_err_def Let_def\<close>)
    moreover have "active (S2\<lparr>so_leftover := cS, so_leftover_pos := ?k, so_leftover_count := SOFTSPOKEN_CHUNK_OTS - ?k\<rparr>)
        (R2\<lparr>so_leftover := cR, so_leftover_pos := ?k, so_leftover_count := SOFTSPOKEN_CHUNK_OTS - ?k\<rparr>)"
      using act2 cl cr k d2 by (auto simp: active_def paired_def in_step_def trees_agree_def)
    moreover have "list_all2 (rel1 (so_delta S)) (outR @ take ?k cR) (outS @ take ?k cS)" using l cr by (intro list_all2_appendI list_all2_takeI)
    moreover have "length (outR @ take ?k cR) = len" using cl k len by simp
    ultimately show ?thesis using d2 by (intro exI conjI) (assumption | simp)+
  qed
qed

definition csw_ok ::
  "'c p256 \<Rightarrow> ('g::ab_group_add \<Rightarrow> bytes) \<Rightarrow> ('c \<Rightarrow> 'g \<Rightarrow> 'g) \<Rightarrow> 'g \<Rightarrow> (bytes \<Rightarrow> bytes \<Rightarrow> 'g) \<Rightarrow> 'c csw_draws \<Rightarrow> 'c csw_draws \<Rightarrow> bool" where
  \<comment> \<open>the curve, the draws of the sender of correlated OTs and those of its receiver\<close>
  "csw_ok ec enc scal G hp drS drR \<longleftrightarrow> curve_group ec enc scal G hp \<and> length (dr_alphas drS) = 128
     \<and> good_draws scal G (csw_hidden hp (dr_seed drS)) (dr_alphas drS) (dr_scalar drR)"

lemma pprf_talk:
  assumes agree: "trees_agree S R" and sha: "\<And>m. length (sha256 m) = 32"
  shows "\<exists>S' R' m. speaks (pprf_check_recv aes sha256 S) ioS S' [] m \<and> speaks (pprf_check_send aes sha256 R) ioR R' m []
    \<and> trees_agree S' R' \<and> (\<exists>l. S' = S\<lparr>so_leaves_recv := l\<rparr>) \<and> (\<exists>l. R' = R\<lparr>so_leaves_send := l\<rparr>)"
proof -
  define t h where th: "t = t_upto aes (so_leaves_send R) SOFTSPOKEN_N" "h = sha256 (hash_upto aes (so_leaves_send R) SOFTSPOKEN_N)"
  define R' where "R' = R\<lparr>so_leaves_send := map (dm aes 0) (so_leaves_send R)\<rparr>"
  have send: "pprf_check_send_prepare aes sha256 R = ((t, h), R')"
    unfolding th R'_def by (rule pprf_send) (use agree in \<open>simp add: trees_agree_def\<close>)
  obtain l where recv: "pprf_check_recv_verify aes sha256 t h S = (Inr (), S\<lparr>so_leaves_recv := l\<rparr>)" and agree': "trees_agree (S\<lparr>so_leaves_recv := l\<rparr>) R'"
    unfolding th R'_def using pprf_recv [OF agree, of sha256, OF sha] by blast
  have "length t = SOFTSPOKEN_N * 2" by (simp add: th)
  then have r1: "speaks (io_recv_block (SOFTSPOKEN_N * 2)) ioS t [] (slice_as_bytes t)" by (rule speaks_recv_block)
  have "length h = HASH_DIGEST_BYTES" by (simp add: th sha HASH_DIGEST_BYTES_def)
  then have r2: "speaks (io_recv_data HASH_DIGEST_BYTES) io h [] h" for io by (rule speaks_recv)
  have "speaks (pprf_check_recv aes sha256 S) ioS (S\<lparr>so_leaves_recv := l\<rparr>) ([] @ []) (slice_as_bytes t @ h)"
    by (rule speaks_then [OF r1 speaks_map [OF r2]]) (simp_all add: pprf_check_recv_def recv soft_err_def)
  moreover have "speaks (pprf_check_send aes sha256 R) ioR R' (slice_as_bytes t @ h) []"
    by (rule speaks_after) (simp add: pprf_check_send_def send io_send_block_after io_send_after)
  ultimately show ?thesis using agree' by (intro exI conjI) (assumption | simp add: R'_def)+
qed

lemma csw_talk:
  assumes "csw_ok ec enc scal G hp drS drR" "length choices = 128" "length k0 = 128" "length k1 = 128"
  shows "\<exists>mR mS. (\<forall>io. speaks (csw_recv ec sha256 (dr_seed drS) (dr_alphas drS) choices) io (ot_choose choices k0 k1) mR mS)
    \<and> (\<forall>io. speaks (\<lambda>io. bindR (csw_send ec sha256 (dr_scalar drR) k0 k1 io) (\<lambda>io. Inr ((), io))) io () mS mR)"
proof -
  have "curve_group ec enc scal G hp" "good_draws scal G (csw_hidden hp (dr_seed drS)) (dr_alphas drS) (dr_scalar drR)" "length (dr_alphas drS) = 128"
    using assms(1) by (simp_all add: csw_ok_def)
  moreover have "80 \<le> (128 :: nat)" by simp
  ultimately obtain mR mS where
    "(\<forall>io rest. io_in io = mS @ rest \<longrightarrow> csw_recv ec sha256 (dr_seed drS) (dr_alphas drS) choices io = Inr (ot_choose choices k0 k1, io_after mR mS io))
     \<and> (\<forall>io rest. io_in io = mR @ rest \<longrightarrow> csw_send ec sha256 (dr_scalar drR) k0 k1 io = Inr (io_after mS mR io))"
    using csw_run [OF _ _ _ assms(2-4), of ec enc scal G hp "dr_seed drS" "dr_alphas drS" "dr_scalar drR" sha256] by blast
  then have
    r: "\<And>io rest. io_in io = mS @ rest \<Longrightarrow> csw_recv ec sha256 (dr_seed drS) (dr_alphas drS) choices io = Inr (ot_choose choices k0 k1, io_after mR mS io)"
      "\<And>io rest. io_in io = mR @ rest \<Longrightarrow> csw_send ec sha256 (dr_scalar drR) k0 k1 io = Inr (io_after mS mR io)"
    by blast+
  have "speaks (csw_recv ec sha256 (dr_seed drS) (dr_alphas drS) choices) io (ot_choose choices k0 k1) mR mS" for io
    by (rule speaks_after) (simp add: r(1))
  moreover have "speaks (\<lambda>io. bindR (csw_send ec sha256 (dr_scalar drR) k0 k1 io) (\<lambda>io. Inr ((), io))) io () mS mR" for io
    by (rule speaks_after) (simp add: r(2))
  ultimately show ?thesis by blast
qed

lemma enable_once_touch:
  "in_touch a b \<Longrightarrow> enable_once flag (io_after x y a\<lparr>io_in := z\<rparr>) = Inr (io_after x y a\<lparr>io_in := z\<rparr>)"
  "in_touch a b \<Longrightarrow> enable_once flag (io_after x y b\<lparr>io_in := z\<rparr>) = Inr (io_after x y b\<lparr>io_in := z\<rparr>)"
  by (auto simp: enable_once_def in_touch_def fs_enabled_def io_after_def absorb_def)

lemma bootstrap_talk:
  assumes p: "paired S R" and nd: "\<not> so_setup_done S" and touch: "in_touch ioS ioR" and sha: "\<And>m. length (sha256 m) = 32"
    and csw: "csw_ok ec enc scal G hp drS drR"
  shows "\<exists>S' R' mS mR. speaks (bootstrap_send ec aes sha256 drS S) ioS S' mS mR \<and> speaks (bootstrap_recv ec aes sha256 drR R) ioR R' mR mS
    \<and> trees_agree S' R' \<and> (\<exists>a l. S' = S\<lparr>so_alphas := a, so_leaves_recv := l, so_setup_done := True\<rparr>)
    \<and> (\<exists>g l. R' = R\<lparr>so_choice_prg := g, so_leaves_send := l, so_setup_done := True\<rparr>)"
proof -
  have "length (so_alphas S) = SOFTSPOKEN_N" "so_delta_bool S = block_to_bools (so_delta S)" "lsb (so_delta S)" and mal: "so_malicious S" "so_malicious R"
    using p nd by (simp_all add: paired_def)
  from bootstrap_run [OF this(1-3), of aes R] obtain choices k0 k1 S1 R1 S2 where
    b: "bootstrap_send_choices S = (choices, S1)" "bootstrap_recv_keys aes R = Inr ((k0, k1), R1)"
      "bootstrap_send_apply_received aes (ot_choose choices k0 k1) S1 = Inr S2" and len: "length choices = 128" "length k0 = 128" "length k1 = 128"
    and agree: "trees_agree S2 R1" and S2: "\<exists>a l. S2 = S\<lparr>so_alphas := a, so_leaves_recv := l\<rparr>" and R1: "\<exists>g l. R1 = R\<lparr>so_choice_prg := g, so_leaves_send := l\<rparr>"
    by blast
  from csw_talk [OF csw len, of sha256] obtain mS mR where
    ot: "speaks (csw_recv ec sha256 (dr_seed drS) (dr_alphas drS) choices) ioS (ot_choose choices k0 k1) mS mR"
      "speaks (\<lambda>io. bindR (csw_send ec sha256 (dr_scalar drR) k0 k1 io) (\<lambda>io. Inr ((), io))) ioR () mR mS" by blast
  from pprf_talk [OF agree, of sha256, OF sha, of aes "io_after mS mR ioS" "io_after mR mS ioR"] obtain S3 R2 m where
    pp: "speaks (pprf_check_recv aes sha256 S2) (io_after mS mR ioS) S3 [] m" "speaks (pprf_check_send aes sha256 R1) (io_after mR mS ioR) R2 m []"
    and agree': "trees_agree S3 R2" and S3: "\<exists>l. S3 = S2\<lparr>so_leaves_recv := l\<rparr>" and R2: "\<exists>l. R2 = R1\<lparr>so_leaves_send := l\<rparr>" by blast
  have mal': "so_malicious S2" "so_malicious R1" using S2 R1 mal by auto
  have "speaks (bootstrap_send ec aes sha256 drS S) ioS (mark_setup_done S3) (mS @ []) (mR @ m)"
    unfolding speaks_def
  proof
    fix rest
    have 1: "csw_recv ec sha256 (dr_seed drS) (dr_alphas drS) choices (ioS\<lparr>io_in := (mR @ m) @ rest\<rparr>)
        = Inr (ot_choose choices k0 k1, io_after mS mR ioS\<lparr>io_in := m @ rest\<rparr>)" using ot(1) by (simp add: speaks_def)
    have 2: "pprf_check_recv aes sha256 S2 (io_after mS mR ioS\<lparr>io_in := m @ rest\<rparr>) = Inr (S3, io_after mS (mR @ m) ioS\<lparr>io_in := rest\<rparr>)"
      using pp(1) by (simp add: speaks_def)
    show "bootstrap_send ec aes sha256 drS S (ioS\<lparr>io_in := (mR @ m) @ rest\<rparr>) = Inr (mark_setup_done S3, io_after (mS @ []) (mR @ m) ioS\<lparr>io_in := rest\<rparr>)"
      unfolding bootstrap_send_def b(1) Let_def prod.case 1 bindR_simps using mal'(1) enable_once_touch(1) [OF touch]
      by (simp add: b(3) soft_err_def 2)
  qed
  moreover have "speaks (bootstrap_recv ec aes sha256 drR R) ioR (mark_setup_done R2) (mR @ m) (mS @ [])"
    unfolding speaks_def
  proof
    fix rest
    have 1: "csw_send ec sha256 (dr_scalar drR) k0 k1 (ioR\<lparr>io_in := mS @ rest\<rparr>) = Inr (io_after mR mS ioR\<lparr>io_in := rest\<rparr>)"
      using ot(2) by (auto simp: speaks_def bindR_eq_Inr)
    have 2: "pprf_check_send aes sha256 R1 (io_after mR mS ioR\<lparr>io_in := rest\<rparr>) = Inr (R2, io_after (mR @ m) mS ioR\<lparr>io_in := rest\<rparr>)"
      using pp(2) [unfolded speaks_def] by simp
    show "bootstrap_recv ec aes sha256 drR R (ioR\<lparr>io_in := (mS @ []) @ rest\<rparr>) = Inr (mark_setup_done R2, io_after (mR @ m) (mS @ []) ioR\<lparr>io_in := rest\<rparr>)"
      unfolding bootstrap_recv_def using mal'(2) enable_once_touch(2) [OF touch]
      by (simp add: b(2) soft_err_def 1 2)
  qed
  moreover have "trees_agree (mark_setup_done S3) (mark_setup_done R2)" using agree' by (simp add: trees_agree_def mark_setup_done_def)
  moreover have "mark_setup_done S3 = S\<lparr>so_alphas := so_alphas S3, so_leaves_recv := so_leaves_recv S3, so_setup_done := True\<rparr>"
    using S2 S3 by (auto simp: mark_setup_done_def)
  moreover have "mark_setup_done R2 = R\<lparr>so_choice_prg := so_choice_prg R2, so_leaves_send := so_leaves_send R2, so_setup_done := True\<rparr>"
    using R1 R2 by (auto simp: mark_setup_done_def)
  ultimately show ?thesis by blast
qed

lemma begin_active:
  assumes p: "paired S R" and agree: "trees_agree S R" and sd: "so_setup_done S"
  shows "active (begin_send_session S) (begin_recv_session R)"
  using assms by (auto simp: active_def paired_def in_step_def trees_agree_def begin_send_session_def begin_recv_session_def Let_def)

lemma begin_talk:
  assumes p: "paired S R" and touch: "in_touch ioS ioR" and sha: "\<And>m. length (sha256 m) = 32"
    and csw: "csw_ok ec enc scal G hp drS drR"
  shows "\<exists>S' R' mS mR. speaks (soft4_begin ec aes sha256 drS S) ioS S' mS mR \<and> speaks (soft4_begin ec aes sha256 drR R) ioR R' mR mS
    \<and> active S' R' \<and> so_delta S' = so_delta S"
proof -
  let ?S = "reset_leftover S" and ?R = "reset_leftover R"
  have p0: "paired ?S ?R" using p by (auto simp: paired_def reset_leftover_def trees_agree_def)
  have roles: "so_role ?S = Alice" "so_role ?R = Bob" "so_setup_done ?R = so_setup_done ?S" using p0 by (simp_all add: paired_def)
  have d: "so_delta ?S = so_delta S" by (simp add: reset_leftover_def)
  show ?thesis
  proof (cases "so_setup_done ?S")
    case True
    have "trees_agree ?S ?R" using p0 True by (simp add: paired_def)
    then have "active (begin_send_session ?S) (begin_recv_session ?R)" by (rule begin_active [OF p0 _ True])
    moreover have "speaks (soft4_begin ec aes sha256 drS S) ioS (begin_send_session ?S) [] []" "speaks (soft4_begin ec aes sha256 drR R) ioR (begin_recv_session ?R) [] []"
      using roles True by (simp_all add: speaks_def soft4_begin_def Let_def)
    moreover have "so_delta (begin_send_session ?S) = so_delta S" by (simp add: begin_send_session_def Let_def d)
    ultimately show ?thesis by blast
  next
    case False
    from bootstrap_talk [OF p0 False touch, of sha256, OF sha csw, of aes] obtain S' R' mS mR where
      b: "speaks (bootstrap_send ec aes sha256 drS ?S) ioS S' mS mR" "speaks (bootstrap_recv ec aes sha256 drR ?R) ioR R' mR mS"
      and agree: "trees_agree S' R'" and S': "\<exists>a l. S' = ?S\<lparr>so_alphas := a, so_leaves_recv := l, so_setup_done := True\<rparr>"
      and R': "\<exists>g l. R' = ?R\<lparr>so_choice_prg := g, so_leaves_send := l, so_setup_done := True\<rparr>" by blast
    have "paired S' R'" "so_setup_done S'" "so_delta S' = so_delta S" using p0 agree S' R' d by (auto simp: paired_def)
    then have "active (begin_send_session S') (begin_recv_session R')" "so_delta (begin_send_session S') = so_delta S"
      using begin_active agree by (simp_all add: begin_send_session_def Let_def)
    moreover have "speaks (soft4_begin ec aes sha256 drS S) ioS (begin_send_session S') mS mR"
      by (rule speaks_map [OF b(1)]) (use roles False in \<open>simp add: soft4_begin_def Let_def\<close>)
    moreover have "speaks (soft4_begin ec aes sha256 drR R) ioR (begin_recv_session R') mR mS"
      by (rule speaks_map [OF b(2)]) (use roles False in \<open>simp add: soft4_begin_def Let_def\<close>)
    ultimately show ?thesis by blast
  qed
qed

lemma end_talk:
  assumes act: "active S R" and touch: "in_touch ioS ioR"
  shows "\<exists>S' R' m. speaks (soft4_end aes sha256 S) ioS S' [] m \<and> speaks (soft4_end aes sha256 R) ioR R' m []
    \<and> paired S' R' \<and> so_delta S' = so_delta S"
proof -
  have roles: "so_role S = Alice" "so_role R = Bob" "so_malicious S" "so_malicious R" using act by (simp_all add: active_def paired_def)
  from chunk_talk [OF act touch, of 1 aes sha256] obtain oS S' oR R' m where
    c: "speaks (next_chunk aes sha256 1 S) ioS (oS, S') [] m" "speaks (next_chunk aes sha256 1 R) ioR (oR, R') m []"
    and act': "active S' R'" and d: "so_delta S' = so_delta S" by auto
  have cs: "speaks (send_chunk_pipeline aes sha256 1 S) ioS (oS, S') [] m" "speaks (recv_chunk_pipeline aes sha256 1 R) ioR (oR, R') m []"
    using c roles by (simp_all add: next_chunk_def)
  obtain x t where xt: "recv_check_blocks R' = (x, t)" by (cases "recv_check_blocks R'")
  have ok: "verify_send_check x t S' = Inr ()" using check_accepts [of S' R'] act' xt by (simp add: active_def)
  have rx: "speaks (io_recv_block 1) io [b] [] (slice_as_bytes [b])" for io b by (rule speaks_recv_block) simp
  have "speaks (soft4_end aes sha256 S) ioS S' ([] @ [] @ []) (m @ slice_as_bytes [x] @ slice_as_bytes [t])"
    by (rule speaks_then [OF cs(1) speaks_then [OF rx speaks_map [OF rx]]])
      (use roles ok in \<open>simp_all add: soft4_end_def send_end_def soft_err_def\<close>)
  moreover have "speaks (soft4_end aes sha256 R) ioR R' (m @ slice_as_bytes [x] @ slice_as_bytes [t]) ([] @ [])"
    by (rule speaks_then [OF cs(2) speaks_after [where f = "\<lambda>io. Inr (R', io_send_block [t] (io_send_block [x] io))"]])
      (use roles xt in \<open>simp_all add: soft4_end_def recv_end_def io_send_block_after\<close>)
  ultimately show ?thesis using act' d by (intro exI conjI) (assumption | simp add: active_def)+
qed

end
