(* ===== verification/Ot_Pool.thy ===== *)
theory Ot_Pool
  imports Ot_Extension_Correct
begin

text \<open>
  The two OT extensions of a pool over their streams. \<open>speaks2\<close> is \<open>speaks\<close> for the pair of streams; \<open>talks\<close>
  relates the operation of a sender to that of its receiver, and \<open>abits_talk\<close> lifts it to both directions. The property
  is about whole sessions: set-up, any script of draws and flushes, end. Its witness runs over the group
  of 64-bit words.
\<close>

unbundle bit_operations_syntax

section \<open>Both directions at once\<close>

definition streams_after :: "bytes \<times> bytes \<Rightarrow> bytes \<times> bytes \<Rightarrow> ag2pc_streams \<Rightarrow> ag2pc_streams" where
  \<comment> \<open>the pairs are for \<open>main\<close> and for \<open>sibling\<close>\<close>
  "streams_after out inp st = \<lparr>st_main = io_after (fst out) (fst inp) (st_main st), st_sibling = io_after (snd out) (snd inp) (st_sibling st)\<rparr>"

definition arriving :: "bytes \<Rightarrow> bytes \<Rightarrow> ag2pc_streams \<Rightarrow> ag2pc_streams" where
  "arriving m s st = \<lparr>st_main = st_main st\<lparr>io_in := m\<rparr>, st_sibling = st_sibling st\<lparr>io_in := s\<rparr>\<rparr>"

definition speaks2 :: "(ag2pc_streams \<Rightarrow> compat_error + 'a \<times> ag2pc_streams) \<Rightarrow> ag2pc_streams \<Rightarrow> 'a \<Rightarrow> bytes \<times> bytes \<Rightarrow> bytes \<times> bytes \<Rightarrow> bool" where
  "speaks2 f st a out inp \<longleftrightarrow>
     (\<forall>m s. f (arriving (fst inp @ m) (snd inp @ s) st) = Inr (a, arriving m s (streams_after out inp st)))"

definition both_app :: "bytes \<times> bytes \<Rightarrow> bytes \<times> bytes \<Rightarrow> bytes \<times> bytes" where
  "both_app x y = (fst x @ fst y, snd x @ snd y)"

lemma streams_after_after: "streams_after o2 i2 (streams_after o1 i1 st) = streams_after (both_app o1 o2) (both_app i1 i2) st"
  by (simp add: streams_after_def both_app_def)

lemma speaks2_then:
  assumes "speaks2 f st a o1 i1" "speaks2 g (streams_after o1 i1 st) b o2 i2" "\<And>st st'. f st = Inr (a, st') \<Longrightarrow> h st = g st'"
  shows "speaks2 h st b (both_app o1 o2) (both_app i1 i2)"
  using assms by (simp add: speaks2_def streams_after_after) (simp add: both_app_def)

lemma speaks2_map:
  assumes "speaks2 f st a o1 i1" "\<And>st st'. f st = Inr (a, st') \<Longrightarrow> h st = Inr (b, st')"
  shows "speaks2 h st b o1 i1"
  using assms by (simp add: speaks2_def)

definition in_touch2 :: "ag2pc_streams \<Rightarrow> ag2pc_streams \<Rightarrow> bool" where
  "in_touch2 stA stB \<longleftrightarrow> in_touch (st_main stA) (st_main stB) \<and> in_touch (st_sibling stA) (st_sibling stB)"

lemma in_touch2_after: "in_touch2 stA stB \<Longrightarrow> in_touch2 (streams_after x y stA) (streams_after y x stB)"
  by (simp add: in_touch2_def streams_after_def in_touch_after)

lemma in_touch_sym: "in_touch a b \<Longrightarrow> in_touch b a"
  by (auto simp: in_touch_def)

definition pools_in :: "(softspoken \<Rightarrow> softspoken \<Rightarrow> bool) \<Rightarrow> block \<Rightarrow> block \<Rightarrow> ot_pool \<Rightarrow> ot_pool \<Rightarrow> bool" where
  "pools_in Q dA dB A B \<longleftrightarrow> tp_party A = Alice \<and> tp_party B = Bob \<and> Q (abit1 A) (abit2 B) \<and> Q (abit1 B) (abit2 A)
     \<and> so_delta (abit1 A) = dA \<and> so_delta (abit1 B) = dB \<and> cots_minted_since_check A = cots_minted_since_check B"

definition talks :: "(softspoken \<Rightarrow> softspoken \<Rightarrow> bool) \<Rightarrow> (block \<Rightarrow> 'a \<Rightarrow> 'a \<Rightarrow> bool) \<Rightarrow> (softspoken \<Rightarrow> softspoken \<Rightarrow> bool)
   \<Rightarrow> (softspoken \<Rightarrow> ot_io \<Rightarrow> compat_error + ('a \<times> softspoken) \<times> ot_io) \<Rightarrow> (softspoken \<Rightarrow> ot_io \<Rightarrow> compat_error + ('a \<times> softspoken) \<times> ot_io) \<Rightarrow> bool" where
  \<comment> \<open>the sender's and the receiver's operation succeed together from \<open>Q\<close>, with results in \<open>P\<close> and states in \<open>Q'\<close>\<close>
  "talks Q P Q' f g \<longleftrightarrow> (\<forall>S R ioS ioR. Q S R \<longrightarrow> in_touch ioS ioR \<longrightarrow>
     (\<exists>a S' b R' mS mR. speaks (f S) ioS (a, S') mS mR \<and> speaks (g R) ioR (b, R') mR mS
        \<and> P (so_delta S) b a \<and> Q' S' R' \<and> so_delta S' = so_delta S))"

lemma talksE:
  assumes "talks Q P Q' f g" "Q S R" "in_touch ioS ioR"
  obtains a S' b R' mS mR where "speaks (f S) ioS (a, S') mS mR" "speaks (g R) ioR (b, R') mR mS"
    "P (so_delta S) b a" "Q' S' R'" "so_delta S' = so_delta S"
  using assms unfolding talks_def by blast

lemma on_abits_speaks:
  assumes "speaks (f1 (abit1 P)) (st_sibling st) (a, s1) o1 i1" "speaks (f2 (abit2 P)) (st_main st) (b, s2) o2 i2" "tp_party P = Alice"
  shows "speaks2 (on_abits f1 f2 P) st ((a, b), P\<lparr>abit1 := s1, abit2 := s2\<rparr>) (o2, o1) (i2, i1)"
  using assms by (simp add: speaks_def speaks2_def on_abits_def arriving_def streams_after_def)

lemma on_abits_speaks_bob:
  assumes "speaks (f1 (abit1 P)) (st_main st) (a, s1) o1 i1" "speaks (f2 (abit2 P)) (st_sibling st) (b, s2) o2 i2" "tp_party P = Bob"
  shows "speaks2 (on_abits f1 f2 P) st ((a, b), P\<lparr>abit1 := s1, abit2 := s2\<rparr>) (o1, o2) (i1, i2)"
  using assms by (simp add: speaks_def speaks2_def on_abits_def arriving_def streams_after_def)

lemma abits_talk:
  assumes "talks Q P Q' f1A f2B" "talks Q P Q' f1B f2A" and pools: "pools_in Q dA dB A B" and touch: "in_touch2 stA stB"
  shows "\<exists>kA mA kB mB A' B' xA xB. speaks2 (on_abits f1A f2A A) stA ((kA, mA), A') xA xB \<and> speaks2 (on_abits f1B f2B B) stB ((kB, mB), B') xB xA
    \<and> P dA mB kA \<and> P dB mA kB \<and> pools_in Q' dA dB A' B' \<and> cots_minted_since_check A' = cots_minted_since_check A"
proof -
  have p: "tp_party A = Alice" "tp_party B = Bob" "Q (abit1 A) (abit2 B)" "Q (abit1 B) (abit2 A)" "so_delta (abit1 A) = dA" "so_delta (abit1 B) = dB"
    "cots_minted_since_check A = cots_minted_since_check B" using pools by (simp_all add: pools_in_def)
  have t: "in_touch (st_sibling stA) (st_sibling stB)" "in_touch (st_main stB) (st_main stA)"
    using touch in_touch_sym by (simp_all add: in_touch2_def)
  obtain kA S1 mB R1 s1 s2 where one: "speaks (f1A (abit1 A)) (st_sibling stA) (kA, S1) s1 s2" "speaks (f2B (abit2 B)) (st_sibling stB) (mB, R1) s2 s1"
    "P (so_delta (abit1 A)) mB kA" "Q' S1 R1" "so_delta S1 = so_delta (abit1 A)"
    by (rule talksE [OF assms(1) p(3) t(1)])
  obtain kB S2 mA R2 m1 m2 where two: "speaks (f1B (abit1 B)) (st_main stB) (kB, S2) m1 m2" "speaks (f2A (abit2 A)) (st_main stA) (mA, R2) m2 m1"
    "P (so_delta (abit1 B)) mA kB" "Q' S2 R2" "so_delta S2 = so_delta (abit1 B)"
    by (rule talksE [OF assms(2) p(4) t(2)])
  have "speaks2 (on_abits f1A f2A A) stA ((kA, mA), A\<lparr>abit1 := S1, abit2 := R2\<rparr>) (m2, s1) (m1, s2)"
    by (rule on_abits_speaks [of f1A A stA kA S1 s1 s2 f2A, OF one(1) two(2)]) (use p in simp)
  moreover have "speaks2 (on_abits f1B f2B B) stB ((kB, mB), B\<lparr>abit1 := S2, abit2 := R1\<rparr>) (m1, s2) (m2, s1)"
    by (rule on_abits_speaks_bob [of f1B B stB kB S2 m1 m2 f2B, OF two(1) one(2)]) (use p in simp)
  moreover have "pools_in Q' dA dB (A\<lparr>abit1 := S1, abit2 := R2\<rparr>) (B\<lparr>abit1 := S2, abit2 := R1\<rparr>)"
    using p one two by (simp add: pools_in_def)
  moreover have "P dA mB kA" "P dB mA kB" using one(3) two(3) p by simp_all
  ultimately show ?thesis by (intro exI conjI) (assumption | simp)+
qed

lemma next_n_talks: "talks active (\<lambda>d b a. length b = n \<and> list_all2 (rel1 d) b a) active (next_n aes sha256 n) (next_n aes sha256 n)"
  unfolding talks_def using next_n_talk by (metis (no_types, lifting))

lemma no_result_speaks: "speaks (f s) io s' x y \<Longrightarrow> speaks (no_result f s) io ((), s') x y"
  by (erule speaks_map) (simp add: no_result_def)

lemma begin_talks:
  assumes "\<And>m. length (sha256 m) = 32" "csw_ok ec enc scal G hp drS drR"
  shows "talks paired (\<lambda>_ _ _. True) active (no_result (soft4_begin ec aes sha256 drS)) (no_result (soft4_begin ec aes sha256 drR))"
  unfolding talks_def
proof (intro allI impI)
  fix S R ioS ioR assume "paired S R" "in_touch ioS ioR"
  from begin_talk [OF this, of sha256, OF assms(1) assms(2), of aes] obtain S' R' mS mR where
    "speaks (soft4_begin ec aes sha256 drS S) ioS S' mS mR" "speaks (soft4_begin ec aes sha256 drR R) ioR R' mR mS"
    "active S' R'" "so_delta S' = so_delta S" by blast
  then show "\<exists>a S' b R' mS mR. speaks (no_result (soft4_begin ec aes sha256 drS) S) ioS (a, S') mS mR
      \<and> speaks (no_result (soft4_begin ec aes sha256 drR) R) ioR (b, R') mR mS \<and> True \<and> active S' R' \<and> so_delta S' = so_delta S"
    using no_result_speaks by blast
qed

lemma end_talks: "talks active (\<lambda>_ _ _. True) paired (no_result (soft4_end aes sha256)) (no_result (soft4_end aes sha256))"
  unfolding talks_def
proof (intro allI impI)
  fix S R ioS ioR assume "active S R" "in_touch ioS ioR"
  from end_talk [OF this, of aes sha256] obtain S' R' m where
    "speaks (soft4_end aes sha256 S) ioS S' [] m" "speaks (soft4_end aes sha256 R) ioR R' m []" "paired S' R'" "so_delta S' = so_delta S" by blast
  then show "\<exists>a S' b R' mS mR. speaks (no_result (soft4_end aes sha256) S) ioS (a, S') mS mR
      \<and> speaks (no_result (soft4_end aes sha256) R) ioR (b, R') mR mS \<and> True \<and> paired S' R' \<and> so_delta S' = so_delta S"
    using no_result_speaks by blast
qed

section \<open>Scripts of a pool\<close>

datatype pool_op = PDraw nat | PFlush | PMaybeFlush

fun run_pool ::
  "'c p256 \<Rightarrow> (block \<Rightarrow> block \<Rightarrow> block) \<Rightarrow> (bytes \<Rightarrow> bytes) \<Rightarrow> 'c pool_draws \<Rightarrow> pool_op list \<Rightarrow> ot_pool \<Rightarrow> ag2pc_streams
   \<Rightarrow> compat_error + (ashare_bundle list list \<times> ot_pool) \<times> ag2pc_streams" where
  \<comment> \<open>what a user of the pool does between its set-up and its end; the shares of each draw\<close>
  "run_pool ec aes sha256 dr [] pool st = Inr (([], pool), st)"
| "run_pool ec aes sha256 dr (PDraw n # ops) pool st =
     bindR (pool_draw aes sha256 n pool st) (\<lambda>((xs, pool), st).
     bindR (run_pool ec aes sha256 dr ops pool st) (\<lambda>((xss, pool), st). Inr ((xs # xss, pool), st)))"
| "run_pool ec aes sha256 dr (PFlush # ops) pool st =
     bindR (pool_flush ec aes sha256 (dr_csw1 dr) (dr_csw2 dr) pool st) (\<lambda>(pool, st). run_pool ec aes sha256 dr ops pool st)"
| "run_pool ec aes sha256 dr (PMaybeFlush # ops) pool st =
     bindR (pool_maybe_flush ec aes sha256 (dr_csw1 dr) (dr_csw2 dr) pool st) (\<lambda>(pool, st). run_pool ec aes sha256 dr ops pool st)"

definition pool_session ::
  "'c p256 \<Rightarrow> (block \<Rightarrow> block \<Rightarrow> block) \<Rightarrow> (bytes \<Rightarrow> bytes) \<Rightarrow> 'c pool_draws \<Rightarrow> role \<Rightarrow> nat \<Rightarrow> block \<Rightarrow> pool_op list \<Rightarrow> ag2pc_streams
   \<Rightarrow> compat_error + ashare_bundle list list \<times> ag2pc_streams" where
  "pool_session ec aes sha256 dr party ssp delta ops st =
     bindR (setup_with_delta ec aes sha256 dr party ssp delta st) (\<lambda>(pool, st).
     bindR (run_pool ec aes sha256 dr ops pool st) (\<lambda>((xss, pool), st).
     bindR (pool_end aes sha256 pool st) (\<lambda>(pool, st). Inr (xss, st))))"

fun draw_counts :: "pool_op list \<Rightarrow> nat list" where
  "draw_counts [] = []"
| "draw_counts (PDraw n # ops) = n # draw_counts ops"
| "draw_counts (op # ops) = draw_counts ops"

definition pool_draws_ok ::
  "'c p256 \<Rightarrow> ('g::ab_group_add \<Rightarrow> bytes) \<Rightarrow> ('c \<Rightarrow> 'g \<Rightarrow> 'g) \<Rightarrow> 'g \<Rightarrow> (bytes \<Rightarrow> bytes \<Rightarrow> 'g) \<Rightarrow> 'c pool_draws \<Rightarrow> 'c pool_draws \<Rightarrow> bool" where
  \<comment> \<open>each side sends correlated OTs with its first draws and receives with its second\<close>
  "pool_draws_ok ec enc scal G hp drA drB \<longleftrightarrow>
     csw_ok ec enc scal G hp (dr_csw1 drA) (dr_csw2 drB) \<and> csw_ok ec enc scal G hp (dr_csw1 drB) (dr_csw2 drA)"

definition draw_ok :: "nat \<Rightarrow> block \<Rightarrow> block \<Rightarrow> ashare_bundle list \<Rightarrow> ashare_bundle list \<Rightarrow> bool" where
  "draw_ok n dA dB xs ys \<longleftrightarrow> length xs = n \<and> verify_share_relation xs dA ys dB"

lemma pools_in_mark [simp]:
  "pools_in Q dA dB (mark_cots_minted A) (mark_cots_minted B) = (tp_party A = Alice \<and> tp_party B = Bob \<and> Q (abit1 A) (abit2 B)
     \<and> Q (abit1 B) (abit2 A) \<and> so_delta (abit1 A) = dA \<and> so_delta (abit1 B) = dB)"
  "pools_in Q dA dB (mark_cot_check_flushed A) (mark_cot_check_flushed B) = (tp_party A = Alice \<and> tp_party B = Bob \<and> Q (abit1 A) (abit2 B)
     \<and> Q (abit1 B) (abit2 A) \<and> so_delta (abit1 A) = dA \<and> so_delta (abit1 B) = dB)"
  by (simp_all add: pools_in_def mark_cots_minted_def mark_cot_check_flushed_def)

lemma pools_in_marks:
  assumes "pools_in Q dA dB A B"
  shows "pools_in Q dA dB (mark_cots_minted A) (mark_cots_minted B)" "pools_in Q dA dB (mark_cot_check_flushed A) (mark_cot_check_flushed B)"
  using assms unfolding pools_in_mark by (simp_all add: pools_in_def)

lemma draw_talk:
  assumes "pools_in active dA dB A B" "in_touch2 stA stB"
  shows "\<exists>xs A' ys B' oA oB. speaks2 (pool_draw aes sha256 n A) stA (xs, A') oA oB \<and> speaks2 (pool_draw aes sha256 n B) stB (ys, B') oB oA
    \<and> draw_ok n dA dB xs ys \<and> pools_in active dA dB A' B'"
proof -
  obtain kA mA kB mB A' B' oA oB where r:
    "speaks2 (on_abits (next_n aes sha256 n) (next_n aes sha256 n) (mark_cots_minted A)) stA ((kA, mA), A') oA oB"
    "speaks2 (on_abits (next_n aes sha256 n) (next_n aes sha256 n) (mark_cots_minted B)) stB ((kB, mB), B') oB oA"
    "length mB = n \<and> list_all2 (rel1 dA) mB kA" "length mA = n \<and> list_all2 (rel1 dB) mA kB" "pools_in active dA dB A' B'"
    using abits_talk [OF next_n_talks [of n aes sha256] next_n_talks [of n aes sha256] pools_in_marks(1) [OF assms(1)] assms(2)] by blast
  let ?sh = "map2 (\<lambda>m k. \<lparr>as_mac = m, as_key = k\<rparr>)"
  have "speaks2 (pool_draw aes sha256 n A) stA (?sh mA kA, A') oA oB" "speaks2 (pool_draw aes sha256 n B) stB (?sh mB kB, B') oB oA"
    by (rule speaks2_map [OF r(1)], simp add: pool_draw_def gen_cot_shares_def, rule speaks2_map [OF r(2)], simp add: pool_draw_def gen_cot_shares_def)
  moreover have "draw_ok n dA dB (?sh mA kA) (?sh mB kB)"
    using r(3,4) by (auto simp: draw_ok_def verify_share_relation_vec rel_vec_def rel2_def list_all2_conv_all_nth)
  ultimately show ?thesis using r(5) by blast
qed

lemma begin_abits_talk:
  assumes "pools_in paired dA dB A B" "in_touch2 stA stB" and sha: "\<And>m. length (sha256 m) = 32"
    and dr: "pool_draws_ok ec enc scal G hp drA drB"
  shows "\<exists>A' B' oA oB. speaks2 (begin_abits ec aes sha256 (dr_csw1 drA) (dr_csw2 drA) A) stA A' oA oB
    \<and> speaks2 (begin_abits ec aes sha256 (dr_csw1 drB) (dr_csw2 drB) B) stB B' oB oA \<and> pools_in active dA dB A' B'"
proof -
  note t = begin_talks [of sha256, OF sha, where aes = aes]
  have dr': "csw_ok ec enc scal G hp (dr_csw1 drA) (dr_csw2 drB)" "csw_ok ec enc scal G hp (dr_csw1 drB) (dr_csw2 drA)"
    using dr by (simp_all add: pool_draws_ok_def)
  obtain kA mA kB mB A' B' oA oB where r:
    "speaks2 (on_abits (no_result (soft4_begin ec aes sha256 (dr_csw1 drA))) (no_result (soft4_begin ec aes sha256 (dr_csw2 drA))) A) stA ((kA, mA), A') oA oB"
    "speaks2 (on_abits (no_result (soft4_begin ec aes sha256 (dr_csw1 drB))) (no_result (soft4_begin ec aes sha256 (dr_csw2 drB))) B) stB ((kB, mB), B') oB oA"
    "pools_in active dA dB A' B'"
    using abits_talk [OF t [OF dr'(1)] t [OF dr'(2)] assms(1,2)] by blast
  have "speaks2 (begin_abits ec aes sha256 (dr_csw1 drA) (dr_csw2 drA) A) stA A' oA oB"
    "speaks2 (begin_abits ec aes sha256 (dr_csw1 drB) (dr_csw2 drB) B) stB B' oB oA"
    by (rule speaks2_map [OF r(1)], simp add: begin_abits_def, rule speaks2_map [OF r(2)], simp add: begin_abits_def)
  then show ?thesis using r(3) by blast
qed

lemma end_abits_talk:
  assumes "pools_in active dA dB A B" "in_touch2 stA stB"
  shows "\<exists>A' B' oA oB. speaks2 (pool_end aes sha256 A) stA A' oA oB \<and> speaks2 (pool_end aes sha256 B) stB B' oB oA \<and> pools_in paired dA dB A' B'"
proof -
  obtain kA mA kB mB A' B' oA oB where r:
    "speaks2 (on_abits (no_result (soft4_end aes sha256)) (no_result (soft4_end aes sha256)) (mark_cot_check_flushed A)) stA ((kA, mA), A') oA oB"
    "speaks2 (on_abits (no_result (soft4_end aes sha256)) (no_result (soft4_end aes sha256)) (mark_cot_check_flushed B)) stB ((kB, mB), B') oB oA"
    "pools_in paired dA dB A' B'"
    using abits_talk [OF end_talks [of aes sha256] end_talks [of aes sha256] pools_in_marks(2) [OF assms(1)] assms(2)] by blast
  have "speaks2 (pool_end aes sha256 A) stA A' oA oB" "speaks2 (pool_end aes sha256 B) stB B' oB oA"
    by (rule speaks2_map [OF r(1)], simp add: pool_end_def end_abits_def, rule speaks2_map [OF r(2)], simp add: pool_end_def end_abits_def)
  then show ?thesis using r(3) by blast
qed

lemma flush_talk:
  assumes "pools_in active dA dB A B" "in_touch2 stA stB" and sha: "\<And>m. length (sha256 m) = 32"
    and dr: "pool_draws_ok ec enc scal G hp drA drB"
  shows "\<exists>A' B' oA oB. speaks2 (pool_flush ec aes sha256 (dr_csw1 drA) (dr_csw2 drA) A) stA A' oA oB
    \<and> speaks2 (pool_flush ec aes sha256 (dr_csw1 drB) (dr_csw2 drB) B) stB B' oB oA \<and> pools_in active dA dB A' B'"
proof -
  obtain A1 B1 oA oB where e: "speaks2 (pool_end aes sha256 A) stA A1 oA oB" "speaks2 (pool_end aes sha256 B) stB B1 oB oA" "pools_in paired dA dB A1 B1"
    using end_abits_talk [OF assms(1,2)] by blast
  obtain A2 B2 pA pB where b: "speaks2 (begin_abits ec aes sha256 (dr_csw1 drA) (dr_csw2 drA) A1) (streams_after oA oB stA) A2 pA pB"
    "speaks2 (begin_abits ec aes sha256 (dr_csw1 drB) (dr_csw2 drB) B1) (streams_after oB oA stB) B2 pB pA" "pools_in active dA dB A2 B2"
    using begin_abits_talk [OF e(3) in_touch2_after [OF assms(2), of oA oB], of sha256, OF sha dr, of aes] by blast
  have "speaks2 (pool_flush ec aes sha256 (dr_csw1 drA) (dr_csw2 drA) A) stA A2 (both_app oA pA) (both_app oB pB)"
    by (rule speaks2_then [OF e(1) b(1)]) (simp add: pool_flush_def pool_end_def)
  moreover have "speaks2 (pool_flush ec aes sha256 (dr_csw1 drB) (dr_csw2 drB) B) stB B2 (both_app oB pB) (both_app oA pA)"
    by (rule speaks2_then [OF e(2) b(2)]) (simp add: pool_flush_def pool_end_def)
  ultimately show ?thesis using b(3) by blast
qed

lemma maybe_flush_talk:
  assumes "pools_in active dA dB A B" "in_touch2 stA stB" and sha: "\<And>m. length (sha256 m) = 32"
    and dr: "pool_draws_ok ec enc scal G hp drA drB"
  shows "\<exists>A' B' oA oB. speaks2 (pool_maybe_flush ec aes sha256 (dr_csw1 drA) (dr_csw2 drA) A) stA A' oA oB
    \<and> speaks2 (pool_maybe_flush ec aes sha256 (dr_csw1 drB) (dr_csw2 drB) B) stB B' oB oA \<and> pools_in active dA dB A' B'"
proof (cases "cots_minted_since_check A")
  case True
  then have "pool_maybe_flush ec aes sha256 d1 d2 A = pool_flush ec aes sha256 d1 d2 A" "pool_maybe_flush ec aes sha256 d1 d2 B = pool_flush ec aes sha256 d1 d2 B" for d1 d2
    using assms(1) by (intro ext; simp add: pool_maybe_flush_def should_flush_cot_check_def pools_in_def)+
  then show ?thesis using flush_talk [OF assms(1,2), of sha256, OF sha dr, of aes] by (simp only:)
next
  case False
  then have "speaks2 (pool_maybe_flush ec aes sha256 (dr_csw1 drA) (dr_csw2 drA) A) stA A ([], []) ([], [])"
    "speaks2 (pool_maybe_flush ec aes sha256 (dr_csw1 drB) (dr_csw2 drB) B) stB B ([], []) ([], [])"
    using assms(1) by (simp_all add: pool_maybe_flush_def should_flush_cot_check_def pools_in_def speaks2_def streams_after_def arriving_def)
  then show ?thesis using assms(1) by blast
qed

lemma run_talk:
  fixes ec :: "'c p256" and drA drB :: "'c pool_draws"
  assumes "pools_in active dA dB A B" "in_touch2 stA stB" and sha: "\<And>m. length (sha256 m) = 32"
    and dr: "pool_draws_ok ec enc scal G hp drA drB"
  shows "\<exists>xss A' yss B' oA oB. speaks2 (run_pool ec aes sha256 drA ops A) stA (xss, A') oA oB
    \<and> speaks2 (run_pool ec aes sha256 drB ops B) stB (yss, B') oB oA \<and> pools_in active dA dB A' B'
    \<and> map length xss = draw_counts ops \<and> list_all2 (\<lambda>xs ys. verify_share_relation xs dA ys dB) xss yss"
  using assms(1,2)
proof (induction ops arbitrary: A B stA stB)
  case Nil
  have "speaks2 (run_pool ec aes sha256 drA [] A) stA ([], A) ([], []) ([], [])" "speaks2 (run_pool ec aes sha256 drB [] B) stB ([], B) ([], []) ([], [])"
    by (simp_all add: speaks2_def streams_after_def arriving_def)
  then show ?case using Nil by (intro exI conjI) (assumption | simp)+
next
  case (Cons op ops)
  show ?case
  proof (cases "\<exists>n. op = PDraw n")
    case True
    then obtain n where PDraw: "op = PDraw n" by blast
    obtain xs A1 ys B1 oA oB where d: "speaks2 (pool_draw aes sha256 n A) stA (xs, A1) oA oB" "speaks2 (pool_draw aes sha256 n B) stB (ys, B1) oB oA"
      "draw_ok n dA dB xs ys" "pools_in active dA dB A1 B1" using draw_talk [OF Cons.prems] by blast
    obtain xss A2 yss B2 pA pB where r: "speaks2 (run_pool ec aes sha256 drA ops A1) (streams_after oA oB stA) (xss, A2) pA pB"
      "speaks2 (run_pool ec aes sha256 drB ops B1) (streams_after oB oA stB) (yss, B2) pB pA" "pools_in active dA dB A2 B2"
      "map length xss = draw_counts ops" "list_all2 (\<lambda>xs ys. verify_share_relation xs dA ys dB) xss yss"
      using Cons.IH [OF d(4) in_touch2_after [OF Cons.prems(2)]] by blast
    have "speaks2 (run_pool ec aes sha256 drA (op # ops) A) stA (xs # xss, A2) (both_app oA pA) (both_app oB pB)"
      by (rule speaks2_then [OF d(1) speaks2_map [OF r(1), where b = "(xs # xss, A2)" and h = "\<lambda>st. bindR (run_pool ec aes sha256 drA ops A1 st) (\<lambda>((xss, pool), st). Inr ((xs # xss, pool), st))"]])
        (simp_all add: PDraw)
    moreover have "speaks2 (run_pool ec aes sha256 drB (op # ops) B) stB (ys # yss, B2) (both_app oB pB) (both_app oA pA)"
      by (rule speaks2_then [OF d(2) speaks2_map [OF r(2), where b = "(ys # yss, B2)" and h = "\<lambda>st. bindR (run_pool ec aes sha256 drB ops B1 st) (\<lambda>((xss, pool), st). Inr ((ys # xss, pool), st))"]])
        (simp_all add: PDraw)
    moreover have "map length (xs # xss) = draw_counts (op # ops)" "list_all2 (\<lambda>xs ys. verify_share_relation xs dA ys dB) (xs # xss) (ys # yss)"
      using d(3) r(4,5) by (simp_all add: PDraw draw_ok_def)
    ultimately show ?thesis using r(3) by blast
  next
    case False
    define fl where "fl = (\<lambda>dr :: 'c pool_draws. if op = PFlush then pool_flush ec aes sha256 (dr_csw1 dr) (dr_csw2 dr) else pool_maybe_flush ec aes sha256 (dr_csw1 dr) (dr_csw2 dr))"
    have run: "run_pool ec aes sha256 dr (op # ops) P st = bindR (fl dr P st) (\<lambda>(pool, st). run_pool ec aes sha256 dr ops pool st)" for dr P st
      using False by (cases op) (auto simp: fl_def)
    have "\<exists>A1 B1 oA oB. speaks2 (fl drA A) stA A1 oA oB \<and> speaks2 (fl drB B) stB B1 oB oA \<and> pools_in active dA dB A1 B1"
      using flush_talk [OF Cons.prems, of sha256, OF sha dr, of aes] maybe_flush_talk [OF Cons.prems, of sha256, OF sha dr, of aes] by (simp add: fl_def)
    then obtain A1 B1 oA oB where d: "speaks2 (fl drA A) stA A1 oA oB" "speaks2 (fl drB B) stB B1 oB oA" "pools_in active dA dB A1 B1" by blast
    obtain xss A2 yss B2 pA pB where r: "speaks2 (run_pool ec aes sha256 drA ops A1) (streams_after oA oB stA) (xss, A2) pA pB"
      "speaks2 (run_pool ec aes sha256 drB ops B1) (streams_after oB oA stB) (yss, B2) pB pA" "pools_in active dA dB A2 B2"
      "map length xss = draw_counts ops" "list_all2 (\<lambda>xs ys. verify_share_relation xs dA ys dB) xss yss"
      using Cons.IH [OF d(3) in_touch2_after [OF Cons.prems(2)]] by blast
    have "speaks2 (run_pool ec aes sha256 drA (op # ops) A) stA (xss, A2) (both_app oA pA) (both_app oB pB)"
      by (rule speaks2_then [OF d(1) r(1)]) (simp add: run)
    moreover have "speaks2 (run_pool ec aes sha256 drB (op # ops) B) stB (yss, B2) (both_app oB pB) (both_app oA pA)"
      by (rule speaks2_then [OF d(2) r(2)]) (simp add: run)
    moreover have "draw_counts (op # ops) = draw_counts ops" using False by (cases op) auto
    ultimately show ?thesis using r(3-5) by (intro exI conjI) (assumption | simp)+
  qed
qed

lemma speaks2D: "speaks2 f st a out inp \<Longrightarrow> f (arriving (fst inp) (snd inp) st) = Inr (a, arriving [] [] (streams_after out inp st))"
  unfolding speaks2_def by (drule spec [of _ "[]"], drule spec [of _ "[]"]) simp

definition silent :: "ag2pc_streams \<Rightarrow> bool" where
  "silent st \<longleftrightarrow> \<not> fs_enabled (st_main st) \<and> \<not> fs_enabled (st_sibling st)"

definition enabled_streams :: "bool \<Rightarrow> ag2pc_streams \<Rightarrow> ag2pc_streams" where
  "enabled_streams flag st = \<lparr>st_main = st_main st\<lparr>fs_send_first := flag, fs_send := Some [], fs_recv := Some []\<rparr>,
     st_sibling = st_sibling st\<lparr>fs_send_first := flag, fs_send := Some [], fs_recv := Some []\<rparr>\<rparr>"

lemma enable_both_run:
  assumes "silent st"
  shows "enable_both party (arriving m s st) = Inr (arriving m s (enabled_streams (party = Alice) st))"
  using assms by (simp add: silent_def enable_both_def enable_once_def enable_fs_def arriving_def enabled_streams_def fs_enabled_def)

definition fresh_pool :: "'c pool_draws \<Rightarrow> role \<Rightarrow> nat \<Rightarrow> block \<Rightarrow> ot_pool" where
  "fresh_pool draws party ssp delta = triple_pool_state.extend (triple_pool_new party ssp delta)
     (ot_pool.fields ((soft4_new Alice True (dr_delta draws) (dr_choice1 draws))\<lparr>so_delta := delta, so_delta_bool := block_to_bools delta\<rparr>)
        (soft4_new Bob True 0 (dr_choice2 draws)))"

lemma setup_starts:
  assumes "silent st"
  shows "setup_with_delta ec aes sha256 dr party ssp delta (arriving m s st) =
     begin_abits ec aes sha256 (dr_csw1 dr) (dr_csw2 dr) (fresh_pool dr party ssp (normalize_ag2pc_delta party delta))
       (arriving m s (enabled_streams (party = Alice) st))"
  by (simp add: setup_with_delta_def enable_both_run [OF assms] Let_def new_with_delta_def soft4_set_delta_def softspoken_set_delta_def
      soft_err_def soft4_new_def softspoken_new_def fresh_pool_def split: prod.split)

lemma fresh_pools:
  "pools_in paired (normalize_ag2pc_delta Alice dA) (normalize_ag2pc_delta Bob dB)
     (fresh_pool drA Alice ssp (normalize_ag2pc_delta Alice dA)) (fresh_pool drB Bob ssp (normalize_ag2pc_delta Bob dB))"
  by (simp add: pools_in_def fresh_pool_def triple_pool_state.defs ot_pool.defs paired_def triple_pool_new_def soft4_new_def softspoken_new_def Let_def)

lemma fresh_touch: "in_touch2 (enabled_streams True stA) (enabled_streams False stB)"
  by (simp add: in_touch2_def in_touch_def enabled_streams_def fs_enabled_def)


text \<open>C7: Two honest sides that set up their pools of correlated OTs over fresh streams, do the same
  draws and flushes in any number and order, and end, both succeed: the base OTs and the checks of both directions accept, and each
  draw gives both sides as many shares as they asked for, authenticated under each other's delta. What arrives at one side
  on each stream is what the other sends. The curve is any abelian group with the encodings the code expects; the
  draws meet no neutral element.\<close>
theorem ot_pools_draw_shares:
  assumes dr: "pool_draws_ok ec enc scal G hp drA drB" and sha: "\<forall>m. length (sha256 m) = 32" and st: "silent stA" "silent stB"
  shows "\<exists>mainA sibA mainB sibB xss yss stA' stB'.
     pool_session ec aes sha256 drA Alice ssp dA ops (arriving mainB sibB stA) = Inr (xss, stA')
   \<and> pool_session ec aes sha256 drB Bob ssp dB ops (arriving mainA sibA stB) = Inr (yss, stB')
   \<and> io_out (st_main stA') = io_out (st_main stA) @ mainA \<and> io_out (st_sibling stA') = io_out (st_sibling stA) @ sibA
   \<and> io_out (st_main stB') = io_out (st_main stB) @ mainB \<and> io_out (st_sibling stB') = io_out (st_sibling stB) @ sibB
   \<and> map length xss = draw_counts ops
   \<and> list_all2 (\<lambda>xs ys. verify_share_relation xs (normalize_ag2pc_delta Alice dA) ys (normalize_ag2pc_delta Bob dB)) xss yss"
proof -
  let ?dA = "normalize_ag2pc_delta Alice dA" and ?dB = "normalize_ag2pc_delta Bob dB"
  let ?eA = "enabled_streams True stA" and ?eB = "enabled_streams False stB"
  have s: "\<And>m. length (sha256 m) = 32" using sha by simp
  obtain A1 B1 o1 p1 where b: "speaks2 (begin_abits ec aes sha256 (dr_csw1 drA) (dr_csw2 drA) (fresh_pool drA Alice ssp ?dA)) ?eA A1 o1 p1"
    "speaks2 (begin_abits ec aes sha256 (dr_csw1 drB) (dr_csw2 drB) (fresh_pool drB Bob ssp ?dB)) ?eB B1 p1 o1" "pools_in active ?dA ?dB A1 B1"
    using begin_abits_talk [OF fresh_pools fresh_touch, of sha256, OF s dr] by blast
  obtain xss A2 yss B2 o2 p2 where r: "speaks2 (run_pool ec aes sha256 drA ops A1) (streams_after o1 p1 ?eA) (xss, A2) o2 p2"
    "speaks2 (run_pool ec aes sha256 drB ops B1) (streams_after p1 o1 ?eB) (yss, B2) p2 o2" "pools_in active ?dA ?dB A2 B2"
    "map length xss = draw_counts ops" "list_all2 (\<lambda>xs ys. verify_share_relation xs ?dA ys ?dB) xss yss"
    using run_talk [OF b(3) in_touch2_after [OF fresh_touch], of sha256, OF s dr] by blast
  obtain A3 B3 o3 p3 where e: "speaks2 (pool_end aes sha256 A2) (streams_after o2 p2 (streams_after o1 p1 ?eA)) A3 o3 p3"
    "speaks2 (pool_end aes sha256 B2) (streams_after p2 o2 (streams_after p1 o1 ?eB)) B3 p3 o3"
    using end_abits_talk [OF r(3) in_touch2_after [OF in_touch2_after [OF fresh_touch]]] by blast
  let ?o = "both_app o1 (both_app o2 o3)" and ?p = "both_app p1 (both_app p2 p3)"
  define sess where "sess dr dP ops P = (\<lambda>st. bindR (begin_abits ec aes sha256 (dr_csw1 dr) (dr_csw2 dr) (fresh_pool dr P ssp dP) st) (\<lambda>(pool, st).
     bindR (run_pool ec aes sha256 dr ops pool st) (\<lambda>((xss, pool), st). bindR (pool_end aes sha256 pool st) (\<lambda>(pool, st). Inr (xss, st)))))" for dr dP ops P
  have "speaks2 (sess drA ?dA ops Alice) ?eA xss ?o ?p"
    by (rule speaks2_then [OF b(1) speaks2_then [OF r(1) speaks2_map [OF e(1)]]]) (simp_all add: sess_def)
  moreover have "speaks2 (sess drB ?dB ops Bob) ?eB yss ?p ?o"
    by (rule speaks2_then [OF b(2) speaks2_then [OF r(2) speaks2_map [OF e(2)]]]) (simp_all add: sess_def)
  ultimately have sess: "sess drA ?dA ops Alice (arriving (fst ?p) (snd ?p) ?eA) = Inr (xss, arriving [] [] (streams_after ?o ?p ?eA))"
    "sess drB ?dB ops Bob (arriving (fst ?o) (snd ?o) ?eB) = Inr (yss, arriving [] [] (streams_after ?p ?o ?eB))"
    by (auto dest: speaks2D)
  then have runs: "pool_session ec aes sha256 drA Alice ssp dA ops (arriving (fst ?p) (snd ?p) stA) = Inr (xss, arriving [] [] (streams_after ?o ?p ?eA))"
    "pool_session ec aes sha256 drB Bob ssp dB ops (arriving (fst ?o) (snd ?o) stB) = Inr (yss, arriving [] [] (streams_after ?p ?o ?eB))"
    unfolding sess_def by (simp_all only: pool_session_def setup_starts [OF st(1)] setup_starts [OF st(2)] role.simps simp_thms)
  have outs: "io_out (st_main (arriving [] [] (streams_after x y (enabled_streams f st)))) = io_out (st_main st) @ fst x"
    "io_out (st_sibling (arriving [] [] (streams_after x y (enabled_streams f st)))) = io_out (st_sibling st) @ snd x" for x y f st
    by (simp_all add: arriving_def streams_after_def enabled_streams_def io_after_def)
  show ?thesis by (intro exI conjI) (rule runs(1), rule runs(2), rule outs, rule outs, rule outs, rule outs, rule r(4), rule r(5))
qed

section \<open>A curve of words\<close>

text \<open>The group of the 64-bit words under addition, with encodings of 65 bytes: it meets what is asked of the curve.\<close>

definition word_point :: "u64 \<Rightarrow> bytes" where
  "word_point P = 4 # le_bytes 8 P @ replicate 56 0"

definition point_word :: "bytes \<Rightarrow> u64" where
  "point_word p = word_of_le (take 8 (drop 1 p))"

definition word_curve :: "u64 p256" where
  "word_curve = \<lparr>mul_gen_bn = \<lambda>a. Inr (word_point a), point_mul_bn = \<lambda>p a. Inr (word_point (a * point_word p)),
     point_add = \<lambda>p q. Inr (word_point (point_word p + point_word q)), point_inv = \<lambda>p. Inr (word_point (- point_word p)),
     hash_from_bytes = \<lambda>m dst. Some (word_point 1)\<rparr>"

lemma point_word_point [simp]: "point_word (word_point P) = P"
proof -
  have "word_of_le (le_bytes 8 P) = P" by (rule word_of_le_le_bytes) simp
  then show ?thesis by (simp add: point_word_def word_point_def)
qed

lemma word_curve_group: "curve_group word_curve word_point (*) 1 (\<lambda>m dst. 1)"
proof -
  have "length (word_point P) = POINT_BYTES" for P by (simp add: word_point_def POINT_BYTES_def)
  then show ?thesis by (simp add: curve_group_def word_curve_def algebra_simps)
qed

definition word_draws :: "u64 csw_draws" where
  "word_draws = \<lparr>dr_seed = 5, dr_alphas = replicate 128 1, dr_scalar = 3\<rparr>"

definition word_pool_draws :: "u64 pool_draws" where
  "word_pool_draws = \<lparr>dr_delta = 9, dr_choice1 = 10, dr_choice2 = 11, dr_csw1 = word_draws, dr_csw2 = word_draws\<rparr>"

definition empty_streams :: ag2pc_streams where
  "empty_streams = (let io = \<lparr>fs_send_first = False, fs_send = None, fs_recv = None, io_in = [], io_out = []\<rparr>
     in \<lparr>st_main = io, st_sibling = io\<rparr>)"

lemma word_draws_ok: "pool_draws_ok word_curve word_point (*) 1 (\<lambda>m dst. 1) word_pool_draws word_pool_draws"
  by (simp add: pool_draws_ok_def csw_ok_def word_curve_group word_pool_draws_def word_draws_def good_draws_def csw_hidden_def Let_def)

theorem ot_pools_draw_shares_witness:
  "\<exists>mainA sibA mainB sibB xss yss stA' stB'.
     pool_session word_curve (\<lambda>k b. k XOR b) (\<lambda>m. replicate 32 7) word_pool_draws Alice 40 77
       [PDraw 3, PDraw 9000, PMaybeFlush, PDraw 5] (arriving mainB sibB empty_streams) = Inr (xss, stA')
   \<and> pool_session word_curve (\<lambda>k b. k XOR b) (\<lambda>m. replicate 32 7) word_pool_draws Bob 40 78
       [PDraw 3, PDraw 9000, PMaybeFlush, PDraw 5] (arriving mainA sibA empty_streams) = Inr (yss, stB')
   \<and> io_out (st_main stA') = io_out (st_main empty_streams) @ mainA \<and> io_out (st_sibling stA') = io_out (st_sibling empty_streams) @ sibA
   \<and> io_out (st_main stB') = io_out (st_main empty_streams) @ mainB \<and> io_out (st_sibling stB') = io_out (st_sibling empty_streams) @ sibB
   \<and> map length xss = [3, 9000, 5]
   \<and> list_all2 (\<lambda>xs ys. verify_share_relation xs (normalize_ag2pc_delta Alice 77) ys (normalize_ag2pc_delta Bob 78)) xss yss"
proof -
  have quiet: "silent empty_streams" by (simp add: silent_def empty_streams_def fs_enabled_def Let_def)
  have "\<forall>m. length ((\<lambda>m :: bytes. replicate 32 (7 :: u8)) m) = 32" by simp
  from ot_pools_draw_shares [OF word_draws_ok this quiet quiet, where ops = "[PDraw 3, PDraw 9000, PMaybeFlush, PDraw 5]" and aes = "\<lambda>k b. k XOR b"
      and ssp = 40 and dA = 77 and dB = 78]
  show ?thesis unfolding draw_counts.simps by assumption
qed

end
